(* ===== verification/Go_Prelude.thy ===== *)
theory Go_Prelude
  imports Main "HOL-Library.Word" "HOL-Library.List_Lexorder" "HOL-Library.Char_ord"
    "HOL-Library.AList" "HOL-Library.Multiset"
begin

section \<open>Go's language and standard library, as far as the program uses them\<close>

text \<open>
  The shared layer of the development. It holds the machine integers of Go as words, the
  collections of simplification facts the component theories use, the decoding of 32-bit integers
  and \<open>sort.Search\<close> (binary search over an index range). \<open>container/heap\<close> is in \<open>Go_Heap\<close>.

  A Go string is a byte sequence and \<open><\<close> on strings compares bytes: type \<open>string\<close> (a list of
  8-bit characters) with the lexicographic order of \<open>List_Lexorder\<close> and \<open>Char_ord\<close>. A Go map is
  an association list with distinct keys: ranging over a map visits the list in its order, and as
  a map has every permutation of its entries as a representation, a theorem that holds for every
  association list holds for every iteration order.

  \<open>sort.Sort\<close> and \<open>sort.Slice\<close> are not stable: where the code's \<open>Less\<close> calls two elements
  equal, their order in the result is not specified by Go. The model is insertion sort, which is
  the algorithm the library itself uses for slices of at most 12 elements; statements about the
  order of elements only speak about elements that \<open>Less\<close> separates.
\<close>

type_synonym u8 = "8 word"
type_synonym u32 = "32 word"
type_synonym u64 = "64 word"
type_synonym i32 = "32 word"
type_synonym i64 = "64 word"

named_theorems go_simps \<open>evaluation rules of the library functions\<close>
named_theorems inv_intros \<open>preservation of invariants\<close>

subsection \<open>encoding/binary\<close>

text \<open>\<open>binary.BigEndian.Uint32\<close> on the first four bytes.\<close>

definition be_uint32 :: "u8 list \<Rightarrow> u32" where
  "be_uint32 bs =
     push_bit 24 (ucast (bs ! 0)) + push_bit 16 (ucast (bs ! 1)) + push_bit 8 (ucast (bs ! 2)) + ucast (bs ! 3)"

subsection \<open>sort.Search\<close>

text \<open>\<open>sort.Search(n, f)\<close>: the loop with its bounds \<open>i\<close> and \<open>j\<close>.\<close>

function search_loop :: "(nat \<Rightarrow> bool) \<Rightarrow> nat \<Rightarrow> nat \<Rightarrow> nat" where
  "search_loop f i j =
     (if i < j then
        let h = (i + j) div 2
        in if \<not> f h then search_loop f (h + 1) j else search_loop f i h
      else i)"
  by pat_completeness auto
termination
  by (relation "measure (\<lambda>(f, i, j). j - i)") auto

declare search_loop.simps [simp del]

definition go_search :: "nat \<Rightarrow> (nat \<Rightarrow> bool) \<Rightarrow> nat" where
  "go_search n f = search_loop f 0 n"

lemma go_search_0 [simp]: "go_search 0 f = 0"
  by (subst go_search_def, subst search_loop.simps) simp

text \<open>On a monotone predicate the loop returns the least index where it holds.\<close>

lemma search_loop_spec:
  assumes "\<And>a b. a \<le> b \<Longrightarrow> b < j \<Longrightarrow> f a \<Longrightarrow> f b"
    and "i \<le> j"
  shows "i \<le> search_loop f i j \<and> search_loop f i j \<le> j
    \<and> (\<forall>k. i \<le> k \<and> k < search_loop f i j \<longrightarrow> \<not> f k)
    \<and> (search_loop f i j < j \<longrightarrow> f (search_loop f i j))"
  using assms
proof (induction f i j rule: search_loop.induct)
  case (1 f i j)
  show ?case
  proof (cases "i < j")
    case False
    then show ?thesis using "1.prems" by (auto simp: search_loop.simps)
  next
    case True
    define h where "h = (i + j) div 2"
    have hb: "i \<le> h" "h < j" using True by (auto simp: h_def)
    show ?thesis
    proof (cases "f h")
      case True
      have step: "search_loop f i j = search_loop f i h"
        using \<open>i < j\<close> True by (subst search_loop.simps) (simp add: h_def Let_def)
      have mono: "\<And>a b. a \<le> b \<Longrightarrow> b < h \<Longrightarrow> f a \<Longrightarrow> f b"
        using "1.prems"(1) hb by auto
      have IH: "i \<le> search_loop f i h \<and> search_loop f i h \<le> h
          \<and> (\<forall>k. i \<le> k \<and> k < search_loop f i h \<longrightarrow> \<not> f k)
          \<and> (search_loop f i h < h \<longrightarrow> f (search_loop f i h))"
        using "1.IH"(2)[OF \<open>i < j\<close> h_def] True mono hb by simp
      then show ?thesis using step hb True
        by (cases "search_loop f i h < h") auto
    next
      case False
      have step: "search_loop f i j = search_loop f (h + 1) j"
        using \<open>i < j\<close> False by (subst search_loop.simps) (simp add: h_def Let_def)
      have IH: "h + 1 \<le> search_loop f (h + 1) j \<and> search_loop f (h + 1) j \<le> j
          \<and> (\<forall>k. h + 1 \<le> k \<and> k < search_loop f (h + 1) j \<longrightarrow> \<not> f k)
          \<and> (search_loop f (h + 1) j < j \<longrightarrow> f (search_loop f (h + 1) j))"
        using "1.IH"(1)[OF \<open>i < j\<close> h_def] False "1.prems"(1) hb by simp
      have "\<not> f k" if "i \<le> k" "k \<le> h" for k
        using that False "1.prems"(1)[of k h] hb by auto
      then show ?thesis using IH step hb by (metis Suc_eq_plus1 le_trans less_Suc_eq_le not_less_eq_eq order_less_imp_le)
    qed
  qed
qed

text \<open>
  On a sorted slice, searching for the first element that is at least \<open>x\<close> gives the number of
  elements below \<open>x\<close>; this is the only way the program calls \<open>sort.Search\<close>.
\<close>

definition search_ge :: "'a::linorder list \<Rightarrow> 'a \<Rightarrow> nat" where
  "search_ge xs x = go_search (length xs) (\<lambda>i. x \<le> xs ! i)"

lemma search_ge_takeWhile:
  assumes "sorted xs"
  shows "search_ge xs x = length (takeWhile (\<lambda>y. y < x) xs)"
proof -
  let ?f = "\<lambda>i. x \<le> xs ! i"
  let ?r = "search_loop ?f 0 (length xs)"
  have spec: "?r \<le> length xs \<and> (\<forall>k. k < ?r \<longrightarrow> \<not> ?f k) \<and> (?r < length xs \<longrightarrow> ?f ?r)"
    using search_loop_spec[of "length xs" ?f 0] assms
    by (auto intro: order_trans sorted_nth_mono)
  have "takeWhile (\<lambda>y. y < x) xs = take ?r xs"
    using spec by (intro takeWhile_eq_take_P_nth) (auto simp: not_le not_less)
  then have "length (takeWhile (\<lambda>y. y < x) xs) = ?r" using spec by simp
  then show ?thesis by (simp add: search_ge_def go_search_def)
qed

end
