(* ===== verification/Flame_Tree.thy ===== *)
theory Flame_Tree
  imports Go_Prelude "HOL-Library.Sublist"
begin

section \<open>Merging stack traces into a tree (pkg/querier/tree.go)\<close>

text \<open>
  The call tree the querier builds from the merged stack traces. A \<open>*node\<close> is a value of the
  datatype \<open>node\<close>; its \<open>parent\<close> pointer is not a field: \<open>stackToTree\<close>, \<open>mergeTree\<close> and
  \<open>Add\<close> set it to the node whose \<open>children\<close> holds the node, and the code only follows it to
  walk from a node up to its root, which the model does along the path of indices that
  \<open>findNodeOrParent\<close> took. Values are 64-bit and wrap around.
\<close>

datatype node = Node (node_name: string) (node_self: i64) (node_total: i64) (node_children: "node list")

record tree =
  tree_root :: "node list"

record stacktraces =
  st_locations :: "string list"
  st_value :: i64

definition emptyTree :: tree where
  "emptyTree = \<lparr>tree_root = []\<rparr>"

definition tree_Add :: "tree \<Rightarrow> string \<Rightarrow> i64 \<Rightarrow> i64 \<Rightarrow> tree" where
  "tree_Add t name self tot = t\<lparr>tree_root := tree_root t @ [Node name self tot []]\<rparr>"

definition node_Add :: "node \<Rightarrow> string \<Rightarrow> i64 \<Rightarrow> i64 \<Rightarrow> node" where
  "node_Add n name self tot =
     Node (node_name n) (node_self n) (node_total n) (node_children n @ [Node name self tot []])"

text \<open>\<open>stackToTree\<close>: the first location is the leaf; each further one becomes the parent.\<close>

fun wrap_parents :: "node \<Rightarrow> string list \<Rightarrow> node" where
  "wrap_parents current [] = current"
| "wrap_parents current (name # remaining) =
     wrap_parents (Node name 0 (node_total current) [current]) remaining"

definition stackToTree :: "stacktraces \<Rightarrow> tree" where
  "stackToTree stack =
     (case st_locations stack of
        [] \<Rightarrow> emptyTree
      | l # remaining \<Rightarrow>
          \<lparr>tree_root = [wrap_parents (Node l (st_value stack) (st_value stack) []) remaining]\<rparr>)"

text \<open>
  \<open>findNodeOrParent\<close>: the path of child indices walked (to the found node, or to the last common
  parent), whether the end of the new path was found, and the node to merge there. \<open>i\<close> is the
  index of the head of \<open>remaining\<close>.
\<close>

fun findNodeOrParent :: "node list \<Rightarrow> nat \<Rightarrow> node \<Rightarrow> nat list \<times> bool \<times> node" where
  "findNodeOrParent [] i current = ([], False, current)"
| "findNodeOrParent (Node name self tot kids # remaining) i current =
     (if name = node_name current then
        (case node_children current of
           [] \<Rightarrow> ([i], True, current)
         | c # _ \<Rightarrow> (case findNodeOrParent kids 0 c of (path, found, m) \<Rightarrow> (i # path, found, m)))
      else findNodeOrParent remaining (i + 1) current)"

text \<open>The two updates of \<open>mergeTree\<close>, along the path from the root.\<close>

fun add_missing :: "node list \<Rightarrow> nat list \<Rightarrow> node \<Rightarrow> node list" where
  "add_missing ns [] m = ns @ [m]"
| "add_missing ns (i # path) m =
     (case ns ! i of
        Node name self tot kids \<Rightarrow>
          ns[i := Node name self (tot + node_total m) (add_missing kids path m)])"

fun add_found :: "node list \<Rightarrow> nat list \<Rightarrow> node \<Rightarrow> node list" where
  "add_found ns [] m = ns"
| "add_found ns [i] m =
     (case ns ! i of
        Node name self tot kids \<Rightarrow>
          ns[i := Node name (self + node_self m) (tot + node_self m) kids])"
| "add_found ns (i # path) m =
     (case ns ! i of
        Node name self tot kids \<Rightarrow>
          ns[i := Node name self (tot + node_total m) (add_found kids path m)])"

definition mergeRoot :: "node list \<Rightarrow> node \<Rightarrow> node list" where
  "mergeRoot root rootNode =
     (case findNodeOrParent root 0 rootNode of
        (path, found, toMerge) \<Rightarrow>
          if found then add_found root path toMerge else add_missing root path toMerge)"

definition mergeTree :: "tree \<Rightarrow> tree \<Rightarrow> tree" where
  "mergeTree dst src = dst\<lparr>tree_root := foldl mergeRoot (tree_root dst) (tree_root src)\<rparr>"

fun newTree_loop :: "tree \<Rightarrow> stacktraces list \<Rightarrow> tree" where
  "newTree_loop t [] = t"
| "newTree_loop t (stack # stacks) =
     (if st_value stack = 0 then newTree_loop t stacks
      else newTree_loop (mergeTree t (stackToTree stack)) stacks)"

definition newTree :: "stacktraces list \<Rightarrow> tree" where
  "newTree stacks = newTree_loop emptyTree stacks"


subsection \<open>Inserting one path\<close>

text \<open>The node \<open>stackToTree\<close> builds for a path of names from the root.\<close>

fun chain :: "string list \<Rightarrow> i64 \<Rightarrow> node" where
  "chain [] v = Node [] v v []"
| "chain [x] v = Node x v v []"
| "chain (x # y # xs) v = Node x 0 v [chain (y # xs) v]"

lemma chain_total [simp]: "xs \<noteq> [] \<Longrightarrow> node_total (chain xs v) = v"
  by (cases "(xs, v)" rule: chain.cases) auto

lemma chain_name [simp]: "xs \<noteq> [] \<Longrightarrow> node_name (chain xs v) = hd xs"
  by (cases "(xs, v)" rule: chain.cases) auto

lemma chain_Cons: "chain (x # xs) v = (if xs = [] then Node x v v [] else Node x 0 v [chain xs v])"
  by (cases xs) auto

lemma wrap_parents_chain:
  "xs \<noteq> [] \<Longrightarrow> wrap_parents (chain xs v) ys = chain (rev ys @ xs) v"
proof (induction ys arbitrary: xs)
  case (Cons y ys)
  then show ?case using Cons.IH[of "y # xs"] by (simp add: chain_Cons)
qed simp

lemma stackToTree_root:
  "tree_root (stackToTree st) =
     (if st_locations st = [] then [] else [chain (rev (st_locations st)) (st_value st)])"
  using wrap_parents_chain[of "[l]" "st_value st" ls for l ls]
  by (cases "st_locations st") (auto simp: stackToTree_def emptyTree_def)

text \<open>The reference insertion, by recursion on the path.\<close>

fun ins :: "node list \<Rightarrow> string list \<Rightarrow> i64 \<Rightarrow> node list" where
  "ins ns [] v = ns"
| "ins [] (p # ps) v = [chain (p # ps) v]"
| "ins (Node name self tot kids # ns) (p # ps) v =
     (if name = p then
        (if ps = [] then Node name (self + v) (tot + v) kids # ns
         else Node name self (tot + v) (ins kids ps v) # ns)
      else Node name self tot kids # ins ns (p # ps) v)"

lemma find_shift:
  "findNodeOrParent ns (i + k) c =
     (case findNodeOrParent ns i c of
        ([], f, m) \<Rightarrow> ([], f, m) | (j # p, f, m) \<Rightarrow> ((j + k) # p, f, m))"
  by (induction ns i c rule: findNodeOrParent.induct)
    (auto split: list.splits prod.splits)

lemma find_found_path: "findNodeOrParent ns i c = (p, True, m) \<Longrightarrow> p \<noteq> []"
  by (induction ns i c arbitrary: p m rule: findNodeOrParent.induct)
    (auto split: list.splits prod.splits if_splits)

lemma add_missing_shift: "add_missing (n # ns) (Suc j # p) m = n # add_missing ns (j # p) m"
  by (auto split: node.splits)

lemma add_found_shift: "add_found (n # ns) (Suc j # p) m = n # add_found ns (j # p) m"
  by (cases p) (auto split: node.splits)

definition merge_at :: "node list \<Rightarrow> nat list \<times> bool \<times> node \<Rightarrow> node list" where
  "merge_at ns r = (case r of (p, f, m) \<Rightarrow> if f then add_found ns p m else add_missing ns p m)"

text \<open>What is left to merge is a suffix of the chain: it carries the stack's value.\<close>

lemma find_chain_value:
  "findNodeOrParent ns i c = (p, f, m) \<Longrightarrow> c = chain qs v \<Longrightarrow> qs \<noteq> [] \<Longrightarrow>
   node_total m = v \<and> (f \<longrightarrow> node_self m = v)"
proof (induction ns i c arbitrary: qs p f m rule: findNodeOrParent.induct)
  case (2 name self tot kids remaining i current)
  obtain q qs' where qs: "qs = q # qs'" using "2.prems"(3) by (cases qs) auto
  show ?case
  proof (cases "name = q")
    case False
    then have ne: "name \<noteq> node_name current" using "2.prems"(2) qs by simp
    then have "findNodeOrParent remaining (i + 1) current = (p, f, m)" using "2.prems"(1) by simp
    then show ?thesis using "2.IH"(2)[OF ne] "2.prems"(2,3) by blast
  next
    case True
    show ?thesis
    proof (cases "qs' = []")
      case True
      then show ?thesis using "2.prems" qs \<open>name = q\<close> by (auto simp: chain_Cons)
    next
      case F: False
      obtain p' where "findNodeOrParent kids 0 (chain qs' v) = (p', f, m)"
        using "2.prems" qs \<open>name = q\<close> F by (auto simp: chain_Cons split: prod.splits)
      then show ?thesis using "2.IH"(1)[of "chain qs' v" "[]" p' f m qs'] "2.prems"(2) qs F \<open>name = q\<close>
        by (simp add: chain_Cons)
    qed
  qed
qed auto

lemma mergeRoot_chain: "qs \<noteq> [] \<Longrightarrow> mergeRoot ns (chain qs v) = ins ns qs v"
proof (induction ns qs v rule: ins.induct)
  case (3 name self tot kids ns p ps v)
  show ?case
  proof (cases "name = p")
    case False
    obtain q f m where r: "findNodeOrParent ns 0 (chain (p # ps) v) = (q, f, m)" by (cases rule: prod_cases3)
    have "findNodeOrParent ns 1 (chain (p # ps) v)
        = (case q of [] \<Rightarrow> ([], f, m) | j # p \<Rightarrow> (Suc j # p, f, m))"
      using find_shift[of ns 0 1 "chain (p # ps) v"] r by (auto split: list.splits)
    then have "mergeRoot (Node name self tot kids # ns) (chain (p # ps) v)
        = Node name self tot kids # mergeRoot ns (chain (p # ps) v)"
      using False r find_found_path[of ns 0 "chain (p # ps) v" q m]
      by (cases q; cases f) (auto simp: mergeRoot_def chain_Cons add_missing_shift add_found_shift
          simp del: add_missing.simps(2) add_found.simps)
    then show ?thesis using False "3.IH"(2) by simp
  next
    case True
    show ?thesis
    proof (cases "ps = []")
      case True
      then show ?thesis using \<open>name = p\<close> by (simp add: mergeRoot_def)
    next
      case False
      obtain q f m where r: "findNodeOrParent kids 0 (chain ps v) = (q, f, m)" by (cases rule: prod_cases3)
      have val: "node_total m = v" using find_chain_value[OF r refl False] by simp
      have "f \<Longrightarrow> q \<noteq> []" using find_found_path[of kids 0 "chain ps v" q m] r by auto
      then have "mergeRoot (Node name self tot kids # ns) (chain (p # ps) v)
          = Node name self (tot + v) (mergeRoot kids (chain ps v)) # ns"
        using \<open>name = p\<close> False r val
        by (cases q; cases f) (auto simp: mergeRoot_def chain_Cons)
      then show ?thesis using \<open>name = p\<close> False "3.IH"(1) by simp
    qed
  qed
qed (auto simp: mergeRoot_def)

lemma newTree_loop_ins:
  "tree_root (newTree_loop t sts) =
     foldl (\<lambda>ns st. if st_value st = 0 then ns else ins ns (rev (st_locations st)) (st_value st))
       (tree_root t) sts"
proof (induction sts arbitrary: t)
  case (Cons st sts)
  show ?case using Cons[of t] Cons[of "mergeTree t (stackToTree st)"]
    by (cases "st_locations st = []") (simp_all add: mergeTree_def stackToTree_root mergeRoot_chain)
qed simp


subsection \<open>Self and total values along a path of names\<close>

text \<open>The sums of the \<open>self\<close> and of the \<open>total\<close> fields of the nodes a path of names leads to.\<close>

fun val_at :: "(node \<Rightarrow> i64) \<Rightarrow> node list \<Rightarrow> string list \<Rightarrow> i64" where
  "val_at fld ns [] = 0"
| "val_at fld [] (p # ps) = 0"
| "val_at fld (n # ns) (p # ps) =
     (if node_name n = p then (if ps = [] then fld n else val_at fld (node_children n) ps) else 0)
     + val_at fld ns (p # ps)"

abbreviation self_at :: "node list \<Rightarrow> string list \<Rightarrow> i64" where
  "self_at \<equiv> val_at node_self"

abbreviation total_at :: "node list \<Rightarrow> string list \<Rightarrow> i64" where
  "total_at \<equiv> val_at node_total"

lemma val_at_Nil2 [simp]: "val_at fld ns [] = 0"
  by (cases ns) auto

lemma val_at_none [simp]: "val_at fld [] ps = 0"
  by (cases ps) auto

lemma self_at_chain: "ps \<noteq> [] \<Longrightarrow> qs \<noteq> [] \<Longrightarrow> self_at [chain ps v] qs = (if qs = ps then v else 0)"
proof (induction ps arbitrary: qs)
  case (Cons p ps)
  then show ?case by (cases qs) (auto simp: chain_Cons)
qed simp

lemma total_at_chain:
  "ps \<noteq> [] \<Longrightarrow> qs \<noteq> [] \<Longrightarrow> total_at [chain ps v] qs = (if prefix qs ps then v else 0)"
proof (induction ps arbitrary: qs)
  case (Cons p ps)
  then show ?case by (cases qs) (auto simp: chain_Cons)
qed simp

lemma self_at_ins:
  "qs \<noteq> [] \<Longrightarrow> self_at (ins ns ps v) qs = self_at ns qs + (if qs = ps then v else 0)"
proof (induction ns ps v arbitrary: qs rule: ins.induct)
  case (2 p ps v)
  then show ?case using self_at_chain[of "p # ps" qs v] by simp
next
  case (3 name self tot kids ns p ps v)
  then obtain q qs' where "qs = q # qs'" by (cases qs) auto
  then show ?case using 3 by (cases "qs' = []") auto
qed simp

lemma total_at_ins:
  "qs \<noteq> [] \<Longrightarrow> total_at (ins ns ps v) qs = total_at ns qs + (if prefix qs ps then v else 0)"
proof (induction ns ps v arbitrary: qs rule: ins.induct)
  case (2 p ps v)
  then show ?case using total_at_chain[of "p # ps" qs v] by simp
next
  case (3 name self tot kids ns p ps v)
  then obtain q qs' where "qs = q # qs'" by (cases qs) auto
  then show ?case using 3 by (cases "qs' = []") auto
qed simp

text \<open>A call tree is well formed: siblings have distinct names, and totals add up.\<close>

fun wf_nodes :: "node list \<Rightarrow> bool" where
  "wf_nodes [] = True"
| "wf_nodes (Node name self tot kids # ns) =
     (name \<notin> node_name ` set ns \<and> tot = self + sum_list (map node_total kids)
      \<and> wf_nodes kids \<and> wf_nodes ns)"

lemma wf_chain: "wf_nodes [chain ps v]"
  by (induction ps v rule: chain.induct) auto

lemma ins_names:
  "node_name ` set (ins ns ps v) = node_name ` set ns \<union> (if ps = [] then {} else {hd ps})"
  by (induction ns ps v rule: ins.induct) auto

lemma ins_sum_total:
  "sum_list (map node_total (ins ns ps v)) = sum_list (map node_total ns) + (if ps = [] then 0 else v)"
  by (induction ns ps v rule: ins.induct) (auto simp: algebra_simps)

lemma wf_ins [inv_intros]: "wf_nodes ns \<Longrightarrow> wf_nodes (ins ns ps v)"
proof (induction ns ps v rule: ins.induct)
  case (2 p ps v)
  then show ?case using wf_chain[of "p # ps" v] by simp
next
  case (3 name self tot kids ns p ps v)
  then show ?case by (auto simp: ins_names ins_sum_total algebra_simps)
qed simp


subsection \<open>Properties\<close>

definition stack_path :: "stacktraces \<Rightarrow> string list" where
  "stack_path st = rev (st_locations st)"

text \<open>
  C1. The tree \<open>newTree\<close> builds holds the flame graph's numbers: for every path of function
  names from the root, the self value found there is the sum of the values of the stack traces
  with exactly this path, and the total value is the sum over all stack traces that start with
  it (both modulo the 64-bit wrap-around of Go).
\<close>

theorem newTree_values:
  assumes "path \<noteq> []"
  shows "self_at (tree_root (newTree stacks)) path
           = (\<Sum>st\<leftarrow>stacks. if stack_path st = path then st_value st else 0)
       \<and> total_at (tree_root (newTree stacks)) path
           = (\<Sum>st\<leftarrow>stacks. if prefix path (stack_path st) then st_value st else 0)"
proof -
  let ?step = "\<lambda>ns st. if st_value st = 0 then ns else ins ns (rev (st_locations st)) (st_value st)"
  have "self_at (foldl ?step ns stacks) path
      = self_at ns path + (\<Sum>st\<leftarrow>stacks. if stack_path st = path then st_value st else 0)
    \<and> total_at (foldl ?step ns stacks) path
      = total_at ns path + (\<Sum>st\<leftarrow>stacks. if prefix path (stack_path st) then st_value st else 0)" for ns
  proof (induction stacks arbitrary: ns)
    case (Cons st stacks)
    show ?case using Cons[of "?step ns st"]
      by (auto simp: stack_path_def self_at_ins[OF assms] total_at_ins[OF assms] algebra_simps)
  qed simp
  from this[of "[]"] show ?thesis
    by (simp add: newTree_def newTree_loop_ins emptyTree_def)
qed

theorem newTree_values_witness:
  "self_at (tree_root (newTree
      [\<lparr>st_locations = [''b'', ''a''], st_value = 3\<rparr>, \<lparr>st_locations = [''a''], st_value = 4\<rparr>,
       \<lparr>st_locations = [''c'', ''a''], st_value = 5\<rparr>])) [''a''] = 4
   \<and> total_at (tree_root (newTree
      [\<lparr>st_locations = [''b'', ''a''], st_value = 3\<rparr>, \<lparr>st_locations = [''a''], st_value = 4\<rparr>,
       \<lparr>st_locations = [''c'', ''a''], st_value = 5\<rparr>])) [''a''] = 12"
  using newTree_values[of "[''a'']" "[\<lparr>st_locations = [''b'', ''a''], st_value = 3\<rparr>,
     \<lparr>st_locations = [''a''], st_value = 4\<rparr>, \<lparr>st_locations = [''c'', ''a''], st_value = 5\<rparr>]"]
  by (simp add: stack_path_def)

text \<open>
  Every tree \<open>newTree\<close> builds is well formed: no two siblings have the same name, and the
  total of every node is its own value plus the totals of its children.
\<close>

theorem newTree_wf: "wf_nodes (tree_root (newTree stacks))"
proof -
  let ?step = "\<lambda>ns st. if st_value st = 0 then ns else ins ns (rev (st_locations st)) (st_value st)"
  have "wf_nodes ns \<Longrightarrow> wf_nodes (foldl ?step ns stacks)" for ns
    by (induction stacks arbitrary: ns) (auto intro: inv_intros)
  from this[of "[]"] show ?thesis by (simp add: newTree_def newTree_loop_ins emptyTree_def)
qed

end
