(* ===== verification/Flamegraph.thy ===== *)
theory Flamegraph
  imports Flame_Tree
begin

section \<open>Laying out a flame graph (pkg/querier/stack.go, pkg/querier/flamegraph.go)\<close>

text \<open>
  \<open>Stack\<close>, the generic stack with its top at the end of the slice, and \<open>NewFlameGraph\<close>, which
  visits the call tree with an explicit stack and writes, level by level, four numbers per node:
  the horizontal offset (delta encoded), the total, the self value and an index into the table of
  names. The main result is that decoding the levels gives the left-to-right layout of the tree,
  whatever the names are. An index out of range, which panics in Go, is \<open>None\<close> here.
\<close>

subsection \<open>The stack\<close>

type_synonym 'a Stack = "'a list"

definition NewStack :: "'a Stack" where
  "NewStack = []"

definition Stack_Push :: "'a Stack \<Rightarrow> 'a \<Rightarrow> 'a Stack" where
  "Stack_Push s v = s @ [v]"

definition Stack_Pop :: "'a Stack \<Rightarrow> ('a \<times> 'a Stack) option" where
  "Stack_Pop s = (if s = [] then None else Some (last s, butlast s))"

definition Stack_Slice :: "'a Stack \<Rightarrow> 'a list" where
  "Stack_Slice s = rev s"

definition Stack_Reset :: "'a Stack \<Rightarrow> 'a Stack" where
  "Stack_Reset s = []"

text \<open>The contract a client of a stack relies on, and its consequence for a run of pushes.\<close>

locale lifo =
  fixes push :: "'s \<Rightarrow> 'a \<Rightarrow> 's" and pop :: "'s \<Rightarrow> ('a \<times> 's) option" and empty :: 's
    and slice :: "'s \<Rightarrow> 'a list"
  assumes pop_push: "pop (push s v) = Some (v, s)"
    and pop_empty: "pop empty = None"
    and slice_push: "slice (push s v) = v # slice s"
    and slice_empty: "slice empty = []"
begin

lemma slice_pushes: "slice (foldl push empty vs) = rev vs"
  by (induction vs rule: rev_induct) (auto simp: slice_push slice_empty)

end

interpretation stk: lifo Stack_Push Stack_Pop NewStack Stack_Slice
  by unfold_locales
    (auto simp: Stack_Push_def Stack_Pop_def NewStack_def Stack_Slice_def)

subsection \<open>The model\<close>

record stackNode =
  sn_xOffset :: i64
  sn_level :: nat
  sn_node :: node

record fg_state =
  fgs_names :: "string list"
  fgs_cache :: "(string \<times> nat) list"
  fgs_res :: "i64 Stack list"
  fgs_max :: i64

record FlameGraph =
  fg_Names :: "string list"
  fg_Levels :: "i64 list list"
  fg_Total :: i64
  fg_MaxSelf :: i64

text \<open>The index of a name: the first name of all is shown, and cached, as \<open>total\<close>.\<close>

definition name_index :: "fg_state \<Rightarrow> string \<Rightarrow> nat \<times> fg_state" where
  "name_index st nm =
     (case map_of (fgs_cache st) nm of
        Some i \<Rightarrow> (i, st)
      | None \<Rightarrow>
          let i = length (fgs_names st); nm' = (if i = 0 then ''total'' else nm)
          in (i, st\<lparr>fgs_cache := AList.update nm' i (fgs_cache st), fgs_names := fgs_names st @ [nm']\<rparr>))"

text \<open>One iteration of the visiting loop, up to the pushes of the children.\<close>

definition fg_visit :: "fg_state \<Rightarrow> stackNode \<Rightarrow> fg_state option" where
  "fg_visit st current =
     (let n = sn_node current;
          st = (if fgs_max st <s node_self n then st\<lparr>fgs_max := node_self n\<rparr> else st);
          (i, st) = name_index st (node_name n);
          st = (if sn_level current = length (fgs_res st) then st\<lparr>fgs_res := fgs_res st @ [NewStack]\<rparr> else st)
      in if sn_level current < length (fgs_res st) then
           let l = fgs_res st ! sn_level current;
               l = Stack_Push (Stack_Push (Stack_Push (Stack_Push l (word_of_nat i))
                     (node_self n)) (node_total n)) (sn_xOffset current)
           in Some (st\<lparr>fgs_res := (fgs_res st)[sn_level current := l]\<rparr>)
         else None)"

fun push_children :: "i64 \<Rightarrow> nat \<Rightarrow> node list \<Rightarrow> stackNode Stack \<Rightarrow> stackNode Stack" where
  "push_children x lvl [] s = s"
| "push_children x lvl (child # cs) s =
     push_children (x + node_total child) lvl cs
       (Stack_Push s \<lparr>sn_xOffset = x, sn_level = lvl, sn_node = child\<rparr>)"

text \<open>The loop ends: every iteration takes a node off the stack and pushes smaller ones.\<close>

lemma push_children_append:
  "push_children x lvl cs s = s @ push_children x lvl cs []"
proof (induction cs arbitrary: x s)
  case (Cons c cs)
  have "push_children x lvl (c # cs) [] = Stack_Push [] \<lparr>sn_xOffset = x, sn_level = lvl, sn_node = c\<rparr>
      @ push_children (x + node_total c) lvl cs []"
    using Cons[of _ "Stack_Push [] _"] by simp
  then show ?case using Cons[of _ "Stack_Push s _"] by (simp add: Stack_Push_def)
qed simp

lemma push_children_size:
  "sum_list (map (size \<circ> sn_node) (push_children x lvl cs s))
   = sum_list (map (size \<circ> sn_node) s) + sum_list (map size cs)"
  by (induction cs arbitrary: x s) (simp_all add: Stack_Push_def)

lemma size_list_ge: "sum_list (map size cs) \<le> size_list size (cs :: node list)"
  by (induction cs) auto

lemma stack_pop_append:
  "Stack_Pop s = Some (x, s') \<longleftrightarrow> s = s' @ [x]"
  by (cases s rule: rev_cases) (auto simp: Stack_Pop_def)

function fg_loop :: "stackNode Stack \<Rightarrow> fg_state \<Rightarrow> fg_state option" where
  "fg_loop stack st =
     (case Stack_Pop stack of
        None \<Rightarrow> Some st
      | Some (current, stack') \<Rightarrow>
          (case fg_visit st current of
             None \<Rightarrow> None
           | Some st' \<Rightarrow>
               fg_loop (push_children (sn_xOffset current + node_self (sn_node current))
                          (sn_level current + 1) (node_children (sn_node current)) stack') st'))"
  by pat_completeness auto
termination
proof (relation "measure (\<lambda>(stack, st). sum_list (map (size \<circ> sn_node) stack))", goal_cases)
  case (2 stack st p current stack' st')
  then have "stack = stack' @ [current]" by (auto simp: stack_pop_append)
  then show ?case
    using size_list_ge[of "node_children (sn_node current)"]
    by (cases "sn_node current") (simp add: push_children_size)
qed simp

declare fg_loop.simps [simp del]

function delta_encode :: "i64 \<Rightarrow> i64 list \<Rightarrow> i64 list option" where
  "delta_encode prev [] = Some []"
| "delta_encode prev [x] = None"
| "delta_encode prev (x # t # vs) =
     map_option (\<lambda>r. (x - prev) # t # take 2 vs @ r)
       (delta_encode (prev + ((x - prev) + t)) (drop 2 vs))"
  by pat_completeness auto
termination
  by (relation "measure (\<lambda>(p, vs). length vs)") auto

fun collect_options :: "'a option list \<Rightarrow> 'a list option" where
  "collect_options [] = Some []"
| "collect_options (None # xs) = None"
| "collect_options (Some x # xs) = map_option ((#) x) (collect_options xs)"

definition NewFlameGraph :: "tree \<Rightarrow> FlameGraph option" where
  "NewFlameGraph t =
     (let tot = sum_list (map node_total (tree_root t));
          stack = Stack_Push (Stack_Reset NewStack)
            \<lparr>sn_xOffset = 0, sn_level = 0, sn_node = Node [] 0 tot (tree_root t)\<rparr>
      in case fg_loop stack \<lparr>fgs_names = [], fgs_cache = [], fgs_res = [], fgs_max = 0\<rparr> of
           None \<Rightarrow> None
         | Some st \<Rightarrow>
             map_option (\<lambda>levels. \<lparr>fg_Names = fgs_names st, fg_Levels = levels, fg_Total = tot,
                 fg_MaxSelf = fgs_max st\<rparr>)
               (collect_options (map (delta_encode 0 \<circ> Stack_Slice) (fgs_res st))))"


subsection \<open>The layout of a tree\<close>

text \<open>
  The nodes at depth \<open>k\<close> below a node placed at offset \<open>x\<close>, from left to right with their
  offsets: the children start after the node's own value and follow each other.
\<close>

fun layout :: "i64 \<Rightarrow> node list \<Rightarrow> nat \<Rightarrow> (i64 \<times> node) list" where
  "layout x [] k = []"
| "layout x (Node nm self tot kids # ns) k =
     (case k of 0 \<Rightarrow> [(x, Node nm self tot kids)] | Suc k' \<Rightarrow> layout (x + self) kids k')
     @ layout (x + tot) ns k"

fun subnodes :: "node list \<Rightarrow> node list" where
  "subnodes [] = []"
| "subnodes (Node nm self tot kids # ns) = Node nm self tot kids # subnodes kids @ subnodes ns"

text \<open>The absolute reading of an encoded level: name, offset, total and self value per node.\<close>

fun decode_level :: "string list \<Rightarrow> i64 \<Rightarrow> i64 list \<Rightarrow> (string \<times> i64 \<times> i64 \<times> i64) list" where
  "decode_level names prev (d # t # s # i # vs) =
     (names ! unat i, prev + d, t, s) # decode_level names (prev + d + t) vs"
| "decode_level names prev vs = []"

definition shown :: "i64 \<times> node \<Rightarrow> string \<times> i64 \<times> i64 \<times> i64" where
  "shown p = (case p of (x, n) \<Rightarrow> (node_name n, x, node_total n, node_self n))"

text \<open>What a level's stack holds for a list of placed nodes, in the order of the pushes.\<close>

fun level_holds :: "string list \<Rightarrow> i64 list \<Rightarrow> (i64 \<times> node) list \<Rightarrow> bool" where
  "level_holds names [] [] = True"
| "level_holds names (i # s # t # x # vs) ((x', n) # es) =
     (unat i < length names \<and> names ! unat i = node_name n \<and> s = node_self n \<and> t = node_total n
      \<and> x = x' \<and> level_holds names vs es)"
| "level_holds names vs es = False"

lemma level_holds_append:
  "level_holds names vs es \<Longrightarrow> level_holds names ws fs \<Longrightarrow> level_holds names (vs @ ws) (es @ fs)"
  by (induction names vs es rule: level_holds.induct) auto

lemma level_holds_mono:
  "level_holds names vs es \<Longrightarrow> level_holds (names @ nms) vs es"
  by (induction names vs es rule: level_holds.induct) (auto simp: nth_append)

lemma level_holds_Nil: "level_holds names vs [] \<longleftrightarrow> vs = []"
  by (cases "(names, vs, [] :: (i64 \<times> node) list)" rule: level_holds.cases) auto

lemma level_holds_Nil2: "level_holds names [] es \<longleftrightarrow> es = []"
  by (cases es) auto

lemma level_holds_snoc:
  "level_holds names vs (es @ [(x, n)]) \<Longrightarrow>
   \<exists>ws i. vs = ws @ [i, node_self n, node_total n, x] \<and> unat i < length names
     \<and> names ! unat i = node_name n \<and> level_holds names ws es"
proof (induction names vs "es @ [(x, n)]" arbitrary: es rule: level_holds.induct)
  case (2 names i s t x' vs x'' n' es')
  show ?case
  proof (cases es)
    case Nil
    then have "es' = []" "x'' = x" "n' = n" using "2.hyps" by auto
    then show ?thesis using "2.prems" Nil by (intro exI[of _ "[]"] exI[of _ i]) (auto simp: level_holds_Nil)
  next
    case (Cons e es2)
    then have es': "es' = es2 @ [(x, n)]" "e = (x'', n')" using "2.hyps" by auto
    then obtain ws j where "vs = ws @ [j, node_self n, node_total n, x]" "unat j < length names"
      "names ! unat j = node_name n" "level_holds names ws es2"
      using "2.hyps"(1)[of es2] "2.prems" Cons by auto
    then show ?thesis using "2.prems" Cons es'
      by (intro exI[of _ "i # s # t # x' # ws"] exI[of _ j]) auto
  qed
qed (auto simp: level_holds_Nil2)

text \<open>Delta encoding is undone by \<open>decode_level\<close>: the slice of the stack, read back.\<close>

lemma delta_roundtrip:
  "level_holds names vs es \<Longrightarrow>
   \<exists>l. delta_encode prev (rev vs) = Some l \<and> decode_level names prev l = map shown (rev es)"
proof (induction es arbitrary: vs prev rule: rev_induct)
  case Nil
  then show ?case by (simp add: level_holds_Nil)
next
  case (snoc e es)
  obtain x n where e: "e = (x, n)" by (cases e)
  then obtain ws i where w: "vs = ws @ [i, node_self n, node_total n, x]" "unat i < length names"
     "names ! unat i = node_name n" "level_holds names ws es"
    using level_holds_snoc snoc.prems by blast
  then obtain l where "delta_encode (x + node_total n) (rev ws) = Some l"
    "decode_level names (x + node_total n) l = map shown (rev es)"
    using snoc.IH by blast
  then show ?case using w e by (auto simp: shown_def)
qed

subsection \<open>The loop writes the layout\<close>

definition level_of :: "'a list list \<Rightarrow> nat \<Rightarrow> 'a list" where
  "level_of res k = (if k < length res then res ! k else [])"

definition placed :: "stackNode \<Rightarrow> nat \<Rightarrow> (i64 \<times> node) list" where
  "placed sn k = (if k < sn_level sn then [] else layout (sn_xOffset sn) [sn_node sn] (k - sn_level sn))"

lemma placed_root:
  "k = sn_level sn \<Longrightarrow> placed sn k = [(sn_xOffset sn, sn_node sn)]"
  "concat (map (\<lambda>c. placed c k) (push_children (sn_xOffset sn + node_self (sn_node sn))
         (Suc (sn_level sn)) (node_children (sn_node sn)) []))
     = (if k = sn_level sn then [] else placed sn k)"
proof -
  have kids: "concat (map (\<lambda>c. placed c k) (push_children x l cs []))
      = (if k < l then [] else layout x cs (k - l))" for x l cs
  proof (induction cs arbitrary: x)
    case (Cons c cs)
    then show ?case using push_children_append[of "x + node_total c" l cs "Stack_Push [] _"]
      by (cases c) (auto simp: Stack_Push_def placed_def)
  qed simp
  show "concat (map (\<lambda>c. placed c k) (push_children (sn_xOffset sn + node_self (sn_node sn))
         (Suc (sn_level sn)) (node_children (sn_node sn)) []))
     = (if k = sn_level sn then [] else placed sn k)" unfolding kids
    by (cases "sn_node sn") (auto simp: placed_def diff_Suc split: nat.splits)
  show "k = sn_level sn \<Longrightarrow> placed sn k = [(sn_xOffset sn, sn_node sn)]"
    by (cases "sn_node sn") (auto simp: placed_def)
qed

text \<open>The table of names and its cache agree; the levels hold placed nodes.\<close>

definition fg_inv :: "fg_state \<Rightarrow> (nat \<Rightarrow> (i64 \<times> node) list) \<Rightarrow> bool" where
  "fg_inv st E \<longleftrightarrow> fgs_names st \<noteq> [] \<and> distinct (fgs_names st)
     \<and> (\<forall>nm i. map_of (fgs_cache st) nm = Some i \<longleftrightarrow> i < length (fgs_names st) \<and> fgs_names st ! i = nm)
     \<and> (\<forall>k. level_holds (fgs_names st) (level_of (fgs_res st) k) (E k))
     \<and> (\<forall>k. k < length (fgs_res st) \<longleftrightarrow> E k \<noteq> [])"

lemma name_index_fields:
  assumes "name_index st nm = (i, st')"
  shows "fgs_res st' = fgs_res st \<and> fgs_max st' = fgs_max st
    \<and> (\<exists>nms. fgs_names st' = fgs_names st @ nms \<and> length nms \<le> 1)"
  using assms by (auto simp: name_index_def Let_def split: option.splits)

lemma name_index_inv:
  assumes "name_index st nm = (i, st')" "fg_inv st E"
  shows "fg_inv st' E \<and> i < length (fgs_names st') \<and> fgs_names st' ! i = nm"
proof (cases "map_of (fgs_cache st) nm")
  case (Some j)
  then show ?thesis using assms by (auto simp: name_index_def fg_inv_def)
next
  case None
  let ?n = "length (fgs_names st)"
  have st': "i = ?n" "st' = st\<lparr>fgs_cache := AList.update nm i (fgs_cache st), fgs_names := fgs_names st @ [nm]\<rparr>"
    using assms None by (auto simp: name_index_def Let_def fg_inv_def)
  have new: "\<forall>j < ?n. fgs_names st ! j \<noteq> nm" using None assms(2) unfolding fg_inv_def by (metis option.distinct(1))
  have "map_of (fgs_cache st') x = Some j \<longleftrightarrow> j < length (fgs_names st') \<and> fgs_names st' ! j = x" for x j
  proof (cases "x = nm")
    case True
    then show ?thesis using new st' by (auto simp: AList.update_conv nth_append less_Suc_eq)
  next
    case False
    then show ?thesis using assms(2) st' by (auto simp: AList.update_conv nth_append less_Suc_eq fg_inv_def)
  qed
  moreover have "distinct (fgs_names st')"
    using new st' assms(2) by (auto simp: fg_inv_def in_set_conv_nth)
  ultimately show ?thesis using st' assms(2) by (auto simp: fg_inv_def intro: level_holds_mono)
qed


lemma fg_visit_inv:
  assumes inv: "fg_inv st E" and lvl: "sn_level c \<le> length (fgs_res st)"
    and room: "length (fgs_names st) < 2 ^ 64"
  shows "\<exists>st'. fg_visit st c = Some st'
    \<and> fg_inv st' (E(sn_level c := E (sn_level c) @ [(sn_xOffset c, sn_node c)]))
    \<and> length (fgs_res st') = max (length (fgs_res st)) (Suc (sn_level c))
    \<and> length (fgs_names st') \<le> Suc (length (fgs_names st))
    \<and> fgs_max st' = (if fgs_max st <s node_self (sn_node c) then node_self (sn_node c) else fgs_max st)"
proof -
  let ?n = "sn_node c" and ?l = "sn_level c"
  let ?st1 = "if fgs_max st <s node_self ?n then st\<lparr>fgs_max := node_self ?n\<rparr> else st"
  obtain i st2 where ni: "name_index ?st1 (node_name ?n) = (i, st2)" by (cases rule: prod.exhaust)
  have inv1: "fg_inv ?st1 E" using inv by (simp add: fg_inv_def)
  note inv2 = name_index_inv[OF ni inv1] and f2 = name_index_fields[OF ni]
  have res2: "fgs_res st2 = fgs_res st" using f2 by auto
  have "length (fgs_names st2) \<le> Suc (length (fgs_names st))" using f2 by (auto split: if_splits)
  then have "i < 2 ^ 64" using inv2 room by linarith
  then have iw: "unat (word_of_nat i :: i64) = i" by (simp add: unsigned_of_nat take_bit_nat_eq_self)
  let ?res = "if ?l = length (fgs_res st2) then fgs_res st2 @ [[]] else fgs_res st2"
  let ?entry = "[word_of_nat i, node_self ?n, node_total ?n, sn_xOffset c]"
  let ?st' = "st2\<lparr>fgs_res := ?res[?l := ?res ! ?l @ ?entry]\<rparr>"
  have len: "?l < length ?res" using lvl res2 by auto
  have v: "fg_visit st c = Some ?st'"
    using ni lvl res2 by (simp add: fg_visit_def Stack_Push_def NewStack_def Let_def)
  have lev: "level_of (fgs_res ?st') k = level_of (fgs_res st2) k @ (if k = ?l then ?entry else [])" for k
    using len lvl res2 by (auto simp: level_of_def nth_append nth_list_update)
  have entry: "level_holds (fgs_names st2) ?entry [(sn_xOffset c, ?n)]"
    using inv2 iw by simp
  have lens: "k < length (fgs_res ?st') \<longleftrightarrow> (E(?l := E ?l @ [(sn_xOffset c, ?n)])) k \<noteq> []" for k
    using inv2 lvl res2 by (auto simp: less_Suc_eq fg_inv_def)
  have "fg_inv ?st' (E(?l := E ?l @ [(sn_xOffset c, ?n)]))"
    using inv2 lev entry lens unfolding fg_inv_def
    by (auto simp del: list_update.simps intro: level_holds_append)
  then show ?thesis using v f2 lvl by (intro exI[of _ ?st']) auto
qed


lemma Max_insert_max:
  "finite S \<Longrightarrow> Max (insert (max a b) S) = Max (insert (a::int) (insert b S))"
  by (cases "S = {}") (simp_all add: max.assoc)

text \<open>
  From a good state, the loop ends without a panic and appends to every level the nodes below the
  stack's nodes, from right to left (\<open>Slice\<close> turns them round).
\<close>

lemma push_children_level: "sn \<in> set (push_children x l cs []) \<Longrightarrow> sn_level sn = l"
proof (induction cs arbitrary: x)
  case (Cons c cs)
  then show ?case using push_children_append[of "x + node_total c" l cs "Stack_Push [] _"]
    by (auto simp: Stack_Push_def)
qed simp

lemma push_children_nodes: "map sn_node (push_children x l cs []) = cs"
proof (induction cs arbitrary: x)
  case (Cons c cs)
  then show ?case using push_children_append[of "x + node_total c" l cs "Stack_Push [] _"]
    by (simp add: Stack_Push_def)
qed simp

lemma subnodes_append [simp]: "subnodes (xs @ ys) = subnodes xs @ subnodes ys"
  by (induction xs rule: subnodes.induct) auto

lemma fg_loop_inv:
  assumes "fg_inv st E" and "\<forall>sn \<in> set stack. sn_level sn \<le> length (fgs_res st)"
    and "length (fgs_names st) + length (subnodes (map sn_node stack)) \<le> 2 ^ 64"
  shows "\<exists>st'. fg_loop stack st = Some st'
    \<and> fg_inv st' (\<lambda>k. E k @ rev (concat (map (\<lambda>sn. placed sn k) stack)))
    \<and> sint (fgs_max st') = Max (insert (sint (fgs_max st))
         ((sint \<circ> node_self) ` set (subnodes (map sn_node stack))))"
  using assms
proof (induction stack st arbitrary: E rule: fg_loop.induct)
  case (1 stack st)
  show ?case
  proof (cases stack rule: rev_cases)
    case Nil
    then show ?thesis using "1.prems" by (subst fg_loop.simps) (simp add: Stack_Pop_def)
  next
    case (snoc rest c)
    have pop: "Stack_Pop stack = Some (c, rest)" using snoc stk.pop_push[of rest c] by (simp add: Stack_Push_def)
    let ?kids = "push_children (sn_xOffset c + node_self (sn_node c)) (sn_level c + 1) (node_children (sn_node c))"
    let ?E = "E(sn_level c := E (sn_level c) @ [(sn_xOffset c, sn_node c)])"
    have "length (subnodes (map sn_node stack)) > 0" using snoc by (cases "sn_node c") simp
    then have room: "length (fgs_names st) < 2 ^ 64" using "1.prems"(3) by linarith
    obtain st1 where v: "fg_visit st c = Some st1" "fg_inv st1 ?E"
        "length (fgs_res st1) = max (length (fgs_res st)) (Suc (sn_level c))"
        "length (fgs_names st1) \<le> Suc (length (fgs_names st))"
        "sint (fgs_max st1) = max (sint (fgs_max st)) (sint (node_self (sn_node c)))"
      using fg_visit_inv[OF "1.prems"(1) _ room, of c] "1.prems"(2) snoc by (force simp: word_sless_alt)
    have kids: "?kids rest = rest @ ?kids []" by (rule push_children_append)
    have sub: "subnodes (map sn_node stack) = subnodes (map sn_node rest) @ sn_node c # subnodes (node_children (sn_node c))"
      using snoc by (cases "sn_node c") simp
    have eq: "fg_loop stack st = fg_loop (?kids rest) st1"
      using pop v(1) by (subst fg_loop.simps) simp
    have lv: "\<forall>sn \<in> set (?kids rest). sn_level sn \<le> length (fgs_res st1)"
      using "1.prems"(2) snoc v(3) kids push_children_level by fastforce
    have sz: "length (fgs_names st1) + length (subnodes (map sn_node (?kids rest))) \<le> 2 ^ 64"
      using "1.prems"(3) v(4) sub kids by (simp add: push_children_nodes)
    obtain st' where st': "fg_loop (?kids rest) st1 = Some st'"
        "fg_inv st' (\<lambda>k. ?E k @ rev (concat (map (\<lambda>sn. placed sn k) (?kids rest))))"
        "sint (fgs_max st') = Max (insert (sint (fgs_max st1))
           ((sint \<circ> node_self) ` set (subnodes (map sn_node (?kids rest)))))"
      using "1.IH"[OF pop refl v(1) v(2) lv sz] by blast
    have "(\<lambda>k. ?E k @ rev (concat (map (\<lambda>sn. placed sn k) (?kids rest))))
        = (\<lambda>k. E k @ rev (concat (map (\<lambda>sn. placed sn k) stack)))"
      using placed_root[of _ c] kids snoc by (auto simp: fun_eq_iff)
    moreover have "sint (fgs_max st') = Max (insert (sint (fgs_max st))
         ((sint \<circ> node_self) ` set (subnodes (map sn_node stack))))"
      using st'(3)[unfolded kids] by (simp add: v(5) sub push_children_nodes Max_insert_max image_Un insert_commute)
    ultimately show ?thesis using st' eq by auto
  qed
qed


subsection \<open>Properties\<close>

lemma collect_options_Some:
  "(\<forall>i < length xs. \<exists>y. xs ! i = Some y \<and> P i y) \<Longrightarrow>
   \<exists>ys. collect_options xs = Some ys \<and> length ys = length xs \<and> (\<forall>i < length xs. P i (ys ! i))"
proof (induction xs arbitrary: P)
  case (Cons x xs)
  obtain y where y: "x = Some y" "P 0 y" using Cons.prems by force
  have "\<forall>i < length xs. \<exists>y. xs ! i = Some y \<and> P (Suc i) y" using Cons.prems by force
  from Cons.IH[of "\<lambda>i. P (Suc i)", OF this] obtain ys where
    "collect_options xs = Some ys" "length ys = length xs" "\<forall>i < length xs. P (Suc i) (ys ! i)" by blast
  then show ?case using y by (intro exI[of _ "y # ys"]) (auto simp: nth_Cons split: nat.splits)
qed simp

text \<open>The root of the drawing: a node called \<open>total\<close> over the roots of the tree.\<close>

definition total_node :: "tree \<Rightarrow> node" where
  "total_node t = Node ''total'' 0 (sum_list (map node_total (tree_root t))) (tree_root t)"

text \<open>
  C2. \<open>NewFlameGraph\<close> never panics and ends, and it draws the tree: it has one level per level of
  the tree below the node \<open>total\<close>, and decoding the delta-encoded numbers of a level with the
  table of names gives, from left to right, the nodes of that level with their name, the offset
  where the layout places them, their total and their self value. No name is listed twice, the
  total is the sum over the roots, and the maximum self value is the largest of the tree (or 0).
\<close>

theorem NewFlameGraph_draws_layout:
  assumes "length (subnodes (tree_root t)) < 2 ^ 64"
  shows "\<exists>fg. NewFlameGraph t = Some fg
    \<and> (\<forall>k. k < length (fg_Levels fg) \<longleftrightarrow> layout 0 [total_node t] k \<noteq> [])
    \<and> (\<forall>k < length (fg_Levels fg). decode_level (fg_Names fg) 0 (fg_Levels fg ! k)
          = map shown (layout 0 [total_node t] k))
    \<and> distinct (fg_Names fg)
    \<and> fg_Total fg = sum_list (map node_total (tree_root t))
    \<and> sint (fg_MaxSelf fg) = Max (insert 0 ((sint \<circ> node_self) ` set (subnodes (tree_root t))))"
proof -
  let ?tot = "sum_list (map node_total (tree_root t))"
  let ?root = "\<lparr>sn_xOffset = 0, sn_level = 0, sn_node = Node [] 0 ?tot (tree_root t)\<rparr> :: stackNode"
  let ?named = "\<lparr>sn_xOffset = 0, sn_level = 0, sn_node = total_node t\<rparr> :: stackNode"
  let ?st0 = "\<lparr>fgs_names = [], fgs_cache = [], fgs_res = [], fgs_max = 0\<rparr>"
  let ?st1 = "\<lparr>fgs_names = [''total''], fgs_cache = [(''total'', 0)], fgs_res = [[0, 0, ?tot, 0]], fgs_max = 0\<rparr>"
  let ?kids = "push_children 0 1 (tree_root t) []"
  let ?E = "\<lambda>k. if k = 0 then [(0, total_node t)] else ([] :: (i64 \<times> node) list)"
  have visit: "fg_visit ?st0 ?root = Some ?st1"
    by (simp add: fg_visit_def name_index_def Let_def NewStack_def Stack_Push_def)
  have loop: "fg_loop [?root] ?st0 = fg_loop ?kids ?st1"
    using visit stk.pop_push[of "[]" ?root] by (subst fg_loop.simps) (simp add: Stack_Push_def)
  have inv1: "fg_inv ?st1 ?E"
    by (auto simp: fg_inv_def level_of_def total_node_def)
  have lv: "\<forall>sn \<in> set ?kids. sn_level sn \<le> length (fgs_res ?st1)"
    using push_children_level by fastforce
  have room: "length (fgs_names ?st1) + length (subnodes (map sn_node ?kids)) \<le> 2 ^ 64"
    using assms by (simp add: push_children_nodes)
  obtain st where st: "fg_loop ?kids ?st1 = Some st"
      "fg_inv st (\<lambda>k. ?E k @ rev (concat (map (\<lambda>sn. placed sn k) ?kids)))"
      "sint (fgs_max st) = Max (insert 0 ((sint \<circ> node_self) ` set (subnodes (tree_root t))))"
    using fg_loop_inv[OF inv1 lv room] by (auto simp: push_children_nodes)
  have E: "?E k @ rev (concat (map (\<lambda>sn. placed sn k) ?kids)) = rev (layout 0 [total_node t] k)" for k
    using placed_root[of k ?named] by (cases k) (auto simp: placed_def total_node_def)
  have inv: "fg_inv st (\<lambda>k. rev (layout 0 [total_node t] k))" using st(2) unfolding E .
  have "\<forall>i < length (fgs_res st). \<exists>l. map (delta_encode 0 \<circ> Stack_Slice) (fgs_res st) ! i = Some l
      \<and> decode_level (fgs_names st) 0 l = map shown (layout 0 [total_node t] i)"
  proof (intro allI impI)
    fix i assume i: "i < length (fgs_res st)"
    have "level_holds (fgs_names st) (level_of (fgs_res st) i) (rev (layout 0 [total_node t] i))"
      using inv unfolding fg_inv_def by blast
    then have "level_holds (fgs_names st) (fgs_res st ! i) (rev (layout 0 [total_node t] i))"
      using i by (simp add: level_of_def)
    from delta_roundtrip[OF this, of 0] show "\<exists>l. map (delta_encode 0 \<circ> Stack_Slice) (fgs_res st) ! i = Some l
        \<and> decode_level (fgs_names st) 0 l = map shown (layout 0 [total_node t] i)"
      using i by (simp add: Stack_Slice_def)
  qed
  from collect_options_Some[of "map (delta_encode 0 \<circ> Stack_Slice) (fgs_res st)"
      "\<lambda>i l. decode_level (fgs_names st) 0 l = map shown (layout 0 [total_node t] i)"] this
  obtain levels where
    "collect_options (map (delta_encode 0 \<circ> Stack_Slice) (fgs_res st)) = Some levels"
    "length levels = length (fgs_res st)"
    "\<forall>i < length (fgs_res st). decode_level (fgs_names st) 0 (levels ! i) = map shown (layout 0 [total_node t] i)"
    unfolding length_map by blast
  then show ?thesis using st(1,3) loop inv
    by (simp add: NewFlameGraph_def Stack_Push_def Stack_Reset_def Let_def fg_inv_def)
qed


theorem NewFlameGraph_draws_layout_witness:
  "\<exists>fg. NewFlameGraph \<lparr>tree_root = [Node ''a'' 1 5 [Node ''b'' 4 4 []], Node ''a'' 2 2 []]\<rparr> = Some fg
    \<and> 1 < length (fg_Levels fg)
    \<and> decode_level (fg_Names fg) 0 (fg_Levels fg ! 1) = [(''a'', 0, 5, 1), (''a'', 5, 2, 2)]
    \<and> fg_Total fg = 7"
  using NewFlameGraph_draws_layout[of "\<lparr>tree_root = [Node ''a'' 1 5 [Node ''b'' 4 4 []], Node ''a'' 2 2 []]\<rparr>"]
  by (auto simp: total_node_def shown_def)

end
