(* ===== verification/Go_Heap.thy ===== *)
theory Go_Heap
  imports Go_Prelude
begin

section \<open>container/heap\<close>

text \<open>
  The binary heap of Go's standard library on a slice \<open>h\<close>, for a \<open>Less\<close> given on elements. The
  postings merge (\<open>postingsHeap\<close>) and the two profile merges (\<open>ProfileIteratorHeap\<close>) use it.
  The functions follow the library's loops \<open>up\<close> and \<open>down\<close>. The locale \<open>heap_order\<close> is what
  \<open>heap.Interface\<close> asks of \<open>Less\<close>: a strict weak order. In it, \<open>Init\<close>, \<open>Push\<close>, \<open>Pop\<close> and
  \<open>Fix\<close> keep the heap property and the multiset of elements, and the first element is minimal.
\<close>

definition swap :: "'a list \<Rightarrow> nat \<Rightarrow> nat \<Rightarrow> 'a list" where
  "swap h i j = h[i := h ! j, j := h ! i]"

function heap_up :: "('a \<Rightarrow> 'a \<Rightarrow> bool) \<Rightarrow> 'a list \<Rightarrow> nat \<Rightarrow> 'a list" where
  "heap_up lt h j =
     (let i = (j - 1) div 2
      in if i = j \<or> \<not> lt (h ! j) (h ! i) then h else heap_up lt (swap h i j) i)"
  by pat_completeness auto
termination
  by (relation "measure (\<lambda>(lt, h, j). j)") auto

text \<open>\<open>down\<close> also tells where the element ended: Go returns \<open>i > i0\<close>.\<close>

function heap_down :: "('a \<Rightarrow> 'a \<Rightarrow> bool) \<Rightarrow> 'a list \<Rightarrow> nat \<Rightarrow> nat \<Rightarrow> 'a list \<times> nat" where
  "heap_down lt h i n =
     (if n \<le> 2 * i + 1 then (h, i)
      else let j = (if 2 * i + 2 < n \<and> lt (h ! (2 * i + 2)) (h ! (2 * i + 1))
                    then 2 * i + 2 else 2 * i + 1)
           in if \<not> lt (h ! j) (h ! i) then (h, i) else heap_down lt (swap h i j) j n)"
  by pat_completeness auto
termination
  by (relation "measure (\<lambda>(lt, h, i, n). n - i)") (auto split: if_splits)

declare heap_up.simps [simp del] heap_down.simps [simp del]

definition heap_init :: "('a \<Rightarrow> 'a \<Rightarrow> bool) \<Rightarrow> 'a list \<Rightarrow> 'a list" where
  "heap_init lt h =
     fold (\<lambda>i h. fst (heap_down lt h i (length h))) (rev [0..<length h div 2]) h"

definition heap_push :: "('a \<Rightarrow> 'a \<Rightarrow> bool) \<Rightarrow> 'a list \<Rightarrow> 'a \<Rightarrow> 'a list" where
  "heap_push lt h x = heap_up lt (h @ [x]) (length h)"

text \<open>\<open>heap.Pop\<close> on a non-empty heap: the popped element and the remaining slice.\<close>

definition heap_pop :: "('a \<Rightarrow> 'a \<Rightarrow> bool) \<Rightarrow> 'a list \<Rightarrow> 'a \<times> 'a list" where
  "heap_pop lt h =
     (let n = length h - 1; h' = fst (heap_down lt (swap h 0 n) 0 n)
      in (h' ! n, take n h'))"

definition heap_fix :: "('a \<Rightarrow> 'a \<Rightarrow> bool) \<Rightarrow> 'a list \<Rightarrow> nat \<Rightarrow> 'a list" where
  "heap_fix lt h i =
     (let (h', i') = heap_down lt h i (length h)
      in if i < i' then h' else heap_up lt h' i)"

definition is_heap :: "('a \<Rightarrow> 'a \<Rightarrow> bool) \<Rightarrow> 'a list \<Rightarrow> bool" where
  "is_heap lt h \<longleftrightarrow> (\<forall>i. 0 < i \<and> i < length h \<longrightarrow> \<not> lt (h ! i) (h ! ((i - 1) div 2)))"

subsection \<open>The operations permute the slice\<close>

lemma length_swap [simp]: "length (swap h i j) = length h"
  by (simp add: swap_def)

lemma mset_swap_go [simp]:
  "i < length h \<Longrightarrow> j < length h \<Longrightarrow> mset (swap h i j) = mset h"
  by (simp add: swap_def mset_swap)

lemma nth_swap:
  "i < length h \<Longrightarrow> j < length h \<Longrightarrow> k < length h \<Longrightarrow>
   swap h i j ! k = (if k = i then h ! j else if k = j then h ! i else h ! k)"
  by (auto simp: swap_def nth_list_update)

lemma nth_swap_other: "k \<noteq> i \<Longrightarrow> k \<noteq> j \<Longrightarrow> swap h i j ! k = h ! k"
  by (simp add: swap_def)

lemma mset_heap_up: "j < length h \<Longrightarrow> mset (heap_up lt h j) = mset h"
proof (induction lt h j rule: heap_up.induct)
  case (1 lt h j)
  then show ?case by (subst heap_up.simps) (auto simp: Let_def)
qed

lemma heap_down_keeps:
  "i < n \<Longrightarrow> n \<le> length h \<Longrightarrow>
   mset (fst (heap_down lt h i n)) = mset h
   \<and> length (fst (heap_down lt h i n)) = length h
   \<and> (\<forall>k \<ge> n. fst (heap_down lt h i n) ! k = h ! k)"
proof (induction lt h i n rule: heap_down.induct)
  case (1 lt h i n)
  define j where "j = (if 2 * i + 2 < n \<and> lt (h ! (2 * i + 2)) (h ! (2 * i + 1))
                    then 2 * i + 2 else 2 * i + 1)"
  show ?case
  proof (cases "n \<le> 2 * i + 1 \<or> \<not> lt (h ! j) (h ! i)")
    case True
    then have "heap_down lt h i n = (h, i)"
      by (subst heap_down.simps) (auto simp: Let_def j_def)
    then show ?thesis by simp
  next
    case False
    then have jn: "j < n" by (auto simp: j_def)
    have eq: "heap_down lt h i n = heap_down lt (swap h i j) j n"
      using False by (subst heap_down.simps) (auto simp: Let_def j_def)
    have IH: "mset (fst (heap_down lt (swap h i j) j n)) = mset (swap h i j)
        \<and> length (fst (heap_down lt (swap h i j) j n)) = length (swap h i j)
        \<and> (\<forall>k\<ge>n. fst (heap_down lt (swap h i j) j n) ! k = swap h i j ! k)"
      using "1.IH"[OF _ j_def] False jn "1.prems" by auto
    then show ?thesis using eq jn "1.prems" by (auto simp: nth_swap_other)
  qed
qed

lemma length_heap_down [simp]: "length (fst (heap_down lt h i n)) = length h"
proof (induction lt h i n rule: heap_down.induct)
  case (1 lt h i n)
  then show ?case by (subst heap_down.simps) (auto simp: Let_def)
qed

lemma length_heap_up [simp]: "length (heap_up lt h j) = length h"
proof (induction lt h j rule: heap_up.induct)
  case (1 lt h j)
  then show ?case by (subst heap_up.simps) (auto simp: Let_def)
qed

lemma mset_heap_push: "mset (heap_push lt h x) = add_mset x (mset h)"
  by (simp add: heap_push_def mset_heap_up)

lemma length_heap_push [simp]: "length (heap_push lt h x) = Suc (length h)"
  by (simp add: heap_push_def)

lemma heap_pop_spec:
  assumes "h \<noteq> []"
  shows "fst (heap_pop lt h) = h ! 0"
    and "add_mset (h ! 0) (mset (snd (heap_pop lt h))) = mset h"
    and "length (snd (heap_pop lt h)) = length h - 1"
proof -
  let ?n = "length h - 1"
  let ?h = "fst (heap_down lt (swap h 0 ?n) 0 ?n)"
  have len: "length ?h = length h" by simp
  have down: "mset ?h = mset (swap h 0 ?n) \<and> (\<forall>k \<ge> ?n. ?h ! k = swap h 0 ?n ! k)"
  proof (cases "?n = 0")
    case True
    have "heap_down lt (swap h 0 0) 0 0 = (swap h 0 0, 0)" by (subst heap_down.simps) simp
    then show ?thesis using True by simp
  next
    case False then show ?thesis using heap_down_keeps[of 0 ?n "swap h 0 ?n" lt] by simp
  qed
  have last: "?h ! ?n = h ! 0" using down assms nth_swap[of 0 h ?n ?n] by simp
  then show "fst (heap_pop lt h) = h ! 0" by (simp add: heap_pop_def Let_def)
  have "?h = take ?n ?h @ [?h ! ?n]"
    using len assms take_Suc_conv_app_nth[of ?n ?h] by (cases h) auto
  from arg_cong[OF this, of mset] have "mset ?h = add_mset (?h ! ?n) (mset (take ?n ?h))"
    by simp
  moreover have "mset ?h = mset h" using down assms by (simp add: swap_def mset_swap)
  ultimately show "add_mset (h ! 0) (mset (snd (heap_pop lt h))) = mset h"
    using last by (simp add: heap_pop_def Let_def)
  show "length (snd (heap_pop lt h)) = length h - 1"
    by (simp add: heap_pop_def Let_def)
qed

lemma mset_heap_fix: "i < length h \<Longrightarrow> mset (heap_fix lt h i) = mset h"
  using heap_down_keeps[of i "length h" h lt]
  by (cases "heap_down lt h i (length h)") (auto simp: heap_fix_def mset_heap_up)

lemma length_heap_fix [simp]: "length (heap_fix lt h i) = length h"
proof -
  have "length (fst (heap_down lt h i (length h))) = length h" by simp
  then show ?thesis
    by (cases "heap_down lt h i (length h)") (auto simp: heap_fix_def)
qed

lemma heap_init_keeps:
  "set is \<subseteq> {..<length h} \<Longrightarrow>
   mset (fold (\<lambda>i h. fst (heap_down lt h i (length h))) is h) = mset h"
proof (induction "is" arbitrary: h)
  case (Cons i "is")
  then show ?case using heap_down_keeps[of i "length h" h lt] by simp
qed simp

lemma mset_heap_init: "mset (heap_init lt h) = mset h"
  unfolding heap_init_def by (rule heap_init_keeps) auto

subsection \<open>The heap property\<close>

text \<open>
  Edges of the heap whose parent is at least \<open>k\<close>, within the first \<open>n\<close> positions, but for the
  edges out of \<open>i\<close>. \<open>heap.Init\<close> works from \<open>k\<close> down to 0; \<open>heap.Pop\<close> has \<open>k = i = 0\<close>.
\<close>

definition edges_but :: "('a \<Rightarrow> 'a \<Rightarrow> bool) \<Rightarrow> 'a list \<Rightarrow> nat \<Rightarrow> nat \<Rightarrow> nat \<Rightarrow> bool" where
  "edges_but lt h k n i \<longleftrightarrow>
     (\<forall>c. 0 < c \<and> c < n \<and> k \<le> (c - 1) div 2 \<and> (c - 1) div 2 \<noteq> i \<longrightarrow>
        \<not> lt (h ! c) (h ! ((c - 1) div 2)))"

lemma is_heap_edges: "is_heap lt h \<longleftrightarrow> edges_but lt h 0 (length h) (length h)"
  by (auto simp: is_heap_def edges_but_def)

lemma heap_parent_cases: "0 < (c::nat) \<Longrightarrow> (c - 1) div 2 = i \<Longrightarrow> c = 2 * i + 1 \<or> c = 2 * i + 2"
  by presburger

locale heap_order =
  fixes lt :: "'a \<Rightarrow> 'a \<Rightarrow> bool"
  assumes lt_asym: "lt a b \<Longrightarrow> \<not> lt b a"
    and nlt_trans: "\<not> lt a b \<Longrightarrow> \<not> lt b c \<Longrightarrow> \<not> lt a c"
begin

lemma lt_irrefl: "\<not> lt a a"
  using lt_asym by blast

lemma edges_but_down:
  assumes "edges_but lt h k n i" and "n \<le> length h" and "k \<le> i" and "2 * i + 1 < n"
    and kids: "\<And>c. c < n \<Longrightarrow> 0 < c \<Longrightarrow> (c - 1) div 2 = i \<Longrightarrow> 0 < i \<Longrightarrow> k \<le> (i - 1) div 2 \<Longrightarrow>
           \<not> lt (h ! c) (h ! ((i - 1) div 2))"
    and j: "j = (if 2 * i + 2 < n \<and> lt (h ! (2 * i + 2)) (h ! (2 * i + 1)) then 2 * i + 2 else 2 * i + 1)"
    and less: "lt (h ! j) (h ! i)"
  shows "edges_but lt (swap h i j) k n j"
  unfolding edges_but_def
proof (intro allI impI)
  fix c assume c: "0 < c \<and> c < n \<and> k \<le> (c - 1) div 2 \<and> (c - 1) div 2 \<noteq> j"
  define p where "p = (c - 1) div 2"
  have pc: "p < c" using c by (auto simp: p_def)
  have jn: "j < n" "i < j" "(j - 1) div 2 = i" "0 < j" using assms(4) j by (auto split: if_splits)
  have len: "c < length h" "p < length h" "i < length h" "j < length h"
    using c pc jn assms(2) by auto
  have sib: "\<not> lt (h ! c) (h ! j)" if "p = i" "c \<noteq> j"
    using heap_parent_cases[of c i] that c j lt_asym by (auto simp: p_def split: if_splits)
  have "\<not> lt (swap h i j ! c) (swap h i j ! p)"
  proof (cases "p = i")
    case True
    then show ?thesis using sib lt_asym[OF less] len pc
      by (cases "c = j") (auto simp: nth_swap)
  next
    case pi: False
    show ?thesis
    proof (cases "c = i")
      case True
      then show ?thesis using kids[of j] jn c pi len
        by (auto simp: nth_swap p_def)
    next
      case False
      have "c \<noteq> j" using jn pi by (auto simp: p_def)
      then have "swap h i j ! c = h ! c" "swap h i j ! p = h ! p"
        using False pi c by (auto simp: nth_swap_other p_def)
      then show ?thesis using assms(1) c pi by (auto simp: edges_but_def p_def)
    qed
  qed
  then show "\<not> lt (swap h i j ! c) (swap h i j ! ((c - 1) div 2))" by (simp add: p_def)
qed

lemma heap_down_edges:
  assumes "edges_but lt h k n i" and "n \<le> length h" and "k \<le> i"
    and "\<And>c. c < n \<Longrightarrow> 0 < c \<Longrightarrow> (c - 1) div 2 = i \<Longrightarrow> 0 < i \<Longrightarrow> k \<le> (i - 1) div 2 \<Longrightarrow>
           \<not> lt (h ! c) (h ! ((i - 1) div 2))"
  shows "edges_but lt (fst (heap_down lt h i n)) k n n"
  using assms
proof (induction "n - i" arbitrary: h i rule: less_induct)
  case less
  define j where "j = (if 2 * i + 2 < n \<and> lt (h ! (2 * i + 2)) (h ! (2 * i + 1))
                    then 2 * i + 2 else 2 * i + 1)"
  show ?case
  proof (cases "n \<le> 2 * i + 1 \<or> \<not> lt (h ! j) (h ! i)")
    case True
    then have eq: "heap_down lt h i n = (h, i)"
      by (subst heap_down.simps) (auto simp: Let_def j_def)
    have "\<not> lt (h ! c) (h ! i)" if c: "0 < c" "c < n" "(c - 1) div 2 = i" for c
    proof -
      have "\<not> lt (h ! c) (h ! j)"
        using heap_parent_cases[OF c(1,3)] c lt_asym lt_irrefl unfolding j_def
        by (cases "lt (h ! (2 * i + 2)) (h ! (2 * i + 1))") (auto dest: lt_asym)
      then show ?thesis using heap_parent_cases[OF c(1,3)] True c nlt_trans[of "h ! c" "h ! j"] by auto
    qed
    then show ?thesis using less.prems(1) eq by (auto simp: edges_but_def)
  next
    case False
    have jn: "j < n" "i < j" "(j - 1) div 2 = i" using False by (auto simp: j_def)
    have eq: "heap_down lt h i n = heap_down lt (swap h i j) j n"
      using False by (subst heap_down.simps) (auto simp: Let_def j_def)
    have "edges_but lt (swap h i j) k n j"
      using edges_but_down[OF less.prems(1-3) _ less.prems(4) j_def] False by simp
    moreover have "\<not> lt (swap h i j ! c) (swap h i j ! ((j - 1) div 2))"
      if "c < n" "0 < c" "(c - 1) div 2 = j" for c
    proof -
      have "c \<noteq> i" "c \<noteq> j" using that jn by auto
      moreover have "\<not> lt (h ! c) (h ! j)"
        using less.prems(1,3) that jn by (auto simp: edges_but_def)
      ultimately show ?thesis using jn that less.prems(2) by (simp add: nth_swap)
    qed
    ultimately show ?thesis
      unfolding eq using less.prems(2,3) jn by (intro less.hyps) auto
  qed
qed

lemma is_heap_pop_root:
  assumes "edges_but lt h 0 (length h) 0"
  shows "is_heap lt (snd (heap_pop lt h))"
proof -
  let ?n = "length h - 1"
  let ?h = "fst (heap_down lt (swap h 0 ?n) 0 ?n)"
  have "edges_but lt (swap h 0 ?n) 0 ?n 0"
    unfolding edges_but_def
  proof (intro allI impI)
    fix c assume c: "0 < c \<and> c < ?n \<and> 0 \<le> (c - 1) div 2 \<and> (c - 1) div 2 \<noteq> 0"
    then have "swap h 0 ?n ! c = h ! c" "swap h 0 ?n ! ((c - 1) div 2) = h ! ((c - 1) div 2)"
      by (auto simp: nth_swap_other)
    then show "\<not> lt (swap h 0 ?n ! c) (swap h 0 ?n ! ((c - 1) div 2))"
      using assms c by (auto simp: edges_but_def)
  qed
  then have "edges_but lt ?h 0 ?n ?n"
    by (rule heap_down_edges) auto
  then show ?thesis
    by (auto simp: heap_pop_def Let_def is_heap_def edges_but_def)
qed

lemma is_heap_pop: "is_heap lt h \<Longrightarrow> is_heap lt (snd (heap_pop lt h))"
  by (rule is_heap_pop_root) (auto simp: is_heap_def edges_but_def)

lemma is_heap_min:
  assumes "is_heap lt h" and "i < length h"
  shows "\<not> lt (h ! i) (h ! 0)"
  using assms(2)
proof (induction i rule: less_induct)
  case (less i)
  show ?case
  proof (cases "i = 0")
    case True
    then show ?thesis using lt_asym by blast
  next
    case False
    then have "\<not> lt (h ! ((i - 1) div 2)) (h ! 0)" using less by auto
    moreover have "\<not> lt (h ! i) (h ! ((i - 1) div 2))"
      using assms(1) False less.prems by (auto simp: is_heap_def)
    ultimately show ?thesis using nlt_trans by blast
  qed
qed

text \<open>\<open>down\<close> from the root of a slice whose other edges are in order gives a heap.\<close>

lemma is_heap_fix_root:
  assumes "edges_but lt h 0 (length h) 0"
  shows "is_heap lt (heap_fix lt h 0)"
proof -
  obtain h' i' where d: "heap_down lt h 0 (length h) = (h', i')" by fastforce
  have "edges_but lt (fst (heap_down lt h 0 (length h))) 0 (length h) (length h)"
    using assms by (rule heap_down_edges) auto
  moreover have "length h' = length h" using length_heap_down[of lt h 0 "length h"] d by simp
  moreover have "heap_up lt h' 0 = h'" by (subst heap_up.simps) simp
  ultimately show ?thesis using d by (simp add: heap_fix_def is_heap_edges)
qed

lemma is_heap_init: "is_heap lt (heap_init lt h)"
proof -
  have "edges_but lt (fold (\<lambda>i h. fst (heap_down lt h i (length h))) (rev [0..<m]) g) 0 (length g) (length g)"
    if "edges_but lt g m (length g) (length g)" for m and g :: "'a list"
    using that
  proof (induction m arbitrary: g)
    case (Suc m)
    have "edges_but lt g m (length g) m" using Suc.prems by (auto simp: edges_but_def)
    then have "edges_but lt (fst (heap_down lt g m (length g))) m (length g) (length g)"
      by (rule heap_down_edges) auto
    then show ?case using Suc.IH[of "fst (heap_down lt g m (length g))"] by simp
  qed simp
  moreover have "edges_but lt h (length h div 2) (length h) (length h)"
    by (auto simp: edges_but_def)
  ultimately have "edges_but lt (heap_init lt h) 0 (length h) (length h)"
    by (simp add: heap_init_def)
  moreover have "length (heap_init lt h) = length h"
    using mset_heap_init by (metis size_mset)
  ultimately show ?thesis by (simp add: is_heap_edges)
qed

text \<open>\<open>up\<close>: every edge is in order but the one into \<open>j\<close>.\<close>

lemma heap_up_edges:
  assumes "j < length h"
    and "\<And>c. 0 < c \<Longrightarrow> c < length h \<Longrightarrow> c \<noteq> j \<Longrightarrow> \<not> lt (h ! c) (h ! ((c - 1) div 2))"
    and "\<And>c. 0 < c \<Longrightarrow> c < length h \<Longrightarrow> (c - 1) div 2 = j \<Longrightarrow> 0 < j \<Longrightarrow>
           \<not> lt (h ! c) (h ! ((j - 1) div 2))"
  shows "is_heap lt (heap_up lt h j)"
  using assms
proof (induction j arbitrary: h rule: less_induct)
  case (less j)
  define i where "i = (j - 1) div 2"
  show ?case
  proof (cases "i = j \<or> \<not> lt (h ! j) (h ! i)")
    case True
    then have "heap_up lt h j = h" by (subst heap_up.simps) (auto simp: Let_def i_def)
    moreover have "\<not> lt (h ! c) (h ! ((c - 1) div 2))" if "0 < c" "c < length h" for c
      using True less.prems(2)[of c] that by (cases "c = j") (auto simp: i_def)
    ultimately show ?thesis by (auto simp: is_heap_def)
  next
    case False
    then have ij: "i < j" "0 < j" by (auto simp: i_def intro: Nat.gr0I)
    have len: "i < length h" "j < length h" using ij less.prems(1) by auto
    have eq: "heap_up lt h j = heap_up lt (swap h i j) i"
      using False by (subst heap_up.simps) (auto simp: Let_def i_def)
    have ji: "\<not> lt (h ! i) (h ! j)" using False lt_asym by blast
    have edge: "\<not> lt (swap h i j ! c) (swap h i j ! ((c - 1) div 2))"
      if c: "0 < c" "c < length h" "c \<noteq> i" for c
    proof -
      define p where "p = (c - 1) div 2"
      have pl: "p < length h" "p < c" using c by (auto simp: p_def)
      consider "c = j" | "c \<noteq> j" "p = i" | "c \<noteq> j" "p = j" | "c \<noteq> j" "p \<noteq> i" "p \<noteq> j" by blast
      then have "\<not> lt (swap h i j ! c) (swap h i j ! p)"
      proof cases
        case 1
        then have "p = i" by (simp add: p_def i_def)
        then show ?thesis using 1 ji ij len by (simp add: nth_swap)
      next
        case 2 then show ?thesis using less.prems(2)[OF c(1,2)] nlt_trans[OF _ ji] len c
          by (auto simp: nth_swap p_def)
      next
        case 3
        then have "\<not> lt (h ! c) (h ! i)"
          using less.prems(3)[OF c(1,2)] ij unfolding p_def i_def by auto
        then show ?thesis using 3 len c ij by (simp add: nth_swap)
      next
        case 4 then show ?thesis using less.prems(2)[OF c(1,2)] c
          by (auto simp: nth_swap_other p_def)
      qed
      then show ?thesis by (simp add: p_def)
    qed
    have kids: "\<not> lt (swap h i j ! c) (swap h i j ! ((i - 1) div 2))"
      if c: "0 < c" "c < length h" "(c - 1) div 2 = i" "0 < i" for c
    proof -
      have g: "\<not> lt (h ! i) (h ! ((i - 1) div 2))"
        using less.prems(2)[of i] c ij len by auto
      have pi: "(i - 1) div 2 \<noteq> i" "(i - 1) div 2 \<noteq> j" using c ij by auto
      show ?thesis
      proof (cases "c = j")
        case True then show ?thesis using g pi len by (auto simp: nth_swap nth_swap_other)
      next
        case False
        have "\<not> lt (h ! c) (h ! i)" using less.prems(2)[of c] c False by auto
        then show ?thesis using nlt_trans[OF _ g] pi False c ij by (auto simp: nth_swap_other)
      qed
    qed
    show ?thesis unfolding eq using ij len edge kids by (intro less.IH) auto
  qed
qed

lemma is_heap_push: "is_heap lt h \<Longrightarrow> is_heap lt (heap_push lt h x)"
  unfolding heap_push_def
  by (rule heap_up_edges) (auto simp: is_heap_def nth_append)

end

end
