(* ===== verification/Labels.thy ===== *)
theory Labels
  imports Go_Prelude "HOL-Library.Product_Lexorder"
begin

section \<open>Label sets (pkg/model/labels.go)\<close>

text \<open>
  Label pairs, label sets, their byte encodings and hashes, comparison, and \<open>LabelsBuilder\<close>.
  A \<open>*commonv1.LabelPair\<close> is the record \<open>label_pair\<close>; \<open>Labels\<close> is a list of them. The hash
  function \<open>xxhash.Sum64\<close> is third-party code and is the parameter \<open>H\<close>; a streaming digest is
  the bytes written so far, and its \<open>Sum64\<close> is \<open>H\<close> of those bytes, as its documentation says.
\<close>

record label_pair =
  lp_Name :: string
  lp_Value :: string

type_synonym labels = "label_pair list"

abbreviation mk_label :: "string \<Rightarrow> string \<Rightarrow> label_pair" where
  "mk_label n v \<equiv> \<lparr>lp_Name = n, lp_Value = v\<rparr>"

definition seps :: char where "seps = CHR 0xFF"
definition labelSep :: char where "labelSep = CHR 0xFE"

definition LabelNameProfileType :: string where "LabelNameProfileType = ''__profile_type__''"
definition LabelNameType :: string where "LabelNameType = ''__type__''"
definition LabelNameUnit :: string where "LabelNameUnit = ''__unit__''"
definition LabelNamePeriodType :: string where "LabelNamePeriodType = ''__period_type__''"
definition LabelNamePeriodUnit :: string where "LabelNamePeriodUnit = ''__period_unit__''"

text \<open>\<open>labels.MetricName\<close> and \<open>model.MetricNameLabel\<close> of Prometheus.\<close>

definition MetricName :: string where "MetricName = ''__name__''"

text \<open>The bytes one label adds to a hash buffer.\<close>

definition label_bytes :: "label_pair \<Rightarrow> string" where
  "label_bytes l = lp_Name l @ [seps] @ lp_Value l @ [seps]"

subsection \<open>Hashes\<close>

text \<open>
  \<open>Labels.Hash\<close>: labels are appended to a buffer of capacity 1024; the first label that would
  fill it switches to the streaming digest for the rest.
\<close>

fun Labels_Hash_loop :: "(string \<Rightarrow> u64) \<Rightarrow> string \<Rightarrow> labels \<Rightarrow> u64" where
  "Labels_Hash_loop H b [] = H b"
| "Labels_Hash_loop H b (v # vs) =
     (if length b + length (lp_Name v) + length (lp_Value v) + 2 \<ge> 1024
      then H (b @ concat (map label_bytes (v # vs)))
      else Labels_Hash_loop H (b @ label_bytes v) vs)"

definition Labels_Hash :: "(string \<Rightarrow> u64) \<Rightarrow> labels \<Rightarrow> u64" where
  "Labels_Hash H ls = Labels_Hash_loop H [] ls"

text \<open>The loop of \<open>HashForLabels\<close>: both lists are walked in step.\<close>

fun HashForLabels_loop :: "string \<Rightarrow> labels \<Rightarrow> string list \<Rightarrow> string" where
  "HashForLabels_loop b (l # ls) (n # ns) =
     (if n < lp_Name l then HashForLabels_loop b (l # ls) ns
      else if lp_Name l < n then HashForLabels_loop b ls (n # ns)
      else HashForLabels_loop (b @ label_bytes l) ls ns)"
| "HashForLabels_loop b _ _ = b"

definition HashForLabels :: "(string \<Rightarrow> u64) \<Rightarrow> labels \<Rightarrow> string list \<Rightarrow> u64 \<times> string" where
  "HashForLabels H ls names =
     (let b = HashForLabels_loop [] ls names in (H b, b))"

fun HashWithoutLabels_loop :: "string \<Rightarrow> labels \<Rightarrow> string list \<Rightarrow> string" where
  "HashWithoutLabels_loop b [] ns = b"
| "HashWithoutLabels_loop b (l # ls) ns =
     (let ns' = dropWhile (\<lambda>n. n < lp_Name l) ns
      in if lp_Name l = MetricName \<or> (ns' \<noteq> [] \<and> lp_Name l = hd ns')
         then HashWithoutLabels_loop b ls ns'
         else HashWithoutLabels_loop (b @ label_bytes l) ls ns')"

definition HashWithoutLabels :: "(string \<Rightarrow> u64) \<Rightarrow> labels \<Rightarrow> string list \<Rightarrow> u64 \<times> string" where
  "HashWithoutLabels H ls names =
     (let b = HashWithoutLabels_loop [] ls names in (H b, b))"

fun BytesWithLabels_loop :: "string \<Rightarrow> labels \<Rightarrow> string list \<Rightarrow> string" where
  "BytesWithLabels_loop b (l # ls) (n # ns) =
     (if n < lp_Name l then BytesWithLabels_loop b (l # ls) ns
      else if lp_Name l < n then BytesWithLabels_loop b ls (n # ns)
      else BytesWithLabels_loop
             ((if length b > 1 then b @ [seps] else b) @ lp_Name l @ [seps] @ lp_Value l) ls ns)"
| "BytesWithLabels_loop b _ _ = b"

definition BytesWithLabels :: "labels \<Rightarrow> string list \<Rightarrow> string" where
  "BytesWithLabels ls names = BytesWithLabels_loop [labelSep] ls names"

subsection \<open>Selections, lookup and comparison\<close>

definition HasPrefix :: "string \<Rightarrow> string \<Rightarrow> bool" where
  "HasPrefix s p \<longleftrightarrow> take (length p) s = p"

definition WithoutPrivateLabels :: "labels \<Rightarrow> labels" where
  "WithoutPrivateLabels ls = filter (\<lambda>l. \<not> HasPrefix (lp_Name l) ''__'') ls"

definition WithLabels :: "labels \<Rightarrow> string list \<Rightarrow> labels" where
  "WithLabels ls names = filter (\<lambda>l. lp_Name l \<in> set names) ls"

fun Labels_Get :: "labels \<Rightarrow> string \<Rightarrow> string" where
  "Labels_Get [] name = []"
| "Labels_Get (l # ls) name = (if lp_Name l = name then lp_Value l else Labels_Get ls name)"

definition Labels_Clone :: "labels \<Rightarrow> labels" where
  "Labels_Clone ls = map (\<lambda>l. mk_label (lp_Name l) (lp_Value l)) ls"

definition sort_labels :: "labels \<Rightarrow> labels" where
  "sort_labels ls = sort_key lp_Name ls"

text \<open>\<open>LabelsFromStrings\<close>: \<open>None\<close> is the panic on an odd number of strings.\<close>

fun pair_up :: "string list \<Rightarrow> labels option" where
  "pair_up [] = Some []"
| "pair_up [_] = None"
| "pair_up (n # v # ss) = map_option (\<lambda>ls. mk_label n v # ls) (pair_up ss)"

definition LabelsFromStrings :: "string list \<Rightarrow> labels option" where
  "LabelsFromStrings ss =
     (if length ss mod 2 \<noteq> 0 then None else map_option sort_labels (pair_up ss))"

text \<open>The loop of \<open>CompareLabelPairs\<close> over the common length, then the difference of lengths.\<close>

fun CompareLabelPairs_loop :: "labels \<Rightarrow> labels \<Rightarrow> int option" where
  "CompareLabelPairs_loop (a # as) (b # bs) =
     (if lp_Name a \<noteq> lp_Name b then Some (if lp_Name a < lp_Name b then -1 else 1)
      else if lp_Value a \<noteq> lp_Value b then Some (if lp_Value a < lp_Value b then -1 else 1)
      else CompareLabelPairs_loop as bs)"
| "CompareLabelPairs_loop _ _ = None"

definition CompareLabelPairs :: "labels \<Rightarrow> labels \<Rightarrow> int" where
  "CompareLabelPairs a b =
     (case CompareLabelPairs_loop a b of Some c \<Rightarrow> c | None \<Rightarrow> int (length a) - int (length b))"

subsection \<open>LabelsBuilder\<close>

record LabelsBuilder =
  lb_base :: labels
  lb_del :: "string list"
  lb_add :: labels

definition LabelsBuilder_Reset :: "LabelsBuilder \<Rightarrow> labels \<Rightarrow> LabelsBuilder" where
  "LabelsBuilder_Reset b base =
     b\<lparr>lb_base := base, lb_add := [],
       lb_del := map lp_Name (filter (\<lambda>l. lp_Value l = []) base)\<rparr>"

definition NewLabelsBuilder :: "labels \<Rightarrow> LabelsBuilder" where
  "NewLabelsBuilder base =
     LabelsBuilder_Reset \<lparr>lb_base = [], lb_del = [], lb_add = []\<rparr> base"

text \<open>
  The inner loop of \<open>Del\<close> ranges over the slice \<open>b.add\<close> as it was when the loop started
  while \<open>append(b.add[:i], b.add[i+1:]...)\<close> shifts elements in the same backing array. The
  model has the array \<open>arr\<close> (of the length the loop started with) and the current length
  \<open>m\<close> of \<open>b.add\<close>; slicing beyond \<open>m\<close> panics (\<open>None\<close>).
\<close>

function Del_loop :: "string \<Rightarrow> nat \<Rightarrow> labels \<Rightarrow> nat \<Rightarrow> (labels \<times> nat) option" where
  "Del_loop n i arr m =
     (if i < length arr then
        if lp_Name (arr ! i) = n then
          if m < i + 1 then None
          else Del_loop n (i + 1)
                 (take i arr @ take (m - 1 - i) (drop (i + 1) arr) @ drop (m - 1) arr) (m - 1)
        else Del_loop n (i + 1) arr m
      else Some (arr, m))"
  by pat_completeness auto
termination
  by (relation "measure (\<lambda>(n, i, arr, m). length arr - i)") auto

declare Del_loop.simps [simp del]

fun LabelsBuilder_Del :: "LabelsBuilder \<Rightarrow> string list \<Rightarrow> LabelsBuilder option" where
  "LabelsBuilder_Del b [] = Some b"
| "LabelsBuilder_Del b (n # ns) =
     (case Del_loop n 0 (lb_add b) (length (lb_add b)) of
        None \<Rightarrow> None
      | Some (arr, m) \<Rightarrow>
          LabelsBuilder_Del (b\<lparr>lb_add := take m arr, lb_del := lb_del b @ [n]\<rparr>) ns)"

fun set_first :: "labels \<Rightarrow> string \<Rightarrow> string \<Rightarrow> labels option" where
  "set_first [] n v = None"
| "set_first (a # as) n v =
     (if lp_Name a = n then Some (a\<lparr>lp_Value := v\<rparr> # as)
      else map_option (\<lambda>as'. a # as') (set_first as n v))"

definition LabelsBuilder_Set :: "LabelsBuilder \<Rightarrow> string \<Rightarrow> string \<Rightarrow> LabelsBuilder option" where
  "LabelsBuilder_Set b n v =
     (if v = [] then LabelsBuilder_Del b [n]
      else case set_first (lb_add b) n v of
             Some add \<Rightarrow> Some (b\<lparr>lb_add := add\<rparr>)
           | None \<Rightarrow> Some (b\<lparr>lb_add := lb_add b @ [mk_label n v]\<rparr>))"

definition LabelsBuilder_Labels :: "LabelsBuilder \<Rightarrow> labels" where
  "LabelsBuilder_Labels b =
     (if lb_del b = [] \<and> lb_add b = [] then lb_base b
      else sort_labels
             (filter (\<lambda>l. lp_Name l \<notin> set (lb_del b) \<and> lp_Name l \<notin> lp_Name ` set (lb_add b))
                (lb_base b) @ lb_add b))"


subsection \<open>The byte encoding is injective\<close>

text \<open>
  \<open>sep_free\<close>: no name or value has the byte \<open>0xff\<close>. It is never part of UTF-8 text, which label
  names and values are.
\<close>

definition sep_free :: "labels \<Rightarrow> bool" where
  "sep_free ls \<longleftrightarrow> (\<forall>l \<in> set ls. seps \<notin> set (lp_Name l) \<and> seps \<notin> set (lp_Value l))"

definition labels_enc :: "labels \<Rightarrow> string" where
  "labels_enc ls = concat (map label_bytes ls)"

lemma sep_free_Cons [simp]:
  "sep_free (l # ls) \<longleftrightarrow> seps \<notin> set (lp_Name l) \<and> seps \<notin> set (lp_Value l) \<and> sep_free ls"
  by (auto simp: sep_free_def)

lemma sep_free_filter [simp]: "sep_free ls \<Longrightarrow> sep_free (filter P ls)"
  by (auto simp: sep_free_def)

lemma append_sep_eq:
  assumes "c \<notin> set x" and "c \<notin> set y"
  shows "x @ c # s = y @ c # t \<longleftrightarrow> x = y \<and> s = t"
  using assms
proof (induction x arbitrary: y)
  case Nil
  then show ?case by (cases y) auto
next
  case (Cons a x)
  then show ?case by (cases y) auto
qed

lemma labels_enc_inj: "sep_free a \<Longrightarrow> sep_free b \<Longrightarrow> labels_enc a = labels_enc b \<longleftrightarrow> a = b"
proof (induction a arbitrary: b)
  case Nil
  then show ?case by (cases b) (auto simp: labels_enc_def label_bytes_def)
next
  case (Cons l a)
  show ?case
  proof (cases b)
    case Nil
    then show ?thesis by (simp add: labels_enc_def label_bytes_def)
  next
    case (Cons k b')
    have "labels_enc (l # a) = labels_enc b \<longleftrightarrow>
        lp_Name l = lp_Name k \<and> lp_Value l = lp_Value k \<and> labels_enc a = labels_enc b'"
      using Cons.prems Cons by (simp add: labels_enc_def label_bytes_def append_sep_eq)
    also have "labels_enc a = labels_enc b' \<longleftrightarrow> a = b'"
      using Cons.IH[of b'] Cons.prems Cons by simp
    finally show ?thesis using Cons by auto
  qed
qed

lemma Labels_Hash_loop_eq: "Labels_Hash_loop H b ls = H (b @ labels_enc ls)"
  by (induction ls arbitrary: b) (simp_all add: labels_enc_def)

text \<open>\<open>Labels.Hash\<close> hashes the concatenation of \<open>name 0xff value 0xff\<close> of all labels, whichever
  of its two paths it takes (the buffer of 1024 bytes or the streaming digest); and that encoding
  tells label sets apart, so two sets get the same fingerprint only if the hash function collides.\<close>

theorem Labels_Hash_identifies:
  assumes "sep_free a" and "sep_free b" and "inj_on H {labels_enc a, labels_enc b}"
  shows "Labels_Hash H a = H (concat (map label_bytes a))
    \<and> (Labels_Hash H a = Labels_Hash H b \<longleftrightarrow> a = b)"
proof -
  have hash: "Labels_Hash H ls = H (labels_enc ls)" for ls
    by (simp add: Labels_Hash_def Labels_Hash_loop_eq)
  have "H (labels_enc a) = H (labels_enc b) \<longleftrightarrow> labels_enc a = labels_enc b"
    using inj_on_eq_iff[OF assms(3)] by simp
  then show ?thesis using labels_enc_inj[OF assms(1,2)] by (simp add: hash labels_enc_def)
qed

subsection \<open>Walking labels and names in step\<close>

abbreviation by_name :: "labels \<Rightarrow> bool" where
  "by_name ls \<equiv> sorted_wrt (<) (map lp_Name ls)"

lemma filter_names_Cons_less:
  "by_name (l # ls) \<Longrightarrow> n < lp_Name l \<Longrightarrow>
   filter (\<lambda>x. lp_Name x = n \<or> lp_Name x \<in> N) (l # ls) = filter (\<lambda>x. lp_Name x \<in> N) (l # ls)"
  by (rule filter_cong) auto

lemma HashForLabels_loop_eq:
  "by_name ls \<Longrightarrow> sorted ns \<Longrightarrow> HashForLabels_loop b ls ns = b @ labels_enc (WithLabels ls ns)"
proof (induction b ls ns rule: HashForLabels_loop.induct)
  case (1 b l ls n ns)
  consider "n < lp_Name l" | "lp_Name l < n" | "lp_Name l = n" by fastforce
  then show ?case
  proof cases
    case 1
    then show ?thesis using "1.IH"(1) "1.prems" filter_names_Cons_less[of l ls n "set ns"]
      by (simp add: WithLabels_def)
  next
    case 2
    then have "lp_Name l \<notin> set ns" "\<not> n < lp_Name l" "lp_Name l \<noteq> n" using "1.prems"(2) by auto
    then show ?thesis using "1.IH"(2) "1.prems" 2 by (simp add: WithLabels_def)
  next
    case 3
    have "filter (\<lambda>x. lp_Name x = n \<or> lp_Name x \<in> set ns) ls = filter (\<lambda>x. lp_Name x \<in> set ns) ls"
      using "1.prems"(1) 3 by (intro filter_cong) auto
    then show ?thesis using "1.IH"(3) "1.prems" 3
      by (simp add: WithLabels_def labels_enc_def)
  qed
qed (simp_all add: WithLabels_def labels_enc_def)

lemma dropWhile_less_hd:
  assumes "sorted ns"
  shows "dropWhile (\<lambda>n. n < x) ns \<noteq> [] \<and> x = hd (dropWhile (\<lambda>n. n < x) ns) \<longleftrightarrow> (x::'a::linorder) \<in> set ns"
  using assms by (induction ns) auto

lemma HashWithoutLabels_loop_eq:
  "by_name ls \<Longrightarrow> sorted ns \<Longrightarrow>
   HashWithoutLabels_loop b ls ns
     = b @ labels_enc (filter (\<lambda>l. lp_Name l \<noteq> MetricName \<and> lp_Name l \<notin> set ns) ls)"
proof (induction ls arbitrary: b ns)
  case Nil
  then show ?case by (simp add: labels_enc_def)
next
  case (Cons l ls)
  let ?ns = "dropWhile (\<lambda>n. n < lp_Name l) ns"
  have sorted: "sorted ?ns" using Cons.prems(2) by (simp add: sorted_dropWhile)
  have "x \<in> set ?ns \<longleftrightarrow> x \<in> set ns" if "lp_Name l < x" for x
    using that Cons.prems(2) by (induction ns) auto
  then have "filter (\<lambda>l. lp_Name l \<noteq> MetricName \<and> lp_Name l \<notin> set ?ns) ls
      = filter (\<lambda>l. lp_Name l \<noteq> MetricName \<and> lp_Name l \<notin> set ns) ls"
    using Cons.prems(1) by (intro filter_cong) auto
  then show ?case
    using Cons.IH[OF _ sorted] Cons.prems dropWhile_less_hd[OF Cons.prems(2), of "lp_Name l"]
    by (auto simp: Let_def labels_enc_def)
qed

text \<open>On a sorted label set and sorted names, \<open>HashForLabels\<close> hashes exactly the labels that
  \<open>WithLabels\<close> selects, and \<open>HashWithoutLabels\<close> exactly the other labels without the metric name:
  the two-pointer walks agree with the set-based selection.\<close>

theorem HashForLabels_selects:
  assumes "by_name ls" and "sorted names"
  shows "HashForLabels H ls names = (Labels_Hash H (WithLabels ls names), labels_enc (WithLabels ls names))
    \<and> fst (HashWithoutLabels H ls names)
        = Labels_Hash H (filter (\<lambda>l. lp_Name l \<noteq> MetricName \<and> lp_Name l \<notin> set names) ls)"
  using assms
  by (simp add: HashForLabels_def HashWithoutLabels_def HashForLabels_loop_eq
      HashWithoutLabels_loop_eq Labels_Hash_def Labels_Hash_loop_eq Let_def)

subsection \<open>The grouping key\<close>

definition key_part :: "label_pair \<Rightarrow> string" where
  "key_part l = seps # lp_Name l @ seps # lp_Value l"

lemma BytesWithLabels_loop_long:
  "by_name ls \<Longrightarrow> sorted ns \<Longrightarrow> length b > 1 \<Longrightarrow>
   BytesWithLabels_loop b ls ns = b @ concat (map key_part (WithLabels ls ns))"
proof (induction b ls ns rule: BytesWithLabels_loop.induct)
  case (1 b l ls n ns)
  consider "n < lp_Name l" | "lp_Name l < n" "\<not> n < lp_Name l" "lp_Name l \<noteq> n" "lp_Name l \<notin> set ns"
    | "lp_Name l = n" using "1.prems"(2) by fastforce
  then show ?case
  proof cases
    case 1
    then show ?thesis using "1.IH"(1) "1.prems" filter_names_Cons_less[of l ls n "set ns"]
      by (simp add: WithLabels_def)
  next
    case 2
    then show ?thesis using "1.IH"(2) "1.prems" by (simp add: WithLabels_def)
  next
    case 3
    have "filter (\<lambda>x. lp_Name x = n \<or> lp_Name x \<in> set ns) ls = filter (\<lambda>x. lp_Name x \<in> set ns) ls"
      using "1.prems"(1) 3 by (intro filter_cong) auto
    then show ?thesis using "1.IH"(3) "1.prems" 3
      by (simp add: WithLabels_def key_part_def)
  qed
qed (simp_all add: WithLabels_def)

text \<open>The first selected label has no separator before it.\<close>

lemma BytesWithLabels_loop_start:
  "by_name ls \<Longrightarrow> sorted ns \<Longrightarrow> length b = 1 \<Longrightarrow>
   BytesWithLabels_loop b ls ns = b @ tl (concat (map key_part (WithLabels ls ns)))"
proof (induction b ls ns rule: BytesWithLabels_loop.induct)
  case (1 b l ls n ns)
  consider "n < lp_Name l" | "lp_Name l < n" "\<not> n < lp_Name l" "lp_Name l \<noteq> n" "lp_Name l \<notin> set ns"
    | "lp_Name l = n" using "1.prems"(2) by fastforce
  then show ?case
  proof cases
    case 1
    then show ?thesis using "1.IH"(1) "1.prems" filter_names_Cons_less[of l ls n "set ns"]
      by (simp add: WithLabels_def)
  next
    case 2
    then show ?thesis using "1.IH"(2) "1.prems" by (simp add: WithLabels_def)
  next
    case 3
    have "filter (\<lambda>x. lp_Name x = n \<or> lp_Name x \<in> set ns) ls = filter (\<lambda>x. lp_Name x \<in> set ns) ls"
      using "1.prems"(1) 3 by (intro filter_cong) auto
    then show ?thesis using 3 "1.prems" BytesWithLabels_loop_long[of ls ns]
      by (simp add: WithLabels_def key_part_def[of l])
  qed
qed (simp_all add: WithLabels_def)

lemma key_parts_enc: "concat (map key_part ls) @ [seps] = seps # labels_enc ls"
  by (induction ls) (auto simp: key_part_def labels_enc_def label_bytes_def)

lemma key_parts_inj:
  assumes "sep_free a" and "sep_free b"
  shows "tl (concat (map key_part a)) = tl (concat (map key_part b)) \<longleftrightarrow> a = b"
proof -
  have shape: "concat (map key_part ls) = [] \<longleftrightarrow> ls = []"
      "ls \<noteq> [] \<Longrightarrow> concat (map key_part ls) = seps # tl (concat (map key_part ls))"
      "ls \<noteq> [] \<Longrightarrow> tl (concat (map key_part ls)) \<noteq> []" for ls
    by (cases ls; simp add: key_part_def)+
  have "concat (map key_part a) = concat (map key_part b)"
    if "tl (concat (map key_part a)) = tl (concat (map key_part b))"
    using that shape[of a] shape[of b] by (metis list.sel(2) concat.simps(1) list.simps(8))
  then show ?thesis
    using key_parts_enc[of a] key_parts_enc[of b] labels_enc_inj[OF assms] by auto
qed

lemma BytesWithLabels_inj:
  assumes "by_name a" and "by_name b" and "sorted names" and "sep_free a" and "sep_free b"
  shows "BytesWithLabels a names = BytesWithLabels b names \<longleftrightarrow> WithLabels a names = WithLabels b names"
proof -
  have "sep_free (WithLabels a names)" "sep_free (WithLabels b names)"
    using assms(4,5) by (simp_all add: WithLabels_def)
  from key_parts_inj[OF this] show ?thesis
    using assms(1-3) by (simp add: BytesWithLabels_def BytesWithLabels_loop_start)
qed

text \<open>The key under which series are grouped (\<open>BytesWithLabels\<close>) is the same for two label sets
  exactly if they agree on the labels grouped by (\<open>WithLabels\<close>), for label sets sorted by name and
  sorted grouping names.\<close>

theorem BytesWithLabels_key:
  assumes "by_name a" and "by_name b" and "sorted names" and "sep_free a" and "sep_free b"
  shows "BytesWithLabels a names = BytesWithLabels b names
    \<longleftrightarrow> WithLabels a names = WithLabels b names"
  by (rule BytesWithLabels_inj[OF assms])

subsection \<open>Comparison\<close>

definition label_key :: "label_pair \<Rightarrow> string \<times> string" where
  "label_key l = (lp_Name l, lp_Value l)"

lemma label_key_inj: "label_key a = label_key b \<longleftrightarrow> a = b"
  by (auto simp: label_key_def)

lemma map_label_key_eq [simp]: "map label_key a = map label_key b \<longleftrightarrow> a = b"
  by (rule inj_map_eq_map) (simp add: inj_def label_key_inj)

lemma CompareLabelPairs_Nil [simp]:
  "CompareLabelPairs [] b = - int (length b)" "CompareLabelPairs a [] = int (length a)"
  by (cases b; simp add: CompareLabelPairs_def) (cases a; simp add: CompareLabelPairs_def)

lemma CompareLabelPairs_Cons:
  "CompareLabelPairs (x # a) (y # b) =
     (if label_key x < label_key y then -1 else if label_key y < label_key x then 1
      else CompareLabelPairs a b)"
  by (auto simp: CompareLabelPairs_def label_key_def less_prod_def split: option.splits)

lemma CompareLabelPairs_zero: "CompareLabelPairs a b = 0 \<longleftrightarrow> a = b"
proof (induction a arbitrary: b)
  case (Cons x a)
  then show ?case
    by (cases b) (auto simp: CompareLabelPairs_Cons label_key_inj not_less_iff_gr_or_eq)
qed auto

lemma CompareLabelPairs_less: "CompareLabelPairs a b < 0 \<longleftrightarrow> map label_key a < map label_key b"
proof (induction a arbitrary: b)
  case Nil
  then show ?case by (cases b) auto
next
  case (Cons x a)
  show ?case
  proof (cases b)
    case (Cons y b')
    then show ?thesis using Cons.IH[of b']
      by (cases rule: linorder_cases[of "label_key x" "label_key y"])
        (auto simp: CompareLabelPairs_Cons)
  qed simp
qed

text \<open>\<open>CompareLabelPairs\<close> is the lexicographic order on the lists of (name, value) pairs: it is 0
  for equal sets only, negative exactly if the first is before the second, and swapping the
  arguments flips its sign.\<close>

theorem CompareLabelPairs_order:
  "(CompareLabelPairs a b = 0 \<longleftrightarrow> a = b)
   \<and> (CompareLabelPairs a b < 0 \<longleftrightarrow> map label_key a < map label_key b)
   \<and> sgn (CompareLabelPairs b a) = - sgn (CompareLabelPairs a b)"
proof -
  have "CompareLabelPairs b a > 0 \<longleftrightarrow> CompareLabelPairs a b < 0" for a b
    using CompareLabelPairs_less[of a b] CompareLabelPairs_less[of b a]
      CompareLabelPairs_zero[of b a] by (metis linorder_less_linear map_label_key_eq order_less_asym)
  from this[of a b] this[of b a]
  have "sgn (CompareLabelPairs b a) = - sgn (CompareLabelPairs a b)"
    by (cases "CompareLabelPairs a b" "0 :: int" rule: linorder_cases) (auto simp: sgn_if)
  then show ?thesis using CompareLabelPairs_zero CompareLabelPairs_less by blast
qed


subsection \<open>The builder\<close>

text \<open>What a name is bound to, read off the builder's three parts.\<close>

definition builder_get :: "LabelsBuilder \<Rightarrow> string \<Rightarrow> string" where
  "builder_get b n =
     (if n \<in> lp_Name ` set (lb_add b) then Labels_Get (lb_add b) n
      else if n \<in> set (lb_del b) then [] else Labels_Get (lb_base b) n)"

text \<open>Names in \<open>add\<close> are distinct, and so are those of the base: every operation keeps this.\<close>

definition builder_inv :: "LabelsBuilder \<Rightarrow> bool" where
  "builder_inv b \<longleftrightarrow> distinct (map lp_Name (lb_add b)) \<and> distinct (map lp_Name (lb_base b))
     \<and> (\<forall>l \<in> set (lb_add b). lp_Value l \<noteq> [])
     \<and> (\<forall>l \<in> set (lb_base b). lp_Value l = [] \<longrightarrow> lp_Name l \<in> set (lb_del b))"

lemma Labels_Get_notin: "n \<notin> lp_Name ` set ls \<Longrightarrow> Labels_Get ls n = []"
  by (induction ls) auto

lemma Labels_Get_append:
  "Labels_Get (a @ b) n = (if n \<in> lp_Name ` set a then Labels_Get a n else Labels_Get b n)"
  by (induction a) auto

lemma Labels_Get_in: "n \<in> lp_Name ` set ls \<Longrightarrow> \<exists>l \<in> set ls. lp_Name l = n \<and> Labels_Get ls n = lp_Value l"
  by (induction ls) auto

lemma Labels_Get_eq:
  "distinct (map lp_Name ls) \<Longrightarrow> l \<in> set ls \<Longrightarrow> Labels_Get ls (lp_Name l) = lp_Value l"
  by (induction ls) auto

lemma Labels_Get_filter:
  "Labels_Get (filter (\<lambda>l. lp_Name l \<notin> N) ls) n = (if n \<in> N then [] else Labels_Get ls n)"
  by (induction ls) auto

lemma Labels_Get_mset:
  assumes "distinct (map lp_Name a)" and "set b = set a" and "distinct (map lp_Name b)"
  shows "Labels_Get b n = Labels_Get a n"
proof (cases "n \<in> lp_Name ` set a")
  case True
  then show ?thesis using Labels_Get_eq[OF assms(1)] Labels_Get_eq[OF assms(3)] assms(2) by auto
next
  case False
  then show ?thesis using assms(2) by (simp add: Labels_Get_notin)
qed

lemma distinct_sort_labels [simp]:
  "distinct (map lp_Name (sort_labels ls)) \<longleftrightarrow> distinct (map lp_Name ls)"
  by (metis mset_map mset_eq_imp_distinct_iff mset_sort sort_labels_def)

lemma set_sort_labels [simp]: "set (sort_labels ls) = set ls"
  by (simp add: sort_labels_def)

lemma sorted_sort_labels: "sorted (map lp_Name (sort_labels ls))"
  by (simp add: sort_labels_def)

text \<open>The loop of \<open>Del\<close>: past a name that does not occur it changes nothing.\<close>

lemma Del_loop_skip:
  "(\<forall>k. i \<le> k \<and> k < length arr \<longrightarrow> lp_Name (arr ! k) \<noteq> n) \<Longrightarrow> Del_loop n i arr m = Some (arr, m)"
proof (induction n i arr m rule: Del_loop.induct)
  case (1 n i arr m)
  then show ?case by (subst Del_loop.simps) auto
qed

lemma Del_loop_until:
  "i \<le> j \<Longrightarrow> j \<le> length arr \<Longrightarrow> (\<forall>k. i \<le> k \<and> k < j \<longrightarrow> lp_Name (arr ! k) \<noteq> n) \<Longrightarrow>
   Del_loop n i arr m = Del_loop n j arr m"
proof (induction "j - i" arbitrary: i)
  case (Suc d)
  have "i < length arr" "lp_Name (arr ! i) \<noteq> n" using Suc.hyps(2) Suc.prems by auto
  then have "Del_loop n i arr m = Del_loop n (i + 1) arr m"
    by (subst Del_loop.simps) simp
  also have "\<dots> = Del_loop n j arr m"
    using Suc.hyps(2) Suc.prems by (intro Suc.hyps(1)) auto
  finally show ?case .
qed simp

lemma Del_loop_removes:
  assumes "distinct (map lp_Name arr)"
  shows "\<exists>arr' m. Del_loop n 0 arr (length arr) = Some (arr', m)
           \<and> take m arr' = filter (\<lambda>l. lp_Name l \<noteq> n) arr"
proof (cases "n \<in> lp_Name ` set arr")
  case False
  then have "Del_loop n 0 arr (length arr) = Some (arr, length arr)"
    by (intro Del_loop_skip) (metis image_eqI nth_mem)
  moreover have "filter (\<lambda>l. lp_Name l \<noteq> n) arr = arr" using False by (auto simp: filter_id_conv)
  ultimately show ?thesis by auto
next
  case True
  then obtain xs l ys where arr: "arr = xs @ l # ys" and l: "lp_Name l = n"
    by (metis imageE split_list)
  have out: "n \<notin> lp_Name ` set xs" "n \<notin> lp_Name ` set ys" using assms arr l by auto
  let ?i = "length xs"
  have "Del_loop n 0 arr (length arr) = Del_loop n ?i arr (length arr)"
    using out arr by (intro Del_loop_until) (auto simp: nth_append)
  also have "\<dots> = Del_loop n (?i + 1) (xs @ ys @ drop (length arr - 1) arr) (length arr - 1)"
    using arr l by (subst Del_loop.simps) simp
  also have "\<dots> = Some (xs @ ys @ drop (length arr - 1) arr, length arr - 1)"
  proof (intro Del_loop_skip allI impI)
    fix k assume k: "?i + 1 \<le> k \<and> k < length (xs @ ys @ drop (length arr - 1) arr)"
    show "lp_Name ((xs @ ys @ drop (length arr - 1) arr) ! k) \<noteq> n"
    proof (cases "k < length xs + length ys")
      case True
      then have "(xs @ ys @ drop (length arr - 1) arr) ! k \<in> set ys"
        using k by (auto simp: nth_append)
      then show ?thesis using out by auto
    next
      case False
      then have "ys \<noteq> []" "k = length xs + length ys" using k arr by (cases ys, auto)
      then have "(xs @ ys @ drop (length arr - 1) arr) ! k = last ys"
        using arr by (simp add: nth_append last_conv_nth nth_Cons')
      then show ?thesis using out \<open>ys \<noteq> []\<close> by (metis image_eqI last_in_set)
    qed
  qed
  finally have "Del_loop n 0 arr (length arr) = Some (xs @ ys @ drop (length arr - 1) arr, length arr - 1)" .
  moreover have "take (length arr - 1) (xs @ ys @ drop (length arr - 1) arr) = xs @ ys"
    using arr by simp
  moreover have "filter (\<lambda>l. lp_Name l \<noteq> n) xs = xs" "filter (\<lambda>l. lp_Name l \<noteq> n) ys = ys"
    using out by (auto simp: filter_id_conv)
  then have "filter (\<lambda>l. lp_Name l \<noteq> n) arr = xs @ ys" using arr l by simp
  ultimately show ?thesis by auto
qed

lemma LabelsBuilder_Del_one:
  assumes "builder_inv b"
  shows "LabelsBuilder_Del b [n] =
    Some (b\<lparr>lb_add := filter (\<lambda>l. lp_Name l \<noteq> n) (lb_add b), lb_del := lb_del b @ [n]\<rparr>)"
proof -
  obtain arr m where "Del_loop n 0 (lb_add b) (length (lb_add b)) = Some (arr, m)"
      "take m arr = filter (\<lambda>l. lp_Name l \<noteq> n) (lb_add b)"
    using Del_loop_removes[of "lb_add b" n] assms by (auto simp: builder_inv_def)
  then show ?thesis by simp
qed


lemma set_first_eq:
  "set_first add n v =
     (if n \<in> lp_Name ` set add then
        Some (takeWhile (\<lambda>l. lp_Name l \<noteq> n) add
              @ mk_label n v # tl (dropWhile (\<lambda>l. lp_Name l \<noteq> n) add))
      else None)"
  by (induction add) auto

lemma set_first_Some:
  assumes "set_first add n v = Some add'"
  shows "map lp_Name add' = map lp_Name add"
    and "Labels_Get add' m = (if m = n then v else Labels_Get add m)"
    and "set add' \<subseteq> insert (mk_label n v) (set add)"
  using assms by (induction add arbitrary: add') (auto split: if_splits)

lemma set_first_None: "set_first add n v = None \<longleftrightarrow> n \<notin> lp_Name ` set add"
  by (simp add: set_first_eq)

text \<open>A run of \<open>Set\<close> calls, one per (name, value).\<close>

fun apply_sets :: "('b \<Rightarrow> string \<Rightarrow> string \<Rightarrow> 'b option) \<Rightarrow> 'b \<Rightarrow> (string \<times> string) list \<Rightarrow> 'b option" where
  "apply_sets set_op b [] = Some b"
| "apply_sets set_op b ((n, v) # nvs) = Option.bind (set_op b n v) (\<lambda>b'. apply_sets set_op b' nvs)"

text \<open>
  What a client of the builder may rely on: \<open>Set\<close> always returns (it never panics), binds the
  name and leaves every other name alone; setting the empty value removes the label; \<open>Labels\<close>
  is sorted and holds exactly the bound names.
\<close>

locale label_binder =
  fixes set_op :: "'b \<Rightarrow> string \<Rightarrow> string \<Rightarrow> 'b option"
    and get :: "'b \<Rightarrow> string \<Rightarrow> string"
    and out :: "'b \<Rightarrow> labels"
    and inv :: "'b \<Rightarrow> bool"
  assumes set_op: "inv b \<Longrightarrow> \<exists>b'. set_op b n v = Some b' \<and> inv b' \<and> get b' = (get b)(n := v)"
    and out_get: "inv b \<Longrightarrow> Labels_Get (out b) n = get b n"
begin

lemma sets_get:
  assumes "inv b"
  shows "\<exists>b'. apply_sets set_op b nvs = Some b' \<and> inv b'
    \<and> get b' = foldl (\<lambda>g (n, v). g(n := v)) (get b) nvs"
  using assms
proof (induction nvs arbitrary: b)
  case (Cons nv nvs)
  obtain n v where nv: "nv = (n, v)" by fastforce
  obtain b' where b': "set_op b n v = Some b'" "inv b'" "get b' = (get b)(n := v)"
    using set_op[OF Cons.prems] by blast
  show ?case using Cons.IH[OF b'(2)] b' nv by simp
qed simp

end

lemma Labels_Get_filter_neq:
  "Labels_Get (filter (\<lambda>l. lp_Name l \<noteq> n) ls) m = (if m = n then [] else Labels_Get ls m)"
  by (induction ls) auto

lemma LabelsBuilder_Del_get:
  assumes "builder_inv b" and "LabelsBuilder_Del b [n] = Some b'"
  shows "builder_inv b' \<and> builder_get b' = (builder_get b)(n := [])"
proof -
  have b': "b' = b\<lparr>lb_add := filter (\<lambda>l. lp_Name l \<noteq> n) (lb_add b), lb_del := lb_del b @ [n]\<rparr>"
    using assms(2) unfolding LabelsBuilder_Del_one[OF assms(1)] by simp
  have "builder_inv b'"
    using assms(1) by (auto simp: b' builder_inv_def distinct_map_filter)
  moreover have "builder_get b' m = ((builder_get b)(n := [])) m" for m
    by (auto simp: b' builder_get_def Labels_Get_filter_neq image_iff)
  ultimately show ?thesis by auto
qed

lemma LabelsBuilder_Set_get:
  assumes "builder_inv b"
  shows "\<exists>b'. LabelsBuilder_Set b n v = Some b' \<and> builder_inv b'
    \<and> builder_get b' = (builder_get b)(n := v)"
proof (cases "v = []")
  case True
  obtain b' where b': "LabelsBuilder_Del b [n] = Some b'" using LabelsBuilder_Del_one[OF assms] by blast
  then show ?thesis using LabelsBuilder_Del_get[OF assms b'] True by (simp add: LabelsBuilder_Set_def)
next
  case False
  show ?thesis
  proof (cases "set_first (lb_add b) n v")
    case None
    then have out: "n \<notin> lp_Name ` set (lb_add b)" by (simp add: set_first_None)
    have "builder_inv (b\<lparr>lb_add := lb_add b @ [mk_label n v]\<rparr>)"
      using assms out False by (auto simp: builder_inv_def)
    moreover have "builder_get (b\<lparr>lb_add := lb_add b @ [mk_label n v]\<rparr>) = (builder_get b)(n := v)"
      using out by (auto simp: fun_eq_iff builder_get_def Labels_Get_append)
    ultimately show ?thesis using None False by (simp add: LabelsBuilder_Set_def)
  next
    case (Some add)
    note spec = set_first_Some[OF Some]
    have names: "lp_Name ` set add = lp_Name ` set (lb_add b)"
      using spec(1) by (metis list.set_map)
    have n: "n \<in> lp_Name ` set (lb_add b)" using Some set_first_None[of "lb_add b" n v] by auto
    have "builder_inv (b\<lparr>lb_add := add\<rparr>)"
      using assms spec(1,3) False by (auto simp: builder_inv_def)
    moreover have "builder_get (b\<lparr>lb_add := add\<rparr>) = (builder_get b)(n := v)"
      using names n spec(2) by (auto simp: fun_eq_iff builder_get_def)
    ultimately show ?thesis using Some False by (simp add: LabelsBuilder_Set_def)
  qed
qed

lemma LabelsBuilder_Labels_get:
  assumes "builder_inv b"
  shows "Labels_Get (LabelsBuilder_Labels b) n = builder_get b n"
proof (cases "lb_del b = [] \<and> lb_add b = []")
  case True
  then show ?thesis by (simp add: LabelsBuilder_Labels_def builder_get_def)
next
  case False
  let ?N = "set (lb_del b) \<union> lp_Name ` set (lb_add b)"
  let ?ls = "filter (\<lambda>l. lp_Name l \<notin> ?N) (lb_base b) @ lb_add b"
  have "distinct (map lp_Name ?ls)"
    using assms by (auto simp: builder_inv_def distinct_map_filter)
  then have "Labels_Get (sort_labels ?ls) n = Labels_Get ?ls n"
    by (intro Labels_Get_mset) auto
  also have "\<dots> = builder_get b n"
  proof (cases "n \<in> lp_Name ` set (filter (\<lambda>l. lp_Name l \<notin> ?N) (lb_base b))")
    case True
    then have "n \<notin> ?N" by auto
    then show ?thesis using True unfolding Labels_Get_append Labels_Get_filter
      by (simp add: builder_get_def)
  next
    case False
    then have "Labels_Get (lb_base b) n = [] \<or> n \<in> ?N"
      using Labels_Get_notin[of n "lb_base b"] by auto
    then show ?thesis using False unfolding Labels_Get_append
      by (auto simp: builder_get_def Labels_Get_notin)
  qed
  finally show ?thesis using False by (auto simp: LabelsBuilder_Labels_def)
qed

interpretation lbs: label_binder LabelsBuilder_Set builder_get LabelsBuilder_Labels builder_inv
  using LabelsBuilder_Set_get LabelsBuilder_Labels_get by unfold_locales auto

lemma NewLabelsBuilder_inv:
  "distinct (map lp_Name base) \<Longrightarrow> builder_inv (NewLabelsBuilder base)"
  by (auto simp: builder_inv_def NewLabelsBuilder_def LabelsBuilder_Reset_def)

lemma NewLabelsBuilder_get:
  assumes "distinct (map lp_Name base)"
  shows "builder_get (NewLabelsBuilder base) = Labels_Get base"
proof
  fix n
  show "builder_get (NewLabelsBuilder base) n = Labels_Get base n"
    using assms Labels_Get_eq[OF assms]
    by (auto simp: builder_get_def NewLabelsBuilder_def LabelsBuilder_Reset_def)
qed

text \<open>\<open>LabelsBuilder\<close>: setting a label never panics (although \<open>Del\<close> shifts the slice it ranges
  over), and the labels built afterwards bind that name to that value (the empty value removes it)
  and every other name as before.\<close>

theorem LabelsBuilder_Set_Labels:
  assumes "builder_inv b"
  shows "\<exists>b'. LabelsBuilder_Set b n v = Some b' \<and> builder_inv b'
    \<and> (\<forall>m. Labels_Get (LabelsBuilder_Labels b') m
           = (if m = n then v else Labels_Get (LabelsBuilder_Labels b) m))"
proof -
  obtain b' where "LabelsBuilder_Set b n v = Some b'" "builder_inv b'"
      "builder_get b' = (builder_get b)(n := v)"
    using lbs.set_op[OF assms] by blast
  then show ?thesis using lbs.out_get assms by auto
qed

end
