(* ===== verification/Postings.thy ===== *)
theory Postings
  imports Go_Heap Labels "HOL-Library.Monad_Syntax"
begin

section \<open>Postings iterators (pkg/phlaredb/tsdb/index/postings.go, pkg/iter/iter.go)\<close>

text \<open>
  A postings list is an iterator over series references in increasing order, with \<open>Next\<close>,
  \<open>Seek\<close>, \<open>At\<close> and \<open>Err\<close>. In Go it is an interface value; here the implementations are the
  constructors of the datatype \<open>postings\<close>, each with the fields of its struct:
  \<^item> \<open>SliceP list cur\<close>: \<open>sliceSeekIterator\<close> of package \<open>iter\<close>;
  \<^item> \<open>ErrP err\<close>: \<open>errSeekIterator\<close>;
  \<^item> \<open>BigEndianP list cur\<close>: \<open>bigEndianPostings\<close> over the bytes of the index file;
  \<^item> \<open>IntersectP arr cur\<close>, \<open>MergedP h initialized cur err\<close>,
    \<open>RemovedP full remove cur initialized fok rok\<close> and \<open>ShardedP p minOffset maxOffset initialized\<close>.

  A call that changes an iterator returns the changed iterator. The methods call each other and
  loop, so they are mutually recursive functions with fuel: \<open>None\<close> is a run that needs more fuel.
  More fuel never changes a result, and the contract proved in \<open>Postings_Contract\<close> includes
  that enough fuel exists.
\<close>

datatype postings =
    SliceP "u64 list" u64
  | ErrP string
  | BigEndianP "u8 list" u32
  | IntersectP "postings list" u64
  | MergedP "postings list" bool u64 "string option"
  | RemovedP postings postings u64 bool bool bool
  | ShardedP postings u64 u64 bool

subsection \<open>At and Err\<close>

fun At :: "postings \<Rightarrow> u64" where
  "At (SliceP list cur) = cur"
| "At (ErrP e) = 0"
| "At (BigEndianP list cur) = ucast cur"
| "At (IntersectP arr cur) = cur"
| "At (MergedP h initialized cur err) = cur"
| "At (RemovedP full remove cur initialized fok rok) = cur"
| "At (ShardedP p minOffset maxOffset initialized) = At p"

fun first_error :: "string option list \<Rightarrow> string option" where
  "first_error [] = None"
| "first_error (Some e # es) = Some e"
| "first_error (None # es) = first_error es"

fun Err :: "postings \<Rightarrow> string option" where
  "Err (SliceP list cur) = None"
| "Err (ErrP e) = Some e"
| "Err (BigEndianP list cur) = None"
| "Err (IntersectP arr cur) = first_error (map Err arr)"
| "Err (MergedP h initialized cur err) = err"
| "Err (RemovedP full remove cur initialized fok rok) =
     (case Err full of Some e \<Rightarrow> Some e | None \<Rightarrow> Err remove)"
| "Err (ShardedP p minOffset maxOffset initialized) = Err p"

subsection \<open>The leaves\<close>

definition slice_Next :: "u64 list \<Rightarrow> u64 \<Rightarrow> bool \<times> postings" where
  "slice_Next list cur =
     (case list of [] \<Rightarrow> (False, SliceP [] 0) | x # xs \<Rightarrow> (True, SliceP xs x))"

definition slice_Seek :: "u64 list \<Rightarrow> u64 \<Rightarrow> u64 \<Rightarrow> bool \<times> postings" where
  "slice_Seek list cur x =
     (if cur \<ge> x then (True, SliceP list cur)
      else if list = [] then (False, SliceP list cur)
      else let pos = go_search (length list) (\<lambda>pos. list ! pos \<ge> x)
           in if pos < length list then (True, SliceP (drop (pos + 1) list) (list ! pos))
              else (False, SliceP [] cur))"

definition bigEndian_Next :: "u8 list \<Rightarrow> u32 \<Rightarrow> bool \<times> postings" where
  "bigEndian_Next list cur =
     (if length list \<ge> 4 then (True, BigEndianP (drop 4 list) (be_uint32 list))
      else (False, BigEndianP list cur))"

definition bigEndian_Seek :: "u8 list \<Rightarrow> u32 \<Rightarrow> u64 \<Rightarrow> bool \<times> postings" where
  "bigEndian_Seek list cur x =
     (if ucast cur \<ge> x then (True, BigEndianP list cur)
      else let num = length list div 4;
               i = go_search num (\<lambda>i. be_uint32 (drop (i * 4) list) \<ge> ucast x)
           in if i < num then (True, BigEndianP (drop (i * 4 + 4) list) (be_uint32 (drop (i * 4) list)))
              else (False, BigEndianP [] cur))"

subsection \<open>Next and Seek\<close>

text \<open>\<open>postingsHeap.Less\<close>.\<close>

definition less_At :: "postings \<Rightarrow> postings \<Rightarrow> bool" where
  "less_At p q \<longleftrightarrow> At p < At q"

text \<open>How the inner loop of \<open>intersectPostings.doNext\<close> ends.\<close>

datatype seek_outcome = Missing | Beyond u64 | AllLevel

text \<open>
  The loops, for the methods \<open>nxt\<close> and \<open>sk\<close> of the iterators they call. The ones without an
  obvious bound take the number of iterations as fuel.
\<close>

type_synonym next_fun = "postings \<Rightarrow> (bool \<times> postings) option"
type_synonym seek_fun = "postings \<Rightarrow> u64 \<Rightarrow> (bool \<times> postings) option"

fun inter_advance :: "next_fun \<Rightarrow> postings list \<Rightarrow> u64 \<Rightarrow> (bool \<times> postings list \<times> u64) option" where
  "inter_advance nxt [] cur = Some (True, [], cur)"
| "inter_advance nxt (p # ps) cur = do {
     (ok, p) \<leftarrow> nxt p;
     if \<not> ok then Some (False, p # ps, cur)
     else do {
       (ok, ps, cur) \<leftarrow> inter_advance nxt ps (if At p > cur then At p else cur);
       Some (ok, p # ps, cur) } }"

fun inter_seek :: "seek_fun \<Rightarrow> postings list \<Rightarrow> u64 \<Rightarrow> (seek_outcome \<times> postings list) option" where
  "inter_seek sk [] cur = Some (AllLevel, [])"
| "inter_seek sk (p # ps) cur = do {
     (ok, p) \<leftarrow> sk p cur;
     if \<not> ok then Some (Missing, p # ps)
     else if At p > cur then Some (Beyond (At p), p # ps)
     else do { (out, ps) \<leftarrow> inter_seek sk ps cur; Some (out, p # ps) } }"

fun inter_doNext :: "seek_fun \<Rightarrow> nat \<Rightarrow> postings list \<Rightarrow> u64 \<Rightarrow> (bool \<times> postings list \<times> u64) option" where
  "inter_doNext sk 0 arr cur = None"
| "inter_doNext sk (Suc n) arr cur = do {
     (out, arr) \<leftarrow> inter_seek sk arr cur;
     (case out of
        Missing \<Rightarrow> Some (False, arr, cur)
      | Beyond c \<Rightarrow> inter_doNext sk n arr c
      | AllLevel \<Rightarrow> Some (True, arr, cur)) }"

text \<open>The heap after the top was advanced: \<open>heap.Pop\<close> if it is exhausted, else \<open>heap.Fix\<close>.\<close>

definition reheap :: "bool \<Rightarrow> postings \<Rightarrow> postings list \<Rightarrow> postings list" where
  "reheap ok p h =
     (if \<not> ok then snd (heap_pop less_At (h[0 := p])) else heap_fix less_At (h[0 := p]) 0)"

fun merged_next :: "next_fun \<Rightarrow> nat \<Rightarrow> postings list \<Rightarrow> u64 \<Rightarrow>
    (bool \<times> postings list \<times> u64 \<times> string option) option" where
  "merged_next nxt 0 h cur = None"
| "merged_next nxt (Suc n) h cur = do {
     (ok, p) \<leftarrow> nxt (h ! 0);
     let h = reheap ok p h
     in if \<not> ok \<and> Err p \<noteq> None then Some (False, h, cur, Err p)
        else if \<not> ok \<and> h = [] then Some (False, h, cur, None)
        else if At (h ! 0) \<noteq> cur then Some (True, h, At (h ! 0), None)
        else merged_next nxt n h cur }"

fun merged_seek :: "seek_fun \<Rightarrow> nat \<Rightarrow> postings list \<Rightarrow> u64 \<Rightarrow> u64 \<Rightarrow>
    (bool \<times> postings list \<times> u64 \<times> string option) option" where
  "merged_seek sk 0 h cur x = None"
| "merged_seek sk (Suc n) h cur x =
     (if \<not> cur < x then Some (True, h, cur, None)
      else do {
        (ok, p) \<leftarrow> sk (h ! 0) x;
        let h = reheap ok p h
        in if \<not> ok \<and> Err p \<noteq> None then Some (False, h, cur, Err p)
           else if \<not> ok \<and> h = [] then Some (False, h, cur, None)
           else merged_seek sk n h (At (h ! 0)) x })"

fun removed_next :: "next_fun \<Rightarrow> seek_fun \<Rightarrow> nat \<Rightarrow> postings \<Rightarrow> postings \<Rightarrow> u64 \<Rightarrow> bool \<Rightarrow> bool \<Rightarrow>
    (bool \<times> postings) option" where
  "removed_next nxt sk 0 full remove cur fok rok = None"
| "removed_next nxt sk (Suc n) full remove cur fok rok =
     (if \<not> fok then Some (False, RemovedP full remove cur True fok rok)
      else if \<not> rok then do {
        (fok, full') \<leftarrow> nxt full;
        Some (True, RemovedP full' remove (At full) True fok rok) }
      else if At full < At remove then do {
        (fok, full') \<leftarrow> nxt full;
        Some (True, RemovedP full' remove (At full) True fok rok) }
      else if At remove < At full then do {
        (rok, remove) \<leftarrow> sk remove (At full);
        removed_next nxt sk n full remove cur fok rok }
      else do {
        (fok, full) \<leftarrow> nxt full;
        removed_next nxt sk n full remove cur fok rok })"

text \<open>The methods, with the same fuel for the nesting of iterators and for the loops.\<close>

fun pNext :: "nat \<Rightarrow> next_fun" and pSeek :: "nat \<Rightarrow> seek_fun" where
  "pNext 0 p = None"
| "pNext (Suc n) p =
     (case p of
        SliceP list cur \<Rightarrow> Some (slice_Next list cur)
      | ErrP e \<Rightarrow> Some (False, ErrP e)
      | BigEndianP list cur \<Rightarrow> Some (bigEndian_Next list cur)
      | IntersectP arr cur \<Rightarrow> do {
          (ok, arr, cur) \<leftarrow> inter_advance (pNext n) arr cur;
          if \<not> ok then Some (False, IntersectP arr cur)
          else do { (ok, arr, cur) \<leftarrow> inter_doNext (pSeek n) n arr cur; Some (ok, IntersectP arr cur) } }
      | MergedP h initialized cur err \<Rightarrow>
          if h = [] \<or> err \<noteq> None then Some (False, MergedP h initialized cur err)
          else if \<not> initialized then
            let h = heap_init less_At h in Some (True, MergedP h True (At (h ! 0)) err)
          else do { (ok, h, cur, err) \<leftarrow> merged_next (pNext n) n h cur; Some (ok, MergedP h initialized cur err) }
      | RemovedP full remove cur initialized fok rok \<Rightarrow>
          if \<not> initialized then do {
            (fok, full) \<leftarrow> pNext n full;
            (rok, remove) \<leftarrow> pNext n remove;
            removed_next (pNext n) (pSeek n) n full remove cur fok rok }
          else removed_next (pNext n) (pSeek n) n full remove cur fok rok
      | ShardedP p minOffset maxOffset initialized \<Rightarrow>
          if \<not> initialized then do {
            (ok, p) \<leftarrow> pNext n p;
            if \<not> ok then Some (False, ShardedP p minOffset maxOffset True)
            else pSeek n (ShardedP p minOffset maxOffset True) 0 }
          else do {
            (ok, p) \<leftarrow> pNext n p;
            Some (ok \<and> \<not> At p \<ge> maxOffset, ShardedP p minOffset maxOffset initialized) })"
| "pSeek 0 p x = None"
| "pSeek (Suc n) p x =
     (case p of
        SliceP list cur \<Rightarrow> Some (slice_Seek list cur x)
      | ErrP e \<Rightarrow> Some (False, ErrP e)
      | BigEndianP list cur \<Rightarrow> Some (bigEndian_Seek list cur x)
      | IntersectP arr cur \<Rightarrow>
          do { (ok, arr, cur) \<leftarrow> inter_doNext (pSeek n) n arr x; Some (ok, IntersectP arr cur) }
      | MergedP h initialized cur err \<Rightarrow>
          if h = [] \<or> err \<noteq> None then Some (False, MergedP h initialized cur err)
          else
            let h = (if initialized then h else heap_init less_At h);
                cur = (if initialized then cur else At (h ! 0))
            in do { (ok, h, cur, err) \<leftarrow> merged_seek (pSeek n) n h cur x; Some (ok, MergedP h True cur err) }
      | RemovedP full remove cur initialized fok rok \<Rightarrow>
          if cur \<ge> x then Some (True, RemovedP full remove cur initialized fok rok)
          else do {
            (fok, full) \<leftarrow> pSeek n full x;
            (rok, remove) \<leftarrow> pSeek n remove x;
            removed_next (pNext n) (pSeek n) n full remove cur fok rok }
      | ShardedP p minOffset maxOffset initialized \<Rightarrow>
          if x \<ge> maxOffset then Some (False, ShardedP p minOffset maxOffset initialized)
          else do {
            (ok, p) \<leftarrow> pSeek n p (if x < minOffset then minOffset else x);
            Some (ok, ShardedP p minOffset maxOffset initialized) })"

declare pNext.simps [simp del] pSeek.simps [simp del]


subsection \<open>Constructors and the full expansion\<close>

definition EmptyPostings :: postings where
  "EmptyPostings = SliceP [] 0"

definition ErrPostings :: "string \<Rightarrow> postings" where
  "ErrPostings err = ErrP err"

text \<open>
  \<open>Intersect\<close> and \<open>Without\<close> compare iterators with \<open>EmptyPostings()\<close>. Both sides are pointers and
  the call on the right allocates a new one, so the comparison is always false.
\<close>

definition same_pointer_as_fresh :: "postings \<Rightarrow> bool" where
  "same_pointer_as_fresh p = False"

definition Intersect :: "postings list \<Rightarrow> postings" where
  "Intersect its =
     (if its = [] then EmptyPostings
      else if length its = 1 then its ! 0
      else if \<exists>p \<in> set its. same_pointer_as_fresh p then EmptyPostings
      else IntersectP its 0)"

definition Without :: "postings \<Rightarrow> postings \<Rightarrow> postings" where
  "Without full drp =
     (if same_pointer_as_fresh full then EmptyPostings
      else if same_pointer_as_fresh drp then full
      else RemovedP full drp 0 False False False)"

fun newMergedPostings :: "next_fun \<Rightarrow> postings list \<Rightarrow> postings list \<Rightarrow> postings option option" where
  "newMergedPostings nxt ph [] = Some (if ph = [] then None else Some (MergedP ph False 0 None))"
| "newMergedPostings nxt ph (it # its) = do {
     (ok, it) \<leftarrow> nxt it;
     if ok then newMergedPostings nxt (ph @ [it]) its
     else if Err it \<noteq> None then Some (Some (MergedP [] False 0 (Err it)))
     else newMergedPostings nxt ph its }"

definition Merge :: "nat \<Rightarrow> postings list \<Rightarrow> postings option" where
  "Merge n its =
     (if its = [] then Some EmptyPostings
      else if length its = 1 then Some (its ! 0)
      else do {
        r \<leftarrow> newMergedPostings (pNext n) [] its;
        Some (case r of None \<Rightarrow> EmptyPostings | Some p \<Rightarrow> p) })"

definition NewShardedPostings :: "postings \<Rightarrow> u64 \<Rightarrow> u64 \<Rightarrow> postings" where
  "NewShardedPostings p mn mx = ShardedP p mn mx False"

text \<open>\<open>ExpandPostings\<close>: the elements in order and the error at the end.\<close>

fun expand_loop :: "next_fun \<Rightarrow> nat \<Rightarrow> postings \<Rightarrow> u64 list \<Rightarrow> (u64 list \<times> string option) option" where
  "expand_loop nxt 0 p res = None"
| "expand_loop nxt (Suc n) p res = do {
     (ok, p) \<leftarrow> nxt p;
     if ok then expand_loop nxt n p (res @ [At p]) else Some (res, Err p) }"

definition ExpandPostings :: "nat \<Rightarrow> postings \<Rightarrow> (u64 list \<times> string option) option" where
  "ExpandPostings n p = expand_loop (pNext n) n p []"

subsection \<open>More fuel gives the same result\<close>

text \<open>The flat order of results: a run that needs more fuel is below every result.\<close>

definition ole :: "'a option \<Rightarrow> 'a option \<Rightarrow> bool" where
  "ole a b \<longleftrightarrow> a = None \<or> a = b"

named_theorems fuel_mono \<open>monotonicity in the fuel\<close>

lemma ole_refl [fuel_mono]: "ole a a"
  by (simp add: ole_def)

lemma ole_None [fuel_mono]: "ole None a"
  by (simp add: ole_def)

lemma ole_bind [fuel_mono]: "ole a b \<Longrightarrow> (\<And>x. ole (f x) (g x)) \<Longrightarrow> ole (a \<bind> f) (b \<bind> g)"
  unfolding ole_def by (cases a) (force+)

lemma ole_if [fuel_mono]:
  "(c \<Longrightarrow> ole a b) \<Longrightarrow> (\<not> c \<Longrightarrow> ole a' b') \<Longrightarrow> ole (if c then a else a') (if c then b else b')"
  by simp

lemma ole_prod [fuel_mono]:
  "(\<And>x y. ole (f x y) (g x y)) \<Longrightarrow> ole (case p of (x, y) \<Rightarrow> f x y) (case p of (x, y) \<Rightarrow> g x y)"
  by (cases p) simp

lemma ole_let [fuel_mono]: "(\<And>x. ole (f x) (g x)) \<Longrightarrow> ole (Let v f) (Let v g)"
  by simp

lemma ole_outcome [fuel_mono]:
  "ole a a' \<Longrightarrow> (\<And>c. ole (b c) (b' c)) \<Longrightarrow> ole d d' \<Longrightarrow>
   ole (case out of Missing \<Rightarrow> a | Beyond c \<Rightarrow> b c | AllLevel \<Rightarrow> d)
       (case out of Missing \<Rightarrow> a' | Beyond c \<Rightarrow> b' c | AllLevel \<Rightarrow> d')"
  by (cases out) auto

definition more_next :: "next_fun \<Rightarrow> next_fun \<Rightarrow> bool" where
  "more_next f g \<longleftrightarrow> (\<forall>p. ole (f p) (g p))"

definition more_seek :: "seek_fun \<Rightarrow> seek_fun \<Rightarrow> bool" where
  "more_seek f g \<longleftrightarrow> (\<forall>p x. ole (f p x) (g p x))"

lemma more_nextD: "more_next f g \<Longrightarrow> ole (f p) (g p)"
  by (simp add: more_next_def)

lemma more_seekD: "more_seek f g \<Longrightarrow> ole (f p x) (g p x)"
  by (simp add: more_seek_def)

lemma inter_advance_mono [fuel_mono]:
  "more_next f g \<Longrightarrow> ole (inter_advance f ps cur) (inter_advance g ps cur)"
proof (induction ps arbitrary: cur)
  case (Cons p ps)
  show ?case unfolding inter_advance.simps by (intro fuel_mono Cons.IH Cons.prems more_nextD[OF Cons.prems])
qed (simp add: fuel_mono)

lemma inter_seek_mono [fuel_mono]:
  "more_seek f g \<Longrightarrow> ole (inter_seek f ps cur) (inter_seek g ps cur)"
proof (induction ps arbitrary: cur)
  case (Cons p ps)
  show ?case unfolding inter_seek.simps by (intro fuel_mono Cons.IH Cons.prems more_seekD[OF Cons.prems])
qed (simp add: fuel_mono)

lemma inter_doNext_mono [fuel_mono]:
  "more_seek f g \<Longrightarrow> n \<le> m \<Longrightarrow> ole (inter_doNext f n ps cur) (inter_doNext g m ps cur)"
proof (induction n arbitrary: m ps cur)
  case (Suc n)
  then obtain m' where m: "m = Suc m'" "n \<le> m'" by (cases m) auto
  show ?case unfolding m inter_doNext.simps
    by (intro fuel_mono Suc.IH Suc.prems(1) m(2) more_seekD[OF Suc.prems(1)])
qed (simp add: fuel_mono)

lemma merged_next_mono [fuel_mono]:
  "more_next f g \<Longrightarrow> n \<le> m \<Longrightarrow> ole (merged_next f n h cur) (merged_next g m h cur)"
proof (induction n arbitrary: m h cur)
  case (Suc n)
  then obtain m' where m: "m = Suc m'" "n \<le> m'" by (cases m) auto
  show ?case unfolding m merged_next.simps
    by (intro fuel_mono Suc.IH Suc.prems(1) m(2) more_nextD[OF Suc.prems(1)])
qed (simp add: fuel_mono)

lemma merged_seek_mono [fuel_mono]:
  "more_seek f g \<Longrightarrow> n \<le> m \<Longrightarrow> ole (merged_seek f n h cur x) (merged_seek g m h cur x)"
proof (induction n arbitrary: m h cur)
  case (Suc n)
  then obtain m' where m: "m = Suc m'" "n \<le> m'" by (cases m) auto
  show ?case unfolding m merged_seek.simps
    by (intro fuel_mono Suc.IH Suc.prems(1) m(2) more_seekD[OF Suc.prems(1)])
qed (simp add: fuel_mono)

lemma removed_next_mono [fuel_mono]:
  "more_next f g \<Longrightarrow> more_seek f' g' \<Longrightarrow> n \<le> m \<Longrightarrow>
   ole (removed_next f f' n full remove cur fok rok) (removed_next g g' m full remove cur fok rok)"
proof (induction n arbitrary: m full remove fok rok)
  case (Suc n)
  then obtain m' where m: "m = Suc m'" "n \<le> m'" by (cases m) auto
  show ?case unfolding m removed_next.simps
    by (intro fuel_mono Suc.IH Suc.prems(1,2) m(2) more_nextD[OF Suc.prems(1)] more_seekD[OF Suc.prems(2)])
qed (simp add: fuel_mono)

lemma newMergedPostings_mono [fuel_mono]:
  "more_next f g \<Longrightarrow> ole (newMergedPostings f ph ps) (newMergedPostings g ph ps)"
proof (induction ps arbitrary: ph)
  case (Cons p ps)
  show ?case unfolding newMergedPostings.simps by (intro fuel_mono Cons.IH Cons.prems more_nextD[OF Cons.prems])
qed (simp add: fuel_mono)

lemma expand_loop_mono [fuel_mono]:
  "more_next f g \<Longrightarrow> n \<le> m \<Longrightarrow> ole (expand_loop f n p res) (expand_loop g m p res)"
proof (induction n arbitrary: m p res)
  case (Suc n)
  then obtain m' where m: "m = Suc m'" "n \<le> m'" by (cases m) auto
  show ?case unfolding m expand_loop.simps
    by (intro fuel_mono Suc.IH Suc.prems(1) m(2) more_nextD[OF Suc.prems(1)])
qed (simp add: fuel_mono)

lemma fuel_le:
  "n \<le> m \<Longrightarrow> more_next (pNext n) (pNext m) \<and> more_seek (pSeek n) (pSeek m)"
proof (induction n arbitrary: m)
  case 0
  then show ?case by (simp add: more_next_def more_seek_def pNext.simps(1) pSeek.simps(1) fuel_mono)
next
  case (Suc n)
  then obtain m' where m: "m = Suc m'" "n \<le> m'" by (cases m) auto
  with Suc have N: "more_next (pNext n) (pNext m')" and S: "more_seek (pSeek n) (pSeek m')" by auto
  have "ole (pNext (Suc n) p) (pNext (Suc m') p)" for p
    by (cases p; simp only: pNext.simps(2) postings.case; intro fuel_mono N S m(2) more_nextD[OF N] more_seekD[OF S])
  moreover have "ole (pSeek (Suc n) p x) (pSeek (Suc m') p x)" for p x
    by (cases p; simp only: pSeek.simps(2) postings.case; intro fuel_mono N S m(2) more_nextD[OF N] more_seekD[OF S])
  ultimately show ?case by (simp add: m more_next_def more_seek_def)
qed

lemma ole_SomeD: "ole a b \<Longrightarrow> a = Some r \<Longrightarrow> b = Some r"
  by (auto simp: ole_def)

lemma pNext_mono: "n \<le> m \<Longrightarrow> pNext n p = Some r \<Longrightarrow> pNext m p = Some r"
  using fuel_le by (blast intro: ole_SomeD more_nextD)

lemma pSeek_mono: "n \<le> m \<Longrightarrow> pSeek n p x = Some r \<Longrightarrow> pSeek m p x = Some r"
  using fuel_le by (blast intro: ole_SomeD more_seekD)


subsection \<open>Runs with enough fuel\<close>

definition NextD :: "postings \<Rightarrow> bool \<times> postings \<Rightarrow> bool" where
  "NextD p r \<longleftrightarrow> (\<exists>n. pNext n p = Some r)"

definition SeekD :: "postings \<Rightarrow> u64 \<Rightarrow> bool \<times> postings \<Rightarrow> bool" where
  "SeekD p x r \<longleftrightarrow> (\<exists>n. pSeek n p x = Some r)"

text \<open>Two runs can be given the same fuel, which may be as large as wanted.\<close>

definition fuelled :: "(nat \<Rightarrow> 'a option) \<Rightarrow> 'a \<Rightarrow> bool" where
  "fuelled F r \<longleftrightarrow> (\<exists>n. \<forall>m \<ge> n. F m = Some r)"

lemma fuelledI: "(\<And>n m. n \<le> m \<Longrightarrow> ole (F n) (F m)) \<Longrightarrow> F k = Some r \<Longrightarrow> fuelled F r"
  unfolding fuelled_def by (metis ole_SomeD)

lemma fuelled_both:
  assumes "fuelled F r" "fuelled G s"
  shows "\<exists>n. \<forall>m \<ge> n. F m = Some r \<and> G m = Some s"
proof -
  obtain a b where "\<forall>m \<ge> a. F m = Some r" "\<forall>m \<ge> b. G m = Some s"
    using assms by (auto simp: fuelled_def)
  then show ?thesis by (intro exI[of _ "max a b"]) simp
qed

lemma fuelled_bind:
  "fuelled F r \<Longrightarrow> fuelled (\<lambda>n. G n r) s \<Longrightarrow> fuelled (\<lambda>n. F n \<bind> G n) s"
  unfolding fuelled_def by (metis bind.bind_lunit dual_order.trans nat_le_linear)

lemma fuelled_const: "fuelled (\<lambda>n. Some r) r"
  by (simp add: fuelled_def)

lemma fuelled_Suc: "fuelled (\<lambda>n. F (Suc n)) r \<Longrightarrow> fuelled F r"
  unfolding fuelled_def by (metis Suc_le_D Suc_le_mono)

lemma NextD_fuelled: "NextD p r \<longleftrightarrow> fuelled (\<lambda>n. pNext n p) r"
  unfolding NextD_def fuelled_def by (metis pNext_mono order_refl)

lemma SeekD_fuelled: "SeekD p x r \<longleftrightarrow> fuelled (\<lambda>n. pSeek n p x) r"
  unfolding SeekD_def fuelled_def by (metis pSeek_mono order_refl)

text \<open>The loops, run with the methods themselves.\<close>

definition advD :: "postings list \<Rightarrow> u64 \<Rightarrow> bool \<times> postings list \<times> u64 \<Rightarrow> bool" where
  "advD arr cur r \<longleftrightarrow> fuelled (\<lambda>n. inter_advance (pNext n) arr cur) r"

definition iseekD :: "postings list \<Rightarrow> u64 \<Rightarrow> seek_outcome \<times> postings list \<Rightarrow> bool" where
  "iseekD arr cur r \<longleftrightarrow> fuelled (\<lambda>n. inter_seek (pSeek n) arr cur) r"

definition doNextD :: "postings list \<Rightarrow> u64 \<Rightarrow> bool \<times> postings list \<times> u64 \<Rightarrow> bool" where
  "doNextD arr cur r \<longleftrightarrow> fuelled (\<lambda>n. inter_doNext (pSeek n) n arr cur) r"

definition mnextD :: "postings list \<Rightarrow> u64 \<Rightarrow> bool \<times> postings list \<times> u64 \<times> string option \<Rightarrow> bool" where
  "mnextD h cur r \<longleftrightarrow> fuelled (\<lambda>n. merged_next (pNext n) n h cur) r"

definition mseekD :: "postings list \<Rightarrow> u64 \<Rightarrow> u64 \<Rightarrow> bool \<times> postings list \<times> u64 \<times> string option \<Rightarrow> bool" where
  "mseekD h cur x r \<longleftrightarrow> fuelled (\<lambda>n. merged_seek (pSeek n) n h cur x) r"

definition rnextD :: "postings \<Rightarrow> postings \<Rightarrow> u64 \<Rightarrow> bool \<Rightarrow> bool \<Rightarrow> bool \<times> postings \<Rightarrow> bool" where
  "rnextD f r cur fok rok q \<longleftrightarrow> fuelled (\<lambda>n. removed_next (pNext n) (pSeek n) n f r cur fok rok) q"

lemmas fuelled_defs = NextD_fuelled SeekD_fuelled advD_def iseekD_def doNextD_def mnextD_def mseekD_def rnextD_def


lemma fuelled_up: "fuelled F r \<Longrightarrow> (\<And>n. ole (F n) (G n)) \<Longrightarrow> fuelled G r"
  unfolding fuelled_def by (metis ole_SomeD)

lemmas fuel_step_next = fuel_le[of n "Suc n" for n, OF le_SucI[OF order_refl], THEN conjunct1]
lemmas fuel_step_seek = fuel_le[of n "Suc n" for n, OF le_SucI[OF order_refl], THEN conjunct2]

lemma fuelled_pair:
  "fuelled (\<lambda>n. G n a b) s \<Longrightarrow> fuelled (\<lambda>n. case (a, b) of (x, y) \<Rightarrow> G n x y) s"
  by simp

subsubsection \<open>Rules of the loops\<close>

lemma advD_Nil: "advD [] cur (True, [], cur)"
  by (simp add: advD_def fuelled_const)

lemma advD_fail: "NextD p (False, p') \<Longrightarrow> advD (p # ps) cur (False, p' # ps, cur)"
  unfolding fuelled_defs inter_advance.simps by (erule fuelled_bind) (simp add: fuelled_const)

lemma advD_Cons:
  "NextD p (True, p') \<Longrightarrow> advD ps (if At p' > cur then At p' else cur) (ok, ps', c) \<Longrightarrow>
   advD (p # ps) cur (ok, p' # ps', c)"
  unfolding fuelled_defs inter_advance.simps
  by (erule fuelled_bind) (simp only: prod.case simp_thms if_True if_False, erule fuelled_bind, simp add: fuelled_const)

lemma iseekD_Nil: "iseekD [] cur (AllLevel, [])"
  by (simp add: iseekD_def fuelled_const)

lemma iseekD_missing: "SeekD p cur (False, p') \<Longrightarrow> iseekD (p # ps) cur (Missing, p' # ps)"
  unfolding fuelled_defs inter_seek.simps by (erule fuelled_bind) (simp add: fuelled_const)

lemma iseekD_beyond:
  "SeekD p cur (True, p') \<Longrightarrow> At p' > cur \<Longrightarrow> iseekD (p # ps) cur (Beyond (At p'), p' # ps)"
  unfolding fuelled_defs inter_seek.simps by (erule fuelled_bind) (simp add: fuelled_const)

lemma iseekD_Cons:
  "SeekD p cur (True, p') \<Longrightarrow> \<not> At p' > cur \<Longrightarrow> iseekD ps cur (out, ps') \<Longrightarrow>
   iseekD (p # ps) cur (out, p' # ps')"
  unfolding fuelled_defs inter_seek.simps
  by (erule fuelled_bind) (simp only: prod.case simp_thms if_True if_False, erule fuelled_bind, simp add: fuelled_const)

lemma doNextD_step:
  assumes "iseekD arr cur (out, arr')"
    and "case out of Missing \<Rightarrow> r = (False, arr', cur) | Beyond c \<Rightarrow> doNextD arr' c r | AllLevel \<Rightarrow> r = (True, arr', cur)"
  shows "doNextD arr cur r"
proof -
  have a: "fuelled (\<lambda>n. inter_seek (pSeek (Suc n)) arr cur) (out, arr')"
    using assms(1) unfolding iseekD_def
    by (rule fuelled_up) (rule inter_seek_mono[OF fuel_step_seek])
  have b: "fuelled (\<lambda>n. inter_doNext (pSeek (Suc n)) n arr' c) r" if "out = Beyond c" for c
    using assms(2) that unfolding doNextD_def
    by (auto intro!: fuelled_up[OF _ inter_doNext_mono[OF fuel_step_seek order_refl]])
  show ?thesis unfolding doNextD_def
    by (rule fuelled_Suc, unfold inter_doNext.simps, rule fuelled_bind[OF a])
      (use assms(2) b in \<open>auto simp: fuelled_const split: seek_outcome.splits\<close>)
qed

lemma mnextD_step:
  assumes "NextD (h ! 0) (ok, p)" and "h' = reheap ok p h"
    and "if \<not> ok \<and> Err p \<noteq> None then r = (False, h', cur, Err p)
         else if \<not> ok \<and> h' = [] then r = (False, h', cur, None)
         else if At (h' ! 0) \<noteq> cur then r = (True, h', At (h' ! 0), None)
         else mnextD h' cur r"
  shows "mnextD h cur r"
proof -
  have a: "fuelled (\<lambda>n. pNext (Suc n) (h ! 0)) (ok, p)"
    using assms(1) unfolding NextD_fuelled
    by (rule fuelled_up) (rule more_nextD[OF fuel_step_next])
  have b: "fuelled (\<lambda>n. merged_next (pNext (Suc n)) n h' cur) r" if "mnextD h' cur r"
    using that unfolding mnextD_def
    by (rule fuelled_up) (rule merged_next_mono[OF fuel_step_next order_refl])
  show ?thesis unfolding mnextD_def
    by (rule fuelled_Suc, unfold merged_next.simps, rule fuelled_bind[OF a])
      (use assms(2,3) b in \<open>cases ok; cases "Err p"; auto simp: fuelled_const Let_def split: if_splits\<close>)
qed

lemma mseekD_done: "\<not> cur < x \<Longrightarrow> mseekD h cur x (True, h, cur, None)"
  unfolding mseekD_def by (rule fuelled_Suc) (simp add: fuelled_const)

lemma mseekD_step:
  assumes "cur < x" and "SeekD (h ! 0) x (ok, p)" and "h' = reheap ok p h"
    and "if \<not> ok \<and> Err p \<noteq> None then r = (False, h', cur, Err p)
         else if \<not> ok \<and> h' = [] then r = (False, h', cur, None)
         else mseekD h' (At (h' ! 0)) x r"
  shows "mseekD h cur x r"
proof -
  have a: "fuelled (\<lambda>n. pSeek (Suc n) (h ! 0) x) (ok, p)"
    using assms(2) unfolding SeekD_fuelled
    by (rule fuelled_up) (rule more_seekD[OF fuel_step_seek])
  have b: "fuelled (\<lambda>n. merged_seek (pSeek (Suc n)) n h' (At (h' ! 0)) x) r" if "mseekD h' (At (h' ! 0)) x r"
    using that unfolding mseekD_def
    by (rule fuelled_up) (rule merged_seek_mono[OF fuel_step_seek order_refl])
  have "fuelled (\<lambda>n. pSeek (Suc n) (h ! 0) x \<bind> (\<lambda>(ok, p). let h = reheap ok p h
        in if \<not> ok \<and> Err p \<noteq> None then Some (False, h, cur, Err p)
           else if \<not> ok \<and> h = [] then Some (False, h, cur, None)
           else merged_seek (pSeek (Suc n)) n h (At (h ! 0)) x)) r"
    by (rule fuelled_bind[OF a])
      (use assms(3,4) b in \<open>cases ok; cases "Err p"; auto simp: fuelled_const Let_def split: if_splits\<close>)
  then show ?thesis unfolding mseekD_def
    using assms(1) by - (rule fuelled_Suc, simp)
qed

lemma rnextD_end: "rnextD f r cur False rok (False, RemovedP f r cur True False rok)"
  unfolding rnextD_def by (rule fuelled_Suc) (simp add: fuelled_const)

lemma rnextD_take:
  assumes "\<not> rok \<or> At f < At r" and "NextD f (ok, f')"
  shows "rnextD f r cur True rok (True, RemovedP f' r (At f) True ok rok)"
proof -
  have a: "fuelled (\<lambda>n. pNext (Suc n) f) (ok, f')"
    using assms(2) unfolding NextD_fuelled
    by (rule fuelled_up) (rule more_nextD[OF fuel_step_next])
  have "fuelled (\<lambda>n. pNext (Suc n) f \<bind> (\<lambda>(ok, f'). Some (True, RemovedP f' r (At f) True ok rok)))
      (True, RemovedP f' r (At f) True ok rok)"
    by (rule fuelled_bind[OF a]) (simp add: fuelled_const)
  then show ?thesis using assms(1) unfolding rnextD_def
    by - (rule fuelled_Suc, cases rok, auto)
qed

lemma rnextD_seek:
  assumes "At r < At f" and "SeekD r (At f) (rok', r')" and "rnextD f r' cur True rok' q"
  shows "rnextD f r cur True True q"
proof -
  have a: "fuelled (\<lambda>n. pSeek (Suc n) r (At f)) (rok', r')"
    using assms(2) unfolding SeekD_fuelled
    by (rule fuelled_up) (rule more_seekD[OF fuel_step_seek])
  have "fuelled (\<lambda>n. removed_next (pNext (Suc n)) (pSeek (Suc n)) n f r' cur True rok') q"
    using assms(3) unfolding rnextD_def
    by (rule fuelled_up) (rule removed_next_mono[OF fuel_step_next fuel_step_seek order_refl])
  then have "fuelled (\<lambda>n. pSeek (Suc n) r (At f) \<bind>
      (\<lambda>(rok, r). removed_next (pNext (Suc n)) (pSeek (Suc n)) n f r cur True rok)) q"
    by (intro fuelled_bind[OF a]) simp
  then show ?thesis using assms(1) unfolding rnextD_def
    by - (rule fuelled_Suc, simp add: order_less_not_sym)
qed

lemma rnextD_skip:
  assumes "At r = At f" and "NextD f (fok', f')" and "rnextD f' r cur fok' True q"
  shows "rnextD f r cur True True q"
proof -
  have a: "fuelled (\<lambda>n. pNext (Suc n) f) (fok', f')"
    using assms(2) unfolding NextD_fuelled
    by (rule fuelled_up) (rule more_nextD[OF fuel_step_next])
  have "fuelled (\<lambda>n. removed_next (pNext (Suc n)) (pSeek (Suc n)) n f' r cur fok' True) q"
    using assms(3) unfolding rnextD_def
    by (rule fuelled_up) (rule removed_next_mono[OF fuel_step_next fuel_step_seek order_refl])
  then have "fuelled (\<lambda>n. pNext (Suc n) f \<bind>
      (\<lambda>(fok, f). removed_next (pNext (Suc n)) (pSeek (Suc n)) n f r cur fok True)) q"
    by (intro fuelled_bind[OF a]) simp
  then show ?thesis using assms(1) unfolding rnextD_def
    by - (rule fuelled_Suc, simp)
qed


subsubsection \<open>Rules of the methods\<close>

lemma NextD_slice: "NextD (SliceP l c) (slice_Next l c)"
  unfolding NextD_fuelled by (rule fuelled_Suc) (simp add: pNext.simps fuelled_const)

lemma SeekD_slice: "SeekD (SliceP l c) x (slice_Seek l c x)"
  unfolding SeekD_fuelled by (rule fuelled_Suc) (simp add: pSeek.simps fuelled_const)

lemma NextD_err: "NextD (ErrP e) (False, ErrP e)"
  unfolding NextD_fuelled by (rule fuelled_Suc) (simp add: pNext.simps fuelled_const)

lemma NextD_bigEndian: "NextD (BigEndianP l c) (bigEndian_Next l c)"
  unfolding NextD_fuelled by (rule fuelled_Suc) (simp add: pNext.simps fuelled_const)

lemma SeekD_bigEndian: "SeekD (BigEndianP l c) x (bigEndian_Seek l c x)"
  unfolding SeekD_fuelled by (rule fuelled_Suc) (simp add: pSeek.simps fuelled_const)

lemma NextD_inter_fail:
  "advD arr cur (False, arr', c) \<Longrightarrow> NextD (IntersectP arr cur) (False, IntersectP arr' c)"
  unfolding fuelled_defs
  by (rule fuelled_Suc, unfold pNext.simps postings.case, erule fuelled_bind) (simp add: fuelled_const)

lemma NextD_inter:
  "advD arr cur (True, arr1, c1) \<Longrightarrow> doNextD arr1 c1 (ok, arr2, c2) \<Longrightarrow>
   NextD (IntersectP arr cur) (ok, IntersectP arr2 c2)"
  unfolding fuelled_defs
  by (rule fuelled_Suc, unfold pNext.simps postings.case, erule fuelled_bind)
    (simp only: prod.case simp_thms if_True if_False, erule fuelled_bind, simp add: fuelled_const)

lemma SeekD_inter:
  "doNextD arr x (ok, arr', c) \<Longrightarrow> SeekD (IntersectP arr cur) x (ok, IntersectP arr' c)"
  unfolding fuelled_defs
  by (rule fuelled_Suc, unfold pSeek.simps postings.case, erule fuelled_bind) (simp add: fuelled_const)

lemma NextD_merged_empty: "NextD (MergedP [] ini cur err) (False, MergedP [] ini cur err)"
  unfolding NextD_fuelled by (rule fuelled_Suc) (simp add: pNext.simps fuelled_const)

lemma SeekD_merged_empty: "SeekD (MergedP [] ini cur err) x (False, MergedP [] ini cur err)"
  unfolding SeekD_fuelled by (rule fuelled_Suc) (simp add: pSeek.simps fuelled_const)

lemma NextD_merged_error: "NextD (MergedP h ini cur (Some e)) (False, MergedP h ini cur (Some e))"
  unfolding NextD_fuelled by (rule fuelled_Suc) (simp add: pNext.simps fuelled_const)

lemma NextD_merged_init:
  "h \<noteq> [] \<Longrightarrow> h' = heap_init less_At h \<Longrightarrow>
   NextD (MergedP h False cur None) (True, MergedP h' True (At (h' ! 0)) None)"
  unfolding NextD_fuelled by (rule fuelled_Suc) (simp add: pNext.simps fuelled_const Let_def)

lemma NextD_merged:
  "h \<noteq> [] \<Longrightarrow> mnextD h cur (ok, h', c, e) \<Longrightarrow> NextD (MergedP h True cur None) (ok, MergedP h' True c e)"
  unfolding fuelled_defs
  by (rule fuelled_Suc, simp only: pNext.simps postings.case simp_thms if_True if_False, erule fuelled_bind)
    (simp add: fuelled_const)

lemma SeekD_merged:
  assumes "h \<noteq> []" and "h1 = (if ini then h else heap_init less_At h)"
    and "c1 = (if ini then cur else At (h1 ! 0))" and "mseekD h1 c1 x (ok, h', c, e)"
  shows "SeekD (MergedP h ini cur None) x (ok, MergedP h' True c e)"
proof -
  have "fuelled (\<lambda>n. merged_seek (pSeek n) n h1 c1 x \<bind> (\<lambda>(ok, h, cur, err). Some (ok, MergedP h True cur err)))
      (ok, MergedP h' True c e)"
    using assms(4) unfolding mseekD_def by (rule fuelled_bind) (simp add: fuelled_const)
  then show ?thesis unfolding SeekD_fuelled using assms(1-3)
    by - (rule fuelled_Suc, cases ini, simp_all add: pSeek.simps Let_def)
qed

lemma NextD_removed_init:
  assumes "NextD f (fok, f')" "NextD r (rok, r')" "rnextD f' r' cur fok rok q"
  shows "NextD (RemovedP f r cur False fok0 rok0) q"
proof -
  have "fuelled (\<lambda>n. pNext n f \<bind> (\<lambda>(fok, f). pNext n r \<bind>
      (\<lambda>(rok, r). removed_next (pNext n) (pSeek n) n f r cur fok rok))) q"
    using assms unfolding fuelled_defs
    by - (erule fuelled_bind, simp only: prod.case, erule fuelled_bind, simp)
  then show ?thesis unfolding NextD_fuelled by - (rule fuelled_Suc, simp add: pNext.simps)
qed

lemma NextD_removed:
  "rnextD f r cur fok rok q \<Longrightarrow> NextD (RemovedP f r cur True fok rok) q"
  unfolding fuelled_defs by (rule fuelled_Suc) (simp add: pNext.simps)

lemma SeekD_removed_stay:
  "cur \<ge> x \<Longrightarrow> SeekD (RemovedP f r cur ini fok rok) x (True, RemovedP f r cur ini fok rok)"
  unfolding SeekD_fuelled by (rule fuelled_Suc) (simp add: pSeek.simps fuelled_const)

lemma SeekD_removed:
  assumes "cur < x" "SeekD f x (fok, f')" "SeekD r x (rok, r')" "rnextD f' r' cur fok rok q"
  shows "SeekD (RemovedP f r cur ini fok0 rok0) x q"
proof -
  have "fuelled (\<lambda>n. pSeek n f x \<bind> (\<lambda>(fok, f). pSeek n r x \<bind>
      (\<lambda>(rok, r). removed_next (pNext n) (pSeek n) n f r cur fok rok))) q"
    using assms(2-4) unfolding fuelled_defs
    by - (erule fuelled_bind, simp only: prod.case, erule fuelled_bind, simp)
  then show ?thesis unfolding SeekD_fuelled using assms(1)[folded not_le]
    by - (rule fuelled_Suc, simp only: pSeek.simps postings.case if_False)
qed

end
