(* ===== verification/Postings_Contract.thy ===== *)
theory Postings_Contract
  imports Postings
begin

section \<open>The contract of postings iterators\<close>

text \<open>
  What the users of a postings iterator rely on, as the locale \<open>postings_contract\<close>: a valid
  iterator \<open>p\<close> stands for the set \<open>avail p\<close> of the elements from its current one on (0 before the
  first \<open>Next\<close>), \<open>Next\<close> moves to the next element and \<open>Seek x\<close> to the first element that is at
  least \<open>x\<close>; both return whether there is one, and end. The combinators are proved to keep this contract from
  their parts inside the locale, and the locale is interpreted on all nestings of the iterators.

  Three conditions are part of the contract because the code needs them:
  \<^item> the references are positive: before the first \<open>Next\<close>, \<open>Seek(0)\<close> returns true at 0;
  \<^item> \<open>bigEndianPostings.Seek\<close> cuts its argument to 32 bits, so all references are below a
    bound \<open>B\<close>, at most \<open>2 ^ 32\<close> when such an iterator occurs;
  \<^item> \<open>removedPostings\<close> seeks in its \<open>remove\<close> list (and, when it is itself sought, in its
    \<open>full\<close> list) after they ended. Lists, byte lists and merges then return false (\<open>sticky\<close>); an
    intersection need not.
\<close>

fun be_words :: "u8 list \<Rightarrow> u32 list" where
  "be_words (a # b # c # d # bs) = be_uint32 [a, b, c, d] # be_words bs"
| "be_words _ = []"

fun avail :: "postings \<Rightarrow> u64 set" where
  "avail (SliceP l c) = insert c (set l)"
| "avail (ErrP e) = {}"
| "avail (BigEndianP bs c) = insert (ucast c) (ucast ` set (be_words bs))"
| "avail (IntersectP arr c) = \<Inter> (set (map avail arr))"
| "avail (MergedP h ini c e) = (if ini then {} else {c}) \<union> \<Union> (set (map avail h))"
| "avail (RemovedP f r c ini fok rok) =
     (if ini then insert c ((if fok then avail f else {}) - (if rok then avail r else {}))
      else insert c (avail f - avail r))"
| "avail (ShardedP p mn mx ini) = avail p"

fun sticky :: "postings \<Rightarrow> bool" where
  "sticky (SliceP l c) = True"
| "sticky (BigEndianP bs c) = True"
| "sticky (MergedP h ini c e) = True"
| "sticky _ = False"

fun seekable :: "postings \<Rightarrow> bool" where
  "seekable (RemovedP f r c ini fok rok) \<longleftrightarrow> sticky f \<and> seekable f \<and> seekable r"
| "seekable (IntersectP arr c) \<longleftrightarrow> (\<forall>q \<in> set arr. seekable q)"
| "seekable (ShardedP p mn mx ini) = False"
| "seekable _ = True"

text \<open>A sticky iterator that has ended: no element above \<open>m\<close> will be found.\<close>

fun dead :: "postings \<Rightarrow> u64 \<Rightarrow> bool" where
  "dead (SliceP l c) m \<longleftrightarrow> l = [] \<and> c \<le> m"
| "dead (BigEndianP bs c) m \<longleftrightarrow> length bs < 4 \<and> ucast c \<le> m"
| "dead (MergedP h ini c e) m \<longleftrightarrow> h = [] \<and> e = None"
| "dead _ m \<longleftrightarrow> False"

definition same_shape :: "postings \<Rightarrow> postings \<Rightarrow> bool" where
  "same_shape p q \<longleftrightarrow> sticky q = sticky p \<and> (seekable p \<longrightarrow> seekable q)"

definition ended :: "postings \<Rightarrow> postings \<Rightarrow> bool" where
  "ended p q \<longleftrightarrow> Err q = None \<and> (sticky p \<longrightarrow> dead q (At p))"

definition next_ok :: "(postings \<Rightarrow> bool) \<Rightarrow> postings \<Rightarrow> bool" where
  "next_ok V p \<longleftrightarrow> (\<exists>q. NextD p (avail p \<noteq> {At p}, q) \<and> same_shape p q
     \<and> (if avail p = {At p} then ended p q else V q \<and> avail q = avail p - {At p}))"

definition seek_ok :: "(postings \<Rightarrow> bool) \<Rightarrow> postings \<Rightarrow> u64 \<Rightarrow> bool" where
  "seek_ok V p x \<longleftrightarrow> (\<exists>q. SeekD p x (\<exists>y \<in> avail p. x \<le> y, q) \<and> same_shape p q
     \<and> (if \<exists>y \<in> avail p. x \<le> y then V q \<and> avail q = {y \<in> avail p. x \<le> y} else ended p q))"

locale postings_contract =
  fixes B :: nat and V :: "postings \<Rightarrow> bool"
  assumes V_At: "V p \<Longrightarrow> At p \<in> avail p"
    and V_least: "V p \<Longrightarrow> y \<in> avail p \<Longrightarrow> At p \<le> y"
    and V_bound: "V p \<Longrightarrow> y \<in> avail p \<Longrightarrow> unat y < B"
    and V_Err: "V p \<Longrightarrow> Err p = None"
    and V_next: "V p \<Longrightarrow> next_ok V p"
    and V_seek: "V p \<Longrightarrow> seekable p \<Longrightarrow> 0 < x \<or> 0 < At p \<Longrightarrow> unat x < B \<Longrightarrow> seek_ok V p x"

lemma dead_seek: "dead p m \<Longrightarrow> m < x \<Longrightarrow> \<exists>q. SeekD p x (False, q) \<and> same_shape p q \<and> dead q m \<and> Err q = None"
proof (cases p)
  case (SliceP l c)
  assume "dead p m" "m < x"
  then have "slice_Seek l c x = (False, SliceP [] c)" "l = []" "c \<le> m" using SliceP by (auto simp: slice_Seek_def)
  then show ?thesis using SeekD_slice[of l c x] SliceP by (auto simp: same_shape_def)
next
  case (BigEndianP bs c)
  assume "dead p m" "m < x"
  then have "bigEndian_Seek bs c x = (False, BigEndianP [] c)" "ucast c \<le> m"
    using BigEndianP by (auto simp: bigEndian_Seek_def Let_def)
  then show ?thesis using SeekD_bigEndian[of bs c x] BigEndianP by (auto simp: same_shape_def)
next
  case (MergedP h ini c e)
  assume "dead p m" "m < x"
  then show ?thesis using SeekD_merged_empty[of ini c e x] MergedP by (auto simp: same_shape_def)
qed auto

subsection \<open>The leaves\<close>

fun leaf :: "nat \<Rightarrow> postings \<Rightarrow> bool" where
  "leaf B (SliceP l c) \<longleftrightarrow> sorted_wrt (<) (c # l) \<and> (\<forall>y \<in> set (c # l). unat y < B)"
| "leaf B (BigEndianP bs c) \<longleftrightarrow> sorted_wrt (<) (c # be_words bs) \<and> 2 ^ 32 = B"
| "leaf B _ \<longleftrightarrow> False"

text \<open>Both leaves search a strictly sorted list; this is what the search returns.\<close>

lemma search_sorted_wrt:
  fixes l :: "'a::linorder list"
  assumes "sorted_wrt (<) l"
  shows "let pos = go_search (length l) (\<lambda>i. x \<le> l ! i) in
      (pos < length l \<longleftrightarrow> (\<exists>y \<in> set l. x \<le> y))
      \<and> (pos < length l \<longrightarrow> insert (l ! pos) (set (drop (Suc pos) l)) = {y \<in> set l. x \<le> y}
           \<and> sorted_wrt (<) (l ! pos # drop (Suc pos) l))"
proof -
  have s: "sorted l" using assms by (rule strict_sorted_imp_sorted)
  let ?p = "length (takeWhile (\<lambda>y. y < x) l)"
  have pos: "go_search (length l) (\<lambda>i. x \<le> l ! i) = ?p"
    using search_ge_takeWhile[OF s] by (simp add: search_ge_def)
  have dw: "dropWhile (\<lambda>y. y < x) l = drop ?p l" by (rule dropWhile_eq_drop)
  have set: "set (dropWhile (\<lambda>y. y < x) l) = {y \<in> set l. x \<le> y}"
    using s by (induction l) (auto split: if_splits)
  have split: "?p < length l \<Longrightarrow> drop ?p l = l ! ?p # drop (Suc ?p) l" by (rule Cons_nth_drop_Suc[symmetric])
  have ex: "?p < length l \<longleftrightarrow> (\<exists>y \<in> set l. x \<le> y)"
  proof -
    have "?p < length l \<longleftrightarrow> set (dropWhile (\<lambda>y. y < x) l) \<noteq> {}" unfolding dw by auto
    then show ?thesis unfolding set by auto
  qed
  have "sorted_wrt (<) (drop ?p l)" using assms by (simp add: sorted_wrt_drop)
  then have "?p < length l \<longrightarrow> insert (l ! ?p) (set (drop (Suc ?p) l)) = {y \<in> set l. x \<le> y}
      \<and> sorted_wrt (<) (l ! ?p # drop (Suc ?p) l)"
    using set[unfolded dw] split by (metis list.simps(15))
  then show ?thesis using ex unfolding pos Let_def by blast
qed


lemma slice_next_ok:
  assumes "leaf B (SliceP l c)"
  shows "next_ok (leaf B) (SliceP l c)"
proof (cases l)
  case Nil
  then show ?thesis using NextD_slice[of l c]
    by (auto simp: next_ok_def slice_Next_def same_shape_def ended_def)
next
  case (Cons x xs)
  then have "c \<notin> set l" "avail (SliceP l c) \<noteq> {c}" using assms by auto
  then show ?thesis using NextD_slice[of l c] Cons assms
    by (auto simp: next_ok_def slice_Next_def same_shape_def)
qed

lemma slice_seek_ok:
  assumes "leaf B (SliceP l c)"
  shows "seek_ok (leaf B) (SliceP l c) x"
proof (cases "x \<le> c")
  case True
  then have "slice_Seek l c x = (True, SliceP l c)" by (simp add: slice_Seek_def)
  moreover have "{y \<in> avail (SliceP l c). x \<le> y} = avail (SliceP l c)" using True assms by auto
  ultimately show ?thesis using SeekD_slice[of l c x] assms True
    by (auto simp: seek_ok_def same_shape_def)
next
  case False
  let ?pos = "go_search (length l) (\<lambda>i. x \<le> l ! i)"
  have s: "sorted_wrt (<) l" using assms by simp
  note sr = search_sorted_wrt[OF s, of x, unfolded Let_def]
  have eq: "slice_Seek l c x = (if ?pos < length l then (True, SliceP (drop (Suc ?pos) l) (l ! ?pos)) else (False, SliceP [] c))"
    using False by (auto simp: slice_Seek_def Let_def)
  have av: "{y \<in> avail (SliceP l c). x \<le> y} = {y \<in> set l. x \<le> y}" using False by auto
  show ?thesis
  proof (cases "?pos < length l")
    case True
    then have "insert (l ! ?pos) (set (drop (Suc ?pos) l)) = {y \<in> set l. x \<le> y}"
      "sorted_wrt (<) (l ! ?pos # drop (Suc ?pos) l)" "\<exists>y \<in> set l. x \<le> y" using sr by auto
    moreover from this(1) have "leaf B (SliceP (drop (Suc ?pos) l) (l ! ?pos))"
      using assms calculation(2) by (auto dest: in_set_dropD)
    ultimately show ?thesis using SeekD_slice[of l c x] True av unfolding eq
      by (auto simp: seek_ok_def same_shape_def simp del: leaf.simps)
  next
    case F: False
    then have "\<not> (\<exists>y \<in> avail (SliceP l c). x \<le> y)" using sr False by auto
    then show ?thesis using SeekD_slice[of l c x] F unfolding eq
      by (auto simp: seek_ok_def same_shape_def ended_def)
  qed
qed

text \<open>The words of a byte list, by position.\<close>

lemma length_be_words: "length (be_words bs) = length bs div 4"
  by (induction bs rule: be_words.induct) auto

lemma be_uint32_take: "be_uint32 (a # b # c # d # bs) = be_uint32 [a, b, c, d]"
  by (simp add: be_uint32_def)

lemma drop4: "drop (4 + n) (a # b # c # d # bs) = drop n bs"
  by (simp add: numeral_eq_Suc)

lemma be_words_nth: "i < length bs div 4 \<Longrightarrow> be_words bs ! i = be_uint32 (drop (i * 4) bs)"
proof (induction bs arbitrary: i rule: be_words.induct)
  case (1 a b c d bs)
  then show ?case by (cases i) (auto simp: be_uint32_take[of a b c d bs] drop4)
qed auto

lemma be_words_Nil: "length bs < 4 \<Longrightarrow> be_words bs = []"
  by (cases bs rule: be_words.cases) auto

lemma be_words_drop: "be_words (drop (i * 4) bs) = drop i (be_words bs)"
proof (cases "length bs < 4")
  case True
  then show ?thesis by (simp add: be_words_Nil)
next
  case False
  then show ?thesis
  proof (induction bs arbitrary: i rule: be_words.induct)
    case (1 a b c d bs)
    then show ?case by (cases i; cases "length bs < 4") (auto simp: drop4 be_words_Nil)
  qed auto
qed

lemma be_words_Cons: "length bs \<ge> 4 \<Longrightarrow> be_words bs = be_uint32 bs # be_words (drop 4 bs)"
proof (cases bs rule: be_words.cases)
  case (1 a b c d bs')
  then show ?thesis using be_uint32_take[of a b c d bs'] by simp
qed auto


lemma unat_up [simp]: "unat (ucast (w :: u32) :: u64) = unat w"
  by (simp add: unsigned_ucast_eq take_bit_nat_eq_self unsigned_less[of w, THEN less_le_trans])

lemma ucast_up_le [simp]: "(ucast (a :: u32) :: u64) \<le> ucast b \<longleftrightarrow> a \<le> b"
  by (simp add: word_le_nat_alt)

lemma ucast_up_less [simp]: "(ucast (a :: u32) :: u64) < ucast b \<longleftrightarrow> a < b"
  by (simp add: word_less_nat_alt)

lemma ucast_up_eq [simp]: "(ucast (a :: u32) :: u64) = ucast b \<longleftrightarrow> a = b"
  by (metis ucast_up_le antisym order_refl)

lemma ucast_down_up: "unat (x :: u64) < 2 ^ 32 \<Longrightarrow> ucast (ucast x :: u32) = x"
  by (simp add: word_unat_eq_iff unsigned_ucast_eq unsigned_take_bit_eq take_bit_nat_eq_self)

lemma bigEndian_next_ok:
  assumes "leaf B (BigEndianP bs c)"
  shows "next_ok (leaf B) (BigEndianP bs c)"
proof (cases "length bs \<ge> 4")
  case False
  then show ?thesis using NextD_bigEndian[of bs c]
    by (auto simp: next_ok_def bigEndian_Next_def same_shape_def ended_def be_words_Nil)
next
  case True
  note w = be_words_Cons[OF True]
  have "ucast c \<notin> (ucast ` set (be_words bs) :: u64 set)" using assms by auto
  then have "avail (BigEndianP bs c) \<noteq> {ucast c}" "avail (BigEndianP bs c) - {ucast c} = ucast ` set (be_words bs)"
    unfolding avail.simps w by auto
  then show ?thesis using NextD_bigEndian[of bs c] True assms w
    by (auto simp: next_ok_def bigEndian_Next_def same_shape_def)
qed

lemma bigEndian_seek_ok:
  assumes l: "leaf B (BigEndianP bs c)" and x: "unat x < B"
  shows "seek_ok (leaf B) (BigEndianP bs c) x"
proof (cases "x \<le> ucast c")
  case True
  then have "bigEndian_Seek bs c x = (True, BigEndianP bs c)" by (simp add: bigEndian_Seek_def)
  moreover have "{y \<in> avail (BigEndianP bs c). x \<le> y} = avail (BigEndianP bs c)"
  proof -
    have "ucast c \<le> (ucast w :: u64)" if "w \<in> set (be_words bs)" for w using l that by auto
    then show ?thesis using True order_trans[OF True] by auto
  qed
  ultimately show ?thesis using SeekD_bigEndian[of bs c x] l True
    by (auto simp: seek_ok_def same_shape_def)
next
  case False
  let ?x = "ucast x :: u32" and ?ws = "be_words bs"
  have xx: "ucast ?x = x" using l x by (auto intro: ucast_down_up)
  have le: "x \<le> ucast w \<longleftrightarrow> ?x \<le> w" for w using ucast_up_le[of ?x w] xx by simp
  let ?pos = "go_search (length bs div 4) (\<lambda>i. ?x \<le> be_uint32 (drop (i * 4) bs))"
  have cong: "search_loop f i j = search_loop g i j" if "\<And>k. k < j \<Longrightarrow> f k = g k" for f g i j
    using that
  proof (induction f i j rule: search_loop.induct)
    case (1 f i j)
    then show ?case by (subst (1 2) search_loop.simps) (auto simp: Let_def)
  qed
  have pos: "?pos = go_search (length ?ws) (\<lambda>i. ?x \<le> ?ws ! i)"
    unfolding go_search_def length_be_words by (rule cong) (simp add: be_words_nth)
  have s: "sorted_wrt (<) ?ws" using l by simp
  note sr = search_sorted_wrt[OF s, of ?x, unfolded Let_def, folded pos]
  have eq: "bigEndian_Seek bs c x = (if ?pos < length bs div 4
      then (True, BigEndianP (drop (?pos * 4 + 4) bs) (be_uint32 (drop (?pos * 4) bs))) else (False, BigEndianP [] c))"
    using False by (auto simp: bigEndian_Seek_def Let_def)
  have av: "{y \<in> avail (BigEndianP bs c). x \<le> y} = ucast ` {w \<in> set ?ws. ?x \<le> w}" using False le by auto
  show ?thesis
  proof (cases "?pos < length bs div 4")
    case True
    have "be_words (drop (?pos * 4 + 4) bs) = drop (Suc ?pos) ?ws"
      using be_words_drop[of "Suc ?pos" bs] by (simp add: add.commute)
    moreover have "be_uint32 (drop (?pos * 4) bs) = ?ws ! ?pos" using True by (simp add: be_words_nth)
    moreover have "insert (?ws ! ?pos) (set (drop (Suc ?pos) ?ws)) = {w \<in> set ?ws. ?x \<le> w}"
      "sorted_wrt (<) (?ws ! ?pos # drop (Suc ?pos) ?ws)" "\<exists>w \<in> set ?ws. ?x \<le> w"
      using sr True by (auto simp: length_be_words)
    moreover have "\<exists>y \<in> avail (BigEndianP bs c). x \<le> y" using calculation(5) le by auto
    ultimately show ?thesis using SeekD_bigEndian[of bs c x] True av l unfolding eq
      by (auto simp: seek_ok_def same_shape_def simp flip: image_insert)
  next
    case F: False
    then have "\<not> (\<exists>y \<in> avail (BigEndianP bs c). x \<le> y)" using sr False le by (auto simp: length_be_words)
    then show ?thesis using SeekD_bigEndian[of bs c x] F unfolding eq
      by (auto simp: seek_ok_def same_shape_def ended_def)
  qed
qed

lemma leaf_contract: "postings_contract B (leaf B)"
proof
  fix p and x :: u64
  assume "leaf B p"
  then show "next_ok (leaf B) p"
    by (cases p) (auto intro: slice_next_ok bigEndian_next_ok simp del: leaf.simps, auto)
  assume "unat x < B"
  with \<open>leaf B p\<close> show "seek_ok (leaf B) p x"
    by (cases p) (auto intro: slice_seek_ok bigEndian_seek_ok simp del: leaf.simps, auto)
next
  fix p y
  assume l: "leaf B p"
  show "At p \<in> avail p" using l by (cases p) auto
  show "Err p = None" using l by (cases p) auto
  assume y: "y \<in> avail p"
  show "At p \<le> y" using l y by (cases p) auto
  have "unat (w :: u32) < 2 ^ 32" for w using unsigned_less[of w] by simp
  then show "unat y < B" using l y by (cases p) auto
qed


subsection \<open>Intersections\<close>

definition valid_inter :: "(postings \<Rightarrow> bool) \<Rightarrow> postings \<Rightarrow> bool" where
  "valid_inter V p \<longleftrightarrow> (\<exists>arr c. p = IntersectP arr c \<and> arr \<noteq> [] \<and> (\<forall>q \<in> set arr. V q \<and> seekable q \<and> At q = c))"

definition common :: "postings list \<Rightarrow> u64 set" where
  "common arr = \<Inter> (avail ` set arr)"

lemma common_Cons [simp]: "common (q # arr) = avail q \<inter> common arr"
  by (simp add: common_def)

lemma common_Nil [simp]: "common [] = UNIV"
  by (simp add: common_def)

lemma first_error_None: "first_error es = None \<longleftrightarrow> (\<forall>e \<in> set es. e = None)"
  by (induction es rule: first_error.induct) auto

text \<open>Filtering every part at \<open>x\<close> filters what they have in common.\<close>

lemma common_filter:
  "list_all2 (\<lambda>q q'. avail q' = {y \<in> avail q. x \<le> y}) arr arr' \<Longrightarrow> arr \<noteq> [] \<Longrightarrow>
   common arr' = {y \<in> common arr. x \<le> y}"
proof (induction arr arr' rule: list_all2_induct)
  case (Cons q arr q' arr')
  then show ?case by (cases "arr = []") auto
qed simp

lemma common_remove:
  "list_all2 (\<lambda>q q'. avail q' = avail q - {c}) arr arr' \<Longrightarrow> arr \<noteq> [] \<Longrightarrow> common arr' = common arr - {c}"
proof (induction arr arr' rule: list_all2_induct)
  case (Cons q arr q' arr')
  then show ?case by (cases "arr = []") auto
qed simp

lemma common_some_filter:
  "list_all2 (\<lambda>q q'. avail q' = avail q \<or> avail q' = {y \<in> avail q. x \<le> y}) arr arr' \<Longrightarrow> x \<le> z \<Longrightarrow>
   {y \<in> common arr'. z \<le> y} = {y \<in> common arr. z \<le> y} \<and> \<Union> (avail ` set arr') \<subseteq> \<Union> (avail ` set arr)"
  by (induction arr arr' rule: list_all2_induct) auto

context postings_contract
begin

text \<open>The first loop of \<open>Next\<close>: every part moves on, or one has ended.\<close>

lemma adv_ok:
  assumes "\<forall>q \<in> set arr. V q \<and> seekable q"
  shows "\<exists>arr' c'. advD arr cur (\<forall>q \<in> set arr. avail q \<noteq> {At q}, arr', c')
    \<and> (\<forall>q \<in> set arr'. Err q = None \<and> seekable q)
    \<and> ((\<forall>q \<in> set arr. avail q \<noteq> {At q}) \<longrightarrow>
        list_all2 (\<lambda>q q'. V q' \<and> avail q' = avail q - {At q}) arr arr'
        \<and> cur \<le> c' \<and> (\<forall>q \<in> set arr'. At q \<le> c') \<and> (c' = cur \<or> c' \<in> At ` set arr'))"
  using assms
proof (induction arr arbitrary: cur)
  case Nil
  then show ?case using advD_Nil by fastforce
next
  case (Cons q arr)
  obtain q' where q': "NextD q (avail q \<noteq> {At q}, q')" "same_shape q q'"
      "if avail q = {At q} then ended q q' else V q' \<and> avail q' = avail q - {At q}"
    using V_next Cons.prems unfolding next_ok_def by (metis list.set_intros(1))
  show ?case
  proof (cases "avail q = {At q}")
    case True
    then have "advD (q # arr) cur (False, q' # arr, cur)" using q'(1) advD_fail by simp
    moreover have "\<forall>r \<in> set (q' # arr). Err r = None \<and> seekable r"
      using True q' Cons.prems V_Err by (auto simp: ended_def same_shape_def)
    ultimately show ?thesis using True by (intro exI[of _ "q' # arr"] exI[of _ cur]) auto
  next
    case False
    define c where "c = (if cur < At q' then At q' else cur)"
    have "\<forall>q \<in> set arr. V q \<and> seekable q" using Cons.prems by simp
    from Cons.IH[OF this, of c] obtain arr' c' where IH: "advD arr c (\<forall>q \<in> set arr. avail q \<noteq> {At q}, arr', c')"
        "\<forall>q \<in> set arr'. Err q = None \<and> seekable q"
        "(\<forall>q \<in> set arr. avail q \<noteq> {At q}) \<longrightarrow>
          list_all2 (\<lambda>q q'. V q' \<and> avail q' = avail q - {At q}) arr arr'
          \<and> c \<le> c' \<and> (\<forall>q \<in> set arr'. At q \<le> c') \<and> (c' = c \<or> c' \<in> At ` set arr')"
      by blast
    have "advD (q # arr) cur (\<forall>r \<in> set (q # arr). avail r \<noteq> {At r}, q' # arr', c')"
      using advD_Cons[OF _ IH(1)[unfolded c_def]] q'(1) False by simp
    moreover have "\<forall>r \<in> set (q' # arr'). Err r = None \<and> seekable r"
      using False q' IH(2) Cons.prems V_Err by (auto simp: same_shape_def)
    moreover have "list_all2 (\<lambda>q q'. V q' \<and> avail q' = avail q - {At q}) (q # arr) (q' # arr')
        \<and> cur \<le> c' \<and> (\<forall>r \<in> set (q' # arr'). At r \<le> c') \<and> (c' = cur \<or> c' \<in> At ` set (q' # arr'))"
      if "\<forall>r \<in> set (q # arr). avail r \<noteq> {At r}"
    proof -
      have "cur \<le> c" "At q' \<le> c" "c = cur \<or> c = At q'" by (auto simp: c_def)
      moreover have "list_all2 (\<lambda>q q'. V q' \<and> avail q' = avail q - {At q}) arr arr'"
        "c \<le> c'" "\<forall>r \<in> set arr'. At r \<le> c'" "c' = c \<or> c' \<in> At ` set arr'" using IH(3) that by auto
      ultimately show ?thesis using q'(3) False by (simp, metis order_trans)
    qed
    ultimately show ?thesis by (intro exI[of _ "q' # arr'"] exI[of _ c']) blast
  qed
qed

text \<open>One pass of the inner loop of \<open>doNext\<close>.\<close>

lemma iseek_ok:
  assumes "\<forall>q \<in> set arr. V q \<and> seekable q" and "0 < cur \<or> (\<forall>q \<in> set arr. 0 < At q)" and "unat cur < B"
  shows "\<exists>out arr'. iseekD arr cur (out, arr') \<and> (\<forall>q \<in> set arr'. Err q = None \<and> seekable q) \<and>
    (case out of
       Missing \<Rightarrow> \<forall>y \<in> common arr. y < cur
     | Beyond c \<Rightarrow> cur < c \<and> c \<in> \<Union> (avail ` set arr) \<and> (\<forall>y \<in> common arr. cur \<le> y \<longrightarrow> c \<le> y) \<and>
         list_all2 (\<lambda>q q'. V q' \<and> (avail q' = avail q \<or> avail q' = {y \<in> avail q. cur \<le> y})) arr arr'
     | AllLevel \<Rightarrow> list_all2 (\<lambda>q q'. V q' \<and> At q' = cur \<and> avail q' = {y \<in> avail q. cur \<le> y}) arr arr')"
  using assms
proof (induction arr)
  case Nil
  then show ?case using iseekD_Nil by (intro exI[of _ AllLevel] exI[of _ "[]"]) simp
next
  case (Cons q arr)
  have "seek_ok V q cur" using V_seek Cons.prems by auto
  then obtain q' where q': "SeekD q cur (\<exists>y \<in> avail q. cur \<le> y, q')" "same_shape q q'"
      "if \<exists>y \<in> avail q. cur \<le> y then V q' \<and> avail q' = {y \<in> avail q. cur \<le> y} else ended q q'"
    unfolding seek_ok_def by blast
  have good: "Err q' = None \<and> seekable q'"
    using q' Cons.prems V_Err by (auto simp: same_shape_def ended_def split: if_splits)
  have rest: "\<forall>r \<in> set arr. Err r = None \<and> seekable r" using Cons.prems V_Err by auto
  consider (miss) "\<not> (\<exists>y \<in> avail q. cur \<le> y)" | (beyond) "\<exists>y \<in> avail q. cur \<le> y" "cur < At q'"
    | (level) "\<exists>y \<in> avail q. cur \<le> y" "\<not> cur < At q'" by blast
  then show ?case
  proof cases
    case miss
    then have "iseekD (q # arr) cur (Missing, q' # arr)" using iseekD_missing q'(1) by simp
    then show ?thesis using miss good rest by (intro exI[of _ Missing] exI[of _ "q' # arr"]) (auto simp: not_le)
  next
    case beyond
    then have i: "iseekD (q # arr) cur (Beyond (At q'), q' # arr)" using iseekD_beyond q'(1) by simp
    have v: "V q'" "avail q' = {y \<in> avail q. cur \<le> y}" using q'(3) beyond(1) by auto
    have "At q' \<in> avail q" "\<forall>y \<in> avail q. cur \<le> y \<longrightarrow> At q' \<le> y" using V_At[OF v(1)] V_least[OF v(1)] v(2) by auto
    then show ?thesis using i beyond(2) v good rest Cons.prems(1)
      by (intro exI[of _ "Beyond (At q')"] exI[of _ "q' # arr"]) (auto intro!: list.rel_refl_strong)
  next
    case level
    have v: "V q'" "avail q' = {y \<in> avail q. cur \<le> y}" using q'(3) level(1) by auto
    then have at: "At q' = cur" using V_At[OF v(1)] level(2) by auto
    obtain out arr' where IH: "iseekD arr cur (out, arr')" "\<forall>q \<in> set arr'. Err q = None \<and> seekable q"
      "case out of
         Missing \<Rightarrow> \<forall>y \<in> common arr. y < cur
       | Beyond c \<Rightarrow> cur < c \<and> c \<in> \<Union> (avail ` set arr) \<and> (\<forall>y \<in> common arr. cur \<le> y \<longrightarrow> c \<le> y) \<and>
           list_all2 (\<lambda>q q'. V q' \<and> (avail q' = avail q \<or> avail q' = {y \<in> avail q. cur \<le> y})) arr arr'
       | AllLevel \<Rightarrow> list_all2 (\<lambda>q q'. V q' \<and> At q' = cur \<and> avail q' = {y \<in> avail q. cur \<le> y}) arr arr'"
      using Cons.IH Cons.prems by auto
    have "iseekD (q # arr) cur (out, q' # arr')" using iseekD_Cons[OF _ level(2) IH(1)] q'(1) level(1) by simp
    then show ?thesis using IH(2,3) v at good
      by (intro exI[of _ out] exI[of _ "q' # arr'"]) (auto split: seek_outcome.splits)
  qed
qed


lemma doNext_ok:
  assumes "\<forall>q \<in> set arr. V q \<and> seekable q" and "0 < cur \<or> (\<forall>q \<in> set arr. 0 < At q)" and "unat cur < B"
    and "arr \<noteq> []"
  shows "\<exists>arr' c'. doNextD arr cur ({y \<in> common arr. cur \<le> y} \<noteq> {}, arr', c')
    \<and> (\<forall>q \<in> set arr'. Err q = None \<and> seekable q)
    \<and> ({y \<in> common arr. cur \<le> y} \<noteq> {} \<longrightarrow>
        arr' \<noteq> [] \<and> (\<forall>q \<in> set arr'. V q \<and> At q = c') \<and> common arr' = {y \<in> common arr. cur \<le> y})"
  using assms
proof (induction "card {y \<in> \<Union> (avail ` set arr). cur < y}" arbitrary: arr cur rule: less_induct)
  case less
  let ?I = "{y \<in> common arr. cur \<le> y}"
  obtain out arr' where sk: "iseekD arr cur (out, arr')" "\<forall>q \<in> set arr'. Err q = None \<and> seekable q"
    "case out of
       Missing \<Rightarrow> \<forall>y \<in> common arr. y < cur
     | Beyond c \<Rightarrow> cur < c \<and> c \<in> \<Union> (avail ` set arr) \<and> (\<forall>y \<in> common arr. cur \<le> y \<longrightarrow> c \<le> y) \<and>
         list_all2 (\<lambda>q q'. V q' \<and> (avail q' = avail q \<or> avail q' = {y \<in> avail q. cur \<le> y})) arr arr'
     | AllLevel \<Rightarrow> list_all2 (\<lambda>q q'. V q' \<and> At q' = cur \<and> avail q' = {y \<in> avail q. cur \<le> y}) arr arr'"
    using iseek_ok[OF less.prems(1-3)] by blast
  show ?case
  proof (cases out)
    case Missing
    then have "?I = {}" using sk(3) by (auto simp: not_le)
    moreover have "doNextD arr cur (False, arr', cur)" using doNextD_step[OF sk(1)] Missing by simp
    ultimately show ?thesis using sk(2) by auto
  next
    case AllLevel
    then have l: "list_all2 (\<lambda>q q'. V q' \<and> At q' = cur \<and> avail q' = {y \<in> avail q. cur \<le> y}) arr arr'" using sk(3) by simp
    then have good: "\<forall>q \<in> set arr'. V q \<and> At q = cur" and ne: "arr' \<noteq> []"
      using less.prems(4) by (auto simp: list_all2_conv_all_nth in_set_conv_nth)
    have "list_all2 (\<lambda>q q'. avail q' = {y \<in> avail q. cur \<le> y}) arr arr'"
      by (rule list_all2_mono[OF l]) simp
    then have cm: "common arr' = ?I" using common_filter less.prems(4) by blast
    have "cur \<in> common arr'" using good V_At by (fastforce simp: common_def)
    then have nz: "?I \<noteq> {} \<longleftrightarrow> True" using cm by blast
    have "doNextD arr cur (True, arr', cur)" using doNextD_step[OF sk(1)] AllLevel by simp
    then show ?thesis unfolding nz using good ne sk(2) cm by blast
  next
    case (Beyond c)
    then have c: "cur < c" "c \<in> \<Union> (avail ` set arr)" "\<forall>y \<in> common arr. cur \<le> y \<longrightarrow> c \<le> y"
      and l: "list_all2 (\<lambda>q q'. V q' \<and> (avail q' = avail q \<or> avail q' = {y \<in> avail q. cur \<le> y})) arr arr'"
      using sk(3) by auto
    have cf: "{y \<in> common arr'. c \<le> y} = {y \<in> common arr. c \<le> y} \<and> \<Union> (avail ` set arr') \<subseteq> \<Union> (avail ` set arr)"
      by (rule common_some_filter[of cur]) (use c(1) in \<open>auto intro: list_all2_mono[OF l]\<close>)
    then have I: "{y \<in> common arr'. c \<le> y} = ?I" using c by fastforce
    have good: "\<forall>q \<in> set arr'. V q \<and> seekable q" and ne: "arr' \<noteq> []"
      using l sk(2) less.prems(4) by (auto simp: list_all2_conv_all_nth in_set_conv_nth)
    have "card {y \<in> \<Union> (avail ` set arr'). c < y} < card {y \<in> \<Union> (avail ` set arr). cur < y}"
      using cf c by (intro psubset_card_mono) auto
    moreover have "0 < c" using c(1) by (metis word_gt_0 word_not_simps(1))
    moreover have "unat c < B" using c(2) V_bound less.prems(1) by auto
    ultimately obtain arr2 c2 where "doNextD arr' c (?I \<noteq> {}, arr2, c2)"
        "\<forall>q \<in> set arr2. Err q = None \<and> seekable q"
        "?I \<noteq> {} \<longrightarrow> arr2 \<noteq> [] \<and> (\<forall>q \<in> set arr2. V q \<and> At q = c2) \<and> common arr2 = ?I"
      using less.hyps[of arr' c] good ne unfolding I by blast
    moreover from this(1) have "doNextD arr cur (?I \<noteq> {}, arr2, c2)" using doNextD_step[OF sk(1)] Beyond by simp
    ultimately show ?thesis by blast
  qed
qed

lemma avail_inter: "avail (IntersectP arr c) = common arr"
  by (simp add: common_def)

lemma valid_interI:
  "arr \<noteq> [] \<Longrightarrow> \<forall>q \<in> set arr. V q \<and> seekable q \<and> At q = c \<Longrightarrow> valid_inter V (IntersectP arr c)"
  by (simp add: valid_inter_def)

lemma inter_At:
  assumes "valid_inter V p"
  shows "At p \<in> avail p" and "y \<in> avail p \<Longrightarrow> At p \<le> y" and "y \<in> avail p \<Longrightarrow> unat y < B" and "Err p = None"
    and "seekable p"
proof -
  obtain arr c where p: "p = IntersectP arr c" "arr \<noteq> []" "\<forall>q \<in> set arr. V q \<and> seekable q \<and> At q = c"
    using assms by (auto simp: valid_inter_def)
  show "At p \<in> avail p" using p V_At by fastforce
  show "y \<in> avail p \<Longrightarrow> At p \<le> y" "y \<in> avail p \<Longrightarrow> unat y < B"
    using p V_least V_bound by (cases arr; fastforce)+
  show "Err p = None" using p V_Err by (auto simp: first_error_None)
  show "seekable p" using p by auto
qed

lemma inter_seek_ok:
  assumes "valid_inter V p" and "0 < x \<or> 0 < At p" and "unat x < B"
  shows "seek_ok (valid_inter V) p x"
proof -
  obtain arr c where p: "p = IntersectP arr c" "arr \<noteq> []" "\<forall>q \<in> set arr. V q \<and> seekable q \<and> At q = c"
    using assms(1) by (auto simp: valid_inter_def)
  let ?I = "{y \<in> common arr. x \<le> y}"
  obtain arr' c' where r: "doNextD arr x (?I \<noteq> {}, arr', c')" "\<forall>q \<in> set arr'. Err q = None \<and> seekable q"
      "?I \<noteq> {} \<longrightarrow> arr' \<noteq> [] \<and> (\<forall>q \<in> set arr'. V q \<and> At q = c') \<and> common arr' = ?I"
    using doNext_ok[of arr x] p assms(2,3) by auto
  have ex: "(\<exists>y \<in> avail p. x \<le> y) \<longleftrightarrow> ?I \<noteq> {}" unfolding p(1) avail_inter by auto
  have "SeekD p x (\<exists>y \<in> avail p. x \<le> y, IntersectP arr' c')"
    using SeekD_inter[OF r(1), of c] unfolding ex by (simp add: p(1))
  moreover have "same_shape p (IntersectP arr' c')" using r(2) by (simp add: p(1) same_shape_def)
  moreover have "Err (IntersectP arr' c') = None" using r(2) by (auto simp: first_error_None)
  moreover have "?I \<noteq> {} \<longrightarrow> valid_inter V (IntersectP arr' c') \<and> avail (IntersectP arr' c') = {y \<in> avail p. x \<le> y}"
    using r(2,3) valid_interI[of arr' c'] unfolding p(1) avail_inter by auto
  ultimately show ?thesis unfolding seek_ok_def ex by (intro exI[of _ "IntersectP arr' c'"]) (auto simp: ended_def p(1))
qed

lemma inter_next_ok:
  assumes "valid_inter V p"
  shows "next_ok (valid_inter V) p"
proof -
  obtain arr c where p: "p = IntersectP arr c" "arr \<noteq> []" "\<forall>q \<in> set arr. V q \<and> seekable q \<and> At q = c"
    using assms by (auto simp: valid_inter_def)
  have c: "c \<in> common arr" using inter_At(1)[OF assms] unfolding p(1) avail_inter by simp
  let ?all = "\<forall>q \<in> set arr. avail q \<noteq> {At q}"
  obtain arr1 c1 where a: "advD arr c (?all, arr1, c1)" "\<forall>q \<in> set arr1. Err q = None \<and> seekable q"
     "?all \<longrightarrow> list_all2 (\<lambda>q q'. V q' \<and> avail q' = avail q - {At q}) arr arr1
        \<and> c \<le> c1 \<and> (\<forall>q \<in> set arr1. At q \<le> c1) \<and> (c1 = c \<or> c1 \<in> At ` set arr1)"
    using adv_ok[of arr c] p(3) by blast
  show ?thesis
  proof (cases ?all)
    case False
    then obtain q where "q \<in> set arr" "avail q = {c}" using p(3) by auto
    then have "common arr = {c}" using c by (auto simp: common_def)
    then show ?thesis using NextD_inter_fail[of arr c arr1 c1] a(1,2) False p(1)
      unfolding next_ok_def avail_inter
      by (auto simp: avail_inter same_shape_def ended_def first_error_None simp del: avail.simps)
  next
    case True
    then have l: "list_all2 (\<lambda>q q'. V q' \<and> avail q' = avail q - {At q}) arr arr1"
      and c1: "c \<le> c1" "\<forall>q \<in> set arr1. At q \<le> c1" "c1 = c \<or> c1 \<in> At ` set arr1" using a(3) by auto
    have ne: "arr1 \<noteq> []" and good: "\<forall>q \<in> set arr1. V q \<and> seekable q"
      using l a(2) p(2) by (auto simp: list_all2_conv_all_nth in_set_conv_nth)
    have cm: "common arr1 = common arr - {c}"
      using l p(2,3) by (intro common_remove) (auto simp: list_all2_conv_all_nth)
    have above: "c < At q" if "q \<in> set arr1" for q
    proof -
      obtain i where "i < length arr1" "q = arr1 ! i" using \<open>q \<in> set arr1\<close> by (auto simp: in_set_conv_nth)
      then obtain q0 where "q0 \<in> set arr" "avail q = avail q0 - {c}"
        using list_all2_nthD2[OF l, of i] list_all2_lengthD[OF l] p(3) by (metis nth_mem)
      then show ?thesis using V_At[of q] V_least[of q0 "At q"] good that p(3) by (metis Diff_iff insertI1 order.not_eq_order_implies_strict)
    qed
    have pos: "\<forall>q \<in> set arr1. 0 < At q" using above by (metis word_gt_0 word_not_simps(1))
    have I: "{y \<in> common arr1. c1 \<le> y} = common arr1"
    proof -
      have "c1 \<in> At ` set arr1"
        using c1 above ne by (metis hd_in_set leD)
      then show ?thesis using good V_least by (auto simp: common_def)
    qed
    have "unat c1 < B"
      using c1(3) V_bound V_At good p(2,3) by (metis (no_types, lifting) image_iff hd_in_set)
    then obtain arr2 c2 where r: "doNextD arr1 c1 (common arr1 \<noteq> {}, arr2, c2)" "\<forall>q \<in> set arr2. Err q = None \<and> seekable q"
      "common arr1 \<noteq> {} \<longrightarrow> arr2 \<noteq> [] \<and> (\<forall>q \<in> set arr2. V q \<and> At q = c2) \<and> common arr2 = common arr1"
      using doNext_ok[of arr1 c1, unfolded I] good pos ne by blast
    have "NextD p (common arr1 \<noteq> {}, IntersectP arr2 c2)"
      using NextD_inter[OF _ r(1), of arr c] a(1) True p(1) by simp
    moreover have "avail p = {At p} \<longleftrightarrow> common arr1 = {}" using cm c unfolding p(1) avail_inter by auto
    ultimately show ?thesis using r(2,3) cm valid_interI[of arr2 c2] unfolding next_ok_def
      by (intro exI[of _ "IntersectP arr2 c2"])
        (auto simp: avail_inter same_shape_def ended_def first_error_None p(1) simp del: avail.simps)
  qed
qed

end


subsection \<open>Merges\<close>

interpretation ph: heap_order less_At
  by unfold_locales (auto simp: less_At_def)

definition united :: "postings list \<Rightarrow> u64 set" where
  "united h = \<Union> (avail ` set h)"

definition heap_size :: "postings list \<Rightarrow> nat" where
  "heap_size h = (\<Sum>q\<in>#mset h. card (avail q))"

definition valid_merged :: "(postings \<Rightarrow> bool) \<Rightarrow> postings \<Rightarrow> bool" where
  "valid_merged V p \<longleftrightarrow> (\<exists>h ini c. p = MergedP h ini c None \<and> h \<noteq> [] \<and> (\<forall>q \<in> set h. V q \<and> seekable q \<and> 0 < At q)
     \<and> (if ini then is_heap less_At h \<and> c = At (h ! 0) else c = 0))"

lemma reheap_mset:
  assumes "h \<noteq> []"
  shows "mset (reheap ok p h) = (if ok then add_mset p (mset (tl h)) else mset (tl h))"
proof -
  have h: "h[0 := p] = p # tl h" using assms by (cases h) auto
  then show ?thesis
    using heap_pop_spec(2)[of "p # tl h" less_At] mset_heap_fix[of 0 "p # tl h" less_At]
    by (simp add: reheap_def)
qed

lemma reheap_is_heap:
  assumes "is_heap less_At h"
  shows "is_heap less_At (reheap ok p h)"
proof -
  have "edges_but less_At (h[0 := p]) 0 (length (h[0 := p])) 0"
    using assms by (auto simp: edges_but_def is_heap_def)
  then show ?thesis using ph.is_heap_pop_root ph.is_heap_fix_root by (simp add: reheap_def)
qed

lemma reheap_set:
  "h \<noteq> [] \<Longrightarrow> set (reheap ok p h) = (if ok then {p} else {}) \<union> set (tl h)"
  using arg_cong[OF reheap_mset[of h ok p], of set_mset] by auto

lemma heap_top_least: "is_heap less_At h \<Longrightarrow> q \<in> set h \<Longrightarrow> At (h ! 0) \<le> At q"
  using ph.is_heap_min by (fastforce simp: less_At_def in_set_conv_nth)

lemma united_split: "h \<noteq> [] \<Longrightarrow> united h = avail (h ! 0) \<union> \<Union> (avail ` set (tl h))"
  by (cases h) (auto simp: united_def)

lemma heap_size_split: "h \<noteq> [] \<Longrightarrow> heap_size h = card (avail (h ! 0)) + heap_size (tl h)"
  by (cases h) (auto simp: heap_size_def)

lemma heap_size_reheap:
  "h \<noteq> [] \<Longrightarrow> heap_size (reheap ok p h) = (if ok then card (avail p) else 0) + heap_size (tl h)"
  by (simp add: heap_size_def reheap_mset)

definition good_heap :: "(postings \<Rightarrow> bool) \<Rightarrow> postings list \<Rightarrow> bool" where
  "good_heap V h \<longleftrightarrow> is_heap less_At h \<and> (\<forall>q \<in> set h. V q \<and> seekable q \<and> 0 < At q)"

context postings_contract
begin

lemma united_least: "good_heap V h \<Longrightarrow> y \<in> united h \<Longrightarrow> At (h ! 0) \<le> y"
  using heap_top_least V_least by (fastforce simp: united_def good_heap_def intro: order_trans)

lemma top_in_united: "good_heap V h \<Longrightarrow> h \<noteq> [] \<Longrightarrow> At (h ! 0) \<in> united h"
  using V_At[of "h ! 0"] nth_mem[of 0 h] by (auto simp: united_def good_heap_def)

lemma pos_of_less: "(a :: u64) < b \<Longrightarrow> 0 < b"
  by (metis word_gt_0 word_not_simps(1))

text \<open>The heap after the top was advanced: its elements lose a part of the top's.\<close>

lemma good_reheap:
  assumes h: "good_heap V h" "h \<noteq> []" and q: "same_shape (h ! 0) q"
    and "if ok then V q \<and> avail q \<subset> avail (h ! 0) else ended (h ! 0) q"
    and "ok \<Longrightarrow> At (h ! 0) \<notin> avail q"
  shows "good_heap V (reheap ok q h)" and "heap_size (reheap ok q h) < heap_size h"
    and "united (reheap ok q h) = (if ok then avail q else {}) \<union> \<Union> (avail ` set (tl h))"
proof -
  have top: "V (h ! 0)" "seekable (h ! 0)" "0 < At (h ! 0)" using h by (auto simp: good_heap_def)
  have "0 < At q" if ok
  proof -
    have "V q" "avail q \<subset> avail (h ! 0)" using assms(4) that by auto
    then have "At q \<in> avail (h ! 0)" "At q \<noteq> At (h ! 0)" using V_At[of q] assms(5)[OF that] by auto
    then show ?thesis using V_least[OF top(1)] pos_of_less by (metis order_le_neq_trans)
  qed
  moreover have "seekable q" using q top by (simp add: same_shape_def)
  ultimately show "good_heap V (reheap ok q h)"
    using assms reheap_is_heap reheap_set[of h ok q] list.set_sel(2)[OF h(2)]
    by (auto simp: good_heap_def split: if_splits)
  have "0 < card (avail (h ! 0))" using V_At[OF top(1)] by (auto simp: card_gt_0_iff)
  moreover have "ok \<Longrightarrow> card (avail q) < card (avail (h ! 0))" using assms(4) by (auto intro: psubset_card_mono)
  ultimately show "heap_size (reheap ok q h) < heap_size h"
    using h(2) by (simp add: heap_size_reheap heap_size_split[of h])
  show "united (reheap ok q h) = (if ok then avail q else {}) \<union> \<Union> (avail ` set (tl h))"
    using h(2) by (auto simp: united_def reheap_set)
qed

lemma mnext_ok:
  assumes "good_heap V h" and "h \<noteq> []" and "cur = At (h ! 0)"
  shows "\<exists>h' c'. mnextD h cur ({y \<in> united h. cur < y} \<noteq> {}, h', c', None)
    \<and> (if {y \<in> united h. cur < y} = {} then h' = []
       else good_heap V h' \<and> h' \<noteq> [] \<and> c' = At (h' ! 0) \<and> united h' = {y \<in> united h. cur < y})"
  using assms
proof (induction "heap_size h" arbitrary: h rule: less_induct)
  case less
  let ?q = "h ! 0"
  have top: "V ?q" "seekable ?q" "0 < At ?q" using less.prems by (auto simp: good_heap_def)
  let ?ok = "avail ?q \<noteq> {At ?q}"
  obtain q where q: "NextD ?q (?ok, q)" "same_shape ?q q"
      "if avail ?q = {At ?q} then ended ?q q else V q \<and> avail q = avail ?q - {At ?q}"
    using V_next[OF top(1)] unfolding next_ok_def by blast
  define h1 where "h1 = reheap ?ok q h"
  have cond: "if ?ok then V q \<and> avail q \<subset> avail ?q else ended ?q q" "?ok \<Longrightarrow> At ?q \<notin> avail q"
    using q(3) V_At[OF top(1)] by auto
  note g = good_reheap[OF less.prems(1,2) q(2) cond, folded h1_def]
  have un: "{y \<in> united h1. cur < y} = {y \<in> united h. cur < y}"
    using g(3) q(3) less.prems(2,3) by (auto simp: united_split[of h] split: if_splits)
  have err: "\<not> (\<not> ?ok \<and> Err q \<noteq> None)" using q(3) by (auto simp: ended_def)
  consider (stop) "h1 = []" | (move) "h1 \<noteq> []" "At (h1 ! 0) \<noteq> cur" | (again) "h1 \<noteq> []" "At (h1 ! 0) = cur" by blast
  then show ?case
  proof cases
    case stop
    have "\<not> ?ok" using reheap_set[OF less.prems(2), of ?ok q, folded h1_def] stop by (simp split: if_splits)
    then have "mnextD h cur (False, [], cur, None)"
      using mnextD_step[OF q(1) h1_def, of "(False, [], cur, None)" cur] err stop by simp
    moreover have "{y \<in> united h. cur < y} = {}" using un stop by (simp add: united_def)
    ultimately show ?thesis by auto
  next
    case move
    have "cur < y" if "y \<in> united h1" for y
    proof -
      have "At (h1 ! 0) \<in> united h" using top_in_united[OF g(1) move(1)] g(3) q(3) less.prems(2)
        by (auto simp: united_split[of h] split: if_splits)
      then have "cur < At (h1 ! 0)" using united_least[OF less.prems(1)] less.prems(3) move(2) by (metis order_le_neq_trans)
      then show ?thesis using united_least[OF g(1) that] by simp
    qed
    then have eq: "{y \<in> united h. cur < y} = united h1" using un by auto
    then have "{y \<in> united h. cur < y} \<noteq> {} \<longleftrightarrow> True" using top_in_united[OF g(1) move(1)] by blast
    moreover have "mnextD h cur (True, h1, At (h1 ! 0), None)"
      using mnextD_step[OF q(1) h1_def, of "(True, h1, At (h1 ! 0), None)" cur] err move by simp
    ultimately show ?thesis using g(1) move(1) eq by auto
  next
    case again
    obtain h' c' where r: "mnextD h1 cur ({y \<in> united h1. cur < y} \<noteq> {}, h', c', None)"
        "if {y \<in> united h1. cur < y} = {} then h' = []
         else good_heap V h' \<and> h' \<noteq> [] \<and> c' = At (h' ! 0) \<and> united h' = {y \<in> united h1. cur < y}"
      using less.hyps[OF g(2,1) again(1)] again(2) by blast
    have "mnextD h cur ({y \<in> united h1. cur < y} \<noteq> {}, h', c', None)"
      by (rule mnextD_step[OF q(1) h1_def]) (use err again r(1) in argo)
    then show ?thesis using r(2) unfolding un by blast
  qed
qed


lemma mseek_ok:
  assumes "good_heap V h" and "h \<noteq> []" and "cur = At (h ! 0)" and "unat x < B"
  shows "\<exists>h' c'. mseekD h cur x ({y \<in> united h. x \<le> y} \<noteq> {}, h', c', None)
    \<and> (if {y \<in> united h. x \<le> y} = {} then h' = []
       else good_heap V h' \<and> h' \<noteq> [] \<and> c' = At (h' ! 0) \<and> united h' = {y \<in> united h. x \<le> y})"
  using assms
proof (induction "heap_size h" arbitrary: h cur rule: less_induct)
  case less
  let ?q = "h ! 0"
  have top: "V ?q" "seekable ?q" "0 < At ?q" using less.prems by (auto simp: good_heap_def)
  show ?case
  proof (cases "cur < x")
    case False
    then have eq: "{y \<in> united h. x \<le> y} = united h"
      using united_least[OF less.prems(1)] less.prems(3) by fastforce
    then have "{y \<in> united h. x \<le> y} \<noteq> {} \<longleftrightarrow> True" using top_in_united[OF less.prems(1,2)] by blast
    then show ?thesis using mseekD_done[OF False, of h] less.prems eq by auto
  next
    case True
    let ?ok = "\<exists>y \<in> avail ?q. x \<le> y"
    obtain q where q: "SeekD ?q x (?ok, q)" "same_shape ?q q"
        "if ?ok then V q \<and> avail q = {y \<in> avail ?q. x \<le> y} else ended ?q q"
      using V_seek[OF top(1,2)] top(3) less.prems(4) unfolding seek_ok_def by blast
    define h1 where "h1 = reheap ?ok q h"
    have ni: "?ok \<Longrightarrow> At ?q \<notin> avail q" using q(3) True less.prems(3) by auto
    have sub: "?ok \<Longrightarrow> avail q \<subset> avail ?q" using q(3) ni V_At[OF top(1)] by auto
    have cond: "if ?ok then V q \<and> avail q \<subset> avail ?q else ended ?q q" using q(3) sub by argo
    note g = good_reheap[OF less.prems(1,2) q(2) cond ni, folded h1_def]
    have un: "{y \<in> united h1. x \<le> y} = {y \<in> united h. x \<le> y}"
      using g(3) q(3) less.prems(2) by (auto simp: united_split[of h] split: if_splits)
    have err: "\<not> (\<not> ?ok \<and> Err q \<noteq> None)" using q(3) unfolding ended_def by argo
    show ?thesis
    proof (cases "h1 = []")
      case stop: True
      have "\<not> ?ok" using reheap_set[OF less.prems(2), of ?ok q, folded h1_def] stop by (simp split: if_splits)
      then have "mseekD h cur x (False, [], cur, None)"
        using mseekD_step[OF True _ h1_def, of "(False, [], cur, None)"] q(1) err stop less.prems(3) by simp
      moreover have "{y \<in> united h. x \<le> y} = {}" using un stop by (simp add: united_def)
      ultimately show ?thesis by auto
    next
      case False
      obtain h' c' where r: "mseekD h1 (At (h1 ! 0)) x ({y \<in> united h1. x \<le> y} \<noteq> {}, h', c', None)"
          "if {y \<in> united h1. x \<le> y} = {} then h' = []
           else good_heap V h' \<and> h' \<noteq> [] \<and> c' = At (h' ! 0) \<and> united h' = {y \<in> united h1. x \<le> y}"
        using less.hyps[OF g(2,1) False refl less.prems(4)] by blast
      have "mseekD h cur x ({y \<in> united h1. x \<le> y} \<noteq> {}, h', c', None)"
        by (rule mseekD_step[OF True q(1) h1_def]) (use err False r(1) in argo)
      then show ?thesis using r(2) unfolding un by blast
    qed
  qed
qed

lemma avail_merged: "avail (MergedP h ini c e) = (if ini then united h else insert c (united h))"
  by (auto simp: united_def)

lemma valid_mergedI: "good_heap V h \<Longrightarrow> h \<noteq> [] \<Longrightarrow> valid_merged V (MergedP h True (At (h ! 0)) None)"
  by (auto simp: valid_merged_def good_heap_def)

lemma good_heap_init:
  assumes "h \<noteq> []" "\<forall>q \<in> set h. V q \<and> seekable q \<and> 0 < At q"
  shows "good_heap V (heap_init less_At h)" "heap_init less_At h \<noteq> []" "united (heap_init less_At h) = united h"
proof -
  have "set (heap_init less_At h) = set h" using mset_heap_init by (metis set_mset_mset)
  then show "good_heap V (heap_init less_At h)" "heap_init less_At h \<noteq> []" "united (heap_init less_At h) = united h"
    using assms ph.is_heap_init by (auto simp: good_heap_def united_def)
qed

lemma merged_At:
  assumes "valid_merged V p"
  shows "At p \<in> avail p" and "y \<in> avail p \<Longrightarrow> At p \<le> y" and "y \<in> avail p \<Longrightarrow> unat y < B" and "Err p = None"
    and "seekable p" and "sticky p"
proof -
  obtain h ini c where p: "p = MergedP h ini c None" "h \<noteq> []" "\<forall>q \<in> set h. V q \<and> seekable q \<and> 0 < At q"
     "if ini then is_heap less_At h \<and> c = At (h ! 0) else c = 0"
    using assms by (auto simp: valid_merged_def)
  have bound: "y \<in> united h \<Longrightarrow> unat y < B" for y using p(3) V_bound by (auto simp: united_def)
  then have "unat (At (h ! 0)) < B" using p(2,3) V_bound V_At by (metis length_greater_0_conv nth_mem)
  then show "y \<in> avail p \<Longrightarrow> unat y < B" using bound p(1,4) unfolding p(1) avail_merged
    by (auto split: if_splits)
  have g: "good_heap V h" if ini using p that by (simp add: good_heap_def)
  show "At p \<in> avail p" using top_in_united[OF g p(2)] p(4) unfolding p(1) avail_merged by auto
  show "y \<in> avail p \<Longrightarrow> At p \<le> y" using united_least[OF g] p(4) unfolding p(1) avail_merged
    by (auto split: if_splits)
  show "Err p = None" "seekable p" "sticky p" using p(1) by auto
qed

lemma merged_next_ok:
  assumes "valid_merged V p"
  shows "next_ok (valid_merged V) p"
proof -
  obtain h ini c where p: "p = MergedP h ini c None" "h \<noteq> []" "\<forall>q \<in> set h. V q \<and> seekable q \<and> 0 < At q"
     "if ini then is_heap less_At h \<and> c = At (h ! 0) else c = 0"
    using assms by (auto simp: valid_merged_def)
  show ?thesis
  proof (cases ini)
    case False
    let ?h = "heap_init less_At h"
    note gi = good_heap_init[OF p(2,3)]
    have c0: "c = 0" "0 \<notin> united h" using p(3,4) False V_least by (fastforce simp: united_def)+
    then have av: "avail p - {At p} = united ?h" "avail p \<noteq> {At p}"
      using gi(3) top_in_united[OF gi(1,2)] False unfolding p(1) avail_merged by auto
    have "NextD p (True, MergedP ?h True (At (?h ! 0)) None)"
      using NextD_merged_init[OF p(2) refl] p(1) False by simp
    then show ?thesis using av valid_mergedI[OF gi(1,2)] p(1) unfolding next_ok_def
      by (intro exI[of _ "MergedP ?h True (At (?h ! 0)) None"]) (simp add: same_shape_def avail_merged del: avail.simps)
  next
    case True
    then have g: "good_heap V h" "c = At (h ! 0)" using p(3,4) by (auto simp: good_heap_def)
    let ?T = "{y \<in> united h. c < y}"
    obtain h' c' where r: "mnextD h c (?T \<noteq> {}, h', c', None)"
      "if ?T = {} then h' = [] else good_heap V h' \<and> h' \<noteq> [] \<and> c' = At (h' ! 0) \<and> united h' = ?T"
      using mnext_ok[OF g(1) p(2) g(2)] by blast
    have av: "avail p = united h" "At p = c" using True unfolding p(1) avail_merged by auto
    have cin: "c \<in> united h" "\<And>y. y \<in> united h \<Longrightarrow> c \<le> y" using top_in_united[OF g(1) p(2)] united_least[OF g(1)] g(2) by auto
    then have T: "?T = avail p - {At p}" unfolding av by fastforce
    have ex: "avail p \<noteq> {At p} \<longleftrightarrow> ?T \<noteq> {}" using cin av T by auto
    have "NextD p (avail p \<noteq> {At p}, MergedP h' True c' None)"
      using NextD_merged[OF p(2) r(1)] True p(1) unfolding ex by simp
    then show ?thesis using r(2) valid_mergedI[of h'] ex T unfolding next_ok_def p(1)
      by (intro exI[of _ "MergedP h' True c' None"])
        (auto simp: same_shape_def ended_def avail_merged simp del: avail.simps split: if_splits)
  qed
qed

lemma merged_seek_ok:
  assumes "valid_merged V p" and "0 < x \<or> 0 < At p" and x: "unat x < B"
  shows "seek_ok (valid_merged V) p x"
proof -
  obtain h ini c where p: "p = MergedP h ini c None" "h \<noteq> []" "\<forall>q \<in> set h. V q \<and> seekable q \<and> 0 < At q"
     "if ini then is_heap less_At h \<and> c = At (h ! 0) else c = 0"
    using assms(1) by (auto simp: valid_merged_def)
  let ?h = "if ini then h else heap_init less_At h"
  let ?c = "if ini then c else At (?h ! 0)"
  note gi = good_heap_init[OF p(2,3)]
  have g: "good_heap V ?h" "?h \<noteq> []" "?c = At (?h ! 0)" "united ?h = united h"
    using p gi by (auto simp: good_heap_def)
  let ?T = "{y \<in> united ?h. x \<le> y}"
  obtain h' c' where r: "mseekD ?h ?c x (?T \<noteq> {}, h', c', None)"
    "if ?T = {} then h' = [] else good_heap V h' \<and> h' \<noteq> [] \<and> c' = At (h' ! 0) \<and> united h' = ?T"
    using mseek_ok[OF g(1-3) x] by blast
  have x0: "\<not> x \<le> c" if "\<not> ini" using assms(2) p(1,4) that by auto
  have "{y \<in> united h. x \<le> y} = {y \<in> avail p. x \<le> y}"
    using x0 unfolding p(1) avail_merged by (cases ini) auto
  then have T: "?T = {y \<in> avail p. x \<le> y}" unfolding g(4) .
  then have ex: "(\<exists>y \<in> avail p. x \<le> y) \<longleftrightarrow> ?T \<noteq> {}" by auto
  have "SeekD p x (\<exists>y \<in> avail p. x \<le> y, MergedP h' True c' None)"
    using SeekD_merged[OF p(2) refl refl r(1)] unfolding ex by (simp add: p(1))
  then show ?thesis using r(2) valid_mergedI[of h'] T unfolding seek_ok_def ex
    by (intro exI[of _ "MergedP h' True c' None"])
      (auto simp: p(1) same_shape_def ended_def avail_merged simp del: avail.simps split: if_splits)
qed

end


subsection \<open>Removals\<close>

lemma dead_mono: "dead p m \<Longrightarrow> m \<le> m' \<Longrightarrow> dead p m'"
  by (cases p) auto

lemma dead_Err: "dead p m \<Longrightarrow> Err p = None"
  by (cases p) auto

definition valid_removed :: "nat \<Rightarrow> (postings \<Rightarrow> bool) \<Rightarrow> postings \<Rightarrow> bool" where
  "valid_removed B V p \<longleftrightarrow> (\<exists>f r c ini fok rok. p = RemovedP f r c ini fok rok \<and> sticky r \<and> seekable r \<and>
     (if ini then 0 < c \<and> unat c < B
        \<and> (if fok then V f \<and> c < At f else Err f = None \<and> (sticky f \<longrightarrow> dead f c))
        \<and> (if rok then V r \<and> 0 < At r else dead r c)
      else V f \<and> V r \<and> At f = 0 \<and> At r = 0 \<and> c = 0))"

lemma valid_removedI:
  "sticky r \<Longrightarrow> seekable r \<Longrightarrow> 0 < c \<Longrightarrow> unat c < B \<Longrightarrow>
   (if fok then V f \<and> c < At f else Err f = None \<and> (sticky f \<longrightarrow> dead f c)) \<Longrightarrow>
   (if rok then V r \<and> 0 < At r else dead r c) \<Longrightarrow> valid_removed B V (RemovedP f r c True fok rok)"
  unfolding valid_removed_def by (intro exI conjI) (rule refl | assumption | simp)+

text \<open>What \<open>full\<close> and \<open>remove\<close> still hold, by their flags.\<close>

definition held :: "bool \<Rightarrow> postings \<Rightarrow> u64 set" where
  "held ok p = (if ok then avail p else {})"

context postings_contract
begin

lemma V_nextE:
  assumes "V p"
  obtains ok q where "NextD p (ok, q)" "same_shape p q" "if ok then V q else ended p q"
    "held ok q = avail p - {At p}"
proof -
  obtain q where q: "NextD p (avail p \<noteq> {At p}, q)" "same_shape p q"
      "if avail p = {At p} then ended p q else V q \<and> avail q = avail p - {At p}"
    using V_next[OF assms] unfolding next_ok_def by blast
  show thesis by (rule that[OF q(1,2)]) (use q(3) in \<open>auto simp: held_def split: if_splits\<close>)
qed

lemma V_seekE:
  assumes "V p" "seekable p" "0 < x \<or> 0 < At p" "unat x < B"
  obtains ok q where "SeekD p x (ok, q)" "same_shape p q" "if ok then V q else ended p q"
    "held ok q = {y \<in> avail p. x \<le> y}"
proof -
  obtain q where q: "SeekD p x (\<exists>y \<in> avail p. x \<le> y, q)" "same_shape p q"
      "if \<exists>y \<in> avail p. x \<le> y then V q \<and> avail q = {y \<in> avail p. x \<le> y} else ended p q"
    using V_seek[OF assms] unfolding seek_ok_def by blast
  show thesis by (rule that[OF q(1,2)]) (use q(3) in \<open>auto simp: held_def split: if_splits\<close>)
qed

lemma avail_removed: "avail (RemovedP f r c True fok rok) = insert c (held fok f - held rok r)"
  by (simp add: held_def)

lemma rnext_ok:
  assumes "if fok then V f \<and> 0 < At f else Err f = None"
    and "if rok then V r \<and> 0 < At r else dead r lo" and "sticky r" "seekable r" and "\<forall>y \<in> held fok f. lo \<le> y"
  shows "\<exists>ok q. rnextD f r cur fok rok (ok, q) \<and> (seekable f \<and> sticky f \<longrightarrow> seekable q) \<and> \<not> sticky q
    \<and> (if ok then valid_removed B V q \<and> avail q = held fok f - held rok r else Err q = None \<and> held fok f - held rok r = {})"
  using assms
proof (induction "card (held fok f) + card (held rok r)" arbitrary: f r fok rok lo rule: less_induct)
  case less
  show ?case
  proof (cases fok)
    case False
    have "Err r = None" using less.prems(2) V_Err dead_Err by (auto split: if_splits)
    then show ?thesis using rnextD_end[of f r cur rok] False less.prems
      by (intro exI[of _ False] exI[of _ "RemovedP f r cur True False rok"]) (simp add: held_def)
  next
    case fok: True
    then have f: "V f" "0 < At f" using less.prems(1) by auto
    have atf: "At f \<in> avail f" "\<And>y. y \<in> avail f \<Longrightarrow> At f \<le> y" "unat (At f) < B"
      using V_At[OF f(1)] V_least[OF f(1)] V_bound[OF f(1) V_At[OF f(1)]] by auto
    have hf: "held fok f = avail f" using fok by (simp add: held_def)
    obtain ok f' where f': "NextD f (ok, f')" "same_shape f f'" "if ok then V f' else ended f f'"
        "held ok f' = avail f - {At f}" by (rule V_nextE[OF f(1)])
    have above: "At f < At f'" if ok
    proof -
      have "At f' \<in> avail f - {At f}" using f'(3,4) that V_At[of f'] by (simp add: held_def)
      then show ?thesis using atf(2)[of "At f'"] by auto
    qed
    consider (take) "\<not> rok \<or> At f < At r" | (seek) rok "At r < At f" | (skip) rok "At r = At f" by fastforce
    then show ?thesis
    proof cases
      case take
      let ?q = "RemovedP f' r (At f) True ok rok"
      have notin: "At f \<notin> held rok r"
      proof (cases rok)
        case True
        then have "V r" "At f < At r" using less.prems(2) take by auto
        then show ?thesis using V_least[of r "At f"] True by (auto simp: held_def)
      qed (simp add: held_def)
      have "dead r (At f)" if "\<not> rok"
      proof -
        have "dead r lo" "lo \<le> At f" using less.prems(2,5) that hf atf(1) by auto
        then show ?thesis by (rule dead_mono)
      qed
      then have rr: "if rok then V r \<and> 0 < At r else dead r (At f)" using less.prems(2) by argo
      have ff: "if ok then V f' \<and> At f < At f' else Err f' = None \<and> (sticky f' \<longrightarrow> dead f' (At f))"
        using f'(2,3) above unfolding ended_def same_shape_def by argo
      have "valid_removed B V ?q"
        by (rule valid_removedI[OF less.prems(3,4) f(2) atf(3) ff rr])
      moreover have "avail ?q = held fok f - held rok r"
        unfolding avail_removed f'(4) hf using notin atf(1) by blast
      moreover have "rnextD f r cur fok rok (True, ?q)" using rnextD_take[OF take f'(1)] fok by simp
      moreover have "seekable f \<and> sticky f \<longrightarrow> seekable ?q" using f'(2) less.prems(4) by (simp add: same_shape_def)
      ultimately show ?thesis
        by (intro exI[of _ True] exI[of _ ?q]) (simp del: avail.simps)
    next
      case seek
      then have r: "V r" "0 < At r" using less.prems(2) by auto
      obtain ok' r' where r': "SeekD r (At f) (ok', r')" "same_shape r r'" "if ok' then V r' else ended r r'"
          "held ok' r' = {y \<in> avail r. At f \<le> y}" by (rule V_seekE[OF r(1) less.prems(4) _ atf(3)]) (use r(2) in simp)
      have hr: "held rok r = avail r" using seek(1) by (simp add: held_def)
      have "0 < At r'" if ok'
      proof -
        have "At r' \<in> held ok' r'" using that r'(3) V_At[of r'] by (simp add: held_def)
        then show ?thesis using f(2) unfolding r'(4) by auto
      qed
      moreover have "dead r' (At f)" if "\<not> ok'"
        using that r'(3) less.prems(3) seek(2) dead_mono[of r' "At r" "At f"] by (simp add: ended_def)
      ultimately have c2: "if ok' then V r' \<and> 0 < At r' else dead r' (At f)" using r'(3) by argo
      have "held ok' r' \<subset> held rok r" unfolding r'(4) hr using V_At[OF r(1)] seek(2)[folded not_le] by blast
      then have "card (held ok' r') < card (held rok r)" by (intro psubset_card_mono) auto
      then have small: "card (held fok f) + card (held ok' r') < card (held fok f) + card (held rok r)" by simp
      have diff: "held fok f - held ok' r' = held fok f - held rok r"
        unfolding r'(4) hr hf using atf(2) by blast
      have sh: "sticky r'" "seekable r'" using r'(2) less.prems(3,4) by (auto simp: same_shape_def)
      have lo: "\<forall>y \<in> held fok f. At f \<le> y" unfolding hf using atf(2) by simp
      obtain b q where q: "rnextD f r' cur fok ok' (b, q)" "seekable f \<and> sticky f \<longrightarrow> seekable q" "\<not> sticky q"
          "if b then valid_removed B V q \<and> avail q = held fok f - held rok r else Err q = None \<and> held fok f - held rok r = {}"
        using less.hyps[OF small less.prems(1) c2 sh lo] unfolding diff by blast
      then show ?thesis using rnextD_seek[OF seek(2) r'(1)] fok seek(1) by (simp only:) blast
    next
      case skip
      have "At f \<in> held rok r" using V_At[of r] skip less.prems(2) by (auto simp: held_def)
      then have diff: "held ok f' - held rok r = held fok f - held rok r" unfolding f'(4) hf by blast
      have "held ok f' \<subset> held fok f" unfolding f'(4) hf using atf(1) by blast
      then have "card (held ok f') < card (held fok f)" by (intro psubset_card_mono) auto
      then have small: "card (held ok f') + card (held rok r) < card (held fok f) + card (held rok r)" by simp
      have c1: "if ok then V f' \<and> 0 < At f' else Err f' = None"
        using f'(3) pos_of_less[OF above] unfolding ended_def by argo
      have lo: "\<forall>y \<in> held ok f'. lo \<le> y" using less.prems(5) unfolding f'(4) hf by blast
      obtain b q where "rnextD f' r cur ok rok (b, q)" "seekable f' \<and> sticky f' \<longrightarrow> seekable q" "\<not> sticky q"
          "if b then valid_removed B V q \<and> avail q = held fok f - held rok r else Err q = None \<and> held fok f - held rok r = {}"
        using less.hyps[OF small c1 less.prems(2-4) lo] unfolding diff by blast
      moreover have "seekable f \<and> sticky f \<longrightarrow> seekable f' \<and> sticky f'" using f'(2) by (simp add: same_shape_def)
      ultimately show ?thesis using rnextD_skip[OF skip(2) f'(1)] fok skip(1) by (simp only:) blast
    qed
  qed
qed


lemma removed_At:
  assumes "valid_removed B V p"
  shows "At p \<in> avail p" and "y \<in> avail p \<Longrightarrow> At p \<le> y" and "y \<in> avail p \<Longrightarrow> unat y < B" and "Err p = None"
proof -
  obtain f r c ini fok rok where p: "p = RemovedP f r c ini fok rok" "sticky r" "seekable r"
    and st: "if ini then 0 < c \<and> unat c < B
        \<and> (if fok then V f \<and> c < At f else Err f = None \<and> (sticky f \<longrightarrow> dead f c))
        \<and> (if rok then V r \<and> 0 < At r else dead r c)
      else V f \<and> V r \<and> At f = 0 \<and> At r = 0 \<and> c = 0"
    using assms unfolding valid_removed_def by blast
  show "At p \<in> avail p" using p(1) by simp
  have zero: "V q \<Longrightarrow> At q = 0 \<Longrightarrow> 0 < B" for q using V_bound[OF _ V_At, of q] by auto
  have "c \<le> y \<and> unat y < B" if "y \<in> avail p"
  proof (cases "y = c")
    case True
    then show ?thesis using st zero by (auto split: if_splits)
  next
    case False
    then have "y \<in> avail f" "V f" "c \<le> At f" using that p(1) st by (auto split: if_splits)
    then show ?thesis using V_least[of f y] V_bound[of f y] by auto
  qed
  then show "y \<in> avail p \<Longrightarrow> At p \<le> y" "y \<in> avail p \<Longrightarrow> unat y < B" using p(1) by auto
  show "Err p = None" using p(1) st V_Err dead_Err by (auto split: if_splits)
qed

lemma removed_next_ok:
  assumes "valid_removed B V p"
  shows "next_ok (valid_removed B V) p"
proof -
  obtain f r c ini fok rok where p: "p = RemovedP f r c ini fok rok" "sticky r" "seekable r"
    and st: "if ini then 0 < c \<and> unat c < B
        \<and> (if fok then V f \<and> c < At f else Err f = None \<and> (sticky f \<longrightarrow> dead f c))
        \<and> (if rok then V r \<and> 0 < At r else dead r c)
      else V f \<and> V r \<and> At f = 0 \<and> At r = 0 \<and> c = 0"
    using assms unfolding valid_removed_def by blast
  have fin: "next_ok (valid_removed B V) p"
    if "NextD p (ok, q)" "seekable f \<and> sticky f \<longrightarrow> seekable q" "\<not> sticky q"
      "if ok then valid_removed B V q \<and> avail q = avail p - {At p} else Err q = None \<and> avail p - {At p} = {}" for ok q
  proof -
    have ok: "ok \<longleftrightarrow> avail p \<noteq> {At p}"
      using that(4) removed_At(1)[OF assms] removed_At(1)[of q] by (auto split: if_splits)
    show ?thesis unfolding next_ok_def
      by (rule exI[of _ q]) (use that ok p in \<open>simp add: same_shape_def ended_def split: if_splits\<close>)
  qed
  show ?thesis
  proof (cases ini)
    case True
    then have c: "0 < c" "if fok then V f \<and> c < At f else Err f = None \<and> (sticky f \<longrightarrow> dead f c)"
      and rr: "if rok then V r \<and> 0 < At r else dead r c" using st by auto
    have ff: "if fok then V f \<and> 0 < At f else Err f = None" using c pos_of_less[of c "At f"] by argo
    have above: "\<forall>y \<in> held fok f. c < y" using c V_least[of f] by (auto simp: held_def intro: less_le_trans)
    then have lo: "\<forall>y \<in> held fok f. c \<le> y" by auto
    obtain ok q where q: "rnextD f r c fok rok (ok, q)" "seekable f \<and> sticky f \<longrightarrow> seekable q" "\<not> sticky q"
      "if ok then valid_removed B V q \<and> avail q = held fok f - held rok r else Err q = None \<and> held fok f - held rok r = {}"
      using rnext_ok[OF ff rr p(2,3) lo] by blast
    have "avail p - {At p} = held fok f - held rok r"
      using True above unfolding p(1) by (auto simp: avail_removed simp del: avail.simps)
    then show ?thesis using fin[of ok q] NextD_removed[OF q(1)] q(2-4) True p(1) by simp
  next
    case False
    then have z: "V f" "V r" "At f = 0" "At r = 0" "c = 0" using st by auto
    obtain okf f' where f': "NextD f (okf, f')" "same_shape f f'" "if okf then V f' else ended f f'"
        "held okf f' = avail f - {At f}" by (rule V_nextE[OF z(1)])
    obtain okr r' where r': "NextD r (okr, r')" "same_shape r r'" "if okr then V r' else ended r r'"
        "held okr r' = avail r - {At r}" by (rule V_nextE[OF z(2)])
    have pos: "0 < At q'" if "V q'" "At q' \<in> avail q' - {0}" for q' using that by (auto simp: word_gt_0)
    have ff: "if okf then V f' \<and> 0 < At f' else Err f' = None"
      using f'(3,4) V_At[of f'] z(3) by (auto simp: held_def ended_def word_gt_0 split: if_splits)
    have rr: "if okr then V r' \<and> 0 < At r' else dead r' 0"
      using r'(3,4) V_At[of r'] z(4) p(2) by (auto simp: held_def ended_def word_gt_0 split: if_splits)
    have sr: "sticky r'" "seekable r'" and lo: "\<forall>y \<in> held okf f'. 0 \<le> y"
      using r'(2) p(2,3) by (auto simp: same_shape_def)
    obtain ok q where q: "rnextD f' r' c okf okr (ok, q)" "seekable f' \<and> sticky f' \<longrightarrow> seekable q" "\<not> sticky q"
      "if ok then valid_removed B V q \<and> avail q = held okf f' - held okr r' else Err q = None \<and> held okf f' - held okr r' = {}"
      using rnext_ok[OF ff rr sr lo] by blast
    have "avail p - {At p} = held okf f' - held okr r'"
      unfolding f'(4) r'(4) using False z p(1) by auto
    then show ?thesis using fin[of ok q] NextD_removed_init[OF f'(1) r'(1) q(1)] q(2-4) f'(2) False p(1)
      by (simp add: same_shape_def)
  qed
qed

text \<open>Seeking in a part that may have ended.\<close>

lemma held_seekE:
  assumes "if ok then V p \<and> seekable p else dead p m \<and> m < x" "0 < x" "unat x < B"
  obtains ok' q where "SeekD p x (ok', q)" "same_shape p q"
    "if ok' then V q \<and> 0 < At q else Err q = None \<and> (sticky p \<longrightarrow> (\<exists>m' < x. dead q m'))"
    "held ok' q = {y \<in> held ok p. x \<le> y}"
proof (cases ok)
  case True
  then have p: "V p" "seekable p" using assms(1) by auto
  obtain ok' q where q: "SeekD p x (ok', q)" "same_shape p q" "if ok' then V q else ended p q"
    "held ok' q = {y \<in> avail p. x \<le> y}" by (rule V_seekE[OF p _ assms(3)]) (use assms(2) in simp)
  have h: "held ok' q = {y \<in> held ok p. x \<le> y}" using q(4) True by (simp add: held_def)
  have "0 < At q" if ok'
  proof -
    have "x \<le> At q" using that q(3,4) V_At[of q] by (auto simp: held_def)
    then show ?thesis using assms(2) by (meson less_le_trans)
  qed
  moreover have "Err q = None \<and> (sticky p \<longrightarrow> (\<exists>m' < x. dead q m'))" if "\<not> ok'"
  proof -
    have "At p \<notin> {y \<in> avail p. x \<le> y}" using q(4) that by (simp add: held_def)
    then have "At p < x" using V_At[OF p(1)] by auto
    then show ?thesis using q(3) that by (auto simp: ended_def)
  qed
  ultimately show thesis using that[OF q(1,2) _ h] q(3) by argo
next
  case False
  then obtain q where "SeekD p x (False, q)" "same_shape p q" "dead q m" "Err q = None"
    using dead_seek[of p m x] assms(1) by auto
  then show thesis using that[of False q] False assms(1) by (auto simp: held_def)
qed

lemma removed_seek_ok:
  assumes "valid_removed B V p" and "seekable p" and "0 < x \<or> 0 < At p" and x: "unat x < B"
  shows "seek_ok (valid_removed B V) p x"
proof -
  obtain f r c ini fok rok where p: "p = RemovedP f r c ini fok rok" "sticky r" "seekable r"
    and st: "if ini then 0 < c \<and> unat c < B
        \<and> (if fok then V f \<and> c < At f else Err f = None \<and> (sticky f \<longrightarrow> dead f c))
        \<and> (if rok then V r \<and> 0 < At r else dead r c)
      else V f \<and> V r \<and> At f = 0 \<and> At r = 0 \<and> c = 0"
    using assms(1) unfolding valid_removed_def by blast
  have sf: "sticky f" "seekable f" using assms(2) p(1) by auto
  show ?thesis
  proof (cases "x \<le> c")
    case True
    have "{y \<in> avail p. x \<le> y} = avail p" using removed_At(2)[OF assms(1)] True p(1) by fastforce
    moreover have "(\<exists>y \<in> avail p. x \<le> y) \<longleftrightarrow> True" using removed_At(1)[OF assms(1)] True p(1) by auto
    ultimately show ?thesis using SeekD_removed_stay[OF True, of f r ini fok rok] assms(1) p(1)
      unfolding seek_ok_def by (auto simp: same_shape_def)
  next
    case False
    then have cx: "c < x" "0 < x" using pos_of_less[of c x] by auto
    let ?fok = "ini \<longrightarrow> fok" and ?rok = "ini \<longrightarrow> rok"
    obtain okf f' where f': "SeekD f x (okf, f')" "same_shape f f'"
       "if okf then V f' \<and> 0 < At f' else Err f' = None \<and> (sticky f \<longrightarrow> (\<exists>m' < x. dead f' m'))"
       "held okf f' = {y \<in> held ?fok f. x \<le> y}"
      by (rule held_seekE[of ?fok f c x]) (use st sf cx x in \<open>auto split: if_splits\<close>)
    obtain okr r' where r': "SeekD r x (okr, r')" "same_shape r r'"
       "if okr then V r' \<and> 0 < At r' else Err r' = None \<and> (sticky r \<longrightarrow> (\<exists>m' < x. dead r' m'))"
       "held okr r' = {y \<in> held ?rok r. x \<le> y}"
      by (rule held_seekE[of ?rok r c x]) (use st p(3) cx x in \<open>auto split: if_splits\<close>)
    have ff: "if okf then V f' \<and> 0 < At f' else Err f' = None" using f'(3) by argo
    have rr: "if okr then V r' \<and> 0 < At r' else dead r' x"
      using r'(3) p(2) dead_mono[of r' _ x] by (metis order_less_imp_le)
    have lo: "\<forall>y \<in> held okf f'. x \<le> y" unfolding f'(4) by blast
    have sr: "sticky r'" "seekable r'" using r'(2) p(2,3) by (auto simp: same_shape_def)
    obtain ok q where q: "rnextD f' r' c okf okr (ok, q)" "seekable f' \<and> sticky f' \<longrightarrow> seekable q" "\<not> sticky q"
      "if ok then valid_removed B V q \<and> avail q = held okf f' - held okr r' else Err q = None \<and> held okf f' - held okr r' = {}"
      using rnext_ok[OF ff rr sr lo] by blast
    have T: "held okf f' - held okr r' = {y \<in> avail p. x \<le> y}"
      unfolding f'(4) r'(4) p(1) using cx(1)[folded not_le] by (auto simp: held_def split: if_splits)
    have ok: "(\<exists>y \<in> avail p. x \<le> y) \<longleftrightarrow> ok"
      using q(4) removed_At(1)[of q] unfolding T by (auto split: if_splits)
    have "SeekD p x (ok, q)" using SeekD_removed[OF cx(1) f'(1) r'(1) q(1)] p(1) by simp
    then show ?thesis using q(2-4) sf f'(2) p(1) unfolding seek_ok_def ok T
      by (intro exI[of _ q]) (auto simp: same_shape_def ended_def split: if_splits)
  qed
qed

end


subsection \<open>All nestings\<close>

text \<open>The valid iterators of nesting depth at most \<open>k\<close>.\<close>

fun valid :: "nat \<Rightarrow> nat \<Rightarrow> postings \<Rightarrow> bool" where
  "valid B 0 p = leaf B p"
| "valid B (Suc k) p \<longleftrightarrow>
     leaf B p \<or> valid_inter (valid B k) p \<or> valid_merged (valid B k) p \<or> valid_removed B (valid B k) p"

lemma next_ok_mono: "next_ok V p \<Longrightarrow> (\<And>q. V q \<Longrightarrow> W q) \<Longrightarrow> next_ok W p"
  unfolding next_ok_def by (erule exE) (rule exI, auto split: if_splits)

lemma seek_ok_mono: "seek_ok V p x \<Longrightarrow> (\<And>q. V q \<Longrightarrow> W q) \<Longrightarrow> seek_ok W p x"
  unfolding seek_ok_def by (erule exE) (rule exI, auto split: if_splits)

lemma valid_removed_mono:
  assumes "valid_removed B V p" and "\<And>q. V q \<Longrightarrow> W q"
  shows "valid_removed B W p"
proof -
  obtain f r c ini fok rok where p: "p = RemovedP f r c ini fok rok" "sticky r" "seekable r"
    and st: "if ini then 0 < c \<and> unat c < B
        \<and> (if fok then V f \<and> c < At f else Err f = None \<and> (sticky f \<longrightarrow> dead f c))
        \<and> (if rok then V r \<and> 0 < At r else dead r c)
      else V f \<and> V r \<and> At f = 0 \<and> At r = 0 \<and> c = 0"
    using assms(1) unfolding valid_removed_def by blast
  have mono: "V f \<longrightarrow> W f" "V r \<longrightarrow> W r" using assms(2) by auto
  have "if ini then 0 < c \<and> unat c < B
        \<and> (if fok then W f \<and> c < At f else Err f = None \<and> (sticky f \<longrightarrow> dead f c))
        \<and> (if rok then W r \<and> 0 < At r else dead r c)
      else W f \<and> W r \<and> At f = 0 \<and> At r = 0 \<and> c = 0"
    using st mono by (simp split: if_splits)
  then show ?thesis using p unfolding valid_removed_def by blast
qed

lemma valid_contract: "postings_contract B (valid B k)"
proof (induction k)
  case 0
  have "valid B 0 = leaf B" by (simp add: fun_eq_iff)
  then show ?case using leaf_contract by simp
next
  case (Suc k)
  let ?V = "valid B k"
  note inner = postings_contract.inter_At[OF Suc] postings_contract.merged_At[OF Suc]
    postings_contract.removed_At[OF Suc]
  note lf = leaf_contract[of B, unfolded postings_contract_def]
  note nx = postings_contract.inter_next_ok[OF Suc] postings_contract.merged_next_ok[OF Suc]
    postings_contract.removed_next_ok[OF Suc]
  note sk = postings_contract.inter_seek_ok[OF Suc] postings_contract.merged_seek_ok[OF Suc]
    postings_contract.removed_seek_ok[OF Suc]
  show ?case
  proof
    fix p and x y :: u64
    assume v: "valid B (Suc k) p"
    then consider (l) "leaf B p" | (i) "valid_inter ?V p" | (m) "valid_merged ?V p" | (r) "valid_removed B ?V p" by auto
    note cs = this
    show "At p \<in> avail p" using cs by cases (use lf inner in auto)
    show "Err p = None" using cs by cases (use lf inner in auto)
    show "next_ok (valid B (Suc k)) p" using cs
      by cases (use lf nx in \<open>auto intro!: next_ok_mono[of _ p "valid B (Suc k)"]\<close>)
    show "y \<in> avail p \<Longrightarrow> At p \<le> y" using cs by cases (use lf inner in auto)
    show "y \<in> avail p \<Longrightarrow> unat y < B" using cs by cases (use lf inner in auto)
    show "seek_ok (valid B (Suc k)) p x" if "seekable p" "0 < x \<or> 0 < At p" "unat x < B" using cs
    proof cases
      case l
      then have "seek_ok (leaf B) p x" using lf that by blast
      then show ?thesis by (rule seek_ok_mono) simp
    next
      case i
      show ?thesis by (rule seek_ok_mono[OF sk(1)[OF i that(2,3)]]) simp
    next
      case m
      show ?thesis by (rule seek_ok_mono[OF sk(2)[OF m that(2,3)]]) simp
    next
      case r
      show ?thesis by (rule seek_ok_mono[OF sk(3)[OF r that]]) simp
    qed
  qed
qed

interpretation post: postings_contract B "valid B k" for B k
  by (rule valid_contract)

lemma valid_Suc: "valid B k p \<Longrightarrow> valid B (Suc k) p"
proof (induction k arbitrary: p)
  case (Suc k)
  have "valid_inter (valid B k) p \<Longrightarrow> valid_inter (valid B (Suc k)) p"
    "valid_merged (valid B k) p \<Longrightarrow> valid_merged (valid B (Suc k)) p"
    using Suc.IH unfolding valid_inter_def valid_merged_def by blast+
  moreover have "valid_removed B (valid B k) p \<Longrightarrow> valid_removed B (valid B (Suc k)) p"
    by (erule valid_removed_mono) (rule Suc.IH)
  ultimately show ?case using Suc.prems unfolding valid.simps by blast
qed simp

lemma valid_mono: "k \<le> m \<Longrightarrow> valid B k p \<Longrightarrow> valid B m p"
  by (induction m) (auto simp: le_Suc_eq simp del: valid.simps intro: valid_Suc)


subsection \<open>The combinators at work\<close>

text \<open>An iterator before its first \<open>Next\<close>, over positive references below \<open>B\<close>.\<close>

definition fresh :: "nat \<Rightarrow> nat \<Rightarrow> postings \<Rightarrow> bool" where
  "fresh B k p \<longleftrightarrow> valid B k p \<and> At p = 0"

definition elems :: "postings \<Rightarrow> u64 set" where
  "elems p = avail p - {At p}"

lemma expand_run:
  assumes "valid B k p"
  shows "fuelled (\<lambda>n. expand_loop (pNext n) n p res) (res @ sorted_list_of_set (elems p), None)"
  using assms
proof (induction "card (avail p)" arbitrary: p res rule: less_induct)
  case less
  obtain ok q where q: "NextD p (ok, q)" "same_shape p q" "if ok then valid B k q else ended p q"
      "held ok q = avail p - {At p}" by (rule post.V_nextE[OF less.prems])
  have nx: "fuelled (\<lambda>n. pNext (Suc n) p) (ok, q)"
    using q(1) unfolding NextD_fuelled by (rule fuelled_up) (rule more_nextD[OF fuel_step_next])
  have rest: "fuelled (\<lambda>n. if ok then expand_loop (pNext (Suc n)) n q (res @ [At q]) else Some (res, Err q))
      (res @ sorted_list_of_set (elems p), None)"
  proof (cases ok)
    case True
    have v: "valid B k q" "avail q = elems p" using q(3,4) True by (auto simp: held_def elems_def)
    have at: "At q \<in> avail q" "\<And>y. y \<in> avail q \<Longrightarrow> At q \<le> y" using post.V_At post.V_least v(1) by blast+
    have "card (avail q) < card (avail p)"
      using v(2) post.V_At[OF less.prems] by (intro psubset_card_mono) (auto simp: elems_def)
    from less.hyps[OF this v(1), of "res @ [At q]"]
    have "fuelled (\<lambda>n. expand_loop (pNext n) n q (res @ [At q])) (res @ At q # sorted_list_of_set (elems q), None)" by simp
    moreover have "At q # sorted_list_of_set (elems q) = sorted_list_of_set (elems p)"
    proof -
      have "Min (avail q) = At q" using at by (intro Min_eqI) auto
      moreover have "avail q \<noteq> {}" using at(1) by blast
      ultimately have "sorted_list_of_set (avail q) = At q # sorted_list_of_set (avail q - {At q})"
        using sorted_list_of_set_nonempty[of "avail q"] by simp
      then show ?thesis by (simp only: v(2)[symmetric] elems_def[of q])
    qed
    ultimately have "fuelled (\<lambda>n. expand_loop (pNext n) n q (res @ [At q])) (res @ sorted_list_of_set (elems p), None)" by simp
    then have "fuelled (\<lambda>n. expand_loop (pNext (Suc n)) n q (res @ [At q])) (res @ sorted_list_of_set (elems p), None)"
      by (rule fuelled_up) (rule expand_loop_mono[OF fuel_step_next order_refl])
    then show ?thesis using True by simp
  next
    case False
    then have "elems p = {}" "Err q = None" using q(3,4) by (auto simp: held_def elems_def ended_def)
    then show ?thesis using False by (simp add: fuelled_const)
  qed
  have "fuelled (\<lambda>n. pNext (Suc n) p \<bind> (\<lambda>(ok, p). if ok then expand_loop (pNext (Suc n)) n p (res @ [At p]) else Some (res, Err p)))
     (res @ sorted_list_of_set (elems p), None)"
    by (rule fuelled_bind[OF nx]) (use rest in simp)
  then show ?case by - (rule fuelled_Suc, simp)
qed

text \<open>Full expansion lists the elements in increasing order, without error.\<close>

lemma expand_valid:
  assumes "valid B k p"
  shows "\<exists>n. ExpandPostings n p = Some (sorted_list_of_set (elems p), None)"
  using expand_run[OF assms, of "[]"] unfolding ExpandPostings_def fuelled_def by auto

lemma fresh_slice: "leaf B (SliceP l 0) \<Longrightarrow> fresh B k (SliceP l 0)"
  by (cases k) (auto simp: fresh_def simp del: leaf.simps)

lemma elems_slice: "leaf B (SliceP l 0) \<Longrightarrow> elems (SliceP l 0) = set l"
  by (auto simp: elems_def)

lemma EmptyPostings_fresh: "0 < B \<Longrightarrow> fresh B k EmptyPostings \<and> elems EmptyPostings = {}"
  by (cases k) (auto simp: fresh_def EmptyPostings_def elems_def)

lemma Intersect_fresh:
  assumes "its \<noteq> []" and "\<forall>p \<in> set its. fresh B k p \<and> seekable p"
  shows "fresh B (Suc k) (Intersect its) \<and> elems (Intersect its) = \<Inter> (elems ` set its)"
proof (cases "length its = 1")
  case True
  then obtain p where "its = [p]" by (auto simp: length_Suc_conv)
  then show ?thesis using assms valid_Suc by (auto simp: Intersect_def fresh_def simp del: valid.simps)
next
  case False
  have "valid_inter (valid B k) (IntersectP its 0)" using assms by (auto simp: valid_inter_def fresh_def)
  moreover have "\<Inter> (avail ` set its) - {0} = \<Inter> (elems ` set its)"
    using assms by (cases its) (auto simp: elems_def fresh_def)
  ultimately show ?thesis using False assms(1)
    by (simp add: Intersect_def fresh_def elems_def same_pointer_as_fresh_def)
qed

lemma Without_fresh:
  assumes "fresh B k full" and "fresh B k drp" and "sticky drp" "seekable drp"
  shows "fresh B (Suc k) (Without full drp) \<and> elems (Without full drp) = elems full - elems drp"
proof -
  have "valid_removed B (valid B k) (RemovedP full drp 0 False False False)"
    using assms by (auto simp: valid_removed_def fresh_def)
  moreover have "insert 0 (avail full - avail drp) - {0} = elems full - elems drp"
    using assms by (auto simp: elems_def fresh_def)
  ultimately show ?thesis using assms
    by (simp add: Without_def fresh_def elems_def same_pointer_as_fresh_def)
qed

end
