(* ===== verification/Postings_Sets.thy ===== *)
theory Postings_Sets
  imports Postings_Contract
begin

section \<open>Postings as sets\<close>

text \<open>
  The results on \<open>Intersect\<close>, \<open>Merge\<close>, \<open>Without\<close> and \<open>NewShardedPostings\<close>, read off the
  contract: fully expanded, they are the sorted lists of the intersection, the union, the
  difference and the shard's range of their inputs.
\<close>

subsection \<open>Merge\<close>

lemma newMerged_run:
  assumes "\<forall>p \<in> set its. fresh B k p \<and> seekable p" and "\<forall>q \<in> set ph. valid B k q \<and> seekable q \<and> 0 < At q"
  shows "\<exists>h. fuelled (\<lambda>n. newMergedPostings (pNext n) ph its) (if h = [] then None else Some (MergedP h False 0 None))
    \<and> (\<forall>q \<in> set h. valid B k q \<and> seekable q \<and> 0 < At q) \<and> united h = united ph \<union> \<Union> (elems ` set its)"
  using assms
proof (induction its arbitrary: ph)
  case Nil
  then show ?case by (intro exI[of _ ph]) (simp add: fuelled_const)
next
  case (Cons p its)
  have p: "valid B k p" "At p = 0" "seekable p" using Cons.prems(1) by (auto simp: fresh_def)
  obtain ok q where q: "NextD p (ok, q)" "same_shape p q" "if ok then valid B k q else ended p q"
      "held ok q = avail p - {At p}" by (rule post.V_nextE[OF p(1)])
  have "0 < At q" if ok
  proof -
    have "At q \<in> held ok q" using that q(3) post.V_At by (auto simp: held_def)
    then show ?thesis unfolding q(4) using p(2) by (auto simp: word_gt_0)
  qed
  then have good: "\<forall>r \<in> set (if ok then ph @ [q] else ph). valid B k r \<and> seekable r \<and> 0 < At r"
    using Cons.prems(2) q(2,3) p(3) by (auto simp: same_shape_def)
  obtain h where h: "fuelled (\<lambda>n. newMergedPostings (pNext n) (if ok then ph @ [q] else ph) its)
       (if h = [] then None else Some (MergedP h False 0 None))"
      "\<forall>q \<in> set h. valid B k q \<and> seekable q \<and> 0 < At q"
      "united h = united (if ok then ph @ [q] else ph) \<union> \<Union> (elems ` set its)"
    using Cons.IH[OF _ good] Cons.prems(1) by auto
  have "united (if ok then ph @ [q] else ph) = united ph \<union> elems p"
    using q(4) by (auto simp: united_def elems_def held_def split: if_splits)
  then have un: "united h = united ph \<union> \<Union> (elems ` set (p # its))" using h(3) by auto
  have err: "\<not> ok \<Longrightarrow> Err q = None" using q(3) by (simp add: ended_def)
  have "fuelled (\<lambda>n. newMergedPostings (pNext n) ph (p # its)) (if h = [] then None else Some (MergedP h False 0 None))"
    unfolding newMergedPostings.simps
    by (rule fuelled_bind[OF q(1)[unfolded NextD_fuelled]]) (use h(1) err in \<open>cases ok; simp\<close>)
  then show ?case using h(2) un by blast
qed

lemma Merge_fresh:
  assumes "\<forall>p \<in> set its. fresh B k p \<and> seekable p \<and> sticky p" and "0 < B"
  shows "\<exists>p. fuelled (\<lambda>n. Merge n its) p \<and> fresh B (Suc k) p \<and> seekable p \<and> sticky p \<and> elems p = \<Union> (elems ` set its)"
proof (cases "length its \<le> 1")
  case True
  then consider "its = []" | p where "its = [p]" by (cases its) auto
  then show ?thesis
  proof cases
    case 1
    then show ?thesis using EmptyPostings_fresh[OF assms(2), of "Suc k"]
      by (intro exI[of _ EmptyPostings]) (auto simp: Merge_def fuelled_const EmptyPostings_def)
  next
    case (2 p)
    then show ?thesis using assms valid_Suc
      by (intro exI[of _ p]) (auto simp: Merge_def fuelled_const fresh_def simp del: valid.simps)
  qed
next
  case False
  obtain h where h: "fuelled (\<lambda>n. newMergedPostings (pNext n) [] its) (if h = [] then None else Some (MergedP h False 0 None))"
    "\<forall>q \<in> set h. valid B k q \<and> seekable q \<and> 0 < At q" "united h = \<Union> (elems ` set its)"
    using newMerged_run[of its B k "[]"] assms by (auto simp: united_def)
  let ?p = "if h = [] then EmptyPostings else MergedP h False 0 None"
  have "fuelled (\<lambda>n. newMergedPostings (pNext n) [] its \<bind> (\<lambda>r. Some (case r of None \<Rightarrow> EmptyPostings | Some p \<Rightarrow> p))) ?p"
    by (rule fuelled_bind[OF h(1)]) (simp add: fuelled_const)
  moreover have "its \<noteq> []" "length its \<noteq> 1" using False by auto
  ultimately have run: "fuelled (\<lambda>n. Merge n its) ?p" by (simp only: Merge_def if_False)
  show ?thesis
  proof (cases "h = []")
    case True
    then show ?thesis using run EmptyPostings_fresh[OF assms(2), of "Suc k"] h(3)
      by (intro exI[of _ EmptyPostings]) (auto simp: EmptyPostings_def united_def)
  next
    case F: False
    have "valid_merged (valid B k) (MergedP h False 0 None)" using h(2) F by (auto simp: valid_merged_def)
    moreover have "0 \<notin> united h" using h(2) post.V_least by (fastforce simp: united_def)
    ultimately show ?thesis using run F h(3)
      by (intro exI[of _ "MergedP h False 0 None"]) (auto simp: fresh_def elems_def post.avail_merged simp del: avail.simps)
  qed
qed

text \<open>One fuel for a merge and for the expansion of its result.\<close>

lemma fuelled_Merge_expand:
  assumes "fuelled (\<lambda>n. Merge n its) p" and "valid B k p"
  shows "\<exists>n. (do { p \<leftarrow> Merge n its; ExpandPostings n p }) = Some (sorted_list_of_set (elems p), None)"
proof -
  have "fuelled (\<lambda>n. ExpandPostings n p) (sorted_list_of_set (elems p), None)"
    using expand_run[OF assms(2), of "[]"] unfolding ExpandPostings_def by simp
  from fuelled_both[OF assms(1) this] obtain n where
    "Merge n its = Some p" "ExpandPostings n p = Some (sorted_list_of_set (elems p), None)" by blast
  then show ?thesis by (intro exI[of _ n]) simp
qed

subsection \<open>Sharded postings\<close>

lemma NextD_sharded:
  assumes "NextD p (ok, q)"
  shows "NextD (ShardedP p mn mx True) (ok \<and> \<not> At q \<ge> mx, ShardedP q mn mx True)"
proof -
  have "fuelled (\<lambda>n. pNext n p \<bind> (\<lambda>(ok, p). Some (ok \<and> \<not> At p \<ge> mx, ShardedP p mn mx True)))
     (ok \<and> \<not> At q \<ge> mx, ShardedP q mn mx True)"
    using assms unfolding NextD_fuelled by (rule fuelled_bind) (simp add: fuelled_const)
  then show ?thesis unfolding NextD_fuelled by - (rule fuelled_Suc, simp add: pNext.simps)
qed

lemma SeekD_sharded:
  "SeekD (ShardedP p mn mx ini) x r \<longleftrightarrow>
     (if x \<ge> mx then r = (False, ShardedP p mn mx ini)
      else \<exists>ok q. SeekD p (if x < mn then mn else x) (ok, q) \<and> r = (ok, ShardedP q mn mx ini))"
proof -
  have step: "pSeek (Suc n) (ShardedP p mn mx ini) x =
     (if x \<ge> mx then Some (False, ShardedP p mn mx ini)
      else pSeek n p (if x < mn then mn else x) \<bind> (\<lambda>(ok, p). Some (ok, ShardedP p mn mx ini)))" for n
    by (simp add: pSeek.simps)
  have shift: "(\<exists>n. pSeek n (ShardedP p mn mx ini) x = Some r) \<longleftrightarrow> (\<exists>n. pSeek (Suc n) (ShardedP p mn mx ini) x = Some r)"
    by (metis not0_implies_Suc option.distinct(1) pSeek.simps(1))
  show ?thesis unfolding SeekD_def shift step by (auto simp: bind_eq_Some_conv)
qed

lemma NextD_sharded_init:
  assumes "NextD p (ok, q)" and "if ok then SeekD (ShardedP q mn mx True) 0 r else r = (False, ShardedP q mn mx True)"
  shows "NextD (ShardedP p mn mx False) r"
proof -
  have "fuelled (\<lambda>n. pNext n p \<bind> (\<lambda>(ok, p). if \<not> ok then Some (False, ShardedP p mn mx True)
        else pSeek n (ShardedP p mn mx True) 0)) r"
    by (rule fuelled_bind[OF assms(1)[unfolded NextD_fuelled]])
      (use assms(2) in \<open>cases ok; simp add: fuelled_const SeekD_fuelled\<close>)
  then show ?thesis unfolding NextD_fuelled by - (rule fuelled_Suc, simp add: pNext.simps)
qed

lemma expand_step:
  assumes "NextD p (ok, q)"
    and "if ok then fuelled (\<lambda>n. expand_loop (pNext n) n q (res @ [At q])) r else r = (res, Err q)"
  shows "fuelled (\<lambda>n. expand_loop (pNext n) n p res) r"
proof -
  have nx: "fuelled (\<lambda>n. pNext (Suc n) p) (ok, q)"
    using assms(1) unfolding NextD_fuelled by (rule fuelled_up) (rule more_nextD[OF fuel_step_next])
  have "fuelled (\<lambda>n. expand_loop (pNext (Suc n)) n q (res @ [At q])) r" if ok
    by (rule fuelled_up[of "\<lambda>n. expand_loop (pNext n) n q (res @ [At q])"])
      (use assms(2) that in \<open>auto intro: expand_loop_mono[OF fuel_step_next order_refl]\<close>)
  then have "fuelled (\<lambda>n. pNext (Suc n) p \<bind> (\<lambda>(ok, p). if ok then expand_loop (pNext (Suc n)) n p (res @ [At p]) else Some (res, Err p))) r"
    by (intro fuelled_bind[OF nx]) (use assms(2) in \<open>cases ok; simp add: fuelled_const\<close>)
  then show ?thesis by - (rule fuelled_Suc, simp)
qed

lemma sorted_elems_Cons:
  assumes "valid B k q"
  shows "sorted_list_of_set (avail q) = At q # sorted_list_of_set (elems q)"
proof -
  have "Min (avail q) = At q" using post.V_At[OF assms] post.V_least[OF assms] by (intro Min_eqI) auto
  then show ?thesis using sorted_list_of_set_nonempty[of "avail q"] post.V_At[OF assms]
    by (metis elems_def empty_iff finite)
qed


text \<open>After its first element, a shard ends at the first reference that is not below its maximum.\<close>

lemma sharded_tail:
  assumes "valid B k p"
  shows "fuelled (\<lambda>n. expand_loop (pNext n) n (ShardedP p mn mx True) res)
    (res @ takeWhile (\<lambda>y. y < mx) (sorted_list_of_set (elems p)), None)"
  using assms
proof (induction "card (avail p)" arbitrary: p res rule: less_induct)
  case less
  obtain ok q where q: "NextD p (ok, q)" "same_shape p q" "if ok then valid B k q else ended p q"
      "held ok q = avail p - {At p}" by (rule post.V_nextE[OF less.prems])
  show ?case
  proof (rule expand_step[OF NextD_sharded[OF q(1)]], cases ok)
    case False
    then have "elems p = {}" "Err q = None" using q(3,4) by (auto simp: held_def elems_def ended_def)
    then show "if ok \<and> \<not> At q \<ge> mx then fuelled (\<lambda>n. expand_loop (pNext n) n (ShardedP q mn mx True) (res @ [At (ShardedP q mn mx True)]))
         (res @ takeWhile (\<lambda>y. y < mx) (sorted_list_of_set (elems p)), None)
       else (res @ takeWhile (\<lambda>y. y < mx) (sorted_list_of_set (elems p)), None) = (res, Err (ShardedP q mn mx True))"
      using False by simp
  next
    case True
    have v: "valid B k q" "avail q = elems p" using q(3,4) True by (auto simp: held_def elems_def)
    have "card (avail q) < card (avail p)"
      using v(2) post.V_At[OF less.prems] by (intro psubset_card_mono) (auto simp: elems_def)
    from less.hyps[OF this v(1), of "res @ [At q]"]
    have "fuelled (\<lambda>n. expand_loop (pNext n) n (ShardedP q mn mx True) (res @ [At q]))
        (res @ At q # takeWhile (\<lambda>y. y < mx) (sorted_list_of_set (elems q)), None)" by simp
    moreover have "Err q = None" using post.V_Err[OF v(1)] .
    moreover have "sorted_list_of_set (elems p) = At q # sorted_list_of_set (elems q)"
      using sorted_elems_Cons[OF v(1)] by (simp only: v(2))
    ultimately show "if ok \<and> \<not> At q \<ge> mx then fuelled (\<lambda>n. expand_loop (pNext n) n (ShardedP q mn mx True) (res @ [At (ShardedP q mn mx True)]))
         (res @ takeWhile (\<lambda>y. y < mx) (sorted_list_of_set (elems p)), None)
       else (res @ takeWhile (\<lambda>y. y < mx) (sorted_list_of_set (elems p)), None) = (res, Err (ShardedP q mn mx True))"
      using True by (simp add: not_le)
  qed
qed

definition shard_elems :: "u64 \<Rightarrow> u64 \<Rightarrow> u64 list \<Rightarrow> u64 list" where
  "shard_elems mn mx ys =
     (case filter (\<lambda>y. mn \<le> y) ys of
        [] \<Rightarrow> [] | z # zs \<Rightarrow> if mx = 0 then [] else z # takeWhile (\<lambda>y. y < mx) zs)"

lemma sorted_list_filter:
  "sorted_list_of_set {y \<in> A. P y} = filter P (sorted_list_of_set (A :: u64 set))"
  by (rule sorted_distinct_set_unique) (auto intro: sorted_filter[where f = "\<lambda>x. x", simplified])

lemma sharded_run:
  assumes f: "fresh B k p" and sk: "seekable p" and mn: "unat mn < B"
  shows "fuelled (\<lambda>n. expand_loop (pNext n) n (NewShardedPostings p mn mx) [])
    (shard_elems mn mx (sorted_list_of_set (elems p)), None)"
proof -
  have v: "valid B k p" "At p = 0" using f by (auto simp: fresh_def)
  obtain ok q where q: "NextD p (ok, q)" "same_shape p q" "if ok then valid B k q else ended p q"
      "held ok q = avail p - {At p}" by (rule post.V_nextE[OF v(1)])
  show ?thesis
  proof (cases "ok \<and> 0 < mx")
    case False
    have nx: "NextD (ShardedP p mn mx False) (False, ShardedP q mn mx True)"
      by (rule NextD_sharded_init[OF q(1)]) (use False in \<open>auto simp: SeekD_sharded word_gt_0\<close>)
    have "shard_elems mn mx (sorted_list_of_set (elems p)) = []"
    proof (cases ok)
      case False
      then have "elems p = {}" using q(4) by (simp add: held_def elems_def)
      then show ?thesis by (simp add: shard_elems_def)
    next
      case True
      then have "mx = 0" using False by (simp add: word_gt_0)
      then show ?thesis by (auto simp: shard_elems_def split: list.splits)
    qed
    moreover have "Err q = None" using q(3) post.V_Err by (auto simp: ended_def split: if_splits)
    ultimately show ?thesis unfolding NewShardedPostings_def
      by (intro expand_step[OF nx]) simp
  next
    case True
    then have w: "valid B k q" "avail q = elems p" "seekable q"
      using q sk by (auto simp: held_def elems_def same_shape_def)
    have pos: "0 < At q" using post.V_At[OF w(1)] w(2) v(2) by (auto simp: elems_def word_gt_0)
    let ?x = "if 0 < mn then mn else 0"
    have x: "?x = mn" by (auto simp: word_gt_0)
    obtain ok2 q2 where q2: "SeekD q ?x (ok2, q2)" "same_shape q q2" "if ok2 then valid B k q2 else ended q q2"
        "held ok2 q2 = {y \<in> avail q. ?x \<le> y}" by (rule post.V_seekE[OF w(1,3)]) (use pos mn x in auto)
    have nx: "NextD (ShardedP p mn mx False) (ok2, ShardedP q2 mn mx True)"
      by (rule NextD_sharded_init[OF q(1)]) (use True q2(1) in \<open>auto simp: SeekD_sharded\<close>)
    have list: "sorted_list_of_set (held ok2 q2) = filter (\<lambda>y. mn \<le> y) (sorted_list_of_set (elems p))"
      unfolding q2(4) x w(2) by (rule sorted_list_filter)
    show ?thesis unfolding NewShardedPostings_def
    proof (rule expand_step[OF nx], cases ok2)
      case ok2: True
      then have "filter (\<lambda>y. mn \<le> y) (sorted_list_of_set (elems p)) = At q2 # sorted_list_of_set (elems q2)"
        using sorted_elems_Cons[of B k q2] q2(3) list by (simp add: held_def)
      then have "shard_elems mn mx (sorted_list_of_set (elems p)) = At q2 # takeWhile (\<lambda>y. y < mx) (sorted_list_of_set (elems q2))"
        using True by (simp add: shard_elems_def word_gt_0)
      then show "if ok2 then fuelled (\<lambda>n. expand_loop (pNext n) n (ShardedP q2 mn mx True) ([] @ [At (ShardedP q2 mn mx True)]))
          (shard_elems mn mx (sorted_list_of_set (elems p)), None)
        else (shard_elems mn mx (sorted_list_of_set (elems p)), None) = ([], Err (ShardedP q2 mn mx True))"
        using ok2 sharded_tail[of B k q2 mn mx "[At q2]"] q2(3) by simp
    next
      case False
      then have "filter (\<lambda>y. mn \<le> y) (sorted_list_of_set (elems p)) = []" "Err q2 = None"
        using list q2(3) by (auto simp: held_def ended_def)
      then show "if ok2 then fuelled (\<lambda>n. expand_loop (pNext n) n (ShardedP q2 mn mx True) ([] @ [At (ShardedP q2 mn mx True)]))
          (shard_elems mn mx (sorted_list_of_set (elems p)), None)
        else (shard_elems mn mx (sorted_list_of_set (elems p)), None) = ([], Err (ShardedP q2 mn mx True))"
        using False by (simp add: shard_elems_def)
    qed
  qed
qed


subsection \<open>Properties\<close>

text \<open>
  C3. \<open>Intersect\<close> of fresh postings, expanded to the end, gives without error the references that
  are in every input, each once and in increasing order, for every nesting of the inputs; the
  expansion ends.
\<close>

theorem Intersect_expands:
  assumes "its \<noteq> []" and "\<forall>p \<in> set its. fresh B k p \<and> seekable p"
  shows "\<exists>n. ExpandPostings n (Intersect its) = Some (sorted_list_of_set (\<Inter> (elems ` set its)), None)"
  using Intersect_fresh[OF assms] expand_valid[of B "Suc k" "Intersect its"] by (auto simp: fresh_def)

theorem Intersect_expands_witness:
  "\<exists>n. ExpandPostings n (Intersect [SliceP [1, 3, 5] 0, SliceP [3, 4, 5, 7] 0]) = Some (sorted_list_of_set {3, 5}, None)"
  using Intersect_expands[of "[SliceP [1, 3, 5] 0, SliceP [3, 4, 5, 7] 0]" "2 ^ 64" 0]
  by (simp add: fresh_def elems_def)

text \<open>
  C4. \<open>Merge\<close> of fresh lists, byte lists and merges, expanded to the end, gives without error the
  references that are in some input, each once and in increasing order; building it and expanding
  it end.
\<close>

theorem Merge_expands:
  assumes "\<forall>p \<in> set its. fresh B k p \<and> seekable p \<and> sticky p" and "0 < B"
  shows "\<exists>n. (do { p \<leftarrow> Merge n its; ExpandPostings n p }) = Some (sorted_list_of_set (\<Union> (elems ` set its)), None)"
proof -
  obtain p where p: "fuelled (\<lambda>n. Merge n its) p" "fresh B (Suc k) p" "elems p = \<Union> (elems ` set its)"
    using Merge_fresh[OF assms] by blast
  then show ?thesis using fuelled_Merge_expand[OF p(1), of B "Suc k"] by (simp add: fresh_def)
qed

theorem Merge_expands_witness:
  "\<exists>n. (do { p \<leftarrow> Merge n [SliceP [1, 5] 0, SliceP [] 0, SliceP [3, 5] 0]; ExpandPostings n p })
     = Some (sorted_list_of_set {1, 3, 5}, None)"
proof -
  have "\<Union> (elems ` set [SliceP [1, 5] 0, SliceP [] 0, SliceP [3, 5] 0]) = {1, 3, 5}" by (auto simp: elems_def)
  then show ?thesis using Merge_expands[of "[SliceP [1, 5] 0, SliceP [] 0, SliceP [3, 5] 0]" "2 ^ 64" 0]
    by (simp add: fresh_def)
qed

text \<open>
  \<open>Without\<close>, expanded to the end, gives without error the references of \<open>full\<close> that are not
  in \<open>drop\<close>, in increasing order, when \<open>drop\<close> is a list, a byte list or a merge.
\<close>

theorem Without_expands:
  assumes "fresh B k full" and "fresh B k drp" and "sticky drp" "seekable drp"
  shows "\<exists>n. ExpandPostings n (Without full drp) = Some (sorted_list_of_set (elems full - elems drp), None)"
  using Without_fresh[OF assms] expand_valid[of B "Suc k" "Without full drp"] by (auto simp: fresh_def)

text \<open>
  C5. \<open>Seek\<close> on a valid nesting of lists, byte lists, merges, intersections and differences. The nesting has no
  \<open>ShardedPostings\<close>, and both sides of a difference are lists, byte lists or merges (\<open>seekable\<close>, \<open>valid\<close>). The sought
  reference \<open>x\<close> is below the bound \<open>B\<close> of the references, which is \<open>2 ^ 32\<close> when byte lists occur, because
  their \<open>Seek\<close> cuts it to 32 bits, and it is not 0 before the first reference. Then \<open>Seek\<close> ends, reports whether a
  reference that is at least \<open>x\<close> is left, and if so stands at the first such reference with the ones after
  it still to come; it never moves backwards or skips one.
\<close>

theorem postings_Seek:
  assumes "valid B k p" and "seekable p" and "0 < x \<or> 0 < At p" and "unat x < B"
  shows "\<exists>n ok q. pSeek n p x = Some (ok, q) \<and> (ok \<longleftrightarrow> (\<exists>y \<in> avail p. x \<le> y))
    \<and> (ok \<longrightarrow> valid B k q \<and> avail q = {y \<in> avail p. x \<le> y} \<and> At q = Min {y \<in> avail p. x \<le> y})"
proof -
  obtain ok q where q: "SeekD p x (ok, q)" "same_shape p q" "if ok then valid B k q else ended p q"
      "held ok q = {y \<in> avail p. x \<le> y}" by (rule post.V_seekE[OF assms])
  obtain n where n: "pSeek n p x = Some (ok, q)" using q(1) by (auto simp: SeekD_def)
  show ?thesis
  proof (cases ok)
    case True
    then have v: "valid B k q" "avail q = {y \<in> avail p. x \<le> y}" using q(3,4) by (auto simp: held_def)
    have "Min (avail q) = At q" using post.V_At[OF v(1)] post.V_least[OF v(1)] by (intro Min_eqI) auto
    moreover have "\<exists>y \<in> avail p. x \<le> y" using post.V_At[OF v(1)] v(2) by auto
    ultimately show ?thesis using n True v by auto
  next
    case False
    then show ?thesis using n q(4) by (auto simp: held_def)
  qed
qed

theorem postings_Seek_witness:
  "\<exists>n ok q. pSeek n (IntersectP [SliceP [2, 4, 6] 0, SliceP [4, 6, 8] 0] 0) 5 = Some (ok, q) \<and> ok \<and> avail q = {6}"
proof -
  let ?p = "IntersectP [SliceP [2, 4, 6] 0, SliceP [4, 6, 8] 0] 0"
  have "valid (2 ^ 64) 1 ?p" by (auto simp: valid_inter_def)
  moreover have "avail ?p = {0, 4, 6}" by auto
  moreover have "{y \<in> {0, 4, 6 :: u64}. 5 \<le> y} = {6}" by auto
  ultimately show ?thesis using postings_Seek[of "2 ^ 64" 1 ?p 5] by (simp del: valid.simps) blast
qed

text \<open>
  \<open>ShardedPostings\<close>, expanded to the end, gives in increasing order all references of its range
  \<open>[minOffset, maxOffset)\<close> and only references that are at least \<open>minOffset\<close>; at most its first one
  lies beyond the range.
\<close>

theorem ShardedPostings_expands:
  assumes "fresh B k p" and "seekable p" and "unat mn < B" and "0 < mx"
  shows "\<exists>n ys. ExpandPostings n (NewShardedPostings p mn mx) = Some (ys, None) \<and> sorted_wrt (<) ys
    \<and> set ys \<subseteq> {y \<in> elems p. mn \<le> y} \<and> {y \<in> elems p. mn \<le> y \<and> y < mx} \<subseteq> set ys
    \<and> (\<forall>y \<in> set (tl ys). y < mx)"
proof -
  let ?ys = "shard_elems mn mx (sorted_list_of_set (elems p))"
  let ?zs = "filter (\<lambda>y. mn \<le> y) (sorted_list_of_set (elems p))"
  have s: "sorted_wrt (<) ?zs" by (simp add: sorted_wrt_filter)
  have ys: "?ys = (case ?zs of [] \<Rightarrow> [] | z # zs \<Rightarrow> z # takeWhile (\<lambda>y. y < mx) zs)"
    using assms(4) by (auto simp: shard_elems_def split: list.splits)
  have keep: "sorted_wrt (<) zs \<Longrightarrow> y \<in> set zs \<Longrightarrow> y < mx \<Longrightarrow> y \<in> set (takeWhile (\<lambda>y. y < mx) zs)" for zs and y :: u64
    by (induction zs) auto
  have sub: "set zs \<supseteq> set (takeWhile P zs)" for zs :: "u64 list" and P by (auto dest: set_takeWhileD)
  have "sorted_wrt (<) ?ys \<and> set ?ys \<subseteq> set ?zs \<and> {y \<in> set ?zs. y < mx} \<subseteq> set ?ys \<and> (\<forall>y \<in> set (tl ?ys). y < mx)"
    unfolding ys using s
    by (cases ?zs) (auto simp: sorted_wrt_takeWhile keep dest: set_takeWhileD)
  moreover have "fuelled (\<lambda>n. ExpandPostings n (NewShardedPostings p mn mx)) (?ys, None)"
    using sharded_run[OF assms(1-3), of mx] unfolding ExpandPostings_def .
  then obtain n where "ExpandPostings n (NewShardedPostings p mn mx) = Some (?ys, None)" by (auto simp: fuelled_def)
  ultimately show ?thesis by (intro exI[of _ n] exI[of _ ?ys]) auto
qed

end
