(* ===== verification/Inverted_Index.thy ===== *)
theory Inverted_Index
  imports Labels
begin

section \<open>The in-memory inverted index (pkg/phlaredb/tsdb/index.go)\<close>

text \<open>
  The index of the head from label pairs to fingerprints: a map from label names to maps from
  label values to sorted fingerprint lists (\<open>unlockIndex\<close>; both levels are association lists with
  distinct keys, in the order in which Go happens to iterate). The specification is the registry
  \<open>S\<close> of the series that were added, a map from fingerprints to label sets; \<open>represents\<close> relates
  the two, \<open>add\<close> and \<open>delete\<close> refine the update of the registry, and \<open>lookup\<close> answers from it.

  The matchers are Prometheus' \<open>labels.Matcher\<close>. Whether one matches a value is a parameter
  \<open>Matches\<close>, because regular expressions are evaluated by Go's \<open>regexp\<close>; an equality matcher
  matches exactly its value (\<open>equal_matches\<close>), and a regular expression that \<open>FindSetMatches\<close>
  resolves to a set matches exactly the strings of that set (\<open>set_matches\<close>).
\<close>

datatype MatchType = MatchEqual | MatchNotEqual | MatchRegexp | MatchNotRegexp

record matcher =
  m_Type :: MatchType
  m_Name :: string
  m_Value :: string

type_synonym value_entries = "(string \<times> u64 list) list"
type_synonym unlockIndex = "(string \<times> value_entries) list"

subsection \<open>FindSetMatches\<close>

text \<open>The bitmap of meta characters: bit \<open>b div 16\<close> of byte \<open>b mod 16\<close>.\<close>

definition meta_chars :: string where
  "meta_chars = ''.+*?()|[]{}^$''"

definition regexMetaCharacterBytes :: "u8 list" where
  "regexMetaCharacterBytes =
     foldl (\<lambda>tab c. let b = of_char c :: nat
                    in tab[b mod 16 := or (tab ! (b mod 16)) (push_bit (b div 16) 1)])
       (replicate 16 0) meta_chars"

definition isRegexMetaCharacter :: "char \<Rightarrow> bool" where
  "isRegexMetaCharacter c =
     (let b = of_char c :: nat
      in b < 128 \<and> and (regexMetaCharacterBytes ! (b mod 16)) (push_bit (b div 16) 1) \<noteq> 0)"

text \<open>The loop, with the finished sets, the bytes of the current one and the flag \<open>escaped\<close>.\<close>

fun set_matches_loop :: "string list \<Rightarrow> string \<Rightarrow> bool \<Rightarrow> string \<Rightarrow> string list option" where
  "set_matches_loop sets cur escaped [] = Some (sets @ [cur])"
| "set_matches_loop sets cur escaped (c # cs) =
     (if escaped then
        (if isRegexMetaCharacter c then set_matches_loop sets (cur @ [c]) False cs
         else if c = CHR 0x5C then set_matches_loop sets (cur @ [CHR 0x5C]) False cs
         else None)
      else if isRegexMetaCharacter c then
        (if c = CHR ''|'' then set_matches_loop (sets @ [cur]) [] False cs else None)
      else if c = CHR 0x5C then set_matches_loop sets cur True cs
      else set_matches_loop sets (cur @ [c]) False cs)"

definition FindSetMatches :: "string \<Rightarrow> string list" where
  "FindSetMatches pattern =
     (if length pattern < 6 \<or> take 4 pattern \<noteq> ''^(?:'' \<or> drop (length pattern - 2) pattern \<noteq> '')$'' then []
      else case set_matches_loop [] [] False (drop 4 (take (length pattern - 2) pattern)) of
             None \<Rightarrow> []
           | Some sets \<Rightarrow> filter (\<lambda>s. s \<noteq> []) sets)"

subsection \<open>The operations of a shard\<close>

definition values_of :: "unlockIndex \<Rightarrow> string \<Rightarrow> value_entries" where
  "values_of idx n = (case map_of idx n of Some vs \<Rightarrow> vs | None \<Rightarrow> [])"

definition fps_of :: "value_entries \<Rightarrow> string \<Rightarrow> u64 list" where
  "fps_of vs v = (case map_of vs v of Some fps \<Rightarrow> fps | None \<Rightarrow> [])"

definition insert_fp :: "u64 list \<Rightarrow> u64 \<Rightarrow> u64 list" where
  "insert_fp fps fp = (let j = search_ge fps fp in take j fps @ fp # drop j fps)"

definition add_pair :: "u64 \<Rightarrow> label_pair \<Rightarrow> unlockIndex \<Rightarrow> unlockIndex" where
  "add_pair fp pair idx =
     (let values = values_of idx (lp_Name pair);
          fingerprints = fps_of values (lp_Value pair)
      in AList.update (lp_Name pair)
           (AList.update (lp_Value pair) (insert_fp fingerprints fp) values) idx)"

definition indexShard_add :: "unlockIndex \<Rightarrow> labels \<Rightarrow> u64 \<Rightarrow> unlockIndex \<times> labels" where
  "indexShard_add idx metric fp = (fold (add_pair fp) metric idx, sort_labels metric)"

text \<open>\<open>intersect\<close> of two sorted lists; \<open>None\<close> is Go's nil, which stands for everything.\<close>

fun intersect_loop :: "u64 list \<Rightarrow> u64 list \<Rightarrow> u64 list" where
  "intersect_loop (a # as) (b # bs) =
     (if a = b then [a] else [])
     @ (if a < b then intersect_loop as (b # bs) else intersect_loop (a # as) bs)"
| "intersect_loop _ _ = []"

definition intersect :: "u64 list option \<Rightarrow> u64 list \<Rightarrow> u64 list" where
  "intersect a b = (case a of None \<Rightarrow> b | Some a \<Rightarrow> intersect_loop a b)"

definition matcher_fps :: "(matcher \<Rightarrow> string \<Rightarrow> bool) \<Rightarrow> value_entries \<Rightarrow> matcher \<Rightarrow> u64 list" where
  "matcher_fps Matches values m =
     (if m_Type m = MatchEqual then fps_of values (m_Value m)
      else if m_Type m = MatchRegexp \<and> FindSetMatches (m_Value m) \<noteq> [] then
        sort (concat (map (fps_of values) (FindSetMatches (m_Value m))))
      else sort (concat (map snd (filter (\<lambda>(v, fps). Matches m v) values))))"

fun lookup_loop :: "(matcher \<Rightarrow> string \<Rightarrow> bool) \<Rightarrow> unlockIndex \<Rightarrow> u64 list option \<Rightarrow> matcher list \<Rightarrow> u64 list option" where
  "lookup_loop Matches idx result [] = result"
| "lookup_loop Matches idx result (m # ms) =
     (case map_of idx (m_Name m) of
        None \<Rightarrow> None
      | Some values \<Rightarrow>
          let r = intersect result (matcher_fps Matches values m)
          in if r = [] then None else lookup_loop Matches idx (Some r) ms)"

definition indexShard_lookup :: "(matcher \<Rightarrow> string \<Rightarrow> bool) \<Rightarrow> unlockIndex \<Rightarrow> matcher list \<Rightarrow> u64 list" where
  "indexShard_lookup Matches idx matchers =
     (case lookup_loop Matches idx None matchers of Some r \<Rightarrow> r | None \<Rightarrow> [])"

fun dedup_loop :: "u64 list \<Rightarrow> u64 list \<Rightarrow> u64 list" where
  "dedup_loop seen [] = []"
| "dedup_loop seen (fp # fps) =
     (if fp \<in> set seen then dedup_loop seen fps else fp # dedup_loop (fp # seen) fps)"

definition allFPs :: "unlockIndex \<Rightarrow> u64 list" where
  "allFPs idx = dedup_loop [] (concat (map (\<lambda>(n, vs). concat (map snd vs)) idx))"

definition indexShard_labelNames :: "unlockIndex \<Rightarrow> (unlockIndex \<Rightarrow> string list) option \<Rightarrow> string list" where
  "indexShard_labelNames idx extractor =
     sort (case extractor of Some f \<Rightarrow> f idx | None \<Rightarrow> map fst idx)"

definition indexShard_labelValues ::
    "unlockIndex \<Rightarrow> string \<Rightarrow> (value_entries \<Rightarrow> string list) option \<Rightarrow> string list" where
  "indexShard_labelValues idx name extractor =
     (case map_of idx name of
        None \<Rightarrow> []
      | Some values \<Rightarrow> (case extractor of None \<Rightarrow> sort (map fst values) | Some f \<Rightarrow> f values))"

definition delete_pair :: "u64 \<Rightarrow> label_pair \<Rightarrow> unlockIndex \<Rightarrow> unlockIndex" where
  "delete_pair fp pair idx =
     (case map_of idx (lp_Name pair) of
        None \<Rightarrow> idx
      | Some values \<Rightarrow>
          (case map_of values (lp_Value pair) of
             None \<Rightarrow> idx
           | Some fps \<Rightarrow>
               let j = search_ge fps fp
               in if j \<ge> length fps \<or> fps ! j \<noteq> fp then idx
                  else
                    let fps = take j fps @ drop (j + 1) fps;
                        values = (if fps = [] then AList.delete (lp_Value pair) values
                                  else AList.update (lp_Value pair) fps values)
                    in if values = [] then AList.delete (lp_Name pair) idx
                       else AList.update (lp_Name pair) values idx))"

definition indexShard_delete :: "unlockIndex \<Rightarrow> labels \<Rightarrow> u64 \<Rightarrow> unlockIndex" where
  "indexShard_delete idx labels fp = fold (delete_pair fp) labels idx"

subsection \<open>Merging sorted string slices\<close>

fun mergeTwoStringSlices :: "string list \<Rightarrow> string list \<Rightarrow> string list" where
  "mergeTwoStringSlices (a # as) (b # bs) =
     (if a < b then a # mergeTwoStringSlices as (b # bs)
      else if a > b then b # mergeTwoStringSlices (a # as) bs
      else a # mergeTwoStringSlices as bs)"
| "mergeTwoStringSlices as bs = as @ bs"

function mergeStringSlices :: "string list list \<Rightarrow> string list" where
  "mergeStringSlices ss =
     (if length ss = 0 then []
      else if length ss = 1 then ss ! 0
      else if length ss = 2 then mergeTwoStringSlices (ss ! 0) (ss ! 1)
      else let halfway = length ss div 2
           in mergeTwoStringSlices (mergeStringSlices (take halfway ss)) (mergeStringSlices (drop halfway ss)))"
  by pat_completeness auto
termination
proof (relation "measure length", goal_cases)
  case (2 ss halfway) then show ?case by (cases ss) auto
next
  case (3 ss halfway)
  then have "2 \<le> length ss" by arith
  then have "length ss - length ss div 2 < length ss" by (intro diff_less) auto
  then show ?case by (simp only: in_measure length_drop 3)
qed simp

declare mergeStringSlices.simps [simp del]


subsection \<open>The registry of series\<close>

type_synonym registry = "u64 \<rightharpoonup> labels"

definition holds :: "registry \<Rightarrow> u64 \<Rightarrow> string \<Rightarrow> string \<Rightarrow> bool" where
  "holds S fp n v \<longleftrightarrow> (\<exists>ls. S fp = Some ls \<and> (\<exists>l \<in> set ls. lp_Name l = n \<and> lp_Value l = v))"

definition well_labelled :: "registry \<Rightarrow> bool" where
  "well_labelled S \<longleftrightarrow> (\<forall>ls \<in> ran S. distinct (map lp_Name ls))"

definition idx_fps :: "unlockIndex \<Rightarrow> string \<Rightarrow> string \<Rightarrow> u64 list" where
  "idx_fps idx n v = fps_of (values_of idx n) v"

definition idx_wf :: "unlockIndex \<Rightarrow> bool" where
  "idx_wf idx \<longleftrightarrow> distinct (map fst idx)
     \<and> (\<forall>(n, vs) \<in> set idx. vs \<noteq> [] \<and> distinct (map fst vs) \<and> (\<forall>(v, fps) \<in> set vs. fps \<noteq> [] \<and> sorted_wrt (<) fps))"

definition represents :: "unlockIndex \<Rightarrow> registry \<Rightarrow> bool" where
  "represents idx S \<longleftrightarrow> idx_wf idx \<and> well_labelled S \<and> (\<forall>n v. set (idx_fps idx n v) = {fp. holds S fp n v})"

lemma holds_unique: "well_labelled S \<Longrightarrow> holds S fp n v \<Longrightarrow> holds S fp n w \<Longrightarrow> v = w"
  unfolding holds_def well_labelled_def
  by (metis (no_types, lifting) distinct_map inj_onD option.sel ranI)

lemma insert_fp_set: "set (insert_fp fps fp) = insert fp (set fps)"
proof -
  have "set (take j fps @ fp # drop j fps) = insert fp (set (take j fps @ drop j fps))" for j
    unfolding set_append by simp
  then show ?thesis by (simp only: insert_fp_def Let_def append_take_drop_id)
qed

lemma insert_fp_sorted:
  assumes "sorted_wrt (<) fps" "fp \<notin> set fps"
  shows "sorted_wrt (<) (insert_fp fps fp)"
proof -
  have s: "sorted fps" using assms(1) by (rule strict_sorted_imp_sorted)
  let ?t = "takeWhile (\<lambda>y. y < fp) fps" and ?d = "dropWhile (\<lambda>y. y < fp) fps"
  have j: "search_ge fps fp = length ?t" using search_ge_takeWhile[OF s] .
  have eq: "insert_fp fps fp = ?t @ fp # ?d"
    unfolding insert_fp_def Let_def j by (metis dropWhile_eq_drop takeWhile_eq_take)
  have td: "sorted_wrt (<) (?t @ ?d)" using assms(1) by simp
  have "\<forall>y \<in> set ?d. fp < y"
  proof
    fix y assume y: "y \<in> set ?d"
    have "\<forall>y \<in> set ?d. fp \<le> y" using s by (induction fps) auto
    then show "fp < y" using y assms(2) set_dropWhileD[OF y] by (metis order_le_less)
  qed
  moreover have "\<forall>y \<in> set ?t. y < fp" by (auto dest: set_takeWhileD)
  ultimately show ?thesis unfolding eq using td by (auto simp: sorted_wrt_append intro: less_trans)
qed

lemma idx_fps_update:
  "idx_fps (AList.update n (AList.update v fps (values_of idx n)) idx) n' v' =
     (if n' = n \<and> v' = v then fps else idx_fps idx n' v')"
  by (simp add: idx_fps_def values_of_def fps_of_def AList.update_conv' split: option.splits)

lemma fps_of_in: "idx_wf idx \<Longrightarrow> map_of idx n = Some vs \<Longrightarrow> map_of vs v = Some fps \<Longrightarrow>
    fps \<noteq> [] \<and> sorted_wrt (<) fps \<and> distinct (map fst vs) \<and> vs \<noteq> []"
  by (fastforce simp: idx_wf_def dest: map_of_SomeD)

lemma idx_fps_sorted: "idx_wf idx \<Longrightarrow> sorted_wrt (<) (idx_fps idx n v)"
  unfolding idx_fps_def values_of_def fps_of_def
  by (cases "map_of idx n"; cases "map_of (values_of idx n) v")
    (auto simp: values_of_def dest: fps_of_in[of idx n _ v] split: option.splits)

lemma in_update: "(k, x) \<in> set (AList.update a b xs) \<Longrightarrow> (k = a \<and> x = b) \<or> (k, x) \<in> set xs"
  by (induction xs) (auto split: if_splits)

lemma values_of_wf: "idx_wf idx \<Longrightarrow> distinct (map fst (values_of idx n)) \<and>
    (\<forall>(v, fps) \<in> set (values_of idx n). fps \<noteq> [] \<and> sorted_wrt (<) fps)"
  by (auto simp: values_of_def idx_wf_def split: option.splits dest!: map_of_SomeD)

lemma update_not_Nil: "AList.update k v xs \<noteq> []"
  by (cases xs) auto

lemma add_pair_wf:
  assumes "idx_wf idx" "fp \<notin> set (idx_fps idx (lp_Name l) (lp_Value l))"
  shows "idx_wf (add_pair fp l idx)"
proof -
  let ?vs = "values_of idx (lp_Name l)"
  let ?new = "insert_fp (fps_of ?vs (lp_Value l)) fp"
  have new: "?new \<noteq> []" "sorted_wrt (<) ?new"
    using insert_fp_sorted[of "fps_of ?vs (lp_Value l)" fp] idx_fps_sorted[OF assms(1)] assms(2)
    by (auto simp: idx_fps_def insert_fp_def Let_def)
  note wf = values_of_wf[OF assms(1), of "lp_Name l"]
  have "distinct (map fst (add_pair fp l idx))"
    using assms(1) by (simp add: add_pair_def Let_def idx_wf_def AList.distinct_update)
  moreover have "vs \<noteq> [] \<and> distinct (map fst vs) \<and> (\<forall>(v, fps) \<in> set vs. fps \<noteq> [] \<and> sorted_wrt (<) fps)"
    if "(n, vs) \<in> set (add_pair fp l idx)" for n vs
    using in_update[OF that[unfolded add_pair_def Let_def]]
  proof
    assume "n = lp_Name l \<and> vs = AList.update (lp_Value l) ?new ?vs"
    then show ?thesis using wf new update_not_Nil by (auto simp: AList.distinct_update dest!: in_update)
  next
    assume "(n, vs) \<in> set idx"
    then show ?thesis using assms(1) by (auto simp: idx_wf_def)
  qed
  ultimately show ?thesis unfolding idx_wf_def by blast
qed

lemma add_pair_fps:
  "idx_fps (add_pair fp l idx) n v =
     (if n = lp_Name l \<and> v = lp_Value l then insert_fp (idx_fps idx n v) fp else idx_fps idx n v)"
  unfolding add_pair_def Let_def idx_fps_update by (simp add: idx_fps_def)

lemma add_fold:
  assumes "distinct (map lp_Name ls)" "idx_wf idx"
    and "\<forall>l \<in> set ls. fp \<notin> set (idx_fps idx (lp_Name l) (lp_Value l))"
  shows "idx_wf (fold (add_pair fp) ls idx) \<and>
    (\<forall>n v. set (idx_fps (fold (add_pair fp) ls idx) n v) = set (idx_fps idx n v) \<union> {x. x = fp \<and> (\<exists>l \<in> set ls. lp_Name l = n \<and> lp_Value l = v)})"
  using assms
proof (induction ls arbitrary: idx)
  case (Cons l ls)
  have "idx_wf (add_pair fp l idx)" using Cons.prems by (intro add_pair_wf) auto
  moreover have "\<forall>l' \<in> set ls. fp \<notin> set (idx_fps (add_pair fp l idx) (lp_Name l') (lp_Value l'))"
  proof
    fix l' assume l': "l' \<in> set ls"
    then have "lp_Name l' \<noteq> lp_Name l" using Cons.prems(1) by (auto simp: image_iff)
    then show "fp \<notin> set (idx_fps (add_pair fp l idx) (lp_Name l') (lp_Value l'))"
      using Cons.prems(3) l' by (simp add: add_pair_fps)
  qed
  ultimately show ?case using Cons.IH[of "add_pair fp l idx"] Cons.prems(1)
    by (auto simp: add_pair_fps insert_fp_set split: if_splits)
qed simp

lemma add_represents:
  assumes "represents idx S" and "S fp = None" and "distinct (map lp_Name ls)"
  shows "represents (fst (indexShard_add idx ls fp)) (S(fp \<mapsto> ls))"
proof -
  have "\<forall>l \<in> set ls. fp \<notin> set (idx_fps idx (lp_Name l) (lp_Value l))"
    using assms(1,2) by (auto simp: represents_def holds_def)
  note af = add_fold[OF assms(3) _ this]
  have "well_labelled (S(fp \<mapsto> ls))" using assms by (auto simp: represents_def well_labelled_def ran_def)
  moreover have "{x. holds (S(fp \<mapsto> ls)) x n v} = {x. holds S x n v} \<union> {x. x = fp \<and> (\<exists>l \<in> set ls. lp_Name l = n \<and> lp_Value l = v)}" for n v
    using assms(2) by (auto simp: holds_def)
  ultimately show ?thesis using af assms(1) by (simp add: represents_def indexShard_add_def)
qed


subsubsection \<open>Deleting\<close>

lemma cut_nth:
  fixes xs :: "u64 list"
  assumes "sorted_wrt (<) xs" "j < length xs"
  shows "set (take j xs @ drop (Suc j) xs) = set xs - {xs ! j}" "sorted_wrt (<) (take j xs @ drop (Suc j) xs)"
proof -
  have eq: "xs = take j xs @ xs ! j # drop (Suc j) xs" using assms(2) by (rule id_take_nth_drop)
  have s: "sorted_wrt (<) (take j xs @ xs ! j # drop (Suc j) xs)" using assms(1) eq by simp
  then show "sorted_wrt (<) (take j xs @ drop (Suc j) xs)" by (auto simp: sorted_wrt_append)
  have "xs ! j \<notin> set (take j xs @ drop (Suc j) xs)" using s by (auto simp: sorted_wrt_append)
  moreover have "set xs = insert (xs ! j) (set (take j xs @ drop (Suc j) xs))" using arg_cong[OF eq, of set] by simp
  ultimately show "set (take j xs @ drop (Suc j) xs) = set xs - {xs ! j}" by blast
qed

text \<open>Replacing the entries of one name, or dropping the name when none is left.\<close>

definition put_values :: "unlockIndex \<Rightarrow> string \<Rightarrow> value_entries \<Rightarrow> unlockIndex" where
  "put_values idx n vs = (if vs = [] then AList.delete n idx else AList.update n vs idx)"

definition put_fps :: "value_entries \<Rightarrow> string \<Rightarrow> u64 list \<Rightarrow> value_entries" where
  "put_fps vs v fps = (if fps = [] then AList.delete v vs else AList.update v fps vs)"

lemma fps_of_put: "fps_of (put_fps vs v fps) w = (if w = v then fps else fps_of vs w)"
  by (auto simp: put_fps_def fps_of_def AList.update_conv' AList.delete_conv' split: option.splits)

lemma values_of_put: "values_of (put_values idx n vs) m = (if m = n then vs else values_of idx m)"
  by (auto simp: put_values_def values_of_def AList.update_conv' AList.delete_conv' split: option.splits)

lemma in_delete: "p \<in> set (AList.delete k xs) \<Longrightarrow> p \<in> set xs"
  by (simp add: AList.delete_eq)

lemma put_wf:
  assumes "idx_wf idx" "distinct (map fst vs)" "\<forall>(v, fps) \<in> set vs. fps \<noteq> [] \<and> sorted_wrt (<) fps"
  shows "idx_wf (put_values idx n vs)"
  using assms unfolding idx_wf_def put_values_def
  by (auto simp: AList.distinct_update AList.distinct_delete dest!: in_update in_delete)

lemma put_fps_wf:
  assumes "distinct (map fst vs)" "\<forall>(v, fps) \<in> set vs. fps \<noteq> [] \<and> sorted_wrt (<) fps" "sorted_wrt (<) fps'"
  shows "distinct (map fst (put_fps vs v fps')) \<and> (\<forall>(v, fps) \<in> set (put_fps vs v fps'). fps \<noteq> [] \<and> sorted_wrt (<) fps)"
  using assms unfolding put_fps_def
  by (auto simp: AList.distinct_update AList.distinct_delete dest!: in_update in_delete)

lemma delete_pair_spec:
  assumes "idx_wf idx"
  shows "idx_wf (delete_pair fp l idx) \<and>
    (\<forall>n v. set (idx_fps (delete_pair fp l idx) n v) =
       set (idx_fps idx n v) - (if n = lp_Name l \<and> v = lp_Value l then {fp} else {}))"
proof -
  let ?n = "lp_Name l" and ?v = "lp_Value l"
  let ?fps = "idx_fps idx ?n ?v"
  let ?j = "search_ge ?fps fp"
  have s: "sorted_wrt (<) ?fps" using idx_fps_sorted[OF assms] .
  have jt: "?j = length (takeWhile (\<lambda>y. y < fp) ?fps)"
    using search_ge_takeWhile[OF strict_sorted_imp_sorted[OF s]] .
  show ?thesis
  proof (cases "?j < length ?fps \<and> ?fps ! ?j = fp")
    case True
    let ?new = "take ?j ?fps @ drop (Suc ?j) ?fps"
    have found: "map_of idx ?n = Some (values_of idx ?n)" "map_of (values_of idx ?n) ?v = Some ?fps"
      using True by (auto simp: idx_fps_def values_of_def fps_of_def split: option.splits)
    have eq: "delete_pair fp l idx = put_values idx ?n (put_fps (values_of idx ?n) ?v ?new)"
      using True found by (auto simp: delete_pair_def Let_def put_values_def put_fps_def)
    note new = cut_nth[OF s, of ?j]
    note vw = values_of_wf[OF assms, of ?n]
    have "idx_wf (delete_pair fp l idx)" unfolding eq
      using put_fps_wf[of "values_of idx ?n" ?new ?v] vw new(2) True by (intro put_wf[OF assms]) auto
    moreover have "idx_fps (delete_pair fp l idx) n v = (if n = ?n \<and> v = ?v then ?new else idx_fps idx n v)" for n v
      unfolding eq idx_fps_def values_of_put by (simp add: fps_of_put)
    ultimately show ?thesis using new(1) True by auto
  next
    case False
    have "fp \<notin> set ?fps"
    proof
      assume "fp \<in> set ?fps"
      then obtain k where k: "k < length ?fps" "?fps ! k = fp" by (auto simp: in_set_conv_nth)
      have "takeWhile (\<lambda>y. y < fp) ?fps = take k ?fps"
        using k s by (intro takeWhile_eq_take_P_nth) (auto simp: sorted_wrt_iff_nth_less)
      then show False using False k jt by simp
    qed
    moreover have "delete_pair fp l idx = idx"
      using False by (auto simp: delete_pair_def Let_def idx_fps_def values_of_def fps_of_def split: option.splits)
    ultimately show ?thesis using assms by auto
  qed
qed

lemma delete_fold:
  assumes "idx_wf idx"
  shows "idx_wf (indexShard_delete idx ls fp) \<and>
    (\<forall>n v. set (idx_fps (indexShard_delete idx ls fp) n v) =
       set (idx_fps idx n v) - {x. x = fp \<and> (\<exists>l \<in> set ls. lp_Name l = n \<and> lp_Value l = v)})"
  using assms
proof (induction ls arbitrary: idx)
  case (Cons l ls)
  then show ?case using delete_pair_spec[of idx fp l] Cons.IH[of "delete_pair fp l idx"]
    by (auto simp: indexShard_delete_def split: if_splits)
qed (simp add: indexShard_delete_def)

lemma delete_represents:
  assumes "represents idx S" "S fp = Some ls"
  shows "represents (indexShard_delete idx ls fp) (S(fp := None))"
proof -
  have "{x. holds (S(fp := None)) x n v} = {x. holds S x n v} - {x. x = fp \<and> (\<exists>l \<in> set ls. lp_Name l = n \<and> lp_Value l = v)}" for n v
    using assms(2) by (auto simp: holds_def)
  moreover have "well_labelled (S(fp := None))"
    using assms(1) by (auto simp: represents_def well_labelled_def ran_def)
  ultimately show ?thesis using delete_fold[of idx ls fp] assms(1) by (simp add: represents_def)
qed

subsubsection \<open>Looking up\<close>

lemma intersect_loop_spec:
  "sorted_wrt (<) a \<Longrightarrow> sorted_wrt (<) b \<Longrightarrow>
   set (intersect_loop a b) = set a \<inter> set b \<and> sorted_wrt (<) (intersect_loop a b)"
proof (induction a b rule: intersect_loop.induct)
  case (1 a as b bs)
  consider "a < b" | "a = b" | "b < a" by fastforce
  then show ?case
  proof cases
    case 1
    then show ?thesis using "1.IH"(1) "1.prems" by auto
  next
    case 2
    then have "set (intersect_loop (a # as) bs) = set (a # as) \<inter> set bs" "sorted_wrt (<) (intersect_loop (a # as) bs)"
      using "1.IH"(2) "1.prems" by auto
    then show ?thesis using 2 "1.prems" by auto
  next
    case 3
    then have "set (intersect_loop (a # as) bs) = set (a # as) \<inter> set bs" "sorted_wrt (<) (intersect_loop (a # as) bs)"
      using "1.IH"(2) "1.prems" by auto
    then show ?thesis using 3 "1.prems" by auto
  qed
qed auto

lemma sort_strict: "distinct xs \<Longrightarrow> sorted_wrt (<) (sort (xs :: u64 list))"
  by (simp add: strict_sorted_iff)

lemma distinct_concat_fps:
  assumes "idx_wf idx" "well_labelled S" "\<forall>n v. set (idx_fps idx n v) = {fp. holds S fp n v}" "distinct vs"
  shows "distinct (concat (map (idx_fps idx n) vs))"
proof -
  have "distinct (idx_fps idx n v)" for v using idx_fps_sorted[OF assms(1)] by (simp add: strict_sorted_iff)
  moreover have disj: "x \<in> set (idx_fps idx n v) \<Longrightarrow> x \<in> set (idx_fps idx n w) \<Longrightarrow> v = w" for v w x
    using assms(3) holds_unique[OF assms(2)] by blast
  ultimately show ?thesis using assms(4)
  proof (induction vs)
    case (Cons v vs)
    have "set (idx_fps idx n v) \<inter> set (concat (map (idx_fps idx n) vs)) = {}"
      using disj[of _ v] Cons.prems(3) by auto
    then show ?case using Cons by simp
  qed simp
qed


text \<open>What the lookup relies on from the matchers of Prometheus.\<close>

definition equal_matches :: "(matcher \<Rightarrow> string \<Rightarrow> bool) \<Rightarrow> bool" where
  "equal_matches Matches \<longleftrightarrow> (\<forall>m v. m_Type m = MatchEqual \<longrightarrow> (Matches m v \<longleftrightarrow> v = m_Value m))"

definition set_matches :: "(matcher \<Rightarrow> string \<Rightarrow> bool) \<Rightarrow> matcher \<Rightarrow> bool" where
  "set_matches Matches m \<longleftrightarrow> (m_Type m = MatchRegexp \<and> FindSetMatches (m_Value m) \<noteq> [] \<longrightarrow>
     distinct (FindSetMatches (m_Value m)) \<and> (\<forall>v. v \<noteq> [] \<longrightarrow> (Matches m v \<longleftrightarrow> v \<in> set (FindSetMatches (m_Value m)))))"

definition no_empty_values :: "registry \<Rightarrow> bool" where
  "no_empty_values S \<longleftrightarrow> (\<forall>fp n. \<not> holds S fp n [])"

text \<open>A series satisfies the matchers: it has every matcher's label, with a value that matches.\<close>

definition satisfies :: "(matcher \<Rightarrow> string \<Rightarrow> bool) \<Rightarrow> registry \<Rightarrow> matcher list \<Rightarrow> u64 \<Rightarrow> bool" where
  "satisfies Matches S ms fp \<longleftrightarrow> (\<forall>m \<in> set ms. \<exists>v. holds S fp (m_Name m) v \<and> Matches m v)"

lemma FindSetMatches_nonempty: "[] \<notin> set (FindSetMatches p)"
  by (auto simp: FindSetMatches_def split: option.splits)

lemma entries_by_value:
  assumes "idx_wf idx" "map_of idx n = Some vals"
  shows "concat (map snd (filter (\<lambda>(v, fps). P v) vals)) = concat (map (idx_fps idx n) (map fst (filter (\<lambda>(v, fps). P v) vals)))"
proof -
  have d: "distinct (map fst vals)" using values_of_wf[OF assms(1), of n] assms(2) by (simp add: values_of_def)
  have "snd e = idx_fps idx n (fst e)" if "e \<in> set vals" for e
  proof -
    obtain v fps where e: "e = (v, fps)" by fastforce
    then have "map_of vals v = Some fps" using that d by simp
    then show ?thesis using e assms(2) by (simp add: idx_fps_def values_of_def fps_of_def)
  qed
  then show ?thesis by (auto intro!: arg_cong[of _ _ concat] simp: comp_def)
qed

lemma idx_fps_key: "fp \<in> set (idx_fps idx n v) \<Longrightarrow> map_of idx n = Some vals \<Longrightarrow> v \<in> fst ` set vals"
  by (cases "map_of vals v") (force simp: idx_fps_def values_of_def fps_of_def dest: map_of_SomeD)+

lemma matcher_fps_spec:
  assumes r: "represents idx S" and v: "map_of idx (m_Name m) = Some vals"
    and eq: "equal_matches Matches" and st: "set_matches Matches m" and ne: "no_empty_values S"
  shows "set (matcher_fps Matches vals m) = {fp. \<exists>v. holds S fp (m_Name m) v \<and> Matches m v}
    \<and> sorted_wrt (<) (matcher_fps Matches vals m)"
proof -
  let ?n = "m_Name m"
  have wf: "idx_wf idx" "well_labelled S" and posts: "\<forall>n v. set (idx_fps idx n v) = {fp. holds S fp n v}"
    using r by (auto simp: represents_def)
  have fps: "fps_of vals w = idx_fps idx ?n w" for w using v by (simp add: idx_fps_def values_of_def)
  consider (equal) "m_Type m = MatchEqual"
    | (sets) "m_Type m = MatchRegexp" "FindSetMatches (m_Value m) \<noteq> []"
    | (other) "m_Type m \<noteq> MatchEqual" "\<not> (m_Type m = MatchRegexp \<and> FindSetMatches (m_Value m) \<noteq> [])" by blast
  then show ?thesis
  proof cases
    case equal
    then show ?thesis using posts eq idx_fps_sorted[OF wf(1)]
      by (auto simp: matcher_fps_def fps equal_matches_def)
  next
    case sets
    let ?vs = "FindSetMatches (m_Value m)"
    have d: "distinct ?vs" and mt: "\<And>v. v \<noteq> [] \<Longrightarrow> Matches m v \<longleftrightarrow> v \<in> set ?vs"
      using st sets by (auto simp: set_matches_def)
    have m: "matcher_fps Matches vals m = sort (concat (map (idx_fps idx ?n) ?vs))"
      using sets by (simp add: matcher_fps_def fps cong: map_cong)
    have "Matches m v \<longleftrightarrow> v \<in> set ?vs" if "holds S fp ?n v" for v fp
      using mt[of v] that ne by (auto simp: no_empty_values_def)
    then have "(\<Union>v \<in> set ?vs. {fp. holds S fp ?n v}) = {fp. \<exists>v. holds S fp ?n v \<and> Matches m v}" by auto
    then show ?thesis unfolding m using posts distinct_concat_fps[OF wf posts d] by (simp add: sort_strict)
  next
    case other
    let ?vs = "map fst (filter (\<lambda>(v, fps). Matches m v) vals)"
    have d: "distinct ?vs" using values_of_wf[OF wf(1), of ?n] v
      by (simp add: values_of_def distinct_map_filter)
    have m: "matcher_fps Matches vals m = sort (concat (map (idx_fps idx ?n) ?vs))"
      using other entries_by_value[OF wf(1) v] by (auto simp: matcher_fps_def)
    have "v \<in> set ?vs \<longleftrightarrow> Matches m v" if "holds S fp ?n v" for v fp
      using idx_fps_key[of fp idx ?n v vals] v that posts by force
    then have "(\<Union>v \<in> set ?vs. {fp. holds S fp ?n v}) = {fp. \<exists>v. holds S fp ?n v \<and> Matches m v}" by blast
    then show ?thesis unfolding m using posts distinct_concat_fps[OF wf posts d] by (simp add: sort_strict)
  qed
qed

definition as_list :: "u64 list option \<Rightarrow> u64 list" where
  "as_list r = (case r of Some r \<Rightarrow> r | None \<Rightarrow> [])"

lemma lookup_loop_spec:
  assumes r: "represents idx S" and eq: "equal_matches Matches" and ne: "no_empty_values S"
    and "\<forall>m \<in> set ms. set_matches Matches m" and "case res of None \<Rightarrow> ms \<noteq> [] | Some R \<Rightarrow> sorted_wrt (<) R"
  shows "set (as_list (lookup_loop Matches idx res ms))
      = (case res of None \<Rightarrow> UNIV | Some R \<Rightarrow> set R) \<inter> {fp. satisfies Matches S ms fp}
    \<and> sorted_wrt (<) (as_list (lookup_loop Matches idx res ms))"
  using assms(4,5)
proof (induction ms arbitrary: res)
  case Nil
  then show ?case by (auto simp: as_list_def satisfies_def split: option.splits)
next
  case (Cons m ms)
  show ?case
  proof (cases "map_of idx (m_Name m)")
    case None
    then have "idx_fps idx (m_Name m) v = []" for v by (simp add: idx_fps_def values_of_def fps_of_def)
    then have "\<not> holds S fp (m_Name m) v" for fp v
      using r unfolding represents_def by (metis empty_iff list.set(1) mem_Collect_eq)
    then show ?thesis using None by (auto simp: as_list_def satisfies_def)
  next
    case (Some vals)
    let ?F = "matcher_fps Matches vals m"
    have F: "set ?F = {fp. \<exists>v. holds S fp (m_Name m) v \<and> Matches m v}" "sorted_wrt (<) ?F"
      using matcher_fps_spec[OF r Some eq _ ne] Cons.prems(1) by auto
    let ?r = "intersect res ?F"
    have ri: "set ?r = (case res of None \<Rightarrow> UNIV | Some R \<Rightarrow> set R) \<inter> set ?F" "sorted_wrt (<) ?r"
      using intersect_loop_spec[OF _ F(2)] F(2) Cons.prems(2) by (auto simp: intersect_def split: option.splits)
    have step: "{fp. satisfies Matches S (m # ms) fp} = set ?F \<inter> {fp. satisfies Matches S ms fp}"
      using F(1) by (auto simp: satisfies_def)
    show ?thesis
    proof (cases "?r = []")
      case True
      then show ?thesis using Some ri step by (auto simp: as_list_def)
    next
      case False
      then show ?thesis using Cons.IH[of "Some ?r"] Cons.prems(1) ri step Some by auto
    qed
  qed
qed


subsection \<open>Names and values\<close>

lemma dedup_loop_spec: "set (dedup_loop seen xs) = set xs - set seen \<and> distinct (dedup_loop seen xs)"
  by (induction xs arbitrary: seen) auto

lemma allFPs_spec:
  assumes "represents idx S"
  shows "set (allFPs idx) = {fp. \<exists>n v. holds S fp n v} \<and> distinct (allFPs idx)"
proof -
  have wf: "idx_wf idx" and posts: "\<And>n v. set (idx_fps idx n v) = {fp. holds S fp n v}"
    using assms by (auto simp: represents_def)
  have key: "map_of idx n = Some vs \<and> map_of vs v = Some fps" if "(n, vs) \<in> set idx" "(v, fps) \<in> set vs" for n vs v fps
    using wf that by (fastforce simp: idx_wf_def)
  have "set (concat (map (\<lambda>(n, vs). concat (map snd vs)) idx)) = (\<Union>n v. set (idx_fps idx n v))" (is "?L = ?R")
  proof (intro set_eqI iffI)
    fix fp assume "fp \<in> ?L"
    then obtain n vs v fps where e: "(n, vs) \<in> set idx" "(v, fps) \<in> set vs" "fp \<in> set fps" by force
    then have "fp \<in> set (idx_fps idx n v)" using key by (simp add: idx_fps_def values_of_def fps_of_def)
    then show "fp \<in> ?R" by blast
  next
    fix fp assume "fp \<in> ?R"
    then obtain n v where "fp \<in> set (idx_fps idx n v)" by blast
    moreover from this obtain vs where vs: "map_of idx n = Some vs"
      by (cases "map_of idx n") (auto simp: idx_fps_def values_of_def fps_of_def)
    ultimately obtain fps where "map_of vs v = Some fps" "fp \<in> set fps"
      by (cases "map_of vs v") (auto simp: idx_fps_def values_of_def fps_of_def)
    with vs show "fp \<in> ?L" by (force dest!: map_of_SomeD)
  qed
  then show ?thesis using dedup_loop_spec[of "[]"] posts by (auto simp: allFPs_def)
qed

lemma merge_two_spec:
  "sorted_wrt (<) a \<Longrightarrow> sorted_wrt (<) b \<Longrightarrow>
   set (mergeTwoStringSlices a b) = set a \<union> set b \<and> sorted_wrt (<) (mergeTwoStringSlices a b)"
proof (induction a b rule: mergeTwoStringSlices.induct)
  case (1 a as b bs)
  consider "a < b" | "a = b" | "b < a" by fastforce
  then show ?case using 1 by cases (auto intro: less_trans)
qed auto

lemma merge_slices_spec:
  "\<forall>s \<in> set ss. sorted_wrt (<) s \<Longrightarrow>
   set (mergeStringSlices ss) = \<Union> (set ` set ss) \<and> sorted_wrt (<) (mergeStringSlices ss)"
proof (induction ss rule: mergeStringSlices.induct)
  case (1 ss)
  consider "ss = []" | s where "ss = [s]" | s t where "ss = [s, t]" | "length ss > 2"
    by (cases ss; cases "tl ss"; cases "tl (tl ss)") auto
  then show ?case
  proof cases
    case 4
    let ?h = "length ss div 2"
    have eq: "mergeStringSlices ss = mergeTwoStringSlices (mergeStringSlices (take ?h ss)) (mergeStringSlices (drop ?h ss))"
      using 4 by (subst mergeStringSlices.simps) (auto simp: Let_def)
    have n: "length ss \<noteq> 0" "length ss \<noteq> 1" "length ss \<noteq> 2" using 4 by auto
    have "\<forall>s \<in> set (take ?h ss). sorted_wrt (<) s" "\<forall>s \<in> set (drop ?h ss). sorted_wrt (<) s"
      using "1.prems" by (auto dest: in_set_takeD in_set_dropD)
    then have "set (mergeStringSlices (take ?h ss)) = \<Union> (set ` set (take ?h ss)) \<and> sorted_wrt (<) (mergeStringSlices (take ?h ss))"
      "set (mergeStringSlices (drop ?h ss)) = \<Union> (set ` set (drop ?h ss)) \<and> sorted_wrt (<) (mergeStringSlices (drop ?h ss))"
      using "1.IH"(1)[OF n refl] "1.IH"(2)[OF n refl] by blast+
    then show ?thesis unfolding eq using merge_two_spec[of "mergeStringSlices (take ?h ss)" "mergeStringSlices (drop ?h ss)"]
      set_append[of "take ?h ss" "drop ?h ss"] by simp
  qed (use "1.prems" merge_two_spec in \<open>auto simp: mergeStringSlices.simps\<close>)
qed

subsection \<open>Escaping and FindSetMatches\<close>

text \<open>
  \<open>regexp.QuoteMeta\<close> of the standard library, which puts a backslash before each of its fourteen special
  characters, and the pattern Prometheus builds for a set of strings.
\<close>

definition special_chars :: string where
  "special_chars = CHR 0x5C # ''.+*?()|[]{}^$''"

definition quote_char :: "char \<Rightarrow> string" where
  "quote_char c = (if c \<in> set special_chars then [CHR 0x5C, c] else [c])"

fun set_body :: "string list \<Rightarrow> string" where
  "set_body [] = []"
| "set_body [v] = concat (map quote_char v)"
| "set_body (v # vs) = concat (map quote_char v) @ CHR ''|'' # set_body vs"

definition set_pattern :: "string list \<Rightarrow> string" where
  "set_pattern vs = ''^(?:'' @ set_body vs @ '')$''"

text \<open>The bitmap of the program has these characters, but for the backslash.\<close>

lemma meta_bytes: "regexMetaCharacterBytes = [0, 0, 0, 0, 4, 0, 0, 0, 4, 4, 4, 164, 128, 160, 36, 8]"
  by code_simp

lemma meta_special: "isRegexMetaCharacter c \<longleftrightarrow> c \<in> set special_chars \<and> c \<noteq> CHR 0x5C"
proof -
  have "\<forall>c. isRegexMetaCharacter c = (c \<in> set special_chars \<and> c \<noteq> CHR 0x5C)"
    unfolding isRegexMetaCharacter_def meta_bytes by code_simp
  then show ?thesis by blast
qed

lemma backslash_special: "CHR 0x5C \<in> set special_chars"
  by (simp add: special_chars_def)

lemma meta_bar: "isRegexMetaCharacter CHR ''|''" and meta_backslash: "\<not> isRegexMetaCharacter CHR 0x5C"
  by (simp_all add: meta_special special_chars_def)

lemma loop_quoted:
  "set_matches_loop sets cur False (concat (map quote_char v) @ rest) = set_matches_loop sets (cur @ v) False rest"
  by (induction v arbitrary: cur) (auto simp: quote_char_def meta_special backslash_special)

lemma loop_body:
  "vs \<noteq> [] \<Longrightarrow> set_matches_loop sets [] False (set_body vs) = Some (sets @ vs)"
proof (induction vs arbitrary: sets rule: set_body.induct)
  case (2 v)
  then show ?case using loop_quoted[of sets "[]" v "[]"] by simp
next
  case (3 v w vs)
  then show ?case using loop_quoted[of sets "[]" v "CHR ''|'' # set_body (w # vs)"] by (simp add: meta_bar)
qed simp

text \<open>An unquoted special character other than the bar ends the loop without a result.\<close>

lemma loop_unquoted:
  "c \<in> set special_chars - {CHR 0x5C, CHR ''|''} \<Longrightarrow> set_matches_loop sets [] False (set_body vs @ c # rest) = None"
proof (induction vs arbitrary: sets rule: set_body.induct)
  case 1
  then show ?case by (simp add: meta_special)
next
  case (2 v)
  then show ?case using loop_quoted[of sets "[]" v "c # rest"] by (simp add: meta_special)
next
  case (3 v w vs)
  then show ?case using loop_quoted[of sets "[]" v "CHR ''|'' # set_body (w # vs) @ c # rest"] by (simp add: meta_bar)
qed

lemma FindSetMatches_body: "FindSetMatches (''^(?:'' @ b @ '')$'') = (case set_matches_loop [] [] False b of None \<Rightarrow> [] | Some sets \<Rightarrow> filter (\<lambda>s. s \<noteq> []) sets)"
proof -
  let ?p = "''^(?:'' @ b @ '')$''"
  have "length ?p = length b + 6" by simp
  then have "take 4 ?p = ''^(?:''" "drop (length ?p - 2) ?p = '')$''" "drop 4 (take (length ?p - 2) ?p) = b" by auto
  then show ?thesis by (simp add: FindSetMatches_def)
qed

subsection \<open>The interface of a label index\<close>

text \<open>
  What the head relies on from its index: it represents a registry, \<open>add\<close> and \<open>delete\<close> update the
  registry, and a lookup returns exactly the fingerprints that satisfy the matchers.
\<close>

definition good_query :: "(matcher \<Rightarrow> string \<Rightarrow> bool) \<Rightarrow> registry \<Rightarrow> matcher list \<Rightarrow> bool" where
  "good_query Matches S ms \<longleftrightarrow> equal_matches Matches \<and> no_empty_values S \<and> ms \<noteq> []
     \<and> (\<forall>m \<in> set ms. set_matches Matches m)"

datatype index_op = AddSeries labels u64 | DeleteSeries labels u64

fun registry_op :: "index_op \<Rightarrow> registry \<Rightarrow> registry" where
  "registry_op (AddSeries ls fp) S = S(fp \<mapsto> ls)"
| "registry_op (DeleteSeries ls fp) S = S(fp := None)"

text \<open>The head adds a series once, and deletes it with the labels it was added with.\<close>

fun op_allowed :: "index_op \<Rightarrow> registry \<Rightarrow> bool" where
  "op_allowed (AddSeries ls fp) S \<longleftrightarrow> S fp = None \<and> distinct (map lp_Name ls)"
| "op_allowed (DeleteSeries ls fp) S \<longleftrightarrow> S fp = Some ls"

fun ops_allowed :: "index_op list \<Rightarrow> registry \<Rightarrow> bool" where
  "ops_allowed [] S = True"
| "ops_allowed (op # ops) S \<longleftrightarrow> op_allowed op S \<and> ops_allowed ops (registry_op op S)"

fun run_op :: "('i \<Rightarrow> labels \<Rightarrow> u64 \<Rightarrow> 'i) \<Rightarrow> ('i \<Rightarrow> labels \<Rightarrow> u64 \<Rightarrow> 'i) \<Rightarrow> index_op \<Rightarrow> 'i \<Rightarrow> 'i" where
  "run_op add del (AddSeries ls fp) i = add i ls fp"
| "run_op add del (DeleteSeries ls fp) i = del i ls fp"

locale label_index =
  fixes repr :: "'i \<Rightarrow> registry \<Rightarrow> bool" and add :: "'i \<Rightarrow> labels \<Rightarrow> u64 \<Rightarrow> 'i"
    and del :: "'i \<Rightarrow> labels \<Rightarrow> u64 \<Rightarrow> 'i"
    and look :: "(matcher \<Rightarrow> string \<Rightarrow> bool) \<Rightarrow> 'i \<Rightarrow> matcher list \<Rightarrow> u64 list"
  assumes repr_add: "repr i S \<Longrightarrow> S fp = None \<Longrightarrow> distinct (map lp_Name ls) \<Longrightarrow> repr (add i ls fp) (S(fp \<mapsto> ls))"
    and repr_del: "repr i S \<Longrightarrow> S fp = Some ls \<Longrightarrow> repr (del i ls fp) (S(fp := None))"
    and repr_look: "repr i S \<Longrightarrow> good_query Matches S ms \<Longrightarrow>
      set (look Matches i ms) = {fp. satisfies Matches S ms fp} \<and> sorted_wrt (<) (look Matches i ms)"
begin

lemma repr_op: "repr i S \<Longrightarrow> op_allowed op S \<Longrightarrow> repr (run_op add del op i) (registry_op op S)"
  by (cases op) (auto intro: repr_add repr_del)

lemma repr_ops: "repr i S \<Longrightarrow> ops_allowed ops S \<Longrightarrow> repr (fold (run_op add del) ops i) (fold registry_op ops S)"
  by (induction ops arbitrary: i S) (auto intro: repr_op)

text \<open>After any history, a query returns what the history left.\<close>

lemma query_after_history:
  assumes "repr i S" and "ops_allowed ops S" and "good_query Matches (fold registry_op ops S) ms"
  shows "set (look Matches (fold (run_op add del) ops i) ms) = {fp. satisfies Matches (fold registry_op ops S) ms fp}
    \<and> sorted_wrt (<) (look Matches (fold (run_op add del) ops i) ms)"
  using repr_look[OF repr_ops[OF assms(1,2)] assms(3)] .

end

lemma lookup_spec:
  assumes "represents idx S" "good_query Matches S ms"
  shows "set (indexShard_lookup Matches idx ms) = {fp. satisfies Matches S ms fp}
    \<and> sorted_wrt (<) (indexShard_lookup Matches idx ms)"
  using lookup_loop_spec[OF assms(1), of Matches ms None] assms(2)
  by (auto simp: good_query_def indexShard_lookup_def as_list_def)

definition shard_op :: "index_op \<Rightarrow> unlockIndex \<Rightarrow> unlockIndex" where
  "shard_op = run_op (\<lambda>idx ls fp. fst (indexShard_add idx ls fp)) indexShard_delete"

interpretation shard: label_index represents "\<lambda>idx ls fp. fst (indexShard_add idx ls fp)" indexShard_delete indexShard_lookup
  by unfold_locales (auto intro: add_represents delete_represents simp: lookup_spec)

lemma empty_represents: "represents [] Map.empty"
  by (auto simp: represents_def idx_wf_def well_labelled_def holds_def idx_fps_def values_of_def fps_of_def)

subsection \<open>Properties\<close>

text \<open>
  C11. \<open>add\<close> and \<open>delete\<close> of an index shard refine the update of the registry of series: they keep
  the maps without duplicate keys, without empty entries and with sorted fingerprint lists, and
  every label pair lists exactly the series that carry it; \<open>add\<close> returns the labels sorted by name.
\<close>

theorem indexShard_refines:
  assumes "represents idx S"
  shows "(S fp = None \<longrightarrow> distinct (map lp_Name ls) \<longrightarrow>
       represents (fst (indexShard_add idx ls fp)) (S(fp \<mapsto> ls)) \<and> snd (indexShard_add idx ls fp) = sort_labels ls)
   \<and> (S fp = Some ls \<longrightarrow> represents (indexShard_delete idx ls fp) (S(fp := None)))"
  using add_represents[OF assms] delete_represents[OF assms] by (auto simp: indexShard_add_def)

theorem indexShard_refines_witness:
  "represents (fst (indexShard_add [] [\<lparr>lp_Name = ''a'', lp_Value = ''b''\<rparr>] 7)) (Map.empty(7 \<mapsto> [\<lparr>lp_Name = ''a'', lp_Value = ''b''\<rparr>]))"
  using indexShard_refines[OF empty_represents, where fp = 7 and ls = "[\<lparr>lp_Name = ''a'', lp_Value = ''b''\<rparr>]"] by simp

text \<open>
  After any history of additions and deletions on an empty shard, \<open>lookup\<close> returns, sorted and
  without duplicates, exactly the fingerprints of the remaining series that have, for every
  matcher, its label with a matching value. (A series without the label is never returned, even
  if the matcher accepts the empty value.)
\<close>

theorem indexShard_lookup_history:
  assumes "ops_allowed ops Map.empty" and "good_query Matches (fold registry_op ops Map.empty) ms"
  shows "set (indexShard_lookup Matches (fold shard_op ops []) ms)
      = {fp. satisfies Matches (fold registry_op ops Map.empty) ms fp}
    \<and> sorted_wrt (<) (indexShard_lookup Matches (fold shard_op ops []) ms)"
  unfolding shard_op_def by (rule shard.query_after_history[OF empty_represents assms])

text \<open>
  C12. \<open>FindSetMatches\<close> reads back the set of an anchored alternation: for strings that are not empty,
  whatever characters they contain, the pattern \<open>^(?:a|b|c)$\<close> of the strings quoted with
  \<open>regexp.QuoteMeta\<close> gives exactly the strings, in their order. A pattern in which such an alternation is
  followed by an unquoted special character other than the bar gives no set.
\<close>

theorem FindSetMatches_roundtrip:
  "(vs \<noteq> [] \<and> [] \<notin> set vs \<longrightarrow> FindSetMatches (set_pattern vs) = vs)
   \<and> (c \<in> set special_chars - {CHR 0x5C, CHR ''|''} \<longrightarrow> FindSetMatches (''^(?:'' @ (set_body vs @ c # w) @ '')$'') = [])"
proof (intro conjI impI)
  assume vs: "vs \<noteq> [] \<and> [] \<notin> set vs"
  then have "filter (\<lambda>s. s \<noteq> []) vs = vs" by (auto simp: filter_id_conv)
  then show "FindSetMatches (set_pattern vs) = vs"
    unfolding set_pattern_def FindSetMatches_body using loop_body[of vs "[]"] vs by simp
next
  assume "c \<in> set special_chars - {CHR 0x5C, CHR ''|''}"
  then show "FindSetMatches (''^(?:'' @ (set_body vs @ c # w) @ '')$'') = []"
    unfolding FindSetMatches_body by (simp only: loop_unquoted option.case)
qed

theorem FindSetMatches_roundtrip_witness:
  "set_pattern [''a.b'', ''c|''] = ''^(?:a'' @ [CHR 0x5C] @ ''.b|c'' @ [CHR 0x5C] @ ''|)$'' \<and> FindSetMatches (set_pattern [''a.b'', ''c|'']) = [''a.b'', ''c|'']
   \<and> FindSetMatches ''^(?:a|b*)$'' = []"
proof -
  have "FindSetMatches (set_pattern [''a.b'', ''c|'']) = [''a.b'', ''c|'']"
    using FindSetMatches_roundtrip[of "[''a.b'', ''c|'']"] by simp
  moreover have "FindSetMatches ''^(?:a|b*)$'' = []"
    using FindSetMatches_roundtrip[of "[''a'', ''b'']" "CHR ''*''" "[]"] by (simp add: special_chars_def quote_char_def)
  ultimately show ?thesis by (simp add: set_pattern_def quote_char_def special_chars_def)
qed

text \<open>
  \<open>mergeStringSlices\<close> of sorted slices without duplicates is the sorted union without duplicates.
\<close>

lemma mergeStringSlices_union:
  assumes "\<forall>s \<in> set ss. sorted_wrt (<) s"
  shows "set (mergeStringSlices ss) = \<Union> (set ` set ss) \<and> sorted_wrt (<) (mergeStringSlices ss)"
  using merge_slices_spec[OF assms] .

end
