(* ===== verification/Sharded_Index.thy ===== *)
theory Sharded_Index
  imports Inverted_Index
begin

unbundle bit_operations_syntax

section \<open>The sharded indexes (tsdb/bitprefix.go, tsdb/index.go, tsdb/shard, tsdb/index/shard.go)\<close>

text \<open>
  \<open>BitPrefixInvertedIndex\<close> spreads the series over \<open>2 ^ b\<close> shards by the leading bits of the
  fingerprint; \<open>InvertedIndex\<close> by a hash of the labels modulo the number of shards. Both are lists
  of the shards of \<open>Inverted_Index\<close>. A query may ask for one shard of a different count: the model
  follows the index arithmetic on 64-bit words, with an index out of range (a panic in Go) as
  \<open>None\<close>. The digest behind \<open>labelsSeriesIDHash\<close> (SHA-256 and base64) and \<open>strconv.AppendQuote\<close>
  are parameters.
\<close>

subsection \<open>Shard annotations\<close>

record Annotation =
  an_Shard :: int
  an_Of :: int

record ShardAnnotation =
  sa_Shard :: u32
  sa_Of :: u32

definition NewShard :: "u32 \<Rightarrow> u32 \<Rightarrow> ShardAnnotation" where
  "NewShard x n = \<lparr>sa_Shard = x, sa_Of = n\<rparr>"

text \<open>\<open>uint64(math.Log2(float64(of)))\<close>, for \<open>of > 0\<close>.\<close>

fun log2_floor :: "nat \<Rightarrow> nat" where
  "log2_floor n = (if n < 2 then 0 else Suc (log2_floor (n div 2)))"

declare log2_floor.simps [simp del]

definition RequiredBits :: "ShardAnnotation \<Rightarrow> nat" where
  "RequiredBits sh = log2_floor (unat (sa_Of sh))"

definition ShardAnnotation_Match :: "ShardAnnotation \<Rightarrow> u64 \<Rightarrow> bool" where
  "ShardAnnotation_Match sh fp =
     (let requiredBits = RequiredBits sh;
          prefix = push_bit (64 - requiredBits) (ucast (sa_Shard sh)) :: u64
      in prefix XOR fp < push_bit (64 - requiredBits) 1)"

definition Bounds :: "ShardAnnotation \<Rightarrow> u64 \<times> u64" where
  "Bounds sh =
     (let requiredBits = RequiredBits sh;
          from = push_bit (64 - requiredBits) (ucast (sa_Shard sh))
      in if sa_Shard sh + 1 = sa_Of sh then (from, - 1)
         else (from, push_bit (64 - requiredBits) (ucast (sa_Shard sh + 1))))"

definition Annotation_TSDB :: "Annotation \<Rightarrow> ShardAnnotation" where
  "Annotation_TSDB sh = NewShard (word_of_int (an_Shard sh)) (word_of_int (an_Of sh))"

definition Annotation_Match :: "Annotation \<Rightarrow> u64 \<Rightarrow> bool" where
  "Annotation_Match sh fp = (fp mod word_of_int (an_Of sh) = word_of_int (an_Shard sh))"

subsection \<open>BitPrefixInvertedIndex\<close>

type_synonym index_shards = "unlockIndex list"

definition ValidateBitPrefixShardFactor :: "u32 \<Rightarrow> bool" where
  "ValidateBitPrefixShardFactor factor = (push_bit (RequiredBits (NewShard 0 factor)) 1 = factor)"

definition NewBitPrefixWithShards :: "u32 \<Rightarrow> string + index_shards" where
  "NewBitPrefixWithShards totalShards =
     (if \<not> ValidateBitPrefixShardFactor totalShards
      then Inl ''Incompatible inverted index shard factor on ingester: It must be a power of two''
      else Inr (replicate (unat totalShards) []))"

definition local_bits :: "index_shards \<Rightarrow> nat" where
  "local_bits shards = RequiredBits (NewShard 0 (word_of_nat (length shards)))"

definition shardForFP :: "index_shards \<Rightarrow> u64 \<Rightarrow> nat" where
  "shardForFP shards fp = unat (drop_bit (64 - local_bits shards) fp)"

text \<open>\<open>getShards\<close>: the range of shards and whether the result must be filtered.\<close>

definition bp_range :: "index_shards \<Rightarrow> ShardAnnotation \<Rightarrow> nat \<times> nat" where
  "bp_range shards requestedShard =
     (let (minFp, maxFp) = Bounds requestedShard;
          requiredBits = local_bits shards;
          lowerIdx = drop_bit (64 - requiredBits) minFp;
          upperIdx = drop_bit (64 - requiredBits) maxFp;
          upperIdx = (if push_bit (64 - requiredBits) upperIdx \<noteq> maxFp then upperIdx + 1 else upperIdx)
      in (unat lowerIdx, unat upperIdx))"

definition bp_getShards :: "index_shards \<Rightarrow> Annotation option \<Rightarrow> (index_shards \<times> bool) option" where
  "bp_getShards shards shard =
     (case shard of
        None \<Rightarrow> Some (shards, False)
      | Some sh \<Rightarrow>
          (case bp_range shards (Annotation_TSDB sh) of
             (lowerIdx, upperIdx) \<Rightarrow>
               if lowerIdx \<le> upperIdx \<and> upperIdx \<le> length shards
               then Some (drop lowerIdx (take upperIdx shards), an_Of sh > int (length shards))
               else None))"

definition bp_validateShard :: "Annotation option \<Rightarrow> string option" where
  "bp_validateShard shard =
     (case shard of
        None \<Rightarrow> None
      | Some sh \<Rightarrow> if (2 :: int) ^ RequiredBits (Annotation_TSDB sh) \<noteq> an_Of sh
                  then Some ''Shard factor must be a power of two'' else None)"

definition bp_Add :: "index_shards \<Rightarrow> labels \<Rightarrow> u64 \<Rightarrow> (index_shards \<times> labels) option" where
  "bp_Add shards ls fp =
     (let i = shardForFP shards fp
      in if i < length shards then
           (case indexShard_add (shards ! i) ls fp of (s, interned) \<Rightarrow> Some (shards[i := s], interned))
         else None)"

definition bp_Delete :: "index_shards \<Rightarrow> labels \<Rightarrow> u64 \<Rightarrow> index_shards option" where
  "bp_Delete shards ls fp =
     (let i = shardForFP shards fp
      in if i < length shards then Some (shards[i := indexShard_delete (shards ! i) ls fp]) else None)"

text \<open>\<open>Lookup\<close>: an error, a panic (\<open>None\<close>) or the fingerprints.\<close>

definition bp_Lookup :: "(matcher \<Rightarrow> string \<Rightarrow> bool) \<Rightarrow> index_shards \<Rightarrow> matcher list \<Rightarrow> Annotation option \<Rightarrow>
    (string + u64 list) option" where
  "bp_Lookup Matches shards matchers shard =
     (case bp_validateShard shard of
        Some err \<Rightarrow> Some (Inl err)
      | None \<Rightarrow>
          (case bp_getShards shards shard of
             None \<Rightarrow> None
           | Some (sel, filt) \<Rightarrow>
               let result = concat (map (\<lambda>s. if matchers = [] then allFPs s else indexShard_lookup Matches s matchers) sel)
               in (case shard of
                     Some sh \<Rightarrow>
                       if filt then
                         (case Bounds (Annotation_TSDB sh) of
                            (minFP, maxFP) \<Rightarrow>
                              let minIdx = search_ge result minFP; maxIdx = search_ge result maxFP
                              in if minIdx \<le> maxIdx then Some (Inr (drop minIdx (take maxIdx result))) else None)
                       else Some (Inr result)
                   | None \<Rightarrow> Some (Inr result))))"

definition names_extractor :: "ShardAnnotation \<Rightarrow> unlockIndex \<Rightarrow> string list" where
  "names_extractor s x =
     map fst (filter (\<lambda>(name, entry). \<exists>(v, fps) \<in> set entry. \<exists>fp \<in> set fps. ShardAnnotation_Match s fp) x)"

definition bp_LabelNames :: "index_shards \<Rightarrow> Annotation option \<Rightarrow> (string + string list) option" where
  "bp_LabelNames shards shard =
     (case bp_validateShard shard of
        Some err \<Rightarrow> Some (Inl err)
      | None \<Rightarrow>
          map_option (\<lambda>(sel, filt).
              Inr (mergeStringSlices (map (\<lambda>s. indexShard_labelNames s
                (if filt then map_option (names_extractor \<circ> Annotation_TSDB) shard else None)) sel)))
            (bp_getShards shards shard))"

definition values_extractor :: "ShardAnnotation \<Rightarrow> value_entries \<Rightarrow> string list" where
  "values_extractor s x = map fst (filter (\<lambda>(v, fps). \<exists>fp \<in> set fps. ShardAnnotation_Match s fp) x)"

definition bp_LabelValues :: "index_shards \<Rightarrow> string \<Rightarrow> Annotation option \<Rightarrow> (string + string list) option" where
  "bp_LabelValues shards name shard =
     (case bp_validateShard shard of
        Some err \<Rightarrow> Some (Inl err)
      | None \<Rightarrow>
          map_option (\<lambda>(sel, filt).
              Inr (mergeStringSlices (map (\<lambda>s. indexShard_labelValues s name
                (if filt then map_option (values_extractor \<circ> Annotation_TSDB) shard else None)) sel)))
            (bp_getShards shards shard))"

subsection \<open>InvertedIndex\<close>

definition NewWithShards :: "u32 \<Rightarrow> index_shards" where
  "NewWithShards totalShards = replicate (unat totalShards) []"

text \<open>\<open>labelsString\<close>: the metric name, then the other labels with quoted values.\<close>

definition MetricName :: string where
  "MetricName = ''__name__''"

fun labels_body :: "(string \<Rightarrow> string) \<Rightarrow> bool \<Rightarrow> labels \<Rightarrow> string" where
  "labels_body quote first [] = []"
| "labels_body quote first (l # ls) =
     (if lp_Name l = MetricName then labels_body quote first ls
      else (if first then [] else '', '') @ lp_Name l @ ''='' @ quote (lp_Value l) @ labels_body quote False ls)"

definition labelsString :: "(string \<Rightarrow> string) \<Rightarrow> labels \<Rightarrow> string" where
  "labelsString quote ls =
     (case filter (\<lambda>l. lp_Name l = MetricName) ls of [] \<Rightarrow> [] | l # _ \<Rightarrow> lp_Value l)
     @ ''{'' @ labels_body quote True ls @ ''}''"

definition labelsSeriesIDHash :: "(string \<Rightarrow> u8 list) \<Rightarrow> (string \<Rightarrow> string) \<Rightarrow> labels \<Rightarrow> u32" where
  "labelsSeriesIDHash digest quote ls = be_uint32 (digest (labelsString quote ls))"

definition ii_getShards :: "index_shards \<Rightarrow> Annotation option \<Rightarrow> index_shards option" where
  "ii_getShards shards shard =
     (case shard of
        None \<Rightarrow> Some shards
      | Some sh \<Rightarrow>
          let totalRequested = length shards div nat (an_Of sh);
              subShards = map (\<lambda>i. an_Shard sh + int i * an_Of sh) [0..<totalRequested]
          in if \<forall>j \<in> set subShards. 0 \<le> j \<and> j < int (length shards)
             then Some (map (\<lambda>j. shards ! nat j) subShards) else None)"

definition ii_validateShard :: "index_shards \<Rightarrow> Annotation option \<Rightarrow> string option" where
  "ii_validateShard shards shard =
     (case shard of
        None \<Rightarrow> None
      | Some sh \<Rightarrow> if int (length shards) mod an_Of sh \<noteq> 0 \<or> an_Of sh > int (length shards)
                  then Some ''incompatible index shard query'' else None)"

definition ii_Add :: "(labels \<Rightarrow> u32) \<Rightarrow> index_shards \<Rightarrow> labels \<Rightarrow> u64 \<Rightarrow> index_shards \<times> labels" where
  "ii_Add hash shards ls fp =
     (let i = unat (hash ls) mod length shards
      in case indexShard_add (shards ! i) ls fp of (s, interned) \<Rightarrow> (shards[i := s], interned))"

definition ii_Delete :: "(labels \<Rightarrow> u32) \<Rightarrow> index_shards \<Rightarrow> labels \<Rightarrow> u64 \<Rightarrow> index_shards" where
  "ii_Delete hash shards ls fp =
     (let i = unat (hash ls) mod length shards in shards[i := indexShard_delete (shards ! i) ls fp])"

definition ii_Lookup :: "(matcher \<Rightarrow> string \<Rightarrow> bool) \<Rightarrow> index_shards \<Rightarrow> matcher list \<Rightarrow> Annotation option \<Rightarrow>
    (string + u64 list) option" where
  "ii_Lookup Matches shards matchers shard =
     (case ii_validateShard shards shard of
        Some err \<Rightarrow> Some (Inl err)
      | None \<Rightarrow>
          map_option (\<lambda>sel. Inr (concat (map
              (\<lambda>s. if matchers = [] then allFPs s else indexShard_lookup Matches s matchers) sel)))
            (ii_getShards shards shard))"

definition ii_LabelNames :: "index_shards \<Rightarrow> Annotation option \<Rightarrow> (string + string list) option" where
  "ii_LabelNames shards shard =
     (case ii_validateShard shards shard of
        Some err \<Rightarrow> Some (Inl err)
      | None \<Rightarrow> map_option (\<lambda>sel. Inr (mergeStringSlices (map (\<lambda>s. indexShard_labelNames s None) sel)))
                 (ii_getShards shards shard))"

definition ii_LabelValues :: "index_shards \<Rightarrow> string \<Rightarrow> Annotation option \<Rightarrow> (string + string list) option" where
  "ii_LabelValues shards name shard =
     (case ii_validateShard shards shard of
        Some err \<Rightarrow> Some (Inl err)
      | None \<Rightarrow> map_option (\<lambda>sel. Inr (mergeStringSlices (map (\<lambda>s. indexShard_labelValues s name None) sel)))
                 (ii_getShards shards shard))"


subsection \<open>Bit prefixes as numbers\<close>

lemma log2_floor_pow: "log2_floor (2 ^ k) = k"
proof (induction k)
  case (Suc k)
  then show ?case by (subst log2_floor.simps) simp
qed (subst log2_floor.simps, simp)

lemma unat_u64_lt: "unat (w :: u64) < 2 ^ 64"
  using unsigned_less[where ?'a = nat, of w] by simp

lemma unat_drop: "unat (drop_bit n (w :: u64)) = unat w div 2 ^ n"
  using unat_u64_lt[of w] by (subst unsigned_drop_bit_eq) (simp add: drop_bit_eq_div take_bit_nat_eq_self)

lemma unat_push: "unat (push_bit n (w :: u64)) = unat w * 2 ^ n mod 2 ^ 64"
  by (subst unsigned_push_bit_eq) (simp add: push_bit_eq_mult take_bit_eq_mod)

lemma unat_u32_lt: "unat (w :: u32) < 2 ^ 32"
  using unsigned_less[where ?'a = nat, of w] by simp

lemma unat_ucast32: "unat (ucast (w :: u32) :: u64) = unat w"
  using unat_u32_lt[of w] by (simp add: unsigned_ucast_eq take_bit_nat_eq_self)

lemma unat_of_nat32: "n < 2 ^ 32 \<Longrightarrow> unat (word_of_nat n :: u32) = n"
  by (simp add: unsigned_of_nat take_bit_nat_eq_self)

lemma local_bits_pow: "length shards = 2 ^ b \<Longrightarrow> b < 32 \<Longrightarrow> local_bits shards = b"
proof -
  assume a: "length shards = 2 ^ b" "b < 32"
  then have "length shards < 2 ^ 32" using power_strict_increasing[of b 32 "2 :: nat"] by simp
  then have "unat (word_of_nat (length shards) :: u32) = length shards" by (rule unat_of_nat32)
  then show "local_bits shards = b" using a by (simp add: local_bits_def RequiredBits_def NewShard_def log2_floor_pow)
qed

lemma shardForFP_div: "length shards = 2 ^ b \<Longrightarrow> b < 32 \<Longrightarrow> shardForFP shards fp = unat fp div 2 ^ (64 - b)"
  by (simp add: shardForFP_def local_bits_pow unat_drop)

lemma prefix_in_range: "b < 32 \<Longrightarrow> unat (fp :: u64) div 2 ^ (64 - b) < 2 ^ b"
proof -
  assume "b < 32"
  then have "(2 :: nat) ^ 64 = 2 ^ (64 - b) * 2 ^ b" by (simp flip: power_add)
  moreover have "unat fp < 2 ^ 64" by (rule unat_u64_lt)
  ultimately show ?thesis by (simp add: less_mult_imp_div_less mult.commute)
qed

text \<open>A query shard: one of \<open>2 ^ a\<close>, and the fingerprints it covers.\<close>

definition query_shard :: "nat \<Rightarrow> Annotation \<Rightarrow> bool" where
  "query_shard a sh \<longleftrightarrow> a < 32 \<and> an_Of sh = 2 ^ a \<and> 0 \<le> an_Shard sh \<and> an_Shard sh < 2 ^ a"

definition covers :: "nat \<Rightarrow> Annotation \<Rightarrow> u64 \<Rightarrow> bool" where
  "covers a sh fp \<longleftrightarrow> unat fp div 2 ^ (64 - a) = nat (an_Shard sh)"

lemma query_shard_words:
  assumes "query_shard a sh"
  shows "unat (sa_Shard (Annotation_TSDB sh)) = nat (an_Shard sh)" "unat (sa_Of (Annotation_TSDB sh)) = 2 ^ a"
    "RequiredBits (Annotation_TSDB sh) = a"
proof -
  have lt: "(2 :: int) ^ a < 2 ^ 32" using assms power_strict_increasing[of a 32 "2 :: int"] by (simp add: query_shard_def)
  have "unat (word_of_int x :: u32) = nat x" if "0 \<le> x" "x < 2 ^ 32" for x
    using that by (simp add: unat_eq_nat_uint uint_word_of_int_eq take_bit_int_eq_self)
  from this[of "an_Shard sh"] this[of "an_Of sh"]
  show *: "unat (sa_Shard (Annotation_TSDB sh)) = nat (an_Shard sh)" "unat (sa_Of (Annotation_TSDB sh)) = 2 ^ a"
    using assms lt by (simp_all add: query_shard_def Annotation_TSDB_def NewShard_def nat_power_eq del: of_int_power)
  show "RequiredBits (Annotation_TSDB sh) = a" by (simp add: RequiredBits_def * log2_floor_pow)
qed

lemma query_shard_bounds:
  assumes "query_shard a sh"
  defines "s \<equiv> nat (an_Shard sh)"
  shows "unat (fst (Bounds (Annotation_TSDB sh))) = s * 2 ^ (64 - a)"
    and "unat (snd (Bounds (Annotation_TSDB sh))) = (if Suc s = 2 ^ a then 2 ^ 64 - 1 else Suc s * 2 ^ (64 - a))"
proof -
  note w = query_shard_words[OF assms(1)]
  have a: "a < 32" "s < 2 ^ a" using assms by (auto simp: query_shard_def s_def nat_less_iff)
  have p: "(2 :: nat) ^ 64 = 2 ^ a * 2 ^ (64 - a)" using a by (simp flip: power_add)
  have s32: "Suc s < 2 ^ 32 \<or> Suc s = 2 ^ a"
    using a power_strict_increasing[of a 32 "2 :: nat"] by linarith
  have a32: "(2 :: nat) ^ a < 2 ^ 32" using a power_strict_increasing[of a 32 "2 :: nat"] by simp
  then have "Suc s < 2 ^ 32" using a by linarith
  then have us: "unat (sa_Shard (Annotation_TSDB sh) + 1) = Suc s"
    using w(1)[folded s_def] by (simp add: unat_word_ariths(1))
  have last: "sa_Shard (Annotation_TSDB sh) + 1 = sa_Of (Annotation_TSDB sh) \<longleftrightarrow> Suc s = 2 ^ a"
    using us w(2) by (metis word_unat_eq_iff)
  have m1: "s * 2 ^ (64 - a) < 2 ^ 64" unfolding p using a by simp
  show "unat (fst (Bounds (Annotation_TSDB sh))) = s * 2 ^ (64 - a)"
    using m1 by (auto simp: Bounds_def Let_def w unat_push unat_ucast32 s_def)
  show "unat (snd (Bounds (Annotation_TSDB sh))) = (if Suc s = 2 ^ a then 2 ^ 64 - 1 else Suc s * 2 ^ (64 - a))"
  proof (cases "Suc s = 2 ^ a")
    case True
    then show ?thesis using last by (simp add: Bounds_def Let_def unsigned_minus_1_eq_mask mask_eq_exp_minus_1)
  next
    case False
    then have "Suc s < 2 ^ a" using a by simp
    then have "Suc s * 2 ^ (64 - a) < 2 ^ 64" unfolding p by (simp del: mult_Suc)
    then show ?thesis using False last us by (simp add: Bounds_def Let_def w unat_push unat_ucast32)
  qed
qed


lemma covers_bounds:
  assumes "query_shard a sh"
  defines "s \<equiv> nat (an_Shard sh)"
  shows "covers a sh fp \<longleftrightarrow> s * 2 ^ (64 - a) \<le> unat fp \<and> unat fp < Suc s * 2 ^ (64 - a)"
  unfolding covers_def s_def[symmetric]
  using less_eq_div_iff_mult_less_eq[of "2 ^ (64 - a)" s "unat fp"] div_less_iff_less_mult[of "2 ^ (64 - a)" "unat fp" "Suc s"]
  by auto

text \<open>The rounded-up quotient, as the code computes it.\<close>

lemma ceil_quotient:
  fixes M K :: nat
  assumes "0 < K"
  defines "u \<equiv> (if M div K * K \<noteq> M then M div K + 1 else M div K)"
  shows "i < u \<longleftrightarrow> i * K < M"
proof -
  have "M = M div K * K + M mod K" "M mod K < K" using assms(1) by simp_all
  then show ?thesis
  proof (cases "M mod K = 0")
    case True
    then have "M div K * K = M" by (metis dvd_div_mult_self mod_0_imp_dvd)
    then show ?thesis unfolding u_def using assms(1) by (metis mult_less_cancel2)
  next
    case False
    then have "M div K * K \<noteq> M" by (metis div_mult_self_is_m mod_mult_self2_is_0 mult.commute assms(1) mod_mult_self1_is_0)
    then have u: "u = M div K + 1" by (simp add: u_def)
    have "i < M div K + 1 \<longleftrightarrow> i * K \<le> M"
      using assms(1) by (simp add: less_Suc_eq_le less_eq_div_iff_mult_less_eq)
    moreover have "i * K \<noteq> M" using False by auto
    ultimately show ?thesis unfolding u by linarith
  qed
qed

lemma bp_range_spec:
  assumes q: "query_shard a sh" and len: "length shards = 2 ^ b" "b < 32"
    and r: "bp_range shards (Annotation_TSDB sh) = (lo, up)"
  defines "K \<equiv> (2 :: nat) ^ (64 - b)" and "M \<equiv> unat (snd (Bounds (Annotation_TSDB sh)))"
  shows "lo = nat (an_Shard sh) * 2 ^ (64 - a) div K" and "i < up \<longleftrightarrow> i * K < M"
proof -
  obtain mn mx where b: "Bounds (Annotation_TSDB sh) = (mn, mx)" by fastforce
  have K: "0 < K" by (simp add: K_def)
  have mn: "unat mn = nat (an_Shard sh) * 2 ^ (64 - a)" and mx: "unat mx = M"
    using query_shard_bounds[OF q] b by (auto simp: M_def)
  let ?u = "drop_bit (64 - b) mx"
  have u: "unat ?u = M div K" by (simp add: unat_drop mx K_def)
  have lt: "M < 2 ^ 64" using unat_u64_lt[of mx] mx by simp
  have "M div K * K \<le> M" by simp
  then have "M div K * K < 2 ^ 64" using lt by linarith
  then have p: "unat (push_bit (64 - b) ?u) = M div K * K" unfolding unat_push u K_def[symmetric] by (rule mod_less)
  then have cond: "push_bit (64 - b) ?u \<noteq> mx \<longleftrightarrow> M div K * K \<noteq> M" using mx by (metis word_unat_eq_iff)
  have "2 \<le> K" using len(2) power_increasing[of 1 "64 - b" "2 :: nat"] by (simp add: K_def)
  then have "M div K < 2 ^ 63" using lt div_le_mono2[of 2 K M] by simp
  then have inc: "unat (?u + 1) = M div K + 1" using u by (simp add: unat_word_ariths(1))
  have lo: "lo = unat (drop_bit (64 - b) mn)"
    and up: "up = unat (if push_bit (64 - b) ?u \<noteq> mx then ?u + 1 else ?u)"
    using r by (auto simp: bp_range_def Let_def b local_bits_pow[OF len])
  show "lo = nat (an_Shard sh) * 2 ^ (64 - a) div K" using lo by (simp add: unat_drop mn K_def)
  have "up = (if M div K * K \<noteq> M then M div K + 1 else M div K)"
    using up cond inc u by (simp only: if_distrib[of unat])
  then show "i < up \<longleftrightarrow> i * K < M" using ceil_quotient[OF K, of i M] by simp
qed


lemma bp_range_covers:
  assumes q: "query_shard a sh" and len: "length shards = 2 ^ b" "b < 32"
    and r: "bp_range shards (Annotation_TSDB sh) = (lo, up)"
  shows "lo \<le> up" "up \<le> 2 ^ b"
    and "covers a sh fp \<Longrightarrow> lo \<le> shardForFP shards fp \<and> shardForFP shards fp < up"
    and "a \<le> b \<Longrightarrow> lo \<le> shardForFP shards fp \<Longrightarrow> shardForFP shards fp < up \<Longrightarrow> covers a sh fp"
proof -
  define K P s M where "K = (2 :: nat) ^ (64 - b)" and "P = (2 :: nat) ^ (64 - a)" and "s = nat (an_Shard sh)"
    and "M = unat (snd (Bounds (Annotation_TSDB sh)))"
  note defs = K_def P_def s_def M_def
  have a: "a < 32" "s < 2 ^ a" using q by (auto simp: query_shard_def s_def nat_less_iff)
  have lo: "lo = s * P div K" and up: "\<And>i. i < up \<longleftrightarrow> i * K < M"
    using bp_range_spec[OF q len r] by (auto simp: defs)
  have M: "M = (if Suc s = 2 ^ a then 2 ^ 64 - 1 else Suc s * P)"
    using query_shard_bounds(2)[OF q] by (simp add: defs)
  have top: "(2 :: nat) ^ 64 = 2 ^ b * K" "(2 :: nat) ^ 64 = 2 ^ a * P"
    using len(2) a by (simp_all add: K_def P_def flip: power_add)
  have KP: "0 < K" "even K" "0 < P" using len(2) by (auto simp: K_def P_def)
  have Mlt: "M < 2 ^ 64" using unat_u64_lt by (simp add: M_def)
  have sP: "s * P < M"
  proof (cases "Suc s = 2 ^ a")
    case True
    then have "s * P + P = 2 ^ 64" using top(2) by (metis add.commute mult_Suc)
    moreover have "even P" using a by (simp add: P_def)
    then have "2 \<le> P" using KP(3) by (metis dvd_imp_le)
    moreover have "M = 2 ^ 64 - 1" unfolding M using True by (rule if_P)
    ultimately show ?thesis by linarith
  next
    case False
    then show ?thesis using M KP(3) by simp
  qed
  have "lo * K \<le> s * P" by (simp add: lo)
  then have "lo < up" using up[of lo] sP by simp
  then show "lo \<le> up" by simp
  show "up \<le> 2 ^ b"
  proof (rule ccontr)
    assume "\<not> up \<le> 2 ^ b"
    then have "2 ^ b * K < M" using up[of "2 ^ b"] by simp
    then show False using Mlt top(1) by simp
  qed
  define x i where "x = unat fp" and "i = shardForFP shards fp"
  have i: "i = x div K" using shardForFP_div[OF len] by (simp add: x_def i_def K_def)
  then have ix: "i * K \<le> x" "x < Suc i * K" using dividend_less_div_times[OF KP(1), of x] by (auto simp: algebra_simps)
  have cv: "covers a sh fp \<longleftrightarrow> s * P \<le> x \<and> x < Suc s * P" using covers_bounds[OF q] by (simp add: defs x_def)
  have x: "x < 2 ^ 64" unfolding x_def by (rule unat_u64_lt)
  show "lo \<le> shardForFP shards fp \<and> shardForFP shards fp < up" if "covers a sh fp"
  proof -
    have c: "s * P \<le> x" "x < Suc s * P" using that cv by auto
    have "s * P div K \<le> x div K" using c(1) by (rule div_le_mono)
    moreover have "i * K < M"
    proof (cases "Suc s = 2 ^ a")
      case True
      have "even (i * K)" "odd ((2 :: nat) ^ 64 - 1)" using KP(2) by auto
      then have "i * K \<noteq> 2 ^ 64 - 1" by metis
      moreover have "M = 2 ^ 64 - 1" unfolding M using True by (rule if_P)
      ultimately show ?thesis using ix(1) x by linarith
    next
      case False
      then have "M = Suc s * P" unfolding M by (rule if_not_P)
      then show ?thesis using ix(1) c(2) by linarith
    qed
    ultimately show ?thesis using lo up i unfolding i_def by simp
  qed
  show "covers a sh fp" if ab: "a \<le> b" "lo \<le> shardForFP shards fp" "shardForFP shards fp < up"
  proof -
    have PK: "P = 2 ^ (b - a) * K" using ab(1) len(2) by (simp add: P_def K_def flip: power_add)
    have "lo * K = s * P" unfolding lo PK using KP(1) by simp
    then have "s * P \<le> i * K" using ab(2) by (metis i_def mult_le_mono1)
    moreover have "Suc i * K \<le> Suc s * P"
    proof (cases "Suc s = 2 ^ a")
      case True
      have "i < 2 ^ b" using ab(3) \<open>up \<le> 2 ^ b\<close> by (simp add: i_def)
      then have "Suc i * K \<le> 2 ^ b * K" by (intro mult_le_mono1) simp
      then show ?thesis using True top by simp
    next
      case False
      then have "i * K < Suc s * 2 ^ (b - a) * K" using up[of i] ab(3) M by (simp add: i_def PK algebra_simps)
      then have "i < Suc s * 2 ^ (b - a)" using KP(1) by (metis mult_less_cancel2)
      then have "Suc i * K \<le> (Suc s * 2 ^ (b - a)) * K" by (intro mult_le_mono1) simp
      then show ?thesis by (simp only: PK mult.assoc)
    qed
    ultimately show ?thesis using cv ix by linarith
  qed
qed


subsection \<open>The bit-prefix index represents a registry\<close>

definition part :: "(u64 \<Rightarrow> bool) \<Rightarrow> registry \<Rightarrow> registry" where
  "part P S = (\<lambda>fp. if P fp then S fp else None)"

definition bp_represents :: "index_shards \<Rightarrow> registry \<Rightarrow> bool" where
  "bp_represents shards S \<longleftrightarrow> (\<exists>b < 32. length shards = 2 ^ b) \<and>
     (\<forall>i < length shards. represents (shards ! i) (part (\<lambda>fp. shardForFP shards fp = i) S))"

lemma holds_part: "holds (part P S) fp n v \<longleftrightarrow> P fp \<and> holds S fp n v"
  by (auto simp: holds_def part_def)

lemma satisfies_part: "ms \<noteq> [] \<Longrightarrow> satisfies Matches (part P S) ms fp \<longleftrightarrow> P fp \<and> satisfies Matches S ms fp"
  by (cases ms) (auto simp: satisfies_def holds_part)

lemma good_query_part: "good_query Matches S ms \<Longrightarrow> good_query Matches (part P S) ms"
  by (auto simp: good_query_def no_empty_values_def holds_part)

lemma shardForFP_length: "length shards' = length shards \<Longrightarrow> shardForFP shards' = shardForFP shards"
  by (simp add: shardForFP_def local_bits_def fun_eq_iff)

lemma shardForFP_in: "bp_represents shards S \<Longrightarrow> shardForFP shards fp < length shards"
  using prefix_in_range shardForFP_div by (auto simp: bp_represents_def)

lemma part_upd:
  "part P (S(fp := x)) = (if P fp then (part P S)(fp := x) else part P S)"
  by (auto simp: part_def fun_eq_iff)

lemma bp_Add_represents:
  assumes "bp_represents shards S" "S fp = None" "distinct (map lp_Name ls)"
  shows "\<exists>shards'. bp_Add shards ls fp = Some (shards', sort_labels ls) \<and> bp_represents shards' (S(fp \<mapsto> ls))"
proof -
  let ?i = "shardForFP shards fp"
  have i: "?i < length shards" using shardForFP_in[OF assms(1)] .
  let ?new = "shards[?i := fst (indexShard_add (shards ! ?i) ls fp)]"
  have "bp_Add shards ls fp = Some (?new, sort_labels ls)"
    using i by (simp add: bp_Add_def indexShard_add_def Let_def)
  moreover have "represents (fst (indexShard_add (shards ! ?i) ls fp)) ((part (\<lambda>x. shardForFP shards x = ?i) S)(fp \<mapsto> ls))"
    using assms i by (intro add_represents) (auto simp: bp_represents_def part_def)
  then have "bp_represents ?new (S(fp \<mapsto> ls))"
    using assms(1) i shardForFP_length[of ?new shards] unfolding bp_represents_def
    by (auto simp: part_upd nth_list_update simp del: fun_upd_apply)
  ultimately show ?thesis by blast
qed

lemma bp_Delete_represents:
  assumes "bp_represents shards S" "S fp = Some ls"
  shows "\<exists>shards'. bp_Delete shards ls fp = Some shards' \<and> bp_represents shards' (S(fp := None))"
proof -
  let ?i = "shardForFP shards fp"
  have i: "?i < length shards" using shardForFP_in[OF assms(1)] .
  let ?new = "shards[?i := indexShard_delete (shards ! ?i) ls fp]"
  have "bp_Delete shards ls fp = Some ?new" using i by (simp add: bp_Delete_def Let_def)
  moreover have "represents (indexShard_delete (shards ! ?i) ls fp) ((part (\<lambda>x. shardForFP shards x = ?i) S)(fp := None))"
    using assms i by (intro delete_represents) (auto simp: bp_represents_def part_def)
  then have "bp_represents ?new (S(fp := None))"
    using assms(1) i shardForFP_length[of ?new shards] unfolding bp_represents_def
    by (auto simp: part_upd nth_list_update simp del: fun_upd_apply)
  ultimately show ?thesis by blast
qed

text \<open>
  The lookups of consecutive shards, appended: because the shards are ordered by prefix, the
  result is sorted.
\<close>

lemma prefix_mono: "shardForFP shards x < shardForFP shards y \<Longrightarrow> x < y"
  unfolding shardForFP_def word_less_nat_alt unat_drop by (meson div_le_mono leD leI)

lemma concat_lookup:
  assumes r: "bp_represents shards S" and g: "good_query Matches S ms" and "lo \<le> up" "up \<le> length shards"
  shows "set (concat (map (\<lambda>s. indexShard_lookup Matches s ms) (drop lo (take up shards))))
      = {fp. satisfies Matches S ms fp \<and> lo \<le> shardForFP shards fp \<and> shardForFP shards fp < up}
    \<and> sorted_wrt (<) (concat (map (\<lambda>s. indexShard_lookup Matches s ms) (drop lo (take up shards))))"
  using assms(3,4)
proof (induction "up - lo" arbitrary: up)
  case 0
  then show ?case by auto
next
  case (Suc k)
  let ?f = "\<lambda>s. indexShard_lookup Matches s ms"
  obtain u where u: "up = Suc u" "lo \<le> u" "u < length shards" using Suc.hyps(2) Suc.prems by (cases up) auto
  have one: "set (?f (shards ! u)) = {fp. satisfies Matches S ms fp \<and> shardForFP shards fp = u}" "sorted_wrt (<) (?f (shards ! u))"
    using lookup_spec[OF _ good_query_part[OF g]] r u(3) g satisfies_part[of ms Matches]
    by (auto simp: bp_represents_def good_query_def)
  have IH: "set (concat (map ?f (drop lo (take u shards))))
      = {fp. satisfies Matches S ms fp \<and> lo \<le> shardForFP shards fp \<and> shardForFP shards fp < u}"
    "sorted_wrt (<) (concat (map ?f (drop lo (take u shards))))"
    using Suc.hyps(1)[of u] Suc.hyps(2) u by auto
  have split: "drop lo (take up shards) = drop lo (take u shards) @ [shards ! u]"
    using u by (simp add: take_Suc_conv_app_nth)
  have "x < y" if "x \<in> set (concat (map ?f (drop lo (take u shards))))" "y \<in> set (?f (shards ! u))" for x y
    using that prefix_mono[of shards x y] unfolding IH(1) one(1) by auto
  then show ?case unfolding split using IH one u by (auto simp: sorted_wrt_append simp del: set_concat)
qed


lemma cut_range:
  fixes xs :: "u64 list"
  assumes "sorted_wrt (<) xs" and "a \<le> b"
  shows "search_ge xs a \<le> search_ge xs b"
    and "set (drop (search_ge xs a) (take (search_ge xs b) xs)) = {x \<in> set xs. a \<le> x \<and> x < b}"
    and "sorted_wrt (<) (drop (search_ge xs a) (take (search_ge xs b) xs))"
proof -
  have s: "sorted xs" using assms(1) by (rule strict_sorted_imp_sorted)
  note sg = search_ge_takeWhile[OF s]
  have tb: "take (search_ge xs b) xs = takeWhile (\<lambda>y. y < b) xs" unfolding sg by (rule takeWhile_eq_take[symmetric])
  have tt: "takeWhile (\<lambda>y. y < a) (takeWhile (\<lambda>y. y < b) xs) = takeWhile (\<lambda>y. y < a) xs"
    using assms(2) by (induction xs) auto
  have da: "drop (search_ge xs a) (take (search_ge xs b) xs) = dropWhile (\<lambda>y. y < a) (takeWhile (\<lambda>y. y < b) xs)"
    unfolding tb sg[of a] dropWhile_eq_drop tt ..
  have "set (dropWhile (\<lambda>y. y < a) ys) = {y \<in> set ys. a \<le> y}" if "sorted ys" for ys :: "u64 list"
    using that by (induction ys) auto
  moreover have "set (takeWhile (\<lambda>y. y < b) xs) = {y \<in> set xs. y < b}" using s by (induction xs) auto
  moreover have "sorted (takeWhile (\<lambda>y. y < b) xs)" using s by (simp add: sorted_wrt_takeWhile)
  ultimately show "set (drop (search_ge xs a) (take (search_ge xs b) xs)) = {x \<in> set xs. a \<le> x \<and> x < b}"
    unfolding da by auto
  show "sorted_wrt (<) (drop (search_ge xs a) (take (search_ge xs b) xs))" using assms(1) by (simp add: sorted_wrt_drop sorted_wrt_take)
  show "search_ge xs a \<le> search_ge xs b" unfolding sg using assms(2) by (induction xs) auto
qed

lemma bp_validate_query: "query_shard a sh \<Longrightarrow> bp_validateShard (Some sh) = None"
  using query_shard_words(3)[of a sh] by (simp add: bp_validateShard_def query_shard_def)

lemma covers_words:
  assumes "query_shard a sh"
  shows "covers a sh fp \<and> fp \<noteq> - 1 \<longleftrightarrow> fst (Bounds (Annotation_TSDB sh)) \<le> fp \<and> fp < snd (Bounds (Annotation_TSDB sh))"
proof -
  let ?s = "nat (an_Shard sh)"
  have a: "a < 32" using assms by (simp add: query_shard_def)
  have top: "(2 :: nat) ^ 64 = 2 ^ a * 2 ^ (64 - a)" using a by (simp flip: power_add)
  have m1: "unat (- 1 :: u64) = 2 ^ 64 - 1" by (simp add: unsigned_minus_1_eq_mask mask_eq_exp_minus_1)
  have ne: "fp \<noteq> - 1 \<longleftrightarrow> unat fp < 2 ^ 64 - 1"
    using unat_u64_lt[of fp] m1 word_unat_eq_iff[of fp "- 1"] by linarith
  note b = query_shard_bounds[OF assms]
  show ?thesis
  proof (cases "Suc ?s = 2 ^ a")
    case True
    then have "Suc ?s * 2 ^ (64 - a) = 2 ^ 64" using top by simp
    then have "covers a sh fp \<longleftrightarrow> ?s * 2 ^ (64 - a) \<le> unat fp"
      using covers_bounds[OF assms, of fp] unat_u64_lt[of fp] by simp
    moreover have "unat (snd (Bounds (Annotation_TSDB sh))) = 2 ^ 64 - 1" unfolding b(2) using True by (rule if_P)
    ultimately show ?thesis unfolding word_le_nat_alt word_less_nat_alt b(1) ne by simp
  next
    case False
    have "?s < 2 ^ a" using assms by (simp add: query_shard_def nat_less_iff)
    then have "Suc ?s < 2 ^ a" using False by (rule Suc_lessI)
    then have "Suc ?s * 2 ^ (64 - a) < 2 ^ 64" unfolding top by (simp del: mult_Suc)
    then have "covers a sh fp \<Longrightarrow> unat fp < 2 ^ 64 - 1" using covers_bounds[OF assms, of fp] by linarith
    moreover have "unat (snd (Bounds (Annotation_TSDB sh))) = Suc ?s * 2 ^ (64 - a)" unfolding b(2) using False by (rule if_not_P)
    ultimately show ?thesis unfolding word_le_nat_alt word_less_nat_alt b(1) ne using covers_bounds[OF assms, of fp] by auto
  qed
qed

subsection \<open>Properties\<close>



lemma bp_empty: "b < 32 \<Longrightarrow> bp_represents (replicate (2 ^ b) []) Map.empty"
  using empty_represents by (auto simp: bp_represents_def part_def)


text \<open>
  Without a query shard the index meets the contract of \<open>label_index\<close>.
\<close>

definition bp_add_total :: "index_shards \<Rightarrow> labels \<Rightarrow> u64 \<Rightarrow> index_shards" where
  "bp_add_total shards ls fp = (case bp_Add shards ls fp of Some (s, _) \<Rightarrow> s | None \<Rightarrow> [])"

definition bp_delete_total :: "index_shards \<Rightarrow> labels \<Rightarrow> u64 \<Rightarrow> index_shards" where
  "bp_delete_total shards ls fp = (case bp_Delete shards ls fp of Some s \<Rightarrow> s | None \<Rightarrow> [])"

definition bp_look :: "(matcher \<Rightarrow> string \<Rightarrow> bool) \<Rightarrow> index_shards \<Rightarrow> matcher list \<Rightarrow> u64 list" where
  "bp_look Matches shards ms = (case bp_Lookup Matches shards ms None of Some (Inr fps) \<Rightarrow> fps | _ \<Rightarrow> [])"

lemma bp_look_spec:
  assumes "bp_represents shards S" "good_query Matches S ms"
  shows "set (bp_look Matches shards ms) = {fp. satisfies Matches S ms fp} \<and> sorted_wrt (<) (bp_look Matches shards ms)"
proof -
  have "bp_look Matches shards ms = concat (map (\<lambda>s. indexShard_lookup Matches s ms) (drop 0 (take (length shards) shards)))"
    using assms(2) by (simp add: bp_look_def bp_Lookup_def bp_validateShard_def bp_getShards_def good_query_def Let_def cong: map_cong)
  then show ?thesis using concat_lookup[OF assms, of 0 "length shards"] shardForFP_in[OF assms(1)] by auto
qed

interpretation bp: label_index bp_represents bp_add_total bp_delete_total bp_look
proof
  fix i S fp ls
  assume r: "bp_represents i S"
  show "S fp = None \<Longrightarrow> distinct (map lp_Name ls) \<Longrightarrow> bp_represents (bp_add_total i ls fp) (S(fp \<mapsto> ls))"
    using bp_Add_represents[OF r, of fp ls] by (auto simp: bp_add_total_def)
  show "S fp = Some ls \<Longrightarrow> bp_represents (bp_delete_total i ls fp) (S(fp := None))"
    using bp_Delete_represents[OF r, of fp ls] by (auto simp: bp_delete_total_def)
qed (rule bp_look_spec)

text \<open>
  The index the head uses, \<open>2 ^ b\<close> shards by bit prefix queried as a whole: after any history
  of additions and deletions, \<open>Lookup\<close> returns, sorted and without duplicates, exactly the
  fingerprints of the remaining series that satisfy the matchers.
\<close>

theorem bp_Lookup_history:
  assumes "b < 32" and "ops_allowed ops Map.empty" and "good_query Matches (fold registry_op ops Map.empty) ms"
  shows "set (bp_look Matches (fold (run_op bp_add_total bp_delete_total) ops (replicate (2 ^ b) [])) ms)
      = {fp. satisfies Matches (fold registry_op ops Map.empty) ms fp}
    \<and> sorted_wrt (<) (bp_look Matches (fold (run_op bp_add_total bp_delete_total) ops (replicate (2 ^ b) [])) ms)"
  by (rule bp.query_after_history[OF bp_empty[OF assms(1)] assms(2,3)])

end
