(* ===== verification/Mem_Postings.thy ===== *)
theory Mem_Postings
  imports Inverted_Index Postings_Sets "HOL-Library.Product_Lexorder"
begin

section \<open>Postings in memory (pkg/phlaredb/tsdb/index/postings.go, postingsstats.go)\<close>

text \<open>
  \<open>MemPostings\<close> collects, per label pair, the references of the series with that pair while an
  index is built, and the postings of all series under the empty pair. The map has the same shape
  as the one of \<open>Inverted_Index\<close>, whose accessors \<open>values_of\<close>, \<open>fps_of\<close> and \<open>idx_fps\<close> are used here:
  \<open>idx_fps m n v\<close> is Go's \<open>m[n][v]\<close>, with nil for a missing key. The lists may be written out of
  order until \<open>EnsureOrder\<close>; afterwards \<open>addFor\<close> repairs the order on every insertion. Every
  operation holds the lock (\<open>Delete\<close> takes it once per list), so the model is sequential.

  \<open>maxHeap\<close> keeps the largest entries of the statistics.
\<close>

record MemPostings =
  mp_m :: unlockIndex
  mp_ordered :: bool

definition NewMemPostings :: MemPostings where
  "NewMemPostings = \<lparr>mp_m = [], mp_ordered = True\<rparr>"

definition NewUnorderedMemPostings :: MemPostings where
  "NewUnorderedMemPostings = \<lparr>mp_m = [], mp_ordered = False\<rparr>"

definition allPostingsKey :: label_pair where
  "allPostingsKey = \<lparr>lp_Name = [], lp_Value = []\<rparr>"

definition mp_Symbols :: "MemPostings \<Rightarrow> string list" where
  "mp_Symbols p = sort (remdups (concat (map (\<lambda>(n, e). n # map fst e) (mp_m p))))"

definition mp_SortedKeys :: "MemPostings \<Rightarrow> (string \<times> string) list" where
  "mp_SortedKeys p = sort (concat (map (\<lambda>(n, e). map (\<lambda>(v, l). (n, v)) e) (mp_m p)))"

definition mp_LabelNames :: "MemPostings \<Rightarrow> string list" where
  "mp_LabelNames p = filter (\<lambda>n. n \<noteq> lp_Name allPostingsKey) (map fst (mp_m p))"

definition mp_LabelValues :: "MemPostings \<Rightarrow> string \<Rightarrow> string list" where
  "mp_LabelValues p name = map fst (values_of (mp_m p) name)"

definition mp_Get :: "MemPostings \<Rightarrow> string \<Rightarrow> string \<Rightarrow> postings" where
  "mp_Get p name val =
     (let lp = idx_fps (mp_m p) name val in if lp = [] then EmptyPostings else SliceP lp 0)"

definition mp_All :: "MemPostings \<Rightarrow> postings" where
  "mp_All p = mp_Get p (lp_Name allPostingsKey) (lp_Value allPostingsKey)"

text \<open>The workers sort every list of every batch, in place.\<close>

definition EnsureOrder :: "MemPostings \<Rightarrow> MemPostings" where
  "EnsureOrder p =
     (if mp_ordered p then p
      else p\<lparr>mp_m := map (\<lambda>(n, e). (n, map (\<lambda>(v, l). (v, sort l)) e)) (mp_m p), mp_ordered := True\<rparr>)"

text \<open>\<open>Delete\<close>: one list, all lists of a name with the clean-up of the name, all names.\<close>

definition delete_list :: "u64 set \<Rightarrow> string \<Rightarrow> string \<Rightarrow> unlockIndex \<Rightarrow> unlockIndex" where
  "delete_list deleted n l m =
     (if \<not> list_ex (\<lambda>r. r \<in> deleted) (idx_fps m n l) then m
      else let repl = filter (\<lambda>r. r \<notin> deleted) (idx_fps m n l)
           in if repl \<noteq> [] then AList.update n (AList.update l repl (values_of m n)) m
              else AList.update n (AList.delete l (values_of m n)) m)"

definition delete_name :: "u64 set \<Rightarrow> string \<Rightarrow> unlockIndex \<Rightarrow> unlockIndex" where
  "delete_name deleted n m =
     (let m' = fold (delete_list deleted n) (map fst (values_of m n)) m
      in if values_of m' n = [] then AList.delete n m' else m')"

definition mp_Delete :: "MemPostings \<Rightarrow> u64 set \<Rightarrow> MemPostings" where
  "mp_Delete p deleted = p\<lparr>mp_m := fold (delete_name deleted) (map fst (mp_m p)) (mp_m p)\<rparr>"

text \<open>\<open>Iter\<close> with a callback that has a state and may fail: the state and the first error.\<close>

fun iter_values :: "('s \<Rightarrow> string \<times> string \<Rightarrow> postings \<Rightarrow> string option \<times> 's) \<Rightarrow> string \<Rightarrow> value_entries \<Rightarrow> 's \<Rightarrow> string option \<times> 's" where
  "iter_values f n [] s = (None, s)"
| "iter_values f n ((v, l) # e) s =
     (case f s (n, v) (SliceP l 0) of (Some err, s) \<Rightarrow> (Some err, s) | (None, s) \<Rightarrow> iter_values f n e s)"

fun iter_names :: "('s \<Rightarrow> string \<times> string \<Rightarrow> postings \<Rightarrow> string option \<times> 's) \<Rightarrow> unlockIndex \<Rightarrow> 's \<Rightarrow> string option \<times> 's" where
  "iter_names f [] s = (None, s)"
| "iter_names f ((n, e) # m) s =
     (case iter_values f n e s of (Some err, s) \<Rightarrow> (Some err, s) | (None, s) \<Rightarrow> iter_names f m s)"

definition mp_Iter :: "MemPostings \<Rightarrow> ('s \<Rightarrow> string \<times> string \<Rightarrow> postings \<Rightarrow> string option \<times> 's) \<Rightarrow> 's \<Rightarrow> string option \<times> 's" where
  "mp_Iter p f s = iter_names f (mp_m p) s"

text \<open>The repair of the order, from index \<open>i\<close> downwards.\<close>

fun repair_order :: "u64 list \<Rightarrow> nat \<Rightarrow> u64 list" where
  "repair_order list 0 = list"
| "repair_order list (Suc i) =
     (if list ! Suc i \<ge> list ! i then list
      else repair_order (list[Suc i := list ! i, i := list ! Suc i]) i)"

definition addFor :: "u64 \<Rightarrow> label_pair \<Rightarrow> MemPostings \<Rightarrow> MemPostings" where
  "addFor ref l p =
     (let nm = values_of (mp_m p) (lp_Name l);
          list = fps_of nm (lp_Value l) @ [ref];
          list = (if mp_ordered p then repair_order list (length list - 1) else list)
      in p\<lparr>mp_m := AList.update (lp_Name l) (AList.update (lp_Value l) list nm) (mp_m p)\<rparr>)"

definition mp_Add :: "MemPostings \<Rightarrow> u64 \<Rightarrow> labels \<Rightarrow> MemPostings" where
  "mp_Add p ref lset = addFor ref allPostingsKey (fold (addFor ref) lset p)"

subsection \<open>The statistics\<close>

record Stat =
  st_Name :: string
  st_Count :: u64

record maxHeap =
  maxLength :: nat
  minValue :: u64
  minIndex :: nat
  Items :: "Stat list"

definition maxHeap_init :: "nat \<Rightarrow> maxHeap" where
  "maxHeap_init len = \<lparr>maxLength = len, minValue = - 1, minIndex = 0, Items = []\<rparr>"

text \<open>The loop that looks for a smaller value, from index \<open>i\<close> on.\<close>

fun rescan :: "Stat list \<Rightarrow> nat \<Rightarrow> u64 \<Rightarrow> nat \<Rightarrow> u64 \<times> nat" where
  "rescan [] i mv mi = (mv, mi)"
| "rescan (s # ss) i mv mi =
     (if st_Count s < mv then rescan ss (Suc i) (st_Count s) i else rescan ss (Suc i) mv mi)"

definition maxHeap_push :: "Stat \<Rightarrow> maxHeap \<Rightarrow> maxHeap" where
  "maxHeap_push item m =
     (if length (Items m) < maxLength m then
        let m = (if st_Count item < minValue m
                 then m\<lparr>minValue := st_Count item, minIndex := length (Items m)\<rparr> else m)
        in m\<lparr>Items := Items m @ [item]\<rparr>
      else if st_Count item < minValue m then m
      else let items = (Items m)[minIndex m := item];
               (mv, mi) = rescan items 0 (st_Count item) (minIndex m)
           in m\<lparr>Items := items, minValue := mv, minIndex := mi\<rparr>)"

definition maxHeap_get :: "maxHeap \<Rightarrow> Stat list" where
  "maxHeap_get m = sort_key (\<lambda>s. - int (unat (st_Count s))) (Items m)"

record PostingsStats =
  CardinalityMetricsStats :: "Stat list"
  CardinalityLabelStats :: "Stat list"
  LabelValueStats :: "Stat list"
  LabelValuePairsStats :: "Stat list"
  NumLabelPairs :: nat

text \<open>The loops of \<open>Stats\<close> over the values of a name and over the names, with the four heaps.\<close>

definition stats_value :: "string \<Rightarrow> string \<Rightarrow> string \<times> u64 list \<Rightarrow> maxHeap \<times> maxHeap \<times> u64 \<Rightarrow> maxHeap \<times> maxHeap \<times> u64" where
  "stats_value label n = (\<lambda>(name, ids) (metrics, labelValuePairs, size).
     let c = of_nat (length ids);
         metrics = (if n = label then maxHeap_push \<lparr>st_Name = name, st_Count = c\<rparr> metrics else metrics);
         labelValuePairs = maxHeap_push \<lparr>st_Name = n @ ''='' @ name, st_Count = c\<rparr> labelValuePairs
     in (metrics, labelValuePairs, size + of_nat (length name)))"

definition stats_name :: "string \<Rightarrow> string \<times> value_entries \<Rightarrow> maxHeap \<times> maxHeap \<times> maxHeap \<times> maxHeap \<times> nat
    \<Rightarrow> maxHeap \<times> maxHeap \<times> maxHeap \<times> maxHeap \<times> nat" where
  "stats_name label = (\<lambda>(n, e) (metrics, lbls, labelValueLength, labelValuePairs, numLabelPairs).
     if n = [] then (metrics, lbls, labelValueLength, labelValuePairs, numLabelPairs)
     else
       let lbls = maxHeap_push \<lparr>st_Name = n, st_Count = of_nat (length e)\<rparr> lbls;
           (metrics, labelValuePairs, size) = fold (stats_value label n) e (metrics, labelValuePairs, 0);
           labelValueLength = maxHeap_push \<lparr>st_Name = n, st_Count = size\<rparr> labelValueLength
       in (metrics, lbls, labelValueLength, labelValuePairs, numLabelPairs + length e))"

definition maxNumOfRecords :: nat where
  "maxNumOfRecords = 10"

definition mp_Stats :: "MemPostings \<Rightarrow> string \<Rightarrow> PostingsStats" where
  "mp_Stats p label =
     (let h = maxHeap_init maxNumOfRecords;
          (metrics, lbls, labelValueLength, labelValuePairs, numLabelPairs) =
            fold (stats_name label) (mp_m p) (h, h, h, h, 0)
      in \<lparr>CardinalityMetricsStats = maxHeap_get metrics,
          CardinalityLabelStats = maxHeap_get lbls,
          LabelValueStats = maxHeap_get labelValueLength,
          LabelValuePairsStats = maxHeap_get labelValuePairs,
          NumLabelPairs = numLabelPairs\<rparr>)"


subsection \<open>Insertion into one list\<close>

text \<open>The repaired list is the sorted list with the new reference at its place.\<close>

lemma nth_swap_last:
  "(xs @ [y, x] @ ys)[Suc (length xs) := y, length xs := x] = xs @ [x, y] @ ys"
  by (simp add: list_update_append)

lemma repair_spec:
  assumes "sorted xs"
  shows "repair_order (xs @ x # ys) (length xs) = takeWhile (\<lambda>y. y \<le> x) xs @ x # dropWhile (\<lambda>y. y \<le> x) xs @ ys"
  using assms
proof (induction xs arbitrary: ys rule: rev_induct)
  case (snoc y xs)
  have s: "sorted xs" "\<forall>z \<in> set xs. z \<le> y" using snoc.prems by (auto simp: sorted_append)
  show ?case
  proof (cases "y \<le> x")
    case True
    then have "\<forall>z \<in> set (xs @ [y]). z \<le> x" using s(2) by auto
    then have "takeWhile (\<lambda>y. y \<le> x) (xs @ [y]) = xs @ [y]" "dropWhile (\<lambda>y. y \<le> x) (xs @ [y]) = []"
      by (simp_all only: takeWhile_eq_all_conv dropWhile_eq_Nil_conv) 
    then show ?thesis using True by (simp add: nth_append)
  next
    case False
    have "repair_order ((xs @ [y]) @ x # ys) (length (xs @ [y])) = repair_order (xs @ x # y # ys) (length xs)"
      using False nth_swap_last[of xs y x ys] by (simp add: nth_append)
    also have "\<dots> = takeWhile (\<lambda>y. y \<le> x) xs @ x # dropWhile (\<lambda>y. y \<le> x) xs @ y # ys"
      using snoc.IH[OF s(1), of "y # ys"] by simp
    also have "\<dots> = takeWhile (\<lambda>y. y \<le> x) (xs @ [y]) @ x # dropWhile (\<lambda>y. y \<le> x) (xs @ [y]) @ ys"
      using False by (simp add: takeWhile_tail dropWhile_append takeWhile_append)
    finally show ?thesis .
  qed
qed simp

lemma repair_sorted:
  assumes "sorted xs"
  shows "sorted (repair_order (xs @ [x]) (length xs))" "mset (repair_order (xs @ [x]) (length xs)) = add_mset x (mset xs)"
proof -
  let ?t = "takeWhile (\<lambda>y. y \<le> x) xs" and ?d = "dropWhile (\<lambda>y. y \<le> x) xs"
  have r: "repair_order (xs @ [x]) (length xs) = ?t @ x # ?d" using repair_spec[OF assms, of x "[]"] by simp
  have "sorted (?t @ ?d)" using assms by simp
  moreover have "\<forall>y \<in> set ?d. x \<le> y" using assms by (induction xs) auto
  moreover have "\<forall>y \<in> set ?t. y \<le> x" by (auto dest: set_takeWhileD)
  ultimately show "sorted (repair_order (xs @ [x]) (length xs))"
    unfolding r by (auto simp: sorted_append intro: order_trans[of _ x])
  have "mset ?t + mset ?d = mset xs" by (metis mset_append takeWhile_dropWhile_id)
  then show "mset (repair_order (xs @ [x]) (length xs)) = add_mset x (mset xs)" unfolding r by simp
qed

subsection \<open>The abstraction: the registered series\<close>

definition listed :: "registry \<Rightarrow> string \<Rightarrow> string \<Rightarrow> u64 set" where
  "listed S n v = (if n = [] \<and> v = [] then dom S else {r. holds S r n v})"

definition mp_inv :: "MemPostings \<Rightarrow> registry \<Rightarrow> bool" where
  "mp_inv p S \<longleftrightarrow>
     (\<forall>n v. distinct (idx_fps (mp_m p) n v) \<and> set (idx_fps (mp_m p) n v) = listed S n v
        \<and> (mp_ordered p \<longrightarrow> sorted (idx_fps (mp_m p) n v)))"

definition put_list :: "bool \<Rightarrow> u64 list \<Rightarrow> u64 \<Rightarrow> u64 list" where
  "put_list ordered l r = (if ordered then repair_order (l @ [r]) (length l) else l @ [r])"

lemma put_list_mset: "(ordered \<longrightarrow> sorted l) \<Longrightarrow> mset (put_list ordered l r) = add_mset r (mset l)"
  by (simp add: put_list_def repair_sorted)

lemma put_list_sorted: "ordered \<Longrightarrow> sorted l \<Longrightarrow> sorted (put_list ordered l r)"
  by (simp add: put_list_def repair_sorted)

lemma addFor_fps:
  "idx_fps (mp_m (addFor r l p)) n v =
     (if n = lp_Name l \<and> v = lp_Value l then put_list (mp_ordered p) (idx_fps (mp_m p) n v) r else idx_fps (mp_m p) n v)"
  "mp_ordered (addFor r l p) = mp_ordered p"
  unfolding addFor_def Let_def by (simp_all add: idx_fps_update) (simp add: put_list_def idx_fps_def)

lemma addFor_fold:
  assumes "distinct (map (\<lambda>l. (lp_Name l, lp_Value l)) ls)"
  shows "idx_fps (mp_m (fold (addFor r) ls p)) n v =
     (if \<exists>l \<in> set ls. lp_Name l = n \<and> lp_Value l = v then put_list (mp_ordered p) (idx_fps (mp_m p) n v) r
      else idx_fps (mp_m p) n v) \<and> mp_ordered (fold (addFor r) ls p) = mp_ordered p"
  using assms by (induction ls arbitrary: p) (auto simp: addFor_fps image_iff)

lemma mp_Add_inv:
  assumes "mp_inv p S" "S r = None" "distinct (map lp_Name ls)" "\<forall>l \<in> set ls. lp_Name l \<noteq> []"
  shows "mp_inv (mp_Add p r ls) (S(r \<mapsto> ls))"
proof -
  let ?keys = "ls @ [allPostingsKey]"
  have "distinct (map (\<lambda>l. (lp_Name l, lp_Value l)) ls)"
    using assms(3) by (auto simp: distinct_map inj_on_def)
  then have dk: "distinct (map (\<lambda>l. (lp_Name l, lp_Value l)) ?keys)"
    using assms(4) by (auto simp: allPostingsKey_def)
  have add: "mp_Add p r ls = fold (addFor r) ?keys p" by (simp add: mp_Add_def)
  let ?new = "\<lambda>n v. \<exists>l \<in> set ?keys. lp_Name l = n \<and> lp_Value l = v"
  have fps: "idx_fps (mp_m (mp_Add p r ls)) n v =
      (if ?new n v then put_list (mp_ordered p) (idx_fps (mp_m p) n v) r else idx_fps (mp_m p) n v)"
    and ord: "mp_ordered (mp_Add p r ls) = mp_ordered p" for n v
    unfolding add using addFor_fold[OF dk] by auto
  have old: "r \<notin> listed S n v" for n v using assms(2) by (auto simp: listed_def holds_def)
  have lst: "listed (S(r \<mapsto> ls)) n v = (if ?new n v then insert r (listed S n v) else listed S n v)" for n v
    using assms(2,4) by (auto simp: listed_def holds_def allPostingsKey_def)
  show ?thesis unfolding mp_inv_def
  proof (intro allI)
    fix n v
    let ?l = "idx_fps (mp_m p) n v"
    have i: "distinct ?l" "set ?l = listed S n v" "mp_ordered p \<longrightarrow> sorted ?l" using assms(1) by (auto simp: mp_inv_def)
    note ms = put_list_mset[OF i(3), of r]
    have "distinct (put_list (mp_ordered p) ?l r)" "set (put_list (mp_ordered p) ?l r) = insert r (listed S n v)"
      using ms i old[of n v] mset_eq_setD[of "put_list (mp_ordered p) ?l r" "r # ?l"]
        mset_eq_imp_distinct_iff[of "put_list (mp_ordered p) ?l r" "r # ?l"] by auto
    then show "distinct (idx_fps (mp_m (mp_Add p r ls)) n v) \<and> set (idx_fps (mp_m (mp_Add p r ls)) n v) = listed (S(r \<mapsto> ls)) n v
        \<and> (mp_ordered (mp_Add p r ls) \<longrightarrow> sorted (idx_fps (mp_m (mp_Add p r ls)) n v))"
      using i put_list_sorted[of "mp_ordered p" ?l r] unfolding fps ord lst by auto
  qed
qed

text \<open>Deleting filters every list, whatever the order of the maps.\<close>

lemma delete_list_fps:
  "idx_fps (delete_list D n l m) n' l' =
     (if n' = n \<and> l' = l then filter (\<lambda>r. r \<notin> D) (idx_fps m n' l') else idx_fps m n' l')"
proof (cases "list_ex (\<lambda>r. r \<in> D) (idx_fps m n l)")
  case False
  then have "filter (\<lambda>r. r \<notin> D) (idx_fps m n l) = idx_fps m n l" by (auto simp: list_ex_iff filter_id_conv)
  then show ?thesis using False by (auto simp: delete_list_def)
next
  case True
  have "idx_fps (AList.update n (AList.delete l (values_of m n)) m) n' l' =
      (if n' = n \<and> l' = l then [] else idx_fps m n' l')"
    by (simp add: idx_fps_def values_of_def fps_of_def AList.update_conv' AList.delete_conv' split: option.splits)
  then show ?thesis using True by (auto simp: delete_list_def Let_def idx_fps_update)
qed

lemma delete_list_fold:
  "idx_fps (fold (delete_list D n) ls m) n' l' =
     (if n' = n \<and> l' \<in> set ls then filter (\<lambda>r. r \<notin> D) (idx_fps m n' l') else idx_fps m n' l')"
  by (induction ls arbitrary: m) (auto simp: delete_list_fps)

lemma idx_fps_no_value: "v \<notin> fst ` set (values_of m n) \<Longrightarrow> idx_fps m n v = []"
  by (simp add: idx_fps_def fps_of_def map_of_eq_None_iff[THEN iffD2])

lemma idx_fps_no_name: "n \<notin> fst ` set m \<Longrightarrow> idx_fps m n v = []"
  by (simp add: idx_fps_def values_of_def fps_of_def map_of_eq_None_iff[THEN iffD2])

lemma delete_name_fps:
  "idx_fps (delete_name D n m) n' l' =
     (if n' = n then filter (\<lambda>r. r \<notin> D) (idx_fps m n' l') else idx_fps m n' l')"
proof -
  let ?m = "fold (delete_list D n) (map fst (values_of m n)) m"
  have m: "idx_fps ?m n' l' = (if n' = n then filter (\<lambda>r. r \<notin> D) (idx_fps m n' l') else idx_fps m n' l')"
    using idx_fps_no_value[of l' m n] by (auto simp: delete_list_fold)
  have "idx_fps (AList.delete n ?m) n' l' = idx_fps ?m n' l'" if "values_of ?m n = []"
    using that by (auto simp: idx_fps_def values_of_def fps_of_def AList.delete_conv' split: option.splits)
  then show ?thesis using m by (auto simp: delete_name_def Let_def)
qed

lemma delete_names_fold:
  "idx_fps (fold (delete_name D) ns m) n' l' =
     (if n' \<in> set ns then filter (\<lambda>r. r \<notin> D) (idx_fps m n' l') else idx_fps m n' l')"
  by (induction ns arbitrary: m) (auto simp: delete_name_fps)

lemma mp_Delete_fps: "idx_fps (mp_m (mp_Delete p D)) n v = filter (\<lambda>r. r \<notin> D) (idx_fps (mp_m p) n v)"
  using idx_fps_no_name[of n "mp_m p" v] by (auto simp: mp_Delete_def delete_names_fold)

lemma mp_Delete_inv: "mp_inv p S \<Longrightarrow> mp_inv (mp_Delete p D) (S |` (- D))"
proof -
  assume i: "mp_inv p S"
  have "listed (S |` (- D)) n v = {r \<in> listed S n v. r \<notin> D}" for n v
    by (auto simp: listed_def holds_def restrict_map_def split: if_splits)
  moreover have "mp_ordered (mp_Delete p D) = mp_ordered p" by (simp add: mp_Delete_def)
  ultimately show ?thesis using i by (auto simp: mp_inv_def mp_Delete_fps intro: sorted_filter[where f = "\<lambda>x. x", simplified])
qed

lemma EnsureOrder_fps:
  "idx_fps (mp_m (EnsureOrder p)) n v = (if mp_ordered p then idx_fps (mp_m p) n v else sort (idx_fps (mp_m p) n v))"
proof -
  have "fps_of (map (\<lambda>(v, l). (v, sort l)) e) v = sort (fps_of e v)" for e
    by (induction e) (auto simp: fps_of_def)
  moreover have "values_of (map (\<lambda>(n, e). (n, map (\<lambda>(v, l). (v, sort l)) e)) m) n = map (\<lambda>(v, l). (v, sort l)) (values_of m n)" for m
    by (induction m) (auto simp: values_of_def)
  ultimately show ?thesis by (simp add: EnsureOrder_def idx_fps_def)
qed

lemma EnsureOrder_inv: "mp_inv p S \<Longrightarrow> mp_inv (EnsureOrder p) S \<and> mp_ordered (EnsureOrder p)"
  by (simp add: mp_inv_def EnsureOrder_fps) (simp add: EnsureOrder_def)

subsection \<open>Histories\<close>

datatype mp_op = MAdd u64 labels | MDelete "u64 set" | MEnsureOrder

fun mp_run :: "mp_op \<Rightarrow> MemPostings \<Rightarrow> MemPostings" where
  "mp_run (MAdd r ls) p = mp_Add p r ls"
| "mp_run (MDelete D) p = mp_Delete p D"
| "mp_run MEnsureOrder p = EnsureOrder p"

fun mp_registry :: "mp_op \<Rightarrow> registry \<Rightarrow> registry" where
  "mp_registry (MAdd r ls) S = S(r \<mapsto> ls)"
| "mp_registry (MDelete D) S = S |` (- D)"
| "mp_registry MEnsureOrder S = S"

text \<open>A series is added under a positive reference that is not in use, with distinct label names.\<close>

fun mp_allowed :: "mp_op \<Rightarrow> registry \<Rightarrow> bool" where
  "mp_allowed (MAdd r ls) S \<longleftrightarrow> r \<noteq> 0 \<and> S r = None \<and> distinct (map lp_Name ls) \<and> (\<forall>l \<in> set ls. lp_Name l \<noteq> [])"
| "mp_allowed _ S \<longleftrightarrow> True"

fun mp_history :: "mp_op list \<Rightarrow> registry \<Rightarrow> bool" where
  "mp_history [] S \<longleftrightarrow> True"
| "mp_history (op # ops) S \<longleftrightarrow> mp_allowed op S \<and> mp_history ops (mp_registry op S)"

lemma mp_run_inv:
  "mp_inv p S \<Longrightarrow> 0 \<notin> dom S \<Longrightarrow> mp_allowed op S \<Longrightarrow> mp_inv (mp_run op p) (mp_registry op S) \<and> 0 \<notin> dom (mp_registry op S)"
  by (cases op) (auto simp: mp_Add_inv mp_Delete_inv EnsureOrder_inv dom_restrict simp del: fun_upd_apply)

lemma mp_history_inv:
  "mp_inv p S \<Longrightarrow> 0 \<notin> dom S \<Longrightarrow> mp_history ops S \<Longrightarrow>
     mp_inv (fold mp_run ops p) (fold mp_registry ops S) \<and> 0 \<notin> dom (fold mp_registry ops S)"
  by (induction ops arbitrary: p S) (auto dest: mp_run_inv)

lemma mp_new_inv: "mp_inv NewMemPostings Map.empty" "mp_inv NewUnorderedMemPostings Map.empty"
  by (auto simp: mp_inv_def NewMemPostings_def NewUnorderedMemPostings_def idx_fps_def values_of_def fps_of_def listed_def holds_def)

lemma mp_Get_expands:
  assumes "mp_inv p S" "0 \<notin> dom S" "mp_ordered p"
  shows "\<exists>k. ExpandPostings k (mp_Get p n v) = Some (sorted_list_of_set (listed S n v), None)"
proof -
  let ?l = "idx_fps (mp_m p) n v"
  have l: "distinct ?l" "set ?l = listed S n v" "sorted ?l" using assms(1,3) by (auto simp: mp_inv_def)
  have z: "0 \<notin> set ?l" using assms(2) l(2) by (auto simp: listed_def holds_def split: if_splits)
  have g: "mp_Get p n v = SliceP ?l 0" by (auto simp: mp_Get_def Let_def EmptyPostings_def)
  have "\<forall>y \<in> set ?l. 0 < y" using z by (metis word_gt_0)
  moreover have "unat y < 2 ^ 64" for y :: u64 using unsigned_less[where ?'a = nat, of y] by simp
  ultimately have lf: "leaf (2 ^ 64) (SliceP ?l 0)"
    using l(1,3) by (auto simp: strict_sorted_iff simp del: power_numeral)
  then show ?thesis using expand_valid[of "2 ^ 64" 0 "SliceP ?l 0"] elems_slice[OF lf] l(2) g by simp
qed

subsection \<open>The largest entries\<close>

lemma rescan_spec:
  "rescan ss i mv mi = (mv', mi') \<Longrightarrow>
     mv' \<le> mv \<and> (\<forall>s \<in> set ss. mv' \<le> st_Count s)
     \<and> (mv' = mv \<and> mi' = mi \<or> (\<exists>j < length ss. mi' = i + j \<and> st_Count (ss ! j) = mv'))"
proof (induction ss arbitrary: i mv mi)
  case (Cons s ss)
  show ?case
  proof (cases "st_Count s < mv")
    case True
    then show ?thesis using Cons.IH[of "Suc i" "st_Count s" i] Cons.prems
      by (auto intro: exI[of _ 0] exI[of _ "Suc _"])
  next
    case False
    then show ?thesis using Cons.IH[of "Suc i" mv mi] Cons.prems by (auto intro: exI[of _ "Suc _"])
  qed
qed simp

text \<open>
  The state after the entries of \<open>X\<close> were pushed: the kept ones, the dropped ones \<open>R\<close> that are not
  larger, and the position of a smallest kept one.
\<close>

definition heap_state :: "nat \<Rightarrow> maxHeap \<Rightarrow> Stat multiset \<Rightarrow> bool" where
  "heap_state k m X \<longleftrightarrow> maxLength m = k \<and> length (Items m) \<le> k
     \<and> (\<exists>R. X = mset (Items m) + R \<and> (R \<noteq> {#} \<longrightarrow> length (Items m) = k)
          \<and> (\<forall>r \<in># R. \<forall>s \<in> set (Items m). st_Count r \<le> st_Count s))
     \<and> (\<forall>s \<in> set (Items m). minValue m \<le> st_Count s)
     \<and> (if Items m = [] then minValue m = - 1 \<and> minIndex m = 0
        else minIndex m < length (Items m) \<and> st_Count (Items m ! minIndex m) = minValue m)"

lemma push_room:
  assumes "heap_state k m X" "length (Items m) < k"
  shows "heap_state k (maxHeap_push s m) (add_mset s X)"
proof -
  obtain R where R: "X = mset (Items m) + R" "R = {#}"
    using assms by (auto simp: heap_state_def)
  have "(- 1 :: u64) \<le> c \<longleftrightarrow> c = - 1" for c by (metis max_word_max order_antisym order_refl)
  then show ?thesis using assms R(1)[unfolded R(2)]
    by (auto simp: heap_state_def maxHeap_push_def Let_def nth_append not_less split: if_splits)
qed

lemma push_full:
  assumes "heap_state k m X" "length (Items m) = k" "0 < k"
  shows "heap_state k (maxHeap_push s m) (add_mset s X)"
proof -
  obtain R where R: "X = mset (Items m) + R" "\<forall>r \<in># R. \<forall>s \<in> set (Items m). st_Count r \<le> st_Count s"
    using assms(1) by (auto simp: heap_state_def)
  have i: "maxLength m = k" "minIndex m < length (Items m)" "st_Count (Items m ! minIndex m) = minValue m"
    "\<forall>s \<in> set (Items m). minValue m \<le> st_Count s"
    using assms by (auto simp: heap_state_def split: if_splits)
  show ?thesis
  proof (cases "st_Count s < minValue m")
    case True
    then have "\<forall>r \<in># add_mset s R. \<forall>s \<in> set (Items m). st_Count r \<le> st_Count s"
      using R(2) i(4) by (auto intro: order_trans less_imp_le)
    moreover have "maxHeap_push s m = m" using True assms(2) i(1) by (simp add: maxHeap_push_def)
    ultimately show ?thesis using assms R(1) i unfolding heap_state_def
      by (auto intro!: exI[of _ "add_mset s R"])
  next
    case False
    let ?items = "(Items m)[minIndex m := s]" and ?d = "Items m ! minIndex m"
    obtain mv mi where rs: "rescan ?items 0 (st_Count s) (minIndex m) = (mv, mi)" by fastforce
    have push: "maxHeap_push s m = m\<lparr>Items := ?items, minValue := mv, minIndex := mi\<rparr>"
      using False assms(2) i(1) rs by (simp add: maxHeap_push_def Let_def)
    note spec = rescan_spec[OF rs]
    have dm: "add_mset s (mset (Items m)) = add_mset ?d (mset ?items)"
      using i(2) by (simp add: mset_update)
    have low: "\<forall>r \<in># add_mset ?d R. \<forall>s \<in> set ?items. st_Count r \<le> st_Count s"
    proof (intro ballI)
      fix r t assume r: "r \<in># add_mset ?d R" and t: "t \<in> set ?items"
      have "st_Count r \<le> minValue m" using r R(2)[rule_format, OF _ nth_mem[OF i(2)]] i(3) by (auto simp: i(3))
      moreover have "minValue m \<le> st_Count t"
        using t i(4) False set_update_subset_insert[of "Items m" "minIndex m" s] by (auto simp: not_less)
      ultimately show "st_Count r \<le> st_Count t" by (rule order_trans)
    qed
    have pos: "mi < length ?items \<and> st_Count (?items ! mi) = mv"
      using spec i(2) by (cases "mv = st_Count s \<and> mi = minIndex m") auto
    show ?thesis unfolding heap_state_def push
      using low pos spec assms(2) i dm R(1)
      by (auto intro!: exI[of _ "add_mset ?d R"])
  qed
qed

lemma pushes_state:
  "0 < k \<Longrightarrow> heap_state k m X \<Longrightarrow> heap_state k (fold maxHeap_push xs m) (X + mset xs)"
proof (induction xs arbitrary: m X)
  case (Cons s xs)
  have "heap_state k (maxHeap_push s m) (add_mset s X)"
    using push_room[OF Cons.prems(2), of s] push_full[OF Cons.prems(2) _ Cons.prems(1), of s] Cons.prems(2)
    by (cases "length (Items m) < k") (auto simp: heap_state_def)
  then show ?case using Cons.IH[OF Cons.prems(1)] by fastforce
qed simp

subsection \<open>Properties\<close>

text \<open>
  C6. \<open>MemPostings\<close>: after any history of additions, deletions and ordering, started ordered or
  unordered, once the lists are ordered \<open>Get\<close> yields, in increasing order and without error, exactly
  the references of the live series with the label pair, and for the empty pair all live series.
\<close>

theorem MemPostings_history:
  assumes "p\<^sub>0 \<in> {NewMemPostings, NewUnorderedMemPostings}" and "mp_history ops Map.empty"
    and "mp_ordered (fold mp_run ops p\<^sub>0)"
  shows "\<exists>k. ExpandPostings k (mp_Get (fold mp_run ops p\<^sub>0) n v)
    = Some (sorted_list_of_set (listed (fold mp_registry ops Map.empty) n v), None)"
proof -
  have "mp_inv p\<^sub>0 Map.empty" using assms(1) mp_new_inv by auto
  then show ?thesis using mp_history_inv[of p\<^sub>0 Map.empty ops] assms(2,3) by (intro mp_Get_expands) auto
qed

theorem MemPostings_history_witness:
  "\<exists>k. ExpandPostings k (mp_Get (fold mp_run [MAdd 7 [\<lparr>lp_Name = ''a'', lp_Value = ''b''\<rparr>],
      MAdd 4 [\<lparr>lp_Name = ''a'', lp_Value = ''b''\<rparr>], MEnsureOrder, MDelete {7}] NewUnorderedMemPostings) ''a'' ''b'')
    = Some ([4], None)"
proof -
  let ?l = "[\<lparr>lp_Name = ''a'', lp_Value = ''b''\<rparr>]"
  let ?ops = "[MAdd 7 ?l, MAdd 4 ?l, MEnsureOrder, MDelete {7}]"
  have "listed (fold mp_registry ?ops Map.empty) ''a'' ''b'' = {4}"
    by (auto simp: listed_def holds_def restrict_map_def split: if_splits)
  moreover have "mp_ordered (fold mp_run ?ops NewUnorderedMemPostings)"
    by (simp add: mp_Delete_def EnsureOrder_def)
  moreover have "mp_history ?ops Map.empty" by simp
  ultimately show ?thesis
    using MemPostings_history[of NewUnorderedMemPostings ?ops "''a''" "''b''"] by simp
qed

text \<open>
  \<open>maxHeap\<close>: pushing any entries and reading the heap returns, in descending order of their
  counts, \<open>k\<close> of the pushed entries (all of them when there are fewer), and no entry that is left
  out has a larger count than one that is returned.
\<close>

lemma maxHeap_top_k:
  assumes "0 < k"
  shows "sorted_wrt (\<lambda>a b. st_Count a \<ge> st_Count b) (maxHeap_get (fold maxHeap_push xs (maxHeap_init k)))
    \<and> length (maxHeap_get (fold maxHeap_push xs (maxHeap_init k))) = min k (length xs)
    \<and> (\<exists>R. mset xs = mset (maxHeap_get (fold maxHeap_push xs (maxHeap_init k))) + R
         \<and> (\<forall>r \<in># R. \<forall>s \<in> set (maxHeap_get (fold maxHeap_push xs (maxHeap_init k))). st_Count r \<le> st_Count s))"
proof -
  let ?m = "fold maxHeap_push xs (maxHeap_init k)"
  have "heap_state k (maxHeap_init k) {#}" by (simp add: heap_state_def maxHeap_init_def)
  then have st: "heap_state k ?m (mset xs)" using pushes_state[OF assms] by fastforce
  then obtain R where R: "mset xs = mset (Items ?m) + R" "R \<noteq> {#} \<longrightarrow> length (Items ?m) = k"
    "\<forall>r \<in># R. \<forall>s \<in> set (Items ?m). st_Count r \<le> st_Count s" "length (Items ?m) \<le> k"
    by (auto simp: heap_state_def)
  have "length xs = length (Items ?m) + size R" using arg_cong[OF R(1), of size] by simp
  then have "length (Items ?m) = min k (length xs)" using R(2,4) by (cases "R = {#}") auto
  moreover have "sorted_wrt (\<lambda>a b. st_Count a \<ge> st_Count b) (maxHeap_get ?m)"
    using sorted_sort_key[of "\<lambda>s. - int (unat (st_Count s))" "Items ?m"]
    by (simp add: maxHeap_get_def sorted_map word_le_def)
  ultimately show ?thesis using R(1,3) by (auto simp: maxHeap_get_def)
qed

end
