(* ===== verification/Go_Sort.thy ===== *)
theory Go_Sort
  imports Go_Heap
begin

section \<open>sort.Slice with a comparison function\<close>

text \<open>
  The insertion sort of Go's package \<open>sort\<close>: the element at index \<open>i\<close> is swapped to the left while
  it is less than its neighbour. The sorted prefix is kept in reverse, so that the neighbour is its
  head. For a strict weak order the result is sorted, and it is a permutation for any \<open>less\<close>.
\<close>

fun swap_left :: "('a \<Rightarrow> 'a \<Rightarrow> bool) \<Rightarrow> 'a \<Rightarrow> 'a list \<Rightarrow> 'a list" where
  "swap_left lt x [] = [x]"
| "swap_left lt x (y # ys) = (if lt x y then y # swap_left lt x ys else x # y # ys)"

definition sort_slice :: "('a \<Rightarrow> 'a \<Rightarrow> bool) \<Rightarrow> 'a list \<Rightarrow> 'a list" where
  "sort_slice lt xs = rev (fold (swap_left lt) xs [])"

lemma mset_swap_left: "mset (swap_left lt x ys) = add_mset x (mset ys)"
  by (induction ys) auto

lemma mset_fold_swap_left: "mset (fold (swap_left lt) xs ys) = mset xs + mset ys"
  by (induction xs arbitrary: ys) (auto simp: mset_swap_left)

lemma mset_sort_slice [simp]: "mset (sort_slice lt xs) = mset xs"
  by (simp add: sort_slice_def mset_fold_swap_left)

lemma set_sort_slice [simp]: "set (sort_slice lt xs) = set xs"
  by (metis mset_sort_slice set_mset_mset)

lemma length_sort_slice [simp]: "length (sort_slice lt xs) = length xs"
  by (metis mset_sort_slice size_mset)

context heap_order
begin

lemma swap_left_sorted:
  "sorted_wrt (\<lambda>a b. \<not> lt a b) ys \<Longrightarrow> sorted_wrt (\<lambda>a b. \<not> lt a b) (swap_left lt x ys)"
proof (induction ys)
  case (Cons y ys)
  have st: "set (swap_left lt x ys) = insert x (set ys)"
    by (metis mset_swap_left set_mset_mset set_mset_add_mset_insert)
  have y: "\<forall>z \<in> set ys. \<not> lt y z" "sorted_wrt (\<lambda>a b. \<not> lt a b) ys" using Cons.prems by auto
  show ?case
  proof (cases "lt x y")
    case True
    then show ?thesis using Cons.IH[OF y(2)] y(1) lt_asym[OF True] st by simp
  next
    case False
    then have "\<forall>z \<in> set ys. \<not> lt x z" using y(1) nlt_trans by blast
    then show ?thesis using False Cons.prems by simp
  qed
qed simp

lemma fold_swap_left_sorted:
  "sorted_wrt (\<lambda>a b. \<not> lt a b) ys \<Longrightarrow> sorted_wrt (\<lambda>a b. \<not> lt a b) (fold (swap_left lt) xs ys)"
  by (induction xs arbitrary: ys) (auto intro: swap_left_sorted)

lemma sort_slice_sorted: "sorted_wrt (\<lambda>a b. \<not> lt b a) (sort_slice lt xs)"
  using fold_swap_left_sorted[of "[]" xs] by (simp add: sort_slice_def sorted_wrt_rev)

end

end
