(* ===== verification/Iterators.thy ===== *)
theory Iterators
  imports Go_Sort Labels "HOL-Library.Monad_Syntax"
begin

section \<open>Iterators (pkg/iter: iter.go, batch.go, profiles.go)\<close>

text \<open>
  The interface \<open>Iterator\<close> is a record of its methods over a state type: a method that changes the
  iterator returns its new state. \<open>Next\<close> and the loops that call it may run forever, so they are
  partial (\<open>None\<close> is a run that does not end). An error is the list of its messages, \<open>[]\<close> is nil;
  \<open>multierror\<close> concatenates.

  What an iterator does is the inductive relation \<open>yields I i xs e\<close>: repeated calls of \<open>Next\<close> give
  the elements \<open>xs\<close> and then end with error \<open>e\<close>; as it is inductive it includes that the calls end.
  The combinators are specified by what they yield in terms of what their inputs yield, for every
  implementation of the interface.
\<close>

type_synonym errs = "string list"

record ('i, 'a) Iterator =
  it_Next :: "'i \<Rightarrow> (bool \<times> 'i) option"
  it_At :: "'i \<Rightarrow> 'a"
  it_Err :: "'i \<Rightarrow> errs"
  it_Close :: "'i \<Rightarrow> errs \<times> 'i"

subsection \<open>Slices and errors\<close>

record 'a sliceIterator =
  sl_list :: "'a list"
  sl_cur :: "'a option"

definition NewSliceIterator :: "'a list \<Rightarrow> 'a sliceIterator" where
  "NewSliceIterator s = \<lparr>sl_list = s, sl_cur = None\<rparr>"

definition slice_next :: "'a sliceIterator \<Rightarrow> bool \<times> 'a sliceIterator" where
  "slice_next i =
     (case sl_list i of
        x # xs \<Rightarrow> (True, \<lparr>sl_list = xs, sl_cur = Some x\<rparr>)
      | [] \<Rightarrow> (False, i\<lparr>sl_cur := None\<rparr>))"

text \<open>\<open>At\<close> before the first and after the last element is the zero value of the element type.\<close>

definition slice_iterator :: "'a \<Rightarrow> ('a sliceIterator, 'a) Iterator" where
  "slice_iterator zero =
     \<lparr>it_Next = (\<lambda>i. Some (slice_next i)), it_At = (\<lambda>i. case sl_cur i of Some x \<Rightarrow> x | None \<Rightarrow> zero),
      it_Err = (\<lambda>i. []), it_Close = (\<lambda>i. ([], i))\<rparr>"

definition err_iterator :: "'a \<Rightarrow> (errs, 'a) Iterator" where
  "err_iterator zero =
     \<lparr>it_Next = (\<lambda>i. Some (False, i)), it_At = (\<lambda>i. zero), it_Err = (\<lambda>i. i), it_Close = (\<lambda>i. ([], i))\<rparr>"

text \<open>\<open>Slice\<close>: the elements and the error at the end; \<open>Close\<close> is deferred and its result ignored.\<close>

partial_function (option) Slice_loop ::
    "('i, 'a) Iterator \<Rightarrow> 'i \<Rightarrow> 'a list \<Rightarrow> ('a list \<times> errs) option" where
  "Slice_loop it i result = do {
     (ok, i) \<leftarrow> it_Next it i;
     if ok then Slice_loop it i (result @ [it_At it i]) else Some (result, it_Err it i) }"

definition Slice :: "('i, 'a) Iterator \<Rightarrow> 'i \<Rightarrow> ('a list \<times> errs) option" where
  "Slice it i = Slice_loop it i []"

text \<open>\<open>CloneN\<close>; \<open>as_slice\<close> is the type assertion to a slice iterator.\<close>

definition CloneN :: "('i \<Rightarrow> 'a sliceIterator option) \<Rightarrow> ('i, 'a) Iterator \<Rightarrow> 'i \<Rightarrow> nat \<Rightarrow>
    (errs + 'a sliceIterator list) option" where
  "CloneN as_slice it i n =
     (case as_slice i of
        Some sl \<Rightarrow> Some (Inr (replicate n (NewSliceIterator (sl_list sl))))
      | None \<Rightarrow> do {
          (xs, err) \<leftarrow> Slice it i;
          Some (if err \<noteq> [] then Inl err else Inr (replicate n (NewSliceIterator xs))) })"

subsection \<open>Batches\<close>

partial_function (option) fill_batch ::
    "('i, 'a) Iterator \<Rightarrow> nat \<Rightarrow> 'i \<Rightarrow> 'a list \<Rightarrow> ('i \<times> 'a list) option" where
  "fill_batch it batchSize i batch = do {
     (ok, i) \<leftarrow> it_Next it i;
     if \<not> ok then Some (i, batch)
     else let batch = batch @ [it_At it i]
          in if length batch \<ge> batchSize then Some (i, batch) else fill_batch it batchSize i batch }"

partial_function (option) ReadBatch ::
    "('i, 'a) Iterator \<Rightarrow> nat \<Rightarrow> ('s \<Rightarrow> 'a list \<Rightarrow> errs \<times> 's) \<Rightarrow> 'i \<Rightarrow> 's \<Rightarrow> (errs \<times> 's) option" where
  "ReadBatch it batchSize fn i s = do {
     (i, batch) \<leftarrow> fill_batch it batchSize i [];
     if it_Err it i \<noteq> [] then Some (it_Err it i, s)
     else if batch = [] then Some ([], s)
     else case fn s batch of (err, s) \<Rightarrow> if err \<noteq> [] then Some (err, s) else ReadBatch it batchSize fn i s }"

subsection \<open>Sorting by timestamp and labels\<close>

text \<open>The interface \<open>Profile\<close>: the labels and the timestamp (\<open>model.Time\<close>, an int64) of a value.\<close>

definition profile_less :: "('p \<Rightarrow> labels) \<Rightarrow> ('p \<Rightarrow> i64) \<Rightarrow> 'p \<Rightarrow> 'p \<Rightarrow> bool" where
  "profile_less lbls ts p1 p2 =
     (if ts p1 = ts p2 then CompareLabelPairs (lbls p1) (lbls p2) < 0 else sint (ts p1) < sint (ts p2))"

definition iter_heap_less :: "('p \<Rightarrow> labels) \<Rightarrow> ('p \<Rightarrow> i64) \<Rightarrow> ('i, 'p) Iterator \<Rightarrow> 'i \<Rightarrow> 'i \<Rightarrow> bool" where
  "iter_heap_less lbls ts it i j = profile_less lbls ts (it_At it i) (it_At it j)"

record ('i, 'p) SortIterator =
  si_heap :: "'i list"
  si_errs :: errs
  si_curr :: "'p option"

definition requeue :: "('p \<Rightarrow> labels) \<Rightarrow> ('p \<Rightarrow> i64) \<Rightarrow> ('i, 'p) Iterator \<Rightarrow>
    ('i, 'p) SortIterator \<Rightarrow> 'i \<Rightarrow> ('i, 'p) SortIterator option" where
  "requeue lbls ts it s ei = do {
     (ok, ei) \<leftarrow> it_Next it ei;
     Some (if ok then s\<lparr>si_heap := heap_push (iter_heap_less lbls ts it) (si_heap s) ei\<rparr>
           else s\<lparr>si_errs := si_errs s @ it_Err it ei @ fst (it_Close it ei)\<rparr>) }"

fun requeue_all :: "('p \<Rightarrow> labels) \<Rightarrow> ('p \<Rightarrow> i64) \<Rightarrow> ('i, 'p) Iterator \<Rightarrow>
    ('i, 'p) SortIterator \<Rightarrow> 'i list \<Rightarrow> ('i, 'p) SortIterator option" where
  "requeue_all lbls ts it s [] = Some s"
| "requeue_all lbls ts it s (ei # iters) = do { s \<leftarrow> requeue lbls ts it s ei; requeue_all lbls ts it s iters }"

definition NewSortProfileIterator :: "('p \<Rightarrow> labels) \<Rightarrow> ('p \<Rightarrow> i64) \<Rightarrow> ('i, 'p) Iterator \<Rightarrow>
    'i list \<Rightarrow> ('i, 'p) SortIterator option" where
  "NewSortProfileIterator lbls ts it iters =
     requeue_all lbls ts it \<lparr>si_heap = [], si_errs = [], si_curr = None\<rparr> iters"

definition sort_Next :: "('p \<Rightarrow> labels) \<Rightarrow> ('p \<Rightarrow> i64) \<Rightarrow> ('i, 'p) Iterator \<Rightarrow>
    ('i, 'p) SortIterator \<Rightarrow> (bool \<times> ('i, 'p) SortIterator) option" where
  "sort_Next lbls ts it s =
     (if si_heap s = [] then Some (False, s)
      else
        let (ei, heap) = heap_pop (iter_heap_less lbls ts it) (si_heap s)
        in do {
          s \<leftarrow> requeue lbls ts it (s\<lparr>si_heap := heap, si_curr := Some (it_At it ei)\<rparr>) ei;
          Some (True, s) })"

definition sort_Close :: "('i, 'p) Iterator \<Rightarrow> ('i, 'p) SortIterator \<Rightarrow> errs \<times> ('i, 'p) SortIterator" where
  "sort_Close it s =
     (let s = s\<lparr>si_errs := si_errs s @ concat (map (\<lambda>ei. it_Err it (snd (it_Close it ei))) (si_heap s)),
                si_heap := map (\<lambda>ei. snd (it_Close it ei)) (si_heap s)\<rparr>
      in (si_errs s, s))"

definition sort_iterator :: "('p \<Rightarrow> labels) \<Rightarrow> ('p \<Rightarrow> i64) \<Rightarrow> 'p \<Rightarrow> ('i, 'p) Iterator \<Rightarrow>
    (('i, 'p) SortIterator, 'p) Iterator" where
  "sort_iterator lbls ts zero it =
     \<lparr>it_Next = sort_Next lbls ts it, it_At = (\<lambda>s. case si_curr s of Some p \<Rightarrow> p | None \<Rightarrow> zero),
      it_Err = si_errs, it_Close = sort_Close it\<rparr>"

subsection \<open>Restriction to a time range\<close>

partial_function (option) ranged_Next :: "('p \<Rightarrow> i64) \<Rightarrow> ('i, 'p) Iterator \<Rightarrow> i64 \<Rightarrow> i64 \<Rightarrow> 'i \<Rightarrow> (bool \<times> 'i) option" where
  "ranged_Next ts it mn mx i = do {
     (ok, i) \<leftarrow> it_Next it i;
     if \<not> ok then Some (False, i)
     else if sint (ts (it_At it i)) < sint mn then ranged_Next ts it mn mx i
     else if sint (ts (it_At it i)) > sint mx then Some (False, i)
     else Some (True, i) }"

definition ranged_iterator :: "('p \<Rightarrow> i64) \<Rightarrow> ('i, 'p) Iterator \<Rightarrow> i64 \<Rightarrow> i64 \<Rightarrow> ('i, 'p) Iterator" where
  "ranged_iterator ts it mn mx = it\<lparr>it_Next := ranged_Next ts it mn mx\<rparr>"

subsection \<open>What an iterator yields\<close>

text \<open>An exhausted iterator stays exhausted and keeps its error.\<close>

coinductive ended :: "('i, 'a) Iterator \<Rightarrow> errs \<Rightarrow> 'i \<Rightarrow> bool" for it e where
  endedI: "it_Next it i = Some (False, j) \<Longrightarrow> it_Err it j = e \<Longrightarrow> ended it e j \<Longrightarrow> ended it e i"

inductive_cases endedE: "ended it e i"

inductive yields :: "('i, 'a) Iterator \<Rightarrow> 'i \<Rightarrow> 'a list \<Rightarrow> errs \<Rightarrow> bool" for it where
  yields_Nil: "ended it e i \<Longrightarrow> yields it i [] e"
| yields_Cons: "it_Next it i = Some (True, j) \<Longrightarrow> (e = [] \<longrightarrow> it_Err it j = []) \<Longrightarrow> yields it j xs e \<Longrightarrow>
    yields it i (it_At it j # xs) e"

inductive_cases yields_NilE: "yields it i [] e"
inductive_cases yields_ConsE: "yields it i (x # xs) e"

lemma ended_next: "ended it e i \<Longrightarrow> \<exists>j. it_Next it i = Some (False, j) \<and> it_Err it j = e"
  by (erule endedE) blast

lemma ended_error: "ended it e i \<Longrightarrow> ended it f i \<Longrightarrow> e = f"
  by (drule ended_next, drule ended_next) auto

lemma yields_unique: "yields it i xs e \<Longrightarrow> yields it i ys f \<Longrightarrow> ys = xs \<and> f = e"
proof (induction arbitrary: ys f rule: yields.induct)
  case (yields_Nil e i)
  note nx = ended_next[OF yields_Nil.hyps]
  from yields_Nil.prems show ?case
  proof (cases rule: yields.cases)
    case yields_Nil
    then show ?thesis using ended_error[OF \<open>ended it e i\<close>] by simp
  next
    case (yields_Cons j xs)
    then show ?thesis using nx by simp
  qed
next
  case (yields_Cons i j e xs)
  from yields_Cons.prems show ?case
  proof (cases rule: yields.cases)
    case yields_Nil
    then show ?thesis using ended_next yields_Cons.hyps(1) by fastforce
  next
    case (yields_Cons j' xs')
    then show ?thesis using yields_Cons.hyps(1) \<open>it_Next it i = Some (True, j)\<close>
      \<open>\<And>ys f. yields it j ys f \<Longrightarrow> ys = xs \<and> f = e\<close> by auto
  qed
qed

lemma Slice_loop_yields: "yields it i xs e \<Longrightarrow> Slice_loop it i res = Some (res @ xs, e)"
proof (induction arbitrary: res rule: yields.induct)
  case (yields_Nil e i)
  then show ?case by (auto simp: Slice_loop.simps[of it i] dest: ended_next)
next
  case (yields_Cons i j e xs)
  then show ?case by (simp add: Slice_loop.simps[of it i])
qed

lemma Slice_yields: "yields it i xs e \<Longrightarrow> Slice it i = Some (xs, e)"
  by (simp add: Slice_def Slice_loop_yields)

lemma slice_ended: "sl_list i = [] \<Longrightarrow> ended (slice_iterator z) [] i"
proof (coinduction arbitrary: i)
  case (ended i)
  then show ?case by (auto simp: slice_iterator_def slice_next_def)
qed

lemma slice_yields: "yields (slice_iterator z) i (sl_list i) []"
proof (induction "sl_list i" arbitrary: i)
  case Nil
  then show ?case by (metis slice_ended yields_Nil)
next
  case (Cons x xs)
  let ?j = "\<lparr>sl_list = xs, sl_cur = Some x\<rparr>"
  have n: "it_Next (slice_iterator z) i = Some (True, ?j)" "it_At (slice_iterator z) ?j = x" "it_Err (slice_iterator z) ?j = []"
    using Cons.hyps(2)[symmetric] by (simp_all add: slice_iterator_def slice_next_def)
  have "yields (slice_iterator z) ?j xs []" using Cons.hyps(1)[of ?j] by simp
  then show ?case using yields_Cons[OF n(1)] n(2,3) Cons.hyps(2) by metis
qed

lemma NewSliceIterator_yields: "yields (slice_iterator z) (NewSliceIterator xs) xs []"
  using slice_yields[of z "NewSliceIterator xs"] by (simp add: NewSliceIterator_def)

subsection \<open>Batches\<close>

lemma fill_batch_yields:
  assumes "yields it i xs []" and "length batch < max 1 n"
  shows "\<exists>j. fill_batch it n i batch = Some (j, batch @ take (max 1 n - length batch) xs)
    \<and> it_Err it j = [] \<and> yields it j (drop (max 1 n - length batch) xs) []"
  using assms
proof (induction xs arbitrary: i batch)
  case Nil
  then have "ended it [] i" by (blast elim: yields_NilE)
  then obtain j where "it_Next it i = Some (False, j)" "it_Err it j = []" "ended it [] j" by (rule endedE)
  then show ?case by (auto simp: fill_batch.simps[of it n i] intro: yields_Nil)
next
  case (Cons x xs)
  from Cons.prems(1) obtain j where j: "it_Next it i = Some (True, j)" "it_At it j = x" "it_Err it j = []" "yields it j xs []"
    by (auto elim: yields_ConsE)
  let ?b = "batch @ [x]"
  show ?case
  proof (cases "length ?b \<ge> n")
    case True
    then have "max 1 n - length batch = 1" using Cons.prems(2) by auto
    then show ?thesis using j True by (simp add: fill_batch.simps[of it n i])
  next
    case False
    then have "max 1 n - length batch = Suc (max 1 n - length ?b)" by auto
    then show ?thesis using Cons.IH[OF j(4), of ?b] j False by (simp add: fill_batch.simps[of it n i])
  qed
qed

text \<open>The batches of a list, and a callback run over them until it fails.\<close>

function batches :: "nat \<Rightarrow> 'a list \<Rightarrow> 'a list list" where
  "batches n xs = (if xs = [] then [] else take (max 1 n) xs # batches n (drop (max 1 n) xs))"
  by pat_completeness auto
termination
  by (relation "measure (\<lambda>(n, xs). length xs)") auto

declare batches.simps [simp del]

lemma batches_Nil [simp]: "batches n [] = []"
  by (simp add: batches.simps[of n "[]"])

fun run_batches :: "('s \<Rightarrow> 'a list \<Rightarrow> errs \<times> 's) \<Rightarrow> 'a list list \<Rightarrow> 's \<Rightarrow> errs \<times> 's" where
  "run_batches fn [] s = ([], s)"
| "run_batches fn (b # bs) s = (case fn s b of (err, s) \<Rightarrow> if err \<noteq> [] then (err, s) else run_batches fn bs s)"

lemma batches_concat: "concat (batches n xs) = xs"
proof (induction n xs rule: batches.induct)
  case (1 n xs)
  then show ?case by (cases "xs = []"; subst batches.simps) auto
qed

lemma batches_size:
  "b \<in> set (batches n xs) \<Longrightarrow> b \<noteq> [] \<and> length b \<le> max 1 n"
proof (induction n xs rule: batches.induct)
  case (1 n xs)
  then show ?case by (cases "xs = []") (auto simp: batches.simps[of n xs])
qed

lemma ReadBatch_yields: "yields it i xs [] \<Longrightarrow> ReadBatch it n fn i s = Some (run_batches fn (batches n xs) s)"
proof (induction n xs arbitrary: i s rule: batches.induct)
  case (1 n xs)
  obtain j where j: "fill_batch it n i [] = Some (j, take (max 1 n) xs)" "it_Err it j = []"
    "yields it j (drop (max 1 n) xs) []"
    using fill_batch_yields[OF "1.prems", of "[]" n] by (auto simp: less_max_iff_disj)
  show ?case
  proof (cases "xs = []")
    case True
    then show ?thesis using j by (simp add: ReadBatch.simps[of it n fn i s])
  next
    case False
    obtain err s' where f: "fn s (take (max 1 n) xs) = (err, s')" by fastforce
    have "take (max 1 n) xs \<noteq> []" using False by simp
    then show ?thesis using j f False "1.IH"[OF False j(3), of s']
      by (simp add: ReadBatch.simps[of it n fn i s] batches.simps[of n xs])
  qed
qed

subsection \<open>Sorting\<close>

text \<open>The order of profiles is the lexicographic order of timestamp and label pairs.\<close>

definition profile_key :: "('p \<Rightarrow> labels) \<Rightarrow> ('p \<Rightarrow> i64) \<Rightarrow> 'p \<Rightarrow> int \<times> (string \<times> string) list" where
  "profile_key lbls ts p = (sint (ts p), map label_key (lbls p))"

lemma profile_less_key: "profile_less lbls ts a b \<longleftrightarrow> profile_key lbls ts a < profile_key lbls ts b"
proof -
  have "sint (ts a) = sint (ts b) \<longleftrightarrow> ts a = ts b" using signed_word_eqI[of "ts a" "ts b", where ?'a = int] by auto
  then show ?thesis
    by (auto simp: profile_less_def profile_key_def CompareLabelPairs_less less_prod_def order_le_less)
qed

interpretation pi: heap_order "iter_heap_less lbls ts it" for lbls ts it
  by unfold_locales (auto simp: iter_heap_less_def profile_less_key)

abbreviation in_order :: "('p \<Rightarrow> labels) \<Rightarrow> ('p \<Rightarrow> i64) \<Rightarrow> 'p list \<Rightarrow> bool" where
  "in_order lbls ts xs \<equiv> sorted (map (profile_key lbls ts) xs)"

definition rest :: "('i, 'a) Iterator \<Rightarrow> 'i \<Rightarrow> 'a list" where
  "rest it i = (THE xs. \<exists>e. yields it i xs e)"

definition failure :: "('i, 'a) Iterator \<Rightarrow> 'i \<Rightarrow> errs" where
  "failure it i = (THE e. \<exists>xs. yields it i xs e)"

lemma rest_eq: "yields it i xs e \<Longrightarrow> rest it i = xs" and failure_eq: "yields it i xs e \<Longrightarrow> failure it i = e"
  unfolding rest_def failure_def by (blast dest: yields_unique)+

definition sort_inv :: "('p \<Rightarrow> labels) \<Rightarrow> ('p \<Rightarrow> i64) \<Rightarrow> ('i, 'p) Iterator \<Rightarrow> ('i, 'p) SortIterator \<Rightarrow> bool" where
  "sort_inv lbls ts it s \<longleftrightarrow> is_heap (iter_heap_less lbls ts it) (si_heap s)
     \<and> (\<forall>q \<in> set (si_heap s). yields it q (rest it q) (failure it q) \<and> in_order lbls ts (it_At it q # rest it q))"

definition pending :: "('i, 'p) Iterator \<Rightarrow> 'i multiset \<Rightarrow> 'p multiset" where
  "pending it h = (\<Sum>q \<in># h. add_mset (it_At it q) (mset (rest it q)))"

definition all_errs :: "('i, 'p) Iterator \<Rightarrow> ('i, 'p) SortIterator \<Rightarrow> string set" where
  "all_errs it s = set (si_errs s) \<union> (\<Union>q \<in> set (si_heap s). set (failure it q))"

lemma pending_add [simp]: "pending it (add_mset q h) = add_mset (it_At it q) (mset (rest it q)) + pending it h"
  by (simp add: pending_def)

lemma requeue_ok:
  assumes inv: "sort_inv lbls ts it s" and y: "yields it q xs e" and ord: "in_order lbls ts xs"
    and closes: "\<And>j. fst (it_Close it j) = []"
  shows "\<exists>s'. requeue lbls ts it s q = Some s' \<and> sort_inv lbls ts it s' \<and> si_curr s' = si_curr s
    \<and> pending it (mset (si_heap s')) = pending it (mset (si_heap s)) + mset xs \<and> all_errs it s' = all_errs it s \<union> set e"
proof (cases xs)
  case Nil
  then have "ended it e q" using y by (blast elim: yields_NilE)
  from ended_next[OF this] obtain j where j: "it_Next it q = Some (False, j)" "it_Err it j = e" by blast
  let ?s = "s\<lparr>si_errs := si_errs s @ e\<rparr>"
  have "requeue lbls ts it s q = Some ?s" using j closes by (simp add: requeue_def)
  then show ?thesis using inv Nil by (auto simp: sort_inv_def all_errs_def)
next
  case (Cons x ys)
  with y obtain j where j: "it_Next it q = Some (True, j)" "it_At it j = x" "yields it j ys e"
    by (auto elim: yields_ConsE)
  let ?h = "heap_push (iter_heap_less lbls ts it) (si_heap s) j"
  have r: "requeue lbls ts it s q = Some (s\<lparr>si_heap := ?h\<rparr>)" using j(1) by (simp add: requeue_def)
  have m: "mset ?h = add_mset j (mset (si_heap s))" by (rule mset_heap_push)
  then have st: "set ?h = insert j (set (si_heap s))" by (metis set_mset_add_mset_insert set_mset_mset)
  note eqs = rest_eq[OF j(3)] failure_eq[OF j(3)]
  have "sort_inv lbls ts it (s\<lparr>si_heap := ?h\<rparr>)"
    using inv j ord Cons pi.is_heap_push[of lbls ts it "si_heap s" j] eqs by (auto simp: sort_inv_def st)
  then show ?thesis using r m eqs j(2) Cons by (auto simp: all_errs_def st)
qed

lemma requeue_all_ok:
  assumes "sort_inv lbls ts it s" and "list_all2 (\<lambda>i (xs, e). yields it i xs e \<and> in_order lbls ts xs) iters contents"
    and closes: "\<And>j. fst (it_Close it j) = []"
  shows "\<exists>s'. requeue_all lbls ts it s iters = Some s' \<and> sort_inv lbls ts it s'
    \<and> pending it (mset (si_heap s')) = pending it (mset (si_heap s)) + mset (concat (map fst contents))
    \<and> all_errs it s' = all_errs it s \<union> set (concat (map snd contents))"
  using assms(2,1)
proof (induction arbitrary: s rule: list_all2_induct)
  case (Cons i iters c contents)
  obtain xs e where c: "c = (xs, e)" "yields it i xs e" "in_order lbls ts xs" using Cons.hyps(1) by (cases c) auto
  obtain s1 where s1: "requeue lbls ts it s i = Some s1" "sort_inv lbls ts it s1"
      "pending it (mset (si_heap s1)) = pending it (mset (si_heap s)) + mset xs" "all_errs it s1 = all_errs it s \<union> set e"
    using requeue_ok[OF Cons.prems c(2,3) closes] by blast
  show ?case using Cons.IH[OF s1(2)] s1 c(1) by (auto simp: ac_simps)
qed simp

text \<open>The element that \<open>heap.Pop\<close> returns is least among everything that is still to come.\<close>

lemma head_least:
  assumes "sort_inv lbls ts it s" and "x \<in># pending it (mset (si_heap s))"
  shows "profile_key lbls ts (it_At it (si_heap s ! 0)) \<le> profile_key lbls ts x"
proof -
  from assms(2) obtain q where q: "q \<in> set (si_heap s)" "x = it_At it q \<or> x \<in> set (rest it q)"
    by (auto simp: pending_def)
  then obtain k where k: "k < length (si_heap s)" "si_heap s ! k = q" by (auto simp: in_set_conv_nth)
  have "profile_key lbls ts (it_At it (si_heap s ! 0)) \<le> profile_key lbls ts (it_At it q)"
    using pi.is_heap_min[OF _ k(1), of lbls ts it] assms(1) k(2)
    by (simp add: sort_inv_def iter_heap_less_def profile_less_key not_less)
  moreover have "in_order lbls ts (it_At it q # rest it q)" using assms(1) q(1) by (simp add: sort_inv_def)
  ultimately show ?thesis using q(2) by (auto intro: order_trans)
qed

lemma sort_ended: "si_heap s = [] \<Longrightarrow> si_errs s = e \<Longrightarrow> ended (sort_iterator lbls ts z it) e s"
proof (coinduction arbitrary: s)
  case (ended s)
  then show ?case by (auto simp: sort_iterator_def sort_Next_def)
qed

lemma sort_yields:
  assumes "sort_inv lbls ts it s" and closes: "\<And>j. fst (it_Close it j) = []"
  shows "\<exists>L e. yields (sort_iterator lbls ts z it) s L e \<and> in_order lbls ts L
    \<and> mset L = pending it (mset (si_heap s)) \<and> set e = all_errs it s"
  using assms(1)
proof (induction "size (pending it (mset (si_heap s)))" arbitrary: s rule: less_induct)
  case less
  show ?case
  proof (cases "si_heap s = []")
    case True
    then show ?thesis using yields_Nil[OF sort_ended[OF True refl], of lbls ts z it] by (auto simp: pending_def all_errs_def)
  next
    case False
    let ?lt = "iter_heap_less lbls ts it"
    let ?q = "si_heap s ! 0"
    obtain h where pop: "heap_pop ?lt (si_heap s) = (?q, h)"
      using heap_pop_spec(1)[OF False, of ?lt] by (metis prod.collapse)
    have h: "add_mset ?q (mset h) = mset (si_heap s)" "is_heap ?lt h"
      using heap_pop_spec(2)[OF False, of ?lt] pi.is_heap_pop[of lbls ts it "si_heap s"] less.prems pop
      by (auto simp: sort_inv_def)
    have sub: "set (si_heap s) = insert ?q (set h)" using h(1) by (metis set_mset_add_mset_insert set_mset_mset)
    let ?s0 = "s\<lparr>si_heap := h, si_curr := Some (it_At it ?q)\<rparr>"
    have inv0: "sort_inv lbls ts it ?s0" using less.prems h(2) sub by (simp add: sort_inv_def)
    have q: "yields it ?q (rest it ?q) (failure it ?q)" "in_order lbls ts (rest it ?q)"
      using less.prems sub by (auto simp: sort_inv_def)
    obtain s1 where s1: "requeue lbls ts it ?s0 ?q = Some s1" "sort_inv lbls ts it s1" "si_curr s1 = Some (it_At it ?q)"
        "pending it (mset (si_heap s1)) = pending it (mset h) + mset (rest it ?q)" "all_errs it s1 = all_errs it ?s0 \<union> set (failure it ?q)"
      using requeue_ok[OF inv0 q closes] by auto
    have pend: "pending it (mset (si_heap s)) = add_mset (it_At it ?q) (pending it (mset (si_heap s1)))"
      using s1(4) by (simp flip: h(1))
    then obtain L e where L: "yields (sort_iterator lbls ts z it) s1 L e" "in_order lbls ts L"
        "mset L = pending it (mset (si_heap s1))" "set e = all_errs it s1"
      using less.hyps[of s1] s1(2) by auto
    have "all_errs it s1 = all_errs it s" using s1(5) sub by (auto simp: all_errs_def)
    moreover have "yields (sort_iterator lbls ts z it) s (it_At it ?q # L) e"
    proof -
      have "it_Next (sort_iterator lbls ts z it) s = Some (True, s1)"
        using False pop s1(1) by (simp add: sort_iterator_def sort_Next_def)
      moreover have "e = [] \<longrightarrow> it_Err (sort_iterator lbls ts z it) s1 = []"
        using L(4) by (auto simp: sort_iterator_def all_errs_def)
      moreover have "it_At (sort_iterator lbls ts z it) s1 = it_At it ?q" using s1(3) by (simp add: sort_iterator_def)
      ultimately show ?thesis using yields_Cons[of "sort_iterator lbls ts z it" s s1 e L] L(1) by simp
    qed
    moreover have "in_order lbls ts (it_At it ?q # L)"
    proof -
      have "x \<in># pending it (mset (si_heap s))" if "x \<in> set L" for x
        using that L(3) pend by (metis insert_iff set_mset_add_mset_insert set_mset_mset)
      then show ?thesis using L(2) head_least[OF less.prems] by auto
    qed
    ultimately show ?thesis using L(3,4) pend by (intro exI[of _ "it_At it ?q # L"] exI[of _ e]) simp
  qed
qed

lemma sort_merges:
  assumes "list_all2 (\<lambda>i (xs, e). yields it i xs e \<and> in_order lbls ts xs) iters contents"
    and "\<And>j. fst (it_Close it j) = []"
  shows "\<exists>s L e. NewSortProfileIterator lbls ts it iters = Some s \<and> yields (sort_iterator lbls ts z it) s L e
    \<and> in_order lbls ts L \<and> mset L = mset (concat (map fst contents)) \<and> set e = set (concat (map snd contents))"
proof -
  let ?s0 = "\<lparr>si_heap = [], si_errs = [], si_curr = None\<rparr> :: ('a, 'b) SortIterator"
  have "sort_inv lbls ts it ?s0" by (simp add: sort_inv_def is_heap_def)
  from requeue_all_ok[OF this assms] obtain s where s: "NewSortProfileIterator lbls ts it iters = Some s" "sort_inv lbls ts it s"
    "pending it (mset (si_heap s)) = mset (concat (map fst contents))" "all_errs it s = set (concat (map snd contents))"
    by (auto simp: NewSortProfileIterator_def pending_def all_errs_def)
  then show ?thesis using sort_yields[OF s(2) assms(2), of z] by auto
qed

subsection \<open>Time ranges\<close>

definition in_range :: "('p \<Rightarrow> i64) \<Rightarrow> i64 \<Rightarrow> i64 \<Rightarrow> 'p \<Rightarrow> bool" where
  "in_range ts mn mx p \<longleftrightarrow> sint mn \<le> sint (ts p) \<and> sint (ts p) \<le> sint mx"

lemma ranged_Next_yields:
  assumes "yields it i xs []" and "sorted (map (\<lambda>p. sint (ts p)) xs)"
  shows "\<exists>j. case filter (in_range ts mn mx) xs of
      [] \<Rightarrow> ranged_Next ts it mn mx i = Some (False, j) \<and> it_Err it j = []
         \<and> (\<exists>ys. yields it j ys [] \<and> sorted (map (\<lambda>p. sint (ts p)) ys) \<and> filter (in_range ts mn mx) ys = [])
    | y # ys \<Rightarrow> ranged_Next ts it mn mx i = Some (True, j) \<and> it_At it j = y \<and> it_Err it j = []
         \<and> (\<exists>zs. yields it j zs [] \<and> sorted (map (\<lambda>p. sint (ts p)) zs) \<and> filter (in_range ts mn mx) zs = ys)"
  using assms
proof (induction xs arbitrary: i)
  case Nil
  then have "ended it [] i" by (blast elim: yields_NilE)
  then obtain j where "it_Next it i = Some (False, j)" "it_Err it j = []" "ended it [] j" by (rule endedE)
  then show ?case by (auto simp: ranged_Next.simps[of ts it mn mx i] intro!: exI[of _ j] exI[of _ "[]"] yields_Nil)
next
  case (Cons x xs)
  from Cons.prems(1) obtain j where j: "it_Next it i = Some (True, j)" "it_At it j = x" "it_Err it j = []" "yields it j xs []"
    by (auto elim: yields_ConsE)
  have srt: "sorted (map (\<lambda>p. sint (ts p)) xs)" using Cons.prems(2) by simp
  note step = ranged_Next.simps[of ts it mn mx i]
  consider (low) "sint (ts x) < sint mn" | (high) "sint mn \<le> sint (ts x)" "sint mx < sint (ts x)" | (mid) "in_range ts mn mx x"
    by (fastforce simp: in_range_def not_less)
  then show ?case
  proof cases
    case low
    then have eqs: "ranged_Next ts it mn mx i = ranged_Next ts it mn mx j" "filter (in_range ts mn mx) (x # xs) = filter (in_range ts mn mx) xs"
      using j step by (auto simp: in_range_def)
    show ?thesis unfolding eqs by (rule Cons.IH[OF j(4) srt])
  next
    case high
    then have "filter (in_range ts mn mx) (x # xs) = []" "filter (in_range ts mn mx) xs = []"
      using Cons.prems(2) by (auto simp: in_range_def filter_empty_conv)
    then show ?thesis using high j step srt by auto
  next
    case mid
    then have "ranged_Next ts it mn mx i = Some (True, j)" "filter (in_range ts mn mx) (x # xs) = x # filter (in_range ts mn mx) xs"
      using j step by (auto simp: in_range_def)
    then show ?thesis using j srt by auto
  qed
qed

lemma ranged_ended:
  assumes "yields it i xs []" "sorted (map (\<lambda>p. sint (ts p)) xs)" "filter (in_range ts mn mx) xs = []"
  shows "ended (ranged_iterator ts it mn mx) [] i"
  using assms
proof (coinduction arbitrary: i xs)
  case (ended i xs)
  from ranged_Next_yields[OF ended(1,2), of mn mx] ended(3) show ?case
    by (auto simp: ranged_iterator_def)
qed

lemma ranged_yields:
  assumes "yields it i xs []" "sorted (map (\<lambda>p. sint (ts p)) xs)"
  shows "yields (ranged_iterator ts it mn mx) i (filter (in_range ts mn mx) xs) []"
  using assms
proof (induction "filter (in_range ts mn mx) xs" arbitrary: i xs)
  case Nil
  then show ?case using ranged_ended[OF Nil.prems] yields_Nil by metis
next
  case (Cons y ys)
  from ranged_Next_yields[OF Cons.prems, of mn mx] Cons.hyps(2)[symmetric] obtain j zs where
    j: "ranged_Next ts it mn mx i = Some (True, j)" "it_At it j = y" "it_Err it j = []"
      "yields it j zs []" "sorted (map (\<lambda>p. sint (ts p)) zs)" "filter (in_range ts mn mx) zs = ys" by auto
  have "yields (ranged_iterator ts it mn mx) j ys []" using Cons.hyps(1)[of zs j] j(4-6) by simp
  then show ?case using yields_Cons[of "ranged_iterator ts it mn mx" i j "[]" ys] j(1-3) Cons.hyps(2)
    by (simp add: ranged_iterator_def)
qed

subsection \<open>Properties\<close>

text \<open>
  C7. \<open>NewSortProfileIterator\<close>: over inputs that each yield their profiles in order, the sorting
  iterator yields every profile of every input exactly as often as the inputs do, ordered by
  timestamp and then labels, and ends; its error at the end collects the errors of all inputs.
\<close>

theorem SortIterator_merges:
  assumes "list_all2 (\<lambda>i (xs, e). yields it i xs e \<and> in_order lbls ts xs) iters contents"
    and "\<And>j. fst (it_Close it j) = []"
  shows "\<exists>s L e. NewSortProfileIterator lbls ts it iters = Some s \<and> yields (sort_iterator lbls ts z it) s L e
    \<and> in_order lbls ts L \<and> mset L = mset (concat (map fst contents)) \<and> set e = set (concat (map snd contents))"
  by (rule sort_merges[OF assms])

theorem SortIterator_merges_witness:
  "\<exists>s L. NewSortProfileIterator snd fst (slice_iterator (0, [])) [NewSliceIterator [(1, []), (5, [])], NewSliceIterator [(3, [])]] = Some s
     \<and> yields (sort_iterator snd fst (0, []) (slice_iterator (0, []))) s L [] \<and> mset L = {#(1, []), (5, []), (3, [])#}"
proof -
  let ?it = "slice_iterator (0 :: i64, [] :: labels)"
  let ?c = "[([(1, []), (5, [])], []), ([(3, [])], [])] :: ((i64 \<times> labels) list \<times> errs) list"
  have "list_all2 (\<lambda>i (xs, e). yields ?it i xs e \<and> in_order snd fst xs)
      [NewSliceIterator [(1, []), (5, [])], NewSliceIterator [(3, [])]] ?c"
    by (simp add: NewSliceIterator_yields profile_key_def less_eq_prod_def)
  from SortIterator_merges[OF this, of "(0, [])"] show ?thesis
    by (fastforce simp: slice_iterator_def)
qed

text \<open>
  \<open>TimeRangedIterator\<close>: over an input in ascending time it yields exactly the profiles whose
  timestamp lies between \<open>min\<close> and \<open>max\<close>, both included, in their order, and ends.
\<close>

lemma TimeRangedIterator_filters:
  assumes "yields it i xs []" and "sorted (map (\<lambda>p. sint (ts p)) xs)"
  shows "yields (ranged_iterator ts it mn mx) i (filter (\<lambda>p. sint mn \<le> sint (ts p) \<and> sint (ts p) \<le> sint mx) xs) []"
  using ranged_yields[OF assms, of mn mx] by (simp add: in_range_def cong: filter_cong)

text \<open>
  \<open>ReadBatch\<close>: over an iterator without error the callback sees all elements in order, in
  batches that are not empty and hold at most \<open>batchSize\<close> elements, until it returns an error, which
  is then the result; the loop ends.
\<close>

theorem ReadBatch_batches:
  assumes "yields it i xs []"
  shows "\<exists>bs. ReadBatch it batchSize fn i s = Some (run_batches fn bs s) \<and> concat bs = xs
    \<and> (\<forall>b \<in> set bs. b \<noteq> [] \<and> length b \<le> max 1 batchSize)"
  using ReadBatch_yields[OF assms] batches_concat[of batchSize xs] batches_size by metis

end
