(* ===== verification/Row_Numbers.thy ===== *)
theory Row_Numbers
  imports Iterators
begin

section \<open>Row numbers and rows of results (pkg/phlaredb/query/iters.go)\<close>

text \<open>
  A value of a nested column is identified by its row number, one component per nesting level
  (\<open>RowNumber [6]int64\<close>); \<open>-1\<close> stands for undefined. The components count rows and values of one
  file, so they are modelled as \<open>int\<close> lists of length six: an overflow would need a file of
  \<open>2^63\<close> values. Definition and repetition levels are natural numbers below six (an index beyond
  the array panics in Go).

  An iterator of the query package is an iterator of \<open>pkg/iter\<close> whose elements are pointers to
  results (an option, \<open>None\<close> is nil) together with a method \<open>Seek\<close>.  Its contract is the locale
  \<open>row_source\<close>: a state denotes the list of rows still to come, \<open>Next\<close> delivers the first one and
  \<open>Seek\<close> the first one that is not below the target.
\<close>

subsection \<open>Row numbers\<close>

type_synonym RowNumber = "int list"

record RowNumberWithDefinitionLevel =
  rd_RowNumber :: RowNumber
  rd_DefinitionLevel :: nat

definition EmptyRowNumber :: RowNumber where
  "EmptyRowNumber = [-1, -1, -1, -1, -1, -1]"

definition MaxRowNumber :: RowNumber where
  "MaxRowNumber = [2 ^ 63 - 1, 0, 0, 0, 0, 0]"

fun compare_at :: "RowNumber \<Rightarrow> RowNumber \<Rightarrow> nat list \<Rightarrow> int" where
  "compare_at a b [] = 0"
| "compare_at a b (i # is') =
     (if a ! i < b ! i then -1 else if a ! i > b ! i then 1 else compare_at a b is')"

definition CompareRowNumbers :: "nat \<Rightarrow> RowNumber \<Rightarrow> RowNumber \<Rightarrow> int" where
  "CompareRowNumbers upToDefinitionLevel a b = compare_at a b [0..<upToDefinitionLevel + 1]"

definition TruncateRowNumber :: "RowNumberWithDefinitionLevel \<Rightarrow> RowNumber" where
  "TruncateRowNumber t =
     fold (\<lambda>i n. n[i := rd_RowNumber t ! i]) [0..<rd_DefinitionLevel t + 1] EmptyRowNumber"

definition Valid :: "RowNumber \<Rightarrow> bool" where
  "Valid t = (t ! 0 \<ge> 0)"

definition rn_Next :: "nat \<Rightarrow> nat \<Rightarrow> RowNumber \<Rightarrow> RowNumber" where
  "rn_Next repetitionLevel definitionLevel t =
     (let t = t[repetitionLevel := t ! repetitionLevel + 1];
          t = fold (\<lambda>i t. t[i := 0]) [repetitionLevel + 1..<definitionLevel + 1] t
      in fold (\<lambda>i t. t[i := -1]) [definitionLevel + 1..<length t] t)"

definition rn_Skip :: "int \<Rightarrow> RowNumber \<Rightarrow> RowNumber" where
  "rn_Skip numRows t =
     (let t = t[0 := t ! 0 + numRows] in fold (\<lambda>i t. t[i := -1]) [1..<length t] t)"

subsection \<open>Results\<close>

text \<open>
  An entry is the name of a column, a \<open>parquet.Value\<close> (the type parameter) and a row value of any
  type, which is nil for a column.
\<close>

record ('v, 'r) resultEntry =
  en_k :: string
  en_V :: 'v
  en_RowValue :: "'r option"

record ('v, 'r) IteratorResult =
  ir_RowNumber :: RowNumber
  ir_Entries :: "('v, 'r) resultEntry list"

definition ir_Reset :: "('v, 'r) IteratorResult \<Rightarrow> ('v, 'r) IteratorResult" where
  "ir_Reset r = r\<lparr>ir_Entries := []\<rparr>"

definition ir_Append :: "('v, 'r) IteratorResult \<Rightarrow> ('v, 'r) IteratorResult \<Rightarrow> ('v, 'r) IteratorResult" where
  "ir_Append r rr = r\<lparr>ir_Entries := ir_Entries r @ ir_Entries rr\<rparr>"

definition ir_AppendValue :: "('v, 'r) IteratorResult \<Rightarrow> string \<Rightarrow> 'v \<Rightarrow> ('v, 'r) IteratorResult" where
  "ir_AppendValue r k v =
     r\<lparr>ir_Entries := ir_Entries r @ [\<lparr>en_k = k, en_V = v, en_RowValue = None\<rparr>]\<rparr>"

definition ToMap :: "('v, 'r) IteratorResult \<Rightarrow> (string \<times> 'v list) list" where
  "ToMap r =
     fold (\<lambda>e m. AList.update (en_k e) ((case map_of m (en_k e) of Some vs \<Rightarrow> vs | None \<Rightarrow> []) @ [en_V e]) m)
       (ir_Entries r) []"

text \<open>\<open>Columns\<close>: a value goes to the first name that is its column.\<close>

fun first_index :: "string \<Rightarrow> string list \<Rightarrow> nat \<Rightarrow> nat option" where
  "first_index k [] i = None"
| "first_index k (n # names) i = (if k = n then Some i else first_index k names (i + 1))"

definition Columns :: "('v, 'r) IteratorResult \<Rightarrow> string list \<Rightarrow> 'v list list" where
  "Columns r names =
     fold (\<lambda>e buffer.
             case first_index (en_k e) names 0 of
               Some i \<Rightarrow> buffer[i := buffer ! i @ [en_V e]]
             | None \<Rightarrow> buffer)
       (ir_Entries r) (replicate (length names) [])"

text \<open>
  \<open>KeyValueGroupPredicate.KeepGroup\<close>; \<open>bytes\<close> is \<open>parquet.Value.ByteArray\<close>, and a value slice
  shorter than the keys makes \<open>a.vals[i]\<close> panic (\<open>None\<close>).
\<close>

record KeyValueGroupPredicate =
  kv_keys :: "string list"
  kv_vals :: "string list"

definition NewKeyValueGroupPredicate :: "string list \<Rightarrow> string list \<Rightarrow> KeyValueGroupPredicate" where
  "NewKeyValueGroupPredicate keys vals = \<lparr>kv_keys = keys, kv_vals = vals\<rparr>"

fun keep_pairs :: "(string \<times> string) list \<Rightarrow> string list \<Rightarrow> string list \<Rightarrow> nat \<Rightarrow> nat \<Rightarrow> bool option" where
  "keep_pairs found pk pv 0 i = Some True"
| "keep_pairs found pk pv (Suc n) i =
     (if i \<ge> length pv then None
      else if (pk ! i, pv ! i) \<in> set found then keep_pairs found pk pv n (i + 1) else Some False)"

definition KeepGroup :: "('v \<Rightarrow> string) \<Rightarrow> KeyValueGroupPredicate \<Rightarrow> ('v, 'r) IteratorResult \<Rightarrow> bool option" where
  "KeepGroup bytes a grp =
     (case Columns grp [''keys'', ''values''] of
        [keys, vals] \<Rightarrow>
          if length keys < length (kv_keys a) \<or> length keys \<noteq> length vals then Some False
          else keep_pairs (zip (map bytes keys) (map bytes vals)) (kv_keys a) (kv_vals a) (length (kv_keys a)) 0
      | _ \<Rightarrow> None)"

subsection \<open>The interface\<close>

record ('i, 'v, 'r) RowIterator =
  ri_iter :: "('i, ('v, 'r) IteratorResult option) Iterator"
  ri_Seek :: "RowNumberWithDefinitionLevel \<Rightarrow> 'i \<Rightarrow> (bool \<times> 'i) option"

text \<open>\<open>RowNumberIterator\<close> over the iterator of a type that has a row number.\<close>

record ('i, 'v, 'r) RowNumberIterator =
  rni_Iterator :: 'i
  rni_current :: "('v, 'r) IteratorResult option"
  rni_err :: errs

definition RowNumberIterator_Next ::
    "('r \<Rightarrow> int option) \<Rightarrow> 'v \<Rightarrow> errs \<Rightarrow> ('i, 'r) Iterator \<Rightarrow>
     ('i, 'v, 'r) RowNumberIterator \<Rightarrow> (bool \<times> ('i, 'v, 'r) RowNumberIterator) option" where
  "RowNumberIterator_Next rowGetter zero notRowGetter it r = do {
     (ok, i) \<leftarrow> it_Next it (rni_Iterator r);
     let r = r\<lparr>rni_Iterator := i\<rparr>;
     if \<not> ok then Some (False, r)
     else (case rowGetter (it_At it i) of
        None \<Rightarrow>
          Some (False, r\<lparr>rni_current := Some \<lparr>ir_RowNumber = EmptyRowNumber, ir_Entries = []\<rparr>,
                         rni_err := if rni_err r = [] then notRowGetter else rni_err r\<rparr>)
      | Some n \<Rightarrow>
          Some (True, r\<lparr>rni_current :=
            Some \<lparr>ir_RowNumber = [n, -1, -1, -1, -1, -1],
                  ir_Entries = [\<lparr>en_k = [], en_V = zero, en_RowValue = Some (it_At it i)\<rparr>]\<rparr>\<rparr>)) }"

definition row_number_iterator ::
    "('r \<Rightarrow> int option) \<Rightarrow> 'v \<Rightarrow> errs \<Rightarrow> ('i, 'r) Iterator \<Rightarrow> (('i, 'v, 'r) RowNumberIterator, 'v, 'r) RowIterator" where
  "row_number_iterator rowGetter zero notRowGetter it =
     \<lparr>ri_iter =
        \<lparr>it_Next = RowNumberIterator_Next rowGetter zero notRowGetter it, it_At = rni_current,
         it_Err = (\<lambda>r. if rni_err r \<noteq> [] then rni_err r else it_Err it (rni_Iterator r)),
         it_Close = (\<lambda>r. case it_Close it (rni_Iterator r) of (e, i) \<Rightarrow> (e, r\<lparr>rni_Iterator := i\<rparr>))\<rparr>,
      ri_Seek = (\<lambda>to r. Some (True, r))\<rparr>"

subsection \<open>The order of row numbers\<close>

text \<open>\<open>row_key d\<close> is what a comparison up to level \<open>d\<close> looks at; the order is lexicographic.\<close>

definition row_key :: "nat \<Rightarrow> RowNumber \<Rightarrow> int list" where
  "row_key d t = take (d + 1) t"

lemma compare_at_less:
  "length a = n \<Longrightarrow> length b = n \<Longrightarrow> m \<le> n \<Longrightarrow>
   (compare_at a b [n - m..<n] = -1 \<longleftrightarrow> drop (n - m) a < drop (n - m) b) \<and>
   (compare_at a b [n - m..<n] = 0 \<longleftrightarrow> drop (n - m) a = drop (n - m) b) \<and>
   (compare_at a b [n - m..<n] = 1 \<longleftrightarrow> drop (n - m) a > drop (n - m) b)"
proof (induction m)
  case 0
  then show ?case by simp
next
  case (Suc m)
  have up: "[n - Suc m..<n] = (n - Suc m) # [n - m..<n]"
    using Suc.prems(3) by (metis Suc_diff_Suc Suc_le_lessD diff_less upt_conv_Cons zero_less_Suc Suc_le_D less_le_trans)
  have dr: "drop (n - Suc m) c = c ! (n - Suc m) # drop (n - m) c" if "length c = n" for c :: "int list"
    using that Suc.prems(3) by (metis Cons_nth_drop_Suc Suc_diff_Suc Suc_le_D Suc_le_lessD diff_less zero_less_Suc)
  have IH: "(compare_at a b [n - m..<n] = -1 \<longleftrightarrow> drop (n - m) a < drop (n - m) b) \<and>
    (compare_at a b [n - m..<n] = 0 \<longleftrightarrow> drop (n - m) a = drop (n - m) b) \<and>
    (compare_at a b [n - m..<n] = 1 \<longleftrightarrow> drop (n - m) a > drop (n - m) b)"
    using Suc.IH Suc.prems by linarith
  show ?case unfolding up dr[OF Suc.prems(1)] dr[OF Suc.prems(2)] using IH by auto
qed

lemma compare_at_take: "set is' \<subseteq> {..<m} \<Longrightarrow> compare_at (take m a) (take m b) is' = compare_at a b is'"
  by (induction is') auto

lemma CompareRowNumbers_keys:
  assumes "length a = 6" "length b = 6" "d < 6"
  shows "CompareRowNumbers d a b = -1 \<longleftrightarrow> row_key d a < row_key d b"
    and "CompareRowNumbers d a b = 0 \<longleftrightarrow> row_key d a = row_key d b"
    and "CompareRowNumbers d a b = 1 \<longleftrightarrow> row_key d a > row_key d b"
proof -
  have "CompareRowNumbers d a b = compare_at (take (d + 1) a) (take (d + 1) b) [d + 1 - (d + 1)..<d + 1]"
    unfolding CompareRowNumbers_def by (subst compare_at_take) auto
  then show "CompareRowNumbers d a b = -1 \<longleftrightarrow> row_key d a < row_key d b"
    and "CompareRowNumbers d a b = 0 \<longleftrightarrow> row_key d a = row_key d b"
    and "CompareRowNumbers d a b = 1 \<longleftrightarrow> row_key d a > row_key d b"
    using compare_at_less[of "take (d + 1) a" "d + 1" "take (d + 1) b" "d + 1"] assms
    by (simp_all add: row_key_def)
qed

lemma list_take_mono: "(xs :: 'a::linorder list) \<le> ys \<Longrightarrow> take n xs \<le> take n ys"
proof (induction xs arbitrary: ys n)
  case Nil
  then show ?case by simp
next
  case (Cons x xs)
  then obtain y zs where [simp]: "ys = y # zs" by (cases ys) auto
  show ?case using Cons by (cases n) auto
qed

lemma row_key_mono: "row_key 5 a \<le> row_key 5 b \<Longrightarrow> d < 6 \<Longrightarrow> row_key d a \<le> row_key d b"
  using list_take_mono[of "row_key 5 a" "row_key 5 b" "d + 1"] by (simp add: row_key_def min_def)

lemma row_key_0 [simp]: "length t = 6 \<Longrightarrow> row_key 0 t = [t ! 0]"
  by (cases t) (auto simp: row_key_def)

lemma row_key_level:
  assumes "row_key d a < row_key d b" "e \<le> d"
  shows "row_key e a \<le> row_key e b"
  using list_take_mono[of "row_key d a" "row_key d b" "e + 1"] assms by (simp add: row_key_def min_def)

lemma row_key_eq_level: "row_key d a = row_key d b \<Longrightarrow> e \<le> d \<Longrightarrow> row_key e a = row_key e b"
  by (metis (no_types, lifting) add_le_mono1 min_def row_key_def take_take)

definition row_ok :: "RowNumber \<Rightarrow> bool" where
  "row_ok t = (length t = 6 \<and> 0 \<le> t ! 0 \<and> t ! 0 < 2 ^ 63 - 1)"

lemma row_ok_length [simp]: "row_ok t \<Longrightarrow> length t = 6"
  by (simp add: row_ok_def)

lemma row_ok_Valid: "row_ok t \<Longrightarrow> Valid t"
  by (simp add: row_ok_def Valid_def)

lemma compare_Max: "row_ok t \<Longrightarrow> CompareRowNumbers d t MaxRowNumber = -1"
  by (simp add: CompareRowNumbers_def MaxRowNumber_def row_ok_def upt_conv_Cons del: upt_Suc)

lemma compare_Empty: "row_ok t \<Longrightarrow> CompareRowNumbers d t EmptyRowNumber = 1"
  by (simp add: CompareRowNumbers_def EmptyRowNumber_def row_ok_def upt_conv_Cons del: upt_Suc)

lemma fold_update_nth:
  "distinct is' \<Longrightarrow> j < length n \<Longrightarrow>
   fold (\<lambda>i n. n[i := f i]) is' n ! j = (if j \<in> set is' then f j else n ! j)"
  by (induction is' arbitrary: n) (auto simp: nth_list_update)

lemma fold_update_length [simp]: "length (fold (\<lambda>i n. n[i := f i]) is' n) = length n"
  by (induction is' arbitrary: n) auto

lemma TruncateRowNumber_length [simp]: "length (TruncateRowNumber t) = 6"
  by (simp add: TruncateRowNumber_def EmptyRowNumber_def)

lemma TruncateRowNumber_key:
  assumes "length (rd_RowNumber t) = 6" "rd_DefinitionLevel t < 6"
  shows "row_key (rd_DefinitionLevel t) (TruncateRowNumber t) = row_key (rd_DefinitionLevel t) (rd_RowNumber t)"
proof (rule nth_equalityI)
  show "row_key (rd_DefinitionLevel t) (TruncateRowNumber t) ! i = row_key (rd_DefinitionLevel t) (rd_RowNumber t) ! i"
    if "i < length (row_key (rd_DefinitionLevel t) (TruncateRowNumber t))" for i
    using that assms unfolding row_key_def TruncateRowNumber_def
    by (simp add: fold_update_nth EmptyRowNumber_def del: upt_Suc)
qed (use assms in \<open>simp add: row_key_def\<close>)

subsection \<open>The contract of an iterator of rows\<close>

definition below :: "RowNumberWithDefinitionLevel \<Rightarrow> RowNumber \<Rightarrow> bool" where
  "below to t = (CompareRowNumbers (rd_DefinitionLevel to) t (rd_RowNumber to) = -1)"

definition target_ok :: "RowNumberWithDefinitionLevel \<Rightarrow> bool" where
  "target_ok to = (length (rd_RowNumber to) = 6 \<and> rd_DefinitionLevel to < 6)"

lemma below_key:
  "target_ok to \<Longrightarrow> length t = 6 \<Longrightarrow>
   below to t \<longleftrightarrow> row_key (rd_DefinitionLevel to) t < row_key (rd_DefinitionLevel to) (rd_RowNumber to)"
  by (simp add: below_def target_ok_def CompareRowNumbers_keys)

lemma below_Truncate:
  assumes "target_ok to" "length t = 6"
  shows "below (to\<lparr>rd_RowNumber := TruncateRowNumber to\<rparr>) t \<longleftrightarrow> below to t"
proof -
  have "target_ok (to\<lparr>rd_RowNumber := TruncateRowNumber to\<rparr>)" using assms(1) by (simp add: target_ok_def)
  then show ?thesis using assms by (simp add: below_key TruncateRowNumber_key target_ok_def)
qed

definition rows_sorted :: "('v, 'r) IteratorResult list \<Rightarrow> bool" where
  "rows_sorted xs =
     (sorted (map (\<lambda>r. row_key 5 (ir_RowNumber r)) xs) \<and> (\<forall>r \<in> set xs. row_ok (ir_RowNumber r)))"

lemma rows_sorted_Nil [simp]: "rows_sorted []"
  by (simp add: rows_sorted_def)

lemma rows_sorted_tl: "rows_sorted (x # xs) \<Longrightarrow> rows_sorted xs"
  by (simp add: rows_sorted_def)

lemma rows_sorted_dropWhile: "rows_sorted xs \<Longrightarrow> rows_sorted (dropWhile P xs)"
  by (auto simp: rows_sorted_def sorted_map sorted_wrt_dropWhile dest: set_dropWhileD)

lemma rows_sorted_level:
  "rows_sorted xs \<Longrightarrow> d < 6 \<Longrightarrow> sorted (map (\<lambda>r. row_key d (ir_RowNumber r)) xs)"
  unfolding rows_sorted_def sorted_map by (metis (no_types, lifting) row_key_mono sorted_wrt_mono_rel)

lemma filter_dropWhile: "(\<And>x. x \<in> set xs \<Longrightarrow> P x \<Longrightarrow> \<not> Q x) \<Longrightarrow> filter Q (dropWhile P xs) = filter Q xs"
  by (induction xs) auto

lemma dropWhile_filter_below:
  assumes "rows_sorted xs" "target_ok to"
  shows "dropWhile (\<lambda>r. below to (ir_RowNumber r)) xs = filter (\<lambda>r. \<not> below to (ir_RowNumber r)) xs"
  using assms(1)
proof (induction xs)
  case (Cons x xs)
  show ?case
  proof (cases "below to (ir_RowNumber x)")
    case True
    then show ?thesis using Cons rows_sorted_tl by auto
  next
    case False
    let ?e = "rd_DefinitionLevel to"
    have lvl: "sorted (map (\<lambda>r. row_key ?e (ir_RowNumber r)) (x # xs))"
      using rows_sorted_level[OF Cons.prems] assms(2) by (simp add: target_ok_def)
    have "\<not> below to (ir_RowNumber r)" if "r \<in> set xs" for r
      using lvl that False below_key[OF assms(2)] Cons.prems by (fastforce simp: rows_sorted_def)
    then show ?thesis using False by (simp add: filter_id_conv)
  qed
qed simp

text \<open>
  \<open>delivers\<close>: a call that returned \<open>b\<close> and the state \<open>j\<close> has delivered the first row of \<open>ys\<close>, and
  the state denotes the others; at the end of the rows it has returned false.
\<close>

definition delivers ::
    "('i, ('v, 'r) IteratorResult option) Iterator \<Rightarrow> ('i \<Rightarrow> ('v, 'r) IteratorResult list \<Rightarrow> bool) \<Rightarrow>
     ('v, 'r) IteratorResult list \<Rightarrow> (bool \<times> 'i) option \<Rightarrow> bool" where
  "delivers it R ys res =
     (case ys of
        [] \<Rightarrow> \<exists>j. res = Some (False, j) \<and> R j []
      | y # ys' \<Rightarrow> \<exists>j. res = Some (True, j) \<and> it_At it j = Some y \<and> R j ys')"

lemma delivers_Nil [simp]: "delivers it R [] res \<longleftrightarrow> (\<exists>j. res = Some (False, j) \<and> R j [])"
  and delivers_Cons [simp]:
    "delivers it R (y # ys) res \<longleftrightarrow> (\<exists>j. res = Some (True, j) \<and> it_At it j = Some y \<and> R j ys)"
  by (simp_all add: delivers_def)

locale row_source =
  fixes it :: "('i, 'v, 'r) RowIterator"
    and level :: nat
    and R :: "'i \<Rightarrow> ('v, 'r) IteratorResult list \<Rightarrow> bool"
  assumes next_delivers: "R i xs \<Longrightarrow> delivers (ri_iter it) R xs (it_Next (ri_iter it) i)"
    and seek_delivers: "R i xs \<Longrightarrow> target_ok to \<Longrightarrow> rd_DefinitionLevel to \<le> level \<Longrightarrow>
      delivers (ri_iter it) R (dropWhile (\<lambda>r. below to (ir_RowNumber r)) xs) (ri_Seek it to i)"
    and rows: "R i xs \<Longrightarrow> rows_sorted xs"
    and no_error: "R i xs \<Longrightarrow> it_Err (ri_iter it) i = []"
begin

lemma source_ended: "R i [] \<Longrightarrow> ended (ri_iter it) [] i"
proof (coinduction arbitrary: i)
  case (ended i)
  then show ?case using next_delivers[of i "[]"] no_error by fastforce
qed

lemma source_yields: "R i xs \<Longrightarrow> yields (ri_iter it) i (map Some xs) []"
proof (induction xs arbitrary: i)
  case Nil
  then show ?case by (simp add: source_ended yields_Nil)
next
  case (Cons x xs)
  then obtain j where j: "it_Next (ri_iter it) i = Some (True, j)" "it_At (ri_iter it) j = Some x" "R j xs"
    using next_delivers by fastforce
  then show ?case using yields_Cons[OF j(1), of "[]"] Cons.IH[OF j(3)] no_error[OF j(3)] by simp
qed

end

text \<open>A sequence of calls, and what the contract makes of it.\<close>

datatype row_call = CNext | CSeek RowNumberWithDefinitionLevel

fun run_calls :: "('i, 'v, 'r) RowIterator \<Rightarrow> 'i \<Rightarrow> row_call list \<Rightarrow> ('v, 'r) IteratorResult option list option" where
  "run_calls it i [] = Some []"
| "run_calls it i (c # cs) = do {
     (ok, i) \<leftarrow> (case c of CNext \<Rightarrow> it_Next (ri_iter it) i | CSeek to \<Rightarrow> ri_Seek it to i);
     rs \<leftarrow> run_calls it i cs;
     Some ((if ok then it_At (ri_iter it) i else None) # rs) }"

fun list_calls :: "('v, 'r) IteratorResult list \<Rightarrow> row_call list \<Rightarrow> ('v, 'r) IteratorResult option list" where
  "list_calls xs [] = []"
| "list_calls xs (c # cs) =
     (let ys = (case c of CNext \<Rightarrow> xs | CSeek to \<Rightarrow> dropWhile (\<lambda>r. below to (ir_RowNumber r)) xs)
      in case ys of [] \<Rightarrow> None # list_calls [] cs | y # ys \<Rightarrow> Some y # list_calls ys cs)"

fun call_ok :: "nat \<Rightarrow> row_call \<Rightarrow> bool" where
  "call_ok level CNext = True"
| "call_ok level (CSeek to) = (target_ok to \<and> rd_DefinitionLevel to \<le> level)"

context row_source
begin

lemma source_calls:
  "R i xs \<Longrightarrow> list_all (call_ok level) cs \<Longrightarrow> run_calls it i cs = Some (list_calls xs cs)"
proof (induction cs arbitrary: i xs)
  case Nil
  then show ?case by simp
next
  case (Cons c cs)
  define ys where "ys = (case c of CNext \<Rightarrow> xs | CSeek to \<Rightarrow> dropWhile (\<lambda>r. below to (ir_RowNumber r)) xs)"
  have "delivers (ri_iter it) R ys (case c of CNext \<Rightarrow> it_Next (ri_iter it) i | CSeek to \<Rightarrow> ri_Seek it to i)"
    using next_delivers[OF Cons.prems(1)] seek_delivers[OF Cons.prems(1)] Cons.prems(2)
    by (cases c) (auto simp: ys_def)
  then show ?case using Cons.IH Cons.prems(2) by (cases ys) (auto simp: ys_def[symmetric])
qed

end

end
