(* ===== verification/Column_File.thy ===== *)
theory Column_File
  imports Row_Numbers
begin

section \<open>Columns of a file and predicates on them (pkg/phlaredb/query/predicates.go)\<close>

text \<open>
  A column of a block file as \<open>parquet-go\<close> presents it: row groups with one column chunk each, its
  pages, the reads of a page and their values with repetition and definition levels.  The package
  is not part of the program, so this is data, with what its reads return (errors included) written
  out; the accessors for the payload of a value are parameters of the predicates.

  A predicate is asked for chunks, pages and values.  The locale \<open>pushdown\<close> states what makes it
  sound to ask for the larger units first: where the statistics of the file are right, a chunk or a
  page with an accepted value is accepted.  It is interpreted for the program's predicates.
\<close>

subsection \<open>The file\<close>

record 'v pqValue =
  pv_RepetitionLevel :: nat
  pv_DefinitionLevel :: nat
  pv_value :: 'v

datatype readEnd = ROk | REOF | RErr errs

record 'v pqPage =
  pg_NumRows :: int
  pg_Dictionary :: "'v list option"
  pg_Bounds :: "('v \<times> 'v) option"
  pg_reads :: "('v pqValue list \<times> readEnd) list"

datatype 'v pageRead = PageRead "'v pqPage" | PageErr errs

record 'v pqChunk =
  cc_ColumnIndex :: "('v \<times> 'v) list option"
  cc_Pages :: "'v pageRead list"

record 'v pqRowGroup =
  rg_NumRows :: int
  rg_ColumnChunk :: "'v pqChunk"

subsection \<open>Predicates\<close>

record 'v Predicate =
  KeepColumnChunk :: "'v pqChunk \<Rightarrow> bool"
  KeepPage :: "'v pqPage \<Rightarrow> bool"
  KeepValue :: "'v \<Rightarrow> bool"

text \<open>\<open>StringInPredicate\<close>; \<open>bytes\<close> is \<open>Value.ByteArray\<close>, byte strings compare lexicographically.\<close>

definition StringIn_KeepColumnChunk :: "('v \<Rightarrow> string) \<Rightarrow> string list \<Rightarrow> 'v pqChunk \<Rightarrow> bool" where
  "StringIn_KeepColumnChunk bytes ss cc =
     (case cc_ColumnIndex cc of
        Some ci \<Rightarrow> list_ex (\<lambda>subs. list_ex (\<lambda>(lo, hi). bytes lo \<le> subs \<and> bytes hi \<ge> subs) ci) ss
      | None \<Rightarrow> True)"

definition StringIn_KeepValue :: "('v \<Rightarrow> string) \<Rightarrow> string list \<Rightarrow> 'v \<Rightarrow> bool" where
  "StringIn_KeepValue bytes ss v = list_ex (\<lambda>s. bytes v = s) ss"

definition StringIn_KeepPage :: "('v \<Rightarrow> string) \<Rightarrow> string list \<Rightarrow> 'v pqPage \<Rightarrow> bool" where
  "StringIn_KeepPage bytes ss page =
     (case pg_Dictionary page of
        Some dict \<Rightarrow> if length dict > 0 then list_ex (\<lambda>e. list_ex (\<lambda>subs. bytes e = subs) ss) dict else True
      | None \<Rightarrow> True)"

definition NewStringInPredicate :: "('v \<Rightarrow> string) \<Rightarrow> string list \<Rightarrow> 'v Predicate" where
  "NewStringInPredicate bytes ss =
     \<lparr>KeepColumnChunk = StringIn_KeepColumnChunk bytes ss, KeepPage = StringIn_KeepPage bytes ss,
      KeepValue = StringIn_KeepValue bytes ss\<rparr>"

text \<open>\<open>IntBetweenPredicate\<close>; \<open>int64\<close> is \<open>Value.Int64\<close>, the comparisons are signed.\<close>

definition IntBetween_KeepColumnChunk :: "('v \<Rightarrow> i64) \<Rightarrow> i64 \<Rightarrow> i64 \<Rightarrow> 'v pqChunk \<Rightarrow> bool" where
  "IntBetween_KeepColumnChunk int64 pmin pmax c =
     (case cc_ColumnIndex c of
        Some ci \<Rightarrow> list_ex (\<lambda>(lo, hi). sint pmax \<ge> sint (int64 lo) \<and> sint pmin \<le> sint (int64 hi)) ci
      | None \<Rightarrow> True)"

definition IntBetween_KeepValue :: "('v \<Rightarrow> i64) \<Rightarrow> i64 \<Rightarrow> i64 \<Rightarrow> 'v \<Rightarrow> bool" where
  "IntBetween_KeepValue int64 pmin pmax v = (sint pmin \<le> sint (int64 v) \<and> sint (int64 v) \<le> sint pmax)"

definition IntBetween_KeepPage :: "('v \<Rightarrow> i64) \<Rightarrow> i64 \<Rightarrow> i64 \<Rightarrow> 'v pqPage \<Rightarrow> bool" where
  "IntBetween_KeepPage int64 pmin pmax page =
     (case pg_Bounds page of
        Some (lo, hi) \<Rightarrow> sint pmax \<ge> sint (int64 lo) \<and> sint pmin \<le> sint (int64 hi)
      | None \<Rightarrow> True)"

definition NewIntBetweenPredicate :: "('v \<Rightarrow> i64) \<Rightarrow> i64 \<Rightarrow> i64 \<Rightarrow> 'v Predicate" where
  "NewIntBetweenPredicate int64 pmin pmax =
     \<lparr>KeepColumnChunk = IntBetween_KeepColumnChunk int64 pmin pmax, KeepPage = IntBetween_KeepPage int64 pmin pmax,
      KeepValue = IntBetween_KeepValue int64 pmin pmax\<rparr>"

definition EqualInt64_KeepColumnChunk :: "('v \<Rightarrow> i64) \<Rightarrow> i64 \<Rightarrow> 'v pqChunk \<Rightarrow> bool" where
  "EqualInt64_KeepColumnChunk int64 p c =
     (case cc_ColumnIndex c of
        Some ci \<Rightarrow> list_ex (\<lambda>(lo, hi). sint p \<ge> sint (int64 lo) \<and> sint p \<le> sint (int64 hi)) ci
      | None \<Rightarrow> True)"

definition EqualInt64_KeepValue :: "('v \<Rightarrow> i64) \<Rightarrow> i64 \<Rightarrow> 'v \<Rightarrow> bool" where
  "EqualInt64_KeepValue int64 p v = (sint p \<le> sint (int64 v) \<and> sint (int64 v) \<le> sint p)"

definition EqualInt64_KeepPage :: "('v \<Rightarrow> i64) \<Rightarrow> i64 \<Rightarrow> 'v pqPage \<Rightarrow> bool" where
  "EqualInt64_KeepPage int64 p page =
     (case pg_Bounds page of
        Some (lo, hi) \<Rightarrow> sint p \<ge> sint (int64 lo) \<and> sint p \<le> sint (int64 hi)
      | None \<Rightarrow> True)"

definition NewEqualInt64Predicate :: "('v \<Rightarrow> i64) \<Rightarrow> i64 \<Rightarrow> 'v Predicate" where
  "NewEqualInt64Predicate int64 p =
     \<lparr>KeepColumnChunk = EqualInt64_KeepColumnChunk int64 p, KeepPage = EqualInt64_KeepPage int64 p,
      KeepValue = EqualInt64_KeepValue int64 p\<rparr>"

text \<open>
  \<open>SubstringPredicate\<close> keeps a cache of its answers, which a new column chunk resets; \<open>str\<close> is
  \<open>Value.String\<close>.
\<close>

fun strings_Contains :: "string \<Rightarrow> string \<Rightarrow> bool" where
  "strings_Contains [] sub = (sub = [])"
| "strings_Contains (c # cs) sub = (take (length sub) (c # cs) = sub \<or> strings_Contains cs sub)"

record SubstringPredicate =
  sp_substring :: string
  sp_matches :: "(string \<times> bool) list"

definition NewSubstringPredicate :: "string \<Rightarrow> SubstringPredicate" where
  "NewSubstringPredicate substring = \<lparr>sp_substring = substring, sp_matches = []\<rparr>"

definition Substring_KeepColumnChunk :: "'v pqChunk \<Rightarrow> SubstringPredicate \<Rightarrow> bool \<times> SubstringPredicate" where
  "Substring_KeepColumnChunk c p = (True, p\<lparr>sp_matches := []\<rparr>)"

definition Substring_KeepValue :: "('v \<Rightarrow> string) \<Rightarrow> 'v \<Rightarrow> SubstringPredicate \<Rightarrow> bool \<times> SubstringPredicate" where
  "Substring_KeepValue str v p =
     (case map_of (sp_matches p) (str v) of
        Some m \<Rightarrow> (m, p)
      | None \<Rightarrow>
          let m = strings_Contains (str v) (sp_substring p)
          in (m, p\<lparr>sp_matches := AList.update (str v) m (sp_matches p)\<rparr>))"

fun Substring_dict :: "('v \<Rightarrow> string) \<Rightarrow> 'v list \<Rightarrow> SubstringPredicate \<Rightarrow> bool \<times> SubstringPredicate" where
  "Substring_dict str [] p = (False, p)"
| "Substring_dict str (v # dict) p =
     (case Substring_KeepValue str v p of (ok, p) \<Rightarrow> if ok then (True, p) else Substring_dict str dict p)"

definition Substring_KeepPage :: "('v \<Rightarrow> string) \<Rightarrow> 'v pqPage \<Rightarrow> SubstringPredicate \<Rightarrow> bool \<times> SubstringPredicate" where
  "Substring_KeepPage str page p =
     (case pg_Dictionary page of
        Some dict \<Rightarrow> if length dict > 0 then Substring_dict str dict p else (True, p)
      | None \<Rightarrow> (True, p))"

text \<open>\<open>InstrumentedPredicate\<close>: an optional predicate; its counters are left out.\<close>

definition inst_KeepColumnChunk :: "'v Predicate option \<Rightarrow> 'v pqChunk \<Rightarrow> bool" where
  "inst_KeepColumnChunk pred c = (case pred of None \<Rightarrow> True | Some p \<Rightarrow> KeepColumnChunk p c)"

definition inst_KeepPage :: "'v Predicate option \<Rightarrow> 'v pqPage \<Rightarrow> bool" where
  "inst_KeepPage pred page = (case pred of None \<Rightarrow> True | Some p \<Rightarrow> KeepPage p page)"

definition inst_KeepValue :: "'v Predicate option \<Rightarrow> 'v \<Rightarrow> bool" where
  "inst_KeepValue pred v = (case pred of None \<Rightarrow> True | Some p \<Rightarrow> KeepValue p v)"

subsection \<open>Well-formed files\<close>

definition level_ok :: "'v pqValue \<Rightarrow> bool" where
  "level_ok v = (pv_RepetitionLevel v \<le> pv_DefinitionLevel v \<and> pv_DefinitionLevel v < 6)"

definition row_count :: "'v pqValue list \<Rightarrow> int" where
  "row_count vs = int (length (filter (\<lambda>v. pv_RepetitionLevel v = 0) vs))"

definition starts_row :: "'v pqValue list \<Rightarrow> bool" where
  "starts_row vs = (vs \<noteq> [] \<longrightarrow> pv_RepetitionLevel (hd vs) = 0)"

lemma row_count_simps [simp]:
  "row_count [] = 0"
  "row_count (v # vs) = (if pv_RepetitionLevel v = 0 then 1 else 0) + row_count vs"
  "row_count (vs @ ws) = row_count vs + row_count ws"
  by (simp_all add: row_count_def)

lemma row_count_nonneg: "0 \<le> row_count vs"
  by (simp add: row_count_def)

lemma starts_row_append: "starts_row vs \<Longrightarrow> starts_row ws \<Longrightarrow> starts_row (vs @ ws)"
  by (cases vs) (auto simp: starts_row_def)

lemma starts_row_concat: "\<forall>vs \<in> set vss. starts_row vs \<Longrightarrow> starts_row (concat vss)"
  by (induction vss) (auto intro: starts_row_append simp: starts_row_def[of "[]"])

text \<open>
  What the reader relies on: pages start at a row and count their rows, no read fails, and a chunk
  or page that the predicate rejects has no value that it accepts.
\<close>

fun reads_ok :: "('v pqValue list \<times> readEnd) list \<Rightarrow> bool" where
  "reads_ok [] = True"
| "reads_ok ((vs, e) # reads) = (case e of ROk \<Rightarrow> reads_ok reads | REOF \<Rightarrow> reads = [] | RErr _ \<Rightarrow> False)"

definition reads_values :: "('v pqValue list \<times> readEnd) list \<Rightarrow> 'v pqValue list" where
  "reads_values reads = concat (map fst reads)"

fun page_values :: "'v pageRead \<Rightarrow> 'v pqValue list" where
  "page_values (PageRead pg) = reads_values (pg_reads pg)"
| "page_values (PageErr e) = []"

definition group_values :: "'v pqRowGroup \<Rightarrow> 'v pqValue list" where
  "group_values rg = concat (map page_values (cc_Pages (rg_ColumnChunk rg)))"

definition accepts :: "'v Predicate option \<Rightarrow> 'v pqValue list \<Rightarrow> bool" where
  "accepts filt vs = list_ex (\<lambda>v. inst_KeepValue filt (pv_value v)) vs"

definition rows_ok :: "'v pqValue list \<Rightarrow> int \<Rightarrow> bool" where
  "rows_ok vs n = (starts_row vs \<and> row_count vs = n \<and> list_all level_ok vs)"

fun page_ok :: "'v Predicate option \<Rightarrow> 'v pageRead \<Rightarrow> bool" where
  "page_ok filt (PageRead pg) =
     (reads_ok (pg_reads pg) \<and> rows_ok (reads_values (pg_reads pg)) (pg_NumRows pg) \<and>
      (accepts filt (reads_values (pg_reads pg)) \<longrightarrow> inst_KeepPage filt pg))"
| "page_ok filt (PageErr e) = False"

definition group_ok :: "'v Predicate option \<Rightarrow> 'v pqRowGroup \<Rightarrow> bool" where
  "group_ok filt rg =
     (list_all (page_ok filt) (cc_Pages (rg_ColumnChunk rg)) \<and> rows_ok (group_values rg) (rg_NumRows rg) \<and>
      (accepts filt (group_values rg) \<longrightarrow> inst_KeepColumnChunk filt (rg_ColumnChunk rg)))"

definition file_values :: "'v pqRowGroup list \<Rightarrow> 'v pqValue list" where
  "file_values rgs = concat (map group_values rgs)"

definition file_ok :: "'v Predicate option \<Rightarrow> 'v pqRowGroup list \<Rightarrow> bool" where
  "file_ok filt rgs = (list_all (group_ok filt) rgs \<and> row_count (file_values rgs) < 2 ^ 63)"

lemma page_ok_rows: "page_ok filt x \<Longrightarrow> starts_row (page_values x) \<and> (\<forall>v \<in> set (page_values x). level_ok v)"
  by (cases x) (auto simp: rows_ok_def list_all_iff)

lemma group_ok_rows: "group_ok filt rg \<Longrightarrow> starts_row (group_values rg) \<and> (\<forall>v \<in> set (group_values rg). level_ok v)"
  by (auto simp: group_ok_def rows_ok_def list_all_iff)

lemma file_starts: "list_all (group_ok filt) rgs \<Longrightarrow> starts_row (file_values rgs) \<and> (\<forall>v \<in> set (file_values rgs). level_ok v)"
  unfolding file_values_def by (intro conjI starts_row_concat) (use group_ok_rows in \<open>fastforce simp: list_all_iff\<close>)+

lemma pages_start:
  "list_all (page_ok filt) pgs \<Longrightarrow>
   starts_row (concat (map page_values pgs)) \<and> (\<forall>v \<in> set (concat (map page_values pgs)). level_ok v)"
  by (intro conjI starts_row_concat) (use page_ok_rows in \<open>fastforce simp: list_all_iff\<close>)+

subsection \<open>Predicates can be pushed down\<close>

text \<open>
  The statistics of a file: the column index of a chunk bounds its values page by page, the bounds
  of a page bound its values, and a dictionary holds every value of its page.  \<open>cmp\<close> is the order
  the bounds are kept in.
\<close>

definition within :: "('v \<Rightarrow> 'a::linorder) \<Rightarrow> 'v \<times> 'v \<Rightarrow> 'v pqValue list \<Rightarrow> bool" where
  "within key b vs = list_all (\<lambda>v. key (fst b) \<le> key (pv_value v) \<and> key (pv_value v) \<le> key (snd b)) vs"

fun page_stats :: "('v \<Rightarrow> 'a::linorder) \<Rightarrow> 'v pageRead \<Rightarrow> bool" where
  "page_stats key (PageRead pg) =
     ((case pg_Bounds pg of Some b \<Rightarrow> within key b (reads_values (pg_reads pg)) | None \<Rightarrow> True) \<and>
      (case pg_Dictionary pg of
         Some dict \<Rightarrow> list_all (\<lambda>v. key (pv_value v) \<in> key ` set dict) (reads_values (pg_reads pg))
       | None \<Rightarrow> True))"
| "page_stats key (PageErr e) = False"

definition chunk_stats :: "('v \<Rightarrow> 'a::linorder) \<Rightarrow> 'v pqChunk \<Rightarrow> bool" where
  "chunk_stats key cc =
     (list_all (page_stats key) (cc_Pages cc) \<and>
      (case cc_ColumnIndex cc of
         Some ci \<Rightarrow> list_all2 (\<lambda>b pg. within key b (page_values pg)) ci (cc_Pages cc)
       | None \<Rightarrow> True))"

lemma chunk_index:
  assumes "chunk_stats key cc" "cc_ColumnIndex cc = Some ci" "v \<in> set (concat (map page_values (cc_Pages cc)))"
  shows "\<exists>b \<in> set ci. key (fst b) \<le> key (pv_value v) \<and> key (pv_value v) \<le> key (snd b)"
proof -
  obtain pg where pg: "pg \<in> set (cc_Pages cc)" "v \<in> set (page_values pg)" using assms(3) by auto
  have "list_all2 (\<lambda>b pg. within key b (page_values pg)) ci (cc_Pages cc)" using assms(1,2) by (simp add: chunk_stats_def)
  then obtain b where "b \<in> set ci" "within key b (page_values pg)"
    using pg(1) by (metis in_set_conv_nth list_all2_conv_all_nth)
  then show ?thesis using pg(2) by (auto simp: within_def list_all_iff)
qed

text \<open>The cache of the substring predicate is transparent.\<close>

definition cache_ok :: "SubstringPredicate \<Rightarrow> bool" where
  "cache_ok p = (\<forall>s m. map_of (sp_matches p) s = Some m \<longrightarrow> m = strings_Contains s (sp_substring p))"

lemma cache_new: "cache_ok (NewSubstringPredicate sub)" "cache_ok (snd (Substring_KeepColumnChunk c p))"
  by (simp_all add: cache_ok_def NewSubstringPredicate_def Substring_KeepColumnChunk_def)

lemma Substring_KeepValue_cache:
  assumes "cache_ok p"
  shows "fst (Substring_KeepValue str v p) = strings_Contains (str v) (sp_substring p) \<and>
    cache_ok (snd (Substring_KeepValue str v p)) \<and> sp_substring (snd (Substring_KeepValue str v p)) = sp_substring p"
  using assms by (auto simp: Substring_KeepValue_def cache_ok_def Let_def update_conv' split: option.splits)

lemma Substring_dict_cache:
  "cache_ok p \<Longrightarrow> fst (Substring_dict str dict p) = list_ex (\<lambda>v. strings_Contains (str v) (sp_substring p)) dict \<and>
    cache_ok (snd (Substring_dict str dict p))"
proof (induction dict arbitrary: p)
  case (Cons v dict)
  note step = Substring_KeepValue_cache[OF Cons.prems, of str v]
  show ?case using step Cons.IH[of "snd (Substring_KeepValue str v p)"]
    by (cases "Substring_KeepValue str v p") auto
qed simp

text \<open>The interface: what a predicate promises about a file with correct statistics.\<close>

locale pushdown =
  fixes pred :: "'v Predicate" and key :: "'v \<Rightarrow> 'a::linorder"
  assumes chunk_kept: "chunk_stats key cc \<Longrightarrow> v \<in> set (concat (map page_values (cc_Pages cc))) \<Longrightarrow>
      KeepValue pred (pv_value v) \<Longrightarrow> KeepColumnChunk pred cc"
    and page_kept: "page_stats key (PageRead pg) \<Longrightarrow> v \<in> set (reads_values (pg_reads pg)) \<Longrightarrow>
      KeepValue pred (pv_value v) \<Longrightarrow> KeepPage pred pg"
begin

text \<open>So the conditions on acceptance of a well-formed file hold.\<close>

lemma pushdown_group:
  assumes "chunk_stats key (rg_ColumnChunk rg)" "group_ok None rg"
  shows "group_ok (Some pred) rg"
proof -
  have "page_ok (Some pred) x" if x: "x \<in> set (cc_Pages (rg_ColumnChunk rg))" for x
  proof -
    have s: "page_stats key x" "page_ok None x" using assms x by (auto simp: chunk_stats_def group_ok_def list_all_iff)
    then show ?thesis using page_kept by (cases x) (auto simp: accepts_def list_ex_iff inst_KeepValue_def inst_KeepPage_def)
  qed
  moreover have "accepts (Some pred) (group_values rg) \<longrightarrow> inst_KeepColumnChunk (Some pred) (rg_ColumnChunk rg)"
    using chunk_kept[OF assms(1)]
    by (auto simp: accepts_def list_ex_iff inst_KeepValue_def inst_KeepColumnChunk_def group_values_def)
  ultimately show ?thesis using assms(2) by (simp add: group_ok_def list_all_iff)
qed

lemma pushdown_file:
  "list_all (\<lambda>rg. chunk_stats key (rg_ColumnChunk rg)) rgs \<Longrightarrow> file_ok None rgs \<Longrightarrow> file_ok (Some pred) rgs"
  using pushdown_group by (auto simp: file_ok_def list_all_iff)

end

interpretation int_between: pushdown "NewIntBetweenPredicate int64 pmin pmax" "\<lambda>v. sint (int64 v)" for int64 pmin pmax
proof
  fix cc v
  assume a: "chunk_stats (\<lambda>v. sint (int64 v)) cc" "v \<in> set (concat (map page_values (cc_Pages cc)))"
    "KeepValue (NewIntBetweenPredicate int64 pmin pmax) (pv_value v)"
  show "KeepColumnChunk (NewIntBetweenPredicate int64 pmin pmax) cc"
  proof (cases "cc_ColumnIndex cc")
    case (Some ci)
    obtain b where "b \<in> set ci" "sint (int64 (fst b)) \<le> sint (int64 (pv_value v))" "sint (int64 (pv_value v)) \<le> sint (int64 (snd b))"
      using chunk_index[OF a(1) Some a(2)] by blast
    then show ?thesis using Some a(3)
      by (auto simp: NewIntBetweenPredicate_def IntBetween_KeepColumnChunk_def IntBetween_KeepValue_def list_ex_iff
        split: prod.splits intro!: bexI[of _ b])
  qed (simp add: NewIntBetweenPredicate_def IntBetween_KeepColumnChunk_def)
next
  fix pg v
  assume "page_stats (\<lambda>v. sint (int64 v)) (PageRead pg)" "v \<in> set (reads_values (pg_reads pg))"
    "KeepValue (NewIntBetweenPredicate int64 pmin pmax) (pv_value v)"
  then show "KeepPage (NewIntBetweenPredicate int64 pmin pmax) pg"
    by (auto simp: NewIntBetweenPredicate_def IntBetween_KeepPage_def IntBetween_KeepValue_def within_def list_all_iff
      split: option.splits)
qed

interpretation equal_int64: pushdown "NewEqualInt64Predicate int64 p" "\<lambda>v. sint (int64 v)" for int64 p
proof
  fix cc v
  assume a: "chunk_stats (\<lambda>v. sint (int64 v)) cc" "v \<in> set (concat (map page_values (cc_Pages cc)))"
    "KeepValue (NewEqualInt64Predicate int64 p) (pv_value v)"
  show "KeepColumnChunk (NewEqualInt64Predicate int64 p) cc"
  proof (cases "cc_ColumnIndex cc")
    case (Some ci)
    then show ?thesis using chunk_index[OF a(1) Some a(2)] a(3)
      by (fastforce simp: NewEqualInt64Predicate_def EqualInt64_KeepColumnChunk_def EqualInt64_KeepValue_def list_ex_iff)
  qed (simp add: NewEqualInt64Predicate_def EqualInt64_KeepColumnChunk_def)
next
  fix pg v
  assume "page_stats (\<lambda>v. sint (int64 v)) (PageRead pg)" "v \<in> set (reads_values (pg_reads pg))"
    "KeepValue (NewEqualInt64Predicate int64 p) (pv_value v)"
  then show "KeepPage (NewEqualInt64Predicate int64 p) pg"
    by (auto simp: NewEqualInt64Predicate_def EqualInt64_KeepPage_def EqualInt64_KeepValue_def within_def list_all_iff
      split: option.splits)
qed

interpretation string_in: pushdown "NewStringInPredicate bytes ss" bytes for bytes ss
proof
  fix cc v
  assume a: "chunk_stats bytes cc" "v \<in> set (concat (map page_values (cc_Pages cc)))"
    "KeepValue (NewStringInPredicate bytes ss) (pv_value v)"
  show "KeepColumnChunk (NewStringInPredicate bytes ss) cc"
  proof (cases "cc_ColumnIndex cc")
    case (Some ci)
    then show ?thesis using chunk_index[OF a(1) Some a(2)] a(3)
      by (fastforce simp: NewStringInPredicate_def StringIn_KeepColumnChunk_def StringIn_KeepValue_def list_ex_iff)
  qed (simp add: NewStringInPredicate_def StringIn_KeepColumnChunk_def)
next
  fix pg v
  assume "page_stats bytes (PageRead pg)" "v \<in> set (reads_values (pg_reads pg))"
    "KeepValue (NewStringInPredicate bytes ss) (pv_value v)"
  then show "KeepPage (NewStringInPredicate bytes ss) pg"
    by (fastforce simp: NewStringInPredicate_def StringIn_KeepPage_def StringIn_KeepValue_def list_all_iff list_ex_iff
      split: option.splits)
qed

end
