(* ===== verification/Repeated_Rows.thy ===== *)
theory Repeated_Rows
  imports Column_File Iterators
begin

section \<open>Repeated values of selected rows (pkg/phlaredb/query/repeated.go)\<close>

text \<open>
  \<open>repeatedPageIterator\<close> reads, for every row of an iterator, the values that a column has in that
  row.  It seeks to the row in its row group, reads the page from there, fills a buffer and cuts it
  at the values with repetition level 0; a row that does not fit the buffer is delivered in several
  pieces.

  The row groups are those of \<open>parquet-go\<close>: for a row, \<open>SeekToRow\<close> followed by \<open>ReadPage\<close> fails, is at
  the end or gives the rest of a page, which \<open>ReadValues\<close> delivers in chunks.
\<close>

subsection \<open>The iterator\<close>

record 'v repPage =
  rpg_NumRows :: int
  rpg_reads :: "('v pqValue list \<times> readEnd) list"

record 'v repGroup =
  rgp_NumRows :: int
  rgp_SeekToRow :: "int \<Rightarrow> errs"
  rgp_ReadPage :: "int \<Rightarrow> errs + 'v repPage option"
  rgp_Close :: errs

type_synonym ('t, 'v) RepeatedRow = "'t \<times> 'v pqValue list"

record ('i, 't, 'v) repeatedPageIterator =
  rp_rows :: 'i
  rp_rgs :: "'v repGroup list"
  rp_startRowGroupRowNum :: int
  rp_currentPage :: "int option"
  rp_startPageRowNum :: int
  rp_pageNextRowNum :: int
  rp_currentPages :: "errs option"
  rp_valueReader :: "('v pqValue list \<times> readEnd) list"
  rp_rowFinished :: bool
  rp_skipping :: bool
  rp_err :: errs
  rp_done :: bool
  rp_currentValue :: "('t, 'v) RepeatedRow option"
  rp_buffer :: "'v pqValue list"

text \<open>
  Of a page its number of rows is kept, of the open pages of a column chunk what closing them
  returns.  The constructor calls \<open>Next\<close> on the rows.
\<close>

definition NewRepeatedPageIterator :: "('i, 't) Iterator \<Rightarrow> 'i \<Rightarrow> 'v repGroup list \<Rightarrow> ('i, 't, 'v) repeatedPageIterator option" where
  "NewRepeatedPageIterator rit rows rgs = do {
     (ok, rows) \<leftarrow> it_Next rit rows;
     Some \<lparr>rp_rows = rows, rp_rgs = rgs, rp_startRowGroupRowNum = 0, rp_currentPage = None, rp_startPageRowNum = 0,
       rp_pageNextRowNum = 0, rp_currentPages = None, rp_valueReader = [], rp_rowFinished = True, rp_skipping = False,
       rp_err = [], rp_done = (\<not> ok), rp_currentValue = None, rp_buffer = []\<rparr> }"

definition closeCurrentPages :: "('i, 't, 'v) repeatedPageIterator \<Rightarrow> bool \<times> ('i, 't, 'v) repeatedPageIterator" where
  "closeCurrentPages s =
     (case rp_currentPages s of
        Some err \<Rightarrow> if err \<noteq> [] then (False, s\<lparr>rp_err := err, rp_currentPages := None\<rparr>) else (True, s\<lparr>rp_currentPages := None\<rparr>)
      | None \<Rightarrow> (True, s))"

text \<open>The row groups before the wanted row.\<close>

fun skip_groups :: "int \<Rightarrow> 'v repGroup list \<Rightarrow> ('i, 't, 'v) repeatedPageIterator \<Rightarrow> bool \<times> ('i, 't, 'v) repeatedPageIterator" where
  "skip_groups seek [] s = (True, s\<lparr>rp_rgs := []\<rparr>)"
| "skip_groups seek (g # gs) s =
     (if seek \<ge> rp_startRowGroupRowNum s + rgp_NumRows g
      then (case closeCurrentPages s of
              (False, s) \<Rightarrow> (False, s)
            | (True, s) \<Rightarrow> skip_groups seek gs (s\<lparr>rp_startRowGroupRowNum := rp_startRowGroupRowNum s + rgp_NumRows g\<rparr>))
      else (True, s\<lparr>rp_rgs := g # gs\<rparr>))"

text \<open>\<open>readNextRow\<close>: where the first row of the buffer starts and where the next one does.\<close>

fun next_row :: "'v pqValue list \<Rightarrow> nat \<Rightarrow> nat \<Rightarrow> bool \<Rightarrow> nat \<times> nat \<times> bool" where
  "next_row [] i start foundStart = (start, i, False)"
| "next_row (v # vs) i start foundStart =
     (if pv_RepetitionLevel v = 0 \<and> \<not> foundStart then next_row vs (i + 1) i True
      else if pv_RepetitionLevel v = 0 \<and> foundStart then (start, i, True)
      else next_row vs (i + 1) start foundStart)"

definition readNextRow :: "'v pqValue list \<Rightarrow> nat \<times> nat \<times> bool" where
  "readNextRow buffer = next_row buffer 0 0 False"

text \<open>
  A round of the loop ends with \<open>continue\<close> (\<open>None\<close>) or with a result.  \<open>advance\<close> is
  \<open>it.done = !it.rows.Next()\<close>.
\<close>

definition advance :: "('i, 't) Iterator \<Rightarrow> ('i, 't, 'v) repeatedPageIterator \<Rightarrow> ('i, 't, 'v) repeatedPageIterator option" where
  "advance rit s = do { (ok, rows) \<leftarrow> it_Next rit (rp_rows s); Some (s\<lparr>rp_rows := rows, rp_done := \<not> ok\<rparr>) }"

definition deliver :: "('i, 't) Iterator \<Rightarrow> nat \<Rightarrow> ('i, 't, 'v) repeatedPageIterator \<Rightarrow> ('i, 't, 'v) repeatedPageIterator" where
  "deliver rit n s = s\<lparr>rp_currentValue := Some (it_At rit (rp_rows s), take n (rp_buffer s)), rp_buffer := drop n (rp_buffer s)\<rparr>"

definition consume_row :: "('i, 't) Iterator \<Rightarrow> int \<Rightarrow> ('i, 't, 'v) repeatedPageIterator \<Rightarrow>
    (bool option \<times> ('i, 't, 'v) repeatedPageIterator) option" where
  "consume_row rit seek s =
     (case readNextRow (rp_buffer s) of (start, nxt, ok) \<Rightarrow>
        if ok \<and> rp_rowFinished s then
          (if seek > rp_startPageRowNum s + rp_pageNextRowNum s
           then Some (None, s\<lparr>rp_pageNextRowNum := rp_pageNextRowNum s + 1, rp_buffer := drop nxt (rp_buffer s)\<rparr>)
           else do {
             s \<leftarrow> advance rit (deliver rit nxt (s\<lparr>rp_pageNextRowNum := rp_pageNextRowNum s + 1\<rparr>));
             Some (Some True, s) })
        else if rp_rowFinished s \<or> rp_skipping s then
          (let s = s\<lparr>rp_rowFinished := False\<rparr>
           in if seek > rp_startPageRowNum s + rp_pageNextRowNum s
              then Some (None,
                (if rp_skipping s \<and> pv_RepetitionLevel (rp_buffer s ! start) = 0
                 then s\<lparr>rp_buffer := drop start (rp_buffer s), rp_pageNextRowNum := rp_pageNextRowNum s + 1,
                         rp_skipping := False, rp_rowFinished := True\<rparr>
                 else s\<lparr>rp_buffer := drop (if start \<noteq> 0 then start + 1 else nxt) (rp_buffer s), rp_skipping := True\<rparr>))
              else Some (Some True, deliver rit nxt s))
        else if \<not> rp_rowFinished s \<and> pv_RepetitionLevel (rp_buffer s ! start) = 0 then
          (if start \<ge> 1 then Some (Some True, deliver rit start s)
           else do {
             s \<leftarrow> advance rit (s\<lparr>rp_pageNextRowNum := rp_pageNextRowNum s + 1\<rparr>);
             Some (None, s\<lparr>rp_rowFinished := True\<rparr>) })
        else Some (Some True, deliver rit nxt s))"

text \<open>Filling the buffer and opening a page.\<close>

definition fill_buffer :: "('i, 't) Iterator \<Rightarrow> int \<Rightarrow> ('i, 't, 'v) repeatedPageIterator \<Rightarrow>
    (bool option \<times> ('i, 't, 'v) repeatedPageIterator) option" where
  "fill_buffer rit seek s =
     (if rp_buffer s = [] then
        (case rp_valueReader s of
           (vs, RErr err) # _ \<Rightarrow> Some (Some False, s\<lparr>rp_err := err\<rparr>)
         | r \<Rightarrow>
             let vs = (case r of [] \<Rightarrow> [] | (vs, _) # _ \<Rightarrow> vs);
                 s = s\<lparr>rp_buffer := vs, rp_valueReader := tl r\<rparr>
             in if vs = [] then do { s \<leftarrow> advance rit s; Some (None, s\<lparr>rp_currentPage := None\<rparr>) }
                else consume_row rit seek s)
      else consume_row rit seek s)"

definition open_page :: "int \<Rightarrow> 'v repGroup \<Rightarrow> ('i, 't, 'v) repeatedPageIterator \<Rightarrow>
    bool option \<times> ('i, 't, 'v) repeatedPageIterator" where
  "open_page seek g s =
     (let seekTo = seek - rp_startRowGroupRowNum s
      in if rgp_SeekToRow g seekTo \<noteq> [] then (Some False, s\<lparr>rp_err := rgp_SeekToRow g seekTo, rp_currentPages := None\<rparr>)
         else
           let s = s\<lparr>rp_startPageRowNum := seek, rp_pageNextRowNum := 0, rp_buffer := [], rp_rowFinished := True, rp_skipping := False\<rparr>
           in case rgp_ReadPage g seekTo of
                Inl err \<Rightarrow> (Some False, s\<lparr>rp_err := err\<rparr>)
              | Inr None \<Rightarrow> (None, s)
              | Inr (Some pg) \<Rightarrow> (Some True, s\<lparr>rp_currentPage := Some (rpg_NumRows pg), rp_valueReader := rpg_reads pg\<rparr>))"

definition in_page :: "('i, 't) Iterator \<Rightarrow> int \<Rightarrow> ('i, 't, 'v) repeatedPageIterator \<Rightarrow>
    (bool option \<times> ('i, 't, 'v) repeatedPageIterator) option" where
  "in_page rit seek s =
     (case rp_currentPage s of
        Some n \<Rightarrow>
          if seek \<ge> rp_startPageRowNum s + n then Some (None, s\<lparr>rp_currentPage := None\<rparr>)
          else fill_buffer rit seek s
      | None \<Rightarrow> None)"

definition rep_round :: "('i, 't) Iterator \<Rightarrow> ('t \<Rightarrow> int) \<Rightarrow> ('i, 't, 'v) repeatedPageIterator \<Rightarrow>
    (bool option \<times> ('i, 't, 'v) repeatedPageIterator) option" where
  "rep_round rit rowNum s =
     (if rp_done s then Some (Some False, s)
      else
        let seek = rowNum (it_At rit (rp_rows s))
        in case skip_groups seek (rp_rgs s) s of
             (False, s) \<Rightarrow> Some (Some False, s)
           | (True, s) \<Rightarrow>
               (case rp_rgs s of
                  [] \<Rightarrow> Some (Some False, s)
                | g # _ \<Rightarrow>
                    let s = (if rp_currentPages s = None then s\<lparr>rp_currentPages := Some (rgp_Close g)\<rparr> else s)
                    in if rp_currentPage s = None
                       then (case open_page seek g s of
                               (None, s) \<Rightarrow> Some (None, s)
                             | (Some False, s) \<Rightarrow> Some (Some False, s)
                             | (Some True, s) \<Rightarrow> in_page rit seek s)
                       else in_page rit seek s))"

partial_function (option) rep_Next :: "('i, 't) Iterator \<Rightarrow> ('t \<Rightarrow> int) \<Rightarrow> ('i, 't, 'v) repeatedPageIterator \<Rightarrow>
    (bool \<times> ('i, 't, 'v) repeatedPageIterator) option" where
  "rep_Next rit rowNum s = do {
     (r, s) \<leftarrow> rep_round rit rowNum s;
     case r of Some b \<Rightarrow> Some (b, s) | None \<Rightarrow> rep_Next rit rowNum s }"

definition rep_Close :: "('i, 't, 'v) repeatedPageIterator \<Rightarrow> errs \<times> ('i, 't, 'v) repeatedPageIterator" where
  "rep_Close s =
     (case rp_currentPages s of
        Some err \<Rightarrow> if err \<noteq> [] then (err, s) else ([], s\<lparr>rp_currentPages := None\<rparr>)
      | None \<Rightarrow> ([], s))"

definition repeated_iterator :: "('i, 't) Iterator \<Rightarrow> ('t \<Rightarrow> int) \<Rightarrow> 't \<Rightarrow> (('i, 't, 'v) repeatedPageIterator, ('t, 'v) RepeatedRow) Iterator" where
  "repeated_iterator rit rowNum zero =
     \<lparr>it_Next = rep_Next rit rowNum, it_At = (\<lambda>s. case rp_currentValue s of Some r \<Rightarrow> r | None \<Rightarrow> (zero, [])),
      it_Err = rp_err, it_Close = rep_Close\<rparr>"

subsection \<open>Rows and the file\<close>

text \<open>
  A row has at least one value, and exactly its first one has repetition level 0.  \<open>frows fr a b\<close> are
  the rows from \<open>a\<close> to before \<open>b\<close> of the file \<open>fr\<close>.
\<close>

definition rep_row :: "'v pqValue list \<Rightarrow> bool" where
  "rep_row r = (r \<noteq> [] \<and> pv_RepetitionLevel (hd r) = 0 \<and> list_all (\<lambda>v. pv_RepetitionLevel v \<noteq> 0) (tl r))"

definition frows :: "'v pqValue list list \<Rightarrow> nat \<Rightarrow> nat \<Rightarrow> 'v pqValue list list" where
  "frows fr a b = map (\<lambda>i. fr ! i) [a..<b]"

lemma frows_Cons: "a < b \<Longrightarrow> frows fr a b = fr ! a # frows fr (Suc a) b"
  by (simp add: frows_def upt_conv_Cons)

lemma frows_empty [simp]: "b \<le> a \<Longrightarrow> frows fr a b = []"
  by (simp add: frows_def)

definition full_reads :: "('v pqValue list \<times> readEnd) list \<Rightarrow> bool" where
  "full_reads reads = list_all (\<lambda>(vs, e). vs \<noteq> [] \<and> (case e of RErr _ \<Rightarrow> False | _ \<Rightarrow> True)) reads"

text \<open>
  The rows \<open>k\<close> to \<open>k + n\<close> of the file are a row group: a seek to any of them succeeds, and the page that is read
  then holds some rows from there on.
\<close>

definition page_from :: "'v pqValue list list \<Rightarrow> nat \<Rightarrow> nat \<Rightarrow> 'v repGroup \<Rightarrow> nat \<Rightarrow> bool" where
  "page_from fr k n g i =
     (rgp_SeekToRow g (int i) = [] \<and>
      (case rgp_ReadPage g (int i) of
         Inr (Some pg) \<Rightarrow>
           0 < rpg_NumRows pg \<and> i + nat (rpg_NumRows pg) \<le> n \<and> full_reads (rpg_reads pg) \<and>
           concat (map fst (rpg_reads pg)) = concat (frows fr (k + i) (k + i + nat (rpg_NumRows pg)))
       | _ \<Rightarrow> False))"

fun groups_from :: "'v pqValue list list \<Rightarrow> nat \<Rightarrow> 'v repGroup list \<Rightarrow> bool" where
  "groups_from fr k [] = (k = length fr)"
| "groups_from fr k (g # gs) =
     (0 \<le> rgp_NumRows g \<and> rgp_Close g = [] \<and> list_all (page_from fr k (nat (rgp_NumRows g)) g) [0..<nat (rgp_NumRows g)] \<and>
      groups_from fr (k + nat (rgp_NumRows g)) gs)"

definition rep_file :: "'v repGroup list \<Rightarrow> 'v pqValue list list \<Rightarrow> bool" where
  "rep_file rgs fr = (list_all rep_row fr \<and> groups_from fr 0 rgs)"

lemma groups_from_length: "groups_from fr k gs \<Longrightarrow> k \<le> length fr"
  by (induction gs arbitrary: k) (simp, fastforce)

subsection \<open>Cutting the buffer\<close>

lemma next_row_found:
  "list_all (\<lambda>v. pv_RepetitionLevel v \<noteq> 0) q \<Longrightarrow> next_row (q @ w) i start b = next_row w (i + length q) start b"
  by (induction q arbitrary: i) auto

lemma readNextRow_part: "list_all (\<lambda>v. pv_RepetitionLevel v \<noteq> 0) q \<Longrightarrow> readNextRow q = (0, length q, False)"
  using next_row_found[of q "[]" 0 0 False] by (simp add: readNextRow_def)

lemma readNextRow_prefix:
  assumes "rep_row (b @ us)" "b \<noteq> []"
  shows "readNextRow b = (0, length b, False)"
proof -
  obtain v vs where b: "b = v # vs" using assms(2) by (cases b) auto
  have "pv_RepetitionLevel v = 0" "list_all (\<lambda>v. pv_RepetitionLevel v \<noteq> 0) vs" using assms(1) by (auto simp: rep_row_def b)
  then show ?thesis using next_row_found[of vs "[]" 1 0 True] by (simp add: b readNextRow_def)
qed

lemma readNextRow_row:
  assumes "rep_row r" "us \<noteq> []" "pv_RepetitionLevel (hd us) = 0"
  shows "readNextRow (r @ us) = (0, length r, True)"
proof -
  obtain v vs where r: "r = v # vs" using assms(1) by (cases r) (auto simp: rep_row_def)
  obtain u us' where u: "us = u # us'" using assms(2) by (cases us) auto
  have "pv_RepetitionLevel v = 0" "list_all (\<lambda>v. pv_RepetitionLevel v \<noteq> 0) vs" using assms(1) by (auto simp: rep_row_def r)
  then show ?thesis using next_row_found[of vs us 1 0 True] assms(3) by (simp add: r u readNextRow_def)
qed

lemma readNextRow_start:
  assumes "list_all (\<lambda>v. pv_RepetitionLevel v \<noteq> 0) q" "us \<noteq> []" "pv_RepetitionLevel (hd us) = 0"
  shows "\<exists>n ok. readNextRow (q @ us) = (length q, n, ok)"
proof -
  obtain u us' where u: "us = u # us'" using assms(2) by (cases us) auto
  have start: "\<exists>n ok. next_row vs i st True = (st, n, ok)" for vs :: "'a pqValue list" and i st by (induction vs arbitrary: i) auto
  show ?thesis using next_row_found[OF assms(1), of us 0 0 False] assms(3) start by (auto simp: u readNextRow_def)
qed

text \<open>The start of the rows after the current one.\<close>

lemma rows_start:
  assumes "list_all rep_row fr" "b \<le> length fr" "us @ vs' = concat (frows fr a b)" "us \<noteq> []"
  shows "pv_RepetitionLevel (hd us) = 0"
proof -
  have "a < b" using assms(3,4) by (cases "a < b") auto
  then have "us @ vs' = fr ! a @ concat (frows fr (Suc a) b)" "rep_row (fr ! a)"
    using assms by (auto simp: frows_Cons list_all_length)
  then show ?thesis using assms(4) by (cases us; cases "fr ! a") (auto simp: rep_row_def)
qed

subsection \<open>The contract\<close>

text \<open>
  \<open>chopped ws ps\<close>: the pieces \<open>ps\<close> are the values \<open>ws\<close> of the rows, in order, each row cut into pieces that are not
  empty.
\<close>

inductive chopped :: "('t \<times> 'v list) list \<Rightarrow> ('t \<times> 'v list) list \<Rightarrow> bool" where
  chopped_Nil: "chopped [] []"
| chopped_next: "chopped ws ps \<Longrightarrow> chopped ((x, []) # ws) ps"
| chopped_piece: "v \<noteq> [] \<Longrightarrow> chopped ((x, q) # ws) ps \<Longrightarrow> chopped ((x, v @ q) # ws) ((x, v) # ps)"

lemma chopped_whole: "w \<noteq> [] \<Longrightarrow> chopped ws ps \<Longrightarrow> chopped ((x, w) # ws) ((x, w) # ps)"
  using chopped_piece[of w x "[]"] chopped_next by fastforce

definition cursor :: "('i, 't) Iterator \<Rightarrow> ('i, 't, 'v) repeatedPageIterator \<Rightarrow> 't list \<Rightarrow> bool" where
  "cursor rit s xs =
     (case xs of
        [] \<Rightarrow> rp_done s
      | x # xs' \<Rightarrow> \<not> rp_done s \<and> it_At rit (rp_rows s) = x \<and> (\<exists>e. yields rit (rp_rows s) xs' e))"

definition rem :: "('i, 't, 'v) repeatedPageIterator \<Rightarrow> 'v pqValue list" where
  "rem s = rp_buffer s @ concat (map fst (rp_valueReader s))"

text \<open>
  Where the reader is: in a page that ends before row \<open>b\<close>, at row \<open>a\<close>, either between rows, or inside a row that is being
  delivered or skipped, with \<open>q\<close> left of it.  \<open>w\<close> is what is still owed of the wanted row.
\<close>

definition at_row :: "'v pqValue list list \<Rightarrow> ('i, 't, 'v) repeatedPageIterator \<Rightarrow> nat \<Rightarrow> 'v pqValue list \<Rightarrow> nat \<Rightarrow> nat \<Rightarrow> bool" where
  "at_row fr s seek w a b =
     (rp_startPageRowNum s + rp_pageNextRowNum s = int a \<and> a \<le> seek \<and> b \<le> length fr \<and> full_reads (rp_valueReader s) \<and>
      (if rp_rowFinished s then \<not> rp_skipping s \<and> a \<le> b \<and> w = fr ! seek \<and> rem s = concat (frows fr a b)
       else a < b \<and> (\<exists>q. list_all (\<lambda>v. pv_RepetitionLevel v \<noteq> 0) q \<and> rem s = q @ concat (frows fr (Suc a) b) \<and>
          (if rp_skipping s then a < seek \<and> w = fr ! seek else a = seek \<and> w = q))))"

definition page_state :: "'v pqValue list list \<Rightarrow> ('i, 't, 'v) repeatedPageIterator \<Rightarrow> nat \<Rightarrow> 'v pqValue list \<Rightarrow> bool" where
  "page_state fr s seek w =
     (case rp_currentPage s of
        None \<Rightarrow> w = fr ! seek
      | Some n \<Rightarrow> \<exists>a b. rp_startPageRowNum s + n = int b \<and> at_row fr s seek w a b)"

definition between :: "'v pqValue list list \<Rightarrow> ('i, 't, 'v) repeatedPageIterator \<Rightarrow> nat \<Rightarrow> nat \<Rightarrow> bool" where
  "between fr s a b =
     (rp_startPageRowNum s + rp_pageNextRowNum s = int a \<and> a \<le> b \<and> b \<le> length fr \<and> full_reads (rp_valueReader s) \<and>
      rp_rowFinished s \<and> \<not> rp_skipping s \<and> rem s = concat (frows fr a b))"

definition within_row :: "'v pqValue list list \<Rightarrow> ('i, 't, 'v) repeatedPageIterator \<Rightarrow> bool \<Rightarrow> 'v pqValue list \<Rightarrow> nat \<Rightarrow> nat \<Rightarrow> bool" where
  "within_row fr s skip q a b =
     (rp_startPageRowNum s + rp_pageNextRowNum s = int a \<and> a < b \<and> b \<le> length fr \<and> full_reads (rp_valueReader s) \<and>
      \<not> rp_rowFinished s \<and> rp_skipping s = skip \<and> list_all (\<lambda>v. pv_RepetitionLevel v \<noteq> 0) q \<and> rem s = q @ concat (frows fr (Suc a) b))"

lemma at_row_cases:
  "at_row fr s seek w a b \<longleftrightarrow>
     (between fr s a b \<and> a \<le> seek \<and> w = fr ! seek) \<or>
     (\<exists>q. within_row fr s True q a b \<and> a < seek \<and> w = fr ! seek) \<or>
     (within_row fr s False w a b \<and> a = seek)"
  by (auto simp: at_row_def between_def within_row_def)

text \<open>What a round does not touch.\<close>

definition same_file :: "('i, 't, 'v) repeatedPageIterator \<Rightarrow> ('i, 't, 'v) repeatedPageIterator \<Rightarrow> bool" where
  "same_file s s' =
     (rp_rgs s' = rp_rgs s \<and> rp_startRowGroupRowNum s' = rp_startRowGroupRowNum s \<and> rp_startPageRowNum s' = rp_startPageRowNum s \<and>
      rp_currentPages s' = rp_currentPages s \<and> rp_err s' = rp_err s)"

definition cost :: "('i, 't, 'v) repeatedPageIterator \<Rightarrow> nat" where
  "cost s = 2 * length (rem s) + (if rp_skipping s then 1 else 0)"

text \<open>
  What a round does in a page: it stays at the row \<open>x\<close>, having delivered or skipped something, or it is done with it.
\<close>

definition stays :: "('i, 't) Iterator \<Rightarrow> 'v pqValue list list \<Rightarrow> nat \<Rightarrow> 'v pqValue list \<Rightarrow> nat \<Rightarrow> 't list \<Rightarrow> ('i, 't, 'v) repeatedPageIterator \<Rightarrow>
    bool option \<Rightarrow> ('i, 't, 'v) repeatedPageIterator \<Rightarrow> bool" where
  "stays rit fr seek w b xs s r s' =
     (same_file s s' \<and> rp_currentPage s' = rp_currentPage s \<and> cursor rit s' xs \<and> cost s' < cost s \<and>
      (\<exists>a' w'. at_row fr s' seek w' a' b \<and>
        (r = None \<and> w' = w \<or> r = Some True \<and> (\<exists>v. v \<noteq> [] \<and> rp_currentValue s' = Some (hd xs, v) \<and> w = v @ w'))))"

definition leaves :: "('i, 't) Iterator \<Rightarrow> 'v pqValue list list \<Rightarrow> nat \<Rightarrow> 'v pqValue list \<Rightarrow> nat \<Rightarrow> 't list \<Rightarrow> ('i, 't, 'v) repeatedPageIterator \<Rightarrow>
    bool option \<Rightarrow> ('i, 't, 'v) repeatedPageIterator \<Rightarrow> bool" where
  "leaves rit fr seek w b xs s r s' =
     (same_file s s' \<and> cursor rit s' (tl xs) \<and>
      (rp_currentPage s' = None \<or> rp_currentPage s' = rp_currentPage s \<and> between fr s' (Suc seek) b) \<and>
      (r = None \<and> w = [] \<or> r = Some True \<and> w \<noteq> [] \<and> rp_currentValue s' = Some (hd xs, w)))"

lemma stays_skip:
  "same_file s s' \<Longrightarrow> rp_currentPage s' = rp_currentPage s \<Longrightarrow> cursor rit s' xs \<Longrightarrow> cost s' < cost s \<Longrightarrow> at_row fr s' seek w a' b \<Longrightarrow>
   stays rit fr seek w b xs s None s'"
  unfolding stays_def by blast

lemma stays_deliver:
  "same_file s s' \<Longrightarrow> rp_currentPage s' = rp_currentPage s \<Longrightarrow> cursor rit s' xs \<Longrightarrow> cost s' < cost s \<Longrightarrow> at_row fr s' seek w' a' b \<Longrightarrow>
   v \<noteq> [] \<Longrightarrow> rp_currentValue s' = Some (hd xs, v) \<Longrightarrow> w = v @ w' \<Longrightarrow> stays rit fr seek w b xs s (Some True) s'"
  unfolding stays_def by blast

lemma advance_ok:
  assumes "cursor rit s (x # xs)"
  obtains rows d where "advance rit s = Some (s\<lparr>rp_rows := rows, rp_done := d\<rparr>)" "cursor rit (s\<lparr>rp_rows := rows, rp_done := d\<rparr>) xs"
proof -
  obtain e where e: "yields rit (rp_rows s) xs e" using assms by (auto simp: cursor_def)
  show ?thesis
  proof (cases xs)
    case Nil
    then have "ended rit e (rp_rows s)" using e by (auto elim: yields_NilE)
    then obtain j where "it_Next rit (rp_rows s) = Some (False, j)" using ended_next by fastforce
    then show ?thesis using Nil that[where rows = j and d = True] by (simp add: advance_def cursor_def)
  next
    case (Cons y ys)
    then obtain j where "it_Next rit (rp_rows s) = Some (True, j)" "it_At rit j = y" "yields rit j ys e" using e by (auto elim: yields_ConsE)
    then show ?thesis using Cons that[where rows = j and d = False] by (auto simp: advance_def cursor_def)
  qed
qed

lemma buffer_split:
  assumes "rem s = r @ us"
  obtains (long) ws where "rp_buffer s = r @ ws" "ws \<noteq> []" "ws @ concat (map fst (rp_valueReader s)) = us"
  | (short) ws where "rp_buffer s @ ws = r" "concat (map fst (rp_valueReader s)) = ws @ us"
proof -
  have "rp_buffer s @ concat (map fst (rp_valueReader s)) = r @ us" using assms by (simp add: rem_def)
  then obtain ws where "rp_buffer s = r @ ws \<and> ws @ concat (map fst (rp_valueReader s)) = us \<or>
    rp_buffer s @ ws = r \<and> concat (map fst (rp_valueReader s)) = ws @ us"
    unfolding append_eq_append_conv2 by blast
  then show ?thesis using long short[of ws] short[of "[]"] by (cases "ws = []") auto
qed

lemma consume_between:
  assumes fr: "list_all rep_row fr" and st: "between fr s a b" "a \<le> seek" "seek < b" and buf: "rp_buffer s \<noteq> []" and cur: "cursor rit s (x # xs)"
  shows "\<exists>r s'. consume_row rit (int seek) s = Some (r, s') \<and>
    (stays rit fr seek (fr ! seek) b (x # xs) s r s' \<or> leaves rit fr seek (fr ! seek) b (x # xs) s r s')"
proof -
  have rows: "rem s = fr ! a @ concat (frows fr (Suc a) b)" "rep_row (fr ! a)" "fr ! a \<noteq> []" "b \<le> length fr"
    using st fr by (auto simp: between_def frows_Cons list_all_length rep_row_def)
  have sk: "\<not> rp_skipping s" using st(1) by (simp add: between_def)
  from rows(1) show ?thesis
  proof (cases rule: buffer_split)
    case (long ws)
    have "pv_RepetitionLevel (hd ws) = 0" using rows_start[OF fr rows(4) long(3,2)] .
    then have next': "readNextRow (rp_buffer s) = (0, length (fr ! a), True)" unfolding long(1) by (rule readNextRow_row[OF rows(2) long(2)])
    show ?thesis
    proof (cases "seek = a")
      case True
      let ?s = "deliver rit (length (fr ! a)) (s\<lparr>rp_pageNextRowNum := rp_pageNextRowNum s + 1\<rparr>)"
      have "cursor rit ?s (x # xs)" using cur by (simp add: cursor_def deliver_def)
      then obtain rows' d where adv: "advance rit ?s = Some (?s\<lparr>rp_rows := rows', rp_done := d\<rparr>)" "cursor rit (?s\<lparr>rp_rows := rows', rp_done := d\<rparr>) xs"
        by (rule advance_ok)
      have "consume_row rit (int seek) s = Some (Some True, ?s\<lparr>rp_rows := rows', rp_done := d\<rparr>)"
        using next' st(1) adv(1) True by (simp add: consume_row_def between_def)
      moreover have "leaves rit fr seek (fr ! seek) b (x # xs) s (Some True) (?s\<lparr>rp_rows := rows', rp_done := d\<rparr>)"
        using st adv(2) rows(3) cur long True
        by (auto simp: leaves_def same_file_def between_def rem_def deliver_def cursor_def)
      ultimately show ?thesis by blast
    next
      case False
      then have a: "a < seek" using st(2) by simp
      let ?s = "s\<lparr>rp_pageNextRowNum := rp_pageNextRowNum s + 1, rp_buffer := drop (length (fr ! a)) (rp_buffer s)\<rparr>"
      have "consume_row rit (int seek) s = Some (None, ?s)" using next' st(1) a by (simp add: consume_row_def between_def)
      moreover have "at_row fr ?s seek (fr ! seek) (Suc a) b"
        using st a long(1,3) by (auto simp: at_row_cases between_def rem_def)
      moreover have "cost ?s < cost s" using long(1) rows(3) sk by (simp add: cost_def rem_def)
      moreover have "cursor rit ?s (x # xs)" using cur by (simp add: cursor_def)
      ultimately show ?thesis by (auto simp: stays_def same_file_def)
    qed
  next
    case (short ws)
    have next': "readNextRow (rp_buffer s) = (0, length (rp_buffer s), False)" using readNextRow_prefix[of "rp_buffer s" ws] short(1) rows(2) buf by simp
    have q: "list_all (\<lambda>v. pv_RepetitionLevel v \<noteq> 0) ws" using rows(2) buf unfolding short(1)[symmetric] by (cases "rp_buffer s") (auto simp: rep_row_def)
    show ?thesis
    proof (cases "seek = a")
      case True
      let ?s = "deliver rit (length (rp_buffer s)) (s\<lparr>rp_rowFinished := False\<rparr>)"
      have "consume_row rit (int seek) s = Some (Some True, ?s)" using next' st(1) True by (simp add: consume_row_def between_def)
      moreover have "at_row fr ?s seek ws a b" using st True q short(2) by (auto simp: at_row_cases between_def within_row_def rem_def deliver_def)
      moreover have "cost ?s < cost s" using buf sk by (simp add: cost_def rem_def deliver_def)
      moreover have "cursor rit ?s (x # xs)" "rp_currentValue ?s = Some (x, rp_buffer s)" using cur by (auto simp: cursor_def deliver_def)
      moreover have "same_file s ?s" "rp_currentPage ?s = rp_currentPage s" by (simp_all add: same_file_def deliver_def)
      ultimately show ?thesis using buf short(1) True stays_deliver[of s ?s rit "x # xs" fr seek ws a b "rp_buffer s" "fr ! a"] by auto
    next
      case False
      then have a: "a < seek" using st(2) by simp
      let ?s = "s\<lparr>rp_rowFinished := False, rp_buffer := [], rp_skipping := True\<rparr>"
      have "consume_row rit (int seek) s = Some (None, ?s)" using next' st(1) a by (simp add: consume_row_def between_def Let_def)
      moreover have "at_row fr ?s seek (fr ! seek) a b" using st a q short(2) by (auto simp: at_row_cases between_def within_row_def rem_def)
      moreover have "cost ?s < cost s" using buf sk by (cases "rp_buffer s") (simp_all add: cost_def rem_def)
      moreover have "cursor rit ?s (x # xs)" using cur by (simp add: cursor_def)
      ultimately show ?thesis by (auto simp: stays_def same_file_def)
    qed
  qed
qed

lemma consume_skipping:
  assumes fr: "list_all rep_row fr" and st: "within_row fr s True q a b" "a < seek" and buf: "rp_buffer s \<noteq> []" and cur: "cursor rit s (x # xs)"
  shows "\<exists>s'. consume_row rit (int seek) s = Some (None, s') \<and> stays rit fr seek (fr ! seek) b (x # xs) s None s'"
proof -
  have rows: "rem s = q @ concat (frows fr (Suc a) b)" "list_all (\<lambda>v. pv_RepetitionLevel v \<noteq> 0) q" "b \<le> length fr"
    and fl: "\<not> rp_rowFinished s" "rp_skipping s" "rp_startPageRowNum s + rp_pageNextRowNum s = int a" using st by (auto simp: within_row_def)
  from rows(1) show ?thesis
  proof (cases rule: buffer_split)
    case (long ws)
    have z: "pv_RepetitionLevel (hd ws) = 0" using rows_start[OF fr rows(3) long(3,2)] .
    then obtain n ok where next': "readNextRow (rp_buffer s) = (length q, n, ok)" unfolding long(1) using readNextRow_start[OF rows(2) long(2)] by blast
    let ?s = "s\<lparr>rp_rowFinished := True, rp_buffer := ws, rp_pageNextRowNum := rp_pageNextRowNum s + 1, rp_skipping := False\<rparr>"
    have "consume_row rit (int seek) s = Some (None, ?s)"
      using next' fl st(2) z long(1,2) by (simp add: consume_row_def Let_def nth_append hd_conv_nth)
    moreover have "at_row fr ?s seek (fr ! seek) (Suc a) b" using st long(3) by (auto simp: at_row_cases between_def within_row_def rem_def)
    moreover have "cost ?s < cost s" using long(1) fl(2) by (simp add: cost_def rem_def)
    moreover have "cursor rit ?s (x # xs)" "same_file s ?s" using cur by (simp_all add: cursor_def same_file_def)
    ultimately show ?thesis using stays_skip[of s ?s rit "x # xs" fr seek "fr ! seek" "Suc a" b] by auto
  next
    case (short ws)
    have b: "list_all (\<lambda>v. pv_RepetitionLevel v \<noteq> 0) (rp_buffer s)" "list_all (\<lambda>v. pv_RepetitionLevel v \<noteq> 0) ws"
      using rows(2) unfolding short(1)[symmetric] by simp_all
    let ?s = "s\<lparr>rp_rowFinished := False, rp_buffer := [], rp_skipping := True\<rparr>"
    have "pv_RepetitionLevel (rp_buffer s ! 0) \<noteq> 0" using b(1) buf by (simp add: list_all_length)
    then have "consume_row rit (int seek) s = Some (None, ?s)"
      using readNextRow_part[OF b(1)] fl st(2) by (simp add: consume_row_def Let_def)
    moreover have "at_row fr ?s seek (fr ! seek) a b" using st b(2) short(2) by (auto simp: at_row_cases within_row_def rem_def)
    moreover have "cost ?s < cost s" using buf fl(2) by (simp add: cost_def rem_def)
    moreover have "cursor rit ?s (x # xs)" "same_file s ?s" using cur by (simp_all add: cursor_def same_file_def)
    ultimately show ?thesis using stays_skip[of s ?s rit "x # xs" fr seek "fr ! seek" a b] by auto
  qed
qed

lemma consume_delivering:
  assumes fr: "list_all rep_row fr" and st: "within_row fr s False w seek b" and buf: "rp_buffer s \<noteq> []" and cur: "cursor rit s (x # xs)"
  shows "\<exists>r s'. consume_row rit (int seek) s = Some (r, s') \<and> (stays rit fr seek w b (x # xs) s r s' \<or> leaves rit fr seek w b (x # xs) s r s')"
proof -
  have rows: "rem s = w @ concat (frows fr (Suc seek) b)" "list_all (\<lambda>v. pv_RepetitionLevel v \<noteq> 0) w" "b \<le> length fr"
    and fl: "\<not> rp_rowFinished s" "\<not> rp_skipping s" using st by (auto simp: within_row_def)
  have deliver: "stays rit fr seek w b (x # xs) s (Some True) (deliver rit (length v) s)"
    if v: "v \<noteq> []" "rp_buffer s = v @ ws" "w = v @ w'" "rem s = v @ w' @ concat (frows fr (Suc seek) b)" for v ws w'
  proof (rule stays_deliver[where v = v and w' = w' and a' = seek])
    show "at_row fr (deliver rit (length v) s) seek w' seek b" using st v rows(2) by (auto simp: at_row_cases within_row_def rem_def deliver_def)
    show "cost (deliver rit (length v) s) < cost s" using v(1,2) fl(2) by (simp add: cost_def rem_def deliver_def)
    show "cursor rit (deliver rit (length v) s) (x # xs)" "rp_currentValue (deliver rit (length v) s) = Some (hd (x # xs), v)"
      using cur v(2) by (auto simp: cursor_def deliver_def)
  qed (use v in \<open>simp_all add: same_file_def deliver_def\<close>)
  from rows(1) show ?thesis
  proof (cases rule: buffer_split)
    case (long ws)
    have z: "pv_RepetitionLevel (hd ws) = 0" using rows_start[OF fr rows(3) long(3,2)] .
    then obtain n ok where next': "readNextRow (rp_buffer s) = (length w, n, ok)" unfolding long(1) using readNextRow_start[OF rows(2) long(2)] by blast
    have z': "pv_RepetitionLevel (rp_buffer s ! length w) = 0" using z long(1,2) by (simp add: nth_append hd_conv_nth)
    show ?thesis
    proof (cases "w = []")
      case False
      then have "consume_row rit (int seek) s = Some (Some True, deliver rit (length w) s)"
        using next' fl z' by (cases w) (simp_all add: consume_row_def)
      then show ?thesis using deliver[OF False long(1), of "[]"] rows(1) by simp
    next
      case True
      let ?s = "s\<lparr>rp_pageNextRowNum := rp_pageNextRowNum s + 1\<rparr>"
      have "cursor rit ?s (x # xs)" using cur by (simp add: cursor_def)
      then obtain rows' d where adv: "advance rit ?s = Some (?s\<lparr>rp_rows := rows', rp_done := d\<rparr>)" "cursor rit (?s\<lparr>rp_rows := rows', rp_done := d\<rparr>) xs"
        by (rule advance_ok)
      let ?t = "?s\<lparr>rp_rows := rows', rp_done := d, rp_rowFinished := True\<rparr>"
      have "consume_row rit (int seek) s = Some (None, ?t)" using next' fl z' adv(1) True by (simp add: consume_row_def)
      moreover have "leaves rit fr seek w b (x # xs) s None ?t"
        using st adv(2) True rows(1) by (auto simp: leaves_def same_file_def between_def within_row_def rem_def cursor_def split: list.splits)
      ultimately show ?thesis by blast
    qed
  next
    case (short ws)
    have b: "list_all (\<lambda>v. pv_RepetitionLevel v \<noteq> 0) (rp_buffer s)" using rows(2) unfolding short(1)[symmetric] by simp
    have "pv_RepetitionLevel (rp_buffer s ! 0) \<noteq> 0" using b buf by (simp add: list_all_length)
    then have "consume_row rit (int seek) s = Some (Some True, deliver rit (length (rp_buffer s)) s)"
      using readNextRow_part[OF b] fl by (simp add: consume_row_def)
    then show ?thesis using deliver[OF buf, of "[]" ws] short rows(1) by (simp add: rem_def)
  qed
qed

lemma consume_ok:
  assumes "list_all rep_row fr" "at_row fr s seek w a b" "seek < b" "rp_buffer s \<noteq> []" "cursor rit s (x # xs)"
  shows "\<exists>r s'. consume_row rit (int seek) s = Some (r, s') \<and> (stays rit fr seek w b (x # xs) s r s' \<or> leaves rit fr seek w b (x # xs) s r s')"
  using assms(2) unfolding at_row_cases
proof (elim disjE conjE exE)
  show ?thesis if "between fr s a b" "a \<le> seek" "w = fr ! seek"
    using consume_between[OF assms(1) that(1,2) assms(3-5)] that(3) by simp
  show ?thesis if "within_row fr s True q a b" "a < seek" "w = fr ! seek" for q
    using consume_skipping[OF assms(1) that(1,2) assms(4,5)] that(3) by blast
  show ?thesis if "within_row fr s False w a b" "a = seek"
    using consume_delivering[OF assms(1) _ assms(4,5)] that by simp
qed

lemma fill_ok:
  assumes fr: "list_all rep_row fr" and at: "at_row fr s seek w a b" "seek < b" and cur: "cursor rit s (x # xs)"
  shows "\<exists>r s'. fill_buffer rit (int seek) s = Some (r, s') \<and> (stays rit fr seek w b (x # xs) s r s' \<or> leaves rit fr seek w b (x # xs) s r s')"
proof (cases "rp_buffer s = []")
  case False
  then show ?thesis using consume_ok[OF fr at False cur] by (simp add: fill_buffer_def)
next
  case empty: True
  show ?thesis
  proof (cases "rp_valueReader s")
    case Nil
    then have r: "rem s = []" using empty by (simp add: rem_def)
    have ne: "concat (frows fr i b) \<noteq> []" if i: "i < b" "b \<le> length fr" for i
      using fr i by (auto simp: frows_Cons list_all_length rep_row_def)
    have w: "w = []" using at r ne[of a] ne[of "Suc a"] by (auto simp: at_row_cases between_def within_row_def)
    let ?s = "s\<lparr>rp_buffer := [], rp_valueReader := []\<rparr>"
    have "cursor rit ?s (x # xs)" using cur by (simp add: cursor_def)
    then obtain rows d where adv: "advance rit ?s = Some (?s\<lparr>rp_rows := rows, rp_done := d\<rparr>)" "cursor rit (?s\<lparr>rp_rows := rows, rp_done := d\<rparr>) xs"
      by (rule advance_ok)
    have "fill_buffer rit (int seek) s = Some (None, ?s\<lparr>rp_rows := rows, rp_done := d, rp_currentPage := None\<rparr>)"
      using empty Nil adv(1) by (simp add: fill_buffer_def)
    moreover have "leaves rit fr seek w b (x # xs) s None (?s\<lparr>rp_rows := rows, rp_done := d, rp_currentPage := None\<rparr>)"
      using adv(2) w by (simp add: leaves_def same_file_def cursor_def split: list.splits)
    ultimately show ?thesis by blast
  next
    case (Cons c vr)
    obtain vs e where c: "c = (vs, e)" by fastforce
    have f: "vs \<noteq> []" "case e of RErr _ \<Rightarrow> False | _ \<Rightarrow> True" using at(1) Cons c by (auto simp: at_row_def full_reads_def)
    let ?s = "s\<lparr>rp_buffer := vs, rp_valueReader := vr\<rparr>"
    have r: "rem ?s = rem s" using empty Cons c by (simp add: rem_def)
    have "full_reads vr" using at(1) Cons by (simp add: at_row_def full_reads_def)
    then have "at_row fr ?s seek w a b" using at(1) r by (auto simp: at_row_def)
    then obtain r s' where con: "consume_row rit (int seek) ?s = Some (r, s')" "stays rit fr seek w b (x # xs) ?s r s' \<or> leaves rit fr seek w b (x # xs) ?s r s'"
      using consume_ok[OF fr _ at(2), of ?s w a rit x xs] f(1) cur by (auto simp: cursor_def)
    have "stays rit fr seek w b (x # xs) s r s' \<or> leaves rit fr seek w b (x # xs) s r s'"
      using con(2) r by (simp add: stays_def leaves_def same_file_def cost_def)
    moreover have "fill_buffer rit (int seek) s = Some (r, s')"
      using con(1) empty Cons c f by (cases e) (simp_all add: fill_buffer_def)
    ultimately show ?thesis by blast
  qed
qed

lemma skip_groups_ok:
  assumes "groups_from fr k gs" "rp_startRowGroupRowNum s = int k" "k \<le> seek" "seek < length fr" "rp_currentPages s = None \<or> rp_currentPages s = Some []"
  shows "\<exists>k' g gs' cp. skip_groups (int seek) gs s = (True, s\<lparr>rp_rgs := g # gs', rp_startRowGroupRowNum := int k', rp_currentPages := cp\<rparr>) \<and>
    groups_from fr k' (g # gs') \<and> k' \<le> seek \<and> int seek < int k' + rgp_NumRows g \<and> (cp = None \<or> cp = Some [])"
  using assms
proof (induction gs arbitrary: k s)
  case (Cons g gs)
  show ?case
  proof (cases "int seek \<ge> int k + rgp_NumRows g")
    case True
    let ?s = "s\<lparr>rp_currentPages := None, rp_startRowGroupRowNum := int (k + nat (rgp_NumRows g))\<rparr>"
    have close: "closeCurrentPages s = (True, s\<lparr>rp_currentPages := None\<rparr>)" using Cons.prems(5) by (auto simp: closeCurrentPages_def)
    have n: "0 \<le> rgp_NumRows g" "groups_from fr (k + nat (rgp_NumRows g)) gs" using Cons.prems(1) by auto
    have "k + nat (rgp_NumRows g) \<le> seek" using True n(1) by linarith
    from Cons.IH[OF n(2), of ?s] this Cons.prems(4) show ?thesis using True n(1) close Cons.prems(2) by simp
  next
    case False
    then show ?thesis using Cons.prems by (intro exI[of _ k] exI[of _ g] exI[of _ gs] exI[of _ "rp_currentPages s"]) auto
  qed
qed auto

lemma open_page_ok:
  assumes "groups_from fr k (g # gs)" "k \<le> seek" "int seek < int k + rgp_NumRows g" "rp_startRowGroupRowNum s = int k"
  shows "\<exists>s' n b. open_page (int seek) g s = (Some True, s') \<and> rp_currentPage s' = Some n \<and> rp_startPageRowNum s' + n = int b \<and> seek < b \<and>
    between fr s' seek b \<and> rp_rows s' = rp_rows s \<and> rp_done s' = rp_done s \<and> rp_rgs s' = rp_rgs s \<and>
    rp_startRowGroupRowNum s' = rp_startRowGroupRowNum s \<and> rp_currentPages s' = rp_currentPages s \<and> rp_err s' = rp_err s"
proof -
  let ?i = "seek - k"
  have i: "int seek - int k = int ?i" "?i < nat (rgp_NumRows g)" using assms(2,3) by auto
  then have pf: "page_from fr k (nat (rgp_NumRows g)) g ?i" using assms(1) by (simp add: list_all_iff)
  then obtain pg where pg: "rgp_SeekToRow g (int ?i) = []" "rgp_ReadPage g (int ?i) = Inr (Some pg)" "0 < rpg_NumRows pg"
    "?i + nat (rpg_NumRows pg) \<le> nat (rgp_NumRows g)" "full_reads (rpg_reads pg)"
    "concat (map fst (rpg_reads pg)) = concat (frows fr (k + ?i) (k + ?i + nat (rpg_NumRows pg)))"
    by (auto simp: page_from_def split: sum.splits option.splits)
  have len: "k + nat (rgp_NumRows g) \<le> length fr" using assms(1) groups_from_length by auto
  let ?s = "s\<lparr>rp_startPageRowNum := int seek, rp_pageNextRowNum := 0, rp_buffer := [], rp_rowFinished := True, rp_skipping := False,
    rp_currentPage := Some (rpg_NumRows pg), rp_valueReader := rpg_reads pg\<rparr>"
  have "open_page (int seek) g s = (Some True, ?s)" unfolding open_page_def Let_def assms(4) i(1) pg(1,2) by simp
  moreover have "between fr ?s seek (seek + nat (rpg_NumRows pg))"
    using pg(3-6) len assms(2) by (simp add: between_def rem_def)
  ultimately show ?thesis using pg(3)
    by (intro exI[of _ ?s] exI[of _ "rpg_NumRows pg"] exI[of _ "seek + nat (rpg_NumRows pg)"]) simp
qed

subsection \<open>One round\<close>

definition ready :: "('i, 't) Iterator \<Rightarrow> ('t \<Rightarrow> int) \<Rightarrow> 'v pqValue list list \<Rightarrow> ('i, 't, 'v) repeatedPageIterator \<Rightarrow> 't list \<Rightarrow> 'v pqValue list \<Rightarrow> bool" where
  "ready rit rowNum fr s xs w =
     (rp_err s = [] \<and> cursor rit s xs \<and> sorted_wrt (<) (map rowNum xs) \<and> list_all (\<lambda>x. 0 \<le> rowNum x \<and> rowNum x < int (length fr)) xs \<and>
      (rp_currentPages s = None \<or> rp_currentPages s = Some []) \<and>
      (\<exists>k. rp_startRowGroupRowNum s = int k \<and> groups_from fr k (rp_rgs s) \<and> (xs \<noteq> [] \<longrightarrow> int k \<le> rowNum (hd xs))) \<and>
      (xs \<noteq> [] \<longrightarrow> page_state fr s (nat (rowNum (hd xs))) w))"

definition wants :: "('t \<Rightarrow> int) \<Rightarrow> 'v pqValue list list \<Rightarrow> 't list \<Rightarrow> 'v pqValue list \<Rightarrow> ('t \<times> 'v pqValue list) list" where
  "wants rowNum fr xs w = (case xs of [] \<Rightarrow> [] | x # xs' \<Rightarrow> (x, w) # map (\<lambda>x. (x, fr ! nat (rowNum x))) xs')"

definition page_kind :: "('i, 't, 'v) repeatedPageIterator \<Rightarrow> int \<Rightarrow> nat" where
  "page_kind s seek = (case rp_currentPage s of None \<Rightarrow> 1 | Some n \<Rightarrow> if seek \<ge> rp_startPageRowNum s + n then 2 else 0)"

definition effort :: "('t \<Rightarrow> int) \<Rightarrow> ('i, 't, 'v) repeatedPageIterator \<Rightarrow> 't list \<Rightarrow> nat \<times> nat \<times> nat" where
  "effort rowNum s xs = (length xs, if xs = [] then 0 else page_kind s (rowNum (hd xs)), cost s)"

abbreviation easier :: "((nat \<times> nat \<times> nat) \<times> (nat \<times> nat \<times> nat)) set" where
  "easier \<equiv> less_than <*lex*> less_than <*lex*> less_than"

lemma wf_easier: "wf easier"
  by (intro wf_lex_prod wf_less_than)

lemma trans_easier: "trans easier"
  by (intro trans_lex_prod trans_less_than)

definition round_result :: "('i, 't) Iterator \<Rightarrow> ('t \<Rightarrow> int) \<Rightarrow> 'v pqValue list list \<Rightarrow> ('i, 't, 'v) repeatedPageIterator \<Rightarrow> 't list \<Rightarrow> 'v pqValue list \<Rightarrow>
    bool option \<Rightarrow> ('i, 't, 'v) repeatedPageIterator \<Rightarrow> bool" where
  "round_result rit rowNum fr s xs w r s' =
     (\<exists>xs' w'. ready rit rowNum fr s' xs' w' \<and> (effort rowNum s' xs', effort rowNum s xs) \<in> easier \<and>
        (case r of
           None \<Rightarrow> \<forall>ps. chopped (wants rowNum fr xs' w') ps \<longrightarrow> chopped (wants rowNum fr xs w) ps
         | Some ok \<Rightarrow> ok \<and> (\<exists>c. rp_currentValue s' = Some c \<and>
             (\<forall>ps. chopped (wants rowNum fr xs' w') ps \<longrightarrow> chopped (wants rowNum fr xs w) (c # ps)))))"

lemma stays_result:
  assumes rd: "ready rit rowNum fr s (x # xs) w" and st: "stays rit fr (nat (rowNum x)) w b (x # xs) s r s'"
    and pg: "rp_currentPage s = Some n" "rp_startPageRowNum s + n = int b"
  shows "round_result rit rowNum fr s (x # xs) w r s'"
proof -
  obtain a' w' where aw: "at_row fr s' (nat (rowNum x)) w' a' b"
    "r = None \<and> w' = w \<or> r = Some True \<and> (\<exists>v. v \<noteq> [] \<and> rp_currentValue s' = Some (x, v) \<and> w = v @ w')"
    using st unfolding stays_def list.sel by blast
  have f: "same_file s s'" "rp_currentPage s' = rp_currentPage s" "cursor rit s' (x # xs)" "cost s' < cost s" using st by (simp_all add: stays_def)
  have "page_state fr s' (nat (rowNum x)) w'" using aw(1) pg f(1,2) by (auto simp: page_state_def same_file_def)
  then have "ready rit rowNum fr s' (x # xs) w'" using rd f(1,3) by (simp add: ready_def same_file_def)
  moreover have "(effort rowNum s' (x # xs), effort rowNum s (x # xs)) \<in> easier"
    using f by (simp add: effort_def page_kind_def same_file_def pg)
  moreover have "case r of
      None \<Rightarrow> \<forall>ps. chopped (wants rowNum fr (x # xs) w') ps \<longrightarrow> chopped (wants rowNum fr (x # xs) w) ps
    | Some ok \<Rightarrow> ok \<and> (\<exists>c. rp_currentValue s' = Some c \<and>
        (\<forall>ps. chopped (wants rowNum fr (x # xs) w') ps \<longrightarrow> chopped (wants rowNum fr (x # xs) w) (c # ps)))"
    using aw(2) by (auto simp: wants_def intro: chopped_piece)
  ultimately show ?thesis unfolding round_result_def by blast
qed

lemma leaves_result:
  assumes rd: "ready rit rowNum fr s (x # xs) w" and lv: "leaves rit fr (nat (rowNum x)) w b (x # xs) s r s'"
    and pg: "rp_currentPage s = Some n" "rp_startPageRowNum s + n = int b"
  shows "round_result rit rowNum fr s (x # xs) w r s'"
proof -
  have f: "same_file s s'" "cursor rit s' xs" "rp_currentPage s' = None \<or> rp_currentPage s' = rp_currentPage s \<and> between fr s' (Suc (nat (rowNum x))) b"
    "r = None \<and> w = [] \<or> r = Some True \<and> w \<noteq> [] \<and> rp_currentValue s' = Some (x, w)"
    using lv by (simp_all add: leaves_def)
  let ?w = "fr ! nat (rowNum (hd xs))"
  have nx: "0 \<le> rowNum x" "rowNum x < rowNum (hd xs)" if "xs \<noteq> []" using rd that by (auto simp: ready_def neq_Nil_conv)
  have "page_state fr s' (nat (rowNum (hd xs))) ?w" if "xs \<noteq> []"
  proof (cases "rp_currentPage s'")
    case (Some m)
    then have "between fr s' (Suc (nat (rowNum x))) b" "rp_startPageRowNum s' + m = int b" using f(1,3) pg by (auto simp: same_file_def)
    moreover have "Suc (nat (rowNum x)) \<le> nat (rowNum (hd xs))" using nx[OF that] by linarith
    ultimately show ?thesis using Some unfolding page_state_def at_row_cases by auto
  qed (simp add: page_state_def)
  moreover have "int k \<le> rowNum (hd xs)" if "xs \<noteq> []" "int k \<le> rowNum x" for k using nx(2)[OF that(1)] that(2) by linarith
  ultimately have "ready rit rowNum fr s' xs ?w" using rd f(1,2) by (auto simp: ready_def same_file_def)
  moreover have "(effort rowNum s' xs, effort rowNum s (x # xs)) \<in> easier" by (simp add: effort_def)
  moreover have w: "wants rowNum fr (x # xs) w = (x, w) # wants rowNum fr xs ?w" by (cases xs) (simp_all add: wants_def)
  moreover have "case r of
      None \<Rightarrow> \<forall>ps. chopped (wants rowNum fr xs ?w) ps \<longrightarrow> chopped (wants rowNum fr (x # xs) w) ps
    | Some ok \<Rightarrow> ok \<and> (\<exists>c. rp_currentValue s' = Some c \<and>
        (\<forall>ps. chopped (wants rowNum fr xs ?w) ps \<longrightarrow> chopped (wants rowNum fr (x # xs) w) (c # ps)))"
    unfolding w using f(4) by (auto intro: chopped_whole chopped_next)
  ultimately show ?thesis unfolding round_result_def by blast
qed

lemma in_page_ok:
  assumes fr: "list_all rep_row fr" and rd: "ready rit rowNum fr s (x # xs) w" and pg: "rp_currentPage s = Some n"
  shows "\<exists>r s'. in_page rit (rowNum x) s = Some (r, s') \<and> round_result rit rowNum fr s (x # xs) w r s'"
proof -
  have x: "rowNum x = int (nat (rowNum x))" using rd by (simp add: ready_def)
  obtain a b where ab: "rp_startPageRowNum s + n = int b" "at_row fr s (nat (rowNum x)) w a b"
    using rd pg by (auto simp: ready_def page_state_def)
  show ?thesis
  proof (cases "rowNum x \<ge> int b")
    case True
    let ?s = "s\<lparr>rp_currentPage := None\<rparr>"
    have "a \<le> nat (rowNum x)" "w = fr ! nat (rowNum x)" using ab(2) True x by (auto simp: at_row_cases within_row_def)
    then have "ready rit rowNum fr ?s (x # xs) w" using rd by (simp add: ready_def page_state_def cursor_def)
    moreover have "(effort rowNum ?s (x # xs), effort rowNum s (x # xs)) \<in> easier" using pg ab(1) True by (simp add: effort_def page_kind_def)
    ultimately have "round_result rit rowNum fr s (x # xs) w None ?s" unfolding round_result_def by fastforce
    then show ?thesis using pg ab(1) True by (simp add: in_page_def)
  next
    case False
    then have "nat (rowNum x) < b" using x by linarith
    moreover have "cursor rit s (x # xs)" using rd by (simp add: ready_def)
    ultimately obtain r s' where f: "fill_buffer rit (int (nat (rowNum x))) s = Some (r, s')"
      "stays rit fr (nat (rowNum x)) w b (x # xs) s r s' \<or> leaves rit fr (nat (rowNum x)) w b (x # xs) s r s'"
      using fill_ok[OF fr ab(2)] by blast
    then have "round_result rit rowNum fr s (x # xs) w r s'" using stays_result[OF rd _ pg ab(1)] leaves_result[OF rd _ pg ab(1)] by blast
    then show ?thesis using f(1) pg ab(1) False x by (simp add: in_page_def)
  qed
qed

lemma round_ok:
  assumes fr: "list_all rep_row fr" and rd: "ready rit rowNum fr s (x # xs) w"
  shows "\<exists>r s'. rep_round rit rowNum s = Some (r, s') \<and> round_result rit rowNum fr s (x # xs) w r s'"
proof -
  let ?seek = "nat (rowNum x)"
  have x: "int ?seek = rowNum x" "?seek < length fr" and cur: "\<not> rp_done s" "it_At rit (rp_rows s) = x"
    using rd by (auto simp: ready_def cursor_def)
  obtain k where k: "rp_startRowGroupRowNum s = int k" "groups_from fr k (rp_rgs s)" "k \<le> ?seek" using rd x(1) by (auto simp: ready_def)
  obtain k' g gs cp where sk: "skip_groups (int ?seek) (rp_rgs s) s = (True, s\<lparr>rp_rgs := g # gs, rp_startRowGroupRowNum := int k', rp_currentPages := cp\<rparr>)"
    "groups_from fr k' (g # gs)" "k' \<le> ?seek" "int ?seek < int k' + rgp_NumRows g" "cp = None \<or> cp = Some []"
    using skip_groups_ok[OF k(2,1,3) x(2)] rd by (auto simp: ready_def)
  let ?s = "s\<lparr>rp_rgs := g # gs, rp_startRowGroupRowNum := int k', rp_currentPages := Some []\<rparr>"
  have close: "rgp_Close g = []" using sk(2) by simp
  have "int k' \<le> rowNum x" using sk(3) x(1) by linarith
  moreover have "page_state fr ?s ?seek w = page_state fr s ?seek w"
    by (simp add: page_state_def at_row_def rem_def cong: option.case_cong)
  ultimately have rd': "ready rit rowNum fr ?s (x # xs) w" using rd sk(2) by (simp add: ready_def cursor_def)
  have eff: "effort rowNum ?s (x # xs) = effort rowNum s (x # xs)" by (simp add: effort_def page_kind_def cost_def rem_def cong: option.case_cong)
  have "rep_round rit rowNum s =
    (if rp_currentPage s = None
     then (case open_page (rowNum x) g ?s of (None, s) \<Rightarrow> Some (None, s) | (Some False, s) \<Rightarrow> Some (Some False, s) | (Some True, s) \<Rightarrow> in_page rit (rowNum x) s)
     else in_page rit (rowNum x) ?s)"
    using cur sk(1,5) close x(1) by (auto simp: rep_round_def Let_def)
  moreover have "\<exists>r s'. (if rp_currentPage s = None
     then (case open_page (rowNum x) g ?s of (None, s) \<Rightarrow> Some (None, s) | (Some False, s) \<Rightarrow> Some (Some False, s) | (Some True, s) \<Rightarrow> in_page rit (rowNum x) s)
     else in_page rit (rowNum x) ?s) = Some (r, s') \<and> round_result rit rowNum fr s (x # xs) w r s'"
  proof (cases "rp_currentPage s")
    case (Some n)
    then show ?thesis using in_page_ok[OF fr rd', of n] by (simp add: round_result_def eff)
  next
    case None
    obtain s1 n b where s1: "open_page (int ?seek) g ?s = (Some True, s1)" "rp_currentPage s1 = Some n" "rp_startPageRowNum s1 + n = int b" "?seek < b"
      "between fr s1 ?seek b" "rp_rows s1 = rp_rows ?s" "rp_done s1 = rp_done ?s" "rp_rgs s1 = rp_rgs ?s"
      "rp_startRowGroupRowNum s1 = rp_startRowGroupRowNum ?s" "rp_currentPages s1 = rp_currentPages ?s" "rp_err s1 = rp_err ?s"
      using open_page_ok[OF sk(2-4), of ?s] by auto
    have w: "w = fr ! ?seek" using rd None by (simp add: ready_def page_state_def)
    have ps: "page_state fr s1 ?seek w" using s1(2,3,5) w by (auto simp: page_state_def at_row_cases)
    have "cursor rit s1 (x # xs)" using rd' s1(6,7) by (simp add: ready_def cursor_def)
    then have "ready rit rowNum fr s1 (x # xs) w" using rd' ps s1(8-11) by (auto simp: ready_def)
    from in_page_ok[OF fr this s1(2)] obtain r s' where r: "in_page rit (rowNum x) s1 = Some (r, s')" "round_result rit rowNum fr s1 (x # xs) w r s'" by blast
    have "(effort rowNum s1 (x # xs), effort rowNum s (x # xs)) \<in> easier" using s1(2-4) None x(1) by (simp add: effort_def page_kind_def)
    then have "round_result rit rowNum fr s (x # xs) w r s'"
      using r(2) transD[OF trans_easier] unfolding round_result_def by blast
    then show ?thesis using None s1(1) r(1) x(1) by simp
  qed
  ultimately show ?thesis by simp
qed

lemma rep_Next_ended: "rp_done s \<Longrightarrow> rp_err s = [] \<Longrightarrow> ended (repeated_iterator rit rowNum z) [] s"
proof (coinduction arbitrary: s)
  case (ended s)
  have "rep_Next rit rowNum s = Some (False, s)" using ended by (subst rep_Next.simps) (simp add: rep_round_def)
  then show ?case using ended by (auto simp: repeated_iterator_def)
qed

lemma same_next_yields:
  assumes "it_Next it s = it_Next it s'" "yields it s' ps e"
  shows "yields it s ps e"
  using assms(2)
proof (cases rule: yields.cases)
  case (yields_Nil)
  then obtain j where "it_Next it s = Some (False, j)" "it_Err it j = e" "ended it e j" using assms(1) by (auto elim: endedE)
  then show ?thesis using yields_Nil(1) yields.yields_Nil endedI by metis
next
  case (yields_Cons j xs)
  then show ?thesis using assms(1) yields.yields_Cons[of it s j e xs] by simp
qed

lemma ready_yields:
  assumes "list_all rep_row fr" "ready rit rowNum fr s xs w"
  shows "\<exists>ps. yields (repeated_iterator rit rowNum z) s ps [] \<and> chopped (wants rowNum fr xs w) ps"
  using assms(2)
proof (induction "effort rowNum s xs" arbitrary: s xs w rule: wf_induct_rule[OF wf_easier, consumes 0])
  case (1 s xs w)
  show ?case
  proof (cases xs)
    case Nil
    then have "rp_done s" "rp_err s = []" using 1(2) by (simp_all add: ready_def cursor_def)
    then show ?thesis using Nil rep_Next_ended yields_Nil chopped_Nil by (fastforce simp: wants_def)
  next
    case (Cons x xs0)
    obtain r s' where r: "rep_round rit rowNum s = Some (r, s')" "round_result rit rowNum fr s xs w r s'"
      using round_ok[OF assms(1) 1(2)[unfolded Cons]] Cons by blast
    then obtain xs' w' where rd: "ready rit rowNum fr s' xs' w'" "(effort rowNum s' xs', effort rowNum s xs) \<in> easier"
      and res: "case r of
           None \<Rightarrow> \<forall>ps. chopped (wants rowNum fr xs' w') ps \<longrightarrow> chopped (wants rowNum fr xs w) ps
         | Some ok \<Rightarrow> ok \<and> (\<exists>c. rp_currentValue s' = Some c \<and>
             (\<forall>ps. chopped (wants rowNum fr xs' w') ps \<longrightarrow> chopped (wants rowNum fr xs w) (c # ps)))"
      unfolding round_result_def by blast
    obtain ps where ps: "yields (repeated_iterator rit rowNum z) s' ps []" "chopped (wants rowNum fr xs' w') ps" using 1(1)[OF rd(2,1)] by blast
    show ?thesis
    proof (cases r)
      case None
      then have "rep_Next rit rowNum s = rep_Next rit rowNum s'" using r(1) by (subst rep_Next.simps) simp
      then have "yields (repeated_iterator rit rowNum z) s ps []" using ps(1) by (intro same_next_yields[of _ s s']) (simp_all add: repeated_iterator_def)
      then show ?thesis using ps(2) res None by auto
    next
      case (Some ok)
      then obtain c where c: "ok" "rp_currentValue s' = Some c" "chopped (wants rowNum fr xs w) (c # ps)" using res ps(2) by auto
      have nx: "rep_Next rit rowNum s = Some (True, s')" using r(1) Some c(1) by (subst rep_Next.simps) simp
      have "yields (repeated_iterator rit rowNum z) s (c # ps) []"
        using yields_Cons[of "repeated_iterator rit rowNum z" s s' "[]" ps] nx ps(1) c(2) rd(1) by (simp add: repeated_iterator_def ready_def)
      then show ?thesis using c(3) by blast
    qed
  qed
qed

lemma repeated_yields:
  fixes rgs :: "'v repGroup list" and rit :: "('i, 't) Iterator"
  assumes "rep_file rgs fr" "yields rit i xs e" "sorted_wrt (<) (map rowNum xs)" "list_all (\<lambda>x. 0 \<le> rowNum x \<and> rowNum x < int (length fr)) xs"
  shows "\<exists>s ps. NewRepeatedPageIterator rit i rgs = Some s \<and> yields (repeated_iterator rit rowNum z) s ps [] \<and>
    chopped (map (\<lambda>x. (x, fr ! nat (rowNum x))) xs) ps"
proof -
  have fr: "list_all rep_row fr" "groups_from fr 0 rgs" using assms(1) by (simp_all add: rep_file_def)
  obtain j d where j: "it_Next rit i = Some (\<not> d, j)" "case xs of [] \<Rightarrow> d | x # xs' \<Rightarrow> \<not> d \<and> it_At rit j = x \<and> yields rit j xs' e"
  proof (cases xs)
    case Nil
    then have "ended rit e i" using assms(2) by (auto elim: yields_NilE)
    then show ?thesis using that[where d = True] ended_next Nil by fastforce
  next
    case (Cons x xs')
    then show ?thesis using assms(2) that[where d = False] by (auto elim: yields_ConsE)
  qed
  let ?s = "\<lparr>rp_rows = j, rp_rgs = rgs, rp_startRowGroupRowNum = 0, rp_currentPage = None, rp_startPageRowNum = 0,
       rp_pageNextRowNum = 0, rp_currentPages = None, rp_valueReader = [], rp_rowFinished = True, rp_skipping = False,
       rp_err = [], rp_done = d, rp_currentValue = None, rp_buffer = []\<rparr> :: ('i, 't, 'v) repeatedPageIterator"
  have "NewRepeatedPageIterator rit i rgs = Some ?s" using j(1) by (simp add: NewRepeatedPageIterator_def)
  moreover have "ready rit rowNum fr ?s xs (fr ! nat (rowNum (hd xs)))"
    using fr(2) j(2) assms(3,4) by (cases xs) (auto simp: ready_def cursor_def page_state_def)
  moreover have "wants rowNum fr xs (fr ! nat (rowNum (hd xs))) = map (\<lambda>x. (x, fr ! nat (rowNum x))) xs" by (cases xs) (simp_all add: wants_def)
  ultimately show ?thesis using ready_yields[OF fr(1)] by metis
qed

subsection \<open>Several columns in parallel\<close>

text \<open>
  \<open>multiRepeatedPageIterator\<close> calls \<open>Next\<close> of all columns in goroutines and waits for all of them;
  each call touches its own iterator and its own place of the current value.
\<close>

type_synonym ('t, 'v) MultiRepeatedRow = "'t \<times> 'v pqValue list list"

record ('i, 't, 'v) multiRepeatedPageIterator =
  mi_iters :: "'i list"
  mi_err :: errs
  mi_curr :: "('t, 'v) MultiRepeatedRow"

definition NewMultiRepeatedPageIterator :: "'t \<Rightarrow> 'i list \<Rightarrow> ('i, 't, 'v) multiRepeatedPageIterator" where
  "NewMultiRepeatedPageIterator zero iters = \<lparr>mi_iters = iters, mi_err = [], mi_curr = (zero, replicate (length iters) [])\<rparr>"

fun next_all :: "('i, 'a) Iterator \<Rightarrow> 'i list \<Rightarrow> (bool \<times> 'i) list option" where
  "next_all it [] = Some []"
| "next_all it (i # is') = do { r \<leftarrow> it_Next it i; rs \<leftarrow> next_all it is'; Some (r # rs) }"

definition multi_Next :: "('i, ('t, 'v) RepeatedRow) Iterator \<Rightarrow> ('i, 't, 'v) multiRepeatedPageIterator \<Rightarrow>
    (bool \<times> ('i, 't, 'v) multiRepeatedPageIterator) option" where
  "multi_Next it s = do {
     rs \<leftarrow> next_all it (mi_iters s);
     Some (list_all fst rs,
       s\<lparr>mi_iters := map snd rs,
         mi_curr := (case rs of (True, i) # _ \<Rightarrow> fst (it_At it i) | _ \<Rightarrow> fst (mi_curr s),
           map2 (\<lambda>(ok, i) old. if ok then snd (it_At it i) else old) rs (snd (mi_curr s)))\<rparr>) }"

definition multi_Err :: "('i, ('t, 'v) RepeatedRow) Iterator \<Rightarrow> ('i, 't, 'v) multiRepeatedPageIterator \<Rightarrow> errs" where
  "multi_Err it s = mi_err s @ concat (map (it_Err it) (mi_iters s))"

definition multi_Close :: "('i, ('t, 'v) RepeatedRow) Iterator \<Rightarrow> ('i, 't, 'v) multiRepeatedPageIterator \<Rightarrow>
    errs \<times> ('i, 't, 'v) multiRepeatedPageIterator" where
  "multi_Close it s = (concat (map (\<lambda>i. fst (it_Close it i)) (mi_iters s)), s\<lparr>mi_iters := map (\<lambda>i. snd (it_Close it i)) (mi_iters s)\<rparr>)"

definition multi_iterator :: "('i, ('t, 'v) RepeatedRow) Iterator \<Rightarrow> (('i, 't, 'v) multiRepeatedPageIterator, ('t, 'v) MultiRepeatedRow) Iterator" where
  "multi_iterator it = \<lparr>it_Next = multi_Next it, it_At = mi_curr, it_Err = multi_Err it, it_Close = multi_Close it\<rparr>"

lemma yields_next:
  assumes "yields it i ps []"
  shows "\<exists>j. it_Next it i = Some (ps \<noteq> [], j) \<and> it_Err it j = [] \<and> yields it j (tl ps) [] \<and> (ps \<noteq> [] \<longrightarrow> it_At it j = hd ps)"
  using assms
proof (cases rule: yields.cases)
  case yields_Nil
  then obtain j where "it_Next it i = Some (False, j)" "it_Err it j = []" "ended it [] j" by (auto elim: endedE)
  then show ?thesis using yields_Nil(1) yields.yields_Nil[of it "[]" j] by simp
qed auto

lemma multi_ended:
  assumes "yields it i ps []" "yields it j qs []" "ps = [] \<or> qs = []" "mi_iters s = [i, j]" "mi_err s = []"
  shows "ended (multi_iterator it) [] s"
  using assms
proof (coinduction arbitrary: s i j ps qs)
  case (ended s i j ps qs)
  obtain i' where i: "it_Next it i = Some (ps \<noteq> [], i')" "it_Err it i' = []" "yields it i' (tl ps) []" using yields_next[OF ended(1)] by blast
  obtain j' where j: "it_Next it j = Some (qs \<noteq> [], j')" "it_Err it j' = []" "yields it j' (tl qs) []" using yields_next[OF ended(2)] by blast
  have e: "tl ps = [] \<or> tl qs = []" using ended(3) by auto
  obtain s' where s': "multi_Next it s = Some (False, s')" "mi_iters s' = [i', j']" "mi_err s' = []"
    using ended(3-5) i(1) j(1) by (simp add: multi_Next_def)
  have "it_Next (multi_iterator it) s = Some (False, s')" "it_Err (multi_iterator it) s' = []"
    using s' i(2) j(2) by (simp_all add: multi_iterator_def multi_Err_def)
  then show ?case using s'(2,3) i(3) j(3) e by blast
qed

lemma multi_yields:
  assumes "yields it i ps []" "yields it j qs []" "mi_iters s = [i, j]" "mi_err s = []" "length (snd (mi_curr s)) = 2"
  shows "yields (multi_iterator it) s (map2 (\<lambda>(x, v) (y, w). (x, [v, w])) ps qs) []"
  using assms
proof (induction ps arbitrary: i j qs s)
  case Nil
  then show ?case using multi_ended by (fastforce intro: yields_Nil)
next
  case (Cons p ps)
  show ?case
  proof (cases qs)
    case Nil
    then show ?thesis using multi_ended[OF Cons.prems(1,2) _ Cons.prems(3,4)] by (simp add: yields_Nil)
  next
    case (Cons q qs')
    obtain i' where i: "it_Next it i = Some (True, i')" "it_Err it i' = []" "yields it i' ps []" "it_At it i' = p" using yields_next[OF Cons.prems(1)] by auto
    obtain j' where j: "it_Next it j = Some (True, j')" "it_Err it j' = []" "yields it j' qs' []" "it_At it j' = q" using yields_next[OF Cons.prems(2)] Cons by auto
    obtain o1 o2 where o: "snd (mi_curr s) = [o1, o2]" using Cons.prems(5) by (auto simp: numeral_2_eq_2 length_Suc_conv)
    let ?s = "s\<lparr>mi_iters := [i', j'], mi_curr := (fst p, [snd p, snd q])\<rparr>"
    have nx: "it_Next (multi_iterator it) s = Some (True, ?s)"
      using Cons.prems(3) i j o by (simp add: multi_iterator_def multi_Next_def)
    have "yields (multi_iterator it) ?s (map2 (\<lambda>(x, v) (y, w). (x, [v, w])) ps qs') []"
      using Cons.IH[OF i(3) j(3), of ?s] Cons.prems(4) by simp
    from yields_Cons[OF nx _ this] show ?thesis
      using i(2) j(2) Cons.prems(4) Cons by (cases p; cases q) (simp add: multi_iterator_def multi_Err_def)
  qed
qed

subsection \<open>Properties\<close>

text \<open>
  C28. \<open>repeatedPageIterator\<close>: over a well-formed file and ascending rows of it, every call of \<open>Next\<close> returns, and
  the iterator ends without error after delivering for each row exactly its values, in order, in
  pieces that are not empty; nothing of a row is lost, repeated or given to another row, wherever
  pages, row groups and reads are cut.
\<close>

theorem RepeatedPageIterator_rows:
  assumes "rep_file rgs fr" "yields rit i xs e" "sorted_wrt (<) (map rowNum xs)" "list_all (\<lambda>x. 0 \<le> rowNum x \<and> rowNum x < int (length fr)) xs"
  shows "\<exists>s ps. NewRepeatedPageIterator rit i rgs = Some s \<and> yields (repeated_iterator rit rowNum z) s ps [] \<and>
    chopped (map (\<lambda>x. (x, fr ! nat (rowNum x))) xs) ps"
  by (rule repeated_yields[OF assms])

text \<open>Three rows in two row groups; the reads of the first one cut its second row.\<close>

definition rv :: "nat \<Rightarrow> nat \<Rightarrow> nat pqValue" where
  "rv r x = \<lparr>pv_RepetitionLevel = r, pv_DefinitionLevel = 1, pv_value = x\<rparr>"

definition demo_rep :: "nat repGroup list" where
  "demo_rep =
     [\<lparr>rgp_NumRows = 2, rgp_SeekToRow = (\<lambda>i. []), rgp_ReadPage = (\<lambda>i.
         Inr (Some (if i = 0 then \<lparr>rpg_NumRows = 2, rpg_reads = [([rv 0 1, rv 1 2, rv 0 3], ROk), ([rv 1 4], REOF)]\<rparr>
                    else \<lparr>rpg_NumRows = 1, rpg_reads = [([rv 0 3], ROk), ([rv 1 4], REOF)]\<rparr>))), rgp_Close = []\<rparr>,
      \<lparr>rgp_NumRows = 1, rgp_SeekToRow = (\<lambda>i. []), rgp_ReadPage = (\<lambda>i. Inr (Some \<lparr>rpg_NumRows = 1, rpg_reads = [([rv 0 5], REOF)]\<rparr>)), rgp_Close = []\<rparr>]"

definition demo_rep_rows :: "nat pqValue list list" where
  "demo_rep_rows = [[rv 0 1, rv 1 2], [rv 0 3, rv 1 4], [rv 0 5]]"

theorem RepeatedPageIterator_rows_witness:
  "\<exists>s ps. NewRepeatedPageIterator (slice_iterator 0) (NewSliceIterator [1, 2]) demo_rep = Some s \<and>
     yields (repeated_iterator (slice_iterator 0) (\<lambda>x. x) 0) s ps [] \<and> chopped [(1, [rv 0 3, rv 1 4]), (2, [rv 0 5])] ps"
proof -
  have ok: "rep_file demo_rep demo_rep_rows" by code_simp
  have "yields (slice_iterator 0) (NewSliceIterator [1, 2 :: int]) [1, 2] []" by (rule NewSliceIterator_yields)
  from RepeatedPageIterator_rows[OF ok this, of "\<lambda>x. x" 0] show ?thesis by (simp add: demo_rep_rows_def)
qed

end
