(* ===== verification/Aligned_Columns.thy ===== *)
theory Aligned_Columns
  imports Repeated_Rows
begin

section \<open>Columns that are cut alike\<close>

text \<open>
  The reader of repeated values looks at repetition levels only, so it commutes with any change of
  the payloads.  Two columns with the same pages and reads are the two projections of a column of
  pairs: their readers deliver pieces of the same lengths, which is what walking over several
  columns in parallel (\<open>multiRepeatedPageIterator\<close>) relies on.
\<close>

definition map_value :: "('a \<Rightarrow> 'b) \<Rightarrow> 'a pqValue \<Rightarrow> 'b pqValue" where
  "map_value f v = \<lparr>pv_RepetitionLevel = pv_RepetitionLevel v, pv_DefinitionLevel = pv_DefinitionLevel v, pv_value = f (pv_value v)\<rparr>"

definition map_reads :: "('a \<Rightarrow> 'b) \<Rightarrow> ('a pqValue list \<times> readEnd) list \<Rightarrow> ('b pqValue list \<times> readEnd) list" where
  "map_reads f = map (\<lambda>(vs, e). (map (map_value f) vs, e))"

definition map_rep_page :: "('a \<Rightarrow> 'b) \<Rightarrow> 'a repPage \<Rightarrow> 'b repPage" where
  "map_rep_page f pg = \<lparr>rpg_NumRows = rpg_NumRows pg, rpg_reads = map_reads f (rpg_reads pg)\<rparr>"

definition map_group :: "('a \<Rightarrow> 'b) \<Rightarrow> 'a repGroup \<Rightarrow> 'b repGroup" where
  "map_group f g =
     \<lparr>rgp_NumRows = rgp_NumRows g, rgp_SeekToRow = rgp_SeekToRow g,
      rgp_ReadPage = (\<lambda>i. map_sum (\<lambda>e. e) (map_option (map_rep_page f)) (rgp_ReadPage g i)), rgp_Close = rgp_Close g\<rparr>"

definition map_rep :: "('a \<Rightarrow> 'b) \<Rightarrow> ('i, 't, 'a) repeatedPageIterator \<Rightarrow> ('i, 't, 'b) repeatedPageIterator" where
  "map_rep f s =
     \<lparr>rp_rows = rp_rows s, rp_rgs = map (map_group f) (rp_rgs s), rp_startRowGroupRowNum = rp_startRowGroupRowNum s,
      rp_currentPage = rp_currentPage s, rp_startPageRowNum = rp_startPageRowNum s, rp_pageNextRowNum = rp_pageNextRowNum s,
      rp_currentPages = rp_currentPages s, rp_valueReader = map_reads f (rp_valueReader s), rp_rowFinished = rp_rowFinished s,
      rp_skipping = rp_skipping s, rp_err = rp_err s, rp_done = rp_done s,
      rp_currentValue = map_option (\<lambda>(x, vs). (x, map (map_value f) vs)) (rp_currentValue s), rp_buffer = map (map_value f) (rp_buffer s)\<rparr>"

lemma map_reads_simps [simp]: "map_reads f [] = []" "map_reads f ((vs, e) # rs) = (map (map_value f) vs, e) # map_reads f rs"
  by (simp_all add: map_reads_def)

lemma map_value_rep [simp]: "pv_RepetitionLevel (map_value f v) = pv_RepetitionLevel v"
  by (simp add: map_value_def)

lemma map_group_simps [simp]:
  "rgp_NumRows (map_group f g) = rgp_NumRows g" "rgp_SeekToRow (map_group f g) = rgp_SeekToRow g" "rgp_Close (map_group f g) = rgp_Close g"
  "rgp_ReadPage (map_group f g) i = map_sum (\<lambda>e. e) (map_option (map_rep_page f)) (rgp_ReadPage g i)"
  by (simp_all add: map_group_def)

lemma map_rep_simps [simp]:
  "rp_rows (map_rep f s) = rp_rows s" "rp_rgs (map_rep f s) = map (map_group f) (rp_rgs s)"
  "rp_startRowGroupRowNum (map_rep f s) = rp_startRowGroupRowNum s" "rp_currentPage (map_rep f s) = rp_currentPage s"
  "rp_startPageRowNum (map_rep f s) = rp_startPageRowNum s" "rp_pageNextRowNum (map_rep f s) = rp_pageNextRowNum s"
  "rp_currentPages (map_rep f s) = rp_currentPages s" "rp_valueReader (map_rep f s) = map_reads f (rp_valueReader s)"
  "rp_rowFinished (map_rep f s) = rp_rowFinished s" "rp_skipping (map_rep f s) = rp_skipping s" "rp_err (map_rep f s) = rp_err s"
  "rp_done (map_rep f s) = rp_done s" "rp_currentValue (map_rep f s) = map_option (\<lambda>(x, vs). (x, map (map_value f) vs)) (rp_currentValue s)"
  "rp_buffer (map_rep f s) = map (map_value f) (rp_buffer s)"
  by (simp_all add: map_rep_def)

text \<open>An update of the mapped state is the mapped update.\<close>

lemma map_rep_updates:
  "(map_rep f s)\<lparr>rp_rows := r\<rparr> = map_rep f (s\<lparr>rp_rows := r\<rparr>)"
  "(map_rep f s)\<lparr>rp_startRowGroupRowNum := n\<rparr> = map_rep f (s\<lparr>rp_startRowGroupRowNum := n\<rparr>)"
  "(map_rep f s)\<lparr>rp_currentPage := p\<rparr> = map_rep f (s\<lparr>rp_currentPage := p\<rparr>)"
  "(map_rep f s)\<lparr>rp_startPageRowNum := n\<rparr> = map_rep f (s\<lparr>rp_startPageRowNum := n\<rparr>)"
  "(map_rep f s)\<lparr>rp_pageNextRowNum := n\<rparr> = map_rep f (s\<lparr>rp_pageNextRowNum := n\<rparr>)"
  "(map_rep f s)\<lparr>rp_currentPages := c\<rparr> = map_rep f (s\<lparr>rp_currentPages := c\<rparr>)"
  "(map_rep f s)\<lparr>rp_rowFinished := b\<rparr> = map_rep f (s\<lparr>rp_rowFinished := b\<rparr>)"
  "(map_rep f s)\<lparr>rp_skipping := b\<rparr> = map_rep f (s\<lparr>rp_skipping := b\<rparr>)"
  "(map_rep f s)\<lparr>rp_err := e\<rparr> = map_rep f (s\<lparr>rp_err := e\<rparr>)"
  "(map_rep f s)\<lparr>rp_done := b\<rparr> = map_rep f (s\<lparr>rp_done := b\<rparr>)"
  "(map_rep f s)\<lparr>rp_buffer := map (map_value f) vs\<rparr> = map_rep f (s\<lparr>rp_buffer := vs\<rparr>)"
  "(map_rep f s)\<lparr>rp_valueReader := map_reads f rs\<rparr> = map_rep f (s\<lparr>rp_valueReader := rs\<rparr>)"
  "(map_rep f s)\<lparr>rp_currentValue := Some (x, map (map_value f) vs)\<rparr> = map_rep f (s\<lparr>rp_currentValue := Some (x, vs)\<rparr>)"
  "(map_rep f s)\<lparr>rp_rgs := map (map_group f) gs\<rparr> = map_rep f (s\<lparr>rp_rgs := gs\<rparr>)"
  by (simp_all add: map_rep_def)

lemma map_rep_updates_empty:
  "(map_rep f s)\<lparr>rp_buffer := []\<rparr> = map_rep f (s\<lparr>rp_buffer := []\<rparr>)"
  "(map_rep f s)\<lparr>rp_valueReader := []\<rparr> = map_rep f (s\<lparr>rp_valueReader := []\<rparr>)"
  "(map_rep f s)\<lparr>rp_rgs := []\<rparr> = map_rep f (s\<lparr>rp_rgs := []\<rparr>)"
  "(map_rep f s)\<lparr>rp_rgs := map_group f g # map (map_group f) gs\<rparr> = map_rep f (s\<lparr>rp_rgs := g # gs\<rparr>)"
  "(map_rep f s)\<lparr>rp_buffer := drop n (map (map_value f) vs)\<rparr> = map_rep f (s\<lparr>rp_buffer := drop n vs\<rparr>)"
  "(map_rep f s)\<lparr>rp_currentValue := Some (x, take n (map (map_value f) vs))\<rparr> = map_rep f (s\<lparr>rp_currentValue := Some (x, take n vs)\<rparr>)"
  by (simp_all add: map_rep_def drop_map take_map map_reads_def)

lemmas map_rep_rules = map_rep_updates map_rep_updates_empty

lemma next_row_map: "next_row (map (map_value f) vs) i start b = next_row vs i start b"
  by (induction vs arbitrary: i start b) auto

lemma readNextRow_map: "readNextRow (map (map_value f) vs) = readNextRow vs"
  by (simp add: readNextRow_def next_row_map)

lemma readNextRow_bound:
  assumes "readNextRow vs = (start, n, ok)" "vs \<noteq> []"
  shows "start < length vs"
proof -
  have "next_row vs i st b = (start, n, ok) \<Longrightarrow> start = st \<or> start < i + length vs" for vs :: "'a pqValue list" and i st b
    by (induction vs arbitrary: i st b) (auto split: if_splits, fastforce+)
  from this[of vs 0 0 False] show ?thesis using assms by (auto simp: readNextRow_def)
qed

lemma closeCurrentPages_map: "closeCurrentPages (map_rep f s) = map_prod (\<lambda>b. b) (map_rep f) (closeCurrentPages s)"
  by (simp add: closeCurrentPages_def map_rep_rules split: option.splits)

lemma skip_groups_map: "skip_groups seek (map (map_group f) gs) (map_rep f s) = map_prod (\<lambda>b. b) (map_rep f) (skip_groups seek gs s)"
proof (induction gs arbitrary: s)
  case (Cons g gs)
  show ?case by (cases "closeCurrentPages s") (auto simp: closeCurrentPages_map map_rep_rules Cons.IH split: bool.splits)
qed (simp add: map_rep_rules)

lemma advance_map: "advance rit (map_rep f s) = map_option (map_rep f) (advance rit s)"
  by (simp add: advance_def map_rep_rules split: Option.bind_splits prod.splits)

lemma deliver_map: "deliver rit n (map_rep f s) = map_rep f (deliver rit n s)"
  by (simp add: deliver_def map_rep_rules)

definition map_round :: "('a \<Rightarrow> 'b) \<Rightarrow> (bool option \<times> ('i, 't, 'a) repeatedPageIterator) option \<Rightarrow> (bool option \<times> ('i, 't, 'b) repeatedPageIterator) option" where
  "map_round f = map_option (map_prod (\<lambda>r. r) (map_rep f))"

lemma map_round_simps [simp]: "map_round f (Some (r, s)) = Some (r, map_rep f s)" "map_round f None = None"
  by (simp_all add: map_round_def)

lemma consume_row_map:
  assumes "rp_buffer s \<noteq> []"
  shows "consume_row rit seek (map_rep f s) = map_round f (consume_row rit seek s)"
proof -
  obtain start n ok where r: "readNextRow (rp_buffer s) = (start, n, ok)" by (cases "readNextRow (rp_buffer s)") auto
  have "start < length (rp_buffer s)" using readNextRow_bound[OF r assms] .
  then have z: "pv_RepetitionLevel (rp_buffer (map_rep f s) ! start) = pv_RepetitionLevel (rp_buffer s ! start)" by simp
  have b: "map_round f (Option.bind x (\<lambda>s. Some (g s))) = Option.bind x (\<lambda>s. map_round f (Some (g s)))" for x g by (cases x) simp_all
  show ?thesis
    unfolding consume_row_def r prod.case map_rep_simps readNextRow_map z[unfolded map_rep_simps] Let_def
    by (simp add: map_rep_rules advance_map deliver_map z[unfolded map_rep_simps] b bind_map_option o_def)
qed

lemma fill_buffer_map: "fill_buffer rit seek (map_rep f s) = map_round f (fill_buffer rit seek s)"
proof (cases "rp_buffer s = []")
  case True
  have b: "map_round f (Option.bind x (\<lambda>s. Some (g s))) = Option.bind x (\<lambda>s. map_round f (Some (g s)))" for x g by (cases x) simp_all
  show ?thesis
  proof (cases "rp_valueReader s")
    case Nil
    then show ?thesis using True by (simp add: fill_buffer_def map_rep_rules advance_map b bind_map_option o_def)
  next
    case (Cons c vr)
    obtain vs e where c: "c = (vs, e)" by fastforce
    let ?s = "s\<lparr>rp_buffer := vs, rp_valueReader := vr\<rparr>"
    have m: "(map_rep f s)\<lparr>rp_buffer := map (map_value f) vs, rp_valueReader := map_reads f vr\<rparr> = map_rep f ?s" by (simp add: map_rep_rules)
    show ?thesis using True Cons c consume_row_map[of ?s rit seek f] m
      by (cases e; cases "vs = []") (simp_all add: fill_buffer_def map_rep_rules advance_map b bind_map_option o_def Let_def)
  qed
qed (simp add: fill_buffer_def consume_row_map)

lemma open_page_map: "open_page seek (map_group f g) (map_rep f s) = map_prod (\<lambda>r. r) (map_rep f) (open_page seek g s)"
  by (simp add: open_page_def Let_def map_rep_rules map_rep_page_def split: sum.splits option.splits)

lemma in_page_map: "in_page rit seek (map_rep f s) = map_round f (in_page rit seek s)"
  by (simp add: in_page_def fill_buffer_map map_rep_rules split: option.splits)

lemma rep_round_map: "rep_round rit rowNum (map_rep f s) = map_round f (rep_round rit rowNum s)"
proof (cases "rp_done s")
  case False
  let ?seek = "rowNum (it_At rit (rp_rows s))"
  obtain b s1 where sk: "skip_groups ?seek (rp_rgs s) s = (b, s1)" by fastforce
  then have sk': "skip_groups ?seek (map (map_group f) (rp_rgs s)) (map_rep f s) = (b, map_rep f s1)" by (simp add: skip_groups_map)
  show ?thesis
  proof (cases "b \<and> rp_rgs s1 \<noteq> []")
    case True
    then obtain g gs where g: "rp_rgs s1 = g # gs" by (cases "rp_rgs s1") auto
    define s2 where "s2 = (if rp_currentPages s1 = None then s1\<lparr>rp_currentPages := Some (rgp_Close g)\<rparr> else s1)"
    have m: "(if rp_currentPages (map_rep f s1) = None then (map_rep f s1)\<lparr>rp_currentPages := Some (rgp_Close (map_group f g))\<rparr> else map_rep f s1) = map_rep f s2"
      by (simp add: s2_def map_rep_rules)
    have lhs: "rep_round rit rowNum (map_rep f s) =
      (if rp_currentPage (map_rep f s2) = None
       then (case open_page ?seek (map_group f g) (map_rep f s2) of (None, s) \<Rightarrow> Some (None, s) | (Some False, s) \<Rightarrow> Some (Some False, s) | (Some True, s) \<Rightarrow> in_page rit ?seek s)
       else in_page rit ?seek (map_rep f s2))"
      using False True sk' g m by (simp add: rep_round_def Let_def)
    have rhs: "rep_round rit rowNum s =
      (if rp_currentPage s2 = None
       then (case open_page ?seek g s2 of (None, s) \<Rightarrow> Some (None, s) | (Some False, s) \<Rightarrow> Some (Some False, s) | (Some True, s) \<Rightarrow> in_page rit ?seek s)
       else in_page rit ?seek s2)"
      using False True sk g by (simp add: rep_round_def Let_def s2_def)
    show ?thesis unfolding lhs rhs
      by (cases "open_page ?seek g s2") (simp add: open_page_map in_page_map split: option.splits bool.splits)
  next
    case no: False
    then show ?thesis using False sk sk' by (cases b; cases "rp_rgs s1") (simp_all add: rep_round_def Let_def)
  qed
qed (simp add: rep_round_def)

lemma rep_Next_map:
  fixes rit :: "('i, 't) Iterator" and s :: "('i, 't, 'a) repeatedPageIterator"
  assumes "rep_Next rit rowNum s = Some r"
  shows "rep_Next rit rowNum (map_rep f s) = Some (map_prod (\<lambda>b. b) (map_rep f) r)"
proof (rule rep_Next.raw_induct[OF _ assms, of "\<lambda>rit rowNum s r. rep_Next rit rowNum (map_rep f s) = Some (map_prod (\<lambda>b. b) (map_rep f) r)"])
  fix N and rit :: "('i, 't) Iterator" and rowNum and s :: "('i, 't, 'a) repeatedPageIterator" and r
  assume IH: "\<And>rit rowNum s r. N rit rowNum s = Some r \<Longrightarrow> rep_Next rit rowNum (map_rep f s) = Some (map_prod (\<lambda>b. b) (map_rep f) r)"
    and N: "rep_round rit rowNum s \<bind> (\<lambda>(r, s). case r of None \<Rightarrow> N rit rowNum s | Some b \<Rightarrow> Some (b, s)) = Some r"
  obtain q s' where q: "rep_round rit rowNum s = Some (q, s')" "(case q of Some b \<Rightarrow> Some (b, s') | None \<Rightarrow> N rit rowNum s') = Some r"
    using N by (cases "rep_round rit rowNum s") auto
  show "rep_Next rit rowNum (map_rep f s) = Some (map_prod (\<lambda>b. b) (map_rep f) r)"
    using q IH by (subst rep_Next.simps) (cases q, auto simp: rep_round_map)
qed

lemma map_rep_yields:
  assumes "yields (repeated_iterator rit rowNum z) s ps e"
  shows "yields (repeated_iterator rit rowNum z) (map_rep f s) (map (\<lambda>(x, vs). (x, map (map_value f) vs)) ps) e"
  using assms
proof (induction s ps e rule: yields.induct)
  case (yields_Nil e s)
  have "ended (repeated_iterator rit rowNum z) e (map_rep f s)" using yields_Nil
  proof (coinduction arbitrary: s)
    case (ended s)
    then obtain j where j: "rep_Next rit rowNum s = Some (False, j)" "rp_err j = e" "ended (repeated_iterator rit rowNum z) e j"
      by (auto simp: repeated_iterator_def elim: endedE)
    then show ?case using rep_Next_map[OF j(1), of f] by (auto simp: repeated_iterator_def)
  qed
  then show ?case by (simp add: yields.yields_Nil)
next
  case (yields_Cons s j e ps)
  then have n: "rep_Next rit rowNum s = Some (True, j)" "e = [] \<longrightarrow> rp_err j = []" by (simp_all add: repeated_iterator_def)
  have a: "it_At (repeated_iterator rit rowNum z) (map_rep f j) = (\<lambda>(x, vs). (x, map (map_value f) vs)) (it_At (repeated_iterator rit rowNum z) j)"
    by (simp add: repeated_iterator_def split: option.splits)
  have nx: "it_Next (repeated_iterator rit rowNum z) (map_rep f s) = Some (True, map_rep f j)"
    using rep_Next_map[OF n(1), of f] by (simp add: repeated_iterator_def)
  show ?case using yields.yields_Cons[OF nx _ yields_Cons(4)] n(2) a by (simp add: repeated_iterator_def)
qed

lemma NewRepeatedPageIterator_map:
  "NewRepeatedPageIterator rit i (map (map_group f) rgs) = map_option (map_rep f) (NewRepeatedPageIterator rit i rgs)"
  by (simp add: NewRepeatedPageIterator_def map_rep_def split: Option.bind_splits prod.splits)

lemma aligned_yields:
  assumes "rep_file rgs fr" "yields rit i xs e" "sorted_wrt (<) (map rowNum xs)" "list_all (\<lambda>x. 0 \<le> rowNum x \<and> rowNum x < int (length fr)) xs"
  obtains s ps where "NewRepeatedPageIterator rit i (map (map_group fst) rgs) = Some (map_rep fst s)"
    "NewRepeatedPageIterator rit i (map (map_group snd) rgs) = Some (map_rep snd s)"
    "yields (repeated_iterator rit rowNum z) (map_rep fst s) (map (\<lambda>(x, vs). (x, map (map_value fst) vs)) ps) []"
    "yields (repeated_iterator rit rowNum z) (map_rep snd s) (map (\<lambda>(x, vs). (x, map (map_value snd) vs)) ps) []"
    "chopped (map (\<lambda>x. (x, fr ! nat (rowNum x))) xs) ps"
proof -
  obtain s ps where s: "NewRepeatedPageIterator rit i rgs = Some s" "yields (repeated_iterator rit rowNum z) s ps []"
    "chopped (map (\<lambda>x. (x, fr ! nat (rowNum x))) xs) ps" using repeated_yields[OF assms] by blast
  show ?thesis
    by (rule that[OF _ _ map_rep_yields[OF s(2)] map_rep_yields[OF s(2)] s(3)]) (simp_all add: NewRepeatedPageIterator_map s(1))
qed

lemma chopped_concat: "chopped ws ps \<Longrightarrow> concat (map snd ps) = concat (map snd ws)"
  by (induction rule: chopped.induct) auto

end
