(* ===== verification/Column_Iterator.thy ===== *)
theory Column_Iterator
  imports Column_File
begin

section \<open>Reading a column in the background (pkg/phlaredb/query/iters.go)\<close>

text \<open>
  A \<open>ColumnIterator\<close> is two threads: the goroutine \<open>iterate\<close> reads row groups, pages and values,
  numbers the rows, filters them and sends buffers over a channel of capacity one; \<open>Next\<close> and
  \<open>Seek\<close> receive them. \<open>Seek\<close> also publishes its target, which lets the goroutine skip column
  chunks and pages whose rows all lie before it.

  The state holds both threads. \<open>prod_step\<close> is one step of the goroutine (a step of a blocked or
  finished goroutine does nothing).  The interleaving is a schedule in the state, a sequence of
  numbers: at every interaction of the consumer with the shared state the goroutine first takes as
  many steps as the next number says, so a statement for every schedule covers every interleaving
  of the two threads at the points where they communicate.
\<close>

subsection \<open>The goroutine\<close>

text \<open>The row numbers and the values of a buffer are appended together: one list of pairs.\<close>

record 'v columnIteratorBuffer =
  cb_rows :: "(RowNumber \<times> 'v pqValue) list"
  cb_err :: errs

text \<open>
  The control state of \<open>iterate\<close>: the row groups to visit, the pages left in the column chunk that
  is being read, the reads left in its page, the buffers it is about to send, and whether it has
  ended (which closes the channel).
\<close>

record 'v producer =
  pr_rn :: RowNumber
  pr_rgs :: "'v pqRowGroup list"
  pr_pages :: "'v pageRead list option"
  pr_vals :: "('v pqValue list \<times> readEnd) list option"
  pr_send :: "'v columnIteratorBuffer list"
  pr_closed :: bool

definition checkSkip :: "RowNumber option \<Rightarrow> RowNumber \<Rightarrow> int \<Rightarrow> bool" where
  "checkSkip seekTo rn numRows =
     (case seekTo of
        None \<Rightarrow> False
      | Some seekToRN \<Rightarrow> CompareRowNumbers 0 (rn_Skip numRows rn) seekToRN = -1)"

fun number_values :: "'v Predicate option \<Rightarrow> RowNumber \<Rightarrow> 'v pqValue list \<Rightarrow> RowNumber \<times> (RowNumber \<times> 'v pqValue) list" where
  "number_values filt rn [] = (rn, [])"
| "number_values filt rn (v # vs) =
     (let rn = rn_Next (pv_RepetitionLevel v) (pv_DefinitionLevel v) rn
      in case number_values filt rn vs of (rn', rows) \<Rightarrow>
           (rn', if \<not> inst_KeepValue filt (pv_value v) then rows else (rn, v) # rows))"

definition read_step :: "'v Predicate option \<Rightarrow> ('v pqValue list \<times> readEnd) list \<Rightarrow> 'v producer \<Rightarrow> 'v producer" where
  "read_step filt reads p =
     (case reads of
        [] \<Rightarrow> p\<lparr>pr_vals := None\<rparr>
      | (vs, e) # reads \<Rightarrow>
          (case number_values filt (pr_rn p) vs of (rn, rows) \<Rightarrow>
             let send = (if rows \<noteq> [] then [\<lparr>cb_rows = rows, cb_err = []\<rparr>] else []);
                 p = p\<lparr>pr_rn := rn, pr_send := send\<rparr>
             in case e of
                  ROk \<Rightarrow> p\<lparr>pr_vals := Some reads\<rparr>
                | REOF \<Rightarrow> p\<lparr>pr_vals := None\<rparr>
                | RErr err \<Rightarrow>
                    p\<lparr>pr_vals := None, pr_pages := None, pr_send := send @ [\<lparr>cb_rows = [], cb_err = err\<rparr>]\<rparr>))"

definition page_step :: "'v Predicate option \<Rightarrow> RowNumber option \<Rightarrow> 'v pageRead list \<Rightarrow> 'v producer \<Rightarrow> 'v producer" where
  "page_step filt seekTo pages p =
     (case pages of
        [] \<Rightarrow> p\<lparr>pr_pages := None\<rparr>
      | PageErr err # pages \<Rightarrow> p\<lparr>pr_pages := None\<rparr>
      | PageRead pg # pages \<Rightarrow>
          let p = p\<lparr>pr_pages := Some pages\<rparr>
          in if checkSkip seekTo (pr_rn p) (pg_NumRows pg) then p\<lparr>pr_rn := rn_Skip (pg_NumRows pg) (pr_rn p)\<rparr>
             else if \<not> inst_KeepPage filt pg then p\<lparr>pr_rn := rn_Skip (pg_NumRows pg) (pr_rn p)\<rparr>
             else p\<lparr>pr_vals := Some (pg_reads pg)\<rparr>)"

definition group_step :: "'v Predicate option \<Rightarrow> RowNumber option \<Rightarrow> 'v producer \<Rightarrow> 'v producer" where
  "group_step filt seekTo p =
     (case pr_rgs p of
        [] \<Rightarrow> p\<lparr>pr_closed := True\<rparr>
      | rg # rgs \<Rightarrow>
          let p = p\<lparr>pr_rgs := rgs\<rparr>; col = rg_ColumnChunk rg
          in if checkSkip seekTo (pr_rn p) (rg_NumRows rg) then p\<lparr>pr_rn := rn_Skip (rg_NumRows rg) (pr_rn p)\<rparr>
             else if \<not> inst_KeepColumnChunk filt col then p\<lparr>pr_rn := rn_Skip (rg_NumRows rg) (pr_rn p)\<rparr>
             else p\<lparr>pr_pages := Some (cc_Pages col)\<rparr>)"

definition iterate_step :: "'v Predicate option \<Rightarrow> RowNumber option \<Rightarrow> 'v producer \<Rightarrow> 'v producer" where
  "iterate_step filt seekTo p =
     (case pr_vals p of
        Some reads \<Rightarrow> read_step filt reads p
      | None \<Rightarrow>
          (case pr_pages p of
             Some pages \<Rightarrow> page_step filt seekTo pages p
           | None \<Rightarrow> group_step filt seekTo p))"

subsection \<open>The iterator\<close>

record ('v, 'r) ColumnIterator =
  ci_filter :: "'v Predicate option"
  ci_selectAs :: string
  ci_seekTo :: "RowNumber option"
  ci_quit :: bool
  ci_ch :: "'v columnIteratorBuffer list"
  ci_prod :: "'v producer"
  ci_curr :: "('v columnIteratorBuffer \<times> nat) option"
  ci_result :: "('v pqValue, 'r) IteratorResult option"
  ci_err :: errs
  ci_sched :: "nat \<Rightarrow> nat"

definition NewColumnIterator ::
    "'v pqRowGroup list \<Rightarrow> 'v Predicate option \<Rightarrow> string \<Rightarrow> (nat \<Rightarrow> nat) \<Rightarrow> ('v, 'r) ColumnIterator" where
  "NewColumnIterator rgs filt selectAs sched =
     \<lparr>ci_filter = filt, ci_selectAs = selectAs, ci_seekTo = None, ci_quit = False, ci_ch = [],
      ci_prod = \<lparr>pr_rn = EmptyRowNumber, pr_rgs = rgs, pr_pages = None, pr_vals = None, pr_send = [], pr_closed = False\<rparr>,
      ci_curr = None, ci_result = None, ci_err = [], ci_sched = sched\<rparr>"

text \<open>
  A step of the goroutine. Once \<open>quit\<close> is closed, the \<open>select\<close> around the send of a buffer of rows
  is resolved by returning; the send of an error has no such way out.
\<close>

definition prod_step :: "('v, 'r) ColumnIterator \<Rightarrow> ('v, 'r) ColumnIterator" where
  "prod_step c =
     (let p = ci_prod c
      in if pr_closed p then c
         else (case pr_send p of
            b # bs \<Rightarrow>
              if ci_quit c \<and> cb_err b = [] then c\<lparr>ci_prod := p\<lparr>pr_send := [], pr_vals := None, pr_pages := None\<rparr>\<rparr>
              else if ci_ch c = [] then c\<lparr>ci_ch := [b], ci_prod := p\<lparr>pr_send := bs\<rparr>\<rparr>
              else c
          | [] \<Rightarrow> c\<lparr>ci_prod := iterate_step (ci_filter c) (ci_seekTo c) p\<rparr>))"

definition drift :: "('v, 'r) ColumnIterator \<Rightarrow> ('v, 'r) ColumnIterator" where
  "drift c = (prod_step ^^ ci_sched c 0) (c\<lparr>ci_sched := (\<lambda>n. ci_sched c (n + 1))\<rparr>)"

text \<open>A receive from the channel: it waits while the channel is open and empty.\<close>

partial_function (option) recv :: "('v, 'r) ColumnIterator \<Rightarrow> ('v columnIteratorBuffer option \<times> ('v, 'r) ColumnIterator) option" where
  "recv c =
     (let c = drift c
      in case ci_ch c of
           b # bs \<Rightarrow> Some (Some b, c\<lparr>ci_ch := bs\<rparr>)
         | [] \<Rightarrow> if pr_closed (ci_prod c) then Some (None, c) else recv (prod_step c))"

text \<open>
  \<open>next\<close>; a value \<open>None\<close> is the zero \<open>parquet.Value\<close>. The loop over the current buffer does not
  advance past an invalid row number, so meeting one never returns.
\<close>

definition next_buffer ::
    "('v, 'r) ColumnIterator \<Rightarrow> ((RowNumber \<times> 'v pqValue option) \<times> ('v, 'r) ColumnIterator) option" where
  "next_buffer c = do {
     (ok, c) \<leftarrow> recv c;
     (case ok of
        None \<Rightarrow> Some ((EmptyRowNumber, None), c)
      | Some b \<Rightarrow>
          if cb_err b \<noteq> [] then Some ((EmptyRowNumber, None), c\<lparr>ci_err := cb_err b\<rparr>)
          else Some ((fst (cb_rows b ! 0), Some (snd (cb_rows b ! 0))), c\<lparr>ci_curr := Some (b, 0)\<rparr>)) }"

definition col_next ::
    "('v, 'r) ColumnIterator \<Rightarrow> ((RowNumber \<times> 'v pqValue option) \<times> ('v, 'r) ColumnIterator) option" where
  "col_next c =
     (case ci_curr c of
        Some (b, currN) \<Rightarrow>
          let currN = currN + 1
          in if currN < length (cb_rows b) then
               (case cb_rows b ! currN of (t, v) \<Rightarrow>
                  if Valid t then Some ((t, Some v), c\<lparr>ci_curr := Some (b, currN)\<rparr>) else None)
             else next_buffer (c\<lparr>ci_curr := None\<rparr>)
      | None \<Rightarrow> next_buffer c)"

definition makeResult :: "string \<Rightarrow> RowNumber \<Rightarrow> 'v pqValue option \<Rightarrow> ('v pqValue, 'r) IteratorResult" where
  "makeResult selectAs t v =
     (let r = \<lparr>ir_RowNumber = t, ir_Entries = []\<rparr>
      in case v of
           Some v \<Rightarrow> if selectAs \<noteq> '''' then ir_AppendValue r selectAs v else r
         | None \<Rightarrow> r)"

definition col_deliver ::
    "(RowNumber \<times> 'v pqValue option) \<times> ('v, 'r) ColumnIterator \<Rightarrow> bool \<times> ('v, 'r) ColumnIterator" where
  "col_deliver r =
     (case r of ((t, v), c) \<Rightarrow>
        if Valid t then (True, c\<lparr>ci_result := Some (makeResult (ci_selectAs c) t v)\<rparr>)
        else (False, c\<lparr>ci_result := None\<rparr>))"

definition col_Next :: "('v, 'r) ColumnIterator \<Rightarrow> (bool \<times> ('v, 'r) ColumnIterator) option" where
  "col_Next c = do { r \<leftarrow> col_next c; Some (col_deliver r) }"

partial_function (option) col_seek_loop ::
    "RowNumberWithDefinitionLevel \<Rightarrow> ('v, 'r) ColumnIterator \<Rightarrow>
     ((RowNumber \<times> 'v pqValue option) \<times> ('v, 'r) ColumnIterator) option" where
  "col_seek_loop to c = do {
     ((t, v), c) \<leftarrow> col_next c;
     if Valid t \<and> CompareRowNumbers (rd_DefinitionLevel to) t (rd_RowNumber to) < 0 then col_seek_loop to c
     else Some ((t, v), c) }"

definition col_Seek :: "RowNumberWithDefinitionLevel \<Rightarrow> ('v, 'r) ColumnIterator \<Rightarrow> (bool \<times> ('v, 'r) ColumnIterator) option" where
  "col_Seek to c = do {
     r \<leftarrow> col_seek_loop to ((drift c)\<lparr>ci_seekTo := Some (rd_RowNumber to)\<rparr>);
     Some (col_deliver r) }"

definition col_Close :: "('v, 'r) ColumnIterator \<Rightarrow> errs \<times> ('v, 'r) ColumnIterator" where
  "col_Close c = ([], c\<lparr>ci_quit := True\<rparr>)"

definition column_iterator :: "(('v, 'r) ColumnIterator, 'v pqValue, 'r) RowIterator" where
  "column_iterator =
     \<lparr>ri_iter = \<lparr>it_Next = col_Next, it_At = ci_result, it_Err = ci_err, it_Close = col_Close\<rparr>, ri_Seek = col_Seek\<rparr>"

subsection \<open>Row numbers of a column\<close>

lemma rn_Next_eq:
  assumes "length t = 6" "r \<le> d" "d < 6"
  shows "rn_Next r d t = take r t @ (t ! r + 1) # replicate (d - r) 0 @ replicate (5 - d) (-1)"
proof (rule nth_equalityI)
  fix i assume "i < length (rn_Next r d t)"
  then have i: "i < 6" using assms(1) by (simp add: rn_Next_def)
  have "rn_Next r d t ! i = (if i < r then t ! i else if i = r then t ! r + 1 else if i \<le> d then 0 else -1)"
    using assms i by (auto simp: rn_Next_def Let_def fold_update_nth nth_list_update simp del: upt_Suc)
  then show "rn_Next r d t ! i = (take r t @ (t ! r + 1) # replicate (d - r) 0 @ replicate (5 - d) (-1)) ! i"
    using assms i by (auto simp: nth_append nth_Cons')
qed (use assms in \<open>auto simp: rn_Next_def\<close>)

lemma rn_Next_length: "length t = 6 \<Longrightarrow> length (rn_Next r d t) = 6"
  by (simp add: rn_Next_def Let_def)

lemma rn_Next_top:
  "length t = 6 \<Longrightarrow> r \<le> d \<Longrightarrow> d < 6 \<Longrightarrow> rn_Next r d t ! 0 = t ! 0 + (if r = 0 then 1 else 0)"
  by (cases t) (auto simp: rn_Next_eq nth_append)

lemma rn_Next_row:
  "length t = 6 \<Longrightarrow> length t' = 6 \<Longrightarrow> t ! 0 = t' ! 0 \<Longrightarrow> d < 6 \<Longrightarrow> rn_Next 0 d t = rn_Next 0 d t'"
  by (simp add: rn_Next_eq)

lemma append_Cons_less: "(a :: 'a::linorder) < b \<Longrightarrow> xs @ a # ys < xs @ b # zs"
  by (induction xs) auto

lemma rn_Next_greater:
  assumes "length t = 6" "r \<le> d" "d < 6"
  shows "row_key 5 t < row_key 5 (rn_Next r d t)"
proof -
  have "t = take r t @ t ! r # drop (Suc r) t" using assms by (simp add: id_take_nth_drop)
  then have "t < rn_Next r d t" unfolding rn_Next_eq[OF assms] by (metis append_Cons_less less_add_one)
  then show ?thesis using assms(1) rn_Next_length[OF assms(1)] by (simp add: row_key_def)
qed

lemma rn_Skip_top: "length t = 6 \<Longrightarrow> length (rn_Skip n t) = 6 \<and> rn_Skip n t ! 0 = t ! 0 + n"
  by (auto simp: rn_Skip_def Let_def fold_update_nth)

lemma number_values_append:
  "number_values f rn (vs @ ws) =
     (case number_values f rn vs of (rn1, rows1) \<Rightarrow>
        case number_values f rn1 ws of (rn2, rows2) \<Rightarrow> (rn2, rows1 @ rows2))"
  by (induction vs arbitrary: rn) (auto simp: Let_def split: prod.splits)

lemma number_values_top:
  assumes "length rn = 6" "\<forall>v \<in> set vs. level_ok v"
  shows "length (fst (number_values f rn vs)) = 6 \<and> fst (number_values f rn vs) ! 0 = rn ! 0 + row_count vs"
  using assms
proof (induction vs arbitrary: rn)
  case (Cons v vs)
  let ?rn = "rn_Next (pv_RepetitionLevel v) (pv_DefinitionLevel v) rn"
  have "length ?rn = 6" "?rn ! 0 = rn ! 0 + (if pv_RepetitionLevel v = 0 then 1 else 0)"
    using Cons.prems by (simp_all add: rn_Next_length rn_Next_top level_ok_def)
  then show ?case using Cons.IH[of ?rn] Cons.prems(2) by (auto simp: Let_def split: prod.splits)
qed simp

lemma number_values_start:
  assumes "starts_row vs" "length rn = 6" "length rn' = 6" "rn ! 0 = rn' ! 0" "\<forall>v \<in> set vs. level_ok v"
  shows "snd (number_values f rn vs) = snd (number_values f rn' vs)"
proof (cases vs)
  case (Cons v ws)
  then have "rn_Next (pv_RepetitionLevel v) (pv_DefinitionLevel v) rn = rn_Next (pv_RepetitionLevel v) (pv_DefinitionLevel v) rn'"
    using assms rn_Next_row[of rn rn'] by (simp add: starts_row_def level_ok_def)
  then show ?thesis by (simp add: Cons)
qed simp

text \<open>Every row lies after the row number that was current, and not after the rows counted.\<close>

lemma number_values_rows:
  assumes "length rn = 6" "\<forall>v \<in> set vs. level_ok v" "(t, v) \<in> set (snd (number_values f rn vs))"
  shows "length t = 6 \<and> rn ! 0 \<le> t ! 0 \<and> t ! 0 \<le> rn ! 0 + row_count vs \<and> row_key 5 rn < row_key 5 t \<and>
    v \<in> set vs \<and> inst_KeepValue f (pv_value v)"
  using assms
proof (induction vs arbitrary: rn)
  case (Cons w vs)
  let ?rn = "rn_Next (pv_RepetitionLevel w) (pv_DefinitionLevel w) rn"
  have rn: "length ?rn = 6" "?rn ! 0 = rn ! 0 + (if pv_RepetitionLevel w = 0 then 1 else 0)" "row_key 5 rn < row_key 5 ?rn"
    using Cons.prems by (simp_all add: rn_Next_length rn_Next_top rn_Next_greater level_ok_def)
  consider "(t, v) = (?rn, w)" "inst_KeepValue f (pv_value w)" | "(t, v) \<in> set (snd (number_values f ?rn vs))"
    using Cons.prems(3) by (auto simp: Let_def split: prod.splits if_splits)
  then show ?case
  proof cases
    case 1
    then show ?thesis using rn row_count_nonneg[of vs] by auto
  next
    case 2
    then show ?thesis using Cons.IH[OF rn(1) _ 2] Cons.prems(2) rn(2,3) by (auto split: if_splits)
  qed
qed simp

lemma number_values_first:
  assumes "starts_row vs" "\<forall>v \<in> set vs. level_ok v" "x \<in> set (snd (number_values f EmptyRowNumber vs))"
  shows "0 \<le> fst x ! 0"
proof (cases vs)
  case (Cons w ws)
  let ?rn = "rn_Next (pv_RepetitionLevel w) (pv_DefinitionLevel w) EmptyRowNumber"
  have e: "length EmptyRowNumber = 6" "EmptyRowNumber ! 0 = -1" by (simp_all add: EmptyRowNumber_def)
  have rn: "length ?rn = 6" "?rn ! 0 = 0"
    using assms(1,2) Cons e by (simp_all add: rn_Next_length rn_Next_top level_ok_def starts_row_def)
  consider "fst x = ?rn" | "x \<in> set (snd (number_values f ?rn ws))"
    using assms(3) Cons by (auto simp: Let_def split: prod.splits if_splits)
  then show ?thesis
  proof cases
    case 2
    then show ?thesis using number_values_rows[OF rn(1), of ws "fst x" "snd x" f] assms(2) Cons rn(2) by simp
  qed (use rn in simp)
qed (use assms in simp)

lemma number_values_sorted:
  assumes "length rn = 6" "\<forall>v \<in> set vs. level_ok v"
  shows "sorted_wrt (\<lambda>a b. row_key 5 (fst a) < row_key 5 (fst b)) (snd (number_values f rn vs))"
  using assms
proof (induction vs arbitrary: rn)
  case (Cons v vs)
  let ?rn = "rn_Next (pv_RepetitionLevel v) (pv_DefinitionLevel v) rn"
  have rn: "length ?rn = 6" using Cons.prems by (simp add: rn_Next_length)
  have "row_key 5 ?rn < row_key 5 (fst x)" if "x \<in> set (snd (number_values f ?rn vs))" for x
    using number_values_rows[OF rn, of vs "fst x" "snd x" f] that Cons.prems(2) by simp
  then show ?case using Cons.IH[OF rn] Cons.prems(2) by (auto simp: Let_def split: prod.splits)
qed simp

lemma number_values_none: "\<forall>v \<in> set vs. \<not> inst_KeepValue f (pv_value v) \<Longrightarrow> snd (number_values f rn vs) = []"
  by (induction vs arbitrary: rn) (auto simp: Let_def split: prod.splits)

text \<open>Skipping whole rows leaves the numbers of the rows after them as they are.\<close>

lemma number_values_skip:
  assumes "length rn = 6" "\<forall>v \<in> set (vs @ ws). level_ok v" "starts_row ws" "row_count vs = n"
  shows "snd (number_values f rn (vs @ ws)) = snd (number_values f rn vs) @ snd (number_values f (rn_Skip n rn) ws)"
proof -
  let ?rn = "fst (number_values f rn vs)"
  have "length ?rn = 6" "?rn ! 0 = rn ! 0 + n" using number_values_top[OF assms(1), of vs f] assms(2,4) by auto
  then have "snd (number_values f ?rn ws) = snd (number_values f (rn_Skip n rn) ws)"
    using number_values_start[OF assms(3), of ?rn "rn_Skip n rn" f] rn_Skip_top[OF assms(1)] assms(2) by auto
  then show ?thesis by (auto simp: number_values_append split: prod.splits)
qed

subsection \<open>The goroutine delivers the rows of the file\<close>

definition prod_pages :: "'v producer \<Rightarrow> 'v pqValue list" where
  "prod_pages p = concat (map page_values (case pr_pages p of Some pgs \<Rightarrow> pgs | None \<Rightarrow> [])) @ file_values (pr_rgs p)"

definition prod_values :: "'v producer \<Rightarrow> 'v pqValue list" where
  "prod_values p = reads_values (case pr_vals p of Some rs \<Rightarrow> rs | None \<Rightarrow> []) @ prod_pages p"

definition prod_stream :: "'v Predicate option \<Rightarrow> 'v producer \<Rightarrow> (RowNumber \<times> 'v pqValue) list" where
  "prod_stream filt p = snd (number_values filt (pr_rn p) (prod_values p))"

definition prod_ok :: "'v Predicate option \<Rightarrow> 'v producer \<Rightarrow> bool" where
  "prod_ok filt p =
     (length (pr_rn p) = 6 \<and> -1 \<le> pr_rn p ! 0 \<and> pr_rn p ! 0 + row_count (prod_values p) < 2 ^ 63 - 1 \<and>
      (case pr_vals p of Some rs \<Rightarrow> reads_ok rs \<and> list_all level_ok (reads_values rs) | None \<Rightarrow> True) \<and>
      (case pr_pages p of Some pgs \<Rightarrow> list_all (page_ok filt) pgs | None \<Rightarrow> True) \<and>
      list_all (group_ok filt) (pr_rgs p) \<and>
      (pr_closed p \<longrightarrow> pr_vals p = None \<and> pr_pages p = None \<and> pr_rgs p = []))"

definition buffer_ok :: "'v columnIteratorBuffer \<Rightarrow> bool" where
  "buffer_ok b = (cb_rows b \<noteq> [] \<and> cb_err b = [])"

definition from_target :: "RowNumber option \<Rightarrow> RowNumber \<Rightarrow> bool" where
  "from_target seekTo t = (case seekTo of None \<Rightarrow> True | Some to \<Rightarrow> to ! 0 \<le> t ! 0)"

lemma prod_pages_start:
  "prod_ok filt p \<Longrightarrow> starts_row (prod_pages p) \<and> (\<forall>v \<in> set (prod_pages p). level_ok v)"
  unfolding prod_pages_def prod_ok_def
  using pages_start[of filt] file_starts[of filt "pr_rgs p"]
  by (auto intro!: starts_row_append split: option.splits)

lemma prod_values_levels: "prod_ok filt p \<Longrightarrow> \<forall>v \<in> set (prod_values p). level_ok v"
  using prod_pages_start[of filt p] by (auto simp: prod_values_def prod_ok_def list_all_iff reads_values_def split: option.splits)

lemma checkSkip_above:
  assumes "checkSkip seekTo rn n" "length rn = 6" "\<And>to. seekTo = Some to \<Longrightarrow> length to = 6" "t ! 0 \<le> rn ! 0 + n"
  shows "\<not> from_target seekTo t"
proof -
  obtain to where to: "seekTo = Some to" "CompareRowNumbers 0 (rn_Skip n rn) to = -1"
    using assms(1) by (auto simp: checkSkip_def split: option.splits)
  then have "rn ! 0 + n < to ! 0"
    using CompareRowNumbers_keys(1)[of "rn_Skip n rn" to 0] rn_Skip_top[OF assms(2)] assms(3) by simp
  then show ?thesis using assms(4) to(1) by (simp add: from_target_def)
qed

text \<open>Skipping the rows \<open>vs\<close> before \<open>ws\<close>, because of the target or of the predicate.\<close>

lemma skip_rows:
  assumes rn: "length rn = 6" and lv: "\<forall>v \<in> set (vs @ ws). level_ok v" and ws: "starts_row ws" and n: "row_count vs = n"
    and to: "\<And>to. seekTo = Some to \<Longrightarrow> length to = 6"
    and why: "checkSkip seekTo rn n \<or> \<not> accepts filt vs"
  shows "\<exists>r. snd (number_values filt rn (vs @ ws)) = r @ snd (number_values filt (rn_Skip n rn) ws) \<and>
    (\<forall>x \<in> set r. \<not> from_target seekTo (fst x))"
proof (intro exI conjI)
  show "snd (number_values filt rn (vs @ ws)) = snd (number_values filt rn vs) @ snd (number_values filt (rn_Skip n rn) ws)"
    by (rule number_values_skip[OF rn lv ws n])
  show "\<forall>x \<in> set (snd (number_values filt rn vs)). \<not> from_target seekTo (fst x)"
    using why
  proof
    assume "checkSkip seekTo rn n"
    moreover have "fst x ! 0 \<le> rn ! 0 + n" if "x \<in> set (snd (number_values filt rn vs))" for x
      using number_values_rows[OF rn, of vs "fst x" "snd x" filt] that lv n by simp
    ultimately show ?thesis using checkSkip_above[OF _ rn to] by blast
  next
    assume "\<not> accepts filt vs"
    then show ?thesis by (simp add: number_values_none accepts_def list_ex_iff)
  qed
qed

definition step_ok :: "'v Predicate option \<Rightarrow> RowNumber option \<Rightarrow> 'v producer \<Rightarrow> 'v producer \<Rightarrow> bool" where
  "step_ok filt seekTo p p' =
     (prod_ok filt p' \<and> list_all buffer_ok (pr_send p') \<and> (pr_closed p' \<longrightarrow> pr_send p' = []) \<and>
      (\<exists>r. prod_stream filt p = r @ concat (map cb_rows (pr_send p')) @ prod_stream filt p' \<and>
           (\<forall>x \<in> set r. \<not> from_target seekTo (fst x))))"

lemma read_step_ok:
  assumes ok: "prod_ok filt p" and p: "pr_vals p = Some reads" "\<not> pr_closed p" "pr_send p = []"
  shows "step_ok filt seekTo p (read_step filt reads p)"
proof (cases reads)
  case Nil
  then have "read_step filt reads p = p\<lparr>pr_vals := None\<rparr>" "prod_values (p\<lparr>pr_vals := None\<rparr>) = prod_values p"
    using p by (simp_all add: read_step_def prod_values_def prod_pages_def)
  then show ?thesis using ok p by (simp add: step_ok_def prod_ok_def prod_stream_def)
next
  case (Cons x reads')
  obtain vs e where x: "x = (vs, e)" by (cases x)
  obtain rn rows where nv: "number_values filt (pr_rn p) vs = (rn, rows)" by (cases "number_values filt (pr_rn p) vs")
  have lv: "\<forall>v \<in> set vs. level_ok v" and rok: "reads_ok reads" "list_all level_ok (reads_values reads)"
    using ok p Cons x by (auto simp: prod_ok_def reads_values_def list_all_iff)
  have top: "length rn = 6" "rn ! 0 = pr_rn p ! 0 + row_count vs"
    using number_values_top[of "pr_rn p" vs filt] lv ok nv by (auto simp: prod_ok_def)
  define q where "q = p\<lparr>pr_rn := rn, pr_send := (if rows \<noteq> [] then [\<lparr>cb_rows = rows, cb_err = []\<rparr>] else []),
    pr_vals := (if e = ROk then Some reads' else None)\<rparr>"
  have step: "read_step filt reads p = q"
    using Cons x nv rok(1) by (cases e) (simp_all add: read_step_def q_def)
  have vals: "prod_values p = vs @ prod_values q"
    using Cons x p rok(1) by (cases e) (simp_all add: prod_values_def prod_pages_def q_def reads_values_def)
  have "prod_stream filt p = rows @ prod_stream filt q"
    unfolding prod_stream_def vals number_values_append nv by (simp add: q_def split: prod.splits)
  moreover have "prod_ok filt q"
    using ok p top rok Cons x vals row_count_nonneg[of vs] unfolding prod_ok_def
    by (cases e) (auto simp: q_def reads_values_def)
  ultimately show ?thesis unfolding step step_ok_def using p by (auto simp: q_def buffer_ok_def)
qed

lemma page_step_ok:
  assumes ok: "prod_ok filt p" and p: "pr_vals p = None" "pr_pages p = Some pages" "\<not> pr_closed p" "pr_send p = []"
    and to: "\<And>to. seekTo = Some to \<Longrightarrow> length to = 6"
  shows "step_ok filt seekTo p (page_step filt seekTo pages p)"
proof (cases pages)
  case Nil
  then have "page_step filt seekTo pages p = p\<lparr>pr_pages := None\<rparr>" "prod_values (p\<lparr>pr_pages := None\<rparr>) = prod_values p"
    using p by (simp_all add: page_step_def prod_values_def prod_pages_def)
  then show ?thesis using ok p by (simp add: step_ok_def prod_ok_def prod_stream_def)
next
  case (Cons x pages')
  then obtain pg where x: "x = PageRead pg" using ok p by (cases x) (auto simp: prod_ok_def)
  have pok: "page_ok filt x" "list_all (page_ok filt) pages'" using ok p Cons by (auto simp: prod_ok_def)
  let ?vs = "reads_values (pg_reads pg)"
  let ?q = "p\<lparr>pr_pages := Some pages'\<rparr>"
  have n: "row_count ?vs = pg_NumRows pg" and nonneg: "0 \<le> pg_NumRows pg"
    using pok(1) row_count_nonneg[of ?vs] by (simp_all add: x rows_ok_def)
  have vals: "prod_values p = ?vs @ prod_values ?q" "prod_values ?q = prod_pages ?q"
    using p Cons x by (simp_all add: prod_values_def prod_pages_def reads_values_def)
  have len: "length (pr_rn p) = 6" using ok by (simp add: prod_ok_def)
  have q: "prod_ok filt ?q" using ok p pok(2) vals(1) row_count_nonneg[of ?vs] unfolding prod_ok_def by auto
  have levels: "\<forall>v \<in> set (?vs @ prod_values ?q). level_ok v" using prod_values_levels[OF ok] unfolding vals(1) .
  show ?thesis
  proof (cases "checkSkip seekTo (pr_rn p) (pg_NumRows pg) \<or> \<not> inst_KeepPage filt pg")
    case True
    let ?q' = "?q\<lparr>pr_rn := rn_Skip (pg_NumRows pg) (pr_rn p)\<rparr>"
    have step: "page_step filt seekTo pages p = ?q'" using True Cons x by (auto simp: page_step_def Let_def)
    have why: "checkSkip seekTo (pr_rn p) (pg_NumRows pg) \<or> \<not> accepts filt ?vs" using True pok(1) x by auto
    have vq: "prod_values ?q' = prod_values ?q" by (simp add: prod_values_def prod_pages_def)
    have "prod_ok filt ?q'"
      using q rn_Skip_top[OF len] ok n nonneg vals(1) vq unfolding prod_ok_def by (auto simp: vq)
    moreover have "starts_row (prod_values ?q)" using prod_pages_start[OF q] vals(2) by simp
    note skip_rows[OF len levels this n to why]
    ultimately show ?thesis unfolding step step_ok_def prod_stream_def vals(1) vq using p by auto
  next
    case False
    let ?q' = "?q\<lparr>pr_vals := Some (pg_reads pg)\<rparr>"
    have step: "page_step filt seekTo pages p = ?q'" using False Cons x by (auto simp: page_step_def Let_def)
    have "prod_values ?q' = prod_values p" using vals p by (simp add: prod_values_def prod_pages_def)
    moreover have "prod_ok filt ?q'" using ok p pok calculation x unfolding prod_ok_def by (auto simp: rows_ok_def)
    ultimately show ?thesis unfolding step step_ok_def prod_stream_def using p by auto
  qed
qed

lemma group_step_ok:
  assumes ok: "prod_ok filt p" and p: "pr_vals p = None" "pr_pages p = None" "\<not> pr_closed p" "pr_send p = []"
    and to: "\<And>to. seekTo = Some to \<Longrightarrow> length to = 6"
  shows "step_ok filt seekTo p (group_step filt seekTo p)"
proof (cases "pr_rgs p")
  case Nil
  have "prod_values (p\<lparr>pr_closed := True\<rparr>) = prod_values p" by (simp add: prod_values_def prod_pages_def)
  then show ?thesis using ok p Nil by (simp add: step_ok_def prod_ok_def prod_stream_def group_step_def)
next
  case (Cons rg rgs)
  have gok: "group_ok filt rg" "list_all (group_ok filt) rgs" using ok Cons by (auto simp: prod_ok_def)
  let ?vs = "group_values rg"
  let ?q = "p\<lparr>pr_rgs := rgs\<rparr>"
  have n: "row_count ?vs = rg_NumRows rg" and nonneg: "0 \<le> rg_NumRows rg"
    using gok(1) row_count_nonneg[of ?vs] by (simp_all add: group_ok_def rows_ok_def)
  have vals: "prod_values p = ?vs @ prod_values ?q" "prod_values ?q = prod_pages ?q"
    using p Cons by (simp_all add: prod_values_def prod_pages_def reads_values_def file_values_def)
  have len: "length (pr_rn p) = 6" using ok by (simp add: prod_ok_def)
  have q: "prod_ok filt ?q" using ok p gok(2) vals(1) row_count_nonneg[of ?vs] unfolding prod_ok_def by auto
  have levels: "\<forall>v \<in> set (?vs @ prod_values ?q). level_ok v" using prod_values_levels[OF ok] unfolding vals(1) .
  show ?thesis
  proof (cases "checkSkip seekTo (pr_rn p) (rg_NumRows rg) \<or> \<not> inst_KeepColumnChunk filt (rg_ColumnChunk rg)")
    case True
    let ?q' = "?q\<lparr>pr_rn := rn_Skip (rg_NumRows rg) (pr_rn p)\<rparr>"
    have step: "group_step filt seekTo p = ?q'" using True Cons by (auto simp: group_step_def Let_def)
    have why: "checkSkip seekTo (pr_rn p) (rg_NumRows rg) \<or> \<not> accepts filt ?vs" using True gok(1) by (auto simp: group_ok_def)
    have vq: "prod_values ?q' = prod_values ?q" by (simp add: prod_values_def prod_pages_def)
    have "prod_ok filt ?q'"
      using q rn_Skip_top[OF len] ok n nonneg vals(1) vq unfolding prod_ok_def by (auto simp: vq)
    moreover have "starts_row (prod_values ?q)" using prod_pages_start[OF q] vals(2) by simp
    note skip_rows[OF len levels this n to why]
    ultimately show ?thesis unfolding step step_ok_def prod_stream_def vals(1) vq using p by auto
  next
    case False
    let ?q' = "?q\<lparr>pr_pages := Some (cc_Pages (rg_ColumnChunk rg))\<rparr>"
    have step: "group_step filt seekTo p = ?q'" using False Cons by (auto simp: group_step_def Let_def)
    have "prod_values ?q' = prod_values p" using vals p Cons by (simp add: prod_values_def prod_pages_def group_values_def)
    moreover have "prod_ok filt ?q'" using ok p gok calculation unfolding prod_ok_def by (auto simp: group_ok_def)
    ultimately show ?thesis unfolding step step_ok_def prod_stream_def using p by auto
  qed
qed

lemma iterate_step_ok:
  assumes "prod_ok filt p" "\<not> pr_closed p" "pr_send p = []" "\<And>to. seekTo = Some to \<Longrightarrow> length to = 6"
  shows "step_ok filt seekTo p (iterate_step filt seekTo p)"
proof (cases "pr_vals p")
  case (Some reads)
  then show ?thesis using read_step_ok[OF assms(1) Some assms(2,3)] by (simp add: iterate_step_def)
next
  case vals: None
  show ?thesis
  proof (cases "pr_pages p")
    case (Some pages)
    have "step_ok filt seekTo p (page_step filt seekTo pages p)"
      by (rule page_step_ok[OF assms(1) vals Some assms(2,3)]) (rule assms(4))
    then show ?thesis by (simp add: iterate_step_def vals Some)
  next
    case None
    have "step_ok filt seekTo p (group_step filt seekTo p)"
      by (rule group_step_ok[OF assms(1) vals None assms(2,3)]) (rule assms(4))
    then show ?thesis by (simp add: iterate_step_def vals None)
  qed
qed

text \<open>Every step of the goroutine uses up a part of what is left to do.\<close>

fun page_size :: "'v pageRead \<Rightarrow> nat" where
  "page_size (PageRead pg) = 2 + 3 * length (pg_reads pg)"
| "page_size (PageErr e) = 2"

definition prod_size :: "'v producer \<Rightarrow> nat" where
  "prod_size p =
     (case pr_vals p of Some rs \<Rightarrow> 1 + 3 * length rs | None \<Rightarrow> 0) +
     (case pr_pages p of Some pgs \<Rightarrow> 1 + sum_list (map page_size pgs) | None \<Rightarrow> 0) +
     sum_list (map (\<lambda>rg. 2 + sum_list (map page_size (cc_Pages (rg_ColumnChunk rg)))) (pr_rgs p)) +
     length (pr_send p) + (if pr_closed p then 0 else 1)"

lemma iterate_step_size:
  assumes "\<not> pr_closed p" "pr_send p = []"
  shows "prod_size (iterate_step filt seekTo p) < prod_size p"
proof -
  have "prod_size (read_step filt reads p) < prod_size p" if "pr_vals p = Some reads" for reads
    using assms that by (cases reads) (auto simp: read_step_def prod_size_def Let_def split: readEnd.splits prod.splits)
  moreover have "prod_size (page_step filt seekTo pages p) < prod_size p" if "pr_vals p = None" "pr_pages p = Some pages" for pages
    using assms that by (cases pages) (auto simp: page_step_def prod_size_def Let_def split: pageRead.splits)
  moreover have "prod_size (group_step filt seekTo p) < prod_size p" if "pr_vals p = None" "pr_pages p = None"
    using assms that by (cases "pr_rgs p") (auto simp: group_step_def prod_size_def Let_def)
  ultimately show ?thesis by (auto simp: iterate_step_def split: option.splits)
qed

subsection \<open>The consumer\<close>

definition col_stream :: "('v, 'r) ColumnIterator \<Rightarrow> (RowNumber \<times> 'v pqValue) list" where
  "col_stream c =
     (case ci_curr c of Some (b, n) \<Rightarrow> drop (n + 1) (cb_rows b) | None \<Rightarrow> []) @ concat (map cb_rows (ci_ch c)) @
     concat (map cb_rows (pr_send (ci_prod c))) @ prod_stream (ci_filter c) (ci_prod c)"

definition stream_ok :: "(RowNumber \<times> 'v pqValue) list \<Rightarrow> bool" where
  "stream_ok s = (sorted_wrt (\<lambda>a b. row_key 5 (fst a) < row_key 5 (fst b)) s \<and> (\<forall>x \<in> set s. row_ok (fst x)))"

definition col_ok :: "('v, 'r) ColumnIterator \<Rightarrow> bool" where
  "col_ok c =
     (prod_ok (ci_filter c) (ci_prod c) \<and> stream_ok (col_stream c) \<and> \<not> ci_quit c \<and> ci_err c = [] \<and>
      list_all buffer_ok (ci_ch c) \<and> list_all buffer_ok (pr_send (ci_prod c)) \<and>
      (pr_closed (ci_prod c) \<longrightarrow> pr_send (ci_prod c) = []) \<and> (\<forall>to. ci_seekTo c = Some to \<longrightarrow> length to = 6))"

text \<open>What the goroutine does behind the consumer's back: rows before the target may get lost.\<close>

definition thin :: "RowNumber option \<Rightarrow> (RowNumber \<times> 'v pqValue) list \<Rightarrow> (RowNumber \<times> 'v pqValue) list \<Rightarrow> bool" where
  "thin seekTo s s' =
     (filter (\<lambda>x. from_target seekTo (fst x)) s' = filter (\<lambda>x. from_target seekTo (fst x)) s \<and> set s' \<subseteq> set s \<and> length s' \<le> length s)"

definition same_col :: "('v, 'r) ColumnIterator \<Rightarrow> ('v, 'r) ColumnIterator \<Rightarrow> bool" where
  "same_col c c' = (ci_seekTo c' = ci_seekTo c \<and> ci_selectAs c' = ci_selectAs c \<and> ci_filter c' = ci_filter c)"

lemma thin_refl [simp]: "thin to s s"
  and thin_trans: "thin to s s' \<Longrightarrow> thin to s' s'' \<Longrightarrow> thin to s s''"
  by (auto simp: thin_def)

lemma same_col_refl [simp]: "same_col c c"
  and same_col_trans: "same_col c c' \<Longrightarrow> same_col c' c'' \<Longrightarrow> same_col c c''"
  by (auto simp: same_col_def)

lemma thin_drop: "\<forall>x \<in> set r. \<not> from_target to (fst x) \<Longrightarrow> thin to (X @ r @ Y) (X @ Y)"
  by (auto simp: thin_def filter_empty_conv)

lemma stream_ok_drop: "stream_ok (X @ r @ Y) \<Longrightarrow> stream_ok (X @ Y)"
  by (auto simp: stream_ok_def sorted_wrt_append)

lemma thin_all: "\<forall>x \<in> set s. from_target to (fst x) \<Longrightarrow> thin to s s' \<Longrightarrow> s' = s"
  unfolding thin_def by (metis (mono_tags, lifting) filter_True subset_iff)

definition moves :: "('v, 'r) ColumnIterator \<Rightarrow> ('v, 'r) ColumnIterator \<Rightarrow> bool" where
  "moves c c' = (col_ok c' \<and> same_col c c' \<and> ci_curr c' = ci_curr c \<and> thin (ci_seekTo c) (col_stream c) (col_stream c') \<and>
     prod_size (ci_prod c') \<le> prod_size (ci_prod c))"

lemma moves_trans: "moves c c' \<Longrightarrow> moves c' c'' \<Longrightarrow> moves c c''"
  unfolding moves_def by (metis le_trans same_col_def same_col_trans thin_trans)

lemma prod_step_ok:
  assumes "col_ok c"
  shows "moves c (prod_step c)"
proof (cases "pr_closed (ci_prod c)")
  case True
  then show ?thesis using assms by (simp add: prod_step_def moves_def)
next
  case False
  show ?thesis
  proof (cases "pr_send (ci_prod c)")
    case (Cons b bs)
    let ?c = "c\<lparr>ci_ch := [b], ci_prod := (ci_prod c)\<lparr>pr_send := bs\<rparr>\<rparr>"
    have "col_stream ?c = col_stream c" if "ci_ch c = []"
      using that Cons by (simp add: col_stream_def prod_stream_def prod_values_def prod_pages_def)
    moreover have "prod_ok (ci_filter c) ((ci_prod c)\<lparr>pr_send := bs\<rparr>)"
      using assms by (simp add: col_ok_def prod_ok_def prod_values_def prod_pages_def)
    ultimately have "moves c ?c" if "ci_ch c = []"
      using that assms Cons False by (simp add: moves_def col_ok_def same_col_def prod_size_def)
    then show ?thesis using assms Cons False by (auto simp: prod_step_def moves_def col_ok_def)
  next
    case Nil
    let ?p = "iterate_step (ci_filter c) (ci_seekTo c) (ci_prod c)"
    have ok: "step_ok (ci_filter c) (ci_seekTo c) (ci_prod c) ?p"
      by (rule iterate_step_ok) (use assms False Nil in \<open>auto simp: col_ok_def\<close>)
    obtain X where s: "col_stream c = X @ prod_stream (ci_filter c) (ci_prod c)"
      "col_stream (c\<lparr>ci_prod := ?p\<rparr>) = X @ concat (map cb_rows (pr_send ?p)) @ prod_stream (ci_filter c) ?p"
      using Nil by (simp add: col_stream_def)
    obtain r where r: "prod_stream (ci_filter c) (ci_prod c) = r @ concat (map cb_rows (pr_send ?p)) @ prod_stream (ci_filter c) ?p"
      "\<forall>x \<in> set r. \<not> from_target (ci_seekTo c) (fst x)" using ok by (auto simp: step_ok_def)
    have "thin (ci_seekTo c) (col_stream c) (col_stream (c\<lparr>ci_prod := ?p\<rparr>))"
      unfolding s r(1) by (rule thin_drop[OF r(2)])
    moreover have "stream_ok (col_stream (c\<lparr>ci_prod := ?p\<rparr>))"
      using assms stream_ok_drop unfolding col_ok_def s r(1) by blast
    ultimately show ?thesis using assms ok Nil False iterate_step_size[OF False Nil, of "ci_filter c" "ci_seekTo c"]
      by (simp add: prod_step_def moves_def col_ok_def step_ok_def same_col_def)
  qed
qed

lemma drift_ok:
  assumes "col_ok c"
  shows "moves c (drift c)"
proof -
  let ?c = "c\<lparr>ci_sched := (\<lambda>n. ci_sched c (n + 1))\<rparr>"
  have "moves ?c ((prod_step ^^ k) ?c)" for k
  proof (induction k)
    case 0
    have "col_ok ?c" using assms by (simp add: col_ok_def col_stream_def)
    then show ?case by (simp add: moves_def)
  next
    case (Suc k)
    then have "col_ok ((prod_step ^^ k) ?c)" by (simp add: moves_def)
    then show ?case using Suc prod_step_ok moves_trans by simp blast
  qed
  moreover have "moves c ?c" using assms by (simp add: moves_def col_ok_def same_col_def col_stream_def)
  ultimately show ?thesis unfolding drift_def by (rule moves_trans[rotated])
qed

lemma prod_step_size:
  assumes "col_ok c" "ci_ch c = []" "\<not> pr_closed (ci_prod c)"
  shows "prod_size (ci_prod (prod_step c)) < prod_size (ci_prod c)"
proof (cases "pr_send (ci_prod c)")
  case Nil
  then show ?thesis using assms iterate_step_size by (simp add: prod_step_def)
next
  case (Cons b bs)
  then show ?thesis using assms by (simp add: prod_step_def col_ok_def prod_size_def)
qed

text \<open>A receive returns, whatever the schedule, with a buffer or with the end of the rows.\<close>

lemma recv_ok:
  assumes "col_ok c" "ci_curr c = None"
  obtains b c' where "recv c = Some (Some b, c')" "buffer_ok b" "col_ok c'" "same_col c c'" "ci_curr c' = None"
      "thin (ci_seekTo c) (col_stream c) (cb_rows b @ col_stream c')" "stream_ok (cb_rows b @ col_stream c')"
  | c' where "recv c = Some (None, c')" "col_ok c'" "same_col c c'" "ci_curr c' = None"
      "thin (ci_seekTo c) (col_stream c) []" "col_stream c' = []"
  using assms
proof (induction "prod_size (ci_prod c)" arbitrary: c thesis rule: less_induct)
  case less
  define c1 where "c1 = drift c"
  have m: "moves c c1" unfolding c1_def by (rule drift_ok[OF less.prems(3)])
  have c1: "col_ok c1" "same_col c c1" "ci_curr c1 = None" "thin (ci_seekTo c) (col_stream c) (col_stream c1)"
    "prod_size (ci_prod c1) \<le> prod_size (ci_prod c)" using m less.prems(4) by (auto simp: moves_def)
  have eq: "recv c = (case ci_ch c1 of b # bs \<Rightarrow> Some (Some b, c1\<lparr>ci_ch := bs\<rparr>)
      | [] \<Rightarrow> if pr_closed (ci_prod c1) then Some (None, c1) else recv (prod_step c1))"
    unfolding c1_def by (subst recv.simps) (simp only: Let_def)
  show ?case
  proof (cases "ci_ch c1")
    case (Cons b bs)
    let ?c = "c1\<lparr>ci_ch := bs\<rparr>"
    have s: "col_stream c1 = cb_rows b @ col_stream ?c" using Cons c1(3) by (simp add: col_stream_def)
    have "stream_ok (cb_rows b @ col_stream ?c)" using c1(1) unfolding col_ok_def s by blast
    moreover from this have "stream_ok (col_stream ?c)" by (auto simp: stream_ok_def sorted_wrt_append)
    moreover from this have "col_ok ?c" using c1(1) Cons by (simp add: col_ok_def)
    ultimately show ?thesis using less.prems(1)[of b ?c] c1 Cons s eq
      by (simp add: same_col_def) (simp add: col_ok_def)
  next
    case Nil
    show ?thesis
    proof (cases "pr_closed (ci_prod c1)")
      case True
      have "col_stream c1 = []"
        using True Nil c1(1,3) by (simp add: col_stream_def col_ok_def prod_ok_def prod_stream_def prod_values_def
          prod_pages_def reads_values_def file_values_def)
      then show ?thesis using less.prems(2)[of c1] c1 True Nil eq by simp
    next
      case False
      have m2: "moves c1 (prod_step c1)" by (rule prod_step_ok[OF c1(1)])
      have sz: "prod_size (ci_prod (prod_step c1)) < prod_size (ci_prod c)"
        using prod_step_size[OF c1(1) Nil False] c1(5) by simp
      have ok: "col_ok (prod_step c1)" "ci_curr (prod_step c1) = None" using m2 c1(3) by (auto simp: moves_def)
      have m3: "same_col c (prod_step c1)" "thin (ci_seekTo c) (col_stream c) (col_stream (prod_step c1))"
        using moves_trans[OF m m2] by (auto simp: moves_def)
      have rec: "recv c = recv (prod_step c1)" using eq Nil False by simp
      have st: "ci_seekTo (prod_step c1) = ci_seekTo c" using m3(1) by (simp add: same_col_def)
      show ?thesis
      proof (rule less.hyps[OF sz _ _ ok], unfold rec[symmetric] st)
        fix b c' assume "recv c = Some (Some b, c')" "buffer_ok b" "col_ok c'" "same_col (prod_step c1) c'" "ci_curr c' = None"
          "thin (ci_seekTo c) (col_stream (prod_step c1)) (cb_rows b @ col_stream c')" "stream_ok (cb_rows b @ col_stream c')"
        then show thesis by (intro less.prems(1)[of b c'] same_col_trans[OF m3(1)] thin_trans[OF m3(2)])
      next
        fix c' assume "recv c = Some (None, c')" "col_ok c'" "same_col (prod_step c1) c'" "ci_curr c' = None"
          "thin (ci_seekTo c) (col_stream (prod_step c1)) []" "col_stream c' = []"
        then show thesis by (intro less.prems(2)[of c'] same_col_trans[OF m3(1)] thin_trans[OF m3(2)])
      qed
    qed
  qed
qed

text \<open>What \<open>next\<close> returns: the first row of \<open>s\<close>, and the rest is left.\<close>

definition popped :: "(RowNumber \<times> 'v pqValue) list \<Rightarrow> RowNumber \<times> 'v pqValue option \<Rightarrow> ('v, 'r) ColumnIterator \<Rightarrow> bool" where
  "popped s r c =
     (col_ok c \<and>
      (case s of
         [] \<Rightarrow> r = (EmptyRowNumber, None) \<and> col_stream c = []
       | (t, v) # s' \<Rightarrow> r = (t, Some v) \<and> row_ok t \<and> col_stream c = s'))"

lemma next_buffer_ok:
  assumes "col_ok c" "ci_curr c = None"
  shows "\<exists>r c' s. next_buffer c = Some (r, c') \<and> same_col c c' \<and> thin (ci_seekTo c) (col_stream c) s \<and> stream_ok s \<and> popped s r c'"
proof (rule recv_ok[OF assms])
  fix b c' assume b: "recv c = Some (Some b, c')" "buffer_ok b" "col_ok c'" "same_col c c'" "ci_curr c' = None"
    "thin (ci_seekTo c) (col_stream c) (cb_rows b @ col_stream c')" "stream_ok (cb_rows b @ col_stream c')"
  obtain t v rows where x: "cb_rows b = (t, v) # rows" using b(2) by (cases "cb_rows b") (auto simp: buffer_ok_def)
  let ?c = "c'\<lparr>ci_curr := Some (b, 0)\<rparr>"
  have s: "col_stream ?c = rows @ col_stream c'" using b(5) x by (simp add: col_stream_def)
  have "stream_ok (rows @ col_stream c')" "row_ok t" using b(7) x by (auto simp: stream_ok_def)
  then have "popped (cb_rows b @ col_stream c') (t, Some v) ?c"
    using b(3) x s by (simp add: popped_def) (simp add: col_ok_def)
  moreover have "next_buffer c = Some ((t, Some v), ?c)" using b(1,2) x by (simp add: next_buffer_def buffer_ok_def)
  ultimately show ?thesis using b(4,6,7) by (intro exI conjI) (auto simp: same_col_def)
next
  fix c' assume "recv c = Some (None, c')" "col_ok c'" "same_col c c'" "ci_curr c' = None"
    "thin (ci_seekTo c) (col_stream c) []" "col_stream c' = []"
  then show ?thesis by (auto simp: next_buffer_def popped_def stream_ok_def)
qed

lemma col_next_ok:
  assumes "col_ok c"
  shows "\<exists>r c' s. col_next c = Some (r, c') \<and> same_col c c' \<and> thin (ci_seekTo c) (col_stream c) s \<and> stream_ok s \<and> popped s r c'"
proof (cases "ci_curr c")
  case None
  then show ?thesis using next_buffer_ok[OF assms] by (simp add: col_next_def)
next
  case (Some bn)
  obtain b n where bn: "bn = (b, n)" by (cases bn)
  show ?thesis
  proof (cases "n + 1 < length (cb_rows b)")
    case True
    let ?c = "c\<lparr>ci_curr := Some (b, n + 1)\<rparr>"
    obtain t v where tv: "cb_rows b ! (n + 1) = (t, v)" by (cases "cb_rows b ! (n + 1)")
    have "drop (n + 1) (cb_rows b) = (t, v) # drop (n + 2) (cb_rows b)"
      using True tv by (simp add: Cons_nth_drop_Suc[symmetric])
    then have s: "col_stream c = (t, v) # col_stream ?c" using Some bn by (simp add: col_stream_def)
    have st: "stream_ok (col_stream c)" using assms by (simp add: col_ok_def)
    have "row_ok t" "stream_ok (col_stream ?c)" using st s by (auto simp: stream_ok_def)
    moreover from this have "col_ok ?c" using assms by (simp add: col_ok_def)
    ultimately have "popped (col_stream c) (t, Some v) ?c" using s by (simp add: popped_def)
    moreover have "col_next c = Some ((t, Some v), ?c)"
      using Some bn True tv row_ok_Valid[OF \<open>row_ok t\<close>] by (simp add: col_next_def)
    ultimately show ?thesis using st by (intro exI[of _ "(t, Some v)"] exI[of _ ?c] exI[of _ "col_stream c"]) (simp add: same_col_def)
  next
    case False
    let ?c = "c\<lparr>ci_curr := None\<rparr>"
    have s: "col_stream ?c = col_stream c" using Some bn False by (simp add: col_stream_def)
    have "col_ok ?c" using assms s by (simp add: col_ok_def)
    from next_buffer_ok[OF this] show ?thesis using Some bn False s by (simp add: col_next_def same_col_def)
  qed
qed

subsection \<open>The contract\<close>

definition col_row :: "string \<Rightarrow> RowNumber \<times> 'v pqValue \<Rightarrow> ('v pqValue, 'r) IteratorResult" where
  "col_row selectAs x = makeResult selectAs (fst x) (Some (snd x))"

lemma col_row_number [simp]: "ir_RowNumber (col_row selectAs x) = fst x"
  by (simp add: col_row_def makeResult_def ir_AppendValue_def Let_def)

definition col_rel :: "('v, 'r) ColumnIterator \<Rightarrow> ('v pqValue, 'r) IteratorResult list \<Rightarrow> bool" where
  "col_rel c xs =
     (col_ok c \<and> xs = map (col_row (ci_selectAs c)) (col_stream c) \<and>
      (\<forall>x \<in> set (col_stream c). from_target (ci_seekTo c) (fst x)))"

lemma deliver_ok:
  assumes "popped s r c" "\<forall>x \<in> set s. from_target (ci_seekTo c) (fst x)" "ci_selectAs c = sel"
  shows "delivers (ri_iter column_iterator) col_rel (map (col_row sel) s) (Some (col_deliver (r, c)))"
proof (cases s)
  case Nil
  then have "r = (EmptyRowNumber, None)" "col_stream c = []" "col_ok c" using assms(1) by (auto simp: popped_def)
  moreover have "col_stream (c\<lparr>ci_result := x\<rparr>) = col_stream c" for x by (simp add: col_stream_def)
  ultimately show ?thesis using Nil
    by (auto simp: col_deliver_def Valid_def EmptyRowNumber_def col_rel_def col_ok_def)
next
  case (Cons x s')
  obtain t v where x: "x = (t, v)" by (cases x)
  have p: "r = (t, Some v)" "row_ok t" "col_stream c = s'" "col_ok c" using assms(1) Cons x by (auto simp: popped_def)
  let ?c = "c\<lparr>ci_result := Some (makeResult sel t (Some v))\<rparr>"
  have "col_stream ?c = s'" using p(3) by (simp add: col_stream_def)
  then have "col_rel ?c (map (col_row sel) s')" using p(3,4) assms(2,3) Cons by (simp add: col_rel_def col_ok_def)
  then show ?thesis using p(1,2) Cons x assms(3) row_ok_Valid[OF p(2)]
    by (simp add: col_deliver_def column_iterator_def col_row_def)
qed

lemma stream_sorted: "stream_ok s \<Longrightarrow> rows_sorted (map (col_row sel) s)"
  by (auto simp: stream_ok_def rows_sorted_def sorted_map sorted_wrt_map elim!: sorted_wrt_mono_rel[rotated] intro: less_imp_le)

lemma stream_dropWhile:
  fixes s :: "(RowNumber \<times> 'v pqValue) list"
  assumes "stream_ok s" "target_ok to"
  shows "dropWhile (\<lambda>x. below to (fst x)) s = filter (\<lambda>x. \<not> below to (fst x)) s"
proof -
  have "map (col_row []) (dropWhile (\<lambda>x. below to (fst x)) s) =
    (map (col_row []) (filter (\<lambda>x. \<not> below to (fst x)) s) :: ('v pqValue, unit) IteratorResult list)"
    using dropWhile_filter_below[OF stream_sorted[OF assms(1)] assms(2), of "[]", where 'b = unit]
    by (simp add: dropWhile_map filter_map o_def)
  then have "length (dropWhile (\<lambda>x. below to (fst x)) s) = length (filter (\<lambda>x. \<not> below to (fst x)) s)"
    by (metis length_map)
  moreover have "filter (\<lambda>x. \<not> below to (fst x)) s = filter (\<lambda>x. \<not> below to (fst x)) (dropWhile (\<lambda>x. below to (fst x)) s)"
    by (rule filter_dropWhile[symmetric]) auto
  ultimately show ?thesis by (metis length_filter_less less_irrefl filter_True)
qed

lemma compare_range: "CompareRowNumbers d a b \<in> {-1, 0, 1}"
proof -
  have "compare_at a b is' \<in> {-1, 0, 1}" for is' by (induction is') auto
  then show ?thesis by (simp add: CompareRowNumbers_def)
qed

lemma below_target:
  assumes "target_ok to" "length t = 6" "\<not> from_target (Some (rd_RowNumber to)) t"
  shows "below to t"
proof (rule ccontr)
  assume "\<not> below to t"
  then have "row_key (rd_DefinitionLevel to) (rd_RowNumber to) \<le> row_key (rd_DefinitionLevel to) t"
    using below_key[OF assms(1,2)] by simp
  then have "row_key 0 (rd_RowNumber to) \<le> row_key 0 t"
    using list_take_mono[of _ _ 1] by (fastforce simp: row_key_def min_def)
  then show False using assms by (simp add: from_target_def target_ok_def)
qed

lemma thin_dropWhile:
  assumes "stream_ok s" "stream_ok s'" "thin (Some (rd_RowNumber to)) s s'" "target_ok to"
  shows "dropWhile (\<lambda>x. below to (fst x)) s' = dropWhile (\<lambda>x. below to (fst x)) s"
proof -
  have "filter (\<lambda>x. \<not> below to (fst x)) u =
      filter (\<lambda>x. \<not> below to (fst x)) (filter (\<lambda>x. from_target (Some (rd_RowNumber to)) (fst x)) u)" if "stream_ok u" for u
    unfolding filter_filter
  proof (rule filter_cong[OF refl])
    fix x assume "x \<in> set u"
    then have "length (fst x) = 6" using that by (simp add: stream_ok_def)
    then show "(\<not> below to (fst x)) = (from_target (Some (rd_RowNumber to)) (fst x) \<and> \<not> below to (fst x))"
      using below_target[OF assms(4)] by blast
  qed
  then show ?thesis using assms unfolding stream_dropWhile[OF assms(1,4)] stream_dropWhile[OF assms(2,4)] thin_def by metis
qed

lemma col_seek_loop_ok:
  assumes "col_ok c" "ci_seekTo c = Some (rd_RowNumber to)" "target_ok to"
  shows "\<exists>r c'. col_seek_loop to c = Some (r, c') \<and> same_col c c' \<and> popped (dropWhile (\<lambda>x. below to (fst x)) (col_stream c)) r c'"
  using assms(1,2)
proof (induction "length (col_stream c)" arbitrary: c rule: less_induct)
  case less
  obtain r c1 s where n: "col_next c = Some (r, c1)" "same_col c c1" "thin (ci_seekTo c) (col_stream c) s" "stream_ok s" "popped s r c1"
    using col_next_ok[OF less.prems(1)] by blast
  have "stream_ok (col_stream c)" using less.prems(1) by (simp add: col_ok_def)
  then have dw: "dropWhile (\<lambda>x. below to (fst x)) s = dropWhile (\<lambda>x. below to (fst x)) (col_stream c)"
    using thin_dropWhile[OF _ n(4) _ assms(3)] n(3) less.prems(2) by simp
  show ?case
  proof (cases s)
    case Nil
    then have "\<not> Valid (fst r)" using n(5) by (simp add: popped_def Valid_def EmptyRowNumber_def)
    then have "col_seek_loop to c = Some (r, c1)" using n(1) by (subst col_seek_loop.simps) (auto split: prod.splits)
    then show ?thesis using n(2,5) dw Nil by auto
  next
    case (Cons x s')
    obtain t v where x: "x = (t, v)" by (cases x)
    have p: "r = (t, Some v)" "row_ok t" "col_stream c1 = s'" "col_ok c1" using n(5) Cons x by (auto simp: popped_def)
    have cmp: "CompareRowNumbers (rd_DefinitionLevel to) t (rd_RowNumber to) < 0 \<longleftrightarrow> below to t"
      using compare_range[of "rd_DefinitionLevel to" t "rd_RowNumber to"] by (auto simp: below_def)
    show ?thesis
    proof (cases "below to t")
      case True
      have "length (col_stream c1) < length (col_stream c)" using n(3) Cons p(3) by (simp add: thin_def)
      moreover have "ci_seekTo c1 = Some (rd_RowNumber to)" using n(2) less.prems(2) by (simp add: same_col_def)
      ultimately obtain r' c' where "col_seek_loop to c1 = Some (r', c')" "same_col c1 c'"
        "popped (dropWhile (\<lambda>x. below to (fst x)) (col_stream c1)) r' c'" using less.hyps p(4) by blast
      moreover have "col_seek_loop to c = col_seek_loop to c1"
        using n(1) p(1,2) True cmp by (subst col_seek_loop.simps) (simp add: row_ok_Valid)
      ultimately show ?thesis using same_col_trans[OF n(2)] dw Cons x True p(3) by auto
    next
      case False
      have "col_seek_loop to c = Some (r, c1)"
        using n(1) p(1) False cmp by (subst col_seek_loop.simps) simp
      then show ?thesis using n(2,5) dw Cons x False by auto
    qed
  qed
qed

lemma col_Next_delivers:
  assumes "col_rel c xs"
  shows "delivers (ri_iter column_iterator) col_rel xs (col_Next c)"
proof -
  have c: "col_ok c" "xs = map (col_row (ci_selectAs c)) (col_stream c)" "\<forall>x \<in> set (col_stream c). from_target (ci_seekTo c) (fst x)"
    using assms by (auto simp: col_rel_def)
  obtain r c1 s where n: "col_next c = Some (r, c1)" "same_col c c1" "thin (ci_seekTo c) (col_stream c) s" "popped s r c1"
    using col_next_ok[OF c(1)] by blast
  have "s = col_stream c" by (rule thin_all[OF c(3) n(3)])
  then show ?thesis using deliver_ok[OF n(4)] n(1,2) c(2,3) by (simp add: col_Next_def same_col_def)
qed

lemma col_Seek_delivers:
  fixes c :: "('v, 'r) ColumnIterator"
  assumes "col_rel c xs" "target_ok to"
  shows "delivers (ri_iter column_iterator) col_rel (dropWhile (\<lambda>r. below to (ir_RowNumber r)) xs) (col_Seek to c)"
proof -
  have c: "col_ok c" "xs = map (col_row (ci_selectAs c)) (col_stream c)" "\<forall>x \<in> set (col_stream c). from_target (ci_seekTo c) (fst x)"
    using assms by (auto simp: col_rel_def)
  have m: "moves c (drift c)" by (rule drift_ok[OF c(1)])
  then have s: "col_stream (drift c) = col_stream c" using thin_all[OF c(3)] by (simp add: moves_def)
  let ?c = "(drift c)\<lparr>ci_seekTo := Some (rd_RowNumber to)\<rparr>"
  have s': "col_stream ?c = col_stream c" using s by (simp add: col_stream_def)
  have ok: "col_ok ?c" using m s s' assms(2) by (simp add: moves_def col_ok_def target_ok_def)
  let ?ys = "dropWhile (\<lambda>x. below to (fst x)) (col_stream c)"
  obtain r c1 where n: "col_seek_loop to ?c = Some (r, c1)" "same_col ?c c1" "popped ?ys r c1"
    using col_seek_loop_ok[OF ok _ assms(2)] s' by auto
  have so: "stream_ok (col_stream c)" using c(1) by (simp add: col_ok_def)
  have "\<forall>x \<in> set ?ys. from_target (ci_seekTo c1) (fst x)"
  proof
    fix x assume "x \<in> set ?ys"
    then have "length (fst x) = 6" "\<not> below to (fst x)"
      using so unfolding stream_dropWhile[OF so assms(2)] by (auto simp: stream_ok_def)
    moreover have "ci_seekTo c1 = Some (rd_RowNumber to)" using n(2) by (simp add: same_col_def)
    ultimately show "from_target (ci_seekTo c1) (fst x)" using below_target[OF assms(2)] by auto
  qed
  moreover have "ci_selectAs c1 = ci_selectAs c" using n(2) m by (simp add: same_col_def moves_def)
  ultimately show ?thesis
    using deliver_ok[OF n(3)] n(1) unfolding c(2) by (simp add: col_Seek_def dropWhile_map o_def)
qed

interpretation col: row_source column_iterator 5 col_rel
proof
  fix c :: "('v, 'r) ColumnIterator" and xs
  assume rel: "col_rel c xs"
  show "delivers (ri_iter column_iterator) col_rel xs (it_Next (ri_iter column_iterator) c)"
    using col_Next_delivers[OF rel] by (simp add: column_iterator_def)
  show "rows_sorted xs" using rel stream_sorted by (auto simp: col_rel_def col_ok_def)
  show "it_Err (ri_iter column_iterator) c = []" using rel by (simp add: col_rel_def col_ok_def column_iterator_def)
  fix to assume "target_ok to"
  then show "delivers (ri_iter column_iterator) col_rel (dropWhile (\<lambda>r. below to (ir_RowNumber r)) xs) (ri_Seek column_iterator to c)"
    using col_Seek_delivers[OF rel] by (simp add: column_iterator_def)
qed

text \<open>The rows of a column: the accepted values of the file with their row numbers.\<close>

definition column_rows :: "'v Predicate option \<Rightarrow> string \<Rightarrow> 'v pqRowGroup list \<Rightarrow> ('v pqValue, 'r) IteratorResult list" where
  "column_rows filt selectAs rgs = map (col_row selectAs) (snd (number_values filt EmptyRowNumber (file_values rgs)))"

lemma NewColumnIterator_rel:
  assumes "file_ok filt rgs"
  shows "col_rel (NewColumnIterator rgs filt selectAs sched :: ('v, 'r) ColumnIterator) (column_rows filt selectAs rgs)"
proof -
  let ?c = "NewColumnIterator rgs filt selectAs sched :: ('v, 'r) ColumnIterator"
  let ?s = "snd (number_values filt EmptyRowNumber (file_values rgs))"
  have e: "length EmptyRowNumber = 6" "EmptyRowNumber ! 0 = -1" by (simp_all add: EmptyRowNumber_def)
  have fs: "starts_row (file_values rgs)" "\<forall>v \<in> set (file_values rgs). level_ok v"
    using assms file_starts by (auto simp: file_ok_def)
  have s: "col_stream ?c = ?s"
    by (simp add: col_stream_def NewColumnIterator_def prod_stream_def prod_values_def prod_pages_def reads_values_def)
  have ok: "prod_ok filt (ci_prod ?c)"
    using assms e by (simp add: NewColumnIterator_def prod_ok_def prod_values_def prod_pages_def reads_values_def file_ok_def)
  have "row_ok (fst x)" if "x \<in> set ?s" for x
  proof -
    have r: "length (fst x) = 6" "fst x ! 0 \<le> -1 + row_count (file_values rgs)"
      using number_values_rows[OF e(1) fs(2), of "fst x" "snd x" filt] that e(2) by auto
    have "0 \<le> fst x ! 0" using number_values_first[OF fs that] by (simp add: EmptyRowNumber_def)
    then show ?thesis using r assms by (simp add: row_ok_def file_ok_def)
  qed
  then have "stream_ok ?s" using number_values_sorted[OF e(1) fs(2)] by (simp add: stream_ok_def)
  moreover have "ci_selectAs ?c = selectAs" "ci_filter ?c = filt" "ci_seekTo ?c = None" "ci_quit ?c = False" "ci_err ?c = []"
    "ci_ch ?c = []" "pr_send (ci_prod ?c) = []" by (simp_all add: NewColumnIterator_def)
  ultimately show ?thesis using ok s by (simp add: col_rel_def col_ok_def column_rows_def from_target_def)
qed

end
