(* ===== verification/Join_Iterator.thy ===== *)
theory Join_Iterator
  imports Row_Numbers
begin

section \<open>Joins and unions of row iterators (pkg/phlaredb/query/iters.go)\<close>

text \<open>
  \<open>JoinIterator\<close> walks several iterators at once and delivers one result for every row, up to a
  definition level, that all of them have; \<open>UnionIterator\<close> delivers one for every row that one of
  them has.  The inputs are states of one type with one record of methods (the dynamic dispatch of
  the interface), the loops are partial functions.

  The specification of a join is \<open>join_rows\<close>: for every key that occurs in all inputs, in ascending
  order, the entries of its rows, input by input.  In the locale \<open>join_source\<close> the join is shown to
  keep the contract \<open>row_source\<close> whenever its inputs do, so joins nest.  A result put back into the
  pool of results has been copied before, so the pool does not appear.
\<close>

subsection \<open>Joins\<close>

record ('i, 'v, 'r) JoinIterator =
  jn_definitionLevel :: nat
  jn_iters :: "'i list"
  jn_peeks :: "('v, 'r) IteratorResult option list"
  jn_pred :: "(('v, 'r) IteratorResult \<Rightarrow> bool) option"
  jn_result :: "('v, 'r) IteratorResult option"

definition NewJoinIterator ::
    "nat \<Rightarrow> 'i list \<Rightarrow> (('v, 'r) IteratorResult \<Rightarrow> bool) option \<Rightarrow> ('i, 'v, 'r) JoinIterator" where
  "NewJoinIterator definitionLevel iters pred =
     \<lparr>jn_definitionLevel = definitionLevel, jn_iters = iters, jn_peeks = replicate (length iters) None,
      jn_pred = pred, jn_result = None\<rparr>"

definition join_peek ::
    "('i, 'v, 'r) RowIterator \<Rightarrow> ('i, 'v, 'r) JoinIterator \<Rightarrow> nat \<Rightarrow> ('i, 'v, 'r) JoinIterator option" where
  "join_peek it j n =
     (if jn_peeks j ! n = None then do {
        (ok, i) \<leftarrow> it_Next (ri_iter it) (jn_iters j ! n);
        let j = j\<lparr>jn_iters := (jn_iters j)[n := i]\<rparr>;
        Some (if ok then j\<lparr>jn_peeks := (jn_peeks j)[n := it_At (ri_iter it) i]\<rparr> else j) }
      else Some j)"

text \<open>
  The scan of \<open>Next\<close> over the inputs: the lowest row, the highest row and the inputs at the lowest
  row, or nothing when an input is exhausted.
\<close>

definition scan_row :: "nat \<Rightarrow> RowNumber \<times> RowNumber \<times> nat list \<Rightarrow> nat \<Rightarrow> RowNumber \<Rightarrow> RowNumber \<times> RowNumber \<times> nat list" where
  "scan_row d acc n rn =
     (case acc of (lowest, highest, lowestIters) \<Rightarrow>
        let c = CompareRowNumbers d rn lowest;
            (lowest, lowestIters) =
              (if c = -1 then (rn, [n])
               else if c = 0 then (lowest, lowestIters @ [n])
               else (lowest, lowestIters));
            highest = (if CompareRowNumbers d rn highest = 1 then rn else highest)
        in (lowest, highest, lowestIters))"

fun join_scan ::
    "('i, 'v, 'r) RowIterator \<Rightarrow> ('i, 'v, 'r) JoinIterator \<Rightarrow> nat list \<Rightarrow> RowNumber \<times> RowNumber \<times> nat list \<Rightarrow>
     (('i, 'v, 'r) JoinIterator \<times> (RowNumber \<times> RowNumber \<times> nat list) option) option" where
  "join_scan it j [] acc = Some (j, Some acc)"
| "join_scan it j (n # ns) acc = do {
     j \<leftarrow> join_peek it j n;
     (case jn_peeks j ! n of
        None \<Rightarrow> Some (j\<lparr>jn_result := None\<rparr>, None)
      | Some res \<Rightarrow> join_scan it j ns (scan_row (jn_definitionLevel j) acc n (ir_RowNumber res))) }"

definition join_seek_one ::
    "('i, 'v, 'r) RowIterator \<Rightarrow> RowNumberWithDefinitionLevel \<Rightarrow> ('i, 'v, 'r) JoinIterator \<Rightarrow> nat \<Rightarrow>
     ('i, 'v, 'r) JoinIterator option" where
  "join_seek_one it to j n =
     (if (case jn_peeks j ! n of
            None \<Rightarrow> True
          | Some p \<Rightarrow> CompareRowNumbers (rd_DefinitionLevel to) (ir_RowNumber p) (rd_RowNumber to) = -1)
      then do {
        (ok, i) \<leftarrow> ri_Seek it to (jn_iters j ! n);
        Some (j\<lparr>jn_iters := (jn_iters j)[n := i],
                jn_peeks := (jn_peeks j)[n := if ok then it_At (ri_iter it) i else None]\<rparr>) }
      else Some j)"

fun join_seek_loop ::
    "('i, 'v, 'r) RowIterator \<Rightarrow> RowNumberWithDefinitionLevel \<Rightarrow> ('i, 'v, 'r) JoinIterator \<Rightarrow> nat list \<Rightarrow>
     ('i, 'v, 'r) JoinIterator option" where
  "join_seek_loop it to j [] = Some j"
| "join_seek_loop it to j (n # ns) = do { j \<leftarrow> join_seek_one it to j n; join_seek_loop it to j ns }"

definition seekAll ::
    "('i, 'v, 'r) RowIterator \<Rightarrow> RowNumberWithDefinitionLevel \<Rightarrow> ('i, 'v, 'r) JoinIterator \<Rightarrow>
     ('i, 'v, 'r) JoinIterator option" where
  "seekAll it to j =
     join_seek_loop it (to\<lparr>rd_RowNumber := TruncateRowNumber to\<rparr>) j [0..<length (jn_iters j)]"

partial_function (option) collect_one ::
    "('i, 'v, 'r) RowIterator \<Rightarrow> RowNumber \<Rightarrow> nat \<Rightarrow> ('i, 'v, 'r) JoinIterator \<Rightarrow> ('v, 'r) IteratorResult \<Rightarrow>
     (('i, 'v, 'r) JoinIterator \<times> ('v, 'r) IteratorResult) option" where
  "collect_one it rowNumber n j result =
     (case jn_peeks j ! n of
        None \<Rightarrow> Some (j, result)
      | Some p \<Rightarrow>
          if CompareRowNumbers (jn_definitionLevel j) (ir_RowNumber p) rowNumber = 0 then do {
            (ok, i) \<leftarrow> it_Next (ri_iter it) (jn_iters j ! n);
            collect_one it rowNumber n
              (j\<lparr>jn_iters := (jn_iters j)[n := i],
                 jn_peeks := (jn_peeks j)[n := if ok then it_At (ri_iter it) i else None]\<rparr>)
              (ir_Append result p) }
          else Some (j, result))"

fun collect_loop ::
    "('i, 'v, 'r) RowIterator \<Rightarrow> RowNumber \<Rightarrow> nat list \<Rightarrow> ('i, 'v, 'r) JoinIterator \<Rightarrow> ('v, 'r) IteratorResult \<Rightarrow>
     (('i, 'v, 'r) JoinIterator \<times> ('v, 'r) IteratorResult) option" where
  "collect_loop it rowNumber [] j result = Some (j, result)"
| "collect_loop it rowNumber (n # ns) j result = do {
     (j, result) \<leftarrow> collect_one it rowNumber n j result;
     collect_loop it rowNumber ns j result }"

definition join_collect ::
    "('i, 'v, 'r) RowIterator \<Rightarrow> RowNumber \<Rightarrow> ('i, 'v, 'r) JoinIterator \<Rightarrow>
     (('i, 'v, 'r) JoinIterator \<times> ('v, 'r) IteratorResult) option" where
  "join_collect it rowNumber j =
     collect_loop it rowNumber [0..<length (jn_iters j)] j \<lparr>ir_RowNumber = rowNumber, ir_Entries = []\<rparr>"

definition keeps :: "(('v, 'r) IteratorResult \<Rightarrow> bool) option \<Rightarrow> ('v, 'r) IteratorResult \<Rightarrow> bool" where
  "keeps pred result = (case pred of None \<Rightarrow> True | Some keepGroup \<Rightarrow> keepGroup result)"

partial_function (option) join_Next ::
    "('i, 'v, 'r) RowIterator \<Rightarrow> ('i, 'v, 'r) JoinIterator \<Rightarrow> (bool \<times> ('i, 'v, 'r) JoinIterator) option" where
  "join_Next it j = do {
     (j, scanned) \<leftarrow> join_scan it j [0..<length (jn_iters j)] (MaxRowNumber, EmptyRowNumber, []);
     (case scanned of
        None \<Rightarrow> Some (False, j)
      | Some (lowestRowNumber, highestRowNumber, lowestIters) \<Rightarrow> do {
          (j, kept) \<leftarrow>
            (if length lowestIters = length (jn_iters j) then do {
               (j, result) \<leftarrow> join_collect it lowestRowNumber j;
               Some (if keeps (jn_pred j) result then (j\<lparr>jn_result := Some result\<rparr>, True) else (j, False)) }
             else Some (j, False));
          if kept then Some (True, j)
          else do {
            j \<leftarrow> seekAll it \<lparr>rd_RowNumber = highestRowNumber, rd_DefinitionLevel = jn_definitionLevel j\<rparr> j;
            join_Next it j } }) }"

definition join_Seek ::
    "('i, 'v, 'r) RowIterator \<Rightarrow> RowNumberWithDefinitionLevel \<Rightarrow> ('i, 'v, 'r) JoinIterator \<Rightarrow>
     (bool \<times> ('i, 'v, 'r) JoinIterator) option" where
  "join_Seek it to j = do { j \<leftarrow> seekAll it to j; join_Next it j }"

definition join_Err :: "('i, 'v, 'r) RowIterator \<Rightarrow> ('i, 'v, 'r) JoinIterator \<Rightarrow> errs" where
  "join_Err it j = (case find (\<lambda>e. e \<noteq> []) (map (it_Err (ri_iter it)) (jn_iters j)) of Some e \<Rightarrow> e | None \<Rightarrow> [])"

definition join_Close :: "('i, 'v, 'r) RowIterator \<Rightarrow> ('i, 'v, 'r) JoinIterator \<Rightarrow> errs \<times> ('i, 'v, 'r) JoinIterator" where
  "join_Close it j =
     (let rs = map (it_Close (ri_iter it)) (jn_iters j) in (concat (map fst rs), j\<lparr>jn_iters := map snd rs\<rparr>))"

definition join_iterator :: "('i, 'v, 'r) RowIterator \<Rightarrow> (('i, 'v, 'r) JoinIterator, 'v, 'r) RowIterator" where
  "join_iterator it =
     \<lparr>ri_iter = \<lparr>it_Next = join_Next it, it_At = jn_result, it_Err = join_Err it, it_Close = join_Close it\<rparr>,
      ri_Seek = join_Seek it\<rparr>"

subsection \<open>Unions\<close>

text \<open>
  The union uses the fields of the join.  Its scan passes over exhausted inputs, and its
  \<open>collect\<close> keeps the last row of an input that ends (there is no else branch).
\<close>

fun union_scan ::
    "('i, 'v, 'r) RowIterator \<Rightarrow> ('i, 'v, 'r) JoinIterator \<Rightarrow> nat list \<Rightarrow> RowNumber \<times> RowNumber \<times> nat list \<Rightarrow>
     (('i, 'v, 'r) JoinIterator \<times> (RowNumber \<times> RowNumber \<times> nat list)) option" where
  "union_scan it u [] acc = Some (u, acc)"
| "union_scan it u (n # ns) acc = do {
     u \<leftarrow> join_peek it u n;
     (case jn_peeks u ! n of
        None \<Rightarrow> union_scan it u ns acc
      | Some rn \<Rightarrow> union_scan it u ns (scan_row (jn_definitionLevel u) acc n (ir_RowNumber rn))) }"

partial_function (option) union_collect_one ::
    "('i, 'v, 'r) RowIterator \<Rightarrow> RowNumber \<Rightarrow> nat \<Rightarrow> ('i, 'v, 'r) JoinIterator \<Rightarrow> ('v, 'r) IteratorResult \<Rightarrow>
     (('i, 'v, 'r) JoinIterator \<times> ('v, 'r) IteratorResult) option" where
  "union_collect_one it rowNumber n u result =
     (case jn_peeks u ! n of
        None \<Rightarrow> Some (u, result)
      | Some p \<Rightarrow>
          if CompareRowNumbers (jn_definitionLevel u) (ir_RowNumber p) rowNumber = 0 then do {
            (ok, i) \<leftarrow> it_Next (ri_iter it) (jn_iters u ! n);
            let u = u\<lparr>jn_iters := (jn_iters u)[n := i], jn_peeks := (jn_peeks u)[n := Some (ir_Reset p)]\<rparr>;
            union_collect_one it rowNumber n
              (if ok then u\<lparr>jn_peeks := (jn_peeks u)[n := it_At (ri_iter it) i]\<rparr> else u)
              (ir_Append result p) }
          else Some (u, result))"

fun union_collect_loop ::
    "('i, 'v, 'r) RowIterator \<Rightarrow> RowNumber \<Rightarrow> nat list \<Rightarrow> ('i, 'v, 'r) JoinIterator \<Rightarrow> ('v, 'r) IteratorResult \<Rightarrow>
     (('i, 'v, 'r) JoinIterator \<times> ('v, 'r) IteratorResult) option" where
  "union_collect_loop it rowNumber [] u result = Some (u, result)"
| "union_collect_loop it rowNumber (n # ns) u result = do {
     (u, result) \<leftarrow> union_collect_one it rowNumber n u result;
     union_collect_loop it rowNumber ns u result }"

partial_function (option) union_Next ::
    "('i, 'v, 'r) RowIterator \<Rightarrow> ('i, 'v, 'r) JoinIterator \<Rightarrow> (bool \<times> ('i, 'v, 'r) JoinIterator) option" where
  "union_Next it u = do {
     (u, lowestRowNumber, highest, lowestIters) \<leftarrow>
       union_scan it u [0..<length (jn_iters u)] (MaxRowNumber, EmptyRowNumber, []);
     (u, result) \<leftarrow>
       union_collect_loop it lowestRowNumber lowestIters u \<lparr>ir_RowNumber = lowestRowNumber, ir_Entries = []\<rparr>;
     if lowestIters \<noteq> [] then
       if \<not> keeps (jn_pred u) result then union_Next it u
       else Some (True, u\<lparr>jn_result := Some result\<rparr>)
     else Some (False, u\<lparr>jn_result := None\<rparr>) }"

definition union_Seek ::
    "('i, 'v, 'r) RowIterator \<Rightarrow> RowNumberWithDefinitionLevel \<Rightarrow> ('i, 'v, 'r) JoinIterator \<Rightarrow>
     (bool \<times> ('i, 'v, 'r) JoinIterator) option" where
  "union_Seek it to u = do { u \<leftarrow> seekAll it to u; union_Next it u }"

subsection \<open>The scan\<close>

abbreviation rkey :: "nat \<Rightarrow> ('v, 'r) IteratorResult \<Rightarrow> int list" where
  "rkey d r \<equiv> row_key d (ir_RowNumber r)"

definition scan_rows :: "nat \<Rightarrow> (nat \<times> RowNumber) list \<Rightarrow> RowNumber \<times> RowNumber \<times> nat list \<Rightarrow> RowNumber \<times> RowNumber \<times> nat list" where
  "scan_rows d ps acc = fold (\<lambda>(n, rn) acc. scan_row d acc n rn) ps acc"

text \<open>The state of the scan after the inputs \<open>ps\<close>.\<close>

definition scanned :: "nat \<Rightarrow> (nat \<times> RowNumber) list \<Rightarrow> RowNumber \<times> RowNumber \<times> nat list \<Rightarrow> bool" where
  "scanned d ps acc =
     (case acc of (low, high, lows) \<Rightarrow>
        low \<in> snd ` set ps \<and> high \<in> snd ` set ps \<and>
        (\<forall>p \<in> set ps. row_key d low \<le> row_key d (snd p) \<and> row_key d (snd p) \<le> row_key d high) \<and>
        length lows = length (filter (\<lambda>p. row_key d (snd p) = row_key d low) ps) \<and>
        ((\<forall>p \<in> set ps. row_key d (snd p) = row_key d low) \<longrightarrow> low = snd (hd ps)))"

lemma scanned_first:
  assumes "row_ok rn"
  shows "scanned d [(n, rn)] (scan_row d (MaxRowNumber, EmptyRowNumber, []) n rn)"
  using assms by (simp add: scanned_def scan_row_def compare_Max compare_Empty)

lemma scanned_next:
  assumes "scanned d ps acc" "ps \<noteq> []" "\<forall>p \<in> set ps. row_ok (snd p)" "row_ok rn" "d < 6"
  shows "scanned d (ps @ [(n, rn)]) (scan_row d acc n rn)"
proof -
  obtain low high lows where acc: "acc = (low, high, lows)" by (cases acc)
  have mem: "low \<in> snd ` set ps" "high \<in> snd ` set ps"
    and bounds: "\<And>p. p \<in> set ps \<Longrightarrow> row_key d low \<le> row_key d (snd p) \<and> row_key d (snd p) \<le> row_key d high"
    and cnt: "length lows = length (filter (\<lambda>p. row_key d (snd p) = row_key d low) ps)"
    and first: "(\<forall>p \<in> set ps. row_key d (snd p) = row_key d low) \<longrightarrow> low = snd (hd ps)"
    using assms(1) by (auto simp: scanned_def acc)
  have len: "length low = 6" "length high = 6" "length rn = 6" using mem assms(3,4) by auto
  note cmp = CompareRowNumbers_keys[OF len(3) len(1) assms(5)] CompareRowNumbers_keys[OF len(3) len(2) assms(5)]
  define hi where "hi = (if CompareRowNumbers d rn high = 1 then rn else high)"
  have high': "row_key d (snd p) \<le> row_key d hi" if "p \<in> set (ps @ [(n, rn)])" for p
    using that bounds[of p] cmp(6) by (cases "row_key d high < row_key d rn") (auto simp: hi_def)
  have hmem: "hi \<in> snd ` set (ps @ [(n, rn)])" using mem by (force simp: hi_def)
  have hd: "hd (ps @ [(n, rn)]) = hd ps" using assms(2) by simp
  consider (lt) "row_key d rn < row_key d low" | (eq) "row_key d rn = row_key d low" | (gt) "row_key d rn > row_key d low"
    by fastforce
  then show ?thesis
  proof cases
    case lt
    have none: "filter (\<lambda>p. row_key d (snd p) = row_key d rn) ps = []"
      using lt bounds by (force simp: filter_empty_conv)
    have nall: "\<not> (\<forall>p \<in> set (ps @ [(n, rn)]). row_key d (snd p) = row_key d rn)"
    proof
      assume a: "\<forall>p \<in> set (ps @ [(n, rn)]). row_key d (snd p) = row_key d rn"
      obtain q where "q \<in> set ps" "low = snd q" using mem(1) by auto
      then show False using a lt by simp
    qed
    have "row_key d rn \<le> row_key d (snd p)" if "p \<in> set (ps @ [(n, rn)])" for p
      using that lt bounds by fastforce
    moreover have "scan_row d acc n rn = (rn, hi, [n])" using lt cmp(1) by (simp add: scan_row_def acc hi_def)
    ultimately show ?thesis using high' high'[of "(n, rn)"] hmem none nall by (simp add: scanned_def) blast
  next
    case eq
    then have c: "CompareRowNumbers d rn low = 0" using cmp(2) by simp
    have "row_key d low \<le> row_key d (snd p)" if "p \<in> set (ps @ [(n, rn)])" for p
      using that eq bounds by fastforce
    moreover have "scan_row d acc n rn = (low, hi, lows @ [n])" using c by (simp add: scan_row_def acc hi_def)
    ultimately show ?thesis using high' high'[of "(n, rn)"] hmem mem cnt first hd eq by (simp add: scanned_def)
  next
    case gt
    then have c: "CompareRowNumbers d rn low \<noteq> 0" "CompareRowNumbers d rn low \<noteq> -1"
      using cmp(1,2) by auto
    have "row_key d low \<le> row_key d (snd p)" if "p \<in> set (ps @ [(n, rn)])" for p
      using that gt bounds by fastforce
    moreover have "scan_row d acc n rn = (low, hi, lows)" using c by (simp add: scan_row_def acc hi_def)
    ultimately show ?thesis using high' high'[of "(n, rn)"] hmem mem cnt gt by (simp add: scanned_def) force
  qed
qed

lemma scan_rows_scanned:
  assumes "\<forall>p \<in> set ps. row_ok (snd p)" "ps \<noteq> []" "d < 6"
  shows "scanned d ps (scan_rows d ps (MaxRowNumber, EmptyRowNumber, []))"
  using assms(1,2)
proof (induction ps rule: rev_induct)
  case Nil
  then show ?case by simp
next
  case (snoc p ps)
  obtain n rn where p: "p = (n, rn)" by (cases p)
  show ?case
  proof (cases "ps = []")
    case True
    then show ?thesis using snoc.prems scanned_first[of rn d n] by (simp add: scan_rows_def p)
  next
    case False
    then show ?thesis using snoc scanned_next[OF snoc.IH, of rn n] assms(3) by (simp add: scan_rows_def p)
  qed
qed

lemma scanned_all:
  assumes "scanned d ps (low, high, lows)"
  shows "length lows = length ps \<longleftrightarrow> (\<forall>p \<in> set ps. row_key d (snd p) = row_key d low)"
proof -
  have "length lows = length (filter (\<lambda>p. row_key d (snd p) = row_key d low) ps)"
    using assms by (simp add: scanned_def)
  then show ?thesis using filter_id_conv[of "\<lambda>p. row_key d (snd p) = row_key d low" ps]
    length_filter_less[of _ ps "\<lambda>p. row_key d (snd p) = row_key d low"] by (metis less_irrefl)
qed

subsection \<open>The specification\<close>

definition join_group :: "nat \<Rightarrow> ('v, 'r) IteratorResult list list \<Rightarrow> int list \<Rightarrow> ('v, 'r) IteratorResult" where
  "join_group d xss k =
     \<lparr>ir_RowNumber = ir_RowNumber (hd (filter (\<lambda>r. rkey d r = k) (hd xss))),
      ir_Entries = concat (map (\<lambda>xs. concat (map ir_Entries (filter (\<lambda>r. rkey d r = k) xs))) xss)\<rparr>"

definition join_keys :: "nat \<Rightarrow> ('v, 'r) IteratorResult list list \<Rightarrow> int list set" where
  "join_keys d xss = (\<Inter>xs \<in> set xss. rkey d ` set xs)"

definition join_rows :: "nat \<Rightarrow> ('v, 'r) IteratorResult list list \<Rightarrow> ('v, 'r) IteratorResult list" where
  "join_rows d xss = map (join_group d xss) (sorted_list_of_set (join_keys d xss))"

lemma join_keys_finite [simp]: "xss \<noteq> [] \<Longrightarrow> finite (join_keys d xss)"
  unfolding join_keys_def by (rule finite_INT) (auto intro: exI[of _ "hd xss"])

lemma join_rows_exhausted: "[] \<in> set xss \<Longrightarrow> join_rows d xss = []"
proof -
  assume "[] \<in> set xss"
  then have "join_keys d xss = {}" by (auto simp: join_keys_def)
  then show ?thesis by (simp add: join_rows_def)
qed

text \<open>Dropping rows whose keys are not joined, or not asked for, changes no group of the others.\<close>

lemma join_group_dropWhile:
  assumes "\<And>xs r. xs \<in> set xss \<Longrightarrow> r \<in> set xs \<Longrightarrow> P r \<Longrightarrow> rkey d r \<noteq> k" "xss \<noteq> []"
  shows "join_group d (map (dropWhile P) xss) k = join_group d xss k"
proof -
  have "filter (\<lambda>r. rkey d r = k) (dropWhile P xs) = filter (\<lambda>r. rkey d r = k) xs" if "xs \<in> set xss" for xs
    by (rule filter_dropWhile) (use assms(1) that in auto)
  then show ?thesis using assms(2) by (simp add: join_group_def hd_map o_def cong: map_cong)
qed

lemma join_rows_dropWhile:
  assumes ne: "xss \<noteq> []" and keys: "join_keys d (map (dropWhile P) xss) = {k \<in> join_keys d xss. Q k}"
    and P: "\<And>xs r k. xs \<in> set xss \<Longrightarrow> r \<in> set xs \<Longrightarrow> P r \<Longrightarrow> Q k \<Longrightarrow> rkey d r \<noteq> k"
  shows "join_rows d (map (dropWhile P) xss) = map (join_group d xss) (filter Q (sorted_list_of_set (join_keys d xss)))"
proof -
  have "sorted_list_of_set {k \<in> join_keys d xss. Q k} = filter Q (sorted_list_of_set (join_keys d xss))"
    by (rule sorted_distinct_set_unique) (use ne in \<open>auto simp: sorted_wrt_filter\<close>)
  moreover have "join_group d (map (dropWhile P) xss) k = join_group d xss k"
    if "k \<in> set (filter Q (sorted_list_of_set (join_keys d xss)))" for k
    by (rule join_group_dropWhile[OF _ ne]) (use that P in auto)
  ultimately show ?thesis unfolding join_rows_def keys by (simp cong: map_cong)
qed

lemma dropWhile_keys:
  assumes "sorted (map (rkey d) xs)" "\<And>r. r \<in> set xs \<Longrightarrow> P r \<longleftrightarrow> \<not> Q (rkey d r)"
    and mono: "\<And>a b. Q a \<Longrightarrow> a \<le> b \<Longrightarrow> Q b"
  shows "rkey d ` set (dropWhile P xs) = {k \<in> rkey d ` set xs. Q k}"
  using assms(1,2)
proof (induction xs)
  case Nil
  then show ?case by simp
next
  case (Cons x xs)
  show ?case
  proof (cases "P x")
    case True
    then show ?thesis using Cons by force
  next
    case False
    then have "Q (rkey d x)" using Cons.prems(2) by simp
    then have "Q (rkey d r)" if "r \<in> set (x # xs)" for r using mono Cons.prems(1) that by auto
    then show ?thesis using False by auto
  qed
qed

lemma join_keys_dropWhile:
  assumes "xss \<noteq> []" "\<forall>xs \<in> set xss. sorted (map (rkey d) xs)"
    and "\<And>xs r. xs \<in> set xss \<Longrightarrow> r \<in> set xs \<Longrightarrow> P r \<longleftrightarrow> \<not> Q (rkey d r)"
    and "\<And>a b. Q a \<Longrightarrow> a \<le> b \<Longrightarrow> Q b"
  shows "join_keys d (map (dropWhile P) xss) = {k \<in> join_keys d xss. Q k}"
proof -
  have "rkey d ` set (dropWhile P xs) = {k \<in> rkey d ` set xs. Q k}" if "xs \<in> set xss" for xs
    by (rule dropWhile_keys) (use assms that in auto)
  then show ?thesis using assms(1) unfolding join_keys_def by (auto; metis (mono_tags, lifting) list.set_sel(1) mem_Collect_eq)
qed

lemma join_rows_first:
  assumes "xss \<noteq> []" "[] \<notin> set xss" "\<forall>xs \<in> set xss. sorted (map (rkey d) xs)" "\<forall>xs \<in> set xss. rkey d (hd xs) = k"
  shows "join_rows d xss = join_group d xss k # join_rows d (map (dropWhile (\<lambda>r. rkey d r = k)) xss)"
proof -
  have mem: "k \<in> rkey d ` set xs" if "xs \<in> set xss" for xs
    using that assms(2,4) by (metis hd_in_set imageI)
  have least: "k \<le> rkey d r" if "xs \<in> set xss" "r \<in> set xs" for xs r
  proof -
    have "sorted (map (rkey d) xs)" "rkey d (hd xs) = k" using assms(3,4) that(1) by auto
    then show ?thesis using that(2) by (cases xs) auto
  qed
  have keys: "join_keys d (map (dropWhile (\<lambda>r. rkey d r = k)) xss) = {k' \<in> join_keys d xss. k < k'}"
    by (rule join_keys_dropWhile) (use assms least in \<open>force+\<close>)
  have ins: "join_keys d xss = insert k {k' \<in> join_keys d xss. k < k'}"
  proof -
    have "k \<in> join_keys d xss" using mem by (auto simp: join_keys_def)
    moreover have "k \<le> k'" if "k' \<in> join_keys d xss" for k'
      using that least[of "hd xss"] assms(1) by (force simp: join_keys_def dest: bspec[of _ _ "hd xss"])
    ultimately show ?thesis by (auto simp: order.order_iff_strict)
  qed
  have srt: "sorted_list_of_set (join_keys d xss) = k # filter (\<lambda>k'. k < k') (sorted_list_of_set (join_keys d xss))"
    by (rule sorted_distinct_set_unique)
       (use assms(1) ins in \<open>auto simp: sorted_wrt_filter intro: less_imp_le\<close>)
  have "join_rows d (map (dropWhile (\<lambda>r. rkey d r = k)) xss) =
      map (join_group d xss) (filter (\<lambda>k'. k < k') (sorted_list_of_set (join_keys d xss)))"
    by (rule join_rows_dropWhile[OF assms(1) keys]) auto
  then show ?thesis by (subst join_rows_def, subst srt) simp
qed

lemma join_rows_skip:
  assumes "xss \<noteq> []" "\<forall>xs \<in> set xss. sorted (map (rkey d) xs)" "ys \<in> set xss" "\<forall>r \<in> set ys. k \<le> rkey d r"
    and P: "\<And>xs r. xs \<in> set xss \<Longrightarrow> r \<in> set xs \<Longrightarrow> P r \<longleftrightarrow> rkey d r < k"
  shows "join_rows d (map (dropWhile P) xss) = join_rows d xss"
proof -
  have keys: "join_keys d (map (dropWhile P) xss) = {k' \<in> join_keys d xss. k \<le> k'}"
  proof (rule join_keys_dropWhile[OF assms(1,2)])
    show "P r \<longleftrightarrow> \<not> k \<le> rkey d r" if "xs \<in> set xss" "r \<in> set xs" for xs r
      using P[OF that] by (simp add: not_le)
  qed auto
  have all: "k \<le> k'" if "k' \<in> join_keys d xss" for k'
    using that assms(3,4) by (auto simp: join_keys_def)
  have "filter (\<lambda>k'. k \<le> k') (sorted_list_of_set (join_keys d xss)) = sorted_list_of_set (join_keys d xss)"
    using all assms(1) by (simp add: filter_id_conv)
  moreover have "join_rows d (map (dropWhile P) xss) =
      map (join_group d xss) (filter (\<lambda>k'. k \<le> k') (sorted_list_of_set (join_keys d xss)))"
    by (rule join_rows_dropWhile[OF assms(1) keys]) (use P in force)
  ultimately show ?thesis by (simp add: join_rows_def)
qed

lemma filter_takeWhile_eq: "\<forall>r \<in> set (dropWhile P xs). \<not> P r \<Longrightarrow> filter P xs = takeWhile P xs"
proof (induction xs)
  case (Cons x xs)
  show ?case
  proof (cases "P x")
    case True
    then have "dropWhile P (x # xs) = dropWhile P xs" by simp
    then have "filter P xs = takeWhile P xs" using Cons.IH Cons.prems by metis
    then show ?thesis using True by simp
  next
    case False
    then have "dropWhile P (x # xs) = x # xs" by simp
    then have "filter P xs = []" using Cons.prems by (metis filter_False list.set_intros(2))
    then show ?thesis using False by simp
  qed
qed simp

lemma join_group_first:
  assumes "xss \<noteq> []" "[] \<notin> set xss" "\<forall>xs \<in> set xss. sorted (map (rkey d) xs)" "\<forall>xs \<in> set xss. rkey d (hd xs) = k"
  shows "join_group d xss k =
    \<lparr>ir_RowNumber = ir_RowNumber (hd (hd xss)),
     ir_Entries = concat (map (\<lambda>xs. concat (map ir_Entries (takeWhile (\<lambda>r. rkey d r = k) xs))) xss)\<rparr>"
proof -
  have "filter (\<lambda>r. rkey d r = k) xs = takeWhile (\<lambda>r. rkey d r = k) xs" if "xs \<in> set xss" for xs
  proof -
    have srt: "sorted (map (rkey d) xs)" "rkey d (hd xs) = k" using assms(3,4) that by auto
    have least: "rkey d r = k \<longleftrightarrow> \<not> k < rkey d r" if "r \<in> set xs" for r
      using srt that by (cases xs) auto
    have "rkey d ` set (dropWhile (\<lambda>r. rkey d r = k) xs) = {k' \<in> rkey d ` set xs. k < k'}"
      by (rule dropWhile_keys[OF srt(1)]) (use least in auto)
    then have "\<forall>r \<in> set (dropWhile (\<lambda>r. rkey d r = k) xs). rkey d r \<noteq> k" by blast
    then show ?thesis by (rule filter_takeWhile_eq)
  qed
  moreover have "hd (filter (\<lambda>r. rkey d r = k) (hd xss)) = hd (hd xss)"
    using assms(1,2,4) by (cases xss; cases "hd xss") auto
  ultimately show ?thesis by (simp add: join_group_def cong: map_cong)
qed

subsection \<open>A pass of the join\<close>

definition held :: "('i \<Rightarrow> ('v, 'r) IteratorResult list \<Rightarrow> bool) \<Rightarrow> ('v, 'r) IteratorResult option \<Rightarrow> 'i \<Rightarrow>
    ('v, 'r) IteratorResult list \<Rightarrow> bool" where
  "held R p i xs = (rows_sorted xs \<and> (case p of None \<Rightarrow> R i xs | Some x \<Rightarrow> \<exists>ys. xs = x # ys \<and> R i ys))"

text \<open>The state \<open>j\<close> has the rows \<open>xss\<close> before it: the peeked ones and those of the inputs.\<close>

definition joining :: "('i \<Rightarrow> ('v, 'r) IteratorResult list \<Rightarrow> bool) \<Rightarrow> ('i, 'v, 'r) JoinIterator \<Rightarrow>
    ('v, 'r) IteratorResult list list \<Rightarrow> bool" where
  "joining R j xss =
     (length xss = length (jn_iters j) \<and> length (jn_peeks j) = length (jn_iters j) \<and>
      (\<forall>n < length xss. held R (jn_peeks j ! n) (jn_iters j ! n) (xss ! n)))"

definition primed :: "('i, 'v, 'r) JoinIterator \<Rightarrow> ('v, 'r) IteratorResult list list \<Rightarrow> nat \<Rightarrow> bool" where
  "primed j xss n = (jn_peeks j ! n = None \<longrightarrow> xss ! n = [])"

definition same_join :: "('i, 'v, 'r) JoinIterator \<Rightarrow> ('i, 'v, 'r) JoinIterator \<Rightarrow> bool" where
  "same_join j j' = (jn_definitionLevel j' = jn_definitionLevel j \<and> jn_pred j' = jn_pred j \<and>
     length (jn_iters j') = length (jn_iters j))"

lemma same_join_refl [simp]: "same_join j j"
  and same_join_trans: "same_join j k \<Longrightarrow> same_join k l \<Longrightarrow> same_join j l"
  by (auto simp: same_join_def)

lemma joining_update:
  assumes "joining R j xss" "n < length xss" "held R p i xs"
  shows "joining R (j\<lparr>jn_iters := (jn_iters j)[n := i], jn_peeks := (jn_peeks j)[n := p]\<rparr>) (xss[n := xs])"
  using assms by (auto simp: joining_def nth_list_update)

lemma same_join_update [simp]:
  "same_join j (j\<lparr>jn_iters := (jn_iters j)[n := i]\<rparr>)"
  "same_join j (j\<lparr>jn_iters := (jn_iters j)[n := i], jn_peeks := ps\<rparr>)"
  by (simp_all add: same_join_def)

lemma held_sorted: "joining R j xss \<Longrightarrow> xs \<in> set xss \<Longrightarrow> rows_sorted xs"
  by (auto simp: joining_def held_def in_set_conv_nth)

text \<open>Visiting every input once.\<close>

lemma fold_apply_nth:
  "distinct ns \<Longrightarrow> k < length xs \<Longrightarrow>
   fold (\<lambda>n xs. xs[n := f (xs ! n)]) ns xs ! k = (if k \<in> set ns then f (xs ! k) else xs ! k)"
proof (induction ns arbitrary: xs)
  case (Cons n ns)
  then show ?case using Cons.IH[of "xs[n := f (xs ! n)]"] by (cases "k = n") auto
qed simp

lemma fold_apply_length [simp]: "length (fold (\<lambda>n xs. xs[n := f (xs ! n)]) ns xs) = length xs"
  by (induction ns arbitrary: xs) auto

lemma fold_apply_map: "fold (\<lambda>n xs. xs[n := f (xs ! n)]) [0..<length xs] xs = map f xs"
  by (rule nth_equalityI) (simp_all add: fold_apply_nth)

context row_source
begin

lemma peek_ok:
  assumes "joining R j xss" "n < length xss"
  obtains j' where "join_peek it j n = Some j'" "joining R j' xss" "same_join j j'"
    "jn_peeks j' ! n = (case xss ! n of [] \<Rightarrow> None | x # _ \<Rightarrow> Some x)"
    "\<And>m. m \<noteq> n \<Longrightarrow> jn_peeks j' ! m = jn_peeks j ! m"
proof (cases "jn_peeks j ! n")
  case (Some x)
  then have "held R (Some x) (jn_iters j ! n) (xss ! n)" using assms by (metis joining_def)
  then have "jn_peeks j ! n = (case xss ! n of [] \<Rightarrow> None | x # _ \<Rightarrow> Some x)" using Some by (auto simp: held_def)
  moreover have "join_peek it j n = Some j" using Some by (simp add: join_peek_def)
  ultimately show ?thesis using that[of j] assms(1) by simp
next
  case None
  have len: "n < length (jn_peeks j)" "n < length (jn_iters j)" using assms by (auto simp: joining_def)
  have R: "R (jn_iters j ! n) (xss ! n)" and srt: "rows_sorted (xss ! n)"
    using assms None by (auto simp: joining_def held_def dest!: spec[of _ n])
  show ?thesis
  proof (cases "xss ! n")
    case Nil
    then obtain i where i: "it_Next (ri_iter it) (jn_iters j ! n) = Some (False, i)" "R i []"
      using next_delivers[OF R] by auto
    let ?j = "j\<lparr>jn_iters := (jn_iters j)[n := i]\<rparr>"
    have eq: "?j = j\<lparr>jn_iters := (jn_iters j)[n := i], jn_peeks := (jn_peeks j)[n := None]\<rparr>"
      using None by (metis list_update_id JoinIterator.surjective JoinIterator.update_convs(2,3))
    have "held R None i []" using i by (simp add: held_def)
    then have "joining R ?j xss" using joining_update[OF assms, of None i "[]"] Nil eq by (metis list_update_id)
    then show ?thesis using that[of ?j] None i Nil by (simp add: join_peek_def)
  next
    case (Cons x xs)
    then obtain i where i: "it_Next (ri_iter it) (jn_iters j ! n) = Some (True, i)" "it_At (ri_iter it) i = Some x" "R i xs"
      using next_delivers[OF R] by auto
    let ?j = "j\<lparr>jn_iters := (jn_iters j)[n := i], jn_peeks := (jn_peeks j)[n := Some x]\<rparr>"
    have "joining R ?j (xss[n := x # xs])"
      by (rule joining_update[OF assms]) (use i Cons srt in \<open>simp add: held_def\<close>)
    then have "joining R ?j xss" using Cons by (metis list_update_id)
    then show ?thesis using that[of ?j] None i Cons len by (simp add: join_peek_def)
  qed
qed

lemma scan_ok:
  assumes "joining R j xss" "set ns \<subseteq> {..<length xss}"
  shows "\<exists>j'. joining R j' xss \<and> same_join j j' \<and> (\<forall>m. primed j xss m \<longrightarrow> primed j' xss m) \<and>
    (if \<exists>n \<in> set ns. xss ! n = [] then join_scan it j ns acc = Some (j', None)
     else join_scan it j ns acc =
            Some (j', Some (scan_rows (jn_definitionLevel j) (map (\<lambda>n. (n, ir_RowNumber (hd (xss ! n)))) ns) acc)) \<and>
          (\<forall>n \<in> set ns. primed j' xss n))"
  using assms
proof (induction ns arbitrary: j acc)
  case Nil
  then show ?case by (auto simp: scan_rows_def)
next
  case (Cons n ns)
  obtain j1 where j1: "join_peek it j n = Some j1" "joining R j1 xss" "same_join j j1"
    "jn_peeks j1 ! n = (case xss ! n of [] \<Rightarrow> None | x # _ \<Rightarrow> Some x)"
    "\<And>m. m \<noteq> n \<Longrightarrow> jn_peeks j1 ! m = jn_peeks j ! m"
    using peek_ok[OF Cons.prems(1), of n] Cons.prems(2) by auto
  have pn: "primed j1 xss n" using j1(4) by (cases "xss ! n") (simp_all add: primed_def)
  have pr: "primed j1 xss m" if "primed j xss m" for m
    using that pn j1(5)[of m] by (cases "m = n") (auto simp: primed_def)
  show ?case
  proof (cases "xss ! n")
    case Nil
    let ?j = "j1\<lparr>jn_result := None\<rparr>"
    have "joining R ?j xss" "same_join j ?j" "\<forall>m. primed j xss m \<longrightarrow> primed ?j xss m"
      using j1 pr by (auto simp: joining_def same_join_def primed_def)
    then show ?thesis using j1 Nil by (intro exI[of _ ?j]) simp
  next
    case (Cons x xs)
    let ?acc = "scan_row (jn_definitionLevel j) acc n (ir_RowNumber x)"
    from Cons.IH[OF j1(2), of ?acc] Cons.prems(2) obtain j2 where j2: "joining R j2 xss" "same_join j1 j2"
      "\<And>m. primed j1 xss m \<Longrightarrow> primed j2 xss m"
      "if \<exists>n \<in> set ns. xss ! n = [] then join_scan it j1 ns ?acc = Some (j2, None)
       else join_scan it j1 ns ?acc =
            Some (j2, Some (scan_rows (jn_definitionLevel j1) (map (\<lambda>n. (n, ir_RowNumber (hd (xss ! n)))) ns) ?acc)) \<and>
          (\<forall>n \<in> set ns. primed j2 xss n)"
      by auto
    then show ?thesis using j1 pn pr \<open>xss ! n = x # xs\<close> same_join_trans[OF j1(3) j2(2)]
      by (intro exI[of _ j2]) (auto simp: same_join_def scan_rows_def)
  qed
qed

lemma moved:
  assumes "delivers (ri_iter it) R ys res" "rows_sorted ys"
  obtains ok i p where "res = Some (ok, i)" "(if ok then it_At (ri_iter it) i else None) = p" "held R p i ys"
    "p = None \<longrightarrow> ys = []"
proof (cases ys)
  case Nil
  then obtain i where "res = Some (False, i)" "R i []" using assms(1) by auto
  then show ?thesis using that[of False i None] Nil by (simp add: held_def)
next
  case (Cons y zs)
  then obtain i where "res = Some (True, i)" "it_At (ri_iter it) i = Some y" "R i zs" using assms(1) by auto
  then show ?thesis using that[of True i "Some y"] Cons assms(2) by (simp add: held_def)
qed

lemma collect_one_ok:
  assumes "joining R j xss" "n < length xss" "primed j xss n" "length rn = 6" "jn_definitionLevel j = d" "d < 6"
  shows "\<exists>j'. collect_one it rn n j res =
      Some (j', res\<lparr>ir_Entries := ir_Entries res @
        concat (map ir_Entries (takeWhile (\<lambda>r. rkey d r = row_key d rn) (xss ! n)))\<rparr>) \<and>
    joining R j' (xss[n := dropWhile (\<lambda>r. rkey d r = row_key d rn) (xss ! n)]) \<and> same_join j j' \<and>
    primed j' (xss[n := dropWhile (\<lambda>r. rkey d r = row_key d rn) (xss ! n)]) n \<and>
    (\<forall>m. m \<noteq> n \<longrightarrow> jn_peeks j' ! m = jn_peeks j ! m)"
  using assms
proof (induction "xss ! n" arbitrary: j xss res)
  case Nil
  then have "held R (jn_peeks j ! n) (jn_iters j ! n) []" by (metis joining_def)
  then have "jn_peeks j ! n = None" by (cases "jn_peeks j ! n") (auto simp: held_def)
  moreover have "xss[n := []] = xss" using Nil.hyps by (metis list_update_id)
  ultimately show ?case using Nil by (intro exI[of _ j]) (simp add: collect_one.simps[of it rn n j] primed_def)
next
  case (Cons x xs)
  have hld: "held R (jn_peeks j ! n) (jn_iters j ! n) (x # xs)" using Cons.prems(1,2) Cons.hyps(2) by (metis joining_def)
  have pk: "jn_peeks j ! n = Some x" and R: "R (jn_iters j ! n) xs" and srt: "rows_sorted (x # xs)"
    using hld Cons.prems(3) Cons.hyps(2) by (auto simp: held_def primed_def split: option.splits)
  have len: "n < length (jn_peeks j)" using Cons.prems(1,2) by (auto simp: joining_def)
  have x6: "length (ir_RowNumber x) = 6" using srt by (simp add: rows_sorted_def)
  note cmp = CompareRowNumbers_keys(2)[OF x6 Cons.prems(4) Cons.prems(6)]
  show ?case
  proof (cases "rkey d x = row_key d rn")
    case False
    have "xss[n := x # xs] = xss" using Cons.hyps(2) by (metis list_update_id)
    then show ?thesis using False cmp pk Cons.hyps(2)[symmetric] Cons.prems
      by (intro exI[of _ j]) (simp add: collect_one.simps[of it rn n j] primed_def)
  next
    case True
    obtain ok i p where i: "it_Next (ri_iter it) (jn_iters j ! n) = Some (ok, i)"
      "(if ok then it_At (ri_iter it) i else None) = p" "held R p i xs" "p = None \<longrightarrow> xs = []"
      by (rule moved[OF next_delivers[OF R] rows_sorted_tl[OF srt]])
    let ?j = "j\<lparr>jn_iters := (jn_iters j)[n := i], jn_peeks := (jn_peeks j)[n := p]\<rparr>"
    let ?P = "\<lambda>r. rkey d r = row_key d rn"
    have j: "joining R ?j (xss[n := xs])" by (rule joining_update[OF Cons.prems(1,2) i(3)])
    have pr: "primed ?j (xss[n := xs]) n" using i(4) len Cons.prems(2) by (simp add: primed_def)
    have lvl: "jn_definitionLevel ?j = d" using Cons.prems(5) by simp
    obtain j' where j': "collect_one it rn n ?j (ir_Append res x) =
        Some (j', (ir_Append res x)\<lparr>ir_Entries := ir_Entries (ir_Append res x) @ concat (map ir_Entries (takeWhile ?P xs))\<rparr>)"
      "joining R j' (xss[n := dropWhile ?P xs])" "same_join ?j j'"
      "primed j' (xss[n := dropWhile ?P xs]) n" "\<forall>m. m \<noteq> n \<longrightarrow> jn_peeks j' ! m = jn_peeks ?j ! m"
      using Cons.hyps(1)[OF _ j _ pr Cons.prems(4) lvl Cons.prems(6), of "ir_Append res x"] Cons.prems(2) by auto
    have "collect_one it rn n j res = collect_one it rn n ?j (ir_Append res x)"
      using True cmp pk i(1) Cons.prems(5) by (subst collect_one.simps) (simp add: i(2))
    then show ?thesis using j' True Cons.hyps(2)[symmetric] same_join_trans[OF _ j'(3), of j]
      by (intro exI[of _ j']) (simp add: ir_Append_def)
  qed
qed

lemma collect_loop_ok:
  assumes "joining R j xss" "set ns \<subseteq> {..<length xss}" "distinct ns" "\<forall>n < length xss. primed j xss n"
    "length rn = 6" "jn_definitionLevel j = d" "d < 6"
  shows "\<exists>j'. collect_loop it rn ns j res =
      Some (j', res\<lparr>ir_Entries := ir_Entries res @
        concat (map (\<lambda>n. concat (map ir_Entries (takeWhile (\<lambda>r. rkey d r = row_key d rn) (xss ! n)))) ns)\<rparr>) \<and>
    joining R j' (fold (\<lambda>n xss. xss[n := dropWhile (\<lambda>r. rkey d r = row_key d rn) (xss ! n)]) ns xss) \<and> same_join j j'"
  using assms
proof (induction ns arbitrary: j xss res)
  case Nil
  then show ?case by auto
next
  case (Cons n ns)
  let ?P = "\<lambda>r. rkey d r = row_key d rn"
  let ?xss = "xss[n := dropWhile ?P (xss ! n)]"
  let ?res = "res\<lparr>ir_Entries := ir_Entries res @ concat (map ir_Entries (takeWhile ?P (xss ! n)))\<rparr>"
  have n: "n < length xss" and ns: "set ns \<subseteq> {..<length ?xss}" "distinct ns" using Cons.prems(2,3) by auto
  obtain j1 where j1: "collect_one it rn n j res = Some (j1, ?res)" "joining R j1 ?xss" "same_join j j1"
    "primed j1 ?xss n" "\<forall>m. m \<noteq> n \<longrightarrow> jn_peeks j1 ! m = jn_peeks j ! m"
    using collect_one_ok[OF Cons.prems(1) n _ Cons.prems(5-7)] Cons.prems(4) n by blast
  have pr: "\<forall>m < length ?xss. primed j1 ?xss m"
  proof (intro allI impI)
    fix m assume m: "m < length ?xss"
    show "primed j1 ?xss m" using j1(4,5) Cons.prems(4) m by (cases "m = n") (auto simp: primed_def)
  qed
  have lvl: "jn_definitionLevel j1 = d" using j1(3) Cons.prems(6) by (simp add: same_join_def)
  have eq: "map (\<lambda>m. concat (map ir_Entries (takeWhile ?P (?xss ! m)))) ns =
      map (\<lambda>m. concat (map ir_Entries (takeWhile ?P (xss ! m)))) ns"
    by (intro map_cong refl) (use Cons.prems(3) in \<open>metis distinct.simps(2) nth_list_update_neq\<close>)
  from Cons.IH[OF j1(2) ns pr Cons.prems(5) lvl Cons.prems(7), of ?res] obtain j2 where
    "collect_loop it rn ns j1 ?res =
       Some (j2, ?res\<lparr>ir_Entries := ir_Entries ?res @ concat (map (\<lambda>m. concat (map ir_Entries (takeWhile ?P (?xss ! m)))) ns)\<rparr>)"
    "joining R j2 (fold (\<lambda>n xss. xss[n := dropWhile ?P (xss ! n)]) ns ?xss)" "same_join j1 j2" by blast
  then show ?case using j1(1) same_join_trans[OF j1(3)] unfolding eq by (intro exI[of _ j2]) simp
qed

lemma join_collect_ok:
  assumes "joining R j xss" "\<forall>n < length xss. primed j xss n" "length rn = 6" "jn_definitionLevel j = d" "d < 6"
  shows "\<exists>j'. join_collect it rn j =
      Some (j', \<lparr>ir_RowNumber = rn, ir_Entries =
        concat (map (\<lambda>xs. concat (map ir_Entries (takeWhile (\<lambda>r. rkey d r = row_key d rn) xs))) xss)\<rparr>) \<and>
    joining R j' (map (dropWhile (\<lambda>r. rkey d r = row_key d rn)) xss) \<and> same_join j j'"
proof -
  have len: "length (jn_iters j) = length xss" using assms(1) by (simp add: joining_def)
  have idx: "map (\<lambda>n. concat (map ir_Entries (takeWhile (\<lambda>r. rkey d r = row_key d rn) (xss ! n)))) [0..<length xss] =
    map (\<lambda>xs. concat (map ir_Entries (takeWhile (\<lambda>r. rkey d r = row_key d rn) xs))) xss"
    by (rule nth_equalityI) simp_all
  show ?thesis
    using collect_loop_ok[OF assms(1) _ _ assms(2-5), of "[0..<length xss]" "\<lparr>ir_RowNumber = rn, ir_Entries = []\<rparr>"]
    unfolding join_collect_def len fold_apply_map idx by (simp add: subset_eq)
qed

lemma seek_one_ok:
  assumes "joining R j xss" "n < length xss" "target_ok to" "rd_DefinitionLevel to \<le> level"
  shows "\<exists>j'. join_seek_one it to j n = Some j' \<and>
    joining R j' (xss[n := dropWhile (\<lambda>r. below to (ir_RowNumber r)) (xss ! n)]) \<and> same_join j j'"
proof -
  let ?P = "\<lambda>r. below to (ir_RowNumber r)"
  have hld: "held R (jn_peeks j ! n) (jn_iters j ! n) (xss ! n)" using assms(1,2) by (simp add: joining_def)
  have srt: "rows_sorted (dropWhile ?P (xss ! n))" using hld by (simp add: held_def rows_sorted_dropWhile)
  show ?thesis
  proof (cases "\<exists>x. jn_peeks j ! n = Some x \<and> \<not> below to (ir_RowNumber x)")
    case True
    then obtain x ys where x: "jn_peeks j ! n = Some x" "\<not> below to (ir_RowNumber x)" "xss ! n = x # ys"
      using hld by (auto simp: held_def)
    then have "xss[n := dropWhile ?P (xss ! n)] = xss" by (metis dropWhile.simps(2) list_update_id)
    then show ?thesis using x assms(1) by (intro exI[of _ j]) (simp add: join_seek_one_def below_def)
  next
    case False
    have skip: "(case jn_peeks j ! n of None \<Rightarrow> True
      | Some p \<Rightarrow> CompareRowNumbers (rd_DefinitionLevel to) (ir_RowNumber p) (rd_RowNumber to) = -1)"
      using False by (auto simp: below_def split: option.splits)
    have "delivers (ri_iter it) R (dropWhile ?P (xss ! n)) (ri_Seek it to (jn_iters j ! n))"
    proof (cases "jn_peeks j ! n")
      case None
      then show ?thesis using seek_delivers[OF _ assms(3,4)] hld by (simp add: held_def)
    next
      case (Some x)
      then obtain ys where "xss ! n = x # ys" "R (jn_iters j ! n) ys" "below to (ir_RowNumber x)"
        using hld False by (auto simp: held_def)
      then show ?thesis using seek_delivers[OF _ assms(3,4)] by simp
    qed
    then obtain ok i p where i: "ri_Seek it to (jn_iters j ! n) = Some (ok, i)"
      "(if ok then it_At (ri_iter it) i else None) = p" "held R p i (dropWhile ?P (xss ! n))"
      "p = None \<longrightarrow> dropWhile ?P (xss ! n) = []"
      by (rule moved[OF _ srt])
    let ?j = "j\<lparr>jn_iters := (jn_iters j)[n := i], jn_peeks := (jn_peeks j)[n := p]\<rparr>"
    have "join_seek_one it to j n = Some ?j" unfolding join_seek_one_def if_P[OF skip] by (simp add: i)
    then show ?thesis using joining_update[OF assms(1,2) i(3)] by (intro exI[of _ ?j]) simp
  qed
qed

lemma seek_loop_ok:
  assumes "joining R j xss" "set ns \<subseteq> {..<length xss}" "target_ok to" "rd_DefinitionLevel to \<le> level"
  shows "\<exists>j'. join_seek_loop it to j ns = Some j' \<and>
    joining R j' (fold (\<lambda>n xss. xss[n := dropWhile (\<lambda>r. below to (ir_RowNumber r)) (xss ! n)]) ns xss) \<and> same_join j j'"
  using assms
proof (induction ns arbitrary: j xss)
  case Nil
  then show ?case by auto
next
  case (Cons n ns)
  obtain j1 where j1: "join_seek_one it to j n = Some j1"
    "joining R j1 (xss[n := dropWhile (\<lambda>r. below to (ir_RowNumber r)) (xss ! n)])" "same_join j j1"
    using seek_one_ok[OF Cons.prems(1) _ Cons.prems(3,4), of n] Cons.prems(2) by auto
  show ?case using Cons.IH[OF j1(2) _ Cons.prems(3,4)] Cons.prems(2) j1 same_join_trans[OF j1(3)] by fastforce
qed

lemma seekAll_ok:
  assumes "joining R j xss" "target_ok to" "rd_DefinitionLevel to \<le> level"
  shows "\<exists>j'. seekAll it to j = Some j' \<and>
    joining R j' (map (dropWhile (\<lambda>r. below to (ir_RowNumber r))) xss) \<and> same_join j j'"
proof -
  let ?to = "to\<lparr>rd_RowNumber := TruncateRowNumber to\<rparr>"
  have len: "length (jn_iters j) = length xss" using assms(1) by (simp add: joining_def)
  have "dropWhile (\<lambda>r. below ?to (ir_RowNumber r)) xs = dropWhile (\<lambda>r. below to (ir_RowNumber r)) xs"
    if "xs \<in> set xss" for xs
    using held_sorted[OF assms(1) that] below_Truncate[OF assms(2)]
    by (intro dropWhile_cong) (simp_all add: rows_sorted_def)
  then have eq: "map (dropWhile (\<lambda>r. below ?to (ir_RowNumber r))) xss = map (dropWhile (\<lambda>r. below to (ir_RowNumber r))) xss"
    by simp
  have "target_ok ?to" "rd_DefinitionLevel ?to \<le> level" using assms(2,3) by (simp_all add: target_ok_def)
  from seek_loop_ok[OF assms(1) _ this, of "[0..<length xss]"]
  show ?thesis unfolding seekAll_def len fold_apply_map eq by (simp add: subset_eq)
qed

text \<open>
  One pass: it ends with an exhausted input, delivers the first group, or goes on with fewer rows
  and the same groups before it.
\<close>

lemma pass_rows:
  assumes j: "joining R j xss" and ne: "xss \<noteq> []" "[] \<notin> set xss" and d: "d < 6"
    and sc: "scan_rows d (map (\<lambda>n. (n, ir_RowNumber (hd (xss ! n)))) [0..<length xss]) (MaxRowNumber, EmptyRowNumber, []) =
      (low, high, lows)"
  shows "row_ok low \<and> row_ok high \<and>
    (length lows = length xss \<longleftrightarrow> (\<forall>xs \<in> set xss. rkey d (hd xs) = row_key d low)) \<and>
    (length lows = length xss \<longrightarrow> low = ir_RowNumber (hd (hd xss)) \<and> row_key d high = row_key d low) \<and>
    (\<forall>xs \<in> set xss. rkey d (hd xs) \<le> row_key d high) \<and> (\<exists>xs \<in> set xss. rkey d (hd xs) = row_key d high) \<and>
    (\<exists>xs \<in> set xss. rkey d (hd xs) = row_key d low)"
proof -
  let ?ps = "map (\<lambda>n. (n, ir_RowNumber (hd (xss ! n)))) [0..<length xss]"
  have ps: "snd ` set ?ps = (\<lambda>xs. ir_RowNumber (hd xs)) ` set xss"
  proof -
    have "set xss = (!) xss ` {0..<length xss}" by (auto simp: set_conv_nth)
    then show ?thesis by (simp add: image_image)
  qed
  have ok: "row_ok (ir_RowNumber (hd xs))" if "xs \<in> set xss" for xs
    using held_sorted[OF j that] ne(2) that unfolding rows_sorted_def by (metis hd_in_set)
  have all: "(\<forall>p \<in> set ?ps. Q (snd p)) \<longleftrightarrow> (\<forall>xs \<in> set xss. Q (ir_RowNumber (hd xs)))" for Q
    using ps by (metis (no_types, lifting) image_iff)
  have scd: "scanned d ?ps (low, high, lows)"
    unfolding sc[symmetric] by (rule scan_rows_scanned) (use ne d ok all[of row_ok] in auto)
  have fst: "snd (hd ?ps) = ir_RowNumber (hd (hd xss))" using ne(1) by (simp add: hd_map hd_conv_nth)
  have mem: "low \<in> (\<lambda>xs. ir_RowNumber (hd xs)) ` set xss" "high \<in> (\<lambda>xs. ir_RowNumber (hd xs)) ` set xss"
    using scd ps by (simp_all add: scanned_def)
  have bnd: "\<forall>xs \<in> set xss. row_key d low \<le> rkey d (hd xs) \<and> rkey d (hd xs) \<le> row_key d high"
    using scd all[of "\<lambda>rn. row_key d low \<le> row_key d rn \<and> row_key d rn \<le> row_key d high"] by (simp add: scanned_def)
  have eq: "length lows = length xss \<longleftrightarrow> (\<forall>xs \<in> set xss. rkey d (hd xs) = row_key d low)"
    using scanned_all[OF scd] all[of "\<lambda>rn. row_key d rn = row_key d low"] by simp
  have same: "low = ir_RowNumber (hd (hd xss)) \<and> row_key d high = row_key d low" if "length lows = length xss"
  proof -
    have "\<forall>p \<in> set ?ps. row_key d (snd p) = row_key d low" using that scanned_all[OF scd] by simp
    moreover have "(\<forall>p \<in> set ?ps. row_key d (snd p) = row_key d low) \<longrightarrow> low = snd (hd ?ps)"
      using scd unfolding scanned_def prod.case by blast
    ultimately show ?thesis using fst that eq mem(2) by auto
  qed
  show ?thesis using mem ok bnd eq same by fastforce
qed

end

definition joined :: "('i \<Rightarrow> ('v, 'r) IteratorResult list \<Rightarrow> bool) \<Rightarrow> nat \<Rightarrow> ('i, 'v, 'r) JoinIterator \<Rightarrow>
    ('v, 'r) IteratorResult list \<Rightarrow> bool" where
  "joined R d j ys =
     (\<exists>xss. joining R j xss \<and> xss \<noteq> [] \<and> jn_definitionLevel j = d \<and> ys = filter (keeps (jn_pred j)) (join_rows d xss))"

lemma joined_result: "joined R d j ys \<Longrightarrow> joined R d (j\<lparr>jn_result := r\<rparr>) ys"
  by (simp add: joined_def joining_def)

lemma dropWhile_total_less:
  assumes "xs \<in> set xss" "xs \<noteq> []" "P (hd xs)"
  shows "sum_list (map length (map (dropWhile P) xss)) < sum_list (map length xss)"
proof -
  obtain ys zs where xss: "xss = ys @ xs # zs" using split_list[OF assms(1)] by blast
  have le: "sum_list (map length (map (dropWhile P) l)) \<le> sum_list (map length l)" for l
    by (induction l) (use length_dropWhile_le in \<open>auto intro: add_mono\<close>)
  have "length (dropWhile P xs) < length xs"
    using assms(2,3) length_dropWhile_le[of P "tl xs"] by (cases xs) (auto simp: less_Suc_eq_le)
  then show ?thesis using le[of ys] le[of zs] by (simp add: xss)
qed

lemma sorted_hd_le: "sorted (map f xs) \<Longrightarrow> r \<in> set xs \<Longrightarrow> f (hd xs) \<le> f r"
  by (induction xs) auto

lemma collected_rest:
  assumes "\<forall>xs \<in> set xss. sorted (map (rkey d) xs)" "\<forall>xs \<in> set xss. rkey d (hd xs) = k"
    and B: "\<And>xs r. xs \<in> set xss \<Longrightarrow> r \<in> set xs \<Longrightarrow> B r \<longleftrightarrow> rkey d r < k"
  shows "map (dropWhile B) (map (dropWhile (\<lambda>r. rkey d r = k)) xss) = map (dropWhile (\<lambda>r. rkey d r = k)) xss"
proof (rule map_idI)
  fix xs assume "xs \<in> set (map (dropWhile (\<lambda>r. rkey d r = k)) xss)"
  then obtain ys where ys: "ys \<in> set xss" "xs = dropWhile (\<lambda>r. rkey d r = k) ys" by auto
  have "k \<le> rkey d r" if "r \<in> set ys" for r
    using assms(1,2) ys(1) sorted_hd_le[of "rkey d" ys r] that by auto
  then have "\<not> B (hd xs)" if "xs \<noteq> []" using that B[OF ys(1)] ys(2) by (metis hd_in_set not_le set_dropWhileD)
  then show "dropWhile B xs = xs" by (cases xs) auto
qed

text \<open>What \<open>Next\<close> does once the scan has found a row in every input.\<close>

lemma join_Next_scanned:
  assumes "join_scan it j [0..<length (jn_iters j)] (MaxRowNumber, EmptyRowNumber, []) = Some (j1, Some (low, high, lows))"
  shows "join_Next it j =
    (do { (j, kept) \<leftarrow>
        (if length lows = length (jn_iters j1) then do {
           (j, result) \<leftarrow> join_collect it low j1;
           Some (if keeps (jn_pred j) result then (j\<lparr>jn_result := Some result\<rparr>, True) else (j, False)) }
         else Some (j1, False));
      if kept then Some (True, j)
      else do {
        j \<leftarrow> seekAll it \<lparr>rd_RowNumber = high, rd_DefinitionLevel = jn_definitionLevel j\<rparr> j;
        join_Next it j } })"
  using assms by (subst join_Next.simps) simp

text \<open>The joined rows ascend, and a seek of the inputs is a seek of the join.\<close>

lemma join_group_row:
  assumes "xss \<noteq> []" "k \<in> join_keys d xss"
  shows "ir_RowNumber (join_group d xss k) \<in> ir_RowNumber ` set (hd xss) \<and> rkey d (join_group d xss k) = k"
proof -
  have "k \<in> rkey d ` set (hd xss)" using assms by (auto simp: join_keys_def)
  then have "filter (\<lambda>r. rkey d r = k) (hd xss) \<noteq> []" by (auto simp: filter_empty_conv)
  then have "hd (filter (\<lambda>r. rkey d r = k) (hd xss)) \<in> set (filter (\<lambda>r. rkey d r = k) (hd xss))" by (rule hd_in_set)
  then show ?thesis by (simp add: join_group_def)
qed

lemma row_key_full: "length a = 6 \<Longrightarrow> length b = 6 \<Longrightarrow> row_key d a < row_key d b \<Longrightarrow> row_key 5 a \<le> row_key 5 b"
proof (rule ccontr)
  assume len: "length a = 6" "length b = 6" and lt: "row_key d a < row_key d b" and "\<not> row_key 5 a \<le> row_key 5 b"
  then have "take (d + 1) b \<le> take (d + 1) a" using list_take_mono[of b a "d + 1"] by (simp add: row_key_def not_le)
  then show False using lt by (simp add: row_key_def not_less[symmetric])
qed

lemma join_rows_sorted:
  assumes "xss \<noteq> []" "\<forall>xs \<in> set xss. rows_sorted xs"
  shows "rows_sorted (join_rows d xss)"
proof -
  let ?ks = "sorted_list_of_set (join_keys d xss)"
  have row: "row_ok (ir_RowNumber (join_group d xss k)) \<and> rkey d (join_group d xss k) = k" if "k \<in> set ?ks" for k
  proof -
    have m: "ir_RowNumber (join_group d xss k) \<in> ir_RowNumber ` set (hd xss)" "rkey d (join_group d xss k) = k"
      using join_group_row[OF assms(1), of k d] that assms(1) by auto
    moreover have "rows_sorted (hd xss)" using assms by simp
    ultimately show ?thesis unfolding rows_sorted_def by auto
  qed
  have "sorted_wrt (<) ?ks" by (simp add: strict_sorted_iff)
  then have "sorted_wrt (\<lambda>a b. rkey 5 (join_group d xss a) \<le> rkey 5 (join_group d xss b)) ?ks"
    by (rule sorted_wrt_mono_rel[rotated]) (metis row row_key_full row_ok_length)
  then show ?thesis using row by (auto simp: rows_sorted_def join_rows_def sorted_map)
qed

lemma join_rows_seek:
  assumes ne: "xss \<noteq> []" and srt: "\<forall>xs \<in> set xss. rows_sorted xs" and to: "target_ok to" "rd_DefinitionLevel to \<le> d" "d < 6"
  shows "join_rows d (map (dropWhile (\<lambda>r. below to (ir_RowNumber r))) xss) =
    dropWhile (\<lambda>r. below to (ir_RowNumber r)) (join_rows d xss)"
proof -
  let ?e = "rd_DefinitionLevel to"
  let ?Q = "\<lambda>k. \<not> take (?e + 1) k < row_key ?e (rd_RowNumber to)"
  have key: "below to (ir_RowNumber r) \<longleftrightarrow> \<not> ?Q (rkey d r)" if "length (ir_RowNumber r) = 6" for r :: "('a, 'b) IteratorResult"
    using below_key[OF to(1) that] to(2) by (simp add: row_key_def min_def)
  have mono: "?Q b" if "?Q a" "a \<le> b" for a b using that list_take_mono[of a b "?e + 1"] by (meson order_le_less_trans)
  have len: "length (ir_RowNumber r) = 6" if "xs \<in> set xss" "r \<in> set xs" for xs r
    using srt that by (auto simp: rows_sorted_def)
  have keys: "join_keys d (map (dropWhile (\<lambda>r. below to (ir_RowNumber r))) xss) = {k \<in> join_keys d xss. ?Q k}"
  proof (rule join_keys_dropWhile[OF ne])
    show "\<forall>xs \<in> set xss. sorted (map (rkey d) xs)" using srt rows_sorted_level to(3) by blast
  qed (use key len mono in auto)
  have "join_rows d (map (dropWhile (\<lambda>r. below to (ir_RowNumber r))) xss) =
      map (join_group d xss) (filter ?Q (sorted_list_of_set (join_keys d xss)))"
    by (rule join_rows_dropWhile[OF ne keys]) (use key len in auto)
  also have "\<dots> = filter (\<lambda>r. \<not> below to (ir_RowNumber r)) (join_rows d xss)"
  proof -
    have "?Q k \<longleftrightarrow> \<not> below to (ir_RowNumber (join_group d xss k))" if "k \<in> set (sorted_list_of_set (join_keys d xss))" for k
    proof -
      have m: "ir_RowNumber (join_group d xss k) \<in> ir_RowNumber ` set (hd xss)" "rkey d (join_group d xss k) = k"
        using join_group_row[OF ne, of k d] that ne by auto
      then have "length (ir_RowNumber (join_group d xss k)) = 6" using len[of "hd xss"] ne by auto
      then show ?thesis using key m(2) by auto
    qed
    then show ?thesis by (simp add: join_rows_def filter_map o_def cong: filter_cong)
  qed
  also have "\<dots> = dropWhile (\<lambda>r. below to (ir_RowNumber r)) (join_rows d xss)"
    using dropWhile_filter_below[OF join_rows_sorted[OF ne srt] to(1)] by simp
  finally show ?thesis .
qed

locale join_source = row_source +
  fixes d :: nat
  assumes depth: "d \<le> level" "d < 6"
begin

lemma join_Next_ok:
  assumes "joining R j xss" "xss \<noteq> []" "jn_definitionLevel j = d"
  shows "delivers (ri_iter (join_iterator it)) (joined R d) (filter (keeps (jn_pred j)) (join_rows d xss)) (join_Next it j)"
  using assms
proof (induction "sum_list (map length xss)" arbitrary: j xss rule: less_induct)
  case less
  have len: "length (jn_iters j) = length xss" using less.prems(1) by (simp add: joining_def)
  have lens: "set [0..<length xss] \<subseteq> {..<length xss}" by auto
  have empty: "(\<exists>n \<in> set [0..<length xss]. xss ! n = []) \<longleftrightarrow> [] \<in> set xss" by (auto simp: in_set_conv_nth)
  let ?acc = "(MaxRowNumber, EmptyRowNumber, [])"
  note scan = scan_ok[OF less.prems(1) lens, of ?acc, unfolded empty]
  show ?case
  proof (cases "[] \<in> set xss")
    case True
    then obtain j1 where j1: "joining R j1 xss" "same_join j j1" "join_scan it j [0..<length xss] ?acc = Some (j1, None)"
      using scan by auto
    have "joined R d j1 []"
      unfolding joined_def using j1 less.prems(2,3) join_rows_exhausted[OF True]
      by (intro exI[of _ xss]) (auto simp: same_join_def)
    then show ?thesis using j1(3) join_rows_exhausted[OF True] by (simp add: join_Next.simps[of it j] len)
  next
    case False
    obtain low high lows where sc: "scan_rows d (map (\<lambda>n. (n, ir_RowNumber (hd (xss ! n)))) [0..<length xss]) ?acc =
      (low, high, lows)" by (metis prod_cases3)
    obtain j1 where j1: "joining R j1 xss" "same_join j j1" "\<forall>n < length xss. primed j1 xss n"
      "join_scan it j [0..<length xss] ?acc = Some (j1, Some (low, high, lows))"
      using scan False sc less.prems(3) by auto
    note pass = pass_rows[OF less.prems(1,2) False depth(2) sc]
    have lvl1: "jn_definitionLevel j1 = d" and pred1: "jn_pred j1 = jn_pred j" and len1: "length (jn_iters j1) = length xss"
      using j1(2) less.prems(3) len by (auto simp: same_join_def)
    have srt: "\<forall>xs \<in> set xss. sorted (map (rkey d) xs)"
      using held_sorted[OF less.prems(1)] rows_sorted_level depth(2) by blast
    let ?to = "\<lparr>rd_RowNumber = high, rd_DefinitionLevel = d\<rparr>"
    let ?B = "\<lambda>r. below ?to (ir_RowNumber r)"
    have to: "target_ok ?to" "rd_DefinitionLevel ?to \<le> level" using pass depth by (auto simp: target_ok_def)
    have B: "?B r \<longleftrightarrow> rkey d r < row_key d high" if "xs \<in> set xss" "r \<in> set xs" for xs r
      using below_key[OF to(1)] held_sorted[OF less.prems(1) that(1)] that(2) by (simp add: rows_sorted_def)
    note next_eq = join_Next_scanned[OF j1(4)[folded len], unfolded len1]
    show ?thesis
    proof (cases "length lows = length xss")
      case all: True
      let ?k = "row_key d low"
      let ?D = "map (dropWhile (\<lambda>r. rkey d r = ?k)) xss"
      have heads: "\<forall>xs \<in> set xss. rkey d (hd xs) = ?k" and low: "low = ir_RowNumber (hd (hd xss))" and low6: "length low = 6"
        and hk: "row_key d high = ?k"
        using pass all by auto
      let ?g = "join_group d xss ?k"
      note group = join_group_first[OF less.prems(2) False srt heads]
      note rows = join_rows_first[OF less.prems(2) False srt heads]
      obtain j2 where j2: "join_collect it low j1 = Some (j2, ?g)" "joining R j2 ?D" "same_join j1 j2"
        using join_collect_ok[OF j1(1,3) low6 lvl1 depth(2)] unfolding group low[symmetric] by blast
      have lvl2: "jn_definitionLevel j2 = d" "jn_pred j2 = jn_pred j" using j2(3) lvl1 pred1 by (auto simp: same_join_def)
      show ?thesis
      proof (cases "keeps (jn_pred j) ?g")
        case True
        have "joined R d (j2\<lparr>jn_result := Some ?g\<rparr>) (filter (keeps (jn_pred j)) (join_rows d ?D))"
          by (rule joined_result) (use j2 lvl2 less.prems(2) in \<open>auto simp: joined_def\<close>)
        then show ?thesis using True all j2(1) lvl2(2) unfolding next_eq rows by (simp add: join_iterator_def)
      next
        case drop: False
        have same: "map (dropWhile ?B) ?D = ?D"
          by (rule collected_rest[OF srt heads]) (use B hk in auto)
        obtain j3 where j3: "seekAll it ?to j2 = Some j3" "joining R j3 ?D" "same_join j2 j3"
          using seekAll_ok[OF j2(2) to] unfolding same by blast
        have "hd xss \<in> set xss" "hd xss \<noteq> []" using less.prems(2) False by (auto, metis hd_in_set)
        then have "sum_list (map length ?D) < sum_list (map length xss)"
          by (rule dropWhile_total_less) (use less.prems(2) heads in auto)
        from less.hyps[OF this j3(2)] less.prems(2) j3(3) lvl2
        have "delivers (ri_iter (join_iterator it)) (joined R d) (filter (keeps (jn_pred j)) (join_rows d ?D)) (join_Next it j3)"
          by (simp add: same_join_def)
        then show ?thesis using drop all j2(1) j3(1) lvl2 unfolding next_eq rows by simp
      qed
    next
      case notall: False
      obtain ys where ys: "ys \<in> set xss" "rkey d (hd ys) = row_key d high" using pass by blast
      obtain zs where zs: "zs \<in> set xss" "rkey d (hd zs) < row_key d high"
      proof -
        have "\<exists>zs \<in> set xss. rkey d (hd zs) \<noteq> row_key d high" using pass notall by force
        then show ?thesis using pass that by (meson order_le_imp_less_or_eq)
      qed
      have ysle: "\<forall>r \<in> set ys. row_key d high \<le> rkey d r" using ys srt sorted_hd_le[of "rkey d" ys] by auto
      have rows: "join_rows d (map (dropWhile ?B) xss) = join_rows d xss"
        by (rule join_rows_skip[OF less.prems(2) srt ys(1) ysle B])
      obtain j2 where j2: "seekAll it ?to j1 = Some j2" "joining R j2 (map (dropWhile ?B) xss)" "same_join j1 j2"
        using seekAll_ok[OF j1(1) to] by blast
      have "zs \<noteq> []" using zs(1) False by auto
      then have "sum_list (map length (map (dropWhile ?B) xss)) < sum_list (map length xss)"
        using zs B[OF zs(1)] by (intro dropWhile_total_less[of zs]) auto
      from less.hyps[OF this j2(2)] less.prems(2) j2(3) lvl1 pred1
      have "delivers (ri_iter (join_iterator it)) (joined R d) (filter (keeps (jn_pred j)) (join_rows d xss)) (join_Next it j2)"
        unfolding rows by (simp add: same_join_def)
      then show ?thesis using notall j2(1) lvl1 unfolding next_eq by simp
    qed
  qed
qed

lemma join_source_laws: "row_source (join_iterator it) d (joined R d)"
proof
  fix j ys
  assume "joined R d j ys"
  then obtain xss where x: "joining R j xss" "xss \<noteq> []" "jn_definitionLevel j = d"
    "ys = filter (keeps (jn_pred j)) (join_rows d xss)" by (auto simp: joined_def)
  have srt: "\<forall>xs \<in> set xss. rows_sorted xs" using held_sorted[OF x(1)] by blast
  show "delivers (ri_iter (join_iterator it)) (joined R d) ys (it_Next (ri_iter (join_iterator it)) j)"
    using join_Next_ok[OF x(1-3)] x(4) by (simp add: join_iterator_def)
  have srt_ys: "rows_sorted ys"
    using join_rows_sorted[OF x(2) srt, of d] unfolding x(4) rows_sorted_def sorted_map by (simp add: sorted_wrt_filter)
  then show "rows_sorted ys" .
  have "it_Err (ri_iter it) i = []" if i: "i \<in> set (jn_iters j)" for i
  proof -
    obtain n where "n < length (jn_iters j)" "i = jn_iters j ! n" using i by (metis in_set_conv_nth)
    then have "held R (jn_peeks j ! n) i (xss ! n)" using x(1) by (simp add: joining_def)
    then show ?thesis using no_error by (auto simp: held_def split: option.splits)
  qed
  then have "find (\<lambda>e. e \<noteq> []) (map (it_Err (ri_iter it)) (jn_iters j)) = None" by (auto simp: find_None_iff)
  then show "it_Err (ri_iter (join_iterator it)) j = []" by (simp add: join_iterator_def join_Err_def)
  fix to assume to: "target_ok to" "rd_DefinitionLevel to \<le> d"
  let ?B = "\<lambda>r. below to (ir_RowNumber r)"
  obtain j1 where j1: "seekAll it to j = Some j1" "joining R j1 (map (dropWhile ?B) xss)" "same_join j j1"
    using seekAll_ok[OF x(1) to(1)] to(2) depth(1) by auto
  have "dropWhile ?B ys = filter (keeps (jn_pred j)) (join_rows d (map (dropWhile ?B) xss))"
    unfolding dropWhile_filter_below[OF srt_ys to(1)]
    unfolding join_rows_seek[OF x(2) srt to depth(2)]
      dropWhile_filter_below[OF join_rows_sorted[OF x(2) srt] to(1)] x(4)
    by (simp add: conj_commute)
  then show "delivers (ri_iter (join_iterator it)) (joined R d) (dropWhile ?B ys) (ri_Seek (join_iterator it) to j)"
    using join_Next_ok[OF j1(2)] x(2,3) j1(1,3) by (simp add: join_iterator_def join_Seek_def same_join_def)
qed

end

sublocale join_source \<subseteq> nested: row_source "join_iterator it" d "joined R d"
  by (rule join_source_laws)

end
