(* ===== verification/Column_Query.thy ===== *)
theory Column_Query
  imports Column_Iterator Join_Iterator
begin

section \<open>Queries over the columns of a block (pkg/phlaredb/query)\<close>

text \<open>
  The properties of reading columns: what a column iterator delivers for every schedule of its two
  threads, what a predicate does to the rows, the numbers of the rows, and joins of columns.
\<close>

interpretation columns: join_source column_iterator 5 col_rel "min d 5" for d
  by unfold_locales simp_all

lemma number_values_pred:
  "snd (number_values (Some p) rn vs) = filter (\<lambda>x. KeepValue p (pv_value (snd x))) (snd (number_values None rn vs))"
proof (induction vs arbitrary: rn)
  case (Cons v vs)
  let ?rn = "rn_Next (pv_RepetitionLevel v) (pv_DefinitionLevel v) rn"
  show ?case using Cons.IH[of ?rn]
    by (cases "number_values None ?rn vs"; cases "number_values (Some p) ?rn vs") (simp add: Let_def inst_KeepValue_def)
qed simp

text \<open>The columns of a query, each with its filter, its name and the schedule of its reader.\<close>

record 'v column_query =
  cq_rgs :: "'v pqRowGroup list"
  cq_filter :: "'v Predicate option"
  cq_selectAs :: string
  cq_sched :: "nat \<Rightarrow> nat"

definition query_columns :: "'v column_query list \<Rightarrow> ('v, 'r) ColumnIterator list" where
  "query_columns qs = map (\<lambda>q. NewColumnIterator (cq_rgs q) (cq_filter q) (cq_selectAs q) (cq_sched q)) qs"

definition query_rows :: "'v column_query list \<Rightarrow> ('v pqValue, 'r) IteratorResult list list" where
  "query_rows qs = map (\<lambda>q. column_rows (cq_filter q) (cq_selectAs q) (cq_rgs q)) qs"

lemma join_columns:
  fixes qs :: "'v column_query list"
  assumes "qs \<noteq> []" "list_all (\<lambda>q. file_ok (cq_filter q) (cq_rgs q)) qs" "d < 6"
  shows "joined col_rel d (NewJoinIterator d (query_columns qs :: ('v, 'r) ColumnIterator list) pred)
    (filter (keeps pred) (join_rows d (query_rows qs)))"
proof -
  let ?j = "NewJoinIterator d (query_columns qs :: ('v, 'r) ColumnIterator list) pred"
  have "held col_rel None (query_columns qs ! n :: ('v, 'r) ColumnIterator) (query_rows qs ! n)" if "n < length qs" for n
  proof -
    have "col_rel (query_columns qs ! n :: ('v, 'r) ColumnIterator) (query_rows qs ! n)"
      using assms(2) that by (simp add: query_columns_def query_rows_def list_all_length NewColumnIterator_rel)
    then show ?thesis using col.rows by (simp add: held_def)
  qed
  then have "joining col_rel ?j (query_rows qs)"
    by (simp add: joining_def NewJoinIterator_def query_columns_def query_rows_def)
  then show ?thesis using assms(1) unfolding joined_def
    by (intro exI[of _ "query_rows qs"]) (simp add: NewJoinIterator_def query_rows_def)
qed

subsection \<open>A file\<close>

text \<open>Five rows in two row groups; the second column repeats values and is read with a filter.\<close>

definition pv :: "nat \<Rightarrow> nat \<Rightarrow> i64 \<Rightarrow> i64 pqValue" where
  "pv r d x = \<lparr>pv_RepetitionLevel = r, pv_DefinitionLevel = d, pv_value = x\<rparr>"

definition demo_times :: "i64 pqRowGroup list" where
  "demo_times =
     [\<lparr>rg_NumRows = 3, rg_ColumnChunk = \<lparr>cc_ColumnIndex = Some [(5, 7), (9, 9)], cc_Pages =
        [PageRead \<lparr>pg_NumRows = 2, pg_Dictionary = None, pg_Bounds = Some (5, 7), pg_reads = [([pv 0 0 5, pv 0 0 7], ROk), ([], REOF)]\<rparr>,
         PageRead \<lparr>pg_NumRows = 1, pg_Dictionary = None, pg_Bounds = Some (9, 9), pg_reads = [([pv 0 0 9], REOF)]\<rparr>]\<rparr>\<rparr>,
      \<lparr>rg_NumRows = 2, rg_ColumnChunk = \<lparr>cc_ColumnIndex = Some [(6, 20)], cc_Pages =
        [PageRead \<lparr>pg_NumRows = 2, pg_Dictionary = None, pg_Bounds = None, pg_reads = [([pv 0 0 6], ROk), ([pv 0 0 20], REOF)]\<rparr>]\<rparr>\<rparr>]"

definition demo_samples :: "i64 pqRowGroup list" where
  "demo_samples =
     [\<lparr>rg_NumRows = 5, rg_ColumnChunk = \<lparr>cc_ColumnIndex = None, cc_Pages =
        [PageRead \<lparr>pg_NumRows = 5, pg_Dictionary = None, pg_Bounds = None, pg_reads =
           [([pv 0 1 1, pv 1 1 2, pv 0 1 3, pv 0 1 2], ROk), ([pv 0 1 4, pv 1 1 2, pv 1 1 2, pv 0 0 0], REOF)]\<rparr>]\<rparr>\<rparr>]"

definition two :: "i64 Predicate option" where
  "two = Some (NewEqualInt64Predicate (\<lambda>x. x) 2)"

subsection \<open>Properties\<close>

text \<open>
  C23. A column iterator over a well-formed file answers every sequence of calls of \<open>Next\<close> and
  \<open>Seek\<close>, and answers it as the list of the accepted rows does, for every schedule of the
  background reader: it never blocks for good, loses, repeats or reorders a row, whatever pages the
  reader has skipped or buffered when a target was published.
\<close>

theorem ColumnIterator_calls:
  assumes "file_ok filt rgs" "list_all (call_ok 5) calls"
  shows "run_calls column_iterator (NewColumnIterator rgs filt selectAs sched) calls =
    Some (list_calls (column_rows filt selectAs rgs) calls)"
  using col.source_calls[OF NewColumnIterator_rel[OF assms(1)] assms(2)] .

theorem ColumnIterator_calls_witness:
  "run_calls column_iterator (NewColumnIterator demo_times None ''T'' (\<lambda>n. 2 * n) :: (i64, unit) ColumnIterator)
     [CNext, CSeek \<lparr>rd_RowNumber = [3, -1, -1, -1, -1, -1], rd_DefinitionLevel = 0\<rparr>, CNext, CNext] =
   Some [Some (col_row ''T'' ([0, -1, -1, -1, -1, -1], pv 0 0 5)), Some (col_row ''T'' ([3, -1, -1, -1, -1, -1], pv 0 0 6)),
         Some (col_row ''T'' ([4, -1, -1, -1, -1, -1], pv 0 0 20)), None]"
proof -
  let ?calls = "[CNext, CSeek \<lparr>rd_RowNumber = [3, -1, -1, -1, -1, -1], rd_DefinitionLevel = 0\<rparr>, CNext, CNext]"
  have "file_ok None demo_times" "list_all (call_ok 5) ?calls" by code_simp+
  note ColumnIterator_calls[OF this, where 'b = unit, of "''T''" "\<lambda>n. 2 * n"]
  moreover have "list_calls (column_rows None ''T'' demo_times :: (i64 pqValue, unit) IteratorResult list) ?calls =
    [Some (col_row ''T'' ([0, -1, -1, -1, -1, -1], pv 0 0 5)), Some (col_row ''T'' ([3, -1, -1, -1, -1, -1], pv 0 0 6)),
     Some (col_row ''T'' ([4, -1, -1, -1, -1, -1], pv 0 0 20)), None]" by code_simp
  ultimately show ?thesis by (rule trans[OF _ arg_cong])
qed

text \<open>
  C24. A join of columns up to a definition level ends, without error, after delivering exactly one
  result for every row that all columns have, in ascending order and with the values of the row
  column by column, restricted to the groups the predicate keeps.
\<close>

theorem JoinIterator_joins:
  fixes qs :: "'v column_query list"
  assumes "qs \<noteq> []" "list_all (\<lambda>q. file_ok (cq_filter q) (cq_rgs q)) qs" "d < 6"
  shows "Slice (ri_iter (join_iterator column_iterator)) (NewJoinIterator d (query_columns qs :: ('v, 'r) ColumnIterator list) pred) =
    Some (map Some (filter (keeps pred) (join_rows d (query_rows qs))), [])"
proof -
  have d: "min d 5 = d" using assms(3) by simp
  show ?thesis by (rule Slice_yields[OF columns.nested.source_yields[of d, unfolded d]]) (rule join_columns[OF assms])
qed

theorem JoinIterator_joins_witness:
  "Slice (ri_iter (join_iterator column_iterator))
     (NewJoinIterator 0
       (query_columns
         [\<lparr>cq_rgs = demo_samples, cq_filter = two, cq_selectAs = ''S'', cq_sched = (\<lambda>n. 1)\<rparr>,
          \<lparr>cq_rgs = demo_times, cq_filter = None, cq_selectAs = ''T'', cq_sched = (\<lambda>n. n)\<rparr>] :: (i64, unit) ColumnIterator list) None) =
   Some (map Some
     [\<lparr>ir_RowNumber = [0, 1, -1, -1, -1, -1], ir_Entries =
         [\<lparr>en_k = ''S'', en_V = pv 1 1 2, en_RowValue = None\<rparr>, \<lparr>en_k = ''T'', en_V = pv 0 0 5, en_RowValue = None\<rparr>]\<rparr>,
      \<lparr>ir_RowNumber = [2, 0, -1, -1, -1, -1], ir_Entries =
         [\<lparr>en_k = ''S'', en_V = pv 0 1 2, en_RowValue = None\<rparr>, \<lparr>en_k = ''T'', en_V = pv 0 0 9, en_RowValue = None\<rparr>]\<rparr>,
      \<lparr>ir_RowNumber = [3, 1, -1, -1, -1, -1], ir_Entries =
         [\<lparr>en_k = ''S'', en_V = pv 1 1 2, en_RowValue = None\<rparr>, \<lparr>en_k = ''S'', en_V = pv 1 1 2, en_RowValue = None\<rparr>,
          \<lparr>en_k = ''T'', en_V = pv 0 0 6, en_RowValue = None\<rparr>]\<rparr>], [])"
proof -
  let ?qs = "[\<lparr>cq_rgs = demo_samples, cq_filter = two, cq_selectAs = ''S'', cq_sched = (\<lambda>n. 1)\<rparr>,
    \<lparr>cq_rgs = demo_times, cq_filter = None, cq_selectAs = ''T'', cq_sched = (\<lambda>n. n)\<rparr>]"
  have "?qs \<noteq> []" by simp
  moreover have "list_all (\<lambda>q. file_ok (cq_filter q) (cq_rgs q)) ?qs" by code_simp
  ultimately have "Slice (ri_iter (join_iterator column_iterator)) (NewJoinIterator 0 (query_columns ?qs :: (i64, unit) ColumnIterator list) None) =
    Some (map Some (filter (keeps None) (join_rows 0 (query_rows ?qs))), [])"
    by (rule JoinIterator_joins) simp
  moreover have "filter (keeps None) (join_rows 0 (query_rows ?qs)) =
     [\<lparr>ir_RowNumber = [0, 1, -1, -1, -1, -1], ir_Entries =
         [\<lparr>en_k = ''S'', en_V = pv 1 1 2, en_RowValue = None\<rparr>, \<lparr>en_k = ''T'', en_V = pv 0 0 5, en_RowValue = None :: unit option\<rparr>]\<rparr>,
      \<lparr>ir_RowNumber = [2, 0, -1, -1, -1, -1], ir_Entries =
         [\<lparr>en_k = ''S'', en_V = pv 0 1 2, en_RowValue = None\<rparr>, \<lparr>en_k = ''T'', en_V = pv 0 0 9, en_RowValue = None\<rparr>]\<rparr>,
      \<lparr>ir_RowNumber = [3, 1, -1, -1, -1, -1], ir_Entries =
         [\<lparr>en_k = ''S'', en_V = pv 1 1 2, en_RowValue = None\<rparr>, \<lparr>en_k = ''S'', en_V = pv 1 1 2, en_RowValue = None\<rparr>,
          \<lparr>en_k = ''T'', en_V = pv 0 0 6, en_RowValue = None\<rparr>]\<rparr>]"
    by code_simp
  ultimately show ?thesis by (simp only:)
qed

text \<open>
  C25. Pushing an integer range down to the column index and the page bounds changes nothing: on a
  well-formed file with correct statistics the filtered iterator delivers the rows of the
  unfiltered one whose value lies in the range, with the same row numbers.
\<close>

theorem IntBetween_pushdown:
  assumes "file_ok None rgs" "list_all (\<lambda>rg. chunk_stats (\<lambda>v. sint (int64 v)) (rg_ColumnChunk rg)) rgs"
  shows "Slice (ri_iter column_iterator)
      (NewColumnIterator rgs (Some (NewIntBetweenPredicate int64 pmin pmax)) selectAs sched) =
    Some (map (\<lambda>x. Some (col_row selectAs x))
      (filter (\<lambda>x. sint pmin \<le> sint (int64 (pv_value (snd x))) \<and> sint (int64 (pv_value (snd x))) \<le> sint pmax)
        (snd (number_values None EmptyRowNumber (file_values rgs)))), [])"
proof -
  let ?p = "NewIntBetweenPredicate int64 pmin pmax"
  have "file_ok (Some ?p) rgs" using int_between.pushdown_file assms by blast
  from Slice_yields[OF col.source_yields[OF NewColumnIterator_rel[OF this]]] show ?thesis
    by (simp add: column_rows_def number_values_pred NewIntBetweenPredicate_def IntBetween_KeepValue_def o_def)
qed

theorem IntBetween_pushdown_witness:
  "Slice (ri_iter column_iterator)
     (NewColumnIterator demo_times (Some (NewIntBetweenPredicate (\<lambda>x. x) 6 9)) ''T'' (\<lambda>n. 3) :: (i64, unit) ColumnIterator) =
   Some ([Some (col_row ''T'' ([1, -1, -1, -1, -1, -1], pv 0 0 7)), Some (col_row ''T'' ([2, -1, -1, -1, -1, -1], pv 0 0 9)),
          Some (col_row ''T'' ([3, -1, -1, -1, -1, -1], pv 0 0 6))], [])"
proof -
  have ok: "file_ok None demo_times" "list_all (\<lambda>rg. chunk_stats (\<lambda>v. sint v) (rg_ColumnChunk rg)) demo_times" by code_simp+
  have "map (\<lambda>x. Some (col_row ''T'' x) :: (i64 pqValue, unit) IteratorResult option)
      (filter (\<lambda>x. sint (6 :: i64) \<le> sint (pv_value (snd x)) \<and> sint (pv_value (snd x)) \<le> sint (9 :: i64))
        (snd (number_values None EmptyRowNumber (file_values demo_times)))) =
    [Some (col_row ''T'' ([1, -1, -1, -1, -1, -1], pv 0 0 7)), Some (col_row ''T'' ([2, -1, -1, -1, -1, -1], pv 0 0 9)),
     Some (col_row ''T'' ([3, -1, -1, -1, -1, -1], pv 0 0 6))]" by code_simp
  then show ?thesis using IntBetween_pushdown[OF ok, where 'b = unit, of 6 9 "''T''" "\<lambda>n. 3"] by (simp only:)
qed

text \<open>
  C26. The row numbers of a column ascend strictly, level by level, and their first component is a
  row of the file.
\<close>

theorem column_rows_bounds:
  assumes "file_ok filt rgs"
  shows "sorted_wrt (\<lambda>a b. CompareRowNumbers 5 (ir_RowNumber a) (ir_RowNumber b) = -1) (column_rows filt selectAs rgs) \<and>
    list_all (\<lambda>r. 0 \<le> ir_RowNumber r ! 0 \<and> ir_RowNumber r ! 0 < row_count (file_values rgs)) (column_rows filt selectAs rgs)"
proof -
  let ?s = "snd (number_values filt EmptyRowNumber (file_values rgs))"
  have e: "length EmptyRowNumber = 6" "EmptyRowNumber ! 0 = -1" by (simp_all add: EmptyRowNumber_def)
  have fs: "starts_row (file_values rgs)" "\<forall>v \<in> set (file_values rgs). level_ok v"
    using assms file_starts by (auto simp: file_ok_def)
  have row: "length (fst x) = 6 \<and> 0 \<le> fst x ! 0 \<and> fst x ! 0 < row_count (file_values rgs)" if "x \<in> set ?s" for x
    using number_values_rows[OF e(1) fs(2), of "fst x" "snd x" filt] number_values_first[OF fs that] that e(2) by simp
  have "sorted_wrt (\<lambda>a b. CompareRowNumbers 5 (fst a) (fst b) = -1) ?s"
    using number_values_sorted[OF e(1) fs(2)] by (rule sorted_wrt_mono_rel[rotated]) (simp add: CompareRowNumbers_keys row)
  then show ?thesis using row by (auto simp: column_rows_def sorted_wrt_map list_all_iff)
qed

theorem column_rows_bounds_witness:
  "map ir_RowNumber (column_rows two ''S'' demo_samples :: (i64 pqValue, unit) IteratorResult list) =
     [[0, 1, -1, -1, -1, -1], [2, 0, -1, -1, -1, -1], [3, 1, -1, -1, -1, -1], [3, 2, -1, -1, -1, -1]] \<and>
   sorted_wrt (\<lambda>a b. CompareRowNumbers 5 (ir_RowNumber a) (ir_RowNumber b) = -1)
     (column_rows two ''S'' demo_samples :: (i64 pqValue, unit) IteratorResult list)"
proof
  show "map ir_RowNumber (column_rows two ''S'' demo_samples :: (i64 pqValue, unit) IteratorResult list) =
     [[0, 1, -1, -1, -1, -1], [2, 0, -1, -1, -1, -1], [3, 1, -1, -1, -1, -1], [3, 2, -1, -1, -1, -1]]"
    by code_simp
  have "file_ok two demo_samples" by code_simp
  then show "sorted_wrt (\<lambda>a b. CompareRowNumbers 5 (ir_RowNumber a) (ir_RowNumber b) = -1)
     (column_rows two ''S'' demo_samples :: (i64 pqValue, unit) IteratorResult list)"
    using column_rows_bounds by blast
qed

end
