(* ===== verification/Matcher_Postings.thy ===== *)
theory Matcher_Postings
  imports Postings_Sets Inverted_Index Iterators
begin

section \<open>Selecting series in the index of a block (pkg/phlaredb/querier.go)\<close>

text \<open>
  \<open>PostingsForMatchers\<close> turns label matchers into one postings iterator over an \<open>IndexReader\<close>.
  The reader is an interface, a record of the methods that are called here; \<open>serves\<close> is what its
  documentation promises for an index with the series \<open>S\<close>.  The matchers are those of Prometheus:
  \<open>Matches\<close>, \<open>Inverse\<close> and \<open>GetRegexString\<close> are parameters (\<open>matchers_ok\<close> is what is documented
  of them).
\<close>

text \<open>The entry of a series in the index of a block.\<close>

record ChunkMeta =
  cm_Checksum :: u32
  cm_MinTime :: i64
  cm_MaxTime :: i64
  cm_KB :: u32
  cm_SeriesIndex :: u32

record 's IndexReader =
  ix_LabelValues :: "string \<Rightarrow> errs + string list"
  ix_Postings :: "string \<Rightarrow> 's option \<Rightarrow> string list \<Rightarrow> errs + postings"
  ix_Series :: "u64 \<Rightarrow> errs + (u64 \<times> labels \<times> ChunkMeta list)"

record matcher_lib =
  ml_Matches :: "matcher \<Rightarrow> string \<Rightarrow> bool"
  ml_Inverse :: "matcher \<Rightarrow> errs + matcher"
  ml_GetRegexString :: "matcher \<Rightarrow> string"

text \<open>The loop that collects the matching values and notices whether they are sorted.\<close>

fun match_loop :: "(string \<Rightarrow> bool) \<Rightarrow> string list \<Rightarrow> string list \<Rightarrow> string \<Rightarrow> bool \<Rightarrow> string list \<times> bool" where
  "match_loop P [] res lastVal isSorted = (res, isSorted)"
| "match_loop P (val # vals) res lastVal isSorted =
     (if P val then match_loop P vals (res @ [val]) val (if isSorted \<and> val < lastVal then False else isSorted)
      else match_loop P vals res lastVal isSorted)"

definition postingsForMatcher :: "matcher_lib \<Rightarrow> 's IndexReader \<Rightarrow> 's option \<Rightarrow> matcher \<Rightarrow> errs + postings" where
  "postingsForMatcher ml ix shard m =
     (let setMatches = FindSetMatches (ml_GetRegexString ml m)
      in if m_Type m = MatchEqual then ix_Postings ix (m_Name m) shard [m_Value m]
         else if m_Type m = MatchRegexp \<and> length setMatches > 0 then ix_Postings ix (m_Name m) shard (sort setMatches)
         else (case ix_LabelValues ix (m_Name m) of
            Inl err \<Rightarrow> Inl err
          | Inr vals \<Rightarrow>
              (case match_loop (ml_Matches ml m) vals [] '''' True of (res, isSorted) \<Rightarrow>
                 if length res = 0 then Inr EmptyPostings
                 else ix_Postings ix (m_Name m) shard (if \<not> isSorted then sort res else res))))"

definition inversePostingsForMatcher :: "matcher_lib \<Rightarrow> 's IndexReader \<Rightarrow> 's option \<Rightarrow> matcher \<Rightarrow> errs + postings" where
  "inversePostingsForMatcher ml ix shard m =
     (case ix_LabelValues ix (m_Name m) of
        Inl err \<Rightarrow> Inl err
      | Inr vals \<Rightarrow>
          (case match_loop (\<lambda>v. \<not> ml_Matches ml m v) vals [] '''' True of (res, isSorted) \<Rightarrow>
             ix_Postings ix (m_Name m) shard (if \<not> isSorted then sort res else res)))"

text \<open>The iterators to intersect and the ones to subtract, matcher by matcher.\<close>

definition matcher_its :: "matcher_lib \<Rightarrow> 's IndexReader \<Rightarrow> 's option \<Rightarrow> string set \<Rightarrow> matcher \<Rightarrow>
    errs + (postings list \<times> postings list)" where
  "matcher_its ml ix shard labelMustBeSet m =
     (if m_Name m \<in> labelMustBeSet then
        let matchesEmpty = ml_Matches ml m '''';
            isNot = (m_Type m = MatchNotEqual \<or> m_Type m = MatchNotRegexp)
        in if isNot \<and> matchesEmpty then
             (case ml_Inverse ml m of
                Inl err \<Rightarrow> Inl err
              | Inr im \<Rightarrow> (case postingsForMatcher ml ix shard im of Inl err \<Rightarrow> Inl err | Inr it \<Rightarrow> Inr ([], [it])))
           else if isNot \<and> \<not> matchesEmpty then
             (case ml_Inverse ml m of
                Inl err \<Rightarrow> Inl err
              | Inr im \<Rightarrow> (case inversePostingsForMatcher ml ix shard im of Inl err \<Rightarrow> Inl err | Inr it \<Rightarrow> Inr ([it], [])))
           else (case postingsForMatcher ml ix shard m of Inl err \<Rightarrow> Inl err | Inr it \<Rightarrow> Inr ([it], []))
      else (case inversePostingsForMatcher ml ix shard m of Inl err \<Rightarrow> Inl err | Inr it \<Rightarrow> Inr ([], [it])))"

fun matchers_its :: "matcher_lib \<Rightarrow> 's IndexReader \<Rightarrow> 's option \<Rightarrow> string set \<Rightarrow> matcher list \<Rightarrow>
    postings list \<Rightarrow> postings list \<Rightarrow> errs + (postings list \<times> postings list)" where
  "matchers_its ml ix shard must [] its notIts = Inr (its, notIts)"
| "matchers_its ml ix shard must (m # ms) its notIts =
     (case matcher_its ml ix shard must m of
        Inl err \<Rightarrow> Inl err
      | Inr (a, b) \<Rightarrow> matchers_its ml ix shard must ms (its @ a) (notIts @ b))"

definition PostingsForMatchers :: "matcher_lib \<Rightarrow> 's IndexReader \<Rightarrow> 's option \<Rightarrow> matcher list \<Rightarrow> errs + postings" where
  "PostingsForMatchers ml ix shard ms =
     (let labelMustBeSet = set (map m_Name (filter (\<lambda>m. \<not> ml_Matches ml m '''') ms))
      in case matchers_its ml ix shard labelMustBeSet ms [] [] of
           Inl err \<Rightarrow> Inl err
         | Inr (its, notIts) \<Rightarrow>
             (case (if length its = 0 \<and> length notIts \<noteq> 0
                    then (case ix_Postings ix '''' shard [''''] of Inl err \<Rightarrow> Inl err | Inr allPostings \<Rightarrow> Inr (its @ [allPostings]))
                    else Inr its) of
                Inl err \<Rightarrow> Inl err
              | Inr its \<Rightarrow> Inr (foldl Without (Intersect its) notIts)))"

subsection \<open>Contracts\<close>

definition postings_of :: "nat \<Rightarrow> nat \<Rightarrow> u64 set \<Rightarrow> errs + postings \<Rightarrow> bool" where
  "postings_of B k X r = (\<exists>p. r = Inr p \<and> fresh B k p \<and> seekable p \<and> sticky p \<and> elems p = X)"

definition serves :: "nat \<Rightarrow> nat \<Rightarrow> 's IndexReader \<Rightarrow> 's option \<Rightarrow> registry \<Rightarrow> bool" where
  "serves B k ix shard S =
     ((\<forall>n. n \<noteq> '''' \<longrightarrow> (\<exists>vals. ix_LabelValues ix n = Inr vals \<and> set vals = {v. \<exists>ref. holds S ref n v})) \<and>
      (\<forall>n vs. n \<noteq> '''' \<and> sorted vs \<longrightarrow> postings_of B k {ref. \<exists>v \<in> set vs. holds S ref n v} (ix_Postings ix n shard vs)) \<and>
      postings_of B k (dom S) (ix_Postings ix '''' shard ['''']))"

definition matcher_ok :: "matcher_lib \<Rightarrow> matcher \<Rightarrow> bool" where
  "matcher_ok ml m =
     ((m_Type m = MatchEqual \<longrightarrow> (\<forall>v. ml_Matches ml m v \<longleftrightarrow> v = m_Value m)) \<and>
      (m_Type m = MatchRegexp \<and> FindSetMatches (ml_GetRegexString ml m) \<noteq> [] \<longrightarrow>
         (\<forall>v. v \<noteq> '''' \<longrightarrow> (ml_Matches ml m v \<longleftrightarrow> v \<in> set (FindSetMatches (ml_GetRegexString ml m))))))"

definition matchers_ok :: "matcher_lib \<Rightarrow> bool" where
  "matchers_ok ml =
     ((\<forall>m. matcher_ok ml m) \<and>
      (\<forall>m. \<exists>m'. ml_Inverse ml m = Inr m' \<and> m_Name m' = m_Name m \<and> (\<forall>v. ml_Matches ml m' v \<longleftrightarrow> \<not> ml_Matches ml m v)))"

definition label_value :: "registry \<Rightarrow> u64 \<Rightarrow> string \<Rightarrow> string" where
  "label_value S ref n = (case S ref of Some ls \<Rightarrow> Labels_Get ls n | None \<Rightarrow> '''')"

subsection \<open>What the parts select\<close>

definition with_value :: "registry \<Rightarrow> string \<Rightarrow> (string \<Rightarrow> bool) \<Rightarrow> u64 set" where
  "with_value S n P = {ref. \<exists>v. holds S ref n v \<and> P v}"

lemma match_loop_fst: "fst (match_loop P vals res lastVal b) = res @ filter P vals"
  by (induction vals arbitrary: res lastVal b) auto

lemma match_loop_unsorted: "\<not> snd (match_loop P vals res lastVal False)"
  by (induction vals arbitrary: res lastVal) auto

lemma match_loop_sorted:
  "sorted res \<Longrightarrow> (\<forall>v \<in> set res. v \<le> lastVal) \<Longrightarrow> snd (match_loop P vals res lastVal b) \<Longrightarrow> sorted (res @ filter P vals)"
proof (induction vals arbitrary: res lastVal b)
  case (Cons val vals)
  show ?case
  proof (cases "P val")
    case True
    show ?thesis
    proof (cases "val < lastVal")
      case lt: True
      then show ?thesis using Cons.prems(3) True match_loop_unsorted by (cases b) auto
    next
      case False
      then have "sorted (res @ [val])" "\<forall>v \<in> set (res @ [val]). v \<le> val"
        using Cons.prems(1,2) by (auto simp: sorted_append)
      then show ?thesis using Cons.IH[of "res @ [val]" val b] Cons.prems(3) True False by auto
    qed
  next
    case False
    then show ?thesis using Cons by auto
  qed
qed simp

lemma match_loop_values:
  assumes "match_loop P vals [] '''' True = (res, b)"
  shows "res = filter P vals" "sorted (if \<not> b then sort res else res)" "set (if \<not> b then sort res else res) = set (filter P vals)"
  using match_loop_fst[of P vals "[]" "''''" True] match_loop_sorted[of "[]" "''''" P vals True] assms by auto

lemma served_values:
  assumes "serves B k ix shard S" "n \<noteq> ''''"
  obtains vals where "ix_LabelValues ix n = Inr vals" "set vals = {v. \<exists>ref. holds S ref n v}"
  using assms unfolding serves_def by blast

lemma served_postings:
  "serves B k ix shard S \<Longrightarrow> n \<noteq> '''' \<Longrightarrow> sorted vs \<Longrightarrow> postings_of B k (with_value S n (\<lambda>v. v \<in> set vs)) (ix_Postings ix n shard vs)"
  by (simp add: serves_def with_value_def Bex_def conj_commute)

lemma with_value_cong: "(\<And>ref v. holds S ref n v \<Longrightarrow> P v \<longleftrightarrow> Q v) \<Longrightarrow> with_value S n P = with_value S n Q"
  by (auto simp: with_value_def)

lemma postingsForMatcher_ok:
  assumes sv: "serves B k ix shard S" and B: "0 < B" and ok: "matcher_ok ml m" and ne: "no_empty_values S" and n: "m_Name m \<noteq> ''''"
  shows "postings_of B k (with_value S (m_Name m) (ml_Matches ml m)) (postingsForMatcher ml ix shard m)"
proof -
  let ?n = "m_Name m"
  let ?sets = "FindSetMatches (ml_GetRegexString ml m)"
  have nonempty: "v \<noteq> ''''" if "holds S ref ?n v" for ref v using ne that by (auto simp: no_empty_values_def)
  consider (eq) "m_Type m = MatchEqual" | (sets) "m_Type m = MatchRegexp" "?sets \<noteq> []"
    | (vals) "m_Type m \<noteq> MatchEqual" "\<not> (m_Type m = MatchRegexp \<and> length ?sets > 0)" by auto
  then show ?thesis
  proof cases
    case eq
    then have "with_value S ?n (ml_Matches ml m) = with_value S ?n (\<lambda>v. v \<in> set [m_Value m])"
      using ok by (intro with_value_cong) (auto simp: matcher_ok_def)
    then show ?thesis using served_postings[OF sv n, of "[m_Value m]"] eq by (simp add: postingsForMatcher_def Let_def)
  next
    case sets
    then have "with_value S ?n (ml_Matches ml m) = with_value S ?n (\<lambda>v. v \<in> set (sort ?sets))"
      using ok nonempty by (intro with_value_cong) (auto simp: matcher_ok_def)
    then show ?thesis using served_postings[OF sv n, of "sort ?sets"] sets by (simp add: postingsForMatcher_def Let_def)
  next
    case vals
    obtain vs where vs: "ix_LabelValues ix ?n = Inr vs" "set vs = {v. \<exists>ref. holds S ref ?n v}" using served_values[OF sv n] .
    obtain res b where rb: "match_loop (ml_Matches ml m) vs [] '''' True = (res, b)" by fastforce
    note mv = match_loop_values[OF rb]
    have w: "with_value S ?n (ml_Matches ml m) = with_value S ?n (\<lambda>v. v \<in> set (if \<not> b then sort res else res))"
      unfolding mv(3) using vs(2) by (intro with_value_cong) auto
    have eq: "postingsForMatcher ml ix shard m =
        (if length res = 0 then Inr EmptyPostings else ix_Postings ix ?n shard (if \<not> b then sort res else res))"
      unfolding postingsForMatcher_def Let_def if_not_P[OF vals(1)] if_not_P[OF vals(2)] vs(1) sum.case rb prod.case ..
    show ?thesis
    proof (cases "res = []")
      case True
      then have "with_value S ?n (ml_Matches ml m) = {}" unfolding w by (simp add: with_value_def)
      then show ?thesis using EmptyPostings_fresh[OF B, of k] True eq by (simp add: postings_of_def EmptyPostings_def)
    next
      case False
      then show ?thesis using served_postings[OF sv n mv(2)] unfolding w eq by simp
    qed
  qed
qed

lemma inversePostingsForMatcher_ok:
  assumes sv: "serves B k ix shard S" and n: "m_Name m \<noteq> ''''"
  shows "postings_of B k (with_value S (m_Name m) (\<lambda>v. \<not> ml_Matches ml m v)) (inversePostingsForMatcher ml ix shard m)"
proof -
  let ?n = "m_Name m"
  obtain vs where vs: "ix_LabelValues ix ?n = Inr vs" "set vs = {v. \<exists>ref. holds S ref ?n v}" using served_values[OF sv n] .
  obtain res b where rb: "match_loop (\<lambda>v. \<not> ml_Matches ml m v) vs [] '''' True = (res, b)" by fastforce
  note mv = match_loop_values[OF rb]
  have w: "with_value S ?n (\<lambda>v. \<not> ml_Matches ml m v) = with_value S ?n (\<lambda>v. v \<in> set (if \<not> b then sort res else res))"
    unfolding mv(3) using vs(2) by (intro with_value_cong) auto
  show ?thesis using served_postings[OF sv n mv(2)] unfolding w by (simp add: inversePostingsForMatcher_def vs(1) rb)
qed

subsection \<open>Putting them together\<close>

lemma holds_label_value:
  assumes "well_labelled S" "no_empty_values S"
  shows "holds S ref n v \<longleftrightarrow> v \<noteq> '''' \<and> ref \<in> dom S \<and> label_value S ref n = v"
proof
  assume h: "holds S ref n v"
  then obtain ls l where ls: "S ref = Some ls" "l \<in> set ls" "lp_Name l = n" "lp_Value l = v" by (auto simp: holds_def)
  have "distinct (map lp_Name ls)" using assms(1) ls(1) by (auto simp: well_labelled_def ran_def)
  then have "Labels_Get ls n = v" using ls(2-4) by (induction ls) auto
  then show "v \<noteq> '''' \<and> ref \<in> dom S \<and> label_value S ref n = v"
    using ls(1) h assms(2) by (auto simp: label_value_def no_empty_values_def)
next
  assume a: "v \<noteq> '''' \<and> ref \<in> dom S \<and> label_value S ref n = v"
  then obtain ls where ls: "S ref = Some ls" "Labels_Get ls n = v" by (auto simp: label_value_def)
  then have "n \<in> lp_Name ` set ls" using a Labels_Get_notin by fastforce
  then show "holds S ref n v" using Labels_Get_in ls by (fastforce simp: holds_def)
qed

lemma with_value_eq:
  "well_labelled S \<Longrightarrow> no_empty_values S \<Longrightarrow>
   with_value S n P = {ref \<in> dom S. label_value S ref n \<noteq> '''' \<and> P (label_value S ref n)}"
  by (auto simp: with_value_def holds_label_value)

definition matched :: "matcher_lib \<Rightarrow> registry \<Rightarrow> u64 \<Rightarrow> matcher \<Rightarrow> bool" where
  "matched ml S ref m = ml_Matches ml m (label_value S ref (m_Name m))"

definition good_postings :: "nat \<Rightarrow> nat \<Rightarrow> registry \<Rightarrow> postings \<Rightarrow> bool" where
  "good_postings B k S p = (fresh B k p \<and> seekable p \<and> sticky p \<and> elems p \<subseteq> dom S)"

text \<open>What the iterators of one matcher contribute.\<close>

definition passes :: "postings list \<Rightarrow> postings list \<Rightarrow> u64 \<Rightarrow> bool" where
  "passes a b ref = ((\<forall>p \<in> set a. ref \<in> elems p) \<and> (\<forall>p \<in> set b. ref \<notin> elems p))"

lemma passes_append: "passes (a @ a') (b @ b') ref \<longleftrightarrow> passes a b ref \<and> passes a' b' ref"
  by (auto simp: passes_def)

definition contributes :: "matcher_lib \<Rightarrow> registry \<Rightarrow> string set \<Rightarrow> matcher \<Rightarrow> postings list \<Rightarrow> postings list \<Rightarrow> bool" where
  "contributes ml S must m a b =
     ((a \<noteq> [] \<or> b \<noteq> []) \<and>
      (\<forall>ref \<in> dom S.
         (passes a b ref \<longrightarrow> matched ml S ref m) \<and>
         (matched ml S ref m \<and> (m_Name m \<in> must \<longrightarrow> label_value S ref (m_Name m) \<noteq> '''') \<longrightarrow>
            passes a b ref)))"

lemma matcher_its_ok:
  assumes sv: "serves B k ix shard S" and B: "0 < B" and ml: "matchers_ok ml" and S: "well_labelled S" "no_empty_values S"
    and n: "m_Name m \<noteq> ''''" and must: "m_Name m \<notin> must \<Longrightarrow> ml_Matches ml m ''''"
  shows "\<exists>a b. matcher_its ml ix shard must m = Inr (a, b) \<and> contributes ml S must m a b \<and>
    (\<forall>p \<in> set (a @ b). good_postings B k S p)"
proof -
  note we = with_value_eq[OF S]
  obtain im where im: "ml_Inverse ml m = Inr im" "m_Name im = m_Name m" "\<And>v. ml_Matches ml im v \<longleftrightarrow> \<not> ml_Matches ml m v"
    using ml unfolding matchers_ok_def by blast
  have imf: "ml_Matches ml im = (\<lambda>v. \<not> ml_Matches ml m v)" using im(3) by blast
  have ok: "matcher_ok ml x" for x using ml by (simp add: matchers_ok_def)
  let ?isNot = "m_Type m = MatchNotEqual \<or> m_Type m = MatchNotRegexp"
  consider (a) "m_Name m \<in> must" "?isNot" "ml_Matches ml m ''''" | (b) "m_Name m \<in> must" "?isNot" "\<not> ml_Matches ml m ''''"
    | (c) "m_Name m \<in> must" "\<not> ?isNot" | (d) "m_Name m \<notin> must" by blast
  then show ?thesis
  proof cases
    case a
    obtain p where p: "postingsForMatcher ml ix shard im = Inr p" "fresh B k p" "seekable p" "sticky p"
      "elems p = with_value S (m_Name m) (\<lambda>v. \<not> ml_Matches ml m v)"
      using postingsForMatcher_ok[OF sv B ok[of im] S(2)] n im(2) imf by (auto simp: postings_of_def)
    show ?thesis
      by (rule exI[of _ "[]"], rule exI[of _ "[p]"])
        (use a im(1) p in \<open>auto simp: matcher_its_def contributes_def passes_def matched_def good_postings_def we\<close>)
  next
    case b
    obtain p where p: "inversePostingsForMatcher ml ix shard im = Inr p" "fresh B k p" "seekable p" "sticky p"
      "elems p = with_value S (m_Name m) (ml_Matches ml m)"
      using inversePostingsForMatcher_ok[OF sv, where m = im and ml = ml] n im by (auto simp: postings_of_def)
    show ?thesis
      by (rule exI[of _ "[p]"], rule exI[of _ "[]"])
        (use b im(1) p in \<open>auto simp: matcher_its_def contributes_def passes_def matched_def good_postings_def we\<close>)
  next
    case c
    obtain p where p: "postingsForMatcher ml ix shard m = Inr p" "fresh B k p" "seekable p" "sticky p"
      "elems p = with_value S (m_Name m) (ml_Matches ml m)"
      using postingsForMatcher_ok[OF sv B ok[of m] S(2) n] by (auto simp: postings_of_def)
    show ?thesis
      by (rule exI[of _ "[p]"], rule exI[of _ "[]"])
        (use c p in \<open>auto simp: matcher_its_def contributes_def passes_def matched_def good_postings_def we\<close>)
  next
    case d
    obtain p where p: "inversePostingsForMatcher ml ix shard m = Inr p" "fresh B k p" "seekable p" "sticky p"
      "elems p = with_value S (m_Name m) (\<lambda>v. \<not> ml_Matches ml m v)"
      using inversePostingsForMatcher_ok[OF sv n, where ml = ml] by (auto simp: postings_of_def)
    show ?thesis
      by (rule exI[of _ "[]"], rule exI[of _ "[p]"])
        (use d must p in \<open>auto simp: matcher_its_def contributes_def passes_def matched_def good_postings_def we\<close>)
  qed
qed

lemma matchers_its_ok:
  assumes sv: "serves B k ix shard S" and B: "0 < B" and ml: "matchers_ok ml" and S: "well_labelled S" "no_empty_values S"
    and "\<forall>m \<in> set ms. m_Name m \<noteq> '''' \<and> (m_Name m \<notin> must \<longrightarrow> ml_Matches ml m '''')"
  shows "\<exists>a b. matchers_its ml ix shard must ms its notIts = Inr (its @ a, notIts @ b) \<and>
    (\<forall>p \<in> set (a @ b). good_postings B k S p) \<and> (ms \<noteq> [] \<longrightarrow> a \<noteq> [] \<or> b \<noteq> []) \<and>
    (\<forall>ref \<in> dom S.
       (passes a b ref \<longrightarrow> (\<forall>m \<in> set ms. matched ml S ref m)) \<and>
       ((\<forall>m \<in> set ms. matched ml S ref m \<and> (m_Name m \<in> must \<longrightarrow> label_value S ref (m_Name m) \<noteq> '''')) \<longrightarrow>
          passes a b ref))"
  using assms(6)
proof (induction ms arbitrary: its notIts)
  case Nil
  then show ?case by (intro exI[of _ "[]"]) (simp add: passes_def)
next
  case (Cons m ms)
  obtain a b where ab: "matcher_its ml ix shard must m = Inr (a, b)" "contributes ml S must m a b"
    "\<forall>p \<in> set (a @ b). good_postings B k S p"
    using matcher_its_ok[OF sv B ml S, of m must] Cons.prems by auto
  obtain a' b' where ab': "matchers_its ml ix shard must ms (its @ a) (notIts @ b) = Inr ((its @ a) @ a', (notIts @ b) @ b')"
    "\<forall>p \<in> set (a' @ b'). good_postings B k S p"
    "\<forall>ref \<in> dom S.
       (passes a' b' ref \<longrightarrow> (\<forall>m \<in> set ms. matched ml S ref m)) \<and>
       ((\<forall>m \<in> set ms. matched ml S ref m \<and> (m_Name m \<in> must \<longrightarrow> label_value S ref (m_Name m) \<noteq> '''')) \<longrightarrow>
          passes a' b' ref)"
    using Cons.IH[of "its @ a" "notIts @ b"] Cons.prems by auto
  show ?case
    by (rule exI[of _ "a @ a'"], rule exI[of _ "b @ b'"])
      (use ab ab' in \<open>auto simp: contributes_def passes_append\<close>)
qed

lemma Without_all:
  assumes "fresh B k p" "\<forall>q \<in> set ns. fresh B k' q \<and> sticky q \<and> seekable q" "k' \<le> k"
  shows "\<exists>k. fresh B k (foldl Without p ns) \<and> elems (foldl Without p ns) = elems p - \<Union> (elems ` set ns)"
  using assms
proof (induction ns arbitrary: p k)
  case (Cons q ns)
  have q: "fresh B k q" "sticky q" "seekable q" using Cons.prems(2,3) valid_mono by (auto simp: fresh_def)
  have w: "fresh B (Suc k) (Without p q)" "elems (Without p q) = elems p - elems q"
    using Without_fresh[OF Cons.prems(1) q] by auto
  have "k' \<le> Suc k" using Cons.prems(3) by simp
  from Cons.IH[OF w(1) _ this] Cons.prems(2) w(2) show ?case by auto
qed auto

lemma PostingsForMatchers_ok:
  assumes sv: "serves B k ix shard S" and B: "0 < B" and ml: "matchers_ok ml" and S: "well_labelled S" "no_empty_values S"
    and ms: "ms \<noteq> []" "\<forall>m \<in> set ms. m_Name m \<noteq> ''''"
  shows "\<exists>p k. PostingsForMatchers ml ix shard ms = Inr p \<and> fresh B k p \<and>
    elems p = {ref \<in> dom S. \<forall>m \<in> set ms. matched ml S ref m}"
proof -
  let ?must = "set (map m_Name (filter (\<lambda>m. \<not> ml_Matches ml m '''') ms))"
  have "\<forall>m \<in> set ms. m_Name m \<noteq> '''' \<and> (m_Name m \<notin> ?must \<longrightarrow> ml_Matches ml m '''')" using ms(2) by auto
  from matchers_its_ok[OF sv B ml S this, of "[]" "[]", unfolded append_Nil] obtain a b where
    ab: "matchers_its ml ix shard ?must ms [] [] = Inr (a, b)" "\<forall>p \<in> set (a @ b). good_postings B k S p" "ms \<noteq> [] \<longrightarrow> a \<noteq> [] \<or> b \<noteq> []"
    and both: "\<forall>ref \<in> dom S.
       (passes a b ref \<longrightarrow> (\<forall>m \<in> set ms. matched ml S ref m)) \<and>
       ((\<forall>m \<in> set ms. matched ml S ref m \<and> (m_Name m \<in> ?must \<longrightarrow> label_value S ref (m_Name m) \<noteq> [])) \<longrightarrow>
          passes a b ref)"
    by blast
  have sound: "\<forall>m \<in> set ms. matched ml S ref m" if "ref \<in> dom S" "passes a b ref" for ref
    using both that by blast
  have complete: "passes a b ref"
    if "ref \<in> dom S" "\<forall>m \<in> set ms. matched ml S ref m \<and> (m_Name m \<in> ?must \<longrightarrow> label_value S ref (m_Name m) \<noteq> [])" for ref
    using both that by blast
  have iff: "passes a b ref \<longleftrightarrow> (\<forall>m \<in> set ms. matched ml S ref m)" if ref: "ref \<in> dom S" for ref
  proof
    assume all: "\<forall>m \<in> set ms. matched ml S ref m"
    have "label_value S ref (m_Name m) \<noteq> ''''" if must: "m_Name m \<in> ?must" for m
    proof -
      obtain m' where "m' \<in> set ms" "m_Name m' = m_Name m" "\<not> ml_Matches ml m' ''''" using must by auto
      then show ?thesis using all by (auto simp: matched_def)
    qed
    then show "passes a b ref" using complete[OF ref] all by blast
  qed (rule sound[OF ref])
  obtain p0 where p0: "ix_Postings ix '''' shard [''''] = Inr p0" "fresh B k p0" "seekable p0" "elems p0 = dom S"
    using sv by (auto simp: serves_def postings_of_def)
  let ?its = "if a = [] then [p0] else a"
  have its: "?its \<noteq> []" "\<forall>p \<in> set ?its. fresh B k p \<and> seekable p" using ab(2) p0 by (auto simp: good_postings_def)
  have eq: "PostingsForMatchers ml ix shard ms = Inr (foldl Without (Intersect ?its) b)"
    unfolding PostingsForMatchers_def Let_def ab(1) using ab(3) ms(1) p0(1) by (cases a) simp_all
  have I: "fresh B (Suc k) (Intersect ?its)" "elems (Intersect ?its) = \<Inter> (elems ` set ?its)"
    using Intersect_fresh[OF its] by blast+
  have "\<forall>q \<in> set b. fresh B k q \<and> sticky q \<and> seekable q" using ab(2) by (auto simp: good_postings_def)
  from Without_all[OF I(1) this] obtain k' where
    W: "fresh B k' (foldl Without (Intersect ?its) b)" "elems (foldl Without (Intersect ?its) b) = elems (Intersect ?its) - \<Union> (elems ` set b)"
    by auto
  have "\<Inter> (elems ` set ?its) \<subseteq> dom S" using its(1) ab(2) p0(4) by (cases a) (auto simp: good_postings_def)
  then have "\<Inter> (elems ` set ?its) - \<Union> (elems ` set b) = {ref \<in> dom S. passes a b ref}"
    using p0(4) by (cases "a = []") (auto simp: passes_def)
  then have "elems (foldl Without (Intersect ?its) b) = {ref \<in> dom S. passes a b ref}" unfolding W(2) I(2) .
  then have "elems (foldl Without (Intersect ?its) b) = {ref \<in> dom S. \<forall>m \<in> set ms. matched ml S ref m}" using iff by blast
  with eq W(1) show ?thesis by blast
qed

subsection \<open>An index\<close>

text \<open>A reader over a list of series, and the matchers without other regular expressions than sets.\<close>

definition list_reader :: "(u64 \<times> labels) list \<Rightarrow> unit IndexReader" where
  "list_reader sers =
     \<lparr>ix_LabelValues = (\<lambda>n. Inr (sort (remdups [lp_Value l. (ref, ls) \<leftarrow> sers, l \<leftarrow> ls, lp_Name l = n]))),
      ix_Postings = (\<lambda>n shard vs.
        Inr (SliceP (sort (remdups [ref. (ref, ls) \<leftarrow> sers, n = '''' \<or> list_ex (\<lambda>l. lp_Name l = n \<and> lp_Value l \<in> set vs) ls])) 0)),
      ix_Series = (\<lambda>ref.
        case map_of sers ref of
          Some ls \<Rightarrow> Inr (ref, ls, [\<lparr>cm_Checksum = 0, cm_MinTime = 0, cm_MaxTime = 0, cm_KB = 0, cm_SeriesIndex = ucast ref\<rparr>])
        | None \<Rightarrow> Inl [''not found''])\<rparr>"

definition set_lib :: matcher_lib where
  "set_lib =
     \<lparr>ml_Matches = (\<lambda>m v.
        case m_Type m of
          MatchEqual \<Rightarrow> v = m_Value m
        | MatchNotEqual \<Rightarrow> v \<noteq> m_Value m
        | MatchRegexp \<Rightarrow> v \<in> set (FindSetMatches (m_Value m))
        | MatchNotRegexp \<Rightarrow> v \<notin> set (FindSetMatches (m_Value m))),
      ml_Inverse = (\<lambda>m. Inr (m\<lparr>m_Type :=
        (case m_Type m of MatchEqual \<Rightarrow> MatchNotEqual | MatchNotEqual \<Rightarrow> MatchEqual
         | MatchRegexp \<Rightarrow> MatchNotRegexp | MatchNotRegexp \<Rightarrow> MatchRegexp)\<rparr>)),
      ml_GetRegexString = m_Value\<rparr>"

lemma set_lib_ok: "matchers_ok set_lib"
proof -
  have "\<exists>m'. ml_Inverse set_lib m = Inr m' \<and> m_Name m' = m_Name m \<and> (\<forall>v. ml_Matches set_lib m' v \<longleftrightarrow> \<not> ml_Matches set_lib m v)" for m
    by (cases "m_Type m") (simp_all add: set_lib_def)
  then show ?thesis by (simp add: matchers_ok_def matcher_ok_def set_lib_def)
qed

lemma list_reader_serves:
  assumes "distinct (map fst sers)" "\<forall>(ref, ls) \<in> set sers. 0 < ref \<and> unat ref < B \<and> (\<forall>l \<in> set ls. lp_Name l \<noteq> '''')" "0 < B"
  shows "serves B k (list_reader sers) shard (map_of sers)"
proof -
  have mo: "map_of sers ref = Some ls \<longleftrightarrow> (ref, ls) \<in> set sers" for ref ls using assms(1) by simp
  have h: "holds (map_of sers) ref n v \<longleftrightarrow> (\<exists>ls. (ref, ls) \<in> set sers \<and> (\<exists>l \<in> set ls. lp_Name l = n \<and> lp_Value l = v))" for ref n v
    unfolding holds_def mo ..
  have slice: "postings_of B k (set xs) (Inr (SliceP (sort (remdups xs)) 0))" if "set xs \<subseteq> fst ` set sers" for xs
  proof -
    have "0 < x \<and> unat x < B" if x: "x \<in> set xs" for x
    proof -
      obtain ls where "(x, ls) \<in> set sers" using x \<open>set xs \<subseteq> fst ` set sers\<close> by auto
      then show ?thesis using assms(2) by auto
    qed
    then have "leaf B (SliceP (sort (remdups xs)) 0)" using assms(3) by (simp add: strict_sorted_iff)
    from fresh_slice[OF this] elems_slice[OF this] show ?thesis by (simp add: postings_of_def)
  qed
  show ?thesis
    unfolding serves_def
  proof (intro conjI allI impI)
    fix n :: string
    show "\<exists>vals. ix_LabelValues (list_reader sers) n = Inr vals \<and> set vals = {v. \<exists>ref. holds (map_of sers) ref n v}"
      by (auto simp: list_reader_def h)
  next
    fix n :: string and vs :: "string list" assume "n \<noteq> '''' \<and> sorted vs"
    then have sel: "set [ref. (ref, ls) \<leftarrow> sers, n = '''' \<or> list_ex (\<lambda>l. lp_Name l = n \<and> lp_Value l \<in> set vs) ls] =
        {ref. \<exists>v \<in> set vs. holds (map_of sers) ref n v}" by (auto simp: h list_ex_iff)
    have sub: "set [ref. (ref, ls) \<leftarrow> sers, n = '''' \<or> list_ex (\<lambda>l. lp_Name l = n \<and> lp_Value l \<in> set vs) ls] \<subseteq> fst ` set sers" by force
    show "postings_of B k {ref. \<exists>v \<in> set vs. holds (map_of sers) ref n v} (ix_Postings (list_reader sers) n shard vs)"
      using slice[OF sub] unfolding sel by (simp add: list_reader_def)
  next
    have sel: "set [ref. (ref, ls) \<leftarrow> sers, '''' = '''' \<or> list_ex (\<lambda>l. lp_Name l = '''' \<and> lp_Value l \<in> set ['''']) ls] = dom (map_of sers)"
      by (force simp: dom_map_of_conv_image_fst)
    have sub: "set [ref. (ref, ls) \<leftarrow> sers, '''' = '''' \<or> list_ex (\<lambda>l. lp_Name l = '''' \<and> lp_Value l \<in> set ['''']) ls] \<subseteq> fst ` set sers" by force
    show "postings_of B k (dom (map_of sers)) (ix_Postings (list_reader sers) '''' shard [''''])"
      using slice[OF sub] unfolding sel by (simp add: list_reader_def)
  qed
qed

subsection \<open>Properties\<close>

text \<open>
  C27. \<open>PostingsForMatchers\<close>: over an index reader that serves the series \<open>S\<close>, the iterator built
  for a non-empty list of matchers expands, without error, to the references of exactly the series
  whose labels satisfy every matcher, ascending; a label that a series does not have counts as
  empty, so negative matchers and matchers that accept the empty string select series without it.
\<close>

theorem PostingsForMatchers_exact:
  assumes "serves B k ix shard S" "0 < B" "matchers_ok ml" "well_labelled S" "no_empty_values S"
    and "ms \<noteq> []" "\<forall>m \<in> set ms. m_Name m \<noteq> ''''"
  shows "\<exists>p n. PostingsForMatchers ml ix shard ms = Inr p \<and>
    ExpandPostings n p =
      Some (sorted_list_of_set {ref \<in> dom S. \<forall>m \<in> set ms. ml_Matches ml m (label_value S ref (m_Name m))}, None)"
  using PostingsForMatchers_ok[OF assms] expand_valid unfolding fresh_def matched_def by metis

theorem PostingsForMatchers_exact_witness:
  "\<exists>p n. PostingsForMatchers set_lib (list_reader
       [(4, [\<lparr>lp_Name = ''job'', lp_Value = ''a''\<rparr>]), (8, [\<lparr>lp_Name = ''job'', lp_Value = ''b''\<rparr>, \<lparr>lp_Name = ''pod'', lp_Value = ''x''\<rparr>]),
        (12, [\<lparr>lp_Name = ''job'', lp_Value = ''b''\<rparr>])]) None
       [\<lparr>m_Type = MatchNotEqual, m_Name = ''job'', m_Value = ''a''\<rparr>, \<lparr>m_Type = MatchEqual, m_Name = ''pod'', m_Value = ''''\<rparr>] = Inr p \<and>
     ExpandPostings n p = Some ([12], None)"
proof -
  let ?s = "[(4, [\<lparr>lp_Name = ''job'', lp_Value = ''a''\<rparr>]), (8, [\<lparr>lp_Name = ''job'', lp_Value = ''b''\<rparr>, \<lparr>lp_Name = ''pod'', lp_Value = ''x''\<rparr>]),
        (12, [\<lparr>lp_Name = ''job'', lp_Value = ''b''\<rparr>])] :: (u64 \<times> labels) list"
  let ?ms = "[\<lparr>m_Type = MatchNotEqual, m_Name = ''job'', m_Value = ''a''\<rparr>, \<lparr>m_Type = MatchEqual, m_Name = ''pod'', m_Value = ''''\<rparr>]"
  have sv: "serves (2 ^ 64) 0 (list_reader ?s) None (map_of ?s)" by (rule list_reader_serves) simp_all
  have wl: "well_labelled (map_of ?s)" by (auto simp: well_labelled_def ran_def split: if_splits)
  have ne: "no_empty_values (map_of ?s)" by (auto simp: no_empty_values_def holds_def split: if_splits)
  have "0 < (2 ^ 64 :: nat)" "?ms \<noteq> []" "\<forall>m \<in> set ?ms. m_Name m \<noteq> []" by simp_all
  note PostingsForMatchers_exact[OF sv this(1) set_lib_ok wl ne this(2,3)]
  moreover have "{ref \<in> dom (map_of ?s). \<forall>m \<in> set ?ms. ml_Matches set_lib m (label_value (map_of ?s) ref (m_Name m))} = {12}"
    by (auto simp: set_lib_def label_value_def split: if_splits)
  ultimately show ?thesis by simp
qed

end
