(* ===== verification/Series_Merge.thy ===== *)
theory Series_Merge
  imports Go_Sort Inverted_Index
begin

section \<open>Series and profile types (pkg/model/series.go, profile.go)\<close>

text \<open>
  \<open>MergeSeries\<close> merges the series of several responses by the hash of their labels;
  \<open>CompareProfile\<close> orders profiles by time and labels; \<open>ParseProfileTypeSelector\<close> splits a profile
  type at its colons and \<open>SelectorFromProfileType\<close> builds the matcher for it. The values of the
  points are not inspected and are a type parameter.
\<close>

record 'v Point =
  pt_Value :: 'v
  pt_Timestamp :: i64

record 'v Series =
  sr_Labels :: labels
  sr_Points :: "'v Point list"

subsection \<open>The code\<close>

definition add_series :: "(string \<Rightarrow> u64) \<Rightarrow> 'v Series \<Rightarrow> (u64 \<times> 'v Series) list \<Rightarrow> (u64 \<times> 'v Series) list" where
  "add_series H s m =
     (let hash = Labels_Hash H (sr_Labels s)
      in case map_of m hash of
           None \<Rightarrow> AList.update hash s m
         | Some found \<Rightarrow> AList.update hash (found\<lparr>sr_Points := sr_Points found @ sr_Points s\<rparr>) m)"

definition seriesByFingerprint :: "(string \<Rightarrow> u64) \<Rightarrow> 'v Series list list \<Rightarrow> (u64 \<times> 'v Series) list" where
  "seriesByFingerprint H series = fold (fold (add_series H)) series []"

definition MergeSeries :: "(string \<Rightarrow> u64) \<Rightarrow> 'v Series list list \<Rightarrow> 'v Series list" where
  "MergeSeries H series =
     (if length series = 0 then []
      else if length series = 1 then series ! 0
      else
        let result = map snd (seriesByFingerprint H series);
            result = sort_slice (\<lambda>a b. CompareLabelPairs (sr_Labels a) (sr_Labels b) < 0) result
        in map (\<lambda>s. s\<lparr>sr_Points := sort_slice (\<lambda>a b. sint (pt_Timestamp a) < sint (pt_Timestamp b)) (sr_Points s)\<rparr>) result)"

record cmp_profile =
  cp_Timestamp :: i64
  cp_Labels :: labels

text \<open>The difference of two timestamps is an int64 and wraps around.\<close>

definition CompareProfile :: "cmp_profile \<Rightarrow> cmp_profile \<Rightarrow> i64" where
  "CompareProfile a b =
     (if cp_Timestamp a = cp_Timestamp b then of_int (CompareLabelPairs (cp_Labels a) (cp_Labels b))
      else cp_Timestamp a - cp_Timestamp b)"

record ProfileType =
  pt_ID :: string
  pt_Name :: string
  pt_SampleType :: string
  pt_SampleUnit :: string
  pt_PeriodType :: string
  pt_PeriodUnit :: string

text \<open>\<open>strings.Split\<close> at a one-character separator.\<close>

fun go_split :: "char \<Rightarrow> string \<Rightarrow> string list" where
  "go_split sep [] = [[]]"
| "go_split sep (c # cs) =
     (if c = sep then [] # go_split sep cs
      else case go_split sep cs of p # ps \<Rightarrow> (c # p) # ps | [] \<Rightarrow> [[c]])"

definition ParseProfileTypeSelector :: "string \<Rightarrow> string + ProfileType" where
  "ParseProfileTypeSelector s =
     (let parts = go_split (CHR '':'') s
      in if length parts \<noteq> 5 \<and> length parts \<noteq> 6
         then Inl ''profile-type selection must be of the form <name>:<sample-type>:<sample-unit>:<period-type>:<period-unit>(:delta)''
         else Inr \<lparr>pt_ID = s, pt_Name = parts ! 0, pt_SampleType = parts ! 1, pt_SampleUnit = parts ! 2,
                   pt_PeriodType = parts ! 3, pt_PeriodUnit = parts ! 4\<rparr>)"

definition SelectorFromProfileType :: "ProfileType \<Rightarrow> matcher" where
  "SelectorFromProfileType t =
     \<lparr>m_Type = MatchEqual, m_Name = LabelNameProfileType,
      m_Value = pt_Name t @ '':'' @ pt_SampleType t @ '':'' @ pt_SampleUnit t @ '':'' @ pt_PeriodType t @ '':'' @ pt_PeriodUnit t\<rparr>"

subsection \<open>Merging series\<close>

interpretation so: heap_order "\<lambda>a b. CompareLabelPairs (sr_Labels a) (sr_Labels b) < 0"
  by unfold_locales (auto simp: CompareLabelPairs_less)

interpretation po: heap_order "\<lambda>a b. sint (pt_Timestamp a) < sint (pt_Timestamp b)"
  by unfold_locales auto

text \<open>All points of the series with a label set.\<close>

definition points_of :: "'v Series list \<Rightarrow> labels \<Rightarrow> 'v Point list" where
  "points_of ss ls = concat (map sr_Points (filter (\<lambda>s. sr_Labels s = ls) ss))"

definition fp_inv :: "(string \<Rightarrow> u64) \<Rightarrow> (u64 \<times> 'v Series) list \<Rightarrow> 'v Series list \<Rightarrow> bool" where
  "fp_inv H m ss \<longleftrightarrow> distinct (map fst m) \<and> (\<forall>(h, s) \<in> set m. h = Labels_Hash H (sr_Labels s) \<and> sr_Points s = points_of ss (sr_Labels s))
     \<and> sr_Labels ` snd ` set m = sr_Labels ` set ss"

lemma set_update_key:
  "(k, x) \<in> set m \<Longrightarrow> distinct (map fst m) \<Longrightarrow> set (AList.update k y m) = insert (k, y) (set m - {(k, x)})"
proof (induction m)
  case (Cons p m)
  show ?case
  proof (cases "fst p = k")
    case True
    then have no: "(k, x) \<notin> set m" using Cons.prems(2) by (cases p) (force simp: image_iff)
    then have "p = (k, x)" using Cons.prems(1) by simp
    then show ?thesis using no by auto
  next
    case False
    then show ?thesis using Cons by (cases p) auto
  qed
qed simp

lemma fp_invI:
  "distinct (map fst m) \<Longrightarrow> (\<And>h s. (h, s) \<in> set m \<Longrightarrow> h = Labels_Hash H (sr_Labels s) \<and> sr_Points s = points_of ss (sr_Labels s))
     \<Longrightarrow> sr_Labels ` snd ` set m = sr_Labels ` set ss \<Longrightarrow> fp_inv H m ss"
  by (auto simp: fp_inv_def)

lemma add_series_inv:
  assumes inv: "fp_inv H m ss" and inj: "inj_on (Labels_Hash H) (sr_Labels ` set (ss @ [s]))"
  shows "fp_inv H (add_series H s m) (ss @ [s])"
proof -
  let ?h = "Labels_Hash H (sr_Labels s)"
  have pts: "points_of (ss @ [s]) ls = points_of ss ls @ (if sr_Labels s = ls then sr_Points s else [])" for ls
    by (simp add: points_of_def)
  have lbl: "sr_Labels ` snd ` set m = sr_Labels ` set ss" using inv by (simp add: fp_inv_def)
  have m12: "h = Labels_Hash H (sr_Labels x) \<and> sr_Points x = points_of ss (sr_Labels x)" if "(h, x) \<in> set m" for h x
    using inv that by (auto simp: fp_inv_def)
  have m3: "sr_Labels x \<in> sr_Labels ` set ss" if "(h, x) \<in> set m" for h x
    using that unfolding lbl[symmetric] by force
  note m = m12[THEN conjunct1] m12[THEN conjunct2] m3
  have other: "sr_Labels x \<noteq> sr_Labels s" if "(h, x) \<in> set m" "h \<noteq> ?h" for h x using m(1)[OF that(1)] that(2) by auto
  show ?thesis
  proof (cases "map_of m ?h")
    case None
    have "sr_Labels s \<notin> sr_Labels ` set ss"
    proof
      assume "sr_Labels s \<in> sr_Labels ` set ss"
      then obtain h x where "(h, x) \<in> set m" "sr_Labels s = sr_Labels x" unfolding lbl[symmetric] by force
      then show False using m(1)[of h x] None weak_map_of_SomeI[of ?h x m] by simp
    qed
    then have new: "points_of ss (sr_Labels s) = []" by (auto simp: points_of_def filter_empty_conv image_iff)
    have "set (AList.update ?h s m) = insert (?h, s) (set m)"
      using None by (induction m) (auto split: if_splits)
    then have up: "set (add_series H s m) = insert (?h, s) (set m)" "distinct (map fst (add_series H s m))"
      using None inv by (simp_all add: add_series_def AList.distinct_update fp_inv_def)
    have old: "sr_Points x = points_of (ss @ [s]) (sr_Labels x)" if "(h, x) \<in> set m" for h x
      using m(2,3)[OF that] \<open>sr_Labels s \<notin> sr_Labels ` set ss\<close> by (auto simp: pts)
    have "sr_Labels ` snd ` set (add_series H s m) = sr_Labels ` set (ss @ [s])"
      by (simp add: up(1) lbl)
    moreover have "h = Labels_Hash H (sr_Labels x) \<and> sr_Points x = points_of (ss @ [s]) (sr_Labels x)" if "(h, x) \<in> set (add_series H s m)" for h x
      using that old[of h x] m(1)[of h x] new unfolding up(1) by (auto simp: pts)
    ultimately show ?thesis using up(2) by (intro fp_invI)
  next
    case (Some f)
    then have f: "(?h, f) \<in> set m" by (rule map_of_SomeD)
    have lf: "sr_Labels f = sr_Labels s" by (rule inj_onD[OF inj]) (use m(1,3)[OF f] in auto)
    let ?f = "f\<lparr>sr_Points := sr_Points f @ sr_Points s\<rparr>"
    have d: "distinct (map fst m)" using inv by (simp add: fp_inv_def)
    have up: "set (AList.update ?h ?f m) = insert (?h, ?f) (set m - {(?h, f)})"
      by (rule set_update_key[OF f d])
    have uniq: "x = f" if "(?h, x) \<in> set m" for x using that f d by (metis eq_key_imp_eq_value)
    have same: "sr_Labels ` snd ` insert (?h, ?f) (set m - {(?h, f)}) = sr_Labels ` snd ` set m"
      using f by force
    have mem: "sr_Labels s \<in> sr_Labels ` snd ` set m" using f by (simp add: image_image flip: lf) (metis imageI snd_conv)
    have up': "set (add_series H s m) = insert (?h, ?f) (set m - {(?h, f)})" "distinct (map fst (add_series H s m))"
      using Some up d by (simp_all add: add_series_def AList.distinct_update)
    have pt1: "sr_Points x = points_of (ss @ [s]) (sr_Labels x)" if "(h, x) \<in> set m - {(?h, f)}" for h x
    proof -
      have "h \<noteq> ?h" using that uniq[of x] by blast
      then show ?thesis using m(2)[of h x] other[of h x] that by (simp add: pts)
    qed
    have pt2: "sr_Points ?f = points_of (ss @ [s]) (sr_Labels ?f)" using m(2)[OF f] lf by (simp add: pts)
    show ?thesis
    proof (rule fp_invI[OF up'(2)])
      show "sr_Labels ` snd ` set (add_series H s m) = sr_Labels ` set (ss @ [s])"
        using mem same lbl unfolding up'(1) by (simp add: insert_absorb)
      fix h x assume "(h, x) \<in> set (add_series H s m)"
      then consider "h = ?h" "x = ?f" | "(h, x) \<in> set m - {(?h, f)}" unfolding up'(1) by blast
      then show "h = Labels_Hash H (sr_Labels x) \<and> sr_Points x = points_of (ss @ [s]) (sr_Labels x)"
        using pt1[of h x] pt2 lf m(1)[of h x] by cases auto
    qed
  qed
qed

lemma add_series_fold:
  "fp_inv H m ss \<Longrightarrow> inj_on (Labels_Hash H) (sr_Labels ` set (ss @ ts)) \<Longrightarrow> fp_inv H (fold (add_series H) ts m) (ss @ ts)"
proof (induction ts arbitrary: m ss)
  case (Cons t ts)
  have "inj_on (Labels_Hash H) (sr_Labels ` set (ss @ [t]))"
    using Cons.prems(2) by (rule inj_on_subset) auto
  from Cons.IH[OF add_series_inv[OF Cons.prems(1) this]] Cons.prems(2) show ?case by simp
qed simp

lemma fold_fold_concat: "fold (fold f) xss a = fold f (concat xss) a"
  by (induction xss arbitrary: a) auto

lemma seriesByFingerprint_inv:
  "inj_on (Labels_Hash H) (sr_Labels ` set (concat series)) \<Longrightarrow> fp_inv H (seriesByFingerprint H series) (concat series)"
  using add_series_fold[of H "[]" "[]" "concat series"] by (simp add: seriesByFingerprint_def fold_fold_concat fp_inv_def)

text \<open>Distinct labels in the map, so that sorting by labels is strict.\<close>

lemma fp_inv_distinct: "fp_inv H m ss \<Longrightarrow> distinct (map (sr_Labels \<circ> snd) m)"
proof -
  assume inv: "fp_inv H m ss"
  have "map fst m = map (Labels_Hash H) (map (sr_Labels \<circ> snd) m)"
    using inv by (auto simp: fp_inv_def)
  then have "distinct (map (Labels_Hash H) (map (sr_Labels \<circ> snd) m))" using inv unfolding fp_inv_def by argo
  then show ?thesis unfolding distinct_map[of "Labels_Hash H"] by blast
qed

lemma sort_labels_strict:
  assumes "distinct (map sr_Labels ss)"
  shows "sorted_wrt (<) (map (\<lambda>s. map label_key (sr_Labels s)) (sort_slice (\<lambda>a b. CompareLabelPairs (sr_Labels a) (sr_Labels b) < 0) ss))"
proof -
  let ?r = "sort_slice (\<lambda>a b. CompareLabelPairs (sr_Labels a) (sr_Labels b) < 0) ss"
  have "mset (map sr_Labels ?r) = mset (map sr_Labels ss)" by simp
  then have "distinct (map sr_Labels ?r)" using assms by (metis mset_eq_imp_distinct_iff)
  then have d: "distinct (map (\<lambda>s. map label_key (sr_Labels s)) ?r)"
    by (auto simp: distinct_map inj_on_def)
  have "sorted (map (\<lambda>s. map label_key (sr_Labels s)) ?r)"
    using so.sort_slice_sorted[of ss] by (simp add: sorted_wrt_map CompareLabelPairs_less not_less)
  then show ?thesis using d by (simp add: strict_sorted_iff)
qed

subsection \<open>Splitting and joining\<close>

fun join :: "char \<Rightarrow> string list \<Rightarrow> string" where
  "join sep [] = []"
| "join sep [p] = p"
| "join sep (p # ps) = p @ sep # join sep ps"

lemma go_split_ne [simp]: "go_split sep s \<noteq> []"
  by (induction s) (auto split: list.splits)

lemma join_split: "join sep (go_split sep s) = s"
proof (induction s)
  case (Cons c s)
  obtain p ps where ps: "go_split sep s = p # ps" by (cases "go_split sep s") auto
  show ?case using Cons ps by (cases ps) auto
qed simp

lemma split_parts: "p \<in> set (go_split sep s) \<Longrightarrow> sep \<notin> set p"
proof (induction s arbitrary: p)
  case (Cons c s)
  obtain q qs where qs: "go_split sep s = q # qs" by (cases "go_split sep s") auto
  then show ?case using Cons by (auto split: if_splits)
qed simp

lemma length_split: "length (go_split sep s) = Suc (count_list s sep)"
proof (induction s)
  case (Cons c s)
  obtain q qs where "go_split sep s = q # qs" by (cases "go_split sep s") auto
  then show ?case using Cons by auto
qed simp

lemma length_6: "length ps = 6 \<Longrightarrow> \<exists>a b c d e f. ps = [a, b, c, d, e, f]"
  and length_5: "length ps = 5 \<Longrightarrow> \<exists>a b c d e. ps = [a, b, c, d, e]"
  by (auto simp: numeral_eq_Suc length_Suc_conv)

subsection \<open>Properties\<close>

text \<open>
  C9. \<open>MergeSeries\<close>: a single response is returned as it is, neither merged nor sorted. For any other
  number of responses, when the label hash does not collide on the label sets that occur, the result
  has exactly one series for every label set of the responses, in strictly increasing order of the
  labels, and its points are the points of all series with these labels, sorted by timestamp.
\<close>

theorem MergeSeries_merges:
  assumes "inj_on (Labels_Hash H) (sr_Labels ` set (concat series))"
  shows "if length series = 1 then MergeSeries H series = hd series
    else sorted_wrt (<) (map (\<lambda>s. map label_key (sr_Labels s)) (MergeSeries H series))
    \<and> sr_Labels ` set (MergeSeries H series) = sr_Labels ` set (concat series)
    \<and> (\<forall>s \<in> set (MergeSeries H series). sorted (map (\<lambda>p. sint (pt_Timestamp p)) (sr_Points s))
         \<and> mset (sr_Points s) = mset (points_of (concat series) (sr_Labels s)))"
proof (cases "length series \<le> 1")
  case True
  then show ?thesis by (cases series) (auto simp: MergeSeries_def)
next
  case False
  let ?m = "seriesByFingerprint H series"
  let ?lt = "\<lambda>a b. CompareLabelPairs (sr_Labels a) (sr_Labels b) < 0"
  let ?pt = "\<lambda>a b. sint (pt_Timestamp a) < sint (pt_Timestamp b)"
  let ?up = "\<lambda>s. s\<lparr>sr_Points := sort_slice ?pt (sr_Points s)\<rparr>"
  note inv = seriesByFingerprint_inv[OF assms]
  have res: "MergeSeries H series = map ?up (sort_slice ?lt (map snd ?m))"
    using False by (auto simp: MergeSeries_def Let_def)
  have "distinct (map sr_Labels (map snd ?m))" using fp_inv_distinct[OF inv] by (simp add: comp_def)
  from sort_labels_strict[OF this]
  have "sorted_wrt (<) (map (\<lambda>s. map label_key (sr_Labels s)) (MergeSeries H series))" by (simp add: res comp_def)
  moreover have "sr_Labels ` set (MergeSeries H series) = sr_Labels ` set (concat series)"
    using inv by (simp add: res image_comp comp_def fp_inv_def)
  moreover have "sorted (map (\<lambda>p. sint (pt_Timestamp p)) (sort_slice ?pt ps))" for ps :: "'a Point list"
    using po.sort_slice_sorted[of ps] by (simp add: sorted_wrt_map not_less)
  ultimately show ?thesis using inv False by (auto simp: res fp_inv_def)
qed

text \<open>Two responses with a series each for the same labels: one series, its two points in order of time.\<close>

theorem MergeSeries_merges_witness:
  "\<exists>s. MergeSeries (\<lambda>s. of_nat (length s)) [[\<lparr>sr_Labels = [], sr_Points = [\<lparr>pt_Value = True, pt_Timestamp = 5\<rparr>]\<rparr>],
      [\<lparr>sr_Labels = [], sr_Points = [\<lparr>pt_Value = False, pt_Timestamp = 2\<rparr>]\<rparr>]] = [s]
     \<and> mset (sr_Points s) = {#\<lparr>pt_Value = True, pt_Timestamp = 5\<rparr>, \<lparr>pt_Value = False, pt_Timestamp = 2\<rparr>#}
     \<and> sorted (map (\<lambda>p. sint (pt_Timestamp p)) (sr_Points s))"
proof -
  define ss where "ss = [[\<lparr>sr_Labels = [], sr_Points = [\<lparr>pt_Value = True, pt_Timestamp = 5\<rparr>]\<rparr>],
      [\<lparr>sr_Labels = [], sr_Points = [\<lparr>pt_Value = False, pt_Timestamp = 2 :: i64\<rparr>]\<rparr>]]"
  let ?H = "\<lambda>s. of_nat (length s) :: u64"
  have ss: "sr_Labels ` set (concat ss) = {[]}" "length ss \<noteq> 1"
    "mset (points_of (concat ss) []) = {#\<lparr>pt_Value = True, pt_Timestamp = 5\<rparr>, \<lparr>pt_Value = False, pt_Timestamp = 2\<rparr>#}"
    by (simp_all add: ss_def points_of_def)
  obtain m where m: "MergeSeries ?H ss = m" by blast
  have "sorted_wrt (<) (map (\<lambda>s. map label_key (sr_Labels s)) m) \<and> sr_Labels ` set m = {[]}
      \<and> (\<forall>s \<in> set m. sorted (map (\<lambda>p. sint (pt_Timestamp p)) (sr_Points s)) \<and> mset (sr_Points s) = mset (points_of (concat ss) (sr_Labels s)))"
    using MergeSeries_merges[of ?H ss] unfolding m ss(1) using ss(2) by (simp only: if_False) simp
  then have p: "sorted_wrt (<) (map (\<lambda>s. map label_key (sr_Labels s)) m)" "sr_Labels ` set m = {[]}"
    "\<forall>s \<in> set m. sorted (map (\<lambda>p. sint (pt_Timestamp p)) (sr_Points s)) \<and> mset (sr_Points s) = mset (points_of (concat ss) (sr_Labels s))" by blast+
  from p(2) obtain x xs where x: "m = x # xs" by (cases m) auto
  have l: "sr_Labels x = []" "\<forall>y \<in> set xs. sr_Labels y = []" using p(2) x by auto
  have "xs = []" using p(1) l unfolding x by (cases xs) auto
  then have "MergeSeries ?H ss = [x]" using m x by simp
  moreover have "sorted (map (\<lambda>p. sint (pt_Timestamp p)) (sr_Points x))" "mset (sr_Points x) = mset (points_of (concat ss) [])"
    using p(3) l(1) unfolding x by auto
  ultimately show ?thesis unfolding ss(3) unfolding ss_def by blast
qed

text \<open>
  C10. \<open>ParseProfileTypeSelector\<close> accepts exactly the strings with four or five colons, keeps the
  string as the ID, and \<open>SelectorFromProfileType\<close> gives back the string it was parsed from, without
  the sixth part when there is one.
\<close>

theorem ProfileTypeSelector_roundtrip:
  "case ParseProfileTypeSelector s of
     Inl err \<Rightarrow> count_list s (CHR '':'') \<notin> {4, 5}
   | Inr t \<Rightarrow> count_list s (CHR '':'') \<in> {4, 5} \<and> pt_ID t = s \<and>
       (if count_list s (CHR '':'') = 4 then m_Value (SelectorFromProfileType t) = s
        else \<exists>d. CHR '':'' \<notin> set d \<and> s = m_Value (SelectorFromProfileType t) @ '':'' @ d)"
proof -
  let ?p = "go_split (CHR '':'') s"
  note len = length_split[of "CHR '':''" s] and j = join_split[of "CHR '':''" s]
  consider (five) "length ?p = 5" | (six) "length ?p = 6" | (other) "length ?p \<noteq> 5" "length ?p \<noteq> 6" by blast
  then show ?thesis
  proof cases
    case five
    then obtain a b c d e where "?p = [a, b, c, d, e]" using length_5 by blast
    then show ?thesis using len j by (simp add: ParseProfileTypeSelector_def SelectorFromProfileType_def)
  next
    case six
    then obtain a b c d e f where p: "?p = [a, b, c, d, e, f]" using length_6 by blast
    then have "CHR '':'' \<notin> set f" using split_parts[of f "CHR '':''" s] by simp
    then show ?thesis using p len j
      by (simp add: ParseProfileTypeSelector_def SelectorFromProfileType_def) (metis append.assoc append_Cons)
  next
    case other
    then show ?thesis using len by (simp add: ParseProfileTypeSelector_def)
  qed
qed

end
