(* ===== verification/Block_Select.thy ===== *)
theory Block_Select
  imports Column_Query Matcher_Postings Series_Merge
begin

section \<open>Selecting profiles in a block (pkg/phlaredb/block_querier.go)\<close>

text \<open>
  \<open>SelectMatchingProfiles\<close> of a block: the postings of the matchers give the series, a map from
  series indexes to labels is the predicate on the column of series indexes, a join with the column
  of times gives the rows, and the rows are cut into slices that a sorting iterator merges.

  The index reader, the parsed selector and the columns of the file are arguments, as are the conversions
  of times (\<open>tfn\<close> for \<open>TimeFromUnixNano\<close>, \<open>unn\<close> for \<open>UnixNano\<close>) and the schedules of the two column
  readers.
\<close>

subsection \<open>The predicate for a set of series\<close>

text \<open>
  \<open>mapPredicate\<close> for keys of an integer type \<open>K\<close>: \<open>num\<close> is the number a key stands for, \<open>K(\<dots>)\<close> of an
  \<open>int64\<close> is \<open>conv\<close>.  The map is an association list, which fixes an order of iteration.
\<close>

record ('k, 'x) mapPredicate =
  mp_min :: 'k
  mp_max :: 'k
  mp_m :: "('k \<times> 'x) list"

fun minmax_keys :: "('k \<Rightarrow> int) \<Rightarrow> 'k list \<Rightarrow> bool \<Rightarrow> 'k \<times> 'k \<Rightarrow> 'k \<times> 'k" where
  "minmax_keys num [] first (mn, mx) = (mn, mx)"
| "minmax_keys num (k # ks) first (mn, mx) =
     minmax_keys num ks False
       (if first \<or> num mn > num k then k else mn, if first \<or> num mx < num k then k else mx)"

definition new_mapPredicate :: "('k::zero \<Rightarrow> int) \<Rightarrow> ('k \<times> 'x) list \<Rightarrow> ('k, 'x) mapPredicate" where
  "new_mapPredicate num m =
     (case minmax_keys num (map fst m) True (0, 0) of (mn, mx) \<Rightarrow> \<lparr>mp_min = mn, mp_max = mx, mp_m = m\<rparr>)"

definition Map_KeepColumnChunk :: "('k \<Rightarrow> int) \<Rightarrow> (i64 \<Rightarrow> 'k) \<Rightarrow> ('v \<Rightarrow> i64) \<Rightarrow> ('k, 'x) mapPredicate \<Rightarrow> 'v pqChunk \<Rightarrow> bool" where
  "Map_KeepColumnChunk num conv int64 p c =
     (case cc_ColumnIndex c of
        Some ci \<Rightarrow> list_ex (\<lambda>(lo, hi). num (mp_max p) \<ge> num (conv (int64 lo)) \<and> num (mp_min p) \<le> num (conv (int64 hi))) ci
      | None \<Rightarrow> True)"

definition Map_KeepPage :: "('k \<Rightarrow> int) \<Rightarrow> (i64 \<Rightarrow> 'k) \<Rightarrow> ('v \<Rightarrow> i64) \<Rightarrow> ('k, 'x) mapPredicate \<Rightarrow> 'v pqPage \<Rightarrow> bool" where
  "Map_KeepPage num conv int64 p page =
     (case pg_Bounds page of
        Some (lo, hi) \<Rightarrow> num (mp_max p) \<ge> num (conv (int64 lo)) \<and> num (mp_min p) \<le> num (conv (int64 hi))
      | None \<Rightarrow> True)"

definition Map_KeepValue :: "(i64 \<Rightarrow> 'k) \<Rightarrow> ('v \<Rightarrow> i64) \<Rightarrow> ('k, 'x) mapPredicate \<Rightarrow> 'v \<Rightarrow> bool" where
  "Map_KeepValue conv int64 p v = (map_of (mp_m p) (conv (int64 v)) \<noteq> None)"

definition newMapPredicate :: "('k::zero \<Rightarrow> int) \<Rightarrow> (i64 \<Rightarrow> 'k) \<Rightarrow> ('v \<Rightarrow> i64) \<Rightarrow> ('k \<times> 'x) list \<Rightarrow> 'v Predicate" where
  "newMapPredicate num conv int64 m =
     (let p = new_mapPredicate num m
      in \<lparr>KeepColumnChunk = Map_KeepColumnChunk num conv int64 p, KeepPage = Map_KeepPage num conv int64 p,
          KeepValue = Map_KeepValue conv int64 p\<rparr>)"

lemma minmax_keys_bounds:
  assumes "minmax_keys num ks first (mn, mx) = (mn', mx')"
  shows "(\<not> first \<longrightarrow> num mn' \<le> num mn \<and> num mx \<le> num mx') \<and> (\<forall>k \<in> set ks. num mn' \<le> num k \<and> num k \<le> num mx')"
  using assms
proof (induction ks arbitrary: first mn mx)
  case (Cons k ks)
  then show ?case by (fastforce split: if_splits)
qed simp

lemma new_mapPredicate_bounds:
  "mp_m (new_mapPredicate num m) = m"
  "map_of m k \<noteq> None \<Longrightarrow> num (mp_min (new_mapPredicate num m)) \<le> num k \<and> num k \<le> num (mp_max (new_mapPredicate num m))"
proof -
  obtain mn mx where mm: "minmax_keys num (map fst m) True (0, 0) = (mn, mx)" by fastforce
  show "mp_m (new_mapPredicate num m) = m" by (simp add: new_mapPredicate_def mm)
  assume "map_of m k \<noteq> None"
  then have "k \<in> set (map fst m)" by (simp add: map_of_eq_None_iff)
  then show "num (mp_min (new_mapPredicate num m)) \<le> num k \<and> num k \<le> num (mp_max (new_mapPredicate num m))"
    using minmax_keys_bounds[OF mm] by (auto simp: new_mapPredicate_def mm)
qed

interpretation map_predicate: pushdown "newMapPredicate num conv int64 m" "\<lambda>v. num (conv (int64 v))" for num conv int64 m
proof
  fix cc :: "'b pqChunk" and v
  assume st: "chunk_stats (\<lambda>v. num (conv (int64 v))) cc" and v: "v \<in> set (concat (map page_values (cc_Pages cc)))"
    and k: "KeepValue (newMapPredicate num conv int64 m) (pv_value v)"
  let ?k = "num (conv (int64 (pv_value v)))"
  have b: "num (mp_min (new_mapPredicate num m)) \<le> ?k \<and> ?k \<le> num (mp_max (new_mapPredicate num m))"
    using k new_mapPredicate_bounds(2)[of m "conv (int64 (pv_value v))" num]
    by (simp add: newMapPredicate_def Let_def Map_KeepValue_def new_mapPredicate_bounds(1))
  show "KeepColumnChunk (newMapPredicate num conv int64 m) cc"
  proof (cases "cc_ColumnIndex cc")
    case (Some ci)
    from chunk_index[OF st Some v] obtain lo hi where "(lo, hi) \<in> set ci" "num (conv (int64 lo)) \<le> ?k" "?k \<le> num (conv (int64 hi))" by auto
    then show ?thesis using b
      by (auto simp: newMapPredicate_def Let_def Map_KeepColumnChunk_def Some list_ex_iff intro!: bexI[of _ "(lo, hi)"])
  qed (simp add: newMapPredicate_def Let_def Map_KeepColumnChunk_def)
next
  fix pg :: "'b pqPage" and v
  assume st: "page_stats (\<lambda>v. num (conv (int64 v))) (PageRead pg)" and v: "v \<in> set (reads_values (pg_reads pg))"
    and k: "KeepValue (newMapPredicate num conv int64 m) (pv_value v)"
  let ?k = "num (conv (int64 (pv_value v)))"
  have b: "num (mp_min (new_mapPredicate num m)) \<le> ?k \<and> ?k \<le> num (mp_max (new_mapPredicate num m))"
    using k new_mapPredicate_bounds(2)[of m "conv (int64 (pv_value v))" num]
    by (simp add: newMapPredicate_def Let_def Map_KeepValue_def new_mapPredicate_bounds(1))
  show "KeepPage (newMapPredicate num conv int64 m) pg"
    using st v b by (force simp: newMapPredicate_def Let_def Map_KeepPage_def within_def list_all_iff split: option.splits)
qed

subsection \<open>Columns that may be missing\<close>

text \<open>
  \<open>columnIter\<close> gives an iterator that only reports an error when the file has no such column.  The
  file is its columns by name.
\<close>

definition or_err :: "('i, 'v, 'r) RowIterator \<Rightarrow> (errs + 'i, 'v, 'r) RowIterator" where
  "or_err it =
     \<lparr>ri_iter =
        \<lparr>it_Next = (\<lambda>s. case s of Inl e \<Rightarrow> Some (False, Inl e) | Inr i \<Rightarrow> map_option (map_prod (\<lambda>b. b) Inr) (it_Next (ri_iter it) i)),
         it_At = (\<lambda>s. case s of Inl e \<Rightarrow> None | Inr i \<Rightarrow> it_At (ri_iter it) i),
         it_Err = (\<lambda>s. case s of Inl e \<Rightarrow> e | Inr i \<Rightarrow> it_Err (ri_iter it) i),
         it_Close = (\<lambda>s. case s of Inl e \<Rightarrow> ([], Inl e) | Inr i \<Rightarrow> map_prod (\<lambda>e. e) Inr (it_Close (ri_iter it) i))\<rparr>,
      ri_Seek = (\<lambda>to s. case s of Inl e \<Rightarrow> Some (False, Inl e) | Inr i \<Rightarrow> map_option (map_prod (\<lambda>b. b) Inr) (ri_Seek it to i))\<rparr>"

fun lift_rel :: "('i \<Rightarrow> 'x \<Rightarrow> bool) \<Rightarrow> errs + 'i \<Rightarrow> 'x \<Rightarrow> bool" where
  "lift_rel R (Inl e) xs = False"
| "lift_rel R (Inr i) xs = R i xs"

definition columnIter :: "(string \<times> 'v pqRowGroup list) list \<Rightarrow> string \<Rightarrow> 'v Predicate option \<Rightarrow> string \<Rightarrow> (nat \<Rightarrow> nat) \<Rightarrow>
    errs + ('v, 'r) ColumnIterator" where
  "columnIter cols columnName predicate alias sched =
     (case map_of cols columnName of
        None \<Rightarrow> Inl [''column '' @ columnName @ '' not found in parquet file profiles.parquet'']
      | Some rgs \<Rightarrow> Inr (NewColumnIterator rgs predicate alias sched))"

context row_source
begin

lemma delivers_lift:
  "delivers (ri_iter it) R xs res \<Longrightarrow> delivers (ri_iter (or_err it)) (lift_rel R) xs (map_option (map_prod (\<lambda>b. b) Inr) res)"
  by (cases xs) (auto simp: or_err_def)

lemma or_err_laws: "row_source (or_err it) level (lift_rel R)"
proof
  fix s xs assume r: "lift_rel R s xs"
  then obtain i where s: "s = Inr i" "R i xs" by (cases s) auto
  show "delivers (ri_iter (or_err it)) (lift_rel R) xs (it_Next (ri_iter (or_err it)) s)"
    using delivers_lift[OF next_delivers[OF s(2)]] by (simp add: s or_err_def)
  show "rows_sorted xs" "it_Err (ri_iter (or_err it)) s = []" using rows no_error s by (auto simp: or_err_def)
  fix to assume "target_ok to" "rd_DefinitionLevel to \<le> level"
  then show "delivers (ri_iter (or_err it)) (lift_rel R) (dropWhile (\<lambda>r. below to (ir_RowNumber r)) xs) (ri_Seek (or_err it) to s)"
    using delivers_lift[OF seek_delivers[OF s(2)]] by (simp add: s or_err_def)
qed

end

interpretation block_columns: join_source "or_err column_iterator" 5 "lift_rel col_rel" "min d 5" for d
  by (intro join_source.intro col.or_err_laws join_source_axioms.intro) simp_all

subsection \<open>The labels of the selected series\<close>

record labelsInfo =
  li_fp :: u64
  li_lbs :: labels

text \<open>An operation fails with an error, panics or is done; \<open>None\<close> around it asks for more fuel.\<close>

datatype 'a outcome = Panic | Fail errs | Done 'a

text \<open>The entry of one series; \<open>key\<close> converts a series index to the keys of the map.\<close>

definition add_labels :: "(u32 \<Rightarrow> 'k) \<Rightarrow> errs + (u64 \<times> labels \<times> ChunkMeta list) \<Rightarrow> ('k \<times> labelsInfo) list \<Rightarrow> ('k \<times> labelsInfo) list outcome" where
  "add_labels key r m =
     (case r of
        Inl err \<Rightarrow> Fail err
      | Inr (fp, lbls, chks) \<Rightarrow>
          (case chks of
             [] \<Rightarrow> Panic
           | c # _ \<Rightarrow>
               (case map_of m (key (cm_SeriesIndex c)) of
                  Some existing \<Rightarrow> if CompareLabelPairs lbls (li_lbs existing) \<noteq> 0 then Panic else Done m
                | None \<Rightarrow> Done (AList.update (key (cm_SeriesIndex c)) \<lparr>li_fp = fp, li_lbs = lbls\<rparr> m))))"

fun labels_loop :: "next_fun \<Rightarrow> 's IndexReader \<Rightarrow> (u32 \<Rightarrow> 'k) \<Rightarrow> nat \<Rightarrow> postings \<Rightarrow> ('k \<times> labelsInfo) list \<Rightarrow>
    ('k \<times> labelsInfo) list outcome option" where
  "labels_loop nxt ix key 0 p m = None"
| "labels_loop nxt ix key (Suc n) p m = do {
     (ok, p) \<leftarrow> nxt p;
     if \<not> ok then Some (Done m)
     else (case add_labels key (ix_Series ix (At p)) m of
             Panic \<Rightarrow> Some Panic
           | Fail err \<Rightarrow> Some (Fail err)
           | Done m \<Rightarrow> labels_loop nxt ix key n p m) }"

subsection \<open>The rows\<close>

record BlockProfile =
  bk_labels :: labels
  bk_fp :: u64
  bk_ts :: i64
  bk_RowNum :: int

text \<open>
  One row: the slice of the current series is closed when the series index is not the current
  one.  The state is the current index, its slice and the iterators over the closed slices.
\<close>

type_synonym select_state = "i64 \<times> BlockProfile list \<times> BlockProfile sliceIterator list"

definition select_step :: "('v \<Rightarrow> i64) \<Rightarrow> (i64 \<Rightarrow> i64) \<Rightarrow> (i64 \<times> labelsInfo) list \<Rightarrow> ('v pqValue, 'r) IteratorResult \<Rightarrow>
    select_state \<Rightarrow> select_state option" where
  "select_step int64 tfn m res st =
     (case (Columns res [''SeriesIndex'', ''TimeNanos''], st) of
        ([s # _, t # _], (currIdx, cur, iters)) \<Rightarrow>
          let seriesIndex = int64 (pv_value s);
              (currIdx, cur, iters) =
                (if seriesIndex \<noteq> currIdx
                 then (currIdx + 1, [], if length cur > 0 then iters @ [NewSliceIterator cur] else iters)
                 else (currIdx, cur, iters));
              info = (case map_of m seriesIndex of Some i \<Rightarrow> i | None \<Rightarrow> \<lparr>li_fp = 0, li_lbs = []\<rparr>)
          in Some (currIdx,
                   cur @ [\<lparr>bk_labels = li_lbs info, bk_fp = li_fp info, bk_ts = tfn (int64 (pv_value t)), bk_RowNum = ir_RowNumber res ! 0\<rparr>],
                   iters)
      | _ \<Rightarrow> None)"

partial_function (option) select_loop :: "('v \<Rightarrow> i64) \<Rightarrow> (i64 \<Rightarrow> i64) \<Rightarrow> (i64 \<times> labelsInfo) list \<Rightarrow>
    ('i, ('v pqValue, 'r) IteratorResult option) Iterator \<Rightarrow> 'i \<Rightarrow> select_state \<Rightarrow> BlockProfile sliceIterator list outcome option" where
  "select_loop int64 tfn m it pIt st = do {
     (ok, pIt) \<leftarrow> it_Next it pIt;
     if \<not> ok then (case st of (currIdx, cur, iters) \<Rightarrow>
       Some (Done (if length cur > 0 then iters @ [NewSliceIterator cur] else iters)))
     else (case Option.bind (it_At it pIt) (\<lambda>res. select_step int64 tfn m res st) of
             None \<Rightarrow> Some Panic
           | Some st \<Rightarrow> select_loop int64 tfn m it pIt st) }"

text \<open>\<open>open\<close> gives the index and the columns of the profiles, or an error.\<close>

record ('s, 'v) blockFiles =
  bf_index :: "'s IndexReader"
  bf_columns :: "(string \<times> 'v pqRowGroup list) list"

definition profile_columns :: "('v \<Rightarrow> i64) \<Rightarrow> (i64 \<Rightarrow> i64) \<Rightarrow> (nat \<Rightarrow> nat) \<times> (nat \<Rightarrow> nat) \<Rightarrow> (string \<times> 'v pqRowGroup list) list \<Rightarrow>
    (i64 \<times> labelsInfo) list \<Rightarrow> i64 \<Rightarrow> i64 \<Rightarrow> (errs + ('v, unit) ColumnIterator) list" where
  "profile_columns int64 unn scheds cols lblsPerRef start end' =
     [columnIter cols ''SeriesIndex'' (Some (newMapPredicate sint (\<lambda>k. k) int64 lblsPerRef)) ''SeriesIndex'' (fst scheds),
      columnIter cols ''TimeNanos'' (Some (NewIntBetweenPredicate int64 (unn start) (unn end'))) ''TimeNanos'' (snd scheds)]"

definition block_SelectMatchingProfiles :: "matcher_lib \<Rightarrow> (string \<Rightarrow> string + matcher list) \<Rightarrow> ('v \<Rightarrow> i64) \<Rightarrow> (i64 \<Rightarrow> i64) \<Rightarrow> (i64 \<Rightarrow> i64) \<Rightarrow>
    (nat \<Rightarrow> nat) \<times> (nat \<Rightarrow> nat) \<Rightarrow> BlockProfile \<Rightarrow> nat \<Rightarrow> errs + ('s, 'v) blockFiles \<Rightarrow> string \<Rightarrow> ProfileType \<Rightarrow> i64 \<Rightarrow> i64 \<Rightarrow>
    (BlockProfile sliceIterator, BlockProfile) SortIterator outcome option" where
  "block_SelectMatchingProfiles ml parse int64 tfn unn scheds zero n opened selector ty start end' =
     (case opened of
        Inl err \<Rightarrow> Some (Fail err)
      | Inr b \<Rightarrow>
          (case parse selector of
             Inl err \<Rightarrow> Some (Fail [''failed to parse label selectors: '' @ err])
           | Inr matchers \<Rightarrow>
               (case PostingsForMatchers ml (bf_index b) None (matchers @ [SelectorFromProfileType ty]) of
                  Inl err \<Rightarrow> Some (Fail err)
                | Inr postings \<Rightarrow> do {
                    r \<leftarrow> labels_loop (pNext n) (bf_index b) ucast n postings [];
                    case r of
                      Panic \<Rightarrow> Some Panic
                    | Fail err \<Rightarrow> Some (Fail err)
                    | Done lblsPerRef \<Rightarrow> do {
                        let pIt = NewJoinIterator 0 (profile_columns int64 unn scheds (bf_columns b) lblsPerRef start end') None;
                        r \<leftarrow> select_loop int64 tfn lblsPerRef (ri_iter (join_iterator (or_err column_iterator))) pIt (-1, [], []);
                        case r of
                          Panic \<Rightarrow> Some Panic
                        | Fail err \<Rightarrow> Some (Fail err)
                        | Done iters \<Rightarrow> do {
                            s \<leftarrow> NewSortProfileIterator bk_labels bk_ts (slice_iterator zero) iters;
                            Some (Done s) } } })))"

text \<open>\<open>Sort\<close>: by row number, to read the file in order.\<close>

definition block_Sort :: "BlockProfile list \<Rightarrow> BlockProfile list" where
  "block_Sort ps = sort_slice (\<lambda>a b. bk_RowNum a < bk_RowNum b) ps"

subsection \<open>The map of labels\<close>

fun labels_fold :: "(u32 \<Rightarrow> 'k) \<Rightarrow> (u64 \<Rightarrow> errs + (u64 \<times> labels \<times> ChunkMeta list)) \<Rightarrow> u64 list \<Rightarrow> ('k \<times> labelsInfo) list \<Rightarrow>
    ('k \<times> labelsInfo) list outcome" where
  "labels_fold key series [] m = Done m"
| "labels_fold key series (ref # refs) m =
     (case add_labels key (series ref) m of Panic \<Rightarrow> Panic | Fail err \<Rightarrow> Fail err | Done m \<Rightarrow> labels_fold key series refs m)"

lemma expand_loop_prefix: "expand_loop nxt n p res = Some (ys, e) \<Longrightarrow> \<exists>zs. ys = res @ zs"
proof (induction n arbitrary: p res)
  case (Suc n)
  then obtain ok q where q: "nxt p = Some (ok, q)" by (auto split: Option.bind_splits)
  show ?case using Suc.IH[of q "res @ [At q]"] Suc.prems q by (cases ok) auto
qed simp

lemma labels_loop_expand:
  "expand_loop nxt n p res = Some (res @ refs, e) \<Longrightarrow> labels_loop nxt ix key n p m = Some (labels_fold key (ix_Series ix) refs m)"
proof (induction n arbitrary: p res refs m)
  case (Suc n)
  then obtain ok q where q: "nxt p = Some (ok, q)" by (auto split: Option.bind_splits)
  show ?case
  proof (cases ok)
    case True
    then have ex: "expand_loop nxt n q (res @ [At q]) = Some (res @ refs, e)" using Suc.prems q by simp
    then obtain zs where zs: "refs = At q # zs" using expand_loop_prefix[OF ex] by auto
    have "labels_loop nxt ix key n q m' = Some (labels_fold key (ix_Series ix) zs m')" for m'
      using Suc.IH[of q "res @ [At q]" zs] ex zs by simp
    then show ?thesis using q True zs by (simp split: outcome.splits)
  next
    case False
    then show ?thesis using Suc.prems q by auto
  qed
qed simp

text \<open>
  What the index says of its series: \<open>owner\<close> is the series of a series index, \<open>fpr\<close> the
  fingerprint of a series.
\<close>

definition series_served :: "'s IndexReader \<Rightarrow> registry \<Rightarrow> (u64 \<Rightarrow> u64) \<Rightarrow> (i64 \<Rightarrow> u64 option) \<Rightarrow> bool" where
  "series_served ix S fpr owner =
     ((\<forall>ref \<in> dom S. \<exists>c cs. ix_Series ix ref = Inr (fpr ref, the (S ref), c # cs) \<and> owner (ucast (cm_SeriesIndex c)) = Some ref) \<and>
      (\<forall>s ref. owner s = Some ref \<longrightarrow> ref \<in> dom S \<and> (\<exists>c cs. ix_Series ix ref = Inr (fpr ref, the (S ref), c # cs) \<and> s = ucast (cm_SeriesIndex c))))"

definition labels_of :: "registry \<Rightarrow> (u64 \<Rightarrow> u64) \<Rightarrow> (i64 \<Rightarrow> u64 option) \<Rightarrow> u64 set \<Rightarrow> i64 \<Rightarrow> labelsInfo option" where
  "labels_of S fpr owner D s =
     (case owner s of Some ref \<Rightarrow> if ref \<in> D then Some \<lparr>li_fp = fpr ref, li_lbs = the (S ref)\<rparr> else None | None \<Rightarrow> None)"

lemma labels_fold_ok:
  assumes "series_served ix S fpr owner" "set refs \<subseteq> dom S" "map_of m = labels_of S fpr owner D"
  shows "\<exists>m'. labels_fold ucast (ix_Series ix) refs m = Done m' \<and> map_of m' = labels_of S fpr owner (D \<union> set refs)"
  using assms(2,3)
proof (induction refs arbitrary: m D)
  case (Cons ref refs)
  then have "ref \<in> dom S" by simp
  then obtain c cs where c: "ix_Series ix ref = Inr (fpr ref, the (S ref), c # cs)" "owner (ucast (cm_SeriesIndex c)) = Some ref"
    using assms(1) unfolding series_served_def by blast
  have only: "s = ucast (cm_SeriesIndex c)" if o: "owner s = Some ref" for s
  proof -
    obtain c' cs' where "ix_Series ix ref = Inr (fpr ref, the (S ref), c' # cs')" "s = ucast (cm_SeriesIndex c')"
      using assms(1) o unfolding series_served_def by blast
    then show ?thesis using c(1) by simp
  qed
  have step: "\<exists>m'. add_labels ucast (ix_Series ix ref) m = Done m' \<and> map_of m' = labels_of S fpr owner (insert ref D)"
  proof (cases "ref \<in> D")
    case True
    then have "map_of m (ucast (cm_SeriesIndex c)) = Some \<lparr>li_fp = fpr ref, li_lbs = the (S ref)\<rparr>"
      using c(2) Cons.prems(2) by (simp add: labels_of_def)
    then show ?thesis using True c(1) Cons.prems(2) by (simp add: add_labels_def CompareLabelPairs_zero insert_absorb)
  next
    case False
    then have "map_of m (ucast (cm_SeriesIndex c)) = None" using c(2) Cons.prems(2) by (simp add: labels_of_def)
    moreover have "(labels_of S fpr owner D)(ucast (cm_SeriesIndex c) \<mapsto> \<lparr>li_fp = fpr ref, li_lbs = the (S ref)\<rparr>) = labels_of S fpr owner (insert ref D)"
    proof
      fix s
      show "((labels_of S fpr owner D)(ucast (cm_SeriesIndex c) \<mapsto> \<lparr>li_fp = fpr ref, li_lbs = the (S ref)\<rparr>)) s = labels_of S fpr owner (insert ref D) s"
        using c(2) only[of s] by (cases "owner s") (auto simp: labels_of_def)
    qed
    ultimately show ?thesis using c(1) Cons.prems(2) by (simp add: add_labels_def update_conv')
  qed
  then obtain m' where m': "add_labels ucast (ix_Series ix ref) m = Done m'" "map_of m' = labels_of S fpr owner (insert ref D)" by blast
  show ?case using Cons.IH[OF _ m'(2)] Cons.prems(1) m'(1) by simp
qed simp

subsection \<open>Columns with one value per row\<close>

definition flat_value :: "'v \<Rightarrow> 'v pqValue" where
  "flat_value v = \<lparr>pv_RepetitionLevel = 0, pv_DefinitionLevel = 0, pv_value = v\<rparr>"

lemma flat_value_simps [simp]:
  "pv_RepetitionLevel (flat_value v) = 0" "pv_DefinitionLevel (flat_value v) = 0" "pv_value (flat_value v) = v"
  by (simp_all add: flat_value_def)

definition row_at :: "nat \<Rightarrow> RowNumber" where
  "row_at i = [int i, -1, -1, -1, -1, -1]"

definition flat_row :: "string \<Rightarrow> 'v list \<Rightarrow> nat \<Rightarrow> ('v pqValue, 'r) IteratorResult" where
  "flat_row name vs i = col_row name (row_at i, flat_value (vs ! i))"

lemma rn_Next_flat: "rn_Next 0 0 [int i - 1, -1, -1, -1, -1, -1] = row_at i"
  by (simp add: rn_Next_def row_at_def upt_rec)

lemma number_flat:
  "snd (number_values filt [int i - 1, -1, -1, -1, -1, -1] (map flat_value vs)) =
   map (\<lambda>(j, v). (row_at j, flat_value v)) (filter (\<lambda>(j, v). inst_KeepValue filt v) (enumerate i vs))"
proof (induction vs arbitrary: i)
  case (Cons v vs)
  have "[int (Suc i) - 1, -1, -1, -1, -1, -1] = row_at i" by (simp add: row_at_def)
  with Cons.IH[of "Suc i"] show ?case
    by (cases "number_values filt (row_at i) (map flat_value vs)") (simp add: rn_Next_flat Let_def)
qed simp

lemma column_rows_flat:
  assumes "file_values rgs = map flat_value vs"
  shows "column_rows filt name rgs = map (flat_row name vs) (filter (\<lambda>i. inst_KeepValue filt (vs ! i)) [0..<length vs])"
proof -
  have e: "EmptyRowNumber = [int 0 - 1, -1, -1, -1, -1, -1]" by (simp add: EmptyRowNumber_def)
  have z: "enumerate 0 vs = map (\<lambda>i. (i, vs ! i)) [0..<length vs]" by (rule nth_equalityI) (simp_all add: nth_enumerate_eq)
  show ?thesis
    unfolding column_rows_def assms e number_flat z by (simp add: filter_map o_def flat_row_def)
qed

lemma sorted_singletons: "sorted_wrt (<) is' \<Longrightarrow> sorted_list_of_set ((\<lambda>i. [int i]) ` set is') = map (\<lambda>i. [int i]) is'"
proof (rule sorted_distinct_set_unique)
  assume "sorted_wrt (<) is'"
  then show "sorted (map (\<lambda>i. [int i]) is')" by (simp add: sorted_map) (rule sorted_wrt_mono_rel[rotated], assumption, simp)
  show "distinct (map (\<lambda>i. [int i]) is')" using \<open>sorted_wrt (<) is'\<close> by (simp add: distinct_map strict_sorted_iff inj_on_def)
qed simp_all

lemma join_flat:
  fixes fs :: "((nat \<Rightarrow> ('v, 'r) IteratorResult) \<times> (nat \<Rightarrow> bool)) list"
  assumes "fs \<noteq> []" "\<And>f P i. (f, P) \<in> set fs \<Longrightarrow> ir_RowNumber (f i) = row_at i"
  shows "join_rows 0 (map (\<lambda>(f, P). map f (filter P [0..<n])) fs) =
    map (\<lambda>i. \<lparr>ir_RowNumber = row_at i, ir_Entries = concat (map (\<lambda>(f, P). ir_Entries (f i)) fs)\<rparr>)
      (filter (\<lambda>i. \<forall>(f, P) \<in> set fs. P i) [0..<n])"
proof -
  let ?xss = "map (\<lambda>(f, P). map f (filter P [0..<n])) fs"
  let ?is = "filter (\<lambda>i. \<forall>(f, P) \<in> set fs. P i) [0..<n]"
  have key: "rkey 0 (f i) = [int i]" if "(f, P) \<in> set fs" for f P i using assms(2)[OF that] by (simp add: row_key_def row_at_def)
  have img: "rkey 0 ` set (map f (filter P [0..<n])) = (\<lambda>i. [int i]) ` {i. i < n \<and> P i}" if "(f, P) \<in> set fs" for f P
    using key[OF that] by (auto simp: image_image)
  have "join_keys 0 ?xss = (\<Inter>(f, P) \<in> set fs. (\<lambda>i. [int i]) ` {i. i < n \<and> P i})"
    unfolding join_keys_def set_map image_image by (intro arg_cong[of _ _ Inter] image_cong) (use img in \<open>simp_all only: split_paired_all prod.case\<close>)
  also have "\<dots> = (\<lambda>i. [int i]) ` set ?is" using assms(1) by (cases fs) (fastforce simp: image_iff)+
  finally have keys: "join_keys 0 ?xss = (\<lambda>i. [int i]) ` set ?is" .
  have "sorted_wrt (<) ?is" by (rule sorted_wrt_filter) simp
  then have srt: "sorted_list_of_set (join_keys 0 ?xss) = map (\<lambda>i. [int i]) ?is" unfolding keys by (rule sorted_singletons)
  have pick: "filter (\<lambda>r. rkey 0 r = [int i]) (map f (filter P [0..<n])) = [f i]" if "(f, P) \<in> set fs" "i < n" "P i" for f P i
  proof -
    have "filter (\<lambda>r. rkey 0 r = [int i]) (map f (filter P [0..<n])) = map f (filter (\<lambda>j. j = i) (filter P [0..<n]))"
      using key[OF that(1)] by (simp add: filter_map o_def)
    also have "filter (\<lambda>j. j = i) (filter P [0..<n]) = [i]"
      using that(2,3) by (intro sorted_distinct_set_unique) (auto intro: sorted_wrt_filter)
    finally show ?thesis by simp
  qed
  have grp: "join_group 0 ?xss [int i] = \<lparr>ir_RowNumber = row_at i, ir_Entries = concat (map (\<lambda>(f, P). ir_Entries (f i)) fs)\<rparr>" if "i \<in> set ?is" for i
  proof -
    have P: "i < n" "\<And>f P. (f, P) \<in> set fs \<Longrightarrow> P i" using that by auto
    obtain f P fs' where fs: "fs = (f, P) # fs'" using assms(1) by (cases fs) auto
    have "map (\<lambda>xs. concat (map ir_Entries (filter (\<lambda>r. rkey 0 r = [int i]) xs))) ?xss = map (\<lambda>(f, P). ir_Entries (f i)) fs"
      using P(1) by (auto simp: pick[OF _ P(1) P(2)])
    moreover have "ir_RowNumber (hd (filter (\<lambda>r. rkey 0 r = [int i]) (hd ?xss))) = row_at i"
      using pick[of f P i] P(1) P(2)[of f P] assms(2)[of f P i] by (simp add: fs)
    ultimately show ?thesis unfolding join_group_def by (simp only:)
  qed
  show ?thesis unfolding join_rows_def srt using grp by simp
qed

subsection \<open>Slices\<close>

fun select_steps :: "('v \<Rightarrow> i64) \<Rightarrow> (i64 \<Rightarrow> i64) \<Rightarrow> (i64 \<times> labelsInfo) list \<Rightarrow> ('v pqValue, 'r) IteratorResult list \<Rightarrow>
    select_state \<Rightarrow> select_state option" where
  "select_steps int64 tfn m [] st = Some st"
| "select_steps int64 tfn m (r # rs) st = Option.bind (select_step int64 tfn m r st) (select_steps int64 tfn m rs)"

definition close_slice :: "select_state \<Rightarrow> BlockProfile sliceIterator list" where
  "close_slice st = (case st of (c, cur, iters) \<Rightarrow> if length cur > 0 then iters @ [NewSliceIterator cur] else iters)"

lemma select_loop_yields:
  assumes "yields it i (map Some rs) e" "select_steps int64 tfn m rs st = Some st'"
  shows "select_loop int64 tfn m it i st = Some (Done (close_slice st'))"
  using assms
proof (induction rs arbitrary: i st)
  case Nil
  then have "Iterators.ended it e i" by (auto elim: yields_NilE)
  then obtain j where "it_Next it i = Some (False, j)" using ended_next by fastforce
  then show ?case using Nil.prems(2) by (subst select_loop.simps) (simp add: close_slice_def split: prod.splits)
next
  case (Cons r rs)
  then obtain j where j: "it_Next it i = Some (True, j)" "it_At it j = Some r" "yields it j (map Some rs) e"
    by (auto elim: yields_ConsE)
  obtain st1 where st1: "select_step int64 tfn m r st = Some st1" "select_steps int64 tfn m rs st1 = Some st'"
    using Cons.prems(2) by (auto split: Option.bind_splits)
  show ?case using Cons.IH[OF j(3) st1(2)] j(1,2) st1(1) by (subst select_loop.simps) simp
qed

text \<open>
  The state after the rows \<open>js\<close>, given the series index and the profile of a row: the closed slices
  and the current one together are the rows in order, no slice mixes series, and the current index
  has not passed the series of the last row.
\<close>

definition one_series :: "(nat \<Rightarrow> i64) \<Rightarrow> nat list \<Rightarrow> bool" where
  "one_series ser ks = (\<forall>a \<in> set ks. \<forall>b \<in> set ks. ser a = ser b)"

definition sliced :: "(nat \<Rightarrow> i64) \<Rightarrow> (nat \<Rightarrow> BlockProfile) \<Rightarrow> nat list \<Rightarrow> select_state \<Rightarrow> bool" where
  "sliced ser prof js st =
     (\<exists>iss ks. fst (snd st) = map prof ks \<and> snd (snd st) = map (\<lambda>ks. NewSliceIterator (map prof ks)) iss \<and>
        concat iss @ ks = js \<and> list_all (one_series ser) (iss @ [ks]) \<and>
        (if js = [] then fst st = -1 else ks \<noteq> [] \<and> sint (fst st) \<le> sint (ser (last js))))"

lemma sint_inj: "sint a = sint (b :: i64) \<Longrightarrow> a = b"
  by (rule signed_word_eqI[where 'a = int])

lemma sint_succ: "sint (c :: i64) < sint (s :: i64) \<Longrightarrow> sint (c + 1) = sint c + 1"
proof -
  assume a: "sint c < sint s"
  have "sint s < 2 ^ 63" "- (2 ^ 63) \<le> sint c" using sint_lt[of s] sint_ge[of c] by simp_all
  then show ?thesis using a by (simp add: sint_word_ariths signed_take_bit_int_eq_self)
qed

lemma sliced_step:
  fixes st :: select_state
  assumes "sliced ser prof js st" "0 \<le> sint (ser j)" "js \<noteq> [] \<Longrightarrow> sint (ser (last js)) \<le> sint (ser j)"
  shows "sliced ser prof (js @ [j])
    (if ser j \<noteq> fst st
     then (fst st + 1, [prof j], if length (fst (snd st)) > 0 then snd (snd st) @ [NewSliceIterator (fst (snd st))] else snd (snd st))
     else (fst st, fst (snd st) @ [prof j], snd (snd st)))"
proof -
  obtain iss ks where ik: "fst (snd st) = map prof ks" "snd (snd st) = map (\<lambda>ks. NewSliceIterator (map prof ks)) iss"
    "concat iss @ ks = js" "list_all (one_series ser) (iss @ [ks])"
    "if js = [] then fst st = -1 else ks \<noteq> [] \<and> sint (fst st) \<le> sint (ser (last js))"
    using assms(1) unfolding sliced_def by blast
  show ?thesis
  proof (cases "ser j = fst st")
    case True
    then have js: "js \<noteq> []" using ik(5) assms(2) by auto
    then have ks: "ks \<noteq> []" "last js = last ks" and le: "sint (fst st) \<le> sint (ser (last js))" using ik(3,5) by auto
    have "ser (last js) = ser j" using le assms(3)[OF js] True by (intro sint_inj order_antisym) simp_all
    then have lj: "ser (last ks) = ser j" using ks(2) by simp
    have k: "one_series ser ks" using ik(4) by simp
    have "ser a = ser j" if a: "a \<in> set ks" for a using k[unfolded one_series_def, rule_format, OF a last_in_set[OF ks(1)]] lj by simp
    then have "one_series ser (ks @ [j])" by (simp add: one_series_def)
    then show ?thesis unfolding sliced_def using ik(1-4) True
      by (intro exI[of _ iss] exI[of _ "ks @ [j]"]) (simp add: ik(3)[symmetric])
  next
    case False
    have lt: "sint (fst st) < sint (ser j)"
    proof (cases "js = []")
      case True
      then show ?thesis using ik(5) assms(2) by simp
    next
      case js: False
      then have "sint (fst st) \<le> sint (ser j)" using ik(5) assms(3) by force
      then show ?thesis using False sint_inj by (metis order_le_less)
    qed
    show ?thesis unfolding sliced_def using ik(1-4) False sint_succ[OF lt] lt
      by (intro exI[of _ "if ks = [] then iss else iss @ [ks]"] exI[of _ "[j]"]) (simp add: ik(3)[symmetric] one_series_def[of ser "[j]"])
  qed
qed

definition profile_row :: "'v list \<Rightarrow> 'v list \<Rightarrow> nat \<Rightarrow> ('v pqValue, 'r) IteratorResult" where
  "profile_row ss ts i =
     \<lparr>ir_RowNumber = row_at i,
      ir_Entries = [\<lparr>en_k = ''SeriesIndex'', en_V = flat_value (ss ! i), en_RowValue = None\<rparr>,
        \<lparr>en_k = ''TimeNanos'', en_V = flat_value (ts ! i), en_RowValue = None\<rparr>]\<rparr>"

definition row_profile :: "('v \<Rightarrow> i64) \<Rightarrow> (i64 \<Rightarrow> i64) \<Rightarrow> (i64 \<Rightarrow> labelsInfo option) \<Rightarrow> 'v list \<Rightarrow> 'v list \<Rightarrow> nat \<Rightarrow> BlockProfile" where
  "row_profile int64 tfn infos ss ts i =
     (case infos (int64 (ss ! i)) of
        Some info \<Rightarrow> \<lparr>bk_labels = li_lbs info, bk_fp = li_fp info, bk_ts = tfn (int64 (ts ! i)), bk_RowNum = int i\<rparr>
      | None \<Rightarrow> \<lparr>bk_labels = [], bk_fp = 0, bk_ts = tfn (int64 (ts ! i)), bk_RowNum = int i\<rparr>)"

lemma select_step_row:
  fixes ss :: "'v list" and st :: select_state
  shows "select_step int64 tfn m (profile_row ss ts i :: ('v pqValue, 'r) IteratorResult) st =
    Some (if int64 (ss ! i) \<noteq> fst st
     then (fst st + 1, [row_profile int64 tfn (map_of m) ss ts i],
           if length (fst (snd st)) > 0 then snd (snd st) @ [NewSliceIterator (fst (snd st))] else snd (snd st))
     else (fst st, fst (snd st) @ [row_profile int64 tfn (map_of m) ss ts i], snd (snd st)))"
  by (cases st) (simp add: select_step_def Columns_def profile_row_def row_profile_def row_at_def Let_def split: option.splits)

lemma select_steps_rows:
  fixes ss :: "'v list"
  assumes "sliced (\<lambda>i. int64 (ss ! i)) (row_profile int64 tfn (map_of m) ss ts) js st"
    and "\<forall>i \<in> set is'. 0 \<le> sint (int64 (ss ! i))" "sorted (map (\<lambda>i. sint (int64 (ss ! i))) (js @ is'))"
  shows "\<exists>st'. select_steps int64 tfn m (map (profile_row ss ts :: nat \<Rightarrow> ('v pqValue, 'r) IteratorResult) is') st = Some st' \<and>
    sliced (\<lambda>i. int64 (ss ! i)) (row_profile int64 tfn (map_of m) ss ts) (js @ is') st'"
  using assms
proof (induction is' arbitrary: js st)
  case (Cons i is')
  have "sint (int64 (ss ! last js)) \<le> sint (int64 (ss ! i))" if "js \<noteq> []"
    using Cons.prems(3) last_in_set[OF that] by (auto simp: sorted_append)
  from Cons.IH[OF sliced_step[OF Cons.prems(1) _ this]] Cons.prems(2,3) show ?case by (simp add: select_step_row)
qed simp

lemma sliced_close:
  assumes "sliced ser prof js st"
  shows "\<exists>iss. close_slice st = map (\<lambda>ks. NewSliceIterator (map prof ks)) iss \<and> concat iss = js \<and> list_all (one_series ser) iss"
proof -
  obtain iss ks where ik: "fst (snd st) = map prof ks" "snd (snd st) = map (\<lambda>ks. NewSliceIterator (map prof ks)) iss"
    "concat iss @ ks = js" "list_all (one_series ser) (iss @ [ks])"
    using assms unfolding sliced_def by blast
  then show ?thesis
    by (intro exI[of _ "if ks = [] then iss else iss @ [ks]"]) (auto simp: close_slice_def split: prod.splits)
qed

subsection \<open>The rows of a block\<close>

text \<open>
  A file of profiles: its columns of series indexes and times are well-formed, have correct
  statistics and one value per row, and the rows are sorted by series index and then by time.
\<close>

definition flat_file :: "('v \<Rightarrow> i64) \<Rightarrow> 'v pqRowGroup list \<Rightarrow> 'v list \<Rightarrow> bool" where
  "flat_file int64 rgs vs =
     (file_ok None rgs \<and> list_all (\<lambda>rg. chunk_stats (\<lambda>v. sint (int64 v)) (rg_ColumnChunk rg)) rgs \<and> file_values rgs = map flat_value vs)"

definition block_rows :: "('v \<Rightarrow> i64) \<Rightarrow> (i64 \<Rightarrow> i64) \<Rightarrow> (string \<times> 'v pqRowGroup list) list \<Rightarrow> 'v list \<Rightarrow> 'v list \<Rightarrow> bool" where
  "block_rows int64 tfn cols ss ts =
     (length ss = length ts \<and>
      (case (map_of cols ''SeriesIndex'', map_of cols ''TimeNanos'') of
         (Some rs, Some rt) \<Rightarrow> flat_file int64 rs ss \<and> flat_file int64 rt ts
       | _ \<Rightarrow> False) \<and>
      sorted_wrt (\<lambda>(s, t) (s', t'). sint s < sint s' \<or> s = s' \<and> sint (tfn t) \<le> sint (tfn t')) (zip (map int64 ss) (map int64 ts)))"

definition row_kept :: "('v \<Rightarrow> i64) \<Rightarrow> i64 \<Rightarrow> i64 \<Rightarrow> (i64 \<Rightarrow> labelsInfo option) \<Rightarrow> 'v list \<Rightarrow> 'v list \<Rightarrow> nat \<Rightarrow> bool" where
  "row_kept int64 mn mx infos ss ts i =
     (infos (int64 (ss ! i)) \<noteq> None \<and> sint mn \<le> sint (int64 (ts ! i)) \<and> sint (int64 (ts ! i)) \<le> sint mx)"

lemma profile_columns_join:
  assumes "block_rows int64 tfn cols ss ts"
  shows "yields (ri_iter (join_iterator (or_err column_iterator)))
      (NewJoinIterator 0 (profile_columns int64 unn scheds cols m start end') None)
      (map Some (map (profile_row ss ts) (filter (row_kept int64 (unn start) (unn end') (map_of m) ss ts) [0..<length ss]))) []"
proof -
  obtain rs rt where r: "map_of cols ''SeriesIndex'' = Some rs" "map_of cols ''TimeNanos'' = Some rt"
    "flat_file int64 rs ss" "flat_file int64 rt ts" and len: "length ss = length ts"
    using assms by (auto simp: block_rows_def split: option.splits)
  let ?P = "newMapPredicate sint (\<lambda>k. k) int64 m" and ?Q = "NewIntBetweenPredicate int64 (unn start) (unn end')"
  let ?qs = "[\<lparr>cq_rgs = rs, cq_filter = Some ?P, cq_selectAs = ''SeriesIndex'', cq_sched = fst scheds\<rparr>,
    \<lparr>cq_rgs = rt, cq_filter = Some ?Q, cq_selectAs = ''TimeNanos'', cq_sched = snd scheds\<rparr>]"
  have ok: "file_ok (Some ?P) rs" "file_ok (Some ?Q) rt"
    using map_predicate.pushdown_file[of sint "\<lambda>k. k" int64 rs m] int_between.pushdown_file[of int64 rt "unn start" "unn end'"] r(3,4)
    by (auto simp: flat_file_def)
  have cols: "profile_columns int64 unn scheds cols m start end' = map Inr (query_columns ?qs)"
    by (simp add: profile_columns_def columnIter_def r query_columns_def)
  let ?j = "NewJoinIterator 0 (map Inr (query_columns ?qs :: ('a, unit) ColumnIterator list)) None :: (errs + ('a, unit) ColumnIterator, 'a pqValue, unit) JoinIterator"
  have "Join_Iterator.held (lift_rel col_rel) None (map Inr (query_columns ?qs :: ('a, unit) ColumnIterator list) ! n) (query_rows ?qs ! n)" if "n < 2" for n
    using that ok NewColumnIterator_rel col.rows by (fastforce simp: Join_Iterator.held_def query_columns_def query_rows_def less_2_cases_iff)
  from this[of 0] this[of 1] have "joining (lift_rel col_rel) ?j (query_rows ?qs)"
    by (simp add: joining_def NewJoinIterator_def query_columns_def query_rows_def All_less_Suc)
  then have "joined (lift_rel col_rel) 0 ?j (filter (keeps None) (join_rows 0 (query_rows ?qs)))"
    unfolding joined_def by (intro exI[of _ "query_rows ?qs"]) (simp add: NewJoinIterator_def query_rows_def)
  from block_columns.nested.source_yields[of 0, simplified, OF this]
  have y: "yields (ri_iter (join_iterator (or_err column_iterator))) ?j (map Some (filter (keeps None) (join_rows 0 (query_rows ?qs)))) []" .
  let ?fs = "[(flat_row ''SeriesIndex'' ss :: nat \<Rightarrow> ('a pqValue, unit) IteratorResult, \<lambda>i. inst_KeepValue (Some ?P) (ss ! i)), (flat_row ''TimeNanos'' ts, \<lambda>i. inst_KeepValue (Some ?Q) (ts ! i))]"
  have q: "(query_rows ?qs :: ('a pqValue, unit) IteratorResult list list) = map (\<lambda>(f, P). map f (filter P [0..<length ss])) ?fs"
    using r(3,4) len by (simp add: query_rows_def column_rows_flat flat_file_def)
  have "join_rows 0 (query_rows ?qs :: ('a pqValue, unit) IteratorResult list list) =
    map (\<lambda>i. \<lparr>ir_RowNumber = row_at i, ir_Entries = concat (map (\<lambda>(f, P). ir_Entries (f i)) ?fs)\<rparr>)
      (filter (\<lambda>i. \<forall>(f, P) \<in> set ?fs. P i) [0..<length ss])"
    unfolding q by (rule join_flat) (auto simp: flat_row_def)
  also have "\<dots> = map (profile_row ss ts) (filter (row_kept int64 (unn start) (unn end') (map_of m) ss ts) [0..<length ss])"
    by (simp add: profile_row_def[abs_def] flat_row_def col_row_def makeResult_def ir_AppendValue_def Let_def row_kept_def[abs_def] inst_KeepValue_def
        newMapPredicate_def NewIntBetweenPredicate_def Map_KeepValue_def IntBetween_KeepValue_def new_mapPredicate_bounds(1))
  finally show ?thesis using y unfolding cols by (simp add: keeps_def)
qed

lemma kept_in_order:
  assumes "sorted_wrt (\<lambda>(s, t) (s', t'). sint s < sint s' \<or> s = s' \<and> sint (tfn t) \<le> sint (tfn t')) (zip (map int64 ss) (map int64 ts))"
    and "length ss = length ts" "sorted_wrt (<) ks" "set ks \<subseteq> {..<length ss}" "one_series (\<lambda>i. int64 (ss ! i)) ks"
  shows "in_order bk_labels bk_ts (map (row_profile int64 tfn infos ss ts) ks)"
proof -
  have "profile_key bk_labels bk_ts (row_profile int64 tfn infos ss ts a) \<le> profile_key bk_labels bk_ts (row_profile int64 tfn infos ss ts b)"
    if ab: "a < b" "a \<in> set ks" "b \<in> set ks" for a b
  proof -
    have l: "b < length ss" using ab(3) assms(4) by auto
    have same: "int64 (ss ! a) = int64 (ss ! b)" by (rule assms(5)[unfolded one_series_def, rule_format, OF ab(2,3)])
    have "sint (tfn (int64 (ts ! a))) \<le> sint (tfn (int64 (ts ! b)))"
      using sorted_wrt_nth_less[OF assms(1), of a b] ab(1) l assms(2) same by simp
    then show ?thesis unfolding row_profile_def same by (auto simp: profile_key_def less_eq_prod_def split: option.splits)
  qed
  then show ?thesis unfolding map_map sorted_map o_def by (intro sorted_wrt_mono_rel[OF _ assms(3)]) blast
qed

lemma concat_sorted_parts: "sorted_wrt R (concat iss) \<Longrightarrow> ks \<in> set iss \<Longrightarrow> sorted_wrt R ks"
  by (induction iss) (auto simp: sorted_wrt_append)

subsection \<open>Properties\<close>

text \<open>
  C29. \<open>SelectMatchingProfiles\<close> of a block: over an index that serves the series \<open>S\<close> and a file whose
  rows are sorted by series and time, it neither panics nor fails, for every schedule of the column
  readers; its iterator ends without error after exactly the rows of the series whose labels
  satisfy the selector and the profile type, with a time in the requested range, each once with the
  labels and fingerprint of its series, in the order of timestamps and labels.
\<close>

theorem block_SelectMatchingProfiles_exact:
  fixes b :: "('s, 'v) blockFiles"
  assumes "serves B k (bf_index b) None S" "0 < B" "matchers_ok ml" "well_labelled S" "no_empty_values S"
    and "series_served (bf_index b) S fpr owner" "block_rows int64 tfn (bf_columns b) ss ts"
    and "parse selector = Inr ms" "\<forall>m \<in> set ms. m_Name m \<noteq> ''''"
  shows "\<exists>n s L. block_SelectMatchingProfiles ml parse int64 tfn unn scheds zero n (Inr b) selector ty start end' = Some (Done s) \<and>
    yields (sort_iterator bk_labels bk_ts zero (slice_iterator zero)) s L [] \<and> in_order bk_labels bk_ts L \<and>
    mset L = mset (map (row_profile int64 tfn (labels_of S fpr owner (dom S)) ss ts)
      (filter (row_kept int64 (unn start) (unn end')
         (labels_of S fpr owner {ref \<in> dom S. \<forall>m \<in> set (ms @ [SelectorFromProfileType ty]). matched ml S ref m}) ss ts) [0..<length ss]))"
proof -
  let ?ms = "ms @ [SelectorFromProfileType ty]"
  let ?D = "{ref \<in> dom S. \<forall>m \<in> set ?ms. matched ml S ref m}"
  have names: "?ms \<noteq> []" "\<forall>m \<in> set ?ms. m_Name m \<noteq> ''''" using assms(9) by (auto simp: SelectorFromProfileType_def LabelNameProfileType_def)
  obtain p k' where p: "PostingsForMatchers ml (bf_index b) None ?ms = Inr p" "fresh B k' p" "elems p = ?D"
    using PostingsForMatchers_ok[OF assms(1-5) names] by blast
  obtain n where n: "ExpandPostings n p = Some (sorted_list_of_set ?D, None)" using expand_valid p(2,3) unfolding fresh_def by metis
  have fin: "finite ?D" by simp
  obtain m where m: "labels_fold ucast (ix_Series (bf_index b)) (sorted_list_of_set ?D) [] = Done m" "map_of m = labels_of S fpr owner ?D"
    using labels_fold_ok[OF assms(6), of "sorted_list_of_set ?D" "[]" "{}"] fin by (fastforce simp: labels_of_def split: option.splits)
  have lab: "labels_loop (pNext n) (bf_index b) ucast n p [] = Some (Done m)"
    using labels_loop_expand[where res = "[]", unfolded append_Nil, OF n[unfolded ExpandPostings_def]] unfolding m(1)[symmetric] by blast
  let ?ser = "\<lambda>i. int64 (ss ! i)" and ?prof = "row_profile int64 tfn (map_of m) ss ts"
  let ?is = "filter (row_kept int64 (unn start) (unn end') (map_of m) ss ts) [0..<length ss]"
  have srt: "sorted_wrt (<) ?is" by (rule sorted_wrt_filter) simp
  have rows: "length ss = length ts"
    "sorted_wrt (\<lambda>(s, t) (s', t'). sint s < sint s' \<or> s = s' \<and> sint (tfn t) \<le> sint (tfn t')) (zip (map int64 ss) (map int64 ts))"
    using assms(7) by (simp_all add: block_rows_def)
  have nonneg: "\<forall>i \<in> set ?is. 0 \<le> sint (?ser i)"
  proof
    fix i assume "i \<in> set ?is"
    then obtain ref where "owner (?ser i) = Some ref" using m(2) by (auto simp: row_kept_def labels_of_def split: option.splits)
    then obtain c :: ChunkMeta where "?ser i = ucast (cm_SeriesIndex c)" using assms(6) unfolding series_served_def by blast
    then show "0 \<le> sint (?ser i)" by (simp add: signed_ucast_eq bit_uint_iff)
  qed
  have init: "sliced ?ser ?prof [] (-1, [], [])" by (auto simp: sliced_def one_series_def)
  have "sorted (map (\<lambda>i. sint (?ser i)) ([] @ ?is))"
    unfolding append_Nil sorted_map using sorted_wrt_nth_less[OF rows(2)] rows(1)
    by (intro sorted_wrt_mono_rel[OF _ srt]) fastforce
  from select_steps_rows[OF init nonneg this, where 'r = unit] obtain st where
    st: "select_steps int64 tfn m (map (profile_row ss ts :: nat \<Rightarrow> ('v pqValue, unit) IteratorResult) ?is) (-1, [], []) = Some st" "sliced ?ser ?prof ?is st"
    by auto
  note loop = select_loop_yields[OF profile_columns_join[OF assms(7), of unn scheds m start end'] st(1)]
  obtain iss where iss: "close_slice st = map (\<lambda>ks. NewSliceIterator (map ?prof ks)) iss" "concat iss = ?is" "list_all (one_series ?ser) iss"
    using sliced_close[OF st(2)] by blast
  have "in_order bk_labels bk_ts (map ?prof ks)" if ks: "ks \<in> set iss" for ks
  proof (rule kept_in_order[OF rows(2) rows(1)])
    show "sorted_wrt (<) ks" using concat_sorted_parts[OF _ ks] srt iss(2) by metis
    have "set ks \<subseteq> set ?is" using ks iss(2) by (metis UN_upper set_concat)
    then show "set ks \<subseteq> {..<length ss}" by auto
    show "one_series ?ser ks" using iss(3) ks by (simp add: list_all_iff)
  qed
  then have "list_all2 (\<lambda>i (xs, e). yields (slice_iterator zero) i xs e \<and> in_order bk_labels bk_ts xs) (close_slice st) (map (\<lambda>ks. (map ?prof ks, [])) iss)"
    unfolding iss(1) by (simp add: list_all2_conv_all_nth NewSliceIterator_yields)
  from sort_merges[OF this, of zero] obtain s L where
    s: "NewSortProfileIterator bk_labels bk_ts (slice_iterator zero) (close_slice st) = Some s"
       "yields (sort_iterator bk_labels bk_ts zero (slice_iterator zero)) s L []" "in_order bk_labels bk_ts L" "mset L = mset (map ?prof (concat iss))"
    by (auto simp: slice_iterator_def o_def map_concat)
  have sel: "block_SelectMatchingProfiles ml parse int64 tfn unn scheds zero n (Inr b) selector ty start end' = Some (Done s)"
    using p(1) lab loop s(1) assms(8) by (simp add: block_SelectMatchingProfiles_def)
  have prof: "map ?prof ?is = map (row_profile int64 tfn (labels_of S fpr owner (dom S)) ss ts) ?is"
    unfolding m(2) by (rule map_cong) (auto simp: row_kept_def row_profile_def labels_of_def split: option.splits if_splits)
  have "mset L = mset (map (row_profile int64 tfn (labels_of S fpr owner (dom S)) ss ts) ?is)" unfolding s(4) iss(2) prof ..
  then show ?thesis unfolding m(2) by (intro exI[of _ n] exI[of _ s] exI[of _ L] conjI sel s(2,3))
qed

definition demo_type :: ProfileType where
  "demo_type = \<lparr>pt_ID = ''p'', pt_Name = ''n'', pt_SampleType = ''s'', pt_SampleUnit = ''u'', pt_PeriodType = ''t'', pt_PeriodUnit = ''v''\<rparr>"

definition demo_series :: "(u64 \<times> labels) list" where
  "demo_series =
     (let ty = \<lparr>lp_Name = LabelNameProfileType, lp_Value = m_Value (SelectorFromProfileType demo_type)\<rparr>
      in [(4, [ty, \<lparr>lp_Name = ''job'', lp_Value = ''a''\<rparr>]), (8, [ty, \<lparr>lp_Name = ''job'', lp_Value = ''b''\<rparr>])])"

definition demo_column :: "i64 list \<Rightarrow> i64 pqRowGroup list" where
  "demo_column vs =
     [\<lparr>rg_NumRows = int (length vs), rg_ColumnChunk = \<lparr>cc_ColumnIndex = None, cc_Pages =
        [PageRead \<lparr>pg_NumRows = int (length vs), pg_Dictionary = None, pg_Bounds = None, pg_reads = [(map flat_value vs, REOF)]\<rparr>]\<rparr>\<rparr>]"

definition demo_block :: "(unit, i64) blockFiles" where
  "demo_block = \<lparr>bf_index = list_reader demo_series, bf_columns = [(''SeriesIndex'', demo_column [4, 4, 8]), (''TimeNanos'', demo_column [10, 20, 15])]\<rparr>"

lemma demo_block_rows: "block_rows (\<lambda>x. x) (\<lambda>x. x) (bf_columns demo_block) [4, 4, 8] [10, 20, 15]"
  by code_simp

theorem block_SelectMatchingProfiles_exact_witness:
  "\<exists>n s. block_SelectMatchingProfiles set_lib (\<lambda>q. Inr [\<lparr>m_Type = MatchEqual, m_Name = ''job'', m_Value = ''b''\<rparr>]) (\<lambda>x. x) (\<lambda>x. x) (\<lambda>x. x)
       (\<lambda>n. n, \<lambda>n. 2) \<lparr>bk_labels = [], bk_fp = 0, bk_ts = 0, bk_RowNum = 0\<rparr> n (Inr demo_block) ''{job=b}'' demo_type 0 30 = Some (Done s) \<and>
     yields (sort_iterator bk_labels bk_ts \<lparr>bk_labels = [], bk_fp = 0, bk_ts = 0, bk_RowNum = 0\<rparr> (slice_iterator \<lparr>bk_labels = [], bk_fp = 0, bk_ts = 0, bk_RowNum = 0\<rparr>)) s
       [\<lparr>bk_labels = the (map_of demo_series 8), bk_fp = 8, bk_ts = 15, bk_RowNum = 2\<rparr>] []"
proof -
  let ?S = "map_of demo_series" and ?z = "\<lparr>bk_labels = [], bk_fp = 0, bk_ts = 0, bk_RowNum = 0\<rparr> :: BlockProfile"
  let ?owner = "\<lambda>s :: i64. if s = 4 then Some (4 :: u64) else if s = 8 then Some 8 else None"
  let ?ms = "[\<lparr>m_Type = MatchEqual, m_Name = ''job'', m_Value = ''b''\<rparr>]"
  have sv: "serves (2 ^ 64) 0 (bf_index demo_block) None ?S"
    unfolding demo_block_def blockFiles.simps by (rule list_reader_serves) (simp_all add: demo_series_def Let_def LabelNameProfileType_def)
  have wl: "well_labelled ?S"
    by (auto simp: demo_series_def Let_def well_labelled_def ran_def LabelNameProfileType_def split: if_splits)
  have ne: "no_empty_values ?S"
    by (auto simp: demo_series_def Let_def no_empty_values_def holds_def SelectorFromProfileType_def split: if_splits)
  have ow: "series_served (bf_index demo_block) ?S (\<lambda>r. r) ?owner"
    by (auto simp: series_served_def demo_block_def list_reader_def demo_series_def Let_def split: if_splits)
  have D: "{ref \<in> dom ?S. \<forall>m \<in> set (?ms @ [SelectorFromProfileType demo_type]). matched set_lib ?S ref m} = {8}"
    by (auto simp: demo_series_def Let_def matched_def label_value_def set_lib_def SelectorFromProfileType_def LabelNameProfileType_def split: if_splits)
  have keep: "mset (map (row_profile (\<lambda>x. x) (\<lambda>x. x) (labels_of ?S (\<lambda>r. r) ?owner (dom ?S)) [4, 4, 8] [10, 20, 15])
      (filter (row_kept (\<lambda>x. x) 0 30 (labels_of ?S (\<lambda>r. r) ?owner {8}) [4, 4, 8] [10, 20, 15]) [0..<length [4, 4, 8 :: i64]])) =
    {#\<lparr>bk_labels = the (?S 8), bk_fp = 8, bk_ts = 15, bk_RowNum = 2\<rparr>#}"
    by (simp add: row_kept_def row_profile_def labels_of_def upt_rec demo_series_def Let_def)
  have "0 < (2 ^ 64 :: nat)" "(\<lambda>q. Inr ?ms :: string + matcher list) ''{job=b}'' = Inr ?ms" "\<forall>m \<in> set ?ms. m_Name m \<noteq> ''''" by simp_all
  from block_SelectMatchingProfiles_exact[where parse = "\<lambda>q. Inr ?ms" and unn = "\<lambda>x. x" and scheds = "(\<lambda>n. n, \<lambda>n. 2)" and zero = ?z
      and ty = demo_type and start = 0 and end' = 30, OF sv this(1) set_lib_ok wl ne ow demo_block_rows this(2,3), unfolded D keep]
  obtain n s L where w: "block_SelectMatchingProfiles set_lib (\<lambda>q. Inr ?ms) (\<lambda>x. x) (\<lambda>x. x) (\<lambda>x. x) (\<lambda>n. n, \<lambda>n. 2) ?z n (Inr demo_block) ''{job=b}'' demo_type 0 30 = Some (Done s)"
    "yields (sort_iterator bk_labels bk_ts ?z (slice_iterator ?z)) s L []" "mset L = {#\<lparr>bk_labels = the (?S 8), bk_fp = 8, bk_ts = 15, bk_RowNum = 2\<rparr>#}" by blast
  have "L = [\<lparr>bk_labels = the (?S 8), bk_fp = 8, bk_ts = 15, bk_RowNum = 2\<rparr>]" using w(3) by simp
  then show ?thesis using w(1,2) by blast
qed

end
