(* ===== verification/Delta.thy ===== *)
theory Delta
  imports Labels "HOL-Library.Monad_Syntax"
begin

section \<open>Delta of cumulative profiles (pkg/phlaredb/delta.go)\<close>

text \<open>
  Allocation profiles are cumulative: the head keeps the highest samples of each series and stores
  the difference. Samples are pointers: the samples of a profile, of \<open>highestSamples\<close> and of the
  profiles that were ingested before may be the same objects, and \<open>deltaSamples\<close> changes them in
  place. The model therefore has a store of samples, and a slice of pointers is a list of addresses.
\<close>

record pLabel =
  pl_Key :: i64
  pl_Str :: i64
  pl_Num :: i64
  pl_NumUnit :: i64

record Sample =
  sv_StacktraceID :: u64
  sv_Value :: i64
  sv_Labels :: "pLabel list"

type_synonym sample_store = "Sample list"

definition set_value :: "sample_store \<Rightarrow> nat \<Rightarrow> i64 \<Rightarrow> sample_store" where
  "set_value st a v = st[a := (st ! a)\<lparr>sv_Value := v\<rparr>]"

subsection \<open>The code\<close>

definition isDelta :: "labels \<Rightarrow> bool" where
  "isDelta lbs =
     (Labels_Get lbs MetricName = ''memory'' \<and>
      (Labels_Get lbs LabelNameType = ''alloc_objects'' \<or> Labels_Get lbs LabelNameType = ''alloc_space''))"

fun delta_loop :: "(u64 \<times> nat) list \<Rightarrow> sample_store \<Rightarrow> nat list \<Rightarrow> nat list \<Rightarrow> sample_store \<times> nat list" where
  "delta_loop stacktraces st highest [] = (st, highest)"
| "delta_loop stacktraces st highest (n # new) =
     (case map_of stacktraces (sv_StacktraceID (st ! n)) of
        Some s \<Rightarrow>
          if sint (sv_Value (st ! s)) \<le> sint (sv_Value (st ! n)) then
            let newMax = sv_Value (st ! n);
                st = set_value st n (sv_Value (st ! n) - sv_Value (st ! s));
                st = set_value st s newMax
            in delta_loop stacktraces st highest new
          else delta_loop stacktraces (set_value st s (sv_Value (st ! n))) highest new
      | None \<Rightarrow> delta_loop stacktraces st (highest @ [n]) new)"

definition stacktraces_map :: "sample_store \<Rightarrow> nat list \<Rightarrow> (u64 \<times> nat) list" where
  "stacktraces_map st highest = fold (\<lambda>h m. AList.update (sv_StacktraceID (st ! h)) h m) highest []"

definition deltaSamples :: "sample_store \<Rightarrow> nat list \<Rightarrow> nat list \<Rightarrow> sample_store \<times> nat list" where
  "deltaSamples st highest new = delta_loop (stacktraces_map st highest) st highest new"

type_synonym deltaProfiles = "(u64 \<times> nat list) list"

text \<open>The samples of the profile to store, or \<open>None\<close> for nil: the profile is dropped.\<close>

definition computeDelta :: "sample_store \<Rightarrow> deltaProfiles \<Rightarrow> u64 \<Rightarrow> nat list \<Rightarrow> labels
    \<Rightarrow> nat list option \<times> sample_store \<times> deltaProfiles" where
  "computeDelta st d fp samples lbs =
     (if \<not> isDelta lbs then (Some samples, st, d)
      else case map_of d fp of
             None \<Rightarrow> (None, st, AList.update fp samples d)
           | Some lastSamples \<Rightarrow>
               if lastSamples = [] then (Some samples, st, d)
               else let (st, highest) = deltaSamples st lastSamples samples
                    in (Some (filter (\<lambda>x. sv_Value (st ! x) \<noteq> 0) samples), st, AList.update fp highest d))"

subsection \<open>The difference to the highest samples\<close>

definition delta_of :: "i64 option \<Rightarrow> i64 \<Rightarrow> i64" where
  "delta_of prev v = (case prev of None \<Rightarrow> v | Some h \<Rightarrow> if sint h \<le> sint v then v - h else v)"

text \<open>The value that a slice of samples has for a stack trace.\<close>

definition value_for :: "sample_store \<Rightarrow> nat list \<Rightarrow> u64 \<Rightarrow> i64 option" where
  "value_for st as i = map_of (map (\<lambda>a. (sv_StacktraceID (st ! a), sv_Value (st ! a))) as) i"

definition ids :: "sample_store \<Rightarrow> nat list \<Rightarrow> u64 list" where
  "ids st as = map (\<lambda>a. sv_StacktraceID (st ! a)) as"

definition separate :: "sample_store \<Rightarrow> nat list \<Rightarrow> nat list \<Rightarrow> bool" where
  "separate st as bs \<longleftrightarrow> distinct (as @ bs) \<and> (\<forall>a \<in> set (as @ bs). a < length st) \<and> distinct (ids st as) \<and> distinct (ids st bs)"

lemma set_value_simps [simp]:
  "length (set_value st a v) = length st"
  "b \<noteq> a \<Longrightarrow> set_value st a v ! b = st ! b"
  "a < length st \<Longrightarrow> set_value st a v ! a = (st ! a)\<lparr>sv_Value := v\<rparr>"
  "sv_StacktraceID (set_value st a v ! b) = sv_StacktraceID (st ! b)"
  by (cases "a < length st"; auto simp: set_value_def nth_list_update list_update_beyond)+

lemma ids_set_value [simp]: "ids (set_value st a v) as = ids st as"
  by (simp add: ids_def)

lemma value_for_other: "\<forall>a \<in> set as. st' ! a = st ! a \<Longrightarrow> value_for st' as i = value_for st as i"
  unfolding value_for_def by (metis (no_types, lifting) map_cong)

lemma value_for_set:
  assumes "distinct (ids st as)" "a \<in> set as" "a < length st"
  shows "value_for (set_value st a v) as i = (if i = sv_StacktraceID (st ! a) then Some v else value_for st as i)"
  using assms
proof (induction as)
  case (Cons b as)
  show ?case
  proof (cases "a = b")
    case True
    have "sv_StacktraceID (st ! b) \<notin> set (ids st as)" using Cons.prems by (simp add: ids_def)
    then have "\<forall>x \<in> set as. x \<noteq> b" by (auto simp: ids_def)
    then have "value_for (set_value st a v) as i = value_for st as i" using True by (intro value_for_other) auto
    then show ?thesis using True Cons.prems(3) by (simp add: value_for_def)
  next
    case False
    then have "a \<in> set as" "sv_StacktraceID (st ! b) \<noteq> sv_StacktraceID (st ! a)" using Cons.prems by (auto simp: ids_def)
    then show ?thesis using Cons.IH Cons.prems False by (auto simp: value_for_def ids_def)
  qed
qed simp

definition addr_of :: "sample_store \<Rightarrow> nat list \<Rightarrow> u64 \<Rightarrow> nat option" where
  "addr_of st as i = map_of (map (\<lambda>a. (sv_StacktraceID (st ! a), a)) as) i"

lemma addr_of_Cons: "addr_of st (a # as) i = (if i = sv_StacktraceID (st ! a) then Some a else addr_of st as i)"
  by (simp add: addr_of_def)

lemma addr_of_None: "addr_of st as i = None \<longleftrightarrow> i \<notin> set (ids st as)"
  by (simp add: addr_of_def ids_def map_of_eq_None_iff image_image)

lemma addr_of_mem: "addr_of st as i = Some a \<Longrightarrow> a \<in> set as \<and> sv_StacktraceID (st ! a) = i"
  by (induction as) (auto simp: addr_of_def split: if_splits)

lemma value_for_addr: "value_for st as i = map_option (\<lambda>a. sv_Value (st ! a)) (addr_of st as i)"
  unfolding value_for_def addr_of_def by (induction as) auto

lemma addr_of_set_value [simp]: "addr_of (set_value st a v) as i = addr_of st as i"
  by (simp add: addr_of_def)

lemma stacktraces_map_spec:
  assumes "distinct (ids st as)"
  shows "map_of (stacktraces_map st as) i = addr_of st as i"
proof -
  have "map_of (fold (\<lambda>h m. AList.update (sv_StacktraceID (st ! h)) h m) as m) i =
      (case addr_of st as i of Some a \<Rightarrow> Some a | None \<Rightarrow> map_of m i)" for m
    using assms
  proof (induction as arbitrary: m)
    case (Cons a as)
    then have "addr_of st as (sv_StacktraceID (st ! a)) = None" by (simp add: addr_of_None ids_def)
    then show ?case using Cons.IH Cons.prems
      by (cases "i = sv_StacktraceID (st ! a)") (auto simp: addr_of_Cons ids_def AList.update_conv' split: option.splits)
  qed (simp add: addr_of_def)
  then show ?thesis by (simp add: stacktraces_map_def split: option.splits)
qed

text \<open>
  The loop over samples that are apart from the highest ones, whose stack traces are found by
  \<open>m\<close>: the samples get their differences, the highest ones the new values, and the samples whose
  stack trace is new are appended.
\<close>

lemma delta_loop_spec:
  assumes "\<And>i. map_of m i = addr_of st highest i" and "separate st highest new" and "distinct (ids st new)"
    and "delta_loop m st (highest @ added) new = (st', highest')"
  shows "length st' = length st \<and> (\<forall>a. sv_StacktraceID (st' ! a) = sv_StacktraceID (st ! a))
    \<and> (\<forall>a. a \<notin> set (highest @ new) \<longrightarrow> st' ! a = st ! a)
    \<and> (\<forall>a \<in> set new. st' ! a = (st ! a)\<lparr>sv_Value := delta_of (value_for st highest (sv_StacktraceID (st ! a))) (sv_Value (st ! a))\<rparr>)
    \<and> (\<forall>i. value_for st' highest i = (case value_for st new i of Some v \<Rightarrow> if addr_of st highest i = None then None else Some v | None \<Rightarrow> value_for st highest i))
    \<and> highest' = highest @ added @ filter (\<lambda>a. addr_of st highest (sv_StacktraceID (st ! a)) = None) new"
  using assms
proof (induction new arbitrary: st added)
  case Nil
  then show ?case by (auto simp: value_for_def)
next
  case (Cons n new)
  let ?i = "sv_StacktraceID (st ! n)"
  have sep: "distinct (highest @ new)" "n \<notin> set highest" "n \<notin> set new" "n < length st" "\<forall>a \<in> set (highest @ new). a < length st"
    "distinct (ids st highest)" "distinct (ids st new)" "?i \<notin> set (ids st new)"
    using Cons.prems(2) by (auto simp: separate_def ids_def)
  show ?case
  proof (cases "addr_of st highest ?i")
    case None
    have step: "delta_loop m st (highest @ (added @ [n])) new = (st', highest')" using Cons.prems(1,4) None by simp
    have "separate st highest new" using sep by (simp add: separate_def)
    note IH = Cons.IH[OF Cons.prems(1) this sep(7) step]
    have "st' ! n = st ! n" using IH sep(2,3) by auto
    moreover have "value_for st highest ?i = None" using None by (simp add: value_for_addr)
    moreover have "value_for st (n # new) i = (if i = ?i then Some (sv_Value (st ! n)) else value_for st new i)" for i
      by (simp add: value_for_def)
    moreover have "value_for st new ?i = None" using sep(8) by (simp add: value_for_addr addr_of_None)
    ultimately show ?thesis using IH None by (auto simp: delta_of_def)
  next
    case (Some s)
    have s: "s \<in> set highest" "sv_StacktraceID (st ! s) = ?i" using addr_of_mem[OF Some] by auto
    have sn: "s \<noteq> n" "s < length st" "s \<notin> set new" using s(1) sep by auto
    let ?v = "sv_Value (st ! n)" and ?h = "sv_Value (st ! s)"
    define st1 where "st1 = (if sint ?h \<le> sint ?v then set_value (set_value st n (?v - ?h)) s ?v else set_value st s ?v)"
    have step: "delta_loop m st1 (highest @ added) new = (st', highest')"
      using Cons.prems(1,4) Some by (auto simp: st1_def Let_def)
    have st1: "length st1 = length st" "\<And>a. sv_StacktraceID (st1 ! a) = sv_StacktraceID (st ! a)" "\<And>a. a \<noteq> n \<Longrightarrow> a \<noteq> s \<Longrightarrow> st1 ! a = st ! a"
        "sv_Value (st1 ! s) = ?v" "st1 ! n = (st ! n)\<lparr>sv_Value := delta_of (Some ?h) ?v\<rparr>"
      using sn sep(4) by (auto simp: st1_def delta_of_def)
    have ids1: "ids st1 as = ids st as" "addr_of st1 as i = addr_of st as i" for as i using st1(2) by (simp_all add: ids_def addr_of_def)
    have "separate st1 highest new" using sep st1(1) ids1(1) by (simp add: separate_def)
    moreover have "\<And>i. map_of m i = addr_of st1 highest i" using Cons.prems(1) ids1(2) by simp
    ultimately have IH: "length st' = length st1 \<and> (\<forall>a. sv_StacktraceID (st' ! a) = sv_StacktraceID (st1 ! a))
      \<and> (\<forall>a. a \<notin> set (highest @ new) \<longrightarrow> st' ! a = st1 ! a)
      \<and> (\<forall>a \<in> set new. st' ! a = (st1 ! a)\<lparr>sv_Value := delta_of (value_for st1 highest (sv_StacktraceID (st1 ! a))) (sv_Value (st1 ! a))\<rparr>)
      \<and> (\<forall>i. value_for st' highest i = (case value_for st1 new i of Some v \<Rightarrow> if addr_of st1 highest i = None then None else Some v | None \<Rightarrow> value_for st1 highest i))
      \<and> highest' = highest @ added @ filter (\<lambda>a. addr_of st1 highest (sv_StacktraceID (st1 ! a)) = None) new"
      using Cons.IH[OF _ _ _ step] sep(7) ids1(1) by simp
    have new1: "value_for st1 new i = value_for st new i" for i using sn(3) sep(3) st1(3) by (intro value_for_other) metis
    have high1: "value_for st1 highest i = (if i = ?i then Some ?v else value_for st highest i)" for i
    proof -
      have "addr_of st highest i = Some a \<Longrightarrow> i \<noteq> ?i \<Longrightarrow> st1 ! a = st ! a" for a
        using addr_of_mem[of st highest i a] st1(3)[of a] s(2) sep(2) by auto
      then show ?thesis using Some st1(4) ids1(2)
        by (cases "addr_of st highest i") (auto simp: value_for_addr)
    qed
    have "st' ! n = (st ! n)\<lparr>sv_Value := delta_of (value_for st highest ?i) ?v\<rparr>"
      using IH sep(2,3) st1(5) Some by (simp add: value_for_addr)
    moreover have "st' ! a = (st ! a)\<lparr>sv_Value := delta_of (value_for st highest (sv_StacktraceID (st ! a))) (sv_Value (st ! a))\<rparr>" if "a \<in> set new" for a
    proof -
      have "a \<noteq> n" "a \<noteq> s" "sv_StacktraceID (st ! a) \<noteq> ?i" using that sep(3,8) sn(3) by (auto simp: ids_def image_iff)
      then show ?thesis using IH that st1(2,3) high1 by simp
    qed
    moreover have "value_for st' highest i = (case value_for st (n # new) i of Some v \<Rightarrow> if addr_of st highest i = None then None else Some v | None \<Rightarrow> value_for st highest i)" for i
    proof -
      have "value_for st new ?i = None" using sep(8) by (simp add: value_for_addr addr_of_None)
      moreover have "value_for st (n # new) i = (if i = ?i then Some ?v else value_for st new i)" by (simp add: value_for_def)
      ultimately show ?thesis using IH new1 high1 ids1(2) Some by (auto split: option.splits)
    qed
    ultimately show ?thesis using IH st1(1,2,3) ids1(2) Some s(1) by auto
  qed
qed

text \<open>One call for a series that has highest samples, in terms of the store.\<close>

lemma computeDelta_step:
  assumes "isDelta lbs" and "map_of d fp = Some lastSamples" and "lastSamples \<noteq> []" and "separate st lastSamples samples"
    and "computeDelta st d fp samples lbs = (r, st', d')"
  shows "r = Some (filter (\<lambda>x. sv_Value (st' ! x) \<noteq> 0) samples)"
    and "map_of d' fp = Some (lastSamples @ filter (\<lambda>a. addr_of st lastSamples (sv_StacktraceID (st ! a)) = None) samples)"
    and "\<forall>a \<in> set samples. st' ! a = (st ! a)\<lparr>sv_Value := delta_of (value_for st lastSamples (sv_StacktraceID (st ! a))) (sv_Value (st ! a))\<rparr>"
    and "\<forall>i. value_for st' lastSamples i =
      (case value_for st samples i of Some v \<Rightarrow> if addr_of st lastSamples i = None then None else Some v | None \<Rightarrow> value_for st lastSamples i)"
    and "\<forall>a. sv_StacktraceID (st' ! a) = sv_StacktraceID (st ! a)"
proof -
  obtain st1 highest where ds: "deltaSamples st lastSamples samples = (st1, highest)" by fastforce
  have d: "distinct (ids st lastSamples)" "distinct (ids st samples)" using assms(4) by (auto simp: separate_def)
  have dl: "delta_loop (stacktraces_map st lastSamples) st (lastSamples @ []) samples = (st1, highest)" using ds by (simp add: deltaSamples_def)
  note spec = delta_loop_spec[OF stacktraces_map_spec[OF d(1)] assms(4) d(2) dl]
  have res: "r = Some (filter (\<lambda>x. sv_Value (st1 ! x) \<noteq> 0) samples)" "st' = st1" "d' = AList.update fp highest d"
    using assms(1-3,5) ds by (auto simp: computeDelta_def)
  show "r = Some (filter (\<lambda>x. sv_Value (st' ! x) \<noteq> 0) samples)" using res by simp
  show "map_of d' fp = Some (lastSamples @ filter (\<lambda>a. addr_of st lastSamples (sv_StacktraceID (st ! a)) = None) samples)"
    using res(3) spec by (simp add: AList.update_conv')
  show "\<forall>a \<in> set samples. st' ! a = (st ! a)\<lparr>sv_Value := delta_of (value_for st lastSamples (sv_StacktraceID (st ! a))) (sv_Value (st ! a))\<rparr>"
    using res(2) spec by blast
  show "\<forall>i. value_for st' lastSamples i =
      (case value_for st samples i of Some v \<Rightarrow> if addr_of st lastSamples i = None then None else Some v | None \<Rightarrow> value_for st lastSamples i)"
    using res(2) spec by blast
  show "\<forall>a. sv_StacktraceID (st' ! a) = sv_StacktraceID (st ! a)" using res(2) spec by blast
qed

lemma value_for_mem: "distinct (ids st as) \<Longrightarrow> a \<in> set as \<Longrightarrow> value_for st as (sv_StacktraceID (st ! a)) = Some (sv_Value (st ! a))"
  by (induction as) (auto simp: value_for_def ids_def image_iff)

subsection \<open>Properties\<close>

text \<open>
  C18. \<open>computeDelta\<close> of a cumulative profile whose series has highest samples: each sample of the
  stored profile is the new value less the highest one of its stack trace (the new value itself for
  a stack trace that was not seen before, and after a reset of the counter), samples without a
  difference are dropped, and the highest value of each stack trace becomes the new one.
\<close>

theorem computeDelta_delta:
  assumes "isDelta lbs" and "map_of d fp = Some lastSamples" and "lastSamples \<noteq> []" and "separate st lastSamples samples"
    and "computeDelta st d fp samples lbs = (r, st', d')"
  shows "\<exists>kept highest. r = Some kept \<and> map_of d' fp = Some highest
    \<and> map (\<lambda>a. st' ! a) kept = filter (\<lambda>x. sv_Value x \<noteq> 0)
        (map (\<lambda>a. (st ! a)\<lparr>sv_Value := delta_of (value_for st lastSamples (sv_StacktraceID (st ! a))) (sv_Value (st ! a))\<rparr>) samples)
    \<and> (\<forall>i. value_for st' highest i = (case value_for st samples i of Some v \<Rightarrow> Some v | None \<Rightarrow> value_for st lastSamples i))"
proof -
  note step = computeDelta_step[OF assms]
  let ?new = "\<lambda>a. (st ! a)\<lparr>sv_Value := delta_of (value_for st lastSamples (sv_StacktraceID (st ! a))) (sv_Value (st ! a))\<rparr>"
  have "map ((!) st') (filter (\<lambda>x. sv_Value (st' ! x) \<noteq> 0) as) = filter (\<lambda>x. sv_Value x \<noteq> 0) (map ?new as)" if "\<forall>a \<in> set as. st' ! a = ?new a" for as
    using that by (induction as) (auto simp del: map_map)
  then have kept: "map ((!) st') (filter (\<lambda>x. sv_Value (st' ! x) \<noteq> 0) samples) = filter (\<lambda>x. sv_Value x \<noteq> 0) (map ?new samples)"
    using step(3) by blast
  let ?fresh = "filter (\<lambda>a. addr_of st lastSamples (sv_StacktraceID (st ! a)) = None) samples"
  have "value_for st' (lastSamples @ ?fresh) i = (case value_for st samples i of Some v \<Rightarrow> Some v | None \<Rightarrow> value_for st lastSamples i)" for i
  proof -
    have same: "st' ! a = st ! a" if "a \<in> set ?fresh" for a
      using that step(3) by (auto simp: value_for_addr delta_of_def)
    have app: "value_for st' (lastSamples @ ?fresh) i = (case value_for st' lastSamples i of Some v \<Rightarrow> Some v | None \<Rightarrow> value_for st' ?fresh i)"
      unfolding value_for_def by (simp add: map_add_def)
    have "value_for st' ?fresh i = value_for st ?fresh i" using same by (intro value_for_other) blast
    moreover have "value_for st ?fresh i = (if addr_of st lastSamples i = None then value_for st samples i else None)"
      by (induction samples) (auto simp: value_for_def)
    ultimately show ?thesis using app step(4)
      by (cases "addr_of st lastSamples i"; cases "value_for st samples i") (auto simp: value_for_addr)
  qed
  then show ?thesis using step(1,2) kept by auto
qed

definition memory_labels :: labels where
  "memory_labels = [\<lparr>lp_Name = MetricName, lp_Value = ''memory''\<rparr>, \<lparr>lp_Name = LabelNameType, lp_Value = ''alloc_space''\<rparr>]"

definition sample :: "u64 \<Rightarrow> i64 \<Rightarrow> Sample" where
  "sample i v = \<lparr>sv_StacktraceID = i, sv_Value = v, sv_Labels = []\<rparr>"

lemma memory_isDelta: "isDelta memory_labels"
  by (simp add: isDelta_def memory_labels_def MetricName_def LabelNameType_def)

theorem computeDelta_delta_witness:
  "\<exists>kept st' d'. computeDelta [sample 1 5, sample 1 7, sample 2 3] [(9, [0])] 9 [1, 2] memory_labels = (Some kept, st', d')
     \<and> map (\<lambda>a. st' ! a) kept = [sample 1 2, sample 2 3]"
proof -
  let ?st = "[sample 1 5, sample 1 7, sample 2 3]"
  obtain r st' d' where c: "computeDelta ?st [(9, [0])] 9 [1, 2] memory_labels = (r, st', d')" by (metis prod_cases3)
  have "separate ?st [0] [1, 2]" by (auto simp: separate_def ids_def sample_def)
  from computeDelta_delta[OF memory_isDelta _ _ this c] show ?thesis
    using c by (auto simp: value_for_def delta_of_def sample_def)
qed

text \<open>
  C19. A sample whose stack trace is new to the series is shared between the stored profile and the highest samples, so the next profile of the series
  overwrites it. For every two cumulative profiles of a series that has highest samples, with samples of their own: if the first has a sample \<open>a\<close> with a value other than 0 and
  a stack trace that the highest samples do not have, and the second has a sample \<open>b\<close> for the same stack trace, then \<open>a\<close> is part of the first profile
  as it is stored, with its own value, and after the second call the stored sample has the value that \<open>b\<close> had.
\<close>

theorem computeDelta_overwrites:
  assumes delta: "isDelta lbs" and last: "map_of d fp = Some lastSamples" "lastSamples \<noteq> []"
    and first: "separate st lastSamples samples1" "computeDelta st d fp samples1 lbs = (r1, st1, d1)"
    and second: "map_of d1 fp = Some highest" "separate st1 highest samples2" "computeDelta st1 d1 fp samples2 lbs = (r2, st2, d2)"
    and a: "a \<in> set samples1" "sv_StacktraceID (st ! a) \<notin> set (ids st lastSamples)" "sv_Value (st ! a) \<noteq> 0"
    and b: "b \<in> set samples2" "sv_StacktraceID (st1 ! b) = sv_StacktraceID (st ! a)"
  shows "\<exists>kept. r1 = Some kept \<and> a \<in> set kept \<and> st1 ! a = st ! a \<and> sv_Value (st2 ! a) = sv_Value (st1 ! b)"
proof -
  let ?i = "sv_StacktraceID (st ! a)"
  note s1 = computeDelta_step[OF delta last first]
  have none: "addr_of st lastSamples ?i = None" using a(2) by (simp add: addr_of_None)
  have same: "st1 ! a = st ! a" using s1(3) a(1) none by (simp add: value_for_addr delta_of_def)
  have kept: "a \<in> set (filter (\<lambda>x. sv_Value (st1 ! x) \<noteq> 0) samples1)" using a same by simp
  have ah: "a \<in> set highest" using second(1) s1(2) a(1) none by auto
  have "highest \<noteq> []" using ah by auto
  note s2 = computeDelta_step[OF delta second(1) this second(2,3)]
  have d: "distinct (ids st1 highest)" "distinct (ids st1 samples2)" "distinct (ids st2 highest)"
    using second(2) s2(5) by (simp_all add: separate_def ids_def)
  have "value_for st1 samples2 ?i = Some (sv_Value (st1 ! b))" using value_for_mem[OF d(2) b(1)] b(2) by simp
  moreover have "addr_of st1 highest ?i \<noteq> None" using ah s1(5) by (auto simp: addr_of_None ids_def)
  ultimately have "value_for st2 highest ?i = Some (sv_Value (st1 ! b))" using s2(4) by simp
  moreover have "value_for st2 highest ?i = Some (sv_Value (st2 ! a))" using value_for_mem[OF d(3) ah] s1(5) s2(5) by simp
  ultimately show ?thesis using s1(1) kept same by auto
qed

text \<open>
  The series has the value 5 for stack trace 1. The profile of sample 1 and 2 is stored with the value 3 for stack trace 2; the next profile has the value 10
  there, and the stored sample 2 becomes 10.
\<close>

theorem computeDelta_overwrites_witness:
  "\<exists>kept st1 d1 r2 st2 d2. computeDelta [sample 1 5, sample 1 7, sample 2 3, sample 2 10] [(9, [0])] 9 [1, 2] memory_labels = (Some kept, st1, d1)
   \<and> computeDelta st1 d1 9 [3] memory_labels = (r2, st2, d2) \<and> 2 \<in> set kept \<and> sv_Value (st1 ! 2) = 3 \<and> sv_Value (st2 ! 2) = 10"
proof -
  let ?st = "[sample 1 5, sample 1 7, sample 2 3, sample 2 10]" and ?st1 = "[sample 1 7, sample 1 2, sample 2 3, sample 2 10]"
  have c1: "computeDelta ?st [(9, [0])] 9 [1, 2] memory_labels = (Some [1, 2], ?st1, [(9, [0, 2])])"
    by (simp add: computeDelta_def memory_isDelta deltaSamples_def stacktraces_map_def set_value_def sample_def)
  obtain r2 st2 d2 where c2: "computeDelta ?st1 [(9, [0, 2])] 9 [3] memory_labels = (r2, st2, d2)" by (metis prod_cases3)
  have "separate ?st [0] [1, 2]" "separate ?st1 [0, 2] [3]" by (auto simp: separate_def ids_def sample_def)
  from computeDelta_overwrites[OF memory_isDelta _ _ this(1) c1 _ this(2) c2, of 2 3]
  have "sv_Value (st2 ! 2) = 10" by (simp add: ids_def sample_def)
  then show ?thesis using c1 c2 by (intro exI conjI) (assumption | simp add: sample_def)+
qed

end
