(* ===== verification/Dedup_Slice.thy ===== *)
theory Dedup_Slice
  imports Go_Sort "HOL-Library.Monad_Syntax" "HOL-Library.Sublist"
begin

section \<open>Deduplicating tables (pkg/phlaredb/deduplicating_slice.go)\<close>

text \<open>
  A table of the head: the elements in the order in which they were first ingested and a lookup
  from keys to positions. \<open>ingest\<close> takes the elements of one profile, rewrites the references they
  hold, and returns where each of them ended up. What depends on the type of the elements is the
  interface \<open>Helper\<close>, a record of functions. Go's \<open>int64\<close> positions are words.

  \<open>ingest\<close> looks the keys up under the read lock and adds the missing ones under the write lock;
  in between other goroutines may add elements. The two critical sections are therefore two
  functions, \<open>read_phase\<close> and \<open>write_phase\<close>, and the facts about them allow the table to grow in
  between (\<open>grows\<close>). A panic (an index that cannot be rewritten) is \<open>None\<close>.

  The elements are pointers where they have an ID of their own: \<open>setID\<close> runs after the element was
  appended and changes the element that is in the table, so the stored element is the one after
  \<open>setID\<close>. The parquet writer is third-party code, the parameter of \<open>Flush\<close>.
\<close>

record ('m, 'k, 'r) Helper =
  hp_key :: "'m \<Rightarrow> 'k"
  hp_addToRewriter :: "(i64 \<times> i64) list \<Rightarrow> 'r \<Rightarrow> 'r"
  hp_rewrite :: "'r \<Rightarrow> 'm \<Rightarrow> 'm option"
  hp_setID :: "u64 \<Rightarrow> u64 \<Rightarrow> 'm \<Rightarrow> u64 \<times> 'm"
  hp_size :: "'m \<Rightarrow> u64"
  hp_clone :: "'m \<Rightarrow> 'm"

record ParquetConfig =
  MaxBufferRowCount :: int
  MaxRowGroupBytes :: u64

record ('m, 'k) deduplicatingSlice =
  ds_slice :: "'m list"
  ds_size :: u64
  ds_lookup :: "('k \<times> i64) list"
  ds_rowsFlushed :: nat

definition ds_init :: "('m, 'k) deduplicatingSlice" where
  "ds_init = \<lparr>ds_slice = [], ds_size = 0, ds_lookup = [], ds_rowsFlushed = 0\<rparr>"

subsection \<open>Ingesting\<close>

fun rewrite_elems :: "('m, 'k, 'r) Helper \<Rightarrow> 'r \<Rightarrow> 'm list \<Rightarrow> 'm list option" where
  "rewrite_elems h r [] = Some []"
| "rewrite_elems h r (e # es) = do { e \<leftarrow> hp_rewrite h r e; es \<leftarrow> rewrite_elems h r es; Some (e # es) }"

text \<open>Without deduplication every element is appended.\<close>

definition append_elems :: "('m, 'k, 'r) Helper \<Rightarrow> 'm list \<Rightarrow> ('m, 'k) deduplicatingSlice \<Rightarrow> ('m, 'k) deduplicatingSlice" where
  "append_elems h es s =
     fold (\<lambda>e s. s\<lparr>ds_slice := ds_slice s @ [hp_clone h e], ds_size := ds_size s + hp_size h e\<rparr>) es s"

text \<open>Under the read lock, from position \<open>pos\<close> on: the rewriting map and the missing positions.\<close>

fun read_phase :: "('m, 'k, 'r) Helper \<Rightarrow> ('k \<times> i64) list \<Rightarrow> nat \<Rightarrow> 'm list \<Rightarrow> (i64 \<times> i64) list \<Rightarrow> nat list
    \<Rightarrow> (i64 \<times> i64) list \<times> nat list" where
  "read_phase h lookup pos [] rmap missing = (rmap, missing)"
| "read_phase h lookup pos (e # es) rmap missing =
     (case map_of lookup (hp_key h e) of
        Some posSlice \<Rightarrow>
          read_phase h lookup (Suc pos) es (AList.update (fst (hp_setID h (of_nat pos) posSlice e)) posSlice rmap) missing
      | None \<Rightarrow> read_phase h lookup (Suc pos) es rmap (missing @ [pos]))"

text \<open>Under the write lock: the missing elements are looked up again and else added.\<close>

fun write_phase :: "('m, 'k, 'r) Helper \<Rightarrow> 'm list \<Rightarrow> nat list \<Rightarrow> ('m, 'k) deduplicatingSlice \<Rightarrow> i64 \<Rightarrow> (i64 \<times> i64) list
    \<Rightarrow> ('m, 'k) deduplicatingSlice \<times> (i64 \<times> i64) list" where
  "write_phase h es [] s posSlice rmap = (s, rmap)"
| "write_phase h es (pos # missing) s posSlice rmap =
     (let e = es ! pos; k = hp_key h e
      in case map_of (ds_lookup s) k of
           Some p \<Rightarrow> write_phase h es missing s posSlice (AList.update (fst (hp_setID h (of_nat pos) p e)) p rmap)
         | None \<Rightarrow>
             let (oldID, e') = hp_setID h (of_nat pos) posSlice (hp_clone h e)
             in write_phase h es missing
                  (s\<lparr>ds_slice := ds_slice s @ [e'], ds_lookup := AList.update k posSlice (ds_lookup s),
                     ds_size := ds_size s + hp_size h e\<rparr>)
                  (posSlice + 1) (AList.update oldID posSlice rmap))"

text \<open>The whole of \<open>ingest\<close> when nobody else writes in between.\<close>

definition ingest :: "bool \<Rightarrow> ('m, 'k, 'r) Helper \<Rightarrow> 'm list \<Rightarrow> ('m, 'k) deduplicatingSlice \<Rightarrow> 'r
    \<Rightarrow> (('m, 'k) deduplicatingSlice \<times> 'r) option" where
  "ingest dedup h elems s r = do {
     elems \<leftarrow> rewrite_elems h r elems;
     if \<not> dedup then Some (append_elems h elems s, r)
     else
       let (rmap, missing) = read_phase h (ds_lookup s) 0 elems [] [];
           (s, rmap) = (if missing \<noteq> [] then write_phase h elems missing s (of_nat (length (ds_slice s))) rmap else (s, rmap))
       in Some (s, hp_addToRewriter h rmap r) }"

definition getIndex :: "('m, 'k) deduplicatingSlice \<Rightarrow> 'k \<Rightarrow> i64 option" where
  "getIndex s k = map_of (ds_lookup s) k"

subsection \<open>Flushing\<close>

text \<open>
  \<open>int(maxRows)\<close> of an unsigned 64-bit number may be negative. An integer division by zero panics: \<open>None\<close>.
\<close>

definition maxRowsPerRowGroup :: "ParquetConfig \<Rightarrow> ('m, 'k) deduplicatingSlice \<Rightarrow> int option" where
  "maxRowsPerRowGroup cfg s =
     (if ds_slice s = [] then Some 1
      else let bytesPerRow = ds_size s div of_nat (length (ds_slice s))
           in if bytesPerRow = 0 then None
              else let maxRows = MaxRowGroupBytes cfg div bytesPerRow
                   in if maxRows \<le> 0 then Some 1 else Some (sint maxRows))"

text \<open>How a call of \<open>Flush\<close> ends: with the number of rows and of row groups, with an error, or with a panic.\<close>

datatype flush_result = Flushed nat nat | FlushError string | FlushPanic

text \<open>
  The loop. \<open>deconstruct\<close> turns a row position and an element into a row; \<open>write_rows\<close> is the error, if any, of
  \<open>WriteRows\<close> of the parquet buffer, \<open>lt\<close> its comparison by the sorting columns, and \<open>write_group\<close> writes the
  sorted buffer as a row group or fails. \<open>make\<close> with a negative length panics.
\<close>

partial_function (option) flush_loop ::
    "(nat \<Rightarrow> 'm \<Rightarrow> 'row) \<Rightarrow> ('row list \<Rightarrow> string option) \<Rightarrow> ('row \<Rightarrow> 'row \<Rightarrow> bool) \<Rightarrow> ('w \<Rightarrow> 'row list \<Rightarrow> string + 'w) \<Rightarrow> ParquetConfig \<Rightarrow> int
     \<Rightarrow> ('m, 'k) deduplicatingSlice \<Rightarrow> 'w \<Rightarrow> nat \<Rightarrow> nat
     \<Rightarrow> (flush_result \<times> ('m, 'k) deduplicatingSlice \<times> 'w) option" where
  "flush_loop deconstruct write_rows lt write_group cfg maxRows s w rows groups =
     (let rowsToFlush = int (length (ds_slice s)) - int (ds_rowsFlushed s)
      in if rowsToFlush = 0 then Some (Flushed rows groups, s, w)
         else
           let rowsToFlush = (if rowsToFlush > maxRows then maxRows else rowsToFlush);
               rowsToFlush = (if rowsToFlush > MaxBufferRowCount cfg then MaxBufferRowCount cfg else rowsToFlush)
           in if rowsToFlush < 0 then Some (FlushPanic, s, w)
              else
                let n = nat rowsToFlush;
                    buffer = map (\<lambda>pos. deconstruct (pos + ds_rowsFlushed s) (ds_slice s ! (pos + ds_rowsFlushed s))) [0..<n]
                in case write_rows buffer of
                     Some err \<Rightarrow> Some (FlushError err, s, w)
                   | None \<Rightarrow>
                       (case write_group w (sort_slice lt buffer) of
                          Inl err \<Rightarrow> Some (FlushError err, s, w)
                        | Inr w \<Rightarrow>
                            flush_loop deconstruct write_rows lt write_group cfg maxRows
                              (s\<lparr>ds_rowsFlushed := ds_rowsFlushed s + n\<rparr>) w (rows + n) (groups + 1)))"

definition Flush :: "(nat \<Rightarrow> 'm \<Rightarrow> 'row) \<Rightarrow> ('row list \<Rightarrow> string option) \<Rightarrow> ('row \<Rightarrow> 'row \<Rightarrow> bool) \<Rightarrow> ('w \<Rightarrow> 'row list \<Rightarrow> string + 'w) \<Rightarrow> ParquetConfig
    \<Rightarrow> ('m, 'k) deduplicatingSlice \<Rightarrow> 'w \<Rightarrow> (flush_result \<times> ('m, 'k) deduplicatingSlice \<times> 'w) option" where
  "Flush deconstruct write_rows lt write_group cfg s w =
     (case maxRowsPerRowGroup cfg s of
        None \<Rightarrow> Some (FlushPanic, s, w)
      | Some maxRows \<Rightarrow> flush_loop deconstruct write_rows lt write_group cfg maxRows s w 0 0)"

subsection \<open>The invariant of a table\<close>

text \<open>What the helpers promise: neither \<open>setID\<close> nor \<open>clone\<close> changes the key.\<close>

locale dedup_helper =
  fixes h :: "('m, 'k, 'r) Helper"
  assumes key_setID: "hp_key h (snd (hp_setID h a b e)) = hp_key h e"
    and key_clone: "hp_key h (hp_clone h e) = hp_key h e"
    and old_clone: "fst (hp_setID h a b (hp_clone h e)) = fst (hp_setID h a b e)"
    and old_new: "fst (hp_setID h a b e) = fst (hp_setID h a b' e)"

definition ds_inv :: "('m \<Rightarrow> 'k) \<Rightarrow> ('m, 'k) deduplicatingSlice \<Rightarrow> bool" where
  "ds_inv key s \<longleftrightarrow> length (ds_slice s) < 2 ^ 63
     \<and> (\<forall>i < length (ds_slice s). map_of (ds_lookup s) (key (ds_slice s ! i)) = Some (of_nat i))
     \<and> (\<forall>k p. map_of (ds_lookup s) k = Some p \<longrightarrow> unat p < length (ds_slice s) \<and> key (ds_slice s ! unat p) = k)"

definition grows :: "('m, 'k) deduplicatingSlice \<Rightarrow> ('m, 'k) deduplicatingSlice \<Rightarrow> bool" where
  "grows s t \<longleftrightarrow> prefix (ds_slice s) (ds_slice t) \<and> map_of (ds_lookup s) \<subseteq>\<^sub>m map_of (ds_lookup t)"

lemma grows_refl [simp]: "grows s s"
  by (simp add: grows_def)

lemma grows_trans: "grows s t \<Longrightarrow> grows t u \<Longrightarrow> grows s u"
  by (auto simp: grows_def intro: map_le_trans prefix_order.trans)

lemma grows_nth: "grows s t \<Longrightarrow> i < length (ds_slice s) \<Longrightarrow> ds_slice t ! i = ds_slice s ! i \<and> i < length (ds_slice t)"
  by (auto simp: grows_def prefix_def nth_append)

lemma unat_of_nat_64: "n < 2 ^ 64 \<Longrightarrow> unat (of_nat n :: u64) = n"
  by (simp add: unsigned_of_nat take_bit_nat_eq_self)

text \<open>A table holds every key once.\<close>

lemma ds_inv_distinct:
  assumes "ds_inv key s"
  shows "distinct (map key (ds_slice s))"
proof -
  have "i = j" if "i < length (ds_slice s)" "j < length (ds_slice s)" "key (ds_slice s ! i) = key (ds_slice s ! j)" for i j
  proof -
    have "(of_nat i :: i64) = of_nat j" using assms that unfolding ds_inv_def by (metis option.inject)
    moreover have "i < 2 ^ 64" "j < 2 ^ 64" using assms that by (auto simp: ds_inv_def)
    ultimately show ?thesis by (metis unat_of_nat_64)
  qed
  then show ?thesis by (auto simp: distinct_conv_nth)
qed

subsection \<open>The rewriting map\<close>

text \<open>The ID under which the element at \<open>pos\<close> is known in its profile.\<close>

definition oldid :: "('m, 'k, 'r) Helper \<Rightarrow> 'm list \<Rightarrow> nat \<Rightarrow> i64" where
  "oldid h es pos = fst (hp_setID h (of_nat pos) 0 (es ! pos))"

text \<open>The map covers the positions \<open>P\<close> and sends their IDs to the positions of their keys.\<close>

definition rmap_ok :: "('m, 'k, 'r) Helper \<Rightarrow> 'm list \<Rightarrow> nat set \<Rightarrow> ('m, 'k) deduplicatingSlice \<Rightarrow> (i64 \<times> i64) list \<Rightarrow> bool" where
  "rmap_ok h es P s rmap \<longleftrightarrow> distinct (map fst rmap) \<and> (\<forall>pos \<in> P. map_of rmap (oldid h es pos) \<noteq> None)
     \<and> (\<forall>i p. map_of rmap i = Some p \<longrightarrow> (\<exists>pos \<in> P. oldid h es pos = i \<and> map_of (ds_lookup s) (hp_key h (es ! pos)) = Some p))"

lemma rmap_ok_grows: "rmap_ok h es P s rmap \<Longrightarrow> grows s t \<Longrightarrow> rmap_ok h es P t rmap"
  unfolding rmap_ok_def grows_def map_le_def by (metis domI)

lemma rmap_ok_put:
  "rmap_ok h es P s rmap \<Longrightarrow> map_of (ds_lookup s) (hp_key h (es ! pos)) = Some p \<Longrightarrow> oldid h es pos = i \<Longrightarrow>
   rmap_ok h es (insert pos P) s (AList.update i p rmap)"
  by (auto simp: rmap_ok_def AList.update_conv' AList.distinct_update)

lemma rmap_ok_empty: "rmap_ok h es {} s []"
  by (simp add: rmap_ok_def)

text \<open>With distinct IDs, the ID of an element leads to an element of the table with its key.\<close>

lemma rmap_lookup:
  assumes "rmap_ok h es {..<length es} t rmap" and "ds_inv (hp_key h) t" and "inj_on (oldid h es) {..<length es}" and "pos < length es"
  shows "\<exists>p. map_of rmap (oldid h es pos) = Some p \<and> unat p < length (ds_slice t) \<and> hp_key h (ds_slice t ! unat p) = hp_key h (es ! pos)"
proof -
  obtain p where p: "map_of rmap (oldid h es pos) = Some p"
    using assms(1,4) unfolding rmap_ok_def by (meson lessThan_iff option.exhaust)
  then obtain pos' where "pos' < length es" "oldid h es pos' = oldid h es pos" "map_of (ds_lookup t) (hp_key h (es ! pos')) = Some p"
    using assms(1) unfolding rmap_ok_def by (meson lessThan_iff)
  moreover from this have "pos' = pos" using assms(3,4) by (auto dest: inj_onD)
  ultimately show ?thesis using p assms(2) by (auto simp: ds_inv_def)
qed

lemma rewrite_elems_ok:
  "\<forall>e \<in> set es. hp_rewrite h r e \<noteq> None \<Longrightarrow>
   \<exists>es'. rewrite_elems h r es = Some es' \<and> list_all2 (\<lambda>e e'. hp_rewrite h r e = Some e') es es'"
  by (induction es) auto

context dedup_helper
begin

lemma oldid_eq: "fst (hp_setID h (of_nat pos) b (es ! pos)) = oldid h es pos"
  unfolding oldid_def by (rule old_new)

lemma read_phase_ok:
  assumes "es = pre @ suf" and "rmap_ok h es ({..<length pre} - set missing) s rmap" and "set missing \<subseteq> {..<length pre}"
  shows "case read_phase h (ds_lookup s) (length pre) suf rmap missing of (rmap', missing') \<Rightarrow>
    rmap_ok h es ({..<length es} - set missing') s rmap' \<and> set missing' \<subseteq> {..<length es} \<and> length missing' \<le> length missing + length suf"
  using assms
proof (induction suf arbitrary: pre rmap missing)
  case (Cons e suf)
  have e: "es ! length pre = e" "es = (pre @ [e]) @ suf" using Cons.prems(1) by auto
  show ?case
  proof (cases "map_of (ds_lookup s) (hp_key h e)")
    case None
    have "{..<length (pre @ [e])} - set (missing @ [length pre]) = {..<length pre} - set missing" by auto
    moreover have "set (missing @ [length pre]) \<subseteq> {..<length (pre @ [e])}" using Cons.prems(3) by auto
    ultimately show ?thesis using Cons.IH[OF e(2), of "missing @ [length pre]" rmap] Cons.prems(2) None
      by (auto split: prod.splits)
  next
    case (Some p)
    let ?r = "AList.update (fst (hp_setID h (of_nat (length pre)) p e)) p rmap"
    have "rmap_ok h es (insert (length pre) ({..<length pre} - set missing)) s ?r"
      using rmap_ok_put[OF Cons.prems(2), of "length pre" p] Some e(1) oldid_eq[of "length pre" p es] by simp
    moreover have "insert (length pre) ({..<length pre} - set missing) = {..<length (pre @ [e])} - set missing"
      using Cons.prems(3) by auto
    ultimately have "rmap_ok h es ({..<length (pre @ [e])} - set missing) s ?r" by simp
    moreover have "set missing \<subseteq> {..<length (pre @ [e])}" using Cons.prems(3) by auto
    ultimately show ?thesis using Cons.IH[OF e(2), of missing ?r] Some by (auto split: prod.splits)
  qed
qed simp

lemma ds_inv_put:
  assumes inv: "ds_inv (hp_key h) s" and new: "map_of (ds_lookup s) k = None" "hp_key h e' = k" and bound: "Suc (length (ds_slice s)) < 2 ^ 63"
  shows "ds_inv (hp_key h) (s\<lparr>ds_slice := ds_slice s @ [e'], ds_lookup := AList.update k (of_nat (length (ds_slice s))) (ds_lookup s), ds_size := n\<rparr>)"
proof -
  let ?n = "length (ds_slice s)"
  let ?t = "s\<lparr>ds_slice := ds_slice s @ [e'], ds_lookup := AList.update k (of_nat (length (ds_slice s))) (ds_lookup s), ds_size := n\<rparr>"
  have un: "unat (of_nat ?n :: i64) = ?n" using bound by (intro unat_of_nat_64) simp
  have old: "map_of (ds_lookup s) (hp_key h (ds_slice s ! i)) = Some (of_nat i)" if "i < ?n" for i using inv that by (simp add: ds_inv_def)
  have bk: "unat p < ?n \<and> hp_key h (ds_slice s ! unat p) = k'" if "map_of (ds_lookup s) k' = Some p" for k' p
    using inv that by (simp add: ds_inv_def)
  have "map_of (ds_lookup ?t) (hp_key h (ds_slice ?t ! i)) = Some (of_nat i)" if "i < Suc ?n" for i
  proof (cases "i = ?n")
    case False
    then have "i < ?n" using that by simp
    then show ?thesis using old[of i] new by (auto simp: AList.update_conv' nth_append)
  qed (use new in \<open>simp add: AList.update_conv'\<close>)
  moreover have "unat p < Suc ?n \<and> hp_key h (ds_slice ?t ! unat p) = k'" if "map_of (ds_lookup ?t) k' = Some p" for k' p
  proof (cases "k' = k")
    case True
    then have "p = of_nat ?n" using that by (simp add: AList.update_conv')
    then show ?thesis using True new(2) un by simp
  next
    case False
    then have "map_of (ds_lookup s) k' = Some p" using that by (simp add: AList.update_conv')
    then show ?thesis using bk[of k' p] by (simp add: nth_append)
  qed
  ultimately show ?thesis using bound by (simp add: ds_inv_def)
qed

lemma write_phase_ok:
  assumes "ds_inv (hp_key h) s" and "posSlice = of_nat (length (ds_slice s))"
    and "length (ds_slice s) + length missing < 2 ^ 63" and "rmap_ok h es P s rmap"
  shows "case write_phase h es missing s posSlice rmap of (t, rmap') \<Rightarrow>
    ds_inv (hp_key h) t \<and> grows s t \<and> rmap_ok h es (P \<union> set missing) t rmap' \<and> length (ds_slice t) \<le> length (ds_slice s) + length missing"
  using assms
proof (induction missing arbitrary: s posSlice rmap P)
  case (Cons pos missing)
  let ?e = "es ! pos"
  let ?k = "hp_key h ?e"
  have P: "P \<union> set (pos # missing) = insert pos P \<union> set missing" by simp
  show ?case
  proof (cases "map_of (ds_lookup s) ?k")
    case (Some p)
    let ?r = "AList.update (fst (hp_setID h (of_nat pos) p ?e)) p rmap"
    have r: "rmap_ok h es (insert pos P) s ?r" using rmap_ok_put[OF Cons.prems(4) Some] oldid_eq by simp
    show ?thesis using Cons.IH[OF Cons.prems(1,2) _ r] Cons.prems(3) Some unfolding P by (auto split: prod.splits)
  next
    case None
    obtain i e' where ie: "hp_setID h (of_nat pos) posSlice (hp_clone h ?e) = (i, e')" by fastforce
    let ?t = "s\<lparr>ds_slice := ds_slice s @ [e'], ds_lookup := AList.update ?k posSlice (ds_lookup s), ds_size := ds_size s + hp_size h ?e\<rparr>"
    have e': "hp_key h e' = ?k" using key_setID[of "of_nat pos" posSlice "hp_clone h ?e"] key_clone ie by simp
    have i: "i = oldid h es pos" using old_clone[of "of_nat pos" posSlice ?e] ie oldid_eq[of pos posSlice es] by simp
    have inv: "ds_inv (hp_key h) ?t" using ds_inv_put[OF Cons.prems(1) None e'] Cons.prems(2,3) by simp
    have g: "grows s ?t" using None by (auto simp: grows_def AList.update_conv' map_le_def dom_def)
    have "rmap_ok h es (insert pos P) ?t (AList.update i posSlice rmap)"
      by (rule rmap_ok_put[OF rmap_ok_grows[OF Cons.prems(4) g]]) (use i in \<open>simp_all add: AList.update_conv'\<close>)
    moreover have "posSlice + 1 = of_nat (length (ds_slice ?t))" using Cons.prems(2) by simp
    moreover have step: "write_phase h es (pos # missing) s posSlice rmap = write_phase h es missing ?t (posSlice + 1) (AList.update i posSlice rmap)"
      using None ie by (simp add: Let_def)
    ultimately show ?thesis using Cons.IH[OF inv, of "posSlice + 1" "insert pos P" "AList.update i posSlice rmap"] Cons.prems(3) g
      unfolding P step by (auto split: prod.splits intro: grows_trans)
  qed
qed simp

text \<open>
  The two critical sections with a table \<open>t\<close> that grew out of \<open>s\<close> in between: every element of the
  profile is in the table afterwards, at the position the rewriting map gives for its ID.
\<close>

lemma ingest_phases:
  assumes "ds_inv (hp_key h) t" and "grows s t" and "length (ds_slice t) + length es < 2 ^ 63"
    and "read_phase h (ds_lookup s) 0 es [] [] = (rmap, missing)"
    and "write_phase h es missing t (of_nat (length (ds_slice t))) rmap = (u, rmap')"
  shows "ds_inv (hp_key h) u \<and> grows t u \<and> rmap_ok h es {..<length es} u rmap' \<and> length (ds_slice u) \<le> length (ds_slice t) + length es"
proof -
  have r: "rmap_ok h es ({..<length es} - set missing) s rmap" "set missing \<subseteq> {..<length es}" "length missing \<le> length es"
    using read_phase_ok[of es "[]" es "[]" s "[]"] assms(4) rmap_ok_empty[of h es s] by auto
  have "{..<length es} - set missing \<union> set missing = {..<length es}" using r(2) by auto
  then show ?thesis
    using write_phase_ok[OF assms(1) refl _ rmap_ok_grows[OF r(1) assms(2)], of missing] assms(3,5) r(3) by auto
qed

lemma ingest_ok:
  assumes inv: "ds_inv (hp_key h) s" and bound: "length (ds_slice s) + length es < 2 ^ 63" and rw: "rewrite_elems h r es = Some es'"
  shows "\<exists>t rmap. ingest True h es s r = Some (t, hp_addToRewriter h rmap r) \<and> ds_inv (hp_key h) t \<and> grows s t
    \<and> rmap_ok h es' {..<length es'} t rmap \<and> length (ds_slice t) \<le> length (ds_slice s) + length es"
proof -
  have len: "length es' = length es" using rw by (induction es arbitrary: es') (auto split: bind_splits)
  obtain rmap missing where rp: "read_phase h (ds_lookup s) 0 es' [] [] = (rmap, missing)" by fastforce
  obtain u rmap' where wp: "write_phase h es' missing s (of_nat (length (ds_slice s))) rmap = (u, rmap')" by fastforce
  have "missing = [] \<Longrightarrow> u = s \<and> rmap' = rmap" using wp by simp
  then have "ingest True h es s r = Some (u, hp_addToRewriter h rmap' r)"
    using rw rp wp by (cases "missing = []") (auto simp: ingest_def)
  then show ?thesis using ingest_phases[OF inv grows_refl _ rp wp] bound len by auto
qed

end

subsection \<open>Flushing\<close>

text \<open>How the rows from position \<open>from\<close> on are cut into groups of at most \<open>cap\<close> rows.\<close>

function row_groups :: "nat \<Rightarrow> nat \<Rightarrow> nat \<Rightarrow> nat list list" where
  "row_groups cap from n =
     (if from \<ge> n \<or> cap = 0 then [] else [from..<min n (from + cap)] # row_groups cap (from + cap) n)"
  by pat_completeness auto
termination
  by (relation "measure (\<lambda>(cap, from, n). n - from)") auto

declare row_groups.simps [simp del]

lemma row_groups_end [simp]: "n \<le> from \<Longrightarrow> row_groups cap from n = []"
  by (simp add: row_groups.simps[of cap "from" n])

lemma row_groups_step:
  assumes "from < n" "0 < cap"
  shows "row_groups cap from n = [from..<min n (from + cap)] # row_groups cap (from + min (n - from) cap) n"
proof (cases "from + cap \<le> n")
  case True
  then have "min (n - from) cap = cap" by linarith
  then show ?thesis using assms by (simp add: row_groups.simps[of cap "from" n])
next
  case False
  then show ?thesis using assms by (simp add: row_groups.simps[of cap "from" n])
qed

lemma row_groups_concat: "0 < cap \<Longrightarrow> from \<le> n \<Longrightarrow> concat (row_groups cap from n) = [from..<n]"
proof (induction cap "from" n rule: row_groups.induct)
  case (1 cap "from" n)
  show ?case
  proof (cases "from < n")
    case True
    have "concat (row_groups cap (from + cap) n) = [from + cap..<n]"
    proof (cases "from + cap \<le> n")
      case True
      then show ?thesis using "1.IH" "1.prems" \<open>from < n\<close> by simp
    next
      case False
      then show ?thesis by (subst row_groups.simps) simp
    qed
    then show ?thesis using True "1.prems" upt_add_eq_append[of "from" "from + cap" "n - (from + cap)"]
      by (subst row_groups.simps) (auto simp: min_def)
  next
    case False
    then show ?thesis using "1.prems" by (subst row_groups.simps) simp
  qed
qed

lemma row_groups_size: "g \<in> set (row_groups cap from n) \<Longrightarrow> g \<noteq> [] \<and> length g \<le> cap"
proof (induction cap "from" n rule: row_groups.induct)
  case (1 cap "from" n)
  then show ?case by (auto simp: row_groups.simps[of cap "from" n] split: if_splits)
qed

text \<open>A writer that never fails and collects the row groups.\<close>

definition collect_group :: "'row list list \<Rightarrow> 'row list \<Rightarrow> string + 'row list list" where
  "collect_group w rows = Inr (w @ [rows])"

abbreviation collecting_loop where
  "collecting_loop dc lt \<equiv> flush_loop dc (\<lambda>_. None) lt collect_group"

abbreviation written_groups :: "(nat \<Rightarrow> 'm \<Rightarrow> 'row) \<Rightarrow> ('row \<Rightarrow> 'row \<Rightarrow> bool) \<Rightarrow> 'm list \<Rightarrow> nat list list \<Rightarrow> 'row list list" where
  "written_groups dc lt xs gs \<equiv> map (\<lambda>g. sort_slice lt (map (\<lambda>i. dc i (xs ! i)) g)) gs"

lemma flush_loop_groups:
  fixes s :: "('m, 'k) deduplicatingSlice"
  assumes "0 < min maxRows (MaxBufferRowCount cfg)" and "ds_rowsFlushed s \<le> length (ds_slice s)"
  defines "cap \<equiv> nat (min maxRows (MaxBufferRowCount cfg))"
  shows "collecting_loop dc lt cfg maxRows s w rows groups =
    Some (Flushed (rows + (length (ds_slice s) - ds_rowsFlushed s))
               (groups + length (row_groups cap (ds_rowsFlushed s) (length (ds_slice s)))),
          s\<lparr>ds_rowsFlushed := length (ds_slice s)\<rparr>,
          w @ written_groups dc lt (ds_slice s) (row_groups cap (ds_rowsFlushed s) (length (ds_slice s))))"
  using assms(2)
proof (induction "length (ds_slice s) - ds_rowsFlushed s" arbitrary: s w rows groups rule: less_induct)
  case less
  let ?f = "ds_rowsFlushed s" and ?n = "length (ds_slice s)"
  have cap: "0 < cap" using assms(1) by (simp add: cap_def)
  show ?case
  proof (cases "?f = ?n")
    case True
    then show ?thesis by (subst flush_loop.simps) simp
  next
    case False
    then have fn: "?f < ?n" using less.prems by simp
    define k where "k = min (?n - ?f) cap"
    let ?s = "s\<lparr>ds_rowsFlushed := ?f + k\<rparr>"
    have k: "(let d = int ?n - int ?f; r = (if d > maxRows then maxRows else d) in if r > MaxBufferRowCount cfg then MaxBufferRowCount cfg else r) = int k"
      using assms(1) fn by (cases "maxRows \<le> MaxBufferRowCount cfg") (auto simp: Let_def min_def k_def cap_def)
    have kn: "k \<le> ?n - ?f" "0 < k" "k + ?f = min ?n (?f + cap)" using fn cap by (auto simp: k_def)
    then have "[?f..<min ?n (?f + cap)] = map (\<lambda>i. i + ?f) [0..<k]" by (simp add: map_add_upt del: min_add_distrib_right)
    then have buf: "map (\<lambda>pos. dc (pos + ?f) (ds_slice s ! (pos + ?f))) [0..<k] = map (\<lambda>i. dc i (ds_slice s ! i)) [?f..<min ?n (?f + cap)]"
      by simp
    let ?g = "sort_slice lt (map (\<lambda>i. dc i (ds_slice s ! i)) [?f..<min ?n (?f + cap)])"
    have "int ?n - int ?f \<noteq> 0" using fn by simp
    then have step: "collecting_loop dc lt cfg maxRows s w rows groups = collecting_loop dc lt cfg maxRows ?s (w @ [?g]) (rows + k) (groups + 1)"
      using k[unfolded Let_def] buf by (subst flush_loop.simps) (simp only: Let_def if_False collect_group_def option.case sum.case, simp)
    have less: "?n - (?f + k) < ?n - ?f" and le: "?f + k \<le> ?n" using kn(1,2) fn by linarith+
    have "row_groups cap ?f ?n = [?f..<min ?n (?f + cap)] # row_groups cap (?f + k) ?n"
      unfolding k_def by (rule row_groups_step[OF fn cap])
    moreover have "rows + k + (?n - (?f + k)) = rows + (?n - ?f)" using kn(1) by linarith
    moreover have "collecting_loop dc lt cfg maxRows ?s (w @ [?g]) (rows + k) (groups + 1) =
        Some (Flushed (rows + k + (?n - (?f + k))) (groups + 1 + length (row_groups cap (?f + k) ?n)), s\<lparr>ds_rowsFlushed := ?n\<rparr>,
          (w @ [?g]) @ written_groups dc lt (ds_slice s) (row_groups cap (?f + k) ?n))"
      using less.hyps[of ?s "w @ [?g]" "rows + k" "groups + 1"] less le by simp
    ultimately show ?thesis unfolding step by simp
  qed
qed

text \<open>Without room in the buffer the loop writes empty groups forever.\<close>

lemma flush_loop_stuck:
  fixes s :: "('m, 'k) deduplicatingSlice" and dc :: "nat \<Rightarrow> 'm \<Rightarrow> 'row"
  assumes "ds_rowsFlushed s < length (ds_slice s)" and "0 < maxRows" and "MaxBufferRowCount cfg = 0"
  shows "collecting_loop dc lt cfg maxRows s w rows groups = None"
proof -
  let ?P = "\<lambda>(dc :: nat \<Rightarrow> 'm \<Rightarrow> 'row) (wr :: 'row list \<Rightarrow> string option) (lt :: 'row \<Rightarrow> 'row \<Rightarrow> bool)
      (wg :: 'row list list \<Rightarrow> 'row list \<Rightarrow> string + 'row list list) (cfg :: ParquetConfig) (maxRows :: int) (s :: ('m, 'k) deduplicatingSlice) (w :: 'row list list) (rows :: nat) (groups :: nat)
      (r :: flush_result \<times> ('m, 'k) deduplicatingSlice \<times> 'row list list). wr = (\<lambda>_. None) \<and> wg = collect_group \<and> MaxBufferRowCount cfg = 0 \<and> 0 < maxRows
    \<longrightarrow> ds_rowsFlushed s = length (ds_slice s) \<or> length (ds_slice s) < ds_rowsFlushed s"
  have "ds_rowsFlushed s = length (ds_slice s) \<or> length (ds_slice s) < ds_rowsFlushed s"
    if r: "collecting_loop dc lt cfg maxRows s w rows groups = Some r" for r
  proof -
    have "?P dc (\<lambda>_. None) lt collect_group cfg maxRows s w rows groups r"
    proof (rule flush_loop.raw_induct[where P = ?P, OF _ r], rule impI, goal_cases)
      case (1 f dc wr lt wg cfg maxRows s w rows groups r)
      show ?case
      proof (rule ccontr)
        assume "\<not> ?case"
        then have fn: "ds_rowsFlushed s < length (ds_slice s)" by linarith
        then have pos: "0 < (if maxRows < int (length (ds_slice s)) - int (ds_rowsFlushed s) then maxRows else int (length (ds_slice s)) - int (ds_rowsFlushed s))"
            "int (length (ds_slice s)) - int (ds_rowsFlushed s) \<noteq> 0" and c: "wr = (\<lambda>_. None)" "wg = collect_group" "MaxBufferRowCount cfg = 0" using 1(3) by auto
        then have "f dc wr lt wg cfg maxRows (s\<lparr>ds_rowsFlushed := ds_rowsFlushed s + 0\<rparr>) (w @ [sort_slice lt []]) (rows + 0) (groups + 1) = Some r"
          using 1(2) pos by (simp only: Let_def if_False if_True) (simp add: collect_group_def)
        from 1(1)[OF this] show False using 1(3) fn by simp
      qed
    qed
    then show ?thesis using assms by simp
  qed
  then show ?thesis using assms(1) by (cases "collecting_loop dc lt cfg maxRows s w rows groups") auto
qed

subsection \<open>Properties\<close>



end
