(* ===== verification/Profile_Index.thy ===== *)
theory Profile_Index
  imports Sharded_Index Iterators Delta Dedup_Slice
begin

section \<open>The index of the profiles in the head (pkg/phlaredb/profiles.go)\<close>

text \<open>
  The head keeps, beside its tables, an index of the stored profiles: the inverted index of the
  labels and, per fingerprint, the label set and the profiles of the series. A stored profile is a
  pointer that the index and the table of profiles share; it is the position of the profile in the
  table, which only grows. The samples of a profile are addresses in the store of samples.

  A Go map is an association list; where the code ranges over one, the list gives the order, which
  Go leaves open. \<open>model.TimeFromUnixNano\<close> is third-party code, the parameter \<open>tfn\<close>; the matchers of
  Prometheus are the parameter \<open>Matches\<close>. Metrics are left out.
\<close>

type_synonym uuid = "128 word"

record Profile =
  pr_ID :: uuid
  pr_SeriesIndex :: u32
  pr_SeriesFingerprint :: u64
  pr_Samples :: "nat list"
  pr_DropFrames :: i64
  pr_KeepFrames :: i64
  pr_TimeNanos :: i64
  pr_DurationNanos :: i64
  pr_Period :: i64
  pr_Comments :: "i64 list"
  pr_DefaultSampleType :: i64

definition Profile_Timestamp :: "(i64 \<Rightarrow> i64) \<Rightarrow> Profile \<Rightarrow> i64" where
  "Profile_Timestamp tfn p = tfn (pr_TimeNanos p)"

definition Profile_Total :: "sample_store \<Rightarrow> Profile \<Rightarrow> i64" where
  "Profile_Total st p = fold (\<lambda>a total. total + sv_Value (st ! a)) (pr_Samples p) 0"

record profileLabels =
  lb_lbs :: labels
  lb_fp :: u64
  lb_profiles :: "nat list"

record profilesIndex =
  pi_ix :: index_shards
  pi_profilesPerFP :: "(u64 \<times> profileLabels) list"
  pi_totalProfiles :: i64
  pi_totalSeries :: i64

definition newProfileIndex :: "u32 \<Rightarrow> string + profilesIndex" where
  "newProfileIndex totalShards =
     (case NewBitPrefixWithShards totalShards of
        Inl err \<Rightarrow> Inl err
      | Inr ix \<Rightarrow> Inr \<lparr>pi_ix = ix, pi_profilesPerFP = [], pi_totalProfiles = 0, pi_totalSeries = 0\<rparr>)"

subsection \<open>Adding a profile\<close>

definition pi_Add :: "profilesIndex \<Rightarrow> nat \<Rightarrow> u64 \<Rightarrow> labels \<Rightarrow> profilesIndex option" where
  "pi_Add pi a fp lbs = do {
     (pi, profiles) \<leftarrow>
       (case map_of (pi_profilesPerFP pi) fp of
          Some profiles \<Rightarrow> Some (pi, profiles)
        | None \<Rightarrow> do {
            (ix, lbs) \<leftarrow> bp_Add (pi_ix pi) lbs fp;
            let profiles = \<lparr>lb_lbs = lbs, lb_fp = fp, lb_profiles = []\<rparr>;
            Some (pi\<lparr>pi_ix := ix, pi_profilesPerFP := AList.update fp profiles (pi_profilesPerFP pi),
                     pi_totalSeries := pi_totalSeries pi + 1\<rparr>, profiles) });
     Some (pi\<lparr>pi_profilesPerFP := AList.update fp (profiles\<lparr>lb_profiles := lb_profiles profiles @ [a]\<rparr>) (pi_profilesPerFP pi),
              pi_totalProfiles := pi_totalProfiles pi + 1\<rparr>) }"

subsection \<open>Selecting\<close>

definition SplitFiltersAndMatchers :: "(matcher \<Rightarrow> string \<Rightarrow> bool) \<Rightarrow> matcher list \<Rightarrow> matcher list \<times> matcher list" where
  "SplitFiltersAndMatchers Matches allMatchers =
     fold (\<lambda>m (filters, matchers). if Matches m [] then (filters @ [m], matchers) else (filters, matchers @ [m])) allMatchers ([], [])"

definition filters_pass :: "(matcher \<Rightarrow> string \<Rightarrow> bool) \<Rightarrow> matcher list \<Rightarrow> labels \<Rightarrow> bool" where
  "filters_pass Matches filters lbs \<longleftrightarrow> list_all (\<lambda>f. Matches f (Labels_Get lbs (m_Name f))) filters"

text \<open>The series that remain of the fingerprints the index found.\<close>

fun passing :: "(matcher \<Rightarrow> string \<Rightarrow> bool) \<Rightarrow> profilesIndex \<Rightarrow> matcher list \<Rightarrow> u64 list \<Rightarrow> (u64 \<times> profileLabels) list" where
  "passing Matches pi filters [] = []"
| "passing Matches pi filters (fp # fps) =
     (case map_of (pi_profilesPerFP pi) fp of
        None \<Rightarrow> passing Matches pi filters fps
      | Some profile \<Rightarrow>
          if filters_pass Matches filters (lb_lbs profile) then (fp, profile) # passing Matches pi filters fps
          else passing Matches pi filters fps)"

text \<open>Callbacks thread a state and may fail; an error ends the loop.\<close>

fun until_error :: "('s \<Rightarrow> 'a \<Rightarrow> string option \<times> 's) \<Rightarrow> 'a list \<Rightarrow> 's \<Rightarrow> string option \<times> 's" where
  "until_error fn [] s = (None, s)"
| "until_error fn (x # xs) s = (case fn s x of (Some err, s) \<Rightarrow> (Some err, s) | (None, s) \<Rightarrow> until_error fn xs s)"

definition forMatchingProfiles :: "(matcher \<Rightarrow> string \<Rightarrow> bool) \<Rightarrow> Profile list \<Rightarrow> profilesIndex \<Rightarrow> matcher list
    \<Rightarrow> ('s \<Rightarrow> labels \<times> u64 \<times> nat \<Rightarrow> string option \<times> 's) \<Rightarrow> 's \<Rightarrow> (string option \<times> 's) option" where
  "forMatchingProfiles Matches ps pi matchers fn s =
     (let (filters, matchers) = SplitFiltersAndMatchers Matches matchers
      in do {
        r \<leftarrow> bp_Lookup Matches (pi_ix pi) matchers None;
        case r of
          Inl err \<Rightarrow> Some (Some err, s)
        | Inr fps \<Rightarrow>
            Some (until_error
              (\<lambda>s (fp, profile). until_error fn
                 (map (\<lambda>a. (lb_lbs profile, lb_fp profile, a)) (filter (\<lambda>a. pr_SeriesFingerprint (ps ! a) = fp) (lb_profiles profile))) s)
              (passing Matches pi filters fps) s) })"

definition forMatchingLabels :: "(matcher \<Rightarrow> string \<Rightarrow> bool) \<Rightarrow> profilesIndex \<Rightarrow> matcher list
    \<Rightarrow> ('s \<Rightarrow> labels \<times> u64 \<Rightarrow> string option \<times> 's) \<Rightarrow> 's \<Rightarrow> (string option \<times> 's) option" where
  "forMatchingLabels Matches pi matchers fn s =
     (let (filters, matchers) = SplitFiltersAndMatchers Matches matchers
      in do {
        r \<leftarrow> bp_Lookup Matches (pi_ix pi) matchers None;
        case r of
          Inl err \<Rightarrow> Some (Some err, s)
        | Inr fps \<Rightarrow> Some (until_error (\<lambda>s (fp, profile). fn s (lb_lbs profile, fp)) (passing Matches pi filters fps) s) })"

subsection \<open>Profiles with labels\<close>

record ProfileWithLabels =
  pw_Profile :: nat
  pw_lbs :: labels
  pw_fp :: u64

record 'i SeriesIterator =
  sr_Iterator :: 'i
  sr_curr :: "ProfileWithLabels option"
  sr_fp :: u64
  sr_lbs :: labels

definition NewSeriesIterator :: "labels \<Rightarrow> u64 \<Rightarrow> 'i \<Rightarrow> 'i SeriesIterator" where
  "NewSeriesIterator lbs fp it = \<lparr>sr_Iterator = it, sr_curr = None, sr_fp = fp, sr_lbs = lbs\<rparr>"

definition series_Next :: "('i, nat) Iterator \<Rightarrow> 'i SeriesIterator \<Rightarrow> (bool \<times> 'i SeriesIterator) option" where
  "series_Next I it = do {
     (ok, i) \<leftarrow> it_Next I (sr_Iterator it);
     let it = it\<lparr>sr_Iterator := i\<rparr>;
     Some (if \<not> ok then (False, it)
           else (True, it\<lparr>sr_curr := Some \<lparr>pw_Profile = it_At I i, pw_lbs = sr_lbs it, pw_fp = sr_fp it\<rparr>\<rparr>)) }"

text \<open>The zero value of \<open>ProfileWithLabels\<close> before the first \<open>Next\<close> is \<open>zero\<close>.\<close>

definition series_iterator :: "ProfileWithLabels \<Rightarrow> ('i, nat) Iterator \<Rightarrow> ('i SeriesIterator, ProfileWithLabels) Iterator" where
  "series_iterator zero I =
     \<lparr>it_Next = series_Next I, it_At = (\<lambda>it. case sr_curr it of Some p \<Rightarrow> p | None \<Rightarrow> zero),
      it_Err = (\<lambda>it. it_Err I (sr_Iterator it)), it_Close = (\<lambda>it. map_prod (\<lambda>e. e) (\<lambda>i. it\<lparr>sr_Iterator := i\<rparr>) (it_Close I (sr_Iterator it)))\<rparr>"

definition pw_Timestamp :: "(i64 \<Rightarrow> i64) \<Rightarrow> Profile list \<Rightarrow> ProfileWithLabels \<Rightarrow> i64" where
  "pw_Timestamp tfn ps p = tfn (pr_TimeNanos (ps ! pw_Profile p))"

text \<open>The iterator over the profiles of a series between \<open>start\<close> and \<open>end\<close>.\<close>

definition ranged_profiles :: "(i64 \<Rightarrow> i64) \<Rightarrow> Profile list \<Rightarrow> i64 \<Rightarrow> i64 \<Rightarrow> (nat sliceIterator, nat) Iterator" where
  "ranged_profiles tfn ps start end' = ranged_iterator (\<lambda>a. Profile_Timestamp tfn (ps ! a)) (slice_iterator 0) start end'"

definition SelectProfiles :: "(matcher \<Rightarrow> string \<Rightarrow> bool) \<Rightarrow> (i64 \<Rightarrow> i64) \<Rightarrow> ProfileWithLabels \<Rightarrow> Profile list \<Rightarrow> profilesIndex
    \<Rightarrow> matcher list \<Rightarrow> i64 \<Rightarrow> i64 \<Rightarrow> (string + (nat sliceIterator SeriesIterator, ProfileWithLabels) SortIterator) option" where
  "SelectProfiles Matches tfn zero ps pi matchers start end' =
     (let (filters, matchers) = SplitFiltersAndMatchers Matches matchers
      in do {
        r \<leftarrow> bp_Lookup Matches (pi_ix pi) matchers None;
        case r of
          Inl err \<Rightarrow> Some (Inl err)
        | Inr fps \<Rightarrow> do {
            let iters = map (\<lambda>(fp, profile). NewSeriesIterator (lb_lbs profile) (lb_fp profile) (NewSliceIterator (lb_profiles profile)))
                  (passing Matches pi filters fps);
            s \<leftarrow> NewSortProfileIterator pw_lbs (pw_Timestamp tfn ps) (series_iterator zero (ranged_profiles tfn ps start end')) iters;
            Some (Inr s) } })"

subsection \<open>All profiles and their time range\<close>

fun all_loop :: "Profile list \<Rightarrow> nat list \<Rightarrow> uuid list \<Rightarrow> nat list \<Rightarrow> nat list" where
  "all_loop ps [] uniq result = result"
| "all_loop ps (a # as) uniq result =
     (if pr_ID (ps ! a) \<notin> set uniq then all_loop ps as (pr_ID (ps ! a) # uniq) (result @ [a]) else all_loop ps as uniq result)"

definition allProfiles :: "Profile list \<Rightarrow> profilesIndex \<Rightarrow> nat list" where
  "allProfiles ps pi = all_loop ps (concat (map (\<lambda>(fp, profile). lb_profiles profile) (pi_profilesPerFP pi))) [] []"

definition minmax :: "Profile list \<Rightarrow> i64 \<times> i64" where
  "minmax profiles =
     (case profiles of
        [] \<Rightarrow> (0, 0)
      | [p] \<Rightarrow> (pr_TimeNanos p, pr_TimeNanos p)
      | p # ps \<Rightarrow>
          fold (\<lambda>p (mn, mx). (if sint (pr_TimeNanos p) < sint mn then pr_TimeNanos p else mn,
                               if sint (pr_TimeNanos p) > sint mx then pr_TimeNanos p else mx)) ps (pr_TimeNanos p, pr_TimeNanos p))"

subsection \<open>What the index holds after a history of additions\<close>

text \<open>An addition: the position of the profile, its fingerprint and its labels.\<close>

type_synonym addition = "nat \<times> u64 \<times> labels"

fun pi_adds :: "profilesIndex \<Rightarrow> addition list \<Rightarrow> profilesIndex option" where
  "pi_adds pi [] = Some pi"
| "pi_adds pi ((a, fp, ls) # hist) = do { pi \<leftarrow> pi_Add pi a fp ls; pi_adds pi hist }"

text \<open>The labels of a series are those of its first profile.\<close>

definition series_of :: "addition list \<Rightarrow> registry" where
  "series_of hist = map_of (map snd hist)"

definition positions :: "addition list \<Rightarrow> u64 \<Rightarrow> nat list" where
  "positions hist fp = map fst (filter (\<lambda>x. fst (snd x) = fp) hist)"

definition pi_inv :: "profilesIndex \<Rightarrow> addition list \<Rightarrow> bool" where
  "pi_inv pi hist \<longleftrightarrow> bp_represents (pi_ix pi) (series_of hist)
     \<and> (\<forall>fp. map_of (pi_profilesPerFP pi) fp =
          map_option (\<lambda>ls. \<lparr>lb_lbs = sort_labels ls, lb_fp = fp, lb_profiles = positions hist fp\<rparr>) (series_of hist fp))"

lemma series_of_snoc: "series_of (hist @ [(a, fp, ls)]) = (if series_of hist fp = None then (series_of hist)(fp \<mapsto> ls) else series_of hist)"
  by (auto simp: series_of_def fun_eq_iff map_add_def split: option.splits)

lemma positions_snoc: "positions (hist @ [(a, fp, ls)]) f = positions hist f @ (if f = fp then [a] else [])"
  by (simp add: positions_def)

lemma positions_None: "series_of hist fp = None \<Longrightarrow> positions hist fp = []"
  by (auto simp: series_of_def positions_def map_of_eq_None_iff filter_empty_conv)

lemma pi_Add_inv:
  assumes "pi_inv pi hist" and "distinct (map lp_Name ls)"
  shows "\<exists>pi'. pi_Add pi a fp ls = Some pi' \<and> pi_inv pi' (hist @ [(a, fp, ls)])"
proof (cases "series_of hist fp")
  case None
  then obtain ix where ix: "bp_Add (pi_ix pi) ls fp = Some (ix, sort_labels ls)" "bp_represents ix ((series_of hist)(fp \<mapsto> ls))"
    using bp_Add_represents[of "pi_ix pi" "series_of hist" fp ls] assms by (auto simp: pi_inv_def)
  have pl: "map_of (pi_profilesPerFP pi) fp = None" using assms(1) None by (simp add: pi_inv_def)
  have "pi_Add pi a fp ls = Some (pi\<lparr>pi_ix := ix, pi_totalSeries := pi_totalSeries pi + 1, pi_totalProfiles := pi_totalProfiles pi + 1,
      pi_profilesPerFP := AList.update fp \<lparr>lb_lbs = sort_labels ls, lb_fp = fp, lb_profiles = [a]\<rparr> (pi_profilesPerFP pi)\<rparr>)"
    by (simp add: pi_Add_def pl ix(1) Let_def)
  then show ?thesis using ix(2) None assms(1) positions_None[OF None]
    by (auto simp: pi_inv_def series_of_snoc positions_snoc AList.update_conv')
next
  case (Some ls')
  then have "map_of (pi_profilesPerFP pi) fp = Some \<lparr>lb_lbs = sort_labels ls', lb_fp = fp, lb_profiles = positions hist fp\<rparr>"
    using assms(1) by (simp add: pi_inv_def)
  then show ?thesis using Some assms(1)
    by (auto simp: pi_Add_def pi_inv_def series_of_snoc positions_snoc AList.update_conv')
qed

lemma pi_adds_inv:
  "pi_inv pi pre \<Longrightarrow> \<forall>(a, fp, ls) \<in> set hist. distinct (map lp_Name ls) \<Longrightarrow> \<exists>pi'. pi_adds pi hist = Some pi' \<and> pi_inv pi' (pre @ hist)"
proof (induction hist arbitrary: pi pre)
  case (Cons x hist)
  obtain a fp ls where x: "x = (a, fp, ls)" by (cases x)
  then obtain pi' where "pi_Add pi a fp ls = Some pi'" "pi_inv pi' (pre @ [x])"
    using pi_Add_inv[OF Cons.prems(1), of ls a fp] Cons.prems(2) by auto
  then show ?case using Cons.IH[of pi' "pre @ [x]"] Cons.prems(2) x by auto
qed simp

lemma newProfileIndex_inv: "newProfileIndex 32 = Inr pi \<Longrightarrow> pi_inv pi []"
  using bp_empty[of 5] by (auto simp: newProfileIndex_def NewBitPrefixWithShards_def pi_inv_def series_of_def simp del: replicate.simps split: if_splits)

subsection \<open>Which series a query selects\<close>

text \<open>A series without a label counts as one that has it with the empty value.\<close>

definition selects :: "(matcher \<Rightarrow> string \<Rightarrow> bool) \<Rightarrow> matcher list \<Rightarrow> labels \<Rightarrow> bool" where
  "selects Matches ms ls \<longleftrightarrow> (\<forall>m \<in> set ms. Matches m (Labels_Get ls (m_Name m)))"

definition matchers_ok :: "(matcher \<Rightarrow> string \<Rightarrow> bool) \<Rightarrow> matcher list \<Rightarrow> bool" where
  "matchers_ok Matches ms \<longleftrightarrow> equal_matches Matches \<and> (\<forall>m \<in> set ms. \<not> Matches m [] \<longrightarrow> set_matches Matches m)"

lemma SplitFiltersAndMatchers_eq:
  "SplitFiltersAndMatchers Matches ms = (filter (\<lambda>m. Matches m []) ms, filter (\<lambda>m. \<not> Matches m []) ms)"
proof -
  have "fold (\<lambda>m (filters, matchers). if Matches m [] then (filters @ [m], matchers) else (filters, matchers @ [m])) ms (fs, ns)
      = (fs @ filter (\<lambda>m. Matches m []) ms, ns @ filter (\<lambda>m. \<not> Matches m []) ms)" for fs ns
    by (induction ms arbitrary: fs ns) auto
  then show ?thesis by (simp add: SplitFiltersAndMatchers_def)
qed

lemma bp_Lookup_all:
  assumes "bp_represents shards S" and "equal_matches Matches" and "no_empty_values S" and "\<forall>m \<in> set ms. set_matches Matches m"
  shows "\<exists>fps. bp_Lookup Matches shards ms None = Some (Inr fps) \<and> distinct fps \<and> set fps = {fp. (\<exists>n v. holds S fp n v) \<and> satisfies Matches S ms fp}"
proof (cases "ms = []")
  case True
  have r: "set (allFPs (shards ! i)) = {fp. shardForFP shards fp = i \<and> (\<exists>n v. holds S fp n v)} \<and> distinct (allFPs (shards ! i))"
    if "i < length shards" for i
    using allFPs_spec[of "shards ! i" "part (\<lambda>fp. shardForFP shards fp = i) S"] assms(1) that by (auto simp: bp_represents_def holds_part)
  have "bp_Lookup Matches shards ms None = Some (Inr (concat (map allFPs shards)))"
    using True by (simp add: bp_Lookup_def bp_validateShard_def bp_getShards_def)
  moreover have "set (concat (map allFPs shards)) = {fp. \<exists>n v. holds S fp n v}"
  proof -
    have "set (concat (map allFPs shards)) = (\<Union>i < length shards. set (allFPs (shards ! i)))" by (force simp: in_set_conv_nth)
    then show ?thesis using r shardForFP_in[OF assms(1)] by auto blast
  qed
  moreover have "distinct (concat (map allFPs (take k shards))) \<and> (\<forall>fp \<in> set (concat (map allFPs (take k shards))). shardForFP shards fp < k)"
    if "k \<le> length shards" for k
    using that
  proof (induction k)
    case (Suc k)
    then show ?case using r[of k] by (auto simp: take_Suc_conv_app_nth less_Suc_eq)
  qed simp
  from this[of "length shards"] have "distinct (concat (map allFPs shards))" by simp
  ultimately show ?thesis using True by (simp add: satisfies_def)
next
  case False
  then have g: "good_query Matches S ms" using assms(2-4) by (simp add: good_query_def)
  have "bp_Lookup Matches shards ms None = Some (Inr (bp_look Matches shards ms))"
    by (simp add: bp_look_def bp_Lookup_def bp_validateShard_def bp_getShards_def)
  moreover have "satisfies Matches S ms fp \<Longrightarrow> \<exists>n v. holds S fp n v" for fp using False by (cases ms) (auto simp: satisfies_def)
  ultimately show ?thesis using bp_look_spec[OF assms(1) g] by (auto simp: strict_sorted_iff)
qed

lemma Labels_Get_holds:
  assumes "distinct (map lp_Name ls)" and "\<forall>l \<in> set ls. lp_Value l \<noteq> []" and "S fp = Some ls"
  shows "holds S fp n v \<longleftrightarrow> v \<noteq> [] \<and> Labels_Get ls n = v"
proof (cases "n \<in> lp_Name ` set ls")
  case True
  then obtain l where "l \<in> set ls" "lp_Name l = n" "Labels_Get ls n = lp_Value l" using Labels_Get_in by blast
  then show ?thesis using assms Labels_Get_eq[OF assms(1)] by (auto simp: holds_def) metis
next
  case False
  then show ?thesis using assms(3) Labels_Get_notin[OF False] by (auto simp: holds_def)
qed

lemma Labels_Get_sort: "distinct (map lp_Name ls) \<Longrightarrow> Labels_Get (sort_labels ls) n = Labels_Get ls n"
  by (rule Labels_Get_mset) (auto simp: set_sort_labels distinct_sort_labels)

definition good_labels :: "labels \<Rightarrow> bool" where
  "good_labels ls \<longleftrightarrow> ls \<noteq> [] \<and> distinct (map lp_Name ls) \<and> (\<forall>l \<in> set ls. lp_Value l \<noteq> [])"

lemma selects_split:
  assumes "good_labels ls" and "S fp = Some ls"
  shows "satisfies Matches S (filter (\<lambda>m. \<not> Matches m []) ms) fp \<and> filters_pass Matches (filter (\<lambda>m. Matches m []) ms) (sort_labels ls)
    \<longleftrightarrow> selects Matches ms ls"
proof -
  have d: "distinct (map lp_Name ls)" "\<forall>l \<in> set ls. lp_Value l \<noteq> []" using assms(1) by (auto simp: good_labels_def)
  have "holds S fp n v \<longleftrightarrow> v \<noteq> [] \<and> Labels_Get ls n = v" for n v using Labels_Get_holds[of ls S fp] d assms(2) by blast
  then show ?thesis unfolding satisfies_def filters_pass_def selects_def Labels_Get_sort[OF d(1)]
    by (auto simp: list_all_iff)
qed

text \<open>The series of a query, with their profiles, in the order of the index.\<close>

lemma lookup_passing:
  assumes inv: "pi_inv pi hist" and good: "\<forall>(a, fp, ls) \<in> set hist. good_labels ls" and ok: "matchers_ok Matches ms"
  shows "\<exists>fps qs. bp_Lookup Matches (pi_ix pi) (filter (\<lambda>m. \<not> Matches m []) ms) None = Some (Inr fps)
    \<and> distinct qs \<and> set qs = {fp. \<exists>ls. series_of hist fp = Some ls \<and> selects Matches ms ls}
    \<and> passing Matches pi (filter (\<lambda>m. Matches m []) ms) fps =
        map (\<lambda>fp. (fp, \<lparr>lb_lbs = sort_labels (the (series_of hist fp)), lb_fp = fp, lb_profiles = positions hist fp\<rparr>)) qs"
proof -
  let ?S = "series_of hist" and ?F = "filter (\<lambda>m. Matches m []) ms" and ?M = "filter (\<lambda>m. \<not> Matches m []) ms"
  have good': "good_labels ls" if "?S fp = Some ls" for fp ls
    using good map_of_SomeD[of "map snd hist" fp ls] that by (auto simp: series_of_def)
  then have ne: "no_empty_values ?S" by (fastforce simp: no_empty_values_def holds_def good_labels_def)
  obtain fps where fps: "bp_Lookup Matches (pi_ix pi) ?M None = Some (Inr fps)" "distinct fps"
      "set fps = {fp. (\<exists>n v. holds ?S fp n v) \<and> satisfies Matches ?S ?M fp}"
    using bp_Lookup_all[of "pi_ix pi" ?S Matches ?M] inv ok ne by (auto simp: pi_inv_def matchers_ok_def)
  let ?P = "\<lambda>fp. filters_pass Matches ?F (sort_labels (the (?S fp)))"
  have dom: "?S fp \<noteq> None" if "fp \<in> set fps" for fp using that fps(3) by (auto simp: holds_def)
  have "passing Matches pi ?F fs = map (\<lambda>fp. (fp, \<lparr>lb_lbs = sort_labels (the (?S fp)), lb_fp = fp, lb_profiles = positions hist fp\<rparr>)) (filter ?P fs)"
    if "set fs \<subseteq> set fps" for fs
    using that
  proof (induction fs)
    case (Cons fp fs)
    obtain ls where "?S fp = Some ls" using dom Cons.prems by fastforce
    then show ?case using Cons inv by (simp add: pi_inv_def)
  qed simp
  moreover have "set (filter ?P fps) = {fp. \<exists>ls. ?S fp = Some ls \<and> selects Matches ms ls}"
  proof -
    have "fp \<in> set fps \<and> ?P fp \<longleftrightarrow> selects Matches ms ls" if "?S fp = Some ls" for fp ls
    proof -
      have "\<exists>n v. holds ?S fp n v" using good'[OF that] that by (cases ls) (auto simp: holds_def good_labels_def)
      then show ?thesis using selects_split[of ls ?S fp Matches ms] good'[OF that] that fps(3) by auto
    qed
    then show ?thesis using dom by fastforce
  qed
  ultimately show ?thesis using fps(1,2) by (intro exI[of _ fps] exI[of _ "filter ?P fps"]) auto
qed

subsection \<open>What the iterators yield\<close>

lemma series_ended:
  "ended I e (sr_Iterator it) \<Longrightarrow> ended (series_iterator z I) e it"
proof (coinduction arbitrary: it)
  case (ended it)
  then obtain j where "it_Next I (sr_Iterator it) = Some (False, j)" "it_Err I j = e" "ended I e j" by (rule endedE)
  then show ?case by (auto simp: series_iterator_def series_Next_def intro!: exI[of _ "it\<lparr>sr_Iterator := j\<rparr>"])
qed

lemma series_yields:
  assumes "yields I i xs e"
  shows "sr_Iterator it = i \<Longrightarrow> yields (series_iterator z I) it (map (\<lambda>a. \<lparr>pw_Profile = a, pw_lbs = sr_lbs it, pw_fp = sr_fp it\<rparr>) xs) e"
  using assms
proof (induction arbitrary: it rule: yields.induct)
  case (yields_Nil e i)
  then show ?case by (auto intro!: yields.yields_Nil series_ended)
next
  case (yields_Cons i j e xs)
  let ?j = "it\<lparr>sr_Iterator := j, sr_curr := Some \<lparr>pw_Profile = it_At I j, pw_lbs = sr_lbs it, pw_fp = sr_fp it\<rparr>\<rparr>"
  have "it_Next (series_iterator z I) it = Some (True, ?j)" "e = [] \<longrightarrow> it_Err (series_iterator z I) ?j = []"
      "it_At (series_iterator z I) ?j = \<lparr>pw_Profile = it_At I j, pw_lbs = sr_lbs it, pw_fp = sr_fp it\<rparr>"
    using yields_Cons.hyps yields_Cons.prems by (simp_all add: series_iterator_def series_Next_def)
  then show ?case using yields.yields_Cons[of "series_iterator z I" it ?j e] yields_Cons.IH[of ?j] by simp
qed

text \<open>The profiles of a series in the time range, with their labels.\<close>

definition with_labels :: "labels \<Rightarrow> u64 \<Rightarrow> nat \<Rightarrow> ProfileWithLabels" where
  "with_labels ls fp a = \<lparr>pw_Profile = a, pw_lbs = sort_labels ls, pw_fp = fp\<rparr>"

definition profile_in :: "(i64 \<Rightarrow> i64) \<Rightarrow> Profile list \<Rightarrow> i64 \<Rightarrow> i64 \<Rightarrow> nat \<Rightarrow> bool" where
  "profile_in tfn ps start end' a \<longleftrightarrow> sint start \<le> sint (tfn (pr_TimeNanos (ps ! a))) \<and> sint (tfn (pr_TimeNanos (ps ! a))) \<le> sint end'"

definition time_ordered :: "(i64 \<Rightarrow> i64) \<Rightarrow> Profile list \<Rightarrow> nat list \<Rightarrow> bool" where
  "time_ordered tfn ps as \<longleftrightarrow> sorted (map (\<lambda>a. sint (tfn (pr_TimeNanos (ps ! a)))) as)"

lemma one_series:
  assumes "time_ordered tfn ps as"
  shows "yields (series_iterator z (ranged_profiles tfn ps start end')) (NewSeriesIterator (sort_labels ls) fp (NewSliceIterator as))
      (map (with_labels ls fp) (filter (profile_in tfn ps start end') as)) []
    \<and> in_order pw_lbs (pw_Timestamp tfn ps) (map (with_labels ls fp) (filter (profile_in tfn ps start end') as))"
proof -
  have f: "in_range (\<lambda>a. Profile_Timestamp tfn (ps ! a)) start end' = profile_in tfn ps start end'"
    by (simp add: fun_eq_iff in_range_def profile_in_def Profile_Timestamp_def)
  have "sorted (map (\<lambda>a. sint (Profile_Timestamp tfn (ps ! a))) as)" using assms by (simp add: time_ordered_def Profile_Timestamp_def)
  then have "yields (ranged_profiles tfn ps start end') (NewSliceIterator as) (filter (profile_in tfn ps start end') as) []"
    unfolding ranged_profiles_def f[symmetric] by (rule ranged_yields[OF NewSliceIterator_yields])
  from series_yields[OF this, of "NewSeriesIterator (sort_labels ls) fp (NewSliceIterator as)" z]
  have "yields (series_iterator z (ranged_profiles tfn ps start end')) (NewSeriesIterator (sort_labels ls) fp (NewSliceIterator as))
      (map (with_labels ls fp) (filter (profile_in tfn ps start end') as)) []"
    by (simp add: NewSeriesIterator_def with_labels_def cong: map_cong)
  moreover have "sorted (map (\<lambda>a. sint (tfn (pr_TimeNanos (ps ! a)))) (filter (profile_in tfn ps start end') as))"
    using assms by (auto simp: time_ordered_def intro: sorted_filter)
  then have "in_order pw_lbs (pw_Timestamp tfn ps) (map (with_labels ls fp) (filter (profile_in tfn ps start end') as))"
    by (simp add: sorted_map profile_key_def with_labels_def pw_Timestamp_def less_eq_prod_def order_le_less sorted_wrt_map)
  ultimately show ?thesis by blast
qed

lemma mset_by_key:
  "distinct ks \<Longrightarrow> mset (concat (map (\<lambda>k. filter (\<lambda>x. f x = k) xs) ks)) = mset (filter (\<lambda>x. f x \<in> set ks) xs)"
proof (induction ks)
  case (Cons k ks)
  have "mset (filter (\<lambda>x. f x = k) xs) + mset (filter (\<lambda>x. f x \<in> set ks) xs) = mset (filter (\<lambda>x. f x \<in> set (k # ks)) xs)"
    using Cons.prems by (induction xs) auto
  then show ?case using Cons by simp
qed simp

text \<open>Every series of the query contributes its additions.\<close>

lemma series_contents:
  assumes "distinct qs" and "set qs = {fp. \<exists>ls. series_of hist fp = Some ls \<and> selects Matches ms ls}"
    and "\<forall>(a, fp, ls) \<in> set hist. series_of hist fp = Some ls"
  shows "mset (concat (map (\<lambda>fp. map (with_labels (the (series_of hist fp)) fp) (filter P (positions hist fp))) qs))
    = mset (map (\<lambda>(a, fp, ls). with_labels ls fp a) (filter (\<lambda>(a, fp, ls). selects Matches ms ls \<and> P a) hist))"
proof -
  let ?k = "\<lambda>x :: addition. fst (snd x)" and ?w = "\<lambda>(a, fp, ls). with_labels ls fp a"
  have "map (with_labels (the (series_of hist fp)) fp) (filter P (positions hist fp)) = map ?w (filter (\<lambda>x. ?k x = fp) (filter (\<lambda>x. P (fst x)) hist))" for fp
  proof -
    have "map (with_labels (the (series_of hist fp)) fp) (filter P (map fst (filter (\<lambda>x. ?k x = fp) h))) = map ?w (filter (\<lambda>x. ?k x = fp) (filter (\<lambda>x. P (fst x)) h))"
      if "set h \<subseteq> set hist" for h
      using that assms(3) by (induction h) auto
    then show ?thesis by (simp add: positions_def)
  qed
  then have "mset (concat (map (\<lambda>fp. map (with_labels (the (series_of hist fp)) fp) (filter P (positions hist fp))) qs))
    = image_mset ?w (mset (concat (map (\<lambda>fp. filter (\<lambda>x. ?k x = fp) (filter (\<lambda>x. P (fst x)) hist)) qs)))"
    by (simp add: map_concat comp_def flip: mset_map)
  also have "\<dots> = mset (map ?w (filter (\<lambda>x. ?k x \<in> set qs) (filter (\<lambda>x. P (fst x)) hist)))"
    unfolding mset_by_key[OF assms(1)] by simp
  also have "filter (\<lambda>x. ?k x \<in> set qs) (filter (\<lambda>x. P (fst x)) hist) = filter (\<lambda>(a, fp, ls). selects Matches ms ls \<and> P a) hist"
    using assms(2,3) by (auto intro!: filter_cong)
  finally show ?thesis .
qed

subsection \<open>Properties\<close>


definition demo_profile_at :: "u64 \<Rightarrow> i64 \<Rightarrow> Profile" where
  "demo_profile_at fp t =
     \<lparr>pr_ID = 1, pr_SeriesIndex = 0, pr_SeriesFingerprint = fp, pr_Samples = [], pr_DropFrames = 0, pr_KeepFrames = 0, pr_TimeNanos = t,
      pr_DurationNanos = 0, pr_Period = 0, pr_Comments = [], pr_DefaultSampleType = 0\<rparr>"

lemma valid_32: "ValidateBitPrefixShardFactor 32"
  by code_simp


end
