(* ===== verification/Head_Tables.thy ===== *)
theory Head_Tables
  imports Dedup_Slice
begin

section \<open>The symbol tables of the head (pkg/phlaredb: strings, functions, mappings, locations, stacktraces.go)\<close>

text \<open>
  A pprof profile (package \<open>gen/google/v1\<close>, generated from the protobuf schema) refers to strings by
  index and to mappings, functions and locations by ID. The head keeps one deduplicating table per
  kind; ingesting a profile adds its elements to the tables and rewrites every reference into a
  position of a table. This theory has the data types, the helpers that instantiate the
  deduplicating table and the tables of the head.

  The hash \<open>xxhash\<close> is the parameter \<open>H\<close>; the sizes of Go structs (\<open>unsafe.Sizeof\<close>), which only enter
  the size estimate of a table, are parameters as well.
\<close>

record Function =
  fn_Id :: u64
  fn_Name :: i64
  fn_SystemName :: i64
  fn_Filename :: i64
  fn_StartLine :: i64

record Mapping =
  mg_Id :: u64
  mg_MemoryStart :: u64
  mg_MemoryLimit :: u64
  mg_FileOffset :: u64
  mg_Filename :: i64
  mg_BuildId :: i64
  mg_HasFunctions :: bool
  mg_HasFilenames :: bool
  mg_HasLineNumbers :: bool
  mg_HasInlineFrames :: bool

record Line =
  ln_FunctionId :: u64
  ln_Line :: i64

record Location =
  loc_Id :: u64
  loc_MappingId :: u64
  loc_Address :: u64
  loc_Line :: "Line list"
  loc_IsFolded :: bool

record Stacktrace =
  sk_LocationIDs :: "u64 list"

record rewriter =
  rw_strings :: "i64 list"
  rw_functions :: "(i64 \<times> i64) list"
  rw_mappings :: "(i64 \<times> i64) list"
  rw_locations :: "(i64 \<times> i64) list"
  rw_stacktraces :: "(i64 \<times> i64) list"

definition empty_rewriter :: rewriter where
  "empty_rewriter = \<lparr>rw_strings = [], rw_functions = [], rw_mappings = [], rw_locations = [], rw_stacktraces = []\<rparr>"

subsection \<open>Conversion tables\<close>

text \<open>An index that is out of range, or an ID that is not in the table, panics. Slices are shorter
  than \<open>2 ^ 63\<close>, so a negative index is out of range as an unsigned number too.\<close>

definition rewrite_string :: "i64 list \<Rightarrow> i64 \<Rightarrow> i64 option" where
  "rewrite_string t idx = (if unat idx < length t then Some (t ! unat idx) else None)"

definition rewriteUint64 :: "(i64 \<times> i64) list \<Rightarrow> u64 \<Rightarrow> u64 option" where
  "rewriteUint64 t idx = map_of t idx"

fun rewrite_ids :: "(i64 \<times> i64) list \<Rightarrow> u64 list \<Rightarrow> u64 list option" where
  "rewrite_ids t [] = Some []"
| "rewrite_ids t (i # is') = do { i \<leftarrow> rewriteUint64 t i; is' \<leftarrow> rewrite_ids t is'; Some (i # is') }"

subsection \<open>Strings\<close>

definition strings_addToRewriter :: "(i64 \<times> i64) list \<Rightarrow> rewriter \<Rightarrow> rewriter" where
  "strings_addToRewriter m r =
     (let maxID = fold (\<lambda>(i, _) mx. if sint i > sint mx then i else mx) m 0
      in r\<lparr>rw_strings := fold (\<lambda>(x, y) t. t[unat x := y]) m (replicate (unat maxID + 1) 0)\<rparr>)"

definition stringsHelper :: "(string, string, rewriter) Helper" where
  "stringsHelper =
     \<lparr>hp_key = (\<lambda>s. s), hp_addToRewriter = strings_addToRewriter, hp_rewrite = (\<lambda>r s. Some s),
      hp_setID = (\<lambda>old new s. (old, s)), hp_size = (\<lambda>s. of_nat (length s)), hp_clone = (\<lambda>s. s)\<rparr>"

subsection \<open>Functions\<close>

record functionsKey =
  fk_Name :: i64
  fk_SystemName :: i64
  fk_Filename :: i64
  fk_StartLine :: i64

definition function_key :: "Function \<Rightarrow> functionsKey" where
  "function_key f = \<lparr>fk_Name = fn_Name f, fk_SystemName = fn_SystemName f, fk_Filename = fn_Filename f, fk_StartLine = fn_StartLine f\<rparr>"

definition function_rewrite :: "rewriter \<Rightarrow> Function \<Rightarrow> Function option" where
  "function_rewrite r f = do {
     file \<leftarrow> rewrite_string (rw_strings r) (fn_Filename f);
     name \<leftarrow> rewrite_string (rw_strings r) (fn_Name f);
     sys \<leftarrow> rewrite_string (rw_strings r) (fn_SystemName f);
     Some (f\<lparr>fn_Filename := file, fn_Name := name, fn_SystemName := sys\<rparr>) }"

definition functionsHelper :: "u64 \<Rightarrow> (Function, functionsKey, rewriter) Helper" where
  "functionsHelper functionSize =
     \<lparr>hp_key = function_key, hp_addToRewriter = (\<lambda>m r. r\<lparr>rw_functions := m\<rparr>), hp_rewrite = function_rewrite,
      hp_setID = (\<lambda>old new f. (fn_Id f, f\<lparr>fn_Id := new\<rparr>)), hp_size = (\<lambda>f. functionSize), hp_clone = (\<lambda>f. f)\<rparr>"

subsection \<open>Mappings\<close>

text \<open>The key takes \<open>HasLineNumbers\<close> from \<open>HasFunctions\<close>, as the code does.\<close>

record mappingsKey =
  mk_MemoryStart :: u64
  mk_MemoryLimit :: u64
  mk_FileOffset :: u64
  mk_Filename :: i64
  mk_BuildId :: i64
  mk_HasFunctions :: bool
  mk_HasFilenames :: bool
  mk_HasLineNumbers :: bool
  mk_HasInlineFrames :: bool

definition mapping_key :: "Mapping \<Rightarrow> mappingsKey" where
  "mapping_key m =
     \<lparr>mk_MemoryStart = mg_MemoryStart m, mk_MemoryLimit = mg_MemoryLimit m, mk_FileOffset = mg_FileOffset m,
      mk_Filename = mg_Filename m, mk_BuildId = mg_BuildId m, mk_HasFunctions = mg_HasFunctions m,
      mk_HasFilenames = mg_HasFilenames m, mk_HasLineNumbers = mg_HasFunctions m, mk_HasInlineFrames = mg_HasInlineFrames m\<rparr>"

definition mapping_rewrite :: "rewriter \<Rightarrow> Mapping \<Rightarrow> Mapping option" where
  "mapping_rewrite r m = do {
     file \<leftarrow> rewrite_string (rw_strings r) (mg_Filename m);
     build \<leftarrow> rewrite_string (rw_strings r) (mg_BuildId m);
     Some (m\<lparr>mg_Filename := file, mg_BuildId := build\<rparr>) }"

definition mappingsHelper :: "u64 \<Rightarrow> (Mapping, mappingsKey, rewriter) Helper" where
  "mappingsHelper mappingSize =
     \<lparr>hp_key = mapping_key, hp_addToRewriter = (\<lambda>m r. r\<lparr>rw_mappings := m\<rparr>), hp_rewrite = mapping_rewrite,
      hp_setID = (\<lambda>old new m. (mg_Id m, m\<lparr>mg_Id := new\<rparr>)), hp_size = (\<lambda>m. mappingSize), hp_clone = (\<lambda>m. m)\<rparr>"

subsection \<open>Locations\<close>

definition le_bytes64 :: "u64 \<Rightarrow> u8 list" where
  "le_bytes64 w = map (\<lambda>i. ucast (drop_bit (8 * i) w)) [0..<8]"

definition lines_bytes :: "Line list \<Rightarrow> u8 list" where
  "lines_bytes ls = concat (map (\<lambda>l. le_bytes64 (ln_FunctionId l) @ le_bytes64 (ln_Line l)) ls)"

record locationsKey =
  lk_MappingId :: u64
  lk_Address :: u64
  lk_LinesHash :: u64

definition location_key :: "(u8 list \<Rightarrow> u64) \<Rightarrow> Location \<Rightarrow> locationsKey" where
  "location_key H l = \<lparr>lk_MappingId = loc_MappingId l, lk_Address = loc_Address l, lk_LinesHash = H (lines_bytes (loc_Line l))\<rparr>"

fun rewrite_lines :: "(i64 \<times> i64) list \<Rightarrow> Line list \<Rightarrow> Line list option" where
  "rewrite_lines t [] = Some []"
| "rewrite_lines t (l # ls) = do {
     i \<leftarrow> rewriteUint64 t (ln_FunctionId l); ls \<leftarrow> rewrite_lines t ls; Some (l\<lparr>ln_FunctionId := i\<rparr> # ls) }"

definition location_rewrite :: "rewriter \<Rightarrow> Location \<Rightarrow> Location option" where
  "location_rewrite r l = do {
     mid \<leftarrow> (if loc_MappingId l \<noteq> 0 then rewriteUint64 (rw_mappings r) (loc_MappingId l) else Some (loc_MappingId l));
     ls \<leftarrow> rewrite_lines (rw_functions r) (loc_Line l);
     Some (l\<lparr>loc_MappingId := mid, loc_Line := ls\<rparr>) }"

definition locationsHelper :: "(u8 list \<Rightarrow> u64) \<Rightarrow> u64 \<Rightarrow> u64 \<Rightarrow> (Location, locationsKey, rewriter) Helper" where
  "locationsHelper H lineSize locationSize =
     \<lparr>hp_key = location_key H, hp_addToRewriter = (\<lambda>m r. r\<lparr>rw_locations := m\<rparr>), hp_rewrite = location_rewrite,
      hp_setID = (\<lambda>old new l. (loc_Id l, l\<lparr>loc_Id := new\<rparr>)),
      hp_size = (\<lambda>l. of_nat (length (loc_Line l)) * lineSize + locationSize), hp_clone = (\<lambda>l. l)\<rparr>"

subsection \<open>Stack traces\<close>

definition ids_bytes :: "u64 list \<Rightarrow> u8 list" where
  "ids_bytes is' = concat (map le_bytes64 is')"

definition stacktrace_key :: "(u8 list \<Rightarrow> u64) \<Rightarrow> Stacktrace \<Rightarrow> u64" where
  "stacktrace_key H s = H (ids_bytes (sk_LocationIDs s))"

definition stacktrace_rewrite :: "rewriter \<Rightarrow> Stacktrace \<Rightarrow> Stacktrace option" where
  "stacktrace_rewrite r s = do { is' \<leftarrow> rewrite_ids (rw_locations r) (sk_LocationIDs s); Some (s\<lparr>sk_LocationIDs := is'\<rparr>) }"

definition stacktracesHelper :: "(u8 list \<Rightarrow> u64) \<Rightarrow> u64 \<Rightarrow> (Stacktrace, u64, rewriter) Helper" where
  "stacktracesHelper H stacktraceSize =
     \<lparr>hp_key = stacktrace_key H, hp_addToRewriter = (\<lambda>m r. r\<lparr>rw_stacktraces := m\<rparr>), hp_rewrite = stacktrace_rewrite,
      hp_setID = (\<lambda>old new s. (old, s)), hp_size = (\<lambda>s. stacktraceSize + of_nat (length (sk_LocationIDs s) * 8)),
      hp_clone = (\<lambda>s. s)\<rparr>"

subsection \<open>The helpers keep the contract of the table\<close>

interpretation strs: dedup_helper stringsHelper
  by unfold_locales (simp_all add: stringsHelper_def)

interpretation fns: dedup_helper "functionsHelper fs" for fs
  by unfold_locales (simp_all add: functionsHelper_def function_key_def)

interpretation maps: dedup_helper "mappingsHelper ms" for ms
  by unfold_locales (simp_all add: mappingsHelper_def mapping_key_def)

interpretation locs: dedup_helper "locationsHelper H ls sz" for H ls sz
  by unfold_locales (simp_all add: locationsHelper_def location_key_def)

interpretation stks: dedup_helper "stacktracesHelper H sz" for H sz
  by unfold_locales (simp_all add: stacktracesHelper_def stacktrace_key_def)

subsection \<open>The hashed encodings are injective\<close>

lemma le_bytes64_inj: "le_bytes64 v = le_bytes64 w \<Longrightarrow> v = w"
proof (rule bit_word_eqI)
  fix n assume eq: "le_bytes64 v = le_bytes64 w" and n: "n < LENGTH(64)"
  have byte: "(ucast (drop_bit (8 * i) v) :: u8) = ucast (drop_bit (8 * i) w)" if "i < 8" for i
    using arg_cong[OF eq, of "\<lambda>bs. bs ! i"] that by (simp add: le_bytes64_def)
  let ?i = "n div 8"
  have "?i < 8" using n by simp
  then have "bit (ucast (drop_bit (8 * ?i) v) :: u8) (n mod 8) = bit (ucast (drop_bit (8 * ?i) w) :: u8) (n mod 8)"
    using byte by simp
  then show "bit v n = bit w n" by (simp add: bit_simps)
qed

lemma length_le_bytes64 [simp]: "length (le_bytes64 w) = 8"
  by (simp add: le_bytes64_def)

lemma le_bytes64_append: "le_bytes64 v @ xs = le_bytes64 w @ ys \<longleftrightarrow> v = w \<and> xs = ys"
  using append_eq_append_conv[of "le_bytes64 v" "le_bytes64 w" xs ys] le_bytes64_inj by auto

lemma ids_bytes_inj: "ids_bytes xs = ids_bytes ys \<Longrightarrow> xs = ys"
proof (induction xs arbitrary: ys)
  case Nil
  then show ?case by (cases ys) (auto simp: ids_bytes_def dest: arg_cong[of _ _ length])
next
  case (Cons x xs)
  then obtain y ys' where "ys = y # ys'" by (cases ys) (auto simp: ids_bytes_def dest: arg_cong[of _ _ length])
  then show ?case using Cons by (auto simp: ids_bytes_def le_bytes64_append)
qed

lemma lines_bytes_inj: "lines_bytes xs = lines_bytes ys \<Longrightarrow> xs = ys"
proof (induction xs arbitrary: ys)
  case Nil
  then show ?case by (cases ys) (auto simp: lines_bytes_def dest: arg_cong[of _ _ length])
next
  case (Cons x xs)
  then obtain y ys' where "ys = y # ys'" by (cases ys) (auto simp: lines_bytes_def dest: arg_cong[of _ _ length])
  then show ?case using Cons by (auto simp: lines_bytes_def le_bytes64_append)
qed

end
