(* ===== verification/Head_Symbols.thy ===== *)
theory Head_Symbols
  imports Head_Tables Delta
begin

section \<open>Ingesting the symbols of a profile (pkg/phlaredb/head.go)\<close>

text \<open>
  The part of \<open>Head.Ingest\<close> and \<open>convertSamples\<close> that puts the strings, mappings, functions,
  locations and stack traces of a profile into the tables of the head. The main fact is that every
  stack trace of the profile can be read back from the tables: the stored stack trace has, frame by
  frame, the addresses, lines, function names and mappings of the profile.
\<close>

record pSample =
  sa_LocationId :: "u64 list"
  sa_Value :: "i64 list"
  sa_Label :: "pLabel list"

record ValueType =
  vt_Type :: i64
  vt_Unit :: i64

record pProfile =
  p_SampleType :: "ValueType list"
  p_Sample :: "pSample list"
  p_Mapping :: "Mapping list"
  p_Location :: "Location list"
  p_Function :: "Function list"
  p_StringTable :: "string list"
  p_DropFrames :: i64
  p_KeepFrames :: i64
  p_TimeNanos :: i64
  p_DurationNanos :: i64
  p_PeriodType :: "ValueType option"
  p_Comment :: "i64 list"
  p_DefaultSampleType :: i64

record struct_sizes =
  functionSize :: u64
  mappingSize :: u64
  lineSize :: u64
  locationSize :: u64
  stacktraceSize :: u64

record tables =
  ht_strings :: "(string, string) deduplicatingSlice"
  ht_mappings :: "(Mapping, mappingsKey) deduplicatingSlice"
  ht_functions :: "(Function, functionsKey) deduplicatingSlice"
  ht_locations :: "(Location, locationsKey) deduplicatingSlice"
  ht_stacktraces :: "(Stacktrace, u64) deduplicatingSlice"

definition new_tables :: tables where
  "new_tables = \<lparr>ht_strings = ds_init, ht_mappings = ds_init, ht_functions = ds_init, ht_locations = ds_init, ht_stacktraces = ds_init\<rparr>"

text \<open>The stack traces that \<open>convertSamples\<close> builds; without samples it returns before ingesting.\<close>

definition sample_stacks :: "pProfile \<Rightarrow> Stacktrace list" where
  "sample_stacks p = map (\<lambda>s. \<lparr>sk_LocationIDs = sa_LocationId s\<rparr>) (p_Sample p)"

definition ingest_stacktraces :: "(u8 list \<Rightarrow> u64) \<Rightarrow> 'z struct_sizes_scheme \<Rightarrow> pProfile \<Rightarrow> (Stacktrace, u64) deduplicatingSlice \<Rightarrow> rewriter
    \<Rightarrow> ((Stacktrace, u64) deduplicatingSlice \<times> rewriter) option" where
  "ingest_stacktraces H sz p t r =
     (if p_Sample p = [] then Some (t, r) else ingest True (stacktracesHelper H (stacktraceSize sz)) (sample_stacks p) t r)"

definition ingest_tables :: "(u8 list \<Rightarrow> u64) \<Rightarrow> 'z struct_sizes_scheme \<Rightarrow> pProfile \<Rightarrow> tables \<Rightarrow> (tables \<times> rewriter) option" where
  "ingest_tables H sz p T = do {
     (strs, r) \<leftarrow> ingest True stringsHelper (p_StringTable p) (ht_strings T) empty_rewriter;
     (mps, r) \<leftarrow> ingest True (mappingsHelper (mappingSize sz)) (p_Mapping p) (ht_mappings T) r;
     (fs, r) \<leftarrow> ingest True (functionsHelper (functionSize sz)) (p_Function p) (ht_functions T) r;
     (lcs, r) \<leftarrow> ingest True (locationsHelper H (lineSize sz) (locationSize sz)) (p_Location p) (ht_locations T) r;
     (sts, r) \<leftarrow> ingest_stacktraces H sz p (ht_stacktraces T) r;
     Some (\<lparr>ht_strings = strs, ht_mappings = mps, ht_functions = fs, ht_locations = lcs, ht_stacktraces = sts\<rparr>, r) }"

subsection \<open>Well-formed profiles and what it means to read a stack back\<close>

abbreviation str_ok :: "pProfile \<Rightarrow> i64 \<Rightarrow> bool" where
  "str_ok p i \<equiv> unat i < length (p_StringTable p)"

definition wf_pprof :: "pProfile \<Rightarrow> bool" where
  "wf_pprof p \<longleftrightarrow>
     distinct (map mg_Id (p_Mapping p)) \<and> distinct (map fn_Id (p_Function p)) \<and> distinct (map loc_Id (p_Location p))
     \<and> (\<forall>m \<in> set (p_Mapping p). str_ok p (mg_Filename m) \<and> str_ok p (mg_BuildId m))
     \<and> (\<forall>f \<in> set (p_Function p). str_ok p (fn_Name f) \<and> str_ok p (fn_SystemName f) \<and> str_ok p (fn_Filename f))
     \<and> (\<forall>l \<in> set (p_Location p). (loc_MappingId l \<noteq> 0 \<longrightarrow> loc_MappingId l \<in> mg_Id ` set (p_Mapping p))
          \<and> ln_FunctionId ` set (loc_Line l) \<subseteq> fn_Id ` set (p_Function p))
     \<and> (\<forall>s \<in> set (p_Sample p). set (sa_LocationId s) \<subseteq> loc_Id ` set (p_Location p))"

definition tables_inv :: "(u8 list \<Rightarrow> u64) \<Rightarrow> tables \<Rightarrow> bool" where
  "tables_inv H T \<longleftrightarrow> ds_inv (\<lambda>s. s) (ht_strings T) \<and> ds_inv mapping_key (ht_mappings T) \<and> ds_inv function_key (ht_functions T)
     \<and> ds_inv (location_key H) (ht_locations T) \<and> ds_inv (stacktrace_key H) (ht_stacktraces T)"

definition tables_grow :: "tables \<Rightarrow> tables \<Rightarrow> bool" where
  "tables_grow T U \<longleftrightarrow> grows (ht_strings T) (ht_strings U) \<and> grows (ht_mappings T) (ht_mappings U) \<and> grows (ht_functions T) (ht_functions U)
     \<and> grows (ht_locations T) (ht_locations U) \<and> grows (ht_stacktraces T) (ht_stacktraces U)"

definition room :: "pProfile \<Rightarrow> tables \<Rightarrow> bool" where
  "room p T \<longleftrightarrow> length (ds_slice (ht_strings T)) + length (p_StringTable p) < 2 ^ 63
     \<and> length (ds_slice (ht_mappings T)) + length (p_Mapping p) < 2 ^ 63 \<and> length (ds_slice (ht_functions T)) + length (p_Function p) < 2 ^ 63
     \<and> length (ds_slice (ht_locations T)) + length (p_Location p) < 2 ^ 63 \<and> length (ds_slice (ht_stacktraces T)) + length (p_Sample p) < 2 ^ 63"

text \<open>The element of a table at an int64 position.\<close>

definition at64 :: "'a list \<Rightarrow> u64 \<Rightarrow> 'a option" where
  "at64 xs i = (if unat i < length xs then Some (xs ! unat i) else None)"

text \<open>String \<open>i\<close> of the head is string \<open>j\<close> of the profile.\<close>

definition str_rel :: "string list \<Rightarrow> pProfile \<Rightarrow> i64 \<Rightarrow> i64 \<Rightarrow> bool" where
  "str_rel strs p i j \<longleftrightarrow> at64 strs i \<noteq> None \<and> at64 strs i = at64 (p_StringTable p) j"

definition fn_rel :: "string list \<Rightarrow> Function list \<Rightarrow> pProfile \<Rightarrow> u64 \<Rightarrow> u64 \<Rightarrow> bool" where
  "fn_rel strs fs p i j \<longleftrightarrow> (\<exists>g f. at64 fs i = Some g \<and> f \<in> set (p_Function p) \<and> fn_Id f = j
     \<and> str_rel strs p (fn_Name g) (fn_Name f) \<and> str_rel strs p (fn_SystemName g) (fn_SystemName f)
     \<and> str_rel strs p (fn_Filename g) (fn_Filename f) \<and> fn_StartLine g = fn_StartLine f)"

definition map_rel :: "string list \<Rightarrow> Mapping list \<Rightarrow> pProfile \<Rightarrow> u64 \<Rightarrow> u64 \<Rightarrow> bool" where
  "map_rel strs mgs p i j \<longleftrightarrow> (\<exists>g m. at64 mgs i = Some g \<and> m \<in> set (p_Mapping p) \<and> mg_Id m = j
     \<and> str_rel strs p (mg_Filename g) (mg_Filename m) \<and> str_rel strs p (mg_BuildId g) (mg_BuildId m)
     \<and> mg_MemoryStart g = mg_MemoryStart m \<and> mg_MemoryLimit g = mg_MemoryLimit m \<and> mg_FileOffset g = mg_FileOffset m
     \<and> mg_HasFunctions g = mg_HasFunctions m \<and> mg_HasFilenames g = mg_HasFilenames m \<and> mg_HasInlineFrames g = mg_HasInlineFrames m)"

definition line_rel :: "string list \<Rightarrow> Function list \<Rightarrow> pProfile \<Rightarrow> Line \<Rightarrow> Line \<Rightarrow> bool" where
  "line_rel strs fs p g l \<longleftrightarrow> ln_Line g = ln_Line l \<and> fn_rel strs fs p (ln_FunctionId g) (ln_FunctionId l)"

definition loc_rel :: "string list \<Rightarrow> Mapping list \<Rightarrow> Function list \<Rightarrow> Location list \<Rightarrow> pProfile \<Rightarrow> u64 \<Rightarrow> u64 \<Rightarrow> bool" where
  "loc_rel strs mgs fs ls p i j \<longleftrightarrow> (\<exists>g l. at64 ls i = Some g \<and> l \<in> set (p_Location p) \<and> loc_Id l = j
     \<and> loc_Address g = loc_Address l \<and> (loc_MappingId l \<noteq> 0 \<longrightarrow> map_rel strs mgs p (loc_MappingId g) (loc_MappingId l))
     \<and> list_all2 (line_rel strs fs p) (loc_Line g) (loc_Line l))"

text \<open>The stored stack trace \<open>st\<close> reads as the location IDs of a sample.\<close>

definition stack_rel :: "tables \<Rightarrow> pProfile \<Rightarrow> Stacktrace \<Rightarrow> u64 list \<Rightarrow> bool" where
  "stack_rel T p st js \<longleftrightarrow>
     list_all2 (loc_rel (ds_slice (ht_strings T)) (ds_slice (ht_mappings T)) (ds_slice (ht_functions T)) (ds_slice (ht_locations T)) p)
       (sk_LocationIDs st) js"

text \<open>The byte strings that are hashed for the keys.\<close>

definition hashed_lines :: "Location list \<Rightarrow> rewriter \<Rightarrow> pProfile \<Rightarrow> u8 list set" where
  "hashed_lines locs r p = (lines_bytes \<circ> loc_Line) ` (set locs \<union> {l'. \<exists>l \<in> set (p_Location p). location_rewrite r l = Some l'})"

definition hashed_ids :: "Stacktrace list \<Rightarrow> rewriter \<Rightarrow> pProfile \<Rightarrow> u8 list set" where
  "hashed_ids sts r p = (ids_bytes \<circ> sk_LocationIDs) ` (set sts \<union> {s'. \<exists>s \<in> set (sample_stacks p). stacktrace_rewrite r s = Some s'})"

subsection \<open>One table\<close>

context dedup_helper
begin

text \<open>What ingesting the elements of a profile gives when their IDs differ.\<close>

lemma ingest_stage:
  assumes inv: "ds_inv (hp_key h) s" and bound: "length (ds_slice s) + length es < 2 ^ 63"
    and rw: "\<forall>e \<in> set es. hp_rewrite h r e \<noteq> None"
    and ident: "\<And>pos e'. pos < length es \<Longrightarrow> hp_rewrite h r (es ! pos) = Some e' \<Longrightarrow> fst (hp_setID h (of_nat pos) 0 e') = ident pos"
    and inj: "inj_on ident {..<length es}"
  shows "\<exists>t rmap. ingest True h es s r = Some (t, hp_addToRewriter h rmap r) \<and> ds_inv (hp_key h) t \<and> grows s t
    \<and> distinct (map fst rmap) \<and> fst ` set rmap \<subseteq> ident ` {..<length es}
    \<and> (\<forall>pos < length es. \<exists>e' p. hp_rewrite h r (es ! pos) = Some e' \<and> map_of rmap (ident pos) = Some p
         \<and> unat p < length (ds_slice t) \<and> hp_key h (ds_slice t ! unat p) = hp_key h e')"
proof -
  obtain es' where es': "rewrite_elems h r es = Some es'" and rel: "list_all2 (\<lambda>e e'. hp_rewrite h r e = Some e') es es'"
    using rewrite_elems_ok[OF rw] by blast
  have len: "length es' = length es" and nth: "\<And>pos. pos < length es \<Longrightarrow> hp_rewrite h r (es ! pos) = Some (es' ! pos)"
    using rel by (auto simp: list_all2_conv_all_nth)
  obtain t rmap where t: "ingest True h es s r = Some (t, hp_addToRewriter h rmap r)" "ds_inv (hp_key h) t" "grows s t"
      "rmap_ok h es' {..<length es'} t rmap" using ingest_ok[OF inv bound es'] by blast
  have old: "oldid h es' pos = ident pos" if "pos < length es" for pos
    using ident[OF that nth[OF that]] by (simp add: oldid_def)
  have inj': "inj_on (oldid h es') {..<length es'}" using inj old len by (auto simp: inj_on_def)
  have "\<exists>e' p. hp_rewrite h r (es ! pos) = Some e' \<and> map_of rmap (ident pos) = Some p
         \<and> unat p < length (ds_slice t) \<and> hp_key h (ds_slice t ! unat p) = hp_key h e'" if "pos < length es" for pos
    using rmap_lookup[OF t(4,2) inj', of pos] that len old[OF that] nth[OF that] by auto
  moreover have d: "distinct (map fst rmap)" using t(4) unfolding rmap_ok_def by blast
  moreover have key: "i \<in> ident ` {..<length es}" if "(i, p) \<in> set rmap" for i p
  proof -
    have "map_of rmap i = Some p" using d that by (rule map_of_is_SomeI)
    then obtain pos where "pos < length es'" "oldid h es' pos = i" using t(4) unfolding rmap_ok_def by (meson lessThan_iff)
    then show ?thesis using old len by auto
  qed
  then have "fst ` set rmap \<subseteq> ident ` {..<length es}" by auto
  ultimately show ?thesis using t(1-3) by blast
qed

end

lemma of_nat_inj_on: "n < 2 ^ 63 \<Longrightarrow> inj_on (of_nat :: nat \<Rightarrow> u64) {..<n}"
  by (rule inj_on_inverseI[where g = unat]) (simp add: unat_of_nat_64)

lemma inj_on_ids: "distinct (map f es) \<Longrightarrow> inj_on (\<lambda>pos. f (es ! pos)) {..<length es}"
  by (auto simp: inj_on_def distinct_conv_nth)

subsection \<open>Strings\<close>

lemma fold_max_id:
  "\<forall>(i, y) \<in> set m. unat i < 2 ^ 63 \<Longrightarrow> unat mx < 2 ^ 63 \<Longrightarrow>
   (let mx' = fold (\<lambda>(i, _) mx. if sint i > sint mx then i else mx) m mx
    in unat mx \<le> unat mx' \<and> (\<forall>(i, y) \<in> set m. unat i \<le> unat (mx' :: i64)))"
proof (induction m arbitrary: mx)
  case (Cons iy m)
  obtain i y where iy: "iy = (i, y)" by fastforce
  have "sint (of_nat n :: i64) = int n" if "n < 2 ^ 63" for n :: nat
    using that by (simp add: signed_of_nat signed_take_bit_int_eq_self)
  then have s: "sint w = int (unat w)" if "unat w < 2 ^ 63" for w :: i64 
  proof -
    have "of_nat (unat w) = w" by simp
    then show ?thesis using \<open>\<And>n. n < 2 ^ 63 \<Longrightarrow> sint (of_nat n :: i64) = int n\<close> that by metis
  qed
  let ?mx = "if sint i > sint mx then i else mx"
  have b: "unat i < 2 ^ 63" "unat mx < 2 ^ 63" using Cons.prems iy by auto
  have "unat ?mx < 2 ^ 63" "unat mx \<le> unat ?mx" "unat i \<le> unat ?mx" using b s[OF b(1)] s[OF b(2)] by (auto simp del: of_nat_unat)
  then show ?case using Cons.IH[of ?mx] Cons.prems iy by (fastforce simp: Let_def)
qed simp

lemma fold_table_nth:
  "distinct (map fst m) \<Longrightarrow> \<forall>(i, y) \<in> set m. unat i < length t \<Longrightarrow> map_of m i = Some y \<Longrightarrow>
   fold (\<lambda>(x, y) t. t[unat (x :: i64) := y]) m t ! unat i = y"
proof (induction m arbitrary: t)
  case (Cons xz m)
  obtain x z where xz: "xz = (x, z)" by fastforce
  have keep: "fold (\<lambda>(x, y) t. t[unat (x :: i64) := y]) m' t' ! unat j = t' ! unat j" if "j \<notin> fst ` set m'" for m' t' j
    using that by (induction m' arbitrary: t') (auto intro!: nth_list_update_neq dest: unsigned_word_eqI)
  show ?case
  proof (cases "i = x")
    case True
    then have "i \<notin> fst ` set m" "y = z" "unat i < length t" using Cons.prems xz by auto
    then show ?thesis using keep[of i m "t[unat i := z]"] True xz by simp
  next
    case False
    then show ?thesis using Cons.IH[of "t[unat x := z]"] Cons.prems xz by auto
  qed
qed simp

lemma length_fold_table: "length (fold (\<lambda>(x, y) t. t[unat (x :: i64) := y]) m t) = length t"
  by (induction m arbitrary: t) auto

lemma strings_table:
  assumes "distinct (map fst m)" and "\<forall>(i, y) \<in> set m. unat i < 2 ^ 63" and "map_of m i = Some y"
  shows "rewrite_string (rw_strings (strings_addToRewriter m r)) i = Some y"
proof -
  define mx where "mx = fold (\<lambda>(i, _) mx. if sint i > sint mx then i else mx) m (0 :: i64)"
  have le: "\<forall>(i, y) \<in> set m. unat i < unat mx + 1" using fold_max_id[OF assms(2), of 0] by (auto simp: mx_def Let_def)
  then have "unat i < unat mx + 1" using map_of_SomeD[OF assms(3)] by auto
  then show ?thesis using fold_table_nth[OF assms(1) _ assms(3), of "replicate (unat mx + 1) 0"] le
    by (simp add: strings_addToRewriter_def rewrite_string_def length_fold_table flip: mx_def)
qed

lemma strings_stage:
  assumes inv: "ds_inv (\<lambda>s. s) s" and bound: "length (ds_slice s) + length (p_StringTable p) < 2 ^ 63"
  shows "\<exists>t tab. ingest True stringsHelper (p_StringTable p) s r = Some (t, r\<lparr>rw_strings := tab\<rparr>) \<and> ds_inv (\<lambda>s. s) t \<and> grows s t
    \<and> (\<forall>j. str_ok p j \<longrightarrow> (\<exists>i. rewrite_string tab j = Some i \<and> str_rel (ds_slice t) p i j))"
proof -
  let ?es = "p_StringTable p"
  have h: "hp_key stringsHelper = (\<lambda>s. s)" "\<And>r e. hp_rewrite stringsHelper r e = Some e" "hp_addToRewriter stringsHelper = strings_addToRewriter"
      "\<And>a b e. fst (hp_setID stringsHelper a b e) = a" by (simp_all add: stringsHelper_def)
  have un: "unat (of_nat pos :: i64) = pos" if "pos < length ?es" for pos using that bound by (intro unat_of_nat_64) simp
  have inj: "inj_on (of_nat :: nat \<Rightarrow> i64) {..<length ?es}" using bound by (intro of_nat_inj_on) simp
  obtain t m where t: "ingest True stringsHelper ?es s r = Some (t, strings_addToRewriter m r)" "ds_inv (\<lambda>s. s) t" "grows s t"
      "distinct (map fst m)" "fst ` set m \<subseteq> of_nat ` {..<length ?es}"
      and look: "\<forall>pos < length ?es. \<exists>p. map_of m (of_nat pos) = Some p \<and> unat p < length (ds_slice t) \<and> ds_slice t ! unat p = ?es ! pos"
    using strs.ingest_stage[of s ?es r of_nat] inv bound inj unfolding h by fastforce
  have small: "\<forall>(i, y) \<in> set m. unat i < 2 ^ 63" using t(5) un bound by fastforce
  have "\<exists>i. rewrite_string (rw_strings (strings_addToRewriter m r)) j = Some i \<and> str_rel (ds_slice t) p i j" if j: "str_ok p j" for j
  proof -
    have "of_nat (unat j) = j" by simp
    then obtain i where "map_of m j = Some i" "unat i < length (ds_slice t)" "ds_slice t ! unat i = ?es ! unat j" using look j by metis
    then show ?thesis using strings_table[OF t(4) small] j by (auto simp: str_rel_def at64_def)
  qed
  moreover have "strings_addToRewriter m r = r\<lparr>rw_strings := rw_strings (strings_addToRewriter m r)\<rparr>"
    by (simp add: strings_addToRewriter_def Let_def)
  ultimately show ?thesis using t(1-3) by metis
qed

subsection \<open>Mappings and functions\<close>

text \<open>The rewriter knows the strings of the profile.\<close>

definition strings_known :: "string list \<Rightarrow> pProfile \<Rightarrow> rewriter \<Rightarrow> bool" where
  "strings_known strs p r \<longleftrightarrow> (\<forall>j. str_ok p j \<longrightarrow> (\<exists>i. rewrite_string (rw_strings r) j = Some i \<and> str_rel strs p i j))"

lemma str_known: "strings_known strs p r \<Longrightarrow> str_ok p j \<Longrightarrow> \<exists>i. rewrite_string (rw_strings r) j = Some i \<and> str_rel strs p i j"
  by (simp add: strings_known_def)

lemma mappings_stage:
  assumes inv: "ds_inv mapping_key s" and bound: "length (ds_slice s) + length (p_Mapping p) < 2 ^ 63"
    and wf: "wf_pprof p" and str: "strings_known strs p r"
  shows "\<exists>t m. ingest True (mappingsHelper sz) (p_Mapping p) s r = Some (t, r\<lparr>rw_mappings := m\<rparr>) \<and> ds_inv mapping_key t \<and> grows s t
    \<and> (\<forall>j \<in> mg_Id ` set (p_Mapping p). \<exists>i. map_of m j = Some i \<and> map_rel strs (ds_slice t) p i j)"
proof -
  let ?es = "p_Mapping p" and ?h = "mappingsHelper sz"
  have h: "hp_key ?h = mapping_key" "hp_rewrite ?h = mapping_rewrite" "hp_addToRewriter ?h = (\<lambda>m r. r\<lparr>rw_mappings := m\<rparr>)"
      "\<And>a b e. fst (hp_setID ?h a b e) = mg_Id e" by (simp_all add: mappingsHelper_def)
  have rw: "\<exists>i j. mapping_rewrite r m = Some (m\<lparr>mg_Filename := i, mg_BuildId := j\<rparr>)
      \<and> str_rel strs p i (mg_Filename m) \<and> str_rel strs p j (mg_BuildId m)" if "m \<in> set ?es" for m
  proof -
    have "str_ok p (mg_Filename m)" "str_ok p (mg_BuildId m)" using wf that by (auto simp: wf_pprof_def)
    then show ?thesis using str_known[OF str] unfolding mapping_rewrite_def by (metis bind.bind_lunit)
  qed
  have ne: "\<forall>e \<in> set ?es. mapping_rewrite r e \<noteq> None" using rw by fastforce
  have ident: "mg_Id e' = mg_Id (?es ! pos)" if "pos < length ?es" "mapping_rewrite r (?es ! pos) = Some e'" for pos e'
    using rw[of "?es ! pos"] that by auto
  have inj: "inj_on (\<lambda>pos. mg_Id (?es ! pos)) {..<length ?es}" using wf by (intro inj_on_ids) (simp add: wf_pprof_def)
  obtain t m where t: "ingest True ?h ?es s r = Some (t, r\<lparr>rw_mappings := m\<rparr>)" "ds_inv mapping_key t" "grows s t"
      and look: "\<forall>pos < length ?es. \<exists>e' p. mapping_rewrite r (?es ! pos) = Some e' \<and> map_of m (mg_Id (?es ! pos)) = Some p
        \<and> unat p < length (ds_slice t) \<and> mapping_key (ds_slice t ! unat p) = mapping_key e'"
    using maps.ingest_stage[where ms = sz, unfolded h, OF inv bound ne ident inj] by blast
  have "\<exists>i. map_of m j = Some i \<and> map_rel strs (ds_slice t) p i j" if j: "j \<in> mg_Id ` set ?es" for j
  proof -
    obtain pos where pos: "pos < length ?es" "j = mg_Id (?es ! pos)" using j by (auto simp: in_set_conv_nth)
    obtain e' i where "mapping_rewrite r (?es ! pos) = Some e'" "map_of m j = Some i" "unat i < length (ds_slice t)"
        "mapping_key (ds_slice t ! unat i) = mapping_key e'" using look pos by metis
    then show ?thesis using rw[OF nth_mem[OF pos(1)]] pos
      by (auto simp: map_rel_def at64_def mapping_key_def intro!: exI[of _ "?es ! pos"])
  qed
  then show ?thesis using t by blast
qed

lemma functions_stage:
  assumes inv: "ds_inv function_key s" and bound: "length (ds_slice s) + length (p_Function p) < 2 ^ 63"
    and wf: "wf_pprof p" and str: "strings_known strs p r"
  shows "\<exists>t m. ingest True (functionsHelper sz) (p_Function p) s r = Some (t, r\<lparr>rw_functions := m\<rparr>) \<and> ds_inv function_key t \<and> grows s t
    \<and> (\<forall>j \<in> fn_Id ` set (p_Function p). \<exists>i. map_of m j = Some i \<and> fn_rel strs (ds_slice t) p i j)"
proof -
  let ?es = "p_Function p" and ?h = "functionsHelper sz"
  have h: "hp_key ?h = function_key" "hp_rewrite ?h = function_rewrite" "hp_addToRewriter ?h = (\<lambda>m r. r\<lparr>rw_functions := m\<rparr>)"
      "\<And>a b e. fst (hp_setID ?h a b e) = fn_Id e" by (simp_all add: functionsHelper_def)
  let ?S = "str_rel strs p"
  have rw: "\<exists>i j k. function_rewrite r f = Some (f\<lparr>fn_Filename := i, fn_Name := j, fn_SystemName := k\<rparr>)
      \<and> ?S i (fn_Filename f) \<and> ?S j (fn_Name f) \<and> ?S k (fn_SystemName f)" if "f \<in> set ?es" for f
  proof -
    have "str_ok p (fn_Filename f)" "str_ok p (fn_Name f)" "str_ok p (fn_SystemName f)" using wf that by (auto simp: wf_pprof_def)
    then show ?thesis using str_known[OF str] unfolding function_rewrite_def by (metis bind.bind_lunit)
  qed
  have ne: "\<forall>e \<in> set ?es. function_rewrite r e \<noteq> None" using rw by fastforce
  have ident: "fn_Id e' = fn_Id (?es ! pos)" if "pos < length ?es" "function_rewrite r (?es ! pos) = Some e'" for pos e'
    using rw[of "?es ! pos"] that by auto
  have inj: "inj_on (\<lambda>pos. fn_Id (?es ! pos)) {..<length ?es}" using wf by (intro inj_on_ids) (simp add: wf_pprof_def)
  obtain t m where t: "ingest True ?h ?es s r = Some (t, r\<lparr>rw_functions := m\<rparr>)" "ds_inv function_key t" "grows s t"
      and look: "\<forall>pos < length ?es. \<exists>e' p. function_rewrite r (?es ! pos) = Some e' \<and> map_of m (fn_Id (?es ! pos)) = Some p
        \<and> unat p < length (ds_slice t) \<and> function_key (ds_slice t ! unat p) = function_key e'"
    using fns.ingest_stage[where fs = sz, unfolded h, OF inv bound ne ident inj] by blast
  have "\<exists>i. map_of m j = Some i \<and> fn_rel strs (ds_slice t) p i j" if j: "j \<in> fn_Id ` set ?es" for j
  proof -
    obtain pos where pos: "pos < length ?es" "j = fn_Id (?es ! pos)" using j by (auto simp: in_set_conv_nth)
    obtain e' i where "function_rewrite r (?es ! pos) = Some e'" "map_of m j = Some i" "unat i < length (ds_slice t)"
        "function_key (ds_slice t ! unat i) = function_key e'" using look pos by metis
    then show ?thesis using rw[OF nth_mem[OF pos(1)]] pos
      by (auto simp: fn_rel_def at64_def function_key_def intro!: exI[of _ "?es ! pos"])
  qed
  then show ?thesis using t by blast
qed

subsection \<open>Locations and stack traces\<close>

lemma rewrite_lines_ok:
  "\<forall>l \<in> set ls. \<exists>i. map_of t (ln_FunctionId l) = Some i \<and> R i (ln_FunctionId l) \<Longrightarrow>
   \<exists>ls'. rewrite_lines t ls = Some ls' \<and> list_all2 (\<lambda>g l. ln_Line g = ln_Line l \<and> R (ln_FunctionId g) (ln_FunctionId l)) ls' ls"
  by (induction ls) (auto simp: rewriteUint64_def)

lemma rewrite_ids_ok:
  "\<forall>j \<in> set js. \<exists>i. map_of t j = Some i \<and> R i j \<Longrightarrow> \<exists>is'. rewrite_ids t js = Some is' \<and> list_all2 R is' js"
  by (induction js) (auto simp: rewriteUint64_def)

lemma inj_onE: "inj_on f A \<Longrightarrow> f x = f y \<Longrightarrow> x \<in> A \<Longrightarrow> y \<in> A \<Longrightarrow> x = y"
  by (auto dest: inj_onD)

lemma locations_stage:
  assumes inv: "ds_inv (location_key H) s" and bound: "length (ds_slice s) + length (p_Location p) < 2 ^ 63"
    and wf: "wf_pprof p" and mps: "\<forall>j \<in> mg_Id ` set (p_Mapping p). \<exists>i. map_of (rw_mappings r) j = Some i \<and> map_rel strs mgs p i j"
    and funs: "\<forall>j \<in> fn_Id ` set (p_Function p). \<exists>i. map_of (rw_functions r) j = Some i \<and> fn_rel strs fs p i j"
  shows "\<exists>t m. ingest True (locationsHelper H lsz sz) (p_Location p) s r = Some (t, r\<lparr>rw_locations := m\<rparr>)
    \<and> ds_inv (location_key H) t \<and> grows s t
    \<and> (\<forall>j \<in> loc_Id ` set (p_Location p). \<exists>i. map_of m j = Some i \<and> (inj_on H (hashed_lines (ds_slice t) r p) \<longrightarrow> loc_rel strs mgs fs (ds_slice t) p i j))"
proof -
  let ?es = "p_Location p" and ?h = "locationsHelper H lsz sz"
  have h: "hp_key ?h = location_key H" "hp_rewrite ?h = location_rewrite" "hp_addToRewriter ?h = (\<lambda>m r. r\<lparr>rw_locations := m\<rparr>)"
      "\<And>a b e. fst (hp_setID ?h a b e) = loc_Id e" by (simp_all add: locationsHelper_def)
  have rw: "\<exists>i ls. location_rewrite r l = Some (l\<lparr>loc_MappingId := i, loc_Line := ls\<rparr>)
      \<and> (loc_MappingId l \<noteq> 0 \<longrightarrow> map_rel strs mgs p i (loc_MappingId l)) \<and> list_all2 (line_rel strs fs p) ls (loc_Line l)" if "l \<in> set ?es" for l
  proof -
    have ids: "loc_MappingId l \<noteq> 0 \<longrightarrow> loc_MappingId l \<in> mg_Id ` set (p_Mapping p)" "ln_FunctionId ` set (loc_Line l) \<subseteq> fn_Id ` set (p_Function p)"
      using wf that by (auto simp: wf_pprof_def)
    obtain i where i: "(if loc_MappingId l \<noteq> 0 then rewriteUint64 (rw_mappings r) (loc_MappingId l) else Some (loc_MappingId l)) = Some i"
        "loc_MappingId l \<noteq> 0 \<longrightarrow> map_rel strs mgs p i (loc_MappingId l)"
      using ids(1) mps by (cases "loc_MappingId l = 0") (auto simp: rewriteUint64_def)
    obtain ls where ls: "rewrite_lines (rw_functions r) (loc_Line l) = Some ls" "list_all2 (line_rel strs fs p) ls (loc_Line l)"
      using rewrite_lines_ok[of "loc_Line l" "rw_functions r" "fn_rel strs fs p"] ids(2) funs unfolding line_rel_def by (meson image_subset_iff)
    have "location_rewrite r l = Some (l\<lparr>loc_MappingId := i, loc_Line := ls\<rparr>)" unfolding location_rewrite_def i(1) ls(1) by simp
    then show ?thesis using i(2) ls(2) by blast
  qed
  have ne: "\<forall>e \<in> set ?es. location_rewrite r e \<noteq> None" using rw by fastforce
  have ident: "loc_Id e' = loc_Id (?es ! pos)" if "pos < length ?es" "location_rewrite r (?es ! pos) = Some e'" for pos e'
    using rw[of "?es ! pos"] that by auto
  have inj: "inj_on (\<lambda>pos. loc_Id (?es ! pos)) {..<length ?es}" using wf by (intro inj_on_ids) (simp add: wf_pprof_def)
  obtain t m where t: "ingest True ?h ?es s r = Some (t, r\<lparr>rw_locations := m\<rparr>)" "ds_inv (location_key H) t" "grows s t"
      and look: "\<forall>pos < length ?es. \<exists>e' p. location_rewrite r (?es ! pos) = Some e' \<and> map_of m (loc_Id (?es ! pos)) = Some p
        \<and> unat p < length (ds_slice t) \<and> location_key H (ds_slice t ! unat p) = location_key H e'"
    using locs.ingest_stage[where H = H and ls = lsz and sz = sz, unfolded h, OF inv bound ne ident inj] by blast
  have "\<exists>i. map_of m j = Some i \<and> (inj_on H (hashed_lines (ds_slice t) r p) \<longrightarrow> loc_rel strs mgs fs (ds_slice t) p i j)" if j: "j \<in> loc_Id ` set ?es" for j
  proof -
    obtain pos where pos: "pos < length ?es" "j = loc_Id (?es ! pos)" using j by (auto simp: in_set_conv_nth)
    obtain e' i where e': "location_rewrite r (?es ! pos) = Some e'" "map_of m j = Some i" "unat i < length (ds_slice t)"
        "location_key H (ds_slice t ! unat i) = location_key H e'" using look pos by metis
    have lines: "loc_Line (ds_slice t ! unat i) = loc_Line e'" if "inj_on H (hashed_lines (ds_slice t) r p)"
      using inj_onE[OF that, of "lines_bytes (loc_Line (ds_slice t ! unat i))" "lines_bytes (loc_Line e')"] e' nth_mem[OF pos(1)]
      by (auto simp: hashed_lines_def location_key_def intro: lines_bytes_inj)
    then show ?thesis using rw[OF nth_mem[OF pos(1)]] pos e'
      by (auto simp: loc_rel_def at64_def location_key_def intro!: exI[of _ "?es ! pos"])
  qed
  then show ?thesis using t by blast
qed

lemma stacktraces_stage:
  assumes inv: "ds_inv (stacktrace_key H) s" and bound: "length (ds_slice s) + length (p_Sample p) < 2 ^ 63"
    and wf: "wf_pprof p" and lcs: "\<forall>j \<in> loc_Id ` set (p_Location p). \<exists>i. map_of (rw_locations r) j = Some i \<and> (A \<longrightarrow> R i j)"
  shows "\<exists>t r'. ingest_stacktraces H sz p s r = Some (t, r') \<and> rw_strings r' = rw_strings r \<and> rw_mappings r' = rw_mappings r \<and> rw_functions r' = rw_functions r
    \<and> rw_locations r' = rw_locations r \<and> ds_inv (stacktrace_key H) t \<and> grows s t
    \<and> (\<forall>pos < length (p_Sample p). \<exists>i. map_of (rw_stacktraces r') (of_nat pos) = Some i \<and> (\<exists>st. at64 (ds_slice t) i = Some st
         \<and> (A \<longrightarrow> inj_on H (hashed_ids (ds_slice t) r p) \<longrightarrow> list_all2 R (sk_LocationIDs st) (sa_LocationId (p_Sample p ! pos)))))"
proof (cases "p_Sample p = []")
  case False
  let ?es = "sample_stacks p" and ?h = "stacktracesHelper H (stacktraceSize sz)"
  have h: "hp_key ?h = stacktrace_key H" "hp_rewrite ?h = stacktrace_rewrite" "hp_addToRewriter ?h = (\<lambda>m r. r\<lparr>rw_stacktraces := m\<rparr>)"
      "\<And>a b e. fst (hp_setID ?h a b e) = a" by (simp_all add: stacktracesHelper_def)
  have len: "length ?es = length (p_Sample p)" and nth: "\<And>pos. pos < length ?es \<Longrightarrow> ?es ! pos = \<lparr>sk_LocationIDs = sa_LocationId (p_Sample p ! pos)\<rparr>"
    by (auto simp: sample_stacks_def)
  have rw: "\<exists>is'. stacktrace_rewrite r (?es ! pos) = Some \<lparr>sk_LocationIDs = is'\<rparr>
      \<and> (A \<longrightarrow> list_all2 R is' (sa_LocationId (p_Sample p ! pos)))" if "pos < length ?es" for pos
  proof -
    have "set (sa_LocationId (p_Sample p ! pos)) \<subseteq> loc_Id ` set (p_Location p)"
      using wf that nth_mem[of pos "p_Sample p"] unfolding wf_pprof_def len by blast
    then have "\<forall>j \<in> set (sa_LocationId (p_Sample p ! pos)). \<exists>i. map_of (rw_locations r) j = Some i \<and> (A \<longrightarrow> R i j)" using lcs by blast
    from rewrite_ids_ok[OF this] obtain is' where "rewrite_ids (rw_locations r) (sa_LocationId (p_Sample p ! pos)) = Some is'"
        "list_all2 (\<lambda>i j. A \<longrightarrow> R i j) is' (sa_LocationId (p_Sample p ! pos))" by blast
    then show ?thesis using nth[OF that] by (cases A) (auto simp: stacktrace_rewrite_def)
  qed
  have ne: "\<forall>e \<in> set ?es. stacktrace_rewrite r e \<noteq> None" using rw by (fastforce simp: in_set_conv_nth)
  have inj: "inj_on (of_nat :: nat \<Rightarrow> u64) {..<length ?es}"
    using of_nat_inj_on[of "length ?es"] bound len by simp
  obtain t m where t: "ingest True ?h ?es s r = Some (t, r\<lparr>rw_stacktraces := m\<rparr>)" "ds_inv (stacktrace_key H) t" "grows s t"
      and look: "\<forall>pos < length ?es. \<exists>e' p. stacktrace_rewrite r (?es ! pos) = Some e' \<and> map_of m (of_nat pos) = Some p
        \<and> unat p < length (ds_slice t) \<and> stacktrace_key H (ds_slice t ! unat p) = stacktrace_key H e'"
    using stks.ingest_stage[where H = H and sz = "stacktraceSize sz", unfolded h, OF inv bound[folded len] ne refl inj] by blast
  have "\<exists>i. map_of m (of_nat pos) = Some i \<and> (\<exists>st. at64 (ds_slice t) i = Some st
         \<and> (A \<longrightarrow> inj_on H (hashed_ids (ds_slice t) r p) \<longrightarrow> list_all2 R (sk_LocationIDs st) (sa_LocationId (p_Sample p ! pos))))"
    if pos: "pos < length (p_Sample p)" for pos
  proof -
    have pos': "pos < length ?es" using pos len by simp
    obtain e' i where e': "stacktrace_rewrite r (?es ! pos) = Some e'" "map_of m (of_nat pos) = Some i" "unat i < length (ds_slice t)"
        "stacktrace_key H (ds_slice t ! unat i) = stacktrace_key H e'" using look pos' by metis
    have "sk_LocationIDs (ds_slice t ! unat i) = sk_LocationIDs e'" if "inj_on H (hashed_ids (ds_slice t) r p)"
      using inj_onE[OF that, of "ids_bytes (sk_LocationIDs (ds_slice t ! unat i))" "ids_bytes (sk_LocationIDs e')"] e' nth_mem[OF pos']
      by (auto simp: hashed_ids_def stacktrace_key_def intro: ids_bytes_inj)
    then show ?thesis using rw[OF pos'] e' by (auto simp: at64_def)
  qed
  then show ?thesis using t False by (auto simp: ingest_stacktraces_def)
qed (use inv in \<open>simp add: ingest_stacktraces_def\<close>)

subsection \<open>All tables\<close>

lemma ingest_tables_resolves:
  assumes "tables_inv H T" and "wf_pprof p" and "room p T"
  shows "\<exists>T' r. ingest_tables H sz p T = Some (T', r) \<and> tables_inv H T' \<and> tables_grow T T'
    \<and> strings_known (ds_slice (ht_strings T')) p r
    \<and> (\<forall>pos < length (p_Sample p). \<exists>i st. map_of (rw_stacktraces r) (of_nat pos) = Some i \<and> at64 (ds_slice (ht_stacktraces T')) i = Some st
        \<and> (inj_on H (hashed_lines (ds_slice (ht_locations T')) r p) \<longrightarrow> inj_on H (hashed_ids (ds_slice (ht_stacktraces T')) r p)
            \<longrightarrow> stack_rel T' p st (sa_LocationId (p_Sample p ! pos))))"
proof -
  have inv: "ds_inv (\<lambda>s. s) (ht_strings T)" "ds_inv mapping_key (ht_mappings T)" "ds_inv function_key (ht_functions T)"
      "ds_inv (location_key H) (ht_locations T)" "ds_inv (stacktrace_key H) (ht_stacktraces T)" using assms(1) by (simp_all add: tables_inv_def)
  have len: "length (ds_slice (ht_strings T)) + length (p_StringTable p) < 2 ^ 63" "length (ds_slice (ht_mappings T)) + length (p_Mapping p) < 2 ^ 63"
      "length (ds_slice (ht_functions T)) + length (p_Function p) < 2 ^ 63" "length (ds_slice (ht_locations T)) + length (p_Location p) < 2 ^ 63"
      "length (ds_slice (ht_stacktraces T)) + length (p_Sample p) < 2 ^ 63" using assms(3) unfolding room_def by blast+
  note wf = assms(2)
  obtain strs tab where 1: "ingest True stringsHelper (p_StringTable p) (ht_strings T) empty_rewriter = Some (strs, empty_rewriter\<lparr>rw_strings := tab\<rparr>)"
      "ds_inv (\<lambda>s. s) strs" "grows (ht_strings T) strs"
      "\<forall>j. str_ok p j \<longrightarrow> (\<exists>i. rewrite_string tab j = Some i \<and> str_rel (ds_slice strs) p i j)"
    using strings_stage[OF inv(1) len(1)] by blast
  define r1 where "r1 = empty_rewriter\<lparr>rw_strings := tab\<rparr>"
  have k1: "strings_known (ds_slice strs) p r1" using 1(4) by (simp add: strings_known_def r1_def)
  obtain mps m where 2: "ingest True (mappingsHelper (mappingSize sz)) (p_Mapping p) (ht_mappings T) r1 = Some (mps, r1\<lparr>rw_mappings := m\<rparr>)"
      "ds_inv mapping_key mps" "grows (ht_mappings T) mps"
      "\<forall>j \<in> mg_Id ` set (p_Mapping p). \<exists>i. map_of m j = Some i \<and> map_rel (ds_slice strs) (ds_slice mps) p i j"
    using mappings_stage[OF inv(2) len(2) wf k1] by blast
  define r2 where "r2 = r1\<lparr>rw_mappings := m\<rparr>"
  have k2: "strings_known (ds_slice strs) p r2" using k1 by (simp add: strings_known_def r2_def)
  obtain fs n where 3: "ingest True (functionsHelper (functionSize sz)) (p_Function p) (ht_functions T) r2 = Some (fs, r2\<lparr>rw_functions := n\<rparr>)"
      "ds_inv function_key fs" "grows (ht_functions T) fs"
      "\<forall>j \<in> fn_Id ` set (p_Function p). \<exists>i. map_of n j = Some i \<and> fn_rel (ds_slice strs) (ds_slice fs) p i j"
    using functions_stage[OF inv(3) len(3) wf k2] by blast
  define r3 where "r3 = r2\<lparr>rw_functions := n\<rparr>"
  have r3: "rw_mappings r3 = m" "rw_functions r3 = n" by (simp_all add: r3_def r2_def)
  obtain lcs q where 4: "ingest True (locationsHelper H (lineSize sz) (locationSize sz)) (p_Location p) (ht_locations T) r3 = Some (lcs, r3\<lparr>rw_locations := q\<rparr>)"
      "ds_inv (location_key H) lcs" "grows (ht_locations T) lcs"
      "\<forall>j \<in> loc_Id ` set (p_Location p). \<exists>i. map_of q j = Some i
         \<and> (inj_on H (hashed_lines (ds_slice lcs) r3 p) \<longrightarrow> loc_rel (ds_slice strs) (ds_slice mps) (ds_slice fs) (ds_slice lcs) p i j)"
    using locations_stage[OF inv(4) len(4) wf 2(4)[folded r3(1)] 3(4)[folded r3(2)]] by blast
  define r4 where "r4 = r3\<lparr>rw_locations := q\<rparr>"
  have r4: "rw_locations r4 = q" by (simp add: r4_def)
  obtain sts r where 5: "ingest_stacktraces H sz p (ht_stacktraces T) r4 = Some (sts, r)" "rw_strings r = rw_strings r4" "rw_mappings r = rw_mappings r4" "rw_functions r = rw_functions r4"
      "rw_locations r = rw_locations r4" "ds_inv (stacktrace_key H) sts" "grows (ht_stacktraces T) sts"
      "\<forall>pos < length (p_Sample p). \<exists>i. map_of (rw_stacktraces r) (of_nat pos) = Some i \<and> (\<exists>st. at64 (ds_slice sts) i = Some st
         \<and> (inj_on H (hashed_lines (ds_slice lcs) r3 p) \<longrightarrow> inj_on H (hashed_ids (ds_slice sts) r4 p)
            \<longrightarrow> list_all2 (loc_rel (ds_slice strs) (ds_slice mps) (ds_slice fs) (ds_slice lcs) p) (sk_LocationIDs st) (sa_LocationId (p_Sample p ! pos))))"
    using stacktraces_stage[OF inv(5) len(5) wf 4(4)[folded r4]] by blast
  have "hashed_lines ls r p = hashed_lines ls r3 p" "hashed_ids ss r p = hashed_ids ss r4 p" for ls ss
    using 5(2-5) by (simp_all add: hashed_lines_def hashed_ids_def location_rewrite_def stacktrace_rewrite_def r4_def)
  moreover have "ingest_tables H sz p T =
      Some (\<lparr>ht_strings = strs, ht_mappings = mps, ht_functions = fs, ht_locations = lcs, ht_stacktraces = sts\<rparr>, r)"
    using 1(1) 2(1) 3(1) 4(1) 5(1) by (simp add: ingest_tables_def flip: r1_def r2_def r3_def r4_def)
  moreover have known: "strings_known (ds_slice strs) p r" using k2 5(2) by (simp add: strings_known_def r4_def r3_def)
  ultimately show ?thesis using 1(2,3) 2(2,3) 3(2,3) 4(2,3) 5(6-8) known
    by (simp add: tables_inv_def tables_grow_def stack_rel_def)
qed

subsection \<open>Properties\<close>

text \<open>
  C16. Ingesting a well-formed profile ends without a panic, keeps the invariant of the five tables
  and only extends them, so that what was ingested before stays where it is. Every sample gets the
  position of a stored stack trace, and, unless the hash collides on the byte strings that are
  compared, that stack trace reads back as the sample's one: the same addresses, the same lines,
  and functions and mappings with the same names.
\<close>

theorem Ingest_resolves:
  assumes "tables_inv H T" and "wf_pprof p" and "room p T"
  shows "\<exists>T' r. ingest_tables H sz p T = Some (T', r) \<and> tables_inv H T' \<and> tables_grow T T'
    \<and> (\<forall>pos < length (p_Sample p). \<exists>i st. map_of (rw_stacktraces r) (of_nat pos) = Some i \<and> at64 (ds_slice (ht_stacktraces T')) i = Some st
        \<and> (inj_on H (hashed_lines (ds_slice (ht_locations T')) r p) \<longrightarrow> inj_on H (hashed_ids (ds_slice (ht_stacktraces T')) r p)
            \<longrightarrow> stack_rel T' p st (sa_LocationId (p_Sample p ! pos))))"
  using ingest_tables_resolves[OF assms] by blast

definition demo_hash :: "u8 list \<Rightarrow> u64" where
  "demo_hash bs = fold (\<lambda>b h. h * 31 + ucast b) bs 7"

definition demo_sizes :: struct_sizes where
  "demo_sizes = \<lparr>functionSize = 40, mappingSize = 56, lineSize = 16, locationSize = 48, stacktraceSize = 24\<rparr>"

definition demo_profile :: pProfile where
  "demo_profile =
     \<lparr>p_SampleType = [], p_Sample = [\<lparr>sa_LocationId = [7, 7], sa_Value = [3], sa_Label = []\<rparr>],
      p_Mapping = [\<lparr>mg_Id = 1, mg_MemoryStart = 0, mg_MemoryLimit = 4096, mg_FileOffset = 0, mg_Filename = 2, mg_BuildId = 0,
                    mg_HasFunctions = True, mg_HasFilenames = True, mg_HasLineNumbers = True, mg_HasInlineFrames = False\<rparr>],
      p_Location = [\<lparr>loc_Id = 7, loc_MappingId = 1, loc_Address = 64, loc_Line = [\<lparr>ln_FunctionId = 5, ln_Line = 12\<rparr>], loc_IsFolded = False\<rparr>],
      p_Function = [\<lparr>fn_Id = 5, fn_Name = 1, fn_SystemName = 1, fn_Filename = 2, fn_StartLine = 10\<rparr>],
      p_StringTable = ['''', ''main'', ''main.go''], p_DropFrames = 0, p_KeepFrames = 0, p_TimeNanos = 0, p_DurationNanos = 0,
      p_PeriodType = None, p_Comment = [], p_DefaultSampleType = 0\<rparr>"

theorem Ingest_resolves_witness:
  "tables_inv demo_hash new_tables \<and> wf_pprof demo_profile \<and> room demo_profile new_tables
   \<and> (\<exists>T' r st. ingest_tables demo_hash demo_sizes demo_profile new_tables = Some (T', r)
        \<and> at64 (ds_slice (ht_stacktraces T')) 0 = Some st \<and> stack_rel T' demo_profile st [7, 7])"
proof -
  have inv: "tables_inv demo_hash new_tables" by (simp add: tables_inv_def new_tables_def ds_inv_def ds_init_def)
  have wf: "wf_pprof demo_profile" by (simp add: wf_pprof_def demo_profile_def)
  have room: "room demo_profile new_tables" by (simp add: room_def demo_profile_def new_tables_def ds_init_def)
  obtain T' r where T: "ingest_tables demo_hash demo_sizes demo_profile new_tables = Some (T', r)"
    and look: "\<exists>i st. map_of (rw_stacktraces r) 0 = Some i \<and> at64 (ds_slice (ht_stacktraces T')) i = Some st
        \<and> (inj_on demo_hash (hashed_lines (ds_slice (ht_locations T')) r demo_profile) \<longrightarrow>
            inj_on demo_hash (hashed_ids (ds_slice (ht_stacktraces T')) r demo_profile) \<longrightarrow> stack_rel T' demo_profile st [7, 7])"
    using Ingest_resolves[OF inv wf room, of demo_sizes] by (auto simp: demo_profile_def)
  have run: "map_option (\<lambda>(T, r). (r, ds_slice (ht_locations T), ds_slice (ht_stacktraces T)))
      (ingest_tables demo_hash demo_sizes demo_profile new_tables) =
      Some (\<lparr>rw_strings = [0, 1, 2], rw_functions = [(5, 0)], rw_mappings = [(1, 0)], rw_locations = [(7, 0)], rw_stacktraces = [(0, 0)]\<rparr>,
        [\<lparr>loc_Id = 0, loc_MappingId = 0, loc_Address = 64, loc_Line = [\<lparr>ln_FunctionId = 0, ln_Line = 12\<rparr>], loc_IsFolded = False\<rparr>],
        [\<lparr>sk_LocationIDs = [0, 0]\<rparr>])"
    by code_simp
  have ev: "rw_stacktraces r = [(0, 0)]"
     "hashed_lines (ds_slice (ht_locations T')) r demo_profile = {lines_bytes [\<lparr>ln_FunctionId = 0, ln_Line = 12\<rparr>]}"
     "hashed_ids (ds_slice (ht_stacktraces T')) r demo_profile = {ids_bytes [0, 0]}"
    using run unfolding T by (auto simp: hashed_lines_def hashed_ids_def demo_profile_def sample_stacks_def location_rewrite_def
      stacktrace_rewrite_def rewriteUint64_def)
  then show ?thesis using inv wf room T look by auto
qed

end
