(* ===== verification/Head_Labels.thy ===== *)
theory Head_Labels
  imports Head_Symbols
begin

section \<open>The labels of a profile (pkg/phlaredb/head.go, labelsForProfile)\<close>

text \<open>
  A profile holds one value per sample type and sample; every sample type becomes a series of its
  own. Its labels are the external labels of the push request and the names of the types and
  units, which are strings of the profile. The hash of the labels is the parameter \<open>H\<close>.
\<close>

subsection \<open>The code\<close>

text \<open>The label sets and fingerprints, one per sample type; the builder is used for all of them.\<close>

fun type_labels :: "(string \<Rightarrow> u64) \<Rightarrow> pProfile \<Rightarrow> string \<Rightarrow> string \<Rightarrow> string \<Rightarrow> LabelsBuilder \<Rightarrow> ValueType list
    \<Rightarrow> (labels \<times> u64) list option" where
  "type_labels H p metricName periodType periodUnit b [] = Some []"
| "type_labels H p metricName periodType periodUnit b (vt # vts) = do {
     sampleType \<leftarrow> at64 (p_StringTable p) (vt_Type vt);
     b \<leftarrow> LabelsBuilder_Set b LabelNameType sampleType;
     sampleUnit \<leftarrow> at64 (p_StringTable p) (vt_Unit vt);
     b \<leftarrow> LabelsBuilder_Set b LabelNameUnit sampleUnit;
     let t = metricName @ '':'' @ sampleType @ '':'' @ sampleUnit @ '':'' @ periodType @ '':'' @ periodUnit;
     b \<leftarrow> LabelsBuilder_Set b LabelNameProfileType t;
     let lbs = Labels_Clone (LabelsBuilder_Labels b);
     res \<leftarrow> type_labels H p metricName periodType periodUnit b vts;
     Some ((lbs, Labels_Hash H lbs) # res) }"

definition labelsForProfile :: "(string \<Rightarrow> u64) \<Rightarrow> pProfile \<Rightarrow> labels \<Rightarrow> (labels \<times> u64) list option" where
  "labelsForProfile H p externalLabels = do {
     let b = NewLabelsBuilder externalLabels;
     let metricName = Labels_Get externalLabels Labels.MetricName;
     (b, periodType, periodUnit) \<leftarrow>
       (case p_PeriodType p of
          None \<Rightarrow> Some (b, [], [])
        | Some vt \<Rightarrow> do {
            periodType \<leftarrow> at64 (p_StringTable p) (vt_Type vt);
            b \<leftarrow> LabelsBuilder_Set b LabelNamePeriodType periodType;
            periodUnit \<leftarrow> at64 (p_StringTable p) (vt_Unit vt);
            b \<leftarrow> LabelsBuilder_Set b LabelNamePeriodUnit periodUnit;
            Some (b, periodType, periodUnit) });
     type_labels H p metricName periodType periodUnit b (p_SampleType p) }"

subsection \<open>What the labels are\<close>

lemma Labels_Clone_id [simp]: "Labels_Clone ls = ls"
  by (simp add: Labels_Clone_def map_idI)

lemma builder_labels_good:
  assumes "builder_inv b"
  shows "distinct (map lp_Name (LabelsBuilder_Labels b)) \<and> (\<forall>l \<in> set (LabelsBuilder_Labels b). lp_Value l \<noteq> [])"
  using assms by (auto simp: LabelsBuilder_Labels_def builder_inv_def distinct_map_filter)

text \<open>The labels and the fingerprint for a sample type: \<open>g\<close> are the external labels and the period.\<close>

definition labels_right :: "(string \<Rightarrow> u64) \<Rightarrow> pProfile \<Rightarrow> (string \<Rightarrow> string) \<Rightarrow> string \<Rightarrow> string \<times> string \<Rightarrow> ValueType \<Rightarrow> labels \<times> u64 \<Rightarrow> bool" where
  "labels_right H p g metric period vt lf \<longleftrightarrow>
     (let lbs = fst lf; ty = p_StringTable p ! unat (vt_Type vt); un = p_StringTable p ! unat (vt_Unit vt);
          t = metric @ '':'' @ ty @ '':'' @ un @ '':'' @ fst period @ '':'' @ snd period
      in snd lf = Labels_Hash H lbs \<and> distinct (map lp_Name lbs) \<and> (\<forall>l \<in> set lbs. lp_Value l \<noteq> [])
         \<and> Labels_Get lbs = g(LabelNameType := ty, LabelNameUnit := un, LabelNameProfileType := t))"

lemma type_labels_ok:
  assumes "builder_inv b" and "\<forall>n. n \<notin> {LabelNameType, LabelNameUnit, LabelNameProfileType} \<longrightarrow> builder_get b n = g n"
    and "\<forall>vt \<in> set vts. str_ok p (vt_Type vt) \<and> str_ok p (vt_Unit vt)"
  shows "\<exists>res. type_labels H p m pt pu b vts = Some res \<and> list_all2 (labels_right H p g m (pt, pu)) vts res"
  using assms
proof (induction vts arbitrary: b)
  case (Cons vt vts)
  let ?ty = "p_StringTable p ! unat (vt_Type vt)" and ?un = "p_StringTable p ! unat (vt_Unit vt)"
  let ?t = "m @ '':'' @ ?ty @ '':'' @ ?un @ '':'' @ pt @ '':'' @ pu"
  have s: "at64 (p_StringTable p) (vt_Type vt) = Some ?ty" "at64 (p_StringTable p) (vt_Unit vt) = Some ?un" using Cons.prems(3) by (auto simp: at64_def)
  obtain b1 where b1: "LabelsBuilder_Set b LabelNameType ?ty = Some b1" "builder_inv b1" "builder_get b1 = (builder_get b)(LabelNameType := ?ty)"
    using LabelsBuilder_Set_get[OF Cons.prems(1)] by blast
  obtain b2 where b2: "LabelsBuilder_Set b1 LabelNameUnit ?un = Some b2" "builder_inv b2" "builder_get b2 = (builder_get b1)(LabelNameUnit := ?un)"
    using LabelsBuilder_Set_get[OF b1(2)] by blast
  obtain b3 where b3: "LabelsBuilder_Set b2 LabelNameProfileType ?t = Some b3" "builder_inv b3" "builder_get b3 = (builder_get b2)(LabelNameProfileType := ?t)"
    using LabelsBuilder_Set_get[OF b2(2)] by blast
  let ?g = "g(LabelNameType := ?ty, LabelNameUnit := ?un, LabelNameProfileType := ?t)"
  have g: "builder_get b3 n = ?g n" for n using b1(3) b2(3) b3(3) Cons.prems(2) by simp
  then have "\<forall>n. n \<notin> {LabelNameType, LabelNameUnit, LabelNameProfileType} \<longrightarrow> builder_get b3 n = g n" by simp
  from Cons.IH[OF b3(2) this] Cons.prems(3) obtain res where res: "type_labels H p m pt pu b3 vts = Some res" "list_all2 (labels_right H p g m (pt, pu)) vts res"
    by auto
  have "Labels_Get (LabelsBuilder_Labels b3) = ?g" using LabelsBuilder_Labels_get[OF b3(2)] g by (simp add: fun_eq_iff)
  then have "labels_right H p g m (pt, pu) vt (LabelsBuilder_Labels b3, Labels_Hash H (LabelsBuilder_Labels b3))"
    using builder_labels_good[OF b3(2)] by (simp add: labels_right_def)
  then show ?case using s b1(1) b2(1) b3(1) res by (simp add: Let_def)
qed simp

text \<open>The names of the type and unit of the period, empty without a period.\<close>

definition period_names :: "pProfile \<Rightarrow> string \<times> string" where
  "period_names p = (case p_PeriodType p of None \<Rightarrow> ([], [])
     | Some vt \<Rightarrow> (p_StringTable p ! unat (vt_Type vt), p_StringTable p ! unat (vt_Unit vt)))"

definition base_labels :: "pProfile \<Rightarrow> labels \<Rightarrow> string \<Rightarrow> string" where
  "base_labels p ext = (case p_PeriodType p of None \<Rightarrow> Labels_Get ext
     | Some vt \<Rightarrow> (Labels_Get ext)(LabelNamePeriodType := fst (period_names p), LabelNamePeriodUnit := snd (period_names p)))"

definition types_ok :: "pProfile \<Rightarrow> bool" where
  "types_ok p \<longleftrightarrow> (\<forall>vt \<in> set (p_SampleType p) \<union> set_option (p_PeriodType p). str_ok p (vt_Type vt) \<and> str_ok p (vt_Unit vt))"

definition labels_for :: "(string \<Rightarrow> u64) \<Rightarrow> pProfile \<Rightarrow> labels \<Rightarrow> ValueType \<Rightarrow> labels \<times> u64 \<Rightarrow> bool" where
  "labels_for H p ext = labels_right H p (base_labels p ext) (Labels_Get ext Labels.MetricName) (period_names p)"

lemma labelsForProfile_ok:
  assumes "distinct (map lp_Name ext)" and "types_ok p"
  shows "\<exists>res. labelsForProfile H p ext = Some res \<and> list_all2 (labels_for H p ext) (p_SampleType p) res"
proof -
  let ?b = "NewLabelsBuilder ext"
  have inv: "builder_inv ?b" "builder_get ?b = Labels_Get ext" using NewLabelsBuilder_inv NewLabelsBuilder_get assms(1) by auto
  have vts: "\<forall>vt \<in> set (p_SampleType p). str_ok p (vt_Type vt) \<and> str_ok p (vt_Unit vt)" using assms(2) by (auto simp: types_ok_def)
  show ?thesis
  proof (cases "p_PeriodType p")
    case None
    then show ?thesis using type_labels_ok[OF inv(1) _ vts, of "Labels_Get ext"] inv(2)
      by (simp add: labelsForProfile_def period_names_def base_labels_def labels_for_def)
  next
    case (Some vt)
    let ?ty = "p_StringTable p ! unat (vt_Type vt)" and ?un = "p_StringTable p ! unat (vt_Unit vt)"
    have s: "at64 (p_StringTable p) (vt_Type vt) = Some ?ty" "at64 (p_StringTable p) (vt_Unit vt) = Some ?un"
      using assms(2) Some by (auto simp: at64_def types_ok_def)
    obtain b1 where b1: "LabelsBuilder_Set ?b LabelNamePeriodType ?ty = Some b1" "builder_inv b1" "builder_get b1 = (Labels_Get ext)(LabelNamePeriodType := ?ty)"
      using LabelsBuilder_Set_get[OF inv(1)] inv(2) by metis
    obtain b2 where b2: "LabelsBuilder_Set b1 LabelNamePeriodUnit ?un = Some b2" "builder_inv b2" "builder_get b2 = (builder_get b1)(LabelNamePeriodUnit := ?un)"
      using LabelsBuilder_Set_get[OF b1(2)] by blast
    have "\<forall>n. n \<notin> {LabelNameType, LabelNameUnit, LabelNameProfileType} \<longrightarrow> builder_get b2 n = base_labels p ext n"
      using b1(3) b2(3) Some by (simp add: base_labels_def period_names_def)
    from type_labels_ok[OF b2(2) this vts] show ?thesis using Some s b1(1) b2(1)
      by (simp add: labelsForProfile_def period_names_def labels_for_def)
  qed
qed

subsection \<open>Properties\<close>

text \<open>
  \<open>labelsForProfile\<close>: when the type names are strings of the profile it does not panic and gives
  one label set per sample type: distinct names without empty values, the type, the unit and the
  profile type \<open>name:type:unit:period-type:period-unit\<close> of that sample type, the period, and all
  other external labels unchanged; the labels of one type do not leak into the next although the
  builder is shared. The fingerprint is the hash of the labels.
\<close>

theorem labelsForProfile_labels:
  assumes "distinct (map lp_Name ext)" and "types_ok p"
  shows "\<exists>res. labelsForProfile H p ext = Some res \<and> list_all2 (labels_for H p ext) (p_SampleType p) res"
  by (rule labelsForProfile_ok[OF assms])

end
