(* ===== verification/Head.thy ===== *)
theory Head
  imports Profile_Index Head_Labels
begin

section \<open>The head: ingesting profiles (pkg/phlaredb/head.go, profile_labels.go, profiles.go)\<close>

text \<open>
  The state of the head and \<open>Ingest\<close>. The samples of all profiles live in a store, because the delta
  computation shares them; a stored profile is its position in the table of profiles. Metrics,
  files, the flush timer and the locks are left out: the model is one call of \<open>Ingest\<close> after the
  other. A panic is \<open>None\<close>.
\<close>

subsection \<open>The cache of sample labels\<close>

record labelKey =
  lky_Key :: i64
  lky_Str :: i64
  lky_Num :: i64
  lky_NumUnit :: i64

record labelCache =
  lc_labels :: "(labelKey \<times> pLabel) list"
  lc_size :: u64

definition labelCache_init :: labelCache where
  "labelCache_init = \<lparr>lc_labels = [], lc_size = 0\<rparr>"

text \<open>The label of a key, from the cache or new.\<close>

definition cached_label :: "u64 \<Rightarrow> labelKey \<Rightarrow> labelCache \<Rightarrow> pLabel \<times> labelCache" where
  "cached_label labelSize k lc =
     (case map_of (lc_labels lc) k of
        Some l \<Rightarrow> (l, lc)
      | None \<Rightarrow>
          let l = \<lparr>pl_Key = lky_Key k, pl_Str = lky_Str k, pl_Num = lky_Num k, pl_NumUnit = lky_NumUnit k\<rparr>
          in (l, \<lparr>lc_labels = AList.update k l (lc_labels lc), lc_size = lc_size lc + labelSize\<rparr>))"

fun rewriteLabels :: "u64 \<Rightarrow> i64 list \<Rightarrow> labelCache \<Rightarrow> pLabel list \<Rightarrow> (pLabel list \<times> labelCache) option" where
  "rewriteLabels labelSize t lc [] = Some ([], lc)"
| "rewriteLabels labelSize t lc (l # ls) = do {
     key \<leftarrow> rewrite_string t (pl_Key l);
     unit \<leftarrow> rewrite_string t (pl_NumUnit l);
     str \<leftarrow> rewrite_string t (pl_Str l);
     let (l, lc) = cached_label labelSize \<lparr>lky_Key = key, lky_Str = str, lky_Num = pl_Num l, lky_NumUnit = unit\<rparr> lc;
     (out, lc) \<leftarrow> rewriteLabels labelSize t lc ls;
     Some (l # out, lc) }"

subsection \<open>The table of profiles\<close>

fun rewrite_comments :: "i64 list \<Rightarrow> i64 list \<Rightarrow> i64 list option" where
  "rewrite_comments t [] = Some []"
| "rewrite_comments t (c # cs) = do { c \<leftarrow> rewrite_string t c; cs \<leftarrow> rewrite_comments t cs; Some (c # cs) }"

definition profile_rewrite :: "rewriter \<Rightarrow> Profile \<Rightarrow> Profile option" where
  "profile_rewrite r p = do {
     cs \<leftarrow> rewrite_comments (rw_strings r) (pr_Comments p);
     drop' \<leftarrow> rewrite_string (rw_strings r) (pr_DropFrames p);
     keep \<leftarrow> rewrite_string (rw_strings r) (pr_KeepFrames p);
     Some (p\<lparr>pr_Comments := cs, pr_DropFrames := drop', pr_KeepFrames := keep\<rparr>) }"

definition profile_size :: "u64 \<Rightarrow> u64 \<Rightarrow> Profile \<Rightarrow> u64" where
  "profile_size profileSize sampleSize p =
     fold (\<lambda>s size. size + (sampleSize + 8)) (pr_Samples p) (profileSize + 8 + of_nat (length (pr_Comments p) * 8))"

definition profilesHelper :: "u64 \<Rightarrow> u64 \<Rightarrow> (Profile, unit, rewriter) Helper" where
  "profilesHelper profileSize sampleSize =
     \<lparr>hp_key = (\<lambda>p. ()), hp_addToRewriter = (\<lambda>m r. r\<lparr>rw_locations := m\<rparr>), hp_rewrite = profile_rewrite,
      hp_setID = (\<lambda>old new p. (old, p)), hp_size = profile_size profileSize sampleSize, hp_clone = (\<lambda>p. p)\<rparr>"

subsection \<open>Samples\<close>

record head_sizes = struct_sizes +
  labelSize :: u64
  profileSize :: u64
  sampleSize :: u64

text \<open>The values of a sample become one stored sample per type; a sample with fewer values than the
  first one panics.\<close>

fun convert_loop :: "u64 \<Rightarrow> i64 list \<Rightarrow> nat \<Rightarrow> pSample list \<Rightarrow> labelCache \<Rightarrow> sample_store \<Rightarrow> (labelCache \<times> sample_store) option" where
  "convert_loop lsz t n [] lc st = Some (lc, st)"
| "convert_loop lsz t n (s # ss) lc st = do {
     (ls, lc) \<leftarrow> rewriteLabels lsz t lc (sa_Label s);
     if length (sa_Value s) < n then None
     else convert_loop lsz t n ss lc (st @ map (\<lambda>v. \<lparr>sv_StacktraceID = 0, sv_Value = v, sv_Labels = ls\<rparr>) (take n (sa_Value s))) }"

text \<open>The address of the sample of type \<open>ty\<close> and position \<open>i\<close> when \<open>n\<close> types are stored from \<open>base\<close> on.\<close>

definition out_addrs :: "nat \<Rightarrow> nat \<Rightarrow> nat \<Rightarrow> nat list list" where
  "out_addrs base n k = map (\<lambda>ty. map (\<lambda>i. base + i * n + ty) [0..<k]) [0..<n]"

definition set_stack :: "nat \<Rightarrow> u64 \<Rightarrow> sample_store \<Rightarrow> sample_store" where
  "set_stack a sid st = st[a := (st ! a)\<lparr>sv_StacktraceID := sid\<rparr>]"

text \<open>A lookup in a Go map without the key gives the zero value.\<close>

definition stack_ref :: "rewriter \<Rightarrow> nat \<Rightarrow> u64" where
  "stack_ref r i = (case map_of (rw_stacktraces r) (of_nat i) of Some sid \<Rightarrow> sid | None \<Rightarrow> 0)"

definition reference_stacks :: "rewriter \<Rightarrow> nat list list \<Rightarrow> sample_store \<Rightarrow> sample_store" where
  "reference_stacks r out st = fold (\<lambda>as. fold (\<lambda>(i, a). set_stack a (stack_ref r i)) (enumerate 0 as)) out st"

definition convertSamples :: "(u8 list \<Rightarrow> u64) \<Rightarrow> head_sizes \<Rightarrow> rewriter \<Rightarrow> pSample list \<Rightarrow> labelCache \<Rightarrow> sample_store
    \<Rightarrow> (Stacktrace, u64) deduplicatingSlice
    \<Rightarrow> (nat list list \<times> rewriter \<times> labelCache \<times> sample_store \<times> (Stacktrace, u64) deduplicatingSlice) option" where
  "convertSamples H sz r in' lc st sts =
     (if in' = [] then Some ([], r, lc, st, sts)
      else do {
        let n = length (sa_Value (hd in'));
        let out = out_addrs (length st) n (length in');
        (lc, st) \<leftarrow> convert_loop (labelSize sz) (rw_strings r) n in' lc st;
        (sts, r) \<leftarrow> ingest True (stacktracesHelper H (stacktraceSize sz)) (map (\<lambda>s. \<lparr>sk_LocationIDs = sa_LocationId s\<rparr>) in') sts r;
        Some (out, r, lc, reference_stacks r out st, sts) })"

subsection \<open>Ingest\<close>

record Head =
  hd_tables :: tables
  hd_profiles :: "(Profile, unit) deduplicatingSlice"
  hd_samples :: sample_store
  hd_delta :: deltaProfiles
  hd_cache :: labelCache
  hd_index :: profilesIndex
  hd_MinTime :: i64
  hd_MaxTime :: i64
  hd_totalSamples :: u64

text \<open>The state of a new head; the bounds of the time range are those of \<open>block.NewMeta\<close>.\<close>

definition NewHead :: "profilesIndex \<Rightarrow> Head" where
  "NewHead index =
     \<lparr>hd_tables = new_tables, hd_profiles = ds_init, hd_samples = [], hd_delta = [], hd_cache = labelCache_init, hd_index = index,
      hd_MinTime = 0x7FFFFFFFFFFFFFFF, hd_MaxTime = 0, hd_totalSamples = 0\<rparr>"

text \<open>The loop over the sample types; the flag is \<open>profileIngested\<close>.\<close>

fun ingest_types :: "head_sizes \<Rightarrow> pProfile \<Rightarrow> uuid \<Rightarrow> rewriter \<Rightarrow> (nat list \<times> (labels \<times> u64) option) list \<Rightarrow> Head \<Rightarrow> bool \<Rightarrow> (Head \<times> bool) option" where
  "ingest_types sz p pid r [] h ingested = Some (h, ingested)"
| "ingest_types sz p pid r ((samples, lf) # rest') h ingested = do {
     (lbs, fp) \<leftarrow> lf;
     let (delta, st, d) = computeDelta (hd_samples h) (hd_delta h) fp samples lbs;
     let h = h\<lparr>hd_samples := st, hd_delta := d\<rparr>;
     case delta of
       None \<Rightarrow> ingest_types sz p pid r rest' h ingested
     | Some samples \<Rightarrow> do {
         let profile = \<lparr>pr_ID = pid, pr_SeriesIndex = 0, pr_SeriesFingerprint = fp, pr_Samples = samples, pr_DropFrames = p_DropFrames p,
           pr_KeepFrames = p_KeepFrames p, pr_TimeNanos = p_TimeNanos p, pr_DurationNanos = p_DurationNanos p, pr_Period = 0,
           pr_Comments = p_Comment p, pr_DefaultSampleType = p_DefaultSampleType p\<rparr>;
         (pt, r) \<leftarrow> ingest False (profilesHelper (profileSize sz) (sampleSize sz)) [profile] (hd_profiles h) r;
         ix \<leftarrow> pi_Add (hd_index h) (length (ds_slice (hd_profiles h))) fp lbs;
         ingest_types sz p pid r rest' (h\<lparr>hd_profiles := pt, hd_index := ix\<rparr>) True } }"

text \<open>The time range and the number of samples after a profile was ingested.\<close>

definition note_ingested :: "(i64 \<Rightarrow> i64) \<Rightarrow> head_sizes \<Rightarrow> pProfile \<Rightarrow> Head \<Rightarrow> Head" where
  "note_ingested tfn sz p h =
     (let v = tfn (p_TimeNanos p);
          h = (if sint v < sint (hd_MinTime h) then h\<lparr>hd_MinTime := v\<rparr> else h);
          h = (if sint v > sint (hd_MaxTime h) then h\<lparr>hd_MaxTime := v\<rparr> else h)
      in h\<lparr>hd_totalSamples := hd_totalSamples h + sampleSize sz\<rparr>)"

definition Ingest :: "(u8 list \<Rightarrow> u64) \<Rightarrow> (string \<Rightarrow> u64) \<Rightarrow> (i64 \<Rightarrow> i64) \<Rightarrow> head_sizes \<Rightarrow> pProfile \<Rightarrow> uuid \<Rightarrow> labels \<Rightarrow> Head \<Rightarrow> Head option" where
  "Ingest H HL tfn sz p pid externalLabels h = do {
     lfs \<leftarrow> labelsForProfile HL p externalLabels;
     let T = hd_tables h;
     (strs, r) \<leftarrow> ingest True stringsHelper (p_StringTable p) (ht_strings T) empty_rewriter;
     (mps, r) \<leftarrow> ingest True (mappingsHelper (mappingSize sz)) (p_Mapping p) (ht_mappings T) r;
     (fs, r) \<leftarrow> ingest True (functionsHelper (functionSize sz)) (p_Function p) (ht_functions T) r;
     (lcs, r) \<leftarrow> ingest True (locationsHelper H (lineSize sz) (locationSize sz)) (p_Location p) (ht_locations T) r;
     (out, r, lc, st, sts) \<leftarrow> convertSamples H sz r (p_Sample p) (hd_cache h) (hd_samples h) (ht_stacktraces T);
     let T = \<lparr>ht_strings = strs, ht_mappings = mps, ht_functions = fs, ht_locations = lcs, ht_stacktraces = sts\<rparr>;
     let h = h\<lparr>hd_tables := T, hd_samples := st, hd_cache := lc\<rparr>;
     (h, ingested) \<leftarrow> ingest_types sz p pid r (map (\<lambda>ty. (out ! ty, if ty < length lfs then Some (lfs ! ty) else None)) [0..<length out]) h False;
     Some (if ingested then note_ingested tfn sz p h else h) }"

subsection \<open>Rewriting labels and comments\<close>

definition label_of :: "labelKey \<Rightarrow> pLabel" where
  "label_of k = \<lparr>pl_Key = lky_Key k, pl_Str = lky_Str k, pl_Num = lky_Num k, pl_NumUnit = lky_NumUnit k\<rparr>"

definition cache_inv :: "labelCache \<Rightarrow> bool" where
  "cache_inv lc \<longleftrightarrow> (\<forall>k l. map_of (lc_labels lc) k = Some l \<longrightarrow> l = label_of k)"

definition label_ok :: "pProfile \<Rightarrow> pLabel \<Rightarrow> bool" where
  "label_ok p l \<longleftrightarrow> str_ok p (pl_Key l) \<and> str_ok p (pl_Str l) \<and> str_ok p (pl_NumUnit l)"

definition label_rel :: "string list \<Rightarrow> pProfile \<Rightarrow> pLabel \<Rightarrow> pLabel \<Rightarrow> bool" where
  "label_rel strs p g l \<longleftrightarrow> str_rel strs p (pl_Key g) (pl_Key l) \<and> str_rel strs p (pl_Str g) (pl_Str l)
     \<and> str_rel strs p (pl_NumUnit g) (pl_NumUnit l) \<and> pl_Num g = pl_Num l"

lemma cached_label_ok: "cache_inv lc \<Longrightarrow> \<exists>lc'. cached_label sz k lc = (label_of k, lc') \<and> cache_inv lc'"
  by (auto simp: cached_label_def cache_inv_def label_of_def AList.update_conv' Let_def split: option.splits)

lemma rewriteLabels_ok:
  assumes "strings_known strs p r" and "cache_inv lc" and "\<forall>l \<in> set ls. label_ok p l"
  shows "\<exists>out lc'. rewriteLabels sz (rw_strings r) lc ls = Some (out, lc') \<and> cache_inv lc' \<and> list_all2 (label_rel strs p) out ls"
  using assms(2,3)
proof (induction ls arbitrary: lc)
  case (Cons l ls)
  obtain i j k where s: "rewrite_string (rw_strings r) (pl_Key l) = Some i" "rewrite_string (rw_strings r) (pl_NumUnit l) = Some j"
      "rewrite_string (rw_strings r) (pl_Str l) = Some k" "str_rel strs p i (pl_Key l)" "str_rel strs p j (pl_NumUnit l)" "str_rel strs p k (pl_Str l)"
    using str_known[OF assms(1)] Cons.prems(2) unfolding label_ok_def by (meson list.set_intros(1))
  let ?k = "\<lparr>lky_Key = i, lky_Str = k, lky_Num = pl_Num l, lky_NumUnit = j\<rparr>"
  have rel: "label_rel strs p (label_of ?k) l" using s by (simp add: label_rel_def label_of_def)
  obtain lc1 where lc1: "cached_label sz ?k lc = (label_of ?k, lc1)" "cache_inv lc1" using cached_label_ok[OF Cons.prems(1)] by blast
  from Cons.IH[OF lc1(2)] Cons.prems(2) obtain out lc' where
    "rewriteLabels sz (rw_strings r) lc1 ls = Some (out, lc')" "cache_inv lc'" "list_all2 (label_rel strs p) out ls" by auto
  then show ?case using s(1-3) rel lc1(1) by simp
qed simp

lemma rewrite_comments_ok:
  "strings_known strs p r \<Longrightarrow> \<forall>c \<in> set cs. str_ok p c \<Longrightarrow>
   \<exists>out. rewrite_comments (rw_strings r) cs = Some out \<and> list_all2 (str_rel strs p) out cs"
proof (induction cs)
  case (Cons c cs)
  then show ?case using str_known[OF Cons.prems(1), of c] by fastforce
qed simp

subsection \<open>Storing the samples\<close>

definition sample_ok :: "pProfile \<Rightarrow> nat \<Rightarrow> pSample \<Rightarrow> bool" where
  "sample_ok p n s \<longleftrightarrow> length (sa_Value s) = n \<and> (\<forall>l \<in> set (sa_Label s). label_ok p l)"

definition sample_rel :: "string list \<Rightarrow> pProfile \<Rightarrow> nat \<Rightarrow> Sample \<Rightarrow> pSample \<Rightarrow> bool" where
  "sample_rel strs p ty g s \<longleftrightarrow> sv_Value g = sa_Value s ! ty \<and> list_all2 (label_rel strs p) (sv_Labels g) (sa_Label s)"

lemma div_add_nat: "ty < n \<Longrightarrow> (i * n + ty) div n = i" "ty < n \<Longrightarrow> (i * n + ty) mod n = ty" for n :: nat
  by auto

lemma convert_loop_ok:
  assumes "strings_known strs p r" and "cache_inv lc" and "\<forall>s \<in> set ss. sample_ok p n s"
  shows "\<exists>lc' new. convert_loop sz (rw_strings r) n ss lc st = Some (lc', st @ new) \<and> cache_inv lc' \<and> length new = length ss * n
    \<and> (\<forall>i < length ss. \<forall>ty < n. sample_rel strs p ty (new ! (i * n + ty)) (ss ! i))"
  using assms(2,3)
proof (induction ss arbitrary: lc st)
  case (Cons s ss)
  obtain ls lc1 where l: "rewriteLabels sz (rw_strings r) lc (sa_Label s) = Some (ls, lc1)" "cache_inv lc1" "list_all2 (label_rel strs p) ls (sa_Label s)"
    using rewriteLabels_ok[OF assms(1) Cons.prems(1), of "sa_Label s" sz] Cons.prems(2) by (auto simp: sample_ok_def)
  have n: "length (sa_Value s) = n" using Cons.prems(2) by (simp add: sample_ok_def)
  let ?new = "map (\<lambda>v. \<lparr>sv_StacktraceID = 0, sv_Value = v, sv_Labels = ls\<rparr>) (sa_Value s)"
  obtain lc' new where r: "convert_loop sz (rw_strings r) n ss lc1 (st @ ?new) = Some (lc', (st @ ?new) @ new)" "cache_inv lc'" "length new = length ss * n"
      "\<forall>i < length ss. \<forall>ty < n. sample_rel strs p ty (new ! (i * n + ty)) (ss ! i)"
    using Cons.IH[OF l(2), of "st @ ?new"] Cons.prems(2) by auto
  have "sample_rel strs p ty ((?new @ new) ! (i * n + ty)) ((s # ss) ! i)" if "i < length (s # ss)" "ty < n" for i ty
  proof (cases i)
    case 0
    then show ?thesis using that n l(3) by (simp add: nth_append sample_rel_def)
  next
    case (Suc j)
    then have "(?new @ new) ! (i * n + ty) = new ! (j * n + ty)" using n by (simp add: nth_append)
    then show ?thesis using r(4) Suc that by simp
  qed
  moreover have "convert_loop sz (rw_strings r) n (s # ss) lc st = Some (lc', st @ ?new @ new)" using l(1) n r(1) by simp
  ultimately show ?case using r(2,3) n by (intro exI[of _ lc'] exI[of _ "?new @ new"]) simp
qed simp

lemma set_stack_simps [simp]:
  "length (set_stack a sid st) = length st"
  "b < length st \<Longrightarrow> set_stack a sid st ! b = (if b = a then (st ! b)\<lparr>sv_StacktraceID := sid\<rparr> else st ! b)"
  by (simp_all add: set_stack_def nth_list_update)

lemma fold_nested: "fold (\<lambda>x. fold h (e x)) xs s = fold h (concat (map e xs)) s"
  by (induction xs arbitrary: s) auto

lemma fold_set_stack:
  assumes "\<forall>(i, a) \<in> set xs. f a = i"
  shows "length (fold (\<lambda>(i, a). set_stack a (g i)) xs st) = length st
    \<and> (\<forall>b < length st. fold (\<lambda>(i, a). set_stack a (g i)) xs st ! b = (if b \<in> snd ` set xs then (st ! b)\<lparr>sv_StacktraceID := g (f b)\<rparr> else st ! b))"
  using assms
proof (induction xs arbitrary: st)
  case (Cons x xs)
  obtain i a where x: "x = (i, a)" by fastforce
  then show ?case using Cons.IH[of "set_stack a (g i) st"] Cons.prems by auto
qed simp

lemma reference_stacks_ok:
  assumes "length st = base + k * n"
  shows "length (reference_stacks r (out_addrs base n k) st) = length st"
    and "b < base \<Longrightarrow> reference_stacks r (out_addrs base n k) st ! b = st ! b"
    and "i < k \<Longrightarrow> ty < n \<Longrightarrow> reference_stacks r (out_addrs base n k) st ! (base + i * n + ty) = (st ! (base + i * n + ty))\<lparr>sv_StacktraceID := stack_ref r i\<rparr>"
proof -
  let ?xs = "concat (map (enumerate 0) (out_addrs base n k))" and ?f = "\<lambda>a. (a - base) div n"
  have eq: "reference_stacks r (out_addrs base n k) st = fold (\<lambda>(i, a). set_stack a (stack_ref r i)) ?xs st"
    by (simp add: reference_stacks_def fold_nested)
  have xs: "set ?xs = {(i, a). \<exists>ty < n. i < k \<and> a = base + i * n + ty}"
    by (auto simp: out_addrs_def enumerate_map_upt comp_def)
  have f: "\<forall>(i, a) \<in> set ?xs. ?f a = i" unfolding xs using div_add_nat by (auto simp: add.assoc)
  note F = fold_set_stack[OF f, of "stack_ref r" st, folded eq]
  show "length (reference_stacks r (out_addrs base n k) st) = length st" using F by blast
  show "reference_stacks r (out_addrs base n k) st ! b = st ! b" if "b < base"
    using F that assms xs by auto
  show "reference_stacks r (out_addrs base n k) st ! (base + i * n + ty) = (st ! (base + i * n + ty))\<lparr>sv_StacktraceID := stack_ref r i\<rparr>" if "i < k" "ty < n"
  proof -
    have "i * n + ty < k * n" using that by (metis add.commute add_less_cancel_left mult_Suc less_le_trans Suc_leI mult_le_mono1)
    moreover have "(i, base + i * n + ty) \<in> set ?xs" unfolding xs using that by auto
    ultimately show ?thesis using F assms that(2) by (force simp: add.assoc image_iff)
  qed
qed

text \<open>All that \<open>convertSamples\<close> does when the stack traces can be ingested.\<close>

lemma convertSamples_ok:
  assumes "strings_known strs p r" and "cache_inv lc" and "\<forall>s \<in> set (p_Sample p). sample_ok p n s" and "p_Sample p \<noteq> []"
    and "ingest_stacktraces H sz p sts r = Some (sts', r')"
  shows "\<exists>lc' st'. convertSamples H sz r (p_Sample p) lc st sts = Some (out_addrs (length st) n (length (p_Sample p)), r', lc', st', sts')
    \<and> cache_inv lc' \<and> take (length st) st' = st
    \<and> (\<forall>i < length (p_Sample p). \<forall>ty < n. let g = st' ! (length st + i * n + ty)
         in sample_rel strs p ty g (p_Sample p ! i) \<and> sv_StacktraceID g = stack_ref r' i)"
proof -
  let ?k = "length (p_Sample p)" and ?b = "length st"
  obtain lc' new where c: "convert_loop (labelSize sz) (rw_strings r) n (p_Sample p) lc st = Some (lc', st @ new)" "cache_inv lc'" "length new = ?k * n"
      "\<forall>i < ?k. \<forall>ty < n. sample_rel strs p ty (new ! (i * n + ty)) (p_Sample p ! i)"
    using convert_loop_ok[OF assms(1-3)] by blast
  have n: "length (sa_Value (hd (p_Sample p))) = n" using assms(3,4) by (simp add: sample_ok_def)
  have i: "ingest True (stacktracesHelper H (stacktraceSize sz)) (map (\<lambda>s. \<lparr>sk_LocationIDs = sa_LocationId s\<rparr>) (p_Sample p)) sts r = Some (sts', r')"
    using assms(4,5) by (simp add: ingest_stacktraces_def sample_stacks_def)
  let ?st = "reference_stacks r' (out_addrs ?b n ?k) (st @ new)"
  have len: "length (st @ new) = ?b + ?k * n" using c(3) by simp
  note R = reference_stacks_ok[OF len, where r = r']
  have "convertSamples H sz r (p_Sample p) lc st sts = Some (out_addrs ?b n ?k, r', lc', ?st, sts')"
    using assms(4) n c(1) i by (simp add: convertSamples_def Let_def)
  moreover have "take ?b ?st = st" using R(1,2) by (intro nth_equalityI) (auto simp: nth_append)
  moreover have "sample_rel strs p ty (?st ! (?b + i * n + ty)) (p_Sample p ! i) \<and> sv_StacktraceID (?st ! (?b + i * n + ty)) = stack_ref r' i"
    if "i < ?k" "ty < n" for i ty
    using R(3)[OF that] c(4) that by (simp add: sample_rel_def nth_append add.assoc)
  ultimately show ?thesis using c(2) by (auto simp: Let_def)
qed

subsection \<open>Storing the profiles\<close>

definition refs_ok :: "pProfile \<Rightarrow> bool" where
  "refs_ok p \<longleftrightarrow> str_ok p (p_DropFrames p) \<and> str_ok p (p_KeepFrames p) \<and> (\<forall>c \<in> set (p_Comment p). str_ok p c)"

text \<open>The stored profile \<open>P\<close> has the fields of the profile and the given samples.\<close>

definition profile_rel :: "string list \<Rightarrow> pProfile \<Rightarrow> uuid \<Rightarrow> nat list \<Rightarrow> u64 \<Rightarrow> Profile \<Rightarrow> bool" where
  "profile_rel strs p pid samples fp P \<longleftrightarrow> pr_ID P = pid \<and> pr_SeriesFingerprint P = fp \<and> pr_Samples P = samples
     \<and> pr_TimeNanos P = p_TimeNanos p \<and> pr_DurationNanos P = p_DurationNanos p \<and> pr_DefaultSampleType P = p_DefaultSampleType p
     \<and> str_rel strs p (pr_DropFrames P) (p_DropFrames p) \<and> str_rel strs p (pr_KeepFrames P) (p_KeepFrames p)
     \<and> list_all2 (str_rel strs p) (pr_Comments P) (p_Comment p)"

lemma ingest_profile_ok:
  assumes "strings_known strs p r" and "refs_ok p"
  shows "\<exists>P n. ingest False (profilesHelper a b) [\<lparr>pr_ID = pid, pr_SeriesIndex = 0, pr_SeriesFingerprint = fp, pr_Samples = samples,
      pr_DropFrames = p_DropFrames p, pr_KeepFrames = p_KeepFrames p, pr_TimeNanos = p_TimeNanos p, pr_DurationNanos = p_DurationNanos p,
      pr_Period = 0, pr_Comments = p_Comment p, pr_DefaultSampleType = p_DefaultSampleType p\<rparr>] s r
      = Some (s\<lparr>ds_slice := ds_slice s @ [P], ds_size := n\<rparr>, r) \<and> profile_rel strs p pid samples fp P"
proof -
  obtain cs where cs: "rewrite_comments (rw_strings r) (p_Comment p) = Some cs" "list_all2 (str_rel strs p) cs (p_Comment p)"
    using rewrite_comments_ok[OF assms(1)] assms(2) by (auto simp: refs_ok_def)
  obtain i where i: "rewrite_string (rw_strings r) (p_DropFrames p) = Some i" "str_rel strs p i (p_DropFrames p)"
    using str_known[OF assms(1)] assms(2) by (auto simp: refs_ok_def)
  obtain j where j: "rewrite_string (rw_strings r) (p_KeepFrames p) = Some j" "str_rel strs p j (p_KeepFrames p)"
    using str_known[OF assms(1)] assms(2) by (auto simp: refs_ok_def)
  show ?thesis using cs i j
    by (intro exI) (auto simp: ingest_def profilesHelper_def profile_rewrite_def append_elems_def profile_rel_def)
qed

text \<open>The additions to the index when the profiles of the types are stored from position \<open>m\<close> on.\<close>

fun additions :: "nat \<Rightarrow> (nat list \<times> (labels \<times> u64)) list \<Rightarrow> addition list" where
  "additions m [] = []"
| "additions m ((samples, lbs, fp) # rest') = (m, fp, lbs) # additions (Suc m) rest'"

lemma ingest_types_ok:
  assumes "strings_known strs p r" and "refs_ok p" and "pi_inv (hd_index h) hist"
    and "\<forall>(samples, lbs, fp) \<in> set tys. \<not> isDelta lbs \<and> distinct (map lp_Name lbs)"
  shows "\<exists>pt Ps ix. ingest_types sz p pid r (map (\<lambda>(samples, lf). (samples, Some lf)) tys) h ingested
      = Some (h\<lparr>hd_profiles := pt, hd_index := ix\<rparr>, ingested \<or> tys \<noteq> [])
    \<and> ds_slice pt = ds_slice (hd_profiles h) @ Ps \<and> list_all2 (\<lambda>(samples, lbs, fp) P. profile_rel strs p pid samples fp P) tys Ps
    \<and> pi_inv ix (hist @ additions (length (ds_slice (hd_profiles h))) tys)"
  using assms(3,4)
proof (induction tys arbitrary: h hist ingested)
  case Nil
  show ?case using Nil.prems(1)
    by (intro exI[of _ "hd_profiles h"] exI[of _ "[]"] exI[of _ "hd_index h"]) simp
next
  case (Cons x tys)
  obtain samples lbs fp where x: "x = (samples, lbs, fp)" by (cases x) auto
  have nd: "\<not> isDelta lbs" "distinct (map lp_Name lbs)" using Cons.prems(2) x by auto
  obtain P n where P: "ingest False (profilesHelper (profileSize sz) (sampleSize sz)) [\<lparr>pr_ID = pid, pr_SeriesIndex = 0, pr_SeriesFingerprint = fp, pr_Samples = samples,
      pr_DropFrames = p_DropFrames p, pr_KeepFrames = p_KeepFrames p, pr_TimeNanos = p_TimeNanos p, pr_DurationNanos = p_DurationNanos p,
      pr_Period = 0, pr_Comments = p_Comment p, pr_DefaultSampleType = p_DefaultSampleType p\<rparr>] (hd_profiles h) r
      = Some ((hd_profiles h)\<lparr>ds_slice := ds_slice (hd_profiles h) @ [P], ds_size := n\<rparr>, r)" "profile_rel strs p pid samples fp P"
    using ingest_profile_ok[OF assms(1,2)] by blast
  obtain ix where ix: "pi_Add (hd_index h) (length (ds_slice (hd_profiles h))) fp lbs = Some ix"
      "pi_inv ix (hist @ [(length (ds_slice (hd_profiles h)), fp, lbs)])" using pi_Add_inv[OF Cons.prems(1) nd(2)] by blast
  let ?pt = "(hd_profiles h)\<lparr>ds_slice := ds_slice (hd_profiles h) @ [P], ds_size := n\<rparr>"
  let ?h = "h\<lparr>hd_profiles := ?pt, hd_index := ix\<rparr>"
  have cd: "computeDelta (hd_samples h) (hd_delta h) fp samples lbs = (Some samples, hd_samples h, hd_delta h)" using nd(1) by (simp add: computeDelta_def)
  have step: "ingest_types sz p pid r (map (\<lambda>(samples, lf). (samples, Some lf)) (x # tys)) h ingested
      = ingest_types sz p pid r (map (\<lambda>(samples, lf). (samples, Some lf)) tys) ?h True"
    by (simp add: x cd P(1) ix(1))
  from Cons.IH[of ?h "hist @ [(length (ds_slice (hd_profiles h)), fp, lbs)]" True] ix(2) Cons.prems(2) obtain pt Ps ix' where
    r: "ingest_types sz p pid r (map (\<lambda>(samples, lf). (samples, Some lf)) tys) ?h True = Some (?h\<lparr>hd_profiles := pt, hd_index := ix'\<rparr>, True)"
      "ds_slice pt = (ds_slice (hd_profiles h) @ [P]) @ Ps" "list_all2 (\<lambda>(samples, lbs, fp) P. profile_rel strs p pid samples fp P) tys Ps"
      "pi_inv ix' ((hist @ [(length (ds_slice (hd_profiles h)), fp, lbs)]) @ additions (Suc (length (ds_slice (hd_profiles h)))) tys)" by auto
  show ?case unfolding step using r P(2) x by (intro exI[of _ pt] exI[of _ "P # Ps"] exI[of _ ix']) simp
qed

subsection \<open>The whole of \<open>Ingest\<close>\<close>

definition head_inv :: "(u8 list \<Rightarrow> u64) \<Rightarrow> Head \<Rightarrow> addition list \<Rightarrow> bool" where
  "head_inv H h hist \<longleftrightarrow> tables_inv H (hd_tables h) \<and> cache_inv (hd_cache h) \<and> pi_inv (hd_index h) hist
     \<and> (\<forall>(a, fp, ls) \<in> set hist. a < length (ds_slice (hd_profiles h)) \<and> pr_SeriesFingerprint (ds_slice (hd_profiles h) ! a) = fp)"

definition wf_profile :: "pProfile \<Rightarrow> bool" where
  "wf_profile p \<longleftrightarrow> wf_pprof p \<and> types_ok p \<and> refs_ok p \<and> p_Sample p \<noteq> [] \<and> p_SampleType p \<noteq> []
     \<and> (\<forall>s \<in> set (p_Sample p). sample_ok p (length (p_SampleType p)) s)"

text \<open>The hash does not collide on the byte strings that are compared.\<close>

definition no_collision :: "(u8 list \<Rightarrow> u64) \<Rightarrow> tables \<Rightarrow> rewriter \<Rightarrow> pProfile \<Rightarrow> bool" where
  "no_collision H T r p \<longleftrightarrow> inj_on H (hashed_lines (ds_slice (ht_locations T)) r p) \<and> inj_on H (hashed_ids (ds_slice (ht_stacktraces T)) r p)"

text \<open>The stored sample \<open>g\<close> is the value of type \<open>ty\<close> of sample \<open>s\<close>, with its labels and its stack trace.\<close>

definition stored_sample :: "(u8 list \<Rightarrow> u64) \<Rightarrow> tables \<Rightarrow> rewriter \<Rightarrow> pProfile \<Rightarrow> nat \<Rightarrow> pSample \<Rightarrow> Sample \<Rightarrow> bool" where
  "stored_sample H T r p ty s g \<longleftrightarrow> sample_rel (ds_slice (ht_strings T)) p ty g s
     \<and> (\<exists>stk. at64 (ds_slice (ht_stacktraces T)) (sv_StacktraceID g) = Some stk \<and> (no_collision H T r p \<longrightarrow> stack_rel T p stk (sa_LocationId s)))"

definition stored_profile :: "(u8 list \<Rightarrow> u64) \<Rightarrow> tables \<Rightarrow> rewriter \<Rightarrow> sample_store \<Rightarrow> pProfile \<Rightarrow> uuid \<Rightarrow> nat \<Rightarrow> u64 \<Rightarrow> Profile \<Rightarrow> bool" where
  "stored_profile H T r st p pid ty fp P \<longleftrightarrow> profile_rel (ds_slice (ht_strings T)) p pid (pr_Samples P) fp P
     \<and> list_all2 (\<lambda>s a. stored_sample H T r p ty s (st ! a)) (p_Sample p) (pr_Samples P)"

lemma ingest_stacktraces_strings: "ingest_stacktraces H sz p t r = Some (t', r') \<Longrightarrow> rw_strings r' = rw_strings r"
  by (auto simp: ingest_stacktraces_def ingest_def stacktracesHelper_def Let_def split: if_splits bind_splits prod.splits)

lemma ingest_tables_parts:
  assumes "ingest_tables H sz p T = Some (T', r)"
  shows "\<exists>r1 r2 r3 r4. ingest True stringsHelper (p_StringTable p) (ht_strings T) empty_rewriter = Some (ht_strings T', r1)
    \<and> ingest True (mappingsHelper (mappingSize sz)) (p_Mapping p) (ht_mappings T) r1 = Some (ht_mappings T', r2)
    \<and> ingest True (functionsHelper (functionSize sz)) (p_Function p) (ht_functions T) r2 = Some (ht_functions T', r3)
    \<and> ingest True (locationsHelper H (lineSize sz) (locationSize sz)) (p_Location p) (ht_locations T) r3 = Some (ht_locations T', r4)
    \<and> ingest_stacktraces H sz p (ht_stacktraces T) r4 = Some (ht_stacktraces T', r)"
  using assms by (auto simp: ingest_tables_def split: bind_splits)

lemma additions_map:
  "additions m (map (\<lambda>ty. (f ty, lfs ! ty)) [0..<n]) = map (\<lambda>ty. (m + ty, snd (lfs ! ty), fst (lfs ! ty))) [0..<n]"
proof -
  have "additions (m + k) (map (\<lambda>ty. (f ty, lfs ! ty)) [k..<n]) = map (\<lambda>ty. (m + ty, snd (lfs ! ty), fst (lfs ! ty))) [k..<n]" for k
  proof (induction "n - k" arbitrary: k)
    case (Suc d)
    then have "[k..<n] = k # [Suc k..<n]" by (simp add: upt_conv_Cons)
    then show ?case using Suc.hyps(1)[of "Suc k"] Suc.hyps(2) by (cases "lfs ! k") simp
  qed simp
  from this[of 0] show ?thesis by simp
qed

lemma not_delta:
  assumes "labels_for HL p ext vt lf" and "Labels_Get ext Labels.MetricName \<noteq> ''memory''"
  shows "\<not> isDelta (fst lf) \<and> distinct (map lp_Name (fst lf))"
proof -
  have "Labels_Get (fst lf) Labels.MetricName = Labels_Get ext Labels.MetricName"
    using assms(1) by (simp add: labels_for_def labels_right_def Let_def base_labels_def Labels.MetricName_def LabelNameType_def LabelNameUnit_def
      LabelNameProfileType_def LabelNamePeriodType_def LabelNamePeriodUnit_def split: option.splits)
  then show ?thesis using assms by (simp add: isDelta_def labels_for_def labels_right_def Let_def)
qed

lemma head_inv_additions:
  assumes "head_inv H h hist" and "ds_slice (hd_profiles h') = ds_slice (hd_profiles h) @ Ps" and "length Ps = n"
    and "\<forall>ty < n. pr_SeriesFingerprint (Ps ! ty) = snd (lfs ! ty)"
    and "tables_inv H (hd_tables h')" and "cache_inv (hd_cache h')"
    and "pi_inv (hd_index h') (hist @ map (\<lambda>ty. (length (ds_slice (hd_profiles h)) + ty, snd (lfs ! ty), fst (lfs ! ty))) [0..<n])"
  shows "head_inv H h' (hist @ map (\<lambda>ty. (length (ds_slice (hd_profiles h)) + ty, snd (lfs ! ty), fst (lfs ! ty))) [0..<n])"
  using assms by (auto simp: head_inv_def nth_append)

text \<open>The state before the loop over the sample types.\<close>

lemma Ingest_samples:
  assumes inv: "head_inv H h hist" and wf: "wf_profile p" and room: "room p (hd_tables h)"
  shows "\<exists>T r lc st. ingest_tables H sz p (hd_tables h) = Some (T, r) \<and> tables_inv H T \<and> tables_grow (hd_tables h) T
    \<and> cache_inv lc \<and> strings_known (ds_slice (ht_strings T)) p r \<and> take (length (hd_samples h)) st = hd_samples h
    \<and> (\<forall>ty < length (p_SampleType p). list_all2 (\<lambda>s a. stored_sample H T r p ty s (st ! a)) (p_Sample p)
          (out_addrs (length (hd_samples h)) (length (p_SampleType p)) (length (p_Sample p)) ! ty))
    \<and> (\<forall>HL tfn pid ext lfs. labelsForProfile HL p ext = Some lfs \<longrightarrow> length lfs = length (p_SampleType p) \<longrightarrow> Ingest H HL tfn sz p pid ext h = do {
         let out = out_addrs (length (hd_samples h)) (length (p_SampleType p)) (length (p_Sample p));
         (h, ingested) \<leftarrow> ingest_types sz p pid r (map (\<lambda>ty. (out ! ty, Some (lfs ! ty))) [0..<length (p_SampleType p)])
           (h\<lparr>hd_tables := T, hd_samples := st, hd_cache := lc\<rparr>) False;
         Some (if ingested then note_ingested tfn sz p h else h) })"
proof -
  let ?n = "length (p_SampleType p)" and ?k = "length (p_Sample p)" and ?b = "length (hd_samples h)"
  have wfs: "wf_pprof p" "p_Sample p \<noteq> []" "\<forall>s \<in> set (p_Sample p). sample_ok p ?n s" using wf by (auto simp: wf_profile_def)
  have h: "tables_inv H (hd_tables h)" "cache_inv (hd_cache h)" using inv by (auto simp: head_inv_def)
  obtain T r where T: "ingest_tables H sz p (hd_tables h) = Some (T, r)" "tables_inv H T" "tables_grow (hd_tables h) T"
      "strings_known (ds_slice (ht_strings T)) p r"
      "\<forall>i < ?k. \<exists>sid st. map_of (rw_stacktraces r) (of_nat i) = Some sid \<and> at64 (ds_slice (ht_stacktraces T)) sid = Some st
        \<and> (inj_on H (hashed_lines (ds_slice (ht_locations T)) r p) \<longrightarrow> inj_on H (hashed_ids (ds_slice (ht_stacktraces T)) r p)
            \<longrightarrow> stack_rel T p st (sa_LocationId (p_Sample p ! i)))"
    using ingest_tables_resolves[OF h(1) wfs(1) room] by blast
  obtain r1 r2 r3 r4 where parts: "ingest True stringsHelper (p_StringTable p) (ht_strings (hd_tables h)) empty_rewriter = Some (ht_strings T, r1)"
      "ingest True (mappingsHelper (mappingSize sz)) (p_Mapping p) (ht_mappings (hd_tables h)) r1 = Some (ht_mappings T, r2)"
      "ingest True (functionsHelper (functionSize sz)) (p_Function p) (ht_functions (hd_tables h)) r2 = Some (ht_functions T, r3)"
      "ingest True (locationsHelper H (lineSize sz) (locationSize sz)) (p_Location p) (ht_locations (hd_tables h)) r3 = Some (ht_locations T, r4)"
      "ingest_stacktraces H sz p (ht_stacktraces (hd_tables h)) r4 = Some (ht_stacktraces T, r)"
    using ingest_tables_parts[OF T(1)] by blast
  have k4: "strings_known (ds_slice (ht_strings T)) p r4" using T(4) ingest_stacktraces_strings[OF parts(5)] by (simp add: strings_known_def)
  obtain lc st where c: "convertSamples H sz r4 (p_Sample p) (hd_cache h) (hd_samples h) (ht_stacktraces (hd_tables h))
        = Some (out_addrs ?b ?n ?k, r, lc, st, ht_stacktraces T)" "cache_inv lc" "take ?b st = hd_samples h"
      "\<forall>i < ?k. \<forall>ty < ?n. let g = st ! (?b + i * ?n + ty)
         in sample_rel (ds_slice (ht_strings T)) p ty g (p_Sample p ! i) \<and> sv_StacktraceID g = stack_ref r i"
    using convertSamples_ok[OF k4 h(2) wfs(3,2) parts(5)] by blast
  have "stored_sample H T r p ty (p_Sample p ! i) (st ! (?b + i * ?n + ty))" if "ty < ?n" "i < ?k" for ty i
    using c(4) T(5) that by (fastforce simp: stored_sample_def stack_ref_def no_collision_def Let_def)
  then have "list_all2 (\<lambda>s a. stored_sample H T r p ty s (st ! a)) (p_Sample p) (out_addrs ?b ?n ?k ! ty)" if "ty < ?n" for ty
    using that by (auto simp: list_all2_conv_all_nth out_addrs_def)
  moreover have "Ingest H HL tfn sz p pid ext h = do {
         let out = out_addrs ?b ?n ?k;
         (h, ingested) \<leftarrow> ingest_types sz p pid r (map (\<lambda>ty. (out ! ty, Some (lfs ! ty))) [0..<?n]) (h\<lparr>hd_tables := T, hd_samples := st, hd_cache := lc\<rparr>) False;
         Some (if ingested then note_ingested tfn sz p h else h) }"
    if "labelsForProfile HL p ext = Some lfs" "length lfs = ?n" for HL tfn pid ext lfs
  proof -
    have "map (\<lambda>ty. (out_addrs ?b ?n ?k ! ty, if ty < length lfs then Some (lfs ! ty) else None)) [0..<length (out_addrs ?b ?n ?k)]
        = map (\<lambda>ty. (out_addrs ?b ?n ?k ! ty, Some (lfs ! ty))) [0..<?n]" using that(2) by (simp add: out_addrs_def)
    then show ?thesis by (cases T) (simp add: Ingest_def that(1) parts[simplified] c(1)[simplified] Let_def)
  qed
  ultimately show ?thesis using T(1-4) c(2,3)
    by (intro exI[of _ T] exI[of _ r] exI[of _ lc] exI[of _ st]) simp
qed

subsection \<open>Properties\<close>

text \<open>
  C21. \<open>Ingest\<close> of a well-formed profile that is not a cumulative one does not panic. It stores one
  profile per sample type at the end of the table of profiles, with the ID, the time and the
  fingerprint of its label set; its samples have, in order, the values of that type, the labels
  and the stack traces of the samples of the profile (stack traces unless the hash collides). The
  index has exactly these profiles added under their labels, all earlier profiles, samples and
  symbols stay, and the invariant of the head holds again.
\<close>

theorem Ingest_stores:
  assumes inv: "head_inv H h hist" and wf: "wf_profile p" and room: "room p (hd_tables h)"
    and ext: "distinct (map lp_Name ext)" and nd: "Labels_Get ext Labels.MetricName \<noteq> ''memory''"
  shows "\<exists>h' r lfs Ps. Ingest H HL tfn sz p pid ext h = Some h' \<and> ingest_tables H sz p (hd_tables h) = Some (hd_tables h', r)
    \<and> list_all2 (labels_for HL p ext) (p_SampleType p) lfs
    \<and> ds_slice (hd_profiles h') = ds_slice (hd_profiles h) @ Ps \<and> length Ps = length (p_SampleType p)
    \<and> (\<forall>ty < length Ps. stored_profile H (hd_tables h') r (hd_samples h') p pid ty (snd (lfs ! ty)) (Ps ! ty))
    \<and> tables_grow (hd_tables h) (hd_tables h') \<and> take (length (hd_samples h)) (hd_samples h') = hd_samples h
    \<and> head_inv H h' (hist @ map (\<lambda>ty. (length (ds_slice (hd_profiles h)) + ty, snd (lfs ! ty), fst (lfs ! ty))) [0..<length Ps])"
proof -
  let ?n = "length (p_SampleType p)"
  let ?out = "out_addrs (length (hd_samples h)) ?n (length (p_Sample p))"
  obtain lfs where lfs: "labelsForProfile HL p ext = Some lfs" "list_all2 (labels_for HL p ext) (p_SampleType p) lfs"
    using labelsForProfile_ok[OF ext, of p HL] wf by (auto simp: wf_profile_def)
  have len: "length lfs = ?n" using lfs(2) by (auto simp: list_all2_lengthD)
  obtain T r lc st where I: "ingest_tables H sz p (hd_tables h) = Some (T, r)" "tables_inv H T" "tables_grow (hd_tables h) T"
      "cache_inv lc" "strings_known (ds_slice (ht_strings T)) p r" "take (length (hd_samples h)) st = hd_samples h"
      "\<forall>ty < ?n. list_all2 (\<lambda>s a. stored_sample H T r p ty s (st ! a)) (p_Sample p) (?out ! ty)"
    and run: "Ingest H HL tfn sz p pid ext h = do {
         let out = ?out;
         (h, ingested) \<leftarrow> ingest_types sz p pid r (map (\<lambda>ty. (out ! ty, Some (lfs ! ty))) [0..<?n]) (h\<lparr>hd_tables := T, hd_samples := st, hd_cache := lc\<rparr>) False;
         Some (if ingested then note_ingested tfn sz p h else h) }"
    using Ingest_samples[OF inv wf room, of sz] lfs(1) len by blast
  let ?h = "h\<lparr>hd_tables := T, hd_samples := st, hd_cache := lc\<rparr>" and ?tys = "map (\<lambda>ty. (?out ! ty, lfs ! ty)) [0..<?n]"
  have good: "\<forall>(samples, lbs, fp) \<in> set ?tys. \<not> isDelta lbs \<and> distinct (map lp_Name lbs)"
  proof -
    have "\<not> isDelta (fst (lfs ! ty)) \<and> distinct (map lp_Name (fst (lfs ! ty)))" if "ty < ?n" for ty
      using not_delta[OF list_all2_nthD[OF lfs(2) that] nd] .
    then show ?thesis by auto (metis fst_conv)+
  qed
  obtain pt Ps ix where t: "ingest_types sz p pid r (map (\<lambda>(samples, lf). (samples, Some lf)) ?tys) ?h False = Some (?h\<lparr>hd_profiles := pt, hd_index := ix\<rparr>, ?tys \<noteq> [])"
      "ds_slice pt = ds_slice (hd_profiles h) @ Ps" "list_all2 (\<lambda>(samples, lbs, fp) P. profile_rel (ds_slice (ht_strings T)) p pid samples fp P) ?tys Ps"
      "pi_inv ix (hist @ additions (length (ds_slice (hd_profiles h))) ?tys)"
    using ingest_types_ok[OF I(5), of ?h hist ?tys sz pid False] wf inv good by (auto simp: wf_profile_def head_inv_def)
  let ?h' = "note_ingested tfn sz p (?h\<lparr>hd_profiles := pt, hd_index := ix\<rparr>)"
  have ne: "?tys \<noteq> []" using wf by (simp add: wf_profile_def)
  then have res: "Ingest H HL tfn sz p pid ext h = Some ?h'" using run t(1) by (simp add: comp_def)
  have nf: "hd_tables ?h' = T" "hd_samples ?h' = st" "hd_cache ?h' = lc" "hd_index ?h' = ix" "hd_profiles ?h' = pt"
    by (simp_all add: note_ingested_def Let_def)
  have Ps: "length Ps = ?n" "\<forall>ty < ?n. profile_rel (ds_slice (ht_strings T)) p pid (?out ! ty) (snd (lfs ! ty)) (Ps ! ty)"
    using t(3) by (auto simp: list_all2_conv_all_nth split_beta)
  then have st: "\<forall>ty < length Ps. stored_profile H T r st p pid ty (snd (lfs ! ty)) (Ps ! ty)"
    using I(7) by (auto simp: stored_profile_def profile_rel_def)
  have "head_inv H ?h' (hist @ map (\<lambda>ty. (length (ds_slice (hd_profiles h)) + ty, snd (lfs ! ty), fst (lfs ! ty))) [0..<length Ps])"
    by (rule head_inv_additions[OF inv, where Ps = Ps]) (use nf t(2,4) Ps I(2,4) in \<open>auto simp: additions_map profile_rel_def\<close>)
  then show ?thesis using res I(1,3,6) lfs(2) t(2) Ps(1) st nf by (intro exI[of _ ?h'] exI[of _ r] exI[of _ lfs] exI[of _ Ps]) simp
qed

lemma NewHead_inv: "NewHead pi0 = h \<Longrightarrow> newProfileIndex 32 = Inr pi0 \<Longrightarrow> head_inv H h []"
  using newProfileIndex_inv[of pi0] by (auto simp: NewHead_def head_inv_def tables_inv_def new_tables_def ds_inv_def ds_init_def cache_inv_def labelCache_init_def)

theorem Ingest_stores_witness:
  "\<exists>pi0 h' Ps. newProfileIndex 32 = Inr pi0
     \<and> Ingest demo_hash (\<lambda>s. of_nat (length s)) (\<lambda>t. t) (struct_sizes.extend demo_sizes \<lparr>labelSize = 32, profileSize = 64, sampleSize = 32\<rparr>)
         (demo_profile\<lparr>p_SampleType := [\<lparr>vt_Type = 1, vt_Unit = 2\<rparr>]\<rparr>) 5 [mk_label Labels.MetricName ''cpu''] (NewHead pi0) = Some h'
     \<and> ds_slice (hd_profiles h') = Ps \<and> length Ps = 1 \<and> length (pr_Samples (Ps ! 0)) = 1"
proof -
  let ?p = "demo_profile\<lparr>p_SampleType := [\<lparr>vt_Type = 1, vt_Unit = 2\<rparr>]\<rparr>" and ?ext = "[mk_label Labels.MetricName ''cpu'']"
  obtain pi0 where n: "newProfileIndex 32 = Inr pi0"
    using valid_32 by (auto simp: newProfileIndex_def NewBitPrefixWithShards_def simp del: replicate.simps split: if_splits)
  have wf: "wf_profile ?p" by (simp add: wf_profile_def wf_pprof_def demo_profile_def types_ok_def refs_ok_def sample_ok_def)
  have room: "room ?p (hd_tables (NewHead pi0))" by (simp add: room_def demo_profile_def NewHead_def new_tables_def ds_init_def)
  have "distinct (map lp_Name ?ext)" "Labels_Get ?ext Labels.MetricName \<noteq> ''memory''" by simp_all
  from Ingest_stores[OF NewHead_inv[OF refl n] wf room this, of demo_hash "\<lambda>s. of_nat (length s)" "\<lambda>t. t"
      "struct_sizes.extend demo_sizes \<lparr>labelSize = 32, profileSize = 64, sampleSize = 32\<rparr>" 5]
  show ?thesis using n by (fastforce simp: stored_profile_def demo_profile_def NewHead_def ds_init_def dest: list_all2_lengthD)
qed

end
