(* ===== verification/Stack_Merge.thy ===== *)
theory Stack_Merge
  imports Go_Sort
begin

section \<open>Merging stack traces (pkg/model/stacktraces.go)\<close>

text \<open>
  \<open>MergeBatchMergeStacktraces\<close> merges the results of several ingesters, each with its own table of
  function names and samples whose stacks are slices of indices into the table, into the first
  result that is not empty. It rewrites the slices of the others in place. Samples may share a
  slice, so the slices live in a store: a sample holds the address of its slice (in Go the address
  of the first element, the key of \<open>functionIDsUniq\<close>), and the store is part of the result.

  An index into a table that is out of range panics: \<open>None\<close>. The hash \<open>xxhash\<close> is third-party code,
  the parameter \<open>H\<close> from the bytes written to the sum.
\<close>

record StacktraceSample =
  ss_FunctionIds :: nat
  ss_Value :: i64

record MergeProfilesStacktracesResult =
  mr_Stacktraces :: "StacktraceSample list"
  mr_FunctionNames :: "string list"

type_synonym store = "nat \<Rightarrow> i32 list"

subsection \<open>The code\<close>

definition le_bytes :: "i32 \<Rightarrow> u8 list" where
  "le_bytes w = map (\<lambda>i. ucast (drop_bit (8 * i) w)) [0..<4]"

definition Hashes :: "(u8 list \<Rightarrow> u64) \<Rightarrow> i32 list \<Rightarrow> u64" where
  "Hashes H fnIds = H (concat (map le_bytes fnIds))"

definition idx_ok :: "nat \<Rightarrow> i32 \<Rightarrow> bool" where
  "idx_ok len i \<longleftrightarrow> 0 \<le> sint i \<and> sint i < int len"

definition at_idx :: "'a list \<Rightarrow> i32 \<Rightarrow> 'a" where
  "at_idx xs i = xs ! nat (sint i)"

text \<open>The lookup table from the first result: the last position of each name.\<close>

definition build_posByName :: "string list \<Rightarrow> (string \<times> i32) list" where
  "build_posByName names = fold (\<lambda>(idx, n) m. AList.update n (of_nat idx) m) (enumerate 0 names) []"

text \<open>The loop that looks up the names of a result and appends the missing ones.\<close>

fun lookup_names :: "(string \<times> i32) list \<Rightarrow> string list \<Rightarrow> i32 list \<Rightarrow> string list \<Rightarrow> i32 list \<times> string list" where
  "lookup_names pos [] rw names = (rw, names)"
| "lookup_names pos (n # ns) rw names =
     (case map_of pos n of
        Some i \<Rightarrow> lookup_names pos ns (rw @ [i]) names
      | None \<Rightarrow> lookup_names pos ns (rw @ [of_nat (length names)]) (names @ [n]))"

definition rewrite_slice :: "i32 list \<Rightarrow> i32 list \<Rightarrow> i32 list option" where
  "rewrite_slice rw ids =
     (if \<forall>i \<in> set ids. idx_ok (length rw) i then Some (map (at_idx rw) ids) else None)"

text \<open>The distinct slices that are not empty, and their rewriting in place.\<close>

definition functionIDsUniq :: "store \<Rightarrow> StacktraceSample list \<Rightarrow> nat list" where
  "functionIDsUniq st samples = remdups (map ss_FunctionIds (filter (\<lambda>s. st (ss_FunctionIds s) \<noteq> []) samples))"

fun rewrite_all :: "i32 list \<Rightarrow> nat list \<Rightarrow> store \<Rightarrow> store option" where
  "rewrite_all rw [] st = Some st"
| "rewrite_all rw (a # as) st =
     (case rewrite_slice rw (st a) of None \<Rightarrow> None | Some ids \<Rightarrow> rewrite_all rw as (st(a := ids)))"

text \<open>The samples: merged into the sample with the same hash, or appended. The map \<open>stacktraces\<close>
  holds positions in the result.\<close>

fun merge_samples :: "(u8 list \<Rightarrow> u64) \<Rightarrow> store \<Rightarrow> StacktraceSample list \<Rightarrow> (u64 \<times> nat) list \<Rightarrow> StacktraceSample list
    \<Rightarrow> (u64 \<times> nat) list \<times> StacktraceSample list" where
  "merge_samples H st [] m res = (m, res)"
| "merge_samples H st (s # ss) m res =
     (if st (ss_FunctionIds s) = [] then merge_samples H st ss m res
      else let hash = Hashes H (st (ss_FunctionIds s))
           in case map_of m hash of
                Some i \<Rightarrow> merge_samples H st ss m (res[i := (res ! i)\<lparr>ss_Value := ss_Value (res ! i) + ss_Value s\<rparr>])
              | None \<Rightarrow> merge_samples H st ss (AList.update hash (length res) m) (res @ [s]))"

record merge_state =
  ms_result :: "MergeProfilesStacktracesResult option"
  ms_posByName :: "(string \<times> i32) list option"
  ms_stacktraces :: "(u64 \<times> nat) list"
  ms_store :: store

definition first_map :: "(u8 list \<Rightarrow> u64) \<Rightarrow> store \<Rightarrow> StacktraceSample list \<Rightarrow> (u64 \<times> nat) list" where
  "first_map H st samples =
     fold (\<lambda>(i, s) m. AList.update (Hashes H (st (ss_FunctionIds s))) i m) (enumerate 0 samples) []"

definition merge_response :: "(u8 list \<Rightarrow> u64) \<Rightarrow> MergeProfilesStacktracesResult option \<Rightarrow> merge_state \<Rightarrow> merge_state option" where
  "merge_response H resp s =
     (case resp of
        None \<Rightarrow> Some s
      | Some resp \<Rightarrow>
          if mr_Stacktraces resp = [] then Some s
          else case ms_result s of
            None \<Rightarrow> Some (s\<lparr>ms_result := Some resp, ms_stacktraces := first_map H (ms_store s) (mr_Stacktraces resp)\<rparr>)
          | Some result \<Rightarrow>
              let pos = (case ms_posByName s of Some p \<Rightarrow> p | None \<Rightarrow> build_posByName (mr_FunctionNames result));
                  (rw, names) = lookup_names pos (mr_FunctionNames resp) [] (mr_FunctionNames result)
              in (case rewrite_all rw (functionIDsUniq (ms_store s) (mr_Stacktraces resp)) (ms_store s) of
                    None \<Rightarrow> None
                  | Some st \<Rightarrow>
                      let (m, samples) = merge_samples H st (mr_Stacktraces resp) (ms_stacktraces s) (mr_Stacktraces result)
                      in Some \<lparr>ms_result = Some \<lparr>mr_Stacktraces = samples, mr_FunctionNames = names\<rparr>,
                               ms_posByName = Some pos, ms_stacktraces = m, ms_store = st\<rparr>))"

fun merge_responses :: "(u8 list \<Rightarrow> u64) \<Rightarrow> MergeProfilesStacktracesResult option list \<Rightarrow> merge_state \<Rightarrow> merge_state option" where
  "merge_responses H [] s = Some s"
| "merge_responses H (r # rs) s = (case merge_response H r s of None \<Rightarrow> None | Some s \<Rightarrow> merge_responses H rs s)"

text \<open>
  The comparison of \<open>sortStacktraces\<close>, by names from the first position on; it is true on equal
  stacks. A name that is out of range panics.
\<close>

fun stack_less :: "string list \<Rightarrow> i32 list \<Rightarrow> i32 list \<Rightarrow> bool" where
  "stack_less names [] bs = True"
| "stack_less names (a # as) [] = False"
| "stack_less names (a # as) (b # bs) =
     (if at_idx names a < at_idx names b then True
      else if at_idx names a > at_idx names b then False
      else stack_less names as bs)"

definition sortStacktraces :: "store \<Rightarrow> MergeProfilesStacktracesResult \<Rightarrow> MergeProfilesStacktracesResult" where
  "sortStacktraces st r =
     r\<lparr>mr_Stacktraces := sort_slice (\<lambda>a b. stack_less (mr_FunctionNames r) (st (ss_FunctionIds a)) (st (ss_FunctionIds b))) (mr_Stacktraces r)\<rparr>"

definition ids_in_range :: "store \<Rightarrow> MergeProfilesStacktracesResult \<Rightarrow> bool" where
  "ids_in_range st r \<longleftrightarrow>
     (\<forall>s \<in> set (mr_Stacktraces r). \<forall>i \<in> set (st (ss_FunctionIds s)). idx_ok (length (mr_FunctionNames r)) i)"

definition MergeBatchMergeStacktraces :: "(u8 list \<Rightarrow> u64) \<Rightarrow> store \<Rightarrow> MergeProfilesStacktracesResult option list
    \<Rightarrow> (MergeProfilesStacktracesResult \<times> store) option" where
  "MergeBatchMergeStacktraces H st responses =
     (case merge_responses H responses \<lparr>ms_result = None, ms_posByName = None, ms_stacktraces = [], ms_store = st\<rparr> of
        None \<Rightarrow> None
      | Some s \<Rightarrow>
          let result = (case ms_result s of None \<Rightarrow> \<lparr>mr_Stacktraces = [], mr_FunctionNames = []\<rparr> | Some r \<Rightarrow> r)
          in if length (mr_Stacktraces result) \<le> 1 \<or> ids_in_range (ms_store s) result
             then Some (sortStacktraces (ms_store s) result, ms_store s) else None)"

subsection \<open>The encoding that is hashed\<close>

lemma le_bytes_inj: "le_bytes v = le_bytes w \<Longrightarrow> v = w"
proof (rule bit_word_eqI)
  fix n assume eq: "le_bytes v = le_bytes w" and n: "n < LENGTH(32)"
  have byte: "(ucast (drop_bit (8 * i) v) :: u8) = ucast (drop_bit (8 * i) w)" if "i < 4" for i
    using arg_cong[OF eq, of "\<lambda>bs. bs ! i"] that by (simp add: le_bytes_def)
  let ?i = "n div 8"
  have "?i < 4" using n by simp
  then have "bit (ucast (drop_bit (8 * ?i) v) :: u8) (n mod 8) = bit (ucast (drop_bit (8 * ?i) w) :: u8) (n mod 8)"
    using byte by simp
  then show "bit v n = bit w n" by (simp add: bit_simps)
qed

lemma length_le_bytes [simp]: "length (le_bytes w) = 4"
  by (simp add: le_bytes_def)

lemma le_encoding_inj: "concat (map le_bytes xs) = concat (map le_bytes ys) \<Longrightarrow> xs = ys"
proof (induction xs arbitrary: ys)
  case Nil
  then show ?case by (cases ys) (auto dest: arg_cong[of _ _ length])
next
  case (Cons x xs)
  then obtain y ys' where ys: "ys = y # ys'" by (cases ys) (auto dest: arg_cong[of _ _ length])
  then have "le_bytes x @ concat (map le_bytes xs) = le_bytes y @ concat (map le_bytes ys')" using Cons.prems by simp
  then have "le_bytes x = le_bytes y" "concat (map le_bytes xs) = concat (map le_bytes ys')"
    using append_eq_append_conv[of "le_bytes x" "le_bytes y"] by simp_all
  then show ?case using Cons.IH ys le_bytes_inj by blast
qed

lemma sint_of_nat_32: "n < 2 ^ 31 \<Longrightarrow> sint (of_nat n :: i32) = int n"
  by (simp add: signed_of_nat signed_take_bit_int_eq_self)

subsection \<open>The value of a stack\<close>

definition stack_of :: "string list \<Rightarrow> store \<Rightarrow> StacktraceSample \<Rightarrow> string list" where
  "stack_of names st s = map (at_idx names) (st (ss_FunctionIds s))"

definition value_of :: "string list \<Rightarrow> store \<Rightarrow> StacktraceSample list \<Rightarrow> string list \<Rightarrow> i64" where
  "value_of names st samples k = (\<Sum>s \<leftarrow> samples. if stack_of names st s = k then ss_Value s else 0)"

definition resp_value :: "store \<Rightarrow> string list \<Rightarrow> MergeProfilesStacktracesResult option \<Rightarrow> i64" where
  "resp_value st k resp =
     (case resp of None \<Rightarrow> 0 | Some r \<Rightarrow> value_of (mr_FunctionNames r) st (mr_Stacktraces r) k)"

lemma value_of_simps [simp]:
  "value_of names st [] k = 0"
  "value_of names st (s # ss) k = (if stack_of names st s = k then ss_Value s else 0) + value_of names st ss k"
  "value_of names st (ss @ ts) k = value_of names st ss k + value_of names st ts k"
  by (simp_all add: value_of_def)

lemma value_of_mset:
  assumes "mset ss = mset ts"
  shows "value_of names st ss k = value_of names st ts k"
proof -
  let ?f = "\<lambda>s. if stack_of names st s = k then ss_Value s else 0"
  have "(\<Sum>s \<leftarrow> xs. ?f s) = (\<Sum>s \<in># mset xs. ?f s)" for xs by (induction xs) auto
  then show ?thesis by (simp only: value_of_def assms)
qed

lemma value_of_sorted [simp]: "value_of names st (sort_slice lt ss) k = value_of names st ss k"
  by (rule value_of_mset) simp

lemma value_of_cong:
  "(\<And>s. s \<in> set ss \<Longrightarrow> stack_of names st s = stack_of names' st' s) \<Longrightarrow> value_of names st ss k = value_of names' st' ss k"
  by (induction ss) auto

lemma value_of_add:
  "i < length res \<Longrightarrow> value_of names st (res[i := (res ! i)\<lparr>ss_Value := ss_Value (res ! i) + v\<rparr>]) k
     = value_of names st res k + (if stack_of names st (res ! i) = k then v else 0)"
proof (induction res arbitrary: i)
  case (Cons r res)
  have "stack_of names st (r\<lparr>ss_Value := u\<rparr>) = stack_of names st r" for r u by (simp add: stack_of_def)
  then show ?case using Cons by (cases i) auto
qed simp

abbreviation addrs :: "StacktraceSample list \<Rightarrow> nat set" where
  "addrs ss \<equiv> ss_FunctionIds ` set ss"

definition encodings :: "store \<Rightarrow> nat set \<Rightarrow> u8 list set" where
  "encodings st A = (\<lambda>a. concat (map le_bytes (st a))) ` A"

subsection \<open>The samples of one response\<close>

definition map_ok :: "(u8 list \<Rightarrow> u64) \<Rightarrow> store \<Rightarrow> (u64 \<times> nat) list \<Rightarrow> StacktraceSample list \<Rightarrow> bool" where
  "map_ok H st m res \<longleftrightarrow>
     (\<forall>h i. map_of m h = Some i \<longrightarrow> i < length res \<and> h = Hashes H (st (ss_FunctionIds (res ! i))))"

lemma map_ok_put: "map_ok H st m res \<Longrightarrow> map_ok H st (AList.update (Hashes H (st (ss_FunctionIds s))) (length res) m) (res @ [s])"
  unfolding map_ok_def by (auto simp: AList.update_conv' nth_append less_SucI)

lemma ids_add: "map ss_FunctionIds (res[i := (res ! i)\<lparr>ss_Value := v\<rparr>]) = map ss_FunctionIds res"
  by (cases "i < length res") (auto simp: map_update list_update_same_conv list_update_beyond)

lemma addrs_add: "addrs (res[i := (res ! i)\<lparr>ss_Value := v\<rparr>]) = addrs res"
  by (metis ids_add set_map)

lemma map_ok_add: "map_ok H st m res \<Longrightarrow> map_ok H st m (res[i := (res ! i)\<lparr>ss_Value := v\<rparr>])"
proof -
  have "j < length res \<Longrightarrow> ss_FunctionIds (res[i := (res ! i)\<lparr>ss_Value := v\<rparr>] ! j) = ss_FunctionIds (res ! j)" for j
    using arg_cong[OF ids_add[of res i v], of "\<lambda>l. l ! j"] by simp
  then show "map_ok H st m res \<Longrightarrow> ?thesis" unfolding map_ok_def by auto
qed

lemma merge_samples_struct:
  "map_ok H st m res \<Longrightarrow> merge_samples H st ss m res = (m', res') \<Longrightarrow> map_ok H st m' res' \<and> addrs res' \<subseteq> addrs res \<union> addrs ss"
proof (induction H st ss m res arbitrary: m' res' rule: merge_samples.induct)
  case (2 H st s ss m res)
  let ?h = "Hashes H (st (ss_FunctionIds s))"
  show ?case
  proof (cases "st (ss_FunctionIds s) = []")
    case True
    then show ?thesis using "2.IH"(1)[OF True "2.prems"(1)] "2.prems"(2) by auto
  next
    case False
    show ?thesis
    proof (cases "map_of m ?h")
      case None
      then show ?thesis using "2.IH"(2)[OF False refl None map_ok_put[OF "2.prems"(1)]] "2.prems"(2) False by (auto simp: Let_def)
    next
      case (Some i)
      then show ?thesis using "2.IH"(3)[OF False refl Some map_ok_add[OF "2.prems"(1)]] "2.prems"(2) False
        by (auto simp: Let_def addrs_add)
    qed
  qed
qed simp

lemma merge_samples_values:
  "map_ok H st m res \<Longrightarrow> inj_on H (encodings st (addrs res \<union> addrs ss)) \<Longrightarrow>
   value_of names st (snd (merge_samples H st ss m res)) k = value_of names st res k + (if k = [] then 0 else value_of names st ss k)"
proof (induction H st ss m res rule: merge_samples.induct)
  case (2 H st s ss m res)
  let ?h = "Hashes H (st (ss_FunctionIds s))"
  have inj: "inj_on H (encodings st (A \<union> addrs ss))" if "A \<subseteq> insert (ss_FunctionIds s) (addrs res)" for A
    using "2.prems"(2) by (rule inj_on_subset) (use that in \<open>auto simp: encodings_def\<close>)
  show ?case
  proof (cases "st (ss_FunctionIds s) = []")
    case True
    then have "k = [] \<or> stack_of names st s \<noteq> k" by (auto simp: stack_of_def)
    then show ?thesis using "2.IH"(1)[OF True "2.prems"(1) inj[OF subset_insertI]] True by auto
  next
    case False
    then have ne: "stack_of names st s \<noteq> []" by (simp add: stack_of_def)
    show ?thesis
    proof (cases "map_of m ?h")
      case None
      have "value_of names st (snd (merge_samples H st ss (AList.update ?h (length res) m) (res @ [s]))) k
          = value_of names st (res @ [s]) k + (if k = [] then 0 else value_of names st ss k)"
        using "2.IH"(2)[OF False refl None map_ok_put[OF "2.prems"(1)] inj] by simp
      then show ?thesis using None False ne by (simp add: Let_def)
    next
      case (Some i)
      then have i: "i < length res" "?h = Hashes H (st (ss_FunctionIds (res ! i)))" using "2.prems"(1) by (auto simp: map_ok_def)
      have "concat (map le_bytes (st (ss_FunctionIds s))) = concat (map le_bytes (st (ss_FunctionIds (res ! i))))"
        by (rule inj_onD[OF "2.prems"(2)]) (use i in \<open>auto simp: encodings_def Hashes_def\<close>)
      then have same: "stack_of names st (res ! i) = stack_of names st s"
        using le_encoding_inj[of "st (ss_FunctionIds s)" "st (ss_FunctionIds (res ! i))"] by (simp add: stack_of_def)
      let ?res = "res[i := (res ! i)\<lparr>ss_Value := ss_Value (res ! i) + ss_Value s\<rparr>]"
      have "value_of names st (snd (merge_samples H st ss m ?res)) k = value_of names st ?res k + (if k = [] then 0 else value_of names st ss k)"
        using "2.IH"(3)[OF False refl Some map_ok_add[OF "2.prems"(1)]] inj[OF subset_insertI] by (simp only: addrs_add)
      then show ?thesis using Some False i(1) same ne by (simp add: Let_def value_of_add)
    qed
  qed
qed simp

text \<open>The samples of the result have different hashes, and all of them are in the map.\<close>

definition listed_once :: "(u8 list \<Rightarrow> u64) \<Rightarrow> store \<Rightarrow> (u64 \<times> nat) list \<Rightarrow> StacktraceSample list \<Rightarrow> bool" where
  "listed_once H st m res \<longleftrightarrow> distinct (map (\<lambda>a. Hashes H (st a)) (map ss_FunctionIds res))
     \<and> (\<forall>a \<in> set (map ss_FunctionIds res). map_of m (Hashes H (st a)) \<noteq> None)"

lemma merge_samples_once:
  "listed_once H st m res \<Longrightarrow> merge_samples H st ss m res = (m', res') \<Longrightarrow> listed_once H st m' res'"
proof (induction H st ss m res arbitrary: m' res' rule: merge_samples.induct)
  case (2 H st s ss m res)
  let ?h = "Hashes H (st (ss_FunctionIds s))"
  show ?case
  proof (cases "st (ss_FunctionIds s) = []")
    case True
    then show ?thesis using "2.IH"(1)[OF True "2.prems"(1)] "2.prems"(2) by auto
  next
    case False
    show ?thesis
    proof (cases "map_of m ?h")
      case None
      then have "listed_once H st (AList.update ?h (length res) m) (res @ [s])"
        using "2.prems"(1) by (auto simp: listed_once_def AList.update_conv')
      then show ?thesis using "2.IH"(2)[OF False refl None] "2.prems"(2) None False by (auto simp: Let_def)
    next
      case (Some i)
      then have "listed_once H st m (res[i := (res ! i)\<lparr>ss_Value := v\<rparr>])" for v
        using "2.prems"(1) unfolding listed_once_def ids_add by blast
      then show ?thesis using "2.IH"(3)[OF False refl Some] "2.prems"(2) Some False by (auto simp: Let_def)
    qed
  qed
qed simp

subsection \<open>The names\<close>

definition names_ix :: "string list \<Rightarrow> i32 \<Rightarrow> string \<Rightarrow> bool" where
  "names_ix names i n \<longleftrightarrow> idx_ok (length names) i \<and> at_idx names i = n"

definition pos_ok :: "(string \<times> i32) list \<Rightarrow> string list \<Rightarrow> bool" where
  "pos_ok pos names \<longleftrightarrow> (\<forall>n i. map_of pos n = Some i \<longrightarrow> names_ix names i n)"

lemma at_idx_append: "idx_ok (length xs) i \<Longrightarrow> at_idx (xs @ ys) i = at_idx xs i"
  by (auto simp: idx_ok_def at_idx_def nth_append)

lemma idx_ok_append: "idx_ok (length xs) i \<Longrightarrow> idx_ok (length (xs @ ys)) i"
  by (auto simp: idx_ok_def)

lemma names_ix_append: "names_ix names i n \<Longrightarrow> names_ix (names @ new) i n"
  by (auto simp: names_ix_def at_idx_append idx_ok_def)

lemma names_ix_last: "length names < 2 ^ 31 \<Longrightarrow> names_ix (names @ [n]) (of_nat (length names)) n"
  by (simp add: names_ix_def idx_ok_def at_idx_def sint_of_nat_32)

lemma lookup_names_ok:
  assumes "lookup_names pos ns rw names = (rw', names')" and "pos_ok pos names"
    and "list_all2 (names_ix names) rw ds" and "length names + length ns \<le> 2 ^ 31"
  shows "list_all2 (names_ix names') rw' (ds @ ns) \<and> (\<exists>new. names' = names @ new) \<and> length names' \<le> length names + length ns"
  using assms
proof (induction pos ns rw names arbitrary: ds rule: lookup_names.induct)
  case (2 pos n ns rw names)
  show ?case
  proof (cases "map_of pos n")
    case None
    have up: "list_all2 (names_ix (names @ [n])) rw ds" using "2.prems"(3) by (rule list_all2_mono) (rule names_ix_append)
    have "list_all2 (names_ix (names @ [n])) (rw @ [of_nat (length names)]) (ds @ [n])"
      using up names_ix_last[of names n] "2.prems"(4) by (auto intro: list_all2_appendI)
    moreover have "pos_ok pos (names @ [n])" using "2.prems"(2) names_ix_append by (auto simp: pos_ok_def)
    ultimately show ?thesis using "2.IH"(1)[OF None _ _ , of "ds @ [n]"] "2.prems"(1,4) None by auto
  next
    case (Some i)
    then have "list_all2 (names_ix names) (rw @ [i]) (ds @ [n])" using "2.prems"(2,3) by (auto simp: pos_ok_def intro: list_all2_appendI)
    then show ?thesis using "2.IH"(2)[OF Some _ "2.prems"(2), of "ds @ [n]"] "2.prems"(1,4) Some by auto
  qed
qed auto

lemma build_pos_ok: "length names < 2 ^ 31 \<Longrightarrow> pos_ok (build_posByName names) names"
proof -
  assume bound: "length names < 2 ^ 31"
  let ?f = "\<lambda>(idx, n) m. AList.update n (of_nat idx :: i32) m"
  have "map_of (fold ?f ps m) n = Some i \<Longrightarrow> (\<exists>k. (k, n) \<in> set ps \<and> i = of_nat k) \<or> map_of m n = Some i" for ps m n i
    by (induction ps arbitrary: m) (force simp: AList.update_conv' split: if_splits)+
  then have "map_of (build_posByName names) n = Some i \<Longrightarrow> \<exists>k < length names. names ! k = n \<and> i = of_nat k" for n i
    unfolding build_posByName_def by (fastforce simp: in_set_enumerate_eq)
  then show ?thesis unfolding pos_ok_def names_ix_def idx_ok_def at_idx_def
    using bound by (fastforce simp: sint_of_nat_32)
qed

subsection \<open>One response\<close>

lemma rewrite_all_ok:
  "distinct as \<Longrightarrow> \<forall>a \<in> set as. \<forall>i \<in> set (st a). idx_ok (length rw) i \<Longrightarrow>
   rewrite_all rw as st = Some (\<lambda>a. if a \<in> set as then map (at_idx rw) (st a) else st a)"
  by (induction rw as st rule: rewrite_all.induct) (auto simp: rewrite_slice_def fun_eq_iff)

abbreviation resp_addrs :: "MergeProfilesStacktracesResult option \<Rightarrow> nat set" where
  "resp_addrs resp \<equiv> (case resp of None \<Rightarrow> {} | Some r \<Rightarrow> addrs (mr_Stacktraces r))"

abbreviation resp_names :: "MergeProfilesStacktracesResult option \<Rightarrow> nat" where
  "resp_names resp \<equiv> (case resp of None \<Rightarrow> 0 | Some r \<Rightarrow> length (mr_FunctionNames r))"

text \<open>The state after the responses whose slices are \<open>A\<close> and that have \<open>n\<close> names in all.\<close>

definition merge_inv :: "(u8 list \<Rightarrow> u64) \<Rightarrow> store \<Rightarrow> nat set \<Rightarrow> nat \<Rightarrow> merge_state \<Rightarrow> bool" where
  "merge_inv H st A n s \<longleftrightarrow> (\<forall>a. a \<notin> A \<longrightarrow> ms_store s a = st a) \<and>
     (case ms_result s of
        None \<Rightarrow> ms_posByName s = None
      | Some r \<Rightarrow> ids_in_range (ms_store s) r \<and> length (mr_FunctionNames r) \<le> n \<and> addrs (mr_Stacktraces r) \<subseteq> A
          \<and> (\<forall>p. ms_posByName s = Some p \<longrightarrow> pos_ok p (mr_FunctionNames r))
          \<and> map_ok H (ms_store s) (ms_stacktraces s) (mr_Stacktraces r))"

definition state_value :: "merge_state \<Rightarrow> string list \<Rightarrow> i64" where
  "state_value s k = resp_value (ms_store s) k (ms_result s)"

definition state_once :: "(u8 list \<Rightarrow> u64) \<Rightarrow> merge_state \<Rightarrow> bool" where
  "state_once H s \<longleftrightarrow> (\<forall>r. ms_result s = Some r \<longrightarrow> listed_once H (ms_store s) (ms_stacktraces s) (mr_Stacktraces r))"

text \<open>
  The first response with samples, into which the others are merged.  Its samples of the empty stack stay,
  those of the others are skipped.
\<close>

definition first_response :: "MergeProfilesStacktracesResult option list \<Rightarrow> MergeProfilesStacktracesResult option" where
  "first_response rs = (case filter (\<lambda>resp. \<exists>q. resp = Some q \<and> mr_Stacktraces q \<noteq> []) rs of [] \<Rightarrow> None | resp # _ \<Rightarrow> resp)"

definition merged_value :: "store \<Rightarrow> bool \<Rightarrow> string list \<Rightarrow> MergeProfilesStacktracesResult option list \<Rightarrow> i64" where
  "merged_value st started k rs =
     (if k \<noteq> [] then sum_list (map (resp_value st k) rs) else if started then 0 else resp_value st [] (first_response rs))"

text \<open>The stacks of the first response with samples have different hashes.\<close>

definition first_once :: "(u8 list \<Rightarrow> u64) \<Rightarrow> store \<Rightarrow> MergeProfilesStacktracesResult option list \<Rightarrow> bool" where
  "first_once H st rs \<longleftrightarrow> (\<forall>q. first_response rs = Some q \<longrightarrow>
     distinct (map (\<lambda>s. Hashes H (st (ss_FunctionIds s))) (mr_Stacktraces q)))"

lemma resp_value_empty: "mr_Stacktraces q = [] \<Longrightarrow> resp_value st k (Some q) = 0"
  by (simp add: resp_value_def)

lemma first_map_ok: "map_ok H st (first_map H st ss) ss"
proof -
  let ?f = "\<lambda>(i, s) m. AList.update (Hashes H (st (ss_FunctionIds s))) i m"
  have "map_of (fold ?f ps m) h = Some i \<Longrightarrow> (\<exists>s. (i, s) \<in> set ps \<and> h = Hashes H (st (ss_FunctionIds s))) \<or> map_of m h = Some i" for ps m h i
    by (induction ps arbitrary: m) (force simp: AList.update_conv' split: if_splits)+
  then show ?thesis unfolding map_ok_def first_map_def by (fastforce simp: in_set_enumerate_eq)
qed

lemma first_map_all: "s \<in> set ss \<Longrightarrow> map_of (first_map H st ss) (Hashes H (st (ss_FunctionIds s))) \<noteq> None"
proof -
  let ?f = "\<lambda>(i, s) m. AList.update (Hashes H (st (ss_FunctionIds s))) i m"
  have dom: "dom (map_of (fold ?f ps m)) = (\<lambda>p. Hashes H (st (ss_FunctionIds (snd p)))) ` set ps \<union> dom (map_of m)" for ps :: "(nat \<times> StacktraceSample) list" and m
    by (induction ps arbitrary: m) (auto simp: AList.update_conv' split_beta)
  assume "s \<in> set ss"
  then obtain j where "j < length ss" "ss ! j = s" by (auto simp: in_set_conv_nth)
  then have "(j, s) \<in> set (enumerate 0 ss)" by (simp add: in_set_enumerate_eq)
  then show ?thesis using dom[of "enumerate 0 ss" "[]"] unfolding first_map_def by (force simp: dom_def)
qed

text \<open>The rewritten stacks of a response name the same functions.\<close>

lemma rewritten_stack:
  assumes "list_all2 (names_ix names') rw names" and "\<forall>i \<in> set ids. idx_ok (length names) i"
  shows "map (at_idx names') (map (at_idx rw) ids) = map (at_idx names) ids
    \<and> (\<forall>i \<in> set (map (at_idx rw) ids). idx_ok (length names') i)"
proof -
  have "names_ix names' (at_idx rw i) (at_idx names i)" if "i \<in> set ids" for i
    using assms that list_all2_nthD2[OF assms(1), of "nat (sint i)"] by (auto simp: at_idx_def idx_ok_def)
  then show ?thesis by (auto simp: names_ix_def)
qed

lemma map_ok_store: "map_ok H st m res \<Longrightarrow> (\<And>a. a \<in> addrs res \<Longrightarrow> st' a = st a) \<Longrightarrow> map_ok H st' m res"
  unfolding map_ok_def by (metis imageI nth_mem)

lemma rewrite_response:
  assumes "\<forall>a \<in> addrs ss. \<forall>i \<in> set (st a). idx_ok (length rw) i"
  shows "\<exists>st'. rewrite_all rw (functionIDsUniq st ss) st = Some st'
    \<and> (\<forall>a \<in> addrs ss. st' a = map (at_idx rw) (st a)) \<and> (\<forall>a. a \<notin> addrs ss \<longrightarrow> st' a = st a)"
proof -
  have uniq: "distinct (functionIDsUniq st ss)" "set (functionIDsUniq st ss) = {a \<in> addrs ss. st a \<noteq> []}"
    by (auto simp: functionIDsUniq_def)
  have "rewrite_all rw (functionIDsUniq st ss) st =
      Some (\<lambda>a. if a \<in> set (functionIDsUniq st ss) then map (at_idx rw) (st a) else st a)"
    using assms uniq by (intro rewrite_all_ok) auto
  then show ?thesis by (auto simp: uniq(2))
qed

lemma kept_stack:
  assumes "ids_in_range st r" "x \<in> set (mr_Stacktraces r)" "st' (ss_FunctionIds x) = st (ss_FunctionIds x)"
  shows "stack_of (mr_FunctionNames r @ new) st' x = stack_of (mr_FunctionNames r) st x"
    and "\<forall>i \<in> set (st' (ss_FunctionIds x)). idx_ok (length (mr_FunctionNames r @ new)) i"
  using assms by (auto simp: stack_of_def ids_in_range_def at_idx_append idx_ok_append[of "mr_FunctionNames r", simplified])

lemma merge_response_other:
  assumes inv: "merge_inv H st A n s" and r: "ms_result s = Some r" and ne: "mr_Stacktraces q \<noteq> []"
    and wf: "ids_in_range st q" and dis: "addrs (mr_Stacktraces q) \<inter> A = {}" and bound: "n + length (mr_FunctionNames q) < 2 ^ 31"
  shows "\<exists>s'. merge_response H (Some q) s = Some s' \<and> merge_inv H st (A \<union> addrs (mr_Stacktraces q)) (n + length (mr_FunctionNames q)) s'
    \<and> (\<forall>a \<in> A. ms_store s' a = ms_store s a)
    \<and> (inj_on H (encodings (ms_store s') (A \<union> addrs (mr_Stacktraces q))) \<longrightarrow>
        (\<forall>k. state_value s' k = state_value s k + (if k = [] then 0 else resp_value st k (Some q))))
    \<and> ms_result s' \<noteq> None \<and> (state_once H s \<longrightarrow> state_once H s')"
proof -
  let ?ss = "mr_Stacktraces q" and ?r = "mr_Stacktraces r"
  define pos where "pos = (case ms_posByName s of Some p \<Rightarrow> p | None \<Rightarrow> build_posByName (mr_FunctionNames r))"
  obtain rw names where ln: "lookup_names pos (mr_FunctionNames q) [] (mr_FunctionNames r) = (rw, names)" by fastforce
  have i: "\<forall>a. a \<notin> A \<longrightarrow> ms_store s a = st a" "ids_in_range (ms_store s) r" "length (mr_FunctionNames r) \<le> n" "addrs ?r \<subseteq> A"
      "\<forall>p. ms_posByName s = Some p \<longrightarrow> pos_ok p (mr_FunctionNames r)" "map_ok H (ms_store s) (ms_stacktraces s) ?r"
    using inv r by (auto simp: merge_inv_def)
  have pos: "pos_ok pos (mr_FunctionNames r)"
    using i(3,5) bound build_pos_ok[of "mr_FunctionNames r"] by (auto simp: pos_def split: option.splits)
  obtain new where names: "list_all2 (names_ix names) rw (mr_FunctionNames q)" "names = mr_FunctionNames r @ new"
      "length names \<le> n + length (mr_FunctionNames q)"
    using lookup_names_ok[OF ln pos, of "[]"] i(3) bound by auto
  have old: "ms_store s a = st a" if "a \<in> addrs ?ss" for a using i(1) dis that by auto
  have idsq: "\<forall>i \<in> set (st a). idx_ok (length (mr_FunctionNames q)) i" if "a \<in> addrs ?ss" for a
    using wf that by (auto simp: ids_in_range_def)
  have "length rw = length (mr_FunctionNames q)" using names(1) by (rule list_all2_lengthD)
  then have "\<forall>a \<in> addrs ?ss. \<forall>i \<in> set (ms_store s a). idx_ok (length rw) i" using idsq old by simp
  then obtain st' where st': "rewrite_all rw (functionIDsUniq (ms_store s) ?ss) (ms_store s) = Some st'"
      "\<And>a. a \<in> addrs ?ss \<Longrightarrow> st' a = map (at_idx rw) (ms_store s a)" "\<And>a. a \<notin> addrs ?ss \<Longrightarrow> st' a = ms_store s a"
    using rewrite_response[of ?ss "ms_store s" rw] by blast
  obtain m samples where ms: "merge_samples H st' ?ss (ms_stacktraces s) ?r = (m, samples)" by fastforce
  let ?s' = "\<lparr>ms_result = Some \<lparr>mr_Stacktraces = samples, mr_FunctionNames = names\<rparr>, ms_posByName = Some pos, ms_stacktraces = m, ms_store = st'\<rparr>"
  have step: "merge_response H (Some q) s = Some ?s'"
    using ne r ln st'(1) ms by (simp add: merge_response_def flip: pos_def)
  have stA: "\<forall>a \<in> A. st' a = ms_store s a" using dis st'(3) by blast
  have mok: "map_ok H st' (ms_stacktraces s) ?r"
    using i(4,6) stA by (intro map_ok_store[OF i(6)]) blast
  have sub: "map_ok H st' m samples" "addrs samples \<subseteq> addrs ?r \<union> addrs ?ss"
    using merge_samples_struct[OF mok ms] by auto
  have rq: "stack_of names st' x = stack_of (mr_FunctionNames q) st x" "\<forall>i \<in> set (st' (ss_FunctionIds x)). idx_ok (length names) i"
    if "x \<in> set ?ss" for x
    using rewritten_stack[OF names(1) idsq[of "ss_FunctionIds x"]] that st'(2) old by (simp_all add: stack_of_def)
  have rr: "stack_of names st' x = stack_of (mr_FunctionNames r) (ms_store s) x" "\<forall>i \<in> set (st' (ss_FunctionIds x)). idx_ok (length names) i"
    if "x \<in> set ?r" for x
    using kept_stack[OF i(2) that, of st' new] stA i(4) that names(2) by auto
  have "ids_in_range st' \<lparr>mr_Stacktraces = samples, mr_FunctionNames = names\<rparr>"
    using sub(2) rq(2) rr(2) by (fastforce simp: ids_in_range_def)
  moreover have "addrs samples \<subseteq> A \<union> addrs ?ss" using sub(2) i(4) by blast
  moreover have "\<forall>a. a \<notin> A \<union> addrs ?ss \<longrightarrow> st' a = st a" using st'(3) i(1) by simp
  moreover have "pos_ok pos names" using pos names(2) by (simp add: pos_ok_def names_ix_append)
  ultimately have new: "merge_inv H st (A \<union> addrs ?ss) (n + length (mr_FunctionNames q)) ?s'"
    using sub(1) names(3) by (simp add: merge_inv_def)
  have once: "state_once H s \<longrightarrow> state_once H ?s'"
  proof
    assume "state_once H s"
    then have "listed_once H (ms_store s) (ms_stacktraces s) ?r" using r by (simp add: state_once_def)
    moreover have "\<forall>a \<in> set (map ss_FunctionIds ?r). st' a = ms_store s a" using stA i(4) by auto
    ultimately have "listed_once H st' (ms_stacktraces s) ?r"
      unfolding listed_once_def by (metis (mono_tags, lifting) map_eq_conv)
    then show "state_once H ?s'" using merge_samples_once[OF _ ms] by (simp add: state_once_def)
  qed
  have vals: "state_value ?s' k = state_value s k + (if k = [] then 0 else resp_value st k (Some q))"
    if "inj_on H (encodings st' (A \<union> addrs ?ss))" for k
  proof -
    have "inj_on H (encodings st' (addrs ?r \<union> addrs ?ss))"
      using that(1) by (rule inj_on_subset) (use i(4) in \<open>auto simp: encodings_def\<close>)
    from merge_samples_values[OF mok this, of names]
    have "value_of names st' samples k = value_of names st' ?r k + (if k = [] then 0 else value_of names st' ?ss k)" by (simp add: ms)
    also have "value_of names st' ?r k = value_of (mr_FunctionNames r) (ms_store s) ?r k" by (rule value_of_cong) (rule rr(1))
    also have "value_of names st' ?ss k = value_of (mr_FunctionNames q) st ?ss k" by (rule value_of_cong) (rule rq(1))
    finally show ?thesis using r by (simp add: state_value_def resp_value_def)
  qed
  show ?thesis using step new stA vals once by (intro exI[of _ ?s']) auto
qed

lemma merge_response_first:
  assumes "merge_inv H st A n s" "ms_result s = None" "mr_Stacktraces q \<noteq> []" "ids_in_range st q" "addrs (mr_Stacktraces q) \<inter> A = {}"
  shows "\<exists>s'. merge_response H (Some q) s = Some s' \<and> merge_inv H st (A \<union> addrs (mr_Stacktraces q)) (n + length (mr_FunctionNames q)) s'
    \<and> (\<forall>a \<in> A. ms_store s' a = ms_store s a) \<and> (\<forall>k. state_value s' k = state_value s k + resp_value st k (Some q))
    \<and> ms_result s' \<noteq> None
    \<and> (distinct (map (\<lambda>s. Hashes H (st (ss_FunctionIds s))) (mr_Stacktraces q)) \<longrightarrow> state_once H s')"
proof -
  have old: "ms_store s a = st a" if "a \<in> addrs (mr_Stacktraces q)" for a using assms(1,5) that by (auto simp: merge_inv_def)
  have "value_of (mr_FunctionNames q) (ms_store s) (mr_Stacktraces q) k = value_of (mr_FunctionNames q) st (mr_Stacktraces q) k" for k
    by (rule value_of_cong) (use old in \<open>auto simp: stack_of_def\<close>)
  moreover have "ids_in_range (ms_store s) q" using assms(4) old by (auto simp: ids_in_range_def)
  moreover have "listed_once H (ms_store s) (first_map H (ms_store s) (mr_Stacktraces q)) (mr_Stacktraces q)"
    if "distinct (map (\<lambda>s. Hashes H (st (ss_FunctionIds s))) (mr_Stacktraces q))"
  proof -
    have "map (\<lambda>a. Hashes H (ms_store s a)) (map ss_FunctionIds (mr_Stacktraces q)) = map (\<lambda>s. Hashes H (st (ss_FunctionIds s))) (mr_Stacktraces q)"
      using old by simp
    moreover have "\<forall>a \<in> set (map ss_FunctionIds (mr_Stacktraces q)). map_of (first_map H (ms_store s) (mr_Stacktraces q)) (Hashes H (ms_store s a)) \<noteq> None"
      using first_map_all[of _ "mr_Stacktraces q" H "ms_store s"] by auto
    ultimately show ?thesis using that by (simp only: listed_once_def)
  qed
  ultimately show ?thesis using assms
    by (auto simp: merge_response_def merge_inv_def first_map_ok state_value_def resp_value_def state_once_def)
qed

text \<open>The responses that are well formed next to the slices \<open>A\<close> of the earlier ones.\<close>

fun wf_responses :: "store \<Rightarrow> nat set \<Rightarrow> MergeProfilesStacktracesResult option list \<Rightarrow> bool" where
  "wf_responses st A [] \<longleftrightarrow> True"
| "wf_responses st A (None # rs) \<longleftrightarrow> wf_responses st A rs"
| "wf_responses st A (Some q # rs) \<longleftrightarrow>
     ids_in_range st q \<and> addrs (mr_Stacktraces q) \<inter> A = {} \<and> wf_responses st (A \<union> addrs (mr_Stacktraces q)) rs"

abbreviation all_addrs :: "MergeProfilesStacktracesResult option list \<Rightarrow> nat set" where
  "all_addrs rs \<equiv> \<Union> (set (map resp_addrs rs))"

lemma merge_inv_mono: "merge_inv H st A n s \<Longrightarrow> n \<le> n' \<Longrightarrow> merge_inv H st A n' s"
  by (auto simp: merge_inv_def split: option.splits)

text \<open>One response of any kind.\<close>

lemma merge_response_step:
  assumes inv: "merge_inv H st A n s" and wf: "wf_responses st A (resp # rs)" and bound: "n + resp_names resp < 2 ^ 31"
  shows "\<exists>s'. merge_response H resp s = Some s' \<and> merge_inv H st (A \<union> resp_addrs resp) (n + resp_names resp) s'
    \<and> (\<forall>a \<in> A. ms_store s' a = ms_store s a)
    \<and> (inj_on H (encodings (ms_store s') (A \<union> resp_addrs resp)) \<longrightarrow>
        (\<forall>k. state_value s' k = state_value s k + (if k = [] \<and> ms_result s \<noteq> None then 0 else resp_value st k resp)))
    \<and> (ms_result s' = None \<longleftrightarrow> ms_result s = None \<and> first_response [resp] = None)
    \<and> (state_once H s \<longrightarrow> (ms_result s = None \<longrightarrow> first_once H st [resp]) \<longrightarrow> state_once H s')"
proof (cases resp)
  case None
  then show ?thesis using inv by (auto simp: merge_response_def resp_value_def first_response_def)
next
  case (Some q)
  have wf: "ids_in_range st q" "addrs (mr_Stacktraces q) \<inter> A = {}" using wf Some by auto
  show ?thesis
  proof (cases "mr_Stacktraces q = []")
    case True
    then show ?thesis using inv Some merge_inv_mono[OF inv] by (auto simp: merge_response_def resp_value_empty first_response_def)
  next
    case False
    show ?thesis
    proof (cases "ms_result s")
      case None
      from merge_response_first[OF inv None False wf] show ?thesis using Some None False
        by (auto simp: first_response_def first_once_def)
    next
      case (Some r)
      from merge_response_other[OF inv Some False wf] bound \<open>resp = Some q\<close> Some show ?thesis by fastforce
    qed
  qed
qed


lemma first_response_Cons: "first_response (resp # rs) = (if first_response [resp] = None then first_response rs else first_response [resp])"
  by (auto simp: first_response_def)

lemma merged_value_Cons:
  assumes "\<not> started \<longrightarrow> (b \<longleftrightarrow> first_response [resp] \<noteq> None)" "started \<longrightarrow> b"
  shows "merged_value st started k (resp # rs) = (if k = [] \<and> started then 0 else resp_value st k resp) + merged_value st b k rs"
proof -
  have "resp_value st [] resp = resp_value st [] (first_response [resp])"
    by (auto simp: first_response_def resp_value_def split: option.splits)
  then show ?thesis using assms
    by (auto simp: merged_value_def first_response_Cons[of resp rs] resp_value_def[of st "[]" None])
qed

lemma merge_responses_inv:
  assumes "merge_inv H st A n s" and "wf_responses st A rs" and "n + sum_list (map resp_names rs) < 2 ^ 31"
  shows "\<exists>s'. merge_responses H rs s = Some s' \<and> merge_inv H st (A \<union> all_addrs rs) (n + sum_list (map resp_names rs)) s'
    \<and> (\<forall>a \<in> A. ms_store s' a = ms_store s a)
    \<and> (inj_on H (encodings (ms_store s') (A \<union> all_addrs rs)) \<longrightarrow>
        (\<forall>k. state_value s' k = state_value s k + merged_value st (ms_result s \<noteq> None) k rs))
    \<and> (state_once H s \<longrightarrow> (ms_result s = None \<longrightarrow> first_once H st rs) \<longrightarrow> state_once H s')"
  using assms
proof (induction rs arbitrary: A n s)
  case Nil
  then show ?case by (auto simp: merged_value_def first_response_def resp_value_def)
next
  case (Cons resp rs)
  have b: "n + resp_names resp < 2 ^ 31" using Cons.prems(3) by simp
  let ?A = "A \<union> resp_addrs resp"
  obtain s1 where s1: "merge_response H resp s = Some s1" "merge_inv H st ?A (n + resp_names resp) s1"
      "\<forall>a \<in> A. ms_store s1 a = ms_store s a"
      "inj_on H (encodings (ms_store s1) ?A) \<longrightarrow>
        (\<forall>k. state_value s1 k = state_value s k + (if k = [] \<and> ms_result s \<noteq> None then 0 else resp_value st k resp))"
      "ms_result s1 = None \<longleftrightarrow> ms_result s = None \<and> first_response [resp] = None"
      "state_once H s \<longrightarrow> (ms_result s = None \<longrightarrow> first_once H st [resp]) \<longrightarrow> state_once H s1"
    using merge_response_step[OF Cons.prems(1,2) b] by (elim exE conjE) (rule that)
  have "wf_responses st ?A rs" using Cons.prems(2) by (cases resp) auto
  then obtain s2 where s2: "merge_responses H rs s1 = Some s2" "merge_inv H st (?A \<union> all_addrs rs) (n + resp_names resp + sum_list (map resp_names rs)) s2"
      "\<forall>a \<in> ?A. ms_store s2 a = ms_store s1 a"
      "inj_on H (encodings (ms_store s2) (?A \<union> all_addrs rs)) \<longrightarrow> (\<forall>k. state_value s2 k = state_value s1 k + merged_value st (ms_result s1 \<noteq> None) k rs)"
      "state_once H s1 \<longrightarrow> (ms_result s1 = None \<longrightarrow> first_once H st rs) \<longrightarrow> state_once H s2"
    using Cons.IH[OF s1(2)] Cons.prems(3) by (auto simp: add.assoc)
  have "encodings (ms_store s1) ?A \<subseteq> encodings (ms_store s2) (?A \<union> all_addrs rs)"
    using s2(3) by (force simp: encodings_def)
  then have sub: "inj_on H (encodings (ms_store s1) ?A)" if "inj_on H (encodings (ms_store s2) (?A \<union> all_addrs rs))"
    using that inj_on_subset by blast
  have "merged_value st (ms_result s \<noteq> None) k (resp # rs) =
      (if k = [] \<and> ms_result s \<noteq> None then 0 else resp_value st k resp) + merged_value st (ms_result s1 \<noteq> None) k rs" for k
    using s1(5) by (intro merged_value_Cons) auto
  then have "inj_on H (encodings (ms_store s2) (?A \<union> all_addrs rs)) \<longrightarrow>
      (\<forall>k. state_value s2 k = state_value s k + merged_value st (ms_result s \<noteq> None) k (resp # rs))"
    using s1(4) s2(4) sub by (simp add: add.assoc)
  moreover have "state_once H s \<longrightarrow> (ms_result s = None \<longrightarrow> first_once H st (resp # rs)) \<longrightarrow> state_once H s2"
    using s1(5,6) s2(5) unfolding first_once_def first_response_Cons[of resp rs] by (auto split: if_splits)
  moreover have "A \<union> all_addrs (resp # rs) = ?A \<union> all_addrs rs" by auto
  ultimately show ?case using s1(1,3) s2(1-3) by (auto simp: add.assoc)
qed


lemma distinct_map_sort_slice: "distinct (map f (sort_slice lt xs)) \<longleftrightarrow> distinct (map f xs)"
proof -
  have "mset (map f (sort_slice lt xs)) = mset (map f xs)" by simp
  then show ?thesis by (metis distinct_count_atmost_1 set_mset_mset)
qed

lemma at_idx_inj: "distinct names \<Longrightarrow> idx_ok (length names) i \<Longrightarrow> idx_ok (length names) j \<Longrightarrow> at_idx names i = at_idx names j \<Longrightarrow> i = j"
  unfolding at_idx_def idx_ok_def using nth_eq_iff_index_eq[of names "nat (sint i)" "nat (sint j)"]
  by (auto simp: nat_less_iff eq_nat_nat_iff intro: signed_word_eqI)

lemma distinct_names_stacks:
  assumes "ids_in_range st r" "distinct (mr_FunctionNames r)" "distinct (map (\<lambda>s. st (ss_FunctionIds s)) (mr_Stacktraces r))"
  shows "distinct (map (stack_of (mr_FunctionNames r) st) (mr_Stacktraces r))"
proof -
  have "inj_on (at_idx (mr_FunctionNames r)) {i. idx_ok (length (mr_FunctionNames r)) i}"
    using at_idx_inj[OF assms(2)] by (auto intro: inj_onI)
  moreover have "\<Union> (set ` (\<lambda>s. st (ss_FunctionIds s)) ` set (mr_Stacktraces r)) \<subseteq> {i. idx_ok (length (mr_FunctionNames r)) i}"
    using assms(1) by (auto simp: ids_in_range_def)
  ultimately have "inj_on (map (at_idx (mr_FunctionNames r))) ((\<lambda>s. st (ss_FunctionIds s)) ` set (mr_Stacktraces r))"
    by (meson inj_on_mapI inj_on_subset)
  then have "distinct (map (map (at_idx (mr_FunctionNames r))) (map (\<lambda>s. st (ss_FunctionIds s)) (mr_Stacktraces r)))"
    using assms(3) by (simp only: distinct_map set_map simp_thms)
  then show ?thesis by (simp add: stack_of_def [abs_def] comp_def)
qed

subsection \<open>Properties\<close>

text \<open>
  C8. \<open>MergeBatchMergeStacktraces\<close>, for responses whose function ids are in range and whose slices are
  their own, and when \<open>xxhash\<close> does not collide on the stacks that occur: the merge does not panic.
  Every stack of function names that is not empty has as its value in the result the sum of its values in
  all responses; the empty stack has the value it has in the first response with samples, because in
  the others it is skipped. Samples are merged and not only collected: if the stacks of the first response
  with samples have different hashes, then no two samples of the result have the same function ids, and if moreover the
  table of names of the result has no name twice, no two of them have the same stack of names.
\<close>

theorem MergeBatchMergeStacktraces_values:
  assumes "wf_responses st {} rs" and "sum_list (map resp_names rs) < 2 ^ 31"
  shows "\<exists>r st'. MergeBatchMergeStacktraces H st rs = Some (r, st')
    \<and> (inj_on H (encodings st' (all_addrs rs)) \<longrightarrow>
        (\<forall>k. value_of (mr_FunctionNames r) st' (mr_Stacktraces r) k =
           (if k = [] then resp_value st [] (first_response rs) else sum_list (map (resp_value st k) rs))))
    \<and> (first_once H st rs \<longrightarrow>
        distinct (map (\<lambda>s. st' (ss_FunctionIds s)) (mr_Stacktraces r))
        \<and> (distinct (mr_FunctionNames r) \<longrightarrow> distinct (map (stack_of (mr_FunctionNames r) st') (mr_Stacktraces r))))"
proof -
  let ?s0 = "\<lparr>ms_result = None, ms_posByName = None, ms_stacktraces = [], ms_store = st\<rparr>"
  have "merge_inv H st {} 0 ?s0" by (simp add: merge_inv_def)
  from merge_responses_inv[OF this assms(1)] assms(2) obtain s where
    s: "merge_responses H rs ?s0 = Some s" "merge_inv H st (all_addrs rs) (sum_list (map resp_names rs)) s"
       "inj_on H (encodings (ms_store s) (all_addrs rs)) \<longrightarrow> (\<forall>k. state_value s k = merged_value st False k rs)"
       "first_once H st rs \<longrightarrow> state_once H s"
    by (auto simp: state_value_def resp_value_def state_once_def)
  define res where "res = (case ms_result s of None \<Rightarrow> \<lparr>mr_Stacktraces = [], mr_FunctionNames = []\<rparr> | Some r \<Rightarrow> r)"
  let ?r = "sortStacktraces (ms_store s) res"
  have ok: "ids_in_range (ms_store s) res" using s(2) by (auto simp: res_def merge_inv_def ids_in_range_def split: option.splits)
  have "MergeBatchMergeStacktraces H st rs = Some (?r, ms_store s)"
    using s(1) ok by (simp add: MergeBatchMergeStacktraces_def flip: res_def)
  moreover have "value_of (mr_FunctionNames ?r) (ms_store s) (mr_Stacktraces ?r) k = state_value s k" for k
    by (auto simp: sortStacktraces_def res_def state_value_def resp_value_def split: option.splits)
  moreover have "distinct (map (\<lambda>s'. ms_store s (ss_FunctionIds s')) (mr_Stacktraces ?r))" if "first_once H st rs"
  proof -
    have "distinct (map (Hashes H) (map (\<lambda>s'. ms_store s (ss_FunctionIds s')) (mr_Stacktraces res)))"
      using s(4) that by (auto simp: state_once_def res_def listed_once_def comp_def split: option.splits)
    then have "distinct (map (\<lambda>s'. ms_store s (ss_FunctionIds s')) (mr_Stacktraces res))" by (auto simp: distinct_map dest: inj_on_imageI2)
    then show ?thesis by (simp add: sortStacktraces_def distinct_map_sort_slice)
  qed
  moreover have "ids_in_range (ms_store s) ?r" using ok by (simp add: ids_in_range_def sortStacktraces_def)
  ultimately show ?thesis using s(3) distinct_names_stacks[of "ms_store s" ?r]
    by (intro exI[of _ ?r] exI[of _ "ms_store s"]) (auto simp: merged_value_def)
qed

text \<open>Two responses that share the stack \<open>g; f\<close>: it has the value 9 in one sample of the result.\<close>

theorem MergeBatchMergeStacktraces_values_witness:
  "\<exists>r st'. MergeBatchMergeStacktraces (\<lambda>bs. of_nat (length bs)) (\<lambda>a. if a = 0 then [0] else if a = 1 then [1, 0] else [0, 1])
      [Some \<lparr>mr_Stacktraces = [\<lparr>ss_FunctionIds = 0, ss_Value = 3\<rparr>, \<lparr>ss_FunctionIds = 1, ss_Value = 5\<rparr>], mr_FunctionNames = [''f'', ''g'']\<rparr>, None,
       Some \<lparr>mr_Stacktraces = [\<lparr>ss_FunctionIds = 2, ss_Value = 4\<rparr>], mr_FunctionNames = [''g'', ''f'']\<rparr>] = Some (r, st')
    \<and> value_of (mr_FunctionNames r) st' (mr_Stacktraces r) [''g'', ''f''] = 9
    \<and> distinct (map (stack_of (mr_FunctionNames r) st') (mr_Stacktraces r))"
proof -
  let ?H = "\<lambda>bs :: u8 list. of_nat (length bs) :: u64" and ?st = "\<lambda>a :: nat. if a = 0 then [0] else if a = 1 then [1, 0] else [0, 1 :: i32]"
  let ?rs = "[Some \<lparr>mr_Stacktraces = [\<lparr>ss_FunctionIds = 0, ss_Value = 3\<rparr>, \<lparr>ss_FunctionIds = 1, ss_Value = 5\<rparr>], mr_FunctionNames = [''f'', ''g'']\<rparr>, None,
       Some \<lparr>mr_Stacktraces = [\<lparr>ss_FunctionIds = 2, ss_Value = 4\<rparr>], mr_FunctionNames = [''g'', ''f'']\<rparr>]"
  let ?r = "\<lparr>mr_Stacktraces = [\<lparr>ss_FunctionIds = 0, ss_Value = 3\<rparr>, \<lparr>ss_FunctionIds = 1, ss_Value = 9\<rparr>], mr_FunctionNames = [''f'', ''g'']\<rparr>"
  have run: "MergeBatchMergeStacktraces ?H ?st ?rs = Some (?r, ?st(2 := [1, 0]))"
    by (simp add: MergeBatchMergeStacktraces_def merge_response_def first_map_def build_posByName_def functionIDsUniq_def rewrite_slice_def
        Hashes_def idx_ok_def at_idx_def ids_in_range_def sortStacktraces_def sort_slice_def enumerate_eq_zip fun_upd_def)
  have wf: "wf_responses ?st {} ?rs" by (auto simp: ids_in_range_def idx_ok_def)
  have first: "first_once ?H ?st ?rs" by (simp add: first_once_def first_response_def Hashes_def)
  have "inj_on ?H (encodings (?st(2 := [1, 0])) (all_addrs ?rs))"
    by (auto simp: inj_on_def encodings_def)
  then show ?thesis using MergeBatchMergeStacktraces_values[OF wf, of ?H] first unfolding run
    by (simp add: resp_value_def stack_of_def at_idx_def)
qed

end
