(* ===== verification/Head_Query.thy ===== *)
theory Head_Query
  imports Head Stack_Merge Series_Merge
begin

section \<open>Queries on the head (pkg/phlaredb/head.go)\<close>

text \<open>
  \<open>MergeByStacktraces\<close> and \<open>MergeByLabels\<close> read profiles from an iterator, \<open>Series\<close>, \<open>LabelValues\<close>,
  \<open>LabelNames\<close>, \<open>ProfileTypes\<close> and \<open>InRange\<close> read the index and the time range. The iterator is any
  implementation of the interface; the type assertion to \<open>ProfileWithLabels\<close> is the parameter
  \<open>as_head\<close>. The loop over the rows may run forever and is partial. The parser of label selectors
  and the conversion of a total to float64 are parameters. An index that is out of range panics:
  \<open>None\<close>.
\<close>

subsection \<open>Merging by stack traces\<close>

record stack_state =
  sg_samples :: "(u64 \<times> StacktraceSample) list"
  sg_names :: "string list"
  sg_functions :: "(i64 \<times> nat) list"
  sg_store :: store

fun line_names :: "tables \<Rightarrow> Line list \<Rightarrow> i32 list \<Rightarrow> stack_state \<Rightarrow> (i32 list \<times> stack_state) option" where
  "line_names T [] fnIds s = Some (fnIds, s)"
| "line_names T (line # lines) fnIds s = do {
     f \<leftarrow> at64 (ds_slice (ht_functions T)) (ln_FunctionId line);
     let fnNameID = fn_Name f;
     case map_of (sg_functions s) fnNameID of
       None \<Rightarrow> do {
         name \<leftarrow> at64 (ds_slice (ht_strings T)) fnNameID;
         line_names T lines (fnIds @ [of_nat (length (sg_names s))])
           (s\<lparr>sg_functions := AList.update fnNameID (length (sg_names s)) (sg_functions s), sg_names := sg_names s @ [name]\<rparr>) }
     | Some pos \<Rightarrow> line_names T lines (fnIds @ [of_nat pos]) s }"

fun location_names :: "tables \<Rightarrow> u64 list \<Rightarrow> i32 list \<Rightarrow> stack_state \<Rightarrow> (i32 list \<times> stack_state) option" where
  "location_names T [] fnIds s = Some (fnIds, s)"
| "location_names T (loc # locs) fnIds s = do {
     l \<leftarrow> at64 (ds_slice (ht_locations T)) loc;
     (fnIds, s) \<leftarrow> line_names T (loc_Line l) fnIds s;
     location_names T locs fnIds s }"

text \<open>The samples of one profile. A new slice of function IDs gets the number of slices as its address.\<close>

fun merge_stacks :: "tables \<Rightarrow> Sample list \<Rightarrow> stack_state \<Rightarrow> stack_state option" where
  "merge_stacks T [] s = Some s"
| "merge_stacks T (x # xs) s =
     (if sv_Value x = 0 then merge_stacks T xs s
      else case map_of (sg_samples s) (sv_StacktraceID x) of
        Some existing \<Rightarrow>
          merge_stacks T xs (s\<lparr>sg_samples := AList.update (sv_StacktraceID x) (existing\<lparr>ss_Value := ss_Value existing + sv_Value x\<rparr>) (sg_samples s)\<rparr>)
      | None \<Rightarrow> do {
          st \<leftarrow> at64 (ds_slice (ht_stacktraces T)) (sv_StacktraceID x);
          (fnIds, s) \<leftarrow> location_names T (sk_LocationIDs st) [] s;
          let a = length (sg_samples s);
          merge_stacks T xs (s\<lparr>sg_samples := AList.update (sv_StacktraceID x) \<lparr>ss_FunctionIds = a, ss_Value = sv_Value x\<rparr> (sg_samples s),
                               sg_store := (sg_store s)(a := fnIds)\<rparr>) })"

partial_function (option) merge_rows :: "('p \<Rightarrow> ProfileWithLabels option) \<Rightarrow> ('i, 'p) Iterator \<Rightarrow> Head \<Rightarrow> 'i \<Rightarrow> stack_state
    \<Rightarrow> ((string + stack_state) \<times> 'i) option" where
  "merge_rows as_head it h i s = do {
     (ok, i) \<leftarrow> it_Next it i;
     if \<not> ok then Some (Inr s, i)
     else case as_head (it_At it i) of
            None \<Rightarrow> Some (Inl ''expected ProfileWithLabels'', i)
          | Some p \<Rightarrow> do {
              s \<leftarrow> merge_stacks (hd_tables h) (map (\<lambda>a. hd_samples h ! a) (pr_Samples (ds_slice (hd_profiles h) ! pw_Profile p))) s;
              merge_rows as_head it h i s } }"

definition MergeByStacktraces :: "('p \<Rightarrow> ProfileWithLabels option) \<Rightarrow> ('i, 'p) Iterator \<Rightarrow> Head \<Rightarrow> 'i
    \<Rightarrow> (errs + MergeProfilesStacktracesResult \<times> store) option" where
  "MergeByStacktraces as_head it h i = do {
     (r, i) \<leftarrow> merge_rows as_head it h i \<lparr>sg_samples = [], sg_names = [], sg_functions = [], sg_store = (\<lambda>a. [])\<rparr>;
     Some (case r of
        Inl err \<Rightarrow> Inl [err]
      | Inr s \<Rightarrow> if it_Err it i \<noteq> [] then Inl (it_Err it i)
                 else Inr (\<lparr>mr_Stacktraces = map snd (sg_samples s), mr_FunctionNames = sg_names s\<rparr>, sg_store s)) }"

subsection \<open>Merging by labels\<close>

record 'v label_state =
  lg_byFingerprint :: "(u64 \<times> string) list"
  lg_series :: "(string \<times> 'v Series) list"

text \<open>A point of a series is added to the group of its labels; the key of a group is kept per fingerprint.\<close>

definition group_point :: "string list \<Rightarrow> u64 \<Rightarrow> labels \<Rightarrow> 'v Point \<Rightarrow> 'v label_state \<Rightarrow> 'v label_state option" where
  "group_point by' fp lbs point s =
     (let append_point = (\<lambda>key s. case map_of (lg_series s) key of
             None \<Rightarrow> None
           | Some series \<Rightarrow> Some (s\<lparr>lg_series := AList.update key (series\<lparr>sr_Points := sr_Points series @ [point]\<rparr>) (lg_series s)\<rparr>))
      in case map_of (lg_byFingerprint s) fp of
           Some key \<Rightarrow> append_point key s
         | None \<Rightarrow>
             let key = BytesWithLabels lbs by';
                 s = s\<lparr>lg_byFingerprint := AList.update fp key (lg_byFingerprint s)\<rparr>
             in case map_of (lg_series s) key of
                  None \<Rightarrow> Some (s\<lparr>lg_series := AList.update key \<lparr>sr_Labels = WithLabels lbs by', sr_Points = [point]\<rparr> (lg_series s)\<rparr>)
                | Some _ \<Rightarrow> append_point key s)"

definition merge_label_row :: "(i64 \<Rightarrow> 'v) \<Rightarrow> (i64 \<Rightarrow> i64) \<Rightarrow> Head \<Rightarrow> string list \<Rightarrow> ProfileWithLabels \<Rightarrow> 'v label_state \<Rightarrow> 'v label_state option" where
  "merge_label_row float tfn h by' p s =
     (let profile = ds_slice (hd_profiles h) ! pw_Profile p
      in group_point by' (pw_fp p) (pw_lbs p)
           \<lparr>pt_Value = float (Profile_Total (hd_samples h) profile), pt_Timestamp = tfn (pr_TimeNanos profile)\<rparr> s)"

text \<open>The series of the groups in the order of their labels, with their points in the order of time.\<close>

definition sorted_groups :: "'v label_state \<Rightarrow> 'v Series list" where
  "sorted_groups s =
     (let result = sort_slice (\<lambda>a b. CompareLabelPairs (sr_Labels a) (sr_Labels b) < 0) (map snd (lg_series s))
      in map (\<lambda>s. s\<lparr>sr_Points := sort_slice (\<lambda>a b. sint (pt_Timestamp a) < sint (pt_Timestamp b)) (sr_Points s)\<rparr>) result)"

partial_function (option) label_rows :: "('p \<Rightarrow> ProfileWithLabels option) \<Rightarrow> ('i, 'p) Iterator \<Rightarrow> (i64 \<Rightarrow> 'v) \<Rightarrow> (i64 \<Rightarrow> i64) \<Rightarrow> Head \<Rightarrow> string list
    \<Rightarrow> 'i \<Rightarrow> 'v label_state \<Rightarrow> ((string + 'v label_state) \<times> 'i) option" where
  "label_rows as_head it float tfn h by' i s = do {
     (ok, i) \<leftarrow> it_Next it i;
     if \<not> ok then Some (Inr s, i)
     else case as_head (it_At it i) of
            None \<Rightarrow> Some (Inl ''expected ProfileWithLabels'', i)
          | Some p \<Rightarrow> do { s \<leftarrow> merge_label_row float tfn h by' p s; label_rows as_head it float tfn h by' i s } }"

definition MergeByLabels :: "('p \<Rightarrow> ProfileWithLabels option) \<Rightarrow> ('i, 'p) Iterator \<Rightarrow> (i64 \<Rightarrow> 'v) \<Rightarrow> (i64 \<Rightarrow> i64) \<Rightarrow> Head \<Rightarrow> string list \<Rightarrow> 'i
    \<Rightarrow> (errs + 'v Series list) option" where
  "MergeByLabels as_head it float tfn h by' i = do {
     (r, i) \<leftarrow> label_rows as_head it float tfn h by' i \<lparr>lg_byFingerprint = [], lg_series = []\<rparr>;
     Some (case r of
        Inl err \<Rightarrow> Inl [err]
      | Inr s \<Rightarrow>
          if it_Err it i \<noteq> [] then Inl (it_Err it i)
          else Inr (sorted_groups s)) }"

subsection \<open>Labels, series and time range\<close>

definition head_LabelValues :: "Head \<Rightarrow> string \<Rightarrow> (string + string list) option" where
  "head_LabelValues h name = bp_LabelValues (pi_ix (hd_index h)) name None"

definition head_LabelNames :: "Head \<Rightarrow> (string + string list) option" where
  "head_LabelNames h = do {
     r \<leftarrow> bp_LabelNames (pi_ix (hd_index h)) None;
     Some (case r of Inl err \<Rightarrow> Inl err | Inr values' \<Rightarrow> Inr (sort values')) }"

fun parse_types :: "string list \<Rightarrow> string + ProfileType list" where
  "parse_types [] = Inr []"
| "parse_types (v # vs) =
     (case ParseProfileTypeSelector v of
        Inl err \<Rightarrow> Inl err
      | Inr tp \<Rightarrow> (case parse_types vs of Inl err \<Rightarrow> Inl err | Inr tps \<Rightarrow> Inr (tp # tps)))"

definition ProfileTypes :: "Head \<Rightarrow> (string + ProfileType list) option" where
  "ProfileTypes h = do {
     r \<leftarrow> bp_LabelValues (pi_ix (hd_index h)) LabelNameProfileType None;
     Some (case r of Inl err \<Rightarrow> Inl err | Inr values' \<Rightarrow> parse_types (sort values')) }"

definition block_InRange :: "i64 \<Rightarrow> i64 \<Rightarrow> i64 \<Rightarrow> i64 \<Rightarrow> bool" where
  "block_InRange mn mx start end' = (if sint start > sint mx then False else if sint end' < sint mn then False else True)"

definition head_InRange :: "Head \<Rightarrow> i64 \<Rightarrow> i64 \<Rightarrow> bool" where
  "head_InRange h start end' = block_InRange (hd_MinTime h) (hd_MaxTime h) start end'"

definition SelectMatchingProfiles :: "(matcher \<Rightarrow> string \<Rightarrow> bool) \<Rightarrow> (string \<Rightarrow> string + matcher list) \<Rightarrow> (i64 \<Rightarrow> i64) \<Rightarrow> ProfileWithLabels \<Rightarrow> Head
    \<Rightarrow> string \<Rightarrow> ProfileType \<Rightarrow> i64 \<Rightarrow> i64 \<Rightarrow> (string + (nat sliceIterator SeriesIterator, ProfileWithLabels) SortIterator) option" where
  "SelectMatchingProfiles Matches parse tfn zero h selector ty start end' =
     (case parse selector of
        Inl err \<Rightarrow> Some (Inl (''failed to parse label selectors: '' @ err))
      | Inr selectors \<Rightarrow>
          SelectProfiles Matches tfn zero (ds_slice (hd_profiles h)) (hd_index h) (selectors @ [SelectorFromProfileType ty]) start end')"

fun parse_selectors :: "(string \<Rightarrow> string + matcher list) \<Rightarrow> string list \<Rightarrow> string + matcher list list" where
  "parse_selectors parse [] = Inr []"
| "parse_selectors parse (m # ms) =
     (case parse m of
        Inl err \<Rightarrow> Inl ''failed to label selector''
      | Inr s \<Rightarrow> (case parse_selectors parse ms of Inl err \<Rightarrow> Inl err | Inr ss \<Rightarrow> Inr (s # ss)))"

text \<open>The callback of \<open>Series\<close>: the label sets so far and the fingerprints that were seen.\<close>

definition series_callback :: "labels list \<times> u64 list \<Rightarrow> labels \<times> u64 \<Rightarrow> string option \<times> (labels list \<times> u64 list)" where
  "series_callback s x = (case (s, x) of ((res, uniq), (lbs, fp)) \<Rightarrow> if fp \<in> set uniq then (None, s) else (None, (res @ [lbs], fp # uniq)))"

fun series_loop :: "(matcher \<Rightarrow> string \<Rightarrow> bool) \<Rightarrow> profilesIndex \<Rightarrow> matcher list list \<Rightarrow> labels list \<times> u64 list \<Rightarrow> (string + labels list) option" where
  "series_loop Matches pi [] s = Some (Inr (fst s))"
| "series_loop Matches pi (sel # sels) s = do {
     (err, s) \<leftarrow> forMatchingLabels Matches pi sel series_callback s;
     case err of Some e \<Rightarrow> Some (Inl e) | None \<Rightarrow> series_loop Matches pi sels s }"

definition head_Series :: "(matcher \<Rightarrow> string \<Rightarrow> bool) \<Rightarrow> (string \<Rightarrow> string + matcher list) \<Rightarrow> Head \<Rightarrow> string list \<Rightarrow> (string + labels list) option" where
  "head_Series Matches parse h matchers =
     (case parse_selectors parse matchers of
        Inl err \<Rightarrow> Some (Inl err)
      | Inr selectors \<Rightarrow> do {
          r \<leftarrow> series_loop Matches (hd_index h) selectors ([], []);
          Some (case r of Inl e \<Rightarrow> Inl e | Inr res \<Rightarrow> Inr (sort_slice (\<lambda>a b. CompareLabelPairs a b < 0) res)) })"

subsection \<open>The names of a stack trace\<close>

definition line_name :: "tables \<Rightarrow> Line \<Rightarrow> string option" where
  "line_name T l = do { f \<leftarrow> at64 (ds_slice (ht_functions T)) (ln_FunctionId l); at64 (ds_slice (ht_strings T)) (fn_Name f) }"

definition location_name :: "tables \<Rightarrow> u64 \<Rightarrow> string list option" where
  "location_name T loc = do { l \<leftarrow> at64 (ds_slice (ht_locations T)) loc; those (map (line_name T) (loc_Line l)) }"

text \<open>The function names of a stored stack trace, inlined functions included, from the leaf on.\<close>

definition stack_names :: "tables \<Rightarrow> u64 \<Rightarrow> string list option" where
  "stack_names T sid = do {
     st \<leftarrow> at64 (ds_slice (ht_stacktraces T)) sid;
     names \<leftarrow> those (map (location_name T) (sk_LocationIDs st));
     Some (concat names) }"

definition fn_inv :: "tables \<Rightarrow> stack_state \<Rightarrow> bool" where
  "fn_inv T s \<longleftrightarrow> distinct (map fst (sg_functions s)) \<and> length (sg_functions s) = length (sg_names s)
     \<and> (\<forall>nid pos. map_of (sg_functions s) nid = Some pos \<longrightarrow> pos < length (sg_names s) \<and> at64 (ds_slice (ht_strings T)) nid = Some (sg_names s ! pos))"

lemma at64_Some: "at64 xs i = Some x \<longleftrightarrow> unat i < length xs \<and> x = xs ! unat i"
  by (auto simp: at64_def)

text \<open>There are at most as many names as strings, so positions fit an int32.\<close>

lemma fn_inv_bound:
  assumes "fn_inv T s"
  shows "length (sg_names s) \<le> length (ds_slice (ht_strings T))"
proof -
  have "unat k < length (ds_slice (ht_strings T))" if "k \<in> fst ` set (sg_functions s)" for k
    using assms that unfolding fn_inv_def at64_Some by (metis image_iff map_of_eq_None_iff not_None_eq)
  then have sub: "unat ` fst ` set (sg_functions s) \<subseteq> {..<length (ds_slice (ht_strings T))}" by auto
  have inj: "inj_on (unat :: u64 \<Rightarrow> nat) A" for A by (rule inj_onI) (erule unsigned_word_eqI)
  have "card (unat ` fst ` set (sg_functions s)) \<le> length (ds_slice (ht_strings T))" using card_mono[OF _ sub] by simp
  moreover have "card (unat ` fst ` set (sg_functions s)) = length (sg_functions s)"
    using assms distinct_card[of "map fst (sg_functions s)"] by (simp add: fn_inv_def card_image[OF inj])
  ultimately show ?thesis using assms by (simp add: fn_inv_def)
qed

lemma AList_update_new: "k \<notin> fst ` set m \<Longrightarrow> AList.update k v m = m @ [(k, v)]"
  by (induction m) auto

lemma fn_inv_new:
  assumes "fn_inv T s" and "map_of (sg_functions s) nid = None" and "at64 (ds_slice (ht_strings T)) nid = Some name"
  shows "fn_inv T (s\<lparr>sg_functions := AList.update nid (length (sg_names s)) (sg_functions s), sg_names := sg_names s @ [name]\<rparr>)"
proof -
  have "AList.update nid (length (sg_names s)) (sg_functions s) = sg_functions s @ [(nid, length (sg_names s))]"
    using assms(2) by (intro AList_update_new) (simp add: map_of_eq_None_iff)
  then show ?thesis using assms
    by (auto simp: fn_inv_def map_of_eq_None_iff nth_append map_add_Some_iff intro: less_SucI)
qed

lemma line_names_ok:
  assumes "fn_inv T s" and "length (ds_slice (ht_strings T)) < 2 ^ 31" and "those (map (line_name T) lines) = Some ks"
  shows "\<exists>new ids' fs. line_names T lines fnIds s = Some (fnIds @ ids', s\<lparr>sg_names := sg_names s @ new, sg_functions := fs\<rparr>)
    \<and> fn_inv T (s\<lparr>sg_names := sg_names s @ new, sg_functions := fs\<rparr>) \<and> list_all2 (names_ix (sg_names s @ new)) ids' ks"
  using assms(1,3)
proof (induction lines arbitrary: s fnIds ks)
  case Nil
  then show ?case by (intro exI[of _ "[]"] exI[of _ "sg_functions s"]) simp
next
  case (Cons line lines)
  obtain k ks' where ks: "line_name T line = Some k" "those (map (line_name T) lines) = Some ks'" "ks = k # ks'"
    using Cons.prems(2) by (auto split: option.splits)
  obtain f where f: "at64 (ds_slice (ht_functions T)) (ln_FunctionId line) = Some f" "at64 (ds_slice (ht_strings T)) (fn_Name f) = Some k"
    using ks(1) by (auto simp: line_name_def split: bind_splits)
  note k = f(2) ks(2,3)
  show ?case
  proof (cases "map_of (sg_functions s) (fn_Name f)")
    case None
    let ?s = "s\<lparr>sg_functions := AList.update (fn_Name f) (length (sg_names s)) (sg_functions s), sg_names := sg_names s @ [k]\<rparr>"
    have inv: "fn_inv T ?s" using fn_inv_new[OF Cons.prems(1) None k(1)] .
    have "length (sg_names s) < 2 ^ 31" using fn_inv_bound[OF Cons.prems(1)] assms(2) by simp
    then have ix: "names_ix (sg_names s @ [k]) (of_nat (length (sg_names s))) k" by (rule names_ix_last)
    from Cons.IH[OF inv k(2), of "fnIds @ [of_nat (length (sg_names s))]"] obtain new ids' fs where
      r: "line_names T lines (fnIds @ [of_nat (length (sg_names s))]) ?s = Some ((fnIds @ [of_nat (length (sg_names s))]) @ ids', ?s\<lparr>sg_names := sg_names ?s @ new, sg_functions := fs\<rparr>)"
        "fn_inv T (?s\<lparr>sg_names := sg_names ?s @ new, sg_functions := fs\<rparr>)" "list_all2 (names_ix (sg_names ?s @ new)) ids' ks'" by blast
    show ?thesis using r f None k names_ix_append[OF ix, of new]
      by (intro exI[of _ "k # new"] exI[of _ "of_nat (length (sg_names s)) # ids'"] exI[of _ fs]) simp
  next
    case (Some pos)
    then have pos: "pos < length (sg_names s)" "sg_names s ! pos = k" using Cons.prems(1) k(1) by (auto simp: fn_inv_def)
    have "pos < 2 ^ 31" using pos fn_inv_bound[OF Cons.prems(1)] assms(2) by simp
    then have ix: "names_ix (sg_names s) (of_nat pos) k" using pos by (simp add: names_ix_def idx_ok_def at_idx_def sint_of_nat_32)
    from Cons.IH[OF Cons.prems(1) k(2), of "fnIds @ [of_nat pos]"] obtain new ids' fs where
      r: "line_names T lines (fnIds @ [of_nat pos]) s = Some ((fnIds @ [of_nat pos]) @ ids', s\<lparr>sg_names := sg_names s @ new, sg_functions := fs\<rparr>)"
        "fn_inv T (s\<lparr>sg_names := sg_names s @ new, sg_functions := fs\<rparr>)" "list_all2 (names_ix (sg_names s @ new)) ids' ks'" by blast
    show ?thesis using r f Some k names_ix_append[OF ix, of new]
      by (intro exI[of _ new] exI[of _ "of_nat pos # ids'"] exI[of _ fs]) simp
  qed
qed

lemma list_all2_names_append: "list_all2 (names_ix names) is' ks \<Longrightarrow> list_all2 (names_ix (names @ new)) is' ks"
  by (erule list_all2_mono) (rule names_ix_append)

lemma location_names_ok:
  assumes "fn_inv T s" and "length (ds_slice (ht_strings T)) < 2 ^ 31" and "those (map (location_name T) locs) = Some kss"
  shows "\<exists>new ids' fs. location_names T locs fnIds s = Some (fnIds @ ids', s\<lparr>sg_names := sg_names s @ new, sg_functions := fs\<rparr>)
    \<and> fn_inv T (s\<lparr>sg_names := sg_names s @ new, sg_functions := fs\<rparr>) \<and> list_all2 (names_ix (sg_names s @ new)) ids' (concat kss)"
  using assms(1,3)
proof (induction locs arbitrary: s fnIds kss)
  case Nil
  then show ?case by (intro exI[of _ "[]"] exI[of _ "sg_functions s"]) simp
next
  case (Cons loc locs)
  obtain ks kss' where ks: "location_name T loc = Some ks" "those (map (location_name T) locs) = Some kss'" "kss = ks # kss'"
    using Cons.prems(2) by (auto split: option.splits)
  obtain l where l: "at64 (ds_slice (ht_locations T)) loc = Some l" "those (map (line_name T) (loc_Line l)) = Some ks"
    using ks(1) by (auto simp: location_name_def split: bind_splits)
  note k = l(2) ks(2,3)
  obtain n1 i1 f1 where a: "line_names T (loc_Line l) fnIds s = Some (fnIds @ i1, s\<lparr>sg_names := sg_names s @ n1, sg_functions := f1\<rparr>)"
      "fn_inv T (s\<lparr>sg_names := sg_names s @ n1, sg_functions := f1\<rparr>)" "list_all2 (names_ix (sg_names s @ n1)) i1 ks"
    using line_names_ok[OF Cons.prems(1) assms(2) k(1)] by blast
  let ?s = "s\<lparr>sg_names := sg_names s @ n1, sg_functions := f1\<rparr>"
  obtain n2 i2 f2 where b: "location_names T locs (fnIds @ i1) ?s = Some ((fnIds @ i1) @ i2, ?s\<lparr>sg_names := sg_names ?s @ n2, sg_functions := f2\<rparr>)"
      "fn_inv T (?s\<lparr>sg_names := sg_names ?s @ n2, sg_functions := f2\<rparr>)" "list_all2 (names_ix (sg_names ?s @ n2)) i2 (concat kss')"
    using Cons.IH[OF a(2) k(2)] by blast
  show ?case using a(1) b l k(3) list_all2_names_append[OF a(3), of n2]
    by (intro exI[of _ "n1 @ n2"] exI[of _ "i1 @ i2"] exI[of _ f2]) (simp add: list_all2_appendI)
qed

subsection \<open>The value of a stack\<close>

text \<open>What a list of samples adds up to for a stack trace ID, and for a list of names.\<close>

definition id_value :: "Sample list \<Rightarrow> u64 \<Rightarrow> i64" where
  "id_value xs sid = (\<Sum>x \<leftarrow> xs. if sv_StacktraceID x = sid then sv_Value x else 0)"

definition names_value :: "tables \<Rightarrow> Sample list \<Rightarrow> string list \<Rightarrow> i64" where
  "names_value T xs k = (\<Sum>x \<leftarrow> xs. if stack_names T (sv_StacktraceID x) = Some k then sv_Value x else 0)"

lemma id_value_simps [simp]: "id_value [] sid = 0" "id_value (xs @ ys) sid = id_value xs sid + id_value ys sid"
  "id_value (x # xs) sid = (if sv_StacktraceID x = sid then sv_Value x else 0) + id_value xs sid"
  by (simp_all add: id_value_def)

definition entry_ok :: "tables \<Rightarrow> string list \<Rightarrow> store \<Rightarrow> nat \<Rightarrow> Sample list \<Rightarrow> u64 \<Rightarrow> StacktraceSample \<Rightarrow> bool" where
  "entry_ok T names st n xs sid ss \<longleftrightarrow> ss_Value ss = id_value xs sid \<and> ss_FunctionIds ss < n
     \<and> (\<exists>ks. stack_names T sid = Some ks \<and> list_all2 (names_ix names) (st (ss_FunctionIds ss)) ks)"

definition stacks_inv :: "tables \<Rightarrow> stack_state \<Rightarrow> Sample list \<Rightarrow> bool" where
  "stacks_inv T s xs \<longleftrightarrow> fn_inv T s \<and> distinct (map fst (sg_samples s))
     \<and> (\<forall>x \<in> set xs. sv_Value x \<noteq> 0 \<longrightarrow> sv_StacktraceID x \<in> fst ` set (sg_samples s))
     \<and> (\<forall>sid ss. (sid, ss) \<in> set (sg_samples s) \<longrightarrow> entry_ok T (sg_names s) (sg_store s) (length (sg_samples s)) xs sid ss)"

lemma stacks_inv_add:
  assumes inv: "stacks_inv T s xs" and e: "map_of (sg_samples s) (sv_StacktraceID x) = Some e"
  shows "stacks_inv T (s\<lparr>sg_samples := AList.update (sv_StacktraceID x) (e\<lparr>ss_Value := ss_Value e + sv_Value x\<rparr>) (sg_samples s)\<rparr>) (xs @ [x])"
proof -
  let ?k = "sv_StacktraceID x" and ?m = "sg_samples s"
  let ?m' = "AList.update ?k (e\<lparr>ss_Value := ss_Value e + sv_Value x\<rparr>) ?m"
  have i: "fn_inv T s" "distinct (map fst ?m)" "\<forall>x \<in> set xs. sv_Value x \<noteq> 0 \<longrightarrow> sv_StacktraceID x \<in> fst ` set ?m"
      "\<And>sid ss. (sid, ss) \<in> set ?m \<Longrightarrow> entry_ok T (sg_names s) (sg_store s) (length ?m) xs sid ss" using inv by (auto simp: stacks_inv_def)
  have mem: "(?k, e) \<in> set ?m" using e by (rule map_of_SomeD)
  then have mk: "?k \<in> fst ` set ?m" by force
  then have keys: "map fst ?m' = map fst ?m" by (simp add: AList.update_keys)
  have sub: "set ?m' = insert (?k, e\<lparr>ss_Value := ss_Value e + sv_Value x\<rparr>) (set ?m - {(?k, e)})" by (rule set_update_key[OF mem i(2)])
  have ent: "entry_ok T (sg_names s) (sg_store s) (length ?m) (xs @ [x]) sid ss" if "(sid, ss) \<in> set ?m'" for sid ss
  proof (cases "sid = ?k")
    case True
    have "(?k, f) \<in> set ?m \<Longrightarrow> f = e" for f using i(2) mem by (metis eq_key_imp_eq_value)
    then have "ss = e\<lparr>ss_Value := ss_Value e + sv_Value x\<rparr>" using that True unfolding sub by auto
    then show ?thesis using i(4)[OF mem] True by (simp add: entry_ok_def)
  next
    case False
    then show ?thesis using i(4)[of sid ss] that unfolding sub by (auto simp: entry_ok_def)
  qed
  have "fst ` set ?m' = fst ` set ?m" using keys by (metis list.set_map)
  moreover have "length ?m' = length ?m" using keys by (metis length_map)
  ultimately show ?thesis using i(1-3) mk keys ent by (auto simp: stacks_inv_def fn_inv_def)
qed

lemma stacks_inv_new:
  assumes inv: "stacks_inv T s xs" and new: "map_of (sg_samples s) (sv_StacktraceID x) = None"
    and names: "fn_inv T (s\<lparr>sg_names := sg_names s @ ns, sg_functions := fs\<rparr>)" "stack_names T (sv_StacktraceID x) = Some ks"
      "list_all2 (names_ix (sg_names s @ ns)) fnIds ks"
  shows "stacks_inv T (s\<lparr>sg_names := sg_names s @ ns, sg_functions := fs,
      sg_samples := AList.update (sv_StacktraceID x) \<lparr>ss_FunctionIds = length (sg_samples s), ss_Value = sv_Value x\<rparr> (sg_samples s),
      sg_store := (sg_store s)(length (sg_samples s) := fnIds)\<rparr>) (xs @ [x])"
proof -
  let ?k = "sv_StacktraceID x" and ?m = "sg_samples s" and ?st = "(sg_store s)(length (sg_samples s) := fnIds)"
  have i: "distinct (map fst ?m)" "\<forall>x \<in> set xs. sv_Value x \<noteq> 0 \<longrightarrow> sv_StacktraceID x \<in> fst ` set ?m"
      "\<And>sid ss. (sid, ss) \<in> set ?m \<Longrightarrow> entry_ok T (sg_names s) (sg_store s) (length ?m) xs sid ss" using inv by (auto simp: stacks_inv_def)
  have k: "?k \<notin> fst ` set ?m" using new by (simp add: map_of_eq_None_iff)
  have m: "AList.update ?k v ?m = ?m @ [(?k, v)]" for v by (rule AList_update_new[OF k])
  have zero: "sv_Value y = 0" if "y \<in> set xs" "sv_StacktraceID y = ?k" for y using i(2) k that by metis
  have "id_value xs ?k = 0" using zero by (induction xs) auto
  then have one: "entry_ok T (sg_names s @ ns) ?st (Suc (length ?m)) (xs @ [x]) ?k \<lparr>ss_FunctionIds = length ?m, ss_Value = sv_Value x\<rparr>"
    using names(2,3) by (simp add: entry_ok_def)
  have "entry_ok T (sg_names s @ ns) ?st (Suc (length ?m)) (xs @ [x]) sid ss" if "(sid, ss) \<in> set ?m" for sid ss
  proof -
    have "sid \<noteq> ?k" using k that by force
    then show ?thesis using i(3)[OF that] list_all2_names_append[of "sg_names s" _ _ ns] by (auto simp: entry_ok_def)
  qed
  then show ?thesis using i(1,2) k names(1) one by (auto simp: stacks_inv_def m fn_inv_def)
qed

lemma merge_stacks_ok:
  assumes "stacks_inv T s pre" and "length (ds_slice (ht_strings T)) < 2 ^ 31"
    and "\<forall>x \<in> set xs. sv_Value x \<noteq> 0 \<longrightarrow> stack_names T (sv_StacktraceID x) \<noteq> None"
  shows "\<exists>s'. merge_stacks T xs s = Some s' \<and> stacks_inv T s' (pre @ xs)"
  using assms(1,3)
proof (induction xs arbitrary: s pre)
  case (Cons x xs)
  show ?case
  proof (cases "sv_Value x = 0")
    case True
    have "stacks_inv T s (pre @ [x])" using Cons.prems(1) True by (auto simp: stacks_inv_def entry_ok_def)
    then show ?thesis using Cons.IH[of s "pre @ [x]"] Cons.prems(2) True by simp
  next
    case nz: False
    show ?thesis
    proof (cases "map_of (sg_samples s) (sv_StacktraceID x)")
      case (Some e)
      then show ?thesis using Cons.IH[OF stacks_inv_add[OF Cons.prems(1) Some]] Cons.prems(2) nz by simp
    next
      case None
      obtain ks where ks: "stack_names T (sv_StacktraceID x) = Some ks" using Cons.prems(2) nz by auto
      then obtain st kss where st: "at64 (ds_slice (ht_stacktraces T)) (sv_StacktraceID x) = Some st"
          "those (map (location_name T) (sk_LocationIDs st)) = Some kss" "ks = concat kss"
        by (auto simp: stack_names_def split: bind_splits)
      have fi: "fn_inv T s" using Cons.prems(1) by (simp add: stacks_inv_def)
      obtain ns fnIds fs where r: "location_names T (sk_LocationIDs st) [] s = Some ([] @ fnIds, s\<lparr>sg_names := sg_names s @ ns, sg_functions := fs\<rparr>)"
          "fn_inv T (s\<lparr>sg_names := sg_names s @ ns, sg_functions := fs\<rparr>)" "list_all2 (names_ix (sg_names s @ ns)) fnIds ks"
        using location_names_ok[OF fi assms(2) st(2), of "[]"] st(3) by blast
      note inv = stacks_inv_new[OF Cons.prems(1) None r(2) ks r(3)]
      show ?thesis using Cons.IH[OF inv] Cons.prems(2) nz None st(1) r(1) by (simp add: Let_def)
    qed
  qed
qed simp

text \<open>Adding up by ID and then by names is adding up by names.\<close>

lemma sum_by_id:
  assumes "finite K" and "\<forall>x \<in> set xs. sv_Value x \<noteq> 0 \<longrightarrow> sv_StacktraceID x \<in> K"
  shows "(\<Sum>sid \<in> K. if stack_names T sid = Some k then id_value xs sid else 0) = names_value T xs k"
  using assms(2)
proof (induction xs)
  case (Cons x xs)
  have "(if stack_names T sid = Some k then id_value (x # xs) sid else 0)
      = (if sid = sv_StacktraceID x then (if stack_names T sid = Some k then sv_Value x else 0) else 0) + (if stack_names T sid = Some k then id_value xs sid else 0)" for sid
    by auto
  then have "(\<Sum>sid \<in> K. if stack_names T sid = Some k then id_value (x # xs) sid else 0)
      = (\<Sum>sid \<in> K. if sid = sv_StacktraceID x then (if stack_names T sid = Some k then sv_Value x else 0) else 0) + names_value T xs k"
    using Cons by (simp add: sum.distrib del: id_value_simps)
  also have "\<dots> = (if stack_names T (sv_StacktraceID x) = Some k then sv_Value x else 0) + names_value T xs k"
    using Cons.prems assms(1) by (auto simp: sum.delta)
  finally show ?case by (simp add: names_value_def)
qed (auto simp: names_value_def intro: sum.neutral)

lemma stacks_value:
  assumes "stacks_inv T s xs"
  shows "value_of (sg_names s) (sg_store s) (map snd (sg_samples s)) k = names_value T xs k"
proof -
  let ?m = "sg_samples s"
  have i: "distinct (map fst ?m)" "\<forall>x \<in> set xs. sv_Value x \<noteq> 0 \<longrightarrow> sv_StacktraceID x \<in> fst ` set ?m"
      "\<And>sid ss. (sid, ss) \<in> set ?m \<Longrightarrow> entry_ok T (sg_names s) (sg_store s) (length ?m) xs sid ss" using assms by (auto simp: stacks_inv_def)
  have ent: "(if stack_of (sg_names s) (sg_store s) ss = k then ss_Value ss else 0) = (if stack_names T sid = Some k then id_value xs sid else 0)"
    if m: "(sid, ss) \<in> set ?m" for sid ss
  proof -
    obtain ks where ks: "stack_names T sid = Some ks" "list_all2 (names_ix (sg_names s)) (sg_store s (ss_FunctionIds ss)) ks" "ss_Value ss = id_value xs sid"
      using i(3)[OF m] by (auto simp: entry_ok_def)
    have "stack_of (sg_names s) (sg_store s) ss = ks" using ks(2) unfolding stack_of_def
      by (induction rule: list_all2_induct) (auto simp: names_ix_def)
    then show ?thesis using ks by auto
  qed
  have "value_of (sg_names s) (sg_store s) (map snd ?m) k = (\<Sum>x \<leftarrow> ?m. if stack_names T (fst x) = Some k then id_value xs (fst x) else 0)"
  proof -
    have "(if stack_of (sg_names s) (sg_store s) (snd x) = k then ss_Value (snd x) else 0) = (if stack_names T (fst x) = Some k then id_value xs (fst x) else 0)"
      if "x \<in> set ?m" for x using ent[of "fst x" "snd x"] that by simp
    then show ?thesis unfolding value_of_def map_map comp_def by (intro arg_cong[where f = sum_list] map_cong refl)
  qed
  also have "\<dots> = (\<Sum>sid \<leftarrow> map fst ?m. if stack_names T sid = Some k then id_value xs sid else 0)"
    by (simp add: comp_def)
  also have "\<dots> = (\<Sum>sid \<in> set (map fst ?m). if stack_names T sid = Some k then id_value xs sid else 0)"
    by (rule sum_list_distinct_conv_sum_set[OF i(1)])
  also have "\<dots> = names_value T xs k" using i(2) by (intro sum_by_id) auto
  finally show ?thesis .
qed

subsection \<open>All rows\<close>

text \<open>The samples of the rows.\<close>

definition row_samples :: "('p \<Rightarrow> ProfileWithLabels option) \<Rightarrow> Head \<Rightarrow> 'p \<Rightarrow> Sample list" where
  "row_samples as_head h p =
     (case as_head p of None \<Rightarrow> [] | Some p \<Rightarrow> map (\<lambda>a. hd_samples h ! a) (pr_Samples (ds_slice (hd_profiles h) ! pw_Profile p)))"

lemma merge_rows_ok:
  assumes "yields it i L []" and "length (ds_slice (ht_strings (hd_tables h))) < 2 ^ 31" and "stacks_inv (hd_tables h) s pre"
    and "\<forall>p \<in> set L. as_head p \<noteq> None
      \<and> (\<forall>x \<in> set (row_samples as_head h p). sv_Value x \<noteq> 0 \<longrightarrow> stack_names (hd_tables h) (sv_StacktraceID x) \<noteq> None)"
  shows "\<exists>s' j. merge_rows as_head it h i s = Some (Inr s', j) \<and> it_Err it j = [] \<and> stacks_inv (hd_tables h) s' (pre @ concat (map (row_samples as_head h) L))"
  using assms(1,3,4)
proof (induction L arbitrary: i s pre)
  case Nil
  then have e: "ended it [] i" by (blast elim: yields_NilE)
  obtain j where j: "it_Next it i = Some (False, j)" "it_Err it j = []" using ended_next[OF e] by blast
  have "merge_rows as_head it h i s = Some (Inr s, j)" using j(1) by (subst merge_rows.simps) simp
  then show ?case using Nil.prems(2) j(2) by simp
next
  case (Cons p L)
  obtain j where j: "it_Next it i = Some (True, j)" "it_At it j = p" "yields it j L []" using Cons.prems(1) by (auto elim: yields_ConsE)
  obtain q where q: "as_head p = Some q" using Cons.prems(3) by auto
  have samples: "row_samples as_head h p = map (\<lambda>a. hd_samples h ! a) (pr_Samples (ds_slice (hd_profiles h) ! pw_Profile q))" by (simp add: row_samples_def q)
  obtain s' where s': "merge_stacks (hd_tables h) (row_samples as_head h p) s = Some s'" "stacks_inv (hd_tables h) s' (pre @ row_samples as_head h p)"
    using merge_stacks_ok[OF Cons.prems(2) assms(2), of "row_samples as_head h p"] Cons.prems(3) by auto
  have "merge_rows as_head it h i s = merge_rows as_head it h j s'"
    using j(1,2) q s'(1) samples by (subst merge_rows.simps) simp
  then show ?case using Cons.IH[OF j(3) s'(2)] Cons.prems(3) by simp
qed

subsection \<open>Groups of labels\<close>

definition row_point :: "(i64 \<Rightarrow> 'v) \<Rightarrow> (i64 \<Rightarrow> i64) \<Rightarrow> Head \<Rightarrow> ProfileWithLabels \<Rightarrow> 'v Point" where
  "row_point float tfn h p = (let profile = ds_slice (hd_profiles h) ! pw_Profile p
     in \<lparr>pt_Value = float (Profile_Total (hd_samples h) profile), pt_Timestamp = tfn (pr_TimeNanos profile)\<rparr>)"

definition group_inv :: "(ProfileWithLabels \<Rightarrow> 'v Point) \<Rightarrow> string list \<Rightarrow> 'v label_state \<Rightarrow> ProfileWithLabels list \<Rightarrow> bool" where
  "group_inv pnt by' s pre \<longleftrightarrow> distinct (map fst (lg_series s))
     \<and> (\<forall>fp key. map_of (lg_byFingerprint s) fp = Some key \<longrightarrow> (\<exists>q \<in> set pre. pw_fp q = fp \<and> key = BytesWithLabels (pw_lbs q) by'))
     \<and> (\<forall>key ser. map_of (lg_series s) key = Some ser \<longrightarrow>
          (\<exists>q \<in> set pre. key = BytesWithLabels (pw_lbs q) by' \<and> sr_Labels ser = WithLabels (pw_lbs q) by')
          \<and> sr_Points ser = map pnt (filter (\<lambda>q. BytesWithLabels (pw_lbs q) by' = key) pre))
     \<and> (\<forall>q \<in> set pre. map_of (lg_series s) (BytesWithLabels (pw_lbs q) by') \<noteq> None)"

text \<open>Fingerprints identify label sets.\<close>

definition fps_identify :: "ProfileWithLabels set \<Rightarrow> bool" where
  "fps_identify P \<longleftrightarrow> (\<forall>p \<in> P. \<forall>q \<in> P. pw_fp p = pw_fp q \<longrightarrow> pw_lbs p = pw_lbs q)"

lemma fps_identify_mono: "fps_identify B \<Longrightarrow> A \<subseteq> B \<Longrightarrow> fps_identify A"
  unfolding fps_identify_def by blast

lemma group_inv_append:
  assumes "group_inv pnt by' s pre" and "map_of (lg_series s) (BytesWithLabels (pw_lbs p) by') = Some ser"
    and "\<forall>fp key. map_of fps fp = Some key \<longrightarrow> (\<exists>q \<in> set (pre @ [p]). pw_fp q = fp \<and> key = BytesWithLabels (pw_lbs q) by')"
  shows "group_inv pnt by' (s\<lparr>lg_byFingerprint := fps, lg_series := AList.update (BytesWithLabels (pw_lbs p) by') (ser\<lparr>sr_Points := sr_Points ser @ [pnt p]\<rparr>) (lg_series s)\<rparr>) (pre @ [p])"
  unfolding group_inv_def
proof (intro conjI allI impI ballI)
  let ?k = "BytesWithLabels (pw_lbs p) by'"
  note i = assms(1)[unfolded group_inv_def]
  show "distinct (map fst (lg_series (s\<lparr>lg_byFingerprint := fps, lg_series := AList.update ?k (ser\<lparr>sr_Points := sr_Points ser @ [pnt p]\<rparr>) (lg_series s)\<rparr>)))"
    using i by (simp add: AList.distinct_update)
qed (use assms in \<open>auto simp: group_inv_def AList.update_conv' split: if_splits\<close>)

lemma group_inv_new:
  assumes "group_inv pnt by' s pre" and "map_of (lg_series s) (BytesWithLabels (pw_lbs p) by') = None"
    and "\<forall>fp key. map_of fps fp = Some key \<longrightarrow> (\<exists>q \<in> set (pre @ [p]). pw_fp q = fp \<and> key = BytesWithLabels (pw_lbs q) by')"
  shows "group_inv pnt by' (s\<lparr>lg_byFingerprint := fps,
      lg_series := AList.update (BytesWithLabels (pw_lbs p) by') \<lparr>sr_Labels = WithLabels (pw_lbs p) by', sr_Points = [pnt p]\<rparr> (lg_series s)\<rparr>) (pre @ [p])"
  unfolding group_inv_def
proof (intro conjI allI impI ballI)
  let ?k = "BytesWithLabels (pw_lbs p) by'"
  note i = assms(1)[unfolded group_inv_def]
  show "distinct (map fst (lg_series (s\<lparr>lg_byFingerprint := fps, lg_series := AList.update ?k \<lparr>sr_Labels = WithLabels (pw_lbs p) by', sr_Points = [pnt p]\<rparr> (lg_series s)\<rparr>)))"
    using i by (simp add: AList.distinct_update)
  have none: "BytesWithLabels (pw_lbs q) by' \<noteq> ?k" if "q \<in> set pre" for q using i assms(2) that by metis
  fix key ser
  assume "map_of (lg_series (s\<lparr>lg_byFingerprint := fps, lg_series := AList.update ?k \<lparr>sr_Labels = WithLabels (pw_lbs p) by', sr_Points = [pnt p]\<rparr> (lg_series s)\<rparr>)) key = Some ser"
  then show "sr_Points ser = map pnt (filter (\<lambda>q. BytesWithLabels (pw_lbs q) by' = key) (pre @ [p]))"
    using i none by (auto simp: AList.update_conv' filter_empty_conv split: if_splits)
qed (use assms in \<open>auto simp: group_inv_def AList.update_conv' split: if_splits\<close>)

lemma group_point_ok:
  assumes inv: "group_inv pnt by' s pre" and ident: "fps_identify (insert p (set pre))"
  shows "\<exists>s'. group_point by' (pw_fp p) (pw_lbs p) (pnt p) s = Some s' \<and> group_inv pnt by' s' (pre @ [p])"
proof -
  let ?k = "BytesWithLabels (pw_lbs p) by'"
  note i = inv[unfolded group_inv_def]
  show ?thesis
  proof (cases "map_of (lg_byFingerprint s) (pw_fp p)")
    case (Some key)
    then obtain q where q: "q \<in> set pre" "pw_fp q = pw_fp p" "key = BytesWithLabels (pw_lbs q) by'" using i by blast
    have same: "pw_lbs q = pw_lbs p" using ident q(1,2) unfolding fps_identify_def by (metis insertCI)
    have "map_of (lg_series s) (BytesWithLabels (pw_lbs q) by') \<noteq> None" using i q(1) by blast
    then have key: "key = ?k" "map_of (lg_series s) ?k \<noteq> None" using q(3) same by simp_all
    then obtain ser where ser: "map_of (lg_series s) ?k = Some ser" by auto
    have "\<forall>fp key. map_of (lg_byFingerprint s) fp = Some key \<longrightarrow> (\<exists>q \<in> set (pre @ [p]). pw_fp q = fp \<and> key = BytesWithLabels (pw_lbs q) by')"
      using i by (metis UnCI set_append)
    from group_inv_append[OF inv ser this] show ?thesis using Some key(1) ser
      by (auto simp: group_point_def Let_def)
  next
    case None
    let ?fps = "AList.update (pw_fp p) ?k (lg_byFingerprint s)"
    have fps: "\<forall>fp key. map_of ?fps fp = Some key \<longrightarrow> (\<exists>q \<in> set (pre @ [p]). pw_fp q = fp \<and> key = BytesWithLabels (pw_lbs q) by')"
      using i by (auto simp: AList.update_conv' split: if_splits)
    show ?thesis
    proof (cases "map_of (lg_series s) ?k")
      case (Some ser)
      from group_inv_append[OF inv Some fps] show ?thesis using None Some by (auto simp: group_point_def Let_def)
    next
      case n: None
      from group_inv_new[OF inv n fps] show ?thesis using None n by (auto simp: group_point_def Let_def)
    qed
  qed
qed

lemma merge_label_row_ok:
  assumes "group_inv (row_point float tfn h) by' s pre" and "fps_identify (insert p (set pre))"
  shows "\<exists>s'. merge_label_row float tfn h by' p s = Some s' \<and> group_inv (row_point float tfn h) by' s' (pre @ [p])"
  using group_point_ok[OF assms] by (simp add: merge_label_row_def row_point_def Let_def)

lemma label_rows_ok:
  assumes "yields it i L []" and "group_inv (row_point float tfn h) by' s pre"
    and "\<forall>p \<in> set L. as_head p = Some (f p)" and "fps_identify (set pre \<union> f ` set L)"
  shows "\<exists>s' j. label_rows as_head it float tfn h by' i s = Some (Inr s', j) \<and> it_Err it j = [] \<and> group_inv (row_point float tfn h) by' s' (pre @ map f L)"
  using assms
proof (induction L arbitrary: i s pre)
  case Nil
  then have e: "ended it [] i" by (blast elim: yields_NilE)
  obtain j where j: "it_Next it i = Some (False, j)" "it_Err it j = []" using ended_next[OF e] by blast
  have "label_rows as_head it float tfn h by' i s = Some (Inr s, j)" using j(1) by (subst label_rows.simps) simp
  then show ?case using Nil.prems(2) j(2) by simp
next
  case (Cons p L)
  obtain j where j: "it_Next it i = Some (True, j)" "it_At it j = p" "yields it j L []" using Cons.prems(1) by (auto elim: yields_ConsE)
  have "fps_identify (insert (f p) (set pre))" using Cons.prems(4) by (rule fps_identify_mono) auto
  from merge_label_row_ok[OF Cons.prems(2) this] obtain s' where s': "merge_label_row float tfn h by' (f p) s = Some s'"
    "group_inv (row_point float tfn h) by' s' (pre @ [f p])" by blast
  have "label_rows as_head it float tfn h by' i s = label_rows as_head it float tfn h by' j s'"
    using j(1,2) Cons.prems(3) s'(1) by (subst label_rows.simps) simp
  then show ?case using Cons.IH[OF j(3) s'(2)] Cons.prems(3,4) by simp
qed

text \<open>The key of a group is as good as its labels.\<close>

definition keys_ok :: "string list \<Rightarrow> ProfileWithLabels set \<Rightarrow> bool" where
  "keys_ok by' P \<longleftrightarrow> (\<forall>p \<in> P. \<forall>q \<in> P. BytesWithLabels (pw_lbs p) by' = BytesWithLabels (pw_lbs q) by' \<longleftrightarrow> WithLabels (pw_lbs p) by' = WithLabels (pw_lbs q) by')"

lemma group_entry:
  assumes inv: "group_inv pnt by' s P" and ok: "keys_ok by' (set P)" and e: "(key, ser) \<in> set (lg_series s)"
  shows "\<exists>q \<in> set P. key = BytesWithLabels (pw_lbs q) by' \<and> sr_Labels ser = WithLabels (pw_lbs q) by'
      \<and> sr_Points ser = map pnt (filter (\<lambda>p. WithLabels (pw_lbs p) by' = sr_Labels ser) P)"
proof -
  have "map_of (lg_series s) key = Some ser" using inv e by (simp add: group_inv_def)
  then have c: "(\<exists>q \<in> set P. key = BytesWithLabels (pw_lbs q) by' \<and> sr_Labels ser = WithLabels (pw_lbs q) by')
      \<and> sr_Points ser = map pnt (filter (\<lambda>p. BytesWithLabels (pw_lbs p) by' = key) P)" using inv unfolding group_inv_def by blast
  then obtain q where q: "q \<in> set P" "key = BytesWithLabels (pw_lbs q) by'" "sr_Labels ser = WithLabels (pw_lbs q) by'" by blast
  have "filter (\<lambda>p. BytesWithLabels (pw_lbs p) by' = key) P = filter (\<lambda>p. WithLabels (pw_lbs p) by' = sr_Labels ser) P"
    using q ok by (intro filter_cong) (auto simp: keys_ok_def)
  then show ?thesis using q c by metis
qed

lemma group_labels:
  assumes inv: "group_inv pnt by' s P" and ok: "keys_ok by' (set P)"
  shows "distinct (map sr_Labels (map snd (lg_series s)))"
    and "sr_Labels ` snd ` set (lg_series s) = (\<lambda>p. WithLabels (pw_lbs p) by') ` set P"
proof -
  note ent = group_entry[OF inv ok]
  have "inj_on (\<lambda>e. sr_Labels (snd e)) (set (lg_series s))"
  proof (rule inj_onI)
    fix a b assume ab: "a \<in> set (lg_series s)" "b \<in> set (lg_series s)" "sr_Labels (snd a) = sr_Labels (snd b)"
    obtain p q where "p \<in> set P" "fst a = BytesWithLabels (pw_lbs p) by'" "sr_Labels (snd a) = WithLabels (pw_lbs p) by'"
        "q \<in> set P" "fst b = BytesWithLabels (pw_lbs q) by'" "sr_Labels (snd b) = WithLabels (pw_lbs q) by'"
      using ent[of "fst a" "snd a"] ent[of "fst b" "snd b"] ab(1,2) unfolding prod.collapse by blast
    then have "fst a = fst b" using ok ab(3) unfolding keys_ok_def by metis
    then show "a = b" using ab inv by (metis eq_key_imp_eq_value group_inv_def prod.collapse)
  qed
  moreover have "distinct (lg_series s)" using inv by (simp add: group_inv_def distinct_map)
  ultimately show "distinct (map sr_Labels (map snd (lg_series s)))" by (simp add: distinct_map comp_def)
  have "WithLabels (pw_lbs p) by' \<in> sr_Labels ` snd ` set (lg_series s)" if p: "p \<in> set P" for p
  proof -
    obtain ser where ser: "(BytesWithLabels (pw_lbs p) by', ser) \<in> set (lg_series s)"
      using inv p unfolding group_inv_def by (metis map_of_SomeD not_None_eq)
    then have "sr_Labels ser = WithLabels (pw_lbs p) by'" using ent[OF ser] ok p unfolding keys_ok_def by metis
    then show ?thesis using ser by force
  qed
  moreover have "sr_Labels ser \<in> (\<lambda>p. WithLabels (pw_lbs p) by') ` set P" if "(key, ser) \<in> set (lg_series s)" for key ser
    using ent[OF that] by blast
  ultimately show "sr_Labels ` snd ` set (lg_series s) = (\<lambda>p. WithLabels (pw_lbs p) by') ` set P" by auto
qed

lemma sorted_groups_ok:
  fixes s :: "'v label_state"
  assumes inv: "group_inv pnt by' s P" and lbs: "\<forall>p \<in> set P. by_name (pw_lbs p) \<and> sep_free (pw_lbs p)" and "sorted by'"
  shows "sorted_wrt (<) (map (\<lambda>s. map label_key (sr_Labels s)) (sorted_groups s))
    \<and> sr_Labels ` set (sorted_groups s) = (\<lambda>p. WithLabels (pw_lbs p) by') ` set P
    \<and> (\<forall>s' \<in> set (sorted_groups s). sorted (map (\<lambda>p. sint (pt_Timestamp p)) (sr_Points s'))
         \<and> mset (sr_Points s') = mset (map pnt (filter (\<lambda>p. WithLabels (pw_lbs p) by' = sr_Labels s') P)))"
proof -
  let ?lt = "\<lambda>a b :: 'v Series. CompareLabelPairs (sr_Labels a) (sr_Labels b) < 0" and ?pt = "\<lambda>a b :: 'v Point. sint (pt_Timestamp a) < sint (pt_Timestamp b)"
  let ?up = "\<lambda>s. s\<lparr>sr_Points := sort_slice ?pt (sr_Points s)\<rparr>"
  have ok: "keys_ok by' (set P)" using BytesWithLabels_inj assms(2,3) unfolding keys_ok_def by simp
  have res: "sorted_groups s = map ?up (sort_slice ?lt (map snd (lg_series s)))" by (simp add: sorted_groups_def)
  have srt: "sorted_wrt (<) (map (\<lambda>s. map label_key (sr_Labels s)) (sorted_groups s))"
    unfolding res using sort_labels_strict[OF group_labels(1)[OF inv ok]] by (simp add: comp_def)
  have sp: "sorted (map (\<lambda>p. sint (pt_Timestamp p)) (sort_slice ?pt ps))" for ps
    using po.sort_slice_sorted[of ps] by (simp add: sorted_wrt_map not_less)
  have pts: "sorted (map (\<lambda>p. sint (pt_Timestamp p)) (sr_Points s'))
      \<and> mset (sr_Points s') = mset (map pnt (filter (\<lambda>p. WithLabels (pw_lbs p) by' = sr_Labels s') P))" if m: "s' \<in> set (sorted_groups s)" for s'
  proof -
    obtain key ser where e: "(key, ser) \<in> set (lg_series s)" "s' = ?up ser" using m unfolding res by auto
    then show ?thesis using group_entry[OF inv ok e(1)] sp by auto
  qed
  have "sr_Labels ` set (sorted_groups s) = (\<lambda>p. WithLabels (pw_lbs p) by') ` set P"
    using group_labels(2)[OF inv ok] unfolding res by (simp add: image_comp comp_def)
  then show ?thesis using srt pts by blast
qed

subsection \<open>Properties\<close>

text \<open>
  C22. \<open>MergeByStacktraces\<close> on the head: for rows without error whose samples refer to stored stack
  traces, the result is well formed (all function IDs are in range) and every stack of function
  names has as its value the sum of the values of all samples of the rows with that stack, modulo
  \<open>2 ^ 64\<close>.
\<close>

theorem MergeByStacktraces_values:
  assumes "yields it i L []" and "length (ds_slice (ht_strings (hd_tables h))) < 2 ^ 31"
    and "\<forall>p \<in> set L. as_head p \<noteq> None
      \<and> (\<forall>x \<in> set (row_samples as_head h p). sv_Value x \<noteq> 0 \<longrightarrow> stack_names (hd_tables h) (sv_StacktraceID x) \<noteq> None)"
  shows "\<exists>r st. MergeByStacktraces as_head it h i = Some (Inr (r, st)) \<and> ids_in_range st r
    \<and> (\<forall>k. value_of (mr_FunctionNames r) st (mr_Stacktraces r) k = names_value (hd_tables h) (concat (map (row_samples as_head h) L)) k)"
proof -
  let ?T = "hd_tables h" and ?s0 = "\<lparr>sg_samples = [], sg_names = [], sg_functions = [], sg_store = (\<lambda>a. [])\<rparr>"
  have "stacks_inv ?T ?s0 []" by (simp add: stacks_inv_def fn_inv_def)
  from merge_rows_ok[OF assms(1,2) this assms(3)] obtain s j where s: "merge_rows as_head it h i ?s0 = Some (Inr s, j)" "it_Err it j = []"
    "stacks_inv ?T s (concat (map (row_samples as_head h) L))" by auto
  let ?r = "\<lparr>mr_Stacktraces = map snd (sg_samples s), mr_FunctionNames = sg_names s\<rparr>"
  have "idx_ok (length (sg_names s)) f" if m: "ss \<in> snd ` set (sg_samples s)" and f: "f \<in> set (sg_store s (ss_FunctionIds ss))" for ss f
  proof -
    obtain sid where "(sid, ss) \<in> set (sg_samples s)" using m by force
    then obtain ks where "list_all2 (names_ix (sg_names s)) (sg_store s (ss_FunctionIds ss)) ks" using s(3) unfolding stacks_inv_def entry_ok_def by blast
    then show ?thesis using f by (auto simp: list_all2_conv_all_nth names_ix_def in_set_conv_nth)
  qed
  then have "ids_in_range (sg_store s) ?r" by (auto simp: ids_in_range_def)
  then show ?thesis using s(1,2) stacks_value[OF s(3)] by (auto simp: MergeByStacktraces_def)
qed

definition demo_head :: Head where
  "demo_head = (NewHead \<lparr>pi_ix = [], pi_profilesPerFP = [], pi_totalProfiles = 0, pi_totalSeries = 0\<rparr>)\<lparr>
     hd_tables := \<lparr>ht_strings = ds_init\<lparr>ds_slice := [''main'', ''f'']\<rparr>, ht_mappings = ds_init,
       ht_functions = ds_init\<lparr>ds_slice := [\<lparr>fn_Id = 0, fn_Name = 1, fn_SystemName = 1, fn_Filename = 0, fn_StartLine = 1\<rparr>,
                                         \<lparr>fn_Id = 1, fn_Name = 0, fn_SystemName = 0, fn_Filename = 0, fn_StartLine = 1\<rparr>]\<rparr>,
       ht_locations = ds_init\<lparr>ds_slice := [\<lparr>loc_Id = 0, loc_MappingId = 0, loc_Address = 1, loc_Line = [\<lparr>ln_FunctionId = 0, ln_Line = 3\<rparr>], loc_IsFolded = False\<rparr>,
                                         \<lparr>loc_Id = 1, loc_MappingId = 0, loc_Address = 2, loc_Line = [\<lparr>ln_FunctionId = 1, ln_Line = 4\<rparr>], loc_IsFolded = False\<rparr>]\<rparr>,
       ht_stacktraces = ds_init\<lparr>ds_slice := [\<lparr>sk_LocationIDs = [0, 1]\<rparr>]\<rparr>\<rparr>,
     hd_samples := [\<lparr>sv_StacktraceID = 0, sv_Value = 3, sv_Labels = []\<rparr>, \<lparr>sv_StacktraceID = 0, sv_Value = 4, sv_Labels = []\<rparr>],
     hd_profiles := ds_init\<lparr>ds_slice := [(demo_profile_at 7 0)\<lparr>pr_Samples := [0, 1]\<rparr>]\<rparr>\<rparr>"

theorem MergeByStacktraces_values_witness:
  "\<exists>r st. MergeByStacktraces Some (slice_iterator (with_labels [] 0 0)) demo_head (NewSliceIterator [with_labels [] 7 0, with_labels [] 7 0]) = Some (Inr (r, st))
     \<and> value_of (mr_FunctionNames r) st (mr_Stacktraces r) [''f'', ''main''] = 14"
proof -
  let ?L = "[with_labels [] 7 0, with_labels [] 7 0]"
  have names: "stack_names (hd_tables demo_head) 0 = Some [''f'', ''main'']"
    by (simp add: stack_names_def location_name_def line_name_def at64_def demo_head_def)
  have rows: "row_samples Some demo_head (with_labels [] 7 0) = hd_samples demo_head"
    by (simp add: row_samples_def with_labels_def demo_head_def)
  have ids: "\<forall>x \<in> set (hd_samples demo_head). sv_StacktraceID x = 0" by (simp add: demo_head_def)
  have "length (ds_slice (ht_strings (hd_tables demo_head))) < 2 ^ 31" by (simp add: demo_head_def)
  moreover have "\<forall>p \<in> set ?L. Some p \<noteq> None
      \<and> (\<forall>x \<in> set (row_samples Some demo_head p). sv_Value x \<noteq> 0 \<longrightarrow> stack_names (hd_tables demo_head) (sv_StacktraceID x) \<noteq> None)"
    using names ids by (simp add: rows)
  moreover have "names_value (hd_tables demo_head) (concat (map (row_samples Some demo_head) ?L)) [''f'', ''main''] = 14"
    using names by (simp add: rows names_value_def) (simp add: demo_head_def)
  ultimately show ?thesis
    using MergeByStacktraces_values[OF NewSliceIterator_yields[of "with_labels [] 0 0" ?L], of demo_head Some] by metis
qed

text \<open>
  \<open>MergeByLabels\<close> on the head: for rows without error whose fingerprints identify their labels,
  sorted by name and free of the separator bytes, and sorted grouping names, the result has exactly
  one series for each group of labels of the rows, in strictly increasing order of the labels; its
  points are the totals of the rows of the group at their times, sorted by time.
\<close>

theorem MergeByLabels_groups:
  assumes "yields it i L []" and "\<forall>p \<in> set L. as_head p = Some (f p)" and "fps_identify (f ` set L)"
    and "\<forall>p \<in> f ` set L. by_name (pw_lbs p) \<and> sep_free (pw_lbs p)" and "sorted by'"
  shows "\<exists>res. MergeByLabels as_head it float tfn h by' i = Some (Inr res)
    \<and> sorted_wrt (<) (map (\<lambda>s. map label_key (sr_Labels s)) res)
    \<and> sr_Labels ` set res = (\<lambda>p. WithLabels (pw_lbs p) by') ` f ` set L
    \<and> (\<forall>s \<in> set res. sorted (map (\<lambda>p. sint (pt_Timestamp p)) (sr_Points s))
         \<and> mset (sr_Points s) = mset (map (row_point float tfn h) (filter (\<lambda>p. WithLabels (pw_lbs p) by' = sr_Labels s) (map f L))))"
proof -
  have "group_inv (row_point float tfn h) by' \<lparr>lg_byFingerprint = [], lg_series = []\<rparr> []" by (simp add: group_inv_def)
  from label_rows_ok[OF assms(1) this assms(2)] assms(3) obtain s j where
    s: "label_rows as_head it float tfn h by' i \<lparr>lg_byFingerprint = [], lg_series = []\<rparr> = Some (Inr s, j)" "it_Err it j = []"
      and inv: "group_inv (row_point float tfn h) by' s (map f L)"
    by auto
  have "MergeByLabels as_head it float tfn h by' i = Some (Inr (sorted_groups s))" using s by (simp add: MergeByLabels_def)
  then show ?thesis using sorted_groups_ok[OF inv _ assms(5)] assms(4) by (simp add: image_comp comp_def)
qed

end
