(* ===== verification/Sample_Merge.thy ===== *)
theory Sample_Merge
  imports Aligned_Columns Block_Select Head_Query
begin

section \<open>Merging the samples of a block (pkg/phlaredb/sample_merge.go)\<close>

text \<open>
  \<open>MergeByStacktraces\<close> reads the stack trace IDs and values of the selected rows in parallel, adds the
  values per ID and resolves the IDs to function names: the locations of the stack traces, their
  functions, the names of the functions, and back again from the names to the locations.
  \<open>MergeByLabels\<close> adds the values of a row and groups the rows by labels.

  The columns and tables of a block are arguments; \<open>int64\<close> reads a parquet value.  A row of the table
  of stack traces is the list of its location IDs, an ID is the number of a row.
\<close>

subsection \<open>Loops and rows by number\<close>

text \<open>The loop \<open>for it.Next() { body }\<close>, with the error of the iterator after it.\<close>

partial_function (option) for_each :: "('i, 'a) Iterator \<Rightarrow> ('a \<Rightarrow> 's \<Rightarrow> 's) \<Rightarrow> 'i \<Rightarrow> 's \<Rightarrow> ('s \<times> errs) option" where
  "for_each it body i acc = do {
     (ok, i) \<leftarrow> it_Next it i;
     if ok then for_each it body i (body (it_At it i) acc) else Some (acc, it_Err it i) }"

lemma for_each_yields: "yields it i xs e \<Longrightarrow> for_each it body i acc = Some (fold body xs acc, e)"
proof (induction xs arbitrary: i acc)
  case Nil
  then have "Iterators.ended it e i" by (auto elim: yields_NilE)
  then obtain j where "it_Next it i = Some (False, j)" "it_Err it j = e" using Iterators.ended_next by fastforce
  then show ?case by (subst for_each.simps) simp
next
  case (Cons x xs)
  then obtain j where "it_Next it i = Some (True, j)" "it_At it j = x" "yields it j xs e" by (auto elim: yields_ConsE)
  then show ?case using Cons.IH by (subst for_each.simps) simp
qed

text \<open>An iterator in the place of a column that the file does not have only has an error.\<close>

definition iter_or_err :: "'a \<Rightarrow> ('i, 'a) Iterator \<Rightarrow> (errs + 'i, 'a) Iterator" where
  "iter_or_err zero it =
     \<lparr>it_Next = (\<lambda>s. case s of Inl e \<Rightarrow> Some (False, Inl e) | Inr i \<Rightarrow> map_option (map_prod (\<lambda>b. b) Inr) (it_Next it i)),
      it_At = (\<lambda>s. case s of Inl e \<Rightarrow> zero | Inr i \<Rightarrow> it_At it i),
      it_Err = (\<lambda>s. case s of Inl e \<Rightarrow> e | Inr i \<Rightarrow> it_Err it i),
      it_Close = (\<lambda>s. case s of Inl e \<Rightarrow> ([], Inl e) | Inr i \<Rightarrow> map_prod (\<lambda>e. e) Inr (it_Close it i))\<rparr>"

lemma iter_or_err_ended: "Iterators.ended it e i \<Longrightarrow> Iterators.ended (iter_or_err z it) e (Inr i)"
proof (coinduction arbitrary: i)
  case (ended i)
  then obtain j where "it_Next it i = Some (False, j)" "it_Err it j = e" "Iterators.ended it e j" by (auto elim: Iterators.endedE)
  then show ?case by (auto simp: iter_or_err_def)
qed

lemma iter_or_err_yields: "yields it i xs e \<Longrightarrow> yields (iter_or_err z it) (Inr i) xs e"
proof (induction i xs e rule: yields.induct)
  case (yields_Nil e i)
  then show ?case by (simp add: yields.yields_Nil iter_or_err_ended)
next
  case (yields_Cons i j e xs)
  have n: "it_Next (iter_or_err z it) (Inr i) = Some (True, Inr j)" using yields_Cons(1) by (simp add: iter_or_err_def)
  show ?case using yields.yields_Cons[OF n _ yields_Cons(4)] yields_Cons(2) by (simp add: iter_or_err_def)
qed

definition repeatedColumnIter :: "('i, 't) Iterator \<Rightarrow> 'v repGroup list option \<Rightarrow> string \<Rightarrow> 'i \<Rightarrow>
    (errs + ('i, 't, 'v) repeatedPageIterator) option" where
  "repeatedColumnIter rit column columnName rows =
     (case column of
        None \<Rightarrow> Some (Inl [''column '' @ columnName @ '' not found in parquet file''])
      | Some rgs \<Rightarrow> map_option Inr (NewRepeatedPageIterator rit rows rgs))"

text \<open>
  \<open>cacheIterator\<close> over the numbers of rows of a table that is in memory: it ends at a number that is
  too large, and a negative one panics (\<open>None\<close>).
\<close>

definition cache_At :: "'m list \<Rightarrow> i64 \<Rightarrow> 'm option" where
  "cache_At cache n = (if 0 \<le> sint n \<and> sint n < int (length cache) then Some (cache ! nat (sint n)) else None)"

definition cache_iterator :: "'m list \<Rightarrow> (i64 sliceIterator, 'm option \<times> i64) Iterator" where
  "cache_iterator cache =
     \<lparr>it_Next = (\<lambda>i. case slice_next i of (ok, i) \<Rightarrow>
        Some (if \<not> ok then (False, i)
              else if sint (it_At (slice_iterator 0) i) \<ge> int (length cache) then (False, i) else (True, i))),
      it_At = (\<lambda>i. (cache_At cache (it_At (slice_iterator 0) i), it_At (slice_iterator 0) i)),
      it_Err = (\<lambda>i. []), it_Close = (\<lambda>i. ([], i))\<rparr>"

lemma cache_yields:
  "list_all (\<lambda>n. sint n < int (length cache)) idl \<Longrightarrow> sl_list i = idl \<Longrightarrow>
   yields (cache_iterator cache) i (map (\<lambda>n. (cache_At cache n, n)) idl) []"
proof (induction idl arbitrary: i)
  case Nil
  have "Iterators.ended (cache_iterator cache) [] i" using Nil(2)
  proof (coinduction arbitrary: i)
    case (ended i)
    then show ?case by (auto simp: cache_iterator_def slice_next_def)
  qed
  then show ?case by (simp add: yields_Nil)
next
  case (Cons n idl)
  let ?j = "\<lparr>sl_list = idl, sl_cur = Some n\<rparr>"
  have nx: "it_Next (cache_iterator cache) i = Some (True, ?j)" using Cons.prems by (simp add: cache_iterator_def slice_next_def slice_iterator_def)
  have "yields (cache_iterator cache) ?j (map (\<lambda>n. (cache_At cache n, n)) idl) []" using Cons by simp
  from yields_Cons[OF nx _ this] show ?case by (simp add: cache_iterator_def slice_iterator_def)
qed

text \<open>\<open>uniqueIDs\<close>: the keys of a map, in ascending order.\<close>

definition sorted_keys :: "(i64 \<times> 'x) list \<Rightarrow> i64 list" where
  "sorted_keys m = sort_slice (\<lambda>a b. sint a < sint b) (map fst m)"

definition uniqueIDs_iterator :: "(i64 \<times> 'x) list \<Rightarrow> i64 sliceIterator" where
  "uniqueIDs_iterator m = NewSliceIterator (sorted_keys m)"

lemma cache_loop:
  "list_all (\<lambda>n. sint n < int (length cache)) (sorted_keys m) \<Longrightarrow>
   for_each (cache_iterator cache) body (uniqueIDs_iterator m) acc = Some (fold body (map (\<lambda>n. (cache_At cache n, n)) (sorted_keys m)) acc, [])"
  by (rule for_each_yields, rule cache_yields) (simp_all add: uniqueIDs_iterator_def NewSliceIterator_def)

definition lookup_list :: "(i64 \<times> 'x list) list \<Rightarrow> i64 \<Rightarrow> 'x list" where
  "lookup_list m k = (case map_of m k of Some xs \<Rightarrow> xs | None \<Rightarrow> [])"

definition append_to :: "i64 \<Rightarrow> 'x \<Rightarrow> (i64 \<times> 'x list) list \<Rightarrow> (i64 \<times> 'x list) list" where
  "append_to k x m = AList.update k (lookup_list m k @ [x]) m"

subsection \<open>Resolving symbols\<close>

text \<open>The locations of the stack traces and the set of all of them.\<close>

definition gather_stacks :: "('v \<Rightarrow> i64) \<Rightarrow> i64 \<times> 'v pqValue list \<Rightarrow> (i64 \<times> i64 list) list \<times> (i64 \<times> unit) list \<Rightarrow>
    (i64 \<times> i64 list) list \<times> (i64 \<times> unit) list" where
  "gather_stacks int64 s acc =
     (case (s, acc) of ((row, vs), (m, idl)) \<Rightarrow>
        let locs = map (\<lambda>v. int64 (pv_value v)) vs;
            idl = fold (\<lambda>l. AList.update l ()) locs idl
        in (case map_of m row of
              None \<Rightarrow> (AList.update row locs m, idl)
            | Some ls \<Rightarrow> (AList.update row (ls @ locs) m, idl)))"

definition gather_location :: "Location option \<times> i64 \<Rightarrow> (i64 \<times> i64 list) list option \<Rightarrow> (i64 \<times> i64 list) list option" where
  "gather_location s acc =
     (case s of (r, n) \<Rightarrow> do { m \<leftarrow> acc; l \<leftarrow> r; Some (fold (\<lambda>line. append_to (ln_FunctionId line) n) (loc_Line l) m) })"

definition gather_function :: "Function option \<times> i64 \<Rightarrow> (i64 \<times> i64 list) list option \<Rightarrow> (i64 \<times> i64 list) list option" where
  "gather_function s acc =
     (case s of (r, n) \<Rightarrow> do { m \<leftarrow> acc; f \<leftarrow> r; Some (append_to (fn_Name f) n m) })"

definition gather_string :: "string option \<times> i64 \<Rightarrow> (string list \<times> i64 list list \<times> nat) option \<Rightarrow> (string list \<times> i64 list list \<times> nat) option" where
  "gather_string s acc =
     (case s of (r, n) \<Rightarrow> do {
        (names, idSlice, idx) \<leftarrow> acc;
        str \<leftarrow> r;
        if idx < length names then Some (names[idx := str], idSlice[idx := [n]], idx + 1) else None })"

definition follow_ids :: "(i64 \<times> i64 list) list \<Rightarrow> i64 list list \<Rightarrow> i64 list list" where
  "follow_ids m idSlice = map (\<lambda>idl. concat (map (lookup_list m) idl)) idSlice"

fun name_ids :: "nat \<Rightarrow> i64 list list \<Rightarrow> (i64 \<times> i32) list \<Rightarrow> (i64 \<times> i32) list" where
  "name_ids nameID [] m = m"
| "name_ids nameID (idl # idSlice) m = name_ids (nameID + 1) idSlice (fold (\<lambda>l. AList.update l (of_nat nameID)) idl m)"

definition function_ids :: "(i64 \<times> i32) list \<Rightarrow> i64 list \<Rightarrow> i32 list" where
  "function_ids m locs = map (\<lambda>l. case map_of m l of Some i \<Rightarrow> i | None \<Rightarrow> 0) locs"

record ('v) blockTables =
  bt_stacktraces :: "'v repGroup list option"
  bt_locations :: "Location list"
  bt_functions :: "Function list"
  bt_strings :: "string list"

definition resolveSymbols :: "('v \<Rightarrow> i64) \<Rightarrow> 'v blockTables \<Rightarrow> (i64 \<times> i64) list \<Rightarrow> ((i32 list \<times> i64) list \<times> string list) outcome option" where
  "resolveSymbols int64 t aggr = do {
     st \<leftarrow> repeatedColumnIter (slice_iterator 0) (bt_stacktraces t) ''LocationIDs.list.element'' (NewSliceIterator (sorted_keys aggr));
     ((locationsByStacktraceID, locationIDs), err) \<leftarrow>
       for_each (iter_or_err (0, []) (repeated_iterator (slice_iterator 0) sint 0)) (gather_stacks int64) st ([], []);
     if err \<noteq> [] then Some (Fail err) else do {
     (r, err) \<leftarrow> for_each (cache_iterator (bt_locations t)) gather_location (uniqueIDs_iterator locationIDs) (Some []);
     case r of None \<Rightarrow> Some Panic | Some locationIDsByFunctionID \<Rightarrow> do {
     (r, err) \<leftarrow> for_each (cache_iterator (bt_functions t)) gather_function (uniqueIDs_iterator locationIDsByFunctionID) (Some []);
     case r of None \<Rightarrow> Some Panic | Some functionIDsByStringID \<Rightarrow> do {
     let n = length functionIDsByStringID;
     (r, err) \<leftarrow> for_each (cache_iterator (bt_strings t)) gather_string (uniqueIDs_iterator functionIDsByStringID)
       (Some (replicate n '''', replicate n [], 0));
     case r of None \<Rightarrow> Some Panic | Some (names, idSlice, idx) \<Rightarrow>
       (let idSlice = follow_ids locationIDsByFunctionID (follow_ids functionIDsByStringID idSlice);
            nameIDbyLocationID = name_ids 0 idSlice []
        in Some (Done (map (\<lambda>(id', v). (function_ids nameIDbyLocationID (lookup_list locationsByStacktraceID id'), v)) aggr, names))) } } } }"

subsection \<open>Merging by stack traces\<close>

fun aggr_row :: "('v \<Rightarrow> i64) \<Rightarrow> 'v pqValue list \<Rightarrow> 'v pqValue list \<Rightarrow> (i64 \<times> i64) list \<Rightarrow> (i64 \<times> i64) list option" where
  "aggr_row int64 [] vs m = Some m"
| "aggr_row int64 (i # is') [] m = None"
| "aggr_row int64 (i # is') (v # vs) m =
     (let sid = int64 (pv_value i); x = int64 (pv_value v)
      in aggr_row int64 is' vs (AList.update sid (case map_of m sid of Some y \<Rightarrow> y + x | None \<Rightarrow> x) m))"

definition aggr_values :: "('v \<Rightarrow> i64) \<Rightarrow> 't \<times> 'v pqValue list list \<Rightarrow> (i64 \<times> i64) list option \<Rightarrow> (i64 \<times> i64) list option" where
  "aggr_values int64 r acc = (case snd r of [is', vs] \<Rightarrow> Option.bind acc (aggr_row int64 is' vs) | _ \<Rightarrow> None)"

definition block_MergeByStacktraces :: "('v \<Rightarrow> i64) \<Rightarrow> ('i \<Rightarrow> BlockProfile sliceIterator option) \<Rightarrow> ('i, BlockProfile) Iterator \<Rightarrow> BlockProfile \<Rightarrow>
    'v repGroup list option \<Rightarrow> 'v repGroup list option \<Rightarrow> 'v blockTables \<Rightarrow> 'i \<Rightarrow> ((i32 list \<times> i64) list \<times> string list) outcome option" where
  "block_MergeByStacktraces int64 as_slice rit zero idCol valueCol t rows = do {
     r \<leftarrow> CloneN as_slice rit rows 2;
     case r of
       Inl err \<Rightarrow> Some (Fail err)
     | Inr multiRows \<Rightarrow> do {
         a \<leftarrow> repeatedColumnIter (slice_iterator zero) idCol ''Samples.list.element.StacktraceID'' (multiRows ! 0);
         b \<leftarrow> repeatedColumnIter (slice_iterator zero) valueCol ''Samples.list.element.Value'' (multiRows ! 1);
         (r, err) \<leftarrow> for_each (multi_iterator (iter_or_err (zero, []) (repeated_iterator (slice_iterator zero) bk_RowNum zero)))
           (aggr_values int64) (NewMultiRepeatedPageIterator zero [a, b]) (Some []);
         case r of None \<Rightarrow> Some Panic | Some aggr \<Rightarrow> resolveSymbols int64 t aggr } }"

subsection \<open>Merging by labels\<close>

text \<open>One piece of a row gives one point; the conversion of a total to \<open>float64\<close> is a parameter.\<close>

definition piece_point :: "('v \<Rightarrow> i64) \<Rightarrow> (i64 \<Rightarrow> 'f) \<Rightarrow> BlockProfile \<times> 'v pqValue list \<Rightarrow> 'f Point" where
  "piece_point int64 float r =
     \<lparr>pt_Value = float (fold (\<lambda>e total. total + int64 (pv_value e)) (snd r) 0), pt_Timestamp = bk_ts (fst r)\<rparr>"

definition block_label_row :: "('v \<Rightarrow> i64) \<Rightarrow> (i64 \<Rightarrow> 'f) \<Rightarrow> string list \<Rightarrow> BlockProfile \<times> 'v pqValue list \<Rightarrow> 'f label_state option \<Rightarrow> 'f label_state option" where
  "block_label_row int64 float by' r acc =
     Option.bind acc (group_point by' (bk_fp (fst r)) (bk_labels (fst r)) (piece_point int64 float r))"

definition block_MergeByLabels :: "('v \<Rightarrow> i64) \<Rightarrow> (i64 \<Rightarrow> 'f) \<Rightarrow> ('i, BlockProfile) Iterator \<Rightarrow> BlockProfile \<Rightarrow> 'v repGroup list option \<Rightarrow> string list \<Rightarrow> 'i \<Rightarrow>
    'f Series list outcome option" where
  "block_MergeByLabels int64 float rit zero valueCol by' rows = do {
     it \<leftarrow> repeatedColumnIter rit valueCol ''Samples.list.element.Value'' rows;
     (r, err) \<leftarrow> for_each (iter_or_err (zero, []) (repeated_iterator rit bk_RowNum zero)) (block_label_row int64 float by') it
       (Some \<lparr>lg_byFingerprint = [], lg_series = []\<rparr>);
     Some (case r of None \<Rightarrow> Panic | Some s \<Rightarrow> Done (sorted_groups s)) }"

subsection \<open>Grouping by a key\<close>

lemma lookup_list_Nil [simp]: "lookup_list [] k = []"
  by (simp add: lookup_list_def)

lemma lookup_append_to [simp]: "lookup_list (append_to k x m) k' = (if k' = k then lookup_list m k @ [x] else lookup_list m k')"
  by (simp add: lookup_list_def append_to_def update_conv' split: option.splits)

lemma keys_append_to [simp]: "fst ` set (append_to k x m) = insert k (fst ` set m)"
  by (simp add: append_to_def dom_map_of_conv_image_fst[symmetric] update_conv')

lemma distinct_append_to: "distinct (map fst m) \<Longrightarrow> distinct (map fst (append_to k x m))"
  by (simp add: append_to_def distinct_update)

definition group_by :: "('x \<Rightarrow> i64) \<Rightarrow> 'x list \<Rightarrow> (i64 \<times> 'x list) list \<Rightarrow> (i64 \<times> 'x list) list" where
  "group_by key xs m = fold (\<lambda>x. append_to (key x) x) xs m"

lemma group_by_spec:
  "lookup_list (group_by key xs m) k = lookup_list m k @ filter (\<lambda>x. key x = k) xs"
  "fst ` set (group_by key xs m) = fst ` set m \<union> key ` set xs"
  "distinct (map fst m) \<Longrightarrow> distinct (map fst (group_by key xs m))"
proof -
  show "lookup_list (group_by key xs m) k = lookup_list m k @ filter (\<lambda>x. key x = k) xs"
    by (induction xs arbitrary: m) (auto simp: group_by_def)
  show "fst ` set (group_by key xs m) = fst ` set m \<union> key ` set xs"
    by (induction xs arbitrary: m) (auto simp: group_by_def)
  show "distinct (map fst m) \<Longrightarrow> distinct (map fst (group_by key xs m))"
    by (induction xs arbitrary: m) (auto simp: group_by_def distinct_append_to)
qed

interpretation id_order: heap_order "\<lambda>a b :: i64. sint a < sint b"
  by unfold_locales auto

lemma sorted_keys_spec:
  assumes "distinct (map fst m)"
  shows "sorted_wrt (<) (map sint (sorted_keys m))" "set (sorted_keys m) = fst ` set m" "distinct (sorted_keys m)" "length (sorted_keys m) = length m"
proof -
  show s: "set (sorted_keys m) = fst ` set m" and "length (sorted_keys m) = length m" by (simp_all add: sorted_keys_def)
  show d: "distinct (sorted_keys m)" using assms by (metis mset_eq_imp_distinct_iff mset_sort_slice sorted_keys_def)
  have "sorted_wrt (\<lambda>a b. \<not> sint b < sint a) (sorted_keys m)" using id_order.sort_slice_sorted unfolding sorted_keys_def .
  then have "sorted (map sint (sorted_keys m))" by (simp add: sorted_map not_less)
  moreover have "distinct (map sint (sorted_keys m))" using d by (simp add: distinct_map inj_on_def) (metis sint_inj)
  ultimately show "sorted_wrt (<) (map sint (sorted_keys m))" by (simp add: strict_sorted_iff)
qed

subsection \<open>Symbols\<close>

lemma fold_AList_keys: "fst ` set (fold (\<lambda>l. AList.update l ()) locs m) = fst ` set m \<union> set locs"
  "distinct (map fst m) \<Longrightarrow> distinct (map fst (fold (\<lambda>l. AList.update l ()) locs m))"
proof -
  show "fst ` set (fold (\<lambda>l. AList.update l ()) locs m) = fst ` set m \<union> set locs"
    by (induction locs arbitrary: m) (auto simp: dom_map_of_conv_image_fst[symmetric] update_conv')
  show "distinct (map fst m) \<Longrightarrow> distinct (map fst (fold (\<lambda>l. AList.update l ()) locs m))"
    by (induction locs arbitrary: m) (auto simp: distinct_update)
qed

abbreviation loc_values :: "('v \<Rightarrow> i64) \<Rightarrow> 'v pqValue list \<Rightarrow> i64 list" where
  "loc_values int64 vs \<equiv> map (\<lambda>v. int64 (pv_value v)) vs"

lemma gather_stacks_fold:
  assumes "distinct (map fst idl)" "fold (gather_stacks int64) ps (m, idl) = (m', idl')"
  shows "lookup_list m' k = lookup_list m k @ loc_values int64 (concat (map snd (filter (\<lambda>p. fst p = k) ps))) \<and>
    fst ` set idl' = fst ` set idl \<union> set (loc_values int64 (concat (map snd ps))) \<and> distinct (map fst idl')"
  using assms
proof (induction ps arbitrary: m idl)
  case (Cons p ps)
  obtain row vs where p: "p = (row, vs)" by (cases p)
  let ?m = "AList.update row (lookup_list m row @ loc_values int64 vs) m" and ?idl = "fold (\<lambda>l. AList.update l ()) (loc_values int64 vs) idl"
  have step: "gather_stacks int64 p (m, idl) = (?m, ?idl)" by (simp add: gather_stacks_def p Let_def lookup_list_def split: option.splits)
  have "distinct (map fst ?idl)" using fold_AList_keys(2)[OF Cons.prems(1)] .
  from Cons.IH[OF this] Cons.prems(2) step
  have "lookup_list m' k = lookup_list ?m k @ loc_values int64 (concat (map snd (filter (\<lambda>p. fst p = k) ps)))"
    "fst ` set idl' = fst ` set ?idl \<union> set (loc_values int64 (concat (map snd ps)))" "distinct (map fst idl')" by auto
  then show ?case by (auto simp: p fold_AList_keys(1) lookup_list_def update_conv' split: option.splits)
qed simp

lemma chopped_rows: "chopped ws ps \<Longrightarrow> fst ` set ps \<subseteq> fst ` set ws"
  by (induction rule: chopped.induct) auto

lemma filter_one: "distinct xs \<Longrightarrow> x \<in> set xs \<Longrightarrow> filter (\<lambda>y. y = x) xs = [x]"
  by (induction xs) (auto simp: filter_empty_conv)

lemma chopped_filter: "chopped ws ps \<Longrightarrow> concat (map snd (filter (\<lambda>p. fst p = k) ps)) = concat (map snd (filter (\<lambda>p. fst p = k) ws))"
  by (induction rule: chopped.induct) auto

text \<open>The name of a location with one line.\<close>

definition loc_function :: "'v blockTables \<Rightarrow> i64 \<Rightarrow> i64" where
  "loc_function t l = ln_FunctionId (hd (loc_Line (bt_locations t ! nat (sint l))))"

definition fn_name :: "'v blockTables \<Rightarrow> i64 \<Rightarrow> i64" where
  "fn_name t f = fn_Name (bt_functions t ! nat (sint f))"

definition loc_name :: "'v blockTables \<Rightarrow> i64 \<Rightarrow> string" where
  "loc_name t l = bt_strings t ! nat (sint (fn_name t (loc_function t l)))"

definition loc_ok :: "'v blockTables \<Rightarrow> i64 \<Rightarrow> bool" where
  "loc_ok t l =
     (0 \<le> sint l \<and> sint l < int (length (bt_locations t)) \<and> length (loc_Line (bt_locations t ! nat (sint l))) = 1 \<and>
      0 \<le> sint (loc_function t l) \<and> sint (loc_function t l) < int (length (bt_functions t)) \<and>
      0 \<le> sint (fn_name t (loc_function t l)) \<and> sint (fn_name t (loc_function t l)) < int (length (bt_strings t)))"

lemma gather_locations:
  assumes "list_all (loc_ok t) ns"
  shows "fold gather_location (map (\<lambda>n. (cache_At (bt_locations t) n, n)) ns) (Some m) = Some (group_by (loc_function t) ns m)"
  using assms
proof (induction ns arbitrary: m)
  case (Cons n ns)
  obtain line where "loc_Line (bt_locations t ! nat (sint n)) = [line]" using Cons.prems by (auto simp: loc_ok_def length_Suc_conv)
  then have "gather_location (cache_At (bt_locations t) n, n) (Some m) = Some (append_to (loc_function t n) n m)"
    using Cons.prems by (simp add: gather_location_def cache_At_def loc_ok_def loc_function_def)
  then show ?case using Cons by (simp add: group_by_def)
qed (simp add: group_by_def)

lemma gather_functions:
  assumes "list_all (\<lambda>n. 0 \<le> sint n \<and> sint n < int (length (bt_functions t))) ns"
  shows "fold gather_function (map (\<lambda>n. (cache_At (bt_functions t) n, n)) ns) (Some m) = Some (group_by (fn_name t) ns m)"
  using assms
proof (induction ns arbitrary: m)
  case (Cons n ns)
  then have "gather_function (cache_At (bt_functions t) n, n) (Some m) = Some (append_to (fn_name t n) n m)"
    by (simp add: gather_function_def cache_At_def fn_name_def)
  then show ?case using Cons by (simp add: group_by_def)
qed (simp add: group_by_def)

lemma gather_strings:
  assumes "length names = length idss" "list_all (\<lambda>n. 0 \<le> sint n \<and> sint n < int (length strs)) ns"
  shows "fold gather_string (map (\<lambda>n. (cache_At strs n, n)) ns) (Some (names @ replicate (length ns) '''', idss @ replicate (length ns) [], length names)) =
    Some (names @ map (\<lambda>n. strs ! nat (sint n)) ns, idss @ map (\<lambda>n. [n]) ns, length names + length ns)"
  using assms
proof (induction ns arbitrary: names idss)
  case (Cons n ns)
  have "gather_string (cache_At strs n, n) (Some (names @ replicate (length (n # ns)) '''', idss @ replicate (length (n # ns)) [], length names)) =
    Some ((names @ [strs ! nat (sint n)]) @ replicate (length ns) '''', (idss @ [[n]]) @ replicate (length ns) [], length (names @ [strs ! nat (sint n)]))"
    using Cons.prems by (simp add: gather_string_def cache_At_def list_update_append)
  then show ?case using Cons.IH[of "names @ [strs ! nat (sint n)]" "idss @ [[n]]"] Cons.prems by simp
qed simp

lemma name_ids_other: "\<forall>xs \<in> set xss. l \<notin> set xs \<Longrightarrow> map_of (name_ids k xss m) l = map_of m l"
proof (induction xss arbitrary: k m)
  case (Cons xs xss)
  have "map_of (fold (\<lambda>l. AList.update l c) xs m) l = map_of m l" if "l \<notin> set xs" for c :: i32 and m using that
    by (induction xs arbitrary: m) (auto simp: update_conv')
  then show ?case using Cons by simp
qed simp

lemma name_ids_at:
  assumes "i < length xss" "l \<in> set (xss ! i)" "\<And>j. j < length xss \<Longrightarrow> j \<noteq> i \<Longrightarrow> l \<notin> set (xss ! j)"
  shows "map_of (name_ids k xss m) l = Some (of_nat (k + i))"
  using assms
proof (induction xss arbitrary: k m i)
  case (Cons xs xss)
  show ?case
  proof (cases i)
    case 0
    have "map_of (fold (\<lambda>l. AList.update l c) xs m) l = Some c" if "l \<in> set xs" for c :: i32 and m using that
      by (induction xs arbitrary: m rule: rev_induct) (auto simp: update_conv')
    moreover have "l \<notin> set ys" if ys: "ys \<in> set xss" for ys
    proof -
      obtain j where "j < length xss" "ys = xss ! j" using ys by (auto simp: in_set_conv_nth)
      then show ?thesis using Cons.prems(3)[of "Suc j"] 0 by simp
    qed
    ultimately show ?thesis using Cons.prems(2) 0 name_ids_other by simp
  next
    case (Suc i')
    have "l \<notin> set (xss ! j)" if "j < length xss" "j \<noteq> i'" for j using Cons.prems(3)[of "Suc j"] that Suc by simp
    then show ?thesis using Cons.IH[of i' "k + 1"] Cons.prems(1,2) Suc by simp
  qed
qed simp

text \<open>
  What the tables say of a stack trace, and what is required of the ones that are resolved: their
  rows exist, each of their locations has one line, and what it refers to exists.
\<close>

definition stack_names :: "('v \<Rightarrow> i64) \<Rightarrow> 'v blockTables \<Rightarrow> 'v pqValue list list \<Rightarrow> i64 \<Rightarrow> string list" where
  "stack_names int64 t stacks sid = map (\<lambda>v. loc_name t (int64 (pv_value v))) (stacks ! nat (sint sid))"

definition stack_ok :: "('v \<Rightarrow> i64) \<Rightarrow> 'v blockTables \<Rightarrow> 'v pqValue list list \<Rightarrow> i64 \<Rightarrow> bool" where
  "stack_ok int64 t stacks sid =
     (0 \<le> sint sid \<and> sint sid < int (length stacks) \<and> list_all (\<lambda>v. loc_ok t (int64 (pv_value v))) (stacks ! nat (sint sid)))"

definition tables_ok :: "'v blockTables \<Rightarrow> 'v pqValue list list \<Rightarrow> bool" where
  "tables_ok t stacks =
     (int (length (bt_strings t)) < 2 ^ 31 \<and> (case bt_stacktraces t of Some rgs \<Rightarrow> rep_file rgs stacks | None \<Rightarrow> False))"

lemma distinct_ids_bounded:
  assumes "distinct (xs :: i64 list)" "list_all (\<lambda>n. 0 \<le> sint n \<and> sint n < int N) xs"
  shows "length xs \<le> N"
proof -
  have "inj_on (\<lambda>x. nat (sint x)) (set xs)"
  proof (rule inj_onI)
    fix x y assume "x \<in> set xs" "y \<in> set xs" "nat (sint x) = nat (sint y)"
    moreover from this have "0 \<le> sint x" "0 \<le> sint y" using assms(2) by (simp_all add: list_all_iff)
    ultimately have "sint x = sint y" by (simp add: eq_nat_nat_iff)
    then show "x = y" by (rule sint_inj)
  qed
  moreover have "(\<lambda>x. nat (sint x)) ` set xs \<subseteq> {..<N}" using assms(2) by (auto simp: list_all_iff)
  ultimately have "card (set xs) \<le> N" using card_inj_on_le by (metis card_lessThan finite_lessThan)
  then show ?thesis using distinct_card[OF assms(1)] by simp
qed

lemma names_by_location:
  fixes t :: "'v blockTables"
  assumes L: "set Ls = L" and F: "set Fs = loc_function t ` L" and S: "set Ss = fn_name t ` set Fs" "distinct Ss"
    and l: "l \<in> L" and small: "length Ss < 2 ^ 31"
    and byF: "\<And>f. lookup_list byF f = filter (\<lambda>l. loc_function t l = f) Ls" and byS: "\<And>s. lookup_list byS s = filter (\<lambda>f. fn_name t f = s) Fs"
  shows "\<exists>i. map_of (name_ids 0 (follow_ids byF (follow_ids byS (map (\<lambda>n. [n]) Ss))) []) l = Some i \<and>
    map (\<lambda>n. strs ! nat (sint n)) Ss ! nat (sint i) = strs ! nat (sint (fn_name t (loc_function t l)))"
proof -
  let ?xss = "follow_ids byF (follow_ids byS (map (\<lambda>n. [n]) Ss))"
  have at: "set (?xss ! i) = {l \<in> L. fn_name t (loc_function t l) = Ss ! i}" if "i < length Ss" for i
    using that L F by (auto simp: follow_ids_def byF byS)
  obtain i where i: "i < length Ss" "Ss ! i = fn_name t (loc_function t l)" using l F S(1) by (metis image_eqI in_set_conv_nth)
  have "l \<notin> set (?xss ! j)" if j: "j < length ?xss" "j \<noteq> i" for j
  proof -
    have "j < length Ss" using j(1) by (simp add: follow_ids_def)
    then show ?thesis using at[of j] i S(2) j(2) by (auto simp: nth_eq_iff_index_eq)
  qed
  moreover have "i < length ?xss" using i(1) by (simp add: follow_ids_def)
  moreover have "l \<in> set (?xss ! i)" unfolding at[OF i(1)] using i(2) l by simp
  ultimately have "map_of (name_ids 0 ?xss []) l = Some (of_nat i)" using name_ids_at[of i ?xss l 0 "[]"] by simp
  moreover have "nat (sint (of_nat i :: i32)) = i"
    using i(1) small by (simp add: signed_of_nat signed_take_bit_int_eq_self)
  ultimately show ?thesis using i by simp
qed

lemma resolveSymbols_ok:
  assumes t: "tables_ok t stacks" and aggr: "distinct (map fst aggr)" "list_all (stack_ok int64 t stacks) (map fst aggr)"
  shows "\<exists>res names. resolveSymbols int64 t aggr = Some (Done (res, names)) \<and>
    map (\<lambda>(fids, v). (map (\<lambda>i. names ! nat (sint i)) fids, v)) res = map (\<lambda>(sid, v). (stack_names int64 t stacks sid, v)) aggr"
proof -
  obtain rgs where rgs: "bt_stacktraces t = Some rgs" "rep_file rgs stacks" using t by (auto simp: tables_ok_def split: option.splits)
  let ?K = "sorted_keys aggr"
  note K = sorted_keys_spec[OF aggr(1)]
  have inK: "list_all (\<lambda>x. 0 \<le> sint x \<and> sint x < int (length stacks)) ?K" using aggr(2) K(2) by (auto simp: list_all_iff stack_ok_def)
  obtain st ps where st: "NewRepeatedPageIterator (slice_iterator 0) (NewSliceIterator ?K) rgs = Some st"
    "yields (repeated_iterator (slice_iterator 0) sint 0) st ps []" "chopped (map (\<lambda>x. (x, stacks ! nat (sint x))) ?K) ps"
    using repeated_yields[OF rgs(2) NewSliceIterator_yields K(1) inK] by blast
  obtain byStack locIDs where g: "fold (gather_stacks int64) ps ([], []) = (byStack, locIDs)" by fastforce
  have gs: "lookup_list byStack k = loc_values int64 (concat (map snd (filter (\<lambda>p. fst p = k) ps)))"
    "fst ` set locIDs = set (loc_values int64 (concat (map snd ps)))" "distinct (map fst locIDs)" for k
    using gather_stacks_fold[OF _ g, of k] by simp_all
  have stackLocs: "lookup_list byStack sid = loc_values int64 (stacks ! nat (sint sid))" if "sid \<in> fst ` set aggr" for sid
  proof -
    have sid: "sid \<in> set ?K" unfolding K(2) by (rule that)
    have "filter (\<lambda>p. fst p = sid) (map (\<lambda>x. (x, stacks ! nat (sint x))) ?K) = map (\<lambda>x. (x, stacks ! nat (sint x))) (filter (\<lambda>x. x = sid) ?K)"
      by (simp add: filter_map o_def)
    also have "filter (\<lambda>x. x = sid) ?K = [sid]" by (rule filter_one[OF K(3) sid])
    finally show ?thesis unfolding gs(1) chopped_filter[OF st(3)] by simp
  qed
  have locs: "fst ` set locIDs = (\<Union>sid \<in> fst ` set aggr. set (loc_values int64 (stacks ! nat (sint sid))))" "distinct (map fst locIDs)"
    using gs(3) K(2) unfolding gs(2) chopped_concat[OF st(3)] by (auto simp: o_def)
  let ?L = "sorted_keys locIDs"
  note L = sorted_keys_spec[OF locs(2)]
  have okL: "list_all (loc_ok t) ?L" using aggr(2) L(2) locs(1) by (auto simp: list_all_iff stack_ok_def)
  let ?byF = "group_by (loc_function t) ?L []"
  note byF = group_by_spec[where key = "loc_function t" and xs = ?L and m = "[]", simplified]
  let ?F = "sorted_keys ?byF"
  note F = sorted_keys_spec[OF byF(3)]
  have okF: "list_all (\<lambda>n. 0 \<le> sint n \<and> sint n < int (length (bt_functions t))) ?F"
    using okL F(2) byF(2) by (auto simp: list_all_iff loc_ok_def)
  let ?byS = "group_by (fn_name t) ?F []"
  note byS = group_by_spec[where key = "fn_name t" and xs = ?F and m = "[]", simplified]
  let ?S = "sorted_keys ?byS"
  note S = sorted_keys_spec[OF byS(3)]
  have okS: "list_all (\<lambda>n. 0 \<le> sint n \<and> sint n < int (length (bt_strings t))) ?S"
    using okL S(2) byS(2) F(2) byF(2) by (auto simp: list_all_iff loc_ok_def)
  let ?names = "map (\<lambda>n. bt_strings t ! nat (sint n)) ?S"
  let ?ids = "name_ids 0 (follow_ids ?byF (follow_ids ?byS (map (\<lambda>n. [n]) ?S))) []"
  have "resolveSymbols int64 t aggr = Some (Done (map (\<lambda>(sid, v). (function_ids ?ids (lookup_list byStack sid), v)) aggr, ?names))"
  proof -
    have 1: "for_each (iter_or_err (0, []) (repeated_iterator (slice_iterator 0) sint 0)) (gather_stacks int64) (Inr st) ([], []) = Some ((byStack, locIDs), [])"
      by (simp add: for_each_yields[OF iter_or_err_yields[OF st(2)]] g)
    have 2: "for_each (cache_iterator (bt_locations t)) gather_location (uniqueIDs_iterator locIDs) (Some []) = Some (Some ?byF, [])"
      by (subst cache_loop) (use okL gather_locations[OF okL] in \<open>simp_all add: list_all_iff loc_ok_def\<close>)
    have 3: "for_each (cache_iterator (bt_functions t)) gather_function (uniqueIDs_iterator ?byF) (Some []) = Some (Some ?byS, [])"
      by (subst cache_loop) (use okF gather_functions[OF okF] in \<open>simp_all add: list_all_iff\<close>)
    have 4: "for_each (cache_iterator (bt_strings t)) gather_string (uniqueIDs_iterator ?byS)
        (Some (replicate (length ?byS) '''', replicate (length ?byS) [], 0)) = Some (Some (?names, map (\<lambda>n. [n]) ?S, length ?S), [])"
      by (subst cache_loop) (use okS gather_strings[OF _ okS, of "[]" "[]"] S(4) in \<open>simp_all add: list_all_iff\<close>)
    show ?thesis unfolding resolveSymbols_def repeatedColumnIter_def rgs(1) using st(1) 1 2 3 4 by (simp add: Let_def)
  qed
  moreover have "map (\<lambda>i. ?names ! nat (sint i)) (function_ids ?ids (lookup_list byStack sid)) = stack_names int64 t stacks sid" if "sid \<in> fst ` set aggr" for sid
  proof -
    have "?names ! nat (sint (case map_of ?ids l of Some i \<Rightarrow> i | None \<Rightarrow> 0)) = loc_name t l" if l: "l \<in> set (loc_values int64 (stacks ! nat (sint sid)))" for l
    proof -
      have lL: "l \<in> set ?L" using l \<open>sid \<in> fst ` set aggr\<close> L(2) locs(1) by blast
      have "length ?S \<le> length (bt_strings t)" by (rule distinct_ids_bounded[OF S(3) okS])
      then have "length ?S < 2 ^ 31" using t by (simp add: tables_ok_def)
      from names_by_location[OF refl _ _ S(3) lL this byF(1) byS(1), of "bt_strings t"] show ?thesis
        using F(2) byF(2) S(2) byS(2) by (auto simp: loc_name_def)
    qed
    then show ?thesis by (simp add: function_ids_def stackLocs[OF that] stack_names_def)
  qed
  ultimately show ?thesis by (auto simp: split_def)
qed

subsection \<open>Adding the values\<close>

definition add_value :: "i64 \<times> i64 \<Rightarrow> (i64 \<times> i64) list \<Rightarrow> (i64 \<times> i64) list" where
  "add_value s m = AList.update (fst s) (case map_of m (fst s) of Some y \<Rightarrow> y + snd s | None \<Rightarrow> snd s) m"

definition sample_of :: "('v \<Rightarrow> i64) \<Rightarrow> ('v \<times> 'v) pqValue \<Rightarrow> i64 \<times> i64" where
  "sample_of int64 v = (int64 (fst (pv_value v)), int64 (snd (pv_value v)))"

lemma aggr_row_pairs:
  "aggr_row int64 (map (map_value fst) vs) (map (map_value snd) vs) m = Some (fold add_value (map (sample_of int64) vs) m)"
  by (induction vs arbitrary: m) (simp_all add: Let_def add_value_def sample_of_def map_value_def cong: option.case_cong)

lemma aggr_values_pieces:
  "fold (aggr_values int64) (map2 (\<lambda>(x, v) (y, w). (x, [v, w])) (map (\<lambda>(x, vs). (x, map (map_value fst) vs)) ps) (map (\<lambda>(x, vs). (x, map (map_value snd) vs)) ps)) (Some m) =
   Some (fold add_value (map (sample_of int64) (concat (map snd ps))) m)"
  by (induction ps arbitrary: m) (auto simp: aggr_values_def aggr_row_pairs)

lemma add_values_spec:
  "map_of (fold add_value ss m) k =
     (let xs = map snd (filter (\<lambda>s. fst s = k) ss)
      in case map_of m k of Some y \<Rightarrow> Some (y + sum_list xs) | None \<Rightarrow> if xs = [] then None else Some (sum_list xs))"
  "distinct (map fst m) \<Longrightarrow> distinct (map fst (fold add_value ss m))"
proof -
  show "map_of (fold add_value ss m) k =
     (let xs = map snd (filter (\<lambda>s. fst s = k) ss)
      in case map_of m k of Some y \<Rightarrow> Some (y + sum_list xs) | None \<Rightarrow> if xs = [] then None else Some (sum_list xs))"
    by (induction ss arbitrary: m) (auto simp: add_value_def update_conv' Let_def split: option.splits)
  show "distinct (map fst m) \<Longrightarrow> distinct (map fst (fold add_value ss m))"
    by (induction ss arbitrary: m) (auto simp: add_value_def distinct_update)
qed

text \<open>The samples of the selected rows.\<close>

definition block_samples :: "('v \<Rightarrow> i64) \<Rightarrow> ('v \<times> 'v) pqValue list list \<Rightarrow> BlockProfile list \<Rightarrow> (i64 \<times> i64) list" where
  "block_samples int64 fr L = map (sample_of int64) (concat (map (\<lambda>p. fr ! nat (bk_RowNum p)) L))"

subsection \<open>Properties\<close>

text \<open>
  C30. \<open>MergeByStacktraces\<close> of a block: for selected rows in ascending order, two columns that are cut
  alike (the projections of a column of pairs of stack trace ID and value) and tables in which
  the locations of these stack traces have one line each, it returns without error or panic, and
  its result has exactly one entry for every stack trace of the rows: the function names of its
  locations and the sum of its values over all rows, as \<open>int64\<close>.
\<close>

theorem block_MergeByStacktraces_values:
  fixes fr :: "('v \<times> 'v) pqValue list list" and rit :: "('i, BlockProfile) Iterator"
  assumes "yields rit rows L []" "\<And>sl. as_slice rows = Some sl \<Longrightarrow> sl_list sl = L"
    and "sorted_wrt (<) (map bk_RowNum L)" "list_all (\<lambda>p. 0 \<le> bk_RowNum p \<and> bk_RowNum p < int (length fr)) L"
    and "rep_file pairs fr" "tables_ok t stacks" "list_all (\<lambda>s. stack_ok int64 t stacks (fst s)) (block_samples int64 fr L)"
  shows "\<exists>res names sids. block_MergeByStacktraces int64 as_slice rit zero (Some (map (map_group fst) pairs)) (Some (map (map_group snd) pairs)) t rows =
      Some (Done (res, names)) \<and> distinct sids \<and> set sids = fst ` set (block_samples int64 fr L) \<and>
    map (\<lambda>(fids, v). (map (\<lambda>i. names ! nat (sint i)) fids, v)) res =
    map (\<lambda>sid. (stack_names int64 t stacks sid, sum_list (map snd (filter (\<lambda>s. fst s = sid) (block_samples int64 fr L))))) sids"
proof -
  have clone: "CloneN as_slice rit rows 2 = Some (Inr [NewSliceIterator L, NewSliceIterator L])"
  proof (cases "as_slice rows")
    case (Some sl)
    then show ?thesis using assms(2) by (simp add: CloneN_def numeral_2_eq_2)
  next
    case None
    then show ?thesis using Slice_yields[OF assms(1)] by (simp add: CloneN_def numeral_2_eq_2)
  qed
  obtain s ps where s: "NewRepeatedPageIterator (slice_iterator zero) (NewSliceIterator L) (map (map_group fst) pairs) = Some (map_rep fst s)"
    "NewRepeatedPageIterator (slice_iterator zero) (NewSliceIterator L) (map (map_group snd) pairs) = Some (map_rep snd s)"
    "yields (repeated_iterator (slice_iterator zero) bk_RowNum zero) (map_rep fst s) (map (\<lambda>(x, vs). (x, map (map_value fst) vs)) ps) []"
    "yields (repeated_iterator (slice_iterator zero) bk_RowNum zero) (map_rep snd s) (map (\<lambda>(x, vs). (x, map (map_value snd) vs)) ps) []"
    "chopped (map (\<lambda>p. (p, fr ! nat (bk_RowNum p))) L) ps"
    by (rule aligned_yields[OF assms(5) NewSliceIterator_yields assms(3,4)])
  let ?it = "iter_or_err (zero, []) (repeated_iterator (slice_iterator zero) bk_RowNum zero) :: (errs + (BlockProfile sliceIterator, BlockProfile, 'v) repeatedPageIterator, (BlockProfile, 'v) RepeatedRow) Iterator"
  let ?aggr = "fold add_value (block_samples int64 fr L) []"
  have loop: "for_each (multi_iterator ?it) (aggr_values int64) (NewMultiRepeatedPageIterator zero [Inr (map_rep fst s), Inr (map_rep snd s)]) (Some []) =
    Some (Some ?aggr, [])"
  proof -
    have "concat (map snd ps) = concat (map (\<lambda>p. fr ! nat (bk_RowNum p)) L)" using chopped_concat[OF s(5)] by (simp add: o_def)
    then show ?thesis
      by (subst for_each_yields[OF multi_yields[OF iter_or_err_yields[OF s(3)] iter_or_err_yields[OF s(4)]]])
        (simp_all add: NewMultiRepeatedPageIterator_def aggr_values_pieces block_samples_def)
  qed
  have d: "distinct (map fst ?aggr)" by (rule add_values_spec(2)) simp
  have keys: "map_of ?aggr sid = (if sid \<in> fst ` set (block_samples int64 fr L) then Some (sum_list (map snd (filter (\<lambda>s. fst s = sid) (block_samples int64 fr L)))) else None)" for sid
    unfolding add_values_spec(1) by (auto simp: Let_def filter_empty_conv)
  have dom: "set (map fst ?aggr) = fst ` set (block_samples int64 fr L)"
    using keys by (auto simp: dom_map_of_conv_image_fst[symmetric] split: if_splits)
  have "list_all (stack_ok int64 t stacks) (map fst ?aggr)" using assms(7) dom unfolding list_all_iff by (metis imageE)
  from resolveSymbols_ok[OF assms(6) d this] obtain res names where
    r: "resolveSymbols int64 t ?aggr = Some (Done (res, names))"
       "map (\<lambda>(fids, v). (map (\<lambda>i. names ! nat (sint i)) fids, v)) res = map (\<lambda>(sid, v). (stack_names int64 t stacks sid, v)) ?aggr" by blast
  have "block_MergeByStacktraces int64 as_slice rit zero (Some (map (map_group fst) pairs)) (Some (map (map_group snd) pairs)) t rows = Some (Done (res, names))"
    unfolding block_MergeByStacktraces_def clone repeatedColumnIter_def using s(1,2) loop r(1) by simp
  moreover have "map (\<lambda>(sid, v). (stack_names int64 t stacks sid, v)) ?aggr =
    map (\<lambda>sid. (stack_names int64 t stacks sid, sum_list (map snd (filter (\<lambda>s. fst s = sid) (block_samples int64 fr L))))) (map fst ?aggr)"
  proof -
    have "v = sum_list (map snd (filter (\<lambda>s. fst s = sid) (block_samples int64 fr L)))" if "(sid, v) \<in> set ?aggr" for sid v
      using map_of_is_SomeI[OF d that] keys[of sid] by (simp split: if_splits)
    then show ?thesis by auto
  qed
  ultimately show ?thesis using d dom r(2) by (intro exI[of _ res] exI[of _ names] exI[of _ "map fst ?aggr"]) simp
qed

text \<open>One group of pages that are read at once.\<close>

definition one_group :: "'v pqValue list list \<Rightarrow> 'v repGroup list" where
  "one_group rows =
     [\<lparr>rgp_NumRows = int (length rows), rgp_SeekToRow = (\<lambda>i. []),
       rgp_ReadPage = (\<lambda>i. Inr (Some \<lparr>rpg_NumRows = int (length rows) - i, rpg_reads = [(concat (drop (nat i) rows), REOF)]\<rparr>)), rgp_Close = []\<rparr>]"

definition demo_line :: "u64 \<Rightarrow> Location" where
  "demo_line f = \<lparr>loc_Id = 0, loc_MappingId = 0, loc_Address = 0, loc_Line = [\<lparr>ln_FunctionId = f, ln_Line = 1\<rparr>], loc_IsFolded = False\<rparr>"

definition demo_fn :: "i64 \<Rightarrow> Function" where
  "demo_fn n = \<lparr>fn_Id = 0, fn_Name = n, fn_SystemName = 0, fn_Filename = 0, fn_StartLine = 0\<rparr>"

definition demo_stacks :: "i64 pqValue list list" where
  "demo_stacks = [[pv 0 1 0], [pv 0 1 0, pv 1 1 1]]"

definition demo_tables :: "i64 blockTables" where
  "demo_tables =
     \<lparr>bt_stacktraces = Some (one_group demo_stacks), bt_locations = [demo_line 0, demo_line 1], bt_functions = [demo_fn 1, demo_fn 0],
      bt_strings = [''a'', ''b'']\<rparr>"

definition demo_pair :: "nat \<Rightarrow> i64 \<Rightarrow> i64 \<Rightarrow> (i64 \<times> i64) pqValue" where
  "demo_pair r i v = \<lparr>pv_RepetitionLevel = r, pv_DefinitionLevel = 1, pv_value = (i, v)\<rparr>"

definition demo_pairs :: "(i64 \<times> i64) pqValue list list" where
  "demo_pairs = [[demo_pair 0 0 5, demo_pair 1 1 7], [demo_pair 0 0 3]]"

definition demo_bp :: "int \<Rightarrow> BlockProfile" where
  "demo_bp n = \<lparr>bk_labels = [\<lparr>lp_Name = ''a'', lp_Value = ''x''\<rparr>], bk_fp = 7, bk_ts = of_int n, bk_RowNum = n\<rparr>"

theorem block_MergeByStacktraces_values_witness:
  "\<exists>res names. block_MergeByStacktraces (\<lambda>x. x) Some (slice_iterator (demo_bp 0)) (demo_bp 0)
      (Some (map (map_group fst) (one_group demo_pairs))) (Some (map (map_group snd) (one_group demo_pairs))) demo_tables
      (NewSliceIterator [demo_bp 0, demo_bp 1]) = Some (Done (res, names)) \<and>
    mset (map (\<lambda>(fids, v). (map (\<lambda>i. names ! nat (sint i)) fids, v)) res) = {#([''b''], 8), ([''b'', ''a''], 7)#}"
proof -
  let ?L = "[demo_bp 0, demo_bp 1]"
  have s: "block_samples (\<lambda>x. x) demo_pairs ?L = [(0, 5), (1, 7), (0, 3)]" by code_simp
  have "yields (slice_iterator (demo_bp 0)) (NewSliceIterator ?L) ?L []" by (rule NewSliceIterator_yields)
  moreover have "sl_list sl = ?L" if "Some (NewSliceIterator ?L) = Some sl" for sl using that by (auto simp: NewSliceIterator_def)
  moreover have "sorted_wrt (<) (map bk_RowNum ?L)" "list_all (\<lambda>p. 0 \<le> bk_RowNum p \<and> bk_RowNum p < int (length demo_pairs)) ?L"
    "rep_file (one_group demo_pairs) demo_pairs" "tables_ok demo_tables demo_stacks"
    "list_all (\<lambda>s. stack_ok (\<lambda>x. x) demo_tables demo_stacks (fst s)) (block_samples (\<lambda>x. x) demo_pairs ?L)" by code_simp+
  ultimately have "\<exists>res names sids. block_MergeByStacktraces (\<lambda>x. x) Some (slice_iterator (demo_bp 0)) (demo_bp 0)
      (Some (map (map_group fst) (one_group demo_pairs))) (Some (map (map_group snd) (one_group demo_pairs))) demo_tables (NewSliceIterator ?L) =
      Some (Done (res, names)) \<and> distinct sids \<and> set sids = fst ` set (block_samples (\<lambda>x. x) demo_pairs ?L) \<and>
    map (\<lambda>(fids, v). (map (\<lambda>i. names ! nat (sint i)) fids, v)) res =
    map (\<lambda>sid. (stack_names (\<lambda>x. x) demo_tables demo_stacks sid, sum_list (map snd (filter (\<lambda>s. fst s = sid) (block_samples (\<lambda>x. x) demo_pairs ?L))))) sids"
    by (rule block_MergeByStacktraces_values)
  then obtain res names sids where r: "block_MergeByStacktraces (\<lambda>x. x) Some (slice_iterator (demo_bp 0)) (demo_bp 0)
      (Some (map (map_group fst) (one_group demo_pairs))) (Some (map (map_group snd) (one_group demo_pairs))) demo_tables (NewSliceIterator ?L) = Some (Done (res, names))"
    and sids: "distinct sids" "set sids = {0, 1}"
    and m: "map (\<lambda>(fids, v). (map (\<lambda>i. names ! nat (sint i)) fids, v)) res =
      map (\<lambda>sid. (stack_names (\<lambda>x. x) demo_tables demo_stacks sid, sum_list (map snd (filter (\<lambda>s. fst s = sid) [(0, 5), (1, 7), (0, 3)])))) sids"
    unfolding s by auto
  have "mset sids = {#0, 1#}" using sids mset_set_set[OF sids(1)] by simp
  moreover have "stack_names (\<lambda>x. x) demo_tables demo_stacks 0 = [''b'']" "stack_names (\<lambda>x. x) demo_tables demo_stacks 1 = [''b'', ''a'']" by code_simp+
  ultimately have "mset (map (\<lambda>(fids, v). (map (\<lambda>i. names ! nat (sint i)) fids, v)) res) = {#([''b''], 8), ([''b'', ''a''], 7)#}"
    unfolding m mset_map by simp
  then show ?thesis using r by blast
qed

text \<open>The pieces of the rows as profiles with labels, numbered.\<close>

definition numbered :: "(BlockProfile \<times> 'v pqValue list) list \<Rightarrow> nat \<Rightarrow> ProfileWithLabels" where
  "numbered ps k = \<lparr>pw_Profile = k, pw_lbs = bk_labels (fst (ps ! k)), pw_fp = bk_fp (fst (ps ! k))\<rparr>"

lemma block_label_rows:
  assumes "fps_identify (numbered ps ` {..<length ps})" "group_inv (\<lambda>p. piece_point int64 float (ps ! pw_Profile p)) by' s (map (numbered ps) [0..<n])" "n \<le> length ps"
  shows "\<exists>s'. fold (block_label_row int64 float by') (drop n ps) (Some s) = Some s' \<and>
    group_inv (\<lambda>p. piece_point int64 float (ps ! pw_Profile p)) by' s' (map (numbered ps) [0..<length ps])"
  using assms(2,3)
proof (induction "length ps - n" arbitrary: n s)
  case 0
  then show ?case by simp
next
  case (Suc d)
  then have n: "n < length ps" by simp
  have sub: "insert (numbered ps n) (set (map (numbered ps) [0..<n])) \<subseteq> numbered ps ` {..<length ps}" using n by auto
  from group_point_ok[OF Suc.prems(1) fps_identify_mono[OF assms(1) sub]] obtain s' where
    s': "group_point by' (bk_fp (fst (ps ! n))) (bk_labels (fst (ps ! n))) (piece_point int64 float (ps ! n)) s = Some s'"
      "group_inv (\<lambda>p. piece_point int64 float (ps ! pw_Profile p)) by' s' (map (numbered ps) [0..<Suc n])"
    by (auto simp: numbered_def)
  have "fold (block_label_row int64 float by') (drop n ps) (Some s) = fold (block_label_row int64 float by') (drop (Suc n) ps) (Some s')"
    unfolding Cons_nth_drop_Suc[OF n, symmetric] using s'(1) by (simp add: block_label_row_def)
  then show ?case using Suc.hyps(1)[of "Suc n" s'] Suc.hyps(2) s'(2) n by simp
qed

text \<open>
  C31. \<open>MergeByLabels\<close> of a block: for selected rows in ascending order whose fingerprints identify
  their labels, sorted by name and free of the separator bytes, and sorted grouping names, it returns
  without error or panic one series for each group of labels, in strictly increasing order of the
  labels; for some cut of the rows into pieces, the points of a series are the totals of the
  pieces of its rows at their times, sorted by time.
\<close>

theorem block_MergeByLabels_groups:
  fixes fr :: "'v pqValue list list" and float :: "i64 \<Rightarrow> 'f"
  assumes "yields rit rows L []" "sorted_wrt (<) (map bk_RowNum L)" "list_all (\<lambda>p. 0 \<le> bk_RowNum p \<and> bk_RowNum p < int (length fr)) L"
    and "rep_file rgs fr" "\<forall>p \<in> set L. \<forall>q \<in> set L. bk_fp p = bk_fp q \<longrightarrow> bk_labels p = bk_labels q"
    and "\<forall>p \<in> set L. by_name (bk_labels p) \<and> sep_free (bk_labels p)" "sorted by'"
  shows "\<exists>res ps. block_MergeByLabels int64 float rit zero (Some rgs) by' rows = Some (Done res) \<and>
    chopped (map (\<lambda>p. (p, fr ! nat (bk_RowNum p))) L) ps \<and>
    sorted_wrt (<) (map (\<lambda>s. map label_key (sr_Labels s)) res) \<and>
    sr_Labels ` set res = (\<lambda>p. WithLabels (bk_labels p) by') ` fst ` set ps \<and>
    (\<forall>s \<in> set res. sorted (map (\<lambda>p. sint (pt_Timestamp p)) (sr_Points s)) \<and>
       mset (sr_Points s) = mset (map (piece_point int64 float) (filter (\<lambda>p. WithLabels (bk_labels (fst p)) by' = sr_Labels s) ps)))"
proof -
  obtain s ps where s: "NewRepeatedPageIterator rit rows rgs = Some s" "yields (repeated_iterator rit bk_RowNum zero) s ps []"
    "chopped (map (\<lambda>p. (p, fr ! nat (bk_RowNum p))) L) ps" using repeated_yields[OF assms(4,1-3)] by blast
  have inL: "fst ` set ps \<subseteq> set L" using chopped_rows[OF s(3)] by (auto simp: image_image)
  let ?P = "map (numbered ps) [0..<length ps]" and ?pnt = "\<lambda>p. piece_point int64 float (ps ! pw_Profile p)"
  have lab: "pw_lbs (numbered ps k) = bk_labels (fst (ps ! k))" "pw_fp (numbered ps k) = bk_fp (fst (ps ! k))" "pw_Profile (numbered ps k) = k" for k
    by (simp_all add: numbered_def)
  have nth: "fst (ps ! k) \<in> set L" if "k < length ps" for k using inL that by (metis image_subset_iff nth_mem)
  have ident: "fps_identify (numbered ps ` {..<length ps})" using assms(5) nth by (auto simp: fps_identify_def lab)
  obtain st where st: "fold (block_label_row int64 float by') ps (Some \<lparr>lg_byFingerprint = [], lg_series = []\<rparr>) = Some st" "group_inv ?pnt by' st ?P"
    using block_label_rows[OF ident, of int64 float by' "\<lparr>lg_byFingerprint = [], lg_series = []\<rparr>" 0] by (auto simp: group_inv_def)
  have run: "block_MergeByLabels int64 float rit zero (Some rgs) by' rows = Some (Done (sorted_groups st))"
    using s(1) by (simp add: block_MergeByLabels_def repeatedColumnIter_def for_each_yields[OF iter_or_err_yields[OF s(2)]] st(1))
  have "\<forall>p \<in> set ?P. by_name (pw_lbs p) \<and> sep_free (pw_lbs p)" using assms(6) nth by (auto simp: lab)
  note g = sorted_groups_ok[OF st(2) this assms(7)]
  have all: "map (\<lambda>k. ps ! k) [0..<length ps] = ps" by (rule map_nth)
  have img: "(\<lambda>p. WithLabels (pw_lbs p) by') ` set ?P = (\<lambda>p. WithLabels (bk_labels p) by') ` fst ` set ps"
    by (subst (2) all[symmetric]) (simp only: set_map image_image lab)
  have flt: "map ?pnt (filter (\<lambda>p. WithLabels (pw_lbs p) by' = l) ?P) = map (piece_point int64 float) (filter (\<lambda>p. WithLabels (bk_labels (fst p)) by' = l) ps)" for l
    by (subst (2) all[symmetric]) (simp add: filter_map o_def lab)
  show ?thesis using run s(3) g unfolding img flt by blast
qed

theorem block_MergeByLabels_groups_witness:
  "\<exists>res. block_MergeByLabels (\<lambda>x. x) (\<lambda>x. x) (slice_iterator (demo_bp 0)) (demo_bp 0) (Some (map (map_group snd) (one_group demo_pairs))) [''a'']
      (NewSliceIterator [demo_bp 0, demo_bp 1]) = Some (Done res) \<and> sr_Labels ` set res = {[\<lparr>lp_Name = ''a'', lp_Value = ''x''\<rparr>]}"
proof -
  let ?L = "[demo_bp 0, demo_bp 1]" and ?fr = "map (map (map_value snd)) demo_pairs"
  have y: "yields (slice_iterator (demo_bp 0)) (NewSliceIterator ?L) ?L []" by (rule NewSliceIterator_yields)
  have ok: "sorted_wrt (<) (map bk_RowNum ?L)" "list_all (\<lambda>p. 0 \<le> bk_RowNum p \<and> bk_RowNum p < int (length ?fr)) ?L"
    "rep_file (map (map_group snd) (one_group demo_pairs)) ?fr" by code_simp+
  have l: "\<forall>p \<in> set ?L. \<forall>q \<in> set ?L. bk_fp p = bk_fp q \<longrightarrow> bk_labels p = bk_labels q"
    "\<forall>p \<in> set ?L. by_name (bk_labels p) \<and> sep_free (bk_labels p)" "sorted [''a'']"
    by (simp_all add: demo_bp_def sep_free_def seps_def)
  obtain res ps where r: "block_MergeByLabels (\<lambda>x. x) (\<lambda>x. x) (slice_iterator (demo_bp 0)) (demo_bp 0) (Some (map (map_group snd) (one_group demo_pairs))) [''a'']
      (NewSliceIterator ?L) = Some (Done res)" "chopped (map (\<lambda>p. (p, ?fr ! nat (bk_RowNum p))) ?L) ps"
    "sr_Labels ` set res = (\<lambda>p. WithLabels (bk_labels p) [''a'']) ` fst ` set ps"
    using block_MergeByLabels_groups[OF y ok l, of "\<lambda>x. x" "\<lambda>x. x" "demo_bp 0"] by blast
  have "fst ` set ps \<subseteq> set ?L" "ps \<noteq> []"
    using chopped_rows[OF r(2)] chopped_concat[OF r(2)] by (auto simp: demo_pairs_def demo_bp_def)
  then have "(\<lambda>p. WithLabels (bk_labels p) [''a'']) ` fst ` set ps = {[\<lparr>lp_Name = ''a'', lp_Value = ''x''\<rparr>]}"
    by (cases ps) (auto simp: demo_bp_def WithLabels_def)
  then show ?thesis using r(1,3) by metis
qed

end
