(* ===== verification/Pprof_Normalize.thy ===== *)
theory Pprof_Normalize
  imports Head_Symbols Go_Sort
begin

section \<open>Normalising a pushed profile (pkg/pprof/pprof.go)\<close>

text \<open>
  Before a profile is ingested, samples with the same stack are added up, samples whose values are all
  zero are dropped, and the locations, functions and strings that only the dropped samples used are
  removed; as strings are referenced by their position, all references to strings are then shifted.
  The code changes slices in place; an index that is out of range, or a missing period type, is a
  panic (\<open>None\<close>).  Maps from IDs to the empty struct are lists of the IDs without duplicates.
\<close>

subsection \<open>The code\<close>

text \<open>
  \<open>slices.RemoveInPlace\<close> with a predicate that has a state and may panic.  It overwrites the slice from the
  left, never beyond the element that it is at.
\<close>

fun RemoveInPlace :: "('a \<Rightarrow> 's \<Rightarrow> (bool \<times> 's) option) \<Rightarrow> 'a list \<Rightarrow> 's \<Rightarrow> ('a list \<times> 's) option" where
  "RemoveInPlace predicate [] st = Some ([], st)"
| "RemoveInPlace predicate (x # xs) st = do {
     (rm, st) \<leftarrow> predicate x st;
     (ys, st) \<leftarrow> RemoveInPlace predicate xs st;
     Some (if rm then ys else x # ys, st) }"

definition stack_hashes :: "(u8 list \<Rightarrow> u64) \<Rightarrow> pSample list \<Rightarrow> u64 list" where
  "stack_hashes H samples = map (\<lambda>s. H (ids_bytes (sa_LocationId s))) samples"

definition sortedSample :: "pSample list \<Rightarrow> u64 list \<Rightarrow> (pSample \<times> u64) list" where
  "sortedSample samples hashes = sort_slice (\<lambda>a b. snd a < snd b) (zip samples hashes)"

fun add_values :: "i64 list \<Rightarrow> i64 list \<Rightarrow> i64 list option" where
  "add_values [] ws = Some ws"
| "add_values (v # vs) [] = None"
| "add_values (v # vs) (w # ws) = map_option (\<lambda>us. (w + v) # us) (add_values vs ws)"

definition redundant_label :: "string list \<Rightarrow> pLabel \<Rightarrow> unit \<Rightarrow> (bool \<times> unit) option" where
  "redundant_label strs l u =
     (if pl_Num l \<noteq> 0 \<and> pl_Key l \<noteq> 0
      then map_option (\<lambda>s. (s = ''bytes'', u)) (at64 strs (pl_Key l))
      else Some (False, u))"

text \<open>
  The loop over the samples in the order of their hashes: the sample after the current one takes over
  its values if the hashes are equal.  The results are the samples that are kept and the removed ones.
\<close>

function remove_samples :: "string list \<Rightarrow> (pSample \<times> u64) list \<Rightarrow> (pSample list \<times> pSample list) option" where
  "remove_samples strs [] = Some ([], [])"
| "remove_samples strs ((s, h) # after) =
     (if after \<noteq> [] \<and> h = snd (hd after) then do {
        vs \<leftarrow> add_values (sa_Value s) (sa_Value (fst (hd after)));
        (kept, removed) \<leftarrow> remove_samples strs (((fst (hd after))\<lparr>sa_Value := vs\<rparr>, h) # tl after);
        Some (kept, s # removed) }
      else if list_ex (\<lambda>v. v \<noteq> 0) (sa_Value s) then do {
        (ls, _) \<leftarrow> RemoveInPlace (redundant_label strs) (sa_Label s) ();
        (kept, removed) \<leftarrow> remove_samples strs after;
        Some (s\<lparr>sa_Label := ls\<rparr> # kept, removed) }
      else do {
        (kept, removed) \<leftarrow> remove_samples strs after;
        Some (kept, s # removed) })"
  by pat_completeness auto
termination
  by (relation "measure (\<lambda>(strs, ss). length ss)") (auto simp: neq_Nil_conv)

declare remove_samples.simps [simp del]

definition fake_mapping :: "u64 \<Rightarrow> Mapping" where
  "fake_mapping mId =
     \<lparr>mg_Id = mId + 1, mg_MemoryStart = 0, mg_MemoryLimit = - 1, mg_FileOffset = 0, mg_Filename = 0, mg_BuildId = 0,
      mg_HasFunctions = False, mg_HasFilenames = False, mg_HasLineNumbers = False, mg_HasInlineFrames = False\<rparr>"

fun fake_mappings :: "u64 \<Rightarrow> Location list \<Rightarrow> Mapping option \<Rightarrow> Location list \<times> Mapping option" where
  "fake_mappings mId [] fake = ([], fake)"
| "fake_mappings mId (l # ls) fake =
     (if loc_MappingId l = 0 then
        let m = (case fake of None \<Rightarrow> fake_mapping mId | Some m \<Rightarrow> m);
            (ls, fake) = fake_mappings mId ls (Some m)
        in (l\<lparr>loc_MappingId := mg_Id m\<rparr> # ls, fake)
      else let (ls, fake) = fake_mappings mId ls fake in (l # ls, fake))"

definition ensureHasMapping :: "pProfile \<Rightarrow> pProfile" where
  "ensureHasMapping p =
     (let mId = fold (\<lambda>m mId. if mId < mg_Id m then mg_Id m else mId) (p_Mapping p) 0;
          (ls, fake) = fake_mappings mId (p_Location p) None
      in p\<lparr>p_Location := ls, p_Mapping := p_Mapping p @ (case fake of None \<Rightarrow> [] | Some m \<Rightarrow> [m])\<rparr>)"

text \<open>A visit of all references to strings, with the state of the function that is called.\<close>

fun map_state :: "('a \<Rightarrow> 's \<Rightarrow> 'a \<times> 's) \<Rightarrow> 'a list \<Rightarrow> 's \<Rightarrow> 'a list \<times> 's" where
  "map_state f [] st = ([], st)"
| "map_state f (x # xs) st = (let (x, st) = f x st; (xs, st) = map_state f xs st in (x # xs, st))"

definition visit_type :: "(i64 \<Rightarrow> 's \<Rightarrow> i64 \<times> 's) \<Rightarrow> ValueType \<Rightarrow> 's \<Rightarrow> ValueType \<times> 's" where
  "visit_type fn t st = (let (a, st) = fn (vt_Type t) st; (b, st) = fn (vt_Unit t) st in (t\<lparr>vt_Type := a, vt_Unit := b\<rparr>, st))"

definition visit_mapping :: "(i64 \<Rightarrow> 's \<Rightarrow> i64 \<times> 's) \<Rightarrow> Mapping \<Rightarrow> 's \<Rightarrow> Mapping \<times> 's" where
  "visit_mapping fn m st = (let (a, st) = fn (mg_Filename m) st; (b, st) = fn (mg_BuildId m) st in (m\<lparr>mg_Filename := a, mg_BuildId := b\<rparr>, st))"

definition visit_label :: "(i64 \<Rightarrow> 's \<Rightarrow> i64 \<times> 's) \<Rightarrow> pLabel \<Rightarrow> 's \<Rightarrow> pLabel \<times> 's" where
  "visit_label fn l st =
     (let (a, st) = fn (pl_Key l) st; (b, st) = fn (pl_Num l) st; (c, st) = fn (pl_NumUnit l) st
      in (l\<lparr>pl_Key := a, pl_Num := b, pl_NumUnit := c\<rparr>, st))"

definition visit_sample :: "(i64 \<Rightarrow> 's \<Rightarrow> i64 \<times> 's) \<Rightarrow> pSample \<Rightarrow> 's \<Rightarrow> pSample \<times> 's" where
  "visit_sample fn s st = (let (ls, st) = map_state (visit_label fn) (sa_Label s) st in (s\<lparr>sa_Label := ls\<rparr>, st))"

definition visit_function :: "(i64 \<Rightarrow> 's \<Rightarrow> i64 \<times> 's) \<Rightarrow> Function \<Rightarrow> 's \<Rightarrow> Function \<times> 's" where
  "visit_function fn f st =
     (let (a, st) = fn (fn_Name f) st; (b, st) = fn (fn_SystemName f) st; (c, st) = fn (fn_Filename f) st
      in (f\<lparr>fn_Name := a, fn_SystemName := b, fn_Filename := c\<rparr>, st))"

definition visitAllNameReferences :: "(i64 \<Rightarrow> 's \<Rightarrow> i64 \<times> 's) \<Rightarrow> pProfile \<Rightarrow> 's \<Rightarrow> (pProfile \<times> 's) option" where
  "visitAllNameReferences fn p st =
     (let (dropf, st) = fn (p_DropFrames p) st; (keepf, st) = fn (p_KeepFrames p) st
      in do {
        t \<leftarrow> p_PeriodType p;
        let (period, st) = visit_type fn t st;
        let (types, st) = map_state (visit_type fn) (p_SampleType p) st;
        let (mappings, st) = map_state (visit_mapping fn) (p_Mapping p) st;
        let (samples, st) = map_state (visit_sample fn) (p_Sample p) st;
        let (functions, st) = map_state (visit_function fn) (p_Function p) st;
        let (comments, st) = map_state fn (p_Comment p) st;
        Some (p\<lparr>p_DropFrames := dropf, p_KeepFrames := keepf, p_PeriodType := Some period, p_SampleType := types, p_Mapping := mappings,
          p_Sample := samples, p_Function := functions, p_Comment := comments\<rparr>, st) })"

text \<open>How far a reference moves when the names at the positions \<open>removedNames\<close>, in order, are removed.\<close>

fun name_shift :: "i64 \<Rightarrow> i64 list \<Rightarrow> i64" where
  "name_shift idx [] = 0"
| "name_shift idx (r # removedNames) = (if sint idx > sint r then 1 + name_shift idx removedNames else 0)"

definition reject_names :: "i64 list \<Rightarrow> string list \<Rightarrow> string list" where
  "reject_names removed strs = map snd (filter (\<lambda>(i, _). of_nat i \<notin> set removed) (enumerate 0 strs))"

definition remove_location :: "u64 list \<Rightarrow> Location \<Rightarrow> u64 list \<Rightarrow> (bool \<times> u64 list) option" where
  "remove_location removedLocationIds loc fns =
     Some (if loc_Id loc \<in> set removedLocationIds then (True, fold List.insert (map ln_FunctionId (loc_Line loc)) fns) else (False, fns))"

definition remove_function :: "u64 list \<Rightarrow> Function \<Rightarrow> i64 list \<Rightarrow> (bool \<times> i64 list) option" where
  "remove_function removedFunctionIds fn names =
     Some (if fn_Id fn \<in> set removedFunctionIds
           then (True, List.insert (fn_Filename fn) (List.insert (fn_SystemName fn) (List.insert (fn_Name fn) names)))
           else (False, names))"

definition clearSampleReferences :: "pSample list \<Rightarrow> pProfile \<Rightarrow> pProfile option" where
  "clearSampleReferences samples p =
     (if samples = [] then Some p else
      let removedLocationIds = fold (\<lambda>s. fold List.insert (sa_LocationId s)) samples [];
          removedLocationIds = fold (\<lambda>s. fold removeAll (sa_LocationId s)) (p_Sample p) removedLocationIds
      in if removedLocationIds = [] then Some p else do {
        (ls, removedFunctionIds) \<leftarrow> RemoveInPlace (remove_location removedLocationIds) (p_Location p) [];
        let p = p\<lparr>p_Location := ls\<rparr>;
        if removedFunctionIds = [] then Some p else do {
          let removedFunctionIds = fold (\<lambda>l. fold (\<lambda>f. removeAll (ln_FunctionId f)) (loc_Line l)) (p_Location p) removedFunctionIds;
          (fs, removedNamesMap) \<leftarrow> RemoveInPlace (remove_function removedFunctionIds) (p_Function p) [];
          let p = p\<lparr>p_Function := fs\<rparr>;
          if removedNamesMap = [] then Some p else do {
            (p, removedNamesMap) \<leftarrow> visitAllNameReferences (\<lambda>idx m. (idx, removeAll idx m)) p removedNamesMap;
            if removedNamesMap = [] then Some p else do {
              let p = p\<lparr>p_StringTable := reject_names removedNamesMap (p_StringTable p)\<rparr>;
              let removedNames = sort_slice (\<lambda>a b. sint a < sint b) removedNamesMap;
              (p, _) \<leftarrow> visitAllNameReferences (\<lambda>idx u. (idx - name_shift idx removedNames, u)) p ();
              Some p } } } })"

definition Normalize :: "(u8 list \<Rightarrow> u64) \<Rightarrow> i64 \<Rightarrow> pProfile \<Rightarrow> pProfile option" where
  "Normalize H now p =
     (let p = (if p_TimeNanos p = 0 then p\<lparr>p_TimeNanos := now\<rparr> else p);
          p = ensureHasMapping p;
          ss = sortedSample (p_Sample p) (stack_hashes H (p_Sample p))
      in do {
        (kept, removedSamples) \<leftarrow> remove_samples (p_StringTable p) ss;
        clearSampleReferences removedSamples (p\<lparr>p_Sample := kept\<rparr>) })"

subsection \<open>Adding up the samples\<close>

definition stack_totals :: "nat \<Rightarrow> pSample list \<Rightarrow> u64 list \<Rightarrow> i64 list" where
  "stack_totals m samples st = map (\<lambda>j. \<Sum>s\<leftarrow>filter (\<lambda>s. sa_LocationId s = st) samples. sa_Value s ! j) [0..<m]"

lemma add_values_eq: "length vs = length ws \<Longrightarrow> add_values vs ws = Some (map2 (\<lambda>v w. w + v) vs ws)"
  by (induction vs ws rule: add_values.induct) auto

lemma RemoveInPlace_pure:
  "\<forall>x \<in> set xs. \<forall>st. predicate x st = Some (rm x, upd x st) \<Longrightarrow>
   RemoveInPlace predicate xs st = Some (filter (\<lambda>x. \<not> rm x) xs, fold upd xs st)"
  by (induction xs arbitrary: st) auto

lemma redundant_labels:
  assumes "\<forall>l \<in> set ls. unat (pl_Key l) < length strs"
  shows "\<exists>ls'. RemoveInPlace (redundant_label strs) ls () = Some (ls', ()) \<and> set ls' \<subseteq> set ls"
proof -
  let ?rm = "\<lambda>l. pl_Num l \<noteq> 0 \<and> pl_Key l \<noteq> 0 \<and> strs ! unat (pl_Key l) = ''bytes''"
  have "\<forall>l \<in> set ls. \<forall>st. redundant_label strs l st = Some (?rm l, st)" using assms by (auto simp: redundant_label_def at64_def)
  from RemoveInPlace_pure[OF this] show ?thesis by auto
qed

lemma sorted_hd_differs:
  fixes h :: "'b :: linorder"
  assumes "sorted_wrt (\<lambda>a b. snd a \<le> snd b) ((s, h) # after)" and "\<not> (after \<noteq> [] \<and> h = snd (hd after))" and "x \<in> set after"
  shows "h < snd x"
proof (cases after)
  case (Cons a as)
  have "snd a \<le> snd x" using assms(1,3) Cons by auto
  moreover have "h < snd a" using assms(1,2) Cons by (auto simp: less_le)
  ultimately show ?thesis by simp
qed (use assms in simp)

definition samples_ok :: "(u64 list \<Rightarrow> u64) \<Rightarrow> nat \<Rightarrow> string list \<Rightarrow> (pSample \<times> u64) list \<Rightarrow> bool" where
  "samples_ok f m strs ss \<longleftrightarrow> (\<forall>(s, h) \<in> set ss. h = f (sa_LocationId s) \<and> length (sa_Value s) = m
     \<and> (\<forall>l \<in> set (sa_Label s). unat (pl_Key l) < length strs)) \<and> inj_on f (sa_LocationId ` fst ` set ss)"

lemma stack_totals_merge:
  "sa_LocationId s = sa_LocationId t \<Longrightarrow> length (sa_Value s) = m \<Longrightarrow> length (sa_Value t) = m \<Longrightarrow>
   stack_totals m (t\<lparr>sa_Value := map2 (\<lambda>v w. w + v) (sa_Value s) (sa_Value t)\<rparr> # tl') st = stack_totals m (s # t # tl') st"
  by (auto simp: stack_totals_def add.left_commute)

lemma stack_totals_Cons: "stack_totals m (x # xs) st = (if sa_LocationId x = st then map (\<lambda>j. sa_Value x ! j + stack_totals m xs st ! j) [0..<m] else stack_totals m xs st)"
  by (auto simp: stack_totals_def)

lemma stack_totals_zero:
  "\<not> list_ex (\<lambda>v. v \<noteq> 0) (sa_Value s) \<Longrightarrow> length (sa_Value s) = m \<Longrightarrow> stack_totals m (s # xs) st = stack_totals m xs st"
  by (auto simp: stack_totals_def list_ex_iff)

lemma remove_samples_ok:
  assumes "samples_ok f m strs ss" and "sorted_wrt (\<lambda>a b. snd a \<le> snd b) ss"
  shows "\<exists>kept removed. remove_samples strs ss = Some (kept, removed) \<and> distinct (map sa_LocationId kept)
    \<and> stack_totals m kept = stack_totals m (map fst ss) \<and> sa_LocationId ` set kept \<subseteq> sa_LocationId ` fst ` set ss
    \<and> (\<forall>s \<in> set kept. list_ex (\<lambda>v. v \<noteq> 0) (sa_Value s) \<and> length (sa_Value s) = m)"
  using assms
proof (induction strs ss rule: remove_samples.induct)
  case (1 strs)
  then show ?case by (auto simp: stack_totals_def remove_samples.simps)
next
  case (2 strs s h after)
  have ok: "length (sa_Value s) = m" "h = f (sa_LocationId s)" "\<forall>l \<in> set (sa_Label s). unat (pl_Key l) < length strs"
    using "2.prems"(1) by (auto simp: samples_ok_def)
  have after: "samples_ok f m strs after" "sorted_wrt (\<lambda>a b. snd a \<le> snd b) after" using "2.prems" by (auto simp: samples_ok_def inj_on_def)
  show ?case
  proof (cases "after \<noteq> [] \<and> h = snd (hd after)")
    case True
    then obtain t tl' where a: "after = (t, h) # tl'" by (cases after) auto
    have tk: "length (sa_Value t) = m" "h = f (sa_LocationId t)" using "2.prems"(1) a by (auto simp: samples_ok_def)
    have st: "sa_LocationId s = sa_LocationId t" using "2.prems"(1) ok(2) tk(2) a by (auto simp: samples_ok_def inj_on_def)
    let ?t = "t\<lparr>sa_Value := map2 (\<lambda>v w. w + v) (sa_Value s) (sa_Value t)\<rparr>"
    have add: "add_values (sa_Value s) (sa_Value (fst (hd after))) = Some (sa_Value ?t)" using a ok(1) tk(1) by (simp add: add_values_eq)
    have "samples_ok f m strs ((?t, h) # tl')" "sorted_wrt (\<lambda>a b. snd a \<le> snd b) ((?t, h) # tl')"
      using "2.prems" a ok(1) tk(1) by (auto simp: samples_ok_def inj_on_def)
    from "2.IH"(1)[OF True, of "sa_Value ?t"] this obtain kept removed where
        k: "remove_samples strs ((?t, h) # tl') = Some (kept, removed)" "distinct (map sa_LocationId kept)"
        "stack_totals m kept = stack_totals m (map fst ((?t, h) # tl'))" "sa_LocationId ` set kept \<subseteq> sa_LocationId ` fst ` set ((?t, h) # tl')"
        "\<forall>s \<in> set kept. list_ex (\<lambda>v. v \<noteq> 0) (sa_Value s) \<and> length (sa_Value s) = m" using a add by auto
    have "remove_samples strs ((s, h) # after) = Some (kept, s # removed)" using True a add k(1) by (subst remove_samples.simps) simp
    moreover have "stack_totals m kept = stack_totals m (map fst ((s, h) # after))"
      using k(3) stack_totals_merge[OF st ok(1) tk(1)] a by (simp add: fun_eq_iff)
    moreover have "sa_LocationId ` set kept \<subseteq> sa_LocationId ` fst ` set ((s, h) # after)" using k(4) a st by auto
    ultimately show ?thesis using k(2,5) by blast
  next
    case False
    have gt: "sa_LocationId s \<notin> sa_LocationId ` fst ` set after"
    proof
      assume "sa_LocationId s \<in> sa_LocationId ` fst ` set after"
      then obtain x where "x \<in> set after" "sa_LocationId s = sa_LocationId (fst x)" by auto
      then show False using sorted_hd_differs[OF "2.prems"(2) False, of x] ok(2) after(1) by (auto simp: samples_ok_def)
    qed
    show ?thesis
    proof (cases "list_ex (\<lambda>v. v \<noteq> 0) (sa_Value s)")
      case True
      obtain ls where ls: "RemoveInPlace (redundant_label strs) (sa_Label s) () = Some (ls, ())" using redundant_labels[OF ok(3)] by blast
      from "2.IH"(2)[OF False True, of "(ls, ())" ls "()"] after ls obtain kept removed where
        k: "remove_samples strs after = Some (kept, removed)" "distinct (map sa_LocationId kept)" "stack_totals m kept = stack_totals m (map fst after)"
        "sa_LocationId ` set kept \<subseteq> sa_LocationId ` fst ` set after" "\<forall>s \<in> set kept. list_ex (\<lambda>v. v \<noteq> 0) (sa_Value s) \<and> length (sa_Value s) = m"
        by auto
      have "remove_samples strs ((s, h) # after) = Some (s\<lparr>sa_Label := ls\<rparr> # kept, removed)"
        using True ls k(1) by (subst remove_samples.simps) (simp only: if_not_P[OF False], simp)
      moreover have "stack_totals m (s\<lparr>sa_Label := ls\<rparr> # kept) = stack_totals m (s # map fst after)" by (rule ext) (simp add: stack_totals_Cons k(3))
      ultimately show ?thesis using k(2,4,5) gt True ok(1) by auto
    next
      case zero: False
      from "2.IH"(3)[OF False zero] after obtain kept removed where
        k: "remove_samples strs after = Some (kept, removed)" "distinct (map sa_LocationId kept)" "stack_totals m kept = stack_totals m (map fst after)"
        "sa_LocationId ` set kept \<subseteq> sa_LocationId ` fst ` set after" "\<forall>s \<in> set kept. list_ex (\<lambda>v. v \<noteq> 0) (sa_Value s) \<and> length (sa_Value s) = m"
        by auto
      have "remove_samples strs ((s, h) # after) = Some (kept, s # removed)"
        using zero k(1) by (subst remove_samples.simps) (simp only: if_not_P[OF False], simp)
      moreover have "stack_totals m kept = stack_totals m (s # map fst after)" using k(3) stack_totals_zero[OF zero ok(1)] by (auto simp: fun_eq_iff)
      ultimately show ?thesis using k(2,4,5) by auto
    qed
  qed
qed

text \<open>A sample that is kept has its stack and some of its labels from one of the samples.\<close>

lemma RemoveInPlace_subset: "RemoveInPlace predicate xs st = Some (ys, st') \<Longrightarrow> set ys \<subseteq> set xs"
  by (induction xs arbitrary: st ys st') (fastforce simp: bind_eq_Some_conv split: if_splits prod.splits)+

lemma remove_samples_labels:
  "remove_samples strs ss = Some (kept, removed) \<Longrightarrow> s \<in> set kept \<Longrightarrow>
   \<exists>x \<in> fst ` set ss. sa_LocationId s = sa_LocationId x \<and> set (sa_Label s) \<subseteq> set (sa_Label x)"
proof (induction strs ss arbitrary: kept removed rule: remove_samples.induct)
  case (1 strs)
  then show ?case by (simp add: remove_samples.simps)
next
  case (2 strs x h after)
  consider (merge) vs kept' removed' where "after \<noteq> [] \<and> h = snd (hd after)" "add_values (sa_Value x) (sa_Value (fst (hd after))) = Some vs"
      "remove_samples strs (((fst (hd after))\<lparr>sa_Value := vs\<rparr>, h) # tl after) = Some (kept', removed')" "kept = kept'"
    | (keep) ls u kept' removed' where "\<not> (after \<noteq> [] \<and> h = snd (hd after))" "list_ex (\<lambda>v. v \<noteq> 0) (sa_Value x)"
      "RemoveInPlace (redundant_label strs) (sa_Label x) () = Some (ls, u)" "remove_samples strs after = Some (kept', removed')" "kept = x\<lparr>sa_Label := ls\<rparr> # kept'"
    | (zero) kept' removed' where "\<not> (after \<noteq> [] \<and> h = snd (hd after))" "\<not> list_ex (\<lambda>v. v \<noteq> 0) (sa_Value x)"
      "remove_samples strs after = Some (kept', removed')" "kept = kept'"
    using "2.prems"(1) by (subst (asm) remove_samples.simps) (auto simp: bind_eq_Some_conv split: if_splits)
  then show ?case
  proof cases
    case merge
    then obtain t tl' where a: "after = (t, h) # tl'" by (cases after) auto
    from "2.IH"(1)[OF merge(1,2,3)] "2.prems"(2) merge(4) show ?thesis using a by auto
  next
    case keep
    show ?thesis
    proof (cases "s = x\<lparr>sa_Label := ls\<rparr>")
      case True
      then show ?thesis using RemoveInPlace_subset[OF keep(3)] by simp
    next
      case False
      then have "s \<in> set kept'" using "2.prems"(2) keep(5) by simp
      from "2.IH"(2)[OF keep(1,2,3) refl keep(4) this] show ?thesis by auto
    qed
  next
    case zero
    from "2.IH"(3)[OF zero(1,2,3)] "2.prems"(2) zero(4) show ?thesis by auto
  qed
qed

subsection \<open>What a profile says of a location\<close>

definition function_view :: "string list \<Rightarrow> Function \<Rightarrow> string option \<times> string option \<times> string option \<times> i64" where
  "function_view strs f = (at64 strs (fn_Name f), at64 strs (fn_SystemName f), at64 strs (fn_Filename f), fn_StartLine f)"

definition view_function :: "pProfile \<Rightarrow> u64 \<Rightarrow> (string option \<times> string option \<times> string option \<times> i64) option" where
  "view_function p = map_of (map (\<lambda>f. (fn_Id f, function_view (p_StringTable p) f)) (p_Function p))"

definition location_view :: "pProfile \<Rightarrow> Location \<Rightarrow> u64 \<times> u64 \<times> bool \<times> (i64 \<times> (string option \<times> string option \<times> string option \<times> i64) option) list" where
  "location_view p l = (loc_MappingId l, loc_Address l, loc_IsFolded l, map (\<lambda>n. (ln_Line n, view_function p (ln_FunctionId n))) (loc_Line l))"

definition view_location :: "pProfile \<Rightarrow> u64 \<Rightarrow> (u64 \<times> u64 \<times> bool \<times> (i64 \<times> (string option \<times> string option \<times> string option \<times> i64) option) list) option" where
  "view_location p = map_of (map (\<lambda>l. (loc_Id l, location_view p l)) (p_Location p))"

definition mapping_view :: "string list \<Rightarrow> Mapping \<Rightarrow> Mapping \<times> string option \<times> string option" where
  "mapping_view strs m = (m\<lparr>mg_Filename := 0, mg_BuildId := 0\<rparr>, at64 strs (mg_Filename m), at64 strs (mg_BuildId m))"

text \<open>\<open>p'\<close> says the same as \<open>p\<close> of the samples, of their locations and of the mappings.\<close>

definition same_view :: "pProfile \<Rightarrow> pProfile \<Rightarrow> bool" where
  "same_view p p' \<longleftrightarrow> map (\<lambda>s. (sa_LocationId s, sa_Value s)) (p_Sample p') = map (\<lambda>s. (sa_LocationId s, sa_Value s)) (p_Sample p)
     \<and> p_TimeNanos p' = p_TimeNanos p
     \<and> map (mapping_view (p_StringTable p')) (p_Mapping p') = map (mapping_view (p_StringTable p)) (p_Mapping p)
     \<and> set (p_Location p') \<subseteq> set (p_Location p)
     \<and> (\<forall>s \<in> set (p_Sample p). \<forall>l \<in> set (sa_LocationId s). view_location p' l = view_location p l)"

lemma same_view_refl [simp]: "same_view p p"
  by (simp add: same_view_def)

lemma same_view_ids: "same_view p p' \<Longrightarrow> sa_LocationId ` set (p_Sample p') = sa_LocationId ` set (p_Sample p)"
proof -
  assume "same_view p p'"
  then have "map fst (map (\<lambda>s. (sa_LocationId s, sa_Value s)) (p_Sample p')) = map fst (map (\<lambda>s. (sa_LocationId s, sa_Value s)) (p_Sample p))"
    by (simp only: same_view_def)
  then have "map sa_LocationId (p_Sample p') = map sa_LocationId (p_Sample p)" by (simp add: comp_def)
  then show ?thesis by (metis set_map)
qed

lemma same_view_trans: "same_view p q \<Longrightarrow> same_view q r \<Longrightarrow> same_view p r"
proof -
  assume a: "same_view p q" "same_view q r"
  have "view_location r l = view_location p l" if "s \<in> set (p_Sample p)" "l \<in> set (sa_LocationId s)" for s l
  proof -
    have "sa_LocationId s \<in> sa_LocationId ` set (p_Sample q)" unfolding same_view_ids[OF a(1)] using that(1) by (rule imageI)
    then obtain t where "t \<in> set (p_Sample q)" "sa_LocationId t = sa_LocationId s" by (rule imageE) simp
    moreover have "\<forall>s \<in> set (p_Sample q). \<forall>l \<in> set (sa_LocationId s). view_location r l = view_location q l" using a(2) by (simp add: same_view_def)
    moreover have "\<forall>s \<in> set (p_Sample p). \<forall>l \<in> set (sa_LocationId s). view_location q l = view_location p l" using a(1) by (simp add: same_view_def)
    ultimately show ?thesis using that by simp
  qed
  then have "\<forall>s \<in> set (p_Sample p). \<forall>l \<in> set (sa_LocationId s). view_location r l = view_location p l" by blast
  moreover have "set (p_Location r) \<subseteq> set (p_Location p)" using a unfolding same_view_def by (meson subset_trans)
  ultimately show ?thesis using a by (simp add: same_view_def)
qed

subsection \<open>Removing what is not used\<close>

lemma map_of_filter_key: "P k \<Longrightarrow> map_of (filter (\<lambda>x. P (fst x)) m) k = map_of m k"
  by (induction m) auto

lemma map_of_filter_map: "P k \<Longrightarrow> map_of (map (\<lambda>x. (f x, g x)) (filter (\<lambda>x. P (f x)) xs)) k = map_of (map (\<lambda>x. (f x, g x)) xs) k"
  using map_of_filter_key[of P k "map (\<lambda>x. (f x, g x)) xs"] by (simp add: filter_map comp_def)

lemma set_fold_removeAll: "set (fold removeAll xs m) = set m - set xs"
  by (induction xs arbitrary: m) auto

lemma set_fold_fold_removeAll: "set (fold (\<lambda>y. fold removeAll (f y)) ys m) = set m - (\<Union>y \<in> set ys. set (f y))"
  by (induction ys arbitrary: m) (auto simp: set_fold_removeAll)

lemma set_fold_insert: "set (fold List.insert xs m) = set xs \<union> set m"
  by (induction xs arbitrary: m) auto

lemma remove_locations:
  "RemoveInPlace (remove_location R) ls fns =
     Some (filter (\<lambda>l. loc_Id l \<notin> set R) ls, fold (\<lambda>l fns. if loc_Id l \<in> set R then fold List.insert (map ln_FunctionId (loc_Line l)) fns else fns) ls fns)"
  by (rule RemoveInPlace_pure) (simp add: remove_location_def)

lemma remove_functions:
  "RemoveInPlace (remove_function F) fs names =
     Some (filter (\<lambda>f. fn_Id f \<notin> set F) fs,
       fold (\<lambda>f names. if fn_Id f \<in> set F then List.insert (fn_Filename f) (List.insert (fn_SystemName f) (List.insert (fn_Name f) names)) else names) fs names)"
  by (rule RemoveInPlace_pure) (simp add: remove_function_def)

lemma removed_names_range:
  "set (fold (\<lambda>f names. if fn_Id f \<in> set F then List.insert (fn_Filename f) (List.insert (fn_SystemName f) (List.insert (fn_Name f) names)) else names) fs names)
   \<subseteq> set names \<union> (\<Union>f \<in> set fs. {fn_Name f, fn_SystemName f, fn_Filename f})"
proof (induction fs arbitrary: names)
  case (Cons f fs)
  show ?case using Cons.IH[of names] Cons.IH[of "List.insert (fn_Filename f) (List.insert (fn_SystemName f) (List.insert (fn_Name f) names))"]
    by (cases "fn_Id f \<in> set F") auto
qed simp

lemma same_view_locations:
  assumes "\<forall>s \<in> set (p_Sample p). \<forall>l \<in> set (sa_LocationId s). l \<notin> R"
  shows "same_view p (p\<lparr>p_Location := filter (\<lambda>l. loc_Id l \<notin> R) (p_Location p)\<rparr>)"
proof -
  have "location_view (p\<lparr>p_Location := ls\<rparr>) = location_view p" for ls by (simp add: fun_eq_iff location_view_def view_function_def)
  then have "view_location (p\<lparr>p_Location := filter (\<lambda>l. loc_Id l \<notin> R) (p_Location p)\<rparr>) l = view_location p l" if "l \<notin> R" for l
    using map_of_filter_map[of "\<lambda>i. i \<notin> R" l loc_Id "location_view p" "p_Location p"] that by (simp add: view_location_def)
  then show ?thesis using assms by (auto simp: same_view_def)
qed

lemma view_location_cong:
  "p_Location p' = p_Location p \<Longrightarrow> \<forall>l \<in> set (p_Location p). \<forall>n \<in> set (loc_Line l). view_function p' (ln_FunctionId n) = view_function p (ln_FunctionId n) \<Longrightarrow>
   view_location p' = view_location p"
  by (auto simp: view_location_def location_view_def intro!: arg_cong[where f = map_of] map_cong)

lemma same_view_functions:
  assumes "\<forall>l \<in> set (p_Location p). \<forall>n \<in> set (loc_Line l). ln_FunctionId n \<notin> F"
  shows "same_view p (p\<lparr>p_Function := filter (\<lambda>f. fn_Id f \<notin> F) (p_Function p)\<rparr>)"
proof -
  let ?p = "p\<lparr>p_Function := filter (\<lambda>f. fn_Id f \<notin> F) (p_Function p)\<rparr>"
  have "view_function ?p i = view_function p i" if "i \<notin> F" for i
    using map_of_filter_map[of "\<lambda>i. i \<notin> F" i fn_Id "function_view (p_StringTable p)" "p_Function p"] that by (simp add: view_function_def)
  then have "view_location ?p = view_location p" using assms by (intro view_location_cong) auto
  then show ?thesis by (simp add: same_view_def)
qed

subsection \<open>Removing names and shifting the references\<close>

lemma sint_unat_63: "unat w < 2 ^ 63 \<Longrightarrow> sint (w :: i64) = int (unat w)"
proof -
  assume a: "unat w < 2 ^ 63"
  have "sint (of_nat (unat w) :: i64) = int (unat w)" using a by (simp add: signed_of_nat signed_take_bit_int_eq_self del: of_nat_unat)
  then show ?thesis by simp
qed

lemma nth_reject:
  "j < length xs \<Longrightarrow> P (k + j) \<Longrightarrow>
   length (filter P [k..<k + j]) < length (map snd (filter (\<lambda>(i, _). P i) (enumerate k xs)))
   \<and> map snd (filter (\<lambda>(i, _). P i) (enumerate k xs)) ! length (filter P [k..<k + j]) = xs ! j"
proof (induction xs arbitrary: j k)
  case (Cons x xs)
  show ?case
  proof (cases j)
    case 0
    then show ?thesis using Cons.prems by simp
  next
    case (Suc i)
    have "[k..<k + j] = k # [Suc k..<Suc k + i]" using Suc by (simp add: upt_rec)
    then show ?thesis using Cons.IH[of i "Suc k"] Cons.prems Suc by (auto simp del: upt_Suc)
  qed
qed simp

lemma name_shift_sorted: "sorted_wrt (\<lambda>a b. sint a \<le> sint b) rs \<Longrightarrow> name_shift idx rs = of_nat (length (filter (\<lambda>r. sint r < sint idx) rs))"
proof (induction rs)
  case (Cons r rs)
  have "filter (\<lambda>r. sint r < sint idx) rs = []" if "\<not> sint r < sint idx" using that Cons.prems by (auto simp: filter_empty_conv)
  then show ?case using Cons by auto
qed simp

lemma count_below:
  assumes "distinct R" and "\<forall>r \<in> set R. unat r < 2 ^ 63" and "j < 2 ^ 63"
  shows "length (filter (\<lambda>i. of_nat i \<notin> set R) [0..<j]) + length (filter (\<lambda>r :: i64. unat r < j) R) = j"
proof -
  have inj: "inj_on unat {r \<in> set R. unat r < j}" by (auto simp: inj_on_def word_unat_eq_iff)
  have small: "unat (of_nat i :: i64) = i" if "i < j" for i using that assms(3) by (simp add: unat_of_nat)
  have "unat ` {r \<in> set R. unat r < j} = {i. i < j \<and> of_nat i \<in> set R}"
  proof (intro set_eqI iffI)
    fix i assume "i \<in> {i. i < j \<and> of_nat i \<in> set R}"
    then have u: "unat (of_nat i :: i64) = i" and "of_nat i \<in> {r \<in> set R. unat r < j}" using small by auto
    from imageI[OF this(2), of unat] show "i \<in> unat ` {r \<in> set R. unat r < j}" unfolding u .
  qed auto
  then have "card {r \<in> set R. unat r < j} = card {i. i < j \<and> of_nat i \<in> set R}" using card_image[OF inj] by simp
  moreover have "length (filter (\<lambda>r. unat r < j) R) = card {r \<in> set R. unat r < j}"
    using assms(1) by (simp add: distinct_length_filter) (rule arg_cong[where f = card], auto)
  moreover have "length (filter (\<lambda>i. of_nat i \<in> set R) [0..<j]) = card {i. i < j \<and> of_nat i \<in> set R}"
    by (simp add: distinct_length_filter) (rule arg_cong[where f = card], auto)
  moreover have "length (filter (\<lambda>i. of_nat i \<notin> set R) [0..<j]) + length (filter (\<lambda>i. of_nat i \<in> set R) [0..<j]) = j"
    using sum_length_filter_compl[of "\<lambda>i. of_nat i \<in> set R" "[0..<j]"] by simp
  ultimately show ?thesis by simp
qed

interpretation name_order: heap_order "\<lambda>a b. sint (a :: i64) < sint b"
  by unfold_locales auto

lemma shifted_name:
  assumes "distinct R" and "\<forall>r \<in> set R. unat r < length strs" and "length strs < 2 ^ 63" and "unat i < length strs" and "i \<notin> set R"
  shows "at64 (reject_names R strs) (i - name_shift i (sort_slice (\<lambda>a b. sint a < sint b) R)) = at64 strs i"
proof -
  let ?c = "length (filter (\<lambda>r. unat r < unat i) R)"
  have R: "\<forall>r \<in> set R. unat r < 2 ^ 63" and i: "unat i < 2 ^ 63" using assms by auto
  have "sorted_wrt (\<lambda>a b. sint a \<le> sint b) (sort_slice (\<lambda>a b. sint a < sint b) R)"
    using name_order.sort_slice_sorted[of R] by (simp add: not_less)
  then have "name_shift i (sort_slice (\<lambda>a b. sint a < sint b) R) = of_nat (length (filter (\<lambda>r. sint r < sint i) (sort_slice (\<lambda>a b. sint a < sint b) R)))"
    by (rule name_shift_sorted)
  also have "length (filter (\<lambda>r. sint r < sint i) (sort_slice (\<lambda>a b. sint a < sint b) R)) = length (filter (\<lambda>r. sint r < sint i) R)"
    by (metis mset_filter mset_sort_slice size_mset)
  also have "filter (\<lambda>r. sint r < sint i) R = filter (\<lambda>r. unat r < unat i) R"
    using R i by (intro filter_cong) (auto simp: sint_unat_63 simp del: of_nat_unat)
  finally have sh: "name_shift i (sort_slice (\<lambda>a b. sint a < sint b) R) = of_nat ?c" .
  have count: "length (filter (\<lambda>k. of_nat k \<notin> set R) [0..<unat i]) + ?c = unat i" by (rule count_below[OF assms(1) R i])
  then have c: "?c \<le> unat i" "?c < 2 ^ 64" using i by auto
  have "unat (of_nat ?c :: i64) = ?c" using c by (simp add: unat_of_nat)
  then have "unat (i - of_nat ?c) = unat i - ?c" using c(1) by (simp add: unat_sub word_le_nat_alt)
  moreover have "unat i - ?c = length (filter (\<lambda>k. of_nat k \<notin> set R) [0..<unat i])" using count by simp
  moreover have "of_nat (unat i) \<notin> set R" using assms(5) by simp
  ultimately show ?thesis using sh assms(4) nth_reject[of "unat i" strs "\<lambda>k. of_nat k \<notin> set R" 0] by (simp add: at64_def reject_names_def)
qed

subsection \<open>Visiting the references\<close>

lemma map_state_eq: "\<forall>x \<in> set xs. \<forall>st. f x st = (m x, g x st) \<Longrightarrow> map_state f xs st = (map m xs, fold g xs st)"
  by (induction xs arbitrary: st) auto

lemma map_state_refs: "(\<And>x st. f x st = (x, fold g (r x) st)) \<Longrightarrow> map_state f xs st = (xs, fold g (concat (map r xs)) st)"
  by (induction xs arbitrary: st) auto

definition name_refs :: "ValueType \<Rightarrow> pProfile \<Rightarrow> i64 list" where
  "name_refs t p = [p_DropFrames p, p_KeepFrames p, vt_Type t, vt_Unit t] @ concat (map (\<lambda>t. [vt_Type t, vt_Unit t]) (p_SampleType p))
     @ concat (map (\<lambda>m. [mg_Filename m, mg_BuildId m]) (p_Mapping p))
     @ concat (map (\<lambda>s. concat (map (\<lambda>l. [pl_Key l, pl_Num l, pl_NumUnit l]) (sa_Label s))) (p_Sample p))
     @ concat (map (\<lambda>f. [fn_Name f, fn_SystemName f, fn_Filename f]) (p_Function p)) @ p_Comment p"

lemma visit_reads:
  fixes g :: "i64 \<Rightarrow> 's \<Rightarrow> 's"
  assumes "p_PeriodType p = Some t"
  shows "visitAllNameReferences (\<lambda>i st. (i, g i st)) p st = Some (p, fold g (name_refs t p) st)"
proof -
  let ?fn = "\<lambda>i st. (i, g i st)"
  have t: "visit_type ?fn t st = (t, fold g [vt_Type t, vt_Unit t] st)" for t st by (simp add: visit_type_def)
  have m: "visit_mapping ?fn m st = (m, fold g [mg_Filename m, mg_BuildId m] st)" for m st by (simp add: visit_mapping_def)
  have f: "visit_function ?fn f st = (f, fold g [fn_Name f, fn_SystemName f, fn_Filename f] st)" for f st by (simp add: visit_function_def)
  have l: "visit_label ?fn l st = (l, fold g [pl_Key l, pl_Num l, pl_NumUnit l] st)" for l st by (simp add: visit_label_def)
  have s: "visit_sample ?fn s st = (s, fold g (concat (map (\<lambda>l. [pl_Key l, pl_Num l, pl_NumUnit l]) (sa_Label s))) st)" for s st
    by (simp only: visit_sample_def map_state_refs[OF l] Let_def prod.case) simp
  have c: "?fn i st = (i, fold g [i] st)" for i st by simp
  note maps = map_state_refs[OF t] map_state_refs[OF m] map_state_refs[OF s] map_state_refs[OF f] map_state_refs[of ?fn, OF c]
  show ?thesis using assms by (simp add: visitAllNameReferences_def t maps name_refs_def) 
qed

definition map_names :: "(i64 \<Rightarrow> i64) \<Rightarrow> ValueType \<Rightarrow> pProfile \<Rightarrow> pProfile" where
  "map_names f t p = p\<lparr>p_DropFrames := f (p_DropFrames p), p_KeepFrames := f (p_KeepFrames p),
     p_PeriodType := Some (t\<lparr>vt_Type := f (vt_Type t), vt_Unit := f (vt_Unit t)\<rparr>),
     p_SampleType := map (\<lambda>t. t\<lparr>vt_Type := f (vt_Type t), vt_Unit := f (vt_Unit t)\<rparr>) (p_SampleType p),
     p_Mapping := map (\<lambda>m. m\<lparr>mg_Filename := f (mg_Filename m), mg_BuildId := f (mg_BuildId m)\<rparr>) (p_Mapping p),
     p_Sample := map (\<lambda>s. s\<lparr>sa_Label := map (\<lambda>l. l\<lparr>pl_Key := f (pl_Key l), pl_Num := f (pl_Num l), pl_NumUnit := f (pl_NumUnit l)\<rparr>) (sa_Label s)\<rparr>) (p_Sample p),
     p_Function := map (\<lambda>g. g\<lparr>fn_Name := f (fn_Name g), fn_SystemName := f (fn_SystemName g), fn_Filename := f (fn_Filename g)\<rparr>) (p_Function p),
     p_Comment := map f (p_Comment p)\<rparr>"

lemma visit_writes:
  assumes "p_PeriodType p = Some t"
  shows "visitAllNameReferences (\<lambda>i u. (f i, u)) p () = Some (map_names f t p, ())"
proof -
  have st: "map_state (\<lambda>x u. (m x, u)) xs () = (map m xs, ())" for m :: "'x \<Rightarrow> 'x" and xs by (subst map_state_eq[where g = "\<lambda>x u. u"]) auto
  have v: "visit_type (\<lambda>i u. (f i, u)) = (\<lambda>t u. (t\<lparr>vt_Type := f (vt_Type t), vt_Unit := f (vt_Unit t)\<rparr>, u :: unit))"
    "visit_mapping (\<lambda>i u. (f i, u)) = (\<lambda>m u. (m\<lparr>mg_Filename := f (mg_Filename m), mg_BuildId := f (mg_BuildId m)\<rparr>, u :: unit))"
    "visit_function (\<lambda>i u. (f i, u)) = (\<lambda>g u. (g\<lparr>fn_Name := f (fn_Name g), fn_SystemName := f (fn_SystemName g), fn_Filename := f (fn_Filename g)\<rparr>, u :: unit))"
    "visit_label (\<lambda>i u. (f i, u)) = (\<lambda>l u. (l\<lparr>pl_Key := f (pl_Key l), pl_Num := f (pl_Num l), pl_NumUnit := f (pl_NumUnit l)\<rparr>, u :: unit))"
    by (auto simp: fun_eq_iff visit_type_def visit_mapping_def visit_function_def visit_label_def)
  have "visit_sample (\<lambda>i u. (f i, u)) = (\<lambda>s u. (s\<lparr>sa_Label :=
      map (\<lambda>l. l\<lparr>pl_Key := f (pl_Key l), pl_Num := f (pl_Num l), pl_NumUnit := f (pl_NumUnit l)\<rparr>) (sa_Label s)\<rparr>, u :: unit))"
    unfolding visit_sample_def v(4) by (simp add: st fun_eq_iff)
  then show ?thesis using assms by (simp add: visitAllNameReferences_def map_names_def st v)
qed

lemma distinct_fold_removeAll: "distinct m \<Longrightarrow> distinct (fold removeAll xs m)"
  by (induction xs arbitrary: m) (auto simp: distinct_removeAll)

lemma same_view_names:
  assumes per: "p_PeriodType p = Some t"
    and f: "\<And>i. i \<in> set (name_refs t p) \<Longrightarrow> unat i < length (p_StringTable p) \<Longrightarrow> at64 strs (f i) = at64 (p_StringTable p) i"
    and fn: "\<forall>g \<in> set (p_Function p). str_ok p (fn_Name g) \<and> str_ok p (fn_SystemName g) \<and> str_ok p (fn_Filename g)"
    and mp: "\<forall>m \<in> set (p_Mapping p). str_ok p (mg_Filename m) \<and> str_ok p (mg_BuildId m)"
  shows "same_view p (map_names f t (p\<lparr>p_StringTable := strs\<rparr>))"
proof -
  let ?p = "map_names f t (p\<lparr>p_StringTable := strs\<rparr>)"
  let ?g = "\<lambda>g. g\<lparr>fn_Name := f (fn_Name g), fn_SystemName := f (fn_SystemName g), fn_Filename := f (fn_Filename g)\<rparr>"
  have "function_view strs (?g g) = function_view (p_StringTable p) g" if g: "g \<in> set (p_Function p)" for g
  proof -
    have "{fn_Name g, fn_SystemName g, fn_Filename g} \<subseteq> set (name_refs t p)" using g by (auto simp: name_refs_def)
    then show ?thesis using g fn f by (simp add: function_view_def)
  qed
  then have "view_function ?p = view_function p"
    by (auto simp: view_function_def map_names_def intro!: arg_cong[where f = map_of])
  then have loc: "view_location ?p = view_location p" by (intro view_location_cong) (simp_all add: map_names_def)
  have "mapping_view strs (m\<lparr>mg_Filename := f (mg_Filename m), mg_BuildId := f (mg_BuildId m)\<rparr>) = mapping_view (p_StringTable p) m" if m: "m \<in> set (p_Mapping p)" for m
  proof -
    have "{mg_Filename m, mg_BuildId m} \<subseteq> set (name_refs t p)" using m by (auto simp: name_refs_def)
    then show ?thesis using m mp f by (simp add: mapping_view_def)
  qed
  then have "map (mapping_view (p_StringTable ?p)) (p_Mapping ?p) = map (mapping_view (p_StringTable p)) (p_Mapping p)" by (simp add: map_names_def)
  then show ?thesis using loc by (simp add: same_view_def) (simp add: map_names_def)
qed

lemma distinct_removed_names:
  "distinct names \<Longrightarrow> distinct (fold (\<lambda>f names. if fn_Id f \<in> set F
     then List.insert (fn_Filename f) (List.insert (fn_SystemName f) (List.insert (fn_Name f) names)) else names) fs names)"
  by (induction fs arbitrary: names) auto

definition names_ok :: "pProfile \<Rightarrow> bool" where
  "names_ok p \<longleftrightarrow> p_PeriodType p \<noteq> None \<and> length (p_StringTable p) < 2 ^ 63
     \<and> (\<forall>g \<in> set (p_Function p). str_ok p (fn_Name g) \<and> str_ok p (fn_SystemName g) \<and> str_ok p (fn_Filename g))
     \<and> (\<forall>m \<in> set (p_Mapping p). str_ok p (mg_Filename m) \<and> str_ok p (mg_BuildId m))"

text \<open>
  The strings at the positions \<open>N\<close> were removed: where the reference \<open>i\<close> moves, and what becomes of a label, whose
  number is visited and whose string is not.
\<close>

definition moved :: "i64 list \<Rightarrow> i64 \<Rightarrow> i64" where
  "moved N i = i - name_shift i (sort_slice (\<lambda>a b. sint a < sint b) N)"

definition moved_label :: "i64 list \<Rightarrow> pLabel \<Rightarrow> pLabel" where
  "moved_label N l = l\<lparr>pl_Key := moved N (pl_Key l), pl_Num := moved N (pl_Num l), pl_NumUnit := moved N (pl_NumUnit l)\<rparr>"

definition renamed :: "i64 list \<Rightarrow> pProfile \<Rightarrow> pProfile \<Rightarrow> bool" where
  "renamed N p p' \<longleftrightarrow> distinct N \<and> (\<forall>r \<in> set N. str_ok p r) \<and> p_StringTable p' = reject_names N (p_StringTable p)
     \<and> map sa_Label (p_Sample p') = map (\<lambda>s. map (moved_label N) (sa_Label s)) (p_Sample p)"

lemma renamed_Nil: "p_StringTable p' = p_StringTable p \<Longrightarrow> p_Sample p' = p_Sample p \<Longrightarrow> renamed [] p p'"
proof -
  have m: "moved [] i = i" for i by (simp add: moved_def sort_slice_def)
  then have "moved_label [] = (\<lambda>l. l)" by (simp add: moved_label_def fun_eq_iff)
  moreover have "reject_names [] strs = strs" for strs by (simp add: reject_names_def)
  ultimately show "p_StringTable p' = p_StringTable p \<Longrightarrow> p_Sample p' = p_Sample p \<Longrightarrow> ?thesis" by (simp add: renamed_def)
qed

lemma remove_names_ok:
  assumes "names_ok p" and "p_PeriodType p = Some t" and "distinct N" and "\<forall>r \<in> set N. str_ok p r" and "set N \<inter> set (name_refs t p) = {}"
  shows "\<exists>p'. visitAllNameReferences (\<lambda>idx u. (idx - name_shift idx (sort_slice (\<lambda>a b. sint a < sint b) N), u))
      (p\<lparr>p_StringTable := reject_names N (p_StringTable p)\<rparr>) () = Some (p', ()) \<and> same_view p p' \<and> renamed N p p'"
proof -
  let ?f = "\<lambda>idx. idx - name_shift idx (sort_slice (\<lambda>a b. sint a < sint b) N)"
  have "same_view p (map_names ?f t (p\<lparr>p_StringTable := reject_names N (p_StringTable p)\<rparr>))"
    using assms by (intro same_view_names) (auto simp: names_ok_def intro!: shifted_name)
  moreover have "renamed N p (map_names ?f t (p\<lparr>p_StringTable := reject_names N (p_StringTable p)\<rparr>))"
    using assms(3,4) by (simp add: renamed_def map_names_def moved_label_def moved_def comp_def)
  ultimately show ?thesis using assms(2) by (subst visit_writes) auto
qed

lemma clearSampleReferences_ok:
  assumes ok: "names_ok p"
  shows "\<exists>p' N. clearSampleReferences samples p = Some p' \<and> same_view p p' \<and> renamed N p p'"
proof -
  obtain t where t: "p_PeriodType p = Some t" using ok by (auto simp: names_ok_def)
  define R where "R = fold (\<lambda>s. fold removeAll (sa_LocationId s)) (p_Sample p) (fold (\<lambda>s. fold List.insert (sa_LocationId s)) samples [])"
  define p1 where "p1 = p\<lparr>p_Location := filter (\<lambda>l. loc_Id l \<notin> set R) (p_Location p)\<rparr>"
  define F0 where "F0 = fold (\<lambda>l fns. if loc_Id l \<in> set R then fold List.insert (map ln_FunctionId (loc_Line l)) fns else fns) (p_Location p) []"
  define F where "F = fold (\<lambda>l. fold (\<lambda>f. removeAll (ln_FunctionId f)) (loc_Line l)) (p_Location p1) F0"
  define p2 where "p2 = p1\<lparr>p_Function := filter (\<lambda>f. fn_Id f \<notin> set F) (p_Function p1)\<rparr>"
  define N0 where "N0 = fold (\<lambda>f names. if fn_Id f \<in> set F then List.insert (fn_Filename f) (List.insert (fn_SystemName f) (List.insert (fn_Name f) names)) else names) (p_Function p1) []"
  define N where "N = fold removeAll (name_refs t p2) N0"
  have "set R = set (fold (\<lambda>s. fold List.insert (sa_LocationId s)) samples []) - (\<Union>s \<in> set (p_Sample p). set (sa_LocationId s))"
    unfolding R_def by (rule set_fold_fold_removeAll)
  then have v1: "same_view p p1" unfolding p1_def by (intro same_view_locations) auto
  have "set F = set F0 - (\<Union>l \<in> set (p_Location p1). ln_FunctionId ` set (loc_Line l))"
    using set_fold_fold_removeAll[of "\<lambda>l. map ln_FunctionId (loc_Line l)" "p_Location p1" F0] by (simp add: F_def fold_map comp_def)
  then have v2: "same_view p p2" unfolding p2_def by (intro same_view_trans[OF v1] same_view_functions) auto
  have t2: "p_PeriodType p2 = Some t" and fns: "p_Function p1 = p_Function p" and strs: "p_StringTable p2 = p_StringTable p" using t by (auto simp: p1_def p2_def)
  have ok2: "names_ok p2" using ok by (auto simp: names_ok_def p1_def p2_def)
  have N: "distinct N" "set N \<inter> set (name_refs t p2) = {}"
    by (auto simp: N_def N0_def set_fold_removeAll intro!: distinct_fold_removeAll distinct_removed_names)
  have "set N \<subseteq> set N0" by (simp add: N_def set_fold_removeAll)
  also have "set N0 \<subseteq> (\<Union>f \<in> set (p_Function p). {fn_Name f, fn_SystemName f, fn_Filename f})"
    unfolding N0_def fns using removed_names_range[of F "p_Function p" "[]"] by simp
  finally have "\<forall>r \<in> set N. str_ok p2 r" using ok strs by (auto simp: names_ok_def)
  from remove_names_ok[OF ok2 t2 N(1) this N(2)] obtain p' where
    p': "visitAllNameReferences (\<lambda>idx u. (idx - name_shift idx (sort_slice (\<lambda>a b. sint a < sint b) N), u))
      (p2\<lparr>p_StringTable := reject_names N (p_StringTable p2)\<rparr>) () = Some (p', ())" "same_view p2 p'" "renamed N p2 p'" by blast
  have "clearSampleReferences samples p = (if samples = [] then Some p else if R = [] then Some p else if F0 = [] then Some p1 else if N0 = [] then Some p2
      else if N = [] then Some p2 else Some p')"
    using visit_reads[OF t2, of removeAll N0] p'(1)
    by (simp add: clearSampleReferences_def remove_locations remove_functions Let_def flip: R_def F0_def p1_def F_def N0_def p2_def N_def)
  moreover have "renamed [] p p" "renamed [] p p1" "renamed [] p p2" by (auto intro!: renamed_Nil simp: p1_def p2_def)
  moreover have "renamed N p p'" using p'(3) by (simp add: renamed_def p2_def p1_def)
  ultimately show ?thesis using v1 v2 same_view_trans[OF v2 p'(2)] same_view_refl by (auto split: if_splits)
qed

subsection \<open>Every location gets a mapping\<close>

lemma fake_mappings_eq:
  "fake = None \<or> fake = Some (fake_mapping mId) \<Longrightarrow>
   fake_mappings mId ls fake = (map (\<lambda>l. if loc_MappingId l = 0 then l\<lparr>loc_MappingId := mId + 1\<rparr> else l) ls,
     if \<exists>l \<in> set ls. loc_MappingId l = 0 then Some (fake_mapping mId) else fake)"
proof (induction ls arbitrary: fake)
  case (Cons l ls)
  then show ?case using Cons.IH[of fake] Cons.IH[of "Some (fake_mapping mId)"]
    by (auto simp: fake_mapping_def Let_def split: option.splits)
qed simp

lemma ensureHasMapping_facts:
  "p_Sample (ensureHasMapping p) = p_Sample p" "p_StringTable (ensureHasMapping p) = p_StringTable p" "p_Function (ensureHasMapping p) = p_Function p"
  "p_PeriodType (ensureHasMapping p) = p_PeriodType p" "p_TimeNanos (ensureHasMapping p) = p_TimeNanos p"
  "\<exists>mId. set (p_Mapping (ensureHasMapping p)) \<subseteq> set (p_Mapping p) \<union> {fake_mapping mId}"
  by (auto simp: ensureHasMapping_def fake_mappings_eq Let_def split: if_splits)

lemma ensureHasMapping_ids: "loc_Id ` set (p_Location (ensureHasMapping p)) = loc_Id ` set (p_Location p)"
proof -
  define mId where "mId = fold (\<lambda>m mId. if mId < mg_Id m then mg_Id m else mId) (p_Mapping p) 0"
  have "p_Location (ensureHasMapping p) = map (\<lambda>l. if loc_MappingId l = 0 then l\<lparr>loc_MappingId := mId + 1\<rparr> else l) (p_Location p)"
    by (simp add: ensureHasMapping_def fake_mappings_eq Let_def mId_def)
  then have "map loc_Id (p_Location (ensureHasMapping p)) = map loc_Id (p_Location p)" by simp
  then show ?thesis by (metis set_map)
qed

lemma ensureHasMapping_mapped:
  assumes "wf_pprof p" and "l \<in> set (p_Location (ensureHasMapping p))"
  shows "loc_MappingId l \<in> mg_Id ` set (p_Mapping (ensureHasMapping p))"
proof -
  have "loc_MappingId k \<noteq> 0 \<Longrightarrow> loc_MappingId k \<in> mg_Id ` set (p_Mapping p)" if "k \<in> set (p_Location p)" for k
    using assms(1) that by (auto simp: wf_pprof_def)
  then show ?thesis using assms(2)
    by (auto simp: ensureHasMapping_def fake_mappings_eq Let_def fake_mapping_def split: if_splits)
qed

subsection \<open>Normalising\<close>

definition pprof_ok :: "nat \<Rightarrow> pProfile \<Rightarrow> bool" where
  "pprof_ok m p \<longleftrightarrow> wf_pprof p \<and> p_PeriodType p \<noteq> None \<and> p_StringTable p \<noteq> [] \<and> length (p_StringTable p) < 2 ^ 63
     \<and> (\<forall>s \<in> set (p_Sample p). length (sa_Value s) = m \<and> (\<forall>l \<in> set (sa_Label s). str_ok p (pl_Key l)))"

lemma Normalize_names_ok:
  assumes "pprof_ok m p"
  shows "names_ok ((ensureHasMapping (if p_TimeNanos p = 0 then p\<lparr>p_TimeNanos := now\<rparr> else p))\<lparr>p_Sample := kept\<rparr>)"
proof -
  have *: "names_ok ((ensureHasMapping p)\<lparr>p_Sample := kept\<rparr>)" if ok: "pprof_ok m p" for p
  proof -
    obtain mId where "set (p_Mapping (ensureHasMapping p)) \<subseteq> set (p_Mapping p) \<union> {fake_mapping mId}" using ensureHasMapping_facts(6)[of p] by auto
    then show ?thesis using ok by (auto simp: names_ok_def pprof_ok_def wf_pprof_def fake_mapping_def ensureHasMapping_facts)
  qed
  have "pprof_ok m (p\<lparr>p_TimeNanos := now\<rparr>)" using assms by (simp add: pprof_ok_def wf_pprof_def)
  then show ?thesis using * assms by simp
qed

lemma sortedSample_ok:
  fixes p :: pProfile
  assumes "pprof_ok m p" and "inj_on (\<lambda>st. H (ids_bytes st)) (sa_LocationId ` set (p_Sample p))"
  defines "ss \<equiv> sortedSample (p_Sample p) (stack_hashes H (p_Sample p))"
  shows "samples_ok (\<lambda>st. H (ids_bytes st)) m (p_StringTable p) ss" "sorted_wrt (\<lambda>a b. snd a \<le> snd b) ss" "mset (map fst ss) = mset (p_Sample p)"
proof -
  have z: "zip (p_Sample p) (stack_hashes H (p_Sample p)) = map (\<lambda>s. (s, H (ids_bytes (sa_LocationId s)))) (p_Sample p)"
    by (simp add: stack_hashes_def zip_map2 zip_same_conv_map)
  have st: "set ss = (\<lambda>s. (s, H (ids_bytes (sa_LocationId s)))) ` set (p_Sample p)" by (simp add: ss_def sortedSample_def z)
  then have "fst ` set ss = set (p_Sample p)" by force
  then show "samples_ok (\<lambda>st. H (ids_bytes st)) m (p_StringTable p) ss" using assms(1,2) st by (auto simp: samples_ok_def pprof_ok_def)
  have "heap_order (\<lambda>a b :: pSample \<times> u64. snd a < snd b)" by unfold_locales auto
  from heap_order.sort_slice_sorted[OF this] show "sorted_wrt (\<lambda>a b. snd a \<le> snd b) ss" by (simp add: ss_def sortedSample_def not_less)
  have "mset (map fst ss) = image_mset fst (mset ss)" by simp
  also have "\<dots> = image_mset fst (mset (zip (p_Sample p) (stack_hashes H (p_Sample p))))" by (simp add: ss_def sortedSample_def)
  also have "\<dots> = mset (p_Sample p)" by (simp add: z multiset.map_comp comp_def)
  finally show "mset (map fst ss) = mset (p_Sample p)" .
qed

lemma stack_totals_mset: "mset xs = mset ys \<Longrightarrow> stack_totals m xs = stack_totals m ys"
proof -
  assume a: "mset xs = mset ys"
  have "(\<Sum>s\<leftarrow>filter P xs. f s) = (\<Sum>s\<leftarrow>filter P ys. f s)" for P and f :: "pSample \<Rightarrow> i64"
  proof -
    have "mset (map f (filter P xs)) = mset (map f (filter P ys))" using a by simp
    then show ?thesis by (metis sum_mset_sum_list)
  qed
  then show ?thesis by (simp add: stack_totals_def fun_eq_iff)
qed

lemma stack_totals_cong:
  assumes "map (\<lambda>s. (sa_LocationId s, sa_Value s)) xs = map (\<lambda>s. (sa_LocationId s, sa_Value s)) ys"
  shows "stack_totals m xs = stack_totals m ys"
proof -
  have eq: "(\<Sum>s\<leftarrow>filter (\<lambda>s. sa_LocationId s = st) xs. sa_Value s ! j) = (\<Sum>(l, v)\<leftarrow>filter (\<lambda>(l, v). l = st) (map (\<lambda>s. (sa_LocationId s, sa_Value s)) xs). v ! j)" for st j xs
    by (induction xs) auto
  show ?thesis by (rule ext) (simp only: stack_totals_def eq assms)
qed

lemma view_location_defined:
  assumes "wf_pprof p" and "x \<in> set (p_Sample p)" and "l \<in> set (sa_LocationId x)"
  shows "view_location (ensureHasMapping p) l \<noteq> None"
proof -
  have "set (sa_LocationId x) \<subseteq> loc_Id ` set (p_Location p)" using assms(1,2) by (simp add: wf_pprof_def)
  then have "l \<in> loc_Id ` set (p_Location p)" using assms(3) by (rule subsetD)
  then show ?thesis using ensureHasMapping_ids[of p] by (simp add: view_location_def map_of_eq_None_iff image_image)
qed

lemma same_view_mapping_ids: "same_view p p' \<Longrightarrow> mg_Id ` set (p_Mapping p') = mg_Id ` set (p_Mapping p)"
proof -
  assume "same_view p p'"
  then have "map (mg_Id \<circ> fst) (map (mapping_view (p_StringTable p')) (p_Mapping p')) = map (mg_Id \<circ> fst) (map (mapping_view (p_StringTable p)) (p_Mapping p))"
    by (simp only: same_view_def)
  then have "map mg_Id (p_Mapping p') = map mg_Id (p_Mapping p)" by (simp add: mapping_view_def comp_def)
  then show ?thesis by (metis set_map)
qed

lemma ball_image_eq: "f ` A = f ` B \<Longrightarrow> \<forall>x \<in> B. P (f x) \<Longrightarrow> \<forall>x \<in> A. P (f x)"
  by (metis imageE imageI)

text \<open>
  C14. \<open>Normalize\<close> of a well-formed profile, with a hash that separates the stacks of its samples, does
  not panic.  Afterwards every stack occurs in one sample at most, no sample is all zero, and the
  values of every stack add up to the same totals as before.  Every location that a sample refers
  to is still there, with the same address, lines, functions and names, although unused names were
  removed and references shifted, and every location has a mapping.  The labels of the samples are not part of this statement.
\<close>

theorem Normalize_keeps_totals:
  assumes "pprof_ok m p" and "inj_on (\<lambda>st. H (ids_bytes st)) (sa_LocationId ` set (p_Sample p))"
  shows "\<exists>p'. Normalize H now p = Some p' \<and> distinct (map sa_LocationId (p_Sample p'))
    \<and> (\<forall>st. stack_totals m (p_Sample p') st = stack_totals m (p_Sample p) st)
    \<and> (\<forall>s \<in> set (p_Sample p'). length (sa_Value s) = m \<and> (\<exists>v \<in> set (sa_Value s). v \<noteq> 0))
    \<and> (\<forall>s \<in> set (p_Sample p'). \<forall>l \<in> set (sa_LocationId s).
         view_location p' l \<noteq> None \<and> view_location p' l = view_location (ensureHasMapping p) l)
    \<and> (\<forall>l \<in> set (p_Location p'). loc_MappingId l \<in> mg_Id ` set (p_Mapping p'))
    \<and> p_TimeNanos p' = (if p_TimeNanos p = 0 then now else p_TimeNanos p)"
proof -
  define q where "q = ensureHasMapping (if p_TimeNanos p = 0 then p\<lparr>p_TimeNanos := now\<rparr> else p)"
  have time: "ensureHasMapping (p\<lparr>p_TimeNanos := now\<rparr>) = (ensureHasMapping p)\<lparr>p_TimeNanos := now\<rparr>" by (simp add: ensureHasMapping_def Let_def split: prod.split)
  have q: "p_Sample q = p_Sample p" "p_StringTable q = p_StringTable p" "p_Function q = p_Function p" "p_PeriodType q = p_PeriodType p"
    "p_Location q = p_Location (ensureHasMapping p)" "p_Mapping q = p_Mapping (ensureHasMapping p)" "p_TimeNanos q = (if p_TimeNanos p = 0 then now else p_TimeNanos p)"
    by (auto simp: q_def time ensureHasMapping_facts)
  have vq: "view_location q = view_location (ensureHasMapping p)"
    by (simp add: view_location_def location_view_def view_function_def q ensureHasMapping_facts)
  define ss where "ss = sortedSample (p_Sample q) (stack_hashes H (p_Sample q))"
  note ss = sortedSample_ok[OF assms, folded q(1,2), folded ss_def]
  obtain kept removed where k: "remove_samples (p_StringTable q) ss = Some (kept, removed)" "distinct (map sa_LocationId kept)"
      "stack_totals m kept = stack_totals m (map fst ss)" "sa_LocationId ` set kept \<subseteq> sa_LocationId ` fst ` set ss"
      "\<forall>s \<in> set kept. list_ex (\<lambda>v. v \<noteq> 0) (sa_Value s) \<and> length (sa_Value s) = m"
    using remove_samples_ok[OF ss(1,2)] by blast
  let ?q = "q\<lparr>p_Sample := kept\<rparr>"
  from clearSampleReferences_ok[OF Normalize_names_ok[OF assms(1), of kept now, folded q_def], of removed] obtain p' where p': "clearSampleReferences removed ?q = Some p'" "same_view ?q p'" by blast
  have N: "Normalize H now p = Some p'" using k(1) p'(1) by (simp add: Normalize_def Let_def flip: q_def ss_def)
  have samples: "map (\<lambda>s. (sa_LocationId s, sa_Value s)) (p_Sample p') = map (\<lambda>s. (sa_LocationId s, sa_Value s)) kept" using p'(2) by (simp add: same_view_def)
  have "map sa_LocationId (p_Sample p') = map sa_LocationId kept" using arg_cong[OF samples, of "map fst"] by (simp add: comp_def)
  then have d: "distinct (map sa_LocationId (p_Sample p'))" using k(2) by simp
  have tot: "stack_totals m (p_Sample p') = stack_totals m (p_Sample p)"
    using stack_totals_cong[OF samples] k(3) stack_totals_mset[OF ss(3)] q(1) by simp
  have im: "sa_Value ` set (p_Sample p') = sa_Value ` set kept" using arg_cong[OF samples, of "set \<circ> map snd"] by (simp add: image_image)
  have vals: "\<forall>s \<in> set (p_Sample p'). length (sa_Value s) = m \<and> (\<exists>v \<in> set (sa_Value s). v \<noteq> 0)"
    using k(5) by (intro ball_image_eq[OF im, where P = "\<lambda>vs. length vs = m \<and> (\<exists>v \<in> set vs. v \<noteq> 0)"]) (simp add: list_ex_iff)
  have "view_location ?q = view_location (ensureHasMapping p)" using vq by (simp add: view_location_def location_view_def view_function_def)
  moreover have "\<forall>s \<in> set kept. \<forall>l \<in> set (sa_LocationId s). view_location p' l = view_location ?q l" using p'(2) by (simp add: same_view_def)
  moreover have ids: "sa_LocationId ` set (p_Sample p') = sa_LocationId ` set kept" using same_view_ids[OF p'(2)] by simp
  moreover have "\<forall>s \<in> set kept. \<forall>l \<in> set (sa_LocationId s). view_location (ensureHasMapping p) l \<noteq> None"
  proof (intro ballI)
    fix s l assume s: "s \<in> set kept" "l \<in> set (sa_LocationId s)"
    have "fst ` set ss = set (p_Sample p)" using arg_cong[OF ss(3), of set_mset] q(1) by simp
    then obtain x where "x \<in> set (p_Sample p)" "sa_LocationId s = sa_LocationId x" using k(4) s(1) by auto
    then show "view_location (ensureHasMapping p) l \<noteq> None" using view_location_defined[of p x l] assms(1) s(2) by (simp add: pprof_ok_def)
  qed
  ultimately have views: "\<forall>s \<in> set (p_Sample p'). \<forall>l \<in> set (sa_LocationId s). view_location p' l \<noteq> None \<and> view_location p' l = view_location (ensureHasMapping p) l"
    by (intro ball_image_eq[OF ids, where P = "\<lambda>ls. \<forall>l \<in> set ls. view_location p' l \<noteq> None \<and> view_location p' l = view_location (ensureHasMapping p) l"]) auto
  have "mg_Id ` set (p_Mapping p') = mg_Id ` set (p_Mapping q)" using same_view_mapping_ids[OF p'(2)] by simp
  moreover have "set (p_Location p') \<subseteq> set (p_Location q)" "p_TimeNanos p' = p_TimeNanos q" using p'(2) by (simp_all add: same_view_def)
  ultimately have "\<forall>l \<in> set (p_Location p'). loc_MappingId l \<in> mg_Id ` set (p_Mapping p')"
    using ensureHasMapping_mapped[of p] assms(1) q(5,6) by (auto simp: pprof_ok_def)
  moreover have "p_TimeNanos p' = (if p_TimeNanos p = 0 then now else p_TimeNanos p)" using \<open>p_TimeNanos p' = p_TimeNanos q\<close> q(7) by simp
  moreover have "\<forall>st. stack_totals m (p_Sample p') st = stack_totals m (p_Sample p) st" using tot by simp
  ultimately show ?thesis using N d vals views by (intro exI[of _ p'] conjI)
qed

definition demo_hash :: "u8 list \<Rightarrow> u64" where
  "demo_hash bs = fold (\<lambda>b h. h + ucast b) bs 0"

definition demo_location :: "u64 \<Rightarrow> Location" where
  "demo_location i = \<lparr>loc_Id = i, loc_MappingId = 0, loc_Address = 16, loc_Line = [\<lparr>ln_FunctionId = i, ln_Line = 7\<rparr>], loc_IsFolded = False\<rparr>"

definition demo_function :: "u64 \<Rightarrow> i64 \<Rightarrow> Function" where
  "demo_function i name = \<lparr>fn_Id = i, fn_Name = name, fn_SystemName = name, fn_Filename = name, fn_StartLine = 1\<rparr>"

text \<open>The function \<open>idle\<close> only occurs in a sample without a value; \<open>thread\<close> is a label of the others.\<close>

definition demo_labelled :: pProfile where
  "demo_labelled = \<lparr>p_SampleType = [], p_Sample =
      [\<lparr>sa_LocationId = [2], sa_Value = [3], sa_Label = [\<lparr>pl_Key = 3, pl_Str = 4, pl_Num = 0, pl_NumUnit = 0\<rparr>, \<lparr>pl_Key = 3, pl_Str = 0, pl_Num = 100, pl_NumUnit = 0\<rparr>]\<rparr>,
       \<lparr>sa_LocationId = [1], sa_Value = [0], sa_Label = []\<rparr>],
     p_Mapping = [], p_Location = [demo_location 1, demo_location 2], p_Function = [demo_function 1 1, demo_function 2 2],
     p_StringTable = ['''', ''idle'', ''main'', ''thread'', ''worker''], p_DropFrames = 0, p_KeepFrames = 0, p_TimeNanos = 1, p_DurationNanos = 0,
     p_PeriodType = Some \<lparr>vt_Type = 2, vt_Unit = 2\<rparr>, p_Comment = [], p_DefaultSampleType = 0\<rparr>"

lemma demo_labelled_ok: "pprof_ok 1 demo_labelled" "inj_on (\<lambda>st. demo_hash (ids_bytes st)) (sa_LocationId ` set (p_Sample demo_labelled))"
proof -
  show "pprof_ok 1 demo_labelled" by (auto simp: pprof_ok_def wf_pprof_def demo_labelled_def demo_location_def demo_function_def)
  have "demo_hash (ids_bytes [2]) \<noteq> demo_hash (ids_bytes [1])" by code_simp
  then show "inj_on (\<lambda>st. demo_hash (ids_bytes st)) (sa_LocationId ` set (p_Sample demo_labelled))" by (simp add: demo_labelled_def)
qed

theorem Normalize_keeps_totals_witness:
  "\<exists>p'. Normalize demo_hash 9 demo_labelled = Some p' \<and> stack_totals 1 (p_Sample p') [2] = [3] \<and> (\<forall>s \<in> set (p_Sample p'). \<exists>v \<in> set (sa_Value s). v \<noteq> 0)
     \<and> p_TimeNanos p' = 1"
proof -
  have "stack_totals 1 (p_Sample demo_labelled) [2] = [3]" "p_TimeNanos demo_labelled = 1" by (simp_all add: stack_totals_def demo_labelled_def)
  then show ?thesis using Normalize_keeps_totals[OF demo_labelled_ok, of 9] by fastforce
qed

text \<open>
  C15. What \<open>Normalize\<close> does to labels.  \<open>visitAllNameReferences\<close> visits the number of a label instead of its string.
  For every well-formed profile whose stacks have different hashes, some names \<open>N\<close> are removed from the string table, and a name that is kept,
  at position \<open>i\<close>, is found at \<open>moved N i\<close> afterwards.  Every label of the result comes from a label of a sample
  with the same stack: its key and unit are moved with the names, but its string index is not moved, and its number, which is no
  reference, is.
\<close>

theorem Normalize_breaks_labels:
  assumes "pprof_ok m p" and "inj_on (\<lambda>st. H (ids_bytes st)) (sa_LocationId ` set (p_Sample p))"
  shows "\<exists>p' N. Normalize H now p = Some p' \<and> distinct N \<and> p_StringTable p' = reject_names N (p_StringTable p)
    \<and> (\<forall>i. unat i < length (p_StringTable p) \<and> i \<notin> set N \<longrightarrow> at64 (p_StringTable p') (moved N i) = at64 (p_StringTable p) i)
    \<and> (\<forall>s' \<in> set (p_Sample p'). \<exists>s \<in> set (p_Sample p). sa_LocationId s' = sa_LocationId s \<and> (\<forall>l' \<in> set (sa_Label s'). \<exists>l \<in> set (sa_Label s).
         pl_Key l' = moved N (pl_Key l) \<and> pl_Str l' = pl_Str l \<and> pl_Num l' = moved N (pl_Num l) \<and> pl_NumUnit l' = moved N (pl_NumUnit l)))"
proof -
  define q where "q = ensureHasMapping (if p_TimeNanos p = 0 then p\<lparr>p_TimeNanos := now\<rparr> else p)"
  have q: "p_Sample q = p_Sample p" "p_StringTable q = p_StringTable p" by (auto simp: q_def ensureHasMapping_facts)
  define ss where "ss = sortedSample (p_Sample q) (stack_hashes H (p_Sample q))"
  note ss = sortedSample_ok[OF assms, folded q(1,2), folded ss_def]
  obtain kept removed where k: "remove_samples (p_StringTable q) ss = Some (kept, removed)" using remove_samples_ok[OF ss(1,2)] by blast
  let ?q = "q\<lparr>p_Sample := kept\<rparr>"
  from clearSampleReferences_ok[OF Normalize_names_ok[OF assms(1), of kept now, folded q_def], of removed] obtain p' N where
    p': "clearSampleReferences removed ?q = Some p'" "same_view ?q p'" "renamed N ?q p'" by blast
  have n: "Normalize H now p = Some p'" using k p'(1) by (simp add: Normalize_def Let_def flip: q_def ss_def)
  have N: "distinct N" "\<forall>r \<in> set N. unat r < length (p_StringTable p)" "p_StringTable p' = reject_names N (p_StringTable p)"
    "map sa_Label (p_Sample p') = map (\<lambda>s. map (moved_label N) (sa_Label s)) kept"
    using p'(3) q(2) by (simp_all add: renamed_def)
  have "length (p_StringTable p) < 2 ^ 63" using assms(1) by (simp add: pprof_ok_def)
  then have names: "\<forall>i. unat i < length (p_StringTable p) \<and> i \<notin> set N \<longrightarrow> at64 (p_StringTable p') (moved N i) = at64 (p_StringTable p) i"
    unfolding N(3) moved_def using shifted_name[OF N(1,2)] by blast
  have "map fst (map (\<lambda>s. (sa_LocationId s, sa_Value s)) (p_Sample p')) = map fst (map (\<lambda>s. (sa_LocationId s, sa_Value s)) kept)"
    using p'(2) by (simp only: same_view_def) simp
  then have ids: "map sa_LocationId (p_Sample p') = map sa_LocationId kept" by (simp add: comp_def)
  have fs: "fst ` set ss = set (p_Sample p)" using arg_cong[OF ss(3), of set_mset] q(1) by simp
  have "\<exists>s \<in> set (p_Sample p). sa_LocationId s' = sa_LocationId s \<and> (\<forall>l' \<in> set (sa_Label s'). \<exists>l \<in> set (sa_Label s).
         pl_Key l' = moved N (pl_Key l) \<and> pl_Str l' = pl_Str l \<and> pl_Num l' = moved N (pl_Num l) \<and> pl_NumUnit l' = moved N (pl_NumUnit l))"
    if in_p': "s' \<in> set (p_Sample p')" for s'
  proof -
    obtain j where j: "j < length (p_Sample p')" "s' = p_Sample p' ! j" using in_p' by (auto simp: in_set_conv_nth)
    have len: "length (p_Sample p') = length kept" using arg_cong[OF ids, of length] by simp
    have s': "sa_LocationId s' = sa_LocationId (kept ! j)" "sa_Label s' = map (moved_label N) (sa_Label (kept ! j))"
      using j len arg_cong[OF ids, of "\<lambda>xs. xs ! j"] arg_cong[OF N(4), of "\<lambda>xs. xs ! j"] by simp_all
    obtain s where "s \<in> set (p_Sample p)" "sa_LocationId (kept ! j) = sa_LocationId s" "set (sa_Label (kept ! j)) \<subseteq> set (sa_Label s)"
      using remove_samples_labels[OF k, of "kept ! j"] j len fs by auto
    then show ?thesis using s' by (intro bexI[of _ s]) (auto simp: moved_label_def)
  qed
  then show ?thesis using n N(1,3) names by (intro exI[of _ p'] exI[of _ N] conjI ballI)
qed

text \<open>
  In the profile above the name \<open>idle\<close> at position 1 is removed.  The number 100 of a label becomes 99, and the string of the other label,
  \<open>worker\<close> at position 4, keeps an index that no longer exists.
\<close>

theorem Normalize_breaks_labels_witness:
  "\<exists>p' N. Normalize demo_hash 9 demo_labelled = Some p' \<and> p_StringTable p' = reject_names N (p_StringTable demo_labelled)
     \<and> p_StringTable p' = ['''', ''main'', ''thread'', ''worker'']
     \<and> map sa_Label (p_Sample p') = [[\<lparr>pl_Key = 2, pl_Str = 4, pl_Num = 0, pl_NumUnit = 0\<rparr>, \<lparr>pl_Key = 2, pl_Str = 0, pl_Num = 99, pl_NumUnit = 0\<rparr>]]
     \<and> at64 (p_StringTable p') 4 = None"
proof -
  let ?n = "Normalize demo_hash 9 demo_labelled"
  have "map_option (\<lambda>p'. (p_StringTable p', map sa_Label (p_Sample p'))) ?n = Some (['''', ''main'', ''thread'', ''worker''],
      [[\<lparr>pl_Key = 2, pl_Str = 4, pl_Num = 0, pl_NumUnit = 0\<rparr>, \<lparr>pl_Key = 2, pl_Str = 0, pl_Num = 99, pl_NumUnit = 0\<rparr>]])" by code_simp
  then obtain p' where p': "?n = Some p'" "p_StringTable p' = ['''', ''main'', ''thread'', ''worker'']"
    "map sa_Label (p_Sample p') = [[\<lparr>pl_Key = 2, pl_Str = 4, pl_Num = 0, pl_NumUnit = 0\<rparr>, \<lparr>pl_Key = 2, pl_Str = 0, pl_Num = 99, pl_NumUnit = 0\<rparr>]]" by auto
  moreover have "at64 (p_StringTable p') 4 = None" unfolding p'(2) by (simp add: at64_def)
  moreover obtain N where "p_StringTable p' = reject_names N (p_StringTable demo_labelled)"
    using Normalize_breaks_labels[OF demo_labelled_ok, of 9] p'(1) by auto
  ultimately show ?thesis by (intro exI[of _ p'] exI[of _ N] conjI)
qed

end
