(* ===== verification/Select_Merge.thy ===== *)
theory Select_Merge
  imports Iterators Series_Merge Stack_Merge Flame_Tree
begin

section \<open>Selecting profiles from several ingesters (pkg/querier/select_merge.go)\<close>

text \<open>
  Profiles are replicated, so the querier must not count one twice.  Every ingester streams the time and
  labels of its profiles in batches; \<open>skipDuplicates\<close> merges the streams in order, keeps one profile
  of every group of equal ones and the iterator tells the ingester, batch by batch, which profiles
  are kept.  Afterwards every ingester sends the merged samples of the kept profiles.

  Iterators are pointers, shared between the heap, the slice \<open>tuples\<close> and the list of results: the model
  has a list of iterators and the heap holds indexes of it.  The two directions of a connection are an
  argument, a record of methods over its state.  \<open>requeueAsync\<close> advances iterators in parallel and
  pushes them under a lock: the order of the pushes is the argument \<open>sched\<close>, for the \<open>n\<close>-th call.
  A panic, like a run that does not end, is \<open>None\<close>.
\<close>

subsection \<open>The iterator over the profiles of an ingester\<close>

record SeriesProfile =
  se_LabelIndex :: i32
  se_Timestamp :: i64

record ProfileSets =
  ps_LabelsSets :: "labels list"
  ps_Profiles :: "SeriesProfile list"

record querierProfile =
  qp_Timestamp :: i64
  qp_Labels :: labels
  qp_IngesterAddr :: string

record ('b, 'r) BidiClientMerge =
  bd_Send :: "bool list \<Rightarrow> 'b \<Rightarrow> errs \<times> 'b"
  bd_Receive :: "'b \<Rightarrow> (errs + ProfileSets option \<times> 'r) \<times> 'b"
  bd_CloseRequest :: "'b \<Rightarrow> errs \<times> 'b"
  bd_CloseResponse :: "'b \<Rightarrow> errs \<times> 'b"

record 'i MergeIterator =
  mg_Next :: "'i \<Rightarrow> bool \<times> 'i"
  mg_Keep :: "'i \<Rightarrow> 'i option"
  mg_At :: "'i \<Rightarrow> querierProfile"
  mg_Err :: "'i \<Rightarrow> errs"
  mg_Close :: "'i \<Rightarrow> errs \<times> 'i"

record 'b mergeIterator =
  mi_bidi :: 'b
  mi_ingesterAddr :: string
  mi_err :: errs
  mi_curr :: "ProfileSets option"
  mi_currIdx :: nat
  mi_keep :: "bool list"
  mi_keepSent :: bool

definition NewMergeIterator :: "string \<times> 'b \<Rightarrow> 'b mergeIterator" where
  "NewMergeIterator r =
     \<lparr>mi_bidi = snd r, mi_ingesterAddr = fst r, mi_err = [], mi_curr = None, mi_currIdx = 0, mi_keep = [], mi_keepSent = True\<rparr>"

definition next_batch :: "('b, 'r) BidiClientMerge \<Rightarrow> 'b mergeIterator \<Rightarrow> bool \<times> 'b mergeIterator" where
  "next_batch bd s =
     (case bd_Receive bd (mi_bidi s) of
        (Inl err, b) \<Rightarrow> (False, s\<lparr>mi_bidi := b, mi_err := err\<rparr>)
      | (Inr (sel, _), b) \<Rightarrow>
          (case sel of
             None \<Rightarrow> (False, s\<lparr>mi_bidi := b\<rparr>)
           | Some c \<Rightarrow>
               if ps_Profiles c = [] then (False, s\<lparr>mi_bidi := b\<rparr>)
               else (True, s\<lparr>mi_bidi := b, mi_curr := Some c, mi_currIdx := 0,
                       mi_keep := replicate (length (ps_Profiles c)) False, mi_keepSent := False\<rparr>)))"

definition mi_Next :: "('b, 'r) BidiClientMerge \<Rightarrow> 'b mergeIterator \<Rightarrow> bool \<times> 'b mergeIterator" where
  "mi_Next bd s =
     (if (case mi_curr s of None \<Rightarrow> True | Some c \<Rightarrow> length (ps_Profiles c) \<le> mi_currIdx s + 1) then
        (if mi_keepSent s then next_batch bd s
         else case bd_Send bd (mi_keep s) (mi_bidi s) of (err, b) \<Rightarrow>
                if err \<noteq> [] then (False, s\<lparr>mi_bidi := b, mi_err := err\<rparr>) else next_batch bd (s\<lparr>mi_bidi := b\<rparr>))
      else (True, s\<lparr>mi_currIdx := mi_currIdx s + 1\<rparr>))"

definition mi_Keep :: "'b mergeIterator \<Rightarrow> 'b mergeIterator option" where
  "mi_Keep s = (if mi_currIdx s < length (mi_keep s) then Some (s\<lparr>mi_keep := (mi_keep s)[mi_currIdx s := True]\<rparr>) else None)"

text \<open>
  \<open>At\<close> of a profile of the current batch.  Without a current profile, or with a label index that is out
  of range, the code panics; the model gives no labels then, and the theorems are about batches
  whose label indexes are in range.
\<close>

definition profile_at :: "string \<Rightarrow> ProfileSets \<Rightarrow> SeriesProfile \<Rightarrow> querierProfile" where
  "profile_at addr c p =
     \<lparr>qp_Timestamp = se_Timestamp p,
      qp_Labels = (if unat (se_LabelIndex p) < length (ps_LabelsSets c) then ps_LabelsSets c ! unat (se_LabelIndex p) else []),
      qp_IngesterAddr = addr\<rparr>"

definition mi_At :: "'b mergeIterator \<Rightarrow> querierProfile" where
  "mi_At s =
     (case mi_curr s of
        Some c \<Rightarrow> if mi_currIdx s < length (ps_Profiles c) then profile_at (mi_ingesterAddr s) c (ps_Profiles c ! mi_currIdx s)
                  else \<lparr>qp_Timestamp = 0, qp_Labels = [], qp_IngesterAddr = mi_ingesterAddr s\<rparr>
      | None \<Rightarrow> \<lparr>qp_Timestamp = 0, qp_Labels = [], qp_IngesterAddr = mi_ingesterAddr s\<rparr>)"

definition mi_Result :: "('b, 'r) BidiClientMerge \<Rightarrow> 'b mergeIterator \<Rightarrow> (errs + 'r) \<times> 'b mergeIterator" where
  "mi_Result bd s =
     (case bd_Receive bd (mi_bidi s) of
        (Inl err, b) \<Rightarrow> (Inl err, s\<lparr>mi_bidi := b, mi_err := err\<rparr>)
      | (Inr (_, r), b) \<Rightarrow>
          (case bd_CloseResponse bd b of (err, b) \<Rightarrow>
             (Inr r, if err \<noteq> [] then s\<lparr>mi_bidi := b, mi_err := err\<rparr> else s\<lparr>mi_bidi := b\<rparr>)))"

definition mi_Close :: "('b, 'r) BidiClientMerge \<Rightarrow> 'b mergeIterator \<Rightarrow> errs \<times> 'b mergeIterator" where
  "mi_Close bd s = (case bd_CloseRequest bd (mi_bidi s) of (err, b) \<Rightarrow> (err, s\<lparr>mi_bidi := b\<rparr>))"

definition merge_iterator :: "('b, 'r) BidiClientMerge \<Rightarrow> 'b mergeIterator MergeIterator" where
  "merge_iterator bd =
     \<lparr>mg_Next = mi_Next bd, mg_Keep = mi_Keep, mg_At = mi_At, mg_Err = mi_err, mg_Close = mi_Close bd\<rparr>"

subsection \<open>Skipping duplicates\<close>

definition its_less :: "'i MergeIterator \<Rightarrow> 'i list \<Rightarrow> nat \<Rightarrow> nat \<Rightarrow> bool" where
  "its_less mg its i j = profile_less qp_Labels qp_Timestamp (mg_At mg (its ! i)) (mg_At mg (its ! j))"

definition requeue_one :: "'i MergeIterator \<Rightarrow> nat \<Rightarrow> errs \<times> 'i list \<times> nat list \<Rightarrow> errs \<times> 'i list \<times> nat list" where
  "requeue_one mg i s =
     (case s of (multiErr, its, h) \<Rightarrow>
        case mg_Next mg (its ! i) of
          (True, ei) \<Rightarrow> (multiErr, its[i := ei], heap_push (its_less mg (its[i := ei])) h i)
        | (False, ei) \<Rightarrow>
            (case mg_Close mg ei of (_, ei) \<Rightarrow> (multiErr @ mg_Err mg ei, its[i := ei], h)))"

definition requeueAsync :: "'i MergeIterator \<Rightarrow> nat list \<Rightarrow> 'i list \<Rightarrow> nat list \<Rightarrow> errs \<times> 'i list \<times> nat list" where
  "requeueAsync mg eis its h = fold (requeue_one mg) eis ([], its, h)"

lemma length_heap_pop: "h \<noteq> [] \<Longrightarrow> length (snd (heap_pop lt h)) < length h"
  by (simp add: heap_pop_def Let_def)

function pop_equal :: "'i MergeIterator \<Rightarrow> 'i list \<Rightarrow> nat list \<Rightarrow> nat list \<Rightarrow> nat list \<times> nat list" where
  "pop_equal mg its h tuples =
     (if h = [] then (h, tuples)
      else let next = hd h; value = mg_At mg (its ! next)
           in if tuples \<noteq> [] \<and> (qp_Timestamp (mg_At mg (its ! hd tuples)) \<noteq> qp_Timestamp value
                  \<or> CompareLabelPairs (qp_Labels (mg_At mg (its ! hd tuples))) (qp_Labels value) \<noteq> 0)
              then (h, tuples)
              else pop_equal mg its (snd (heap_pop (its_less mg its) h)) (tuples @ [next]))"
  by pat_completeness auto
termination
  by (relation "measure (\<lambda>(mg, its, h, tuples). length h)") (auto simp: length_heap_pop)

declare pop_equal.simps [simp del]

partial_function (option) skip_loop :: "'i MergeIterator \<Rightarrow> (nat \<Rightarrow> nat list \<Rightarrow> nat list) \<Rightarrow> nat \<Rightarrow> 'i list \<Rightarrow> nat list \<Rightarrow> (errs \<times> 'i list) option" where
  "skip_loop mg sched n its h =
     (if h = [] then Some ([], its)
      else if length h = 1 then do {
        it \<leftarrow> mg_Keep mg (its ! hd h);
        case mg_Next mg it of (ok, it) \<Rightarrow>
          skip_loop mg sched n (its[hd h := it]) (if ok then h else butlast h) }
      else
        (case pop_equal mg its h [] of (h, tuples) \<Rightarrow> do {
           it \<leftarrow> mg_Keep mg (its ! hd tuples);
           case requeueAsync mg (sched n tuples) (its[hd tuples := it]) h of (err, its, h) \<Rightarrow>
             if err \<noteq> [] then Some (err, its) else skip_loop mg sched (n + 1) its h }))"

declare skip_loop.simps [code]

definition skipDuplicates :: "'i MergeIterator \<Rightarrow> (nat \<Rightarrow> nat list \<Rightarrow> nat list) \<Rightarrow> 'i list \<Rightarrow> (errs \<times> 'i list) option" where
  "skipDuplicates mg sched its =
     (case requeueAsync mg (sched 0 [0..<length its]) its [] of (err, its, h) \<Rightarrow>
        if err \<noteq> [] then Some (err, its) else skip_loop mg sched 1 its h)"

subsection \<open>Collecting the results\<close>

text \<open>
  The results are received in parallel; the model receives them one after the other.  The first error
  is the result of the group.
\<close>

fun collect_results :: "('b, 'r) BidiClientMerge \<Rightarrow> 'b mergeIterator list \<Rightarrow> errs + 'r list" where
  "collect_results bd [] = Inr []"
| "collect_results bd (it # its) =
     (case fst (mi_Result bd it) of
        Inl err \<Rightarrow> Inl err
      | Inr r \<Rightarrow> (case collect_results bd its of Inl err \<Rightarrow> Inl err | Inr rs \<Rightarrow> Inr (r # rs)))"

definition mergeProfilesStacktracesResult :: "(u8 list \<Rightarrow> u64) \<Rightarrow> store \<Rightarrow> MergeProfilesStacktracesResult option list \<Rightarrow> stacktraces list option" where
  "mergeProfilesStacktracesResult H st results = do {
     (merge, st) \<leftarrow> MergeBatchMergeStacktraces H st results;
     if ids_in_range st merge
     then Some (map (\<lambda>s. \<lparr>st_locations = map (at_idx (mr_FunctionNames merge)) (st (ss_FunctionIds s)), st_value = ss_Value s\<rparr>) (mr_Stacktraces merge))
     else None }"

definition selectMergeStacktraces :: "('b, MergeProfilesStacktracesResult option) BidiClientMerge \<Rightarrow> (nat \<Rightarrow> nat list \<Rightarrow> nat list) \<Rightarrow>
    (u8 list \<Rightarrow> u64) \<Rightarrow> store \<Rightarrow> (string \<times> 'b) list \<Rightarrow> (errs + stacktraces list) option" where
  "selectMergeStacktraces bd sched H st responses = do {
     (err, its) \<leftarrow> skipDuplicates (merge_iterator bd) sched (map NewMergeIterator responses);
     if err \<noteq> [] then Some (Inl err)
     else case collect_results bd its of
            Inl err \<Rightarrow> Some (Inl err)
          | Inr results \<Rightarrow> map_option Inr (mergeProfilesStacktracesResult H st results) }"

record 'v ProfileValue =
  pf_Ts :: i64
  pf_Lbs :: labels
  pf_LabelsHash :: u64
  pf_Value :: 'v

record 'v seriesIterator =
  se_point :: "'v Point list"
  se_curr :: "'v ProfileValue"

definition newSeriesIterator :: "(string \<Rightarrow> u64) \<Rightarrow> 'v \<Rightarrow> labels \<Rightarrow> 'v Point list \<Rightarrow> 'v seriesIterator" where
  "newSeriesIterator H zero lbs points =
     \<lparr>se_point = points, se_curr = \<lparr>pf_Ts = 0, pf_Lbs = lbs, pf_LabelsHash = Labels_Hash H lbs, pf_Value = zero\<rparr>\<rparr>"

definition point_iterator :: "('v seriesIterator, 'v ProfileValue) Iterator" where
  "point_iterator =
     \<lparr>it_Next = (\<lambda>s. Some (case se_point s of
         [] \<Rightarrow> (False, s)
       | p # ps \<Rightarrow> (True, s\<lparr>se_point := ps, se_curr := (se_curr s)\<lparr>pf_Ts := pt_Timestamp p, pf_Value := pt_Value p\<rparr>\<rparr>))),
      it_At = se_curr, it_Err = (\<lambda>s. []), it_Close = (\<lambda>s. ([], s))\<rparr>"

definition selectMergeSeries :: "('b, 'v Series list) BidiClientMerge \<Rightarrow> (nat \<Rightarrow> nat list \<Rightarrow> nat list) \<Rightarrow> (string \<Rightarrow> u64) \<Rightarrow> 'v \<Rightarrow>
    (string \<times> 'b) list \<Rightarrow> (errs + ('v seriesIterator, 'v ProfileValue) SortIterator) option" where
  "selectMergeSeries bd sched H zero responses = do {
     (err, its) \<leftarrow> skipDuplicates (merge_iterator bd) sched (map NewMergeIterator responses);
     if err \<noteq> [] then Some (Inl err)
     else case collect_results bd its of
            Inl err \<Rightarrow> Some (Inl err)
          | Inr results \<Rightarrow>
              map_option Inr (NewSortProfileIterator pf_Lbs pf_Ts point_iterator
                (map (\<lambda>s. newSeriesIterator H zero (sr_Labels s) (sr_Points s)) (MergeSeries H results))) }"

definition series_values :: "(string \<Rightarrow> u64) \<Rightarrow> 'v Series \<Rightarrow> 'v ProfileValue list" where
  "series_values H s = map (\<lambda>p. \<lparr>pf_Ts = pt_Timestamp p, pf_Lbs = sr_Labels s, pf_LabelsHash = Labels_Hash H (sr_Labels s), pf_Value = pt_Value p\<rparr>) (sr_Points s)"

lemma point_iterator_yields:
  "yields point_iterator s (map (\<lambda>p. (se_curr s)\<lparr>pf_Ts := pt_Timestamp p, pf_Value := pt_Value p\<rparr>) (se_point s)) []"
proof (induction "se_point s" arbitrary: s)
  case Nil
  have "Iterators.ended point_iterator [] s" using Nil[symmetric]
    by (coinduction arbitrary: s) (auto simp: point_iterator_def)
  then show ?case using Nil[symmetric] by (simp add: yields_Nil)
next
  case (Cons p ps)
  let ?s = "s\<lparr>se_point := ps, se_curr := (se_curr s)\<lparr>pf_Ts := pt_Timestamp p, pf_Value := pt_Value p\<rparr>\<rparr>"
  have n: "it_Next point_iterator s = Some (True, ?s)" using Cons(2)[symmetric] by (simp add: point_iterator_def)
  have "yields point_iterator ?s (map (\<lambda>p. (se_curr s)\<lparr>pf_Ts := pt_Timestamp p, pf_Value := pt_Value p\<rparr>) ps) []" using Cons(1)[of ?s] by simp
  from yields_Cons[OF n _ this] show ?case using Cons(2)[symmetric] by (simp add: point_iterator_def)
qed

lemma series_merge:
  assumes "\<forall>s \<in> set series. sorted (map (\<lambda>p. sint (pt_Timestamp p)) (sr_Points s))"
  shows "\<exists>it L. NewSortProfileIterator pf_Lbs pf_Ts point_iterator (map (\<lambda>s. newSeriesIterator H zero (sr_Labels s) (sr_Points s)) series) = Some it
    \<and> yields (sort_iterator pf_Lbs pf_Ts z point_iterator) it L [] \<and> in_order pf_Lbs pf_Ts L \<and> mset L = mset (concat (map (series_values H) series))"
proof -
  let ?it = "\<lambda>s. newSeriesIterator H zero (sr_Labels s) (sr_Points s)"
  have y: "yields point_iterator (?it s) (series_values H s) []" for s
    using point_iterator_yields[of "?it s"] by (simp add: newSeriesIterator_def series_values_def)
  have "in_order pf_Lbs pf_Ts (series_values H s)" if "s \<in> set series" for s
    using assms that by (auto simp: series_values_def profile_key_def sorted_map comp_def intro: sorted_wrt_mono_rel[rotated])
  then have all: "list_all2 (\<lambda>i (xs, e). yields point_iterator i xs e \<and> in_order pf_Lbs pf_Ts xs) (map ?it series) (map (\<lambda>s. (series_values H s, [] :: errs)) series)"
    using y by (simp add: list_all2_map1 list_all2_map2 list_all2_same)
  have "fst (it_Close point_iterator j) = []" for j :: "'a seriesIterator" by (simp add: point_iterator_def)
  from sort_merges[OF all this, of z] obtain it L e where "NewSortProfileIterator pf_Lbs pf_Ts point_iterator (map ?it series) = Some it"
      "yields (sort_iterator pf_Lbs pf_Ts z point_iterator) it L e" "in_order pf_Lbs pf_Ts L"
      "mset L = mset (concat (map fst (map (\<lambda>s. (series_values H s, [] :: errs)) series)))"
      "set e = set (concat (map snd (map (\<lambda>s. (series_values H s, [] :: errs)) series)))" by blast
  moreover from this(5) have "e = []" by auto
  ultimately show ?thesis by (auto simp: comp_def)
qed

subsection \<open>The order of the heap\<close>

type_synonym pkey = "int \<times> (string \<times> string) list"

abbreviation pkey :: "querierProfile \<Rightarrow> pkey" where
  "pkey \<equiv> profile_key qp_Labels qp_Timestamp"

lemma its_less_key: "its_less mg its i j \<longleftrightarrow> pkey (mg_At mg (its ! i)) < pkey (mg_At mg (its ! j))"
  by (simp add: its_less_def profile_less_key)

interpretation mih: heap_order "its_less mg its" for mg its
  by unfold_locales (auto simp: its_less_key)

lemma pkey_eq: "pkey p = pkey q \<longleftrightarrow> \<not> (qp_Timestamp p \<noteq> qp_Timestamp q \<or> CompareLabelPairs (qp_Labels p) (qp_Labels q) \<noteq> 0)"
  using signed_word_eqI[of "qp_Timestamp p" "qp_Timestamp q", where ?'a = int]
  by (auto simp: profile_key_def CompareLabelPairs_zero)

lemma is_heap_cong_its:
  assumes "\<forall>i \<in> set h. its' ! i = its ! i"
  shows "is_heap (its_less mg its') h = is_heap (its_less mg its) h"
proof -
  have "(i - 1) div 2 < length h" if "i < length h" for i :: nat using that by linarith
  then show ?thesis using assms by (auto simp: is_heap_def its_less_def)
qed

lemma heap_hd_least: "is_heap (its_less mg its) h \<Longrightarrow> j \<in> set h \<Longrightarrow> pkey (mg_At mg (its ! hd h)) \<le> pkey (mg_At mg (its ! j))"
  using mih.is_heap_min[of mg its h] by (cases "h = []") (auto simp: in_set_conv_nth its_less_key not_less hd_conv_nth)

lemma pop_equal_spec:
  defines "K \<equiv> \<lambda>mg its i. pkey (mg_At mg (its ! i))"
  assumes "is_heap (its_less mg its) h" and "tuples \<noteq> []" and "\<forall>t \<in> set tuples. K mg its t = m" and "\<forall>j \<in> set h. m \<le> K mg its j"
  shows "\<exists>h' es. pop_equal mg its h tuples = (h', tuples @ es) \<and> mset h = mset h' + mset es \<and> is_heap (its_less mg its) h'
    \<and> (\<forall>e \<in> set es. K mg its e = m) \<and> (\<forall>j \<in> set h'. m < K mg its j)"
  using assms(2-5)
proof (induction mg its h tuples rule: pop_equal.induct)
  case (1 mg its h tuples)
  show ?case
  proof (cases "h = []")
    case True
    then show ?thesis using "1.prems" by (auto simp: pop_equal.simps)
  next
    case False
    have hd: "K mg its (hd tuples) = m" using "1.prems" by simp
    let ?stop = "qp_Timestamp (mg_At mg (its ! hd tuples)) \<noteq> qp_Timestamp (mg_At mg (its ! hd h))
        \<or> CompareLabelPairs (qp_Labels (mg_At mg (its ! hd tuples))) (qp_Labels (mg_At mg (its ! hd h))) \<noteq> 0"
    have least: "K mg its (hd h) \<le> K mg its j" if "j \<in> set h" for j
      using heap_hd_least[OF "1.prems"(1) that] by (simp add: K_def)
    show ?thesis
    proof (cases ?stop)
      case True
      then have "K mg its (hd h) \<noteq> m" using pkey_eq[of "mg_At mg (its ! hd tuples)" "mg_At mg (its ! hd h)"] hd by (auto simp: K_def)
      then have "m < K mg its (hd h)" using "1.prems"(4) False by (simp add: less_le)
      then have "\<forall>j \<in> set h. m < K mg its j" using least by (meson less_le_trans)
      moreover have "pop_equal mg its h tuples = (h, tuples)" using False True "1.prems"(2) by (subst pop_equal.simps) (auto simp: Let_def)
      ultimately show ?thesis using "1.prems"(1) by (intro exI[of _ h] exI[of _ "[]"]) simp
    next
      case go: False
      then have Kh: "K mg its (hd h) = m" using pkey_eq[of "mg_At mg (its ! hd tuples)" "mg_At mg (its ! hd h)"] hd by (simp add: K_def)
      let ?h = "snd (heap_pop (its_less mg its) h)"
      have ms: "mset h = add_mset (hd h) (mset ?h)" using heap_pop_spec[of h "its_less mg its"] False by (simp add: hd_conv_nth)
      have st: "set ?h \<subseteq> set h" using arg_cong[OF ms, of set_mset] by auto
      then have le: "\<forall>j \<in> set ?h. m \<le> K mg its j" using "1.prems"(4) by blast
      have eq: "pop_equal mg its h tuples = pop_equal mg its ?h (tuples @ [hd h])" using False go by (subst pop_equal.simps) (auto simp: Let_def)
      obtain h' es where "pop_equal mg its ?h (tuples @ [hd h]) = (h', (tuples @ [hd h]) @ es)" "mset ?h = mset h' + mset es" "is_heap (its_less mg its) h'"
          "\<forall>e \<in> set es. K mg its e = m" "\<forall>j \<in> set h'. m < K mg its j"
        using "1.IH"[OF False refl refl] go "1.prems"(2,3) Kh le mih.is_heap_pop[OF "1.prems"(1)] by auto
      then show ?thesis using eq ms Kh by (intro exI[of _ h'] exI[of _ "hd h # es"]) auto
    qed
  qed
qed

lemma pop_equal_first:
  defines "K \<equiv> \<lambda>mg its i. pkey (mg_At mg (its ! i))"
  assumes "is_heap (its_less mg its) h" and "h \<noteq> []"
  shows "\<exists>h' es. pop_equal mg its h [] = (h', es) \<and> es \<noteq> [] \<and> mset h = mset h' + mset es \<and> is_heap (its_less mg its) h'
    \<and> (\<forall>e \<in> set es. K mg its e = K mg its (hd es)) \<and> (\<forall>j \<in> set h'. K mg its (hd es) < K mg its j)"
proof -
  let ?h = "snd (heap_pop (its_less mg its) h)"
  have ms: "mset h = add_mset (hd h) (mset ?h)" using heap_pop_spec[of h "its_less mg its"] assms(3) by (simp add: hd_conv_nth)
  have "set ?h \<subseteq> set h" using arg_cong[OF ms, of set_mset] by auto
  then have "\<forall>j \<in> set ?h. K mg its (hd h) \<le> K mg its j" using heap_hd_least[OF assms(2)] by (auto simp: K_def)
  then obtain h' es where "pop_equal mg its ?h [hd h] = (h', [hd h] @ es)" "mset ?h = mset h' + mset es" "is_heap (its_less mg its) h'"
      "\<forall>e \<in> set es. K mg its e = K mg its (hd h)" "\<forall>j \<in> set h'. K mg its (hd h) < K mg its j"
    using pop_equal_spec[OF mih.is_heap_pop[OF assms(2)], of "[hd h]" "K mg its (hd h)"] unfolding K_def by auto
  moreover have "pop_equal mg its h [] = pop_equal mg its ?h [hd h]" using assms(3) by (subst pop_equal.simps) (simp add: Let_def)
  ultimately show ?thesis using ms by (intro exI[of _ h'] exI[of _ "hd h # es"]) auto
qed

subsection \<open>What skipDuplicates needs of an iterator, and what it keeps\<close>

text \<open>
  \<open>pos i it seen up\<close>: iterator \<open>it\<close> with index \<open>i\<close> has gone through \<open>seen\<close>, the last entry being the current
  profile, each marked whether it is kept, and \<open>up\<close> is still to come; \<open>fin i it seen\<close>: it is at its end.
\<close>

definition kept_once :: "(nat \<Rightarrow> 'i \<Rightarrow> (pkey \<times> bool) list \<Rightarrow> bool) \<Rightarrow> nat \<Rightarrow> (nat \<Rightarrow> pkey list) \<Rightarrow> 'i list \<Rightarrow> (nat \<Rightarrow> (pkey \<times> bool) list) \<Rightarrow> bool" where
  "kept_once fin n streams its seen \<longleftrightarrow> length its = n \<and> (\<forall>i < n. map fst (seen i) = streams i \<and> fin i (its ! i) (seen i))
     \<and> (\<forall>i < n. \<forall>k \<in> set (streams i). \<exists>!j. j < n \<and> (k, True) \<in> set (seen j))"

locale keep_stream =
  fixes mg :: "'i MergeIterator"
    and pos :: "nat \<Rightarrow> 'i \<Rightarrow> (pkey \<times> bool) list \<Rightarrow> pkey list \<Rightarrow> bool"
    and fin :: "nat \<Rightarrow> 'i \<Rightarrow> (pkey \<times> bool) list \<Rightarrow> bool"
  assumes next_more: "pos i it seen (k # up) \<Longrightarrow> \<exists>it'. mg_Next mg it = (True, it') \<and> pos i it' (seen @ [(k, False)]) up"
    and next_end: "pos i it seen [] \<Longrightarrow> \<exists>it'. mg_Next mg it = (False, it') \<and> fin i it' seen"
    and keeps: "pos i it (seen @ [(k, b)]) up \<Longrightarrow> \<exists>it'. mg_Keep mg it = Some it' \<and> pos i it' (seen @ [(k, True)]) up"
    and at_key: "pos i it (seen @ [(k, b)]) up \<Longrightarrow> pkey (mg_At mg it) = k"
    and closes: "fin i it seen \<Longrightarrow> \<exists>e it'. mg_Close mg it = (e, it') \<and> fin i it' seen \<and> mg_Err mg it' = []"
begin

definition old :: "nat list \<Rightarrow> (nat \<Rightarrow> (pkey \<times> bool) list) \<Rightarrow> nat \<Rightarrow> (pkey \<times> bool) list" where
  "old h seen i = (if i \<in> set h then butlast (seen i) else seen i)"

text \<open>\<open>P\<close> are the iterators that are not in the heap but not at their end either.\<close>

definition sd_shape :: "nat \<Rightarrow> 'i list \<Rightarrow> nat list \<Rightarrow> nat set \<Rightarrow> bool" where
  "sd_shape n its h P \<longleftrightarrow> length its = n \<and> distinct h \<and> set h \<inter> P = {} \<and> set h \<union> P \<subseteq> {..<n} \<and> is_heap (its_less mg its) h"

definition sd_pos :: "nat \<Rightarrow> (nat \<Rightarrow> pkey list) \<Rightarrow> 'i list \<Rightarrow> nat list \<Rightarrow> nat set \<Rightarrow> (nat \<Rightarrow> (pkey \<times> bool) list) \<Rightarrow> (nat \<Rightarrow> pkey list) \<Rightarrow> bool" where
  "sd_pos n streams its h P seen up \<longleftrightarrow>
     (\<forall>i < n. map fst (seen i) @ up i = streams i) \<and> (\<forall>i \<in> set h \<union> P. pos i (its ! i) (seen i) (up i))
     \<and> (\<forall>i \<in> set h. \<exists>k. seen i = old h seen i @ [(k, False)]) \<and> (\<forall>i < n. i \<notin> set h \<union> P \<longrightarrow> up i = [] \<and> fin i (its ! i) (seen i))"

definition sd_kept :: "nat \<Rightarrow> nat list \<Rightarrow> nat set \<Rightarrow> (nat \<Rightarrow> (pkey \<times> bool) list) \<Rightarrow> (nat \<Rightarrow> pkey list) \<Rightarrow> bool" where
  "sd_kept n h P seen up \<longleftrightarrow>
     (\<forall>i < n. \<forall>k \<in> fst ` set (old h seen i). \<exists>!j. j < n \<and> (k, True) \<in> set (old h seen j))
     \<and> (\<forall>j < n. \<forall>k \<in> fst ` set (old h seen j). \<forall>i \<in> set h. k < fst (last (seen i)))
     \<and> (\<forall>j < n. \<forall>k \<in> fst ` set (old h seen j). \<forall>i \<in> P. \<forall>u \<in> set (up i). k < u)"

definition sd_inv :: "nat \<Rightarrow> (nat \<Rightarrow> pkey list) \<Rightarrow> 'i list \<Rightarrow> nat list \<Rightarrow> nat set \<Rightarrow> (nat \<Rightarrow> (pkey \<times> bool) list) \<Rightarrow> (nat \<Rightarrow> pkey list) \<Rightarrow> bool" where
  "sd_inv n streams its h P seen up \<longleftrightarrow> sd_shape n its h P \<and> sd_pos n streams its h P seen up \<and> sd_kept n h P seen up"

lemma sd_invI:
  assumes "length its = n" "distinct h" "set h \<inter> P = {}" "set h \<union> P \<subseteq> {..<n}" "is_heap (its_less mg its) h"
    and "\<And>i. i < n \<Longrightarrow> map fst (seen i) @ up i = streams i" and "\<And>i. i \<in> set h \<union> P \<Longrightarrow> pos i (its ! i) (seen i) (up i)"
    and "\<And>i. i \<in> set h \<Longrightarrow> \<exists>k. seen i = old h seen i @ [(k, False)]"
    and "\<And>i. i < n \<Longrightarrow> i \<notin> set h \<union> P \<Longrightarrow> up i = [] \<and> fin i (its ! i) (seen i)"
    and "\<And>i k. i < n \<Longrightarrow> k \<in> fst ` set (old h seen i) \<Longrightarrow> \<exists>!j. j < n \<and> (k, True) \<in> set (old h seen j)"
    and "\<And>i j k. j < n \<Longrightarrow> k \<in> fst ` set (old h seen j) \<Longrightarrow> i \<in> set h \<Longrightarrow> k < fst (last (seen i))"
    and "\<And>i j k u. j < n \<Longrightarrow> k \<in> fst ` set (old h seen j) \<Longrightarrow> i \<in> P \<Longrightarrow> u \<in> set (up i) \<Longrightarrow> k < u"
  shows "sd_inv n streams its h P seen up"
proof -
  have "sd_shape n its h P" unfolding sd_shape_def using assms(1-5) by (intro conjI)
  moreover have "\<forall>i < n. map fst (seen i) @ up i = streams i" using assms(6) by simp
  moreover have "\<forall>i \<in> set h \<union> P. pos i (its ! i) (seen i) (up i)" using assms(7) by simp
  moreover have "\<forall>i \<in> set h. \<exists>k. seen i = old h seen i @ [(k, False)]" using assms(8) by (rule ballI)
  moreover have "\<forall>i < n. i \<notin> set h \<union> P \<longrightarrow> up i = [] \<and> fin i (its ! i) (seen i)" using assms(9) by (intro allI impI)
  moreover have "\<forall>i < n. \<forall>k \<in> fst ` set (old h seen i). \<exists>!j. j < n \<and> (k, True) \<in> set (old h seen j)" using assms(10) by (intro allI ballI impI)
  moreover have "\<forall>j < n. \<forall>k \<in> fst ` set (old h seen j). \<forall>i \<in> set h. k < fst (last (seen i))" using assms(11) by (intro allI ballI impI)
  moreover have "\<forall>j < n. \<forall>k \<in> fst ` set (old h seen j). \<forall>i \<in> P. \<forall>u \<in> set (up i). k < u" using assms(12) by (intro allI ballI impI)
  ultimately show ?thesis unfolding sd_inv_def sd_pos_def sd_kept_def by (intro conjI)
qed

lemma sd_invD:
  assumes "sd_inv n streams its h P seen up"
  shows "length its = n" "distinct h" "set h \<inter> P = {}" "set h \<union> P \<subseteq> {..<n}" "is_heap (its_less mg its) h"
    and "\<And>i. i < n \<Longrightarrow> map fst (seen i) @ up i = streams i" and "\<And>i. i \<in> set h \<union> P \<Longrightarrow> pos i (its ! i) (seen i) (up i)"
    and "\<And>i. i \<in> set h \<Longrightarrow> \<exists>k. seen i = old h seen i @ [(k, False)]"
    and "\<And>i. i < n \<Longrightarrow> i \<notin> set h \<union> P \<Longrightarrow> up i = [] \<and> fin i (its ! i) (seen i)"
    and "\<And>i k. i < n \<Longrightarrow> k \<in> fst ` set (old h seen i) \<Longrightarrow> \<exists>!j. j < n \<and> (k, True) \<in> set (old h seen j)"
    and "\<And>i j k. j < n \<Longrightarrow> k \<in> fst ` set (old h seen j) \<Longrightarrow> i \<in> set h \<Longrightarrow> k < fst (last (seen i))"
    and "\<And>i j k u. j < n \<Longrightarrow> k \<in> fst ` set (old h seen j) \<Longrightarrow> i \<in> P \<Longrightarrow> u \<in> set (up i) \<Longrightarrow> k < u"
proof -
  have a: "sd_shape n its h P" "sd_pos n streams its h P seen up" "sd_kept n h P seen up" using assms by (simp_all add: sd_inv_def)
  show "length its = n" "distinct h" "set h \<inter> P = {}" "set h \<union> P \<subseteq> {..<n}" "is_heap (its_less mg its) h" using a(1) unfolding sd_shape_def by blast+
  show "\<And>i. i < n \<Longrightarrow> map fst (seen i) @ up i = streams i" "\<And>i. i \<in> set h \<union> P \<Longrightarrow> pos i (its ! i) (seen i) (up i)"
    "\<And>i. i \<in> set h \<Longrightarrow> \<exists>k. seen i = old h seen i @ [(k, False)]"
    "\<And>i. i < n \<Longrightarrow> i \<notin> set h \<union> P \<Longrightarrow> up i = [] \<and> fin i (its ! i) (seen i)" using a(2) unfolding sd_pos_def by blast+
  show "\<And>i k. i < n \<Longrightarrow> k \<in> fst ` set (old h seen i) \<Longrightarrow> \<exists>!j. j < n \<and> (k, True) \<in> set (old h seen j)"
    "\<And>i j k. j < n \<Longrightarrow> k \<in> fst ` set (old h seen j) \<Longrightarrow> i \<in> set h \<Longrightarrow> k < fst (last (seen i))"
    "\<And>i j k u. j < n \<Longrightarrow> k \<in> fst ` set (old h seen j) \<Longrightarrow> i \<in> P \<Longrightarrow> u \<in> set (up i) \<Longrightarrow> k < u" using a(3) unfolding sd_kept_def by blast+
qed

lemma sd_inv_last: "sd_inv n streams its h P seen up \<Longrightarrow> i \<in> set h \<Longrightarrow> seen i = old h seen i @ [(fst (last (seen i)), False)]"
proof -
  assume a: "sd_inv n streams its h P seen up" "i \<in> set h"
  obtain k where k: "seen i = old h seen i @ [(k, False)]" using sd_invD(8)[OF a] by blast
  have "fst (last (seen i)) = k" by (subst k) simp
  then show ?thesis using k by (rule ssubst)
qed

lemma sd_inv_key: "sd_inv n streams its h P seen up \<Longrightarrow> i \<in> set h \<Longrightarrow> pkey (mg_At mg (its ! i)) = fst (last (seen i))"
proof -
  assume a: "sd_inv n streams its h P seen up" "i \<in> set h"
  have "pos i (its ! i) (old h seen i @ [(fst (last (seen i)), False)]) (up i)"
    using sd_invD(7)[OF a(1), of i] a(2) sd_inv_last[OF a] by simp
  then show ?thesis by (rule at_key)
qed

lemma sum_upd: "i < (n :: nat) \<Longrightarrow> up i = u # us \<Longrightarrow> (\<Sum>j<n. length ((up(i := us)) j)) + 1 = (\<Sum>j<n. length (up j))"
  by (simp add: sum.remove[of "{..<n}" i])

lemma heap_other: "is_heap (its_less mg its) h \<Longrightarrow> i \<notin> set h \<Longrightarrow> is_heap (its_less mg (its[i := x])) h"
  using is_heap_cong_its[of h "its[i := x]" its mg] by (metis nth_list_update_neq)

lemma requeue_end:
  assumes inv: "sd_inv n streams its h P seen up" and i: "i \<in> P" and "up i = []" and "fin i ei (seen i)"
  shows "sd_inv n streams (its[i := ei]) h (P - {i}) seen up"
proof (rule sd_invI)
  have n: "i < n" "length its = n" "i \<notin> set h" using sd_invD(1,3,4)[OF inv] i by auto
  show "length (its[i := ei]) = n" "distinct h" "set h \<inter> (P - {i}) = {}" "set h \<union> (P - {i}) \<subseteq> {..<n}" using sd_invD(1-4)[OF inv] by auto
  show "is_heap (its_less mg (its[i := ei])) h" using heap_other sd_invD(5)[OF inv] n(3) by blast
  show "pos j (its[i := ei] ! j) (seen j) (up j)" if "j \<in> set h \<union> (P - {i})" for j using sd_invD(7)[OF inv, of j] that n(3) by (cases "j = i") auto
  show "up j = [] \<and> fin j (its[i := ei] ! j) (seen j)" if "j < n" "j \<notin> set h \<union> (P - {i})" for j
    using sd_invD(9)[OF inv, of j] that n(2) assms(3,4) by (cases "j = i") auto
  show "k < u" if "j < n" "k \<in> fst ` set (old h seen j)" "l \<in> P - {i}" "u \<in> set (up l)" for j k l u using sd_invD(12)[OF inv, of j k l u] that by simp
qed (rule sd_invD[OF inv]; assumption)+

lemma requeue_push:
  assumes inv: "sd_inv n streams its h P seen up" and i: "i \<in> P" and up: "up i = u # us" and p: "pos i ei (seen i @ [(u, False)]) us"
  shows "sd_inv n streams (its[i := ei]) (heap_push (its_less mg (its[i := ei])) h i) (P - {i}) (seen(i := seen i @ [(u, False)])) (up(i := us))"
    (is "sd_inv n streams ?its ?h ?P ?seen ?up")
proof (rule sd_invI)
  have n: "i < n" "length its = n" "i \<notin> set h" using sd_invD(1,3,4)[OF inv] i by auto
  have st: "set ?h = insert i (set h)" using arg_cong[OF mset_heap_push, of set_mset "its_less mg ?its" h i] by simp
  have old: "old ?h ?seen = old h seen" using n(3) by (auto simp: old_def st fun_eq_iff)
  show "length ?its = n" "set ?h \<inter> ?P = {}" "set ?h \<union> ?P \<subseteq> {..<n}" using sd_invD(1-4)[OF inv] n st by auto
  show "distinct ?h" using mset_eq_imp_distinct_iff[of ?h "i # h"] mset_heap_push[of "its_less mg ?its" h i] sd_invD(2)[OF inv] n(3) by simp
  show "is_heap (its_less mg ?its) ?h" using mih.is_heap_push heap_other sd_invD(5)[OF inv] n(3) by blast
  show "map fst (?seen j) @ ?up j = streams j" if "j < n" for j using sd_invD(6)[OF inv, of j] that up by auto
  show "pos j (?its ! j) (?seen j) (?up j)" if "j \<in> set ?h \<union> ?P" for j
    using sd_invD(7)[OF inv, of j] that n p st by (cases "j = i") auto
  show "\<exists>k. ?seen j = old ?h ?seen j @ [(k, False)]" if "j \<in> set ?h" for j
    unfolding old using sd_invD(8)[OF inv, of j] that n(3) st by (cases "j = i") (auto simp: old_def)
  show "?up j = [] \<and> fin j (?its ! j) (?seen j)" if "j < n" "j \<notin> set ?h \<union> ?P" for j
    using sd_invD(9)[OF inv, of j] that st by auto
  show "\<exists>!j. j < n \<and> (k, True) \<in> set (old ?h ?seen j)" if "j < n" "k \<in> fst ` set (old ?h ?seen j)" for j k
    using sd_invD(10)[OF inv] that unfolding old by blast
  show "k < fst (last (?seen j))" if "l < n" "k \<in> fst ` set (old ?h ?seen l)" "j \<in> set ?h" for l k j
    using sd_invD(11)[OF inv, of l k j] sd_invD(12)[OF inv, of l k i u] that i up unfolding old st by auto
  show "k < v" if "l < n" "k \<in> fst ` set (old ?h ?seen l)" "j \<in> ?P" "v \<in> set (?up j)" for l k j v
    using sd_invD(12)[OF inv, of l k j v] that unfolding old by auto
qed

lemma requeue_one_ok:
  assumes inv: "sd_inv n streams its h P seen up" and i: "i \<in> P"
  shows "\<exists>its' h' seen' up'. requeue_one mg i ([], its, h) = ([], its', h') \<and> sd_inv n streams its' h' (P - {i}) seen' up'
    \<and> (\<Sum>j<n. length (up' j)) + length h' = (\<Sum>j<n. length (up j)) + length h"
proof -
  have n: "i < n" using sd_invD(4)[OF inv] i by auto
  have p: "pos i (its ! i) (seen i) (up i)" using sd_invD(7)[OF inv] i by auto
  show ?thesis
  proof (cases "up i")
    case Nil
    then obtain ei where ei: "mg_Next mg (its ! i) = (False, ei)" "fin i ei (seen i)" using next_end p by fastforce
    then obtain e ei' where c: "mg_Close mg ei = (e, ei')" "fin i ei' (seen i)" "mg_Err mg ei' = []" using closes by blast
    have "requeue_one mg i ([], its, h) = ([], its[i := ei'], h)" using ei c by (simp add: requeue_one_def)
    then show ?thesis using requeue_end[OF inv i Nil c(2)] by blast
  next
    case (Cons u us)
    then obtain ei where ei: "mg_Next mg (its ! i) = (True, ei)" "pos i ei (seen i @ [(u, False)]) us" using next_more p by fastforce
    have "requeue_one mg i ([], its, h) = ([], its[i := ei], heap_push (its_less mg (its[i := ei])) h i)" using ei by (simp add: requeue_one_def)
    moreover have "(\<Sum>j<n. length ((up(i := us)) j)) + length (heap_push (its_less mg (its[i := ei])) h i) = (\<Sum>j<n. length (up j)) + length h"
      using sum_upd[where up = up, OF n Cons] by simp
    ultimately show ?thesis using requeue_push[OF inv i Cons ei(2)] by blast
  qed
qed

lemma requeue_stream_ok:
  assumes "sd_inv n streams its h P seen up" and "distinct eis" and "set eis \<subseteq> P"
  shows "\<exists>its' h' seen' up'. fold (requeue_one mg) eis ([], its, h) = ([], its', h') \<and> sd_inv n streams its' h' (P - set eis) seen' up'
    \<and> (\<Sum>j<n. length (up' j)) + length h' = (\<Sum>j<n. length (up j)) + length h"
  using assms
proof (induction eis arbitrary: its h P seen up)
  case (Cons i eis)
  obtain its1 h1 seen1 up1 where 1: "requeue_one mg i ([], its, h) = ([], its1, h1)" "sd_inv n streams its1 h1 (P - {i}) seen1 up1"
      "(\<Sum>j<n. length (up1 j)) + length h1 = (\<Sum>j<n. length (up j)) + length h"
    using requeue_one_ok[OF Cons.prems(1), of i] Cons.prems(3) by auto
  have "distinct eis" "set eis \<subseteq> P - {i}" using Cons.prems(2,3) by auto
  from Cons.IH[OF 1(2) this] obtain its2 h2 seen2 up2 where 2: "fold (requeue_one mg) eis ([], its1, h1) = ([], its2, h2)" "sd_inv n streams its2 h2 (P - {i} - set eis) seen2 up2"
      "(\<Sum>j<n. length (up2 j)) + length h2 = (\<Sum>j<n. length (up1 j)) + length h1" by blast
  have "P - {i} - set eis = P - set (i # eis)" by auto
  then show ?case using 1 2 by (intro exI[of _ its2] exI[of _ h2] exI[of _ seen2] exI[of _ up2]) simp
qed auto

lemma keep_step:
  assumes inv: "sd_inv n streams its h {} seen up" and srt: "\<forall>i < n. sorted_wrt (<) (streams i)"
    and es: "es \<noteq> []" "mset h = mset h' + mset es" "is_heap (its_less mg its) h'"
    and key: "\<forall>i \<in> set es. pkey (mg_At mg (its ! i)) = m" and above: "\<forall>i \<in> set h'. m < pkey (mg_At mg (its ! i))"
  shows "\<exists>it'. mg_Keep mg (its ! hd es) = Some it'
    \<and> sd_inv n streams (its[hd es := it']) h' (set es) (seen(hd es := old h seen (hd es) @ [(m, True)])) up"
proof -
  have d: "distinct (h' @ es)" using mset_eq_imp_distinct_iff[of h "h' @ es"] es(2) sd_invD(2)[OF inv] by simp
  have st: "set h = set h' \<union> set es" using arg_cong[OF es(2), of set_mset] by simp
  let ?e = "hd es"
  have e: "?e \<in> set es" "?e \<in> set h" "?e \<notin> set h'" "?e < n" using es(1) d st sd_invD(4)[OF inv] by (auto simp: disjoint_iff)
  have m: "fst (last (seen i)) = m" if "i \<in> set es" for i using sd_inv_key[OF inv, of i] key that st by simp
  have last: "seen i = old h seen i @ [(m, False)]" if "i \<in> set es" for i using sd_inv_last[OF inv, of i] m[OF that] that st by simp
  have "pos ?e (its ! ?e) (old h seen ?e @ [(m, False)]) (up ?e)" using sd_invD(7)[OF inv, of ?e] e(2) last[OF e(1)] by simp
  from keeps[OF this] obtain it' where it': "mg_Keep mg (its ! ?e) = Some it'" "pos ?e it' (old h seen ?e @ [(m, True)]) (up ?e)" by blast
  let ?its = "its[?e := it']" and ?seen = "seen(?e := old h seen ?e @ [(m, True)])"
  have old: "old h' ?seen i = old h seen i @ (if i \<in> set es then [(m, i = ?e)] else [])" for i
  proof (cases "i \<in> set es")
    case True
    then have "i \<notin> set h'" using d by auto
    then show ?thesis using True last[OF True] by (auto simp: old_def[of h'])
  next
    case False
    then show ?thesis using e st by (auto simp: old_def)
  qed
  have older: "k < m" if "j < n" "k \<in> fst ` set (old h seen j)" for j k using sd_invD(11)[OF inv that e(2)] m[OF e(1)] by simp
  have "sd_inv n streams ?its h' (set es) ?seen up"
  proof (rule sd_invI)
    show "length ?its = n" "distinct h'" "set h' \<inter> set es = {}" "set h' \<union> set es \<subseteq> {..<n}" using sd_invD(1,4)[OF inv] d st by auto
    show "is_heap (its_less mg ?its) h'" using heap_other es(3) e(3) by blast
    show "map fst (?seen i) @ up i = streams i" if "i < n" for i using sd_invD(6)[OF inv that] last[OF e(1)] by (cases "i = ?e") auto
    show "pos i (?its ! i) (?seen i) (up i)" if "i \<in> set h' \<union> set es" for i
      using sd_invD(7)[OF inv, of i] sd_invD(1)[OF inv] that st it'(2) e(4) by (cases "i = ?e") auto
    show "\<exists>k. ?seen i = old h' ?seen i @ [(k, False)]" if "i \<in> set h'" for i
    proof -
      have "i \<in> set h" "i \<notin> set es" "i \<noteq> ?e" using that d st e by auto
      then show ?thesis using sd_inv_last[OF inv, of i] unfolding old by (intro exI[of _ "fst (last (seen i))"]) simp
    qed
    show "up i = [] \<and> fin i (?its ! i) (?seen i)" if "i < n" "i \<notin> set h' \<union> set es" for i
      using sd_invD(9)[OF inv that(1)] that(2) st e(1) by auto
    show "\<exists>!j. j < n \<and> (k, True) \<in> set (old h' ?seen j)" if i: "i < n" and k: "k \<in> fst ` set (old h' ?seen i)" for i k
    proof (cases "k = m")
      case True
      have "(m, True) \<notin> set (old h seen j)" if "j < n" for j using older[OF that, of m] by force
      then show ?thesis unfolding old True using e(1,4) by (intro ex1I[of _ ?e]) (auto split: if_splits)
    next
      case False
      then have "k \<in> fst ` set (old h seen i)" using k unfolding old by (auto split: if_splits)
      from sd_invD(10)[OF inv i this] show ?thesis using False unfolding old by (auto split: if_splits)
    qed
    show "k < fst (last (?seen i))" if "j < n" "k \<in> fst ` set (old h' ?seen j)" "i \<in> set h'" for i j k
    proof -
      have "i \<in> set h" "i \<noteq> ?e" using that(3) st e(3) by auto
      then have "m < fst (last (?seen i))" using bspec[OF above that(3)] sd_inv_key[OF inv, of i] by simp
      moreover have "k \<le> m" using older[OF that(1)] that(2) unfolding old by (force split: if_splits)
      ultimately show ?thesis by simp
    qed
    show "k < u" if "j < n" "k \<in> fst ` set (old h' ?seen j)" "i \<in> set es" "u \<in> set (up i)" for i j k u
    proof -
      have "i < n" using that(3) st sd_invD(4)[OF inv] by auto
      then have "sorted_wrt (<) (map fst (seen i) @ up i)" using srt sd_invD(6)[OF inv] by simp
      then have "m < u" using last[OF that(3)] that(4) by (simp add: sorted_wrt_append)
      moreover have "k \<le> m" using older[OF that(1)] that(2) unfolding old by (force split: if_splits)
      ultimately show ?thesis by simp
    qed
  qed
  then show ?thesis using it'(1) by blast
qed

lemma heap_push_Nil: "heap_push lt [] i = [i]"
  by (simp add: heap_push_def heap_up.simps)

lemma sd_inv_done: "sd_inv n streams its [] {} seen up \<Longrightarrow> kept_once fin n streams its seen"
proof -
  assume inv: "sd_inv n streams its [] {} seen up"
  have old: "old [] seen = seen" by (simp add: old_def fun_eq_iff)
  have up: "up i = [] \<and> fin i (its ! i) (seen i)" if "i < n" for i using sd_invD(9)[OF inv that] by simp
  have fst: "map fst (seen i) = streams i" if "i < n" for i using sd_invD(6)[OF inv that] up[OF that] by simp
  have "\<exists>!j. j < n \<and> (k, True) \<in> set (seen j)" if "i < n" "k \<in> set (streams i)" for i k
    using sd_invD(10)[OF inv that(1), of k] that(2) fst[OF that(1), symmetric] unfolding old by simp
  then show ?thesis unfolding kept_once_def using sd_invD(1)[OF inv] fst up by blast
qed

lemma skip_loop_ok:
  assumes "sd_inv n streams its h {} seen up" and srt: "\<forall>i < n. sorted_wrt (<) (streams i)" and sched: "\<forall>c xs. mset (sched c xs) = mset xs"
  shows "\<exists>its' seen'. skip_loop mg sched c its h = Some ([], its') \<and> kept_once fin n streams its' seen'"
  using assms(1)
proof (induction "(\<Sum>j<n. length (up j)) + length h" arbitrary: its h seen up c rule: less_induct)
  case less
  note inv = less.prems
  consider "h = []" | i where "h = [i]" | "length h \<ge> 2" by (cases h rule: remdups_adj.cases) auto
  then show ?case
  proof cases
    case 1
    then have "kept_once fin n streams its seen" using sd_inv_done inv by simp
    then show ?thesis using 1 by (subst skip_loop.simps) auto
  next
    case (2 i)
    obtain it where it: "mg_Keep mg (its ! i) = Some it"
        "sd_inv n streams (its[i := it]) [] {i} (seen(i := old h seen i @ [(pkey (mg_At mg (its ! i)), True)])) up" (is "sd_inv _ _ ?its _ _ ?seen _")
      using keep_step[OF inv srt, of "[i]" "[]" "pkey (mg_At mg (its ! i))"] 2 by (auto simp: is_heap_def)
    have n: "i < n" "length its = n" using sd_invD(1,4)[OF it(2)] by auto
    then have p: "pos i it (?seen i) (up i)" using sd_invD(7)[OF it(2), of i] by simp
    show ?thesis
    proof (cases "up i")
      case Nil
      then obtain it' where it': "mg_Next mg it = (False, it')" "fin i it' (?seen i)" using next_end p by fastforce
      have "sd_inv n streams (its[i := it']) [] {} ?seen up" using requeue_end[OF it(2) _ Nil it'(2)] by (simp only: list_update_overwrite Diff_cancel singletonI)
      from less.hyps[OF _ this] show ?thesis using 2 it(1) it'(1) by (subst skip_loop.simps) simp
    next
      case (Cons u us)
      then obtain it' where it': "mg_Next mg it = (True, it')" "pos i it' (?seen i @ [(u, False)]) us" using next_more p by fastforce
      have s: "sd_inv n streams (its[i := it']) [i] {} (?seen(i := ?seen i @ [(u, False)])) (up(i := us))"
        using requeue_push[OF it(2) _ Cons it'(2)] by (simp only: list_update_overwrite Diff_cancel singletonI heap_push_Nil)
      have "(\<Sum>j<n. length ((up(i := us)) j)) + length [i] < (\<Sum>j<n. length (up j)) + length h" using sum_upd[where up = up, OF n(1) Cons] 2 by simp
      from less.hyps[OF this s] show ?thesis using 2 it(1) it'(1) by (subst skip_loop.simps) simp
    qed
  next
    case 3
    then have "h \<noteq> []" by auto
    obtain h' es where pop: "pop_equal mg its h [] = (h', es)" "es \<noteq> []" "mset h = mset h' + mset es" "is_heap (its_less mg its) h'"
        "\<forall>e \<in> set es. pkey (mg_At mg (its ! e)) = pkey (mg_At mg (its ! hd es))" "\<forall>j \<in> set h'. pkey (mg_At mg (its ! hd es)) < pkey (mg_At mg (its ! j))"
      using pop_equal_first[OF sd_invD(5)[OF inv] \<open>h \<noteq> []\<close>] by blast
    obtain it where it: "mg_Keep mg (its ! hd es) = Some it"
        "sd_inv n streams (its[hd es := it]) h' (set es) (seen(hd es := old h seen (hd es) @ [(pkey (mg_At mg (its ! hd es)), True)])) up"
      using keep_step[OF inv srt pop(2-6)] by blast
    have "distinct es" using mset_eq_imp_distinct_iff[of h "h' @ es"] pop(3) sd_invD(2)[OF inv] by simp
    then have "distinct (sched c es)" "set (sched c es) = set es" using sched by (metis mset_eq_imp_distinct_iff, metis mset_eq_setD)
    then obtain its2 h2 seen2 up2 where req: "fold (requeue_one mg) (sched c es) ([], its[hd es := it], h') = ([], its2, h2)" "sd_inv n streams its2 h2 {} seen2 up2"
        "(\<Sum>j<n. length (up2 j)) + length h2 = (\<Sum>j<n. length (up j)) + length h'"
      using requeue_stream_ok[OF it(2), of "sched c es"] by (metis Diff_cancel subset_refl)
    have "length h = length h' + length es" using arg_cong[OF pop(3), of size] by simp
    then have "(\<Sum>j<n. length (up2 j)) + length h2 < (\<Sum>j<n. length (up j)) + length h" using req(3) pop(2) by simp
    from less.hyps[OF this req(2)] show ?thesis using 3 pop(1) it(1) req(1) by (subst skip_loop.simps) (auto simp: requeueAsync_def)
  qed
qed

lemma skipDuplicates_ok:
  assumes "\<forall>i < length its. pos i (its ! i) [] (streams i)" and "\<forall>i < length its. sorted_wrt (<) (streams i)" and sched: "\<forall>c xs. mset (sched c xs) = mset xs"
  shows "\<exists>its' seen. skipDuplicates mg sched its = Some ([], its') \<and> kept_once fin (length its) streams its' seen"
proof -
  let ?n = "length its"
  have inv: "sd_inv ?n streams its [] {..<?n} (\<lambda>i. []) streams"
    by (rule sd_invI) (use assms in \<open>auto simp: is_heap_def old_def\<close>)
  have "distinct (sched 0 [0..<?n])" "set (sched 0 [0..<?n]) = {..<?n}"
    using sched mset_eq_imp_distinct_iff[of "sched 0 [0..<?n]" "[0..<?n]"] mset_eq_setD[of "sched 0 [0..<?n]" "[0..<?n]"] by auto
  then obtain its2 h2 seen2 up2 where req: "fold (requeue_one mg) (sched 0 [0..<?n]) ([], its, []) = ([], its2, h2)" "sd_inv ?n streams its2 h2 {} seen2 up2"
    using requeue_stream_ok[OF inv, of "sched 0 [0..<?n]"] by auto
  from skip_loop_ok[OF req(2) assms(2) sched, of 1] show ?thesis using req(1) by (simp add: skipDuplicates_def requeueAsync_def)
qed

end

subsection \<open>The conversation with an ingester\<close>

text \<open>
  An ingester that serves the batches \<open>cs\<close>: it sends them one after the other, accepts any selection of
  a batch before it sends the next, and ends with an answer without profiles.  \<open>told bd b ks b'\<close>: the
  connection went from \<open>b\<close> to \<open>b'\<close> by receiving batches and sending the selections \<open>ks\<close>.
\<close>

fun serving :: "('b, 'r) BidiClientMerge \<Rightarrow> 'b \<Rightarrow> ProfileSets list \<Rightarrow> bool" where
  "serving bd b [] \<longleftrightarrow> (\<exists>sel r b'. bd_Receive bd b = (Inr (sel, r), b') \<and> (\<forall>c. sel = Some c \<longrightarrow> ps_Profiles c = []))"
| "serving bd b (c # cs) \<longleftrightarrow> ps_Profiles c \<noteq> [] \<and> (\<exists>r b1. bd_Receive bd b = (Inr (Some c, r), b1)
     \<and> (\<forall>ks. length ks = length (ps_Profiles c) \<longrightarrow> (\<exists>b2. bd_Send bd ks b1 = ([], b2) \<and> serving bd b2 cs)))"

fun told :: "('b, 'r) BidiClientMerge \<Rightarrow> 'b \<Rightarrow> bool list list \<Rightarrow> 'b \<Rightarrow> bool" where
  "told bd b [] b' \<longleftrightarrow> b' = b"
| "told bd b (k # ks) b' \<longleftrightarrow> (\<exists>c r b1 b2. bd_Receive bd b = (Inr (Some c, r), b1) \<and> bd_Send bd k b1 = ([], b2) \<and> told bd b2 ks b')"

lemma told_append: "told bd b (ks @ ls) b' \<longleftrightarrow> (\<exists>b1. told bd b ks b1 \<and> told bd b1 ls b')"
  by (induction ks arbitrary: b) auto

definition set_keys :: "ProfileSets \<Rightarrow> pkey list" where
  "set_keys c = map (\<lambda>p. pkey (profile_at [] c p)) (ps_Profiles c)"

lemma length_set_keys [simp]: "length (set_keys c) = length (ps_Profiles c)"
  by (simp add: set_keys_def)

lemma pkey_addr: "pkey (profile_at a c p) = pkey (profile_at [] c p)"
  by (simp add: profile_at_def profile_key_def)

text \<open>The profiles of the batches \<open>cs\<close>, each with whether the selections \<open>ks\<close> keep it.\<close>

definition marks :: "ProfileSets list \<Rightarrow> bool list list \<Rightarrow> (pkey \<times> bool) list" where
  "marks cs ks = concat (map2 (\<lambda>c k. zip (set_keys c) k) cs ks)"

abbreviation fits :: "ProfileSets list \<Rightarrow> bool list list \<Rightarrow> bool" where
  "fits \<equiv> list_all2 (\<lambda>c k. length k = length (ps_Profiles c))"

lemma marks_snoc: "fits cs ks \<Longrightarrow> marks (cs @ [c]) (ks @ [k]) = marks cs ks @ zip (set_keys c) k"
  by (simp add: marks_def list_all2_lengthD zip_append)

definition in_batch :: "('b, 'r) BidiClientMerge \<Rightarrow> 'b \<Rightarrow> ProfileSets list \<Rightarrow> 'b mergeIterator \<Rightarrow> (pkey \<times> bool) list \<Rightarrow> pkey list \<Rightarrow>
    ProfileSets list \<Rightarrow> bool list list \<Rightarrow> ProfileSets \<Rightarrow> ProfileSets list \<Rightarrow> bool" where
  "in_batch bd b0 cs it seen up don ks c left \<longleftrightarrow> cs = don @ c # left \<and> fits don ks \<and> mi_curr it = Some c \<and> \<not> mi_keepSent it \<and> mi_err it = []
     \<and> mi_currIdx it < length (ps_Profiles c) \<and> length (mi_keep it) = length (ps_Profiles c)
     \<and> (\<forall>j. mi_currIdx it < j \<and> j < length (ps_Profiles c) \<longrightarrow> \<not> mi_keep it ! j)
     \<and> seen = marks don ks @ take (Suc (mi_currIdx it)) (zip (set_keys c) (mi_keep it))
     \<and> up = drop (Suc (mi_currIdx it)) (set_keys c) @ concat (map set_keys left)
     \<and> (\<exists>b1 r. told bd b0 ks b1 \<and> bd_Receive bd b1 = (Inr (Some c, r), mi_bidi it))
     \<and> (\<forall>k. length k = length (ps_Profiles c) \<longrightarrow> (\<exists>b2. bd_Send bd k (mi_bidi it) = ([], b2) \<and> serving bd b2 left))"

definition mpos :: "('b, 'r) BidiClientMerge \<Rightarrow> 'b list \<Rightarrow> ProfileSets list list \<Rightarrow> nat \<Rightarrow> 'b mergeIterator \<Rightarrow> (pkey \<times> bool) list \<Rightarrow> pkey list \<Rightarrow> bool" where
  "mpos bd bs css i it seen up \<longleftrightarrow>
     (mi_curr it = None \<and> mi_keepSent it \<and> mi_err it = [] \<and> mi_bidi it = bs ! i \<and> serving bd (bs ! i) (css ! i) \<and> seen = [] \<and> up = concat (map set_keys (css ! i)))
     \<or> (\<exists>don ks c left. in_batch bd (bs ! i) (css ! i) it seen up don ks c left)"

definition mfin :: "('b, 'r) BidiClientMerge \<Rightarrow> 'b list \<Rightarrow> ProfileSets list list \<Rightarrow> nat \<Rightarrow> 'b mergeIterator \<Rightarrow> (pkey \<times> bool) list \<Rightarrow> bool" where
  "mfin bd bs css i it seen \<longleftrightarrow> mi_err it = [] \<and> (\<exists>ks b1. fits (css ! i) ks \<and> seen = marks (css ! i) ks \<and> told bd (bs ! i) ks b1)"

lemma concat_keys_Nil: "serving bd b cs \<Longrightarrow> concat (map set_keys cs) = [] \<Longrightarrow> cs = []"
  by (cases cs) (auto simp: set_keys_def)

lemma next_batch_end: "serving bd (mi_bidi s) [] \<Longrightarrow> mi_err s = [] \<Longrightarrow> \<exists>s'. next_batch bd s = (False, s') \<and> mi_err s' = []"
proof -
  assume a: "serving bd (mi_bidi s) []" "mi_err s = []"
  then obtain sel r b' where r: "bd_Receive bd (mi_bidi s) = (Inr (sel, r), b')" "\<forall>c. sel = Some c \<longrightarrow> ps_Profiles c = []" by (auto simp only: serving.simps)
  then show ?thesis using a(2) by (cases sel) (simp_all add: next_batch_def)
qed

lemma next_batch_more:
  assumes "serving bd (mi_bidi s) (c # left)" and "mi_err s = []" and "cs = don @ c # left" and "fits don ks" and "told bd b0 ks (mi_bidi s)"
    and "seen = marks don ks" and "up = concat (map set_keys (c # left))"
  shows "\<exists>s' k up'. next_batch bd s = (True, s') \<and> up = k # up' \<and> in_batch bd b0 cs s' (seen @ [(k, False)]) up' don ks c left"
proof -
  obtain r b1 where r: "ps_Profiles c \<noteq> []" "bd_Receive bd (mi_bidi s) = (Inr (Some c, r), b1)"
      "\<forall>ks. length ks = length (ps_Profiles c) \<longrightarrow> (\<exists>b2. bd_Send bd ks b1 = ([], b2) \<and> serving bd b2 left)" using assms(1) by auto
  let ?s = "s\<lparr>mi_bidi := b1, mi_curr := Some c, mi_currIdx := 0, mi_keep := replicate (length (ps_Profiles c)) False, mi_keepSent := False\<rparr>"
  have "next_batch bd s = (True, ?s)" using r(1,2) by (simp add: next_batch_def)
  moreover obtain k kk where k: "set_keys c = k # kk" using r(1) by (cases "set_keys c") (auto simp: set_keys_def)
  moreover obtain m where m: "length (ps_Profiles c) = Suc m" using r(1) by (cases "length (ps_Profiles c)") auto
  have "in_batch bd b0 cs ?s (seen @ [(k, False)]) (kk @ concat (map set_keys left)) don ks c left"
  proof -
    have "take (Suc 0) (zip (set_keys c) (replicate (length (ps_Profiles c)) False)) = [(k, False)]" using k m by simp
    moreover have "\<exists>b1' r. told bd b0 ks b1' \<and> bd_Receive bd b1' = (Inr (Some c, r), b1)"
      using assms(5) r(2) by (intro exI[of _ "mi_bidi s"] exI[of _ r] conjI)
    moreover have "\<forall>j. 0 < j \<and> j < length (ps_Profiles c) \<longrightarrow> \<not> replicate (length (ps_Profiles c)) False ! j" by simp
    ultimately show ?thesis unfolding in_batch_def using assms(2,3,4,6) r(3) k m by (simp del: replicate.simps)
  qed
  ultimately show ?thesis using assms(7) by (intro exI[of _ ?s] exI[of _ k] exI[of _ "kk @ concat (map set_keys left)"]) simp
qed

lemma in_batch_next:
  assumes "in_batch bd b0 cs it seen (k # up) don ks c left" and "Suc (mi_currIdx it) < length (ps_Profiles c)"
  shows "in_batch bd b0 cs (it\<lparr>mi_currIdx := Suc (mi_currIdx it)\<rparr>) (seen @ [(k, False)]) up don ks c left"
proof -
  let ?i = "mi_currIdx it"
  have len: "length (mi_keep it) = length (ps_Profiles c)" and nk: "\<not> mi_keep it ! Suc ?i" using assms by (auto simp: in_batch_def)
  have "drop (Suc ?i) (set_keys c) = set_keys c ! Suc ?i # drop (Suc (Suc ?i)) (set_keys c)" using assms(2) by (simp add: Cons_nth_drop_Suc)
  then have "k = set_keys c ! Suc ?i" "up = drop (Suc (Suc ?i)) (set_keys c) @ concat (map set_keys left)" using assms(1) unfolding in_batch_def by auto
  moreover have "take (Suc (Suc ?i)) (zip (set_keys c) (mi_keep it)) = take (Suc ?i) (zip (set_keys c) (mi_keep it)) @ [(set_keys c ! Suc ?i, False)]"
    using assms(2) len nk by (simp add: take_Suc_conv_app_nth)
  ultimately show ?thesis using assms unfolding in_batch_def by (auto simp del: take_Suc_Cons)
qed

lemma in_batch_last:
  assumes "in_batch bd b0 cs it seen up don ks c left" and "\<not> Suc (mi_currIdx it) < length (ps_Profiles c)"
  shows "\<exists>b2. bd_Send bd (mi_keep it) (mi_bidi it) = ([], b2) \<and> serving bd b2 left \<and> told bd b0 (ks @ [mi_keep it]) b2
    \<and> fits (don @ [c]) (ks @ [mi_keep it]) \<and> seen = marks (don @ [c]) (ks @ [mi_keep it]) \<and> up = concat (map set_keys left)"
proof -
  have i: "Suc (mi_currIdx it) = length (ps_Profiles c)" and len: "length (mi_keep it) = length (ps_Profiles c)" and fit: "fits don ks"
    using assms by (auto simp: in_batch_def)
  obtain b2 where b2: "bd_Send bd (mi_keep it) (mi_bidi it) = ([], b2)" "serving bd b2 left" using assms(1) len unfolding in_batch_def by blast
  obtain b1 r where "told bd b0 ks b1" "bd_Receive bd b1 = (Inr (Some c, r), mi_bidi it)" using assms(1) unfolding in_batch_def by blast
  then have "told bd b0 (ks @ [mi_keep it]) b2" using b2(1) unfolding told_append told.simps by blast
  moreover have "seen = marks (don @ [c]) (ks @ [mi_keep it])" "up = concat (map set_keys left)"
    using assms(1) i len fit by (auto simp: in_batch_def marks_snoc)
  moreover have "fits (don @ [c]) (ks @ [mi_keep it])" using fit len by (simp add: list_all2_appendI)
  ultimately show ?thesis using b2 by blast
qed

lemma mi_Next_more:
  assumes "mpos bd bs css i it seen (k # up)"
  shows "\<exists>it'. mi_Next bd it = (True, it') \<and> mpos bd bs css i it' (seen @ [(k, False)]) up"
  using assms unfolding mpos_def
proof (elim disjE conjE exE, goal_cases)
  case 1
  then obtain c left where cs: "css ! i = c # left" by (cases "css ! i") auto
  have "\<exists>s' k' up'. next_batch bd it = (True, s') \<and> k # up = k' # up' \<and> in_batch bd (bs ! i) (css ! i) s' (seen @ [(k', False)]) up' [] [] c left"
    by (rule next_batch_more) (use 1 cs in \<open>simp_all add: marks_def\<close>)
  then obtain s' where "next_batch bd it = (True, s')" "in_batch bd (bs ! i) (css ! i) s' (seen @ [(k, False)]) up [] [] c left" by auto
  then show ?case using 1 by (intro exI[of _ s'] conjI disjI2) (simp add: mi_Next_def, blast)
next
  case (2 don ks c left)
  note ib = \<open>in_batch bd (bs ! i) (css ! i) it seen (k # up) don ks c left\<close>
  then have c: "mi_curr it = Some c" "\<not> mi_keepSent it" "mi_err it = []" "css ! i = don @ c # left" by (auto simp: in_batch_def)
  show ?case
  proof (cases "Suc (mi_currIdx it) < length (ps_Profiles c)")
    case True
    then show ?thesis using in_batch_next[OF ib True] c
      by (intro exI[of _ "it\<lparr>mi_currIdx := Suc (mi_currIdx it)\<rparr>"] conjI disjI2) (simp add: mi_Next_def, blast)
  next
    case False
    from in_batch_last[OF ib this] obtain b2 where b2: "bd_Send bd (mi_keep it) (mi_bidi it) = ([], b2)" "serving bd b2 left"
        "told bd (bs ! i) (ks @ [mi_keep it]) b2" "fits (don @ [c]) (ks @ [mi_keep it])" "seen = marks (don @ [c]) (ks @ [mi_keep it])"
        "k # up = concat (map set_keys left)" by blast
    then obtain d left' where d: "left = d # left'" by (cases left) auto
    have "\<exists>s' k' up'. next_batch bd (it\<lparr>mi_bidi := b2\<rparr>) = (True, s') \<and> k # up = k' # up'
        \<and> in_batch bd (bs ! i) (css ! i) s' (seen @ [(k', False)]) up' (don @ [c]) (ks @ [mi_keep it]) d left'"
      by (rule next_batch_more) (use b2 c d in simp_all)
    then obtain s' where s': "next_batch bd (it\<lparr>mi_bidi := b2\<rparr>) = (True, s')"
        "in_batch bd (bs ! i) (css ! i) s' (seen @ [(k, False)]) up (don @ [c]) (ks @ [mi_keep it]) d left'" by auto
    then show ?thesis using False c b2(1) by (intro exI[of _ s'] conjI disjI2) (simp add: mi_Next_def, blast)
  qed
qed

lemma mi_Next_end:
  assumes "mpos bd bs css i it seen []"
  shows "\<exists>it'. mi_Next bd it = (False, it') \<and> mfin bd bs css i it' seen"
  using assms unfolding mpos_def
proof (elim disjE conjE exE, goal_cases)
  case 1
  then have "css ! i = []" using concat_keys_Nil by metis
  moreover obtain s' where "next_batch bd it = (False, s')" "mi_err s' = []" using next_batch_end[of bd it] 1 \<open>css ! i = []\<close> by auto
  ultimately show ?case using 1 by (intro exI[of _ s'] conjI) (simp add: mi_Next_def, simp add: mfin_def marks_def exI[of _ "bs ! i"])
next
  case (2 don ks c left)
  then have c: "mi_curr it = Some c" "\<not> mi_keepSent it" "mi_err it = []" "css ! i = don @ c # left"
    and last: "\<not> Suc (mi_currIdx it) < length (ps_Profiles c)" by (auto simp: in_batch_def)
  from in_batch_last[OF 2 last] obtain b2 where b2: "bd_Send bd (mi_keep it) (mi_bidi it) = ([], b2)" "serving bd b2 left"
      "told bd (bs ! i) (ks @ [mi_keep it]) b2" "fits (don @ [c]) (ks @ [mi_keep it])" "seen = marks (don @ [c]) (ks @ [mi_keep it])"
      "[] = concat (map set_keys left)" by blast
  then have "left = []" using concat_keys_Nil by metis
  then obtain s' where "next_batch bd (it\<lparr>mi_bidi := b2\<rparr>) = (False, s')" "mi_err s' = []" using next_batch_end[of bd "it\<lparr>mi_bidi := b2\<rparr>"] b2(2) c by auto
  moreover have "mfin bd bs css i s' seen" unfolding mfin_def using \<open>mi_err s' = []\<close> b2(3-5) c(4) \<open>left = []\<close> by auto
  ultimately show ?case using last c(1,2) b2(1) by (intro exI[of _ s'] conjI) (simp_all add: mi_Next_def)
qed

lemma mi_Keep_At:
  assumes "mpos bd bs css i it (seen @ [(k, b)]) up"
  shows "\<exists>it'. mi_Keep it = Some it' \<and> mpos bd bs css i it' (seen @ [(k, True)]) up" and "pkey (mi_At it) = k"
proof -
  obtain don ks c left where ib: "in_batch bd (bs ! i) (css ! i) it (seen @ [(k, b)]) up don ks c left" using assms by (auto simp: mpos_def)
  let ?i = "mi_currIdx it"
  have c: "mi_curr it = Some c" "?i < length (ps_Profiles c)" "length (mi_keep it) = length (ps_Profiles c)" using ib by (auto simp: in_batch_def)
  have tk: "take (Suc ?i) (zip (set_keys c) K) = take ?i (zip (set_keys c) K) @ [(set_keys c ! ?i, K ! ?i)]" if "length K = length (ps_Profiles c)" for K :: "bool list"
    using that c(2) by (simp add: take_Suc_conv_app_nth)
  have "seen @ [(k, b)] = (marks don ks @ take ?i (zip (set_keys c) (mi_keep it))) @ [(set_keys c ! ?i, mi_keep it ! ?i)]"
    using ib tk[OF c(3)] by (simp add: in_batch_def)
  then have k: "seen = marks don ks @ take ?i (zip (set_keys c) (mi_keep it))" "k = set_keys c ! ?i" by auto
  show "pkey (mi_At it) = k" using c k(2) pkey_addr[of "mi_ingesterAddr it"] by (simp add: mi_At_def set_keys_def)
  let ?it = "it\<lparr>mi_keep := (mi_keep it)[?i := True]\<rparr>"
  have "take ?i (zip (set_keys c) ((mi_keep it)[?i := True])) = take ?i (zip (set_keys c) (mi_keep it))" by (simp add: take_zip)
  then have "in_batch bd (bs ! i) (css ! i) ?it (seen @ [(k, True)]) up don ks c left"
    using ib c(2,3) k tk[of "(mi_keep it)[?i := True]"] by (simp add: in_batch_def)
  then show "\<exists>it'. mi_Keep it = Some it' \<and> mpos bd bs css i it' (seen @ [(k, True)]) up"
    using c by (intro exI[of _ ?it] conjI) (simp add: mi_Keep_def, unfold mpos_def, blast)
qed

interpretation mis: keep_stream "merge_iterator bd" "mpos bd bs css" "mfin bd bs css" for bd :: "('b, 'r) BidiClientMerge" and bs css
proof
  fix i and it :: "'b mergeIterator" and seen k b up e
  let ?m = "merge_iterator bd"
  show "\<exists>it'. mg_Next ?m it = (True, it') \<and> mpos bd bs css i it' (seen @ [(k, False)]) up" if "mpos bd bs css i it seen (k # up)"
    using mi_Next_more[OF that] by (simp add: merge_iterator_def)
  show "\<exists>it'. mg_Next ?m it = (False, it') \<and> mfin bd bs css i it' seen" if "mpos bd bs css i it seen []"
    using mi_Next_end[OF that] by (simp add: merge_iterator_def)
  show "\<exists>it'. mg_Keep ?m it = Some it' \<and> mpos bd bs css i it' (seen @ [(k, True)]) up" if "mpos bd bs css i it (seen @ [(k, b)]) up"
    using mi_Keep_At(1)[OF that] by (simp add: merge_iterator_def)
  show "pkey (mg_At ?m it) = k" if "mpos bd bs css i it (seen @ [(k, b)]) up"
    using mi_Keep_At(2)[OF that] by (simp add: merge_iterator_def)
  show "\<exists>e it'. mg_Close ?m it = (e, it') \<and> mfin bd bs css i it' seen \<and> mg_Err ?m it' = []" if "mfin bd bs css i it seen"
    using that by (auto simp: merge_iterator_def mi_Close_def mfin_def split: prod.split)
qed

text \<open>
  \<open>skipDuplicates\<close> over any number of ingesters that serve their profiles in order of time and labels:
  whatever the order in which the parallel calls of \<open>requeueAsync\<close> finish, it ends without an error,
  every ingester is told a selection for each of its batches, and every profile that some ingester
  has is kept by exactly one of them.
\<close>

lemma skipDuplicates_selects:
  assumes len: "length css = length responses"
    and serve: "\<forall>i < length responses. serving bd (snd (responses ! i)) (css ! i)"
    and srt: "\<forall>i < length responses. sorted_wrt (<) (concat (map set_keys (css ! i)))"
    and sched: "\<forall>c xs. mset (sched c xs) = mset xs"
  shows "\<exists>its kss. skipDuplicates (merge_iterator bd) sched (map NewMergeIterator responses) = Some ([], its)
    \<and> (\<forall>i < length responses. fits (css ! i) (kss i) \<and> (\<exists>b. told bd (snd (responses ! i)) (kss i) b))
    \<and> (\<forall>i < length responses. \<forall>k \<in> set (concat (map set_keys (css ! i))).
         \<exists>!j. j < length responses \<and> (k, True) \<in> set (marks (css ! j) (kss j)))"
proof -
  let ?n = "length responses" and ?its = "map NewMergeIterator responses" and ?bs = "map snd responses"
  let ?streams = "\<lambda>i. concat (map set_keys (css ! i))"
  have "\<forall>i < length ?its. mpos bd ?bs css i (?its ! i) [] (?streams i)" using serve by (simp add: mpos_def NewMergeIterator_def)
  from mis.skipDuplicates_ok[OF this _ sched] srt obtain its seen where s: "skipDuplicates (merge_iterator bd) sched ?its = Some ([], its)"
      "kept_once (mfin bd ?bs css) ?n ?streams its seen" by auto
  have "\<exists>ks. \<forall>i < ?n. fits (css ! i) (ks i) \<and> seen i = marks (css ! i) (ks i) \<and> (\<exists>b. told bd (?bs ! i) (ks i) b)"
    using s(2) unfolding kept_once_def mfin_def by (intro choice) auto
  then obtain ks where ks: "\<forall>i < ?n. fits (css ! i) (ks i) \<and> seen i = marks (css ! i) (ks i) \<and> (\<exists>b. told bd (?bs ! i) (ks i) b)" by blast
  have "\<exists>!j. j < ?n \<and> (k, True) \<in> set (marks (css ! j) (ks j))" if "i < ?n" "k \<in> set (?streams i)" for i k
  proof -
    have "\<exists>!j. j < ?n \<and> (k, True) \<in> set (seen j)" using s(2) that unfolding kept_once_def by blast
    moreover have "j < ?n \<and> (k, True) \<in> set (seen j) \<longleftrightarrow> j < ?n \<and> (k, True) \<in> set (marks (css ! j) (ks j))" for j using ks by auto
    ultimately show ?thesis by simp
  qed
  then show ?thesis using s(1) ks by (intro exI[of _ its] exI[of _ ks]) auto
qed

text \<open>A connection to an ingester that serves a list of batches and notes the selections.\<close>

definition demo_bidi :: "(ProfileSets list \<times> bool list list, unit) BidiClientMerge" where
  "demo_bidi = \<lparr>bd_Send = (\<lambda>k (cs, sel). ([], (cs, sel @ [k]))),
     bd_Receive = (\<lambda>(cs, sel). case cs of [] \<Rightarrow> (Inr (None, ()), ([], sel)) | c # cs \<Rightarrow> (Inr (Some c, ()), (cs, sel))),
     bd_CloseRequest = (\<lambda>b. ([], b)), bd_CloseResponse = (\<lambda>b. ([], b))\<rparr>"

lemma demo_bidi_serves: "list_all (\<lambda>c. ps_Profiles c \<noteq> []) cs \<Longrightarrow> serving demo_bidi (cs, sel) cs"
  by (induction cs arbitrary: sel) (auto simp: demo_bidi_def)

definition demo_batch :: "i64 list \<Rightarrow> ProfileSets" where
  "demo_batch ts = \<lparr>ps_LabelsSets = [[]], ps_Profiles = map (\<lambda>t. \<lparr>se_LabelIndex = 0, se_Timestamp = t\<rparr>) ts\<rparr>"

text \<open>
  The order of the streams is needed.  \<open>querierFor\<close> lists the head of an ingester before its blocks, so an
  ingester streams newer profiles before older ones.  Here one ingester has the profile of time 2 in its head
  and that of time 1 in a block, the other has both in a block: the profile of time 1 is kept by both.
\<close>

lemma skipDuplicates_needs_order:
  "map_option (\<lambda>(err, its). (err, map (\<lambda>it. snd (mi_bidi it)) its))
     (skipDuplicates (merge_iterator demo_bidi) (\<lambda>c es. es)
        (map NewMergeIterator [(''a'', [demo_batch [2], demo_batch [1]], []), (''b'', [demo_batch [1], demo_batch [2]], [])]))
   = Some ([], [[[True], [True]], [[True], [False]]])
   \<and> marks [demo_batch [2], demo_batch [1]] [[True], [True]] = [((2, []), True), ((1, []), True)]
   \<and> marks [demo_batch [1], demo_batch [2]] [[True], [False]] = [((1, []), True), ((2, []), False)]"
  by (intro conjI) code_simp+

end
