(* ===== verification/Database.thy ===== *)
theory Database
  imports Select_Merge
begin

section \<open>The database of a tenant (pkg/phlaredb/phlaredb.go)\<close>

text \<open>
  A database has a head and the blocks that were cut from earlier heads.  A merge request is served
  over a stream: for each store that overlaps the time range, the selected profiles are sent in
  batches, the client answers with a selection for each batch, and the stores merge the samples
  of what was selected.  Stores are records of the methods of the interface \<open>Querier\<close>, a stream is a
  record of its methods over a state.  The merges run in the background; the model runs them in order.
  A panic, like a run that does not end, is \<open>None\<close>.  Tracing and cancellation are left out.
\<close>

subsection \<open>Filtering profiles by the client's selection\<close>

record 'r MergeResponse =
  rp_SelectedProfiles :: "ProfileSets option"
  rp_Result :: "'r option"

record SelectProfilesRequest =
  sq_LabelSelector :: string
  sq_Type :: ProfileType
  sq_Start :: i64
  sq_End :: i64

record MergeRequest =
  rq_Request :: "SelectProfilesRequest option"
  rq_Profiles :: "bool list"
  rq_By :: "string list"

record ('s, 'r) BidiServerMerge =
  sv_Send :: "'r MergeResponse \<Rightarrow> 's \<Rightarrow> errs \<times> 's"
  sv_Receive :: "'s \<Rightarrow> (errs + MergeRequest) \<times> 's"

definition client_closed :: "errs \<Rightarrow> errs" where
  "client_closed err = (if err = [''EOF''] then [''client closed stream''] else err)"

text \<open>The interface \<open>Profile\<close>: fingerprint, labels and timestamp of a profile.\<close>

record 'p Profile =
  pr_Fingerprint :: "'p \<Rightarrow> u64"
  pr_Labels :: "'p \<Rightarrow> labels"
  pr_Timestamp :: "'p \<Rightarrow> i64"

definition add_profile :: "'p Profile \<Rightarrow> 'p \<Rightarrow> (u64 \<times> nat) list \<times> ProfileSets \<Rightarrow> (u64 \<times> nat) list \<times> ProfileSets" where
  "add_profile pr profile st =
     (case st of (seriesByFP, sets) \<Rightarrow>
        let (seriesByFP, idx, sets) =
          (case map_of seriesByFP (pr_Fingerprint pr profile) of
             Some idx \<Rightarrow> (seriesByFP, idx, sets)
           | None \<Rightarrow>
               let idx = length (ps_LabelsSets sets)
               in (AList.update (pr_Fingerprint pr profile) idx seriesByFP, idx,
                   sets\<lparr>ps_LabelsSets := ps_LabelsSets sets @ [pr_Labels pr profile]\<rparr>))
        in (seriesByFP, sets\<lparr>ps_Profiles := ps_Profiles sets @ [\<lparr>se_LabelIndex = of_nat idx, se_Timestamp = pr_Timestamp pr profile\<rparr>]\<rparr>))"

definition profile_sets :: "'p Profile \<Rightarrow> 'p list \<Rightarrow> ProfileSets" where
  "profile_sets pr batch = snd (fold (add_profile pr) batch ([], \<lparr>ps_LabelsSets = [], ps_Profiles = []\<rparr>))"

fun pick :: "bool list \<Rightarrow> 'p list \<Rightarrow> 'p list option" where
  "pick [] batch = Some []"
| "pick (k # selected) [] = (if k then None else pick selected [])"
| "pick (k # selected) (p # batch) = (if k then map_option (\<lambda>ps. p # ps) (pick selected batch) else pick selected batch)"

text \<open>
  The callback for one batch.  The error of \<open>Receive\<close> is assigned to a variable of its own and never
  looked at, so a failed \<open>Receive\<close> is an empty selection.
\<close>

definition filter_batch :: "('s, 'r) BidiServerMerge \<Rightarrow> 'p Profile \<Rightarrow> ('p list \<times> 's) option \<Rightarrow> 'p list \<Rightarrow> errs \<times> ('p list \<times> 's) option" where
  "filter_batch sv pr st batch =
     (case st of
        None \<Rightarrow> ([''panic''], None)
      | Some (selection, s) \<Rightarrow>
          (case sv_Send sv \<lparr>rp_SelectedProfiles = Some (profile_sets pr batch), rp_Result = None\<rparr> s of (err, s) \<Rightarrow>
             if err \<noteq> [] then (client_closed err, Some (selection, s))
             else case sv_Receive sv s of (r, s) \<Rightarrow>
                    case pick (case r of Inl err \<Rightarrow> [] | Inr q \<Rightarrow> rq_Profiles q) batch of
                      None \<Rightarrow> ([''panic''], None)
                    | Some ps \<Rightarrow> ([], Some (selection @ ps, s))))"

definition filterProfiles :: "('s, 'r) BidiServerMerge \<Rightarrow> 'p Profile \<Rightarrow> ('i, 'p) Iterator \<Rightarrow> nat \<Rightarrow> 'i \<Rightarrow> 's \<Rightarrow> ((errs + 'p list) \<times> 's) option" where
  "filterProfiles sv pr it batchProfileSize profiles s = do {
     (err, st) \<leftarrow> ReadBatch it batchProfileSize (filter_batch sv pr) profiles (Some ([], s));
     case st of
       None \<Rightarrow> None
     | Some (selection, s) \<Rightarrow> Some (if err \<noteq> [] then Inl err else Inr selection, s) }"

subsection \<open>Stores\<close>

record ('i, 'p, 'v) Querier =
  qr_InRange :: "i64 \<Rightarrow> i64 \<Rightarrow> bool"
  qr_SelectMatchingProfiles :: "SelectProfilesRequest \<Rightarrow> errs + 'i"
  qr_MergeByStacktraces :: "'p sliceIterator \<Rightarrow> errs + MergeProfilesStacktracesResult option"
  qr_MergeByLabels :: "string list \<Rightarrow> 'p sliceIterator \<Rightarrow> errs + 'v Series list"
  qr_Sort :: "'p list \<Rightarrow> 'p list"

record ('i, 'p, 'v) PhlareDB =
  db_head :: "('i, 'p, 'v) Querier option"
  db_queriers :: "('i, 'p, 'v) Querier list"

definition queriersFor :: "('i, 'p, 'v) Querier list \<Rightarrow> i64 \<Rightarrow> i64 \<Rightarrow> ('i, 'p, 'v) Querier list" where
  "queriersFor queriers start stop = filter (\<lambda>q. qr_InRange q start stop) queriers"

text \<open>Without a head the call of \<open>InRange\<close> is a nil dereference.\<close>

definition querierFor :: "('i, 'p, 'v) PhlareDB \<Rightarrow> i64 \<Rightarrow> i64 \<Rightarrow> ('i, 'p, 'v) Querier list option" where
  "querierFor f start stop =
     (let blocks = queriersFor (db_queriers f) start stop
      in case db_head f of
           None \<Rightarrow> None
         | Some h \<Rightarrow> Some (if qr_InRange h start stop then h # blocks else blocks))"

text \<open>\<open>initHead\<close> replaces the head also when \<open>NewHead\<close> fails: the head is then nil.\<close>

definition initHead :: "errs + ('i, 'p, 'v) Querier \<Rightarrow> ('i, 'p, 'v) PhlareDB \<Rightarrow> errs \<times> ('i, 'p, 'v) Querier option \<times> ('i, 'p, 'v) PhlareDB" where
  "initHead newHead f =
     (case newHead of
        Inl err \<Rightarrow> (err, db_head f, f\<lparr>db_head := None\<rparr>)
      | Inr h \<Rightarrow> ([], db_head f, f\<lparr>db_head := Some h\<rparr>))"

definition db_Flush :: "(('i, 'p, 'v) Querier \<Rightarrow> errs) \<Rightarrow> errs + ('i, 'p, 'v) Querier \<Rightarrow> ('i, 'p, 'v) PhlareDB \<Rightarrow> errs \<times> ('i, 'p, 'v) PhlareDB" where
  "db_Flush flush newHead f =
     (case initHead newHead f of (err, oldHead, f) \<Rightarrow>
        if err \<noteq> [] then (err, f)
        else case oldHead of None \<Rightarrow> ([], f) | Some h \<Rightarrow> (flush h, f))"

subsection \<open>Serving a merge request\<close>

fun stream_queriers :: "('s, 'r) BidiServerMerge \<Rightarrow> 'p Profile \<Rightarrow> ('i, 'p) Iterator \<Rightarrow> (('i, 'p, 'v) Querier \<Rightarrow> 'p sliceIterator \<Rightarrow> errs + 'm) \<Rightarrow>
    SelectProfilesRequest \<Rightarrow> ('i, 'p, 'v) Querier list \<Rightarrow> 's \<Rightarrow> ((errs + (errs + 'm) list) \<times> 's) option" where
  "stream_queriers sv pr it merge request [] s = Some (Inr [], s)"
| "stream_queriers sv pr it merge request (q # qs) s =
     (case qr_SelectMatchingProfiles q request of
        Inl err \<Rightarrow> Some (Inl err, s)
      | Inr profiles \<Rightarrow> do {
          (r, s) \<leftarrow> filterProfiles sv pr it 2048 profiles s;
          case r of
            Inl err \<Rightarrow> Some (Inl err, s)
          | Inr selected \<Rightarrow> do {
              (rs, s) \<leftarrow> stream_queriers sv pr it merge request qs s;
              Some (case rs of Inl err \<Rightarrow> Inl err | Inr ms \<Rightarrow> Inr (merge q (NewSliceIterator (qr_Sort q selected)) # ms), s) } })"

text \<open>\<open>errgroup.Wait\<close>: all results, or the first error.\<close>

fun group_wait :: "(errs + 'm) list \<Rightarrow> errs + 'm list" where
  "group_wait [] = Inr []"
| "group_wait (Inl err # ms) = Inl err"
| "group_wait (Inr m # ms) = (case group_wait ms of Inl err \<Rightarrow> Inl err | Inr rs \<Rightarrow> Inr (m # rs))"

definition merge_profiles :: "('s, 'r) BidiServerMerge \<Rightarrow> 'p Profile \<Rightarrow> ('i, 'p) Iterator \<Rightarrow>
    (string list \<Rightarrow> ('i, 'p, 'v) Querier \<Rightarrow> 'p sliceIterator \<Rightarrow> errs + 'm) \<Rightarrow> ('m list \<Rightarrow> 'r option) \<Rightarrow> ('i, 'p, 'v) PhlareDB \<Rightarrow> 's \<Rightarrow> (errs \<times> 's) option" where
  "merge_profiles sv pr it merge combine f s =
     (case sv_Receive sv s of
        (Inl err, s) \<Rightarrow> Some (client_closed err, s)
      | (Inr r, s) \<Rightarrow>
          (case rq_Request r of
             None \<Rightarrow> Some ([''missing initial select request''], s)
           | Some request \<Rightarrow> do {
               queriers \<leftarrow> querierFor f (sq_Start request) (sq_End request);
               (ms, s) \<leftarrow> stream_queriers sv pr it (merge (sort_slice (<) (rq_By r))) request queriers s;
               case ms of
                 Inl err \<Rightarrow> Some (err, s)
               | Inr ms \<Rightarrow>
                   (case sv_Send sv \<lparr>rp_SelectedProfiles = None, rp_Result = None\<rparr> s of (err, s) \<Rightarrow>
                      if err \<noteq> [] then Some (err, s)
                      else case group_wait ms of
                             Inl err \<Rightarrow> Some (err, s)
                           | Inr results \<Rightarrow> do {
                               result \<leftarrow> combine results;
                               case sv_Send sv \<lparr>rp_SelectedProfiles = None, rp_Result = Some result\<rparr> s of (err, s) \<Rightarrow>
                                 Some (client_closed err, s) }) }))"

definition MergeProfilesStacktraces :: "('s, MergeProfilesStacktracesResult \<times> store) BidiServerMerge \<Rightarrow> 'p Profile \<Rightarrow> ('i, 'p) Iterator \<Rightarrow>
    (u8 list \<Rightarrow> u64) \<Rightarrow> store \<Rightarrow> ('i, 'p, 'v) PhlareDB \<Rightarrow> 's \<Rightarrow> (errs \<times> 's) option" where
  "MergeProfilesStacktraces sv pr it H st f s =
     merge_profiles sv pr it (\<lambda>by' q. qr_MergeByStacktraces q) (MergeBatchMergeStacktraces H st) f s"

definition MergeProfilesLabels :: "('s, 'v Series list) BidiServerMerge \<Rightarrow> 'p Profile \<Rightarrow> ('i, 'p) Iterator \<Rightarrow>
    (string \<Rightarrow> u64) \<Rightarrow> ('i, 'p, 'v) PhlareDB \<Rightarrow> 's \<Rightarrow> (errs \<times> 's) option" where
  "MergeProfilesLabels sv pr it H f s =
     merge_profiles sv pr it (\<lambda>by' q. qr_MergeByLabels q by') (\<lambda>results. Some (MergeSeries H results)) f s"

subsection \<open>What a batch says\<close>

abbreviation pr_key :: "'p Profile \<Rightarrow> 'p \<Rightarrow> pkey" where
  "pr_key pr \<equiv> profile_key (pr_Labels pr) (pr_Timestamp pr)"

text \<open>Equal fingerprints stand for equal labels, as long as the hash does not collide.\<close>

definition identifies :: "'p Profile \<Rightarrow> 'p list \<Rightarrow> bool" where
  "identifies pr ps \<longleftrightarrow> (\<forall>p \<in> set ps. \<forall>q \<in> set ps. pr_Fingerprint pr p = pr_Fingerprint pr q \<longrightarrow> pr_Labels pr p = pr_Labels pr q)"

lemma identifies_mono: "identifies pr ps \<Longrightarrow> set qs \<subseteq> set ps \<Longrightarrow> identifies pr qs"
  unfolding identifies_def by blast

lemma identifiesD: "identifies pr ps \<Longrightarrow> p \<in> set ps \<Longrightarrow> q \<in> set ps \<Longrightarrow> pr_Fingerprint pr p = pr_Fingerprint pr q \<Longrightarrow> pr_Labels pr p = pr_Labels pr q"
  unfolding identifies_def by blast

definition set_inv :: "'p Profile \<Rightarrow> 'p list \<Rightarrow> (u64 \<times> nat) list \<times> ProfileSets \<Rightarrow> bool" where
  "set_inv pr don st \<longleftrightarrow> length (ps_LabelsSets (snd st)) \<le> length don
     \<and> dom (map_of (fst st)) = pr_Fingerprint pr ` set don
     \<and> (\<forall>p \<in> set don. \<forall>i. map_of (fst st) (pr_Fingerprint pr p) = Some i \<longrightarrow> i < length (ps_LabelsSets (snd st)) \<and> ps_LabelsSets (snd st) ! i = pr_Labels pr p)
     \<and> set_keys (snd st) = map (pr_key pr) don \<and> (\<forall>x \<in> set (ps_Profiles (snd st)). unat (se_LabelIndex x) < length (ps_LabelsSets (snd st)))"

lemma set_inv_lookup:
  "set_inv pr don (m, c) \<Longrightarrow> p \<in> set don \<Longrightarrow> map_of m (pr_Fingerprint pr p) = Some i \<Longrightarrow> i < length (ps_LabelsSets c) \<and> ps_LabelsSets c ! i = pr_Labels pr p"
  unfolding set_inv_def by simp

lemma set_keys_snoc:
  assumes "\<forall>x \<in> set (ps_Profiles c). unat (se_LabelIndex x) < length (ps_LabelsSets c)" and "ps_LabelsSets d = ps_LabelsSets c @ ls"
    and "ps_Profiles d = ps_Profiles c @ [x]"
  shows "set_keys d = set_keys c @ [pkey (profile_at [] d x)]"
proof -
  have "pkey (profile_at [] d y) = pkey (profile_at [] c y)" if "y \<in> set (ps_Profiles c)" for y
    using assms(1,2) that by (auto simp: profile_at_def profile_key_def nth_append)
  then show ?thesis using assms(3) by (simp add: set_keys_def)
qed

lemma add_profile_inv:
  assumes inv: "set_inv pr don (m, c)" and len: "length don < 2 ^ 31" and id: "identifies pr (don @ [p])"
  shows "set_inv pr (don @ [p]) (add_profile pr p (m, c))"
proof (cases "map_of m (pr_Fingerprint pr p)")
  case (Some i)
  let ?d = "c\<lparr>ps_Profiles := ps_Profiles c @ [\<lparr>se_LabelIndex = of_nat i, se_Timestamp = pr_Timestamp pr p\<rparr>]\<rparr>"
  have a: "add_profile pr p (m, c) = (m, ?d)" using Some by (simp add: add_profile_def)
  have p: "pr_Fingerprint pr p \<in> dom (map_of m)" using Some by (rule domI)
  have dom: "dom (map_of m) = pr_Fingerprint pr ` set don" using inv by (simp add: set_inv_def)
  from p obtain q where q: "q \<in> set don" "pr_Fingerprint pr p = pr_Fingerprint pr q" unfolding dom by auto
  have "pr_Labels pr p = pr_Labels pr q" using identifiesD[OF id _ _ q(2)] q(1) by simp
  moreover have "map_of m (pr_Fingerprint pr q) = Some i" by (rule q(2)[THEN subst], rule Some)
  ultimately have i: "i < length (ps_LabelsSets c)" "ps_LabelsSets c ! i = pr_Labels pr p" using set_inv_lookup[OF inv q(1)] by simp_all
  have u: "unat (of_nat i :: i32) = i" using i(1) inv len unfolding set_inv_def by (simp add: unat_of_nat take_bit_nat_eq_self)
  have "set_keys ?d = set_keys c @ [pr_key pr p]"
    using set_keys_snoc[of c ?d "[]"] inv i u unfolding set_inv_def by (simp add: profile_at_def profile_key_def)
  then have keys: "set_keys ?d = map (pr_key pr) (don @ [p])" using inv unfolding set_inv_def by simp
  have lookup: "j < length (ps_LabelsSets c) \<and> ps_LabelsSets c ! j = pr_Labels pr r"
    if "r \<in> set (don @ [p])" "map_of m (pr_Fingerprint pr r) = Some j" for r j
    using that set_inv_lookup[OF inv] i Some by auto
  show ?thesis unfolding a set_inv_def fst_conv snd_conv
  proof (intro conjI)
    show "dom (map_of m) = pr_Fingerprint pr ` set (don @ [p])" using dom p by auto
    show "\<forall>x \<in> set (ps_Profiles ?d). unat (se_LabelIndex x) < length (ps_LabelsSets ?d)" using inv u i(1) unfolding set_inv_def by simp
    show "length (ps_LabelsSets ?d) \<le> length (don @ [p])" using inv unfolding set_inv_def by simp
  qed (use keys lookup in simp_all)
next
  case None
  let ?i = "length (ps_LabelsSets c)" and ?fp = "pr_Fingerprint pr p"
  let ?d = "c\<lparr>ps_LabelsSets := ps_LabelsSets c @ [pr_Labels pr p], ps_Profiles := ps_Profiles c @ [\<lparr>se_LabelIndex = of_nat ?i, se_Timestamp = pr_Timestamp pr p\<rparr>]\<rparr>"
  have a: "add_profile pr p (m, c) = (AList.update ?fp ?i m, ?d)" using None by (simp add: add_profile_def Let_def)
  have u: "unat (of_nat ?i :: i32) = ?i" using inv len unfolding set_inv_def by (simp add: unat_of_nat take_bit_nat_eq_self)
  have new: "?fp \<notin> pr_Fingerprint pr ` set don" using None inv unfolding set_inv_def by (metis domIff fst_conv)
  have "set_keys ?d = set_keys c @ [pr_key pr p]"
    using set_keys_snoc[of c ?d "[pr_Labels pr p]"] inv u unfolding set_inv_def by (simp add: profile_at_def profile_key_def)
  then have keys: "set_keys ?d = map (pr_key pr) (don @ [p])" using inv unfolding set_inv_def by simp
  have lookup: "j < Suc ?i \<and> (ps_LabelsSets c @ [pr_Labels pr p]) ! j = pr_Labels pr r"
    if "r \<in> set (don @ [p])" "((map_of m)(?fp \<mapsto> ?i)) (pr_Fingerprint pr r) = Some j" for r j
  proof (cases "pr_Fingerprint pr r = ?fp")
    case True
    then have "pr_Labels pr r = pr_Labels pr p" using identifiesD[OF id that(1) _ True] by simp
    moreover have "j = ?i" using that(2) True by simp
    ultimately show ?thesis by simp
  next
    case False
    then have "r \<in> set don" "map_of m (pr_Fingerprint pr r) = Some j" using that by auto
    then have "j < ?i \<and> ps_LabelsSets c ! j = pr_Labels pr r" by (rule set_inv_lookup[OF inv])
    then show ?thesis by (simp add: nth_append)
  qed
  show ?thesis unfolding a set_inv_def fst_conv snd_conv update_conv'
  proof (intro conjI)
    show "dom ((map_of m)(?fp \<mapsto> ?i)) = pr_Fingerprint pr ` set (don @ [p])" using inv unfolding set_inv_def by auto
    show "\<forall>x \<in> set (ps_Profiles ?d). unat (se_LabelIndex x) < length (ps_LabelsSets ?d)" using inv u unfolding set_inv_def by (auto simp: less_SucI)
    show "length (ps_LabelsSets ?d) \<le> length (don @ [p])" using inv unfolding set_inv_def by simp
  qed (use keys lookup in simp_all)
qed

lemma profile_sets_inv:
  assumes "length ps < 2 ^ 31" and "identifies pr ps"
  shows "set_inv pr ps (fold (add_profile pr) ps ([], \<lparr>ps_LabelsSets = [], ps_Profiles = []\<rparr>))"
  using assms
proof (induction ps rule: rev_induct)
  case Nil
  then show ?case by (simp add: set_inv_def set_keys_def)
next
  case (snoc p ps)
  let ?st = "fold (add_profile pr) ps ([], \<lparr>ps_LabelsSets = [], ps_Profiles = []\<rparr>)"
  have "set_inv pr ps ?st" using snoc identifies_mono[OF snoc.prems(2), of ps] by auto
  then show ?case using add_profile_inv[of pr ps "fst ?st" "snd ?st" p] snoc.prems by simp
qed

lemma profile_sets_keys:
  "length ps < 2 ^ 31 \<Longrightarrow> identifies pr ps \<Longrightarrow> set_keys (profile_sets pr ps) = map (pr_key pr) ps"
  using profile_sets_inv[of ps pr] by (simp add: profile_sets_def set_inv_def)

lemma length_profile_sets: "length (ps_Profiles (profile_sets pr ps)) = length ps"
proof -
  have "length (ps_Profiles (snd (fold (add_profile pr) ps st))) = length (ps_Profiles (snd st)) + length ps" for st
    by (induction ps arbitrary: st) (auto simp: add_profile_def Let_def split: prod.split option.split)
  then show ?thesis by (simp add: profile_sets_def)
qed

subsection \<open>The selection of the client\<close>

text \<open>A stream over which the client answers the batches \<open>cs\<close> with the selections \<open>ks\<close>.\<close>

fun exchange :: "('s, 'r) BidiServerMerge \<Rightarrow> 's \<Rightarrow> ProfileSets list \<Rightarrow> bool list list \<Rightarrow> 's \<Rightarrow> bool" where
  "exchange sv s [] ks s' \<longleftrightarrow> ks = [] \<and> s' = s"
| "exchange sv s (c # cs) ks s' \<longleftrightarrow> (\<exists>k ls s1 q s2. ks = k # ls \<and> sv_Send sv \<lparr>rp_SelectedProfiles = Some c, rp_Result = None\<rparr> s = ([], s1)
     \<and> sv_Receive sv s1 = (Inr q, s2) \<and> rq_Profiles q = k \<and> exchange sv s2 cs ls s')"

definition chosen :: "'p list \<Rightarrow> bool list \<Rightarrow> 'p list" where
  "chosen ps k = map fst (filter snd (zip ps k))"

lemma pick_chosen: "length k = length ps \<Longrightarrow> pick k ps = Some (chosen ps k)"
  by (induction k ps rule: list_induct2) (simp_all add: chosen_def)

lemma chosen_append: "length k = length ps \<Longrightarrow> chosen (ps @ qs) (k @ l) = chosen ps k @ chosen qs l"
  by (simp add: chosen_def)

lemma run_filter_batch:
  assumes "exchange sv s (map (profile_sets pr) bs) ks s'" and "list_all2 (\<lambda>b k. length k = length b) bs ks"
  shows "run_batches (filter_batch sv pr) bs (Some (sel, s)) = ([], Some (sel @ chosen (concat bs) (concat ks), s'))"
  using assms
proof (induction bs arbitrary: s sel ks)
  case Nil
  then show ?case by (simp add: chosen_def)
next
  case (Cons b bs)
  from Cons.prems obtain k ls s1 q s2 where k: "ks = k # ls" "rq_Profiles q = k"
    "sv_Send sv \<lparr>rp_SelectedProfiles = Some (profile_sets pr b), rp_Result = None\<rparr> s = ([], s1)" "sv_Receive sv s1 = (Inr q, s2)"
    "exchange sv s2 (map (profile_sets pr) bs) ls s'" "length k = length b" "list_all2 (\<lambda>b k. length k = length b) bs ls" by auto
  have "filter_batch sv pr (Some (sel, s)) b = ([], Some (sel @ chosen b k, s2))" using k by (simp add: filter_batch_def pick_chosen)
  then show ?case using Cons.IH[OF k(5,7), of "sel @ chosen b k"] k(1,6) by (simp add: chosen_append)
qed

lemma filterProfiles_selects:
  assumes "yields it i ps []" and "exchange sv s (map (profile_sets pr) (batches n ps)) ks s'"
    and "fits (map (profile_sets pr) (batches n ps)) ks"
  shows "filterProfiles sv pr it n i s = Some (Inr (chosen ps (concat ks)), s')"
proof -
  have "list_all2 (\<lambda>b k. length k = length b) (batches n ps) ks" using assms(3) by (simp add: list_all2_map1 length_profile_sets)
  from run_filter_batch[OF assms(2) this, of "[]"] show ?thesis
    by (simp add: filterProfiles_def ReadBatch_yields[OF assms(1)] batches_concat)
qed

text \<open>What the querier sees of the batches, and what the store selects, by the same answers.\<close>

lemma marks_profile_sets:
  assumes "list_all2 (\<lambda>b k. length k = length b) bs ks" and "\<forall>b \<in> set bs. set_keys (profile_sets pr b) = map (pr_key pr) b"
  shows "marks (map (profile_sets pr) bs) ks = zip (map (pr_key pr) (concat bs)) (concat ks)"
  using assms by (induction bs ks rule: list_all2_induct) (simp_all add: marks_def)

lemma batch_keys:
  assumes "identifies pr ps" and "b \<in> set (batches 2048 ps)"
  shows "set_keys (profile_sets pr b) = map (pr_key pr) b"
proof (rule profile_sets_keys)
  show "length b < 2 ^ 31" using batches_size[OF assms(2)] by simp
  have "set b \<subseteq> set (concat (batches 2048 ps))" using assms(2) by auto
  then show "identifies pr b" using assms(1) identifies_mono by (metis batches_concat)
qed

lemma concat_batch_keys:
  assumes "identifies pr ps"
  shows "concat (map set_keys (map (profile_sets pr) (batches 2048 ps))) = map (pr_key pr) ps"
proof -
  have "map set_keys (map (profile_sets pr) (batches 2048 ps)) = map (map (pr_key pr)) (batches 2048 ps)" using batch_keys[OF assms] by simp
  then show ?thesis by (metis map_concat batches_concat)
qed

lemma chosen_keys: "pr_key pr ` set (chosen ps k) = {x. (x, True) \<in> set (zip (map (pr_key pr) ps) k)}"
  by (force simp: chosen_def zip_map1)

abbreviation sent :: "'p Profile \<Rightarrow> 'p list \<Rightarrow> ProfileSets list" where
  "sent pr ps \<equiv> map (profile_sets pr) (batches 2048 ps)"

text \<open>
  C32. Selection across ingesters, each of which runs \<open>filterProfiles\<close> once over one stream.  The streams are in strict order of time and labels, and fingerprints identify the labels.
  Ingesters that may hold replicas of the same profiles stream
  them in the batches of \<open>filterProfiles\<close>; the querier runs \<open>skipDuplicates\<close> over the connections.  It ends without an
  error, and when each ingester gets the answers that it was told, \<open>filterProfiles\<close> there returns a
  selection such that every profile of every ingester is selected by exactly one of them.  The order is needed: an ingester that runs \<open>filterProfiles\<close> over its head before its blocks does
  not have it (\<open>skipDuplicates_needs_order\<close>).
\<close>

theorem replicas_selected_once:
  assumes len: "length pss = length responses" "length its = length responses"
    and it: "\<forall>i < length responses. yields it (its ! i) (pss ! i) []"
    and serve: "\<forall>i < length responses. serving bd (snd (responses ! i)) (sent pr (pss ! i))"
    and srt: "\<forall>i < length responses. sorted_wrt (<) (map (pr_key pr) (pss ! i))"
    and id: "\<forall>i < length responses. identifies pr (pss ! i)"
    and sched: "\<forall>c xs. mset (sched c xs) = mset xs"
  shows "\<exists>out kss sel. skipDuplicates (merge_iterator bd) sched (map NewMergeIterator responses) = Some ([], out)
    \<and> (\<forall>i < length responses. (\<exists>b. told bd (snd (responses ! i)) (kss i) b) \<and> fits (sent pr (pss ! i)) (kss i)
         \<and> (\<forall>(sv :: ('s, 'r) BidiServerMerge) s s'. exchange sv s (sent pr (pss ! i)) (kss i) s' \<longrightarrow> filterProfiles sv pr it 2048 (its ! i) s = Some (Inr (sel i), s')))
    \<and> (\<forall>i < length responses. \<forall>p \<in> set (pss ! i). \<exists>!j. j < length responses \<and> pr_key pr p \<in> pr_key pr ` set (sel j))"
proof -
  let ?n = "length responses" and ?css = "map (sent pr) pss"
  have c: "?css ! i = sent pr (pss ! i)" "concat (map set_keys (?css ! i)) = map (pr_key pr) (pss ! i)" if "i < ?n" for i
    using that len(1) concat_batch_keys[of pr "pss ! i"] id by simp_all
  have "\<forall>i < ?n. serving bd (snd (responses ! i)) (?css ! i)" "\<forall>i < ?n. sorted_wrt (<) (concat (map set_keys (?css ! i)))"
    using serve srt c by simp_all
  from skipDuplicates_selects[OF _ this sched] len(1) obtain out kss where s: "skipDuplicates (merge_iterator bd) sched (map NewMergeIterator responses) = Some ([], out)"
    "\<forall>i < ?n. fits (?css ! i) (kss i) \<and> (\<exists>b. told bd (snd (responses ! i)) (kss i) b)"
    "\<forall>i < ?n. \<forall>k \<in> set (concat (map set_keys (?css ! i))). \<exists>!j. j < ?n \<and> (k, True) \<in> set (marks (?css ! j) (kss j))" by auto
  let ?sel = "\<lambda>i. chosen (pss ! i) (concat (kss i))"
  have m: "(k, True) \<in> set (marks (?css ! j) (kss j)) \<longleftrightarrow> k \<in> pr_key pr ` set (?sel j)" if "j < ?n" for j k
  proof -
    have "list_all2 (\<lambda>b k. length k = length b) (batches 2048 (pss ! j)) (kss j)"
      using s(2)[rule_format, OF that] unfolding c(1)[OF that] by (simp add: list_all2_map1 length_profile_sets)
    then have "marks (?css ! j) (kss j) = zip (map (pr_key pr) (pss ! j)) (concat (kss j))"
      using marks_profile_sets[of "batches 2048 (pss ! j)" "kss j" pr] batch_keys[of pr "pss ! j"] id that c(1)[OF that] by (simp add: batches_concat)
    then show ?thesis by (simp add: chosen_keys)
  qed
  have "\<exists>!j. j < ?n \<and> pr_key pr p \<in> pr_key pr ` set (?sel j)" if "i < ?n" "p \<in> set (pss ! i)" for i p
  proof -
    have "\<exists>!j. j < ?n \<and> (pr_key pr p, True) \<in> set (marks (?css ! j) (kss j))"
      by (rule s(3)[rule_format, OF that(1), unfolded c(2)[OF that(1)]]) (use that(2) in simp)
    moreover have "j < ?n \<and> (pr_key pr p, True) \<in> set (marks (?css ! j) (kss j)) \<longleftrightarrow> j < ?n \<and> pr_key pr p \<in> pr_key pr ` set (?sel j)" for j using m[of j "pr_key pr p"] by (rule conj_cong[OF refl])
    ultimately show ?thesis by simp
  qed
  moreover have "filterProfiles sv pr it 2048 (its ! i) s = Some (Inr (?sel i), s')"
    if "i < ?n" "exchange sv s (sent pr (pss ! i)) (kss i) s'" for i s s' and sv :: "('s, 'r) BidiServerMerge"
  proof -
    have "fits (sent pr (pss ! i)) (kss i)" using s(2)[rule_format, OF that(1)] unfolding c(1)[OF that(1)] by simp
    then show ?thesis by (rule filterProfiles_selects[OF it[rule_format, OF that(1)] that(2)])
  qed
  ultimately show ?thesis using s(1,2) c(1) by (intro exI[of _ out] exI[of _ kss] exI[of _ ?sel]) auto
qed

text \<open>A stream that reads the client's answers from a list, and profiles that are pairs of a fingerprint and a time.\<close>

definition demo_server :: "(bool list list, unit) BidiServerMerge" where
  "demo_server = \<lparr>sv_Send = (\<lambda>r s. ([], s)),
     sv_Receive = (\<lambda>s. case s of [] \<Rightarrow> (Inl [''EOF''], []) | k # s \<Rightarrow> (Inr \<lparr>rq_Request = None, rq_Profiles = k, rq_By = []\<rparr>, s))\<rparr>"

definition demo_profile :: "(u64 \<times> i64) Profile" where
  "demo_profile = \<lparr>pr_Fingerprint = fst, pr_Labels = (\<lambda>p. if fst p = 1 then [\<lparr>lp_Name = ''a'', lp_Value = ''b''\<rparr>] else []), pr_Timestamp = snd\<rparr>"

lemma demo_server_exchange: "length ks = length cs \<Longrightarrow> exchange demo_server ks cs ks []"
  by (induction ks cs rule: list_induct2) (simp_all add: demo_server_def)

lemma sent_serves: "serving demo_bidi (sent pr ps, []) (sent pr ps)"
proof (rule demo_bidi_serves)
  have "ps_Profiles (profile_sets pr b) \<noteq> []" if "b \<in> set (batches 2048 ps)" for b
    using batches_size[OF that] length_profile_sets[of pr b] by auto
  then show "list_all (\<lambda>c. ps_Profiles c \<noteq> []) (sent pr ps)" by (simp add: list_all_iff)
qed

theorem replicas_selected_once_witness:
  "\<exists>out kss sel. skipDuplicates (merge_iterator demo_bidi) (\<lambda>c. rev) (map NewMergeIterator [(''a'', sent demo_profile [(1, 5), (2, 6)], []), (''b'', sent demo_profile [(1, 5)], [])]) = Some ([], out)
    \<and> filterProfiles demo_server demo_profile (slice_iterator (0, 0)) 2048 (NewSliceIterator [(1, 5)]) (kss (1 :: nat)) = Some (Inr (sel 1), [])
    \<and> (\<exists>!j. j < (2 :: nat) \<and> pr_key demo_profile (1, 5) \<in> pr_key demo_profile ` set (sel j))"
proof -
  let ?pss = "[[(1, 5), (2, 6)], [(1, 5)]] :: (u64 \<times> i64) list list"
  let ?r = "[(''a'', sent demo_profile [(1, 5), (2, 6)], []), (''b'', sent demo_profile [(1, 5)], [])] :: (string \<times> ProfileSets list \<times> bool list list) list"
  have i2: "(\<forall>i < length ?r. P i) \<longleftrightarrow> P 0 \<and> P 1" for P by (auto simp: less_Suc_eq numeral_2_eq_2)
  have 1: "\<forall>i < length ?r. yields (slice_iterator (0, 0)) (map NewSliceIterator ?pss ! i) (?pss ! i) []" unfolding i2 by (simp add: NewSliceIterator_yields)
  have 2: "\<forall>i < length ?r. serving demo_bidi (snd (?r ! i)) (sent demo_profile (?pss ! i))" unfolding i2 by (simp add: sent_serves)
  have 3: "\<forall>i < length ?r. sorted_wrt (<) (map (pr_key demo_profile) (?pss ! i))" unfolding i2 by (simp add: profile_key_def demo_profile_def)
  have 4: "\<forall>i < length ?r. identifies demo_profile (?pss ! i)" unfolding i2 by (simp add: identifies_def demo_profile_def)
  let ?A = "\<lambda>out. skipDuplicates (merge_iterator demo_bidi) (\<lambda>c. rev) (map NewMergeIterator ?r) = Some ([], out)"
  let ?B = "\<lambda>kss sel i. fits (sent demo_profile (?pss ! i)) (kss i)
    \<and> (\<forall>(sv :: (bool list list, unit) BidiServerMerge) s s'. exchange sv s (sent demo_profile (?pss ! i)) (kss i) s' \<longrightarrow>
       filterProfiles sv demo_profile (slice_iterator (0, 0)) 2048 (map NewSliceIterator ?pss ! i) s = Some (Inr (sel i), s'))"
  let ?C = "\<lambda>sel i. \<forall>p \<in> set (?pss ! i). \<exists>!j. j < length ?r \<and> pr_key demo_profile p \<in> pr_key demo_profile ` set (sel j)"
  have "\<exists>out kss sel. ?A out \<and> (\<forall>i < length ?r. (\<exists>b. told demo_bidi (snd (?r ! i)) (kss i) b) \<and> ?B kss sel i) \<and> (\<forall>i < length ?r. ?C sel i)"
    by (rule replicas_selected_once[OF _ _ 1 2 3 4]) simp_all
  then obtain out kss sel where s: "?A out" "\<forall>i < length ?r. (\<exists>b. told demo_bidi (snd (?r ! i)) (kss i) b) \<and> ?B kss sel i" "\<forall>i < length ?r. ?C sel i"
    by (elim exE conjE) (rule that)
  have "1 < length ?r" by simp
  then have B: "?B kss sel 1" and C: "?C sel 1" using s(2)[rule_format, of 1, THEN conjunct2] s(3)[rule_format, of 1] by blast+
  have "exchange demo_server (kss 1) (sent demo_profile (?pss ! 1)) (kss 1) []"
    using list_all2_lengthD[OF B[THEN conjunct1]] by (intro demo_server_exchange) simp
  then have "filterProfiles demo_server demo_profile (slice_iterator (0, 0)) 2048 (NewSliceIterator [(1, 5)]) (kss 1) = Some (Inr (sel 1), [])" using B by simp
  moreover have "\<exists>!j. j < (2 :: nat) \<and> pr_key demo_profile (1, 5) \<in> pr_key demo_profile ` set (sel j)" using C by (simp add: numeral_2_eq_2)
  ultimately show ?thesis using s(1) by (intro exI[of _ out] exI[of _ kss] exI[of _ sel] conjI)
qed

end
