(* ===== verification/Disk_Cleanup.thy ===== *)
theory Disk_Cleanup
  imports Iterators Series_Merge
begin

section \<open>Deleting blocks when the disk is full (pkg/phlaredb/phlaredb.go, pkg/util/disk)\<close>

text \<open>
  When the volume of the data directory runs full, the database deletes its oldest blocks until enough
  space is available.  The file system and the check of the volume are arguments, records of methods over the
  state of the world; so are \<open>ulid.Parse\<close> and \<open>String\<close>, which are library code.  The model returns the paths
  of the deleted blocks, which the code logs.
\<close>

subsection \<open>Paths (path/filepath)\<close>

fun go_join :: "string \<Rightarrow> string list \<Rightarrow> string" where
  "go_join sep [] = ''''"
| "go_join sep [x] = x"
| "go_join sep (x # xs) = x @ sep @ go_join sep xs"

definition clean_elem :: "bool \<Rightarrow> string \<Rightarrow> string list \<Rightarrow> string list" where
  "clean_elem rooted e out =
     (if e = '''' \<or> e = ''.'' then out
      else if e = ''..'' then
        (case out of
           x # xs \<Rightarrow> if x \<noteq> ''..'' then xs else e # out
         | [] \<Rightarrow> if rooted then [] else [e])
      else e # out)"

definition filepath_Clean :: "string \<Rightarrow> string" where
  "filepath_Clean path =
     (if path = '''' then ''.''
      else let rooted = (hd path = CHR ''/''); out = rev (fold (clean_elem rooted) (go_split (CHR ''/'') path) [])
           in if rooted then CHR ''/'' # go_join ''/'' out
              else if out = [] then ''.'' else go_join ''/'' out)"

definition filepath_Join :: "string list \<Rightarrow> string" where
  "filepath_Join elems =
     (case dropWhile (\<lambda>e. e = '''') elems of [] \<Rightarrow> '''' | es \<Rightarrow> filepath_Clean (go_join ''/'' es))"

definition filepath_Base :: "string \<Rightarrow> string" where
  "filepath_Base path =
     (if path = '''' then ''.''
      else let p = rev (dropWhile (\<lambda>c. c = CHR ''/'') (rev path)); b = rev (takeWhile (\<lambda>c. c \<noteq> CHR ''/'') (rev p))
           in if b = '''' then ''/'' else b)"

subsection \<open>The check of the volume\<close>

record VolumeStats =
  vs_BytesAvailable :: u64
  vs_HighDiskUtilization :: bool

record Statfs =
  sf_Bavail :: u64
  sf_Bsize :: u64
  sf_Blocks :: u64

text \<open>\<open>aboveMin\<close> is the comparison of the available share with the minimum, in floating point.\<close>

definition HasHighDiskUtilization :: "('w \<Rightarrow> errs + Statfs) \<Rightarrow> u64 \<Rightarrow> (u64 \<Rightarrow> u64 \<Rightarrow> bool) \<Rightarrow> 'w \<Rightarrow> errs + VolumeStats" where
  "HasHighDiskUtilization statfs minFreeDisk aboveMin w =
     (case statfs w of
        Inl err \<Rightarrow> Inl err
      | Inr stat \<Rightarrow>
          let stats = \<lparr>vs_BytesAvailable = sf_Bavail stat * sf_Bsize stat, vs_HighDiskUtilization = False\<rparr>
          in if minFreeDisk \<le> vs_BytesAvailable stats then Inr stats
             else if aboveMin (sf_Bavail stat) (sf_Blocks stat) then Inr stats
             else Inr (stats\<lparr>vs_HighDiskUtilization := True\<rparr>))"

subsection \<open>The cleanup\<close>

type_synonym ulid = "u8 list"

record 'w fileSystem =
  fs_ReadDir :: "string \<Rightarrow> 'w \<Rightarrow> (errs + (string \<times> bool) list) \<times> 'w"
  fs_RemoveAll :: "string \<Rightarrow> 'w \<Rightarrow> errs \<times> 'w"

record ulids =
  id_Parse :: "string \<Rightarrow> ulid option"
  id_String :: "ulid \<Rightarrow> string"

definition IsBlockDir :: "ulids \<Rightarrow> string \<Rightarrow> ulid option" where
  "IsBlockDir ul path = id_Parse ul (filepath_Base path)"

definition block_ids :: "ulids \<Rightarrow> string \<Rightarrow> (string \<times> bool) list \<Rightarrow> ulid list" where
  "block_ids ul path files = sort_slice (<) (List.map_filter (\<lambda>(name, dir). if dir then IsBlockDir ul (filepath_Join [path, name]) else None) files)"

definition listLocalULID :: "'w fileSystem \<Rightarrow> ulids \<Rightarrow> string \<Rightarrow> 'w \<Rightarrow> (errs + ulid list) \<times> 'w" where
  "listLocalULID fs ul path w =
     (case fs_ReadDir fs path w of
        (Inl err, w) \<Rightarrow> (Inl err, w)
      | (Inr files, w) \<Rightarrow> (Inr (block_ids ul path files), w))"

partial_function (option) cleanup_loop ::
    "('w \<Rightarrow> errs) \<Rightarrow> (string \<Rightarrow> 'w \<Rightarrow> (errs + VolumeStats) \<times> 'w) \<Rightarrow> 'w fileSystem \<Rightarrow> ulids \<Rightarrow> string \<Rightarrow>
     VolumeStats option \<Rightarrow> ulid \<Rightarrow> string list \<Rightarrow> 'w \<Rightarrow> (errs \<times> string list \<times> 'w) option" where
  "cleanup_loop ctx vc fs ul path lastStats lastULID deleted w =
     (if ctx w \<noteq> [] then Some (ctx w, deleted, w)
      else case vc path w of
        (Inl err, w) \<Rightarrow> Some (err, deleted, w)
      | (Inr current, w) \<Rightarrow>
          if \<not> vs_HighDiskUtilization current then Some ([], deleted, w)
          else if (case lastStats of None \<Rightarrow> False | Some l \<Rightarrow> vs_BytesAvailable current \<le> vs_BytesAvailable l) then Some ([], deleted, w)
          else case listLocalULID fs ul path w of
            (Inl err, w) \<Rightarrow> Some (err, deleted, w)
          | (Inr [], w) \<Rightarrow> Some ([], deleted, w)
          | (Inr (oldest # _), w) \<Rightarrow>
              if lastULID = oldest then Some ([''making no progress in deletion''], deleted, w)
              else let deletePath = filepath_Join [path, id_String ul oldest]
                   in if deletePath = path then Some ([''delete path is the same as the root path, this should never happen''], deleted, w)
                      else case fs_RemoveAll fs deletePath w of (err, w) \<Rightarrow>
                        if err \<noteq> [] then Some (''failed to delete oldest block'' # err, deleted, w)
                        else cleanup_loop ctx vc fs ul path (Some current) oldest (deleted @ [deletePath]) w)"

declare cleanup_loop.simps [code]

text \<open>\<open>lastULID\<close> starts as the zero value, sixteen zero bytes.\<close>

definition cleanupBlocksWhenHighDiskUtilization ::
    "('w \<Rightarrow> errs) \<Rightarrow> (string \<Rightarrow> 'w \<Rightarrow> (errs + VolumeStats) \<times> 'w) \<Rightarrow> 'w fileSystem \<Rightarrow> ulids \<Rightarrow> string \<Rightarrow> 'w \<Rightarrow> (errs \<times> string list \<times> 'w) option" where
  "cleanupBlocksWhenHighDiskUtilization ctx vc fs ul path w = cleanup_loop ctx vc fs ul path None (replicate 16 0) [] w"

subsection \<open>Joining a directory and a name\<close>

definition is_name :: "string \<Rightarrow> bool" where
  "is_name n \<longleftrightarrow> n \<noteq> '''' \<and> CHR ''/'' \<notin> set n \<and> n \<noteq> ''.'' \<and> n \<noteq> ''..''"

lemma go_split_not_Nil [simp]: "go_split sep s \<noteq> []"
  by (cases "(sep, s)" rule: go_split.cases) (auto split: list.split)

lemma go_split_name [simp]: "sep \<notin> set n \<Longrightarrow> go_split sep n = [n]"
  by (induction n) auto

lemma go_split_snoc: "sep \<notin> set n \<Longrightarrow> go_split sep (p @ sep # n) = go_split sep p @ [n]"
  by (induction p) (auto split: list.split)

lemma go_join_snoc: "go_join sep (xs @ [n]) = (if xs = [] then n else go_join sep xs @ sep @ n)"
  by (induction sep xs rule: go_join.induct) auto

lemma filepath_Clean_out:
  assumes "p \<noteq> ''''" and "rev (fold (clean_elem (hd p = CHR ''/'')) (go_split (CHR ''/'') p) []) = out" and "out \<noteq> []"
  shows "filepath_Clean p = (if hd p = CHR ''/'' then CHR ''/'' # go_join ''/'' out else go_join ''/'' out)"
  using assms by (cases "hd p = CHR ''/''") (auto simp: filepath_Clean_def Let_def)

lemma filepath_Join_name:
  assumes "is_name n"
  obtains q where "filepath_Join [path, n] = q @ n" and "q = '''' \<or> last q = CHR ''/''"
proof (cases "path = ''''")
  case True
  have "hd n \<noteq> CHR ''/''" using assms hd_in_set[of n] unfolding is_name_def by metis
  then have "filepath_Clean n = n" using assms by (simp add: filepath_Clean_def is_name_def clean_elem_def Let_def)
  then show thesis using assms that[of "''''"] True by (simp add: filepath_Join_def is_name_def)
next
  case False
  let ?r = "hd path = CHR ''/''"
  define os where "os = rev (fold (clean_elem ?r) (go_split (CHR ''/'') path) [])"
  have "hd (path @ CHR ''/'' # n) = hd path" using False by simp
  moreover have "rev (fold (clean_elem ?r) (go_split (CHR ''/'') (path @ CHR ''/'' # n)) []) = os @ [n]"
    using assms by (simp add: go_split_snoc is_name_def os_def clean_elem_def)
  ultimately have "filepath_Join [path, n] = (if ?r then CHR ''/'' # go_join ''/'' (os @ [n]) else go_join ''/'' (os @ [n]))"
    using False filepath_Clean_out[of "path @ CHR ''/'' # n" "os @ [n]"] by (simp add: filepath_Join_def)
  then show thesis using that[of "CHR ''/'' # (if os = [] then [] else go_join ''/'' os @ ''/'')"] that[of "if os = [] then [] else go_join ''/'' os @ ''/''"]
    by (cases ?r; cases "os = []") (auto simp: go_join_snoc)
qed

lemma filepath_Base_Join:
  assumes "is_name n"
  shows "filepath_Base (filepath_Join [path, n]) = n"
proof -
  obtain q where q: "filepath_Join [path, n] = q @ n" "q = '''' \<or> last q = CHR ''/''" using assms by (rule filepath_Join_name)
  have n: "rev n \<noteq> []" "CHR ''/'' \<notin> set (rev n)" using assms by (simp_all add: is_name_def)
  then obtain c cs where c: "rev n = c # cs" "c \<noteq> CHR ''/''" by (cases "rev n") auto
  have d: "dropWhile (\<lambda>c. c = CHR ''/'') (rev (q @ n)) = rev n @ rev q" using c by simp
  have "takeWhile (\<lambda>c. c \<noteq> CHR ''/'') (rev q) = []" using q(2) by (cases q rule: rev_cases) auto
  then have "takeWhile (\<lambda>c. c \<noteq> CHR ''/'') (rev n @ rev q) = rev n" using n(2) by (subst takeWhile_append2) auto
  then show ?thesis unfolding q(1) filepath_Base_def d Let_def using n(1) by auto
qed

lemma filepath_Join_inj: "is_name m \<Longrightarrow> is_name n \<Longrightarrow> filepath_Join [path, m] = filepath_Join [path, n] \<Longrightarrow> m = n"
  by (metis filepath_Base_Join)

subsection \<open>The loop ends\<close>

definition avail_left :: "VolumeStats option \<Rightarrow> nat" where
  "avail_left ls = (case ls of None \<Rightarrow> 2 ^ 64 | Some l \<Rightarrow> 2 ^ 64 - 1 - unat (vs_BytesAvailable l))"

lemma avail_left_less:
  "\<not> (case ls of None \<Rightarrow> False | Some l \<Rightarrow> vs_BytesAvailable current \<le> vs_BytesAvailable l) \<Longrightarrow> avail_left (Some current) < avail_left ls"
proof (cases ls)
  case (Some l)
  assume "\<not> (case ls of None \<Rightarrow> False | Some l \<Rightarrow> vs_BytesAvailable current \<le> vs_BytesAvailable l)"
  then have "unat (vs_BytesAvailable l) < unat (vs_BytesAvailable current)" using Some by (simp add: word_le_nat_alt)
  moreover have "unat (vs_BytesAvailable current) < 2 ^ 64" using unsigned_less[where ?'a = nat, of "vs_BytesAvailable current"] by simp
  ultimately show ?thesis using Some by (simp add: avail_left_def)
qed (simp add: avail_left_def)

text \<open>
  A round of the loop either returns or deletes the oldest block and goes on with more space available.  It only deletes after the check reported a high
  utilization and more available bytes than at the round before, and without these it only returns without an error when there is no block.
\<close>

abbreviation not_grown :: "VolumeStats option \<Rightarrow> VolumeStats \<Rightarrow> bool" where
  "not_grown ls current \<equiv> (case ls of None \<Rightarrow> False | Some l \<Rightarrow> vs_BytesAvailable current \<le> vs_BytesAvailable l)"

lemma cleanup_loop_round:
  fixes vc :: "string \<Rightarrow> 'w \<Rightarrow> (errs + VolumeStats) \<times> 'w" and fs :: "'w fileSystem" and path w
  defines "w1 \<equiv> snd (vc path w)"
  defines "w2 \<equiv> snd (fs_ReadDir fs path w1)"
  shows "(\<exists>err w'. cleanup_loop ctx vc fs ul path ls lu del w = Some (err, del, w')
      \<and> (w' = w \<or> w' = w1 \<or> w' = w2 \<or> (\<exists>u e. e \<noteq> [] \<and> fs_RemoveAll fs (filepath_Join [path, id_String ul u]) w2 = (e, w')))
      \<and> (err = [] \<and> fst (vc path w) \<noteq> Inl [] \<and> fst (fs_ReadDir fs path w1) \<noteq> Inl [] \<longrightarrow>
          (\<exists>st. fst (vc path w) = Inr st \<and> (\<not> vs_HighDiskUtilization st \<or> not_grown ls st \<or> (\<exists>files. fst (fs_ReadDir fs path w1) = Inr files \<and> block_ids ul path files = [])))))
    \<or> (\<exists>current files oldest us w'. cleanup_loop ctx vc fs ul path ls lu del w
            = cleanup_loop ctx vc fs ul path (Some current) oldest (del @ [filepath_Join [path, id_String ul oldest]]) w'
        \<and> ctx w = [] \<and> fst (vc path w) = Inr current \<and> vs_HighDiskUtilization current \<and> \<not> not_grown ls current
        \<and> avail_left (Some current) < avail_left ls \<and> fst (fs_ReadDir fs path w1) = Inr files \<and> block_ids ul path files = oldest # us
        \<and> fs_RemoveAll fs (filepath_Join [path, id_String ul oldest]) w2 = ([], w'))" (is "?stop \<or> ?go")
proof -
  let ?r = "cleanup_loop ctx vc fs ul path ls lu del w"
  let ?low = "\<lambda>current. case ls of None \<Rightarrow> False | Some l \<Rightarrow> vs_BytesAvailable current \<le> vs_BytesAvailable l"
  consider (a) "ctx w \<noteq> []" | (b) e where "ctx w = []" "vc path w = (Inl e, w1)"
    | (c) current where "ctx w = []" "vc path w = (Inr current, w1)" "\<not> vs_HighDiskUtilization current \<or> ?low current"
    | (d) current where "ctx w = []" "vc path w = (Inr current, w1)" "vs_HighDiskUtilization current" "\<not> ?low current"
    unfolding w1_def by (cases "vc path w"; cases "fst (vc path w)") auto
  then show ?thesis
  proof cases
    case a
    then have "?r = Some (ctx w, del, w)" by (subst cleanup_loop.simps) simp
    then show ?thesis using a by blast
  next
    case b
    then have "?r = Some (e, del, w1)" by (subst cleanup_loop.simps) simp
    then show ?thesis using b(2) by (intro disjI1 exI[of _ e] exI[of _ w1]) auto
  next
    case c
    then have "?r = Some ([], del, w1)" by (subst cleanup_loop.simps) auto
    then show ?thesis using c(2,3) by (intro disjI1 exI[of _ "[]"] exI[of _ w1]) auto
  next
    case d
    note low = d(4)
    note unroll = cleanup_loop.simps[of ctx vc fs ul path ls lu del w]
    consider (e) err where "fs_ReadDir fs path w1 = (Inl err, w2)" | (f) files where "fs_ReadDir fs path w1 = (Inr files, w2)" "block_ids ul path files = []"
      | (g) files oldest us where "fs_ReadDir fs path w1 = (Inr files, w2)" "block_ids ul path files = oldest # us"
      unfolding w2_def by (cases "fs_ReadDir fs path w1"; cases "fst (fs_ReadDir fs path w1)"; cases "block_ids ul path (projr (fst (fs_ReadDir fs path w1)))") auto
    then show ?thesis
    proof cases
      case e
      then have "?r = Some (err, del, w2)" unfolding unroll using d low by (simp add: listLocalULID_def)
      then show ?thesis using e by (intro disjI1 exI[of _ err] exI[of _ w2]) auto
    next
      case f
      then have "?r = Some ([], del, w2)" unfolding unroll using d low by (simp add: listLocalULID_def)
      then show ?thesis using f d(2) by (intro disjI1 exI[of _ "[]"] exI[of _ w2]) auto
    next
      case g
      let ?p = "filepath_Join [path, id_String ul oldest]"
      obtain err w3 where w3: "fs_RemoveAll fs ?p w2 = (err, w3)" by (cases "fs_RemoveAll fs ?p w2")
      have r: "?r = (if lu = oldest then Some ([''making no progress in deletion''], del, w2)
          else if ?p = path then Some ([''delete path is the same as the root path, this should never happen''], del, w2)
          else if err \<noteq> [] then Some (''failed to delete oldest block'' # err, del, w3)
          else cleanup_loop ctx vc fs ul path (Some current) oldest (del @ [?p]) w3)"
        unfolding unroll using d low g w3 by (simp add: listLocalULID_def)
      show ?thesis
      proof (cases "lu = oldest \<or> ?p = path \<or> err \<noteq> []")
        case True
        then have ?stop using r w3 by (auto split: if_splits)
        then show ?thesis ..
      next
        case False
        then have ?go using r w3 g d avail_left_less[OF low]
          by (intro exI[of _ current] exI[of _ files] exI[of _ oldest] exI[of _ us] exI[of _ w3]) simp
        then show ?thesis ..
      qed
    qed
  qed
qed

lemma cleanup_loop_returns: "\<exists>r. cleanup_loop ctx vc fs ul path ls lu del w = Some r"
proof (induction ls arbitrary: lu del w rule: measure_induct_rule[where f = avail_left])
  case (less ls)
  show ?case using cleanup_loop_round[of ctx vc fs ul path ls lu del w] less by metis
qed

subsection \<open>The oldest blocks are deleted\<close>

interpretation ulid_order: heap_order "(<) :: ulid \<Rightarrow> ulid \<Rightarrow> bool"
  by unfold_locales auto

text \<open>
  What the loop relies on, for the entries of the data directory: listing and checking do not
  change them, a call that fails has an error, removing a child removes its entry or fails (\<open>os.RemoveAll\<close>); names are distinct, and those that
  parse as an ID are written the way \<open>String\<close> writes it.
\<close>

definition directory :: "(string \<Rightarrow> 'w \<Rightarrow> (errs + VolumeStats) \<times> 'w) \<Rightarrow> 'w fileSystem \<Rightarrow> string \<Rightarrow> ('w \<Rightarrow> (string \<times> bool) list) \<Rightarrow> bool" where
  "directory vc fs path entries \<longleftrightarrow>
     (\<forall>w. entries (snd (vc path w)) = entries w) \<and> (\<forall>w. fst (vc path w) \<noteq> Inl [] \<and> fst (fs_ReadDir fs path w) \<noteq> Inl [])
     \<and> (\<forall>w. entries (snd (fs_ReadDir fs path w)) = entries w \<and> (\<forall>es. fst (fs_ReadDir fs path w) = Inr es \<longrightarrow> es = entries w))
     \<and> (\<forall>w n. is_name n \<longrightarrow> entries (snd (fs_RemoveAll fs (filepath_Join [path, n]) w))
          = (if fst (fs_RemoveAll fs (filepath_Join [path, n]) w) = [] then filter (\<lambda>e. fst e \<noteq> n) (entries w) else entries w))"

definition canonical :: "ulids \<Rightarrow> (string \<times> bool) list \<Rightarrow> bool" where
  "canonical ul es \<longleftrightarrow> distinct (map fst es) \<and> (\<forall>e \<in> set es. is_name (fst e) \<and> (\<forall>u. id_Parse ul (fst e) = Some u \<longrightarrow> id_String ul u = fst e))"

lemma set_map_filter: "set (List.map_filter f xs) = {y. \<exists>x \<in> set xs. f x = Some y}"
  by (auto simp: List.map_filter_def image_iff) (metis option.sel)

lemma set_block_ids:
  assumes "canonical ul es"
  shows "u \<in> set (block_ids ul path es) \<longleftrightarrow> (id_String ul u, True) \<in> set es \<and> id_Parse ul (id_String ul u) = Some u"
proof -
  have b: "IsBlockDir ul (filepath_Join [path, n]) = id_Parse ul n" if "(n, d) \<in> set es" for n d
    using assms that unfolding canonical_def IsBlockDir_def by (metis filepath_Base_Join fst_conv)
  have "u \<in> set (block_ids ul path es) \<longleftrightarrow> (\<exists>n d. (n, d) \<in> set es \<and> (if d then IsBlockDir ul (filepath_Join [path, n]) else None) = Some u)"
    unfolding block_ids_def set_sort_slice set_map_filter mem_Collect_eq Bex_def split_paired_Ex prod.case ..
  also have "\<dots> \<longleftrightarrow> (\<exists>n. (n, True) \<in> set es \<and> id_Parse ul n = Some u)"
  proof (intro iffI; elim exE conjE)
    show "\<exists>n. (n, True) \<in> set es \<and> id_Parse ul n = Some u"
      if "(n, d) \<in> set es" "(if d then IsBlockDir ul (filepath_Join [path, n]) else None) = Some u" for n d
      using that b[OF that(1)] by (cases d) auto
    show "\<exists>n d. (n, d) \<in> set es \<and> (if d then IsBlockDir ul (filepath_Join [path, n]) else None) = Some u"
      if "(n, True) \<in> set es" "id_Parse ul n = Some u" for n
      using that b[OF that(1)] by (intro exI[of _ n] exI[of _ True]) simp
  qed
  also have "\<dots> \<longleftrightarrow> (id_String ul u, True) \<in> set es \<and> id_Parse ul (id_String ul u) = Some u"
    using assms unfolding canonical_def by (metis fst_conv)
  finally show ?thesis .
qed

lemma distinct_map_filter:
  "distinct (map fst es) \<Longrightarrow> (\<And>e u. e \<in> set es \<Longrightarrow> f e = Some u \<Longrightarrow> g u = fst e) \<Longrightarrow> distinct (List.map_filter f es)"
proof (induction es)
  case (Cons e es)
  have IH: "distinct (List.map_filter f es)" using Cons by simp
  show ?case
  proof (cases "f e")
    case (Some u)
    have "u \<notin> set (List.map_filter f es)"
    proof
      assume "u \<in> set (List.map_filter f es)"
      then obtain e' where "e' \<in> set es" "f e' = Some u" by (auto simp: set_map_filter)
      then have "fst e' = fst e" using Cons.prems(2)[of e' u] Cons.prems(2)[of e u] Some by simp
      then show False using Cons.prems(1) \<open>e' \<in> set es\<close> by (metis distinct.simps(2) image_eqI list.simps(9) list.set_map)
    qed
    then show ?thesis using IH Some by (simp add: List.map_filter_simps)
  qed (use IH in \<open>simp add: List.map_filter_simps\<close>)
qed (simp add: List.map_filter_simps)

lemma block_ids_sorted:
  assumes "canonical ul es"
  shows "sorted_wrt (<) (block_ids ul path es)"
proof -
  let ?f = "\<lambda>(name, dir). if dir then IsBlockDir ul (filepath_Join [path, name]) else None"
  have "id_String ul u = fst e" if "e \<in> set es" "?f e = Some u" for e u
    using assms that filepath_Base_Join[of "fst e" path] unfolding canonical_def by (cases e) (auto simp: IsBlockDir_def split: if_splits)
  then have "distinct (List.map_filter ?f es)" using assms unfolding canonical_def by (intro distinct_map_filter) auto
  then have "distinct (block_ids ul path es)" unfolding block_ids_def by (subst mset_eq_imp_distinct_iff[OF mset_sort_slice])
  moreover have "sorted (block_ids ul path es)" using ulid_order.sort_slice_sorted by (simp add: block_ids_def not_less)
  ultimately show ?thesis by (simp add: strict_sorted_iff)
qed

lemma distinct_map_filter_fst: "distinct (map fst es) \<Longrightarrow> distinct (map fst (filter P es))"
  by (induction es) auto

lemma block_ids_remove:
  assumes "canonical ul es" and "block_ids ul path es = u # us"
  shows "block_ids ul path (filter (\<lambda>e. fst e \<noteq> id_String ul u) es) = us" and "canonical ul (filter (\<lambda>e. fst e \<noteq> id_String ul u) es)"
proof -
  let ?es = "filter (\<lambda>e. fst e \<noteq> id_String ul u) es"
  show c: "canonical ul ?es" using assms(1) unfolding canonical_def by (simp add: distinct_map_filter_fst)
  have srt: "sorted_wrt (<) (u # us)" using block_ids_sorted[OF assms(1), of path] assms(2) by simp
  have "v \<in> set (block_ids ul path ?es) \<longleftrightarrow> v \<in> set us" for v
  proof -
    have "v \<in> set (block_ids ul path ?es) \<longleftrightarrow> v \<in> set (u # us) \<and> id_String ul v \<noteq> id_String ul u"
      using set_block_ids[OF c] set_block_ids[OF assms(1), of v path] assms(2) by auto
    moreover have "id_String ul v \<noteq> id_String ul u \<longleftrightarrow> v \<noteq> u" if "v \<in> set (u # us)"
      using set_block_ids[OF assms(1), of v path] set_block_ids[OF assms(1), of u path] assms(2) that by (metis list.set_intros(1) option.inject)
    ultimately show ?thesis using srt by auto
  qed
  then have "set (block_ids ul path ?es) = set us" by blast
  then show "block_ids ul path ?es = us"
    using block_ids_sorted[OF c, of path] srt strict_sorted_equal[of "block_ids ul path ?es" us] by simp
qed

text \<open>
  The deletions of a run: before each the volume was checked, in a state in which the blocks before it were deleted, and the
  utilization was high, with more available bytes every time.
\<close>

definition warranted :: "('w \<Rightarrow> errs) \<Rightarrow> (string \<Rightarrow> 'w \<Rightarrow> (errs + VolumeStats) \<times> 'w) \<Rightarrow> string \<Rightarrow> VolumeStats option \<Rightarrow> ('w \<times> VolumeStats) list \<Rightarrow> bool" where
  "warranted ctx vc path ls checks \<longleftrightarrow>
     (\<forall>(w, st) \<in> set checks. ctx w = [] \<and> fst (vc path w) = Inr st \<and> vs_HighDiskUtilization st)
     \<and> sorted_wrt (\<lambda>a b. vs_BytesAvailable a < vs_BytesAvailable b) ((case ls of None \<Rightarrow> [] | Some l \<Rightarrow> [l]) @ map snd checks)"

text \<open>The last check of a run, before which the last deletion was made at \<open>l\<close>, allows to stop.\<close>

definition may_stop :: "(string \<Rightarrow> 'w \<Rightarrow> (errs + VolumeStats) \<times> 'w) \<Rightarrow> string \<Rightarrow> VolumeStats option \<Rightarrow> 'w \<Rightarrow> ulid list \<Rightarrow> bool" where
  "may_stop vc path l w ids \<longleftrightarrow> (\<exists>st. fst (vc path w) = Inr st \<and> (\<not> vs_HighDiskUtilization st \<or> not_grown l st \<or> ids = []))"

abbreviation last_of :: "VolumeStats option \<Rightarrow> ('w \<times> VolumeStats) list \<Rightarrow> VolumeStats option" where
  "last_of ls checks \<equiv> (if checks = [] then ls else Some (snd (last checks)))"

lemma warranted_Cons:
  assumes "ctx w = []" "fst (vc path w) = Inr st" "vs_HighDiskUtilization st" "\<not> not_grown ls st" "warranted ctx vc path (Some st) checks"
  shows "warranted ctx vc path ls ((w, st) # checks)"
  using assms by (cases ls) (auto simp: warranted_def)

lemma cleanup_loop_oldest:
  assumes dir: "directory vc fs path entries" and names: "\<forall>u. is_name (id_String ul u)" and "canonical ul (entries w)"
  shows "\<exists>err k w' checks. cleanup_loop ctx vc fs ul path ls lu del w
      = Some (err, del @ map (\<lambda>u. filepath_Join [path, id_String ul u]) (take k (block_ids ul path (entries w))), w')
    \<and> block_ids ul path (entries w') = drop k (block_ids ul path (entries w))
    \<and> entries w' = filter (\<lambda>e. fst e \<notin> id_String ul ` set (take k (block_ids ul path (entries w)))) (entries w)
    \<and> length checks = k \<and> k \<le> length (block_ids ul path (entries w)) \<and> warranted ctx vc path ls checks
    \<and> (\<forall>j < k. entries (fst (checks ! j)) = filter (\<lambda>e. fst e \<notin> id_String ul ` set (take j (block_ids ul path (entries w)))) (entries w))
    \<and> (err = [] \<longrightarrow> (\<exists>wl. entries wl = entries w' \<and> may_stop vc path (last_of ls checks) wl (block_ids ul path (entries w'))))"
  using assms(3)
proof (induction ls arbitrary: lu del w rule: measure_induct_rule[where f = avail_left])
  case (less ls)
  let ?ids = "block_ids ul path (entries w)"
  define w1 where "w1 = snd (vc path w)"
  define w2 where "w2 = snd (fs_ReadDir fs path w1)"
  have e: "entries w1 = entries w" "entries w2 = entries w" "\<And>es. fst (fs_ReadDir fs path w1) = Inr es \<Longrightarrow> es = entries w"
      "fst (vc path w) \<noteq> Inl []" "fst (fs_ReadDir fs path w1) \<noteq> Inl []"
    using dir unfolding w1_def w2_def directory_def by (metis)+
  have rm: "entries w' = (if err = [] then filter (\<lambda>e. fst e \<noteq> id_String ul u) (entries w) else entries w)"
    if "fs_RemoveAll fs (filepath_Join [path, id_String ul u]) w2 = (err, w')" for u err w'
    using dir names e(2) that unfolding directory_def by (metis fst_conv snd_conv)
  from cleanup_loop_round[of ctx vc fs ul path ls lu del w, folded w1_def, folded w2_def]
  consider (stop) err w' where "cleanup_loop ctx vc fs ul path ls lu del w = Some (err, del, w')" "entries w' = entries w"
        "err = [] \<Longrightarrow> may_stop vc path ls w ?ids"
    | (go) current oldest us w' where "cleanup_loop ctx vc fs ul path ls lu del w
            = cleanup_loop ctx vc fs ul path (Some current) oldest (del @ [filepath_Join [path, id_String ul oldest]]) w'"
        "avail_left (Some current) < avail_left ls" "?ids = oldest # us" "entries w' = filter (\<lambda>e. fst e \<noteq> id_String ul oldest) (entries w)"
        "ctx w = []" "fst (vc path w) = Inr current" "vs_HighDiskUtilization current" "\<not> not_grown ls current"
  proof (elim disjE[of "Ex _" "Ex _"] exE conjE, goal_cases)
    case (1 err w')
    from 1(4) have en: "entries w' = entries w" using e(1,2) by (elim disjE exE conjE) (simp_all add: rm)
    have "may_stop vc path ls w ?ids" if z: "err = []"
    proof -
      obtain st where st: "fst (vc path w) = Inr st" "\<not> vs_HighDiskUtilization st \<or> not_grown ls st \<or> (\<exists>files. fst (fs_ReadDir fs path w1) = Inr files \<and> block_ids ul path files = [])"
        using 1(5) z e(4,5) by blast
      have "?ids = []" if f: "fst (fs_ReadDir fs path w1) = Inr files" "block_ids ul path files = []" for files using e(3)[OF f(1)] f(2) by simp
      then show ?thesis unfolding may_stop_def using st by blast
    qed
    then show ?case using 1(1)[OF 1(3) en] by blast
  next
    case (2 current files oldest us w')
    then have "?ids = oldest # us" "entries w' = filter (\<lambda>e. fst e \<noteq> id_String ul oldest) (entries w)"
      using rm[of oldest "[]" w'] e(3)[of files] by simp_all
    then show ?case using 2 by blast
  qed
  then show ?case
  proof cases
    case stop
    then show ?thesis by (intro exI[of _ err] exI[of _ 0] exI[of _ w'] exI[of _ "[]"]) (auto simp: warranted_def split: option.split)
  next
    case go
    note r = block_ids_remove[OF less.prems go(3), folded go(4)]
    from less.IH[OF go(2) r(2), of oldest "del @ [filepath_Join [path, id_String ul oldest]]"] obtain err k w'' checks where k:
      "cleanup_loop ctx vc fs ul path ls lu del w = Some (err, (del @ [filepath_Join [path, id_String ul oldest]]) @ map (\<lambda>u. filepath_Join [path, id_String ul u]) (take k us), w'')"
      "block_ids ul path (entries w'') = drop k us" "entries w'' = filter (\<lambda>e. fst e \<notin> id_String ul ` set (take k us)) (entries w')"
      "length checks = k" "k \<le> length us" "warranted ctx vc path (Some current) checks"
      "\<forall>j < k. entries (fst (checks ! j)) = filter (\<lambda>e. fst e \<notin> id_String ul ` set (take j us)) (entries w')"
      "err = [] \<longrightarrow> (\<exists>wl. entries wl = entries w'' \<and> may_stop vc path (last_of (Some current) checks) wl (block_ids ul path (entries w'')))"
      unfolding go(1) r(1) by blast
    let ?checks = "(w, current) # checks"
    have cut: "filter (\<lambda>e. fst e \<notin> id_String ul ` set (take j us)) (entries w') = filter (\<lambda>e. fst e \<notin> id_String ul ` set (take (Suc j) ?ids)) (entries w)" for j
      unfolding go(3,4) by (auto intro!: filter_cong)
    have "entries (fst (?checks ! j)) = filter (\<lambda>e. fst e \<notin> id_String ul ` set (take j ?ids)) (entries w)" if "j < Suc k" for j
      using that k(7) cut by (cases j) auto
    moreover have "warranted ctx vc path ls ?checks" using go(5-8) k(6) by (rule warranted_Cons)
    moreover have "last_of ls ?checks = last_of (Some current) checks" by simp
    ultimately show ?thesis using k(1-5,8) go(3) cut[of k]
      by (intro exI[of _ err] exI[of _ "Suc k"] exI[of _ w''] exI[of _ ?checks]) (simp only: length_Cons, simp)
  qed
qed

text \<open>
  C34. The cleanup ends, whatever the file system and the check of the volume answer: every further round needs
  more available bytes than the round before, and bytes are counted in 64 bits.
\<close>

theorem cleanup_returns:
  "\<exists>err deleted w'. cleanupBlocksWhenHighDiskUtilization ctx vc fs ul path w = Some (err, deleted, w')"
  using cleanup_loop_returns unfolding cleanupBlocksWhenHighDiskUtilization_def by (metis prod_cases3)

text \<open>
  C33. What the cleanup deletes, whether it ends with an error or not, in a data directory in which the names that parse as an ID are written the way \<open>String\<close> writes
  the ID: the oldest blocks, in order of their IDs, each through its own path in the directory. All newer blocks and all other entries are still there.
  Before every single deletion the volume was checked, in a state in which exactly the blocks before it were gone, and the utilization was high, with more available bytes at every
  check than at the one before.  If the cleanup ends without an error, then its last check, after the last deletion, found no high utilization or no more available bytes
  than before, or there was no block left.
\<close>

theorem cleanup_deletes_oldest:
  assumes dir: "directory vc fs path entries" and names: "\<forall>u. is_name (id_String ul u)" and can: "canonical ul (entries w)"
  shows "\<exists>err k w' checks. cleanupBlocksWhenHighDiskUtilization ctx vc fs ul path w
      = Some (err, map (\<lambda>u. filepath_Join [path, id_String ul u]) (take k (block_ids ul path (entries w))), w')
    \<and> block_ids ul path (entries w') = drop k (block_ids ul path (entries w))
    \<and> entries w' = filter (\<lambda>e. fst e \<notin> id_String ul ` set (take k (block_ids ul path (entries w)))) (entries w)
    \<and> length checks = k \<and> k \<le> length (block_ids ul path (entries w)) \<and> warranted ctx vc path None checks
    \<and> (\<forall>j < k. entries (fst (checks ! j)) = filter (\<lambda>e. fst e \<notin> id_String ul ` set (take j (block_ids ul path (entries w)))) (entries w))
    \<and> (err = [] \<longrightarrow> (\<exists>wl. entries wl = entries w' \<and> may_stop vc path (last_of None checks) wl (block_ids ul path (entries w'))))"
  using cleanup_loop_oldest[OF assms, of ctx None "replicate 16 0" "[]"] by (simp add: cleanupBlocksWhenHighDiskUtilization_def)

text \<open>A volume with a number of free bytes and a directory: removing an entry frees 45 bytes.\<close>

definition demo_volume :: "string \<Rightarrow> u64 \<times> (string \<times> bool) list \<Rightarrow> (errs + VolumeStats) \<times> (u64 \<times> (string \<times> bool) list)" where
  "demo_volume path w = (HasHighDiskUtilization (\<lambda>w. Inr \<lparr>sf_Bavail = fst w, sf_Bsize = 1, sf_Blocks = 1000\<rparr>) 100 (\<lambda>a b. b < 4 * a) w, w)"

definition demo_fs :: "(u64 \<times> (string \<times> bool) list) fileSystem" where
  "demo_fs = \<lparr>fs_ReadDir = (\<lambda>p w. (Inr (snd w), w)),
     fs_RemoveAll = (\<lambda>p (free, es). ([], (free + 45, filter (\<lambda>e. fst e \<noteq> filepath_Base p) es)))\<rparr>"

definition demo_ulids :: ulids where
  "demo_ulids = \<lparr>id_Parse = (\<lambda>n. case n of c # cs \<Rightarrow> if c = CHR ''B'' \<and> set cs \<subseteq> {CHR ''0'', CHR ''1''} then Some (map (\<lambda>c. if c = CHR ''0'' then 0 else 1) cs) else None | [] \<Rightarrow> None),
     id_String = (\<lambda>u. CHR ''B'' # map (\<lambda>b. if b = 0 then CHR ''0'' else CHR ''1'') u)\<rparr>"

lemma demo_directory: "directory demo_volume demo_fs path snd"
  by (simp add: directory_def demo_volume_def demo_fs_def filepath_Base_Join HasHighDiskUtilization_def Let_def split: prod.split)

lemma demo_names: "is_name (id_String demo_ulids u)"
  by (auto simp: is_name_def demo_ulids_def)

lemma demo_Parse: "id_Parse demo_ulids n = Some u \<Longrightarrow> id_String demo_ulids u = n"
proof (cases n)
  case (Cons c cs)
  have char: "(if (if x = CHR ''0'' then 0 else 1 :: u8) = 0 then CHR ''0'' else CHR ''1'') = x" if "x \<in> set cs" "set cs \<subseteq> {CHR ''0'', CHR ''1''}" for x
    using that by fastforce
  assume "id_Parse demo_ulids n = Some u"
  then have "c = CHR ''B''" "set cs \<subseteq> {CHR ''0'', CHR ''1''}" "u = map (\<lambda>c. if c = CHR ''0'' then 0 else 1) cs"
    using Cons by (auto simp: demo_ulids_def split: if_splits)
  then show ?thesis using Cons char by (simp add: demo_ulids_def map_idI)
qed (simp add: demo_ulids_def)

lemma cleanup_example:
  "cleanupBlocksWhenHighDiskUtilization (\<lambda>w. []) demo_volume demo_fs demo_ulids ''data/local'' (10, [(''B1'', True), (''B01'', True), (''B'', False), (''BB'', True)])
    = Some ([], [''data/local/B01'', ''data/local/B1''], (100, [(''B'', False), (''BB'', True)]))"
  by code_simp

text \<open>Both blocks are deleted: there are 10 and 55 bytes available at the two checks, and 100 at the last one.\<close>

theorem cleanup_deletes_oldest_witness:
  "\<exists>w' checks. cleanupBlocksWhenHighDiskUtilization (\<lambda>w. []) demo_volume demo_fs demo_ulids ''data/local'' (10, [(''B1'', True), (''B01'', True), (''B'', False), (''BB'', True)])
      = Some ([], [''data/local/B01'', ''data/local/B1''], w')
    \<and> block_ids demo_ulids ''data/local'' (snd w') = [] \<and> length checks = 2 \<and> warranted (\<lambda>w. []) demo_volume ''data/local'' None checks"
proof -
  let ?es = "[(''B1'', True), (''B01'', True), (''B'', False), (''BB'', True)]"
  have "canonical demo_ulids ?es" unfolding canonical_def using demo_Parse by (auto simp: is_name_def)
  then have c: "canonical demo_ulids (snd (10 :: u64, ?es))" by simp
  have ids: "block_ids demo_ulids ''data/local'' (snd (10 :: u64, ?es)) = [[0, 1], [1]]" by code_simp
  obtain err k w' checks where r: "cleanupBlocksWhenHighDiskUtilization (\<lambda>w. []) demo_volume demo_fs demo_ulids ''data/local'' (10, ?es)
      = Some (err, map (\<lambda>u. filepath_Join [''data/local'', id_String demo_ulids u]) (take k [[0, 1], [1]]), w')"
    "block_ids demo_ulids ''data/local'' (snd w') = drop k [[0, 1], [1]]" "length checks = k" "k \<le> length [[0, 1], [1 :: u8]]" "warranted (\<lambda>w. []) demo_volume ''data/local'' None checks"
    using cleanup_deletes_oldest[where entries = snd, OF demo_directory[of "''data/local''"] allI[OF demo_names] c, of "\<lambda>w. []", unfolded ids] by blast
  from r(1) have "length (take k [[0, 1], [1 :: u8]]) = 2" unfolding cleanup_example by (auto dest: arg_cong[where f = length])
  then have "k = 2" using r(4) by simp
  then show ?thesis using r(2,3,5) unfolding cleanup_example by (intro exI[of _ w'] exI[of _ checks]) (use r(1) cleanup_example in simp)
qed

end
