(* ===== verification/Block_Querier.thy ===== *)
theory Block_Querier
  imports Disk_Cleanup
begin

section \<open>The blocks of a tenant (pkg/phlaredb/block_querier.go)\<close>

text \<open>
  \<open>BlockQuerier\<close> keeps one querier per block of the bucket.  \<open>Sync\<close> lists the blocks, keeps the queriers of
  those that are still there, makes queriers for the new ones and closes the rest.  Queriers are pointers: the model numbers
  them in the order of their creation and notes which of them \<open>Close\<close> was called on.  The bucket, the
  decoding of metadata files and the outcome of \<open>Close\<close> are arguments; so is the order in which Go
  iterates over a map.  A panic is \<open>None\<close>.
\<close>

subsection \<open>Metadata of the blocks\<close>

record Meta =
  me_ULID :: ulid
  me_MinTime :: i64
  me_MaxTime :: i64

record metaSource =
  ms_Iter :: "errs + string list"
  ms_Get :: "ulid \<Rightarrow> errs + u8 list"
  ms_IsObjNotFoundErr :: "errs \<Rightarrow> bool"
  ms_reconstruct :: "ulid \<Rightarrow> errs + Meta"
  ms_Read :: "u8 list \<Rightarrow> errs \<times> Meta option"

text \<open>A querier, with the number that stands for its address.\<close>

record singleBlockQuerier =
  sb_ptr :: nat
  sb_meta :: Meta

record BlockQuerier =
  bq_logger :: bool
  bq_queriers :: "singleBlockQuerier list"
  bq_next :: nat
  bq_closed :: "nat list"

definition NewBlockQuerier :: BlockQuerier where
  "NewBlockQuerier = \<lparr>bq_logger = False, bq_queriers = [], bq_next = 0, bq_closed = []\<rparr>"

text \<open>
  The metadata of one block, \<open>None\<close> inside for nil.  Everything that goes wrong is logged, and without a
  logger that is a nil dereference.  \<open>Read\<close> can return metadata together with an error.
\<close>

definition load_meta :: "bool \<Rightarrow> metaSource \<Rightarrow> ulid \<Rightarrow> Meta option option" where
  "load_meta logger ms name =
     (case ms_Get ms name of
        Inl err \<Rightarrow>
          if ms_IsObjNotFoundErr ms err then
            if \<not> logger then None
            else Some (case ms_reconstruct ms name of Inl err \<Rightarrow> None | Inr meta \<Rightarrow> Some meta)
          else if \<not> logger then None else Some None
      | Inr r \<Rightarrow>
          (case ms_Read ms r of (err, meta) \<Rightarrow> if err \<noteq> [] \<and> \<not> logger then None else Some meta))"

fun load_all :: "bool \<Rightarrow> metaSource \<Rightarrow> ulid list \<Rightarrow> Meta option list option" where
  "load_all logger ms [] = Some []"
| "load_all logger ms (n # ns) = do { m \<leftarrow> load_meta logger ms n; ms' \<leftarrow> load_all logger ms ns; Some (m # ms') }"

definition meta_less :: "Meta option \<Rightarrow> Meta option \<Rightarrow> bool" where
  "meta_less a b =
     (case a of None \<Rightarrow> False
      | Some x \<Rightarrow> (case b of None \<Rightarrow> True | Some y \<Rightarrow> me_MinTime x <s me_MinTime y))"

text \<open>\<open>metas[0 : pos+1]\<close>, where \<open>pos\<close> is the last index that is not nil.\<close>

definition cut_nil :: "Meta option list \<Rightarrow> Meta option list" where
  "cut_nil metas = rev (dropWhile (\<lambda>m. m = None) (rev metas))"

definition BlockMetas :: "ulids \<Rightarrow> metaSource \<Rightarrow> BlockQuerier \<Rightarrow> (errs + Meta option list) option" where
  "BlockMetas ul ms b =
     (case ms_Iter ms of
        Inl err \<Rightarrow> Some (Inl err)
      | Inr objects \<Rightarrow> do {
          metas \<leftarrow> load_all (bq_logger b) ms (List.map_filter (IsBlockDir ul) objects);
          Some (Inr (cut_nil (sort_slice meta_less metas))) })"

subsection \<open>Sync\<close>

definition by_ulid :: "singleBlockQuerier list \<Rightarrow> (ulid \<times> singleBlockQuerier) list" where
  "by_ulid queriers = fold (\<lambda>q m. AList.update (me_ULID (sb_meta q)) q m) queriers []"

text \<open>The loop over the observed metadata; a nil among them would be dereferenced.\<close>

fun take_queriers :: "Meta option list \<Rightarrow> (ulid \<times> singleBlockQuerier) list \<Rightarrow> nat \<Rightarrow> (singleBlockQuerier list \<times> (ulid \<times> singleBlockQuerier) list \<times> nat) option" where
  "take_queriers [] querierByULID n = Some ([], querierByULID, n)"
| "take_queriers (None # metas) querierByULID n = None"
| "take_queriers (Some m # metas) querierByULID n =
     (case map_of querierByULID (me_ULID m) of
        Some q \<Rightarrow> do {
          (qs, rest', n) \<leftarrow> take_queriers metas (AList.delete (me_ULID m) querierByULID) n;
          Some (q # qs, rest', n) }
      | None \<Rightarrow> do {
          (qs, rest', n') \<leftarrow> take_queriers metas querierByULID (n + 1);
          Some (\<lparr>sb_ptr = n, sb_meta = m\<rparr> # qs, rest', n') })"

definition querier_less :: "singleBlockQuerier \<Rightarrow> singleBlockQuerier \<Rightarrow> bool" where
  "querier_less a b \<longleftrightarrow> me_MinTime (sb_meta a) <s me_MinTime (sb_meta b)"

fun close_queriers :: "(nat \<Rightarrow> errs) \<Rightarrow> singleBlockQuerier list \<Rightarrow> nat list \<Rightarrow> errs \<times> nat list" where
  "close_queriers close [] closed = ([], closed)"
| "close_queriers close (q # qs) closed =
     (if close (sb_ptr q) \<noteq> [] then (close (sb_ptr q), closed @ [sb_ptr q]) else close_queriers close qs (closed @ [sb_ptr q]))"

definition Sync :: "ulids \<Rightarrow> metaSource \<Rightarrow> (singleBlockQuerier list \<Rightarrow> singleBlockQuerier list) \<Rightarrow> (nat \<Rightarrow> errs) \<Rightarrow> BlockQuerier \<Rightarrow> (errs \<times> BlockQuerier) option" where
  "Sync ul ms order close b = do {
     r \<leftarrow> BlockMetas ul ms b;
     case r of
       Inl err \<Rightarrow> Some (err, b)
     | Inr observedMetas \<Rightarrow> do {
         (qs, querierByULID, n) \<leftarrow> take_queriers observedMetas (by_ulid (bq_queriers b)) (bq_next b);
         let b = b\<lparr>bq_queriers := sort_slice querier_less qs, bq_next := n\<rparr>;
         (case close_queriers close (order (map snd querierByULID)) (bq_closed b) of (err, closed) \<Rightarrow>
            Some (err, b\<lparr>bq_closed := closed\<rparr>)) } }"

definition bq_Close :: "(nat \<Rightarrow> errs) \<Rightarrow> BlockQuerier \<Rightarrow> errs \<times> BlockQuerier" where
  "bq_Close close b = (concat (map (\<lambda>q. close (sb_ptr q)) (bq_queriers b)), b\<lparr>bq_closed := bq_closed b @ map sb_ptr (bq_queriers b)\<rparr>)"

subsection \<open>Metadata in order\<close>

interpretation meta_order: heap_order meta_less
proof
  fix a b c :: "Meta option"
  have key: "meta_less x y \<longleftrightarrow> x \<noteq> None \<and> (y \<noteq> None \<longrightarrow> sint (me_MinTime (the x)) < sint (me_MinTime (the y)))" for x y
    by (cases x; cases y) (simp_all add: meta_less_def word_sless_alt)
  show "\<not> meta_less a b" if "meta_less b a" using that unfolding key by auto
  show "\<not> meta_less a c" if "\<not> meta_less a b" "\<not> meta_less b c" using that unfolding key by auto
qed

interpretation querier_order: heap_order querier_less
  by unfold_locales (auto simp: querier_less_def word_sless_alt)

lemma cut_nil_filter: "sorted_wrt (\<lambda>a b. \<not> meta_less b a) xs \<Longrightarrow> cut_nil xs = filter (\<lambda>m. m \<noteq> None) xs"
proof (induction xs rule: rev_induct)
  case (snoc x xs)
  show ?case
  proof (cases x)
    case None
    then show ?thesis using snoc by (simp add: cut_nil_def sorted_wrt_append)
  next
    case (Some m)
    have "\<not> meta_less x y" if "y \<in> set xs" for y using snoc.prems that by (simp add: sorted_wrt_append)
    moreover have "meta_less x None" using Some by (simp add: meta_less_def)
    ultimately have "\<forall>y \<in> set xs. y \<noteq> None" by metis
    then have "filter (\<lambda>m. m \<noteq> None) xs = xs" by simp
    then show ?thesis using Some by (simp add: cut_nil_def)
  qed
qed (simp add: cut_nil_def)

lemma BlockMetas_sorted:
  assumes "BlockMetas ul ms b = Some (Inr metas)"
  shows "\<exists>ys. metas = map Some ys \<and> sorted (map (\<lambda>m. sint (me_MinTime m)) ys)"
proof -
  from assms obtain ns xs where x: "ms_Iter ms = Inr ns" "load_all (bq_logger b) ms (List.map_filter (IsBlockDir ul) ns) = Some xs"
    "metas = cut_nil (sort_slice meta_less xs)" by (auto simp: BlockMetas_def split: sum.splits bind_splits)
  let ?zs = "filter (\<lambda>m. m \<noteq> None) (sort_slice meta_less xs)"
  have m: "metas = ?zs" using x(3) cut_nil_filter meta_order.sort_slice_sorted by metis
  have s: "sorted_wrt (\<lambda>a b. \<not> meta_less b a) ?zs" using meta_order.sort_slice_sorted by (rule sorted_wrt_filter)
  have zs: "?zs = map Some (map the ?zs)" by (rule sym, unfold map_map, rule map_idI) auto
  moreover have "sorted (map (\<lambda>m. sint (me_MinTime m)) (map the ?zs))"
  proof -
    have "sorted_wrt (\<lambda>a b. \<not> meta_less b a) (map Some (map the ?zs))" using s zs by metis
    then show ?thesis unfolding sorted_wrt_map by (rule sorted_wrt_mono_rel[rotated]) (auto simp: meta_less_def word_sless_alt not_less)
  qed
  ultimately show ?thesis using m by metis
qed

subsection \<open>Pointers are kept or closed\<close>

abbreviation uid :: "singleBlockQuerier \<Rightarrow> ulid" where
  "uid q \<equiv> me_ULID (sb_meta q)"

lemma update_fresh: "k \<notin> fst ` set m \<Longrightarrow> AList.update k v m = m @ [(k, v)]"
  by (induction m) auto

lemma by_ulid_map: "distinct (map uid qs) \<Longrightarrow> by_ulid qs = map (\<lambda>q. (uid q, q)) qs"
proof -
  have "fold (\<lambda>q m. AList.update (uid q) q m) qs m = m @ map (\<lambda>q. (uid q, q)) qs" if "distinct (map uid qs)" "fst ` set m \<inter> uid ` set qs = {}" for m
    using that
  proof (induction qs arbitrary: m)
    case (Cons q qs)
    have "uid q \<notin> fst ` set m" using Cons.prems by auto
    moreover have "fst ` set (m @ [(uid q, q)]) \<inter> uid ` set qs = {}" using Cons.prems by auto
    ultimately show ?case using Cons.IH[of "m @ [(uid q, q)]"] Cons.prems by (simp add: update_fresh)
  qed simp
  from this[of "[]"] show "distinct (map uid qs) \<Longrightarrow> by_ulid qs = map (\<lambda>q. (uid q, q)) qs" by (simp add: by_ulid_def)
qed

lemma mset_delete:
  assumes "distinct (map fst m)" and "map_of m k = Some v"
  shows "mset m = add_mset (k, v) (mset (AList.delete k m))"
  using assms
proof (induction m)
  case (Cons e m)
  show ?case
  proof (cases "fst e = k")
    case True
    then have "k \<notin> fst ` set m" using Cons.prems(1) by auto
    then have "AList.delete k m = m" by (rule AList.delete_id)
    then show ?thesis using True Cons.prems(2) by (cases e) (auto simp: AList.delete_eq)
  next
    case False
    then show ?thesis using Cons by (cases e) (auto simp: AList.delete_eq)
  qed
qed simp

definition lookup_ok :: "(ulid \<times> singleBlockQuerier) list \<Rightarrow> bool" where
  "lookup_ok m \<longleftrightarrow> distinct (map fst m) \<and> (\<forall>e \<in> set m. fst e = uid (snd e))"

lemma fst_not_in: "u \<notin> fst ` S \<Longrightarrow> {e \<in> S. fst e \<noteq> u \<and> P e} = {e \<in> S. P e}" "u \<notin> fst ` S \<Longrightarrow> e \<in> S \<Longrightarrow> fst e \<noteq> u"
  by force+

lemma take_queriers_ok:
  assumes "lookup_ok m" and "distinct (map me_ULID ms)"
  shows "\<exists>qs m' n'. take_queriers (map Some ms) m n = Some (qs, m', n') \<and> n \<le> n' \<and> map uid qs = map me_ULID ms \<and> lookup_ok m'
    \<and> mset (map sb_ptr qs) + mset (map (\<lambda>e. sb_ptr (snd e)) m') = mset (map (\<lambda>e. sb_ptr (snd e)) m) + mset [n..<n']
    \<and> set m' = {e \<in> set m. fst e \<notin> me_ULID ` set ms} \<and> (\<forall>e \<in> set m. fst e \<in> me_ULID ` set ms \<longrightarrow> snd e \<in> set qs)"
  using assms
proof (induction ms arbitrary: m n)
  case Nil
  then show ?case by auto
next
  case (Cons x ms)
  let ?u = "me_ULID x"
  have d: "distinct (map me_ULID ms)" "?u \<notin> me_ULID ` set ms" using Cons.prems(2) by auto
  have dm: "distinct (map fst m)" using Cons.prems(1) by (simp add: lookup_ok_def)
  show ?case
  proof (cases "map_of m ?u")
    case None
    then have nu: "?u \<notin> fst ` set m" by (simp add: map_of_eq_None_iff)
    from Cons.IH[OF Cons.prems(1) d(1), of "n + 1"] obtain qs m' n' where r: "take_queriers (map Some ms) m (n + 1) = Some (qs, m', n')" "n + 1 \<le> n'"
      "map uid qs = map me_ULID ms" "lookup_ok m'" "mset (map sb_ptr qs) + mset (map (\<lambda>e. sb_ptr (snd e)) m') = mset (map (\<lambda>e. sb_ptr (snd e)) m) + mset [n + 1..<n']"
      "set m' = {e \<in> set m. fst e \<notin> me_ULID ` set ms}" "\<forall>e \<in> set m. fst e \<in> me_ULID ` set ms \<longrightarrow> snd e \<in> set qs" by blast
    let ?q = "\<lparr>sb_ptr = n, sb_meta = x\<rparr>"
    have "take_queriers (map Some (x # ms)) m n = Some (?q # qs, m', n')" using None r(1) by simp
    moreover have "mset (map sb_ptr (?q # qs)) + mset (map (\<lambda>e. sb_ptr (snd e)) m') = mset (map (\<lambda>e. sb_ptr (snd e)) m) + mset [n..<n']"
      using r(2,5) by (simp add: upt_conv_Cons[of n n'])
    moreover have "set m' = {e \<in> set m. fst e \<notin> me_ULID ` set (x # ms)}" "\<forall>e \<in> set m. fst e \<in> me_ULID ` set (x # ms) \<longrightarrow> snd e \<in> set (?q # qs)"
      using r(6,7) nu by (simp_all add: fst_not_in)
    ultimately show ?thesis using r(2-4) by (intro exI[of _ "?q # qs"] exI[of _ m'] exI[of _ n']) simp
  next
    case (Some q)
    let ?m = "AList.delete ?u m"
    have q: "(?u, q) \<in> set m" "uid q = ?u" using Some Cons.prems(1) by (auto simp: lookup_ok_def dest: map_of_SomeD)
    have dl: "set ?m = {e \<in> set m. fst e \<noteq> ?u}" by (auto simp: AList.delete_eq)
    have lk: "lookup_ok ?m" using Cons.prems(1) dl by (simp add: lookup_ok_def distinct_delete)
    have ms: "mset m = add_mset (?u, q) (mset ?m)" using mset_delete[OF dm Some] .
    from Cons.IH[OF lk d(1), of n] obtain qs m' n' where r: "take_queriers (map Some ms) ?m n = Some (qs, m', n')" "n \<le> n'"
      "map uid qs = map me_ULID ms" "lookup_ok m'" "mset (map sb_ptr qs) + mset (map (\<lambda>e. sb_ptr (snd e)) m') = mset (map (\<lambda>e. sb_ptr (snd e)) ?m) + mset [n..<n']"
      "set m' = {e \<in> set ?m. fst e \<notin> me_ULID ` set ms}" "\<forall>e \<in> set ?m. fst e \<in> me_ULID ` set ms \<longrightarrow> snd e \<in> set qs" by blast
    have "take_queriers (map Some (x # ms)) m n = Some (q # qs, m', n')" using Some r(1) by simp
    moreover have "mset (map sb_ptr (q # qs)) + mset (map (\<lambda>e. sb_ptr (snd e)) m') = mset (map (\<lambda>e. sb_ptr (snd e)) m) + mset [n..<n']"
      using r(5) ms by (simp add: mset_map)
    moreover have "set m' = {e \<in> set m. fst e \<notin> me_ULID ` set (x # ms)}" using r(6) dl by auto
    moreover have "snd e \<in> set (q # qs)" if "e \<in> set m" "fst e \<in> me_ULID ` set (x # ms)" for e
    proof (cases "fst e = ?u")
      case True
      then have "snd e = q" using that(1) q(1) dm by (metis eq_key_imp_eq_value prod.collapse)
      then show ?thesis by simp
    next
      case False
      then have "e \<in> set ?m" "fst e \<in> me_ULID ` set ms" using dl that by auto
      then show ?thesis using r(7) by simp
    qed
    ultimately show ?thesis using r(2-4) q(2) by (intro exI[of _ "q # qs"] exI[of _ m'] exI[of _ n']) auto
  qed
qed

lemma close_queriers_all: "\<forall>p. close p = [] \<Longrightarrow> close_queriers close qs closed = ([], closed @ map sb_ptr qs)"
  by (induction qs arbitrary: closed) auto

text \<open>Every querier that was ever made is listed or was closed, and only once; blocks have one querier.\<close>

definition bq_inv :: "BlockQuerier \<Rightarrow> bool" where
  "bq_inv b \<longleftrightarrow> distinct (map uid (bq_queriers b)) \<and> mset (map sb_ptr (bq_queriers b)) + mset (bq_closed b) = mset [0..<bq_next b]"

lemma NewBlockQuerier_inv: "bq_inv NewBlockQuerier"
  by (simp add: bq_inv_def NewBlockQuerier_def)

lemma snd_pairs: "snd ` {e \<in> (\<lambda>q. (f q, q)) ` Q. fst e \<notin> X} = {q \<in> Q. f q \<notin> X}"
  by force

lemma distinct_uid_mset: "mset (map uid qs) = mset us \<Longrightarrow> distinct us \<Longrightarrow> distinct (map uid qs)"
  by (metis mset_eq_imp_distinct_iff)

text \<open>
  C40. \<open>Sync\<close>, for observed blocks with different IDs, whatever the order in which it closes queriers and as long as closing succeeds: afterwards there is exactly one querier for every block that was observed, in order of
  their minimal time.  A querier of a block that is still there is kept, so that its open files are not lost, and exactly those of blocks that are gone are closed.
  The invariant is kept: every querier that was made so far is either listed and open, or was closed once.
\<close>

theorem Sync_one_per_block:
  assumes inv: "bq_inv b" and metas: "BlockMetas ul ms b = Some (Inr (map Some obs))" and dist: "distinct (map me_ULID obs)"
    and order: "\<forall>qs. mset (order qs) = mset qs" and close: "\<forall>p. close p = []"
  shows "\<exists>b'. Sync ul ms order close b = Some ([], b') \<and> bq_inv b' \<and> mset (map uid (bq_queriers b')) = mset (map me_ULID obs)
    \<and> sorted (map (\<lambda>q. sint (me_MinTime (sb_meta q))) (bq_queriers b'))
    \<and> (\<forall>q \<in> set (bq_queriers b). uid q \<in> me_ULID ` set obs \<longrightarrow> q \<in> set (bq_queriers b'))
    \<and> set (bq_closed b') = set (bq_closed b) \<union> {sb_ptr q | q. q \<in> set (bq_queriers b) \<and> uid q \<notin> me_ULID ` set obs}"
proof -
  let ?m = "by_ulid (bq_queriers b)"
  have m: "?m = map (\<lambda>q. (uid q, q)) (bq_queriers b)" using inv by (intro by_ulid_map) (simp add: bq_inv_def)
  then have "lookup_ok ?m" using inv by (auto simp: lookup_ok_def bq_inv_def comp_def)
  from take_queriers_ok[OF this dist, of "bq_next b"] obtain qs m' n' where t: "take_queriers (map Some obs) ?m (bq_next b) = Some (qs, m', n')" "bq_next b \<le> n'"
    "map uid qs = map me_ULID obs" "mset (map sb_ptr qs) + mset (map (\<lambda>e. sb_ptr (snd e)) m') = mset (map (\<lambda>e. sb_ptr (snd e)) ?m) + mset [bq_next b..<n']"
    "set m' = {e \<in> set ?m. fst e \<notin> me_ULID ` set obs}" "\<forall>e \<in> set ?m. fst e \<in> me_ULID ` set obs \<longrightarrow> snd e \<in> set qs" by blast
  let ?gone = "order (map snd m')"
  let ?b = "b\<lparr>bq_queriers := sort_slice querier_less qs, bq_next := n', bq_closed := bq_closed b @ map sb_ptr ?gone\<rparr>"
  have s: "Sync ul ms order close b = Some ([], ?b)" using metas t(1) close_queriers_all[OF close] by (simp add: Sync_def)
  have gone: "mset ?gone = mset (map snd m')" using order by blast
  have pg: "mset (map sb_ptr ?gone) = mset (map (\<lambda>e. sb_ptr (snd e)) m')"
    using arg_cong[OF gone, of "image_mset sb_ptr"] by (simp add: multiset.map_comp comp_def)
  have "mset (map sb_ptr qs) + mset (bq_closed b) + mset (map sb_ptr ?gone) = mset [0..<bq_next b] + mset [bq_next b..<n']"
    using inv t(4) m pg unfolding bq_inv_def by (simp add: comp_def ac_simps)
  also have "\<dots> = mset [0..<n']" using upt_add_eq_append[of 0 "bq_next b" "n' - bq_next b"] t(2) by simp
  finally have ptrs: "mset (map sb_ptr (bq_queriers ?b)) + mset (bq_closed ?b) = mset [0..<bq_next ?b]" by (simp add: ac_simps)
  have uids: "mset (map uid (bq_queriers ?b)) = mset (map me_ULID obs)"
    using arg_cong[OF t(3), of mset] by (simp add: mset_map)
  have "bq_inv ?b" unfolding bq_inv_def using ptrs distinct_uid_mset[OF uids dist] by blast
  moreover have "sorted (map (\<lambda>q. sint (me_MinTime (sb_meta q))) (bq_queriers ?b))"
    using querier_order.sort_slice_sorted[of qs] by (simp add: sorted_wrt_map querier_less_def word_sless_alt not_less)
  moreover have "\<forall>q \<in> set (bq_queriers b). uid q \<in> me_ULID ` set obs \<longrightarrow> q \<in> set (bq_queriers ?b)" using t(6) m by auto
  moreover have "set (bq_closed ?b) = set (bq_closed b) \<union> {sb_ptr q | q. q \<in> set (bq_queriers b) \<and> uid q \<notin> me_ULID ` set obs}"
  proof -
    have "set ?gone = snd ` set m'" using gone by (metis set_map set_mset_mset)
    also have "\<dots> = {q \<in> set (bq_queriers b). uid q \<notin> me_ULID ` set obs}" unfolding t(5) m set_map by (rule snd_pairs)
    finally show ?thesis by (simp add: setcompr_eq_image conj_commute)
  qed
  ultimately show ?thesis using s uids by (intro exI[of _ ?b] conjI)
qed

definition demo_meta :: "u8 \<Rightarrow> i64 \<Rightarrow> Meta" where
  "demo_meta u t = \<lparr>me_ULID = [u], me_MinTime = t, me_MaxTime = t + 1\<rparr>"

text \<open>A bucket whose objects have one character as their name, which is the first byte of the ID; the time is the second byte.\<close>

definition demo_bucket :: "string list \<Rightarrow> metaSource" where
  "demo_bucket names = \<lparr>ms_Iter = Inr names, ms_Get = (\<lambda>u. Inr u), ms_IsObjNotFoundErr = (\<lambda>e. False),
     ms_reconstruct = (\<lambda>u. Inl [''none'']), ms_Read = (\<lambda>u. ([], Some (demo_meta (hd u) (50 - ucast (hd u)))))\<rparr>"

definition demo_ids :: ulids where
  "demo_ids = \<lparr>id_Parse = (\<lambda>n. if length n = 1 then Some [of_char (hd n)] else None), id_String = (\<lambda>u. ''x'')\<rparr>"

abbreviation demo_open :: BlockQuerier where
  "demo_open \<equiv> \<lparr>bq_logger = False, bq_queriers = [\<lparr>sb_ptr = 0, sb_meta = demo_meta 49 1\<rparr>, \<lparr>sb_ptr = 1, sb_meta = demo_meta 48 2\<rparr>], bq_next = 2, bq_closed = []\<rparr>"

theorem Sync_one_per_block_witness:
  "\<exists>b'. Sync demo_ids (demo_bucket [''1'', ''tmp'', ''2'']) rev (\<lambda>p. []) demo_open = Some ([], b') \<and> bq_inv b'
    \<and> mset (map uid (bq_queriers b')) = {#[49], [50]#} \<and> \<lparr>sb_ptr = 0, sb_meta = demo_meta 49 1\<rparr> \<in> set (bq_queriers b') \<and> set (bq_closed b') = {1}"
proof -
  have inv: "bq_inv demo_open" by (simp add: bq_inv_def demo_meta_def upt_rec)
  have m: "BlockMetas demo_ids (demo_bucket [''1'', ''tmp'', ''2'']) demo_open = Some (Inr (map Some [demo_meta 50 0, demo_meta 49 1]))"
    by (simp add: demo_meta_def) code_simp
  have d: "distinct (map me_ULID [demo_meta 50 0, demo_meta 49 1])" by (simp add: demo_meta_def)
  have "{sb_ptr q | q. q \<in> set (bq_queriers demo_open) \<and> uid q \<notin> me_ULID ` set [demo_meta 50 0, demo_meta 49 1]} = {1}"
    by (auto simp: demo_meta_def intro!: exI[of _ "\<lparr>sb_ptr = 1, sb_meta = \<lparr>me_ULID = [48], me_MinTime = 2, me_MaxTime = 3\<rparr>\<rparr>"])
  with Sync_one_per_block[OF inv m d, of rev "\<lambda>p. []"] show ?thesis by (auto simp: demo_meta_def)
qed

end
