(* ===== verification/Querier_Service.thy ===== *)
theory Querier_Service
  imports Database Flamegraph
begin

section \<open>The requests of the querier (pkg/querier/querier.go)\<close>

text \<open>
  The querier sends a request to all ingesters and combines the answers.  The ring and the clients are arguments: \<open>responses\<close>
  is what \<open>forAllIngesters\<close> returns, an error or the answers with the addresses of the ingesters.  Values are
  floating point numbers: their addition is the argument \<open>add\<close>, and nothing is assumed of it.
\<close>

subsection \<open>Names, series and profile types\<close>

definition add_unique :: "string \<Rightarrow> string list \<times> string list \<Rightarrow> string list \<times> string list" where
  "add_unique elem st = (case st of (unique, result) \<Rightarrow> if elem \<in> set unique then (unique, result) else (elem # unique, result @ [elem]))"

definition uniqueSortedStrings :: "(string \<times> string list) list \<Rightarrow> string list" where
  "uniqueSortedStrings responses =
     sort_slice (<) (snd (fold (\<lambda>r st. fold add_unique (snd r) st) responses ([], [])))"

definition q_LabelValues :: "errs + (string \<times> string list) list \<Rightarrow> errs + string list" where
  "q_LabelValues responses = (case responses of Inl err \<Rightarrow> Inl err | Inr rs \<Rightarrow> Inr (uniqueSortedStrings rs))"

definition q_LabelNames :: "errs + (string \<times> string list) list \<Rightarrow> errs + string list" where
  "q_LabelNames responses = (case responses of Inl err \<Rightarrow> Inl err | Inr rs \<Rightarrow> Inr (uniqueSortedStrings rs))"

definition add_type :: "ProfileType \<Rightarrow> string list \<times> (string \<times> ProfileType) list \<Rightarrow> string list \<times> (string \<times> ProfileType) list" where
  "add_type profileType st =
     (case st of (profileTypeIDs, profileTypes) \<Rightarrow>
        if map_of profileTypes (pt_ID profileType) = None
        then (profileTypeIDs @ [pt_ID profileType], AList.update (pt_ID profileType) profileType profileTypes)
        else st)"

definition q_ProfileTypes :: "errs + (string \<times> ProfileType list) list \<Rightarrow> errs + ProfileType list" where
  "q_ProfileTypes responses =
     (case responses of
        Inl err \<Rightarrow> Inl err
      | Inr rs \<Rightarrow>
          (case fold (\<lambda>r st. fold add_type (snd r) st) rs ([], []) of (profileTypeIDs, profileTypes) \<Rightarrow>
             Inr (List.map_filter (map_of profileTypes) (sort_slice (<) profileTypeIDs))))"

text \<open>\<open>lo.UniqBy\<close> keeps the first element of every key.\<close>

fun uniq_by :: "('a \<Rightarrow> 'k) \<Rightarrow> 'k list \<Rightarrow> 'a list \<Rightarrow> 'a list" where
  "uniq_by key seen [] = []"
| "uniq_by key seen (x # xs) = (if key x \<in> set seen then uniq_by key seen xs else x # uniq_by key (key x # seen) xs)"

definition q_Series :: "(string \<Rightarrow> u64) \<Rightarrow> errs + (string \<times> labels list) list \<Rightarrow> errs + labels list" where
  "q_Series H responses = (case responses of Inl err \<Rightarrow> Inl err | Inr rs \<Rightarrow> Inr (uniq_by (Labels_Hash H) [] (concat (map snd rs))))"

subsection \<open>Points of a range\<close>

definition add_value :: "('v \<Rightarrow> 'v \<Rightarrow> 'v) \<Rightarrow> i64 \<Rightarrow> 'v ProfileValue \<Rightarrow> (u64 \<times> 'v Series) list \<Rightarrow> (u64 \<times> 'v Series) list" where
  "add_value add currentStep p seriesMap =
     (case map_of seriesMap (pf_LabelsHash p) of
        None \<Rightarrow> AList.update (pf_LabelsHash p)
                  \<lparr>sr_Labels = pf_Lbs p, sr_Points = [\<lparr>pt_Value = pf_Value p, pt_Timestamp = currentStep\<rparr>]\<rparr> seriesMap
      | Some series \<Rightarrow>
          let points = sr_Points series
          in AList.update (pf_LabelsHash p)
               (if pt_Timestamp (last points) = currentStep
                then series\<lparr>sr_Points := butlast points @ [(last points)\<lparr>pt_Value := add (pt_Value (last points)) (pf_Value p)\<rparr>]\<rparr>
                else series\<lparr>sr_Points := points @ [\<lparr>pt_Value = pf_Value p, pt_Timestamp = currentStep\<rparr>]\<rparr>) seriesMap)"

text \<open>The inner loop: the profiles of one step.  The flag says that the iterator is at its end.\<close>

partial_function (option) step_loop :: "('v \<Rightarrow> 'v \<Rightarrow> 'v) \<Rightarrow> ('i, 'v ProfileValue) Iterator \<Rightarrow> i64 \<Rightarrow> 'i \<Rightarrow> (u64 \<times> 'v Series) list \<Rightarrow>
    (bool \<times> 'i \<times> (u64 \<times> 'v Series) list) option" where
  "step_loop add it currentStep i seriesMap =
     (if currentStep <s pf_Ts (it_At it i) then Some (False, i, seriesMap)
      else do {
        (ok, j) \<leftarrow> it_Next it i;
        if \<not> ok then Some (True, j, add_value add currentStep (it_At it i) seriesMap)
        else step_loop add it currentStep j (add_value add currentStep (it_At it i) seriesMap) })"

partial_function (option) range_loop :: "('v \<Rightarrow> 'v \<Rightarrow> 'v) \<Rightarrow> ('i, 'v ProfileValue) Iterator \<Rightarrow> i64 \<Rightarrow> i64 \<Rightarrow> i64 \<Rightarrow> 'i \<Rightarrow> (u64 \<times> 'v Series) list \<Rightarrow>
    ('i \<times> (u64 \<times> 'v Series) list) option" where
  "range_loop add it stop step currentStep i seriesMap =
     (if currentStep \<le>s stop then do {
        (finished, i, seriesMap) \<leftarrow> step_loop add it currentStep i seriesMap;
        if finished then Some (i, seriesMap) else range_loop add it stop step (currentStep + step) i seriesMap }
      else Some (i, seriesMap))"

declare step_loop.simps [code]
declare range_loop.simps [code]

definition rangeSeries :: "('v \<Rightarrow> 'v \<Rightarrow> 'v) \<Rightarrow> ('i, 'v ProfileValue) Iterator \<Rightarrow> i64 \<Rightarrow> i64 \<Rightarrow> i64 \<Rightarrow> 'i \<Rightarrow> ('i \<times> 'v Series list) option" where
  "rangeSeries add it start stop step i = do {
     (ok, i) \<leftarrow> it_Next it i;
     if \<not> ok then Some (snd (it_Close it i), [])
     else do {
       (i, seriesMap) \<leftarrow> range_loop add it stop step start i [];
       Some (snd (it_Close it i), sort_slice (\<lambda>a b. CompareLabelPairs (sr_Labels a) (sr_Labels b) < 0) (map snd seriesMap)) } }"

subsection \<open>Merge requests\<close>

text \<open>The first request is sent to all ingesters in parallel; the first error is the result of the group.\<close>

fun send_all :: "('q \<Rightarrow> 'b \<Rightarrow> errs \<times> 'b) \<Rightarrow> 'q \<Rightarrow> (string \<times> 'b) list \<Rightarrow> errs + (string \<times> 'b) list" where
  "send_all send req [] = Inr []"
| "send_all send req ((addr, b) # rs) =
     (case send req b of (err, b) \<Rightarrow>
        if err \<noteq> [] then Inl err
        else case send_all send req rs of Inl err \<Rightarrow> Inl err | Inr rs \<Rightarrow> Inr ((addr, b) # rs))"

definition SelectMergeStacktraces :: "(MergeRequest \<Rightarrow> 'b \<Rightarrow> errs \<times> 'b) \<Rightarrow> ('b, MergeProfilesStacktracesResult option) BidiClientMerge \<Rightarrow>
    (nat \<Rightarrow> nat list \<Rightarrow> nat list) \<Rightarrow> (u8 list \<Rightarrow> u64) \<Rightarrow> store \<Rightarrow> string \<Rightarrow> string \<Rightarrow> i64 \<Rightarrow> i64 \<Rightarrow> errs + (string \<times> 'b) list \<Rightarrow>
    (errs + FlameGraph) option" where
  "SelectMergeStacktraces send bd sched H st profileTypeID labelSelector start stop responses =
     (case ParseProfileTypeSelector profileTypeID of
        Inl err \<Rightarrow> Some (Inl [err])
      | Inr profileType \<Rightarrow>
          (case responses of
             Inl err \<Rightarrow> Some (Inl err)
           | Inr rs \<Rightarrow>
               (case send_all send \<lparr>rq_Request = Some \<lparr>sq_LabelSelector = labelSelector, sq_Type = profileType, sq_Start = start, sq_End = stop\<rparr>,
                                    rq_Profiles = [], rq_By = []\<rparr> rs of
                  Inl err \<Rightarrow> Some (Inl err)
                | Inr rs \<Rightarrow> do {
                    r \<leftarrow> selectMergeStacktraces bd sched H st rs;
                    case r of
                      Inl err \<Rightarrow> Some (Inl err)
                    | Inr stacks \<Rightarrow> map_option Inr (NewFlameGraph (newTree stacks)) })))"

text \<open>
  The step is a floating point number of seconds: whether it is zero and the milliseconds of it are arguments.
\<close>

definition SelectSeries :: "('v \<Rightarrow> 'v \<Rightarrow> 'v) \<Rightarrow> 'v ProfileValue \<Rightarrow> (MergeRequest \<Rightarrow> 'b \<Rightarrow> errs \<times> 'b) \<Rightarrow> ('b, 'v Series list) BidiClientMerge \<Rightarrow>
    (nat \<Rightarrow> nat list \<Rightarrow> nat list) \<Rightarrow> (string \<Rightarrow> u64) \<Rightarrow> string \<Rightarrow> string \<Rightarrow> string list \<Rightarrow> i64 \<Rightarrow> i64 \<Rightarrow> bool \<Rightarrow> i64 \<Rightarrow> errs + (string \<times> 'b) list \<Rightarrow>
    (errs + 'v Series list) option" where
  "SelectSeries add zero send bd sched H profileTypeID labelSelector groupBy start stop stepZero stepMs responses =
     (case ParseProfileTypeSelector profileTypeID of
        Inl err \<Rightarrow> Some (Inl [err])
      | Inr profileType \<Rightarrow>
          if stop <s start then Some (Inl [''start must be before end''])
          else if stepZero then Some (Inl [''step must be non-zero''])
          else case responses of
            Inl err \<Rightarrow> Some (Inl err)
          | Inr rs \<Rightarrow>
              (case send_all send \<lparr>rq_Request = Some \<lparr>sq_LabelSelector = labelSelector, sq_Type = profileType, sq_Start = start - stepMs, sq_End = stop\<rparr>,
                                   rq_Profiles = [], rq_By = sort_slice (<) groupBy\<rparr> rs of
                 Inl err \<Rightarrow> Some (Inl err)
               | Inr rs \<Rightarrow> do {
                   r \<leftarrow> selectMergeSeries bd sched H (pf_Value zero) rs;
                   case r of
                     Inl err \<Rightarrow> Some (Inl err)
                   | Inr si \<Rightarrow> do {
                       let it = sort_iterator pf_Lbs pf_Ts zero point_iterator;
                       (si, result) \<leftarrow> rangeSeries add it start stop stepMs si;
                       Some (if it_Err it si \<noteq> [] then Inl (it_Err it si) else Inr result) } }))"

subsection \<open>The loops of \<open>rangeSeries\<close>\<close>

abbreviation due :: "i64 \<Rightarrow> 'v ProfileValue \<Rightarrow> bool" where
  "due c p \<equiv> \<not> c <s pf_Ts p"

lemma step_loop_yields:
  assumes "yields it i xs []"
  shows "\<exists>j. step_loop add it c i m = Some (dropWhile (due c) (it_At it i # xs) = [], j, fold (add_value add c) (takeWhile (due c) (it_At it i # xs)) m)
    \<and> (dropWhile (due c) (it_At it i # xs) \<noteq> [] \<longrightarrow> it_At it j # rest it j = dropWhile (due c) (it_At it i # xs) \<and> yields it j (rest it j) [])"
  using assms
proof (induction xs arbitrary: i m)
  case Nil
  from Nil obtain j where "it_Next it i = Some (False, j)" by (auto elim!: yields_NilE dest: ended_next)
  then show ?case using rest_eq[OF Nil] Nil by (simp add: step_loop.simps[of add it c i m])
next
  case (Cons x xs)
  show ?case
  proof (cases "c <s pf_Ts (it_At it i)")
    case True
    then show ?thesis using rest_eq[OF Cons.prems] Cons.prems by (simp add: step_loop.simps[of add it c i m])
  next
    case False
    from Cons.prems obtain j where j: "it_Next it i = Some (True, j)" "it_At it j = x" "yields it j xs []" by (auto elim: yields_ConsE)
    from Cons.IH[OF j(3), of "add_value add c (it_At it i) m"] j False show ?thesis
      by (simp add: step_loop.simps[of add it c i m])
  qed
qed

definition bucket :: "int \<Rightarrow> int \<Rightarrow> int \<Rightarrow> int" where
  "bucket c d t = (if t \<le> c then c else c + ((t - c + d - 1) div d) * d)"

lemma bucket_next: "0 < d \<Longrightarrow> c < t \<Longrightarrow> bucket (c + d) d t = bucket c d t"
proof -
  assume d: "0 < d" "c < t"
  show ?thesis
  proof (cases "t \<le> c + d")
    case True
    then have "(t - c + d - 1) div d = 1" using d by (intro int_div_pos_eq[where r = "t - c - 1"]) auto
    then show ?thesis using d True by (simp add: bucket_def)
  next
    case False
    have "t - c + d - 1 = (t - (c + d) + d - 1) + 1 * d" by simp
    then have "(t - c + d - 1) div d = (t - (c + d) + d - 1) div d + 1" using d(1) by (metis div_mult_self1 add.commute not_less_iff_gr_or_eq)
    then show ?thesis using d False by (simp add: bucket_def algebra_simps)
  qed
qed

lemma bucket_ge: "0 < d \<Longrightarrow> t \<le> bucket c d t \<and> c \<le> bucket c d t \<and> (c < t \<longrightarrow> bucket c d t < t + d)"
proof -
  assume d: "0 < d"
  have "(t - c + d - 1) div d * d = t - c + d - 1 - (t - c + d - 1) mod d" by (simp add: minus_mod_eq_div_mult)
  moreover have "0 \<le> (t - c + d - 1) mod d" "(t - c + d - 1) mod d < d" using d by simp_all
  ultimately show ?thesis by (auto simp: bucket_def)
qed

lemma bucket_mono: "0 < d \<Longrightarrow> t \<le> u \<Longrightarrow> bucket c d t \<le> bucket c d u"
proof -
  assume d: "0 < d" "t \<le> u"
  have "(t - c + d - 1) div d \<le> (u - c + d - 1) div d" using d by (intro zdiv_mono1) auto
  then have "(t - c + d - 1) div d * d \<le> (u - c + d - 1) div d * d" using d(1) by (intro mult_right_mono) auto
  then show ?thesis using bucket_ge[OF d(1), of u c] d by (auto simp: bucket_def)
qed

abbreviation bucket_of :: "i64 \<Rightarrow> i64 \<Rightarrow> 'v ProfileValue \<Rightarrow> int" where
  "bucket_of start step p \<equiv> bucket (sint start) (sint step) (sint (pf_Ts p))"

lemma range_loop_yields:
  assumes "yields it i xs []" and "sorted (map (\<lambda>p. sint (pf_Ts p)) (it_At it i # xs))" and d: "0 < sint step" and ovf: "sint stop + sint step < 2 ^ 63"
  shows "\<exists>j. range_loop add it stop step c i m
    = Some (j, fold (\<lambda>p. add_value add (of_int (bucket_of c step p)) p) (takeWhile (\<lambda>p. bucket_of c step p \<le> sint stop) (it_At it i # xs)) m)"
  using assms(1,2)
proof (induction "nat (sint stop + 1 - sint c)" arbitrary: c i xs m rule: less_induct)
  case less
  let ?L = "it_At it i # xs" and ?P = "\<lambda>p. \<not> c <s pf_Ts p"
  note unroll = range_loop.simps[of add it stop step c i m]
  show ?case
  proof (cases "c \<le>s stop")
    case False
    then have "\<not> bucket_of c step (it_At it i) \<le> sint stop" using bucket_ge[OF d, of "sint (pf_Ts (it_At it i))" "sint c"] by (auto simp: word_sle_eq)
    then show ?thesis using False by (simp add: unroll)
  next
    case True
    from step_loop_yields[OF less.prems(1), where c = c and add = add and m = m] obtain j where
      j: "step_loop add it c i m = Some (dropWhile ?P ?L = [], j, fold (add_value add c) (takeWhile ?P ?L) m)"
         "dropWhile ?P ?L \<noteq> [] \<longrightarrow> it_At it j # rest it j = dropWhile ?P ?L \<and> yields it j (rest it j) []" by blast
    have b: "bucket_of c step p = sint c" if "p \<in> set (takeWhile ?P ?L)" for p
      using set_takeWhileD[OF that] by (auto simp: bucket_def word_sless_alt)
    have f1: "fold (add_value add c) (takeWhile ?P ?L) m = fold (\<lambda>p. add_value add (of_int (bucket_of c step p)) p) (takeWhile ?P ?L) m" for m
      using b by (intro fold_cong) auto
    have t1: "takeWhile (\<lambda>p. bucket_of c step p \<le> sint stop) ?L = takeWhile ?P ?L @ takeWhile (\<lambda>p. bucket_of c step p \<le> sint stop) (dropWhile ?P ?L)"
      using b True by (subst takeWhile_dropWhile_id[of ?P ?L, symmetric], subst takeWhile_append2) (auto simp: word_sle_eq)
    show ?thesis
    proof (cases "dropWhile ?P ?L = []")
      case True
      then show ?thesis using \<open>c \<le>s stop\<close> j f1 t1 by (simp add: unroll)
    next
      case False
      then have jr: "it_At it j # rest it j = dropWhile ?P ?L" "yields it j (rest it j) []" using j(2) by auto
      have sc: "sint c \<le> sint stop" using True by (simp add: word_sle_eq)
      have sd: "sint (c + step) = sint c + sint step"
        using sc d ovf sint_ge[of c] by (simp add: sint_word_ariths signed_take_bit_int_eq_self)
      have srt: "sorted (map (\<lambda>p. sint (pf_Ts p)) (dropWhile ?P ?L))"
        using sorted_wrt_drop[OF less.prems(2)] unfolding dropWhile_eq_drop drop_map .
      have late: "sint c < sint (pf_Ts p)" if "p \<in> set (dropWhile ?P ?L)" for p
      proof -
        have "sint c < sint (pf_Ts (hd (dropWhile ?P ?L)))" using hd_dropWhile[OF False] by (simp add: word_sless_alt)
        moreover have "sint (pf_Ts (hd (dropWhile ?P ?L))) \<le> sint (pf_Ts p)" using srt that False by (cases "dropWhile ?P ?L") auto
        ultimately show ?thesis by simp
      qed
      have nb: "bucket_of (c + step) step p = bucket_of c step p" if "p \<in> set (dropWhile ?P ?L)" for p using bucket_next[OF d late[OF that]] sd by simp
      have "nat (sint stop + 1 - sint (c + step)) < nat (sint stop + 1 - sint c)" using sc d sd by simp
      from less.hyps[OF this jr(2), of "fold (add_value add c) (takeWhile ?P ?L) m"] srt jr(1) obtain k where
        "range_loop add it stop step (c + step) j (fold (add_value add c) (takeWhile ?P ?L) m)
          = Some (k, fold (\<lambda>p. add_value add (of_int (bucket_of (c + step) step p)) p) (takeWhile (\<lambda>p. bucket_of (c + step) step p \<le> sint stop) (dropWhile ?P ?L)) (fold (add_value add c) (takeWhile ?P ?L) m))" by auto
      moreover have "takeWhile (\<lambda>p. bucket_of (c + step) step p \<le> sint stop) (dropWhile ?P ?L) = takeWhile (\<lambda>p. bucket_of c step p \<le> sint stop) (dropWhile ?P ?L)"
        using nb by (intro takeWhile_cong) auto
      moreover have "fold (\<lambda>p. add_value add (of_int (bucket_of (c + step) step p)) p) (takeWhile Q (dropWhile ?P ?L)) n
          = fold (\<lambda>p. add_value add (of_int (bucket_of c step p)) p) (takeWhile Q (dropWhile ?P ?L)) n" for Q n
        using nb by (intro fold_cong) (auto dest: set_takeWhileD)
      ultimately show ?thesis using True False j(1) f1 t1 by (simp add: unroll)
    qed
  qed
qed

subsection \<open>The points of a series\<close>

definition total_of :: "('v \<Rightarrow> 'v \<Rightarrow> 'v) \<Rightarrow> 'v list \<Rightarrow> 'v" where
  "total_of add vs = foldl add (hd vs) (tl vs)"

lemma total_of_snoc: "vs \<noteq> [] \<Longrightarrow> total_of add (vs @ [v]) = add (total_of add vs) v"
  by (cases vs) (simp_all add: total_of_def)

text \<open>One point per time of a point, with the sum of the values that belong there; the labels are those of the first profile.\<close>

definition points_of :: "('v \<Rightarrow> 'v \<Rightarrow> 'v) \<Rightarrow> ('v ProfileValue \<Rightarrow> i64) \<Rightarrow> 'v ProfileValue list \<Rightarrow> 'v Point list" where
  "points_of add b ps = map (\<lambda>w. \<lparr>pt_Value = total_of add (map pf_Value (filter (\<lambda>p. b p = w) ps)), pt_Timestamp = w\<rparr>) (remdups_adj (map b ps))"

definition series_of :: "('v \<Rightarrow> 'v \<Rightarrow> 'v) \<Rightarrow> ('v ProfileValue \<Rightarrow> i64) \<Rightarrow> 'v ProfileValue list \<Rightarrow> 'v Series" where
  "series_of add b ps = \<lparr>sr_Labels = pf_Lbs (hd ps), sr_Points = points_of add b ps\<rparr>"

lemma points_of_last:
  assumes "ps \<noteq> []"
  shows "points_of add b ps \<noteq> []" and "pt_Timestamp (last (points_of add b ps)) = b (last ps)"
  using assms by (simp_all add: points_of_def last_map last_remdups_adj)

lemma distinct_remdups_adj_sorted: "sorted (map sint ws) \<Longrightarrow> distinct (remdups_adj (ws :: i64 list))"
proof (induction ws rule: remdups_adj.induct)
  case (3 x y xs)
  have "x \<notin> set (y # xs)" if "x \<noteq> y"
  proof
    assume "x \<in> set (y # xs)"
    then have "sint y \<le> sint x" "sint x \<le> sint y" using 3(3) by auto
    then show False using that by (metis antisym signed_word_eqI)
  qed
  then show ?case using 3 by (auto simp del: set_simps simp: remdups_adj_set)
qed auto

lemma points_of_same:
  assumes ps: "ps \<noteq> []" and srt: "sorted (map (\<lambda>p. sint (b p)) ps)" and p: "b p = b (last ps)"
  shows "points_of add b (ps @ [p]) = butlast (points_of add b ps) @ [(last (points_of add b ps))\<lparr>pt_Value := add (pt_Value (last (points_of add b ps))) (pf_Value p)\<rparr>]"
proof -
  let ?ws = "remdups_adj (map b ps)" and ?f = "\<lambda>ps w. \<lparr>pt_Value = total_of add (map pf_Value (filter (\<lambda>p. b p = w) ps)), pt_Timestamp = w\<rparr>"
  have nil: "?ws \<noteq> []" using ps by simp
  have lst: "last ?ws = b p" using ps p by (simp add: last_remdups_adj last_map)
  have ws: "remdups_adj (map b (ps @ [p])) = ?ws" using ps p by (simp add: remdups_adj_append'' last_map remdups_adj_append_two)
  have d: "distinct ?ws" using srt by (intro distinct_remdups_adj_sorted) (simp add: comp_def)
  have split: "?ws = butlast ?ws @ [b p]" using nil lst append_butlast_last_id by metis
  have "w \<noteq> b p" if "w \<in> set (butlast ?ws)" for w using d that by (subst (asm) split) auto
  then have bl: "map (?f (ps @ [p])) (butlast ?ws) = map (?f ps) (butlast ?ws)" by auto
  have "filter (\<lambda>q. b q = b p) ps \<noteq> []" using ps p last_in_set[OF ps] by (auto simp: filter_empty_conv)
  then have v: "total_of add (map pf_Value (filter (\<lambda>q. b q = b p) (ps @ [p]))) = add (total_of add (map pf_Value (filter (\<lambda>q. b q = b p) ps))) (pf_Value p)"
    by (simp add: total_of_snoc)
  have "points_of add b (ps @ [p]) = map (?f (ps @ [p])) (butlast ?ws) @ [?f (ps @ [p]) (b p)]" unfolding points_of_def ws by (subst split) simp
  moreover have "butlast (points_of add b ps) = map (?f ps) (butlast ?ws)" by (simp add: points_of_def map_butlast)
  moreover have "last (points_of add b ps) = ?f ps (b p)" using nil lst by (simp add: points_of_def last_map)
  ultimately show ?thesis using bl v by simp
qed

lemma points_of_new:
  assumes srt: "sorted (map (\<lambda>p. sint (b p)) (ps @ [p]))" and p: "ps \<noteq> [] \<longrightarrow> b p \<noteq> b (last ps)"
  shows "points_of add b (ps @ [p]) = points_of add b ps @ [\<lparr>pt_Value = pf_Value p, pt_Timestamp = b p\<rparr>]"
proof -
  let ?f = "\<lambda>ps w. \<lparr>pt_Value = total_of add (map pf_Value (filter (\<lambda>p. b p = w) ps)), pt_Timestamp = w\<rparr>"
  have fresh: "b q \<noteq> b p" if "q \<in> set ps" for q
  proof
    assume "b q = b p"
    moreover have "sint (b q) \<le> sint (b (last ps))" using srt that by (cases ps rule: rev_cases) (auto simp: sorted_append)
    moreover have "sint (b (last ps)) \<le> sint (b p)" using srt that by (cases ps rule: rev_cases) (auto simp: sorted_append)
    ultimately have "b (last ps) = b p" by (metis antisym signed_word_eqI)
    then show False using p that by auto
  qed
  have ws: "remdups_adj (map b (ps @ [p])) = remdups_adj (map b ps) @ [b p]"
    using p remdups_adj_append'[of "map b ps" "[b p]"] by (cases "ps = []") (auto simp: last_map)
  have "b p \<notin> set (map b ps)" using fresh by force
  then have "map (?f (ps @ [p])) (remdups_adj (map b ps)) = map (?f ps) (remdups_adj (map b ps))" by (intro map_cong) auto
  moreover have "filter (\<lambda>q. b q = b p) ps = []" using fresh by (auto simp: filter_empty_conv)
  ultimately show ?thesis unfolding points_of_def ws by (simp add: total_of_def)
qed

definition map_ok :: "('v \<Rightarrow> 'v \<Rightarrow> 'v) \<Rightarrow> ('v ProfileValue \<Rightarrow> i64) \<Rightarrow> 'v ProfileValue list \<Rightarrow> (u64 \<times> 'v Series) list \<Rightarrow> bool" where
  "map_ok add b ps m \<longleftrightarrow> distinct (map fst m)
     \<and> (\<forall>h. map_of m h = (let qs = filter (\<lambda>p. pf_LabelsHash p = h) ps in if qs = [] then None else Some (series_of add b qs)))"

lemma add_value_ok:
  assumes ok: "map_ok add b ps m" and srt: "sorted (map (\<lambda>p. sint (b p)) (ps @ [p]))"
  shows "map_ok add b (ps @ [p]) (add_value add (b p) p m)"
proof -
  let ?h = "pf_LabelsHash p" and ?qs = "filter (\<lambda>q. pf_LabelsHash q = pf_LabelsHash p) ps"
  have sq: "sorted (map (\<lambda>q. sint (b q)) (?qs @ [p]))"
    using sorted_filter[OF srt, of "\<lambda>q. pf_LabelsHash q = pf_LabelsHash p"] by simp
  have lk: "map_of m ?h = (if ?qs = [] then None else Some (series_of add b ?qs))" using ok by (simp add: map_ok_def)
  have "add_value add (b p) p m = AList.update ?h (series_of add b (?qs @ [p])) m"
  proof (cases "?qs = []")
    case True
    then show ?thesis using lk points_of_new[of b "[]" p add] by (simp add: add_value_def series_of_def points_of_def)
  next
    case False
    note l = points_of_last[OF False, of add b]
    show ?thesis
    proof (cases "b p = b (last ?qs)")
      case True
      have "sorted (map (\<lambda>q. sint (b q)) ?qs)" using sq by (simp add: sorted_append)
      from points_of_same[OF False this True, of add] show ?thesis using lk False l True by (simp add: add_value_def series_of_def Let_def)
    next
      case ne: False
      from points_of_new[of b ?qs p add] show ?thesis using lk False l ne sq by (simp add: add_value_def series_of_def Let_def)
    qed
  qed
  then show ?thesis using ok by (simp add: map_ok_def update_conv' distinct_update Let_def)
qed

lemma fold_add_value:
  "sorted (map (\<lambda>p. sint (b p)) ps) \<Longrightarrow> map_ok add b ps (fold (\<lambda>p. add_value add (b p) p) ps [])"
proof (induction ps rule: rev_induct)
  case (snoc p ps)
  have "sorted (map (\<lambda>p. sint (b p)) ps)" using snoc.prems by (simp add: sorted_append)
  from add_value_ok[OF snoc.IH[OF this] snoc.prems] show ?case by simp
qed (simp add: map_ok_def)

lemma map_ok_mset:
  assumes "map_ok add b ps m"
  shows "mset (map snd m) = image_mset (\<lambda>h. series_of add b (filter (\<lambda>p. pf_LabelsHash p = h) ps)) (mset_set (pf_LabelsHash ` set ps))"
proof -
  let ?f = "\<lambda>h. series_of add b (filter (\<lambda>p. pf_LabelsHash p = h) ps)"
  have d: "distinct (map fst m)" using assms by (simp add: map_ok_def)
  have "snd e = ?f (fst e)" if "e \<in> set m" for e
    using assms map_of_is_SomeI[OF d, of "fst e" "snd e"] that unfolding map_ok_def Let_def by (auto split: if_splits)
  then have "map snd m = map ?f (map fst m)" by auto
  then have "mset (map snd m) = image_mset ?f (mset (map fst m))" by (simp only: mset_map)
  moreover have "set (map fst m) = dom (map_of m)" by (simp add: dom_map_of_conv_image_fst)
  moreover have "dom (map_of m) = pf_LabelsHash ` set ps"
    using assms unfolding map_ok_def Let_def by (auto simp: dom_def filter_empty_conv split: if_splits)
  moreover have "mset (map fst m) = mset_set (set (map fst m))" using mset_set_set[OF d] by (rule sym)
  ultimately show ?thesis by (simp only:)
qed

text \<open>The time of the point that a value belongs to: the first multiple of the step, from the start on, that is not before it.\<close>

definition point_time :: "i64 \<Rightarrow> i64 \<Rightarrow> 'v ProfileValue \<Rightarrow> i64" where
  "point_time start step p = of_int (bucket_of start step p)"

definition within :: "i64 \<Rightarrow> i64 \<Rightarrow> i64 \<Rightarrow> 'v ProfileValue list \<Rightarrow> 'v ProfileValue list" where
  "within start stop step ps = takeWhile (\<lambda>p. bucket_of start step p \<le> sint stop) ps"

text \<open>
  C38. \<open>rangeSeries\<close> over values in order of time, with a positive step: it returns one series per label hash.  A series has the labels of its first value and
  one point per time at which values fall, in order; the point has the sum of the values of its step, added in the order of the iterator.  Values whose
  point would be after the end are left out.
\<close>

theorem rangeSeries_points:
  assumes y: "yields it i ps []" and srt: "sorted (map (\<lambda>p. sint (pf_Ts p)) ps)" and d: "0 < sint step" and ovf: "sint stop + sint step < 2 ^ 63"
  shows "\<exists>j series. rangeSeries add it start stop step i = Some (j, series)
    \<and> mset series = image_mset (\<lambda>h. series_of add (point_time start step) (filter (\<lambda>p. pf_LabelsHash p = h) (within start stop step ps))) (mset_set (pf_LabelsHash ` set (within start stop step ps)))
    \<and> sorted_wrt (\<lambda>a b. \<not> CompareLabelPairs (sr_Labels b) (sr_Labels a) < 0) series"
proof (cases ps)
  case Nil
  then obtain j where "it_Next it i = Some (False, j)" using y by (auto elim!: yields_NilE dest: ended_next)
  then show ?thesis using Nil by (simp add: rangeSeries_def within_def)
next
  case (Cons p qs)
  then obtain j where j: "it_Next it i = Some (True, j)" "it_At it j = p" "yields it j qs []" using y by (auto elim: yields_ConsE)
  let ?b = "point_time start step" and ?in = "within start stop step ps"
  let ?m = "fold (\<lambda>p. add_value add (?b p) p) ?in []"
  from range_loop_yields[OF j(3) _ d ovf, of add start "[]"] srt Cons j(2) obtain k where
    k: "range_loop add it stop step start j [] = Some (k, ?m)" by (auto simp: within_def point_time_def)
  have sb: "sint (?b p) = bucket_of start step p" if "p \<in> set ?in" for p
  proof -
    have "bucket_of start step p \<le> sint stop" using that unfolding within_def by (auto dest: set_takeWhileD)
    moreover have "sint start \<le> bucket_of start step p" using bucket_ge[OF d] by blast
    moreover have "- (2 ^ 63) \<le> sint start" using sint_ge[of start] by simp
    moreover have "sint stop < 2 ^ 63" using sint_lt[of stop] by simp
    ultimately have "- (2 ^ 63) \<le> bucket_of start step p" "bucket_of start step p < 2 ^ 63" by linarith+
    then show ?thesis unfolding point_time_def by (simp add: signed_of_int signed_take_bit_int_eq_self)
  qed
  have "sorted (map (\<lambda>p. bucket_of start step p) ?in)"
  proof -
    have "sorted (map (\<lambda>p. sint (pf_Ts p)) ?in)"
      using sorted_wrt_take[OF srt, of "length ?in"] unfolding within_def by (simp add: take_map takeWhile_eq_take[symmetric])
    then show ?thesis unfolding sorted_map by (rule sorted_wrt_mono_rel[rotated]) (use bucket_mono[OF d] in blast)
  qed
  then have "sorted (map (\<lambda>p. sint (?b p)) ?in)" using sb by (metis (no_types, lifting) map_cong)
  note ok = map_ok_mset[OF fold_add_value[OF this, of add]]
  have "rangeSeries add it start stop step i
      = Some (snd (it_Close it k), sort_slice (\<lambda>a b. CompareLabelPairs (sr_Labels a) (sr_Labels b) < 0) (map snd ?m))" using j(1) k by (simp add: rangeSeries_def)
  then show ?thesis using ok so.sort_slice_sorted[of "map snd ?m"] by simp
qed

text \<open>
  C39. With a step of zero the loop never ends when the first value is after the start.  \<open>SelectSeries\<close> only refuses a step that is zero seconds: one
  of less than a millisecond becomes zero when it is converted to milliseconds.
\<close>

theorem rangeSeries_zero_step:
  assumes "yields it i (p # ps) e" and "start <s pf_Ts p" and "start \<le>s stop"
  shows "rangeSeries add it start stop 0 i = None"
proof -
  from assms(1) obtain j where j: "it_Next it i = Some (True, j)" "it_At it j = p" by (auto elim: yields_ConsE)
  let ?P = "\<lambda>add it stop d c i m r. \<not> (d = 0 \<and> c <s pf_Ts (it_At it i) \<and> c \<le>s stop)"
  have "\<not> (0 = (0 :: i64) \<and> start <s pf_Ts (it_At it j) \<and> start \<le>s stop)" if "range_loop add it stop 0 start j [] = Some r" for r
  proof (rule range_loop.raw_induct[where P = ?P, OF _ that], rule notI, goal_cases)
    case (1 f add it stop step c i m r)
    then have "f add it stop step c i m = Some r" by (simp add: step_loop.simps[of add it c i m])
    then show False using 1 by blast
  qed
  then have "range_loop add it stop 0 start j [] = None" using assms(2,3) j(2) by (cases "range_loop add it stop 0 start j []") auto
  then show ?thesis using j(1) by (simp add: rangeSeries_def)
qed

definition demo_value :: "u64 \<Rightarrow> i64 \<Rightarrow> nat \<Rightarrow> nat ProfileValue" where
  "demo_value h t v = \<lparr>pf_Ts = t, pf_Lbs = [], pf_LabelsHash = h, pf_Value = v\<rparr>"

abbreviation demo_values :: "nat ProfileValue list" where
  "demo_values \<equiv> [demo_value 1 5 10, demo_value 1 11 20, demo_value 2 12 30, demo_value 1 20 40, demo_value 1 35 50]"

theorem rangeSeries_points_witness:
  "\<exists>j series. rangeSeries (+) (slice_iterator (demo_value 0 0 0)) 10 30 10 (NewSliceIterator demo_values) = Some (j, series)
    \<and> mset series = {# \<lparr>sr_Labels = [], sr_Points = [\<lparr>pt_Value = 10, pt_Timestamp = 10\<rparr>, \<lparr>pt_Value = 60, pt_Timestamp = 20\<rparr>]\<rparr>,
        \<lparr>sr_Labels = [], sr_Points = [\<lparr>pt_Value = 30, pt_Timestamp = 20\<rparr>]\<rparr> #}"
proof -
  have w: "within 10 30 10 demo_values = [demo_value 1 5 10, demo_value 1 11 20, demo_value 2 12 30, demo_value 1 20 40]"
    by (simp add: within_def bucket_def demo_value_def)
  have h: "pf_LabelsHash ` set (within 10 30 10 demo_values) = {1, 2}" unfolding w by (auto simp: demo_value_def)
  have srt: "sorted (map (\<lambda>p. sint (pf_Ts p)) demo_values)" by (simp add: demo_value_def)
  from rangeSeries_points[OF NewSliceIterator_yields srt, of 10 30 "(+)" "demo_value 0 0 0" 10] obtain j series where
    s: "rangeSeries (+) (slice_iterator (demo_value 0 0 0)) 10 30 10 (NewSliceIterator demo_values) = Some (j, series)"
    "mset series = image_mset (\<lambda>h. series_of (+) (point_time 10 10) (filter (\<lambda>p. pf_LabelsHash p = h) (within 10 30 10 demo_values))) (mset_set {1, 2})"
    unfolding h by auto
  then show ?thesis unfolding w
    by (simp add: demo_value_def series_of_def points_of_def point_time_def bucket_def total_of_def)
qed

theorem rangeSeries_zero_step_witness:
  "rangeSeries (+) (slice_iterator (demo_value 0 0 0)) 10 30 0 (NewSliceIterator [demo_value 1 12 1]) = None"
  by (rule rangeSeries_zero_step[OF NewSliceIterator_yields]) (simp_all add: demo_value_def word_sless_alt word_sle_eq)

subsection \<open>Names, series and profile types of all ingesters\<close>

interpretation name_sort: heap_order "(<) :: string \<Rightarrow> string \<Rightarrow> bool"
  by unfold_locales auto

lemma add_unique_fold:
  assumes "set unique = set result" and "distinct result"
  shows "case fold add_unique xs (unique, result) of (u, r) \<Rightarrow> set u = set r \<and> distinct r \<and> set r = set result \<union> set xs"
  using assms
proof (induction xs arbitrary: unique result)
  case (Cons x xs)
  show ?case
  proof (cases "x \<in> set unique")
    case True
    then show ?thesis using Cons.IH[OF Cons.prems] Cons.prems by (auto simp: add_unique_def split: prod.splits)
  next
    case False
    have "set (x # unique) = set (result @ [x])" "distinct (result @ [x])" using Cons.prems False by auto
    from Cons.IH[OF this] False show ?thesis by (auto simp: add_unique_def split: prod.splits)
  qed
qed simp

lemma uniqueSortedStrings_union:
  "sorted_wrt (<) (uniqueSortedStrings rs) \<and> set (uniqueSortedStrings rs) = (\<Union>r \<in> set rs. set (snd r))"
proof -
  have "case fold (\<lambda>r st. fold add_unique (snd r) st) rs (unique, result) of (u, r) \<Rightarrow> set u = set r \<and> distinct r \<and> set r = set result \<union> (\<Union>r \<in> set rs. set (snd r))"
    if "set unique = set result" "distinct result" for unique result
    using that
  proof (induction rs arbitrary: unique result)
    case (Cons r rs)
    obtain u q where uq: "fold add_unique (snd r) (unique, result) = (u, q)" by fastforce
    then have "set u = set q" "distinct q" "set q = set result \<union> set (snd r)" using add_unique_fold[OF Cons.prems, of "snd r"] by auto
    then show ?case using Cons.IH[of u q] uq by (auto split: prod.splits)
  qed simp
  from this[of "[]" "[]"] obtain u q where q: "fold (\<lambda>r st. fold add_unique (snd r) st) rs ([], []) = (u, q)" "distinct q" "set q = (\<Union>r \<in> set rs. set (snd r))"
    by (auto split: prod.splits)
  have "distinct (sort_slice (<) q)" using q(2) by (subst mset_eq_imp_distinct_iff[OF mset_sort_slice])
  then show ?thesis using q name_sort.sort_slice_sorted[of q] by (simp add: uniqueSortedStrings_def strict_sorted_iff not_less)
qed

lemma uniq_by_keys:
  "distinct (map key (uniq_by key seen xs)) \<and> key ` set (uniq_by key seen xs) = key ` set xs - set seen \<and> set (uniq_by key seen xs) \<subseteq> set xs"
  by (induction key seen xs rule: uniq_by.induct) auto

lemma q_Series_hashes:
  "q_Series H (Inr rs) = Inr ls \<Longrightarrow> distinct (map (Labels_Hash H) ls) \<and> Labels_Hash H ` set ls = (\<Union>r \<in> set rs. Labels_Hash H ` set (snd r))"
  using uniq_by_keys[of "Labels_Hash H" "[]" "concat (map snd rs)"] by (auto simp: q_Series_def)

end
