(* ===== verification/Distributor.thy ===== *)
theory Distributor
  imports Iterators Pprof_Normalize
begin

section \<open>Pushing profiles to several ingesters (pkg/distributor/distributor.go)\<close>

text \<open>
  The distributor normalises the pushed profiles, finds the ingesters of each series in the ring and sends
  to every ingester its series in a goroutine of its own.  The goroutines count successes and failures per series with atomic
  counters; the one that sees the last series reach its quorum, or the first series that cannot reach
  it any more, wakes the caller through a channel.  The model has one step per atomic operation and
  the theorems are about every interleaving.

  The ring, the clients of the ingesters, the codec of profiles, \<open>strconv.Quote\<close> and the source of unique IDs are
  arguments.  Metrics, tracing and the time limit of a call (a failed call) are left out.
\<close>

subsection \<open>The token of a series\<close>

definition labelsString_push :: "(string \<Rightarrow> string) \<Rightarrow> labels \<Rightarrow> string" where
  "labelsString_push quote ls =
     ''{'' @ concat (map (\<lambda>(i, l). (if 0 < i then '', '' else '''') @ lp_Name l @ ''='' @ quote (lp_Value l)) (enumerate 0 ls)) @ ''}''"

text \<open>\<open>fnv.New32\<close>, which is FNV-1: multiply by the prime, then exclusive or with the byte.\<close>

definition fnv_write :: "string \<Rightarrow> u32 \<Rightarrow> u32" where
  "fnv_write s h = fold (\<lambda>c h. xor (h * 16777619) (of_char c)) s h"

definition TokenFor :: "string \<Rightarrow> string \<Rightarrow> u32" where
  "TokenFor tenantID lbls = fnv_write lbls (fnv_write tenantID 2166136261)"

subsection \<open>Preparing the request\<close>

record RawSample =
  rs_RawProfile :: "u8 list"
  rs_ID :: string

record RawProfileSeries =
  rs_Labels :: labels
  rs_Samples :: "RawSample list"

record codec =
  cd_RawFromBytes :: "u8 list \<Rightarrow> errs + pProfile"
  cd_WriteTo :: "pProfile \<Rightarrow> errs + u8 list"

text \<open>A result \<open>None\<close> is a panic in \<open>Normalize\<close>.\<close>

definition push_sample :: "codec \<Rightarrow> (u8 list \<Rightarrow> u64) \<Rightarrow> i64 \<Rightarrow> string \<Rightarrow> RawSample \<Rightarrow> (errs + RawSample) option" where
  "push_sample cd H now uuid raw =
     (case cd_RawFromBytes cd (rs_RawProfile raw) of
        Inl err \<Rightarrow> Some (Inl err)
      | Inr p \<Rightarrow> do {
          p \<leftarrow> Normalize H now p;
          Some (case cd_WriteTo cd p of
                  Inl err \<Rightarrow> Inl err
                | Inr bw \<Rightarrow> Inr \<lparr>rs_RawProfile = bw, rs_ID = uuid\<rparr>) })"

fun push_samples :: "codec \<Rightarrow> (u8 list \<Rightarrow> u64) \<Rightarrow> i64 \<Rightarrow> (nat \<Rightarrow> string) \<Rightarrow> nat \<Rightarrow> RawSample list \<Rightarrow> (errs + RawSample list) option" where
  "push_samples cd H now uuid n [] = Some (Inr [])"
| "push_samples cd H now uuid n (raw # raws) = do {
     r \<leftarrow> push_sample cd H now (uuid n) raw;
     case r of
       Inl err \<Rightarrow> Some (Inl err)
     | Inr s \<Rightarrow> do {
         rs \<leftarrow> push_samples cd H now uuid (n + 1) raws;
         Some (case rs of Inl err \<Rightarrow> Inl err | Inr ss \<Rightarrow> Inr (s # ss)) } }"

fun push_series :: "codec \<Rightarrow> (u8 list \<Rightarrow> u64) \<Rightarrow> i64 \<Rightarrow> (nat \<Rightarrow> string) \<Rightarrow> nat \<Rightarrow> RawProfileSeries list \<Rightarrow> (errs + RawProfileSeries list) option" where
  "push_series cd H now uuid n [] = Some (Inr [])"
| "push_series cd H now uuid n (s # ss) = do {
     r \<leftarrow> push_samples cd H now uuid n (rs_Samples s);
     case r of
       Inl err \<Rightarrow> Some (Inl err)
     | Inr raws \<Rightarrow> do {
         rs \<leftarrow> push_series cd H now uuid (n + length raws) ss;
         Some (case rs of Inl err \<Rightarrow> Inl err | Inr qs \<Rightarrow> Inr (s\<lparr>rs_Samples := raws\<rparr> # qs)) } }"

subsection \<open>The trackers\<close>

record profileTracker =
  tk_profile :: RawProfileSeries
  tk_minSuccess :: int
  tk_maxFailures :: int
  tk_succeeded :: i32
  tk_failed :: i32

text \<open>The channels \<open>done\<close> and \<open>err\<close> have a buffer of one message.\<close>

record pushTracker =
  pu_samplesPending :: i32
  pu_samplesFailed :: i32
  pu_done :: nat
  pu_err :: "errs list"

record ReplicationSet =
  rp_Instances :: "string list"
  rp_MaxErrors :: int

text \<open>
  The loop over the keys: what each series needs, and the series of each ingester.  A series is named by
  its index in \<open>profiles\<close>, since the code shares the trackers by pointer.
\<close>

fun assign_ingesters :: "(u32 \<Rightarrow> errs + ReplicationSet) \<Rightarrow> nat \<Rightarrow> u32 list \<Rightarrow> profileTracker list \<Rightarrow> (string \<times> nat list) list \<Rightarrow>
    errs + profileTracker list \<times> (string \<times> nat list) list" where
  "assign_ingesters ring i [] profiles samplesByIngester = Inr (profiles, samplesByIngester)"
| "assign_ingesters ring i (key # keys) profiles samplesByIngester =
     (case ring key of
        Inl err \<Rightarrow> Inl err
      | Inr replicationSet \<Rightarrow>
          assign_ingesters ring (i + 1) keys
            (profiles[i := (profiles ! i)\<lparr>tk_minSuccess := int (length (rp_Instances replicationSet)) - rp_MaxErrors replicationSet,
                                         tk_maxFailures := rp_MaxErrors replicationSet\<rparr>])
            (fold (\<lambda>addr m. AList.update addr ((case map_of m addr of None \<Rightarrow> [] | Some is \<Rightarrow> is) @ [i]) m)
                  (rp_Instances replicationSet) samplesByIngester))"

subsection \<open>The goroutines\<close>

datatype pc = Calling | AtTracker | AtPush | AtSend

record sender =
  sn_addr :: string
  sn_samples :: "nat list"
  sn_i :: nat
  sn_pc :: pc
  sn_err :: errs

definition sendProfilesErr :: "(string \<Rightarrow> errs + (RawProfileSeries list \<Rightarrow> errs)) \<Rightarrow> string \<Rightarrow> RawProfileSeries list \<Rightarrow> errs" where
  "sendProfilesErr pool addr series = (case pool addr of Inl err \<Rightarrow> err | Inr push \<Rightarrow> push series)"

definition next_sample :: "sender \<Rightarrow> sender" where
  "next_sample g = g\<lparr>sn_i := sn_i g + 1, sn_pc := AtTracker\<rparr>"

text \<open>
  One atomic step of \<open>sendProfiles\<close>: the call, the increment of a counter of the series, the change of a counter of the push,
  and the send.  \<open>None\<close>: the goroutine is at its end, or its send blocks because the buffer is full.
\<close>

definition send_step :: "(string \<Rightarrow> errs + (RawProfileSeries list \<Rightarrow> errs)) \<Rightarrow> sender \<Rightarrow> profileTracker list \<Rightarrow> pushTracker \<Rightarrow>
    (sender \<times> profileTracker list \<times> pushTracker) option" where
  "send_step pool g profiles pt =
     (case sn_pc g of
        Calling \<Rightarrow> Some (g\<lparr>sn_err := sendProfilesErr pool (sn_addr g) (map (\<lambda>i. tk_profile (profiles ! i)) (sn_samples g)), sn_pc := AtTracker\<rparr>, profiles, pt)
      | AtTracker \<Rightarrow>
          if length (sn_samples g) \<le> sn_i g then None
          else let i = sn_samples g ! sn_i g; t = profiles ! i
               in if sn_err g \<noteq> [] then
                    let t = t\<lparr>tk_failed := tk_failed t + 1\<rparr>
                    in Some (if tk_failed t \<le>s of_int (tk_maxFailures t) then next_sample g else g\<lparr>sn_pc := AtPush\<rparr>, profiles[i := t], pt)
                  else
                    let t = t\<lparr>tk_succeeded := tk_succeeded t + 1\<rparr>
                    in Some (if tk_succeeded t \<noteq> of_int (tk_minSuccess t) then next_sample g else g\<lparr>sn_pc := AtPush\<rparr>, profiles[i := t], pt)
      | AtPush \<Rightarrow>
          if sn_err g \<noteq> [] then
            let pt = pt\<lparr>pu_samplesFailed := pu_samplesFailed pt + 1\<rparr>
            in Some (if pu_samplesFailed pt = 1 then g\<lparr>sn_pc := AtSend\<rparr> else next_sample g, profiles, pt)
          else
            let pt = pt\<lparr>pu_samplesPending := pu_samplesPending pt - 1\<rparr>
            in Some (if pu_samplesPending pt = 0 then g\<lparr>sn_pc := AtSend\<rparr> else next_sample g, profiles, pt)
      | AtSend \<Rightarrow>
          if sn_err g \<noteq> [] then
            if pu_err pt = [] then Some (next_sample g, profiles, pt\<lparr>pu_err := [sn_err g]\<rparr>) else None
          else
            if pu_done pt = 0 then Some (next_sample g, profiles, pt\<lparr>pu_done := 1\<rparr>) else None)"

subsection \<open>Push\<close>

datatype answer = Waiting | Accepted | Failed errs | Cancelled

record push_state =
  st_profiles :: "profileTracker list"
  st_tracker :: pushTracker
  st_senders :: "sender list"
  st_answer :: answer

definition push_start :: "profileTracker list \<Rightarrow> (string \<times> nat list) list \<Rightarrow> push_state" where
  "push_start profiles samplesByIngester =
     \<lparr>st_profiles = profiles,
      st_tracker = \<lparr>pu_samplesPending = of_nat (length profiles), pu_samplesFailed = 0, pu_done = 0, pu_err = []\<rparr>,
      st_senders = map (\<lambda>(addr, samples). \<lparr>sn_addr = addr, sn_samples = samples, sn_i = 0, sn_pc = Calling, sn_err = []\<rparr>) samplesByIngester,
      st_answer = Waiting\<rparr>"

definition Push :: "(string \<Rightarrow> string) \<Rightarrow> codec \<Rightarrow> (u8 list \<Rightarrow> u64) \<Rightarrow> i64 \<Rightarrow> (nat \<Rightarrow> string) \<Rightarrow> (u32 \<Rightarrow> errs + ReplicationSet) \<Rightarrow>
    errs + string \<Rightarrow> RawProfileSeries list \<Rightarrow> (errs + push_state) option" where
  "Push quote cd H now uuid ring tenant req =
     (case tenant of
        Inl err \<Rightarrow> Some (Inl err)
      | Inr tenantID \<Rightarrow> do {
          r \<leftarrow> push_series cd H now uuid 0 req;
          Some (case r of
                  Inl err \<Rightarrow> Inl err
                | Inr series \<Rightarrow>
                    (case assign_ingesters ring 0 (map (\<lambda>s. TokenFor tenantID (labelsString_push quote (rs_Labels s))) series)
                            (map (\<lambda>s. \<lparr>tk_profile = s, tk_minSuccess = 0, tk_maxFailures = 0, tk_succeeded = 0, tk_failed = 0\<rparr>) series) [] of
                       Inl err \<Rightarrow> Inl err
                     | Inr (profiles, samplesByIngester) \<Rightarrow> Inr (push_start profiles samplesByIngester))) })"

text \<open>A step of the whole: of a goroutine, or of the caller, which waits for one of three events.\<close>

inductive push_step :: "(string \<Rightarrow> errs + (RawProfileSeries list \<Rightarrow> errs)) \<Rightarrow> push_state \<Rightarrow> push_state \<Rightarrow> bool" for pool where
  sending: "k < length (st_senders s) \<Longrightarrow> send_step pool (st_senders s ! k) (st_profiles s) (st_tracker s) = Some (g, profiles, pt) \<Longrightarrow>
     push_step pool s (s\<lparr>st_profiles := profiles, st_tracker := pt, st_senders := (st_senders s)[k := g]\<rparr>)"
| woken_err: "st_answer s = Waiting \<Longrightarrow> pu_err (st_tracker s) = e # es \<Longrightarrow>
     push_step pool s (s\<lparr>st_tracker := (st_tracker s)\<lparr>pu_err := es\<rparr>, st_answer := Failed e\<rparr>)"
| woken_done: "st_answer s = Waiting \<Longrightarrow> 0 < pu_done (st_tracker s) \<Longrightarrow>
     push_step pool s (s\<lparr>st_tracker := (st_tracker s)\<lparr>pu_done := pu_done (st_tracker s) - 1\<rparr>, st_answer := Accepted\<rparr>)"
| cancelled: "st_answer s = Waiting \<Longrightarrow> push_step pool s (s\<lparr>st_answer := Cancelled\<rparr>)"

subsection \<open>Counting in lists\<close>

definition cnt :: "('a \<Rightarrow> bool) \<Rightarrow> 'a list \<Rightarrow> nat" where
  "cnt P xs = length (filter P xs)"

lemma cnt_le: "cnt P xs \<le> length xs"
  by (simp add: cnt_def)

lemma cnt_mono: "(\<And>x. x \<in> set xs \<Longrightarrow> P x \<Longrightarrow> Q x) \<Longrightarrow> cnt P xs \<le> cnt Q xs"
  unfolding cnt_def by (induction xs) auto

lemma cnt_pos: "0 < cnt P xs \<longleftrightarrow> (\<exists>x \<in> set xs. P x)"
  by (auto simp: cnt_def filter_empty_conv)

lemma cnt_all: "cnt P xs = length xs \<longleftrightarrow> (\<forall>x \<in> set xs. P x)"
proof (induction xs)
  case (Cons x xs)
  have "length (filter P xs) \<noteq> Suc (length xs)" using length_filter_le[of P xs] by linarith
  then show ?case using Cons by (auto simp: cnt_def)
qed (simp add: cnt_def)

lemma cnt_update: "k < length xs \<Longrightarrow> cnt P (xs[k := x]) + of_bool (P (xs ! k)) = cnt P xs + of_bool (P x)"
proof (induction xs arbitrary: k)
  case (Cons y ys)
  then show ?case by (cases k) (auto simp: cnt_def)
qed simp

lemma sum_list_update_add:
  fixes f :: "'a \<Rightarrow> nat"
  shows "k < length xs \<Longrightarrow> (\<Sum>x\<leftarrow>xs[k := x]. f x) + f (xs ! k) = (\<Sum>x\<leftarrow>xs. f x) + f x"
proof (induction xs arbitrary: k)
  case (Cons y ys)
  then show ?case by (cases k) auto
qed simp

subsection \<open>The invariant\<close>

text \<open>The series that a goroutine has counted, and whether it has counted series \<open>i\<close> as a success or a failure.\<close>

definition counted :: "sender \<Rightarrow> nat set" where
  "counted g = set (take (sn_i g + of_bool (sn_pc g = AtPush \<or> sn_pc g = AtSend)) (sn_samples g))"

definition acked :: "nat \<Rightarrow> sender \<Rightarrow> bool" where
  "acked i g \<longleftrightarrow> i \<in> counted g \<and> sn_err g = []"

definition refused :: "nat \<Rightarrow> sender \<Rightarrow> bool" where
  "refused i g \<longleftrightarrow> i \<in> counted g \<and> sn_err g \<noteq> []"

definition at :: "pc \<Rightarrow> bool \<Rightarrow> sender \<Rightarrow> bool" where
  "at p ok g \<longleftrightarrow> sn_pc g = p \<and> (sn_err g = [] \<longleftrightarrow> ok)"

abbreviation min_ok :: "profileTracker \<Rightarrow> nat" where
  "min_ok t \<equiv> nat (tk_minSuccess t)"

abbreviation max_bad :: "profileTracker \<Rightarrow> nat" where
  "max_bad t \<equiv> nat (tk_maxFailures t)"

definition quorum :: "profileTracker \<Rightarrow> bool" where
  "quorum t \<longleftrightarrow> min_ok t \<le> unat (tk_succeeded t)"

definition excess :: "profileTracker \<Rightarrow> nat" where
  "excess t = unat (tk_failed t) - max_bad t"

text \<open>What stays the same: who sends what, and the ring's numbers.\<close>

definition plan_ok :: "push_state \<Rightarrow> bool" where
  "plan_ok s \<longleftrightarrow> length (st_profiles s) * length (st_senders s) < 2 ^ 31 \<and> length (st_profiles s) < 2 ^ 31
     \<and> (\<forall>g \<in> set (st_senders s). distinct (sn_samples g) \<and> (\<forall>i \<in> set (sn_samples g). i < length (st_profiles s)))
     \<and> (\<forall>i < length (st_profiles s). 0 < tk_minSuccess (st_profiles s ! i) \<and> 0 \<le> tk_maxFailures (st_profiles s ! i)
          \<and> min_ok (st_profiles s ! i) + max_bad (st_profiles s ! i) = cnt (\<lambda>g. i \<in> set (sn_samples g)) (st_senders s))"

definition counters_ok :: "push_state \<Rightarrow> bool" where
  "counters_ok s \<longleftrightarrow> (\<forall>i < length (st_profiles s). unat (tk_succeeded (st_profiles s ! i)) = cnt (acked i) (st_senders s)
      \<and> unat (tk_failed (st_profiles s ! i)) = cnt (refused i) (st_senders s))
    \<and> (\<forall>g \<in> set (st_senders s). (sn_pc g = Calling \<longrightarrow> sn_i g = 0) \<and> (sn_pc g = AtPush \<or> sn_pc g = AtSend \<longrightarrow> sn_i g < length (sn_samples g)))"

definition pending_ok :: "push_state \<Rightarrow> bool" where
  "pending_ok s \<longleftrightarrow> unat (pu_samplesPending (st_tracker s)) + cnt quorum (st_profiles s) = length (st_profiles s) + cnt (at AtPush True) (st_senders s)
     \<and> cnt (at AtSend True) (st_senders s) + pu_done (st_tracker s) + of_bool (st_answer s = Accepted)
        = of_bool (pu_samplesPending (st_tracker s) = 0 \<and> st_profiles s \<noteq> [])"

definition failed_ok :: "push_state \<Rightarrow> bool" where
  "failed_ok s \<longleftrightarrow> unat (pu_samplesFailed (st_tracker s)) + cnt (at AtPush False) (st_senders s) = (\<Sum>t\<leftarrow>st_profiles s. excess t)
     \<and> cnt (at AtSend False) (st_senders s) + length (pu_err (st_tracker s)) + of_bool (\<exists>e. st_answer s = Failed e)
        = of_bool (pu_samplesFailed (st_tracker s) \<noteq> 0)"

definition push_inv :: "push_state \<Rightarrow> bool" where
  "push_inv s \<longleftrightarrow> plan_ok s \<and> counters_ok s \<and> pending_ok s \<and> failed_ok s"

subsection \<open>Steps keep the invariant\<close>

abbreviation upd :: "push_state \<Rightarrow> nat \<Rightarrow> sender \<Rightarrow> profileTracker list \<Rightarrow> pushTracker \<Rightarrow> push_state" where
  "upd s k g profiles pt \<equiv> s\<lparr>st_profiles := profiles, st_tracker := pt, st_senders := (st_senders s)[k := g]\<rparr>"

lemma counted_tracker:
  assumes "sn_pc g = AtTracker" and "sn_i g < length (sn_samples g)"
  shows "counted (next_sample g) = insert (sn_samples g ! sn_i g) (counted g)"
    and "counted (g\<lparr>sn_pc := AtPush\<rparr>) = insert (sn_samples g ! sn_i g) (counted g)"
  using assms by (simp_all add: counted_def next_sample_def take_Suc_conv_app_nth)

lemma counted_fresh:
  assumes "sn_pc g = AtTracker" and "sn_i g < length (sn_samples g)" and "distinct (sn_samples g)"
  shows "sn_samples g ! sn_i g \<notin> counted g"
  using assms by (auto simp: counted_def in_set_conv_nth nth_eq_iff_index_eq)

lemma counted_push: "sn_pc g = AtPush \<Longrightarrow> counted (g\<lparr>sn_pc := AtSend\<rparr>) = counted g"
  "sn_pc g = AtPush \<or> sn_pc g = AtSend \<Longrightarrow> counted (next_sample g) = counted g"
  by (auto simp: counted_def next_sample_def)

lemma counted_samples: "counted g \<subseteq> set (sn_samples g)"
  unfolding counted_def by (rule set_take_subset)

lemma sender_fields [simp]:
  "sn_samples (next_sample g) = sn_samples g" "sn_err (next_sample g) = sn_err g" "sn_pc (next_sample g) = AtTracker" "sn_i (next_sample g) = Suc (sn_i g)"
  by (simp_all add: next_sample_def)

lemma next_sample_neq [simp]: "g\<lparr>sn_pc := p\<rparr> \<noteq> next_sample g" "next_sample g \<noteq> g\<lparr>sn_pc := p\<rparr>"
proof -
  show "g\<lparr>sn_pc := p\<rparr> \<noteq> next_sample g"
  proof
    assume "g\<lparr>sn_pc := p\<rparr> = next_sample g"
    then have "sn_i (g\<lparr>sn_pc := p\<rparr>) = sn_i (next_sample g)" by (rule arg_cong)
    then show False by simp
  qed
  then show "next_sample g \<noteq> g\<lparr>sn_pc := p\<rparr>" by (rule not_sym)
qed

lemma plan_ok_upd:
  assumes "plan_ok s" and "k < length (st_senders s)" and "sn_samples g = sn_samples (st_senders s ! k)" and "length profiles = length (st_profiles s)"
    and "\<And>i. i < length profiles \<Longrightarrow> tk_minSuccess (profiles ! i) = tk_minSuccess (st_profiles s ! i) \<and> tk_maxFailures (profiles ! i) = tk_maxFailures (st_profiles s ! i)"
  shows "plan_ok (upd s k g profiles pt)"
proof -
  have samples: "h \<in> set ((st_senders s)[k := g]) \<Longrightarrow> \<exists>h' \<in> set (st_senders s). sn_samples h = sn_samples h'" for h
    using assms(2,3) set_update_subset_insert[of "st_senders s" k g] by (auto dest: subsetD nth_mem)
  have "cnt (\<lambda>g. i \<in> set (sn_samples g)) ((st_senders s)[k := g]) = cnt (\<lambda>g. i \<in> set (sn_samples g)) (st_senders s)" for i
    using cnt_update[OF assms(2), of "\<lambda>g. i \<in> set (sn_samples g)" g] assms(3) by simp
  then show ?thesis using assms samples unfolding plan_ok_def by (simp add: Ball_def) metis
qed

lemma push_bounds:
  assumes "push_inv s" and "i < length (st_profiles s)"
  shows "length (st_senders s) < 2 ^ 31" and "min_ok (st_profiles s ! i) < 2 ^ 31" and "max_bad (st_profiles s ! i) < 2 ^ 31"
proof -
  have "1 * length (st_senders s) \<le> length (st_profiles s) * length (st_senders s)" using assms(2) by (intro mult_le_mono1) linarith
  moreover have "length (st_profiles s) * length (st_senders s) < 2 ^ 31" using assms(1) unfolding push_inv_def plan_ok_def by blast
  ultimately show m: "length (st_senders s) < 2 ^ 31" by linarith
  have "min_ok (st_profiles s ! i) + max_bad (st_profiles s ! i) \<le> length (st_senders s)"
    using assms cnt_le unfolding push_inv_def plan_ok_def by metis
  then show "min_ok (st_profiles s ! i) < 2 ^ 31" "max_bad (st_profiles s ! i) < 2 ^ 31" using m by simp_all
qed

lemma unat_of_nat_31: "n < 2 ^ 31 \<Longrightarrow> unat (of_nat n :: i32) = n"
  by (simp add: unat_of_nat take_bit_nat_eq_self)

lemma unat_inc: "unat (w :: i32) < 2 ^ 31 \<Longrightarrow> unat (w + 1) = unat w + 1"
  by (simp add: unat_word_ariths)

lemma unat_of_int_i32: "0 \<le> x \<Longrightarrow> nat x < 2 ^ 31 \<Longrightarrow> unat (of_int x :: i32) = nat x"
  by (metis int_nat_eq of_int_of_nat_eq unat_of_nat_31)

lemma eq_of_int: "unat (w :: i32) < 2 ^ 32 \<Longrightarrow> 0 \<le> x \<Longrightarrow> nat x < 2 ^ 31 \<Longrightarrow> w = of_int x \<longleftrightarrow> unat w = nat x"
proof -
  assume x: "0 \<le> x" "nat x < 2 ^ 31"
  then show ?thesis using unat_of_int_i32[of x] by (metis word_unat_eq_iff)
qed

lemma sle_of_int: "unat (w :: i32) < 2 ^ 31 \<Longrightarrow> 0 \<le> x \<Longrightarrow> nat x < 2 ^ 31 \<Longrightarrow> w \<le>s of_int x \<longleftrightarrow> unat w \<le> nat x"
proof -
  assume w: "unat w < 2 ^ 31" and x: "0 \<le> x" "nat x < 2 ^ 31"
  have s: "sint v = int (unat v)" if "unat v < 2 ^ 31" for v :: i32
  proof -
    have "sint (of_nat (unat v) :: i32) = int (unat v)" using that by (simp add: signed_of_nat signed_take_bit_int_eq_self del: of_nat_unat)
    then show ?thesis by simp
  qed
  have "sint (of_int x :: i32) = int (nat x)" using s[of "of_int x"] unat_of_int_i32[OF x] x(2) by simp
  then show ?thesis unfolding word_sle_eq s[OF w] by linarith
qed

lemma counters_ok_upd:
  assumes "counters_ok s" and k: "k < length (st_senders s)" and "length profiles = length (st_profiles s)"
    and g: "sn_pc g = Calling \<longrightarrow> sn_i g = 0" "sn_pc g = AtPush \<or> sn_pc g = AtSend \<longrightarrow> sn_i g < length (sn_samples g)"
    and "\<And>i. i < length profiles \<Longrightarrow> unat (tk_succeeded (profiles ! i)) = cnt (acked i) ((st_senders s)[k := g])"
    and "\<And>i. i < length profiles \<Longrightarrow> unat (tk_failed (profiles ! i)) = cnt (refused i) ((st_senders s)[k := g])"
  shows "counters_ok (upd s k g profiles pt)"
proof -
  have "h = g \<or> h \<in> set (st_senders s)" if "h \<in> set ((st_senders s)[k := g])" for h
    using that set_update_subset_insert[of "st_senders s" k g] by blast
  then show ?thesis using assms unfolding counters_ok_def by (simp add: Ball_def) metis
qed

text \<open>A goroutine that counts a series: the common part of success and failure.\<close>

lemma counting:
  assumes inv: "push_inv s" and k: "k < length (st_senders s)" and g: "g = st_senders s ! k"
    and pc: "sn_pc g = AtTracker" "sn_i g < length (sn_samples g)" and i: "i = sn_samples g ! sn_i g"
    and g': "g' = next_sample g \<or> g' = g\<lparr>sn_pc := AtPush\<rparr>"
  shows "i < length (st_profiles s)" "cnt (acked j) ((st_senders s)[k := g']) = cnt (acked j) (st_senders s) + of_bool (j = i \<and> sn_err g = [])"
    and "cnt (refused j) ((st_senders s)[k := g']) = cnt (refused j) (st_senders s) + of_bool (j = i \<and> sn_err g \<noteq> [])"
    and "sn_samples g' = sn_samples g" "sn_pc g' \<noteq> Calling" "sn_pc g' = AtPush \<or> sn_pc g' = AtSend \<longrightarrow> sn_i g' < length (sn_samples g')"
    and "cnt (at AtSend b) ((st_senders s)[k := g']) = cnt (at AtSend b) (st_senders s)"
    and "cnt (at AtPush b) ((st_senders s)[k := g']) = cnt (at AtPush b) (st_senders s) + of_bool (g' \<noteq> next_sample g \<and> (sn_err g = [] \<longleftrightarrow> b))"
proof -
  have gin: "g \<in> set (st_senders s)" using k g by simp
  then have d: "distinct (sn_samples g)" "\<forall>j \<in> set (sn_samples g). j < length (st_profiles s)" using inv unfolding push_inv_def plan_ok_def by blast+
  then show "i < length (st_profiles s)" using i pc(2) by simp
  have c: "counted g' = insert i (counted g)" "i \<notin> counted g" "sn_err g' = sn_err g"
    using g' counted_tracker[OF pc] counted_fresh[OF pc d(1)] i by auto
  show "cnt (acked j) ((st_senders s)[k := g']) = cnt (acked j) (st_senders s) + of_bool (j = i \<and> sn_err g = [])"
    "cnt (refused j) ((st_senders s)[k := g']) = cnt (refused j) (st_senders s) + of_bool (j = i \<and> sn_err g \<noteq> [])"
    using cnt_update[OF k, of "acked j" g'] cnt_update[OF k, of "refused j" g'] c g by (auto simp: acked_def refused_def of_bool_def split: if_splits)
  show "sn_samples g' = sn_samples g" "sn_pc g' \<noteq> Calling" "sn_pc g' = AtPush \<or> sn_pc g' = AtSend \<longrightarrow> sn_i g' < length (sn_samples g')" using g' pc(2) by auto
  have at: "at AtSend b g' = False" "at AtSend b g = False" "at AtPush b g = False" "at AtPush b g' \<longleftrightarrow> g' \<noteq> next_sample g \<and> (sn_err g = [] \<longleftrightarrow> b)"
    using g' pc(1) by (auto simp: at_def)
  show "cnt (at AtSend b) ((st_senders s)[k := g']) = cnt (at AtSend b) (st_senders s)"
    using cnt_update[OF k, of "at AtSend b" g', folded g] at by simp
  show "cnt (at AtPush b) ((st_senders s)[k := g']) = cnt (at AtPush b) (st_senders s) + of_bool (g' \<noteq> next_sample g \<and> (sn_err g = [] \<longleftrightarrow> b))"
    using cnt_update[OF k, of "at AtPush b" g', folded g] at by simp
qed

lemma inv_success:
  assumes inv: "push_inv s" and k: "k < length (st_senders s)" and g: "g = st_senders s ! k"
    and pc: "sn_pc g = AtTracker" "sn_i g < length (sn_samples g)" and ok: "sn_err g = []" and i: "i = sn_samples g ! sn_i g"
    and t': "t' = (st_profiles s ! i)\<lparr>tk_succeeded := tk_succeeded (st_profiles s ! i) + 1\<rparr>"
    and g': "g' = (if tk_succeeded t' \<noteq> of_int (tk_minSuccess t') then next_sample g else g\<lparr>sn_pc := AtPush\<rparr>)"
  shows "push_inv (upd s k g' ((st_profiles s)[i := t']) (st_tracker s))"
proof -
  let ?t = "st_profiles s ! i" and ?ss = "(st_senders s)[k := g']" and ?ps = "(st_profiles s)[i := t']"
  note c = counting[OF inv k g pc i, of g']
  have gg: "g' = next_sample g \<or> g' = g\<lparr>sn_pc := AtPush\<rparr>" using g' by auto
  have il: "i < length (st_profiles s)" using c(1)[OF gg] .
  note b = push_bounds[OF inv il]
  have S: "unat (tk_succeeded ?t) = cnt (acked i) (st_senders s)" using inv il unfolding push_inv_def counters_ok_def by blast
  have "cnt (acked i) ?ss \<le> length (st_senders s)" using cnt_le[of "acked i" ?ss] by simp
  then have S1: "unat (tk_succeeded t') = unat (tk_succeeded ?t) + 1" "unat (tk_succeeded t') < 2 ^ 31"
    using c(2)[OF gg, of i] ok S b(1) unat_inc[of "tk_succeeded ?t"] t' by simp_all
  have pos: "0 < tk_minSuccess ?t" using inv il unfolding push_inv_def plan_ok_def by blast
  have cross: "g' \<noteq> next_sample g \<longleftrightarrow> unat (tk_succeeded t') = min_ok ?t"
  proof -
    have "tk_succeeded t' = of_int (tk_minSuccess t') \<longleftrightarrow> unat (tk_succeeded t') = min_ok ?t"
      using eq_of_int[of "tk_succeeded t'" "tk_minSuccess ?t"] S1(2) pos b(2) t' by simp
    then show ?thesis using g' by auto
  qed
  have q: "cnt quorum ?ps = cnt quorum (st_profiles s) + of_bool (g' \<noteq> next_sample g)"
    using cnt_update[OF il, of quorum t'] S1(1) cross pos t' by (auto simp: quorum_def of_bool_def split: if_splits)
  have e: "(\<Sum>t\<leftarrow>?ps. excess t) = (\<Sum>t\<leftarrow>st_profiles s. excess t)" using sum_list_update_add[OF il, of excess t'] t' by (simp add: excess_def)
  show ?thesis unfolding push_inv_def
  proof (intro conjI)
    show "plan_ok (upd s k g' ?ps (st_tracker s))"
      using inv t' c(4)[OF gg] g il by (intro plan_ok_upd[OF _ k]) (auto simp: push_inv_def nth_list_update)
    show "counters_ok (upd s k g' ?ps (st_tracker s))"
      using inv c(5,6)[OF gg] c(2,3)[OF gg] ok t' S1 il unfolding push_inv_def
      by (intro counters_ok_upd[OF _ k]) (auto simp: counters_ok_def nth_list_update)
    show "pending_ok (upd s k g' ?ps (st_tracker s))"
      using inv q c(8)[OF gg, of True] c(7)[OF gg, of True] ok unfolding push_inv_def by (simp add: pending_ok_def)
    show "failed_ok (upd s k g' ?ps (st_tracker s))"
      using inv e c(8)[OF gg, of False] c(7)[OF gg, of False] ok unfolding push_inv_def by (simp add: failed_ok_def)
  qed
qed

lemma inv_failure:
  assumes inv: "push_inv s" and k: "k < length (st_senders s)" and g: "g = st_senders s ! k"
    and pc: "sn_pc g = AtTracker" "sn_i g < length (sn_samples g)" and bad: "sn_err g \<noteq> []" and i: "i = sn_samples g ! sn_i g"
    and t': "t' = (st_profiles s ! i)\<lparr>tk_failed := tk_failed (st_profiles s ! i) + 1\<rparr>"
    and g': "g' = (if tk_failed t' \<le>s of_int (tk_maxFailures t') then next_sample g else g\<lparr>sn_pc := AtPush\<rparr>)"
  shows "push_inv (upd s k g' ((st_profiles s)[i := t']) (st_tracker s))"
proof -
  let ?t = "st_profiles s ! i" and ?ss = "(st_senders s)[k := g']" and ?ps = "(st_profiles s)[i := t']"
  note c = counting[OF inv k g pc i, of g']
  have gg: "g' = next_sample g \<or> g' = g\<lparr>sn_pc := AtPush\<rparr>" using g' by auto
  have il: "i < length (st_profiles s)" using c(1)[OF gg] .
  note b = push_bounds[OF inv il]
  have S: "unat (tk_failed ?t) = cnt (refused i) (st_senders s)" using inv il unfolding push_inv_def counters_ok_def by blast
  have "cnt (refused i) ?ss \<le> length (st_senders s)" using cnt_le[of "refused i" ?ss] by simp
  then have S1: "unat (tk_failed t') = unat (tk_failed ?t) + 1" "unat (tk_failed t') < 2 ^ 31"
    using c(3)[OF gg, of i] bad S b(1) unat_inc[of "tk_failed ?t"] t' by simp_all
  have pos: "0 \<le> tk_maxFailures ?t" using inv il unfolding push_inv_def plan_ok_def by blast
  have cross: "g' \<noteq> next_sample g \<longleftrightarrow> max_bad ?t < unat (tk_failed t')"
  proof -
    have "tk_failed t' \<le>s of_int (tk_maxFailures t') \<longleftrightarrow> unat (tk_failed t') \<le> max_bad ?t"
      using sle_of_int[of "tk_failed t'" "tk_maxFailures ?t"] S1(2) pos b(3) t' by simp
    then show ?thesis using g' by auto
  qed
  have q: "cnt quorum ?ps = cnt quorum (st_profiles s)" using cnt_update[OF il, of quorum t'] t' by (simp add: quorum_def)
  have e: "(\<Sum>t\<leftarrow>?ps. excess t) = (\<Sum>t\<leftarrow>st_profiles s. excess t) + of_bool (g' \<noteq> next_sample g)"
    using sum_list_update_add[OF il, of excess t'] S1(1) cross t' by (auto simp: excess_def of_bool_def split: if_splits)
  show ?thesis unfolding push_inv_def
  proof (intro conjI)
    show "plan_ok (upd s k g' ?ps (st_tracker s))"
      using inv t' c(4)[OF gg] g il by (intro plan_ok_upd[OF _ k]) (auto simp: push_inv_def nth_list_update)
    show "counters_ok (upd s k g' ?ps (st_tracker s))"
      using inv c(5,6)[OF gg] c(2,3)[OF gg] bad t' S1 il unfolding push_inv_def
      by (intro counters_ok_upd[OF _ k]) (auto simp: counters_ok_def nth_list_update)
    show "pending_ok (upd s k g' ?ps (st_tracker s))"
      using inv q c(8)[OF gg, of True] c(7)[OF gg, of True] bad unfolding push_inv_def by (simp add: pending_ok_def)
    show "failed_ok (upd s k g' ?ps (st_tracker s))"
      using inv e c(8)[OF gg, of False] c(7)[OF gg, of False] bad unfolding push_inv_def by (simp add: failed_ok_def)
  qed
qed

text \<open>Steps that count no series: what a goroutine has counted and the trackers of the series stay.\<close>

lemma inv_other:
  assumes inv: "push_inv s" and k: "k < length (st_senders s)" and g: "g = st_senders s ! k"
    and same: "counted g' = counted g" "sn_samples g' = sn_samples g" "sn_err g' = sn_err g \<or> counted g = {}"
    and pc: "sn_pc g' = Calling \<longrightarrow> sn_i g' = 0" "sn_pc g' = AtPush \<or> sn_pc g' = AtSend \<longrightarrow> sn_i g' < length (sn_samples g')"
    and rest: "pending_ok (upd s k g' (st_profiles s) pt)" "failed_ok (upd s k g' (st_profiles s) pt)"
  shows "push_inv (upd s k g' (st_profiles s) pt)"
proof -
  have "cnt (acked j) ((st_senders s)[k := g']) = cnt (acked j) (st_senders s)" "cnt (refused j) ((st_senders s)[k := g']) = cnt (refused j) (st_senders s)" for j
    using cnt_update[OF k, of "acked j" g', folded g] cnt_update[OF k, of "refused j" g', folded g] same by (auto simp: acked_def refused_def)
  then have "counters_ok (upd s k g' (st_profiles s) pt)"
    using inv pc unfolding push_inv_def by (intro counters_ok_upd[OF _ k]) (auto simp: counters_ok_def)
  moreover have "plan_ok (upd s k g' (st_profiles s) pt)" using inv same(2) g unfolding push_inv_def by (intro plan_ok_upd[OF _ k]) auto
  ultimately show ?thesis using rest by (simp add: push_inv_def)
qed

text \<open>How many goroutines are about to count for the push, or to send, after a step of one of them.\<close>

lemma at_update:
  assumes "k < length (st_senders s)" and "g = st_senders s ! k"
  shows "cnt (at p b) ((st_senders s)[k := g']) + of_bool (at p b g) = cnt (at p b) (st_senders s) + of_bool (at p b g')"
  using cnt_update[OF assms(1), of "at p b" g'] assms(2) by simp

lemma at_pos: "k < length (st_senders s) \<Longrightarrow> at p b (st_senders s ! k) \<Longrightarrow> 0 < cnt (at p b) (st_senders s)"
  using cnt_pos[of "at p b" "st_senders s"] nth_mem by blast

lemma excess_bound:
  assumes "push_inv s"
  shows "(\<Sum>t\<leftarrow>st_profiles s. excess t) < 2 ^ 31"
proof -
  have "excess t \<le> length (st_senders s)" if "t \<in> set (st_profiles s)" for t
    using that assms cnt_le[of "refused _" "st_senders s"] unfolding push_inv_def counters_ok_def in_set_conv_nth by (auto simp: excess_def intro: le_trans[OF diff_le_self])
  then have "(\<Sum>t\<leftarrow>st_profiles s. excess t) \<le> (\<Sum>t\<leftarrow>st_profiles s. length (st_senders s))" by (rule sum_list_mono)
  then show ?thesis using assms unfolding push_inv_def plan_ok_def by (simp add: sum_list_triv)
qed

lemma sender_index: "push_inv s \<Longrightarrow> g \<in> set (st_senders s) \<Longrightarrow> sn_pc g = AtPush \<or> sn_pc g = AtSend \<Longrightarrow> sn_i g < length (sn_samples g) \<and> st_profiles s \<noteq> []"
proof -
  assume a: "push_inv s" "g \<in> set (st_senders s)" "sn_pc g = AtPush \<or> sn_pc g = AtSend"
  then have i: "sn_i g < length (sn_samples g)" unfolding push_inv_def counters_ok_def by blast
  then have "sn_samples g ! sn_i g < length (st_profiles s)" using a(1,2) unfolding push_inv_def plan_ok_def by simp
  then show ?thesis using i by auto
qed

lemma inv_push_failure:
  assumes inv: "push_inv s" and k: "k < length (st_senders s)" and g: "g = st_senders s ! k" and pc: "sn_pc g = AtPush" and bad: "sn_err g \<noteq> []"
    and pt: "pt = (st_tracker s)\<lparr>pu_samplesFailed := pu_samplesFailed (st_tracker s) + 1\<rparr>"
    and g': "g' = (if pu_samplesFailed pt = 1 then g\<lparr>sn_pc := AtSend\<rparr> else next_sample g)"
  shows "push_inv (upd s k g' (st_profiles s) pt)"
proof -
  let ?F = "pu_samplesFailed (st_tracker s)"
  have gin: "g \<in> set (st_senders s)" using k g by simp
  have f: "failed_ok s" "pending_ok s" using inv by (simp_all add: push_inv_def)
  have "0 < cnt (at AtPush False) (st_senders s)" using at_pos[OF k] pc bad g by (simp add: at_def)
  then have "unat ?F < 2 ^ 31" using f(1) excess_bound[OF inv] unfolding failed_ok_def by linarith
  then have F: "unat (?F + 1) = unat ?F + 1" by (rule unat_inc)
  have F1: "?F + 1 = 1 \<longleftrightarrow> ?F = 0" "?F + 1 \<noteq> 0" using F by (auto dest: arg_cong[of _ _ unat])
  note a = at_update[OF k g, of _ _ g']
  have fail: "failed_ok (upd s k g' (st_profiles s) pt)"
    using f(1) F F1 a[of AtPush False] a[of AtSend False] pc bad pt g' unfolding failed_ok_def by (cases "?F = 0") (simp_all add: at_def)
  have pend: "pending_ok (upd s k g' (st_profiles s) pt)"
    using f(2) a[of AtPush True] a[of AtSend True] pc bad pt g' unfolding pending_ok_def by (cases "?F + 1 = 1") (simp_all add: at_def)
  show ?thesis
    using sender_index[OF inv gin] pc g' counted_push[of g] by (intro inv_other[OF inv k g _ _ _ _ _ pend fail]) auto
qed

lemma inv_push_success:
  assumes inv: "push_inv s" and k: "k < length (st_senders s)" and g: "g = st_senders s ! k" and pc: "sn_pc g = AtPush" and ok: "sn_err g = []"
    and pt: "pt = (st_tracker s)\<lparr>pu_samplesPending := pu_samplesPending (st_tracker s) - 1\<rparr>"
    and g': "g' = (if pu_samplesPending pt = 0 then g\<lparr>sn_pc := AtSend\<rparr> else next_sample g)"
  shows "push_inv (upd s k g' (st_profiles s) pt)"
proof -
  let ?P = "pu_samplesPending (st_tracker s)"
  have gin: "g \<in> set (st_senders s)" using k g by simp
  have f: "failed_ok s" "pending_ok s" using inv by (simp_all add: push_inv_def)
  have "0 < cnt (at AtPush True) (st_senders s)" using at_pos[OF k] pc ok g by (simp add: at_def)
  then have "0 < unat ?P" using f(2) cnt_le[of quorum "st_profiles s"] unfolding pending_ok_def by linarith
  moreover from this have "?P \<noteq> 0" by auto
  ultimately have P: "unat (?P - 1) = unat ?P - 1" "?P \<noteq> 0" "0 < unat ?P" using unat_minus_one[of ?P] by blast+
  note a = at_update[OF k g, of _ _ g']
  have pend: "pending_ok (upd s k g' (st_profiles s) pt)"
    using f(2) P a[of AtPush True] a[of AtSend True] sender_index[OF inv gin] pc ok pt g' unfolding pending_ok_def
    by (cases "?P - 1 = 0") (simp_all add: at_def)
  have fail: "failed_ok (upd s k g' (st_profiles s) pt)"
    using f(1) a[of AtPush False] a[of AtSend False] pc ok pt g' unfolding failed_ok_def by (cases "?P - 1 = 0") (simp_all add: at_def)
  show ?thesis
    using sender_index[OF inv gin] pc g' counted_push[of g] by (intro inv_other[OF inv k g _ _ _ _ _ pend fail]) auto
qed

lemma inv_send:
  assumes inv: "push_inv s" and k: "k < length (st_senders s)" and g: "g = st_senders s ! k" and pc: "sn_pc g = AtSend"
    and pt: "pt = (if sn_err g \<noteq> [] then (st_tracker s)\<lparr>pu_err := [sn_err g]\<rparr> else (st_tracker s)\<lparr>pu_done := 1\<rparr>)"
  shows "push_inv (upd s k (next_sample g) (st_profiles s) pt)"
proof -
  have f: "failed_ok s" "pending_ok s" using inv by (simp_all add: push_inv_def)
  have n: "0 < cnt (at AtSend (sn_err g = [])) (st_senders s)" using at_pos[OF k] pc g by (simp add: at_def)
  note a = at_update[OF k g, of _ _ "next_sample g"]
  have pend: "pending_ok (upd s k (next_sample g) (st_profiles s) pt)"
    using f(2) n a[of AtPush True] a[of AtSend True] pc pt unfolding pending_ok_def
    by (cases "sn_err g = []") (auto simp: at_def of_bool_def split: if_splits)
  have fail: "failed_ok (upd s k (next_sample g) (st_profiles s) pt)"
    using f(1) n a[of AtPush False] a[of AtSend False] pc pt unfolding failed_ok_def
    by (cases "sn_err g = []") (auto simp: at_def of_bool_def split: if_splits)
  show ?thesis using pc counted_push(2)[of g] by (intro inv_other[OF inv k g _ _ _ _ _ pend fail]) auto
qed

text \<open>No send ever blocks.\<close>

lemma send_free:
  assumes "push_inv s" and "g \<in> set (st_senders s)" and "sn_pc g = AtSend"
  shows "sn_err g \<noteq> [] \<Longrightarrow> pu_err (st_tracker s) = []" and "sn_err g = [] \<Longrightarrow> pu_done (st_tracker s) = 0"
proof -
  have "at AtSend (sn_err g = []) g" using assms(3) by (simp add: at_def)
  then have n: "0 < cnt (at AtSend (sn_err g = [])) (st_senders s)" using assms(2) cnt_pos by blast
  have le: "cnt (at AtSend False) (st_senders s) + length (pu_err (st_tracker s)) \<le> 1" "cnt (at AtSend True) (st_senders s) + pu_done (st_tracker s) \<le> 1"
    using assms(1) unfolding push_inv_def failed_ok_def pending_ok_def by (auto simp: of_bool_def split: if_splits)
  show "pu_err (st_tracker s) = []" if "sn_err g \<noteq> []"
  proof -
    have "0 < cnt (at AtSend False) (st_senders s)" using n that by simp
    then have "length (pu_err (st_tracker s)) = 0" using le(1) by linarith
    then show ?thesis by simp
  qed
  show "pu_done (st_tracker s) = 0" if "sn_err g = []" using n le(2) that by simp
qed

lemma inv_send_step:
  assumes inv: "push_inv s" and k: "k < length (st_senders s)"
    and step: "send_step pool (st_senders s ! k) (st_profiles s) (st_tracker s) = Some (g', profiles, pt)"
  shows "push_inv (upd s k g' profiles pt)"
proof (cases "sn_pc (st_senders s ! k)")
  case Calling
  let ?g = "st_senders s ! k"
  have "sn_i ?g = 0" using inv k Calling unfolding push_inv_def counters_ok_def by simp
  then have c: "counted ?g = {}" "counted g' = {}" "sn_pc g' = AtTracker" "sn_samples g' = sn_samples ?g" "profiles = st_profiles s" "pt = st_tracker s"
    using step Calling by (auto simp: send_step_def counted_def)
  note a = at_update[OF k refl, of _ _ g']
  have "pending_ok (upd s k g' (st_profiles s) pt)" "failed_ok (upd s k g' (st_profiles s) pt)"
    using inv a[of AtPush True] a[of AtSend True] a[of AtPush False] a[of AtSend False] c(3,6) Calling unfolding push_inv_def pending_ok_def failed_ok_def
    by (simp_all add: at_def)
  then have "push_inv (upd s k g' (st_profiles s) pt)" using c by (intro inv_other[OF inv k refl]) simp_all
  then show ?thesis using c(5) by simp
next
  case AtTracker
  then show ?thesis using step inv_success[OF inv k refl AtTracker _ _ refl refl refl] inv_failure[OF inv k refl AtTracker _ _ refl refl refl]
    by (auto simp: send_step_def Let_def split: if_splits)
next
  case AtPush
  then show ?thesis using step inv_push_success[OF inv k refl AtPush _ refl refl] inv_push_failure[OF inv k refl AtPush _ refl refl]
    by (auto simp: send_step_def Let_def split: if_splits)
next
  case AtSend
  then show ?thesis using step inv_send[OF inv k refl AtSend refl] by (auto simp: send_step_def split: if_splits)
qed

lemma push_step_inv: "push_step pool s s' \<Longrightarrow> push_inv s \<Longrightarrow> push_inv s'"
proof (induction rule: push_step.induct)
  case (sending k s g profiles pt)
  then show ?case using inv_send_step by blast
next
  case (woken_done s)
  have "pu_samplesPending (st_tracker s) = 0 \<and> st_profiles s \<noteq> []"
    using woken_done unfolding push_inv_def pending_ok_def by (auto simp: of_bool_def split: if_splits)
  then show ?case using woken_done by (auto simp: push_inv_def plan_ok_def counters_ok_def pending_ok_def failed_ok_def)
qed (auto simp: push_inv_def plan_ok_def counters_ok_def pending_ok_def failed_ok_def)

lemma push_reach_inv: "(push_step pool)\<^sup>*\<^sup>* s s' \<Longrightarrow> push_inv s \<Longrightarrow> push_inv s'"
  by (induction rule: rtranclp_induct) (auto dest: push_step_inv)

subsection \<open>The ingesters of the series\<close>

lemma cnt_AList_update:
  "distinct (map fst m) \<Longrightarrow> cnt P (AList.update a v m) + of_bool (\<exists>w. map_of m a = Some w \<and> P (a, w)) = cnt P m + of_bool (P (a, v))"
proof (induction m)
  case (Cons e m)
  show ?case
  proof (cases "fst e = a")
    case True
    then show ?thesis by (cases e) (auto simp: cnt_def)
  next
    case False
    then show ?thesis using Cons by (cases e) (auto simp: cnt_def)
  qed
qed (simp add: cnt_def)

abbreviation has :: "nat \<Rightarrow> string \<times> nat list \<Rightarrow> bool" where
  "has i e \<equiv> i \<in> set (snd e)"

definition lists_ok :: "nat \<Rightarrow> (string \<times> nat list) list \<Rightarrow> bool" where
  "lists_ok n m \<longleftrightarrow> distinct (map fst m) \<and> (\<forall>e \<in> set m. distinct (snd e) \<and> set (snd e) \<subseteq> {..<n})"

abbreviation add_to :: "nat \<Rightarrow> string \<Rightarrow> (string \<times> nat list) list \<Rightarrow> (string \<times> nat list) list" where
  "add_to i addr m \<equiv> AList.update addr ((case map_of m addr of None \<Rightarrow> [] | Some is \<Rightarrow> is) @ [i]) m"

lemma add_to_ok:
  assumes "lists_ok (Suc i) m" and new: "\<forall>is. map_of m a = Some is \<longrightarrow> i \<notin> set is"
  shows "lists_ok (Suc i) (add_to i a m)" and "cnt (has i) (add_to i a m) = cnt (has i) m + 1"
    and "j \<noteq> i \<Longrightarrow> cnt (has j) (add_to i a m) = cnt (has j) m"
proof -
  let ?v = "(case map_of m a of None \<Rightarrow> [] | Some is \<Rightarrow> is) @ [i]"
  have d: "distinct (map fst m)" and e: "\<And>b is. (b, is) \<in> set m \<Longrightarrow> distinct is \<and> set is \<subseteq> {..<Suc i}" using assms(1) unfolding lists_ok_def by (blast, metis snd_conv)
  have v: "distinct ?v \<and> set ?v \<subseteq> {..<Suc i}" using new e by (cases "map_of m a") (auto dest: map_of_SomeD)
  have "b = a \<and> is = ?v \<or> (b, is) \<in> set m" if "(b, is) \<in> set (add_to i a m)" for b "is"
    using that d by (induction m) (auto split: if_splits)
  then have "\<forall>e \<in> set (add_to i a m). distinct (snd e) \<and> set (snd e) \<subseteq> {..<Suc i}" using v e by (metis prod.collapse snd_conv)
  then show "lists_ok (Suc i) (add_to i a m)" using d by (simp add: lists_ok_def distinct_update)
  show "cnt (has i) (add_to i a m) = cnt (has i) m + 1" using cnt_AList_update[OF d, of "has i" a ?v] new by (cases "map_of m a") auto
  show "cnt (has j) (add_to i a m) = cnt (has j) m" if "j \<noteq> i"
    using cnt_AList_update[OF d, of "has j" a ?v] that by (cases "map_of m a") auto
qed

lemma add_all_ok:
  assumes "lists_ok (Suc i) m" and "distinct addrs" and "\<forall>a \<in> set addrs. \<forall>is. map_of m a = Some is \<longrightarrow> i \<notin> set is"
  shows "lists_ok (Suc i) (fold (add_to i) addrs m) \<and> cnt (has i) (fold (add_to i) addrs m) = cnt (has i) m + length addrs
    \<and> (\<forall>j. j \<noteq> i \<longrightarrow> cnt (has j) (fold (add_to i) addrs m) = cnt (has j) m)"
  using assms
proof (induction addrs arbitrary: m)
  case (Cons a addrs)
  have new: "\<forall>is. map_of m a = Some is \<longrightarrow> i \<notin> set is" using Cons.prems by simp
  note a = add_to_ok[OF Cons.prems(1) new]
  have p: "\<forall>b \<in> set addrs. \<forall>is. map_of (add_to i a m) b = Some is \<longrightarrow> i \<notin> set is" using Cons.prems(2,3) by (auto simp: update_conv')
  have d: "distinct addrs" using Cons.prems(2) by simp
  show ?case using Cons.IH[OF a(1) d p] a(2,3) by simp
qed simp

definition ring_ok :: "(u32 \<Rightarrow> errs + ReplicationSet) \<Rightarrow> bool" where
  "ring_ok ring \<longleftrightarrow> (\<forall>key rs. ring key = Inr rs \<longrightarrow> distinct (rp_Instances rs) \<and> 0 \<le> rp_MaxErrors rs \<and> rp_MaxErrors rs < int (length (rp_Instances rs)))"

definition needs :: "profileTracker \<Rightarrow> nat \<Rightarrow> bool" where
  "needs t n \<longleftrightarrow> 0 < tk_minSuccess t \<and> 0 \<le> tk_maxFailures t \<and> tk_minSuccess t + tk_maxFailures t = int n \<and> tk_succeeded t = 0 \<and> tk_failed t = 0"

lemma assign_ingesters_ok:
  assumes "ring_ok ring" and "assign_ingesters ring i keys ts m = Inr (profiles, m')" and "length ts = i + length keys" and "lists_ok i m"
    and "\<forall>t \<in> set ts. tk_succeeded t = 0 \<and> tk_failed t = 0" and "\<forall>j < i. needs (ts ! j) (cnt (has j) m)"
  shows "length profiles = length ts \<and> lists_ok (length ts) m' \<and> (\<forall>j < length ts. needs (profiles ! j) (cnt (has j) m'))"
  using assms(2-)
proof (induction keys arbitrary: i ts m)
  case (Cons key keys)
  from Cons.prems(1) obtain rs where rs: "ring key = Inr rs" by (cases "ring key") auto
  then have r: "distinct (rp_Instances rs)" "0 \<le> rp_MaxErrors rs" "rp_MaxErrors rs < int (length (rp_Instances rs))" using assms(1) unfolding ring_ok_def by blast+
  let ?t = "(ts ! i)\<lparr>tk_minSuccess := int (length (rp_Instances rs)) - rp_MaxErrors rs, tk_maxFailures := rp_MaxErrors rs\<rparr>"
  let ?m = "fold (add_to i) (rp_Instances rs) m"
  have notin: "i \<notin> set is" if "(a, is) \<in> set m" for a "is" using Cons.prems(3) that unfolding lists_ok_def by fastforce
  then have c0: "cnt (has i) m = 0" by (auto simp: cnt_def filter_empty_conv)
  have m: "lists_ok (Suc i) m" using Cons.prems(3) unfolding lists_ok_def by fastforce
  have new: "\<forall>a \<in> set (rp_Instances rs). \<forall>is. map_of m a = Some is \<longrightarrow> i \<notin> set is" using notin map_of_SomeD by fast
  have a: "lists_ok (Suc i) ?m" "cnt (has i) ?m = cnt (has i) m + length (rp_Instances rs)" "\<And>j. j \<noteq> i \<Longrightarrow> cnt (has j) ?m = cnt (has j) m"
    using add_all_ok[OF m r(1) new] by simp_all
  have il: "i < length ts" using Cons.prems(2) by simp
  have "assign_ingesters ring (Suc i) keys (ts[i := ?t]) ?m = Inr (profiles, m')" using Cons.prems(1) rs by simp
  moreover have "\<forall>t \<in> set (ts[i := ?t]). tk_succeeded t = 0 \<and> tk_failed t = 0" using Cons.prems(4) il set_update_subset_insert[of ts i ?t] nth_mem[OF il] by fastforce
  moreover have "needs (ts[i := ?t] ! j) (cnt (has j) ?m)" if "j < Suc i" for j
    using that Cons.prems(4,5) a(2,3) c0 r(2,3) il nth_mem[OF il] by (cases "j = i") (auto simp: needs_def)
  ultimately show ?case using Cons.IH[of "Suc i" "ts[i := ?t]" ?m] Cons.prems(2) a(1) by auto
qed auto

lemma cnt_map: "cnt P (map f xs) = cnt (\<lambda>x. P (f x)) xs"
  by (simp add: cnt_def filter_map comp_def)

lemma push_start_inv:
  assumes "lists_ok (length profiles) m" and needs: "\<forall>j < length profiles. needs (profiles ! j) (cnt (has j) m)"
    and "length profiles * length m < 2 ^ 31" and len: "length profiles < 2 ^ 31"
  shows "push_inv (push_start profiles m)"
proof -
  let ?s = "push_start profiles m"
  have z: "unat (tk_succeeded t) = 0" "excess t = 0" "\<not> quorum t" if "t \<in> set profiles" for t
    using needs that by (auto simp: in_set_conv_nth needs_def excess_def quorum_def)
  have g: "sn_i g = 0 \<and> sn_pc g = Calling \<and> (\<exists>a. (a, sn_samples g) \<in> set m)" if "g \<in> set (st_senders ?s)" for g using that by (auto simp: push_start_def)
  have c: "cnt (at AtPush b) (st_senders ?s) = 0" "cnt (at AtSend b) (st_senders ?s) = 0" "cnt (acked i) (st_senders ?s) = 0" "cnt (refused i) (st_senders ?s) = 0" for b i
    using g by (auto simp: cnt_def filter_empty_conv at_def acked_def refused_def counted_def)
  have "cnt (\<lambda>g. i \<in> set (sn_samples g)) (st_senders ?s) = cnt (has i) m" for i
    by (simp add: push_start_def cnt_map split_beta)
  moreover have "distinct (sn_samples g) \<and> (\<forall>i \<in> set (sn_samples g). i < length profiles)" if "g \<in> set (st_senders ?s)" for g
    using g[OF that] assms(1) unfolding lists_ok_def by fastforce
  moreover have "min_ok (profiles ! j) + max_bad (profiles ! j) = cnt (has j) m" if "j < length profiles" for j
    using needs[rule_format, OF that] unfolding needs_def by linarith
  ultimately have "plan_ok ?s" using assms(3) len needs unfolding plan_ok_def needs_def by (simp add: push_start_def)
  moreover have "counters_ok ?s" using c g needs unfolding counters_ok_def needs_def by (auto simp: push_start_def)
  moreover have "cnt quorum profiles = 0" "(\<Sum>t\<leftarrow>profiles. excess t) = 0" using z by (auto simp: cnt_def filter_empty_conv intro: sum_list_0)
  then have "pending_ok ?s" "failed_ok ?s" using c len unat_of_nat_31[OF len] by (auto simp: pending_ok_def failed_ok_def push_start_def)
  ultimately show ?thesis by (simp add: push_inv_def)
qed

lemma push_series_length: "push_series cd H now uuid n req = Some (Inr series) \<Longrightarrow> length series = length req"
  by (induction req arbitrary: n series) (auto split: sum.splits bind_splits)

lemma Push_inv:
  assumes push: "Push quote cd H now uuid ring tenant req = Some (Inr s)" and "ring_ok ring"
    and "length req * length (st_senders s) < 2 ^ 31" and "length req < 2 ^ 31"
  shows "push_inv s" and "length (st_profiles s) = length req" and "\<forall>g \<in> set (st_senders s). sn_pc g = Calling"
proof -
  from push obtain tenantID series profiles m where p: "push_series cd H now uuid 0 req = Some (Inr series)"
    "assign_ingesters ring 0 (map (\<lambda>s. TokenFor tenantID (labelsString_push quote (rs_Labels s))) series)
       (map (\<lambda>s. \<lparr>tk_profile = s, tk_minSuccess = 0, tk_maxFailures = 0, tk_succeeded = 0, tk_failed = 0\<rparr>) series) [] = Inr (profiles, m)"
    "s = push_start profiles m" by (auto simp: Push_def split: sum.splits bind_splits)
  have a: "length profiles = length series \<and> lists_ok (length series) m \<and> (\<forall>j < length series. needs (profiles ! j) (cnt (has j) m))"
    using assign_ingesters_ok[OF assms(2) p(2)] by (simp add: lists_ok_def)
  have l: "length series = length req" using push_series_length[OF p(1)] .
  show "length (st_profiles s) = length req" "\<forall>g \<in> set (st_senders s). sn_pc g = Calling" using a l p(3) by (auto simp: push_start_def)
  show "push_inv s" unfolding p(3) by (rule push_start_inv) (use a l assms(3,4) p(3) in \<open>simp_all add: push_start_def\<close>)
qed

subsection \<open>The answer\<close>

text \<open>What the call to an ingester returned, and how many ingesters accepted or refused a series.\<close>

definition call_result :: "(string \<Rightarrow> errs + (RawProfileSeries list \<Rightarrow> errs)) \<Rightarrow> push_state \<Rightarrow> sender \<Rightarrow> errs" where
  "call_result pool s g = sendProfilesErr pool (sn_addr g) (map (\<lambda>i. tk_profile (st_profiles s ! i)) (sn_samples g))"

definition called :: "nat \<Rightarrow> sender \<Rightarrow> bool" where
  "called i g \<longleftrightarrow> i \<in> set (sn_samples g) \<and> sn_pc g \<noteq> Calling"

definition accepted_by :: "(string \<Rightarrow> errs + (RawProfileSeries list \<Rightarrow> errs)) \<Rightarrow> push_state \<Rightarrow> nat \<Rightarrow> nat" where
  "accepted_by pool s i = cnt (\<lambda>g. called i g \<and> call_result pool s g = []) (st_senders s)"

definition refused_by :: "(string \<Rightarrow> errs + (RawProfileSeries list \<Rightarrow> errs)) \<Rightarrow> push_state \<Rightarrow> nat \<Rightarrow> nat" where
  "refused_by pool s i = cnt (\<lambda>g. called i g \<and> call_result pool s g \<noteq> []) (st_senders s)"

definition calls_ok :: "(string \<Rightarrow> errs + (RawProfileSeries list \<Rightarrow> errs)) \<Rightarrow> push_state \<Rightarrow> bool" where
  "calls_ok pool s \<longleftrightarrow> (\<forall>g \<in> set (st_senders s). sn_pc g \<noteq> Calling \<longrightarrow> sn_err g = call_result pool s g)"

lemma tk_profile_update: "tk_profile t = tk_profile (ps ! i) \<Longrightarrow> tk_profile (ps[i := t] ! j) = tk_profile (ps ! j)"
  by (cases "i < length ps"; cases "i = j") (auto simp: list_update_beyond)

lemma send_step_keeps:
  assumes "send_step pool g ps pt = Some (g', ps', pt')"
  shows "length ps' = length ps" "tk_profile (ps' ! j) = tk_profile (ps ! j)" "sn_addr g' = sn_addr g" "sn_samples g' = sn_samples g" "sn_pc g' \<noteq> Calling"
    "sn_err g' = (if sn_pc g = Calling then sendProfilesErr pool (sn_addr g) (map (\<lambda>i. tk_profile (ps ! i)) (sn_samples g)) else sn_err g)"
  using assms by (auto simp: send_step_def Let_def next_sample_def tk_profile_update split: pc.splits if_splits)

lemma call_result_cong:
  "(\<And>j. tk_profile (st_profiles s' ! j) = tk_profile (st_profiles s ! j)) \<Longrightarrow> sn_addr g' = sn_addr g \<Longrightarrow> sn_samples g' = sn_samples g \<Longrightarrow> call_result pool s' g' = call_result pool s g"
  by (simp add: call_result_def)

lemma push_step_calls: "push_step pool s s' \<Longrightarrow> calls_ok pool s \<Longrightarrow> calls_ok pool s'"
proof (induction rule: push_step.induct)
  case (sending k s g profiles pt)
  let ?s = "upd s k g profiles pt"
  note kp = send_step_keeps[OF sending(2)]
  have same: "call_result pool ?s h = call_result pool s h" for h by (rule call_result_cong) (simp_all add: kp(2))
  have g: "call_result pool s g = call_result pool s (st_senders s ! k)" by (rule call_result_cong) (simp_all add: kp(3,4))
  have "sn_err g = call_result pool s g"
    using kp(6) g sending(1,3) unfolding calls_ok_def by (auto simp: call_result_def)
  moreover have "h = g \<or> h \<in> set (st_senders s)" if "h \<in> set ((st_senders s)[k := g])" for h using that set_update_subset_insert by fast
  ultimately show ?case using sending(3) unfolding calls_ok_def same by auto
qed (simp_all add: calls_ok_def call_result_def)

lemma acked_called:
  assumes "push_inv s" and "calls_ok pool s" and "g \<in> set (st_senders s)"
  shows "acked i g \<Longrightarrow> called i g \<and> call_result pool s g = []" and "refused i g \<Longrightarrow> called i g \<and> call_result pool s g \<noteq> []"
proof -
  have "sn_pc g \<noteq> Calling" if "i \<in> counted g" using assms(1,3) that unfolding push_inv_def counters_ok_def by (auto simp: counted_def)
  moreover have "sn_err g = call_result pool s g" if "sn_pc g \<noteq> Calling" using assms(2,3) that by (simp add: calls_ok_def)
  ultimately show "acked i g \<Longrightarrow> called i g \<and> call_result pool s g = []" "refused i g \<Longrightarrow> called i g \<and> call_result pool s g \<noteq> []"
    using counted_samples[of g] by (auto simp: acked_def refused_def called_def)
qed

lemma push_answer:
  assumes inv: "push_inv s" and calls: "calls_ok pool s"
  shows "st_answer s = Accepted \<Longrightarrow> i < length (st_profiles s) \<Longrightarrow> tk_minSuccess (st_profiles s ! i) \<le> int (accepted_by pool s i)"
    and "st_answer s = Failed e \<Longrightarrow> \<exists>i < length (st_profiles s). tk_maxFailures (st_profiles s ! i) < int (refused_by pool s i)"
proof -
  have acc: "cnt (acked i) (st_senders s) \<le> accepted_by pool s i" "cnt (refused i) (st_senders s) \<le> refused_by pool s i" for i
    unfolding accepted_by_def refused_by_def using acked_called[OF inv calls] by (auto intro!: cnt_mono)
  have c: "unat (tk_succeeded (st_profiles s ! i)) = cnt (acked i) (st_senders s)" "unat (tk_failed (st_profiles s ! i)) = cnt (refused i) (st_senders s)"
    if "i < length (st_profiles s)" for i using inv that unfolding push_inv_def counters_ok_def by blast+
  show "tk_minSuccess (st_profiles s ! i) \<le> int (accepted_by pool s i)" if a: "st_answer s = Accepted" and i: "i < length (st_profiles s)"
  proof -
    have "pu_samplesPending (st_tracker s) = 0" using inv a unfolding push_inv_def pending_ok_def by (auto simp: of_bool_def split: if_splits)
    then have "length (st_profiles s) \<le> cnt quorum (st_profiles s)" using inv unfolding push_inv_def pending_ok_def by simp
    then have "\<forall>t \<in> set (st_profiles s). quorum t" using cnt_all[of quorum "st_profiles s"] cnt_le[of quorum "st_profiles s"] by simp
    then have "min_ok (st_profiles s ! i) \<le> cnt (acked i) (st_senders s)" using nth_mem[OF i] c(1)[OF i] unfolding quorum_def by metis
    then show ?thesis using acc(1)[of i] by linarith
  qed
  show "\<exists>i < length (st_profiles s). tk_maxFailures (st_profiles s ! i) < int (refused_by pool s i)" if a: "st_answer s = Failed e"
  proof -
    have "pu_samplesFailed (st_tracker s) \<noteq> 0" using inv a unfolding push_inv_def failed_ok_def by (auto simp: of_bool_def split: if_splits)
    then have "0 < unat (pu_samplesFailed (st_tracker s))" using unat_eq_zero by blast
    then have "(\<Sum>t\<leftarrow>st_profiles s. excess t) \<noteq> 0" using inv unfolding push_inv_def failed_ok_def by linarith
    then obtain i where i: "i < length (st_profiles s)" "excess (st_profiles s ! i) \<noteq> 0" by (auto simp: sum_list_eq_0_iff in_set_conv_nth)
    then have "max_bad (st_profiles s ! i) < cnt (refused i) (st_senders s)" using c(2)[OF i(1)] by (simp add: excess_def)
    then show ?thesis using i(1) acc(2)[of i] by (intro exI[of _ i]) linarith
  qed
qed

subsection \<open>The goroutines come to an end\<close>

definition sender_work :: "sender \<Rightarrow> nat" where
  "sender_work g = (let n = length (sn_samples g) - sn_i g
     in case sn_pc g of Calling \<Rightarrow> 3 * n + 1 | AtTracker \<Rightarrow> 3 * n | AtPush \<Rightarrow> 3 * n - 1 | AtSend \<Rightarrow> 3 * n - 2)"

definition work :: "push_state \<Rightarrow> nat" where
  "work s = (\<Sum>g\<leftarrow>st_senders s. sender_work g) + of_bool (st_answer s = Waiting)"

lemma send_step_work:
  assumes "send_step pool g ps pt = Some (g', ps', pt')" and "sn_pc g = AtPush \<or> sn_pc g = AtSend \<longrightarrow> sn_i g < length (sn_samples g)"
  shows "sender_work g' < sender_work g"
  using assms by (cases "sn_pc g") (auto simp: send_step_def Let_def sender_work_def next_sample_def split: if_splits)

lemma push_step_work: "push_step pool s s' \<Longrightarrow> push_inv s \<Longrightarrow> work s' < work s"
proof (induction rule: push_step.induct)
  case (sending k s g profiles pt)
  have "sn_pc (st_senders s ! k) = AtPush \<or> sn_pc (st_senders s ! k) = AtSend \<longrightarrow> sn_i (st_senders s ! k) < length (sn_samples (st_senders s ! k))"
    using sending(1,3) unfolding push_inv_def counters_ok_def by simp
  from send_step_work[OF sending(2) this] show ?case using sum_list_update_add[OF sending(1), of sender_work g] by (simp add: work_def)
qed (simp_all add: work_def)

lemma send_step_None:
  assumes "push_inv s" and "g \<in> set (st_senders s)" and "send_step pool g (st_profiles s) (st_tracker s) = None"
  shows "sn_pc g = AtTracker \<and> counted g = set (sn_samples g)"
  using assms(3) send_free[OF assms(1,2)] by (cases "sn_pc g") (auto simp: send_step_def Let_def counted_def split: if_splits)

lemma send_step_ends:
  assumes "push_inv s" and "g \<in> set (st_senders s)" and "send_step pool g (st_profiles s) (st_tracker s) = None"
  shows "sn_pc g = AtTracker \<and> length (sn_samples g) \<le> sn_i g"
  using assms(3) send_free[OF assms(1,2)] by (cases "sn_pc g") (auto simp: send_step_def Let_def split: if_splits)

lemma all_sent_signal:
  assumes inv: "push_inv s" and ps: "st_profiles s \<noteq> []" and fin: "\<forall>g \<in> set (st_senders s). sn_pc g = AtTracker \<and> counted g = set (sn_samples g)"
    and wait: "st_answer s = Waiting"
  shows "0 < pu_done (st_tracker s) \<or> pu_err (st_tracker s) \<noteq> []"
proof -
  have z: "cnt (at AtPush b) (st_senders s) = 0" "cnt (at AtSend b) (st_senders s) = 0" for b using fin by (auto simp: cnt_def filter_empty_conv at_def)
  have split: "cnt (\<lambda>g. i \<in> set (sn_samples g)) xs = cnt (acked i) xs + cnt (refused i) xs"
    if "\<forall>g \<in> set xs. counted g = set (sn_samples g)" for i xs
    using that by (induction xs) (auto simp: cnt_def acked_def refused_def)
  have part: "quorum (st_profiles s ! i) \<or> excess (st_profiles s ! i) \<noteq> 0" if i: "i < length (st_profiles s)" for i
  proof -
    have "min_ok (st_profiles s ! i) + max_bad (st_profiles s ! i) = cnt (acked i) (st_senders s) + cnt (refused i) (st_senders s)"
      using inv i split[of "st_senders s" i] fin unfolding push_inv_def plan_ok_def by simp
    moreover have "unat (tk_succeeded (st_profiles s ! i)) = cnt (acked i) (st_senders s)" "unat (tk_failed (st_profiles s ! i)) = cnt (refused i) (st_senders s)"
      using inv i unfolding push_inv_def counters_ok_def by blast+
    ultimately show ?thesis unfolding quorum_def excess_def by linarith
  qed
  show ?thesis
  proof (cases "\<forall>t \<in> set (st_profiles s). quorum t")
    case True
    then have "cnt quorum (st_profiles s) = length (st_profiles s)" by (simp add: cnt_all)
    then have "pu_samplesPending (st_tracker s) = 0" using inv z unfolding push_inv_def pending_ok_def by (simp add: unat_eq_zero)
    then show ?thesis using inv z ps wait unfolding push_inv_def pending_ok_def by simp
  next
    case False
    then obtain i where i: "i < length (st_profiles s)" "\<not> quorum (st_profiles s ! i)" by (auto simp: in_set_conv_nth)
    then have "(\<Sum>t\<leftarrow>st_profiles s. excess t) \<noteq> 0" using part[OF i(1)] by (auto simp: sum_list_eq_0_iff)
    then have "pu_samplesFailed (st_tracker s) \<noteq> 0" using inv z unfolding push_inv_def failed_ok_def by auto
    then have "length (pu_err (st_tracker s)) = 1" using inv z wait unfolding push_inv_def failed_ok_def by simp
    then show ?thesis by auto
  qed
qed

lemma waiting_step:
  assumes inv: "push_inv s" and ps: "st_profiles s \<noteq> []" and w: "st_answer s = Waiting"
  shows "\<exists>s'. push_step pool s s' \<and> st_answer s' \<noteq> Cancelled"
proof (rule ccontr)
  assume "\<not> ?thesis"
  then have quiet: "\<forall>s'. push_step pool s s' \<longrightarrow> st_answer s' = Cancelled" by blast
  have "send_step pool (st_senders s ! k) (st_profiles s) (st_tracker s) = None" if "k < length (st_senders s)" for k
    using sending[OF that, of pool] quiet w by (cases "send_step pool (st_senders s ! k) (st_profiles s) (st_tracker s)") fastforce+
  then have "\<forall>g \<in> set (st_senders s). sn_pc g = AtTracker \<and> counted g = set (sn_samples g)"
    using send_step_None[OF inv] by (metis in_set_conv_nth)
  from all_sent_signal[OF inv ps this w] show False
  proof
    assume "0 < pu_done (st_tracker s)"
    then show False using woken_done[OF w, of pool] quiet by fastforce
  next
    assume "pu_err (st_tracker s) \<noteq> []"
    then obtain e es where "pu_err (st_tracker s) = e # es" by (cases "pu_err (st_tracker s)") auto
    then show False using woken_err[OF w, of e es pool] quiet by fastforce
  qed
qed

lemma reach_keeps: "(push_step pool)\<^sup>*\<^sup>* s s' \<Longrightarrow> push_inv s \<Longrightarrow> calls_ok pool s \<Longrightarrow> push_inv s' \<and> calls_ok pool s' \<and> length (st_profiles s') = length (st_profiles s)"
proof (induction rule: rtranclp_induct)
  case (step s1 s2)
  have "length (st_profiles s2) = length (st_profiles s1)" using step(2) by (cases rule: push_step.cases) (auto dest: send_step_keeps(1))
  then show ?case using step push_step_inv push_step_calls by metis
qed simp

text \<open>
  C35. The answer of \<open>Push\<close> is right under every interleaving of the goroutines and whatever the ingesters answer.  When the caller is told that
  the push was accepted, every series was accepted by as many ingesters as the ring demands; when it gets an error,
  some series was refused by more ingesters than the ring tolerates.
\<close>

theorem Push_quorum:
  assumes push: "Push quote cd H now uuid ring tenant req = Some (Inr s0)" and ring: "ring_ok ring"
    and size: "length req < 2 ^ 31" "length req * length (st_senders s0) < 2 ^ 31" and reach: "(push_step pool)\<^sup>*\<^sup>* s0 s"
  shows "(st_answer s = Accepted \<longrightarrow> (\<forall>i < length req. tk_minSuccess (st_profiles s ! i) \<le> int (accepted_by pool s i)))
    \<and> ((\<exists>e. st_answer s = Failed e) \<longrightarrow> (\<exists>i < length req. tk_maxFailures (st_profiles s ! i) < int (refused_by pool s i)))"
proof -
  note p = Push_inv[OF push ring size(2,1)]
  have "calls_ok pool s0" using p(3) by (simp add: calls_ok_def)
  then have r: "push_inv s" "calls_ok pool s" "length (st_profiles s) = length req" using reach_keeps[OF reach p(1)] p(2) by auto
  show ?thesis using push_answer[OF r(1,2)] r(3) by auto
qed

text \<open>
  C36. \<open>Push\<close> of at least one series is answered, under every interleaving.  In every state that can be reached, also after the caller was answered or gave up: every step
  brings the goroutines closer to their end, and every goroutine that has not gone through all its series can take a step, so that no send
  to \<open>tracker.err\<close> or \<open>tracker.done\<close> ever blocks, and none of them is left behind.  As long as the caller waits there is a step other than giving up.
\<close>

theorem Push_answers:
  assumes push: "Push quote cd H now uuid ring tenant req = Some (Inr s0)" and ring: "ring_ok ring" and "req \<noteq> []"
    and size: "length req < 2 ^ 31" "length req * length (st_senders s0) < 2 ^ 31" and reach: "(push_step pool)\<^sup>*\<^sup>* s0 s"
  shows "(\<forall>s'. push_step pool s s' \<longrightarrow> work s' < work s)
    \<and> (\<forall>g \<in> set (st_senders s). sn_pc g = AtTracker \<and> length (sn_samples g) \<le> sn_i g
         \<or> (\<exists>g' ps pt. send_step pool g (st_profiles s) (st_tracker s) = Some (g', ps, pt)))
    \<and> (st_answer s = Waiting \<longrightarrow> (\<exists>s'. push_step pool s s' \<and> st_answer s' \<noteq> Cancelled))"
proof -
  note p = Push_inv[OF push ring size(2,1)]
  have "calls_ok pool s0" using p(3) by (simp add: calls_ok_def)
  then have r: "push_inv s" "length (st_profiles s) = length req" using reach_keeps[OF reach p(1)] p(2) by auto
  then have "st_profiles s \<noteq> []" using \<open>req \<noteq> []\<close> by auto
  moreover have "sn_pc g = AtTracker \<and> length (sn_samples g) \<le> sn_i g \<or> (\<exists>g' ps pt. send_step pool g (st_profiles s) (st_tracker s) = Some (g', ps, pt))"
    if "g \<in> set (st_senders s)" for g
    using send_step_ends[OF r(1) that, of pool] by (cases "send_step pool g (st_profiles s) (st_tracker s)") auto
  ultimately show ?thesis using push_step_work waiting_step r(1) by blast
qed

text \<open>
  C37. A push without any series is never answered: there is no goroutine, and the number of pending series, which is zero from the start, never becomes zero.
  The caller waits until it gives up.
\<close>

theorem Push_empty_waits:
  "\<exists>s0. Push quote cd H now uuid ring (Inr tenantID) [] = Some (Inr s0) \<and> st_answer ` {s. (push_step pool)\<^sup>*\<^sup>* s0 s} \<subseteq> {Waiting, Cancelled}"
proof (intro exI conjI)
  let ?s0 = "push_start [] []"
  show "Push quote cd H now uuid ring (Inr tenantID) [] = Some (Inr ?s0)" by (simp add: Push_def)
  have "st_senders s = [] \<and> pu_done (st_tracker s) = 0 \<and> pu_err (st_tracker s) = [] \<and> (st_answer s = Waiting \<or> st_answer s = Cancelled)"
    if "(push_step pool)\<^sup>*\<^sup>* ?s0 s" for s
    using that
  proof (induction rule: rtranclp_induct)
    case (step s1 s2)
    from step(2,3) show ?case by (cases rule: push_step.cases) auto
  qed (simp add: push_start_def)
  then show "st_answer ` {s. (push_step pool)\<^sup>*\<^sup>* ?s0 s} \<subseteq> {Waiting, Cancelled}" by blast
qed

text \<open>Running a schedule: the number of a goroutine, or any other number for the caller.\<close>

definition run_one :: "(string \<Rightarrow> errs + (RawProfileSeries list \<Rightarrow> errs)) \<Rightarrow> nat \<Rightarrow> push_state \<Rightarrow> push_state" where
  "run_one pool k s =
     (if k < length (st_senders s) then
        (case send_step pool (st_senders s ! k) (st_profiles s) (st_tracker s) of None \<Rightarrow> s | Some (g, profiles, pt) \<Rightarrow> upd s k g profiles pt)
      else if st_answer s = Waiting then
        (case pu_err (st_tracker s) of
           e # es \<Rightarrow> s\<lparr>st_tracker := (st_tracker s)\<lparr>pu_err := es\<rparr>, st_answer := Failed e\<rparr>
         | [] \<Rightarrow> if 0 < pu_done (st_tracker s) then s\<lparr>st_tracker := (st_tracker s)\<lparr>pu_done := pu_done (st_tracker s) - 1\<rparr>, st_answer := Accepted\<rparr> else s)
      else s)"

lemma run_reach: "(push_step pool)\<^sup>*\<^sup>* s (fold (run_one pool) ks s)"
proof (induction ks arbitrary: s)
  case (Cons k ks)
  have "run_one pool k s = s \<or> push_step pool s (run_one pool k s)"
    unfolding run_one_def using sending[of k s pool] woken_err[of s _ _ pool] woken_done[of s pool]
    by (auto split: option.split list.split)
  then show ?case using Cons[of "run_one pool k s"] by (auto intro: converse_rtranclp_into_rtranclp)
qed simp

definition demo_ring :: "u32 \<Rightarrow> errs + ReplicationSet" where
  "demo_ring key = Inr \<lparr>rp_Instances = [''a'', ''b'', ''c''], rp_MaxErrors = 1\<rparr>"

definition demo_pool :: "string \<Rightarrow> errs + (RawProfileSeries list \<Rightarrow> errs)" where
  "demo_pool addr = (if addr = ''a'' then Inl [''connection refused''] else Inr (\<lambda>series. []))"

definition demo_codec :: codec where
  "demo_codec = \<lparr>cd_RawFromBytes = (\<lambda>b. Inl [''no profile'']), cd_WriteTo = (\<lambda>p. Inr [])\<rparr>"

abbreviation demo_series :: RawProfileSeries where
  "demo_series \<equiv> \<lparr>rs_Labels = [\<lparr>lp_Name = ''job'', lp_Value = ''x''\<rparr>], rs_Samples = []\<rparr>"

abbreviation demo_push :: push_state where
  "demo_push \<equiv> push_start [\<lparr>tk_profile = demo_series, tk_minSuccess = 2, tk_maxFailures = 1, tk_succeeded = 0, tk_failed = 0\<rparr>] [(''a'', [0]), (''b'', [0]), (''c'', [0])]"

lemma demo_Push: "Push (\<lambda>v. v) demo_codec (\<lambda>b. 0) 0 (\<lambda>n. ''id'') demo_ring (Inr ''tenant'') [demo_series] = Some (Inr demo_push)"
  by (simp add: Push_def demo_ring_def)

lemma demo_ring_ok: "ring_ok demo_ring"
  by (simp add: ring_ok_def demo_ring_def)

theorem Push_quorum_witness:
  "st_answer (fold (run_one demo_pool) [0, 1, 1, 0, 2, 2, 2, 2, 3] demo_push) = Accepted
    \<and> 2 \<le> int (accepted_by demo_pool (fold (run_one demo_pool) [0, 1, 1, 0, 2, 2, 2, 2, 3] demo_push) 0)"
proof -
  let ?s = "fold (run_one demo_pool) [0, 1, 1, 0, 2, 2, 2, 2, 3] demo_push"
  have a: "st_answer ?s = Accepted" "tk_minSuccess (st_profiles ?s ! 0) = 2" by code_simp+
  show ?thesis using Push_quorum[OF demo_Push demo_ring_ok _ _ run_reach, of demo_pool "[0, 1, 1, 0, 2, 2, 2, 2, 3]"] a
    by (simp add: push_start_def)
qed

text \<open>After the push was accepted, the goroutine of the ingester that refused can still go to its end.\<close>

theorem Push_answers_witness:
  "st_answer (fold (run_one demo_pool) [0, 1, 1, 2, 2, 2, 2, 3] demo_push) = Accepted
    \<and> (\<exists>g' ps pt. send_step demo_pool (st_senders (fold (run_one demo_pool) [0, 1, 1, 2, 2, 2, 2, 3] demo_push) ! 0)
         (st_profiles (fold (run_one demo_pool) [0, 1, 1, 2, 2, 2, 2, 3] demo_push)) (st_tracker (fold (run_one demo_pool) [0, 1, 1, 2, 2, 2, 2, 3] demo_push)) = Some (g', ps, pt))
    \<and> (\<exists>s'. push_step demo_pool demo_push s' \<and> st_answer s' \<noteq> Cancelled)"
proof -
  let ?s = "fold (run_one demo_pool) [0, 1, 1, 2, 2, 2, 2, 3] demo_push"
  have a: "st_answer ?s = Accepted" "length (st_senders ?s) = 3" "sn_i (st_senders ?s ! 0) < length (sn_samples (st_senders ?s ! 0))" by code_simp+
  have "st_senders ?s ! 0 \<in> set (st_senders ?s)" using a(2) by (intro nth_mem) simp
  then have g: "\<exists>g' ps pt. send_step demo_pool (st_senders ?s ! 0) (st_profiles ?s) (st_tracker ?s) = Some (g', ps, pt)"
    using Push_answers[OF demo_Push demo_ring_ok _ _ _ run_reach, of demo_pool "[0, 1, 1, 2, 2, 2, 2, 3]"] a(3) by (auto simp: push_start_def)
  have "st_answer demo_push = Waiting" by (simp add: push_start_def)
  then have "\<exists>s'. push_step demo_pool demo_push s' \<and> st_answer s' \<noteq> Cancelled"
    using Push_answers[OF demo_Push demo_ring_ok _ _ _ rtranclp.rtrancl_refl[of "push_step demo_pool" demo_push]] by (simp add: push_start_def)
  then show ?thesis using a(1) g by blast
qed

end
