(* ===== verification/Spec2Isabelle.thy ===== *)
theory Spec2Isabelle
  imports Flamegraph Postings_Sets Sharded_Index Mem_Postings Sample_Merge Pprof_Normalize Database Block_Querier Querier_Service Distributor
begin

text \<open>
  \<^bold>\<open>Grafana Phlare: a continuous profiling database.\<close>

  \<^bold>\<open>The program.\<close> Profiles in pprof format are pushed to a distributor, which sends them to
  ingesters. An ingester keeps one database per tenant: profiles are taken into a \<^emph>\<open>head\<close>, whose
  tables of strings, functions, mappings, locations and stack traces deduplicate what profiles
  share, whose inverted index finds the series of a label selector, and whose profile index finds
  the profiles of a series. A head is flushed to a \<^emph>\<open>block\<close>, a set of parquet files and an index file. A
  query selects profiles in heads and blocks, merges their stack traces or their values by labels, and the
  querier service merges the answers of the ingesters and lays out the flame graph.

  \<^bold>\<open>The theories\<close>, bottom up, with the code they model (paths under \<^verbatim>\<open>src/pkg\<close>):

  \<^item> \<open>Go_Prelude\<close>, \<open>Go_Heap\<close>, \<open>Go_Sort\<close>: what the program uses of Go itself: machine integers,
    \<^verbatim>\<open>sort.Search\<close>, \<^verbatim>\<open>container/heap\<close>, sorting. \<open>Go_Heap\<close> has the locale \<open>heap_order\<close>, interpreted by
    every heap of the program.
  \<^item> \<open>Labels\<close> (\<^verbatim>\<open>model/labels.go\<close>): label sets, their hashes and keys, the builder. Hash
    inputs determine the labels, comparison is an order, the builder applies its edits.
  \<^item> \<open>Flame_Tree\<close>, \<open>Flamegraph\<close> (\<^verbatim>\<open>querier/tree.go\<close>, \<^verbatim>\<open>flamegraph.go\<close>, \<^verbatim>\<open>stack.go\<close>): the call tree
    of the merged stacks and the layout of the flame graph, each against a specification.
  \<^item> \<open>Postings\<close>, \<open>Postings_Contract\<close>, \<open>Postings_Sets\<close>, \<open>Mem_Postings\<close>
    (\<^verbatim>\<open>phlaredb/tsdb/index/postings.go\<close>, \<^verbatim>\<open>postingsstats.go\<close>): iterators over sorted series references,
    the contract of \<open>Next\<close> and \<open>Seek\<close> as a locale, intersection, union, difference and sharding as
    operations on lists, and the postings in memory as a refinement of a history of additions.
  \<^item> \<open>Inverted_Index\<close>, \<open>Sharded_Index\<close> (\<^verbatim>\<open>phlaredb/tsdb/index.go\<close>, \<^verbatim>\<open>bitprefix.go\<close>): a shard refines
    the set of its series, lookups with matchers find exactly the matching series, and the shards
    together answer like one index.
  \<^item> \<open>Matcher_Postings\<close> (\<^verbatim>\<open>phlaredb/querier.go\<close>): the postings of a list of matchers over any
    index reader are the series that satisfy all of them.
  \<^item> \<open>Iterators\<close> (\<^verbatim>\<open>iter\<close>): the iterator interface, slices, batches, the sorting and time
    range iterators, specified by what an iterator \<open>yields\<close>.
  \<^item> \<open>Stack_Merge\<close>, \<open>Series_Merge\<close> (\<^verbatim>\<open>model/stacktraces.go\<close>, \<^verbatim>\<open>series.go\<close>, \<^verbatim>\<open>profile.go\<close>): merging of
    stack traces and series, profile types.
  \<^item> \<open>Dedup_Slice\<close>, \<open>Head_Tables\<close>, \<open>Head_Symbols\<close> (\<^verbatim>\<open>phlaredb/deduplicating_slice.go\<close> and the
    tables): a locale for a deduplicating table, interpreted for the five tables; ingested IDs
    resolve to what was pushed; flushing writes every row, and when it panics or never returns is stated too.
  \<^item> \<open>Pprof_Normalize\<close> (\<^verbatim>\<open>pprof/pprof.go\<close>): what happens to a pushed profile before it is ingested: samples
    are added up per stack, and what is no longer used is removed without changing what the rest says of locations; what becomes of labels is stated apart.
  \<^item> \<open>Delta\<close>, \<open>Profile_Index\<close>, \<open>Head_Labels\<close>, \<open>Head\<close>, \<open>Head_Query\<close> (\<^verbatim>\<open>phlaredb/delta.go\<close>,
    \<^verbatim>\<open>profiles.go\<close>, \<^verbatim>\<open>profile_labels.go\<close>, \<^verbatim>\<open>head.go\<close>): cumulative profiles, the index of profiles, the
    labels of a profile, ingestion and the queries on a head.
  \<^item> \<open>Row_Numbers\<close>, \<open>Join_Iterator\<close>, \<open>Column_File\<close>, \<open>Column_Iterator\<close>, \<open>Column_Query\<close>
    (\<^verbatim>\<open>phlaredb/query/iters.go\<close>, \<^verbatim>\<open>predicates.go\<close>): queries over the columns of a block. The contract of a
    row iterator is the locale \<open>row_source\<close>; the column reader, two threads and a channel, keeps it
    for every schedule, and a join keeps it whenever its inputs do (\<open>join_source\<close>). The locale
    \<open>pushdown\<close> states when a predicate may skip pages.
  \<^item> \<open>Repeated_Rows\<close> (\<^verbatim>\<open>phlaredb/query/repeated.go\<close>): the repeated values of selected rows, read page by
    page and delivered in pieces; every row gets exactly its values.
  \<^item> \<open>Block_Select\<close> (\<^verbatim>\<open>phlaredb/block_querier.go\<close>): the profiles of a block that a request selects,
    from the postings of the matchers over the join of two columns to the sorted profiles.
  \<^item> \<open>Aligned_Columns\<close>, \<open>Sample_Merge\<close> (\<^verbatim>\<open>phlaredb/sample_merge.go\<close>): two columns that are cut alike are read
    like one column of pairs; merging the samples of selected rows by stack trace, with the symbols resolved
    through the tables of the block, and by labels.
  \<^item> \<open>Select_Merge\<close> (\<^verbatim>\<open>querier/select_merge.go\<close>): the querier's side of a merge: it reads the streams of
    the ingesters and keeps one of each group of replicas. The contract of a stream is the locale \<open>keep_stream\<close>.
  \<^item> \<open>Database\<close> (\<^verbatim>\<open>phlaredb/phlaredb.go\<close>): the ingester's side: head and blocks, the batches it streams and
    the profiles it selects by the answers. Together with \<open>Select_Merge\<close>: each profile is selected once.
  \<^item> \<open>Disk_Cleanup\<close> (\<^verbatim>\<open>phlaredb/phlaredb.go\<close>, \<^verbatim>\<open>util/disk\<close>): deleting the oldest blocks of a full disk.
  \<^item> \<open>Block_Querier\<close> (\<^verbatim>\<open>phlaredb/block_querier.go\<close>): one querier per block of the bucket, across any number of changes of the bucket.
  \<^item> \<open>Querier_Service\<close> (\<^verbatim>\<open>querier/querier.go\<close>): the handlers of the querier; the values of a range are summed up per step.
  \<^item> \<open>Distributor\<close> (\<^verbatim>\<open>distributor/distributor.go\<close>): a push to several ingesters as a step relation, one step per
    atomic operation of a goroutine; under every interleaving the answer is that of the quorum, and there is one.

  \<^bold>\<open>How code became definitions.\<close> A struct is a record, an interface a record of its methods over a state
  type, a method that changes its receiver returns the new one. Integers have their width as
  words wherever arithmetic on them can wrap; counts that cannot are \<open>nat\<close> or \<open>int\<close>. Errors are values: an option, a sum, or the list of the
  messages of an error. A loop whose end depends on an interface is a \<open>partial_function\<close> into
  options, where \<open>None\<close> is a run that does not end (or a panic); the theorems about such loops
  state that they return. The postings iterators call each other in a nest whose depth is data, so
  their methods take fuel: \<open>None\<close> asks for more, more fuel never changes an answer, and the contract
  of an iterator shows that enough fuel exists. Maps are association lists, so a theorem for
  every list covers every iteration order. Goroutines are steps under a schedule that the theorems
  quantify over (\<open>Column_Iterator\<close>), or an inductive step relation (\<open>Distributor\<close>); other code that the program protects by locks is sequential.

  \<^bold>\<open>Parameters.\<close> Hash functions, the label matchers of Prometheus, the accessors of parquet values and the
  contents of a parquet file, streams of RPC calls, the ring of ingesters and the file system stand for code that is not part of the repository. What the theorems
  need of them are named hypotheses, with witnesses on concrete functions.

  \<^bold>\<open>Not modelled.\<close> Clients and servers (RPC, HTTP, object storage, usage statistics), configuration,
  wiring, logging, metrics and tracing; generated code; files: writing and reading parquet and the
  index file, uploading blocks. The format of the index file is not modelled
  either; readers of it appear as a record of the operations that a block calls.
\<close>

end
